(* ===== verification/FP_Prelude.thy ===== *)
theory FP_Prelude
  imports Main "HOL-Library.Word" "HOL-Library.Monad_Syntax"
begin

text \<open>
  Shared vocabulary of the development: the machine integer types of the C sources, the
  assertion \<open>bug_on\<close> of \<^verbatim>\<open>src/src/protocol/platform/debug.h\<close>, and the generic facts on words,
  bits and lists that the component theories use.

  \<open>unsigned long\<close> is 64 bits wide on every platform the sources support
  (\<^verbatim>\<open>window.h\<close> refuses to compile otherwise), so \<open>unsigned long\<close>, \<open>size_t\<close> and \<open>u64\<close> are
  all \<open>64 word\<close>. An array is a list; an array index is the natural number \<open>unat i\<close>.
\<close>

unbundle bit_operations_syntax

type_synonym u8 = "8 word"
type_synonym u16 = "16 word"
type_synonym u32 = "32 word"
type_synonym u64 = "64 word"

section \<open>Collections of proof rules\<close>

named_theorems frame_simps \<open>fields an operation leaves unchanged\<close>

section \<open>Assertions\<close>

text \<open>
  \<open>FASTPASS_BUG_ON(cond)\<close> reports a violated assumption and, in the builds that define
  \<open>FASTPASS_BUG_SHOULD_PANIC\<close>, ends the process. An operation that contains such an assertion
  is modelled in the option monad: \<open>None\<close> is the run in which an assertion fired. Where a
  theorem shows that an operation returns \<open>Some\<close>, no assertion fires and the builds that
  only report the violation behave in the same way.
\<close>

definition bug_on :: "bool \<Rightarrow> unit option" where
  "bug_on c = (if c then None else Some ())"

lemma bug_on_simps [simp]:
  "bug_on True = None"
  "bug_on False = Some ()"
  by (simp_all add: bug_on_def)

lemma bug_on_eq_Some [simp]: "bug_on c = Some u \<longleftrightarrow> \<not> c"
  by (simp add: bug_on_def)

lemma bug_on_bind_eq_Some [simp]:
  "(bug_on c \<bind> f = Some r) \<longleftrightarrow> \<not> c \<and> f () = Some r"
  by (simp add: bug_on_def)

section \<open>Loops and total correctness\<close>

text \<open>A counted loop whose body may fail.\<close>

fun for_each :: "('a \<Rightarrow> 's \<Rightarrow> 's option) \<Rightarrow> 'a list \<Rightarrow> 's \<Rightarrow> 's option" where
  "for_each f [] s = Some s"
| "for_each f (x # xs) s = do { s \<leftarrow> f x s; for_each f xs s }"

text \<open>
  \<open>returns m P\<close>: the computation \<open>m\<close> ends without a failure, with a result that satisfies \<open>P\<close>. The
  rules of the collection \<open>returns_intros\<close> take a computation apart from its first call on.
\<close>

definition returns :: "'a option \<Rightarrow> ('a \<Rightarrow> bool) \<Rightarrow> bool" where
  "returns m P \<longleftrightarrow> (\<exists>r. m = Some r \<and> P r)"

named_theorems returns_intros \<open>decomposition of total correctness statements\<close>

lemma returns_Some [simp]: "returns (Some r) P \<longleftrightarrow> P r"
  by (simp add: returns_def)

lemma returns_None [simp]: "\<not> returns None P"
  by (simp add: returns_def)

lemma returns_bind [returns_intros]: "returns m (\<lambda>r. returns (f r) P) \<Longrightarrow> returns (m \<bind> f) P"
  by (auto simp: returns_def)

lemma returns_bug_on [simp]: "returns (bug_on c) P \<longleftrightarrow> \<not> c \<and> P ()"
  by (simp add: bug_on_def)

lemma returns_mono: "returns m P \<Longrightarrow> (\<And>r. P r \<Longrightarrow> Q r) \<Longrightarrow> returns m Q"
  by (auto simp: returns_def)

lemma returns_conj: "returns m P \<Longrightarrow> returns m Q \<Longrightarrow> returns m (\<lambda>r. P r \<and> Q r)"
  by (auto simp: returns_def)

lemma returnsE: "returns m P \<Longrightarrow> (\<And>r. m = Some r \<Longrightarrow> P r \<Longrightarrow> thesis) \<Longrightarrow> thesis"
  by (auto simp: returns_def)

text \<open>The invariant of a counted loop depends on what is left to do.\<close>

lemma returns_for_each:
  assumes "I xs s"
    and "\<And>y ys s. I (y # ys) s \<Longrightarrow> returns (f y s) (I ys)"
  shows "returns (for_each f xs s) (I [])"
  using assms(1)
proof (induction xs arbitrary: s)
  case Nil
  then show ?case by simp
next
  case (Cons x xs)
  show ?case
    using assms(2) [OF Cons.prems] by (auto intro!: returns_bind elim!: returns_mono intro: Cons.IH)
qed

text \<open>A loop over \<open>0, \<dots>, n - 1\<close>.\<close>

lemma for_each_loop:
  assumes "P 0 s" "\<And>i s. i < n \<Longrightarrow> P i s \<Longrightarrow> returns (f i s) (P (Suc i))"
  shows "returns (for_each f [0 ..< n] s) (P n)"
proof -
  have "returns (for_each f [0 ..< n] s) (\<lambda>s. \<exists>k \<le> n. [] = [k ..< n] \<and> P k s)"
  proof (rule returns_for_each [where I = "\<lambda>ys s. \<exists>k \<le> n. ys = [k ..< n] \<and> P k s"])
    show "\<exists>k \<le> n. [0 ..< n] = [k ..< n] \<and> P k s" using assms(1) by auto
    fix y ys t assume "\<exists>k \<le> n. y # ys = [k ..< n] \<and> P k t"
    then have "y < n" "P y t" "ys = [Suc y ..< n]" by (auto simp: eq_commute [of "y # ys"] upt_eq_Cons_conv)
    then show "returns (f y t) (\<lambda>s. \<exists>k \<le> n. ys = [k ..< n] \<and> P k s)"
      using assms(2) [of y t] by (auto elim!: returns_mono intro!: exI [of _ "Suc y"])
  qed
  then show ?thesis by (rule returns_mono) (auto simp: eq_commute [of "[]"])
qed

text \<open>What every round keeps holds after a loop that ends.\<close>

lemma for_each_invariant:
  assumes "for_each f xs s = Some s'" "I s" "\<And>x s s'. x \<in> set xs \<Longrightarrow> I s \<Longrightarrow> f x s = Some s' \<Longrightarrow> I s'"
  shows "I s'"
  using assms by (induction xs arbitrary: s) (auto simp: bind_eq_Some_conv)

section \<open>Lists as arrays\<close>

lemma nth_list_update_if:
  "j < length xs \<Longrightarrow> xs[i := v] ! j = (if i = j then v else xs ! j)"
  by (simp add: nth_list_update)

lemma length_eq_4_conv:
  "length xs = 4 \<longleftrightarrow> (\<exists>a b c d. xs = [a, b, c, d])"
  by (auto simp: numeral_eq_Suc length_Suc_conv)

section \<open>Words\<close>

lemma unat_u64_less [simp]: "unat (x :: u64) < 18446744073709551616"
  by (rule less_le_trans [OF unsigned_less]) simp

lemma unat_u32_less [simp]: "unat (x :: u32) < 4294967296"
  by (rule less_le_trans [OF unsigned_less]) simp

lemma unat_u16_less [simp]: "unat (x :: u16) < 65536"
  by (rule less_le_trans [OF unsigned_less]) simp

lemma unat_u8_less [simp]: "unat (x :: u8) < 256"
  by (rule less_le_trans [OF unsigned_less]) simp

lemma unat_eq_iff: "x = y \<longleftrightarrow> unat x = unat (y :: 'a::len word)"
  by (rule word_unat_eq_iff)

lemma unat_minus_1_u64 [simp]: "unat (- 1 :: u64) = 18446744073709551615"
  by (simp add: unsigned_minus_1_eq_mask mask_eq_exp_minus_1)

lemma unat_of_nat_word: "n < 2 ^ LENGTH('a) \<Longrightarrow> unat (of_nat n :: 'a::len word) = n"
  by (simp add: unsigned_of_nat take_bit_nat_eq_self)

text \<open>Subtraction and addition modulo a divisor of the word size.\<close>

lemma uint_minus_mod_u64:
  assumes "m dvd (2 ^ 64 :: int)"
  shows "uint (a - b :: u64) mod m = (uint a - uint b) mod m"
proof -
  have "uint (a - b) = (uint a - uint b) mod 2 ^ 64"
    by (simp add: uint_word_ariths)
  then show ?thesis
    using assms by (simp add: mod_mod_cancel)
qed

lemma uint_plus_mod_u64:
  assumes "m dvd (2 ^ 64 :: int)"
  shows "uint (a + b :: u64) mod m = (uint a + uint b) mod m"
proof -
  have "uint (a + b) = (uint a + uint b) mod 2 ^ 64"
    by (simp add: uint_word_ariths)
  then show ?thesis
    using assms by (simp add: mod_mod_cancel)
qed

lemma unat_plus_mod_u64:
  assumes "m dvd (2 ^ 64 :: nat)"
  shows "unat (a + b :: u64) mod m = (unat a + unat b) mod m"
  using assms by (simp add: unat_word_ariths mod_mod_cancel)

text \<open>The offset of \<open>b\<close> behind \<open>a\<close> brings \<open>b\<close> back to \<open>a\<close>.\<close>

lemma unat_minus_eq:
  fixes a b :: u64
  shows "unat a = (unat b + unat (a - b)) mod 2 ^ 64"
proof -
  have "unat a = unat (b + (a - b))" by simp
  also have "\<dots> = (unat b + unat (a - b)) mod 2 ^ 64"
    by (subst unat_word_ariths) simp
  finally show ?thesis .
qed

lemma word_eq_0_iff_bits: "(x :: 'a::len word) = 0 \<longleftrightarrow> (\<forall>n < LENGTH('a). \<not> bit x n)"
  by (auto simp: bit_eq_iff bit_imp_le_length)

end
