(* ===== verification/Platform.thy ===== *)
theory Platform
  imports FP_Prelude
begin

text \<open>
  The user-space half of \<^verbatim>\<open>src/src/protocol/platform/generic.h\<close>: bit operations on arrays of
  \<open>unsigned long\<close>, find-first and find-last set bit, the wrap-around comparison of 64-bit
  times and sequence numbers, Jenkins' hash on three words and the Internet-style checksum.
  The lemmas turn each of them into a statement on bits or on natural numbers.
\<close>

section \<open>Bit operations\<close>

definition BITS_PER_LONG :: nat where
  "BITS_PER_LONG = 64"

definition BIT_MASK :: "'a::len word \<Rightarrow> u64" where
  "BIT_MASK nr = push_bit (unat nr mod BITS_PER_LONG) 1"

definition BIT_WORD :: "'a::len word \<Rightarrow> u64" where
  "BIT_WORD nr = ucast nr div of_nat BITS_PER_LONG"

definition set_bit_arr :: "u32 \<Rightarrow> u64 list \<Rightarrow> u64 list" where
  "set_bit_arr nr addr =
     (let p = unat (BIT_WORD nr) in addr[p := (addr ! p) OR BIT_MASK nr])"

definition clear_bit_arr :: "u32 \<Rightarrow> u64 list \<Rightarrow> u64 list" where
  "clear_bit_arr nr addr =
     (let p = unat (BIT_WORD nr) in addr[p := (addr ! p) AND NOT (BIT_MASK nr)])"

definition test_bit_arr :: "u32 \<Rightarrow> u64 list \<Rightarrow> u64" where
  "test_bit_arr nr addr =
     1 AND drop_bit (unat (nr AND 63)) (addr ! unat (BIT_WORD nr))"

text \<open>
  \<open>__fls\<close> is the position of the last (most significant) set bit, \<open>__ffs\<close> of the first.
  The compiler builtin behind \<open>__fls\<close> leaves the result for 0 undefined, and no caller
  uses the result of \<open>__ffs\<close> for 0; both are \<open>hd []\<close> there, of which nothing can be proved.
\<close>

definition fls :: "u64 \<Rightarrow> nat" where
  "fls x = hd (filter (bit x) (rev [0..<64]))"

definition ffs :: "u64 \<Rightarrow> nat" where
  "ffs x = hd (filter (bit x) [0..<64])"

section \<open>Wrap-around comparison of 64-bit counters\<close>

definition time_after64 :: "u64 \<Rightarrow> u64 \<Rightarrow> bool" where
  "time_after64 a b \<longleftrightarrow> sint (b - a) < 0"

definition time_before64 :: "u64 \<Rightarrow> u64 \<Rightarrow> bool" where
  "time_before64 a b \<longleftrightarrow> time_after64 b a"

definition time_after_eq64 :: "u64 \<Rightarrow> u64 \<Rightarrow> bool" where
  "time_after_eq64 a b \<longleftrightarrow> 0 \<le> sint (a - b)"

definition time_before_eq64 :: "u64 \<Rightarrow> u64 \<Rightarrow> bool" where
  "time_before_eq64 a b \<longleftrightarrow> time_after_eq64 b a"

definition time_in_range64 :: "u64 \<Rightarrow> u64 \<Rightarrow> u64 \<Rightarrow> bool" where
  "time_in_range64 a b c \<longleftrightarrow> time_after_eq64 a b \<and> time_before_eq64 a c"

definition max_t :: "u64 \<Rightarrow> u64 \<Rightarrow> u64" where
  "max_t x y = (if y < x then x else y)"

section \<open>Hash and checksum\<close>

definition fp_rot :: "u32 \<Rightarrow> nat \<Rightarrow> u32" where
  "fp_rot x k = push_bit k x OR drop_bit (32 - k) x"

definition fp_jhash_final :: "u32 \<Rightarrow> u32 \<Rightarrow> u32 \<Rightarrow> u32 \<times> u32 \<times> u32" where
  "fp_jhash_final a b c =
     (let c = (c XOR b) - fp_rot b 14;
          a = (a XOR c) - fp_rot c 11;
          b = (b XOR a) - fp_rot a 25;
          c = (c XOR b) - fp_rot b 16;
          a = (a XOR c) - fp_rot c 4;
          b = (b XOR a) - fp_rot a 14;
          c = (c XOR b) - fp_rot b 24
      in (a, b, c))"

definition fp_jhash_3words :: "u32 \<Rightarrow> u32 \<Rightarrow> u32 \<Rightarrow> u32 \<Rightarrow> u32" where
  "fp_jhash_3words a b c initval =
     (let (a, b, c) = fp_jhash_final (a + 0xDEADBEEF) (b + 0xDEADBEEF) (c + initval) in c)"

definition fp_jhash_1word :: "u32 \<Rightarrow> u32 \<Rightarrow> u32" where
  "fp_jhash_1word a initval = fp_jhash_3words a 0 0 initval"

text \<open>
  The checksum reads the packet through an \<open>uint32_t\<close> pointer on a little-endian machine.
  The first argument is the address of the data: the code looks at its two low bits. A read
  behind the end of the list cannot happen for \<open>data_len \<le> length data\<close>.
\<close>

definition rd8 :: "u8 list \<Rightarrow> nat \<Rightarrow> u64" where
  "rd8 d i = ucast (d ! i)"

definition rd16le :: "u8 list \<Rightarrow> nat \<Rightarrow> u64" where
  "rd16le d i = rd8 d i + push_bit 8 (rd8 d (i + 1))"

definition rd32le :: "u8 list \<Rightarrow> nat \<Rightarrow> u64" where
  "rd32le d i = rd16le d i + push_bit 16 (rd16le d (i + 2))"

fun csum_words :: "u8 list \<Rightarrow> nat \<Rightarrow> nat \<Rightarrow> u64 \<Rightarrow> u64" where
  "csum_words d p 0 acc = acc"
| "csum_words d p (Suc n) acc = csum_words d (p + 4) n (acc + rd32le d p)"

definition csum_last :: "u8 list \<Rightarrow> nat \<Rightarrow> nat \<Rightarrow> u64 \<Rightarrow> u64" where
  "csum_last d p rem acc =
     (let acc = (if rem = 3 then acc + push_bit 16 (rd8 d (p + 2)) else acc);
          acc = (if 2 \<le> rem then acc + push_bit 8 (rd8 d (p + 1)) else acc)
      in if 1 \<le> rem then acc + rd8 d p else acc)"

definition fp_csum_partial :: "u64 \<Rightarrow> u8 list \<Rightarrow> nat \<Rightarrow> u32 \<Rightarrow> u32" where
  "fp_csum_partial addr data data_len init_val =
     (let acc = ucast init_val :: u64;
          finish = (\<lambda>acc :: u64.
            let acc = (ucast (ucast acc :: u32) :: u64) + drop_bit 32 acc
            in ucast acc + (ucast (drop_bit 32 acc) :: u32))
      in if data_len < 4 then finish (csum_last data 0 data_len acc)
         else
           let flip = bit addr 0;
               p = (if flip then 1 else 0 :: nat);
               acc = (if flip then acc + push_bit 8 (rd8 data 0) else acc);
               len = (if flip then data_len - 1 else data_len);
               half = bit (addr + of_nat p) 1;
               acc = (if half then acc + rd16le data p else acc);
               p = (if half then p + 2 else p);
               len = (if half then len - 2 else len);
               acc = csum_words data p (len div 4) acc;
               acc = csum_last data (p + 4 * (len div 4)) (len mod 4) acc
           in finish (if flip then push_bit 8 acc else acc))"

definition fp_fold :: "u64 \<Rightarrow> u16" where
  "fp_fold sum64 =
     (let sum64 = (ucast (ucast sum64 :: u32) :: u64) + drop_bit 32 sum64;
          sum32 = ucast (sum64 + drop_bit 32 sum64) :: u32;
          sum32 = (ucast (ucast sum32 :: u16) :: u32) + drop_bit 16 sum32
      in NOT (ucast sum32 + ucast (drop_bit 16 sum32)))"

definition fp_csum_tcpudp_magic :: "u32 \<Rightarrow> u32 \<Rightarrow> u16 \<Rightarrow> u16 \<Rightarrow> u32 \<Rightarrow> u16" where
  "fp_csum_tcpudp_magic saddr daddr len proto sum32 =
     fp_fold (ucast sum32
        + ucast (saddr + daddr + push_bit 8 (ucast len + ucast proto)))"

section \<open>Bits\<close>

lemma unat_ucast_up: "unat (ucast (x :: 'a::len word) :: u64) = unat x" if "LENGTH('a) \<le> 64"
proof -
  have "unat x < 2 ^ LENGTH('a)"
    by (rule unsigned_less)
  also have "\<dots> \<le> 2 ^ 64"
    by (rule power_increasing [OF that]) simp
  finally have "unat x < 2 ^ 64" .
  then show ?thesis
    by (simp add: unsigned_ucast_eq take_bit_eq_mod)
qed

lemma unat_BIT_WORD:
  "unat (BIT_WORD (nr :: 'a::len word)) = unat nr div 64" if "LENGTH('a) \<le> 64"
  using unat_ucast_up [OF that, of nr]
  by (simp add: BIT_WORD_def BITS_PER_LONG_def unat_div)

lemma unat_BIT_WORD_u32 [simp]: "unat (BIT_WORD (nr :: u32)) = unat nr div 64"
  by (simp add: unat_BIT_WORD)

lemma unat_BIT_WORD_u64 [simp]: "unat (BIT_WORD (nr :: u64)) = unat nr div 64"
  by (simp add: unat_BIT_WORD)

lemma bit_BIT_MASK: "bit (BIT_MASK nr) n \<longleftrightarrow> n = unat nr mod 64"
  by (auto simp: BIT_MASK_def BITS_PER_LONG_def bit_simps)

lemma set_bit_arr_eq:
  "set_bit_arr nr a = a[unat nr div 64 := (a ! (unat nr div 64)) OR BIT_MASK nr]"
  by (simp add: set_bit_arr_def Let_def)

lemma clear_bit_arr_eq:
  "clear_bit_arr nr a = a[unat nr div 64 := (a ! (unat nr div 64)) AND NOT (BIT_MASK nr)]"
  by (simp add: clear_bit_arr_def Let_def)

lemma test_bit_arr_eq:
  "test_bit_arr nr a \<noteq> 0 \<longleftrightarrow> bit (a ! (unat nr div 64)) (unat nr mod 64)"
proof -
  have m: "nr AND 63 = nr mod 64"
    using take_bit_eq_mask [of 6 nr] by (simp add: take_bit_eq_mod mask_eq_decr_exp)
  have "unat (nr AND 63) = unat nr mod 64"
    unfolding m by (simp add: unat_mod)
  moreover have "(1 AND y \<noteq> 0) \<longleftrightarrow> bit y 0" for y :: u64
    by (simp add: and.commute [of 1] and_one_eq odd_iff_mod_2_eq_one bit_0)
  ultimately show ?thesis
    by (simp add: test_bit_arr_def bit_drop_bit_eq)
qed

section \<open>First and last set bit\<close>

lemma hd_filter_sorted:
  assumes "sorted_wrt R xs" and "y \<in> set xs" and "P y"
  shows "hd (filter P xs) \<in> set xs \<and> P (hd (filter P xs))
    \<and> (\<forall>z \<in> set xs. P z \<longrightarrow> z = hd (filter P xs) \<or> R (hd (filter P xs)) z)"
  using assms
proof (induction xs)
  case (Cons x xs)
  then show ?case
    by (cases "P x") auto
qed simp

lemma ffs_props:
  assumes "x \<noteq> 0"
  shows bit_ffs: "bit x (ffs x)" and ffs_less: "ffs x < 64"
    and ffs_le: "\<And>n. bit x n \<Longrightarrow> ffs x \<le> n"
proof -
  obtain n where n: "n < 64" "bit x n"
    using assms by (auto simp: word_eq_0_iff_bits)
  note h = hd_filter_sorted [of "(<)" "[0..<64]" n "bit x", OF sorted_wrt_upt]
  show "bit x (ffs x)" "ffs x < 64"
    using h n by (auto simp: ffs_def)
  show "ffs x \<le> m" if "bit x m" for m
  proof -
    have "m < 64" using bit_imp_le_length [OF that] by simp
    then show ?thesis using h n that by (force simp: ffs_def)
  qed
qed

lemma fls_props:
  assumes "x \<noteq> 0"
  shows bit_fls: "bit x (fls x)" and fls_less: "fls x < 64"
    and fls_ge: "\<And>n. bit x n \<Longrightarrow> n \<le> fls x"
proof -
  obtain n where n: "n < 64" "bit x n"
    using assms by (auto simp: word_eq_0_iff_bits)
  have "sorted_wrt (\<lambda>a b. b < a) (rev [0..<64::nat])"
    by (simp add: sorted_wrt_rev)
  note h = hd_filter_sorted [of "\<lambda>a b. b < a" "rev [0..<64]" n "bit x", OF this]
  show "bit x (fls x)" "fls x < 64"
    using h n by (auto simp: fls_def)
  show "m \<le> fls x" if "bit x m" for m
  proof -
    have "m < 64" using bit_imp_le_length [OF that] by simp
    then show ?thesis using h n that by (force simp: fls_def)
  qed
qed

text \<open>\<open>x & -x\<close> is the lowest set bit of \<open>x\<close>, and \<open>x & (x - 1)\<close> is \<open>x\<close> without it.\<close>

lemma bit_lowest: "x \<noteq> 0 \<Longrightarrow> bit (x AND - x :: u64) n \<longleftrightarrow> n = ffs x"
proof -
  assume x0: "x \<noteq> 0"
  define k where "k = ffs x"
  define y where "y = drop_bit k x"
  have k: "k < 64" "bit x k" "\<And>n. n < k \<Longrightarrow> \<not> bit x n"
    using ffs_less [OF x0] bit_ffs [OF x0] ffs_le [OF x0] by (auto simp: k_def not_less [symmetric])
  have x: "x = push_bit k y"
  proof (rule bit_word_eqI)
    show "bit x n \<longleftrightarrow> bit (push_bit k y) n" if "n < LENGTH(64)" for n
      using k(3) [of n] that by (cases "n < k") (auto simp: y_def bit_push_bit_iff bit_drop_bit_eq)
  qed
  have "odd y" using k(2) by (simp add: y_def bit_iff_odd_drop_bit)
  then have "y - 1 = 2 * (y div 2)"
    using mult_div_mod_eq [of 2 y] by (simp add: odd_iff_mod_2_eq_one) (metis add_diff_cancel_right')
  then have "y - 1 = unset_bit 0 y" by (simp add: unset_bit_0)
  then have "- y = NOT (unset_bit 0 y)" by (simp add: minus_eq_not_minus_1)
  then have "y AND - y = 1"
    using \<open>odd y\<close> by (intro bit_word_eqI) (auto simp: bit_simps bit_0 bit_1_iff)
  moreover have "- x = push_bit k (- y)" by (simp add: x push_bit_eq_mult)
  ultimately have "x AND - x = push_bit k 1" by (simp add: x flip: push_bit_and)
  then show ?thesis using k(1) by (auto simp: bit_push_bit_iff bit_1_iff k_def [symmetric] simp del: push_bit_of_1)
qed

lemma bit_clear_lowest: "x \<noteq> 0 \<Longrightarrow> bit (x AND (x - 1) :: u64) n \<longleftrightarrow> bit x n \<and> n \<noteq> ffs x"
proof -
  assume x0: "x \<noteq> 0"
  have "x - 1 = NOT (- x)" by (simp add: minus_eq_not_minus_1)
  moreover have "bit x n \<Longrightarrow> bit (- x) n \<longleftrightarrow> n = ffs x" using bit_lowest [OF x0, of n] by (simp add: bit_and_iff)
  ultimately show ?thesis by (auto simp: bit_and_iff bit_not_iff bit_imp_le_length dest: bit_imp_le_length)
qed

lemma fls_eqI: "bit x m \<Longrightarrow> (\<And>n. bit x n \<Longrightarrow> n \<le> m) \<Longrightarrow> fls x = m"
  by (metis bit_fls fls_ge bit_0_eq bot_apply bot_bool_def order_antisym)

lemma ffs_eqI: "bit x m \<Longrightarrow> (\<And>n. bit x n \<Longrightarrow> m \<le> n) \<Longrightarrow> ffs x = m"
  by (metis bit_ffs ffs_le bit_0_eq bot_apply bot_bool_def order_antisym)

section \<open>Comparison of counters\<close>

lemma sint_u64_neg_iff: "sint (x :: u64) < 0 \<longleftrightarrow> 2 ^ 63 \<le> unat x"
proof -
  have "sint x < 0 \<longleftrightarrow> bit x 63"
    using bit_last_iff [of x] by simp
  also have "\<dots> \<longleftrightarrow> odd (unat x div 2 ^ 63)"
    using bit_unsigned_iff [of x 63, where 'a = nat] by (simp add: bit_iff_odd)
  also have "\<dots> \<longleftrightarrow> 2 ^ 63 \<le> unat x"
  proof (cases "2 ^ 63 \<le> unat x")
    case True
    then have "unat x div 2 ^ 63 = 1"
      using unat_u64_less [of x] by (intro div_nat_eqI) simp_all
    with True show ?thesis by simp
  qed simp
  finally show ?thesis .
qed

lemma time_after64_iff: "time_after64 a b \<longleftrightarrow> 2 ^ 63 \<le> unat (b - a)"
  by (simp add: time_after64_def sint_u64_neg_iff)

lemma time_before64_iff: "time_before64 a b \<longleftrightarrow> 2 ^ 63 \<le> unat (a - b)"
  by (simp add: time_before64_def time_after64_iff)

lemma time_after_eq64_iff: "time_after_eq64 a b \<longleftrightarrow> unat (a - b) < 2 ^ 63"
  using sint_u64_neg_iff [of "a - b"] by (auto simp: time_after_eq64_def not_le)

lemma time_before_eq64_iff: "time_before_eq64 a b \<longleftrightarrow> unat (b - a) < 2 ^ 63"
  by (simp add: time_before_eq64_def time_after_eq64_iff)

lemmas time_cmp = time_after64_iff time_before64_iff time_after_eq64_iff time_before_eq64_iff

end
