(* ===== verification/Window.thy ===== *)
theory Window
  imports Platform
begin

text \<open>
  The sliding window of \<^verbatim>\<open>src/src/protocol/window.h\<close>: a circular bitmap of 256 slots in four
  64-bit words, of which the 192 slots up to the head are in use, with one summary bit per
  word. The first part transcribes the operations; the second states what they mean for the
  set of marked sequence numbers.
\<close>

section \<open>The window and its operations\<close>

definition FASTPASS_WND_LEN :: u64 where
  "FASTPASS_WND_LEN = 192"

definition FASTPASS_WND_WORDS :: u64 where
  "FASTPASS_WND_WORDS = 4"

record fp_window =
  w_marked :: "u64 list"
  w_summary :: u64
  w_head :: u64
  w_head_word :: u32
  w_num_marked :: u32

definition wnd_pos :: "u64 \<Rightarrow> u32" where
  "wnd_pos tslot = ucast (tslot AND 255)"

definition summary_pos :: "fp_window \<Rightarrow> u32 \<Rightarrow> u32" where
  "summary_pos wnd pos =
     ucast ((ucast (w_head_word wnd) - BIT_WORD pos) mod FASTPASS_WND_WORDS)"

definition wnd_empty :: "fp_window \<Rightarrow> bool" where
  "wnd_empty wnd \<longleftrightarrow> w_num_marked wnd = 0"

definition wnd_num_marked :: "fp_window \<Rightarrow> u32" where
  "wnd_num_marked wnd = w_num_marked wnd"

definition wnd_head :: "fp_window \<Rightarrow> u64" where
  "wnd_head wnd = w_head wnd"

definition wnd_edge :: "fp_window \<Rightarrow> u64" where
  "wnd_edge wnd = w_head wnd - FASTPASS_WND_LEN + 1"

definition wnd_seq_before :: "fp_window \<Rightarrow> u64 \<Rightarrow> bool" where
  "wnd_seq_before wnd seqno \<longleftrightarrow> time_before64 seqno (wnd_edge wnd)"

definition wnd_seq_after :: "fp_window \<Rightarrow> u64 \<Rightarrow> bool" where
  "wnd_seq_after wnd seqno \<longleftrightarrow> time_after64 seqno (wnd_head wnd)"

definition wnd_is_marked :: "fp_window \<Rightarrow> u64 \<Rightarrow> bool" where
  "wnd_is_marked wnd seqno \<longleftrightarrow> test_bit_arr (wnd_pos seqno) (w_marked wnd) \<noteq> 0"

definition wnd_mark :: "fp_window \<Rightarrow> u64 \<Rightarrow> fp_window option" where
  "wnd_mark wnd seqno = do {
     let seqno_index = wnd_pos seqno;
     bug_on (wnd_is_marked wnd seqno);
     Some (wnd\<lparr>w_marked := set_bit_arr seqno_index (w_marked wnd),
               w_summary := hd (set_bit_arr (summary_pos wnd seqno_index) [w_summary wnd]),
               w_num_marked := w_num_marked wnd + 1\<rparr>)
   }"

text \<open>
  The \<open>goto\<close> loop over the words strictly between the first and the last word of a bulk mark.
\<close>

partial_function (option) mark_intermediate :: "u64 list \<Rightarrow> u64 \<Rightarrow> u64 \<Rightarrow> u64 list option" where
  "mark_intermediate mk cur_word end_word = do {
     let cur_word = (cur_word + 1) mod FASTPASS_WND_WORDS;
     if cur_word \<noteq> end_word then do {
       bug_on (mk ! unat cur_word \<noteq> 0);
       mark_intermediate (mk[unat cur_word := - 1]) cur_word end_word
     } else Some mk
   }"

definition wnd_mark_bulk :: "fp_window \<Rightarrow> u64 \<Rightarrow> u32 \<Rightarrow> fp_window option" where
  "wnd_mark_bulk wnd seqno amount = do {
     bug_on (time_before_eq64 seqno (w_head wnd - FASTPASS_WND_LEN));
     bug_on (time_after64 (seqno + ucast amount - 1) (w_head wnd));
     let start_index = wnd_pos seqno;
     let start_offset = unat start_index mod BITS_PER_LONG;
     let end_index = wnd_pos (seqno + ucast amount - 1);
     let end_word = BIT_WORD end_index;
     let end_offset = unat end_index mod BITS_PER_LONG;
     let cur_word = BIT_WORD start_index;
     let mask = push_bit start_offset (- 1 :: u64);
     (mk, mask) \<leftarrow>
       (if cur_word = end_word then Some (w_marked wnd, mask)
        else do {
          bug_on ((w_marked wnd ! unat cur_word) AND mask \<noteq> 0);
          let mk = (w_marked wnd)[unat cur_word := (w_marked wnd ! unat cur_word) OR mask];
          mk \<leftarrow> mark_intermediate mk cur_word end_word;
          Some (mk, - 1)
        });
     let mask = mask AND drop_bit (BITS_PER_LONG - 1 - end_offset) (- 1);
     bug_on ((mk ! unat end_word) AND mask \<noteq> 0);
     let mk = mk[unat end_word := (mk ! unat end_word) OR mask];
     let smask = drop_bit (BITS_PER_LONG - 1 - unat (summary_pos wnd start_index)) (- 1)
                 AND push_bit (unat (summary_pos wnd end_index)) (- 1);
     Some (wnd\<lparr>w_marked := mk, w_summary := w_summary wnd OR smask,
               w_num_marked := w_num_marked wnd + amount\<rparr>)
   }"

definition wnd_clear :: "fp_window \<Rightarrow> u64 \<Rightarrow> fp_window option" where
  "wnd_clear wnd seqno = do {
     let seqno_index = wnd_pos seqno;
     bug_on (\<not> wnd_is_marked wnd seqno);
     let mk = clear_bit_arr seqno_index (w_marked wnd);
     let sm = (if mk ! unat (BIT_WORD seqno_index) = 0
               then hd (clear_bit_arr (summary_pos wnd seqno_index) [w_summary wnd])
               else w_summary wnd);
     Some (wnd\<lparr>w_marked := mk, w_summary := sm, w_num_marked := w_num_marked wnd - 1\<rparr>)
   }"

text \<open>The result is an \<open>s32\<close>: the 64-bit value is cut to 32 bits and read as signed.\<close>

definition to_s32 :: "u64 \<Rightarrow> int" where
  "to_s32 x = sint (ucast x :: u32)"

definition wnd_at_or_before :: "fp_window \<Rightarrow> u64 \<Rightarrow> int option" where
  "wnd_at_or_before wnd seqno = do {
     bug_on (time_after64 seqno (w_head wnd));
     if time_before_eq64 seqno (w_head wnd - FASTPASS_WND_LEN) then Some (- 1)
     else
       let seqno_index = wnd_pos seqno;
           seqno_word = BIT_WORD seqno_index;
           seqno_offset = unat seqno_index mod BITS_PER_LONG;
           tmp = push_bit (BITS_PER_LONG - 1 - seqno_offset) (w_marked wnd ! unat seqno_word)
       in if tmp \<noteq> 0 then Some (to_s32 (of_nat BITS_PER_LONG - 1 - of_nat (fls tmp)))
          else
            let tmp = drop_bit (unat (summary_pos wnd seqno_index)) (w_summary wnd);
                tmp = tmp AND NOT 1
            in if tmp = 0 then Some (- 1)
               else
                 let result_word_offset = of_nat (ffs tmp) :: u64;
                     tmp = w_marked wnd !
                             unat ((seqno_word - result_word_offset) mod FASTPASS_WND_WORDS)
                 in Some (to_s32 (of_nat BITS_PER_LONG * result_word_offset
                                  + of_nat seqno_offset - of_nat (fls tmp)))
   }"

definition wnd_earliest_marked :: "fp_window \<Rightarrow> u64" where
  "wnd_earliest_marked wnd =
     (let word_offset = of_nat (fls (w_summary wnd)) :: u64;
          tmp = w_marked wnd !
                  unat ((ucast (w_head_word wnd) - word_offset) mod FASTPASS_WND_WORDS)
      in (w_head wnd AND NOT (of_nat BITS_PER_LONG - 1)) - word_offset * of_nat BITS_PER_LONG
         + of_nat (ffs tmp))"

text \<open>\<open>None\<close> is the result \<open>false\<close>; \<open>Some s\<close> is \<open>true\<close> with \<open>*out_seqno = s\<close>.\<close>

definition wnd_at_or_after :: "fp_window \<Rightarrow> u64 \<Rightarrow> u64 option" where
  "wnd_at_or_after wnd seqno =
     (if wnd_seq_after wnd seqno then None
      else if wnd_seq_before wnd seqno then
        (if wnd_empty wnd then None else Some (wnd_earliest_marked wnd))
      else
        let seqno_index = wnd_pos seqno;
            seqno_word = BIT_WORD seqno_index;
            seqno_offset = unat seqno_index mod BITS_PER_LONG;
            tmp = drop_bit seqno_offset (w_marked wnd ! unat seqno_word)
        in if tmp \<noteq> 0 then Some (seqno + of_nat (ffs tmp))
           else
             let tmp = push_bit (BITS_PER_LONG - 1 - unat (summary_pos wnd seqno_index))
                         (w_summary wnd);
                 tmp = tmp AND (push_bit 63 1 - 1)
             in if tmp = 0 then None
                else
                  let result_word_offset = of_nat BITS_PER_LONG - 1 - of_nat (fls tmp) :: u64;
                      tmp = w_marked wnd !
                              unat ((seqno_word + result_word_offset) mod FASTPASS_WND_WORDS)
                  in Some (seqno - of_nat seqno_offset
                           + of_nat BITS_PER_LONG * result_word_offset + of_nat (ffs tmp)))"

definition wnd_reset :: "fp_window \<Rightarrow> u64 \<Rightarrow> fp_window" where
  "wnd_reset wnd hd_seq =
     wnd\<lparr>w_marked := replicate (unat FASTPASS_WND_WORDS) 0, w_head := hd_seq,
         w_head_word := ucast (BIT_WORD (wnd_pos hd_seq)), w_summary := 0, w_num_marked := 0\<rparr>"

definition wnd_advance :: "fp_window \<Rightarrow> u64 \<Rightarrow> fp_window option" where
  "wnd_advance wnd amount = do {
     let word_shift = BIT_WORD (w_head wnd + amount) - BIT_WORD (w_head wnd);
     wnd' \<leftarrow>
       (if FASTPASS_WND_WORDS \<le> word_shift then do {
          bug_on (w_num_marked wnd \<noteq> 0);
          Some (wnd\<lparr>w_marked := replicate (unat FASTPASS_WND_WORDS) 0, w_summary := 0\<rparr>)
        } else do {
          bug_on (\<not> wnd_empty wnd \<and>
            time_before_eq64 (wnd_earliest_marked wnd) (w_head wnd + amount - FASTPASS_WND_LEN));
          Some (wnd\<lparr>w_summary := push_bit (unat word_shift) (w_summary wnd)\<rparr>)
        });
     Some (wnd'\<lparr>w_head := w_head wnd' + amount,
                w_head_word := ucast ((ucast (w_head_word wnd') + word_shift)
                                      mod FASTPASS_WND_WORDS)\<rparr>)
   }"

definition wnd_get_mask_unsafe :: "fp_window \<Rightarrow> u64 \<Rightarrow> u64" where
  "wnd_get_mask_unsafe wnd pos =
     (let pos_index = wnd_pos pos;
          pos_word = BIT_WORD pos_index;
          pos_offset = unat pos_index mod BITS_PER_LONG
      in if pos_offset = BITS_PER_LONG - 1 then w_marked wnd ! unat pos_word
         else
           let res = push_bit (BITS_PER_LONG - 1 - pos_offset) (w_marked wnd ! unat pos_word);
               pos_word = (pos_word - 1) mod FASTPASS_WND_WORDS
           in res OR drop_bit (pos_offset + 1) (w_marked wnd ! unat pos_word))"

definition wnd_get_mask :: "fp_window \<Rightarrow> u64 \<Rightarrow> u64" where
  "wnd_get_mask wnd pos =
     (if time_before_eq64 pos (w_head wnd - FASTPASS_WND_LEN) then 0
      else if time_after_eq64 pos (w_head wnd + of_nat BITS_PER_LONG) then 0
      else wnd_get_mask_unsafe wnd pos)"

section \<open>Cells: slots counted back from the end of the head word\<close>

text \<open>
  The four words form a ring. Row \<open>k\<close> is the word \<open>k\<close> places behind the word of the head;
  cell \<open>e\<close> is the slot \<open>e\<close> places behind the last slot of row 0, so that row \<open>k\<close> holds the
  cells \<open>64 * k, \<dots>, 64 * k + 63\<close>. The sequence number \<open>head - d\<close> lives in cell
  \<open>d + wnd_off\<close>, because \<open>wnd_off\<close> slots of the head word lie after the head.
\<close>

definition wnd_off :: "fp_window \<Rightarrow> nat" where
  "wnd_off w = 63 - unat (w_head w) mod 64"

definition wnd_row :: "fp_window \<Rightarrow> nat \<Rightarrow> u64" where
  "wnd_row w k = w_marked w ! ((unat (w_head w) div 64 mod 4 + 4 - k) mod 4)"

definition wnd_cell :: "fp_window \<Rightarrow> nat \<Rightarrow> bool" where
  "wnd_cell w e = bit (wnd_row w (e div 64)) (63 - e mod 64)"

definition wnd_back :: "fp_window \<Rightarrow> u64 \<Rightarrow> nat" where
  "wnd_back w s = unat (w_head w - s)"

text \<open>The abstraction: the sequence numbers of the window that are marked.\<close>

definition in_wnd :: "fp_window \<Rightarrow> u64 \<Rightarrow> bool" where
  "in_wnd w s \<longleftrightarrow> wnd_back w s < 192"

definition wnd_set :: "fp_window \<Rightarrow> u64 set" where
  "wnd_set w = {s. in_wnd w s \<and> wnd_cell w (wnd_back w s + wnd_off w)}"

text \<open>
  The invariant: no slot outside the window is marked, the summary bit of a row says whether
  the row has a mark, and the counter counts the marks.
\<close>

definition wnd_inv :: "fp_window \<Rightarrow> bool" where
  "wnd_inv w \<longleftrightarrow>
     length (w_marked w) = 4 \<and>
     unat (w_head_word w) = unat (w_head w) div 64 mod 4 \<and>
     (\<forall>e<256. wnd_cell w e \<longrightarrow> wnd_off w \<le> e \<and> e < wnd_off w + 192) \<and>
     (\<forall>k<64. bit (w_summary w) k \<longleftrightarrow> k < 4 \<and> wnd_row w k \<noteq> 0) \<and>
     unat (w_num_marked w) = card {e. e < 256 \<and> wnd_cell w e}"

lemma wnd_off_less [simp]: "wnd_off w < 64"
  by (simp add: wnd_off_def)

lemma unat_wnd_pos: "unat (wnd_pos s) = unat s mod 256"
proof -
  have "s AND 255 = s mod 256"
    using take_bit_eq_mask [of 8 s] by (simp add: take_bit_eq_mod mask_eq_decr_exp)
  then have "unat (s AND 255) = unat s mod 256"
    by (simp add: unat_mod)
  then show ?thesis
    by (simp add: wnd_pos_def unsigned_ucast_eq take_bit_eq_mod)
qed

text \<open>The arithmetic core: where in the ring a sequence number lives.\<close>

lemma ring_index_sum:
  fixes x e a b k r h :: nat
  assumes "x = 64 * a + b" and "e = 64 * k + r" and "b + r = 63"
    and "x + e = 64 * h + 63 \<or> x + e = 64 * h + 63 + 256"
    and "a < 4"
  shows "a = (h + 4 - k) mod 4"
proof -
  have "a + k = h \<or> a + k = h + 4"
    using assms by auto
  then have "h + 4 - k = a + 4 \<or> h + 4 - k = a"
    by auto
  with \<open>a < 4\<close> show ?thesis by auto
qed

lemma slot_of_cell:
  fixes S H d :: nat
  assumes "H mod 256 = (S + d) mod 256"
  defines "e \<equiv> (d + (63 - H mod 64)) mod 256"
  shows "S mod 256 div 64 = (H div 64 mod 4 + 4 - e div 64) mod 4"
    and "S mod 256 mod 64 = 63 - e mod 64"
proof -
  let ?a = "S mod 256 div 64" and ?b = "S mod 256 mod 64"
  let ?h = "H div 64 mod 4"
  have H: "H mod 256 = 64 * ?h + H mod 64"
    by (simp add: mod_mult2_eq [of H 64 4, simplified])
  have "(S mod 256 + e) mod 256 = (S + d + (63 - H mod 64)) mod 256"
    by (simp only: e_def mod_add_eq add.assoc)
  also have "\<dots> = ((S + d) mod 256 + (63 - H mod 64)) mod 256"
    by (simp only: mod_add_left_eq)
  also have "\<dots> = (64 * ?h + H mod 64 + (63 - H mod 64)) mod 256"
    using assms(1) H by simp
  also have "\<dots> = 64 * ?h + 63"
  proof -
    have "H mod 64 \<le> 63" by simp
    then have "64 * ?h + H mod 64 + (63 - H mod 64) = 64 * ?h + 63" by simp
    moreover have "?h < 4" by simp
    ultimately show ?thesis by simp
  qed
  finally have sum: "(S mod 256 + e) mod 256 = 64 * ?h + 63" .
  have e: "e < 256" "e = 64 * (e div 64) + e mod 64"
    by (simp_all add: e_def)
  have S: "S mod 256 < 256" "S mod 256 = 64 * ?a + ?b"
    by simp_all
  have lt: "e mod 64 < 64" "?b < 64" by simp_all
  have r: "?b + e mod 64 = 63"
  proof -
    have "(?b + e mod 64) mod 64 = (S mod 256 + e) mod 64"
      by (simp add: mod_simps)
    also have "\<dots> = (S mod 256 + e) mod 256 mod 64"
      by (simp add: mod_mod_cancel)
    also have "\<dots> = 63"
      unfolding sum by simp
    finally show ?thesis
      using lt by (cases "?b + e mod 64 < 64") (auto simp: mod_if [of "?b + e mod 64"])
  qed
  then show "?b = 63 - e mod 64" by simp
  have cases: "S mod 256 + e = 64 * ?h + 63 \<or> S mod 256 + e = 64 * ?h + 63 + 256"
    using sum e(1) S(1) by (cases "S mod 256 + e < 256") (auto simp: mod_if [of "S mod 256 + e"])
  show "?a = (?h + 4 - e div 64) mod 4"
    using S(2) e(2) r cases by (rule ring_index_sum) simp
qed

lemma wnd_is_marked_cell:
  "wnd_is_marked w s = wnd_cell w ((wnd_back w s + wnd_off w) mod 256)"
proof -
  have "unat (w_head w) mod 256 = (unat s + wnd_back w s) mod 256"
    unfolding wnd_back_def
    by (subst unat_minus_eq [of "w_head w" s]) (simp add: mod_mod_cancel)
  note slot = slot_of_cell [OF this]
  show ?thesis
    unfolding wnd_is_marked_def test_bit_arr_eq unat_wnd_pos slot
      wnd_cell_def wnd_row_def wnd_off_def ..
qed


section \<open>Rows, cells and the invariant\<close>

definition wnd_ridx :: "fp_window \<Rightarrow> nat \<Rightarrow> nat" where
  "wnd_ridx w k = (unat (w_head w) div 64 mod 4 + 4 - k) mod 4"

definition wnd_cells :: "fp_window \<Rightarrow> nat set" where
  "wnd_cells w = {e. e < 256 \<and> wnd_cell w e}"

lemma wnd_ridx_less [simp]: "wnd_ridx w k < 4"
  by (simp add: wnd_ridx_def)

lemma wnd_row_ridx: "wnd_row w k = w_marked w ! wnd_ridx w k"
  by (simp add: wnd_row_def wnd_ridx_def)

lemma less4_iff: "n < 4 \<longleftrightarrow> n = 0 \<or> n = 1 \<or> n = 2 \<or> n = (3 :: nat)"
  by auto

lemma ring4_inj: "h < 4 \<Longrightarrow> k < 4 \<Longrightarrow> k' < 4 \<Longrightarrow>
    (h + 4 - k) mod 4 = (h + 4 - k') mod 4 \<longleftrightarrow> k = (k' :: nat)"
  unfolding less4_iff by (elim disjE) simp_all

lemma ring4_invol: "h < 4 \<Longrightarrow> k < 4 \<Longrightarrow> (h + 4 - (h + 4 - k) mod 4) mod 4 = (k :: nat)"
  unfolding less4_iff by (elim disjE) simp_all

lemma wnd_ridx_inj: "k < 4 \<Longrightarrow> k' < 4 \<Longrightarrow> wnd_ridx w k = wnd_ridx w k' \<longleftrightarrow> k = k'"
  unfolding wnd_ridx_def by (rule ring4_inj) simp_all

text \<open>The geometry depends on the head only.\<close>

lemma wnd_geometry_update [simp]:
  "wnd_ridx (w\<lparr>w_marked := m\<rparr>) k = wnd_ridx w k"
  "wnd_ridx (w\<lparr>w_summary := a\<rparr>) k = wnd_ridx w k"
  "wnd_ridx (w\<lparr>w_num_marked := c\<rparr>) k = wnd_ridx w k"
  "wnd_off (w\<lparr>w_marked := m\<rparr>) = wnd_off w"
  "wnd_off (w\<lparr>w_summary := a\<rparr>) = wnd_off w"
  "wnd_off (w\<lparr>w_num_marked := c\<rparr>) = wnd_off w"
  "wnd_back (w\<lparr>w_marked := m\<rparr>) s = wnd_back w s"
  "wnd_back (w\<lparr>w_summary := a\<rparr>) s = wnd_back w s"
  "wnd_back (w\<lparr>w_num_marked := c\<rparr>) s = wnd_back w s"
  "in_wnd (w\<lparr>w_marked := m\<rparr>) s = in_wnd w s"
  "in_wnd (w\<lparr>w_summary := a\<rparr>) s = in_wnd w s"
  "in_wnd (w\<lparr>w_num_marked := c\<rparr>) s = in_wnd w s"
  by (simp_all add: wnd_ridx_def wnd_off_def wnd_back_def in_wnd_def)

lemma wnd_back_inj: "wnd_back w s = wnd_back w t \<longleftrightarrow> s = t"
  by (simp add: wnd_back_def flip: unat_eq_iff)

lemma wnd_back_head [simp]: "wnd_back w (w_head w) = 0"
  by (simp add: wnd_back_def)

lemma finite_wnd_cells [simp]: "finite (wnd_cells w)"
  by (simp add: wnd_cells_def)

lemma wnd_cells_less: "e \<in> wnd_cells w \<Longrightarrow> e < 256"
  by (simp add: wnd_cells_def)

lemma card_wnd_cells_le: "card (wnd_cells w) \<le> 256"
  using card_mono [of "{..<256}" "wnd_cells w"] by (auto dest: wnd_cells_less)

lemma wnd_row_nonzero_iff:
  assumes "k < 4"
  shows "wnd_row w k \<noteq> 0 \<longleftrightarrow> (\<exists>e \<in> wnd_cells w. e div 64 = k)"
proof
  assume "wnd_row w k \<noteq> 0"
  then obtain n where n: "n < 64" "bit (wnd_row w k) n"
    by (auto simp: word_eq_0_iff_bits)
  define e where "e = 64 * k + (63 - n)"
  have "63 - n < 64" by simp
  then have e: "e div 64 = k" "e mod 64 = 63 - n"
    by (simp_all only: e_def div_mult_self4 mod_mult_self4 div_less mod_less add_0_right)
  then have "e < 256"
    using assms by (simp add: div_less_iff_less_mult flip: e(1))
  moreover have "63 - e mod 64 = n"
    using e(2) n(1) by simp
  ultimately have "e \<in> wnd_cells w"
    using n(2) e(1) by (simp add: wnd_cells_def wnd_cell_def)
  with e(1) show "\<exists>e \<in> wnd_cells w. e div 64 = k" by blast
next
  assume "\<exists>e \<in> wnd_cells w. e div 64 = k"
  then show "wnd_row w k \<noteq> 0"
    by (auto simp: wnd_cells_def wnd_cell_def)
qed

lemma wnd_inv_cells:
  "wnd_inv w \<longleftrightarrow>
     length (w_marked w) = 4 \<and>
     unat (w_head_word w) = unat (w_head w) div 64 mod 4 \<and>
     wnd_cells w \<subseteq> {wnd_off w ..< wnd_off w + 192} \<and>
     (\<forall>k<64. bit (w_summary w) k \<longleftrightarrow> (\<exists>e \<in> wnd_cells w. e div 64 = k)) \<and>
     unat (w_num_marked w) = card (wnd_cells w)"
proof -
  have 1: "(\<forall>k<64. bit (w_summary w) k \<longleftrightarrow> k < 4 \<and> wnd_row w k \<noteq> 0) \<longleftrightarrow>
    (\<forall>k<64. bit (w_summary w) k \<longleftrightarrow> (\<exists>e \<in> wnd_cells w. e div 64 = k))"
  proof -
    have "(k < 4 \<and> wnd_row w k \<noteq> 0) \<longleftrightarrow> (\<exists>e \<in> wnd_cells w. e div 64 = k)" for k
      by (cases "k < 4") (auto simp: wnd_row_nonzero_iff dest!: wnd_cells_less)
    then show ?thesis by simp
  qed
  have 2: "(\<forall>e<256. wnd_cell w e \<longrightarrow> wnd_off w \<le> e \<and> e < wnd_off w + 192) \<longleftrightarrow>
     wnd_cells w \<subseteq> {wnd_off w ..< wnd_off w + 192}"
    by (auto simp: wnd_cells_def)
  show ?thesis
    unfolding wnd_inv_def 1 2 wnd_cells_def [of w, symmetric] ..
qed

lemma wnd_set_cells: "wnd_set w = {s. in_wnd w s \<and> wnd_back w s + wnd_off w \<in> wnd_cells w}"
proof -
  have "in_wnd w s \<Longrightarrow> wnd_back w s + wnd_off w < 256" for s
    using wnd_off_less [of w] unfolding in_wnd_def by linarith
  then show ?thesis
    by (auto simp: wnd_set_def wnd_cells_def)
qed

lemma wnd_is_marked_iff:
  assumes "wnd_inv w" and "in_wnd w s"
  shows "wnd_is_marked w s \<longleftrightarrow> s \<in> wnd_set w"
proof -
  have "wnd_back w s + wnd_off w < 256"
    using assms(2) wnd_off_less [of w] unfolding in_wnd_def by linarith
  then show ?thesis
    using assms(2) by (simp add: wnd_is_marked_cell wnd_set_def)
qed

text \<open>A cell of an invariant window is the slot of a sequence number of the window.\<close>

lemma wnd_cell_seqno:
  assumes "wnd_inv w" and "e \<in> wnd_cells w"
  obtains s where "s \<in> wnd_set w" and "wnd_back w s + wnd_off w = e"
proof -
  let ?d = "e - wnd_off w"
  let ?s = "w_head w - of_nat ?d"
  have e: "wnd_off w \<le> e" "e < wnd_off w + 192"
    using assms by (auto simp: wnd_inv_cells)
  then have d: "?d < 192" by simp
  then have "unat (of_nat ?d :: u64) = ?d"
    by (simp add: unat_of_nat)
  then have bk: "wnd_back w ?s = ?d"
    by (simp add: wnd_back_def)
  then have "?s \<in> wnd_set w"
    using assms(2) e d by (simp add: wnd_set_cells in_wnd_def)
  then show ?thesis
    using bk e that by simp
qed

lemma wnd_set_bij:
  assumes "wnd_inv w"
  shows "bij_betw (\<lambda>s. wnd_back w s + wnd_off w) (wnd_set w) (wnd_cells w)"
proof (rule bij_betwI')
  fix x y
  show "(wnd_back w x + wnd_off w = wnd_back w y + wnd_off w) = (x = y)"
    by (simp add: wnd_back_inj)
next
  fix x
  assume "x \<in> wnd_set w"
  then show "wnd_back w x + wnd_off w \<in> wnd_cells w" by (simp add: wnd_set_cells)
next
  fix y
  assume "y \<in> wnd_cells w"
  then obtain s where "s \<in> wnd_set w" "wnd_back w s + wnd_off w = y"
    using wnd_cell_seqno [OF assms] by blast
  then show "\<exists>x \<in> wnd_set w. y = wnd_back w x + wnd_off w" by auto
qed

lemma wnd_num_marked_card:
  "wnd_inv w \<Longrightarrow> unat (w_num_marked w) = card (wnd_set w)"
  using bij_betw_same_card [OF wnd_set_bij] by (simp add: wnd_inv_cells)

lemma wnd_empty_iff: "wnd_inv w \<Longrightarrow> wnd_empty w \<longleftrightarrow> wnd_set w = {}"
proof -
  assume inv: "wnd_inv w"
  have "wnd_empty w \<longleftrightarrow> unat (w_num_marked w) = 0"
    by (simp add: wnd_empty_def unat_eq_0)
  also have "\<dots> \<longleftrightarrow> wnd_cells w = {}"
    using inv by (simp add: wnd_inv_cells)
  also have "\<dots> \<longleftrightarrow> wnd_set w = {}"
    using wnd_set_bij [OF inv] by (auto simp: bij_betw_def)
  finally show ?thesis .
qed


end
