(* ===== verification/Window_Update.thy ===== *)
theory Window_Update
  imports Window
begin

text \<open>
  The operations of \<^verbatim>\<open>window.h\<close> that change the window keep its invariant and act on the set of
  marked sequence numbers as insertion, deletion, emptying and identity. The earliest mark is
  characterised here too, because advancing the head is guarded by it.
\<close>

section \<open>Marking, clearing, advancing\<close>

lemma ring4_shift:
  assumes "k + W < 4"
  shows "((q + W) mod 4 + 4 - (k + W)) mod 4 = (q mod 4 + 4 - k) mod (4 :: nat)"
proof -
  have "(q + W) mod 4 = (q mod 4 + W) mod 4" by (simp add: mod_simps)
  moreover have "q mod 4 < 4" by simp
  ultimately show ?thesis
    using assms by (cases "q mod 4 + W < 4") (auto simp: mod_if [of "q mod 4 + W"] le_mod_geq)
qed

lemma ring4_shift':
  assumes "k < W" and "W < 4"
  shows "((q + W) mod 4 + 4 - k) mod 4 = (q mod 4 + 4 - (k + (4 - W))) mod (4 :: nat)"
proof -
  have "(q + W) mod 4 = (q mod 4 + W) mod 4" by (simp add: mod_simps)
  moreover have "q mod 4 < 4" by simp
  ultimately show ?thesis
    using assms by (cases "q mod 4 + W < 4") (auto simp: mod_if [of "q mod 4 + W"] le_mod_geq)
qed

lemma unat_sub_mod4:
  fixes a b :: u64
  shows "unat ((a - b) mod 4) = (unat a mod 4 + 4 - unat b mod 4) mod 4"
proof -
  have "int (unat ((a - b) mod 4)) = uint (a - b) mod 4"
    by (simp add: uint_mod)
  also have "\<dots> = (uint a - uint b) mod 4"
    by (rule uint_minus_mod_u64) simp
  also have "\<dots> = (int (unat a mod 4) + 4 - int (unat b mod 4)) mod 4"
    by (rule mod_diff_cong) (simp_all add: zmod_int)
  also have "\<dots> = int ((unat a mod 4 + 4 - unat b mod 4) mod 4)"
  proof -
    have "unat b mod 4 \<le> unat a mod 4 + 4"
      by (rule order_trans [of _ 4]) simp_all
    then show ?thesis by (simp add: zmod_int)
  qed
  finally show ?thesis by (simp only: of_nat_eq_iff)
qed

lemma unat_add_mod4:
  fixes a b :: u64
  shows "unat ((a + b) mod 4) = (unat a + unat b) mod 4"
  by (simp add: unat_mod unat_plus_mod_u64)

lemma unat_ucast_u32_small: "unat x < 2 ^ 32 \<Longrightarrow> unat (ucast (x :: u64) :: u32) = unat x"
  by (simp add: unsigned_ucast_eq take_bit_eq_mod)

lemma wnd_row_pos:
  assumes "in_wnd w s"
  shows "unat (wnd_pos s) div 64 = wnd_ridx w ((wnd_back w s + wnd_off w) div 64)"
    and "unat (wnd_pos s) mod 64 = 63 - (wnd_back w s + wnd_off w) mod 64"
proof -
  have 1: "unat (w_head w) mod 256 = (unat s + wnd_back w s) mod 256"
    unfolding wnd_back_def
    by (subst unat_minus_eq [of "w_head w" s]) (simp add: mod_mod_cancel)
  have "wnd_back w s + wnd_off w < 256"
    using assms wnd_off_less [of w] unfolding in_wnd_def by linarith
  then have 2: "(wnd_back w s + wnd_off w) mod 256 = wnd_back w s + wnd_off w"
    by simp
  show "unat (wnd_pos s) div 64 = wnd_ridx w ((wnd_back w s + wnd_off w) div 64)"
    and "unat (wnd_pos s) mod 64 = 63 - (wnd_back w s + wnd_off w) mod 64"
    using slot_of_cell [OF 1, folded wnd_off_def, unfolded 2]
    unfolding unat_wnd_pos wnd_ridx_def by simp_all
qed

lemma wnd_cell_less: "in_wnd w s \<Longrightarrow> wnd_back w s + wnd_off w < 256"
  using wnd_off_less [of w] unfolding in_wnd_def by linarith

lemma wnd_cell_row_less: "in_wnd w s \<Longrightarrow> (wnd_back w s + wnd_off w) div 64 < 4"
  using wnd_cell_less [of w s] by (simp add: less_mult_imp_div_less)

lemma unat_summary_pos:
  assumes "unat (w_head_word w) = unat (w_head w) div 64 mod 4" and "in_wnd w s"
  shows "unat (summary_pos w (wnd_pos s)) = (wnd_back w s + wnd_off w) div 64"
proof -
  let ?k = "(wnd_back w s + wnd_off w) div 64" and ?h = "unat (w_head w) div 64 mod 4"
  let ?x = "(ucast (w_head_word w) - BIT_WORD (wnd_pos s) :: u64) mod 4"
  have "unat ?x = (?h + 4 - wnd_ridx w ?k) mod 4"
    unfolding unat_sub_mod4 unat_BIT_WORD_u32 wnd_row_pos(1) [OF assms(2)]
    using assms(1) by (simp add: unat_ucast_up)
  also have "\<dots> = ?k"
    unfolding wnd_ridx_def by (rule ring4_invol) (use wnd_cell_row_less [OF assms(2)] in simp_all)
  finally have x: "unat ?x = ?k" .
  then have "unat ?x < 2 ^ 32"
    using wnd_cell_row_less [OF assms(2)] by simp
  then show ?thesis
    unfolding summary_pos_def FASTPASS_WND_WORDS_def by (simp only: unat_ucast_u32_small x)
qed

lemma bit_cell_pos_inj:
  assumes "e < 256" "f < (256 :: nat)"
  shows "e = f \<longleftrightarrow> e div 64 = f div 64 \<and> 63 - e mod 64 = 63 - f mod 64"
proof -
  have "e mod 64 < 64" "f mod 64 < 64" by simp_all
  then have "63 - e mod 64 = 63 - f mod 64 \<longleftrightarrow> e mod 64 = f mod 64" by linarith
  then show ?thesis by (metis div_mod_decomp)
qed

text \<open>Writing one row of the ring.\<close>

lemma wnd_row_update:
  assumes "length (w_marked w) = 4" and "k0 < 4" and "k < 4"
  shows "wnd_row (w\<lparr>w_marked := (w_marked w)[wnd_ridx w k0 := v]\<rparr>) k =
    (if k = k0 then v else wnd_row w k)"
  using assms wnd_ridx_inj [of k k0 w]
  by (auto simp: wnd_row_ridx nth_list_update)

lemma wnd_row_more [simp]:
  "wnd_row (w\<lparr>w_summary := a, w_num_marked := c\<rparr>) k = wnd_row w k"
  "wnd_row (w\<lparr>w_marked := m, w_summary := a, w_num_marked := c\<rparr>) k
     = wnd_row (w\<lparr>w_marked := m\<rparr>) k"
  by (simp_all add: wnd_row_def)

lemma wnd_cells_update:
  assumes w': "w' = w\<lparr>w_marked := (w_marked w)[wnd_ridx w k0 := v], w_summary := a, w_num_marked := c\<rparr>"
    and "length (w_marked w) = 4" and "k0 < 4"
  shows "wnd_cells w' = {e \<in> wnd_cells w. e div 64 \<noteq> k0} \<union>
    {e. e div 64 = k0 \<and> bit v (63 - e mod 64)}"
proof -
  have "wnd_cell w' e \<longleftrightarrow> (if e div 64 = k0 then bit v (63 - e mod 64) else wnd_cell w e)"
    if "e < 256" for e
  proof -
    have "e div 64 < 4" using that by (simp add: less_mult_imp_div_less)
    from wnd_row_update [OF assms(2,3) this, of v] show ?thesis
      unfolding w' by (simp add: wnd_cell_def)
  qed
  moreover have "e < 256" if "e div 64 = k0" for e
    using that \<open>k0 < 4\<close> by (simp add: div_less_iff_less_mult flip: that)
  ultimately show ?thesis
    by (auto simp: wnd_cells_def split: if_splits)
qed


lemma hd_set_bit_arr: "unat nr < 64 \<Longrightarrow> hd (set_bit_arr nr [x]) = x OR BIT_MASK nr"
  by (simp add: set_bit_arr_eq)

lemma hd_clear_bit_arr: "unat nr < 64 \<Longrightarrow> hd (clear_bit_arr nr [x]) = x AND NOT (BIT_MASK nr)"
  by (simp add: clear_bit_arr_eq)

lemma bit_row_cell: "n < 64 \<Longrightarrow> bit (wnd_row w k) n \<longleftrightarrow> wnd_cell w (64 * k + (63 - n))"
proof -
  assume n: "n < 64"
  define e where "e = 64 * k + (63 - n)"
  have "63 - n < 64" by simp
  then have "e div 64 = k" "e mod 64 = 63 - n"
    by (simp_all only: e_def div_mult_self4 mod_mult_self4 div_less mod_less add_0_right)
  then show ?thesis
    using n by (simp add: wnd_cell_def flip: e_def)
qed

text \<open>The effect of a change of the cells on the set of marked sequence numbers.\<close>

lemma wnd_set_insert_cell:
  assumes "w_head w' = w_head w" and "in_wnd w s"
    and "wnd_cells w' = insert (wnd_back w s + wnd_off w) (wnd_cells w)"
  shows "wnd_set w' = insert s (wnd_set w)"
proof -
  have "wnd_back w' = wnd_back w" "wnd_off w' = wnd_off w" "in_wnd w' = in_wnd w"
    using assms(1) by (auto simp: wnd_back_def wnd_off_def in_wnd_def fun_eq_iff)
  then show ?thesis
    using assms(2,3) by (auto simp: wnd_set_cells wnd_back_inj)
qed

lemma wnd_set_remove_cell:
  assumes "w_head w' = w_head w"
    and "wnd_cells w' = wnd_cells w - {wnd_back w s + wnd_off w}"
  shows "wnd_set w' = wnd_set w - {s}"
proof -
  have "wnd_back w' = wnd_back w" "wnd_off w' = wnd_off w" "in_wnd w' = in_wnd w"
    using assms(1) by (auto simp: wnd_back_def wnd_off_def in_wnd_def fun_eq_iff)
  then show ?thesis
    using assms(2) by (auto simp: wnd_set_cells wnd_back_inj)
qed

theorem wnd_mark_spec:
  assumes inv: "wnd_inv w" and "in_wnd w s" and new: "s \<notin> wnd_set w"
  shows "\<exists>w'. wnd_mark w s = Some w' \<and> wnd_inv w' \<and> w_head w' = w_head w
           \<and> wnd_set w' = insert s (wnd_set w)"
proof -
  let ?e = "wnd_back w s + wnd_off w"
  let ?k = "?e div 64"
  have len: "length (w_marked w) = 4" and hw: "unat (w_head_word w) = unat (w_head w) div 64 mod 4"
    using inv by (simp_all add: wnd_inv_cells)
  have k4: "?k < 4" by (rule wnd_cell_row_less) fact
  define w' where "w' = w\<lparr>
      w_marked := (w_marked w)[wnd_ridx w ?k := (w_marked w ! wnd_ridx w ?k) OR BIT_MASK (wnd_pos s)],
      w_summary := w_summary w OR BIT_MASK (summary_pos w (wnd_pos s)),
      w_num_marked := w_num_marked w + 1\<rparr>"
  have sp: "unat (summary_pos w (wnd_pos s)) = ?k"
    by (rule unat_summary_pos) fact+
  have "\<not> wnd_is_marked w s"
    using new wnd_is_marked_iff [OF inv \<open>in_wnd w s\<close>] by simp
  then have run: "wnd_mark w s = Some w'"
    using k4 sp unfolding wnd_mark_def Let_def w'_def set_bit_arr_eq wnd_row_pos(1) [OF \<open>in_wnd w s\<close>]
    by (simp add: hd_set_bit_arr [unfolded set_bit_arr_eq])
  have e256: "?e < 256" by (rule wnd_cell_less) fact
  have cells: "wnd_cells w' = insert ?e (wnd_cells w)"
  proof -
    have "bit (w_marked w ! wnd_ridx w ?k OR BIT_MASK (wnd_pos s)) (63 - f mod 64) \<longleftrightarrow>
        f \<in> wnd_cells w \<or> f = ?e" if "f div 64 = ?k" for f
    proof -
      have "f < 256" using that k4 by (simp add: div_less_iff_less_mult flip: that)
      then show ?thesis
        using that bit_cell_pos_inj [OF _ e256, of f]
        by (auto simp: bit_or_iff bit_BIT_MASK wnd_row_pos(2) [OF \<open>in_wnd w s\<close>]
            wnd_cells_def wnd_cell_def wnd_row_ridx)
    qed
    then show ?thesis
      unfolding wnd_cells_update [OF w'_def len k4] by auto
  qed
  have notin: "?e \<notin> wnd_cells w"
    using new \<open>in_wnd w s\<close> by (simp add: wnd_set_cells)
  have "wnd_inv w'"
    unfolding wnd_inv_cells cells
    using inv notin e256 \<open>in_wnd w s\<close> sp k4 card_wnd_cells_le [of w]
    by (auto simp: wnd_inv_cells w'_def in_wnd_def bit_or_iff bit_BIT_MASK unat_word_ariths)
  moreover have "wnd_set w' = insert s (wnd_set w)"
    by (rule wnd_set_insert_cell [OF _ \<open>in_wnd w s\<close> cells]) (simp add: w'_def)
  ultimately show ?thesis
    using run by (auto simp: w'_def)
qed


theorem wnd_clear_spec:
  assumes inv: "wnd_inv w" and old: "s \<in> wnd_set w"
  shows "\<exists>w'. wnd_clear w s = Some w' \<and> wnd_inv w' \<and> w_head w' = w_head w
           \<and> wnd_set w' = wnd_set w - {s}"
proof -
  let ?e = "wnd_back w s + wnd_off w"
  let ?k = "?e div 64"
  have iw: "in_wnd w s" and ein: "?e \<in> wnd_cells w"
    using old by (simp_all add: wnd_set_cells)
  have len: "length (w_marked w) = 4" and hw: "unat (w_head_word w) = unat (w_head w) div 64 mod 4"
    using inv by (simp_all add: wnd_inv_cells)
  have k4: "?k < 4" by (rule wnd_cell_row_less) fact
  have e256: "?e < 256" by (rule wnd_cell_less) fact
  let ?v = "(w_marked w ! wnd_ridx w ?k) AND NOT (BIT_MASK (wnd_pos s))"
  define w' where "w' = w\<lparr>
      w_marked := (w_marked w)[wnd_ridx w ?k := ?v],
      w_summary := (if ?v = 0 then w_summary w AND NOT (BIT_MASK (summary_pos w (wnd_pos s)))
                    else w_summary w),
      w_num_marked := w_num_marked w - 1\<rparr>"
  have sp: "unat (summary_pos w (wnd_pos s)) = ?k"
    by (rule unat_summary_pos) fact+
  have "wnd_is_marked w s"
    using old wnd_is_marked_iff [OF inv iw] by simp
  then have run: "wnd_clear w s = Some w'"
    using k4 sp len
    unfolding wnd_clear_def Let_def w'_def clear_bit_arr_eq unat_BIT_WORD_u32 wnd_row_pos(1) [OF iw]
    by (simp add: hd_clear_bit_arr [unfolded clear_bit_arr_eq])
  have cells: "wnd_cells w' = wnd_cells w - {?e}"
  proof -
    have "bit ?v (63 - f mod 64) \<longleftrightarrow> f \<in> wnd_cells w - {?e}" if "f div 64 = ?k" for f
    proof -
      have "f < 256" using that k4 by (simp add: div_less_iff_less_mult flip: that)
      moreover have "63 - f mod 64 < 64" by simp
      ultimately show ?thesis
        using that bit_cell_pos_inj [OF _ e256, of f]
        by (auto simp: bit_and_iff bit_not_iff bit_BIT_MASK wnd_row_pos(2) [OF iw]
            wnd_cells_def wnd_cell_def wnd_row_ridx)
    qed
    then show ?thesis
      unfolding wnd_cells_update [OF w'_def len k4] by auto
  qed
  have v: "?v = 0 \<longleftrightarrow> (\<forall>f \<in> wnd_cells w - {?e}. f div 64 \<noteq> ?k)"
  proof -
    have "wnd_row w' ?k = ?v"
      using wnd_row_update [OF len k4 k4, of ?v] by (simp add: w'_def)
    then show ?thesis
      using wnd_row_nonzero_iff [OF k4, of w'] cells by auto
  qed
  have "unat (w_num_marked w - 1) = card (wnd_cells w) - 1"
  proof -
    have "unat (w_num_marked w) = card (wnd_cells w)" and "card (wnd_cells w) \<noteq> 0"
      using inv ein by (auto simp: wnd_inv_cells)
    then have "w_num_marked w \<noteq> 0" by (metis unat_0)
    then show ?thesis
      using \<open>unat (w_num_marked w) = _\<close> by (simp add: unat_minus_one)
  qed
  moreover have "\<forall>k<64. bit (w_summary w') k \<longleftrightarrow> (\<exists>f \<in> wnd_cells w - {?e}. f div 64 = k)"
    using inv ein v sp k4
    by (auto simp: wnd_inv_cells w'_def bit_and_iff bit_not_iff bit_BIT_MASK)
  ultimately have "wnd_inv w'"
    unfolding wnd_inv_cells cells
    using inv ein by (auto simp: wnd_inv_cells w'_def)
  moreover have "wnd_set w' = wnd_set w - {s}"
    by (rule wnd_set_remove_cell [OF _ cells]) (simp add: w'_def)
  ultimately show ?thesis
    using run by (auto simp: w'_def)
qed

theorem wnd_reset_spec:
  "wnd_inv (wnd_reset w h) \<and> w_head (wnd_reset w h) = h \<and> wnd_set (wnd_reset w h) = {}"
proof -
  let ?w = "wnd_reset w h"
  have "wnd_row ?w k = 0" for k
    by (simp add: wnd_row_def wnd_reset_def FASTPASS_WND_WORDS_def)
  then have cells: "wnd_cells ?w = {}"
    by (simp add: wnd_cells_def wnd_cell_def)
  have "unat (w_head_word ?w) = unat (wnd_pos h) div 64"
  proof -
    have "unat (BIT_WORD (wnd_pos h)) < 2 ^ 32"
      by (simp add: unat_wnd_pos div_less_iff_less_mult order_less_trans [of _ 256])
    then show ?thesis
      by (simp add: wnd_reset_def unat_ucast_u32_small)
  qed
  also have "\<dots> = unat h div 64 mod 4"
    unfolding unat_wnd_pos
    by (simp add: mod_mult2_eq [of "unat h" 64 4, simplified])
  finally have "wnd_inv ?w"
    unfolding wnd_inv_cells cells by (simp add: wnd_reset_def FASTPASS_WND_WORDS_def)
  then show ?thesis
    using cells by (simp add: wnd_set_cells) (simp add: wnd_reset_def)
qed


section \<open>The earliest mark\<close>

lemma mask63: "x AND NOT 63 = x - of_nat (unat x mod 64)" for x :: u64
proof -
  have "x AND NOT 63 = push_bit 6 (drop_bit 6 x)"
    using take_bit_eq_mask [of 6 "- 1 :: u64"]
    by (auto simp: bit_eq_iff bit_simps mask_eq_decr_exp [of 6, simplified, symmetric] not_less)
  also have "\<dots> = x - take_bit 6 x"
    using bits_ident [of 6 x] by (simp add: eq_diff_eq)
  also have "take_bit 6 x = of_nat (unat x mod 64)"
    by (simp add: take_bit_eq_mod unat_eq_iff unat_mod unat_of_nat)
  finally show ?thesis .
qed

lemma unat_of_nat_u64: "n < 2 ^ 64 \<Longrightarrow> unat (of_nat n :: u64) = n"
  by (simp add: unat_of_nat)

lemma summary_row:
  assumes "wnd_inv w" and "bit (w_summary w) k"
  shows "k < 4" and "wnd_row w k \<noteq> 0"
proof -
  have "k < 64" using bit_imp_le_length [OF assms(2)] by simp
  with assms show "k < 4" "wnd_row w k \<noteq> 0"
    by (simp_all add: wnd_inv_def)
qed

lemma wnd_row_head_word:
  assumes "unat (w_head_word w) = unat (w_head w) div 64 mod 4" and "k < 4"
  shows "w_marked w ! unat ((ucast (w_head_word w) - of_nat k :: u64) mod 4) = wnd_row w k"
  using assms unfolding wnd_row_def unat_sub_mod4 
  by (simp add: unat_ucast_up unat_of_nat)

theorem wnd_earliest_marked_spec:
  assumes inv: "wnd_inv w" and ne: "wnd_set w \<noteq> {}"
  shows "wnd_earliest_marked w \<in> wnd_set w"
    and "\<And>s. s \<in> wnd_set w \<Longrightarrow> wnd_back w s \<le> wnd_back w (wnd_earliest_marked w)"
proof -
  define k where "k = fls (w_summary w)"
  define n where "n = ffs (wnd_row w k)"
  have hw: "unat (w_head_word w) = unat (w_head w) div 64 mod 4"
    and sub: "wnd_cells w \<subseteq> {wnd_off w ..< wnd_off w + 192}"
    and sm: "\<And>k. k < 64 \<Longrightarrow> bit (w_summary w) k \<longleftrightarrow> (\<exists>e \<in> wnd_cells w. e div 64 = k)"
    using inv by (simp_all add: wnd_inv_cells)
  obtain f where f: "f \<in> wnd_cells w"
    using ne by (auto simp: wnd_set_cells)
  then have "bit (w_summary w) (f div 64)"
    using sm [of "f div 64"] wnd_cells_less [OF f] by (auto simp: div_less_iff_less_mult)
  then have "w_summary w \<noteq> 0" by auto
  note fls = fls_props [OF this, folded k_def]
  have k4: "k < 4" and row: "wnd_row w k \<noteq> 0"
    using summary_row [OF inv fls(1)] by simp_all
  note ffs = ffs_props [OF row, folded n_def]
  define e where "e = 64 * k + (63 - n)"
  have ein: "e \<in> wnd_cells w"
    using ffs(1,2) k4 bit_row_cell [of n w k] unfolding wnd_cells_def e_def by auto
  have max: "f \<le> e" if "f \<in> wnd_cells w" for f
  proof -
    have f: "f < 256" "wnd_cell w f" using that by (simp_all add: wnd_cells_def)
    have "f div 64 \<le> k"
      using that sm [of "f div 64"] fls(3) f(1) by (auto simp: div_less_iff_less_mult)
    moreover have "f \<le> e" if "f div 64 = k"
    proof -
      have "bit (wnd_row w k) (63 - f mod 64)" using f(2) that by (simp add: wnd_cell_def)
      then have "n \<le> 63 - f mod 64" by (rule ffs(3))
      moreover have "f = 64 * k + f mod 64" using that by (simp flip: that)
      moreover have "f mod 64 < 64" by simp
      ultimately show ?thesis unfolding e_def by linarith
    qed
    moreover have "f \<le> e" if "f div 64 < k"
    proof -
      have "f = 64 * (f div 64) + f mod 64" "f mod 64 < 64" by simp_all
      moreover have "64 * (f div 64) + 64 \<le> 64 * k" using that by simp
      ultimately show ?thesis unfolding e_def by linarith
    qed
    ultimately show ?thesis by linarith
  qed
  define d where "d = unat (w_head w) mod 64 + 64 * k - n"
  have ge: "wnd_off w \<le> e" and lt: "e < wnd_off w + 192" using sub ein by auto
  have d: "d = e - wnd_off w" and nle: "n \<le> unat (w_head w) mod 64 + 64 * k"
  proof -
    have "unat (w_head w) mod 64 < 64" by simp
    then show "d = e - wnd_off w" "n \<le> unat (w_head w) mod 64 + 64 * k"
      using ge ffs(2) unfolding d_def e_def wnd_off_def by linarith+
  qed
  have "wnd_earliest_marked w =
     w_head w - of_nat (unat (w_head w) mod 64) - of_nat k * 64 + of_nat n"
    unfolding wnd_earliest_marked_def Let_def FASTPASS_WND_WORDS_def k_def [symmetric]
      wnd_row_head_word [OF hw k4] n_def [symmetric] BITS_PER_LONG_def
    by (simp add: mask63 [simplified])
  also have "\<dots> = w_head w - of_nat d"
    using nle by (simp add: d_def of_nat_diff algebra_simps)
  finally have res: "wnd_earliest_marked w = w_head w - of_nat d" .
  have "wnd_back w (wnd_earliest_marked w) = d"
    using d lt by (simp add: wnd_back_def res unat_of_nat)
  then have bk: "wnd_back w (wnd_earliest_marked w) + wnd_off w = e" and "in_wnd w (wnd_earliest_marked w)"
    using d ge lt by (simp_all add: in_wnd_def)
  then show "wnd_earliest_marked w \<in> wnd_set w"
    using ein by (simp add: wnd_set_cells)
  show "wnd_back w s \<le> wnd_back w (wnd_earliest_marked w)" if "s \<in> wnd_set w" for s
    using max [of "wnd_back w s + wnd_off w"] that bk by (auto simp: wnd_set_cells)
qed


section \<open>Advancing the head\<close>

lemma off_shift:
  fixes H q r a W r' :: nat
  assumes "H = 64 * q + r" "r < 64" "H + a = 64 * (q + W) + r'" "r' < 64"
  shows "a + (63 - r') = 63 - r + 64 * W"
  using assms by simp

text \<open>
  Without wrap-around of the 64-bit counter, advancing by \<open>a\<close> moves every cell back by a
  whole number of rows.
\<close>

lemma advance_cells:
  fixes w :: fp_window and a :: nat
  defines "W \<equiv> (unat (w_head w) + a) div 64 - unat (w_head w) div 64"
  assumes h': "unat (w_head w') = unat (w_head w) + a" and "w_marked w' = w_marked w"
  shows "a + wnd_off w' = wnd_off w + 64 * W"
    and "W < 4 \<Longrightarrow> e + 64 * W < 256 \<Longrightarrow> wnd_cell w' (e + 64 * W) = wnd_cell w e"
    and "W < 4 \<Longrightarrow> e < 64 * W \<Longrightarrow> wnd_cell w' e = wnd_cell w (e + 256 - 64 * W)"
proof -
  let ?H = "unat (w_head w)"
  have le: "?H div 64 \<le> (?H + a) div 64" by (simp add: div_le_mono)
  then have W: "(?H + a) div 64 = ?H div 64 + W" by (simp add: W_def)
  have H: "?H = 64 * (?H div 64) + ?H mod 64" "?H mod 64 < 64"
    and H': "?H + a = 64 * (?H div 64 + W) + (?H + a) mod 64" "(?H + a) mod 64 < 64"
    using W by (simp_all flip: W)
  show "a + wnd_off w' = wnd_off w + 64 * W"
    unfolding wnd_off_def h' by (rule off_shift) fact+
  show "wnd_cell w' (e + 64 * W) = wnd_cell w e" if W4: "W < 4" and e: "e + 64 * W < 256"
  proof -
    have dm: "(e + 64 * W) div 64 = e div 64 + W" "(e + 64 * W) mod 64 = e mod 64" by simp_all
    have "((?H div 64 + W) mod 4 + 4 - (e div 64 + W)) mod 4
        = (?H div 64 mod 4 + 4 - e div 64) mod 4"
      by (rule ring4_shift) (use e W4 in \<open>simp_all add: div_less_iff_less_mult\<close>)
    then show ?thesis
      unfolding wnd_cell_def wnd_row_def h' W dm assms(3) by simp
  qed
  show "wnd_cell w' e = wnd_cell w (e + 256 - 64 * W)" if W4: "W < 4" and e: "e < 64 * W"
  proof -
    have e': "e + 256 - 64 * W = e + 64 * (4 - W)" using W4 by (simp add: diff_mult_distrib2)
    have dm: "(e + 64 * (4 - W)) div 64 = e div 64 + (4 - W)"
        "(e + 64 * (4 - W)) mod 64 = e mod 64"
      by simp_all
    have "((?H div 64 + W) mod 4 + 4 - e div 64) mod 4
        = (?H div 64 mod 4 + 4 - (e div 64 + (4 - W))) mod 4"
      by (rule ring4_shift') (use e W4 in \<open>simp_all add: div_less_iff_less_mult\<close>)
    then show ?thesis
      unfolding wnd_cell_def wnd_row_def h' W e' dm assms(3) by simp
  qed
qed


lemma unat_no_wrap:
  fixes x y :: u64
  assumes "unat x + unat y < 2 ^ 64"
  shows "unat (x + y) = unat x + unat y"
  using assms by (simp add: unat_word_ariths)

lemma unat_BIT_WORD_diff:
  fixes h a :: u64
  assumes "unat h + unat a < 2 ^ 64"
  shows "unat (BIT_WORD (h + a) - BIT_WORD h) = (unat h + unat a) div 64 - unat h div 64"
proof -
  have "BIT_WORD h \<le> BIT_WORD (h + a)"
    unfolding word_le_nat_alt unat_BIT_WORD_u64 unat_no_wrap [OF assms] by (simp add: div_le_mono)
  then show ?thesis
    by (simp add: unat_sub unat_no_wrap [OF assms])
qed

lemma advance_head_word:
  fixes hw :: u32 and h a :: u64
  assumes "unat hw = unat h div 64 mod 4" and "unat h + unat a < 2 ^ 64"
  shows "unat (ucast ((ucast hw + (BIT_WORD (h + a) - BIT_WORD h) :: u64) mod 4) :: u32)
    = unat (h + a) div 64 mod 4"
proof -
  let ?x = "(ucast hw + (BIT_WORD (h + a) - BIT_WORD h) :: u64) mod 4"
  have "unat ?x = (unat h div 64 mod 4 + ((unat h + unat a) div 64 - unat h div 64)) mod 4"
    unfolding unat_add_mod4 unat_BIT_WORD_diff [OF assms(2)]
    using assms(1) by (simp add: unat_ucast_up)
  also have "\<dots> = (unat h + unat a) div 64 mod 4"
    unfolding mod_add_left_eq using div_le_mono [of "unat h" "unat h + unat a" 64] by simp
  finally have x: "unat ?x = unat (h + a) div 64 mod 4"
    by (simp add: unat_no_wrap [OF assms(2)])
  moreover have "unat (h + a) div 64 mod 4 < 2 ^ 32"
    by (rule less_trans [of _ 4]) simp_all
  ultimately show ?thesis
    by (simp only: unat_ucast_u32_small)
qed

lemma back_advance:
  assumes "w_head w' = w_head w + a" and "wnd_back w s + unat a < 2 ^ 64"
  shows "wnd_back w' s = wnd_back w s + unat a"
proof -
  have "w_head w' - s = (w_head w - s) + a" using assms(1) by simp
  then show ?thesis
    using unat_no_wrap [of "w_head w - s" a] assms(2) by (simp add: wnd_back_def algebra_simps)
qed

text \<open>An advance by \<open>a\<close> \<^emph>\<open>fits\<close> when every marked sequence number stays inside the window.\<close>

definition wnd_fits :: "fp_window \<Rightarrow> u64 \<Rightarrow> bool" where
  "wnd_fits w a \<longleftrightarrow> (\<forall>s \<in> wnd_set w. wnd_back w s + unat a < 192)"

lemma wnd_fitsD: "wnd_fits w a \<Longrightarrow> s \<in> wnd_set w \<Longrightarrow> wnd_back w s + unat a < 192"
  by (simp add: wnd_fits_def)

text \<open>
  Three facts on an advance by \<open>a\<close> that keeps every mark inside the window: the assertion of
  the code does not fire, a jump over the whole ring has nothing to lose, and the cells shift.
\<close>

lemma advance_guard:
  assumes inv: "wnd_inv w" and fits: "wnd_fits w a"
  shows "wnd_empty w \<or>
    \<not> time_before_eq64 (wnd_earliest_marked w) (w_head w + a - FASTPASS_WND_LEN)"
proof (cases "wnd_empty w")
  case False
  then have "wnd_earliest_marked w \<in> wnd_set w"
    using wnd_earliest_marked_spec(1) [OF inv] wnd_empty_iff [OF inv] by blast
  from wnd_fitsD [OF fits, OF this] have lt: "wnd_back w (wnd_earliest_marked w) + unat a < 192" .
  let ?d = "(w_head w - wnd_earliest_marked w) + a"
  have "unat ?d < 192"
    using lt by (simp add: wnd_back_def unat_no_wrap)
  then have "2 ^ 63 \<le> unat (?d - 192)"
    by (simp add: unat_sub_if_size word_size)
  then show ?thesis by (simp add: time_cmp FASTPASS_WND_LEN_def algebra_simps)
qed simp

lemma advance_far_empty:
  assumes fits: "wnd_fits w a"
    and far: "4 \<le> (unat (w_head w) + unat a) div 64 - unat (w_head w) div 64"
  shows "wnd_set w = {}"
proof (rule ccontr)
  assume "wnd_set w \<noteq> {}"
  then obtain s where "s \<in> wnd_set w" by blast
  then have "unat a < 192" using wnd_fitsD [OF fits] by fastforce
  then have "(unat (w_head w) + unat a) div 64 \<le> (unat (w_head w) + 191) div 64"
    by (intro div_le_mono) simp
  also have "\<dots> \<le> unat (w_head w) div 64 + 3" by simp
  finally show False using far by simp
qed

lemma advance_cells_image:
  fixes w :: fp_window and a :: u64
  defines "W \<equiv> (unat (w_head w) + unat a) div 64 - unat (w_head w) div 64"
  assumes inv: "wnd_inv w" and W4: "W < 4"
    and pre: "unat (w_head w') = unat (w_head w) + unat a" "w_marked w' = w_marked w"
    and fits: "wnd_fits w a"
  shows "wnd_cells w' = (\<lambda>e. e + 64 * W) ` wnd_cells w"
    and "wnd_cells w' \<subseteq> {wnd_off w' ..< wnd_off w' + 192}"
proof -
  note adv = advance_cells [of w' w "unat a", folded W_def, OF pre]
  have fitc: "e + 64 * W < wnd_off w' + 192 \<and> wnd_off w' \<le> e + 64 * W" if "e \<in> wnd_cells w" for e
  proof -
    obtain s where "s \<in> wnd_set w" "wnd_back w s + wnd_off w = e"
      using wnd_cell_seqno [OF inv \<open>e \<in> wnd_cells w\<close>] by blast
    with wnd_fitsD [OF fits, of s] adv(1) show ?thesis by linarith
  qed
  show cells: "wnd_cells w' = (\<lambda>e. e + 64 * W) ` wnd_cells w"
  proof (intro equalityI subsetI)
    fix f
    assume "f \<in> wnd_cells w'"
    then have f256: "f < 256" "wnd_cell w' f" by (simp_all add: wnd_cells_def)
    have "64 * W \<le> f"
    proof (rule ccontr)
      assume "\<not> 64 * W \<le> f"
      then have lt: "f < 64 * W" by simp
      from adv(3) [OF W4 lt] f256 W4 lt have "f + 256 - 64 * W \<in> wnd_cells w"
        by (simp add: wnd_cells_def)
      from fitc [OF this] wnd_off_less [of w'] W4 show False by simp
    qed
    then obtain e where e: "f = e + 64 * W" by (metis le_add_diff_inverse2)
    with adv(2) [OF W4, of e] f256 have "e \<in> wnd_cells w" by (simp add: wnd_cells_def)
    with e show "f \<in> (\<lambda>e. e + 64 * W) ` wnd_cells w" by blast
  next
    fix f
    assume "f \<in> (\<lambda>e. e + 64 * W) ` wnd_cells w"
    then obtain e where e: "e \<in> wnd_cells w" "f = e + 64 * W" by blast
    with fitc [OF e(1)] wnd_off_less [of w'] have "f < 256" by linarith
    with adv(2) [OF W4, of e] e show "f \<in> wnd_cells w'" by (simp add: wnd_cells_def)
  qed
  show "wnd_cells w' \<subseteq> {wnd_off w' ..< wnd_off w' + 192}"
    unfolding cells using fitc by auto
qed

lemma advance_set:
  assumes inv: "wnd_inv w" and h': "w_head w' = w_head w + a"
    and off: "unat a + wnd_off w' = wnd_off w + D"
    and cells: "wnd_cells w' = (\<lambda>e. e + D) ` wnd_cells w"
    and fits: "wnd_fits w a"
  shows "wnd_set w' = wnd_set w"
proof (intro equalityI subsetI)
  fix s
  assume s: "s \<in> wnd_set w"
  have "wnd_back w' s = wnd_back w s + unat a"
    using wnd_fitsD [OF fits, OF s] h' by (intro back_advance) simp_all
  then show "s \<in> wnd_set w'"
    using s wnd_fitsD [OF fits, OF s] off unfolding wnd_set_cells cells
    by (auto simp: in_wnd_def image_iff intro!: bexI [of _ "wnd_back w s + wnd_off w"])
next
  fix s
  assume "s \<in> wnd_set w'"
  then obtain e where e: "e \<in> wnd_cells w" "wnd_back w' s + wnd_off w' = e + D"
    unfolding wnd_set_cells cells by blast
  obtain t where t: "t \<in> wnd_set w" "wnd_back w t + wnd_off w = e"
    using wnd_cell_seqno [OF inv e(1)] by blast
  have "wnd_back w' t = wnd_back w t + unat a"
    using wnd_fitsD [OF fits, OF t(1)] h' by (intro back_advance) simp_all
  then have "wnd_back w' t = wnd_back w' s"
    using e(2) t(2) off by linarith
  then show "s \<in> wnd_set w" using t(1) by (simp add: wnd_back_inj)
qed

lemma advance_near:
  fixes w :: fp_window and a :: u64
  defines "W \<equiv> (unat (w_head w) + unat a) div 64 - unat (w_head w) div 64"
  assumes inv: "wnd_inv w" and nw: "unat (w_head w) + unat a < 2 ^ 64" and W4: "W < 4"
    and fits: "wnd_fits w a"
  shows "\<exists>w'. wnd_advance w a = Some w' \<and> wnd_inv w' \<and> w_head w' = w_head w + a
           \<and> wnd_set w' = wnd_set w"
proof -
  let ?ws = "BIT_WORD (w_head w + a) - BIT_WORD (w_head w)"
  define w' where "w' = w\<lparr>w_summary := push_bit W (w_summary w), w_head := w_head w + a,
    w_head_word := ucast ((ucast (w_head_word w) + ?ws) mod 4)\<rparr>"
  have hw: "unat (w_head_word w) = unat (w_head w) div 64 mod 4"
    using inv by (simp add: wnd_inv_cells)
  have ws: "unat ?ws = W"
    unfolding W_def by (rule unat_BIT_WORD_diff [OF nw])
  have run: "wnd_advance w a = Some w'"
    using W4 ws advance_guard [OF inv fits] unfolding wnd_advance_def Let_def w'_def
    by (auto simp: FASTPASS_WND_WORDS_def word_le_nat_alt not_le bug_on_def)
  have pre: "unat (w_head w') = unat (w_head w) + unat a" "w_marked w' = w_marked w"
    using unat_no_wrap [OF nw] by (simp_all add: w'_def)
  note cells = advance_cells_image [OF inv W4 [unfolded W_def] pre fits, folded W_def]
  have "bit (w_summary w') k \<longleftrightarrow> (\<exists>e \<in> wnd_cells w'. e div 64 = k)" if "k < 64" for k
  proof -
    have "bit (w_summary w') k \<longleftrightarrow> W \<le> k \<and> (\<exists>e \<in> wnd_cells w. e div 64 = k - W)"
      using inv that by (auto simp: wnd_inv_cells w'_def bit_push_bit_iff)
    then show ?thesis
      unfolding cells(1) by (auto intro: rev_bexI)
  qed
  moreover have "unat (w_num_marked w') = card (wnd_cells w')"
    unfolding cells(1) using inv by (simp add: card_image w'_def wnd_inv_cells)
  ultimately have "wnd_inv w'"
    unfolding wnd_inv_cells using cells(2) inv advance_head_word [OF hw nw]
    by (simp add: w'_def wnd_inv_cells)
  moreover have "wnd_set w' = wnd_set w"
    by (rule advance_set [OF inv _ advance_cells(1) [OF pre, folded W_def] cells(1) fits])
      (simp_all add: w'_def)
  ultimately show ?thesis
    using run by (auto simp: w'_def)
qed

theorem wnd_advance_spec:
  assumes inv: "wnd_inv w" and nw: "unat (w_head w) + unat a < 2 ^ 64"
    and fits: "wnd_fits w a"
  shows "\<exists>w'. wnd_advance w a = Some w' \<and> wnd_inv w' \<and> w_head w' = w_head w + a
           \<and> wnd_set w' = wnd_set w"
proof (cases "(unat (w_head w) + unat a) div 64 - unat (w_head w) div 64 < 4")
  case True
  then show ?thesis by (rule advance_near [OF inv nw _ fits])
next
  case False
  let ?ws = "BIT_WORD (w_head w + a) - BIT_WORD (w_head w)"
  have hw: "unat (w_head_word w) = unat (w_head w) div 64 mod 4"
    using inv by (simp add: wnd_inv_cells)
  have none: "wnd_set w = {}"
    using advance_far_empty [OF fits] False by simp
  then have empty: "w_num_marked w = 0"
    using wnd_empty_iff [OF inv] by (simp add: wnd_empty_def)
  define w' where "w' = w\<lparr>w_marked := replicate 4 0, w_summary := 0, w_head := w_head w + a,
    w_head_word := ucast ((ucast (w_head_word w) + ?ws) mod 4)\<rparr>"
  have run: "wnd_advance w a = Some w'"
    using False unat_BIT_WORD_diff [OF nw] empty
    unfolding wnd_advance_def Let_def FASTPASS_WND_WORDS_def w'_def
    by (simp add: word_le_nat_alt)
  have "wnd_row w' k = 0" for k by (simp add: wnd_row_def w'_def)
  then have cells: "wnd_cells w' = {}" by (simp add: wnd_cells_def wnd_cell_def)
  then have "wnd_inv w'"
    unfolding wnd_inv_cells using advance_head_word [OF hw nw] empty by (simp add: w'_def)
  then show ?thesis
    using run cells none by (simp add: wnd_set_cells [of w']) (simp add: w'_def)
qed

end
