(* ===== verification/Window_Query.thy ===== *)
theory Window_Query
  imports Window_Update
begin

text \<open>
  What the searches of \<^verbatim>\<open>window.h\<close> compute: the nearest mark at or before and at or after a
  sequence number, and the 64-bit mask of marks that ends at a given position.
\<close>

section \<open>Extreme cells of a row\<close>

lemma cell_split: "e = 64 * (e div 64) + e mod 64" "e mod 64 < 64" for e :: nat
  by simp_all

lemma row_min:
  assumes "k < 4" and "wnd_row w k \<noteq> 0"
  shows "64 * k + (63 - fls (wnd_row w k)) \<in> wnd_cells w"
    and "f \<in> wnd_cells w \<Longrightarrow> k \<le> f div 64 \<Longrightarrow> 64 * k + (63 - fls (wnd_row w k)) \<le> f"
proof -
  note fls = fls_props [OF assms(2)]
  show "64 * k + (63 - fls (wnd_row w k)) \<in> wnd_cells w"
    using fls(1,2) assms(1) bit_row_cell [of "fls (wnd_row w k)" w k]
    unfolding wnd_cells_def by auto
  assume f: "f \<in> wnd_cells w" and "k \<le> f div 64"
  show "64 * k + (63 - fls (wnd_row w k)) \<le> f"
  proof (cases "f div 64 = k")
    case True
    then have "bit (wnd_row w k) (63 - f mod 64)"
      using f by (simp add: wnd_cells_def wnd_cell_def)
    then have "63 - f mod 64 \<le> fls (wnd_row w k)" by (rule fls(3))
    then show ?thesis using cell_split [of f] True by linarith
  next
    case False
    then have "64 * k + 64 \<le> 64 * (f div 64)" using \<open>k \<le> f div 64\<close> by simp
    then show ?thesis using cell_split(1) [of f] by linarith
  qed
qed

lemma row_max:
  assumes "k < 4" and "wnd_row w k \<noteq> 0"
  shows "64 * k + (63 - ffs (wnd_row w k)) \<in> wnd_cells w"
    and "f \<in> wnd_cells w \<Longrightarrow> f div 64 \<le> k \<Longrightarrow> f \<le> 64 * k + (63 - ffs (wnd_row w k))"
proof -
  note ffs = ffs_props [OF assms(2)]
  show "64 * k + (63 - ffs (wnd_row w k)) \<in> wnd_cells w"
    using ffs(1,2) assms(1) bit_row_cell [of "ffs (wnd_row w k)" w k]
    unfolding wnd_cells_def by auto
  assume f: "f \<in> wnd_cells w" and "f div 64 \<le> k"
  show "f \<le> 64 * k + (63 - ffs (wnd_row w k))"
  proof (cases "f div 64 = k")
    case True
    then have "bit (wnd_row w k) (63 - f mod 64)"
      using f by (simp add: wnd_cells_def wnd_cell_def)
    then have "ffs (wnd_row w k) \<le> 63 - f mod 64" by (rule ffs(3))
    then show ?thesis using cell_split [of f] True by linarith
  next
    case False
    then have "64 * (f div 64) + 64 \<le> 64 * k" using \<open>f div 64 \<le> k\<close> by simp
    then show ?thesis using cell_split [of f] by linarith
  qed
qed

section \<open>The nearest mark at or before a sequence number\<close>

lemma to_s32_of_nat:
  assumes "m < 2 ^ 31"
  shows "to_s32 (of_nat m) = int m"
proof -
  have "(ucast (of_nat m :: u64) :: u32) = of_nat m"
    using assms by (simp add: unsigned_of_nat take_bit_nat_eq_self)
  then show ?thesis
    using assms by (simp add: to_s32_def signed_of_nat signed_take_bit_int_eq_self)
qed

lemma to_s32_gap:
  assumes "m \<le> 64 * n + x" and "64 * n + x - m < 2 ^ 31"
  shows "to_s32 (64 * of_nat n + of_nat x - of_nat m) = int (64 * n + x - m)"
  using to_s32_of_nat [OF assms(2)] assms(1) by (simp add: of_nat_diff)

lemma same_row_diff:
  fixes f e q a b :: nat
  assumes "f = 64 * q + a" "e = 64 * q + b" "a < 64" "e \<le> f"
  shows "63 - (f - e) - b = 63 - a" "b \<le> 63 - (f - e)" "63 - (f - e) < 64"
  using assms by simp_all

text \<open>The search inside the word of the sequence number: cells from \<open>e0\<close> to the end of its row.\<close>

lemma before_same_row:
  fixes w :: fp_window and e0 :: nat
  defines "tmp \<equiv> push_bit (e0 mod 64) (wnd_row w (e0 div 64))"
  assumes "e0 < 256"
  shows "tmp \<noteq> 0 \<Longrightarrow> e0 + (63 - fls tmp) \<in> wnd_cells w \<and> (e0 + (63 - fls tmp)) div 64 = e0 div 64
           \<and> (\<forall>f \<in> wnd_cells w. e0 \<le> f \<longrightarrow> e0 + (63 - fls tmp) \<le> f)"
    and "tmp = 0 \<Longrightarrow> f \<in> wnd_cells w \<Longrightarrow> e0 \<le> f \<Longrightarrow> e0 div 64 < f div 64"
proof -
  have cell: "bit tmp (63 - (f - e0))" if "f \<in> wnd_cells w" "e0 \<le> f" "f div 64 = e0 div 64" for f
  proof -
    have "f = 64 * (e0 div 64) + f mod 64" "e0 = 64 * (e0 div 64) + e0 mod 64"
      using cell_split(1) [of f] that(3) by simp_all
    from same_row_diff [OF this cell_split(2) that(2)]
    have "63 - (f - e0) - e0 mod 64 = 63 - f mod 64" "e0 mod 64 \<le> 63 - (f - e0)"
        "63 - (f - e0) < 64" .
    then show ?thesis
      using that unfolding tmp_def bit_push_bit_iff wnd_cells_def wnd_cell_def by simp
  qed
  show "e0 div 64 < f div 64" if "tmp = 0" "f \<in> wnd_cells w" "e0 \<le> f"
    using cell [of f] that div_le_mono [of e0 f 64] by fastforce
  assume ne: "tmp \<noteq> 0"
  note fls = fls_props [OF ne]
  let ?n = "fls tmp"
  have n: "e0 mod 64 \<le> ?n" "bit (wnd_row w (e0 div 64)) (?n - e0 mod 64)"
    using fls(1) by (auto simp: tmp_def bit_push_bit_iff)
  have e: "e0 + (63 - ?n) = 64 * (e0 div 64) + (63 - (?n - e0 mod 64))"
    using n(1) fls(2) cell_split(1) [of e0] by linarith
  have sm: "63 - (?n - e0 mod 64) < 64" by simp
  have d: "(e0 + (63 - ?n)) div 64 = e0 div 64"
    unfolding e using sm by (simp only: div_mult_self4 div_less add_0_right)
  have "e0 div 64 < 4" using assms(2) by (simp add: div_less_iff_less_mult)
  then have "e0 + (63 - ?n) < 256" using sm unfolding e by linarith
  moreover have "wnd_cell w (e0 + (63 - ?n))"
    unfolding e using bit_row_cell [of "?n - e0 mod 64" w "e0 div 64"] n(2) fls(2) by simp
  moreover have "e0 + (63 - ?n) \<le> f" if "f \<in> wnd_cells w" "e0 \<le> f" for f
  proof (cases "f div 64 = e0 div 64")
    case True
    from fls(3) [OF cell [OF that True]] show ?thesis using that(2) by linarith
  next
    case False
    then have "64 * (e0 div 64) + 64 \<le> 64 * (f div 64)"
      using div_le_mono [OF that(2), of 64] by simp
    then show ?thesis using e sm cell_split(1) [of f] by linarith
  qed
  ultimately show "e0 + (63 - ?n) \<in> wnd_cells w \<and> (e0 + (63 - ?n)) div 64 = e0 div 64
           \<and> (\<forall>f \<in> wnd_cells w. e0 \<le> f \<longrightarrow> e0 + (63 - ?n) \<le> f)"
    using d by (simp add: wnd_cells_def)
qed


text \<open>The search through the summary: the first row behind row \<open>k0\<close> that has a mark.\<close>

lemma before_next_row:
  fixes w :: fp_window and k0 :: nat
  defines "tmp \<equiv> drop_bit k0 (w_summary w) AND NOT 1"
  assumes inv: "wnd_inv w" and "k0 < 4"
  shows "tmp \<noteq> 0 \<Longrightarrow> 0 < ffs tmp \<and> k0 + ffs tmp < 4 \<and> wnd_row w (k0 + ffs tmp) \<noteq> 0
           \<and> (\<forall>f \<in> wnd_cells w. k0 < f div 64 \<longrightarrow> k0 + ffs tmp \<le> f div 64)"
    and "tmp = 0 \<Longrightarrow> f \<in> wnd_cells w \<Longrightarrow> \<not> k0 < f div 64"
proof -
  have bits: "bit tmp n \<longleftrightarrow> 0 < n \<and> bit (w_summary w) (k0 + n)" for n
  proof -
    have "bit (NOT 1 :: u64) n \<longleftrightarrow> n < 64 \<and> 0 < n"
      by (auto simp: bit_not_iff bit_1_iff)
    moreover have "n < 64" if "bit (w_summary w) (k0 + n)"
      using bit_imp_le_length [OF that] by simp
    ultimately show ?thesis
      unfolding tmp_def bit_and_iff bit_drop_bit_eq by auto
  qed
  have cell: "bit tmp (f div 64 - k0)" if "f \<in> wnd_cells w" "k0 < f div 64" for f
  proof -
    have "f div 64 < 64" using wnd_cells_less [OF that(1)] by (simp add: div_less_iff_less_mult)
    then have "bit (w_summary w) (f div 64)"
      using inv that by (auto simp: wnd_inv_cells)
    then show ?thesis using that(2) by (simp add: bits)
  qed
  show "\<not> k0 < f div 64" if "tmp = 0" "f \<in> wnd_cells w"
    using cell that by fastforce
  assume ne: "tmp \<noteq> 0"
  note ffs = ffs_props [OF ne]
  have "0 < ffs tmp" and b: "bit (w_summary w) (k0 + ffs tmp)" using ffs(1) bits by simp_all
  moreover have "k0 + ffs tmp \<le> f div 64" if "f \<in> wnd_cells w" "k0 < f div 64" for f
    using ffs(3) [OF cell [OF that]] that(2) by linarith
  ultimately show "0 < ffs tmp \<and> k0 + ffs tmp < 4 \<and> wnd_row w (k0 + ffs tmp) \<noteq> 0
           \<and> (\<forall>f \<in> wnd_cells w. k0 < f div 64 \<longrightarrow> k0 + ffs tmp \<le> f div 64)"
    using summary_row [OF inv b] by blast
qed

lemma ring4_minus:
  assumes "h < 4" "k + n < 4"
  shows "((h + 4 - k) mod 4 + 4 - n) mod 4 = (h + 4 - (k + n)) mod (4 :: nat)"
proof -
  have "h + 4 - k + (4 - n) = h + 4 - (k + n) + 4" using assms by simp
  then have "(h + 4 - k + (4 - n)) mod 4 = (h + 4 - (k + n)) mod 4" by simp
  moreover have "(h + 4 - k) mod 4 + 4 - n = (h + 4 - k) mod 4 + (4 - n)" using assms by simp
  ultimately show ?thesis by (simp add: mod_simps)
qed

text \<open>The position of a sequence number of the window in terms of its cell.\<close>

lemma pos_word:
  assumes "in_wnd w s"
  shows "unat (BIT_WORD (wnd_pos s)) = wnd_ridx w ((wnd_back w s + wnd_off w) div 64)"
  using wnd_row_pos(1) [OF assms] by simp

lemma row_at_minus:
  assumes "in_wnd w s" and "(wnd_back w s + wnd_off w) div 64 + n < 4"
  shows "w_marked w ! unat ((BIT_WORD (wnd_pos s) - of_nat n) mod 4)
    = wnd_row w ((wnd_back w s + wnd_off w) div 64 + n)"
proof -
  let ?k = "(wnd_back w s + wnd_off w) div 64"
  have "unat ((BIT_WORD (wnd_pos s) - of_nat n) mod 4) = (wnd_ridx w ?k + 4 - n) mod 4"
    unfolding unat_sub_mod4 pos_word [OF assms(1)]
    using assms(2) by (simp add: unat_of_nat)
  also have "\<dots> = wnd_ridx w (?k + n)"
    unfolding wnd_ridx_def by (rule ring4_minus) (use assms(2) in simp_all)
  finally show ?thesis by (simp add: wnd_row_ridx)
qed

lemma before_gap:
  fixes e k r m n :: nat
  assumes "e = 64 * k + r" "r < 64" "m < 64" "0 < n" "k + n < 4"
  shows "e + (64 * n + (63 - r) - m) = 64 * (k + n) + (63 - m)"
    and "m \<le> 64 * n + (63 - r)" and "64 * n + (63 - r) - m < 2 ^ 31"
  using assms by auto

text \<open>The gap to the nearest mark at or before \<open>s\<close>, \<open>-1\<close> where there is none.\<close>

definition nearest_before :: "fp_window \<Rightarrow> u64 \<Rightarrow> int \<Rightarrow> bool" where
  "nearest_before w s r \<longleftrightarrow>
     (if \<exists>t \<in> wnd_set w. wnd_back w s \<le> wnd_back w t
      then 0 \<le> r \<and> s - of_int r \<in> wnd_set w \<and> wnd_back w (s - of_int r) = wnd_back w s + nat r
         \<and> (\<forall>t \<in> wnd_set w. wnd_back w s \<le> wnd_back w t \<longrightarrow> wnd_back w (s - of_int r) \<le> wnd_back w t)
      else r = - 1)"

lemma nearest_beforeI:
  assumes inv: "wnd_inv w" and iw: "in_wnd w s"
    and e: "wnd_back w s + wnd_off w + g \<in> wnd_cells w"
    and min: "\<forall>f \<in> wnd_cells w. wnd_back w s + wnd_off w \<le> f \<longrightarrow> wnd_back w s + wnd_off w + g \<le> f"
  shows "nearest_before w s (int g)"
proof -
  let ?t = "s - of_nat g"
  have g: "wnd_back w s + g < 192" using inv e by (auto simp: wnd_inv_cells)
  have eq: "w_head w - ?t = (w_head w - s) + of_nat g" by simp
  have bk: "wnd_back w ?t = wnd_back w s + g"
    using g unat_no_wrap [of "w_head w - s" "of_nat g"]
    unfolding wnd_back_def eq by (simp add: unat_of_nat)
  then have "?t \<in> wnd_set w" using e g by (simp add: wnd_set_cells in_wnd_def add_ac)
  moreover have "wnd_back w ?t \<le> wnd_back w t" if "t \<in> wnd_set w" "wnd_back w s \<le> wnd_back w t" for t
    using that min bk by (fastforce simp: wnd_set_cells)
  moreover have "\<exists>t \<in> wnd_set w. wnd_back w s \<le> wnd_back w t"
    using \<open>?t \<in> wnd_set w\<close> bk by (intro bexI [of _ ?t]) simp_all
  ultimately show ?thesis
    unfolding nearest_before_def by (simp add: bk)
qed

lemma nearest_before_noneI:
  assumes "\<And>f. f \<in> wnd_cells w \<Longrightarrow> \<not> wnd_back w s + wnd_off w \<le> f"
  shows "nearest_before w s (- 1)"
  using assms by (force simp: nearest_before_def wnd_set_cells)

theorem wnd_at_or_before_spec:
  assumes inv: "wnd_inv w" and na: "\<not> time_after64 s (w_head w)"
  shows "\<exists>r. wnd_at_or_before w s = Some r \<and> nearest_before w s r"
proof (cases "in_wnd w s")
  case False
  have b: "unat (w_head w - s) < 2 ^ 63" "192 \<le> unat (w_head w - s)"
    using na False by (simp_all add: time_cmp in_wnd_def wnd_back_def)
  have eq: "w_head w - FASTPASS_WND_LEN - s = (w_head w - s) - 192"
    by (simp add: FASTPASS_WND_LEN_def)
  have "unat (w_head w - FASTPASS_WND_LEN - s) = unat (w_head w - s) - 192"
    unfolding eq using b by (simp add: unat_sub word_le_nat_alt)
  then have "time_before_eq64 s (w_head w - FASTPASS_WND_LEN)"
    using b by (simp add: time_cmp)
  then have "wnd_at_or_before w s = Some (- 1)"
    using na by (simp add: wnd_at_or_before_def)
  moreover have "nearest_before w s (- 1)"
    using False by (auto simp: nearest_before_def wnd_set_def in_wnd_def)
  ultimately show ?thesis by blast
next
  case True
  let ?e = "wnd_back w s + wnd_off w"
  let ?k = "?e div 64"
  let ?t1 = "push_bit (?e mod 64) (wnd_row w ?k)"
  let ?t2 = "drop_bit ?k (w_summary w) AND NOT 1"
  have hw: "unat (w_head_word w) = unat (w_head w) div 64 mod 4"
    using inv by (simp add: wnd_inv_cells)
  have e256: "?e < 256" and k4: "?k < 4"
    using wnd_cell_less [OF True] wnd_cell_row_less [OF True] by simp_all
  have nb: "\<not> time_before_eq64 s (w_head w - FASTPASS_WND_LEN)"
    using True by (simp add: time_cmp in_wnd_def wnd_back_def FASTPASS_WND_LEN_def
        unat_sub_if_size word_size diff_right_commute [of _ 192])
  have code: "wnd_at_or_before w s =
    (if ?t1 \<noteq> 0 then Some (to_s32 (63 - of_nat (fls ?t1)))
     else if ?t2 = 0 then Some (- 1)
     else Some (to_s32 (64 * of_nat (ffs ?t2) + of_nat (63 - ?e mod 64)
            - of_nat (fls (w_marked w ! unat ((BIT_WORD (wnd_pos s) - of_nat (ffs ?t2)) mod 4))))))"
    using na nb cell_split(2) [of ?e]
    unfolding wnd_at_or_before_def Let_def BITS_PER_LONG_def pos_word [OF True] wnd_row_pos(2) [OF True]
      unat_summary_pos [OF hw True] wnd_row_ridx FASTPASS_WND_WORDS_def
    by simp
  show ?thesis
  proof (cases "?t1 = 0")
    case False
    note row = before_same_row(1) [OF e256 False]
    have "wnd_at_or_before w s = Some (int (63 - fls ?t1))"
      using False fls_less [OF False] to_s32_of_nat [of "63 - fls ?t1"]
      by (simp add: code of_nat_diff)
    then show ?thesis using nearest_beforeI [OF inv True] row by blast
  next
    case t1: True
    note later = before_same_row(2) [OF e256 t1]
    show ?thesis
    proof (cases "?t2 = 0")
      case True
      have "nearest_before w s (- 1)"
        by (rule nearest_before_noneI) (use before_next_row(2) [OF inv k4 True] later in blast)
      then show ?thesis using t1 True by (simp add: code)
    next
      case False
      note nr = before_next_row(1) [OF inv k4 False]
      let ?n = "ffs ?t2"
      let ?m = "fls (wnd_row w (?k + ?n))"
      let ?g = "64 * ?n + (63 - ?e mod 64) - ?m"
      have m: "?m < 64" using fls_less nr by blast
      have g: "?e + ?g = 64 * (?k + ?n) + (63 - ?m)" and mle: "?m \<le> 64 * ?n + (63 - ?e mod 64)"
        and g31: "?g < 2 ^ 31"
        using before_gap [OF cell_split [of ?e] m] nr by blast+
      have "wnd_at_or_before w s = Some (to_s32 (64 * of_nat ?n + of_nat (63 - ?e mod 64) - of_nat ?m))"
        using t1 False nr by (simp add: code row_at_minus [OF True])
      then have "wnd_at_or_before w s = Some (int ?g)"
        unfolding to_s32_gap [OF mle g31] .
      moreover have "nearest_before w s (int ?g)"
        using row_min [of "?k + ?n" w] nr later
        by (intro nearest_beforeI [OF inv True]) (auto simp only: g)
      ultimately show ?thesis by blast
    qed
  qed
qed


section \<open>The nearest mark at or after a sequence number\<close>

lemma same_row_diff_after:
  fixes f e q a b :: nat
  assumes "f = 64 * q + a" "e = 64 * q + b" "b < 64" "f \<le> e"
  shows "63 - b + (e - f) = 63 - a"
  using assms by simp

lemma after_same_row:
  fixes w :: fp_window and e0 :: nat
  defines "tmp \<equiv> drop_bit (63 - e0 mod 64) (wnd_row w (e0 div 64))"
  assumes "e0 < 256"
  shows "tmp \<noteq> 0 \<Longrightarrow> ffs tmp \<le> e0 \<and> e0 - ffs tmp \<in> wnd_cells w
           \<and> (\<forall>f \<in> wnd_cells w. f \<le> e0 \<longrightarrow> f \<le> e0 - ffs tmp)"
    and "tmp = 0 \<Longrightarrow> f \<in> wnd_cells w \<Longrightarrow> f \<le> e0 \<Longrightarrow> f div 64 < e0 div 64"
proof -
  have cell: "bit tmp (e0 - f)" if "f \<in> wnd_cells w" "f \<le> e0" "f div 64 = e0 div 64" for f
  proof -
    have "f = 64 * (e0 div 64) + f mod 64" "e0 = 64 * (e0 div 64) + e0 mod 64"
      using cell_split(1) [of f] that(3) by simp_all
    from same_row_diff_after [OF this cell_split(2) that(2)]
    show ?thesis
      using that unfolding tmp_def bit_drop_bit_eq wnd_cells_def wnd_cell_def by simp
  qed
  show "f div 64 < e0 div 64" if "tmp = 0" "f \<in> wnd_cells w" "f \<le> e0"
    using cell [of f] that div_le_mono [of f e0 64] by fastforce
  assume ne: "tmp \<noteq> 0"
  note ffs = ffs_props [OF ne]
  let ?n = "ffs tmp"
  have b: "bit (wnd_row w (e0 div 64)) (63 - e0 mod 64 + ?n)"
    using ffs(1) by (simp add: tmp_def bit_drop_bit_eq)
  then have n: "63 - e0 mod 64 + ?n < 64" using bit_imp_le_length by fastforce
  have e: "e0 - ?n = 64 * (e0 div 64) + (63 - (63 - e0 mod 64 + ?n))" and le: "?n \<le> e0"
    using n cell_split [of e0] by linarith+
  have "wnd_cell w (e0 - ?n)"
    unfolding e using bit_row_cell [OF n, of w "e0 div 64"] b by simp
  moreover have "f \<le> e0 - ?n" if "f \<in> wnd_cells w" "f \<le> e0" for f
  proof (cases "f div 64 = e0 div 64")
    case True
    from ffs(3) [OF cell [OF that True]] show ?thesis using that(2) le by linarith
  next
    case False
    then have "64 * (f div 64) + 64 \<le> 64 * (e0 div 64)"
      using div_le_mono [OF that(2), of 64] by simp
    then show ?thesis using e cell_split [of f] by linarith
  qed
  ultimately show "?n \<le> e0 \<and> e0 - ?n \<in> wnd_cells w
           \<and> (\<forall>f \<in> wnd_cells w. f \<le> e0 \<longrightarrow> f \<le> e0 - ?n)"
    using le assms(2) by (simp add: wnd_cells_def)
qed

lemma after_next_row:
  fixes w :: fp_window and k0 :: nat
  defines "tmp \<equiv> push_bit (63 - k0) (w_summary w) AND (push_bit 63 1 - 1)"
  assumes inv: "wnd_inv w" and "k0 < 4"
  shows "tmp \<noteq> 0 \<Longrightarrow> fls tmp < 63 \<and> 63 - fls tmp \<le> k0 \<and> wnd_row w (k0 - (63 - fls tmp)) \<noteq> 0
           \<and> (\<forall>f \<in> wnd_cells w. f div 64 < k0 \<longrightarrow> f div 64 \<le> k0 - (63 - fls tmp))"
    and "tmp = 0 \<Longrightarrow> f \<in> wnd_cells w \<Longrightarrow> \<not> f div 64 < k0"
proof -
  have bits: "bit tmp n \<longleftrightarrow> n < 63 \<and> 63 - k0 \<le> n \<and> bit (w_summary w) (n - (63 - k0))" for n
  proof -
    have m: "push_bit 63 1 - 1 = (mask 63 :: u64)" by (simp add: mask_eq_exp_minus_1)
    show ?thesis
      unfolding tmp_def bit_and_iff m bit_mask_iff by (auto simp: bit_push_bit_iff)
  qed
  have cell: "bit tmp (63 - (k0 - f div 64))" if "f \<in> wnd_cells w" "f div 64 < k0" for f
  proof -
    have "bit (w_summary w) (f div 64)"
      using inv that \<open>k0 < 4\<close> by (auto simp: wnd_inv_cells)
    moreover have "63 - (k0 - f div 64) - (63 - k0) = f div 64" "63 - (k0 - f div 64) < 63"
        "63 - k0 \<le> 63 - (k0 - f div 64)"
      using that(2) \<open>k0 < 4\<close> by linarith+
    ultimately show ?thesis by (simp only: bits)
  qed
  show "\<not> f div 64 < k0" if "tmp = 0" "f \<in> wnd_cells w"
    using cell that by fastforce
  assume ne: "tmp \<noteq> 0"
  note fls = fls_props [OF ne]
  have b: "fls tmp < 63" "63 - k0 \<le> fls tmp" "bit (w_summary w) (fls tmp - (63 - k0))"
    using fls(1) bits by simp_all
  have eq: "k0 - (63 - fls tmp) = fls tmp - (63 - k0)" using b \<open>k0 < 4\<close> by linarith
  have "f div 64 \<le> k0 - (63 - fls tmp)" if "f \<in> wnd_cells w" "f div 64 < k0" for f
    using fls(3) [OF cell [OF that]] that(2) \<open>k0 < 4\<close> by linarith
  then show "fls tmp < 63 \<and> 63 - fls tmp \<le> k0 \<and> wnd_row w (k0 - (63 - fls tmp)) \<noteq> 0
           \<and> (\<forall>f \<in> wnd_cells w. f div 64 < k0 \<longrightarrow> f div 64 \<le> k0 - (63 - fls tmp))"
    using summary_row(2) [OF inv b(3)] b(1,2) eq by auto
qed

lemma ring4_plus:
  assumes "h < 4" "k < 4" "m \<le> k"
  shows "((h + 4 - k) mod 4 + m) mod 4 = (h + 4 - (k - m)) mod (4 :: nat)"
proof -
  have "h + 4 - k + m = h + 4 - (k - m)" using assms by simp
  then show ?thesis by (metis mod_add_left_eq)
qed

lemma row_at_plus:
  assumes "in_wnd w s" and "m \<le> (wnd_back w s + wnd_off w) div 64"
  shows "w_marked w ! unat ((BIT_WORD (wnd_pos s) + of_nat m) mod 4)
    = wnd_row w ((wnd_back w s + wnd_off w) div 64 - m)"
proof -
  let ?k = "(wnd_back w s + wnd_off w) div 64"
  have k: "?k < 4" by (rule wnd_cell_row_less [OF assms(1)])
  have "unat ((BIT_WORD (wnd_pos s) + of_nat m) mod 4) = (wnd_ridx w ?k + m) mod 4"
    unfolding unat_add_mod4 pos_word [OF assms(1)]
    using assms(2) k by (simp add: unat_of_nat)
  also have "\<dots> = wnd_ridx w (?k - m)"
    unfolding wnd_ridx_def by (rule ring4_plus) (use assms(2) k in simp_all)
  finally show ?thesis by (simp add: wnd_row_ridx)
qed

text \<open>The earliest mark that does not precede \<open>s\<close>, \<open>None\<close> where there is none.\<close>

definition nearest_after :: "fp_window \<Rightarrow> u64 \<Rightarrow> u64 option \<Rightarrow> bool" where
  "nearest_after w s r \<longleftrightarrow>
     (case r of
        None \<Rightarrow> \<forall>t \<in> wnd_set w. \<not> wnd_back w t \<le> wnd_back w s
      | Some t \<Rightarrow> t \<in> wnd_set w \<and> wnd_back w t \<le> wnd_back w s
          \<and> (\<forall>u \<in> wnd_set w. wnd_back w u \<le> wnd_back w s \<longrightarrow> wnd_back w u \<le> wnd_back w t))"

lemma nearest_afterI:
  assumes inv: "wnd_inv w" and iw: "in_wnd w s" and g: "g \<le> wnd_back w s + wnd_off w"
    and e: "wnd_back w s + wnd_off w - g \<in> wnd_cells w"
    and mx: "\<forall>f \<in> wnd_cells w. f \<le> wnd_back w s + wnd_off w \<longrightarrow> f \<le> wnd_back w s + wnd_off w - g"
  shows "nearest_after w s (Some (s + of_nat g))"
proof -
  let ?t = "s + of_nat g"
  have "wnd_off w \<le> wnd_back w s + wnd_off w - g"
    using inv e by (auto simp: wnd_inv_cells simp del: diff_diff_left)
  then have gb: "g \<le> wnd_back w s" using g by linarith
  then have g64: "unat (of_nat g :: u64) = g"
    using iw by (simp add: in_wnd_def unat_of_nat)
  have eq: "w_head w - ?t = (w_head w - s) - of_nat g" by simp
  have bk: "wnd_back w ?t = wnd_back w s - g"
    unfolding wnd_back_def eq using gb g64
    by (simp add: unat_sub word_le_nat_alt wnd_back_def)
  then have "?t \<in> wnd_set w" using e iw gb by (simp add: wnd_set_cells in_wnd_def add_ac)
  moreover have "wnd_back w u \<le> wnd_back w ?t" if "u \<in> wnd_set w" "wnd_back w u \<le> wnd_back w s" for u
    using that mx bk gb by (fastforce simp: wnd_set_cells)
  ultimately show ?thesis
    unfolding nearest_after_def by (simp add: bk)
qed

lemma nearest_after_noneI:
  assumes "\<And>f. f \<in> wnd_cells w \<Longrightarrow> \<not> f \<le> wnd_back w s + wnd_off w"
  shows "nearest_after w s None"
  using assms by (force simp: nearest_after_def wnd_set_cells)

lemma after_gap:
  fixes e k r m n :: nat
  assumes "e = 64 * k + r" "r < 64" "n < 64" "0 < m" "m \<le> k"
  shows "e - (64 * m + n - (63 - r)) = 64 * (k - m) + (63 - n)"
    and "63 - r \<le> 64 * m + n" and "64 * m + n - (63 - r) \<le> e"
  using assms by auto

lemma wnd_seq_before_iff:
  assumes "\<not> wnd_seq_after w s"
  shows "wnd_seq_before w s \<longleftrightarrow> \<not> in_wnd w s"
proof -
  have b: "unat (w_head w - s) < 2 ^ 63"
    using assms by (simp add: wnd_seq_after_def wnd_head_def time_cmp)
  have eq: "s - wnd_edge w = 191 - (w_head w - s)"
    by (simp add: wnd_edge_def FASTPASS_WND_LEN_def)
  show ?thesis
    unfolding wnd_seq_before_def in_wnd_def wnd_back_def time_cmp eq
    using b by (auto simp: unat_sub_if_size word_size)
qed

lemma wnd_at_or_after_code:
  assumes inv: "wnd_inv w" and na: "\<not> wnd_seq_after w s" and iw: "in_wnd w s"
  defines "e \<equiv> wnd_back w s + wnd_off w"
  defines "t1 \<equiv> drop_bit (63 - e mod 64) (wnd_row w (e div 64))"
  defines "t2 \<equiv> push_bit (63 - e div 64) (w_summary w) AND (push_bit 63 1 - 1)"
  shows "wnd_at_or_after w s =
    (if t1 \<noteq> 0 then Some (s + of_nat (ffs t1))
     else if t2 = 0 then None
     else Some (s - of_nat (63 - e mod 64) + 64 * (63 - of_nat (fls t2))
            + of_nat (ffs (w_marked w ! unat ((BIT_WORD (wnd_pos s) + (63 - of_nat (fls t2))) mod 4)))))"
proof -
  have hw: "unat (w_head_word w) = unat (w_head w) div 64 mod 4"
    using inv by (simp add: wnd_inv_cells)
  show ?thesis
    using na wnd_seq_before_iff [OF na] iw
    unfolding wnd_at_or_after_def Let_def BITS_PER_LONG_def pos_word [OF iw] wnd_row_pos(2) [OF iw]
      unat_summary_pos [OF hw iw] wnd_row_ridx FASTPASS_WND_WORDS_def t1_def t2_def e_def
    by simp
qed

lemma after_word:
  fixes s :: u64
  assumes "b \<le> 64 * m + n"
  shows "s - of_nat b + 64 * of_nat m + of_nat n = s + of_nat (64 * m + n - b :: nat)"
  using assms by (simp add: of_nat_diff)

lemma wnd_at_or_after_inside:
  assumes inv: "wnd_inv w" and na: "\<not> wnd_seq_after w s" and iw: "in_wnd w s"
  shows "nearest_after w s (wnd_at_or_after w s)"
proof -
  let ?e = "wnd_back w s + wnd_off w"
  let ?t1 = "drop_bit (63 - ?e mod 64) (wnd_row w (?e div 64))"
  let ?t2 = "push_bit (63 - ?e div 64) (w_summary w) AND (push_bit 63 1 - 1)"
  note code = wnd_at_or_after_code [OF assms]
  note e256 = wnd_cell_less [OF iw] and k4 = wnd_cell_row_less [OF iw]
  show ?thesis
  proof (cases "?t1 = 0")
    case False
    note row = after_same_row(1) [OF e256 False]
    have "nearest_after w s (Some (s + of_nat (ffs ?t1)))"
      using row by (intro nearest_afterI [OF inv iw]) blast+
    then show ?thesis using False code by simp
  next
    case t1: True
    note earlier = after_same_row(2) [OF e256 t1]
    show ?thesis
    proof (cases "?t2 = 0")
      case True
      have "nearest_after w s None"
        by (rule nearest_after_noneI) (use after_next_row(2) [OF inv k4 True] earlier in blast)
      then show ?thesis unfolding code using t1 True by simp
    next
      case False
      define m where "m = 63 - fls ?t2"
      define n where "n = ffs (wnd_row w (?e div 64 - m))"
      define g where "g = 64 * m + n - (63 - ?e mod 64)"
      note nr = after_next_row(1) [OF inv k4 False]
      have m: "0 < m" "m \<le> ?e div 64" "of_nat m = (63 - of_nat (fls ?t2) :: u64)"
        and ne: "wnd_row w (?e div 64 - m) \<noteq> 0"
        using nr unfolding m_def by (auto simp only: of_nat_diff zero_less_diff less_imp_le of_nat_numeral)
      have n: "n < 64" unfolding n_def using ne by (rule ffs_less)
      note gap = after_gap [OF cell_split [of ?e] n m(1,2)]
      have "wnd_at_or_after w s = Some (s - of_nat (63 - ?e mod 64) + 64 * of_nat m + of_nat n)"
        unfolding code m(3) [symmetric] row_at_plus [OF iw m(2)] n_def using t1 False by simp
      also have "\<dots> = Some (s + of_nat g)"
        unfolding g_def after_word [OF gap(2)] ..
      finally have res: "wnd_at_or_after w s = Some (s + of_nat g)" .
      note mx = row_max [OF _ ne, folded n_def]
      have "nearest_after w s (Some (s + of_nat g))"
        using mx k4 gap(1,3) nr earlier unfolding g_def m_def [symmetric]
        by (intro nearest_afterI [OF inv iw]) (auto simp only: gap(1))
      then show ?thesis unfolding res .
    qed
  qed
qed

theorem wnd_at_or_after_spec:
  assumes inv: "wnd_inv w" and na: "\<not> wnd_seq_after w s"
  shows "nearest_after w s (wnd_at_or_after w s)"
proof (cases "in_wnd w s")
  case False
  then have b: "wnd_back w t < wnd_back w s" if "t \<in> wnd_set w" for t
    using that by (auto simp: wnd_set_def in_wnd_def)
  have "wnd_at_or_after w s = (if wnd_set w = {} then None else Some (wnd_earliest_marked w))"
    using na False by (simp add: wnd_at_or_after_def wnd_seq_before_iff wnd_empty_iff [OF inv])
  then show ?thesis
    using wnd_earliest_marked_spec [OF inv] b by (auto simp: nearest_after_def less_imp_le)
qed (rule wnd_at_or_after_inside [OF assms])


section \<open>The mask of the last 64 sequence numbers\<close>

lemma slot_split:
  fixes x v r :: nat
  assumes "x = 64 * v + r \<or> x = 64 * v + r + 256" "r < 64" "v < 4"
  shows "x mod 256 div 64 = v" "x mod 256 mod 64 = r"
  using assms by auto

lemma sub_slot:
  fixes P W c j :: nat
  assumes "P = 64 * W + c" "W < 4" "c < 64" "j < 64"
  shows "(P + 256 - j) mod 256 div 64 = (if j \<le> c then W else (W + 4 - 1) mod 4) \<and>
      (P + 256 - j) mod 256 mod 64 = (if j \<le> c then c - j else 64 + c - j)"
proof (cases "j \<le> c")
  case True
  then have "P + 256 - j = 64 * W + (c - j) + 256" "c - j < 64" using assms by simp_all
  then show ?thesis using slot_split [of "P + 256 - j" W "c - j"] True \<open>W < 4\<close> by simp
next
  case False
  have d: "64 + c - j < 64" using False assms by simp
  show ?thesis
  proof (cases W)
    case 0
    have "P + 256 - j = 64 * 3 + (64 + c - j)" using False assms 0 by simp
    then show ?thesis using slot_split [of "P + 256 - j" 3 "64 + c - j"] False d 0 by simp
  next
    case (Suc v)
    have "P + 256 - j = 64 * v + (64 + c - j) + 256" using False assms Suc by simp
    moreover have "(W + 4 - 1) mod 4 = v" using Suc \<open>W < 4\<close> by simp
    ultimately show ?thesis
      using slot_split [of "P + 256 - j" v "64 + c - j"] False d Suc \<open>W < 4\<close> by simp
  qed
qed

lemma unat_minus_mod256:
  assumes "j < 64"
  shows "unat (p - of_nat j :: u64) mod 256 = (unat p mod 256 + 256 - j) mod 256"
proof -
  have u: "unat (of_nat j :: u64) = j"
    using assms by (simp add: unat_of_nat)
  have "unat p mod 256 = (unat (p - of_nat j) + unat (of_nat j :: u64)) mod 256"
    using unat_plus_mod_u64 [of 256 "p - of_nat j" "of_nat j"] by simp
  then have "(unat p mod 256 + (256 - j)) mod 256 = (unat (p - of_nat j) + j + (256 - j)) mod 256"
    unfolding u by (simp only: mod_add_left_eq)
  also have "unat (p - of_nat j) + j + (256 - j) = unat (p - of_nat j) + 256"
    using assms by simp
  finally show ?thesis using assms by simp
qed

lemma bit_get_mask_unsafe:
  assumes "i < 64"
  shows "bit (wnd_get_mask_unsafe w p) i \<longleftrightarrow> wnd_is_marked w (p - of_nat (63 - i))"
proof -
  define W where "W = unat p mod 256 div 64"
  define c where "c = unat p mod 256 mod 64"
  have W: "unat p mod 256 = 64 * W + c" "W < 4" and c: "c < 64"
    by (simp_all add: W_def c_def)
  have j: "63 - i < 64" by simp
  note sl = sub_slot [OF W c j]
  have bw: "unat (BIT_WORD (wnd_pos p)) = W" by (simp add: unat_wnd_pos W_def)
  have bw1: "unat ((BIT_WORD (wnd_pos p) - 1) mod 4) = (W + 4 - 1) mod 4"
    using unat_sub_mod4 [of "BIT_WORD (wnd_pos p)" 1] bw W(2) by simp
  have mk: "wnd_is_marked w (p - of_nat (63 - i)) \<longleftrightarrow>
    bit (w_marked w ! (if 63 - i \<le> c then W else (W + 4 - 1) mod 4))
      (if 63 - i \<le> c then c - (63 - i) else 64 + c - (63 - i))"
    unfolding wnd_is_marked_def test_bit_arr_eq unat_wnd_pos unat_minus_mod256 [OF j] sl [THEN conjunct1] sl [THEN conjunct2] ..
  have code: "wnd_get_mask_unsafe w p =
     (if c = 63 then w_marked w ! W
      else push_bit (63 - c) (w_marked w ! W) OR drop_bit (c + 1) (w_marked w ! ((W + 4 - 1) mod 4)))"
    unfolding wnd_get_mask_unsafe_def Let_def BITS_PER_LONG_def FASTPASS_WND_WORDS_def bw bw1 unat_wnd_pos
    by (simp add: c_def)
  show ?thesis
  proof (cases "63 - i \<le> c")
    case True
    then have "63 - c \<le> i" "i - (63 - c) = c - (63 - i)" using c assms by simp_all
    moreover have "\<not> bit (w_marked w ! ((W + 4 - 1) mod 4)) (c + 1 + i)"
      using True bit_imp_le_length [of "w_marked w ! ((W + 4 - 1) mod 4)" "c + 1 + i"] by auto
    ultimately show ?thesis
      unfolding mk code using True assms c
      by (auto simp: bit_or_iff bit_push_bit_iff bit_drop_bit_eq)
  next
    case False
    then have "\<not> 63 - c \<le> i" "c + 1 + i = 64 + c - (63 - i)" using c assms by simp_all
    then show ?thesis
      unfolding mk code using False assms c
      by (auto simp: bit_or_iff bit_push_bit_iff bit_drop_bit_eq)
  qed
qed

text \<open>A slot outside the window is never marked, whatever multiple of the ring size away.\<close>

lemma wnd_is_marked_outside:
  assumes inv: "wnd_inv w" and "192 \<le> wnd_back w t mod 256"
  shows "\<not> wnd_is_marked w t"
proof
  assume "wnd_is_marked w t"
  moreover have "(wnd_back w t + wnd_off w) mod 256 < 256" by simp
  ultimately have "(wnd_back w t + wnd_off w) mod 256 \<in> wnd_cells w"
    by (simp add: wnd_is_marked_cell wnd_cells_def)
  then have "(wnd_back w t mod 256 + wnd_off w) mod 256 \<in> {wnd_off w ..< wnd_off w + 192}"
    using inv by (auto simp: wnd_inv_cells mod_simps)
  moreover have "wnd_back w t mod 256 < 256" by simp
  ultimately show False
    using assms(2) wnd_off_less [of w]
    by (auto simp: mod_if [of "wnd_back w t mod 256 + wnd_off w"] split: if_splits)
qed

lemma marked_near:
  assumes inv: "wnd_inv w" and "wnd_back w t < 256 \<or> 2 ^ 64 - 64 \<le> wnd_back w t"
  shows "wnd_is_marked w t \<longleftrightarrow> t \<in> wnd_set w"
proof (cases "wnd_back w t < 192")
  case True
  then show ?thesis using wnd_is_marked_iff [OF inv] by (simp add: in_wnd_def)
next
  case False
  have "192 \<le> wnd_back w t mod 256"
    using assms(2)
  proof
    assume "2 ^ 64 - 64 \<le> wnd_back w t"
    then have "wnd_back w t = 256 * (2 ^ 56 - 1) + (wnd_back w t - 256 * (2 ^ 56 - 1))"
      and r: "192 \<le> wnd_back w t - 256 * (2 ^ 56 - 1)" by simp_all
    moreover have "wnd_back w t - 256 * (2 ^ 56 - 1) < 256"
      using unat_u64_less [of "w_head w - t"] unfolding wnd_back_def
      by (simp add: less_diff_conv2 del: unat_u64_less)
    ultimately show ?thesis by (metis mod_mult_self4 mod_less)
  qed (use False in simp)
  then show ?thesis
    using wnd_is_marked_outside [OF inv] False by (auto simp: wnd_set_def in_wnd_def)
qed

lemma wnd_back_minus:
  "wnd_back w (p - of_nat j) = unat (w_head w - p + of_nat j)"
  by (simp add: wnd_back_def algebra_simps)

lemma unat_neg_sum:
  fixes d :: u64
  shows "unat d + unat (- d - 64) + 64 = 2 ^ 64 \<or> unat d + unat (- d - 64) + 64 = 2 * 2 ^ 64"
proof -
  have "(unat d + unat (- d - 64) + 64) mod 2 ^ 64 = unat (d + (- d - 64) + 64)"
    by (subst unat_word_ariths, subst unat_word_ariths) (simp add: mod_simps)
  also have "\<dots> = 0" by simp
  finally obtain q where q: "unat d + unat (- d - 64) + 64 = 2 ^ 64 * q" by (auto elim: dvdE)
  moreover have "unat d + unat (- d - 64) + 64 < 2 ^ 64 * 3"
    using unat_u64_less [of d] unat_u64_less [of "- d - 64"] by (simp del: unat_u64_less)
  ultimately have "q < 3" by simp
  then have "q = 0 \<or> q = 1 \<or> q = 2" by auto
  then show ?thesis using q by auto
qed

lemma unat_plus_small:
  fixes d :: u64
  assumes "j < 64"
  shows "unat (d + of_nat j) = (if unat d + j < 2 ^ 64 then unat d + j else unat d + j - 2 ^ 64)"
proof -
  have "unat (d + of_nat j) = (unat d + j) mod 2 ^ 64"
    using assms by (simp add: unat_word_ariths unat_of_nat)
  moreover have "unat d + j < 2 * 2 ^ 64" using assms unat_u64_less [of d] by (simp del: unat_u64_less)
  ultimately show ?thesis by (simp add: mod_if [of "unat d + j"])
qed

lemma mask_above:
  fixes d :: u64
  assumes "j < 64" "unat (- d - 64) < 2 ^ 63"
  shows "192 \<le> unat (d + of_nat j)"
  using assms unat_neg_sum [of d] unat_u64_less [of d] by (auto simp: unat_plus_small)

lemma mask_between:
  fixes d :: u64
  assumes "j < 64" "\<not> unat (d - 192) < 2 ^ 63" "\<not> unat (- d - 64) < 2 ^ 63"
  shows "unat (d + of_nat j) < 256 \<or> 2 ^ 64 - 64 \<le> unat (d + of_nat j)"
proof -
  define x where "x = unat (- d - 64)"
  have "unat d < 192 \<or> 2 ^ 63 + 192 \<le> unat d"
    using assms(2) by (auto simp: unat_sub_if_size word_size split: if_splits)
  moreover have "unat d + x + 64 = 2 ^ 64 \<or> unat d + x + 64 = 2 * 2 ^ 64" "2 ^ 63 \<le> x" "x < 2 ^ 64"
    using unat_neg_sum [of d] assms(3) unat_u64_less [of "- d - 64"]
    unfolding x_def by (simp_all del: unat_u64_less)
  moreover have "unat d < 2 ^ 64" by simp
  ultimately show ?thesis
    using assms(1) by (auto simp: unat_plus_small simp del: unat_u64_less)
qed

theorem wnd_get_mask_spec:
  assumes inv: "wnd_inv w" and i: "i < 64"
  shows "bit (wnd_get_mask w p) i \<longleftrightarrow> p - of_nat (63 - i) \<in> wnd_set w"
proof -
  define d where "d = w_head w - p"
  define j where "j = 63 - i"
  have j: "j < 64" "unat (of_nat j :: u64) = j" by (simp_all add: j_def unat_of_nat)
  have bk: "wnd_back w (p - of_nat j) = unat (d + of_nat j)"
    by (simp add: wnd_back_minus d_def)
  have lo: "time_before_eq64 p (w_head w - FASTPASS_WND_LEN) \<longleftrightarrow> unat (d - 192) < 2 ^ 63"
    by (simp add: time_cmp d_def FASTPASS_WND_LEN_def algebra_simps)
  have hi: "time_after_eq64 p (w_head w + of_nat BITS_PER_LONG) \<longleftrightarrow> unat (- d - 64) < 2 ^ 63"
    by (simp add: time_cmp d_def BITS_PER_LONG_def algebra_simps)
  have "192 \<le> unat (d + of_nat j)" if "unat (d - 192) < 2 ^ 63"
    using that j unat_no_wrap [of d "of_nat j"]
    by (simp add: unat_sub_if_size word_size split: if_splits)
  moreover note mask_above [OF j(1), of d] mask_between [OF j(1), of d]
  ultimately show ?thesis
    using bit_get_mask_unsafe [OF i, of w p] marked_near [OF inv, of "p - of_nat j"]
    unfolding wnd_get_mask_def lo hi bk j_def [symmetric]
    by (auto simp: wnd_set_def in_wnd_def bk)
qed
end
