(* ===== verification/Window_Spec.thy ===== *)
theory Window_Spec
  imports Window_Query
begin

text \<open>
  The contract of the sliding window, independent of its bitmap: a head and a set of marked
  sequence numbers among the 192 that end at the head. The locale \<open>seqno_window\<close> states what
  a client may rely on; its interpretation \<open>fpw\<close> shows that \<^verbatim>\<open>window.h\<close> keeps the contract. The
  specification machine \<open>aw_run\<close> turns the contract into a refinement of whole runs.
\<close>

section \<open>The contract\<close>

locale seqno_window =
  fixes inv :: "'w \<Rightarrow> bool"
    and head_of :: "'w \<Rightarrow> u64"
    and marks :: "'w \<Rightarrow> u64 set"
    and mark :: "'w \<Rightarrow> u64 \<Rightarrow> 'w option"
    and clear :: "'w \<Rightarrow> u64 \<Rightarrow> 'w option"
    and advance :: "'w \<Rightarrow> u64 \<Rightarrow> 'w option"
    and reset :: "'w \<Rightarrow> u64 \<Rightarrow> 'w"
  assumes marks_in_window: "inv w \<Longrightarrow> s \<in> marks w \<Longrightarrow> unat (head_of w - s) < 192"
    and mark_ok: "inv w \<Longrightarrow> unat (head_of w - s) < 192 \<Longrightarrow> s \<notin> marks w \<Longrightarrow>
      \<exists>w'. mark w s = Some w' \<and> inv w' \<and> head_of w' = head_of w \<and> marks w' = insert s (marks w)"
    and clear_ok: "inv w \<Longrightarrow> s \<in> marks w \<Longrightarrow>
      \<exists>w'. clear w s = Some w' \<and> inv w' \<and> head_of w' = head_of w \<and> marks w' = marks w - {s}"
    and advance_ok: "inv w \<Longrightarrow> unat (head_of w) + unat a < 2 ^ 64 \<Longrightarrow>
      (\<forall>s \<in> marks w. unat (head_of w - s) + unat a < 192) \<Longrightarrow>
      \<exists>w'. advance w a = Some w' \<and> inv w' \<and> head_of w' = head_of w + a \<and> marks w' = marks w"
    and reset_ok: "inv (reset w h) \<and> head_of (reset w h) = h \<and> marks (reset w h) = {}"
begin

text \<open>
  The step a sender takes for every packet: the window moves by one and the new head is
  marked. It needs the oldest slot to be free and the counter not to be at its end.
\<close>

lemma append_ok:
  assumes w: "inv w" and top: "head_of w \<noteq> - 1" and edge: "head_of w - 191 \<notin> marks w"
  shows "\<exists>w1 w2. advance w 1 = Some w1 \<and> mark w1 (head_of w1) = Some w2 \<and> inv w2
    \<and> head_of w1 = head_of w + 1 \<and> head_of w2 = head_of w + 1
    \<and> marks w2 = insert (head_of w + 1) (marks w)"
proof -
  have "unat (head_of w) \<noteq> 2 ^ 64 - 1"
    using top unat_eq_iff [of "head_of w" "- 1"] by simp
  then have nw: "unat (head_of w) + unat (1 :: u64) < 2 ^ 64"
    using unat_u64_less [of "head_of w"] by (simp del: unat_u64_less)
  have "unat (head_of w - s) + unat (1 :: u64) < 192" if s: "s \<in> marks w" for s
  proof -
    have "unat (head_of w - s) < 192" using marks_in_window [OF w s] .
    moreover have "unat (head_of w - s) \<noteq> 191"
    proof
      assume "unat (head_of w - s) = 191"
      then have "head_of w - s = 191" by (simp add: unat_eq_iff)
      then have "s = head_of w - 191" by (metis diff_diff_eq2 add_diff_cancel_left' diff_add_cancel)
      with s edge show False by simp
    qed
    ultimately show ?thesis by simp
  qed
  then obtain w1 where w1: "advance w 1 = Some w1" "inv w1" "head_of w1 = head_of w + 1"
      "marks w1 = marks w"
    using advance_ok [OF w nw] by blast
  have "head_of w1 \<notin> marks w1"
  proof
    assume "head_of w1 \<in> marks w1"
    then have "unat (head_of w - (head_of w + 1)) < 192"
      using marks_in_window [OF w, of "head_of w1"] w1(3,4) by (simp only:)
    then show False by simp
  qed
  then obtain w2 where "mark w1 (head_of w1) = Some w2" "inv w2" "head_of w2 = head_of w1"
      "marks w2 = insert (head_of w1) (marks w1)"
    using mark_ok [OF w1(2), of "head_of w1"] by auto
  then show ?thesis using w1 by auto
qed

end

interpretation fpw: seqno_window wnd_inv w_head wnd_set wnd_mark wnd_clear wnd_advance wnd_reset
proof unfold_locales
  fix w s
  show "wnd_inv w \<Longrightarrow> s \<in> wnd_set w \<Longrightarrow> unat (w_head w - s) < 192"
    by (simp add: wnd_set_def in_wnd_def wnd_back_def)
  show "wnd_inv w \<Longrightarrow> unat (w_head w - s) < 192 \<Longrightarrow> s \<notin> wnd_set w \<Longrightarrow>
      \<exists>w'. wnd_mark w s = Some w' \<and> wnd_inv w' \<and> w_head w' = w_head w \<and> wnd_set w' = insert s (wnd_set w)"
    using wnd_mark_spec [of w s] by (simp add: in_wnd_def wnd_back_def)
  show "wnd_inv w \<Longrightarrow> s \<in> wnd_set w \<Longrightarrow>
      \<exists>w'. wnd_clear w s = Some w' \<and> wnd_inv w' \<and> w_head w' = w_head w \<and> wnd_set w' = wnd_set w - {s}"
    by (rule wnd_clear_spec)
next
  fix w a
  show "wnd_inv w \<Longrightarrow> unat (w_head w) + unat a < 2 ^ 64 \<Longrightarrow>
      (\<forall>s \<in> wnd_set w. unat (w_head w - s) + unat a < 192) \<Longrightarrow>
      \<exists>w'. wnd_advance w a = Some w' \<and> wnd_inv w' \<and> w_head w' = w_head w + a \<and> wnd_set w' = wnd_set w"
    using wnd_advance_spec [of w a] by (simp add: wnd_fits_def wnd_back_def)
next
  fix w h
  show "wnd_inv (wnd_reset w h) \<and> w_head (wnd_reset w h) = h \<and> wnd_set (wnd_reset w h) = {}"
    by (rule wnd_reset_spec)
qed

section \<open>Runs of window operations\<close>

datatype wnd_op = Op_reset u64 | Op_mark u64 | Op_clear u64 | Op_advance u64

fun wnd_step :: "wnd_op \<Rightarrow> fp_window \<Rightarrow> fp_window option" where
  "wnd_step (Op_reset h) w = Some (wnd_reset w h)"
| "wnd_step (Op_mark s) w = wnd_mark w s"
| "wnd_step (Op_clear s) w = wnd_clear w s"
| "wnd_step (Op_advance a) w = wnd_advance w a"

fun wnd_run :: "wnd_op list \<Rightarrow> fp_window \<Rightarrow> fp_window option" where
  "wnd_run [] w = Some w"
| "wnd_run (x # xs) w = wnd_step x w \<bind> wnd_run xs"

text \<open>
  The specification machine keeps the head and the set; it refuses a step the protocol never
  takes: marking outside the window or twice, clearing what is not marked, moving the window
  past a mark or past the end of the 64-bit counter.
\<close>

fun aw_step :: "wnd_op \<Rightarrow> u64 \<times> u64 set \<Rightarrow> (u64 \<times> u64 set) option" where
  "aw_step (Op_reset h) (_, _) = Some (h, {})"
| "aw_step (Op_mark s) (h, S) = (if unat (h - s) < 192 \<and> s \<notin> S then Some (h, insert s S) else None)"
| "aw_step (Op_clear s) (h, S) = (if s \<in> S then Some (h, S - {s}) else None)"
| "aw_step (Op_advance a) (h, S) =
     (if unat h + unat a < 2 ^ 64 \<and> (\<forall>s \<in> S. unat (h - s) + unat a < 192) then Some (h + a, S) else None)"

fun aw_run :: "wnd_op list \<Rightarrow> u64 \<times> u64 set \<Rightarrow> (u64 \<times> u64 set) option" where
  "aw_run [] x = Some x"
| "aw_run (y # ys) x = aw_step y x \<bind> aw_run ys"

lemma wnd_step_refines:
  assumes inv: "wnd_inv w" and st: "aw_step x (w_head w, wnd_set w) = Some (h', S')"
  shows "\<exists>w'. wnd_step x w = Some w' \<and> wnd_inv w' \<and> w_head w' = h' \<and> wnd_set w' = S'"
proof (cases x)
  case (Op_reset h)
  then show ?thesis using st fpw.reset_ok [of w h] by auto
next
  case (Op_mark s)
  then show ?thesis using st fpw.mark_ok [OF inv, of s] by (auto split: if_splits)
next
  case (Op_clear s)
  then show ?thesis using st fpw.clear_ok [OF inv, of s] by (auto split: if_splits)
next
  case (Op_advance a)
  then show ?thesis using st fpw.advance_ok [OF inv, of a] by (auto split: if_splits)
qed

lemma wnd_run_sim:
  assumes "wnd_inv w" and "aw_run ops (w_head w, wnd_set w) = Some (h', S')"
  shows "\<exists>w'. wnd_run ops w = Some w' \<and> wnd_inv w' \<and> w_head w' = h' \<and> wnd_set w' = S'"
  using assms
proof (induction ops arbitrary: w)
  case (Cons x xs)
  then obtain h1 S1 where st: "aw_step x (w_head w, wnd_set w) = Some (h1, S1)"
    and rest: "aw_run xs (h1, S1) = Some (h', S')"
    by (auto simp: bind_eq_Some_conv)
  from wnd_step_refines [OF Cons.prems(1) st] obtain w1 where
    "wnd_step x w = Some w1" "wnd_inv w1" "w_head w1 = h1" "wnd_set w1 = S1" by blast
  with Cons.IH rest show ?case by auto
qed simp

text \<open>
  C18. Refinement: a run of window operations from a reset window that the specification
  machine accepts fires no assertion of \<^verbatim>\<open>window.h\<close>, and every observer then agrees with the
  head and the set of marks of the specification: membership, count, emptiness, edge and
  the earliest mark.
\<close>

theorem wnd_run_refines:
  assumes "aw_run ops (h, {}) = Some (h', S')"
  shows "\<exists>w'. wnd_run ops (wnd_reset w h) = Some w' \<and> wnd_inv w' \<and> wnd_head w' = h'
    \<and> (\<forall>s. unat (h' - s) < 192 \<longrightarrow> wnd_is_marked w' s = (s \<in> S'))
    \<and> unat (wnd_num_marked w') = card S' \<and> (wnd_empty w' \<longleftrightarrow> S' = {})
    \<and> wnd_edge w' = h' - 191
    \<and> (S' \<noteq> {} \<longrightarrow> wnd_earliest_marked w' \<in> S'
          \<and> (\<forall>s \<in> S'. unat (h' - s) \<le> unat (h' - wnd_earliest_marked w')))"
proof -
  note r = fpw.reset_ok [of w h]
  from wnd_run_sim [of "wnd_reset w h" ops h' S'] assms r obtain w' where
    w': "wnd_run ops (wnd_reset w h) = Some w'" "wnd_inv w'" "w_head w' = h'" "wnd_set w' = S'"
    by auto
  moreover have "wnd_earliest_marked w' \<in> S' \<and> (\<forall>s \<in> S'. unat (h' - s) \<le> unat (h' - wnd_earliest_marked w'))"
    if "S' \<noteq> {}"
    using wnd_earliest_marked_spec [OF w'(2)] that w'(3,4) by (simp add: wnd_back_def)
  ultimately show ?thesis
    using wnd_is_marked_iff [OF w'(2)] wnd_num_marked_card [OF w'(2)] wnd_empty_iff [OF w'(2)]
    by (auto simp: wnd_head_def wnd_num_marked_def wnd_edge_def FASTPASS_WND_LEN_def in_wnd_def wnd_back_def)
qed

definition wnd_raw :: fp_window where
  "wnd_raw = \<lparr>w_marked = [], w_summary = 0, w_head = 0, w_head_word = 0, w_num_marked = 0\<rparr>"

theorem wnd_run_refines_witness:
  "\<exists>w'. wnd_run [Op_advance 5, Op_mark 1005, Op_mark 1001, Op_advance 100, Op_clear 1001, Op_advance 80,
      Op_mark 1185] (wnd_reset wnd_raw 1000) = Some w' \<and> wnd_head w' = 1185
      \<and> unat (wnd_num_marked w') = card {1005 :: u64, 1185} \<and> wnd_is_marked w' 1005 \<and> \<not> wnd_is_marked w' 1001"
proof -
  let ?ops = "[Op_advance 5, Op_mark 1005, Op_mark 1001, Op_advance 100, Op_clear 1001, Op_advance 80,
      Op_mark 1185]"
  have "aw_run ?ops (1000, {}) = Some (1185, {1185, 1005})" by auto
  from wnd_run_refines [OF this, of wnd_raw] show ?thesis by (auto simp: insert_commute)
qed

text \<open>An example window used in the concrete instances: three marks in three different words.\<close>

definition wnd_ex :: fp_window where
  "wnd_ex = the (wnd_run [Op_mark 995, Op_mark 1000, Op_mark 820] (wnd_reset wnd_raw 1000))"

lemma wnd_ex_props: "wnd_inv wnd_ex" "w_head wnd_ex = 1000" "wnd_set wnd_ex = {820, 995, 1000}"
proof -
  have "aw_run [Op_mark 995, Op_mark 1000, Op_mark 820] (1000, {}) = Some (1000, {820, 995, 1000})"
    by auto
  with wnd_run_sim [of "wnd_reset wnd_raw 1000"] fpw.reset_ok [of wnd_raw 1000]
  show "wnd_inv wnd_ex" "w_head wnd_ex = 1000" "wnd_set wnd_ex = {820, 995, 1000}"
    unfolding wnd_ex_def by (metis option.sel)+
qed

section \<open>Searches\<close>

text \<open>
  \<open>wnd_at_or_before\<close> on a sequence number that is not after the head: it returns the
  distance to the closest mark at or before it, and -1 exactly when there is no such mark;
  its assertion does not fire.
\<close>

theorem wnd_at_or_before_closest:
  assumes "wnd_inv w" and "\<not> time_after64 s (w_head w)"
  shows "(wnd_at_or_before w s = Some (- 1) \<and> (\<forall>t \<in> wnd_set w. unat (w_head w - t) < unat (w_head w - s)))
    \<or> (\<exists>g < 192. wnd_at_or_before w s = Some (int g) \<and> s - of_nat g \<in> wnd_set w
         \<and> (\<forall>t \<in> wnd_set w. unat (w_head w - t) < unat (w_head w - s)
                \<or> unat (w_head w - s) + g \<le> unat (w_head w - t)))"
proof -
  obtain r where r: "wnd_at_or_before w s = Some r" "nearest_before w s r"
    using wnd_at_or_before_spec [OF assms] by blast
  show ?thesis
  proof (cases "\<exists>t \<in> wnd_set w. wnd_back w s \<le> wnd_back w t")
    case False
    then show ?thesis using r by (auto simp: nearest_before_def wnd_back_def not_le)
  next
    case True
    then have n: "0 \<le> r" "s - of_int r \<in> wnd_set w" "wnd_back w (s - of_int r) = wnd_back w s + nat r"
      "\<forall>t \<in> wnd_set w. wnd_back w s \<le> wnd_back w t \<longrightarrow> wnd_back w (s - of_int r) \<le> wnd_back w t"
      using r(2) unfolding nearest_before_def if_P [OF True] by blast+
    have "nat r < 192" using n(2,3) by (simp add: wnd_set_def in_wnd_def)
    moreover have "of_int r = (of_nat (nat r) :: u64)" using n(1) by (metis int_nat_eq of_int_of_nat_eq)
    ultimately show ?thesis
      using r(1) n unfolding wnd_back_def by (intro disjI2 exI [of _ "nat r"]) (auto simp: not_less)
  qed
qed

theorem wnd_at_or_before_closest_witness:
  "(\<exists>g < 192. wnd_at_or_before wnd_ex 994 = Some (int g) \<and> 994 - of_nat g \<in> {820, 995, 1000 :: u64})"
proof -
  have "\<not> time_after64 994 (w_head wnd_ex)" by (simp add: wnd_ex_props time_cmp)
  from wnd_at_or_before_closest [OF wnd_ex_props(1) this] show ?thesis
    by (auto simp: wnd_ex_props)
qed

text \<open>
  \<open>wnd_at_or_after\<close> on a sequence number that is not after the head: it returns the
  earliest mark that does not precede it, and false exactly when every mark precedes it;
  this includes numbers before the window, for which it is the earliest mark of all.
\<close>

theorem wnd_at_or_after_closest:
  assumes "wnd_inv w" and "\<not> wnd_seq_after w s"
  shows "case wnd_at_or_after w s of
      None \<Rightarrow> \<forall>t \<in> wnd_set w. unat (w_head w - s) < unat (w_head w - t)
    | Some t \<Rightarrow> t \<in> wnd_set w \<and> unat (w_head w - t) \<le> unat (w_head w - s)
        \<and> (\<forall>u \<in> wnd_set w. unat (w_head w - s) < unat (w_head w - u)
             \<or> unat (w_head w - u) \<le> unat (w_head w - t))"
  using wnd_at_or_after_spec [OF assms]
  by (auto simp: nearest_after_def wnd_back_def not_le split: option.splits)

theorem wnd_at_or_after_closest_witness: "wnd_at_or_after wnd_ex 900 \<in> Some ` {820, 995, 1000}"
proof -
  have "\<not> wnd_seq_after wnd_ex 900" by (simp add: wnd_ex_props time_cmp wnd_seq_after_def wnd_head_def)
  from wnd_at_or_after_closest [OF wnd_ex_props(1) this] show ?thesis
    by (auto simp: wnd_ex_props split: option.splits)
qed

text \<open>
  Bit \<open>i\<close> of \<open>wnd_get_mask\<close> tells whether the sequence number \<open>63 - i\<close> before the
  position is marked, for every position: inside the window, straddling its edge or its head,
  and far outside of it.
\<close>

theorem wnd_get_mask_bits:
  assumes "wnd_inv w"
  shows "{i. bit (wnd_get_mask w p) i} = {i. i < 64 \<and> p - of_nat (63 - i) \<in> wnd_set w}"
proof -
  have "i < 64" if "bit (wnd_get_mask w p) i" for i
    using bit_imp_le_length [OF that] by simp
  then show ?thesis using wnd_get_mask_spec [OF assms] by blast
qed

theorem wnd_get_mask_bits_witness: "{i. bit (wnd_get_mask wnd_ex 1001) i} = {57, 62}"
proof -
  have "of_nat (63 - i) = (6 :: u64) \<longleftrightarrow> i = 57" "of_nat (63 - i) = (1 :: u64) \<longleftrightarrow> i = 62"
    "of_nat (63 - i) \<noteq> (181 :: u64)" if "i < 64" for i
    using that unat_of_nat_u64 [of "63 - i"] by (auto simp: unat_eq_iff simp del: of_nat_diff)
  then have "i < 64 \<and> 1001 - of_nat (63 - i) \<in> {820 :: u64, 995, 1000} \<longleftrightarrow> i = 57 \<or> i = 62" for i
    by (auto simp: diff_eq_eq eq_diff_eq add.commute simp del: of_nat_diff)
  then show ?thesis
    unfolding wnd_get_mask_bits [OF wnd_ex_props(1)] wnd_ex_props(3) by auto
qed

end
