(* ===== verification/Conn.thy ===== *)
theory Conn
  imports Window_Spec
begin

text \<open>
  The connection state of \<^verbatim>\<open>src/src/protocol/fpproto.h\<close> and the window of sent packets of
  \<^verbatim>\<open>src/src/protocol/outwnd.h\<close>.

  The sources are compiled once for the arbiter and once for an end node; the choices made by
  the preprocessor are the fields of \<open>proto_cfg\<close>. The callbacks of \<open>struct fpproto_ops\<close> are
  code of the user of the protocol: a call is recorded as an \<open>op_event\<close> at the end of
  \<open>c_log\<close>, with its arguments, and a flag tells whether the function pointer is set.
\<close>

section \<open>Build configuration and callbacks\<close>

record proto_cfg =
  is_endpoint :: bool         \<comment> \<open>\<open>FASTPASS_ENDPOINT\<close>, otherwise \<open>FASTPASS_CONTROLLER\<close>\<close>
  emulation :: bool           \<comment> \<open>\<open>EMULATION_ALGO\<close>\<close>
  req_data_bytes :: u16       \<comment> \<open>\<open>emu_req_data_bytes()\<close>\<close>
  alloc_data_bytes :: u16     \<comment> \<open>\<open>emu_alloc_data_bytes()\<close>\<close>

definition FASTPASS_TO_CONTROLLER_SEQNO_OFFSET :: u64 where
  "FASTPASS_TO_CONTROLLER_SEQNO_OFFSET = 0"

definition FASTPASS_TO_ENDPOINT_SEQNO_OFFSET :: u64 where
  "FASTPASS_TO_ENDPOINT_SEQNO_OFFSET = 0xDEADBEEF"

definition FASTPASS_EGRESS_SEQNO_OFFSET :: "proto_cfg \<Rightarrow> u64" where
  "FASTPASS_EGRESS_SEQNO_OFFSET cfg =
     (if is_endpoint cfg then FASTPASS_TO_CONTROLLER_SEQNO_OFFSET else FASTPASS_TO_ENDPOINT_SEQNO_OFFSET)"

definition FASTPASS_INGRESS_SEQNO_OFFSET :: "proto_cfg \<Rightarrow> u64" where
  "FASTPASS_INGRESS_SEQNO_OFFSET cfg =
     (if is_endpoint cfg then FASTPASS_TO_ENDPOINT_SEQNO_OFFSET else FASTPASS_TO_CONTROLLER_SEQNO_OFFSET)"

definition retransmit_unacked_allocs :: "proto_cfg \<Rightarrow> bool" where
  "retransmit_unacked_allocs cfg \<longleftrightarrow> \<not> is_endpoint cfg \<and> emulation cfg"

definition FASTPASS_BAD_PKT_RESET_THRESHOLD :: u32 where
  "FASTPASS_BAD_PKT_RESET_THRESHOLD = 10"

definition FASTPASS_RESET_WINDOW_NS :: u64 where
  "FASTPASS_RESET_WINDOW_NS = 1000 * 1000 * 1000"

definition FASTPASS_PKT_MAX_AREQ :: nat where "FASTPASS_PKT_MAX_AREQ = 10"
definition FASTPASS_PKT_MAX_ALLOC_TSLOTS :: nat where "FASTPASS_PKT_MAX_ALLOC_TSLOTS = 64"

record fpproto_areq_desc =
  areq_src_dst_key :: u64
  areq_tslots :: u64

record fpproto_emu_desc =
  emu_id :: u16
  emu_data :: "u8 list"

record fpproto_pktdesc =
  pd_sent_timestamp :: u64
  pd_seqno :: u64
  pd_ack_seq :: u64
  pd_ack_vec :: u16
  pd_send_reset :: bool
  pd_reset_timestamp :: u64
  pd_n_areq :: u16
  pd_areq :: "fpproto_areq_desc list"
  pd_areq_data_type :: u8
  pd_areq_data_bytes :: u16
  pd_areq_data_counts :: "u8 list"
  pd_areq_data :: "u8 list"
  pd_alloc_tslot :: u16
  pd_used_alloc_tslot :: u16
  pd_base_tslot :: u16
  pd_n_dsts :: u16
  pd_dsts :: "u16 list"
  pd_tslot_desc :: "u8 list"
  pd_emu_tslot_desc :: "fpproto_emu_desc list"

text \<open>Which callbacks are set, and the size of an allocation in an ALLOC payload.\<close>

record fpproto_ops =
  has_handle_reset :: bool
  has_handle_ack :: bool
  has_handle_neg_ack :: bool
  has_handle_skipped_ack :: bool
  has_trigger_request :: bool
  has_handle_alloc :: bool
  has_handle_areq :: bool
  alloc_bytes_per_tslot :: nat

datatype op_event =
    Handle_reset
  | Handle_ack fpproto_pktdesc
  | Handle_neg_ack fpproto_pktdesc
  | Handle_skipped_ack fpproto_pktdesc
  | Trigger_request
  | Handle_alloc u32 "u16 list" "u8 list" nat
  | Handle_areq "u8 list" nat
  | Set_timer u64
  | Cancel_timer
  | Pktdesc_free fpproto_pktdesc

section \<open>Statistics and connection\<close>

record fp_proto_stat =
  st_version :: u32
  st_out_max_seqno :: u64
  st_timeout_handler_runs :: u64
  st_ack_payloads :: u64
  st_too_early_ack :: u64
  st_acked_packets :: u64
  st_timeout_pkts :: u64
  st_skip_ack_pkts :: u64
  st_informative_ack_payloads :: u64
  st_reprogrammed_timer :: u64
  st_earliest_unacked :: u64
  st_committed_pkts :: u64
  st_never_acked_pkts :: u64
  st_next_timeout_seqno :: u64
  st_next_skip_ack_seqno :: u64
  st_tx_num_unacked :: u16
  st_fall_off_outwnd :: u64
  st_rx_pkts :: u64
  st_rx_too_short :: u64
  st_rx_unknown_payload :: u64
  st_rx_incomplete_reset :: u64
  st_rx_incomplete_alloc :: u64
  st_rx_incomplete_ack :: u64
  st_rx_incomplete_areq :: u64
  st_rx_dup_pkt :: u64
  st_rx_out_of_order :: u64
  st_rx_checksum_error :: u64
  st_in_max_seqno :: u64
  st_inwnd_jumped :: u64
  st_seqno_before_inwnd :: u64
  st_consecutive_bad_pkts :: u16
  st_inwnd :: u64
  st_in_sync :: bool
  st_last_reset_time :: u64
  st_reset_payloads :: u64
  st_proto_resets :: u64
  st_redundant_reset :: u64
  st_reset_both_recent_last_reset_wins :: u64
  st_reset_both_recent_payload_wins :: u64
  st_reset_last_recent_payload_old :: u64
  st_reset_last_old_payload_recent :: u64
  st_reset_both_old :: u64
  st_no_reset_because_recent :: u64
  st_reset_from_bad_pkts :: u64
  st_forced_reset :: u64

record fpproto_conn =
  c_last_reset_time :: u64
  c_in_max_seqno :: u64
  c_in_sync :: bool
  c_ops :: fpproto_ops
  c_rst_win_ns :: u64
  c_send_timeout :: u32
  c_consecutive_bad_pkts :: u32
  c_outwnd :: fp_window
  c_unacked_pkts :: "fpproto_pktdesc option list"
  c_next_timeout_seqno :: u64
  c_next_skip_ack_seqno :: u64
  c_inwnd :: u64
  c_stat :: fp_proto_stat
  c_log :: "op_event list"

end
