(* ===== verification/Outwnd.thy ===== *)
theory Outwnd
  imports Conn
begin

text \<open>
  The window of sent packets of \<^verbatim>\<open>src/src/protocol/outwnd.h\<close>: the bitmap of \<^verbatim>\<open>window.h\<close> together
  with an array of packet descriptors implements a finite map from sequence numbers in flight
  to descriptors.
\<close>

section \<open>Callbacks and statistics\<close>

text \<open>A callback through a possibly unset function pointer, and a statistics counter.\<close>

definition emit :: "op_event \<Rightarrow> fpproto_conn \<Rightarrow> fpproto_conn" where
  "emit e c = c\<lparr>c_log := c_log c @ [e]\<rparr>"

definition emit_if :: "(fpproto_ops \<Rightarrow> bool) \<Rightarrow> op_event \<Rightarrow> fpproto_conn \<Rightarrow> fpproto_conn" where
  "emit_if isset e c = (if isset (c_ops c) then emit e c else c)"

definition upd_stat :: "(fp_proto_stat \<Rightarrow> fp_proto_stat) \<Rightarrow> fpproto_conn \<Rightarrow> fpproto_conn" where
  "upd_stat f c = c\<lparr>c_stat := f (c_stat c)\<rparr>"

section \<open>The window of sent packets\<close>

definition outwnd_add :: "fpproto_conn \<Rightarrow> fpproto_pktdesc \<Rightarrow> fpproto_conn option" where
  "outwnd_add conn pd = do {
     w \<leftarrow> wnd_advance (c_outwnd conn) 1;
     w \<leftarrow> wnd_mark w (w_head w);
     Some (conn\<lparr>c_outwnd := w,
                c_unacked_pkts := (c_unacked_pkts conn)[unat (wnd_pos (w_head w)) := Some pd]\<rparr>)
   }"

definition outwnd_pop :: "fpproto_conn \<Rightarrow> u64 \<Rightarrow> (fpproto_pktdesc option \<times> fpproto_conn) option" where
  "outwnd_pop conn seqno = do {
     let seqno_index = wnd_pos seqno;
     let res = c_unacked_pkts conn ! unat seqno_index;
     w \<leftarrow> wnd_clear (c_outwnd conn) seqno;
     Some (res, conn\<lparr>c_outwnd := w, c_unacked_pkts := (c_unacked_pkts conn)[unat seqno_index := None]\<rparr>)
   }"

definition outwnd_peek :: "fpproto_conn \<Rightarrow> u64 \<Rightarrow> fpproto_pktdesc option" where
  "outwnd_peek conn seqno = c_unacked_pkts conn ! unat (wnd_pos seqno)"

text \<open>
  What the pair of bitmap and pointer array stands for: a finite map from the sequence
  numbers in flight to their packet descriptors.
\<close>

definition unacked :: "fpproto_conn \<Rightarrow> u64 \<rightharpoonup> fpproto_pktdesc" where
  "unacked c s = (if s \<in> wnd_set (c_outwnd c) then outwnd_peek c s else None)"

text \<open>
  The invariant: the window is consistent, the array holds a descriptor exactly in the slots
  of the marked sequence numbers, and the descriptor carries its sequence number.
\<close>

definition conn_inv :: "fpproto_conn \<Rightarrow> bool" where
  "conn_inv c \<longleftrightarrow>
     wnd_inv (c_outwnd c) \<and> length (c_unacked_pkts c) = 256 \<and>
     (\<forall>s \<in> wnd_set (c_outwnd c). \<exists>pd. outwnd_peek c s = Some pd \<and> pd_seqno pd = s) \<and>
     (\<forall>i < 256. c_unacked_pkts c ! i \<noteq> None \<longrightarrow>
        (\<exists>s \<in> wnd_set (c_outwnd c). unat (wnd_pos s) = i))"

lemma wnd_slot_inj:
  assumes "in_wnd w s" "in_wnd w t" and eq: "unat (wnd_pos s) = unat (wnd_pos t)"
  shows "s = t"
proof -
  let ?a = "w_head w - s" and ?b = "w_head w - t"
  have "int (unat s mod 256) = int (unat t mod 256)" using eq by (simp add: unat_wnd_pos)
  then have "uint s mod 256 = uint t mod 256" by (simp add: zmod_int)
  then have "(uint s - uint t) mod 256 = 0" by (simp add: mod_eq_dvd_iff)
  then have "uint (s - t) mod 256 = 0" by (simp add: uint_minus_mod_u64)
  moreover have "uint (?b - ?a) mod 256 = (uint ?b - uint ?a) mod 256"
    by (rule uint_minus_mod_u64) simp
  moreover have "s - t = ?b - ?a" by simp
  ultimately have "(uint ?b - uint ?a) mod 256 = 0" by (simp only:)
  then have "uint ?b mod 256 = uint ?a mod 256" by (simp only: mod_eq_dvd_iff dvd_eq_mod_eq_0)
  then have "int (unat ?b mod 256) = int (unat ?a mod 256)" by (simp add: zmod_int)
  then have "wnd_back w s mod 256 = wnd_back w t mod 256" by (simp add: wnd_back_def)
  then have "wnd_back w s = wnd_back w t" using assms(1,2) by (simp add: in_wnd_def)
  then show ?thesis by (simp add: wnd_back_inj)
qed


lemma conn_frames [frame_simps]:
  "c_outwnd (emit e c) = c_outwnd c" "c_unacked_pkts (emit e c) = c_unacked_pkts c"
  "c_outwnd (emit_if b e c) = c_outwnd c" "c_unacked_pkts (emit_if b e c) = c_unacked_pkts c"
  "c_outwnd (upd_stat f c) = c_outwnd c" "c_unacked_pkts (upd_stat f c) = c_unacked_pkts c"
  by (simp_all add: emit_def emit_if_def upd_stat_def)

text \<open>The map and the invariant read the window and the array only.\<close>

lemma unacked_cong:
  assumes "c_outwnd c = c_outwnd c'" and "c_unacked_pkts c = c_unacked_pkts c'"
  shows "unacked c = unacked c'" and "conn_inv c = conn_inv c'"
  using assms by (auto simp: unacked_def outwnd_peek_def conn_inv_def fun_eq_iff)

lemma unacked_frames [frame_simps]:
  "unacked (emit e c) = unacked c" "conn_inv (emit e c) = conn_inv c"
  "unacked (emit_if b e c) = unacked c" "conn_inv (emit_if b e c) = conn_inv c"
  "unacked (upd_stat f c) = unacked c" "conn_inv (upd_stat f c) = conn_inv c"
  by (rule unacked_cong; simp add: frame_simps)+

lemma conn_invD:
  assumes "conn_inv c"
  shows "wnd_inv (c_outwnd c)" and "length (c_unacked_pkts c) = 256"
    and "s \<in> wnd_set (c_outwnd c) \<Longrightarrow> \<exists>pd. outwnd_peek c s = Some pd \<and> pd_seqno pd = s"
    and "i < 256 \<Longrightarrow> c_unacked_pkts c ! i \<noteq> None \<Longrightarrow> \<exists>s \<in> wnd_set (c_outwnd c). unat (wnd_pos s) = i"
  using assms by (auto simp: conn_inv_def)

lemma dom_unacked: "conn_inv c \<Longrightarrow> dom (unacked c) = wnd_set (c_outwnd c)"
  using conn_invD(3) by (fastforce simp: unacked_def dom_def split: if_splits)

lemma unacked_seqno: "conn_inv c \<Longrightarrow> unacked c s = Some pd \<Longrightarrow> pd_seqno pd = s"
  using conn_invD(3) [of c s] by (auto simp: unacked_def split: if_splits)

lemma wnd_set_in_wnd: "s \<in> wnd_set w \<Longrightarrow> in_wnd w s"
  by (simp add: wnd_set_def)

lemma wnd_slot_neq:
  "t \<in> wnd_set w \<Longrightarrow> s \<in> wnd_set w \<Longrightarrow> t \<noteq> s \<Longrightarrow> unat (wnd_pos s) \<noteq> unat (wnd_pos t)"
  using wnd_slot_inj [OF wnd_set_in_wnd wnd_set_in_wnd, of s w t] by fastforce

lemma wnd_slot_less [simp]: "unat (wnd_pos s) < 256"
  by (simp add: unat_wnd_pos)

theorem outwnd_pop_spec:
  assumes inv: "conn_inv c" and s: "unacked c s = Some pd"
  shows "\<exists>c'. outwnd_pop c s = Some (Some pd, c') \<and> conn_inv c' \<and> unacked c' = (unacked c)(s := None)
    \<and> w_head (c_outwnd c') = w_head (c_outwnd c)
    \<and> c' = c\<lparr>c_outwnd := c_outwnd c', c_unacked_pkts := c_unacked_pkts c'\<rparr>"
proof -
  have m: "s \<in> wnd_set (c_outwnd c)" and pd: "outwnd_peek c s = Some pd"
    using s by (simp_all add: unacked_def split: if_splits)
  obtain w' where w': "wnd_clear (c_outwnd c) s = Some w'" "wnd_inv w'" "w_head w' = w_head (c_outwnd c)"
      "wnd_set w' = wnd_set (c_outwnd c) - {s}"
    using fpw.clear_ok [OF conn_invD(1) [OF inv] m] by blast
  let ?c = "c\<lparr>c_outwnd := w', c_unacked_pkts := (c_unacked_pkts c)[unat (wnd_pos s) := None]\<rparr>"
  have peek: "outwnd_peek ?c t = outwnd_peek c t" if "t \<in> wnd_set (c_outwnd c)" "t \<noteq> s" for t
    using that wnd_slot_neq [of t "c_outwnd c" s] m by (simp add: outwnd_peek_def)
  have "\<exists>t \<in> wnd_set w'. unat (wnd_pos t) = i" if i: "i < 256" "c_unacked_pkts ?c ! i \<noteq> None" for i
  proof -
    have "i \<noteq> unat (wnd_pos s)" using i conn_invD(2) [OF inv] by auto
    moreover from this have "c_unacked_pkts c ! i \<noteq> None" using i by simp
    ultimately show ?thesis using conn_invD(4) [OF inv i(1)] w'(4) by auto
  qed
  then have "conn_inv ?c"
    using w' peek conn_invD [OF inv] by (simp add: conn_inv_def)
  moreover have "unacked ?c = (unacked c)(s := None)"
    using w'(4) peek by (auto simp: unacked_def fun_eq_iff)
  ultimately show ?thesis
    using w' pd by (simp add: outwnd_pop_def outwnd_peek_def)
qed

theorem outwnd_add_spec:
  assumes inv: "conn_inv c" and top: "w_head (c_outwnd c) \<noteq> - 1"
    and edge: "wnd_edge (c_outwnd c) \<notin> dom (unacked c)"
    and sq: "pd_seqno pd = w_head (c_outwnd c) + 1"
  shows "\<exists>c'. outwnd_add c pd = Some c' \<and> conn_inv c'
    \<and> unacked c' = (unacked c)(w_head (c_outwnd c) + 1 \<mapsto> pd)
    \<and> w_head (c_outwnd c') = w_head (c_outwnd c) + 1
    \<and> c' = c\<lparr>c_outwnd := c_outwnd c', c_unacked_pkts := c_unacked_pkts c'\<rparr>"
proof -
  let ?h = "w_head (c_outwnd c) + 1"
  have e: "w_head (c_outwnd c) - 191 \<notin> wnd_set (c_outwnd c)"
    using edge dom_unacked [OF inv] by (simp add: wnd_edge_def FASTPASS_WND_LEN_def)
  obtain w1 w2 where w: "wnd_advance (c_outwnd c) 1 = Some w1" "wnd_mark w1 (w_head w1) = Some w2"
      "wnd_inv w2" "w_head w2 = ?h" "wnd_set w2 = insert ?h (wnd_set (c_outwnd c))"
    using fpw.append_ok [OF conn_invD(1) [OF inv] top e] by blast
  let ?c = "c\<lparr>c_outwnd := w2, c_unacked_pkts := (c_unacked_pkts c)[unat (wnd_pos ?h) := Some pd]\<rparr>"
  have new: "outwnd_peek ?c ?h = Some pd"
    using conn_invD(2) [OF inv] by (simp add: outwnd_peek_def)
  have peek: "outwnd_peek ?c t = outwnd_peek c t" if "t \<in> wnd_set (c_outwnd c)" "t \<noteq> ?h" for t
    using that wnd_slot_neq [of t w2 ?h] w(5) by (simp add: outwnd_peek_def)
  have "\<exists>t \<in> wnd_set w2. unat (wnd_pos t) = i" if i: "i < 256" "c_unacked_pkts ?c ! i \<noteq> None" for i
    using conn_invD(4) [OF inv i(1)] i(2) w(5) by (cases "i = unat (wnd_pos ?h)") auto
  moreover have "\<exists>p. outwnd_peek ?c t = Some p \<and> pd_seqno p = t" if "t \<in> wnd_set w2" for t
    using that new sq peek [of t] conn_invD(3) [OF inv, of t] w(5) by (cases "t = ?h") auto
  ultimately have "conn_inv ?c"
    using w conn_invD(2) [OF inv] by (simp add: conn_inv_def)
  moreover have "unacked ?c = (unacked c)(?h \<mapsto> pd)"
    using w(5) new peek by (auto simp: unacked_def fun_eq_iff)
  ultimately show ?thesis
    using w by (simp add: outwnd_add_def)
qed

end
