(* ===== verification/Proto.thy ===== *)
theory Proto
  imports Outwnd
begin

text \<open>
  The state machine of \<^verbatim>\<open>src/src/protocol/fpproto.c\<close> up to packet parsing: sequence numbers and
  resets, acknowledgements, the retransmission timer and the window of received packets.

  An operation returns \<open>None\<close> where an assertion fires or a \<open>NULL\<close> descriptor would be
  dereferenced or freed. \<open>fp_get_time_ns()\<close> is the argument \<open>now\<close>. A callback does not touch
  the connection.
\<close>

section \<open>Sequence numbers, checksum and timer\<close>

definition base_seqno_from_timestamp :: "u64 \<Rightarrow> u64" where
  "base_seqno_from_timestamp reset_time =
     (let time_hash = fp_jhash_1word (ucast reset_time) (ucast (drop_bit 32 reset_time))
      in reset_time + ucast time_hash + push_bit 32 (ucast time_hash))"

definition tstamp_in_window :: "u64 \<Rightarrow> u64 \<Rightarrow> u64 \<Rightarrow> bool" where
  "tstamp_in_window tstamp win_middle win_size \<longleftrightarrow>
     win_middle - win_size div 2 \<le> tstamp \<and> tstamp < win_middle + (win_size + 1) div 2"

definition IPPROTO_FASTPASS :: u16 where
  "IPPROTO_FASTPASS = 222"

text \<open>The address of the buffer matters to \<open>fp_csum_partial\<close>; \<open>saddr\<close> and \<open>daddr\<close> are ignored.\<close>

definition fastpass_checksum :: "u64 \<Rightarrow> u8 list \<Rightarrow> u64 \<Rightarrow> u64 \<Rightarrow> u16" where
  "fastpass_checksum addr pkt seqno ack_seq =
     (let seq_hash = fp_jhash_3words (ucast seqno) (ucast (drop_bit 32 seqno)) (ucast ack_seq)
                       (ucast (drop_bit 32 ack_seq));
          csum = fp_csum_partial addr pkt (length pkt) seq_hash
      in fp_csum_tcpudp_magic 0 0 (of_nat (length pkt)) IPPROTO_FASTPASS csum)"

definition recompute_and_reset_retrans_timer :: "fpproto_conn \<Rightarrow> fpproto_conn option" where
  "recompute_and_reset_retrans_timer conn =
     (case wnd_at_or_after (c_outwnd conn) (c_next_timeout_seqno conn) of
        None \<Rightarrow> Some (emit Cancel_timer
                   (conn\<lparr>c_next_timeout_seqno := wnd_head (c_outwnd conn) + 1\<rparr>))
      | Some seqno \<Rightarrow> do {
          let conn = conn\<lparr>c_next_timeout_seqno := seqno\<rparr>;
          pd \<leftarrow> outwnd_peek conn seqno;
          let timeout = pd_sent_timestamp pd + ucast (c_send_timeout conn);
          let conn = emit (Set_timer timeout) (emit Cancel_timer conn);
          Some (upd_stat (st_reprogrammed_timer_update (\<lambda>n. n + 1)) conn)
        })"

section \<open>Acknowledgements\<close>

definition pktdesc_free :: "fpproto_pktdesc option \<Rightarrow> fpproto_conn \<Rightarrow> fpproto_conn option" where
  "pktdesc_free p conn = do { pd \<leftarrow> p; Some (emit (Pktdesc_free pd) conn) }"

definition do_ack_seqno :: "fpproto_conn \<Rightarrow> u64 \<Rightarrow> fpproto_conn option" where
  "do_ack_seqno conn seqno = do {
     bug_on (wnd_seq_after (c_outwnd conn) seqno);
     bug_on (wnd_seq_before (c_outwnd conn) seqno);
     let conn = upd_stat (st_acked_packets_update (\<lambda>n. n + 1)) conn;
     bug_on (\<not> wnd_is_marked (c_outwnd conn) seqno);
     (p, conn) \<leftarrow> outwnd_pop conn seqno;
     pd \<leftarrow> p;
     pktdesc_free p (emit_if has_handle_ack (Handle_ack pd) conn)
   }"

definition do_neg_ack_seqno :: "fpproto_conn \<Rightarrow> u64 \<Rightarrow> fpproto_conn option" where
  "do_neg_ack_seqno conn seq = do {
     pd \<leftarrow> outwnd_peek conn seq;
     Some (emit_if has_handle_neg_ack (Handle_neg_ack pd) conn)
   }"

definition do_skipped_ack_seqno :: "fpproto_conn \<Rightarrow> u64 \<Rightarrow> fpproto_conn option" where
  "do_skipped_ack_seqno conn seq = do {
     pd \<leftarrow> outwnd_peek conn seq;
     Some (emit_if has_handle_skipped_ack (Handle_skipped_ack pd) conn)
   }"

section \<open>Resets\<close>

partial_function (option) clear_next_unacked :: "fpproto_conn \<Rightarrow> u64 \<Rightarrow> fpproto_conn option" where
  "clear_next_unacked conn tslot = do {
     gap \<leftarrow> wnd_at_or_before (c_outwnd conn) tslot;
     if 0 \<le> gap then do {
       let tslot = tslot - of_int gap;
       (p, conn) \<leftarrow> outwnd_pop conn tslot;
       conn \<leftarrow> pktdesc_free p conn;
       clear_next_unacked conn tslot
     } else Some conn
   }"

definition free_unacked :: "fpproto_conn \<Rightarrow> fpproto_conn option" where
  "free_unacked conn = clear_next_unacked conn (wnd_head (c_outwnd conn))"

definition do_proto_reset :: "proto_cfg \<Rightarrow> fpproto_conn \<Rightarrow> u64 \<Rightarrow> bool \<Rightarrow> fpproto_conn option" where
  "do_proto_reset cfg conn reset_time in_sync = do {
     let base_seqno = base_seqno_from_timestamp reset_time;
     conn \<leftarrow> free_unacked conn;
     let w = wnd_reset (c_outwnd conn) (base_seqno + FASTPASS_EGRESS_SEQNO_OFFSET cfg - 1);
     let conn = conn\<lparr>c_last_reset_time := reset_time,
                     c_outwnd := w,
                     c_in_max_seqno := base_seqno + FASTPASS_INGRESS_SEQNO_OFFSET cfg - 1,
                     c_inwnd := - 1,
                     c_consecutive_bad_pkts := 0,
                     c_next_timeout_seqno := wnd_head w + 1,
                     c_next_skip_ack_seqno := wnd_head w + 1,
                     c_in_sync := in_sync\<rparr>;
     Some (upd_stat (st_proto_resets_update (\<lambda>n. n + 1)) conn)
   }"

definition fpproto_force_reset :: "proto_cfg \<Rightarrow> fpproto_conn \<Rightarrow> u64 \<Rightarrow> fpproto_conn option" where
  "fpproto_force_reset cfg conn now =
     do_proto_reset cfg (upd_stat (st_forced_reset_update (\<lambda>n. n + 1)) conn) now False"

section \<open>Timeouts\<close>

text \<open>
  The loop of \<open>fpproto_handle_timeout\<close>. The second component is \<open>Some (seqno, timeout)\<close> where
  the loop leaves by \<open>goto set_next_timer\<close>.
\<close>

partial_function (option) timeout_loop ::
  "fpproto_conn \<Rightarrow> u64 \<Rightarrow> u64 \<Rightarrow> (fpproto_conn \<times> (u64 \<times> u64) option) option" where
  "timeout_loop conn seqno now =
     (case wnd_at_or_after (c_outwnd conn) seqno of
        None \<Rightarrow> Some (conn, None)
      | Some seqno \<Rightarrow> do {
          pd \<leftarrow> outwnd_peek conn seqno;
          let timeout = pd_sent_timestamp pd + ucast (c_send_timeout conn);
          if time_after64 timeout now then Some (conn, Some (seqno, timeout))
          else do {
            let conn = upd_stat (st_timeout_pkts_update (\<lambda>n. n + 1)) conn;
            conn \<leftarrow> do_neg_ack_seqno conn seqno;
            timeout_loop conn (seqno + 1) now
          }
        })"

definition fpproto_handle_timeout :: "fpproto_conn \<Rightarrow> u64 \<Rightarrow> fpproto_conn option" where
  "fpproto_handle_timeout conn now = do {
     let conn = upd_stat (st_timeout_handler_runs_update (\<lambda>n. n + 1)) conn;
     (conn, next) \<leftarrow> timeout_loop conn (c_next_timeout_seqno conn) now;
     Some (case next of
         None \<Rightarrow> conn\<lparr>c_next_timeout_seqno := wnd_head (c_outwnd conn) + 1\<rparr>
       | Some (seqno, timeout) \<Rightarrow> emit (Set_timer timeout) (conn\<lparr>c_next_timeout_seqno := seqno\<rparr>))
   }"

section \<open>Reset and acknowledgement payloads\<close>

text \<open>\<open>True\<close> is the result 0: go on with the packet; \<open>False\<close> is 1: drop it.\<close>

definition reset_payload_handler ::
  "proto_cfg \<Rightarrow> fpproto_conn \<Rightarrow> u64 \<Rightarrow> u64 \<Rightarrow> (bool \<times> fpproto_conn) option" where
  "reset_payload_handler cfg conn full_tstamp now = (
     let conn = upd_stat (st_reset_payloads_update (\<lambda>n. n + 1)) conn;
         accept = (\<lambda>conn t r. do {
           conn \<leftarrow> do_proto_reset cfg conn t (is_endpoint cfg);
           Some (r, emit_if has_handle_reset Handle_reset conn) })
     in if full_tstamp = c_last_reset_time conn then
          let conn = (if is_endpoint cfg \<and> \<not> c_in_sync conn then conn
                      else upd_stat (st_redundant_reset_update (\<lambda>n. n + 1)) conn)
          in Some (True, conn\<lparr>c_in_sync := is_endpoint cfg\<rparr>)
        else
          let last_is_recent = tstamp_in_window (c_last_reset_time conn) now (c_rst_win_ns conn);
              payload_is_recent = tstamp_in_window full_tstamp now (c_rst_win_ns conn)
          in if last_is_recent then
               (if payload_is_recent then
                  (if time_before64 full_tstamp (c_last_reset_time conn) then
                     Some (False,
                       upd_stat (st_reset_both_recent_last_reset_wins_update (\<lambda>n. n + 1)) conn)
                   else accept (upd_stat (st_reset_both_recent_payload_wins_update (\<lambda>n. n + 1)) conn)
                          full_tstamp True)
                else Some (False, upd_stat (st_reset_last_recent_payload_old_update (\<lambda>n. n + 1)) conn))
             else
               (if payload_is_recent then
                  accept (upd_stat (st_reset_last_old_payload_recent_update (\<lambda>n. n + 1)) conn)
                    full_tstamp True
                else accept (upd_stat (st_reset_both_old_update (\<lambda>n. n + 1)) conn) now False))"

lemma bit_single: "bit (push_bit k 1 :: u64) n \<longleftrightarrow> n = k \<and> k < 64"
  by (auto simp: bit_push_bit_iff bit_1_iff simp del: push_bit_of_1)

lemma clear_lowest_bits:
  fixes todo :: u64
  shows "{i. bit (todo AND NOT (push_bit k 1)) i} = {i. bit todo i} - {k}"
proof -
  have "i < 64" if "bit todo i" for i using bit_imp_le_length [OF that] by simp
  then show ?thesis by (auto simp: bit_and_iff bit_not_iff bit_single simp del: push_bit_of_1)
qed

lemma finite_bits [simp]: "finite {i. bit (x :: u64) i}"
  by (rule finite_subset [of _ "{..<64}"]) (auto dest: bit_imp_le_length)

lemma card_clear_lowest:
  fixes todo :: u64
  assumes "todo \<noteq> 0"
  shows "card {i. bit (todo AND NOT (push_bit (ffs todo) 1)) i} < card {i. bit todo i}"
  unfolding clear_lowest_bits using bit_ffs [OF assms] by (intro card_Diff1_less) simp_all

text \<open>The loop of \<open>ack_payload_handler\<close> over the set bits of \<open>todo_mask\<close>, lowest first.\<close>

function ack_loop :: "fpproto_conn \<Rightarrow> u64 \<Rightarrow> u64 \<Rightarrow> nat \<Rightarrow> (fpproto_conn \<times> nat) option" where
  "ack_loop conn ack_seq todo_mask n_acked =
     (if todo_mask = 0 then Some (conn, n_acked)
      else do {
        let offset = ffs todo_mask;
        let cur_seqno = ack_seq - 63 + of_nat offset;
        bug_on (wnd_seq_before (c_outwnd conn) cur_seqno);
        bug_on (\<not> wnd_is_marked (c_outwnd conn) cur_seqno);
        conn \<leftarrow> do_ack_seqno conn cur_seqno;
        ack_loop conn ack_seq (todo_mask AND NOT (push_bit offset 1)) (n_acked + 1)
      })"
  by pat_completeness auto
termination
  by (relation "measure (\<lambda>(_, _, todo, _). card {i. bit todo i})")
    (simp_all add: card_clear_lowest del: push_bit_of_1)

declare ack_loop.simps [simp del]

partial_function (option) skip_loop :: "fpproto_conn \<Rightarrow> u64 \<Rightarrow> u64 \<Rightarrow> fpproto_conn option" where
  "skip_loop conn cur_seqno ack_seq =
     (case wnd_at_or_after (c_outwnd conn) cur_seqno of
        None \<Rightarrow> Some conn
      | Some cur_seqno \<Rightarrow>
          if cur_seqno < ack_seq then do {
            let conn = upd_stat (st_skip_ack_pkts_update (\<lambda>n. n + 1)) conn;
            conn \<leftarrow> do_skipped_ack_seqno conn cur_seqno;
            skip_loop conn (cur_seqno + 1) ack_seq
          } else Some conn)"

definition ack_payload_handler :: "proto_cfg \<Rightarrow> fpproto_conn \<Rightarrow> u64 \<Rightarrow> u64 \<Rightarrow> fpproto_conn option" where
  "ack_payload_handler cfg conn ack_seq ack_vec = (
     let conn = upd_stat (st_ack_payloads_update (\<lambda>n. n + 1)) conn
     in if wnd_seq_before (c_outwnd conn) ack_seq then
          Some (upd_stat (st_too_early_ack_update (\<lambda>n. n + 1)) conn)
        else do {
          let unacked_mask = wnd_get_mask (c_outwnd conn) ack_seq;
          let todo_mask = ack_vec AND unacked_mask;
          (conn, n_acked) \<leftarrow> ack_loop conn ack_seq todo_mask 0;
          conn \<leftarrow> (if retransmit_unacked_allocs cfg \<and> c_next_skip_ack_seqno conn \<le> ack_seq then do {
                     conn \<leftarrow> skip_loop conn (c_next_skip_ack_seqno conn) ack_seq;
                     Some (conn\<lparr>c_next_skip_ack_seqno := ack_seq + 1\<rparr>)
                   } else Some conn);
          if 0 < n_acked then do {
            conn \<leftarrow> recompute_and_reset_retrans_timer conn;
            Some (upd_stat (st_informative_ack_payloads_update (\<lambda>n. n + 1)) conn)
          } else Some conn
        })"

definition got_good_packet :: "fpproto_conn \<Rightarrow> fpproto_conn" where
  "got_good_packet conn = conn\<lparr>c_consecutive_bad_pkts := 0\<rparr>"

definition got_bad_packet :: "proto_cfg \<Rightarrow> fpproto_conn \<Rightarrow> u64 \<Rightarrow> fpproto_conn option" where
  "got_bad_packet cfg conn now = do {
     let conn = conn\<lparr>c_in_sync := False, c_consecutive_bad_pkts := c_consecutive_bad_pkts conn + 1\<rparr>;
     conn \<leftarrow>
       (if c_consecutive_bad_pkts conn < FASTPASS_BAD_PKT_RESET_THRESHOLD then Some conn
        else
          let conn = conn\<lparr>c_consecutive_bad_pkts := 0\<rparr>
          in if time_in_range64 (c_last_reset_time conn) (now - FASTPASS_RESET_WINDOW_NS)
                  (now + FASTPASS_RESET_WINDOW_NS)
             then Some (upd_stat (st_no_reset_because_recent_update (\<lambda>n. n + 1)) conn)
             else do {
               let conn = upd_stat (st_reset_from_bad_pkts_update (\<lambda>n. n + 1)) conn;
               conn \<leftarrow> do_proto_reset cfg conn now False;
               Some (emit_if has_handle_reset Handle_reset conn)
             });
     Some (emit_if has_trigger_request Trigger_request conn)
   }"

section \<open>The window of received packets\<close>

text \<open>\<open>True\<close> is the result 0: accept; \<open>False\<close> is 1: drop.\<close>

definition update_inwnd :: "fpproto_conn \<Rightarrow> u64 \<Rightarrow> bool \<times> fpproto_conn" where
  "update_inwnd conn seqno =
     (let hd_seq = c_in_max_seqno conn
      in if time_after_eq64 seqno (hd_seq + 64) then
           (True, (upd_stat (st_inwnd_jumped_update (\<lambda>n. n + 1)) conn)
                    \<lparr>c_in_max_seqno := seqno, c_inwnd := push_bit 63 1\<rparr>)
         else if time_after64 seqno hd_seq then
           (True, conn\<lparr>c_inwnd := drop_bit (unat (seqno - hd_seq)) (c_inwnd conn) OR push_bit 63 1,
                       c_in_max_seqno := seqno\<rparr>)
         else if time_before_eq64 seqno (hd_seq - 64) then
           (False, upd_stat (st_seqno_before_inwnd_update (\<lambda>n. n + 1)) conn)
         else if c_inwnd conn AND push_bit (unat (63 - (hd_seq - seqno))) 1 \<noteq> 0 then
           (False, upd_stat (st_rx_dup_pkt_update (\<lambda>n. n + 1)) conn)
         else
           (True, upd_stat (st_rx_out_of_order_update (\<lambda>n. n + 1))
                    (conn\<lparr>c_inwnd := c_inwnd conn OR push_bit (unat (63 - (hd_seq - seqno))) 1\<rparr>)))"

definition at_most_once_may_accept :: "fpproto_conn \<Rightarrow> u64 \<Rightarrow> bool" where
  "at_most_once_may_accept conn seqno =
     (let hd_seq = c_in_max_seqno conn
      in if time_after64 seqno hd_seq then True
         else if time_before_eq64 seqno (hd_seq - 64) then False
         else if c_inwnd conn AND push_bit (unat (63 - (hd_seq - seqno))) 1 \<noteq> 0 then False
         else True)"

section \<open>Sending\<close>

definition fpproto_prepare_to_send :: "fpproto_conn \<Rightarrow> fpproto_conn option" where
  "fpproto_prepare_to_send conn = (
     let window_edge = wnd_edge (c_outwnd conn)
     in if wnd_is_marked (c_outwnd conn) window_edge then do {
          let conn = upd_stat (st_never_acked_pkts_update (\<lambda>n. n + 1)) conn;
          conn \<leftarrow>
            (if time_after_eq64 window_edge (c_next_timeout_seqno conn) then do {
               let conn = upd_stat (st_fall_off_outwnd_update (\<lambda>n. n + 1)) conn;
               conn \<leftarrow> do_neg_ack_seqno conn window_edge;
               recompute_and_reset_retrans_timer (conn\<lparr>c_next_timeout_seqno := window_edge + 1\<rparr>)
             } else Some conn);
          (p, conn) \<leftarrow> outwnd_pop conn window_edge;
          pktdesc_free p conn
        } else Some conn)"

text \<open>The result is the connection and the descriptor with the fields the protocol fills in.\<close>

definition fpproto_commit_packet ::
  "fpproto_conn \<Rightarrow> fpproto_pktdesc \<Rightarrow> u64 \<Rightarrow> (fpproto_conn \<times> fpproto_pktdesc) option" where
  "fpproto_commit_packet conn pd timestamp = do {
     let full = drop_bit 16 (- 1 :: u64);
     let pd = pd\<lparr>pd_sent_timestamp := timestamp,
                 pd_seqno := wnd_head (c_outwnd conn) + 1,
                 pd_send_reset := \<not> c_in_sync conn,
                 pd_reset_timestamp := c_last_reset_time conn,
                 pd_ack_seq := c_in_max_seqno conn,
                 pd_ack_vec := ucast (drop_bit 48 (c_inwnd conn) AND 0x7FFF)
                   OR push_bit 15 (of_bool (c_inwnd conn AND full = full))\<rparr>;
     conn \<leftarrow> outwnd_add conn pd;
     let conn = upd_stat (st_committed_pkts_update (\<lambda>n. n + 1)) conn;
     conn \<leftarrow> recompute_and_reset_retrans_timer conn;
     Some (conn, pd)
   }"

section \<open>Statistics, set-up and tear-down\<close>

definition fpproto_dump_stats :: "fpproto_conn \<Rightarrow> fp_proto_stat" where
  "fpproto_dump_stats conn = c_stat conn"

definition fpproto_update_internal_stats :: "fpproto_conn \<Rightarrow> fpproto_conn" where
  "fpproto_update_internal_stats conn = upd_stat (\<lambda>st.
     st\<lparr>st_version := 2,
        st_last_reset_time := c_last_reset_time conn,
        st_out_max_seqno := wnd_head (c_outwnd conn),
        st_in_max_seqno := c_in_max_seqno conn,
        st_in_sync := c_in_sync conn,
        st_consecutive_bad_pkts := ucast (c_consecutive_bad_pkts conn),
        st_tx_num_unacked := ucast (wnd_num_marked (c_outwnd conn)),
        st_earliest_unacked :=
          (if wnd_empty (c_outwnd conn) then 0 else wnd_earliest_marked (c_outwnd conn)),
        st_inwnd := c_inwnd conn,
        st_next_timeout_seqno := c_next_timeout_seqno conn,
        st_next_skip_ack_seqno := c_next_skip_ack_seqno conn\<rparr>) conn"

definition fpproto_init_conn ::
  "proto_cfg \<Rightarrow> fpproto_conn \<Rightarrow> fpproto_ops \<Rightarrow> u64 \<Rightarrow> u64 \<Rightarrow> u64 \<Rightarrow> fpproto_conn option" where
  "fpproto_init_conn cfg conn ops rst_win_ns send_timeout now = do {
     conn \<leftarrow> do_proto_reset cfg conn now False;
     Some (conn\<lparr>c_ops := ops, c_rst_win_ns := rst_win_ns, c_send_timeout := ucast send_timeout\<rparr>)
   }"

definition fpproto_destroy_conn :: "fpproto_conn \<Rightarrow> fpproto_conn option" where
  "fpproto_destroy_conn conn = free_unacked conn"

end
