(* ===== verification/Proto_Ack.thy ===== *)
theory Proto_Ack
  imports Proto
begin

text \<open>
  Acknowledgements, negative acknowledgements and the retransmission timer: what the loops of
  \<^verbatim>\<open>fpproto.c\<close> do to the map of packets in flight and which callbacks they make, in order.
\<close>

section \<open>Packets in flight in sequence order\<close>

text \<open>
  The sequence numbers in flight that do not precede \<open>s\<close>, earliest first. The loops of the
  protocol visit the packets in this order.
\<close>

definition pending :: "fp_window \<Rightarrow> u64 \<Rightarrow> u64 list" where
  "pending w s =
     (if wnd_seq_after w s then []
      else map (\<lambda>d. w_head w - of_nat d)
             (rev (sorted_list_of_set (wnd_back w ` {t \<in> wnd_set w. wnd_back w t \<le> wnd_back w s}))))"

lemma finite_wnd_set: "finite (wnd_set w)"
proof -
  have "wnd_back w ` wnd_set w \<subseteq> {..<192}" by (auto simp: wnd_set_def in_wnd_def)
  then have "finite (wnd_back w ` wnd_set w)" by (rule finite_subset) simp
  then show ?thesis by (rule finite_imageD) (simp add: inj_on_def wnd_back_inj)
qed

lemma wnd_back_less [simp]: "wnd_back w t < 18446744073709551616"
  by (simp add: wnd_back_def)

lemma head_minus_back [simp]: "w_head w - of_nat (wnd_back w t) = t"
  by (simp add: wnd_back_def)

lemma set_pending:
  "set (pending w s) = (if wnd_seq_after w s then {} else {t \<in> wnd_set w. wnd_back w t \<le> wnd_back w s})"
proof -
  let ?A = "{t \<in> wnd_set w. wnd_back w t \<le> wnd_back w s}"
  have f: "finite (wnd_back w ` ?A)" using finite_wnd_set [of w] by simp
  have "(\<lambda>d. w_head w - of_nat d) ` wnd_back w ` ?A = ?A"
    unfolding image_image head_minus_back by simp
  then show ?thesis using f by (simp add: pending_def)
qed

lemma sorted_list_of_set_Max:
  assumes "finite A" "m \<in> A" "\<And>x. x \<in> A \<Longrightarrow> x \<le> m"
  shows "sorted_list_of_set A = sorted_list_of_set (A - {m}) @ [m :: nat]"
proof (rule sorted_distinct_set_unique)
  show "sorted (sorted_list_of_set (A - {m}) @ [m])"
    using assms by (auto simp: sorted_append)
qed (use assms in auto)

lemma wnd_back_succ:
  assumes "0 < wnd_back w t"
  shows "wnd_back w (t + 1) = wnd_back w t - 1"
proof -
  have eq: "w_head w - (t + 1) = (w_head w - t) - 1" by simp
  have "w_head w - t \<noteq> 0" using assms by (auto simp: wnd_back_def)
  then show ?thesis unfolding wnd_back_def eq by (rule unat_minus_one)
qed

lemma wnd_seq_after_iff: "wnd_seq_after w s \<longleftrightarrow> 2 ^ 63 \<le> wnd_back w s"
  by (simp add: wnd_seq_after_def wnd_head_def time_cmp wnd_back_def)

lemma pending_rec:
  assumes inv: "wnd_inv w"
  shows "pending w s = (case wnd_at_or_after w s of None \<Rightarrow> [] | Some t \<Rightarrow> t # pending w (t + 1))"
proof (cases "wnd_seq_after w s")
  case True
  then show ?thesis by (simp add: pending_def wnd_at_or_after_def)
next
  case na: False
  note spec = wnd_at_or_after_spec [OF inv na]
  let ?A = "\<lambda>s. wnd_back w ` {t \<in> wnd_set w. wnd_back w t \<le> wnd_back w s}"
  have fin: "finite (?A s)" using finite_wnd_set [of w] by simp
  show ?thesis
  proof (cases "wnd_at_or_after w s")
    case None
    with spec have "{t \<in> wnd_set w. wnd_back w t \<le> wnd_back w s} = {}" by (auto simp: nearest_after_def)
    then show ?thesis using None by (simp add: pending_def)
  next
    case (Some t)
    with spec have t: "t \<in> wnd_set w" "wnd_back w t \<le> wnd_back w s"
      and mx: "\<And>d. d \<in> ?A s \<Longrightarrow> d \<le> wnd_back w t" by (auto simp: nearest_after_def)
    have split: "sorted_list_of_set (?A s) = sorted_list_of_set (?A s - {wnd_back w t}) @ [wnd_back w t]"
      using fin t mx by (intro sorted_list_of_set_Max) auto
    have "pending w (t + 1) = map (\<lambda>d. w_head w - of_nat d) (rev (sorted_list_of_set (?A s - {wnd_back w t})))"
    proof (cases "wnd_back w t = 0")
      case True
      then have "?A s - {wnd_back w t} = {}" using mx by fastforce
      moreover have "t = w_head w" using True by (simp add: wnd_back_def unat_eq_0)
      ultimately show ?thesis
        unfolding pending_def by (simp add: wnd_seq_after_iff wnd_back_def)
    next
      case False
      then have b: "wnd_back w (t + 1) = wnd_back w t - 1" by (simp add: wnd_back_succ)
      have "?A (t + 1) = ?A s - {wnd_back w t}"
        using mx False t(2) unfolding b by fastforce
      moreover have "\<not> wnd_seq_after w (t + 1)"
        using t(1) b by (auto simp: wnd_seq_after_iff wnd_set_def in_wnd_def)
      ultimately show ?thesis by (simp add: pending_def)
    qed
    then show ?thesis using Some na split by (simp add: pending_def)
  qed
qed


lemma distinct_pending: "distinct (pending w s)"
proof -
  have "inj_on (\<lambda>d. w_head w - of_nat d) (wnd_back w ` {t \<in> wnd_set w. wnd_back w t \<le> wnd_back w s})"
    by (auto simp: inj_on_def) (metis head_minus_back)
  then show ?thesis using finite_wnd_set [of w] by (simp add: pending_def distinct_map)
qed

lemma wnd_at_or_after_mem:
  assumes "wnd_inv w" "wnd_at_or_after w s = Some t"
  shows "t \<in> wnd_set w"
  using assms wnd_at_or_after_spec [OF assms(1), of s]
  by (cases "wnd_seq_after w s") (auto simp: nearest_after_def wnd_at_or_after_def)

section \<open>The timer\<close>

text \<open>The packet whose timeout is next, of those from \<open>s\<close> on; with none, the next packet to be sent.\<close>

definition next_timeout :: "fp_window \<Rightarrow> u64 \<Rightarrow> u64" where
  "next_timeout w s = (case pending w s of [] \<Rightarrow> w_head w + 1 | t # _ \<Rightarrow> t)"

text \<open>When a packet in flight times out.\<close>

definition pkt_timeout :: "fpproto_conn \<Rightarrow> u64 \<Rightarrow> u64" where
  "pkt_timeout c s = pd_sent_timestamp (the (unacked c s)) + ucast (c_send_timeout c)"

definition expired :: "fpproto_conn \<Rightarrow> u64 \<Rightarrow> u64 \<Rightarrow> bool" where
  "expired c now s \<longleftrightarrow> \<not> time_after64 (pkt_timeout c s) now"

lemma unacked_peek: "conn_inv c \<Longrightarrow> s \<in> wnd_set (c_outwnd c) \<Longrightarrow> outwnd_peek c s = Some (the (unacked c s))"
  using conn_invD(3) [of c s] by (auto simp: unacked_def)

lemma unacked_updates [frame_simps]:
  "unacked (c\<lparr>c_next_timeout_seqno := x\<rparr>) = unacked c" "conn_inv (c\<lparr>c_next_timeout_seqno := x\<rparr>) = conn_inv c"
  "unacked (c\<lparr>c_next_skip_ack_seqno := x\<rparr>) = unacked c" "conn_inv (c\<lparr>c_next_skip_ack_seqno := x\<rparr>) = conn_inv c"
  "unacked (c\<lparr>c_in_sync := b\<rparr>) = unacked c" "conn_inv (c\<lparr>c_in_sync := b\<rparr>) = conn_inv c"
  "unacked (c\<lparr>c_consecutive_bad_pkts := n\<rparr>) = unacked c" "conn_inv (c\<lparr>c_consecutive_bad_pkts := n\<rparr>) = conn_inv c"
  "outwnd_peek (c\<lparr>c_next_timeout_seqno := x\<rparr>) = outwnd_peek c"
  "outwnd_peek (c\<lparr>c_next_skip_ack_seqno := x\<rparr>) = outwnd_peek c"
  "outwnd_peek (emit e c) = outwnd_peek c" "outwnd_peek (emit_if b' e c) = outwnd_peek c"
  "outwnd_peek (upd_stat f c) = outwnd_peek c"
  by (rule unacked_cong; simp)+ (simp_all add: outwnd_peek_def fun_eq_iff frame_simps)

text \<open>The fields that belong to the receive side and to the configuration of the connection.\<close>

definition rx_part :: "fpproto_conn \<Rightarrow> _" where
  "rx_part c = (c_ops c, c_last_reset_time c, c_in_max_seqno c, c_in_sync c, c_rst_win_ns c,
     c_send_timeout c, c_consecutive_bad_pkts c, c_inwnd c)"

lemma rx_part_frames [frame_simps]:
  "rx_part (emit e c) = rx_part c" "rx_part (emit_if b e c) = rx_part c" "rx_part (upd_stat f c) = rx_part c"
  "rx_part (c\<lparr>c_next_timeout_seqno := x\<rparr>) = rx_part c" "rx_part (c\<lparr>c_next_skip_ack_seqno := x\<rparr>) = rx_part c"
  "rx_part (c\<lparr>c_outwnd := w\<rparr>) = rx_part c" "rx_part (c\<lparr>c_unacked_pkts := a\<rparr>) = rx_part c"
  by (simp_all add: rx_part_def emit_def emit_if_def upd_stat_def)

lemma field_frames [frame_simps]:
  "c_log (emit e c) = c_log c @ [e]" "c_log (upd_stat f c) = c_log c"
  "c_log (emit_if b e c) = c_log c @ (if b (c_ops c) then [e] else [])"
  "c_next_timeout_seqno (emit e c) = c_next_timeout_seqno c"
  "c_next_timeout_seqno (emit_if b e c) = c_next_timeout_seqno c"
  "c_next_timeout_seqno (upd_stat f c) = c_next_timeout_seqno c"
  "c_next_skip_ack_seqno (emit e c) = c_next_skip_ack_seqno c"
  "c_next_skip_ack_seqno (emit_if b e c) = c_next_skip_ack_seqno c"
  "c_next_skip_ack_seqno (upd_stat f c) = c_next_skip_ack_seqno c"
  "c_ops (emit e c) = c_ops c" "c_ops (emit_if b e c) = c_ops c" "c_ops (upd_stat f c) = c_ops c"
  "c_send_timeout (emit e c) = c_send_timeout c" "c_send_timeout (emit_if b e c) = c_send_timeout c"
  "c_send_timeout (upd_stat f c) = c_send_timeout c"
  "c_in_sync (emit e c) = c_in_sync c" "c_in_sync (emit_if b e c) = c_in_sync c" "c_in_sync (upd_stat f c) = c_in_sync c"
  "c_inwnd (emit e c) = c_inwnd c" "c_inwnd (emit_if b e c) = c_inwnd c" "c_inwnd (upd_stat f c) = c_inwnd c"
  "c_in_max_seqno (emit e c) = c_in_max_seqno c" "c_in_max_seqno (emit_if b e c) = c_in_max_seqno c" "c_in_max_seqno (upd_stat f c) = c_in_max_seqno c"
  "c_last_reset_time (emit e c) = c_last_reset_time c" "c_last_reset_time (emit_if b e c) = c_last_reset_time c" "c_last_reset_time (upd_stat f c) = c_last_reset_time c"
  "c_consecutive_bad_pkts (emit e c) = c_consecutive_bad_pkts c" "c_consecutive_bad_pkts (emit_if b e c) = c_consecutive_bad_pkts c" "c_consecutive_bad_pkts (upd_stat f c) = c_consecutive_bad_pkts c"
  "c_rst_win_ns (emit e c) = c_rst_win_ns c" "c_rst_win_ns (emit_if b e c) = c_rst_win_ns c" "c_rst_win_ns (upd_stat f c) = c_rst_win_ns c"
  by (simp_all add: emit_def emit_if_def upd_stat_def)

lemma recompute_spec:
  assumes inv: "conn_inv c"
  defines "L \<equiv> pending (c_outwnd c) (c_next_timeout_seqno c)"
  shows "\<exists>c'. recompute_and_reset_retrans_timer c = Some c' \<and> conn_inv c' \<and> unacked c' = unacked c
    \<and> c_outwnd c' = c_outwnd c \<and> c_unacked_pkts c' = c_unacked_pkts c \<and> rx_part c' = rx_part c
    \<and> c_next_skip_ack_seqno c' = c_next_skip_ack_seqno c
    \<and> c_next_timeout_seqno c' = (if L = [] then w_head (c_outwnd c) + 1 else hd L)
    \<and> c_log c' = c_log c @ Cancel_timer # (if L = [] then [] else [Set_timer (pkt_timeout c (hd L))])"
proof (cases "wnd_at_or_after (c_outwnd c) (c_next_timeout_seqno c)")
  case None
  then have "L = []" unfolding L_def by (subst pending_rec [OF conn_invD(1) [OF inv]]) simp
  then show ?thesis
    using inv None by (simp add: recompute_and_reset_retrans_timer_def frame_simps wnd_head_def)
next
  case (Some t)
  then have L: "L \<noteq> []" "hd L = t"
    unfolding L_def by (subst pending_rec [OF conn_invD(1) [OF inv]], simp)+
  have "t \<in> wnd_set (c_outwnd c)" using Some by (rule wnd_at_or_after_mem [OF conn_invD(1) [OF inv]])
  from unacked_peek [OF inv this] show ?thesis
    using inv Some L by (simp add: recompute_and_reset_retrans_timer_def frame_simps pkt_timeout_def)
qed

section \<open>Negative acknowledgements on timeout\<close>

definition nack_events :: "fpproto_ops \<Rightarrow> fpproto_pktdesc \<Rightarrow> op_event list" where
  "nack_events ops pd = (if has_handle_neg_ack ops then [Handle_neg_ack pd] else [])"

lemma timeout_loop_spec:
  assumes "conn_inv c" and "pending (c_outwnd c) s = L"
  shows "\<exists>c'. timeout_loop c s now = Some (c', case dropWhile (expired c now) L of
              [] \<Rightarrow> None | t # _ \<Rightarrow> Some (t, pkt_timeout c t))
    \<and> c_outwnd c' = c_outwnd c \<and> c_unacked_pkts c' = c_unacked_pkts c \<and> rx_part c' = rx_part c
    \<and> c_next_skip_ack_seqno c' = c_next_skip_ack_seqno c
    \<and> c_log c' = c_log c @ concat (map (\<lambda>t. nack_events (c_ops c) (the (unacked c t))) (takeWhile (expired c now) L))"
  using assms
proof (induction L arbitrary: c s)
  case Nil
  then have "wnd_at_or_after (c_outwnd c) s = None"
    using pending_rec [OF conn_invD(1) [OF Nil.prems(1)], of s] by (simp split: option.splits)
  then show ?case by (subst timeout_loop.simps) simp
next
  case (Cons t L)
  note inv = Cons.prems(1)
  have t: "wnd_at_or_after (c_outwnd c) s = Some t" and rest: "pending (c_outwnd c) (t + 1) = L"
    using pending_rec [OF conn_invD(1) [OF inv], of s] Cons.prems(2) by (simp_all split: option.splits)
  note mem = wnd_at_or_after_mem [OF conn_invD(1) [OF inv] t]
  note pk = unacked_peek [OF inv mem]
  show ?case
  proof (cases "expired c now t")
    case False
    then show ?thesis
      using t pk by (subst timeout_loop.simps) (simp add: expired_def pkt_timeout_def)
  next
    case True
    define c1 where "c1 = emit_if has_handle_neg_ack (Handle_neg_ack (the (unacked c t)))
      (upd_stat (st_timeout_pkts_update (\<lambda>n. n + 1)) c)"
    have fr: "conn_inv c1" "unacked c1 = unacked c" "c_outwnd c1 = c_outwnd c"
      "c_unacked_pkts c1 = c_unacked_pkts c" "rx_part c1 = rx_part c"
      "c_next_skip_ack_seqno c1 = c_next_skip_ack_seqno c" "c_ops c1 = c_ops c"
      "c_log c1 = c_log c @ nack_events (c_ops c) (the (unacked c t))" "c_send_timeout c1 = c_send_timeout c"
      using inv by (simp_all add: c1_def frame_simps nack_events_def)
    have ex: "expired c1 now = expired c now" "pkt_timeout c1 = pkt_timeout c"
      by (simp_all add: expired_def pkt_timeout_def fr fun_eq_iff)
    have "timeout_loop c s now = timeout_loop c1 (t + 1) now"
      using t pk True
      by (subst timeout_loop.simps) (simp add: expired_def pkt_timeout_def do_neg_ack_seqno_def frame_simps c1_def)
    moreover obtain c' where "timeout_loop c1 (t + 1) now = Some (c', case dropWhile (expired c now) L of
              [] \<Rightarrow> None | t # _ \<Rightarrow> Some (t, pkt_timeout c t))"
      "c_outwnd c' = c_outwnd c" "c_unacked_pkts c' = c_unacked_pkts c" "rx_part c' = rx_part c"
      "c_next_skip_ack_seqno c' = c_next_skip_ack_seqno c"
      "c_log c' = c_log c1 @ concat (map (\<lambda>t. nack_events (c_ops c) (the (unacked c t))) (takeWhile (expired c now) L))"
      using Cons.IH [of c1 "t + 1", unfolded ex fr(2-7), OF fr(1) rest] by blast
    ultimately show ?thesis using True fr(8) by auto
  qed
qed

text \<open>
  The timeout handler always returns and leaves the packets in flight in place. It visits
  the packets not yet timed out in sequence order, reports exactly the leading ones whose
  timeout has passed as lost, and programs the timer for the first that has not expired; with
  none left, the next timeout is the next packet to be sent.
\<close>

lemma handle_timeout_spec:
  assumes "conn_inv c"
  shows "\<exists>c'. fpproto_handle_timeout c now = Some c' \<and> conn_inv c' \<and> unacked c' = unacked c \<and> c_outwnd c' = c_outwnd c \<and> rx_part c' = rx_part c \<and>
    (let L = pending (c_outwnd c) (c_next_timeout_seqno c);
         late = takeWhile (expired c now) L; rest = dropWhile (expired c now) L
     in c_next_timeout_seqno c' = (if rest = [] then w_head (c_outwnd c) + 1 else hd rest)
      \<and> c_log c' = c_log c @ concat (map (\<lambda>t. nack_events (c_ops c) (the (unacked c t))) late)
          @ (if rest = [] then [] else [Set_timer (pkt_timeout c (hd rest))]))"
proof -
  let ?c = "upd_stat (st_timeout_handler_runs_update (\<lambda>n. n + 1)) c"
  let ?L = "pending (c_outwnd c) (c_next_timeout_seqno c)"
  have ex: "expired ?c now = expired c now" "pkt_timeout ?c = pkt_timeout c"
    by (simp_all add: expired_def pkt_timeout_def frame_simps fun_eq_iff)
  from timeout_loop_spec [of ?c "c_next_timeout_seqno c" ?L now, unfolded ex frame_simps, OF assms refl]
  obtain c' where
    c': "timeout_loop ?c (c_next_timeout_seqno c) now = Some (c', case dropWhile (expired c now) ?L of
              [] \<Rightarrow> None | t # _ \<Rightarrow> Some (t, pkt_timeout c t))"
    "c_outwnd c' = c_outwnd c" "c_unacked_pkts c' = c_unacked_pkts c"
    "c_log c' = c_log c @ concat (map (\<lambda>t. nack_events (c_ops c) (the (unacked c t))) (takeWhile (expired c now) ?L))"
    "rx_part c' = rx_part c" by blast
  note same = unacked_cong [OF c'(2,3)]
  show ?thesis
    using c' same assms
    by (cases "dropWhile (expired c now) ?L")
      (simp_all add: fpproto_handle_timeout_def frame_simps wnd_head_def Let_def del: dropWhile_eq_Nil_conv)
qed


section \<open>Acknowledgements\<close>

definition ack_events :: "fpproto_ops \<Rightarrow> fpproto_pktdesc \<Rightarrow> op_event list" where
  "ack_events ops pd = (if has_handle_ack ops then [Handle_ack pd] else []) @ [Pktdesc_free pd]"

lemma in_wnd_not_before_after:
  assumes "in_wnd w s"
  shows "\<not> wnd_seq_after w s" and "\<not> wnd_seq_before w s"
proof -
  show "\<not> wnd_seq_after w s" using assms by (simp add: wnd_seq_after_iff in_wnd_def)
  then show "\<not> wnd_seq_before w s" using assms by (simp add: wnd_seq_before_iff)
qed

lemma do_ack_spec:
  assumes inv: "conn_inv c" and s: "unacked c s = Some pd"
  shows "\<exists>c'. do_ack_seqno c s = Some c' \<and> conn_inv c' \<and> unacked c' = (unacked c)(s := None)
    \<and> w_head (c_outwnd c') = w_head (c_outwnd c) \<and> rx_part c' = rx_part c
    \<and> c_next_timeout_seqno c' = c_next_timeout_seqno c
    \<and> c_next_skip_ack_seqno c' = c_next_skip_ack_seqno c
    \<and> c_log c' = c_log c @ ack_events (c_ops c) pd"
proof -
  let ?c = "upd_stat (st_acked_packets_update (\<lambda>n. n + 1)) c"
  have m: "s \<in> wnd_set (c_outwnd c)" using s by (simp add: unacked_def split: if_splits)
  note iw = wnd_set_in_wnd [OF m]
  from outwnd_pop_spec [of ?c s pd, unfolded frame_simps, OF inv s] obtain c' where
    c': "outwnd_pop ?c s = Some (Some pd, c')" "conn_inv c'" "unacked c' = (unacked c)(s := None)"
    "w_head (c_outwnd c') = w_head (c_outwnd c)"
    and eq: "c' = ?c\<lparr>c_outwnd := c_outwnd c', c_unacked_pkts := c_unacked_pkts c'\<rparr>" by blast
  have fr: "rx_part c' = rx_part c" "c_next_timeout_seqno c' = c_next_timeout_seqno c"
    "c_next_skip_ack_seqno c' = c_next_skip_ack_seqno c" "c_log c' = c_log c" "c_ops c' = c_ops c"
    by (subst eq, simp add: frame_simps)+
  show ?thesis
    using c' fr m in_wnd_not_before_after [OF iw] wnd_is_marked_iff [OF conn_invD(1) [OF inv] iw]
    by (simp add: do_ack_seqno_def pktdesc_free_def frame_simps ack_events_def)
qed

lemma offset_seqno_inj:
  assumes "i < 64" "j < 64"
  shows "(a :: u64) - 63 + of_nat i = a - 63 + of_nat j \<longleftrightarrow> i = j"
proof -
  have "(of_nat i :: u64) = of_nat j \<longleftrightarrow> i = j"
    using assms unat_of_nat_u64 [of i] unat_of_nat_u64 [of j] by (auto simp: unat_eq_iff)
  then show ?thesis by simp
qed

definition bit_list :: "u64 \<Rightarrow> nat list" where
  "bit_list x = sorted_list_of_set {i. bit x i}"

lemma bit_list_rec:
  "bit_list x = (if x = 0 then [] else ffs x # bit_list (x AND NOT (push_bit (ffs x) 1)))"
proof (cases "x = 0")
  case False
  note ffs = ffs_props [OF False]
  have "Min {i. bit x i} = ffs x"
    using ffs(1,3) by (intro Min_eqI) auto
  then show ?thesis
    using False ffs(1) sorted_list_of_set_nonempty [of "{i. bit x i}"]
    unfolding bit_list_def clear_lowest_bits by auto
qed (simp add: bit_list_def)

lemma bit_list_props: "set (bit_list x) = {i. bit x i}" "i \<in> set (bit_list x) \<Longrightarrow> i < 64"
  using bit_imp_le_length [of x i] by (simp_all add: bit_list_def)

lemma ack_loop_spec:
  assumes "conn_inv c" and "bit_list todo = is"
    and "\<forall>i \<in> set is. a - 63 + of_nat i \<in> dom (unacked c)"
  shows "\<exists>c'. ack_loop c a todo n = Some (c', n + length is) \<and> conn_inv c'
    \<and> unacked c' = unacked c |` (- (\<lambda>i. a - 63 + of_nat i) ` set is)
    \<and> w_head (c_outwnd c') = w_head (c_outwnd c) \<and> rx_part c' = rx_part c
    \<and> c_next_timeout_seqno c' = c_next_timeout_seqno c
    \<and> c_next_skip_ack_seqno c' = c_next_skip_ack_seqno c
    \<and> c_log c' = c_log c @ concat (map (\<lambda>i. ack_events (c_ops c) (the (unacked c (a - 63 + of_nat i)))) is)"
  using assms
proof (induction "is" arbitrary: c todo n)
  case Nil
  then have "todo = 0" using bit_list_rec [of todo] by (simp split: if_splits)
  then show ?case using Nil.prems(1) by (subst ack_loop.simps) (simp add: restrict_map_def)
next
  case (Cons i iss)
  let ?s = "a - 63 + of_nat i"
  note inv = Cons.prems(1)
  have nz: "todo \<noteq> 0" and i: "ffs todo = i" and rest: "bit_list (todo AND NOT (push_bit i 1)) = iss"
    using Cons.prems(2) bit_list_rec [of todo] by (auto split: if_splits)
  obtain pd where pd: "unacked c ?s = Some pd" using Cons.prems(3) by auto
  then have m: "?s \<in> wnd_set (c_outwnd c)" by (simp add: unacked_def split: if_splits)
  from do_ack_spec [OF inv pd] obtain c1 where
    c1: "do_ack_seqno c ?s = Some c1" "conn_inv c1" "unacked c1 = (unacked c)(?s := None)"
    "w_head (c_outwnd c1) = w_head (c_outwnd c)" "rx_part c1 = rx_part c"
    "c_next_timeout_seqno c1 = c_next_timeout_seqno c"
    "c_next_skip_ack_seqno c1 = c_next_skip_ack_seqno c"
    "c_log c1 = c_log c @ ack_events (c_ops c) pd" by blast
  have ops: "c_ops c1 = c_ops c" using c1(5) by (simp add: rx_part_def)
  have dis: "a - 63 + of_nat j \<noteq> ?s" if "j \<in> set iss" for j
  proof -
    have "distinct (bit_list todo)" by (simp add: bit_list_def)
    then have "j \<noteq> i" using that Cons.prems(2) by auto
    moreover have "j < 64" "i < 64" using that Cons.prems(2) bit_list_props(2) [of _ todo] by auto
    ultimately show ?thesis using offset_seqno_inj [of j i a] by blast
  qed
  then have "\<forall>j \<in> set iss. a - 63 + of_nat j \<in> dom (unacked c1)" using Cons.prems(3) c1(3) by auto
  from Cons.IH [OF c1(2) rest this, of "n + 1"] obtain c2 where
    c2: "ack_loop c1 a (todo AND NOT (push_bit i 1)) (n + 1) = Some (c2, n + 1 + length iss)" "conn_inv c2"
    "unacked c2 = unacked c1 |` (- (\<lambda>i. a - 63 + of_nat i) ` set iss)"
    "w_head (c_outwnd c2) = w_head (c_outwnd c1)" "rx_part c2 = rx_part c1"
    "c_next_timeout_seqno c2 = c_next_timeout_seqno c1"
    "c_next_skip_ack_seqno c2 = c_next_skip_ack_seqno c1"
    "c_log c2 = c_log c1 @ concat (map (\<lambda>i. ack_events (c_ops c1) (the (unacked c1 (a - 63 + of_nat i)))) iss)"
    by blast
  have "ack_loop c a todo n = Some (c2, n + length (i # iss))"
    using nz i c1(1) c2(1) in_wnd_not_before_after [OF wnd_set_in_wnd [OF m]]
      wnd_is_marked_iff [OF conn_invD(1) [OF inv] wnd_set_in_wnd [OF m]] m
    by (subst ack_loop.simps) (simp del: push_bit_of_1)
  moreover have "unacked c2 = unacked c |` (- (\<lambda>i. a - 63 + of_nat i) ` set (i # iss))"
    unfolding c2(3) c1(3) by (auto simp: fun_eq_iff restrict_map_def)
  moreover have evs: "map (\<lambda>i. ack_events (c_ops c1) (the (unacked c1 (a - 63 + of_nat i)))) iss
      = map (\<lambda>i. ack_events (c_ops c) (the (unacked c (a - 63 + of_nat i)))) iss"
    using dis by (simp add: ops c1(3))
  moreover have "c_log c2 = c_log c
      @ concat (map (\<lambda>i. ack_events (c_ops c) (the (unacked c (a - 63 + of_nat i)))) (i # iss))"
    unfolding c2(8) c1(8) evs by (simp add: pd)
  ultimately show ?case using c1(4-7) c2(2,4-7) by simp
qed


section \<open>Skipped packets\<close>

definition skip_events :: "fpproto_ops \<Rightarrow> fpproto_pktdesc \<Rightarrow> op_event list" where
  "skip_events ops pd = (if has_handle_skipped_ack ops then [Handle_skipped_ack pd] else [])"

lemma skip_loop_spec:
  assumes "conn_inv c" and "pending (c_outwnd c) s = L"
  shows "\<exists>c'. skip_loop c s a = Some c'
    \<and> c_outwnd c' = c_outwnd c \<and> c_unacked_pkts c' = c_unacked_pkts c \<and> rx_part c' = rx_part c
    \<and> c_next_timeout_seqno c' = c_next_timeout_seqno c
    \<and> c_log c' = c_log c @ concat (map (\<lambda>t. skip_events (c_ops c) (the (unacked c t))) (takeWhile (\<lambda>t. t < a) L))"
  using assms
proof (induction L arbitrary: c s)
  case Nil
  then have "wnd_at_or_after (c_outwnd c) s = None"
    using pending_rec [OF conn_invD(1) [OF Nil.prems(1)], of s] by (simp split: option.splits)
  then show ?case by (subst skip_loop.simps) simp
next
  case (Cons t L)
  note inv = Cons.prems(1)
  have t: "wnd_at_or_after (c_outwnd c) s = Some t" and rest: "pending (c_outwnd c) (t + 1) = L"
    using pending_rec [OF conn_invD(1) [OF inv], of s] Cons.prems(2) by (simp_all split: option.splits)
  note pk = unacked_peek [OF inv wnd_at_or_after_mem [OF conn_invD(1) [OF inv] t]]
  show ?case
  proof (cases "t < a")
    case False
    then show ?thesis using t by (subst skip_loop.simps) simp
  next
    case True
    define c1 where "c1 = emit_if has_handle_skipped_ack (Handle_skipped_ack (the (unacked c t)))
      (upd_stat (st_skip_ack_pkts_update (\<lambda>n. n + 1)) c)"
    have fr: "conn_inv c1" "unacked c1 = unacked c" "c_outwnd c1 = c_outwnd c"
      "c_unacked_pkts c1 = c_unacked_pkts c" "rx_part c1 = rx_part c"
      "c_next_timeout_seqno c1 = c_next_timeout_seqno c" "c_ops c1 = c_ops c"
      "c_log c1 = c_log c @ skip_events (c_ops c) (the (unacked c t))"
      using inv by (simp_all add: c1_def frame_simps skip_events_def)
    have "skip_loop c s a = skip_loop c1 (t + 1) a"
      using t pk True by (subst skip_loop.simps) (simp add: do_skipped_ack_seqno_def frame_simps c1_def)
    with Cons.IH [of c1 "t + 1", unfolded fr(2-7), OF fr(1) rest] True fr(8)
    show ?thesis by auto
  qed
qed

section \<open>The acknowledgement payload\<close>

text \<open>The sequence numbers that an acknowledgement vector ending at \<open>a\<close> names.\<close>

definition acked_by :: "u64 \<Rightarrow> u64 \<Rightarrow> u64 set" where
  "acked_by a v = (\<lambda>i. a - 63 + of_nat i) ` {i. bit v i}"

definition acked_list :: "fpproto_conn \<Rightarrow> u64 \<Rightarrow> u64 \<Rightarrow> u64 list" where
  "acked_list c a v = filter (\<lambda>s. s \<in> dom (unacked c)) (map (\<lambda>i. a - 63 + of_nat i) (bit_list v))"

lemma bit_list_and:
  "bit_list (x AND y) = filter (\<lambda>i. bit y i) (bit_list x)"
proof (rule sorted_distinct_set_unique)
  show "sorted (filter (\<lambda>i. bit y i) (bit_list x))"
    using sorted_filter [of "\<lambda>i. i" "bit_list x"] by (simp add: bit_list_def)
qed (auto simp: bit_list_def bit_and_iff)

lemma mask_seqnos:
  assumes "conn_inv c"
  shows "map (\<lambda>i. a - 63 + of_nat i) (bit_list (v AND wnd_get_mask (c_outwnd c) a)) = acked_list c a v"
proof -
  have "bit (wnd_get_mask (c_outwnd c) a) i \<longleftrightarrow> a - 63 + of_nat i \<in> dom (unacked c)" if "i < 64" for i
  proof -
    have "a - of_nat (63 - i) = a - 63 + of_nat i" using that by (simp add: of_nat_diff)
    then show ?thesis
      using wnd_get_mask_spec [OF conn_invD(1) [OF assms] that, of a] dom_unacked [OF assms] by (simp only:)
  qed
  then have "filter (bit (wnd_get_mask (c_outwnd c) a)) (bit_list v)
      = filter (\<lambda>i. a - 63 + of_nat i \<in> dom (unacked c)) (bit_list v)"
    by (intro filter_cong refl) (use bit_list_props(2) in blast)
  then show ?thesis
    by (simp only: bit_list_and acked_list_def filter_map comp_def)
qed

lemma ack_skip_part:
  assumes inv: "conn_inv c"
  shows "\<exists>c'. (if b then do {
            conn \<leftarrow> skip_loop c (c_next_skip_ack_seqno c) a;
            Some (conn\<lparr>c_next_skip_ack_seqno := a + 1\<rparr>) } else Some c) = Some c'
    \<and> conn_inv c' \<and> unacked c' = unacked c \<and> c_outwnd c' = c_outwnd c
    \<and> c_unacked_pkts c' = c_unacked_pkts c \<and> rx_part c' = rx_part c
    \<and> c_next_timeout_seqno c' = c_next_timeout_seqno c
    \<and> c_log c' = c_log c @ (if b then concat (map (\<lambda>s. skip_events (c_ops c) (the (unacked c s)))
        (takeWhile (\<lambda>t. t < a) (pending (c_outwnd c) (c_next_skip_ack_seqno c)))) else [])"
proof (cases b)
  case True
  from skip_loop_spec [OF inv refl, of "c_next_skip_ack_seqno c" a] obtain c' where
    c': "skip_loop c (c_next_skip_ack_seqno c) a = Some c'"
    "c_outwnd c' = c_outwnd c" "c_unacked_pkts c' = c_unacked_pkts c" "rx_part c' = rx_part c"
    "c_next_timeout_seqno c' = c_next_timeout_seqno c"
    "c_log c' = c_log c @ concat (map (\<lambda>t. skip_events (c_ops c) (the (unacked c t)))
       (takeWhile (\<lambda>t. t < a) (pending (c_outwnd c) (c_next_skip_ack_seqno c))))" by blast
  show ?thesis
    using True c' unacked_cong [OF c'(2,3)] inv by (simp add: frame_simps)
qed (simp add: inv)

lemma ack_mask_loop:
  assumes inv: "conn_inv c"
  shows "\<exists>c'. ack_loop c a (v AND wnd_get_mask (c_outwnd c) a) 0 = Some (c', length (acked_list c a v))
    \<and> conn_inv c' \<and> unacked c' = unacked c |` (- acked_by a v)
    \<and> w_head (c_outwnd c') = w_head (c_outwnd c) \<and> rx_part c' = rx_part c
    \<and> c_next_timeout_seqno c' = c_next_timeout_seqno c
    \<and> c_next_skip_ack_seqno c' = c_next_skip_ack_seqno c
    \<and> c_log c' = c_log c @ concat (map (\<lambda>s. ack_events (c_ops c) (the (unacked c s))) (acked_list c a v))"
proof -
  define todo where "todo = v AND wnd_get_mask (c_outwnd c) a"
  note ml = mask_seqnos [OF inv, of a v, folded todo_def]
  have st: "(\<lambda>i. a - 63 + of_nat i) ` set (bit_list todo) = set (acked_list c a v)"
    unfolding ml [symmetric] by simp
  then have dm: "\<forall>i \<in> set (bit_list todo). a - 63 + of_nat i \<in> dom (unacked c)"
    by (auto simp: acked_list_def)
  from ack_loop_spec [OF inv refl dm, of 0] obtain c1 where
    c1: "ack_loop c a todo 0 = Some (c1, length (bit_list todo))" "conn_inv c1"
    "unacked c1 = unacked c |` (- (\<lambda>i. a - 63 + of_nat i) ` set (bit_list todo))"
    "w_head (c_outwnd c1) = w_head (c_outwnd c)" "rx_part c1 = rx_part c"
    "c_next_timeout_seqno c1 = c_next_timeout_seqno c" "c_next_skip_ack_seqno c1 = c_next_skip_ack_seqno c"
    "c_log c1 = c_log c @ concat (map (\<lambda>i. ack_events (c_ops c) (the (unacked c (a - 63 + of_nat i)))) (bit_list todo))"
    by auto
  have "c_log c1 = c_log c @ concat (map (\<lambda>s. ack_events (c_ops c) (the (unacked c s))) (acked_list c a v))"
    unfolding c1(8) ml [symmetric] by (simp add: comp_def)
  moreover have "length (bit_list todo) = length (acked_list c a v)"
    unfolding ml [symmetric] by simp
  moreover have "unacked c1 = unacked c |` (- acked_by a v)"
  proof -
    have "set (acked_list c a v) = acked_by a v \<inter> dom (unacked c)"
      by (auto simp: acked_list_def acked_by_def bit_list_props(1))
    then have "unacked c1 = unacked c |` (- (acked_by a v \<inter> dom (unacked c)))"
      unfolding c1(3) st by (rule arg_cong)
    then show ?thesis by (auto simp: fun_eq_iff restrict_map_def)
  qed
  ultimately show ?thesis using c1 unfolding todo_def by simp
qed

text \<open>
  An acknowledgement whose sequence number is not before the window: the handler never
  asserts, removes exactly the packets in flight that the vector names, reports each of them
  once as acknowledged and frees it, in sequence order; then it reports the packets in flight
  before the acknowledged one that were not yet reported as skipped (arbiter with emulation
  only) and re-arms the timer for the earliest packet that has not timed out, if any packet
  was acknowledged.
\<close>

lemma ack_payload_spec:
  assumes inv: "conn_inv c" and nb: "\<not> wnd_seq_before (c_outwnd c) a"
  shows "\<exists>c'. ack_payload_handler cfg c a v = Some c' \<and> conn_inv c'
    \<and> unacked c' = unacked c |` (- acked_by a v) \<and> rx_part c' = rx_part c
    \<and> w_head (c_outwnd c') = w_head (c_outwnd c)
    \<and> c_log c' = c_log c
        @ concat (map (\<lambda>s. ack_events (c_ops c) (the (unacked c s))) (acked_list c a v))
        @ (if retransmit_unacked_allocs cfg \<and> c_next_skip_ack_seqno c \<le> a
           then concat (map (\<lambda>s. skip_events (c_ops c) (the (unacked c' s)))
                  (takeWhile (\<lambda>t. t < a) (pending (c_outwnd c') (c_next_skip_ack_seqno c))))
           else [])
        @ (if acked_list c a v = [] then []
           else Cancel_timer # (case pending (c_outwnd c') (c_next_timeout_seqno c) of
                  [] \<Rightarrow> [] | t # _ \<Rightarrow> [Set_timer (pkt_timeout c' t)]))
    \<and> c_next_timeout_seqno c' = (if acked_list c a v = [] then c_next_timeout_seqno c else next_timeout (c_outwnd c') (c_next_timeout_seqno c))"
proof -
  define c0 where "c0 = upd_stat (st_ack_payloads_update (\<lambda>n. n + 1)) c"
  define skp where "skp \<longleftrightarrow> retransmit_unacked_allocs cfg \<and> c_next_skip_ack_seqno c \<le> a"
  have c0: "conn_inv c0" "unacked c0 = unacked c" "c_outwnd c0 = c_outwnd c" "rx_part c0 = rx_part c"
    "c_ops c0 = c_ops c" "c_log c0 = c_log c" "c_next_timeout_seqno c0 = c_next_timeout_seqno c"
    "c_next_skip_ack_seqno c0 = c_next_skip_ack_seqno c" "acked_list c0 = acked_list c"
    using inv by (simp_all add: c0_def frame_simps acked_list_def fun_eq_iff)
  from ack_mask_loop [OF c0(1), of a v, unfolded c0] obtain c1 where
    c1: "ack_loop c0 a (v AND wnd_get_mask (c_outwnd c) a) 0 = Some (c1, length (acked_list c a v))"
    "conn_inv c1" "unacked c1 = unacked c |` (- acked_by a v)"
    "w_head (c_outwnd c1) = w_head (c_outwnd c)" "rx_part c1 = rx_part c"
    "c_next_timeout_seqno c1 = c_next_timeout_seqno c" "c_next_skip_ack_seqno c1 = c_next_skip_ack_seqno c"
    "c_log c1 = c_log c @ concat (map (\<lambda>s. ack_events (c_ops c) (the (unacked c s))) (acked_list c a v))"
    by blast
  have ops1: "c_ops c1 = c_ops c" using c1(5) by (simp add: rx_part_def)
  from ack_skip_part [OF c1(2), of skp a] obtain c2 where
    c2: "(if skp then do {
            conn \<leftarrow> skip_loop c1 (c_next_skip_ack_seqno c1) a;
            Some (conn\<lparr>c_next_skip_ack_seqno := a + 1\<rparr>) } else Some c1) = Some c2"
    "conn_inv c2" "unacked c2 = unacked c1" "c_outwnd c2 = c_outwnd c1"
    "c_unacked_pkts c2 = c_unacked_pkts c1" "rx_part c2 = rx_part c1"
    "c_next_timeout_seqno c2 = c_next_timeout_seqno c1"
    "c_log c2 = c_log c1 @ (if skp then concat (map (\<lambda>s. skip_events (c_ops c1) (the (unacked c1 s)))
        (takeWhile (\<lambda>t. t < a) (pending (c_outwnd c1) (c_next_skip_ack_seqno c1)))) else [])" by blast
  have code: "ack_payload_handler cfg c a v = (if acked_list c a v = [] then Some c2 else do {
        conn \<leftarrow> recompute_and_reset_retrans_timer c2;
        Some (upd_stat (st_informative_ack_payloads_update (\<lambda>n. n + 1)) conn) })"
    using nb c1(1,7) c2(1) unfolding ack_payload_handler_def skp_def
    by (simp add: c0_def [symmetric] c0 cong: if_cong)
  note prems = c1(3-8) c2(2-8) ops1
  show ?thesis
  proof (cases "acked_list c a v = []")
    case True
    then show ?thesis using code prems by (simp add: skp_def cong: if_cong)
  next
    case False
    from recompute_spec [OF c2(2)] obtain c3 where c3:
      "recompute_and_reset_retrans_timer c2 = Some c3" "conn_inv c3" "unacked c3 = unacked c2"
      "c_outwnd c3 = c_outwnd c2" "rx_part c3 = rx_part c2"
      "c_log c3 = c_log c2 @ Cancel_timer # (case pending (c_outwnd c2) (c_next_timeout_seqno c2) of
          [] \<Rightarrow> [] | t # _ \<Rightarrow> [Set_timer (pkt_timeout c2 t)])"
      "c_next_timeout_seqno c3 = next_timeout (c_outwnd c2) (c_next_timeout_seqno c2)"
      by (auto simp: next_timeout_def split: list.splits)
    have "c_send_timeout c3 = c_send_timeout c2" using c3(5) by (simp add: rx_part_def)
    then have "pkt_timeout (upd_stat f c3) = pkt_timeout c2" for f
      by (simp add: pkt_timeout_def fun_eq_iff c3(3) frame_simps)
    then show ?thesis
      using False code prems c3
      by (cases "pending (c_outwnd c1) (c_next_timeout_seqno c)") (simp_all add: skp_def frame_simps)
  qed
qed

end
