(* ===== verification/Proto_Reset.thy ===== *)
theory Proto_Reset
  imports Proto_Ack
begin

text \<open>
  Resets and sending: the loop that frees the packets in flight, the reset of both sequence
  number spaces, the decision table for RESET payloads, the count of bad packets, and the two
  calls that put a packet on the wire.
\<close>

section \<open>Freeing the packets in flight\<close>

lemma ran_fun_upd_None:
  assumes "conn_inv c" "unacked c s = Some pd"
  shows "ran (unacked c) = insert pd (ran ((unacked c)(s := None)))" and "pd \<notin> ran ((unacked c)(s := None))"
proof -
  show "ran (unacked c) = insert pd (ran ((unacked c)(s := None)))"
    using assms(2) by (auto simp: ran_def) (metis option.inject)
  show "pd \<notin> ran ((unacked c)(s := None))"
  proof
    assume "pd \<in> ran ((unacked c)(s := None))"
    then obtain a where "a \<noteq> s" "unacked c a = Some pd" by (auto simp: ran_def split: if_splits)
    then show False using unacked_seqno [OF assms(1)] assms(2) by metis
  qed
qed

lemma finite_dom_unacked: "conn_inv c \<Longrightarrow> finite (dom (unacked c))"
  using dom_unacked finite_wnd_set by simp

lemma clear_next_unacked_spec:
  assumes "conn_inv c" and "\<not> wnd_seq_after (c_outwnd c) s"
    and "\<forall>t \<in> dom (unacked c). wnd_back (c_outwnd c) s \<le> wnd_back (c_outwnd c) t"
  shows "\<exists>c' L. clear_next_unacked c s = Some c' \<and> conn_inv c' \<and> unacked c' = Map.empty
    \<and> w_head (c_outwnd c') = w_head (c_outwnd c) \<and> rx_part c' = rx_part c
    \<and> distinct L \<and> set L = ran (unacked c) \<and> c_log c' = c_log c @ map Pktdesc_free L"
  using assms
proof (induction "card (dom (unacked c))" arbitrary: c s rule: less_induct)
  case less
  note inv = less.prems(1) and wi = conn_invD(1) [OF less.prems(1)]
  let ?w = "c_outwnd c"
  obtain r where r: "wnd_at_or_before ?w s = Some r" "nearest_before ?w s r"
    using wnd_at_or_before_spec [OF wi, of s] less.prems(2) by (auto simp: wnd_seq_after_def wnd_head_def)
  show ?case
  proof (cases "dom (unacked c) = {}")
    case True
    then have e: "unacked c = Map.empty" by (simp only: dom_eq_empty_conv)
    then have "wnd_set ?w = {}" using dom_unacked [OF inv] by simp
    then have "r = - 1" using r(2) by (simp add: nearest_before_def)
    then show ?thesis
      using r inv e by (subst clear_next_unacked.simps) (auto intro!: exI [of _ "[]"])
  next
    case False
    then have ex: "\<exists>t \<in> wnd_set ?w. wnd_back ?w s \<le> wnd_back ?w t"
      using less.prems(3) dom_unacked [OF inv] by auto
    let ?t = "s - of_int r"
    have n: "0 \<le> r" "?t \<in> wnd_set ?w"
      and mn: "\<forall>t \<in> wnd_set ?w. wnd_back ?w s \<le> wnd_back ?w t \<longrightarrow> wnd_back ?w ?t \<le> wnd_back ?w t"
      using r(2) unfolding nearest_before_def if_P [OF ex] by blast+
    obtain pd where pd: "unacked c ?t = Some pd" using n(2) dom_unacked [OF inv] by auto
    from outwnd_pop_spec [OF inv pd] obtain c1 where
      c1: "outwnd_pop c ?t = Some (Some pd, c1)" "conn_inv c1" "unacked c1 = (unacked c)(?t := None)"
      "w_head (c_outwnd c1) = w_head ?w"
      and eq: "c1 = c\<lparr>c_outwnd := c_outwnd c1, c_unacked_pkts := c_unacked_pkts c1\<rparr>" by blast
    have fr1: "rx_part c1 = rx_part c" "c_log c1 = c_log c" by (subst eq, simp add: frame_simps)+
    define c2 where "c2 = emit (Pktdesc_free pd) c1"
    have c2: "conn_inv c2" "unacked c2 = (unacked c)(?t := None)" "c_outwnd c2 = c_outwnd c1"
      "rx_part c2 = rx_part c" "c_log c2 = c_log c @ [Pktdesc_free pd]"
      using c1 fr1 by (simp_all add: c2_def frame_simps)
    have bk: "wnd_back (c_outwnd c2) = wnd_back ?w" by (simp add: wnd_back_def c1(4) c2(3) fun_eq_iff)
    have "card (dom (unacked c2)) < card (dom (unacked c))"
      using pd finite_dom_unacked [OF inv] unfolding c2(2) by (auto intro!: card_Diff1_less)
    moreover have "\<not> wnd_seq_after (c_outwnd c2) ?t"
      using wnd_set_in_wnd [OF n(2)] by (simp add: wnd_seq_after_iff bk in_wnd_def)
    moreover have "\<forall>t \<in> dom (unacked c2). wnd_back (c_outwnd c2) ?t \<le> wnd_back (c_outwnd c2) t"
      using mn less.prems(3) dom_unacked [OF inv] unfolding bk c2(2) by auto
    ultimately obtain c' L where
      c': "clear_next_unacked c2 ?t = Some c'" "conn_inv c'" "unacked c' = Map.empty"
      "w_head (c_outwnd c') = w_head (c_outwnd c2)" "rx_part c' = rx_part c2"
      "distinct L" "set L = ran (unacked c2)" "c_log c' = c_log c2 @ map Pktdesc_free L"
      using less.hyps [of c2 ?t] c2(1) by blast
    have "clear_next_unacked c s = Some c'"
      using r(1) n(1) c1(1) c'(1) c2_def by (subst clear_next_unacked.simps) (simp add: pktdesc_free_def)
    moreover have "distinct (pd # L)" "set (pd # L) = ran (unacked c)"
      using ran_fun_upd_None [OF inv pd] c'(6,7) c2(2) by auto
    ultimately show ?thesis
      using c' c2 c1(4) by (intro exI [of _ c'] exI [of _ "pd # L"]) simp
  qed
qed

lemma free_unacked_spec:
  assumes inv: "conn_inv c"
  shows "\<exists>c' L. free_unacked c = Some c' \<and> conn_inv c' \<and> unacked c' = Map.empty
    \<and> w_head (c_outwnd c') = w_head (c_outwnd c) \<and> rx_part c' = rx_part c
    \<and> distinct L \<and> set L = ran (unacked c) \<and> c_log c' = c_log c @ map Pktdesc_free L"
  unfolding free_unacked_def wnd_head_def
  by (rule clear_next_unacked_spec [OF inv]) (simp_all add: wnd_seq_after_iff)

section \<open>The reset of the connection\<close>

lemma no_unacked_pkts:
  assumes "conn_inv c" "unacked c = Map.empty" "i < 256"
  shows "c_unacked_pkts c ! i = None"
proof (rule ccontr)
  assume "c_unacked_pkts c ! i \<noteq> None"
  then have "wnd_set (c_outwnd c) \<noteq> {}" using conn_invD(4) [OF assms(1,3)] by blast
  then show False using dom_unacked [OF assms(1)] assms(2) by simp
qed

lemma do_proto_reset_spec:
  assumes inv: "conn_inv c"
  shows "\<exists>c' L. do_proto_reset cfg c t sy = Some c' \<and> conn_inv c' \<and> unacked c' = Map.empty
    \<and> w_head (c_outwnd c') = base_seqno_from_timestamp t + FASTPASS_EGRESS_SEQNO_OFFSET cfg - 1
    \<and> c_in_max_seqno c' = base_seqno_from_timestamp t + FASTPASS_INGRESS_SEQNO_OFFSET cfg - 1
    \<and> c_inwnd c' = - 1 \<and> c_consecutive_bad_pkts c' = 0 \<and> c_last_reset_time c' = t \<and> c_in_sync c' = sy
    \<and> c_next_timeout_seqno c' = w_head (c_outwnd c') + 1
    \<and> c_next_skip_ack_seqno c' = w_head (c_outwnd c') + 1
    \<and> c_ops c' = c_ops c \<and> c_rst_win_ns c' = c_rst_win_ns c \<and> c_send_timeout c' = c_send_timeout c
    \<and> distinct L \<and> set L = ran (unacked c) \<and> c_log c' = c_log c @ map Pktdesc_free L"
proof -
  obtain c1 L where c1: "free_unacked c = Some c1" "conn_inv c1" "unacked c1 = Map.empty"
    "rx_part c1 = rx_part c" and L: "distinct L" "set L = ran (unacked c)"
    "c_log c1 = c_log c @ map Pktdesc_free L"
    using free_unacked_spec [OF inv] by blast
  let ?h = "base_seqno_from_timestamp t + FASTPASS_EGRESS_SEQNO_OFFSET cfg - 1"
  let ?w = "wnd_reset (c_outwnd c1) ?h"
  let ?c = "upd_stat (st_proto_resets_update (\<lambda>n. n + 1)) (c1\<lparr>c_last_reset_time := t, c_outwnd := ?w,
      c_in_max_seqno := base_seqno_from_timestamp t + FASTPASS_INGRESS_SEQNO_OFFSET cfg - 1,
      c_inwnd := - 1, c_consecutive_bad_pkts := 0, c_next_timeout_seqno := wnd_head ?w + 1,
      c_next_skip_ack_seqno := wnd_head ?w + 1, c_in_sync := sy\<rparr>)"
  note w = fpw.reset_ok [of "c_outwnd c1" ?h]
  have "do_proto_reset cfg c t sy = Some ?c"
    unfolding do_proto_reset_def Let_def c1(1) by simp
  moreover have "conn_inv ?c"
    using w conn_invD(2) [OF c1(2)] no_unacked_pkts [OF c1(2,3)]
    by (simp add: conn_inv_def upd_stat_def)
  moreover have "unacked ?c = Map.empty" using w by (simp add: unacked_def upd_stat_def fun_eq_iff)
  ultimately show ?thesis
    using L w c1(4)
    by (intro exI [of _ ?c] exI [of _ L]) (simp add: upd_stat_def wnd_head_def rx_part_def)
qed


section \<open>The decision on a RESET payload\<close>

text \<open>
  The state a reset to time \<open>t\<close> leads to: both sequence number spaces restart at the value
  derived from \<open>t\<close>, nothing is in flight, and every packet before the new start counts as
  received already.
\<close>

definition fresh_after_reset :: "proto_cfg \<Rightarrow> u64 \<Rightarrow> bool \<Rightarrow> fpproto_conn \<Rightarrow> bool" where
  "fresh_after_reset cfg t sy c \<longleftrightarrow>
     conn_inv c \<and> unacked c = Map.empty \<and> c_last_reset_time c = t \<and> c_in_sync c = sy
     \<and> w_head (c_outwnd c) = base_seqno_from_timestamp t + FASTPASS_EGRESS_SEQNO_OFFSET cfg - 1
     \<and> c_in_max_seqno c = base_seqno_from_timestamp t + FASTPASS_INGRESS_SEQNO_OFFSET cfg - 1
     \<and> c_inwnd c = - 1 \<and> c_consecutive_bad_pkts c = 0
     \<and> c_next_timeout_seqno c = w_head (c_outwnd c) + 1
     \<and> c_next_skip_ack_seqno c = w_head (c_outwnd c) + 1"

lemma fresh_emit [frame_simps]: "fresh_after_reset cfg t sy (emit e c) = fresh_after_reset cfg t sy c"
  "fresh_after_reset cfg t sy (emit_if b e c) = fresh_after_reset cfg t sy c"
  by (simp_all add: fresh_after_reset_def frame_simps)

lemma do_proto_reset_fresh:
  assumes "conn_inv c"
  shows "\<exists>c' L. do_proto_reset cfg c t sy = Some c' \<and> fresh_after_reset cfg t sy c' \<and> c_ops c' = c_ops c
    \<and> distinct L \<and> set L = ran (unacked c) \<and> c_log c' = c_log c @ map Pktdesc_free L"
  using do_proto_reset_spec [OF assms, of cfg t sy] unfolding fresh_after_reset_def by blast

text \<open>
  The decision table in front of \<open>reset_payload_handler\<close>: a RESET with the time of the last
  reset is redundant; otherwise, with a recent last reset, only a recent payload that is not
  older is accepted; with an old last reset, a recent payload is accepted and for an old one the
  receiver chooses its own current time. A reset that is applied frees every packet in flight
  exactly once and restarts both sequence number spaces from the chosen time; otherwise nothing
  in flight changes. The packet goes on exactly where its own timestamp was applied.
\<close>

lemma reset_payload_spec:
  fixes t now :: u64
  assumes inv: "conn_inv c"
  defines "last_recent \<equiv> tstamp_in_window (c_last_reset_time c) now (c_rst_win_ns c)"
    and "payload_recent \<equiv> tstamp_in_window t now (c_rst_win_ns c)"
  shows "\<exists>go c'. reset_payload_handler cfg c t now = Some (go, c') \<and>
    (if t = c_last_reset_time c then
       go \<and> conn_inv c' \<and> unacked c' = unacked c \<and> c_in_sync c' = is_endpoint cfg
       \<and> c_last_reset_time c' = c_last_reset_time c \<and> c_log c' = c_log c
     else if last_recent \<and> (payload_recent \<longrightarrow> time_before64 t (c_last_reset_time c)) then
       \<not> go \<and> conn_inv c' \<and> unacked c' = unacked c \<and> rx_part c' = rx_part c \<and> c_log c' = c_log c
     else (go \<longleftrightarrow> payload_recent)
       \<and> fresh_after_reset cfg (if payload_recent then t else now) (is_endpoint cfg) c'
       \<and> (\<exists>L. distinct L \<and> set L = ran (unacked c) \<and> c_log c' = c_log c @ map Pktdesc_free L
              @ (if has_handle_reset (c_ops c) then [Handle_reset] else [])))"
proof -
  define c0 where "c0 = upd_stat (st_reset_payloads_update (\<lambda>n. n + 1)) c"
  have c0: "c_last_reset_time c0 = c_last_reset_time c" "c_rst_win_ns c0 = c_rst_win_ns c"
    "c_in_sync c0 = c_in_sync c" "conn_inv c0" "unacked c0 = unacked c" "rx_part c0 = rx_part c" "c_log c0 = c_log c"
    using inv by (simp_all add: c0_def frame_simps)
  have acc: "\<exists>c'. do { conn \<leftarrow> do_proto_reset cfg (upd_stat f c0) u (is_endpoint cfg);
        Some (r, emit_if has_handle_reset Handle_reset conn) } = Some (r, c')
      \<and> fresh_after_reset cfg u (is_endpoint cfg) c'
      \<and> (\<exists>L. distinct L \<and> set L = ran (unacked c) \<and> c_log c' = c_log c @ map Pktdesc_free L
              @ (if has_handle_reset (c_ops c) then [Handle_reset] else []))" for f u and r :: bool
  proof -
    obtain c' L where c': "do_proto_reset cfg (upd_stat f c0) u (is_endpoint cfg) = Some c'"
      "fresh_after_reset cfg u (is_endpoint cfg) c'" "c_ops c' = c_ops c"
      "distinct L" "set L = ran (unacked c)" "c_log c' = c_log c @ map Pktdesc_free L"
      using do_proto_reset_fresh [of "upd_stat f c0" cfg u "is_endpoint cfg"] inv
      by (auto simp: c0_def frame_simps)
    then show ?thesis by (auto simp: frame_simps)
  qed
  note defs = reset_payload_handler_def Let_def c0_def [symmetric] last_recent_def payload_recent_def
  note stay = c0(4-7)
  show ?thesis
  proof (cases "t = c_last_reset_time c")
    case True
    then show ?thesis unfolding defs using stay by (auto simp: c0(1-3) frame_simps)
  next
    case new: False
    show ?thesis
    proof (cases "last_recent \<and> (payload_recent \<longrightarrow> time_before64 t (c_last_reset_time c))")
      case True
      then show ?thesis
        using new stay unfolding defs by (cases payload_recent) (auto simp: defs c0(1,2) frame_simps)
    next
      case False
      let ?f = "if last_recent then st_reset_both_recent_payload_wins_update (\<lambda>n. n + 1)
        else if payload_recent then st_reset_last_old_payload_recent_update (\<lambda>n. n + 1)
        else st_reset_both_old_update (\<lambda>n. n + 1)"
      have "reset_payload_handler cfg c t now = do {
          conn \<leftarrow> do_proto_reset cfg (upd_stat ?f c0) (if payload_recent then t else now) (is_endpoint cfg);
          Some (payload_recent, emit_if has_handle_reset Handle_reset conn) }"
        using False new unfolding defs by (simp add: defs c0(1,2))
      then show ?thesis
        using acc [of ?f "if payload_recent then t else now" payload_recent] new
        unfolding if_not_P [OF new] if_not_P [OF False] by (metis (no_types, lifting))
    qed
  qed
qed


section \<open>Bad packets\<close>

text \<open>
  A packet with a bad checksum: the connection leaves the synchronised state and always asks
  for an outgoing packet. The count of consecutive bad packets stays below the threshold; the
  packet that reaches it resets the connection to the current time unless the last reset lies
  within a second of it, and in all other cases the packets in flight and both windows stay.
\<close>

theorem got_bad_packet_correct:
  fixes now :: u64
  assumes inv: "conn_inv c" and bound: "c_consecutive_bad_pkts c < FASTPASS_BAD_PKT_RESET_THRESHOLD"
  defines "doReset \<equiv> c_consecutive_bad_pkts c = FASTPASS_BAD_PKT_RESET_THRESHOLD - 1 \<and>
     \<not> time_in_range64 (c_last_reset_time c) (now - FASTPASS_RESET_WINDOW_NS) (now + FASTPASS_RESET_WINDOW_NS)"
  shows "\<exists>c'. got_bad_packet cfg c now = Some c' \<and> conn_inv c' \<and> \<not> c_in_sync c'
    \<and> c_consecutive_bad_pkts c' < FASTPASS_BAD_PKT_RESET_THRESHOLD
    \<and> (has_trigger_request (c_ops c) \<longrightarrow> last (c_log c') = Trigger_request)
    \<and> (if doReset then fresh_after_reset cfg now False c'
       else unacked c' = unacked c \<and> c_inwnd c' = c_inwnd c \<and> c_in_max_seqno c' = c_in_max_seqno c
          \<and> c_last_reset_time c' = c_last_reset_time c)"
proof -
  let ?T = "FASTPASS_BAD_PKT_RESET_THRESHOLD"
  let ?n = "c_consecutive_bad_pkts c"
  have n: "?n + 1 < ?T \<longleftrightarrow> ?n \<noteq> ?T - 1" and lt: "?n < 10"
    using bound by (auto simp: FASTPASS_BAD_PKT_RESET_THRESHOLD_def word_less_nat_alt unat_eq_iff unat_word_ariths)
  show ?thesis
  proof (cases doReset)
    case True
    let ?c = "upd_stat (st_reset_from_bad_pkts_update (\<lambda>n. n + 1))
        (c\<lparr>c_in_sync := False, c_consecutive_bad_pkts := 0\<rparr>)"
    have "conn_inv ?c" using inv by (simp add: frame_simps)
    from do_proto_reset_fresh [OF this, of cfg now False] obtain c' where
      c': "do_proto_reset cfg ?c now False = Some c'" "fresh_after_reset cfg now False c'" "c_ops c' = c_ops c"
      by (auto simp: frame_simps)
    have "got_bad_packet cfg c now = Some (emit_if has_trigger_request Trigger_request
        (emit_if has_handle_reset Handle_reset c'))"
      using True c'(1) unfolding got_bad_packet_def doReset_def by (simp add: n)
    then show ?thesis
      using True c'(2,3)
      by (auto simp: frame_simps fresh_after_reset_def FASTPASS_BAD_PKT_RESET_THRESHOLD_def)
  next
    case False
    define c1 where "c1 = (if ?n + 1 < ?T then c\<lparr>c_in_sync := False, c_consecutive_bad_pkts := ?n + 1\<rparr>
      else upd_stat (st_no_reset_because_recent_update (\<lambda>n. n + 1))
        (c\<lparr>c_in_sync := False, c_consecutive_bad_pkts := 0\<rparr>))"
    have "got_bad_packet cfg c now = Some (emit_if has_trigger_request Trigger_request c1)"
      using False n unfolding got_bad_packet_def doReset_def c1_def by auto
    moreover have "conn_inv c1" "unacked c1 = unacked c" using inv by (simp_all add: c1_def frame_simps)
    moreover have "\<not> c_in_sync c1" "c_consecutive_bad_pkts c1 < ?T" "c_inwnd c1 = c_inwnd c"
      "c_in_max_seqno c1 = c_in_max_seqno c" "c_last_reset_time c1 = c_last_reset_time c" "c_ops c1 = c_ops c"
      by (auto simp: c1_def upd_stat_def FASTPASS_BAD_PKT_RESET_THRESHOLD_def)
    ultimately show ?thesis
      using False by (simp add: frame_simps)
  qed
qed


section \<open>Sending a packet\<close>

definition timer_event :: "op_event \<Rightarrow> bool" where
  "timer_event e \<longleftrightarrow> e = Cancel_timer \<or> (\<exists>t. e = Set_timer t)"

lemma in_wnd_edge: "in_wnd w (wnd_edge w)"
proof -
  have "w_head w - wnd_edge w = 191" by (simp add: wnd_edge_def FASTPASS_WND_LEN_def)
  then show ?thesis by (simp add: in_wnd_def wnd_back_def)
qed

lemma edge_marked_iff: "conn_inv c \<Longrightarrow> wnd_is_marked (c_outwnd c) (wnd_edge (c_outwnd c))
    \<longleftrightarrow> wnd_edge (c_outwnd c) \<in> dom (unacked c)"
  using wnd_is_marked_iff [OF conn_invD(1) in_wnd_edge] dom_unacked by simp

text \<open>The report on the packet that falls off the window, before it is removed.\<close>

lemma prepare_nack_part:
  assumes inv: "conn_inv c" and e: "unacked c e = Some pd"
  shows "\<exists>c' T. (if late then do {
          let conn = upd_stat (st_fall_off_outwnd_update (\<lambda>n. n + 1)) c;
          conn \<leftarrow> do_neg_ack_seqno conn e;
          recompute_and_reset_retrans_timer (conn\<lparr>c_next_timeout_seqno := e + 1\<rparr>) } else Some c) = Some c'
    \<and> conn_inv c' \<and> unacked c' = unacked c \<and> c_outwnd c' = c_outwnd c \<and> rx_part c' = rx_part c
    \<and> list_all timer_event T
    \<and> c_log c' = c_log c @ (if late then nack_events (c_ops c) pd @ T else [])
    \<and> c_next_timeout_seqno c' = (if late then next_timeout (c_outwnd c) (e + 1) else c_next_timeout_seqno c)"
proof (cases late)
  case True
  let ?c1 = "upd_stat (st_fall_off_outwnd_update (\<lambda>n. n + 1)) c"
  let ?c2 = "(emit_if has_handle_neg_ack (Handle_neg_ack pd) ?c1)\<lparr>c_next_timeout_seqno := e + 1\<rparr>"
  have pk: "outwnd_peek ?c1 e = Some pd" using e by (simp add: unacked_def frame_simps split: if_splits)
  have c2: "conn_inv ?c2" "unacked ?c2 = unacked c" "c_outwnd ?c2 = c_outwnd c" "rx_part ?c2 = rx_part c"
    "c_log ?c2 = c_log c @ nack_events (c_ops c) pd"
    using inv by (simp_all add: frame_simps nack_events_def)
  from recompute_spec [OF c2(1)] obtain c3 T where
    "recompute_and_reset_retrans_timer ?c2 = Some c3" "conn_inv c3" "unacked c3 = unacked ?c2"
    "c_outwnd c3 = c_outwnd ?c2" "rx_part c3 = rx_part ?c2" "c_log c3 = c_log ?c2 @ T" "list_all timer_event T"
    "c_next_timeout_seqno c3 = next_timeout (c_outwnd c) (e + 1)"
    by (auto simp: timer_event_def next_timeout_def frame_simps split: list.split)
  then show ?thesis
    using True c2 pk by (intro exI [of _ c3] exI [of _ T]) (simp add: do_neg_ack_seqno_def)
qed (use inv in \<open>auto intro!: exI [of _ "[]"]\<close>)

lemma prepare_spec:
  assumes inv: "conn_inv c"
  defines "e \<equiv> wnd_edge (c_outwnd c)"
  shows "\<exists>c' T. fpproto_prepare_to_send c = Some c' \<and> conn_inv c' \<and> unacked c' = (unacked c)(e := None)
    \<and> w_head (c_outwnd c') = w_head (c_outwnd c) \<and> rx_part c' = rx_part c \<and> list_all timer_event T
    \<and> c_log c' = c_log c @ (case unacked c e of None \<Rightarrow> []
        | Some pd \<Rightarrow> (if time_after_eq64 e (c_next_timeout_seqno c) then nack_events (c_ops c) pd @ T else [])
            @ [Pktdesc_free pd])
    \<and> c_next_timeout_seqno c' = (if unacked c e \<noteq> None \<and> time_after_eq64 e (c_next_timeout_seqno c)
        then next_timeout (c_outwnd c) (e + 1) else c_next_timeout_seqno c)"
proof (cases "unacked c e")
  case None
  then have "\<not> wnd_is_marked (c_outwnd c) e" using edge_marked_iff [OF inv] by (auto simp: e_def)
  then have "fpproto_prepare_to_send c = Some c" by (simp add: fpproto_prepare_to_send_def e_def [symmetric])
  then show ?thesis using None inv by (auto intro!: exI [of _ "[]"])
next
  case (Some pd)
  let ?c = "upd_stat (st_never_acked_pkts_update (\<lambda>n. n + 1)) c"
  let ?late = "time_after_eq64 e (c_next_timeout_seqno c)"
  have m: "wnd_is_marked (c_outwnd c) e" using Some edge_marked_iff [OF inv] by (auto simp: e_def)
  from prepare_nack_part [of ?c e pd ?late, unfolded frame_simps, OF inv Some] obtain c1 T where
    c1: "(if ?late then do {
          let conn = upd_stat (st_fall_off_outwnd_update (\<lambda>n. n + 1)) ?c;
          conn \<leftarrow> do_neg_ack_seqno conn e;
          recompute_and_reset_retrans_timer (conn\<lparr>c_next_timeout_seqno := e + 1\<rparr>) } else Some ?c) = Some c1"
    "conn_inv c1" "unacked c1 = unacked c" "c_outwnd c1 = c_outwnd c" "rx_part c1 = rx_part c"
    and T: "list_all timer_event T" "c_log c1 = c_log c @ (if ?late then nack_events (c_ops c) pd @ T else [])"
      "c_next_timeout_seqno c1 = (if ?late then next_timeout (c_outwnd c) (e + 1) else c_next_timeout_seqno c)"
    by blast
  from outwnd_pop_spec [OF c1(2), of e pd] c1(3) Some obtain c2 where
    c2: "outwnd_pop c1 e = Some (Some pd, c2)" "conn_inv c2" "unacked c2 = (unacked c)(e := None)"
    "w_head (c_outwnd c2) = w_head (c_outwnd c)"
    and eq: "c2 = c1\<lparr>c_outwnd := c_outwnd c2, c_unacked_pkts := c_unacked_pkts c2\<rparr>"
    using c1(4) by auto
  have fr: "rx_part c2 = rx_part c1" "c_log c2 = c_log c1" "c_next_timeout_seqno c2 = c_next_timeout_seqno c1"
    by (subst eq, simp add: frame_simps)+
  have "fpproto_prepare_to_send c = Some (emit (Pktdesc_free pd) c2)"
    using m c1(1) c2(1)
    unfolding fpproto_prepare_to_send_def Let_def e_def [symmetric] by (simp add: frame_simps pktdesc_free_def)
  then show ?thesis
    using Some c1 c2 fr T by (intro exI [of _ "emit (Pktdesc_free pd) c2"] exI [of _ T]) (simp add: frame_simps)
qed

lemma commit_spec:
  assumes inv: "conn_inv c" and top: "w_head (c_outwnd c) \<noteq> - 1"
    and edge: "wnd_edge (c_outwnd c) \<notin> dom (unacked c)"
  defines "h \<equiv> w_head (c_outwnd c) + 1"
  shows "\<exists>c' pd' T. fpproto_commit_packet c pd ts = Some (c', pd') \<and> conn_inv c'
    \<and> w_head (c_outwnd c') = h \<and> unacked c' = (unacked c)(h \<mapsto> pd') \<and> rx_part c' = rx_part c
    \<and> pd_seqno pd' = h \<and> pd_sent_timestamp pd' = ts \<and> pd_ack_seq pd' = c_in_max_seqno c
    \<and> pd_send_reset pd' = (\<not> c_in_sync c) \<and> pd_reset_timestamp pd' = c_last_reset_time c
    \<and> list_all timer_event T \<and> c_log c' = c_log c @ T
    \<and> c_next_timeout_seqno c' = next_timeout (c_outwnd c') (c_next_timeout_seqno c)"
proof -
  define pd' where "pd' = pd\<lparr>pd_sent_timestamp := ts, pd_seqno := wnd_head (c_outwnd c) + 1,
      pd_send_reset := \<not> c_in_sync c, pd_reset_timestamp := c_last_reset_time c,
      pd_ack_seq := c_in_max_seqno c, pd_ack_vec := ucast (drop_bit 48 (c_inwnd c) AND 0x7FFF)
        OR push_bit 15 (of_bool (c_inwnd c AND drop_bit 16 (- 1) = drop_bit 16 (- 1)))\<rparr>"
  have sq: "pd_seqno pd' = w_head (c_outwnd c) + 1" by (simp add: pd'_def wnd_head_def)
  from outwnd_add_spec [OF inv top edge sq] obtain c2 where
    c2: "outwnd_add c pd' = Some c2" "conn_inv c2" "unacked c2 = (unacked c)(h \<mapsto> pd')"
    "w_head (c_outwnd c2) = h"
    and eq: "c2 = c\<lparr>c_outwnd := c_outwnd c2, c_unacked_pkts := c_unacked_pkts c2\<rparr>"
    using h_def by auto
  have fr2: "c_log c2 = c_log c" "rx_part c2 = rx_part c" "c_next_timeout_seqno c2 = c_next_timeout_seqno c"
    by (subst eq, simp add: frame_simps)+
  have "conn_inv (upd_stat (st_committed_pkts_update (\<lambda>n. n + 1)) c2)" using c2(2) by (simp add: frame_simps)
  from recompute_spec [OF this] obtain c3 T where
    c3: "recompute_and_reset_retrans_timer (upd_stat (st_committed_pkts_update (\<lambda>n. n + 1)) c2) = Some c3"
    "conn_inv c3" "unacked c3 = unacked c2" "c_outwnd c3 = c_outwnd c2" "c_log c3 = c_log c2 @ T"
    "rx_part c3 = rx_part c2" "list_all timer_event T" "c_next_timeout_seqno c3 = next_timeout (c_outwnd c2) (c_next_timeout_seqno c2)"
    by (auto simp: timer_event_def next_timeout_def frame_simps split: list.split)
  have "fpproto_commit_packet c pd ts = Some (c3, pd')"
    unfolding fpproto_commit_packet_def Let_def pd'_def [symmetric] using c2(1) c3(1) by simp
  moreover have "pd_seqno pd' = h \<and> pd_sent_timestamp pd' = ts \<and> pd_ack_seq pd' = c_in_max_seqno c
    \<and> pd_send_reset pd' = (\<not> c_in_sync c) \<and> pd_reset_timestamp pd' = c_last_reset_time c"
    by (simp add: pd'_def h_def wnd_head_def)
  ultimately show ?thesis
    using c2 c3 fr2 by (intro exI [of _ c3] exI [of _ pd'] exI [of _ T]) simp
qed

lemma commit_fields:
  assumes "fpproto_commit_packet c pd ts = Some (c', pd')"
  shows "pd_n_areq pd' = pd_n_areq pd" "pd_areq pd' = pd_areq pd" "pd_alloc_tslot pd' = pd_alloc_tslot pd"
    "pd_used_alloc_tslot pd' = pd_used_alloc_tslot pd" "pd_base_tslot pd' = pd_base_tslot pd" "pd_n_dsts pd' = pd_n_dsts pd"
    "pd_dsts pd' = pd_dsts pd" "pd_tslot_desc pd' = pd_tslot_desc pd"
  using assms by (auto simp: fpproto_commit_packet_def Let_def bind_eq_Some_conv)

text \<open>
  C24. Sending a packet, \<open>fpproto_prepare_to_send\<close> followed by \<open>fpproto_commit_packet\<close>: no
  assertion fires; the packet gets the next sequence number and the acknowledgement state of the
  receive window, and it is in flight afterwards. The only packet that leaves is the one at the
  edge of the window: it is freed, and reported as lost unless its timeout has been reported.
\<close>

theorem send_packet_correct:
  assumes inv: "conn_inv c" and top: "w_head (c_outwnd c) \<noteq> - 1"
  defines "e \<equiv> wnd_edge (c_outwnd c)" and "h \<equiv> w_head (c_outwnd c) + 1"
  shows "\<exists>c1 c2 pd'. fpproto_prepare_to_send c = Some c1 \<and> fpproto_commit_packet c1 pd ts = Some (c2, pd')
    \<and> conn_inv c2 \<and> w_head (c_outwnd c2) = h \<and> unacked c2 = ((unacked c)(e := None))(h \<mapsto> pd')
    \<and> pd_seqno pd' = h \<and> pd_sent_timestamp pd' = ts \<and> pd_ack_seq pd' = c_in_max_seqno c
    \<and> pd_send_reset pd' = (\<not> c_in_sync c) \<and> pd_reset_timestamp pd' = c_last_reset_time c
    \<and> (\<exists>T U. list_all timer_event T \<and> list_all timer_event U \<and> c_log c2 = c_log c
         @ (case unacked c e of None \<Rightarrow> []
            | Some p \<Rightarrow> (if time_after_eq64 e (c_next_timeout_seqno c) then nack_events (c_ops c) p @ T else [])
                @ [Pktdesc_free p]) @ U)"
proof -
  from prepare_spec [OF inv, folded e_def] obtain c1 T where
    c1: "fpproto_prepare_to_send c = Some c1" "conn_inv c1" "unacked c1 = (unacked c)(e := None)"
    "w_head (c_outwnd c1) = w_head (c_outwnd c)" "rx_part c1 = rx_part c"
    and T: "list_all timer_event T" "c_log c1 = c_log c @ (case unacked c e of None \<Rightarrow> []
        | Some pd \<Rightarrow> (if time_after_eq64 e (c_next_timeout_seqno c) then nack_events (c_ops c) pd @ T else [])
            @ [Pktdesc_free pd])" by blast
  have "wnd_edge (c_outwnd c1) \<notin> dom (unacked c1)" "w_head (c_outwnd c1) \<noteq> - 1"
    using c1(3,4) top by (simp_all add: e_def wnd_edge_def)
  from commit_spec [OF c1(2) this(2,1), of pd ts] obtain c2 pd' U where
    "fpproto_commit_packet c1 pd ts = Some (c2, pd')" "conn_inv c2"
    "w_head (c_outwnd c2) = h" "unacked c2 = (unacked c1)(h \<mapsto> pd')"
    "pd_seqno pd' = h \<and> pd_sent_timestamp pd' = ts \<and> pd_ack_seq pd' = c_in_max_seqno c1
    \<and> pd_send_reset pd' = (\<not> c_in_sync c1) \<and> pd_reset_timestamp pd' = c_last_reset_time c1"
    "list_all timer_event U" "c_log c2 = c_log c1 @ U" using c1(4) h_def by auto
  moreover have "c_in_max_seqno c1 = c_in_max_seqno c" "c_in_sync c1 = c_in_sync c"
    "c_last_reset_time c1 = c_last_reset_time c" using c1(5) by (simp_all add: rx_part_def)
  ultimately show ?thesis
    using c1 T by (intro exI [of _ c1] exI [of _ c2] exI [of _ pd'] conjI exI [of _ T] exI [of _ U]) simp_all
qed

end
