(* ===== verification/Proto_Inwnd.thy ===== *)
theory Proto_Inwnd
  imports Proto_Reset
begin

text \<open>
  The window of received packets (\<open>update_inwnd\<close>, \<open>at_most_once_may_accept\<close>) against an
  unbounded specification: the receiver that remembers every sequence number it accepted. The
  64-bit counters are related to unbounded ones through an origin \<open>b\<close>; they agree as long as
  less than \<open>2 ^ 62\<close> packets lie between the origin and the packets considered.
\<close>

section \<open>Counters relative to an origin\<close>

lemma unat_rel_diff:
  assumes "x < 2 ^ 63" "y < 2 ^ 63"
  shows "unat ((b + of_nat x) - (b + of_nat y) :: u64) = (if y \<le> x then x - y else 2 ^ 64 - (y - x))"
proof (cases "y \<le> x")
  case True
  then have eq: "(b + of_nat x) - (b + of_nat y) = (of_nat (x - y) :: u64)" by simp
  show ?thesis
    unfolding eq using True assms unat_of_nat_u64 [of "x - y"] by (simp del: of_nat_diff)
next
  case False
  then have eq: "(b + of_nat x) - (b + of_nat y) = 0 - (of_nat (y - x) :: u64)" by simp
  have u: "unat (of_nat (y - x) :: u64) = y - x" using assms by (intro unat_of_nat_u64) simp
  show ?thesis
    unfolding eq using False u unat_sub_if_size [of 0 "of_nat (y - x) :: u64"]
    by (simp add: word_size del: of_nat_diff diff_0)
qed

lemma of_nat_add_u64: "(b + of_nat x + of_nat y :: u64) = b + of_nat (x + y)"
  by simp

lemma rel_cmp:
  assumes "M < 2 ^ 62" "d < 2 ^ 62"
  shows "time_after_eq64 (b + of_nat d) (b + of_nat M + 64) \<longleftrightarrow> M + 64 \<le> d"
    and "time_after64 (b + of_nat d) (b + of_nat M) \<longleftrightarrow> M < d"
    and "64 \<le> M \<Longrightarrow> time_before_eq64 (b + of_nat d) (b + of_nat M - 64) \<longleftrightarrow> d + 64 \<le> M"
proof -
  show "time_after_eq64 (b + of_nat d) (b + of_nat M + 64) \<longleftrightarrow> M + 64 \<le> d"
    using unat_rel_diff [of d "M + 64" b] assms by (auto simp: time_cmp add.assoc)
  show "time_after64 (b + of_nat d) (b + of_nat M) \<longleftrightarrow> M < d"
    using unat_rel_diff [of M d b] assms by (auto simp: time_cmp)
  assume "64 \<le> M"
  then obtain X where X: "M = X + 64" by (metis le_add_diff_inverse2)
  have "time_before_eq64 (b + of_nat d) (b + of_nat X) \<longleftrightarrow> d \<le> X"
    using unat_rel_diff [of X d b] assms X by (auto simp: time_cmp)
  then show "time_before_eq64 (b + of_nat d) (b + of_nat M - 64) \<longleftrightarrow> d + 64 \<le> M"
    by (simp add: X add.assoc)
qed

section \<open>One packet\<close>

text \<open>The specification: newest number accepted so far, and all numbers accepted so far.\<close>

definition rcv_ok :: "nat \<Rightarrow> nat set \<Rightarrow> nat \<Rightarrow> bool" where
  "rcv_ok M R d \<longleftrightarrow> M < d \<or> (M < d + 64 \<and> d \<notin> R)"

definition inwnd_rel :: "u64 \<Rightarrow> nat \<Rightarrow> nat set \<Rightarrow> fpproto_conn \<Rightarrow> bool" where
  "inwnd_rel b M R c \<longleftrightarrow>
     c_in_max_seqno c = b + of_nat M \<and> 64 \<le> M \<and> M < 2 ^ 62 \<and> (\<forall>d \<in> R. d \<le> M) \<and>
     (\<forall>k < 64. bit (c_inwnd c) (63 - k) \<longleftrightarrow> M - k \<in> R)"

lemma and_single_eq_0: "(x AND push_bit k 1 = (0 :: u64)) \<longleftrightarrow> \<not> bit x k"
proof
  assume *: "x AND push_bit k 1 = 0"
  show "\<not> bit x k"
  proof
    assume b: "bit x k"
    then have "k < 64" using bit_imp_le_length by fastforce
    then have "bit (x AND push_bit k 1) k" using b by (simp add: bit_and_iff bit_single del: push_bit_of_1)
    then show False using * by simp
  qed
next
  assume "\<not> bit x k"
  then show "x AND push_bit k 1 = 0"
    by (intro bit_word_eqI) (auto simp: bit_and_iff bit_single simp del: push_bit_of_1)
qed

lemma rel_offset:
  assumes "d \<le> M" "M < d + 64" "M < 2 ^ 62"
  shows "unat (63 - ((b + of_nat M) - (b + of_nat d)) :: u64) = 63 - (M - d)"
proof -
  have "(b + of_nat M) - (b + of_nat d) = (of_nat (M - d) :: u64)" using assms by (simp add: of_nat_diff)
  moreover have "63 - of_nat (M - d) = (of_nat (63 - (M - d)) :: u64)" using assms by (simp add: of_nat_diff)
  ultimately show ?thesis by (simp only:) (simp add: unat_of_nat)
qed

lemma may_accept_rel:
  assumes "inwnd_rel b M R c" "d < 2 ^ 62"
  shows "at_most_once_may_accept c (b + of_nat d) \<longleftrightarrow> rcv_ok M R d"
proof -
  note r = assms(1)[unfolded inwnd_rel_def]
  note cmp = rel_cmp [of M d b]
  show ?thesis
  proof (cases "d \<le> M \<and> M < d + 64")
    case True
    then have "unat (63 - ((b + of_nat M) - (b + of_nat d)) :: u64) = 63 - (M - d)"
      using r by (intro rel_offset) auto
    moreover from r have "M - d < 64 \<longrightarrow> bit (c_inwnd c) (63 - (M - d)) = (M - (M - d) \<in> R)" by blast
    ultimately show ?thesis
      using True r cmp assms(2)
      unfolding at_most_once_may_accept_def Let_def
      by (auto simp: rcv_ok_def and_single_eq_0 simp del: push_bit_of_1)
  next
    case False
    then show ?thesis
      using r cmp assms(2) unfolding at_most_once_may_accept_def Let_def by (auto simp: rcv_ok_def)
  qed
qed

lemma update_inwnd_rel:
  assumes rel: "inwnd_rel b M R c" and d: "d < 2 ^ 62"
  shows "\<exists>c'. update_inwnd c (b + of_nat d) = (rcv_ok M R d, c')
    \<and> (if rcv_ok M R d then inwnd_rel b (max M d) (insert d R) c' else inwnd_rel b M R c')
    \<and> c_outwnd c' = c_outwnd c \<and> c_unacked_pkts c' = c_unacked_pkts c \<and> c_log c' = c_log c"
proof -
  note r = rel[unfolded inwnd_rel_def]
  have M: "M < 2 ^ 62" and mx: "c_in_max_seqno c = b + of_nat M" and M64: "64 \<le> M" using r by auto
  note cmp = rel_cmp [OF M d, of b] rel_cmp(3) [OF M d M64, of b]
  have le: "e \<le> M" if "e \<in> R" for e using r that by auto
  have bits: "bit (c_inwnd c) (63 - k) \<longleftrightarrow> M - k \<in> R" if "k < 64" for k using r that by auto
  consider (jump) "M + 64 \<le> d" | (new) "M < d" "d < M + 64" | (old) "d + 64 \<le> M" | (inside) "d \<le> M" "M < d + 64"
    by linarith
  then show ?thesis
  proof cases
    case jump
    then have "bit (push_bit 63 1 :: u64) (63 - k) \<longleftrightarrow> d - k \<in> insert d R" if "k < 64" for k
      using that le [of "d - k"] by (auto simp: bit_single simp del: push_bit_of_1)
    moreover have "\<forall>e \<in> R. e \<le> d" using le jump by fastforce
    ultimately show ?thesis
      using jump cmp d M64 unfolding update_inwnd_def Let_def mx
      by (auto simp: rcv_ok_def inwnd_rel_def max_def frame_simps simp del: push_bit_of_1)
  next
    case new
    have sh: "unat ((b + of_nat d) - (b + of_nat M) :: u64) = d - M"
      using unat_rel_diff [of d M b] new M d by simp
    have "bit (drop_bit (d - M) (c_inwnd c) OR push_bit 63 1) (63 - k) \<longleftrightarrow> d - k \<in> insert d R" if k: "k < 64" for k
    proof (cases "d - M \<le> k")
      case True
      then have "d - M + (63 - k) = 63 - (k - (d - M))" "M - (k - (d - M)) = d - k" using k new by simp_all
      then show ?thesis
        using bits [of "k - (d - M)"] k True new
        by (auto simp: bit_or_iff bit_drop_bit_eq bit_single simp del: push_bit_of_1)
    next
      case False
      have "\<not> bit (c_inwnd c) (d - M + (63 - k))"
        using False bit_imp_le_length [of "c_inwnd c" "d - M + (63 - k)"] k by auto
      then show ?thesis
        using False le [of "d - k"] k new
        by (auto simp: bit_or_iff bit_drop_bit_eq bit_single simp del: push_bit_of_1)
    qed
    moreover have "\<forall>e \<in> R. e \<le> d" using le new by fastforce
    ultimately show ?thesis
      using new cmp d M64 unfolding update_inwnd_def Let_def mx sh
      by (auto simp: rcv_ok_def inwnd_rel_def max_def sh simp del: push_bit_of_1)
  next
    case old
    then show ?thesis
      using cmp rel unfolding update_inwnd_def Let_def mx
      by (simp add: rcv_ok_def) (simp add: inwnd_rel_def frame_simps)
  next
    case inside
    note of = rel_offset [OF inside M, of b]
    have bd: "bit (c_inwnd c) (63 - (M - d)) \<longleftrightarrow> d \<in> R" using bits [of "M - d"] inside by simp
    have "bit (c_inwnd c OR push_bit (63 - (M - d)) 1) (63 - k) \<longleftrightarrow> M - k \<in> insert d R" if k: "k < 64" for k
    proof -
      have "63 - k = 63 - (M - d) \<longleftrightarrow> M - k = d" using inside k M64 by auto
      then show ?thesis
        using bits [OF k] inside by (auto simp: bit_or_iff bit_single simp del: push_bit_of_1)
    qed
    then show ?thesis
      using inside cmp rel bd unfolding update_inwnd_def Let_def mx of
      by (auto simp: rcv_ok_def inwnd_rel_def and_single_eq_0 max_def frame_simps upd_stat_def simp del: push_bit_of_1)
  qed
qed


section \<open>Runs\<close>

text \<open>
  The receiver as the arbiter and the end node use it: for every packet, in the order of
  arrival, ask \<open>at_most_once_may_accept\<close>, and record the packet when it is accepted.
\<close>

fun rx_run :: "fpproto_conn \<Rightarrow> u64 list \<Rightarrow> u64 list \<times> fpproto_conn" where
  "rx_run c [] = ([], c)"
| "rx_run c (s # ss) =
     (if at_most_once_may_accept c s
      then let (acc, c') = rx_run (snd (update_inwnd c s)) ss in (s # acc, c')
      else rx_run c ss)"

fun rcv_run :: "nat \<Rightarrow> nat set \<Rightarrow> nat list \<Rightarrow> nat list" where
  "rcv_run M R [] = []"
| "rcv_run M R (d # ds) =
     (if rcv_ok M R d then d # rcv_run (max M d) (insert d R) ds else rcv_run M R ds)"

lemma rcv_run_distinct:
  "(\<forall>e \<in> R. e \<le> M) \<Longrightarrow> distinct (rcv_run M R ds) \<and> set (rcv_run M R ds) \<inter> R = {}"
proof (induction M R ds rule: rcv_run.induct)
  case (2 M R d ds)
  show ?case
  proof (cases "rcv_ok M R d")
    case True
    then have "d \<notin> R" using 2(3) by (auto simp: rcv_ok_def)
    moreover have "\<forall>e \<in> insert d R. e \<le> max M d" using 2(3) by auto
    ultimately show ?thesis using True 2(1) by auto
  qed (use 2 in simp)
qed simp

lemma rx_run_refines:
  assumes "inwnd_rel b M R c" and "\<forall>d \<in> set ds. d < 2 ^ 62"
  shows "fst (rx_run c (map (\<lambda>d. b + of_nat d) ds)) = map (\<lambda>d. b + of_nat d) (rcv_run M R ds)"
  using assms
proof (induction ds arbitrary: c M R)
  case (Cons d ds)
  have d: "d < 2 ^ 62" using Cons.prems(2) by simp
  note ok = may_accept_rel [OF Cons.prems(1) d]
  obtain c' where u: "update_inwnd c (b + of_nat d) = (rcv_ok M R d, c')"
    and r: "if rcv_ok M R d then inwnd_rel b (max M d) (insert d R) c' else inwnd_rel b M R c'"
    using update_inwnd_rel [OF Cons.prems(1) d] by blast
  show ?case
    using Cons.IH [of "max M d" "insert d R" c'] Cons.IH [OF Cons.prems(1)] ok u r Cons.prems(2)
    by (auto split: prod.splits)
qed simp

lemma fresh_inwnd_rel:
  assumes "c_inwnd c = - 1" and "c_in_max_seqno c = b + 64"
  shows "inwnd_rel b 64 {1..64} c"
  using assms by (auto simp: inwnd_rel_def)

lemma of_nat_inj_62:
  "x < 2 ^ 62 \<Longrightarrow> y < 2 ^ 62 \<Longrightarrow> (b + of_nat x = (b + of_nat y :: u64)) \<longleftrightarrow> x = y"
proof -
  assume "x < 2 ^ 62" "y < 2 ^ 62"
  then have "unat (of_nat x :: u64) = x" "unat (of_nat y :: u64) = y" by (simp_all add: unat_of_nat)
  then show ?thesis by (metis add_left_cancel)
qed


end
