(* ===== verification/Proto_Codec.thy ===== *)
theory Proto_Codec
  imports Proto_Inwnd
begin

text \<open>
  The wire format: \<open>fpproto_handle_rx_packet\<close>, \<open>fpproto_perform_rx_callbacks\<close> and
  \<open>fpproto_encode_packet\<close> of \<^verbatim>\<open>fpproto.c\<close>. A packet is the list of its bytes; pointers into it
  are offsets and \<open>data_end\<close> is its length. The result \<open>None\<close> stands, besides a failed
  assertion, for a read behind the end of the packet.
\<close>

section \<open>Bytes\<close>

definition rd_be16 :: "u8 list \<Rightarrow> nat \<Rightarrow> u16" where
  "rd_be16 p i = push_bit 8 (ucast (p ! i)) OR ucast (p ! (i + 1))"

definition rd_be32 :: "u8 list \<Rightarrow> nat \<Rightarrow> u32" where
  "rd_be32 p i = push_bit 16 (ucast (rd_be16 p i)) OR ucast (rd_be16 p (i + 2))"

definition put_be16 :: "u16 \<Rightarrow> u8 list" where
  "put_be16 x = [ucast (drop_bit 8 x), ucast x]"

definition put_be32 :: "u32 \<Rightarrow> u8 list" where
  "put_be32 x = put_be16 (ucast (drop_bit 16 x)) @ put_be16 (ucast x)"

text \<open>The checksum field is read and written in host byte order.\<close>

definition rd_checksum :: "u8 list \<Rightarrow> u16" where
  "rd_checksum p = push_bit 8 (ucast (p ! 7)) OR ucast (p ! 6)"

definition set_checksum :: "u16 \<Rightarrow> u8 list \<Rightarrow> u8 list" where
  "set_checksum x p = p[6 := ucast x, 7 := ucast (drop_bit 8 x)]"

section \<open>Payload types\<close>

definition FASTPASS_PTYPE_PADDING :: nat where "FASTPASS_PTYPE_PADDING = 0"
definition FASTPASS_PTYPE_RESET :: nat where "FASTPASS_PTYPE_RESET = 1"
definition FASTPASS_PTYPE_AREQ :: nat where "FASTPASS_PTYPE_AREQ = 2"
definition FASTPASS_PTYPE_ALLOC :: nat where "FASTPASS_PTYPE_ALLOC = 3"
definition FASTPASS_PTYPE_ACK :: nat where "FASTPASS_PTYPE_ACK = 4"
definition FASTPASS_PTYPE_EMU_ALLOC :: nat where "FASTPASS_PTYPE_EMU_ALLOC = 5"
definition FASTPASS_PTYPE_EMU_AREQ :: nat where "FASTPASS_PTYPE_EMU_AREQ = 6"

lemmas ptypes = FASTPASS_PTYPE_PADDING_def FASTPASS_PTYPE_RESET_def FASTPASS_PTYPE_AREQ_def
  FASTPASS_PTYPE_ALLOC_def FASTPASS_PTYPE_ACK_def FASTPASS_PTYPE_EMU_ALLOC_def FASTPASS_PTYPE_EMU_AREQ_def

definition payload_type :: "u8 list \<Rightarrow> nat \<Rightarrow> nat" where
  "payload_type pkt curp = unat (drop_bit 4 (pkt ! curp))"

section \<open>ALLOC and A-REQ payloads\<close>

text \<open>The first component is \<open>Some\<close> of the payload length, or \<open>None\<close> for the result -1.\<close>

definition process_alloc :: "fpproto_conn \<Rightarrow> u8 list \<Rightarrow> nat \<Rightarrow> nat option \<times> fpproto_conn" where
  "process_alloc conn pkt curp =
     (let data_end = length pkt;
          incomplete = (None, upd_stat (st_rx_incomplete_alloc_update (\<lambda>n. n + 1)) conn)
      in if curp + 2 > data_end then incomplete
         else
           let ptype = rd_be16 pkt curp;
               alloc_n_dst = unat (drop_bit 8 ptype AND 0xF);
               alloc_n_tslots = 2 * unat (ptype AND 0x3F);
               tslot_bytes = alloc_n_tslots * alloc_bytes_per_tslot (c_ops conn);
               curp = curp + 2
           in if curp + 4 + 2 * alloc_n_dst + tslot_bytes > data_end then incomplete
              else
                let alloc_base_tslot = push_bit 4 (ucast (rd_be16 pkt curp));
                    curp = curp + 2;
                    alloc_dst = map (\<lambda>i. rd_be16 pkt (curp + 2 * i)) [0..<alloc_n_dst];
                    curp = curp + 2 * alloc_n_dst
                in (Some (4 + 2 * alloc_n_dst + tslot_bytes),
                    emit_if has_handle_alloc
                      (Handle_alloc alloc_base_tslot alloc_dst (drop curp pkt) alloc_n_tslots) conn))"

text \<open>
  In the arbiter with emulation, the request data counts behind the requests are summed in a
  \<open>u16\<close>; the code does not check that they lie inside the packet.
\<close>

definition process_areq :: "proto_cfg \<Rightarrow> fpproto_conn \<Rightarrow> u8 list \<Rightarrow> nat \<Rightarrow> (nat option \<times> fpproto_conn) option" where
  "process_areq cfg conn pkt data =
     (let data_end = length pkt;
          incomplete = (None, upd_stat (st_rx_incomplete_areq_update (\<lambda>n. n + 1)) conn)
      in if data + 2 > data_end then Some incomplete
         else
           let ptype = rd_be16 pkt data;
               n_dst = unat (ptype AND 0x3F);
               curp = data + 2
           in if curp + 4 * n_dst > data_end then Some incomplete
              else
                let conn = emit_if has_handle_areq (Handle_areq (drop curp pkt) n_dst) conn;
                    curp = curp + 4 * n_dst
                in if emulation cfg \<and> \<not> is_endpoint cfg \<and> 0 < req_data_bytes cfg then
                     (if curp + n_dst > data_end then None
                      else
                        let n_req_data = sum_list (map ucast (take n_dst (drop curp pkt))) :: u16;
                            curp = curp + n_dst;
                            curp = (if odd n_dst then curp + 1 else curp);
                            curp = curp + unat (req_data_bytes cfg) * unat n_req_data
                        in Some (Some (curp - data), conn))
                   else Some (Some (curp - data), conn))"

section \<open>Reception\<close>

text \<open>
  The full 64-bit sequence numbers of a packet and, for a RESET, its timestamp. \<open>None\<close> is the
  jump to \<open>incomplete_reset_payload\<close>.
\<close>

definition rx_seqnos :: "proto_cfg \<Rightarrow> fpproto_conn \<Rightarrow> u8 list \<Rightarrow> nat \<Rightarrow> u64 \<Rightarrow> (u64 \<times> u64 \<times> u64) option" where
  "rx_seqnos cfg conn pkt ptype now =
     (let finish = (\<lambda>(in_seq, ack_seq, rst_tstamp).
            (in_seq + ((ucast (rd_be16 pkt 0) - in_seq) AND 0xFFFF),
             ack_seq + ((ucast (rd_be16 pkt 2) - ack_seq) AND 0xFFFF), rst_tstamp))
      in if ptype = FASTPASS_PTYPE_RESET then
           (if 8 + 8 > length pkt then None
            else
              let partial_tstamp = push_bit 32 (ucast (rd_be32 pkt 8 AND (push_bit 24 1 - 1)))
                                   OR ucast (rd_be32 pkt 12);
                  rst_tstamp = now - push_bit 55 1;
                  rst_tstamp = rst_tstamp + ((partial_tstamp - rst_tstamp) AND (push_bit 56 1 - 1));
                  base_seqno = base_seqno_from_timestamp rst_tstamp
              in Some (finish (base_seqno + FASTPASS_INGRESS_SEQNO_OFFSET cfg,
                               base_seqno + FASTPASS_EGRESS_SEQNO_OFFSET cfg - 1, rst_tstamp)))
         else Some (finish (c_in_max_seqno conn - push_bit 14 1,
                            wnd_head (c_outwnd conn) - push_bit 16 1 + 1, 0)))"

definition fpproto_successful_rx :: "fpproto_conn \<Rightarrow> u64 \<Rightarrow> fpproto_conn" where
  "fpproto_successful_rx conn in_seq = snd (update_inwnd conn in_seq)"

text \<open>The acknowledgement vector of the header and the one of an extended ACK payload.\<close>

definition hdr_ack_vec :: "u16 \<Rightarrow> u64" where
  "hdr_ack_vec v16 =
     ((push_bit 48 1 - ucast (drop_bit 15 v16)) AND NOT (push_bit 48 1))
     OR (push_bit 48 (ucast (v16 AND 0x7FFF)) OR push_bit 63 1)"

definition ext_ack_vec :: "u8 list \<Rightarrow> nat \<Rightarrow> u64" where
  "ext_ack_vec pkt curp =
     push_bit 20 (ucast (rd_be32 pkt curp) AND (push_bit 28 1 - 1))
     OR push_bit 4 (ucast (rd_be16 pkt (curp + 4)))"

text \<open>
  The part of \<open>fpproto_handle_rx_packet\<close> after RESET processing, from the at-most-once check on.
  The first component of the result is \<open>Some in_seq\<close> where the function returns true and hands
  out \<open>in_seq\<close>.
\<close>

definition rx_accept :: "proto_cfg \<Rightarrow> fpproto_conn \<Rightarrow> u8 list \<Rightarrow> nat \<Rightarrow> u64 \<Rightarrow> u64 \<Rightarrow> (u64 option \<times> fpproto_conn) option" where
  "rx_accept cfg conn pkt curp in_seq ack_seq =
     (if \<not> at_most_once_may_accept conn in_seq then Some (None, conn)
      else do {
        conn \<leftarrow> ack_payload_handler cfg conn ack_seq (hdr_ack_vec (rd_be16 pkt 4));
        if curp = length pkt then Some (None, fpproto_successful_rx conn in_seq)
        else if payload_type pkt curp \<noteq> FASTPASS_PTYPE_ACK then Some (Some in_seq, conn)
        else if curp + 6 > length pkt then
          Some (None, upd_stat (st_rx_incomplete_ack_update (\<lambda>n. n + 1)) conn)
        else do {
          conn \<leftarrow> ack_payload_handler cfg conn ack_seq (ext_ack_vec pkt curp);
          Some (Some in_seq, conn)
        }
      })"

text \<open>
  \<open>addr\<close> is the address of the packet; \<open>now\<close> and \<open>now'\<close> are the first and the second reading of
  the clock.
\<close>

definition fpproto_handle_rx_packet ::
  "proto_cfg \<Rightarrow> u64 \<Rightarrow> fpproto_conn \<Rightarrow> u8 list \<Rightarrow> u64 \<Rightarrow> u64 \<Rightarrow> (u64 option \<times> fpproto_conn) option" where
  "fpproto_handle_rx_packet cfg addr conn pkt now now' =
     (let conn = upd_stat (st_rx_pkts_update (\<lambda>n. n + 1)) conn
      in if length pkt < 8 then Some (None, upd_stat (st_rx_too_short_update (\<lambda>n. n + 1)) conn)
         else
           let ptype = (if length pkt = 8 then 0 else payload_type pkt 8)
           in case rx_seqnos cfg conn pkt ptype now of
                None \<Rightarrow> Some (None, upd_stat (st_rx_incomplete_reset_update (\<lambda>n. n + 1)) conn)
              | Some (in_seq, ack_seq, rst_tstamp) \<Rightarrow>
                  if fastpass_checksum addr (set_checksum 0 pkt) in_seq ack_seq \<noteq> rd_checksum pkt then do {
                    conn \<leftarrow> got_bad_packet cfg conn now';
                    Some (None, upd_stat (st_rx_checksum_error_update (\<lambda>n. n + 1)) conn)
                  }
                  else
                    let conn = got_good_packet conn
                    in if ptype = FASTPASS_PTYPE_RESET then do {
                         let conn = conn\<lparr>c_in_sync := False\<rparr>;
                         let conn = (if is_endpoint cfg then conn
                                     else emit_if has_trigger_request Trigger_request conn);
                         (go, conn) \<leftarrow> reset_payload_handler cfg conn rst_tstamp now';
                         if \<not> go then Some (None, conn)
                         else rx_accept cfg conn pkt (8 + 8) in_seq ack_seq
                       }
                       else rx_accept cfg (conn\<lparr>c_in_sync := True\<rparr>) pkt 8 in_seq ack_seq)"

lemma process_alloc_pos: "process_alloc conn pkt curp = (Some n, conn') \<Longrightarrow> 0 < n"
  by (auto simp: process_alloc_def Let_def split: if_splits)

lemma process_areq_pos: "process_areq cfg conn pkt curp = Some (Some n, conn') \<Longrightarrow> 0 < n"
  by (auto simp: process_areq_def Let_def split: if_splits)

text \<open>The loop of \<open>fpproto_perform_rx_callbacks\<close> from \<open>handle_payload\<close> on, for \<open>curp < data_end\<close>.\<close>

function handle_payload :: "proto_cfg \<Rightarrow> fpproto_conn \<Rightarrow> u8 list \<Rightarrow> nat \<Rightarrow> (bool \<times> fpproto_conn) option" where
  "handle_payload cfg conn pkt curp =
     (if \<not> curp < length pkt then Some (True, conn)
      else
        let ptype = payload_type pkt curp
        in if ptype = FASTPASS_PTYPE_ACK then handle_payload cfg conn pkt (curp + 6)
           else if ptype = FASTPASS_PTYPE_RESET then handle_payload cfg conn pkt (curp + 8)
           else if ptype = FASTPASS_PTYPE_ALLOC \<or> ptype = FASTPASS_PTYPE_EMU_ALLOC then
             (case process_alloc conn pkt curp of
                (None, conn') \<Rightarrow> Some (False, conn')
              | (Some payload_length, conn') \<Rightarrow> handle_payload cfg conn' pkt (curp + payload_length))
           else if ptype = FASTPASS_PTYPE_AREQ \<or> ptype = FASTPASS_PTYPE_EMU_AREQ then
             (case process_areq cfg conn pkt curp of
                None \<Rightarrow> None
              | Some (None, conn') \<Rightarrow> Some (False, conn')
              | Some (Some payload_length, conn') \<Rightarrow> handle_payload cfg conn' pkt (curp + payload_length))
           else if ptype = FASTPASS_PTYPE_PADDING then Some (True, conn)
           else Some (False, upd_stat (st_rx_unknown_payload_update (\<lambda>n. n + 1)) conn))"
  by pat_completeness auto
termination
proof (relation "measure (\<lambda>(_, _, pkt, curp). length pkt - curp)", goal_cases)
  case (4 cfg conn pkt curp x a b x2)
  then have "process_alloc conn pkt curp = (Some x2, b)" by simp
  from process_alloc_pos [OF this] 4 show ?case by simp
next
  case (5 cfg conn pkt curp x x2 a b x2a)
  then have "process_areq cfg conn pkt curp = Some (Some x2a, b)" by simp
  from process_areq_pos [OF this] 5 show ?case by simp
qed auto

declare handle_payload.simps [simp del]

definition fpproto_perform_rx_callbacks ::
  "proto_cfg \<Rightarrow> fpproto_conn \<Rightarrow> u8 list \<Rightarrow> (bool \<times> fpproto_conn) option" where
  "fpproto_perform_rx_callbacks cfg conn pkt = do {
     bug_on (8 = length pkt);
     handle_payload cfg conn pkt 8
   }"

definition fpproto_handle_rx_complete ::
  "proto_cfg \<Rightarrow> u64 \<Rightarrow> fpproto_conn \<Rightarrow> u8 list \<Rightarrow> u64 \<Rightarrow> u64 \<Rightarrow> fpproto_conn option" where
  "fpproto_handle_rx_complete cfg addr conn pkt now now' = do {
     (ret, conn) \<leftarrow> fpproto_handle_rx_packet cfg addr conn pkt now now';
     case ret of
       None \<Rightarrow> Some conn
     | Some in_seq \<Rightarrow> do {
         (ok, conn) \<leftarrow> fpproto_perform_rx_callbacks cfg conn pkt;
         Some (if ok then fpproto_successful_rx conn in_seq else conn)
       }
   }"


section \<open>Encoding\<close>

text \<open>
  \<open>fpproto_encode_packet\<close> as the list of the bytes it writes from the start of the buffer;
  \<open>Inl\<close> carries the negative error code. \<open>junk\<close> is the byte of the buffer that the padding of
  an odd number of counts skips. \<open>remaining_len\<close> is an unsigned 32-bit number, as in the code.
\<close>

definition encode_alloc :: "proto_cfg \<Rightarrow> fpproto_pktdesc \<Rightarrow> u8 list" where
  "encode_alloc cfg pd =
     (let alloc_type = (if emulation cfg then FASTPASS_PTYPE_EMU_ALLOC else FASTPASS_PTYPE_ALLOC);
          n = unat (pd_alloc_tslot pd)
      in put_be16 (push_bit 12 (of_nat alloc_type) OR push_bit 8 (pd_n_dsts pd) OR pd_alloc_tslot pd div 2)
         @ put_be16 (pd_base_tslot pd)
         @ concat (map put_be16 (take (unat (pd_n_dsts pd)) (pd_dsts pd)))
         @ take n (pd_tslot_desc pd)
         @ (if emulation cfg then
              concat (map (\<lambda>d. put_be16 (emu_id d)) (take n (pd_emu_tslot_desc pd)))
              @ concat (map (\<lambda>d. take (unat (alloc_data_bytes cfg)) (emu_data d))
                          (take n (pd_emu_tslot_desc pd)))
            else []))"

definition encode_areq :: "proto_cfg \<Rightarrow> fpproto_pktdesc \<Rightarrow> u8 \<Rightarrow> u8 list" where
  "encode_areq cfg pd junk =
     (let n = unat (pd_n_areq pd)
      in put_be16 (if emulation cfg \<and> is_endpoint cfg
                   then push_bit 12 (of_nat FASTPASS_PTYPE_EMU_AREQ)
                        OR push_bit 6 (ucast (pd_areq_data_type pd) AND 0x3F) OR (pd_n_areq pd AND 0x3F)
                   else push_bit 12 (of_nat FASTPASS_PTYPE_AREQ) OR (pd_n_areq pd AND 0x3F))
         @ concat (map (\<lambda>a. put_be16 (ucast (areq_src_dst_key a)) @ put_be16 (ucast (areq_tslots a)))
                     (take n (pd_areq pd)))
         @ (if emulation cfg \<and> is_endpoint cfg \<and> pd_areq_data_type pd \<noteq> 0 then
              take n (pd_areq_data_counts pd) @ (if odd n then [junk] else [])
              @ take (unat (pd_areq_data_bytes pd)) (pd_areq_data pd)
            else []))"

definition encode_hdr :: "fpproto_pktdesc \<Rightarrow> u8 list" where
  "encode_hdr pd = put_be16 (ucast (pd_seqno pd)) @ put_be16 (ucast (pd_ack_seq pd))
     @ put_be16 (pd_ack_vec pd) @ put_be16 0"

definition encode_reset :: "fpproto_pktdesc \<Rightarrow> u8 list" where
  "encode_reset pd =
     put_be32 (push_bit 28 (of_nat FASTPASS_PTYPE_RESET)
               OR ucast (drop_bit 32 (pd_reset_timestamp pd) AND 0x00FFFFFF))
     @ put_be32 (ucast (pd_reset_timestamp pd))"

definition fpproto_encode_packet ::
  "proto_cfg \<Rightarrow> u64 \<Rightarrow> fpproto_pktdesc \<Rightarrow> u8 \<Rightarrow> u32 \<Rightarrow> u32 \<Rightarrow> int + u8 list" where
  "fpproto_encode_packet cfg addr pd junk max_len min_size =
     (if max_len < 8 then Inl (- 1)
      else
        let out = encode_hdr pd; remaining_len = max_len - 8
        in if pd_send_reset pd \<and> remaining_len < 8 then Inl (- 2)
           else
             let rst = (if pd_send_reset pd then encode_reset pd else []);
                 out = out @ rst;
                 remaining_len = remaining_len - of_nat (length rst);
                 alloc = (if \<not> is_endpoint cfg \<and> 0 < pd_alloc_tslot pd then encode_alloc cfg pd else []);
                 out = out @ alloc;
                 remaining_len = remaining_len - of_nat (length alloc)
             in if 0 < pd_n_areq pd \<and> remaining_len < 2 + 4 * ucast (pd_n_areq pd) then Inl (- 3)
                else
                  let areq = (if 0 < pd_n_areq pd then encode_areq cfg pd junk else []);
                      out = out @ areq;
                      remaining_len = remaining_len - of_nat (length areq)
                  in if length out < unat min_size \<and> int (unat remaining_len) < int (unat min_size) - int (length out)
                     then Inl (- 4)
                     else
                       let out = out @ replicate (unat min_size - length out) 0;
                           out = set_checksum (fastpass_checksum addr out (pd_seqno pd) (pd_ack_seq pd)) out
                       in if unat max_len < length out then Inl (- 5) else Inr out)"

end
