(* ===== verification/Proto_Wire.thy ===== *)
theory Proto_Wire
  imports Proto_Codec
begin

text \<open>
  What the wire format guarantees: a packet that one side encodes is understood by the other,
  the 16-bit fields of the header are extended to the 64-bit numbers that were sent, and the
  parser stays inside the packet where it checks its lengths.
\<close>

section \<open>Bytes and fields\<close>

lemma be16_bytes: "push_bit 8 (ucast (ucast (drop_bit 8 x) :: u8)) OR ucast (ucast x :: u8) = (x :: u16)"
proof (rule bit_word_eqI)
  fix n assume "n < LENGTH(16)"
  then show "bit (push_bit 8 (ucast (ucast (drop_bit 8 x) :: u8)) OR ucast (ucast x :: u8) :: u16) n = bit x n"
    by (auto simp: bit_or_iff bit_push_bit_iff bit_ucast_iff bit_drop_bit_eq)
qed

lemma be32_halves: "push_bit 16 (ucast (ucast (drop_bit 16 x) :: u16)) OR ucast (ucast x :: u16) = (x :: u32)"
proof (rule bit_word_eqI)
  fix n assume "n < LENGTH(32)"
  then show "bit (push_bit 16 (ucast (ucast (drop_bit 16 x) :: u16)) OR ucast (ucast x :: u16) :: u32) n = bit x n"
    by (auto simp: bit_or_iff bit_push_bit_iff bit_ucast_iff bit_drop_bit_eq)
qed

lemma length_put [simp]: "length (put_be16 x) = 2" "length (put_be32 y) = 4"
  by (simp_all add: put_be16_def put_be32_def)

lemma rd_put_be16: "i = length xs \<Longrightarrow> rd_be16 (xs @ put_be16 v @ ys) i = v"
  by (simp add: rd_be16_def put_be16_def nth_append be16_bytes)

lemma rd_put_be32:
  assumes "i = length xs"
  shows "rd_be32 (xs @ put_be32 v @ ys) i = v"
proof -
  have "rd_be16 (xs @ put_be32 v @ ys) i = ucast (drop_bit 16 v)"
    unfolding put_be32_def using assms by (simp add: rd_put_be16)
  moreover have "rd_be16 ((xs @ put_be16 (ucast (drop_bit 16 v))) @ put_be16 (ucast v) @ ys) (i + 2) = ucast v"
    using assms by (intro rd_put_be16) simp
  ultimately show ?thesis by (simp add: rd_be32_def put_be32_def be32_halves)
qed

lemma rd_set_checksum: "8 \<le> length p \<Longrightarrow> rd_checksum (set_checksum x p) = x"
  by (simp add: rd_checksum_def set_checksum_def be16_bytes)

lemma rd_be16_set_checksum: "i + 1 < 6 \<or> 7 < i \<Longrightarrow> rd_be16 (set_checksum x p) i = rd_be16 p i"
  by (auto simp: rd_be16_def set_checksum_def)

lemma length_set_checksum [simp]: "length (set_checksum x p) = length p"
  by (simp add: set_checksum_def)

lemma nth_set_checksum: "i \<noteq> 6 \<Longrightarrow> i \<noteq> 7 \<Longrightarrow> set_checksum x p ! i = p ! i"
  by (simp add: set_checksum_def)

lemma length_encode_hdr [simp]: "length (encode_hdr pd) = 8"
  by (simp add: encode_hdr_def)

lemma zero_checksum:
  "set_checksum 0 (set_checksum x (encode_hdr pd @ ys)) = encode_hdr pd @ ys"
  by (simp add: set_checksum_def encode_hdr_def put_be16_def numeral_eq_Suc)

section \<open>Extending the sequence numbers\<close>

lemma take_bit_minus_u64:
  fixes s b :: u64
  assumes "n \<le> 64"
  shows "take_bit n (take_bit n s - b) = take_bit n (s - b)"
proof -
  have dvd: "(2 :: int) ^ n dvd 2 ^ 64" using assms by (rule le_imp_power_dvd)
  have "uint (take_bit n (take_bit n s - b)) = uint (take_bit n s - b) mod 2 ^ n"
    by (simp only: unsigned_take_bit_eq take_bit_eq_mod [where 'a = int])
  also have "\<dots> = (uint s mod 2 ^ n - uint b) mod 2 ^ n"
    unfolding uint_minus_mod_u64 [OF dvd] by (simp only: unsigned_take_bit_eq take_bit_eq_mod [where 'a = int])
  also have "\<dots> = uint (s - b) mod 2 ^ n"
    unfolding uint_minus_mod_u64 [OF dvd] by (rule mod_diff_left_eq)
  also have "\<dots> = uint (take_bit n (s - b))"
    by (simp only: unsigned_take_bit_eq take_bit_eq_mod [where 'a = int])
  finally show ?thesis by (simp only: word_uint_eq_iff)
qed

lemma take_bit_small_u64:
  fixes x :: u64
  assumes "unat x < 2 ^ n"
  shows "take_bit n x = x"
proof -
  have "unat (take_bit n x) = unat x"
    using assms by (simp only: unsigned_take_bit_eq take_bit_nat_eq_self)
  then show ?thesis by (simp only: unat_eq_iff)
qed

text \<open>The number nearest above \<open>base\<close> with the given low 16 bits.\<close>

lemma extend_seqno:
  fixes s base :: u64
  assumes "unat (s - base) < 2 ^ 16"
  shows "base + ((ucast (ucast s :: u16) - base) AND 0xFFFF) = s"
proof -
  have "(ucast (ucast s :: u16) :: u64) = take_bit 16 s"
    by (rule bit_word_eqI) (auto simp: bit_ucast_iff bit_take_bit_iff)
  moreover have "x AND 0xFFFF = take_bit 16 x" for x :: u64
    by (simp add: take_bit_eq_mask mask_eq_exp_minus_1)
  ultimately have "(ucast (ucast s :: u16) - base) AND 0xFFFF = take_bit 16 (take_bit 16 s - base)"
    by simp
  also have "\<dots> = s - base"
    using take_bit_small_u64 [OF assms] by (simp only: take_bit_minus_u64)
  finally show ?thesis by simp
qed

lemma extend_timestamp:
  fixes t now :: u64
  assumes "unat (t - (now - 2 ^ 55)) < 2 ^ 56"
  shows "now - 2 ^ 55 + ((take_bit 56 t - (now - 2 ^ 55)) AND mask 56) = t"
proof -
  let ?b = "now - 2 ^ 55"
  have "(take_bit 56 t - ?b) AND mask 56 = take_bit 56 (take_bit 56 t - ?b)"
    by (simp only: take_bit_eq_mask)
  also have "\<dots> = t - ?b"
    using take_bit_small_u64 [OF assms] by (simp only: take_bit_minus_u64)
  finally show ?thesis by simp
qed

section \<open>The header round trip\<close>

text \<open>The layout of an encoded packet.\<close>

definition encode_payloads :: "proto_cfg \<Rightarrow> fpproto_pktdesc \<Rightarrow> u8 \<Rightarrow> u8 list" where
  "encode_payloads cfg pd junk =
     (if pd_send_reset pd then encode_reset pd else [])
     @ (if \<not> is_endpoint cfg \<and> 0 < pd_alloc_tslot pd then encode_alloc cfg pd else [])
     @ (if 0 < pd_n_areq pd then encode_areq cfg pd junk else [])"

definition encode_body :: "proto_cfg \<Rightarrow> fpproto_pktdesc \<Rightarrow> u8 \<Rightarrow> u32 \<Rightarrow> u8 list" where
  "encode_body cfg pd junk min_size =
     encode_payloads cfg pd junk @ replicate (unat min_size - length (encode_hdr pd @ encode_payloads cfg pd junk)) 0"

lemma encode_layout:
  assumes "fpproto_encode_packet cfg addr pd junk max_len min_size = Inr pkt"
  defines "out \<equiv> encode_hdr pd @ encode_body cfg pd junk min_size"
  shows "pkt = set_checksum (fastpass_checksum addr out (pd_seqno pd) (pd_ack_seq pd)) out"
    and "length pkt \<le> unat max_len" and "unat min_size \<le> length pkt"
proof -
  have "pkt = set_checksum (fastpass_checksum addr out (pd_seqno pd) (pd_ack_seq pd)) out
    \<and> length out \<le> unat max_len"
    using assms(1) unfolding fpproto_encode_packet_def Let_def out_def encode_body_def encode_payloads_def append_assoc
    by (auto split: if_splits)
  then show "pkt = set_checksum (fastpass_checksum addr out (pd_seqno pd) (pd_ack_seq pd)) out"
    and "length pkt \<le> unat max_len" by simp_all
  then show "unat min_size \<le> length pkt" by (simp add: out_def encode_body_def)
qed

lemma hdr_fields:
  "rd_be16 (set_checksum x (encode_hdr pd @ ys)) 0 = ucast (pd_seqno pd)"
  "rd_be16 (set_checksum x (encode_hdr pd @ ys)) 2 = ucast (pd_ack_seq pd)"
  "rd_be16 (set_checksum x (encode_hdr pd @ ys)) 4 = pd_ack_vec pd"
proof -
  have "rd_be16 (encode_hdr pd @ ys) 0 = ucast (pd_seqno pd)"
    using rd_put_be16 [of 0 "[]"] by (simp add: encode_hdr_def)
  then show "rd_be16 (set_checksum x (encode_hdr pd @ ys)) 0 = ucast (pd_seqno pd)"
    by (simp add: rd_be16_set_checksum)
  have "rd_be16 (encode_hdr pd @ ys) 2 = ucast (pd_ack_seq pd)"
    using rd_put_be16 [of 2 "put_be16 (ucast (pd_seqno pd))"] by (simp add: encode_hdr_def)
  then show "rd_be16 (set_checksum x (encode_hdr pd @ ys)) 2 = ucast (pd_ack_seq pd)"
    by (simp add: rd_be16_set_checksum)
  have "rd_be16 (encode_hdr pd @ ys) 4 = pd_ack_vec pd"
    using rd_put_be16 [of 4 "put_be16 (ucast (pd_seqno pd)) @ put_be16 (ucast (pd_ack_seq pd))"]
    by (simp add: encode_hdr_def)
  then show "rd_be16 (set_checksum x (encode_hdr pd @ ys)) 4 = pd_ack_vec pd"
    by (simp add: rd_be16_set_checksum)
qed

text \<open>The type nibble of the first payload.\<close>

lemma payload_type_put: "i = length xs \<Longrightarrow> payload_type (xs @ put_be16 v @ ys) i = unat (drop_bit 12 v)"
proof -
  assume "i = length xs"
  then have "payload_type (xs @ put_be16 v @ ys) i = unat (drop_bit 4 (ucast (drop_bit 8 v) :: u8))"
    by (simp add: payload_type_def put_be16_def nth_append)
  also have "drop_bit 4 (ucast (drop_bit 8 v) :: u8) = ucast (drop_bit 12 v)"
    by (rule bit_word_eqI) (auto simp: bit_drop_bit_eq bit_ucast_iff dest: bit_imp_le_length)
  also have "unat (ucast (drop_bit 12 v) :: u8) = unat (drop_bit 12 v)"
  proof -
    have "unat (drop_bit 12 v) = unat v div 2 ^ 12"
      by (simp only: unsigned_drop_bit_eq drop_bit_eq_div [where 'a = nat]) (simp add: take_bit_nat_eq_self)
    then have "unat (drop_bit 12 v) < 2 ^ 8"
      using unat_u16_less [of v] by (simp add: div_less_iff_less_mult del: unat_u16_less)
    then have "take_bit 8 (unat (drop_bit 12 v)) = unat (drop_bit 12 v)" by (rule take_bit_nat_eq_self)
    then show ?thesis by (simp only: unsigned_ucast_eq) simp
  qed
  finally show ?thesis .
qed

lemma ptype_not_reset:
  assumes "bit v 13 \<or> bit v 14"
  shows "unat (drop_bit 12 (v :: u16)) \<noteq> FASTPASS_PTYPE_RESET"
proof
  assume "unat (drop_bit 12 v) = FASTPASS_PTYPE_RESET"
  then have "drop_bit 12 v = 1" by (simp add: ptypes unat_eq_iff)
  then have "\<not> bit (drop_bit 12 v) 1" "\<not> bit (drop_bit 12 v) 2" by (simp_all add: bit_1_iff)
  then show False using assms by (simp add: bit_drop_bit_eq)
qed

lemma first_payload_not_reset:
  assumes "\<not> pd_send_reset pd" and "encode_body cfg pd junk min_size \<noteq> []"
  shows "payload_type (encode_hdr pd @ encode_body cfg pd junk min_size) 8 \<noteq> FASTPASS_PTYPE_RESET"
proof -
  let ?alloc = "\<not> is_endpoint cfg \<and> 0 < pd_alloc_tslot pd"
  consider (alloc) "?alloc" | (areq) "\<not> ?alloc" "0 < pd_n_areq pd" | (pad) "\<not> ?alloc" "\<not> 0 < pd_n_areq pd"
    by blast
  then show ?thesis
  proof cases
    case alloc
    then obtain v ys where "encode_hdr pd @ encode_body cfg pd junk min_size = encode_hdr pd @ put_be16 v @ ys"
      and "bit v 13 \<or> bit v 14"
      using assms(1) by (force simp: encode_body_def encode_payloads_def encode_alloc_def Let_def ptypes
          bit_or_iff bit_push_bit_iff bit_numeral_rec)
    then show ?thesis using ptype_not_reset by (simp add: payload_type_put)
  next
    case areq
    then obtain v ys where "encode_hdr pd @ encode_body cfg pd junk min_size = encode_hdr pd @ put_be16 v @ ys"
      and "bit v 13 \<or> bit v 14"
      using assms(1) by (force simp: encode_body_def encode_payloads_def encode_areq_def Let_def ptypes
          bit_or_iff bit_push_bit_iff bit_numeral_rec)
    then show ?thesis using ptype_not_reset by (simp add: payload_type_put)
  next
    case pad
    then have "encode_body cfg pd junk min_size = replicate (length (encode_body cfg pd junk min_size)) 0"
      using assms(1) by (auto simp: encode_body_def encode_payloads_def)
    then have "(encode_hdr pd @ encode_body cfg pd junk min_size) ! 8 = 0"
      using assms(2) by (metis length_encode_hdr length_greater_0_conv nth_append_length_plus nth_replicate add_0_right)
    then show ?thesis by (simp add: payload_type_def ptypes)
  qed
qed


section \<open>RESET packets\<close>

definition reset_hi :: "u64 \<Rightarrow> u32" where
  "reset_hi t = push_bit 28 (of_nat FASTPASS_PTYPE_RESET) OR ucast (drop_bit 32 t AND 0x00FFFFFF)"

lemma mask24: "push_bit 24 1 - 1 = (mask 24 :: u32)" "(0x00FFFFFF :: u64) = mask 24"
  by (simp_all add: mask_eq_exp_minus_1)

lemma bit_reset_hi: "bit (reset_hi t) n \<longleftrightarrow> n = 28 \<or> n < 24 \<and> bit t (n + 32)"
  unfolding reset_hi_def mask24 ptypes
  by (auto simp: bit_or_iff bit_push_bit_iff bit_1_iff bit_ucast_iff bit_and_iff bit_mask_iff bit_drop_bit_eq
      add.commute simp del: push_bit_of_1)

lemma reset_ptype: "unat (drop_bit 12 (ucast (drop_bit 16 (reset_hi t)) :: u16)) = FASTPASS_PTYPE_RESET"
proof -
  have "drop_bit 12 (ucast (drop_bit 16 (reset_hi t)) :: u16) = 1"
    by (rule bit_word_eqI) (auto simp: bit_drop_bit_eq bit_ucast_iff bit_reset_hi bit_1_iff)
  then show ?thesis by (simp add: ptypes)
qed

lemma reset_partial:
  "push_bit 32 (ucast (reset_hi t AND (push_bit 24 1 - 1))) OR ucast (ucast t :: u32) = take_bit 56 t"
proof (rule bit_word_eqI)
  fix n assume "n < LENGTH(64)"
  then show "bit (push_bit 32 (ucast (reset_hi t AND (push_bit 24 1 - 1))) OR ucast (ucast t :: u32) :: u64) n
    = bit (take_bit 56 t) n"
    unfolding mask24
    by (auto simp: bit_or_iff bit_push_bit_iff bit_ucast_iff bit_and_iff bit_mask_iff bit_reset_hi bit_take_bit_iff)
qed

text \<open>
  A RESET packet is understood by a receiver whatever its connection state, as long as
  the two clocks differ by less than \<open>2 ^ 55\<close> nanoseconds (more than a year): the 56 transmitted bits give the
  full timestamp, the sequence numbers follow from the timestamp, the checksum verifies, and
  the RESET is handled with the timestamp that was sent.
\<close>

theorem reset_packet_understood:
  fixes c :: fpproto_conn
  assumes enc: "fpproto_encode_packet cs addr pd junk mx mn = Inr pkt" and r: "pd_send_reset pd"
    and clk: "unat (pd_reset_timestamp pd - (now - 2 ^ 55)) < 2 ^ 56"
    and sq: "unat (pd_seqno pd - (base_seqno_from_timestamp (pd_reset_timestamp pd)
        + FASTPASS_INGRESS_SEQNO_OFFSET cr)) < 2 ^ 16"
    and aq: "unat (pd_ack_seq pd - (base_seqno_from_timestamp (pd_reset_timestamp pd)
        + FASTPASS_EGRESS_SEQNO_OFFSET cr - 1)) < 2 ^ 16"
  defines "c1 \<equiv> (got_good_packet (upd_stat (st_rx_pkts_update (\<lambda>n. n + 1)) c))\<lparr>c_in_sync := False\<rparr>"
  shows "fpproto_handle_rx_packet cr addr c pkt now now' = do {
      (go, c2) \<leftarrow> reset_payload_handler cr
        (if is_endpoint cr then c1 else emit_if has_trigger_request Trigger_request c1)
        (pd_reset_timestamp pd) now';
      if \<not> go then Some (None, c2) else rx_accept cr c2 pkt 16 (pd_seqno pd) (pd_ack_seq pd) }"
proof -
  let ?t = "pd_reset_timestamp pd"
  define body where "body = encode_body cs pd junk mn"
  define x where "x = fastpass_checksum addr (encode_hdr pd @ body) (pd_seqno pd) (pd_ack_seq pd)"
  have pkt: "pkt = set_checksum x (encode_hdr pd @ body)"
    unfolding x_def body_def by (rule encode_layout [OF enc])
  obtain ys where body: "body = put_be32 (reset_hi ?t) @ put_be32 (ucast ?t) @ ys"
    using r by (simp add: body_def encode_body_def encode_payloads_def encode_reset_def reset_hi_def)
  have len: "length pkt \<ge> 16" unfolding pkt body by simp
  have pt: "payload_type pkt 8 = FASTPASS_PTYPE_RESET"
    using payload_type_put [of 8 "encode_hdr pd" "ucast (drop_bit 16 (reset_hi ?t))"] reset_ptype [of ?t]
    unfolding pkt payload_type_def body put_be32_def by (simp add: nth_set_checksum)
  have be32: "rd_be32 pkt i = rd_be32 (encode_hdr pd @ body) i" if "7 < i" for i
    unfolding pkt rd_be32_def using that by (simp add: rd_be16_set_checksum)
  have hi: "rd_be32 pkt 8 = reset_hi ?t"
    unfolding be32 [of 8, simplified] body by (intro rd_put_be32) simp
  have lo: "rd_be32 pkt 12 = ucast ?t"
    using rd_put_be32 [of 12 "encode_hdr pd @ put_be32 (reset_hi ?t)" "ucast ?t" ys]
    unfolding be32 [of 12, simplified] body by simp
  have ts: "now - push_bit 55 1 + ((take_bit 56 ?t - (now - push_bit 55 1)) AND (push_bit 56 1 - 1)) = ?t"
    using extend_timestamp [OF clk] by (simp add: mask_eq_exp_minus_1)
  let ?c = "upd_stat (st_rx_pkts_update (\<lambda>n. n + 1)) c"
  have "rx_seqnos cr ?c pkt FASTPASS_PTYPE_RESET now = Some (pd_seqno pd, pd_ack_seq pd, ?t)"
    using len extend_seqno [OF sq] extend_seqno [OF aq]
    unfolding rx_seqnos_def Let_def hi lo reset_partial ts unfolding pkt hdr_fields by simp
  moreover have "fastpass_checksum addr (set_checksum 0 pkt) (pd_seqno pd) (pd_ack_seq pd) = rd_checksum pkt"
    unfolding pkt zero_checksum by (simp add: rd_set_checksum x_def)
  ultimately show ?thesis
    using len pt unfolding fpproto_handle_rx_packet_def Let_def c1_def by (simp cong: if_cong)
qed

section \<open>ALLOC payloads\<close>

lemma bit_less_of_small:
  fixes x :: "'a::len word"
  assumes "unat x < 2 ^ k" "bit x i"
  shows "i < k"
proof (rule ccontr)
  assume "\<not> i < k"
  have "bit (unat x) i" using assms(2) by (simp add: bit_unsigned_iff)
  then have "odd (unat x div 2 ^ i)" by (rule bit_iff_odd [THEN iffD1])
  moreover have "unat x div 2 ^ i = 0"
    using assms(1) \<open>\<not> i < k\<close> by (intro div_less less_le_trans [OF assms(1)] power_increasing) simp_all
  ultimately show False by simp
qed

lemma alloc_fields:
  fixes t nd h :: u16
  assumes "unat nd < 16" "unat h < 64"
  defines "v \<equiv> push_bit 12 t OR push_bit 8 nd OR h"
  shows "drop_bit 8 v AND 0xF = nd" and "v AND 0x3F = h"
proof -
  have nd: "i < 4" if "bit nd i" for i using bit_less_of_small [of nd 4, OF _ that] assms(1) by simp
  have h: "i < 6" if "bit h i" for i using bit_less_of_small [of h 6, OF _ that] assms(2) by simp
  have m: "(0xF :: u16) = mask 4" "(0x3F :: u16) = mask 6" by (simp_all add: mask_eq_exp_minus_1)
  show "drop_bit 8 v AND 0xF = nd"
    unfolding m v_def
    by (rule bit_word_eqI) (auto simp: bit_and_iff bit_or_iff bit_mask_iff bit_drop_bit_eq bit_push_bit_iff dest: nd h)
  show "v AND 0x3F = h"
    unfolding m v_def
    by (rule bit_word_eqI) (auto simp: bit_and_iff bit_or_iff bit_mask_iff bit_push_bit_iff dest: nd h)
qed

lemma rd_be16_list:
  assumes "curp = length xs" "n = length ds"
  shows "map (\<lambda>i. rd_be16 (xs @ concat (map put_be16 ds) @ ys) (curp + 2 * i)) [0..<n] = ds"
proof (rule nth_equalityI)
  fix i assume "i < length (map (\<lambda>i. rd_be16 (xs @ concat (map put_be16 ds) @ ys) (curp + 2 * i)) [0..<n])"
  then have i: "i < length ds" using assms by simp
  have "concat (map put_be16 ds) = concat (map put_be16 (take i ds)) @ put_be16 (ds ! i) @ concat (map put_be16 (drop (Suc i) ds))"
    using i by (subst id_take_nth_drop [OF i]) simp
  moreover have "length (concat (map put_be16 (take i ds))) = 2 * i"
    using i by (simp add: length_concat comp_def sum_list_triv)
  ultimately have "rd_be16 (xs @ concat (map put_be16 ds) @ ys) (curp + 2 * i) = ds ! i"
    using rd_put_be16 [of "curp + 2 * i" "xs @ concat (map put_be16 (take i ds))" "ds ! i"] assms(1) by simp
  then show "map (\<lambda>i. rd_be16 (xs @ concat (map put_be16 ds) @ ys) (curp + 2 * i)) [0..<n] ! i = ds ! i"
    using i assms by simp
qed (simp add: assms)

text \<open>The descriptor of an ALLOC payload respects the bounds of its arrays and of the type word.\<close>

definition alloc_wf :: "proto_cfg \<Rightarrow> fpproto_pktdesc \<Rightarrow> bool" where
  "alloc_wf cfg pd \<longleftrightarrow>
     unat (pd_n_dsts pd) \<le> 15 \<and> unat (pd_n_dsts pd) \<le> length (pd_dsts pd)
     \<and> even (unat (pd_alloc_tslot pd)) \<and> unat (pd_alloc_tslot pd) \<le> 64
     \<and> unat (pd_alloc_tslot pd) \<le> length (pd_tslot_desc pd)
     \<and> (emulation cfg \<longrightarrow> unat (pd_alloc_tslot pd) \<le> length (pd_emu_tslot_desc pd)
          \<and> (\<forall>d \<in> set (pd_emu_tslot_desc pd). unat (alloc_data_bytes cfg) \<le> length (emu_data d)))"

text \<open>The part of the payload that describes the timeslots.\<close>

definition alloc_tslot_bytes :: "proto_cfg \<Rightarrow> fpproto_pktdesc \<Rightarrow> u8 list" where
  "alloc_tslot_bytes cfg pd =
     (let n = unat (pd_alloc_tslot pd)
      in take n (pd_tslot_desc pd)
         @ (if emulation cfg then
              concat (map (\<lambda>d. put_be16 (emu_id d)) (take n (pd_emu_tslot_desc pd)))
              @ concat (map (\<lambda>d. take (unat (alloc_data_bytes cfg)) (emu_data d)) (take n (pd_emu_tslot_desc pd)))
            else []))"

definition bytes_per_tslot :: "proto_cfg \<Rightarrow> nat" where
  "bytes_per_tslot cfg = (if emulation cfg then 3 + unat (alloc_data_bytes cfg) else 1)"

lemma length_alloc_tslot_bytes:
  assumes "alloc_wf cfg pd"
  shows "length (alloc_tslot_bytes cfg pd) = unat (pd_alloc_tslot pd) * bytes_per_tslot cfg"
proof -
  let ?n = "unat (pd_alloc_tslot pd)" and ?a = "unat (alloc_data_bytes cfg)"
  have "length (concat (map (\<lambda>d. take ?a (emu_data d)) (take ?n (pd_emu_tslot_desc pd)))) = ?n * ?a"
    if "emulation cfg"
  proof -
    have "map (\<lambda>d. length (take ?a (emu_data d))) (take ?n (pd_emu_tslot_desc pd))
        = map (\<lambda>d. ?a) (take ?n (pd_emu_tslot_desc pd))"
      using assms that by (auto simp: alloc_wf_def dest!: in_set_takeD)
    then show ?thesis
      using assms that unfolding length_concat map_map comp_def by (simp only:) (simp add: sum_list_triv alloc_wf_def)
  qed
  moreover have "length (concat (map (\<lambda>d. put_be16 (emu_id d)) (take ?n (pd_emu_tslot_desc pd)))) = 2 * ?n"
    if "emulation cfg"
    using assms that by (simp add: length_concat comp_def sum_list_triv alloc_wf_def)
  ultimately show ?thesis
    using assms by (simp add: alloc_tslot_bytes_def Let_def bytes_per_tslot_def alloc_wf_def algebra_simps)
qed

text \<open>What \<open>process_alloc\<close> reads of an encoded ALLOC payload.\<close>

lemma process_alloc_encoded:
  assumes wf: "alloc_wf cfg pd" and bpt: "alloc_bytes_per_tslot (c_ops c) = bytes_per_tslot cfg"
  shows "process_alloc c (pre @ encode_alloc cfg pd @ post) (length pre) =
    (if 2 \<le> length post
     then (Some (length (encode_alloc cfg pd)),
           emit_if has_handle_alloc
             (Handle_alloc (push_bit 4 (ucast (pd_base_tslot pd))) (take (unat (pd_n_dsts pd)) (pd_dsts pd))
                (alloc_tslot_bytes cfg pd @ post) (unat (pd_alloc_tslot pd))) c)
     else (None, upd_stat (st_rx_incomplete_alloc_update (\<lambda>n. n + 1)) c))"
proof -
  define t where "t = (of_nat (if emulation cfg then FASTPASS_PTYPE_EMU_ALLOC else FASTPASS_PTYPE_ALLOC) :: u16)"
  define v where "v = push_bit 12 t OR push_bit 8 (pd_n_dsts pd) OR pd_alloc_tslot pd div 2"
  define ds where "ds = take (unat (pd_n_dsts pd)) (pd_dsts pd)"
  define tb where "tb = alloc_tslot_bytes cfg pd"
  let ?n = "unat (pd_n_dsts pd)"
  define pkt where "pkt = pre @ encode_alloc cfg pd @ post"
  have enc: "encode_alloc cfg pd = put_be16 v @ put_be16 (pd_base_tslot pd) @ concat (map put_be16 ds) @ tb"
    by (simp add: encode_alloc_def alloc_tslot_bytes_def Let_def v_def t_def ds_def tb_def)
  have nd: "length ds = ?n" "?n < 16" using wf by (simp_all add: ds_def alloc_wf_def)
  have half: "unat (pd_alloc_tslot pd div 2) < 64" "2 * unat (pd_alloc_tslot pd div 2) = unat (pd_alloc_tslot pd)"
    using wf by (auto simp: alloc_wf_def unat_div)
  note f = alloc_fields [OF nd(2) half(1), of t, folded v_def]
  have lds: "length (concat (map put_be16 ds)) = 2 * ?n"
    by (simp add: length_concat comp_def sum_list_triv nd(1))
  have ltb: "length tb = unat (pd_alloc_tslot pd) * bytes_per_tslot cfg"
    unfolding tb_def by (rule length_alloc_tslot_bytes [OF wf])
  have len: "length pkt = length pre + 4 + 2 * ?n + length tb + length post"
    by (simp add: pkt_def enc lds)
  have r1: "rd_be16 pkt (length pre) = v" unfolding pkt_def enc by (simp add: rd_put_be16)
  have r2: "rd_be16 pkt (length pre + 2) = pd_base_tslot pd"
    using rd_put_be16 [of "length pre + 2" "pre @ put_be16 v"] by (simp add: pkt_def enc)
  have r3: "map (\<lambda>i. rd_be16 pkt (length pre + 2 + 2 + 2 * i)) [0..<?n] = ds"
    using rd_be16_list [of "length pre + 2 + 2" "pre @ put_be16 v @ put_be16 (pd_base_tslot pd)" ?n ds "tb @ post"] nd
    by (simp add: pkt_def enc)
  have r4: "drop (length pre + 2 + 2 + 2 * ?n) pkt = tb @ post"
    by (simp add: pkt_def enc lds)
  have "process_alloc c pkt (length pre) =
    (if 2 \<le> length post
     then (Some (4 + 2 * ?n + length tb),
           emit_if has_handle_alloc (Handle_alloc (push_bit 4 (ucast (pd_base_tslot pd))) ds (tb @ post)
             (unat (pd_alloc_tslot pd))) c)
     else (None, upd_stat (st_rx_incomplete_alloc_update (\<lambda>n. n + 1)) c))"
    unfolding process_alloc_def Let_def r1 f half(2) r2 r3 r4 len bpt ltb [symmetric] by auto
  moreover have "length (encode_alloc cfg pd) = 4 + 2 * ?n + length tb" by (simp add: enc lds)
  ultimately show ?thesis unfolding pkt_def tb_def ds_def by (simp only:)
qed

text \<open>
  C23. The ALLOC payload that the arbiter encodes, read back by \<open>process_alloc\<close>: the end node
  is handed the base timeslot, the destinations, the timeslot bytes and their number as they
  were encoded, and continues right behind the payload, provided that at least two more bytes
  follow in the packet. With fewer bytes behind it, the complete payload is rejected as
  incomplete: the length check counts the two type bytes that it has already skipped.
\<close>

theorem alloc_payload_roundtrip:
  assumes wf: "alloc_wf cfg pd" and bpt: "alloc_bytes_per_tslot (c_ops c) = bytes_per_tslot cfg"
  shows "process_alloc c (pre @ encode_alloc cfg pd @ post) (length pre) =
    (if 2 \<le> length post
     then (Some (length (encode_alloc cfg pd)),
           emit_if has_handle_alloc
             (Handle_alloc (push_bit 4 (ucast (pd_base_tslot pd))) (take (unat (pd_n_dsts pd)) (pd_dsts pd))
                (alloc_tslot_bytes cfg pd @ post) (unat (pd_alloc_tslot pd))) c)
     else (None, upd_stat (st_rx_incomplete_alloc_update (\<lambda>n. n + 1)) c))"
  by (rule process_alloc_encoded [OF assms])

section \<open>A-REQ payloads\<close>

definition areq_wf :: "fpproto_pktdesc \<Rightarrow> bool" where
  "areq_wf pd \<longleftrightarrow> 0 < unat (pd_n_areq pd) \<and> unat (pd_n_areq pd) \<le> 10 \<and> unat (pd_n_areq pd) \<le> length (pd_areq pd)
     \<and> unat (pd_n_areq pd) \<le> length (pd_areq_data_counts pd)
     \<and> unat (pd_areq_data_bytes pd) \<le> length (pd_areq_data pd)"

definition areq_bytes :: "fpproto_pktdesc \<Rightarrow> u8 list" where
  "areq_bytes pd = concat (map (\<lambda>a. put_be16 (ucast (areq_src_dst_key a)) @ put_be16 (ucast (areq_tslots a)))
     (take (unat (pd_n_areq pd)) (pd_areq pd)))"

text \<open>The additional request data of an end node in emulation.\<close>

definition areq_extra :: "proto_cfg \<Rightarrow> fpproto_pktdesc \<Rightarrow> u8 \<Rightarrow> u8 list" where
  "areq_extra cfg pd junk =
     (if emulation cfg \<and> is_endpoint cfg \<and> pd_areq_data_type pd \<noteq> 0 then
        take (unat (pd_n_areq pd)) (pd_areq_data_counts pd) @ (if odd (unat (pd_n_areq pd)) then [junk] else [])
        @ take (unat (pd_areq_data_bytes pd)) (pd_areq_data pd)
      else [])"

lemma areq_count_field:
  fixes t x n :: u16
  assumes "unat n < 64"
  shows "(push_bit 12 t OR push_bit 6 x OR (n AND 0x3F)) AND 0x3F = n"
    and "(push_bit 12 t OR (n AND 0x3F)) AND 0x3F = n"
proof -
  have n: "i < 6" if "bit n i" for i using bit_less_of_small [of n 6, OF _ that] assms by simp
  have m: "(0x3F :: u16) = mask 6" by (simp add: mask_eq_exp_minus_1)
  show "(push_bit 12 t OR push_bit 6 x OR (n AND 0x3F)) AND 0x3F = n"
    unfolding m by (rule bit_word_eqI) (auto simp: bit_and_iff bit_or_iff bit_mask_iff bit_push_bit_iff dest: n)
  show "(push_bit 12 t OR (n AND 0x3F)) AND 0x3F = n"
    unfolding m by (rule bit_word_eqI) (auto simp: bit_and_iff bit_or_iff bit_mask_iff bit_push_bit_iff dest: n)
qed

text \<open>How many bytes of request data the arbiter in emulation skips behind the requests.\<close>

definition areq_skip :: "proto_cfg \<Rightarrow> fpproto_pktdesc \<Rightarrow> nat" where
  "areq_skip cfg pd =
     (let n = unat (pd_n_areq pd)
      in n + (if odd n then 1 else 0)
         + unat (req_data_bytes cfg) * unat (sum_list (map ucast (take n (pd_areq_data_counts pd))) :: u16))"

text \<open>
  The A-REQ payload that an end node encodes, read back by the arbiter: the handler sees the
  requests, with the request data behind them, and their number. The parser continues right behind
  the payload when the number of data bytes is what the counts and the size per packet promise.
\<close>

theorem areq_payload_roundtrip:
  assumes wf: "areq_wf pd" and cs: "is_endpoint cs" and cr: "\<not> is_endpoint cr" "emulation cr = emulation cs"
    and data: "emulation cs \<and> 0 < req_data_bytes cr \<longrightarrow> pd_areq_data_type pd \<noteq> 0
        \<and> length (areq_extra cs pd junk) = areq_skip cr pd"
      "\<not> (emulation cs \<and> 0 < req_data_bytes cr) \<longrightarrow> areq_extra cs pd junk = []"
  shows "process_areq cr c (pre @ encode_areq cs pd junk @ post) (length pre) =
    Some (Some (length (encode_areq cs pd junk)),
      emit_if has_handle_areq
        (Handle_areq (areq_bytes pd @ areq_extra cs pd junk @ post) (unat (pd_n_areq pd))) c)"
proof -
  let ?n = "unat (pd_n_areq pd)"
  obtain v where enc: "encode_areq cs pd junk = put_be16 v @ areq_bytes pd @ areq_extra cs pd junk"
    and v: "v AND 0x3F = pd_n_areq pd"
  proof (cases "emulation cs \<and> is_endpoint cs")
    case True
    have "unat (pd_n_areq pd) < 64" using wf by (simp add: areq_wf_def)
    moreover have "encode_areq cs pd junk =
        put_be16 (push_bit 12 (of_nat FASTPASS_PTYPE_EMU_AREQ)
          OR push_bit 6 (ucast (pd_areq_data_type pd) AND 0x3F) OR (pd_n_areq pd AND 0x3F))
        @ areq_bytes pd @ areq_extra cs pd junk"
      unfolding encode_areq_def areq_bytes_def areq_extra_def Let_def
      by (simp only: True if_True simp_thms)
    ultimately show ?thesis using that areq_count_field(1) by blast
  next
    case False
    then have "\<not> emulation cs" using cs by simp
    then have "encode_areq cs pd junk =
        put_be16 (push_bit 12 (of_nat FASTPASS_PTYPE_AREQ) OR (pd_n_areq pd AND 0x3F))
        @ areq_bytes pd @ areq_extra cs pd junk"
      unfolding encode_areq_def areq_bytes_def areq_extra_def Let_def
      by (simp only: if_False simp_thms)
    moreover have "unat (pd_n_areq pd) < 64" using wf by (simp add: areq_wf_def)
    ultimately show ?thesis using that areq_count_field(2) by blast
  qed
  define pkt where "pkt = pre @ encode_areq cs pd junk @ post"
  have lb: "length (areq_bytes pd) = 4 * ?n"
    using wf by (simp add: areq_bytes_def areq_wf_def length_concat comp_def sum_list_triv)
  have r1: "rd_be16 pkt (length pre) = v" unfolding pkt_def enc by (simp add: rd_put_be16)
  have r2: "drop (length pre + 2) pkt = areq_bytes pd @ areq_extra cs pd junk @ post" by (simp add: pkt_def enc)
  have r3: "drop (length pre + 2 + 4 * ?n) pkt = areq_extra cs pd junk @ post" by (simp add: pkt_def enc lb)
  have len: "length pkt = length pre + 2 + 4 * ?n + length (areq_extra cs pd junk) + length post"
    by (simp add: pkt_def enc lb)
  have "process_areq cr c pkt (length pre) =
    Some (Some (2 + 4 * ?n + length (areq_extra cs pd junk)),
      emit_if has_handle_areq (Handle_areq (areq_bytes pd @ areq_extra cs pd junk @ post) ?n) c)"
  proof (cases "emulation cs \<and> 0 < req_data_bytes cr")
    case True
    then have ex: "areq_extra cs pd junk = take ?n (pd_areq_data_counts pd) @ (if odd ?n then [junk] else [])
        @ take (unat (pd_areq_data_bytes pd)) (pd_areq_data pd)"
      using data(1) cs by (simp add: areq_extra_def)
    have lx: "length (areq_extra cs pd junk) = areq_skip cr pd" using True data(1) by blast
    have "take ?n (areq_extra cs pd junk @ post) = take ?n (pd_areq_data_counts pd)"
      using wf by (simp add: ex areq_wf_def)
    moreover have "?n \<le> length (areq_extra cs pd junk)" unfolding lx areq_skip_def Let_def by simp
    ultimately show ?thesis
      using True cr unfolding process_areq_def Let_def r1 v r2 r3 len
      by (simp add: lx areq_skip_def Let_def)
  next
    case False
    then show ?thesis
      using data(2) cr unfolding process_areq_def Let_def r1 v r2 len by auto
  qed
  moreover have "length (encode_areq cs pd junk) = 2 + 4 * ?n + length (areq_extra cs pd junk)"
    by (simp add: enc lb)
  ultimately show ?thesis unfolding pkt_def by (simp only:)
qed

text \<open>
  The request data counts are read without a length check: in the arbiter with request data,
  a packet that ends right behind its requests makes \<open>process_areq\<close> read behind the end of the
  packet, although the check on the requests themselves has passed.
\<close>

theorem areq_counts_overread:
  assumes "emulation cfg" "\<not> is_endpoint cfg" "0 < req_data_bytes cfg"
    and "0 < n" "n < 64" "length reqs = 4 * n"
  shows "process_areq cfg c (pre @ put_be16 (push_bit 12 6 OR (of_nat n AND 0x3F)) @ reqs) (length pre) = None"
proof -
  have "unat (of_nat n :: u16) = n" using assms(5) by (simp add: unat_of_nat)
  moreover have "rd_be16 (pre @ put_be16 (push_bit 12 6 OR (of_nat n AND 0x3F)) @ reqs) (length pre)
      = push_bit 12 6 OR (of_nat n AND 0x3F)"
    by (rule rd_put_be16) simp
  ultimately show ?thesis
    using assms areq_count_field(2) [of "of_nat n" 6]
    unfolding process_areq_def Let_def by simp
qed

end
