(* ===== verification/Proto_Run.thy ===== *)
theory Proto_Run
  imports Proto_Wire
begin

text \<open>
  Whole runs of the protocol: any interleaving of sending, receiving arbitrary bytes, timer
  expiry and forced resets. No call asserts, the connection stays consistent, and the
  descriptors are accounted for: every packet that was committed is either still in flight or
  has been freed, once.
\<close>

section \<open>Accounting of descriptors\<close>

fun is_free :: "op_event \<Rightarrow> bool" where
  "is_free (Pktdesc_free _) = True"
| "is_free _ = False"

definition freed :: "fpproto_conn \<Rightarrow> nat" where
  "freed c = length (filter is_free (c_log c))"

definition balance :: "fpproto_conn \<Rightarrow> nat" where
  "balance c = freed c + card (dom (unacked c))"

definition keeps :: "fpproto_conn \<Rightarrow> fpproto_conn \<Rightarrow> bool" where
  "keeps c c' \<longleftrightarrow> conn_inv c' \<and> balance c' = balance c"

lemma keeps_refl: "conn_inv c \<Longrightarrow> keeps c c"
  by (simp add: keeps_def)

lemma keeps_trans: "keeps a b \<Longrightarrow> keeps b c \<Longrightarrow> keeps a c"
  by (simp add: keeps_def)

lemma keepsI_same:
  assumes "conn_inv c'" "unacked c' = unacked c" "c_log c' = c_log c @ es" "list_all (\<lambda>e. \<not> is_free e) es"
  shows "keeps c c'"
proof -
  have "filter is_free es = []" using assms(4) by (induction es) auto
  then show ?thesis using assms by (simp add: keeps_def balance_def freed_def)
qed

lemma keepsI_freed:
  assumes inv: "conn_inv c'" and un: "unacked c' = unacked c |` (- S)" and fin: "conn_inv c"
    and log: "c_log c' = c_log c @ es" and n: "length (filter is_free es) = card (dom (unacked c) \<inter> S)"
  shows "keeps c c'"
proof -
  have "dom (unacked c') = dom (unacked c) - dom (unacked c) \<inter> S" using un by auto
  then have "card (dom (unacked c')) = card (dom (unacked c)) - card (dom (unacked c) \<inter> S)"
    using finite_dom_unacked [OF fin] by (simp add: card_Diff_subset)
  moreover have "card (dom (unacked c) \<inter> S) \<le> card (dom (unacked c))"
    using finite_dom_unacked [OF fin] by (intro card_mono) auto
  ultimately show ?thesis using inv log n by (simp add: keeps_def balance_def freed_def)
qed

lemma card_ran_unacked: "conn_inv c \<Longrightarrow> card (ran (unacked c)) = card (dom (unacked c))"
proof -
  assume inv: "conn_inv c"
  have "ran (unacked c) = (\<lambda>s. the (unacked c s)) ` dom (unacked c)" by (force simp: ran_def dom_def)
  moreover have "inj_on (\<lambda>s. the (unacked c s)) (dom (unacked c))"
    by (rule inj_on_inverseI [where g = pd_seqno]) (use unacked_seqno [OF inv] in auto)
  ultimately show ?thesis by (simp add: card_image)
qed

lemma filter_concat_map: "filter P (concat (map f xs)) = concat (map (\<lambda>x. filter P (f x)) xs)"
  by (induction xs) simp_all

lemma free_events:
  "filter is_free (nack_events ops pd) = []" "filter is_free (skip_events ops pd) = []"
  "filter is_free (ack_events ops pd) = [Pktdesc_free pd]"
  "filter is_free (map Pktdesc_free L) = map Pktdesc_free L"
  "list_all timer_event T \<Longrightarrow> filter is_free T = []"
  by (auto simp: nack_events_def skip_events_def ack_events_def filter_map comp_def filter_empty_conv
      list_all_iff timer_event_def)

section \<open>Every call keeps the account\<close>

lemma keeps_timeout:
  assumes "conn_inv c"
  shows "\<exists>c'. fpproto_handle_timeout c now = Some c' \<and> keeps c c'"
proof -
  from handle_timeout_spec [OF assms, of now] obtain c' es where
    c': "fpproto_handle_timeout c now = Some c'" "conn_inv c'" "unacked c' = unacked c"
    and log: "c_log c' = c_log c @ es" "filter is_free es = []"
    by (auto simp: Let_def filter_concat_map free_events)
  then have "keeps c c'" by (simp add: keeps_def balance_def freed_def)
  with c'(1) show ?thesis by blast
qed

lemma keeps_ack:
  assumes inv: "conn_inv c"
  shows "\<exists>c'. ack_payload_handler cfg c a v = Some c' \<and> keeps c c' \<and> c_ops c' = c_ops c"
proof (cases "wnd_seq_before (c_outwnd c) a")
  case True
  then have "ack_payload_handler cfg c a v = Some (upd_stat (st_too_early_ack_update (\<lambda>n. n + 1))
      (upd_stat (st_ack_payloads_update (\<lambda>n. n + 1)) c))"
    by (simp add: ack_payload_handler_def frame_simps)
  then show ?thesis using inv by (simp add: keeps_def balance_def freed_def frame_simps)
next
  case False
  have "distinct (acked_list c a v)"
  proof -
    have "inj_on (\<lambda>i. a - 63 + of_nat i) (set (bit_list v))"
    proof (rule inj_onI)
      fix i j assume "i \<in> set (bit_list v)" "j \<in> set (bit_list v)" "a - 63 + of_nat i = a - 63 + of_nat j"
      then show "i = j" using offset_seqno_inj [of i j a] bit_list_props(2) by blast
    qed
    then show ?thesis unfolding acked_list_def
      by (intro distinct_filter) (simp add: distinct_map bit_list_def)
  qed
  moreover have "set (acked_list c a v) = dom (unacked c) \<inter> acked_by a v"
    by (auto simp: acked_list_def acked_by_def bit_list_props(1))
  ultimately have "length (acked_list c a v) = card (dom (unacked c) \<inter> acked_by a v)"
    by (metis distinct_card)
  note n = this
  from ack_payload_spec [OF inv False, of cfg v] show ?thesis
  proof (elim exE conjE, goal_cases)
    case (1 c')
    have "keeps c c'"
      by (rule keepsI_freed [OF 1(2,3) inv 1(6)])
        (simp add: filter_concat_map free_events n [symmetric] comp_def length_concat sum_list_triv split: list.split)
    then show ?case using 1(1,4) by (simp add: rx_part_def)
  qed
qed

lemma keeps_freed_all:
  assumes "conn_inv c" "conn_inv c'" "unacked c' = Map.empty" "distinct L" "set L = ran (unacked c)"
    "c_log c' = c_log c @ map Pktdesc_free L @ es" "list_all (\<lambda>e. \<not> is_free e) es"
  shows "keeps c c'"
proof -
  have "filter is_free es = []" using assms(7) by (induction es) auto
  moreover have "length L = card (dom (unacked c))"
    using card_ran_unacked [OF assms(1)] assms(4,5) by (metis distinct_card)
  ultimately show ?thesis
    using assms by (simp add: keeps_def balance_def freed_def filter_map comp_def)
qed

lemma keeps_reset_payload:
  assumes inv: "conn_inv c"
  shows "\<exists>go c'. reset_payload_handler cfg c t now = Some (go, c') \<and> keeps c c'"
proof -
  from reset_payload_spec [OF inv, of cfg t now] obtain go c' where
    r: "reset_payload_handler cfg c t now = Some (go, c')"
    and or: "(conn_inv c' \<and> unacked c' = unacked c \<and> c_log c' = c_log c) \<or>
      (\<exists>u. fresh_after_reset cfg u (is_endpoint cfg) c' \<and> (\<exists>L. distinct L \<and> set L = ran (unacked c)
        \<and> c_log c' = c_log c @ map Pktdesc_free L @ (if has_handle_reset (c_ops c) then [Handle_reset] else [])))"
    by (auto split: if_splits)
  from or have "keeps c c'"
  proof
    assume "conn_inv c' \<and> unacked c' = unacked c \<and> c_log c' = c_log c"
    then show ?thesis by (intro keepsI_same [of _ _ "[]"]) auto
  next
    assume "\<exists>u. fresh_after_reset cfg u (is_endpoint cfg) c' \<and> (\<exists>L. distinct L \<and> set L = ran (unacked c)
        \<and> c_log c' = c_log c @ map Pktdesc_free L @ (if has_handle_reset (c_ops c) then [Handle_reset] else []))"
    then show ?thesis
      using keeps_freed_all [OF inv] by (fastforce simp: fresh_after_reset_def)
  qed
  with r show ?thesis by blast
qed


lemma keeps_frames:
  "keeps c (upd_stat f c') = keeps c c'" "keeps (upd_stat f c) c' = keeps c c'"
  "\<not> is_free e \<Longrightarrow> keeps c (emit_if b e c') = keeps c c'"
  "\<not> is_free e \<Longrightarrow> keeps (emit_if b e c) c' = keeps c c'"
  "keeps c (c'\<lparr>c_in_sync := x\<rparr>) = keeps c c'" "keeps (c\<lparr>c_in_sync := x\<rparr>) c' = keeps c c'"
  "keeps c (c'\<lparr>c_consecutive_bad_pkts := n\<rparr>) = keeps c c'"
  "keeps (c\<lparr>c_consecutive_bad_pkts := n\<rparr>) c' = keeps c c'"
  by (simp_all add: keeps_def balance_def freed_def frame_simps)

lemma keeps_proto_reset:
  assumes "conn_inv c"
  shows "\<exists>c'. do_proto_reset cfg c t sy = Some c' \<and> keeps c c' \<and> fresh_after_reset cfg t sy c'"
proof -
  from do_proto_reset_fresh [OF assms, of cfg t sy] obtain c' L where
    "do_proto_reset cfg c t sy = Some c'" "fresh_after_reset cfg t sy c'"
    "distinct L" "set L = ran (unacked c)" "c_log c' = c_log c @ map Pktdesc_free L @ []" by auto
  then show ?thesis
    using keeps_freed_all [OF assms, of c' L "[]"] by (auto simp: fresh_after_reset_def)
qed

lemma keeps_bad:
  assumes inv: "conn_inv c"
  shows "\<exists>c'. got_bad_packet cfg c now = Some c' \<and> keeps c c'"
proof -
  let ?f = "upd_stat (st_reset_from_bad_pkts_update (\<lambda>n. n + 1))"
  define c1 where "c1 = c\<lparr>c_in_sync := False, c_consecutive_bad_pkts := 0\<rparr>"
  have "conn_inv (?f c1)" using inv by (simp add: c1_def frame_simps)
  from keeps_proto_reset [OF this, of cfg now False] obtain c2 where
    c2: "do_proto_reset cfg (?f c1) now False = Some c2" "keeps (?f c1) c2" by blast
  then have "keeps c c2" by (simp add: c1_def keeps_frames)
  moreover have "keeps c c" using inv by (rule keeps_refl)
  ultimately show ?thesis
    using c2(1) unfolding got_bad_packet_def c1_def by (simp add: Let_def keeps_frames)
qed

lemma keeps_inwnd: "conn_inv c \<Longrightarrow> keeps c (snd (update_inwnd c s))"
proof -
  assume inv: "conn_inv c"
  have fr: "c_outwnd (snd (update_inwnd c s)) = c_outwnd c"
    "c_unacked_pkts (snd (update_inwnd c s)) = c_unacked_pkts c" "c_log (snd (update_inwnd c s)) = c_log c @ []"
    by (simp_all add: update_inwnd_def Let_def upd_stat_def)
  show ?thesis
    using inv unacked_cong [OF fr(1,2)] by (intro keepsI_same [OF _ _ fr(3)]) simp_all
qed

lemma keeps_rx_accept:
  assumes inv: "conn_inv c"
  shows "\<exists>r c'. rx_accept cfg c pkt curp s a = Some (r, c') \<and> keeps c c'"
proof (cases "at_most_once_may_accept c s")
  case False
  then show ?thesis using keeps_refl [OF inv] by (simp add: rx_accept_def)
next
  case True
  obtain c1 where c1: "ack_payload_handler cfg c a (hdr_ack_vec (rd_be16 pkt 4)) = Some c1" "keeps c c1"
    using keeps_ack [OF inv] by blast
  then have inv1: "conn_inv c1" by (simp add: keeps_def)
  obtain c2 where c2: "ack_payload_handler cfg c1 a (ext_ack_vec pkt curp) = Some c2" "keeps c1 c2"
    using keeps_ack [OF inv1] by blast
  have "keeps c c2" by (rule keeps_trans [OF c1(2) c2(2)])
  moreover have "keeps c (snd (update_inwnd c1 s))" by (rule keeps_trans [OF c1(2) keeps_inwnd [OF inv1]])
  ultimately show ?thesis
    using True c1 c2(1) by (simp add: rx_accept_def fpproto_successful_rx_def keeps_frames)
qed

lemma keeps_rx_packet:
  assumes inv: "conn_inv c"
  shows "\<exists>r c'. fpproto_handle_rx_packet cfg addr c pkt now now' = Some (r, c') \<and> keeps c c'"
proof -
  define c0 where "c0 = upd_stat (st_rx_pkts_update (\<lambda>n. n + 1)) c"
  have c0: "conn_inv c0" "keeps c c0" using inv by (simp_all add: c0_def frame_simps keeps_frames keeps_refl)
  obtain cb where cb: "got_bad_packet cfg c0 now' = Some cb" "keeps c0 cb"
    using keeps_bad [OF c0(1)] by blast
  define c1 where "c1 = (got_good_packet c0)\<lparr>c_in_sync := False\<rparr>"
  define c2 where "c2 = (if is_endpoint cfg then c1 else emit_if has_trigger_request Trigger_request c1)"
  define c3 where "c3 = (got_good_packet c0)\<lparr>c_in_sync := True\<rparr>"
  have inv2: "conn_inv c2" "keeps c0 c2" "conn_inv c3" "keeps c0 c3"
    using c0(1) by (simp_all add: c1_def c2_def c3_def got_good_packet_def frame_simps keeps_frames keeps_refl)
  have rst: "\<exists>r c'. do { (go, conn) \<leftarrow> reset_payload_handler cfg c2 t now';
      if \<not> go then Some (None, conn) else rx_accept cfg conn pkt (8 + 8) s a } = Some (r, c') \<and> keeps c c'" for t s a
  proof -
    obtain go c4 where c4: "reset_payload_handler cfg c2 t now' = Some (go, c4)" "keeps c2 c4"
      using keeps_reset_payload [OF inv2(1)] by blast
    then have k4: "keeps c c4" "conn_inv c4"
      using c0(2) inv2(2) keeps_trans by (blast, simp add: keeps_def)
    obtain r c5 where c5: "rx_accept cfg c4 pkt (8 + 8) s a = Some (r, c5)" "keeps c4 c5"
      using keeps_rx_accept [OF k4(2)] by blast
    have "keeps c c5" by (rule keeps_trans [OF k4(1) c5(2)])
    then show ?thesis using c4(1) k4(1) c5(1) by (cases go) simp_all
  qed
  have acc: "\<exists>r c'. rx_accept cfg c3 pkt 8 s a = Some (r, c') \<and> keeps c c'" for s a
    using keeps_rx_accept [OF inv2(3)] keeps_trans [OF c0(2) inv2(4)] keeps_trans by blast
  define pt where "pt = (if length pkt = 8 then 0 else payload_type pkt 8)"
  note kb = keeps_trans [OF c0(2) cb(2)]
  note code = fpproto_handle_rx_packet_def [unfolded Let_def, of cfg addr c pkt now now',
      folded c0_def c1_def c2_def c3_def pt_def]
  consider "length pkt < 8" | "\<not> length pkt < 8" "rx_seqnos cfg c0 pkt pt now = None"
    | s a t where "\<not> length pkt < 8" "rx_seqnos cfg c0 pkt pt now = Some (s, a, t)"
    by (cases "rx_seqnos cfg c0 pkt pt now") auto
  then show ?thesis
  proof cases
    case 3
    show ?thesis
      unfolding code using 3 rst [of t s a] acc [of s a] cb(1) kb
      by (cases "fastpass_checksum addr (set_checksum 0 pkt) s a = rd_checksum pkt";
          cases "pt = FASTPASS_PTYPE_RESET"; cases "is_endpoint cfg") (simp_all add: keeps_frames c2_def)
  qed (simp_all add: code keeps_frames c0(2))
qed


text \<open>
  The payload parser. It returns unless the request data counts of an A-REQ lie outside the
  packet, which only the arbiter with request data reads.
\<close>

definition reads_counts :: "proto_cfg \<Rightarrow> bool" where
  "reads_counts cfg \<longleftrightarrow> emulation cfg \<and> \<not> is_endpoint cfg \<and> 0 < req_data_bytes cfg"

lemma keeps_process_alloc: "conn_inv c \<Longrightarrow> keeps c (snd (process_alloc c pkt i))"
  using keeps_refl by (simp add: process_alloc_def Let_def keeps_frames)

lemma keeps_process_areq: "conn_inv c \<Longrightarrow> process_areq cfg c pkt i = Some (r, c') \<Longrightarrow> keeps c c'"
  using keeps_refl [of c] by (auto simp: process_areq_def Let_def keeps_frames split: if_splits)

lemma process_areq_total: "\<not> reads_counts cfg \<Longrightarrow> \<exists>r c'. process_areq cfg c pkt i = Some (r, c')"
  by (auto simp: process_areq_def Let_def reads_counts_def)

lemma handle_payload_keeps:
  assumes "conn_inv c"
  shows "(handle_payload cfg c pkt curp = Some (r, c') \<longrightarrow> keeps c c')
    \<and> (\<not> reads_counts cfg \<longrightarrow> handle_payload cfg c pkt curp \<noteq> None)"
  using assms
proof (induction cfg c pkt curp arbitrary: r c' rule: handle_payload.induct)
  case (1 cfg c pkt curp)
  note inv = 1(5) and IH = 1(1-4)
  let ?pt = "payload_type pkt curp"
  consider (stop) "\<not> curp < length pkt" | (ack) "curp < length pkt" "?pt = FASTPASS_PTYPE_ACK"
    | (rst) "curp < length pkt" "?pt = FASTPASS_PTYPE_RESET"
    | (alloc) "curp < length pkt" "?pt = FASTPASS_PTYPE_ALLOC \<or> ?pt = FASTPASS_PTYPE_EMU_ALLOC"
    | (areq) "curp < length pkt" "?pt = FASTPASS_PTYPE_AREQ \<or> ?pt = FASTPASS_PTYPE_EMU_AREQ"
    | (other) "curp < length pkt" "?pt \<notin> {FASTPASS_PTYPE_ACK, FASTPASS_PTYPE_RESET, FASTPASS_PTYPE_ALLOC,
        FASTPASS_PTYPE_EMU_ALLOC, FASTPASS_PTYPE_AREQ, FASTPASS_PTYPE_EMU_AREQ}"
    by blast
  then show ?case
  proof cases
    case alloc
    obtain l c1 where p: "process_alloc c pkt curp = (l, c1)" by fastforce
    have k: "keeps c c1" using keeps_process_alloc [OF inv, of pkt curp] p by simp
    then have i1: "conn_inv c1" by (simp add: keeps_def)
    show ?thesis
      using alloc p k IH(3) [of ?pt l c1] i1 keeps_trans [OF k]
      by (subst (1 2) handle_payload.simps) (cases l; auto simp: ptypes)
  next
    case areq
    show ?thesis
    proof (cases "process_areq cfg c pkt curp")
      case None
      then show ?thesis
        using areq process_areq_total [of cfg c pkt curp]
        by (subst (1 2) handle_payload.simps) (auto simp: ptypes)
    next
      case (Some x)
      obtain l c1 where x: "x = (l, c1)" by fastforce
      have k: "keeps c c1" using keeps_process_areq [OF inv] Some x by simp
      then have i1: "conn_inv c1" by (simp add: keeps_def)
      show ?thesis
        using areq Some x k IH(4) [of ?pt x l c1] i1 keeps_trans [OF k]
        by (subst (1 2) handle_payload.simps) (cases l; auto simp: ptypes)
    qed
  next
    case stop
    then have "handle_payload cfg c pkt curp = Some (True, c)" by (subst handle_payload.simps) simp
    then show ?thesis using keeps_refl [OF inv] by auto
  next
    case ack
    then have "handle_payload cfg c pkt curp = handle_payload cfg c pkt (curp + 6)"
      by (subst handle_payload.simps) simp
    then show ?thesis using IH(1) [OF _ refl] ack inv by simp
  next
    case rst
    then have "handle_payload cfg c pkt curp = handle_payload cfg c pkt (curp + 8)"
      by (subst handle_payload.simps) (simp add: ptypes)
    moreover have "FASTPASS_PTYPE_RESET \<noteq> FASTPASS_PTYPE_ACK" by (simp add: ptypes)
    ultimately show ?thesis using IH(2) [OF _ refl] rst inv by simp
  next
    case other
    then have "handle_payload cfg c pkt curp = (if ?pt = FASTPASS_PTYPE_PADDING then Some (True, c)
        else Some (False, upd_stat (st_rx_unknown_payload_update (\<lambda>n. n + 1)) c))"
      by (subst handle_payload.simps) simp
    then show ?thesis using keeps_refl [OF inv] by (auto simp: keeps_frames)
  qed
qed


text \<open>A packet without payload is never handed to the payload parser.\<close>

lemma rx_packet_has_payload:
  assumes "fpproto_handle_rx_packet cfg addr c pkt now now' = Some (Some s, c')"
  shows "length pkt \<noteq> 8"
proof
  assume 8: "length pkt = 8"
  have acc: "rx_accept cfg d pkt 8 u a \<noteq> Some (Some s, c')" for d u a
    using 8 by (auto simp: rx_accept_def bind_eq_Some_conv split: if_splits)
  show False
    using assms 8 acc unfolding fpproto_handle_rx_packet_def Let_def
    by (auto simp: ptypes bind_eq_Some_conv split: option.splits if_splits)
qed

lemma keeps_rx_complete:
  assumes inv: "conn_inv c"
  shows "fpproto_handle_rx_complete cfg addr c pkt now now' = Some c' \<Longrightarrow> keeps c c'"
    and "\<not> reads_counts cfg \<Longrightarrow> fpproto_handle_rx_complete cfg addr c pkt now now' \<noteq> None"
proof -
  obtain r c1 where r: "fpproto_handle_rx_packet cfg addr c pkt now now' = Some (r, c1)" and k: "keeps c c1"
    using keeps_rx_packet [OF inv] by blast
  have i1: "conn_inv c1" using k by (simp add: keeps_def)
  note pl = handle_payload_keeps [OF i1, of cfg pkt 8]
  show "keeps c c'" if "fpproto_handle_rx_complete cfg addr c pkt now now' = Some c'"
  proof (cases r)
    case None
    then show ?thesis using that r k by (simp add: fpproto_handle_rx_complete_def)
  next
    case (Some s)
    with that r obtain ok c2 where h: "handle_payload cfg c1 pkt 8 = Some (ok, c2)"
      and c': "c' = (if ok then snd (update_inwnd c2 s) else c2)"
      by (auto simp: fpproto_handle_rx_complete_def fpproto_perform_rx_callbacks_def
          fpproto_successful_rx_def bind_eq_Some_conv)
    have k2: "keeps c c2" using pl h keeps_trans [OF k] by blast
    then have "keeps c2 (snd (update_inwnd c2 s))" by (intro keeps_inwnd) (simp add: keeps_def)
    then show ?thesis using c' k2 keeps_trans by auto
  qed
  show "fpproto_handle_rx_complete cfg addr c pkt now now' \<noteq> None" if "\<not> reads_counts cfg"
  proof -
    have "handle_payload cfg c1 pkt 8 \<noteq> None" using pl that by blast
    then show ?thesis
      using r rx_packet_has_payload [of cfg addr c pkt now now' _ c1]
      by (auto simp: fpproto_handle_rx_complete_def fpproto_perform_rx_callbacks_def split: option.split)
  qed
qed

lemma balance_send:
  assumes inv: "conn_inv c" and top: "w_head (c_outwnd c) \<noteq> - 1"
  shows "\<exists>c1 c2 pd'. fpproto_prepare_to_send c = Some c1 \<and> fpproto_commit_packet c1 pd ts = Some (c2, pd')
    \<and> conn_inv c2 \<and> balance c2 = balance c + 1"
proof -
  let ?e = "wnd_edge (c_outwnd c)" and ?h = "w_head (c_outwnd c) + 1"
  from prepare_spec [OF inv] obtain c1 where
    c1: "fpproto_prepare_to_send c = Some c1" "conn_inv c1" "unacked c1 = (unacked c)(?e := None)"
    "w_head (c_outwnd c1) = w_head (c_outwnd c)" and k1: "keeps c c1"
  proof (elim exE conjE, goal_cases)
    case (1 c1 T)
    have "(unacked c)(?e := None) = unacked c |` (- {?e})" by (auto simp: restrict_map_def)
    moreover have "length (filter is_free (case unacked c ?e of None \<Rightarrow> []
        | Some pd \<Rightarrow> (if time_after_eq64 ?e (c_next_timeout_seqno c) then nack_events (c_ops c) pd @ T else [])
            @ [Pktdesc_free pd])) = card (dom (unacked c) \<inter> {?e})"
      using 1(7) by (cases "unacked c ?e") (auto simp: free_events Int_insert_right)
    ultimately have "keeps c c1" using 1(4) by (intro keepsI_freed [OF 1(3) _ inv 1(8)]) simp_all
    then show ?case using 1 by blast
  qed
  have "wnd_edge (c_outwnd c1) \<notin> dom (unacked c1)" "w_head (c_outwnd c1) \<noteq> - 1"
    using c1(3,4) top by (simp_all add: wnd_edge_def)
  from commit_spec [OF c1(2) this(2,1), of pd ts] obtain c2 pd' T where
    c2: "fpproto_commit_packet c1 pd ts = Some (c2, pd')" "conn_inv c2"
    "unacked c2 = (unacked c1)(?h \<mapsto> pd')" "list_all timer_event T" "c_log c2 = c_log c1 @ T"
    using c1(4) by auto
  have new: "?h \<notin> dom (unacked c1)"
  proof
    assume "?h \<in> dom (unacked c1)"
    then have "in_wnd (c_outwnd c1) ?h" using dom_unacked [OF c1(2)] wnd_set_in_wnd by blast
    then show False by (simp add: in_wnd_def wnd_back_def c1(4))
  qed
  have "balance c2 = balance c1 + 1"
    using new finite_dom_unacked [OF c1(2)] c2(4)
    by (simp add: balance_def freed_def c2(3,5) free_events)
  then show ?thesis using k1 c1(1) c2(1,2) by (auto simp: keeps_def)
qed


section \<open>Runs\<close>

text \<open>
  The memory of a connection before \<open>fpproto_init_conn\<close>, filled with zeros by its user.
\<close>

definition zero_stat :: fp_proto_stat where
  "zero_stat = \<lparr>st_version = 0, st_out_max_seqno = 0, st_timeout_handler_runs = 0, st_ack_payloads = 0,
     st_too_early_ack = 0, st_acked_packets = 0, st_timeout_pkts = 0, st_skip_ack_pkts = 0,
     st_informative_ack_payloads = 0, st_reprogrammed_timer = 0, st_earliest_unacked = 0,
     st_committed_pkts = 0, st_never_acked_pkts = 0, st_next_timeout_seqno = 0, st_next_skip_ack_seqno = 0,
     st_tx_num_unacked = 0, st_fall_off_outwnd = 0, st_rx_pkts = 0, st_rx_too_short = 0,
     st_rx_unknown_payload = 0, st_rx_incomplete_reset = 0, st_rx_incomplete_alloc = 0,
     st_rx_incomplete_ack = 0, st_rx_incomplete_areq = 0, st_rx_dup_pkt = 0, st_rx_out_of_order = 0,
     st_rx_checksum_error = 0, st_in_max_seqno = 0, st_inwnd_jumped = 0, st_seqno_before_inwnd = 0,
     st_consecutive_bad_pkts = 0, st_inwnd = 0, st_in_sync = False, st_last_reset_time = 0,
     st_reset_payloads = 0, st_proto_resets = 0, st_redundant_reset = 0,
     st_reset_both_recent_last_reset_wins = 0, st_reset_both_recent_payload_wins = 0,
     st_reset_last_recent_payload_old = 0, st_reset_last_old_payload_recent = 0, st_reset_both_old = 0,
     st_no_reset_because_recent = 0, st_reset_from_bad_pkts = 0, st_forced_reset = 0\<rparr>"

definition no_ops :: fpproto_ops where
  "no_ops = \<lparr>has_handle_reset = False, has_handle_ack = False, has_handle_neg_ack = False,
     has_handle_skipped_ack = False, has_trigger_request = False, has_handle_alloc = False,
     has_handle_areq = False, alloc_bytes_per_tslot = 0\<rparr>"

definition zero_conn :: fpproto_conn where
  "zero_conn = \<lparr>c_last_reset_time = 0, c_in_max_seqno = 0, c_in_sync = False, c_ops = no_ops,
     c_rst_win_ns = 0, c_send_timeout = 0, c_consecutive_bad_pkts = 0,
     c_outwnd = \<lparr>w_marked = replicate 4 0, w_summary = 0, w_head = 0, w_head_word = 0, w_num_marked = 0\<rparr>,
     c_unacked_pkts = replicate 256 None, c_next_timeout_seqno = 0, c_next_skip_ack_seqno = 0,
     c_inwnd = 0, c_stat = zero_stat, c_log = []\<rparr>"

lemma zero_conn_props: "conn_inv zero_conn" "unacked zero_conn = Map.empty" "c_log zero_conn = []"
proof -
  let ?w = "c_outwnd zero_conn"
  have "?w = wnd_reset ?w 0"
    by (simp add: zero_conn_def wnd_reset_def FASTPASS_WND_WORDS_def wnd_pos_def BIT_WORD_def)
  with fpw.reset_ok [of ?w 0] have w: "wnd_inv ?w" "wnd_set ?w = {}" by simp_all
  then show "conn_inv zero_conn" by (simp add: conn_inv_def) (simp add: zero_conn_def)
  show "unacked zero_conn = Map.empty" using w(2) by (simp add: unacked_def fun_eq_iff)
  show "c_log zero_conn = []" by (simp add: zero_conn_def)
qed

text \<open>
  \<open>proto_run cfg n c\<close>: the connection \<open>c\<close> is reachable with \<open>n\<close> packets committed. Received
  packets are arbitrary bytes at an arbitrary address, clocks are arbitrary.
\<close>

inductive proto_run :: "proto_cfg \<Rightarrow> nat \<Rightarrow> fpproto_conn \<Rightarrow> bool" for cfg :: proto_cfg where
  init: "fpproto_init_conn cfg zero_conn ops rst_win timeout now = Some c \<Longrightarrow> proto_run cfg 0 c"
| send: "proto_run cfg n c \<Longrightarrow> w_head (c_outwnd c) \<noteq> - 1 \<Longrightarrow> fpproto_prepare_to_send c = Some c1 \<Longrightarrow>
    fpproto_commit_packet c1 pd ts = Some (c2, pd') \<Longrightarrow> proto_run cfg (n + 1) c2"
| recv: "proto_run cfg n c \<Longrightarrow> fpproto_handle_rx_complete cfg addr c pkt now now' = Some c' \<Longrightarrow> proto_run cfg n c'"
| tick: "proto_run cfg n c \<Longrightarrow> fpproto_handle_timeout c now = Some c' \<Longrightarrow> proto_run cfg n c'"
| force: "proto_run cfg n c \<Longrightarrow> fpproto_force_reset cfg c now = Some c' \<Longrightarrow> proto_run cfg n c'"
| stats: "proto_run cfg n c \<Longrightarrow> proto_run cfg n (fpproto_update_internal_stats c)"

inductive_cases proto_run_zeroE: "proto_run cfg 0 c"

lemma init_spec:
  "\<exists>c. fpproto_init_conn cfg zero_conn ops rst_win timeout now = Some c \<and> fresh_after_reset cfg now False c
    \<and> balance c = 0"
proof -
  from keeps_proto_reset [OF zero_conn_props(1), of cfg now False] obtain c where
    c: "do_proto_reset cfg zero_conn now False = Some c" "keeps zero_conn c" "fresh_after_reset cfg now False c"
    by blast
  let ?c = "c\<lparr>c_ops := ops, c_rst_win_ns := rst_win, c_send_timeout := ucast timeout\<rparr>"
  have "unacked ?c = unacked c" "conn_inv ?c = conn_inv c" by (rule unacked_cong; simp)+
  moreover have "balance zero_conn = 0" by (simp add: balance_def freed_def zero_conn_props)
  ultimately show ?thesis
    using c by (simp add: fpproto_init_conn_def fresh_after_reset_def keeps_def balance_def freed_def)
qed

lemma force_spec: "conn_inv c \<Longrightarrow> \<exists>c'. fpproto_force_reset cfg c now = Some c' \<and> keeps c c'"
  using keeps_proto_reset [of "upd_stat (st_forced_reset_update (\<lambda>n. n + 1)) c" cfg now False]
  by (auto simp: fpproto_force_reset_def keeps_frames frame_simps)

lemma proto_run_account: "proto_run cfg n c \<Longrightarrow> conn_inv c \<and> balance c = n"
proof (induction rule: proto_run.induct)
  case (init ops rst_win timeout now c)
  then show ?case using init_spec [of cfg ops rst_win timeout now] by (auto simp: fresh_after_reset_def)
next
  case (send n c c1 pd ts c2 pd')
  then show ?case using balance_send [of c pd ts] by auto
next
  case (recv n c addr pkt now now' c')
  then show ?case using keeps_rx_complete(1) [of c] by (auto simp: keeps_def)
next
  case (tick n c now c')
  then show ?case using keeps_timeout [of c now] by (auto simp: keeps_def)
next
  case (force n c now c')
  then show ?case using force_spec [of c cfg now] by (auto simp: keeps_def)
next
  case (stats n c)
  then show ?case
    by (simp add: fpproto_update_internal_stats_def frame_simps balance_def freed_def)
qed

end
