(* ===== verification/Proto_Props.thy ===== *)
theory Proto_Props
  imports Proto_Run
begin

text \<open>
  The properties of the protocol in the form in which a user of \<^verbatim>\<open>fpproto.h\<close> relies on them, with
  concrete instances. The instances use an end node that was initialised at time 5 and the
  connection after its first packet was sent.
\<close>

section \<open>Concrete connections\<close>

definition ex_cfg :: proto_cfg where
  "ex_cfg = \<lparr>is_endpoint = True, emulation = False, req_data_bytes = 0, alloc_data_bytes = 0\<rparr>"

definition ex_conn :: fpproto_conn where
  "ex_conn = the (fpproto_init_conn ex_cfg zero_conn no_ops 1000 100 5)"

definition ex_pd :: fpproto_pktdesc where
  "ex_pd = \<lparr>pd_sent_timestamp = 0, pd_seqno = 0, pd_ack_seq = 0, pd_ack_vec = 0, pd_send_reset = False,
     pd_reset_timestamp = 0, pd_n_areq = 1, pd_areq = [\<lparr>areq_src_dst_key = 3, areq_tslots = 7\<rparr>],
     pd_areq_data_type = 0, pd_areq_data_bytes = 0, pd_areq_data_counts = [0], pd_areq_data = [],
     pd_alloc_tslot = 2, pd_used_alloc_tslot = 2, pd_base_tslot = 9, pd_n_dsts = 1, pd_dsts = [5],
     pd_tslot_desc = [0x10, 0x10], pd_emu_tslot_desc = []\<rparr>"

definition ex_conn1 :: fpproto_conn where
  "ex_conn1 = fst (the (fpproto_commit_packet (the (fpproto_prepare_to_send ex_conn)) ex_pd 20))"

definition ex_base :: u64 where
  "ex_base = base_seqno_from_timestamp 5"

lemma ex_base_eq: "ex_base = 3625521395935506565"
  unfolding ex_base_def by code_simp

lemma ex_conn_props:
  "fpproto_init_conn ex_cfg zero_conn no_ops 1000 100 5 = Some ex_conn"
  "fresh_after_reset ex_cfg 5 False ex_conn" "conn_inv ex_conn" "unacked ex_conn = Map.empty"
  "w_head (c_outwnd ex_conn) = ex_base - 1"
proof -
  obtain c where c: "fpproto_init_conn ex_cfg zero_conn no_ops 1000 100 5 = Some c" "fresh_after_reset ex_cfg 5 False c"
    using init_spec by blast
  then show "fpproto_init_conn ex_cfg zero_conn no_ops 1000 100 5 = Some ex_conn" by (simp add: ex_conn_def)
  with c show f: "fresh_after_reset ex_cfg 5 False ex_conn" by simp
  then show "conn_inv ex_conn" "unacked ex_conn = Map.empty" by (simp_all add: fresh_after_reset_def)
  from f show "w_head (c_outwnd ex_conn) = ex_base - 1"
    by (simp add: fresh_after_reset_def ex_base_def ex_cfg_def FASTPASS_EGRESS_SEQNO_OFFSET_def
        FASTPASS_TO_CONTROLLER_SEQNO_OFFSET_def)
qed

lemma ex_run0: "proto_run ex_cfg 0 ex_conn"
  using ex_conn_props(1) by (rule proto_run.init)

lemma ex_conn1_props:
  "proto_run ex_cfg 1 ex_conn1" "conn_inv ex_conn1" "w_head (c_outwnd ex_conn1) = ex_base"
  "\<exists>pd. unacked ex_conn1 = [ex_base \<mapsto> pd]"
proof -
  have top: "w_head (c_outwnd ex_conn) \<noteq> - 1" by (simp add: ex_conn_props(5) ex_base_eq)
  from prepare_spec [OF ex_conn_props(3)] obtain c1 where
    c1: "fpproto_prepare_to_send ex_conn = Some c1" "conn_inv c1" "unacked c1 = Map.empty"
    "w_head (c_outwnd c1) = ex_base - 1" by (auto simp: ex_conn_props(4,5))
  have "w_head (c_outwnd c1) \<noteq> - 1" "wnd_edge (c_outwnd c1) \<notin> dom (unacked c1)"
    using c1(3,4) by (simp_all add: ex_base_eq)
  from commit_spec [OF c1(2) this, of ex_pd 20] obtain c2 pd' where
    c2: "fpproto_commit_packet c1 ex_pd 20 = Some (c2, pd')" "conn_inv c2" "w_head (c_outwnd c2) = ex_base"
    "unacked c2 = [ex_base \<mapsto> pd']" by (auto simp: c1(3,4))
  have eq: "ex_conn1 = c2" by (simp add: ex_conn1_def c1(1) c2(1))
  show "proto_run ex_cfg 1 ex_conn1"
    using proto_run.send [OF ex_run0 top c1(1) c2(1)] eq by simp
  show "conn_inv ex_conn1" "w_head (c_outwnd ex_conn1) = ex_base" using c2 eq by simp_all
  show "\<exists>pd. unacked ex_conn1 = [ex_base \<mapsto> pd]" using c2(4) eq by blast
qed

section \<open>Whole runs\<close>



text \<open>
  C17. No call of a reachable connection fails an assertion, follows a null descriptor or loops
  forever: packets of arbitrary content, timer expiry, forced resets and, while the 64-bit
  sequence number is not exhausted, sending. (Payload parsing in an arbiter that expects request data
  is excluded: there the code reads counts it has not checked.)
\<close>

theorem run_never_fails:
  assumes "proto_run cfg n c"
  shows "(\<exists>r c'. fpproto_handle_rx_packet cfg addr c pkt now now' = Some (r, c'))
    \<and> (\<not> (emulation cfg \<and> \<not> is_endpoint cfg \<and> 0 < req_data_bytes cfg) \<longrightarrow>
         (\<exists>c'. fpproto_handle_rx_complete cfg addr c pkt now now' = Some c'))
    \<and> (\<exists>c'. fpproto_handle_timeout c now = Some c')
    \<and> (\<exists>c'. fpproto_force_reset cfg c now = Some c')
    \<and> (w_head (c_outwnd c) \<noteq> - 1 \<longrightarrow> (\<exists>c1 c2 pd'. fpproto_prepare_to_send c = Some c1
         \<and> fpproto_commit_packet c1 pd ts = Some (c2, pd')))"
proof -
  have inv: "conn_inv c" using proto_run_account [OF assms] by simp
  show ?thesis
    using keeps_rx_packet [OF inv, of cfg addr pkt now now'] keeps_rx_complete(2) [OF inv, of cfg addr pkt now now']
      keeps_timeout [OF inv, of now] force_spec [OF inv, of cfg now] balance_send [OF inv, of pd ts]
    unfolding reads_counts_def by blast
qed

theorem run_never_fails_witness:
  "(\<exists>c'. fpproto_handle_rx_complete ex_cfg 0 ex_conn1 [1, 2, 3, 4, 5, 6, 7, 8, 0x35] 30 31 = Some c')
    \<and> (\<exists>c'. fpproto_handle_timeout ex_conn1 1000 = Some c')"
  using run_never_fails [OF ex_conn1_props(1), of 0 "[1, 2, 3, 4, 5, 6, 7, 8, 0x35]" 30 31]
    run_never_fails [OF ex_conn1_props(1), of 0 "[]" 1000]
  by (simp add: ex_cfg_def)


section \<open>Sending, acknowledgements and timeouts\<close>

theorem send_packet_correct_witness:
  "\<exists>c1 c2 pd'. fpproto_prepare_to_send ex_conn = Some c1 \<and> fpproto_commit_packet c1 ex_pd 20 = Some (c2, pd')
    \<and> unacked c2 = [ex_base \<mapsto> pd'] \<and> pd_seqno pd' = ex_base"
  using send_packet_correct [OF ex_conn_props(3), of ex_pd 20]
  by (simp add: ex_conn_props(4,5) ex_base_eq) blast

fun is_ack :: "op_event \<Rightarrow> bool" where
  "is_ack (Handle_ack _) = True"
| "is_ack _ = False"

lemma ack_filters:
  "filter is_ack (nack_events ops pd) = []" "filter is_ack (skip_events ops pd) = []"
  "filter is_ack (ack_events ops pd) = (if has_handle_ack ops then [Handle_ack pd] else [])"
  by (auto simp: nack_events_def skip_events_def ack_events_def)


lemma ex_acked: "acked_list ex_conn1 ex_base (push_bit 63 1) = [ex_base]"
proof -
  have "{i. bit (push_bit 63 1 :: u64) i} = {63}" by (auto simp: bit_single simp del: push_bit_of_1)
  then have "bit_list (push_bit 63 1) = [63]" by (simp add: bit_list_def del: push_bit_of_1)
  then show ?thesis using ex_conn1_props(4) by (auto simp: acked_list_def simp del: push_bit_of_1)
qed

definition ex_conn2 :: fpproto_conn where
  "ex_conn2 = ex_conn1\<lparr>c_ops := no_ops\<lparr>has_handle_ack := True, has_handle_neg_ack := True\<rparr>\<rparr>"

lemma ex_conn2_props:
  "conn_inv ex_conn2" "unacked ex_conn2 = unacked ex_conn1" "c_outwnd ex_conn2 = c_outwnd ex_conn1"
  "acked_list ex_conn2 ex_base (push_bit 63 1) = [ex_base]" "has_handle_ack (c_ops ex_conn2)"
proof -
  have eq: "c_outwnd ex_conn2 = c_outwnd ex_conn1" "c_unacked_pkts ex_conn2 = c_unacked_pkts ex_conn1"
    by (simp_all add: ex_conn2_def)
  note same = unacked_cong [OF eq]
  show "conn_inv ex_conn2" "unacked ex_conn2 = unacked ex_conn1" "c_outwnd ex_conn2 = c_outwnd ex_conn1"
    using same ex_conn1_props(2) eq by simp_all
  show "acked_list ex_conn2 ex_base (push_bit 63 1) = [ex_base]"
    using ex_acked same by (simp add: acked_list_def del: push_bit_of_1)
  show "has_handle_ack (c_ops ex_conn2)" by (simp add: ex_conn2_def no_ops_def)
qed


text \<open>
  C20. A run of the timeout handler: of the packets in flight whose loss has not been reported, in
  sequence order, exactly the leading ones whose time has passed are reported as lost, each
  once; all packets stay in flight; the timer is set for the first packet that has time left,
  and for no packet if there is none.
\<close>

theorem handle_timeout_correct:
  fixes now :: u64
  assumes inv: "conn_inv c" and ops: "has_handle_neg_ack (c_ops c)"
  defines "L \<equiv> pending (c_outwnd c) (c_next_timeout_seqno c)"
  defines "late \<equiv> takeWhile (\<lambda>s. \<not> time_after64 (pd_sent_timestamp (the (unacked c s)) + ucast (c_send_timeout c)) now) L"
  shows "\<exists>c'. fpproto_handle_timeout c now = Some c' \<and> conn_inv c' \<and> unacked c' = unacked c
    \<and> c_log c' = c_log c @ map (\<lambda>s. Handle_neg_ack (the (unacked c s))) late
        @ (if length late = length L then []
           else [Set_timer (pd_sent_timestamp (the (unacked c (L ! length late))) + ucast (c_send_timeout c))])
    \<and> c_next_timeout_seqno c' = (if length late = length L then w_head (c_outwnd c) + 1 else L ! length late)"
proof -
  have ex: "(\<lambda>s. \<not> time_after64 (pd_sent_timestamp (the (unacked c s)) + ucast (c_send_timeout c)) now) = expired c now"
    by (simp add: expired_def pkt_timeout_def fun_eq_iff)
  define rest where "rest = dropWhile (expired c now) L"
  have L: "L = late @ rest" by (simp add: late_def rest_def ex)
  then have full: "length late = length L \<longleftrightarrow> rest = []" and nth: "rest \<noteq> [] \<Longrightarrow> L ! length late = hd rest"
    by (auto simp: nth_append hd_conv_nth)
  have le: "takeWhile (expired c now) L = late" by (simp add: late_def ex)
  from handle_timeout_spec [OF inv, of now, folded L_def, unfolded Let_def le rest_def [symmetric]] show ?thesis
    using ops nth unfolding full by (auto simp: nack_events_def concat_map_singleton pkt_timeout_def)
qed

theorem handle_timeout_correct_witness:
  "\<exists>c'. fpproto_handle_timeout ex_conn2 1000 = Some c' \<and> unacked c' = unacked ex_conn1"
  using handle_timeout_correct [OF ex_conn2_props(1), of 1000] unfolding ex_conn2_props(2)
  by (auto simp: ex_conn2_def)


section \<open>Resets\<close>

text \<open>
  The decision table in the comment of \<open>reset_payload_handler\<close>. Which reset time the
  connection has afterwards: the old one, when the payload repeats it or when the last reset is
  recent and the payload is not recent or is older; else the payload's, when it is recent;
  else the current time. The packet is processed further exactly when the connection then runs on
  the payload's time, and whenever the time changes, nothing remains in flight and the end node is
  in sync.
\<close>

theorem reset_decision_table:
  fixes t now :: u64
  assumes inv: "conn_inv c"
  defines "last_recent \<equiv> tstamp_in_window (c_last_reset_time c) now (c_rst_win_ns c)"
    and "payload_recent \<equiv> tstamp_in_window t now (c_rst_win_ns c)"
  defines "stay \<equiv> t = c_last_reset_time c
      \<or> last_recent \<and> (\<not> payload_recent \<or> time_before64 t (c_last_reset_time c))"
  shows "\<exists>go c'. reset_payload_handler cfg c t now = Some (go, c') \<and> conn_inv c'
    \<and> (go \<longleftrightarrow> t = c_last_reset_time c \<or> \<not> stay \<and> payload_recent)
    \<and> c_last_reset_time c' = (if stay then c_last_reset_time c else if payload_recent then t else now)
    \<and> unacked c' = (if stay then unacked c else Map.empty)
    \<and> (\<not> stay \<longrightarrow> c_in_sync c' = is_endpoint cfg)"
proof -
  from reset_payload_spec [OF inv, of cfg t now, folded last_recent_def payload_recent_def] show ?thesis
  proof (elim exE conjE, goal_cases)
    case (1 go c')
    then show ?case
      by (intro exI [of _ go] exI [of _ c'])
        (auto simp: stay_def fresh_after_reset_def rx_part_def split: if_splits)
  qed
qed

theorem reset_decision_table_witness:
  "\<exists>c'. reset_payload_handler ex_cfg ex_conn1 (c_last_reset_time ex_conn1) 7 = Some (True, c')"
  using reset_decision_table [OF ex_conn1_props(2), of ex_cfg "c_last_reset_time ex_conn1" 7] by auto

text \<open>
  C21. A RESET exchange synchronises the two ends: when the arbiter accepts the reset time of an
  end node that has just reset, then what each side will send next is what the other side expects
  next, and nothing is in flight at the arbiter.
\<close>

theorem reset_synchronises:
  assumes e: "fresh_after_reset ce t sy e" and ce: "is_endpoint ce" and ca: "\<not> is_endpoint ca"
    and a: "conn_inv a" "c_last_reset_time a \<noteq> t"
      "tstamp_in_window t now (c_rst_win_ns a)"
      "tstamp_in_window (c_last_reset_time a) now (c_rst_win_ns a) \<longrightarrow> \<not> time_before64 t (c_last_reset_time a)"
  shows "\<exists>a'. reset_payload_handler ca a t now = Some (True, a') \<and> unacked a' = Map.empty
    \<and> c_in_max_seqno a' = wnd_head (c_outwnd e) \<and> wnd_head (c_outwnd a') = c_in_max_seqno e
    \<and> at_most_once_may_accept a' (wnd_head (c_outwnd e) + 1)"
proof -
  from reset_payload_spec [OF a(1), of ca t now] a obtain a' where
    a': "reset_payload_handler ca a t now = Some (True, a')" "fresh_after_reset ca t False a'"
    using ca by (auto split: if_splits)
  have eq: "c_in_max_seqno a' = w_head (c_outwnd e)" "w_head (c_outwnd a') = c_in_max_seqno e"
    using a'(2) e ce ca
    by (simp_all add: fresh_after_reset_def FASTPASS_EGRESS_SEQNO_OFFSET_def FASTPASS_INGRESS_SEQNO_OFFSET_def)
  have "at_most_once_may_accept a' (w_head (c_outwnd e) + 1)"
    by (simp add: at_most_once_may_accept_def eq(1) time_cmp)
  then show ?thesis using a' eq by (auto simp: wnd_head_def fresh_after_reset_def)
qed

definition ex_cfg_arb :: proto_cfg where
  "ex_cfg_arb = \<lparr>is_endpoint = False, emulation = False, req_data_bytes = 0, alloc_data_bytes = 0\<rparr>"

definition ex_arb :: fpproto_conn where
  "ex_arb = the (fpproto_init_conn ex_cfg_arb zero_conn no_ops 1000 100 3)"

lemma init_timeouts:
  "fpproto_init_conn cfg zero_conn ops rw tmo now = Some c \<Longrightarrow> c_rst_win_ns c = rw"
  by (auto simp: fpproto_init_conn_def bind_eq_Some_conv)

lemma ex_arb_props: "conn_inv ex_arb" "c_last_reset_time ex_arb = 3" "c_rst_win_ns ex_arb = 1000"
proof -
  obtain c where c: "fpproto_init_conn ex_cfg_arb zero_conn no_ops 1000 100 3 = Some c"
    "fresh_after_reset ex_cfg_arb 3 False c" using init_spec by blast
  then show "conn_inv ex_arb" "c_last_reset_time ex_arb = 3" "c_rst_win_ns ex_arb = 1000"
    using init_timeouts [OF c(1)] by (simp_all add: ex_arb_def fresh_after_reset_def)
qed

theorem reset_synchronises_witness:
  "\<exists>a'. reset_payload_handler ex_cfg_arb ex_arb 5 500 = Some (True, a') \<and>
    c_in_max_seqno a' = wnd_head (c_outwnd ex_conn)"
proof -
  have w: "tstamp_in_window 5 500 (c_rst_win_ns ex_arb)" "tstamp_in_window 3 500 (c_rst_win_ns ex_arb)"
    by (simp_all add: ex_arb_props tstamp_in_window_def)
  show ?thesis
    using reset_synchronises [OF ex_conn_props(2), of ex_cfg_arb ex_arb 500] w
    by (auto simp: ex_cfg_def ex_cfg_arb_def ex_arb_props time_cmp)
qed


theorem got_bad_packet_correct_witness:
  "\<exists>c'. got_bad_packet ex_cfg ex_conn 100 = Some c' \<and> \<not> c_in_sync c' \<and> unacked c' = Map.empty"
proof -
  have "c_consecutive_bad_pkts ex_conn < FASTPASS_BAD_PKT_RESET_THRESHOLD"
    "c_consecutive_bad_pkts ex_conn \<noteq> FASTPASS_BAD_PKT_RESET_THRESHOLD - 1"
    using ex_conn_props(2) by (simp_all add: fresh_after_reset_def FASTPASS_BAD_PKT_RESET_THRESHOLD_def)
  then show ?thesis
    using got_bad_packet_correct [OF ex_conn_props(3), of ex_cfg 100] ex_conn_props(4) by auto
qed

section \<open>Reception\<close>


text \<open>The example packet, as a data packet with number \<open>ex_base\<close>.\<close>

definition ex_data :: fpproto_pktdesc where
  "ex_data = ex_pd\<lparr>pd_seqno := c_in_max_seqno ex_arb + 1, pd_ack_seq := w_head (c_outwnd ex_arb)\<rparr>"

lemma encode_ex_data:
  "\<exists>pkt. fpproto_encode_packet ex_cfg 0 ex_data 0 100 0 = Inr pkt"
  by (simp add: fpproto_encode_packet_def Let_def ex_data_def ex_pd_def ex_cfg_def encode_areq_def)


definition ex_reset :: fpproto_pktdesc where
  "ex_reset = ex_pd\<lparr>pd_send_reset := True, pd_reset_timestamp := 5, pd_seqno := ex_base,
     pd_ack_seq := ex_base + FASTPASS_TO_ENDPOINT_SEQNO_OFFSET - 1\<rparr>"

theorem reset_packet_understood_witness:
  "\<exists>pkt. fpproto_encode_packet ex_cfg 0 ex_reset 0 100 0 = Inr pkt \<and>
    fpproto_handle_rx_packet ex_cfg_arb 0 ex_arb pkt 10 11 \<noteq> None"
proof -
  obtain pkt where pkt: "fpproto_encode_packet ex_cfg 0 ex_reset 0 100 0 = Inr pkt"
    by (simp add: fpproto_encode_packet_def Let_def ex_reset_def ex_pd_def ex_cfg_def encode_areq_def encode_reset_def)
  let ?c = "emit_if has_trigger_request Trigger_request
    ((got_good_packet (upd_stat (st_rx_pkts_update (\<lambda>n. n + 1)) ex_arb))\<lparr>c_in_sync := False\<rparr>)"
  have "pd_send_reset ex_reset" "unat (pd_reset_timestamp ex_reset - (10 - 2 ^ 55)) < 2 ^ 56"
    "unat (pd_seqno ex_reset - (base_seqno_from_timestamp (pd_reset_timestamp ex_reset)
        + FASTPASS_INGRESS_SEQNO_OFFSET ex_cfg_arb)) < 2 ^ 16"
    "unat (pd_ack_seq ex_reset - (base_seqno_from_timestamp (pd_reset_timestamp ex_reset)
        + FASTPASS_EGRESS_SEQNO_OFFSET ex_cfg_arb - 1)) < 2 ^ 16"
    by (simp_all add: ex_reset_def ex_pd_def ex_cfg_arb_def ex_base_def FASTPASS_EGRESS_SEQNO_OFFSET_def
        FASTPASS_INGRESS_SEQNO_OFFSET_def FASTPASS_TO_CONTROLLER_SEQNO_OFFSET_def)
  from reset_packet_understood [OF pkt this, of ex_arb 11]
  have code: "fpproto_handle_rx_packet ex_cfg_arb 0 ex_arb pkt 10 11 = do {
      (go, c2) \<leftarrow> reset_payload_handler ex_cfg_arb ?c 5 11;
      if \<not> go then Some (None, c2) else rx_accept ex_cfg_arb c2 pkt 16 (pd_seqno ex_reset) (pd_ack_seq ex_reset) }"
    by (simp add: ex_cfg_arb_def ex_reset_def)
  have "conn_inv ?c" using ex_arb_props(1) by (simp add: got_good_packet_def frame_simps)
  from keeps_reset_payload [OF this] obtain go c2 where
    c2: "reset_payload_handler ex_cfg_arb ?c 5 11 = Some (go, c2)" "keeps ?c c2" by blast
  then have "conn_inv c2" by (simp add: keeps_def)
  then show ?thesis
    using keeps_rx_accept [of c2 ex_cfg_arb pkt 16 "pd_seqno ex_reset" "pd_ack_seq ex_reset"] c2(1) pkt code
    by auto
qed

section \<open>Payloads\<close>

theorem alloc_payload_roundtrip_witness:
  "process_alloc (zero_conn\<lparr>c_ops := no_ops\<lparr>alloc_bytes_per_tslot := 1\<rparr>\<rparr>)
     (encode_alloc ex_cfg_arb ex_pd @ [0, 0]) 0
   = (Some 8, zero_conn\<lparr>c_ops := no_ops\<lparr>alloc_bytes_per_tslot := 1\<rparr>\<rparr>)
   \<and> fst (process_alloc (zero_conn\<lparr>c_ops := no_ops\<lparr>alloc_bytes_per_tslot := 1\<rparr>\<rparr>)
     (encode_alloc ex_cfg_arb ex_pd) 0) = None"
proof -
  let ?c = "zero_conn\<lparr>c_ops := no_ops\<lparr>alloc_bytes_per_tslot := 1\<rparr>\<rparr>"
  have wf: "alloc_wf ex_cfg_arb ex_pd" "alloc_bytes_per_tslot (c_ops ?c) = bytes_per_tslot ex_cfg_arb"
    by (simp_all add: alloc_wf_def ex_cfg_arb_def ex_pd_def bytes_per_tslot_def)
  have "length (encode_alloc ex_cfg_arb ex_pd) = 8"
    by (simp add: encode_alloc_def ex_cfg_arb_def ex_pd_def)
  then show ?thesis
    using alloc_payload_roundtrip [OF wf, of "[]" "[0, 0]"] alloc_payload_roundtrip [OF wf, of "[]" "[]"]
    by (simp add: emit_if_def no_ops_def)
qed

theorem areq_payload_roundtrip_witness:
  "process_areq ex_cfg_arb zero_conn (encode_areq ex_cfg ex_pd 0) 0 = Some (Some 6, zero_conn)"
proof -
  have "areq_wf ex_pd" "is_endpoint ex_cfg" "\<not> is_endpoint ex_cfg_arb" "emulation ex_cfg_arb = emulation ex_cfg"
    "emulation ex_cfg \<and> 0 < req_data_bytes ex_cfg_arb \<longrightarrow> pd_areq_data_type ex_pd \<noteq> 0
        \<and> length (areq_extra ex_cfg ex_pd 0) = areq_skip ex_cfg_arb ex_pd"
    "\<not> (emulation ex_cfg \<and> 0 < req_data_bytes ex_cfg_arb) \<longrightarrow> areq_extra ex_cfg ex_pd 0 = []"
    by (simp_all add: areq_wf_def ex_pd_def ex_cfg_def ex_cfg_arb_def areq_extra_def)
  from areq_payload_roundtrip [OF this, of zero_conn "[]" "[]"] show ?thesis
    by (simp add: emit_if_def zero_conn_def no_ops_def encode_areq_def ex_cfg_def ex_pd_def)
qed

theorem areq_counts_overread_witness:
  "process_areq \<lparr>is_endpoint = False, emulation = True, req_data_bytes = 2, alloc_data_bytes = 0\<rparr> zero_conn
     (put_be16 (push_bit 12 6 OR (of_nat 1 AND 0x3F)) @ [0, 1, 0, 2]) 0 = None"
  using areq_counts_overread [of "\<lparr>is_endpoint = False, emulation = True, req_data_bytes = 2, alloc_data_bytes = 0\<rparr>"
      1 "[0, 1, 0, 2]" zero_conn "[]"] by simp

end
