(* ===== verification/Pacer.thy ===== *)
theory Pacer
  imports Platform
begin

text \<open>
  The pacer of \<^verbatim>\<open>src/src/protocol/pacer.h\<close>, a token bucket that an end node uses to space its
  requests: the operations on the 64-bit clock, and the rate and burst bounds they enforce.
\<close>

section \<open>Operations\<close>

definition PACER_NO_NEXT_EVENT :: u64 where
  "PACER_NO_NEXT_EVENT = NOT 0"

record fp_pacer =
  pa_T :: u64
  pa_next_event :: u64
  pa_cost :: u32
  pa_max_credit :: u32
  pa_min_gap :: u32

definition pacer_init_full :: "fp_pacer \<Rightarrow> u64 \<Rightarrow> u32 \<Rightarrow> u32 \<Rightarrow> u32 \<Rightarrow> fp_pacer" where
  "pacer_init_full pa now cost max_credit min_gap =
     pa\<lparr>pa_T := now - ucast max_credit, pa_next_event := PACER_NO_NEXT_EVENT,
        pa_cost := cost, pa_max_credit := max_credit, pa_min_gap := min_gap\<rparr>"

definition pacer_is_triggered :: "fp_pacer \<Rightarrow> bool" where
  "pacer_is_triggered pa \<longleftrightarrow> pa_next_event pa \<noteq> PACER_NO_NEXT_EVENT"

definition pacer_trigger :: "fp_pacer \<Rightarrow> u64 \<Rightarrow> bool \<times> fp_pacer" where
  "pacer_trigger pa now =
     (if pacer_is_triggered pa then (False, pa)
      else (True, pa\<lparr>pa_next_event := max_t (pa_T pa + ucast (pa_cost pa)) (now + ucast (pa_min_gap pa))\<rparr>))"

definition pacer_next_event :: "fp_pacer \<Rightarrow> u64" where
  "pacer_next_event pa = pa_next_event pa"

definition pacer_reset :: "fp_pacer \<Rightarrow> fp_pacer" where
  "pacer_reset pa =
     pa\<lparr>pa_T := max_t (pa_T pa) (pa_next_event pa - ucast (pa_max_credit pa)) + ucast (pa_cost pa),
        pa_next_event := PACER_NO_NEXT_EVENT\<rparr>"

text \<open>
  The use of a pacer: for each time in the list, trigger the event; when it is due, it happens
  and the pacer is reset. The result lists when the events happened.
\<close>

fun pacer_run :: "fp_pacer \<Rightarrow> u64 list \<Rightarrow> u64 list \<times> fp_pacer" where
  "pacer_run pa [] = ([], pa)"
| "pacer_run pa (now # nows) =
     (let pa' = snd (pacer_trigger pa now);
          (es, pa'') = pacer_run (pacer_reset pa') nows
      in (pacer_next_event pa' # es, pa''))"

section \<open>One event\<close>

lemma unat_max_t: "unat (max_t a b) = max (unat a) (unat (b :: u64))"
  by (simp add: max_t_def word_le_nat_alt max_def word_less_nat_alt)

lemma unat_plus_u32: "unat (a :: u64) < 2 ^ 63 \<Longrightarrow> unat (a + ucast (x :: u32)) = unat a + unat x"
proof -
  assume a: "unat a < 2 ^ 63"
  have "unat (ucast x :: u64) = unat x" by (simp add: unat_ucast_up)
  then show ?thesis
    using a unat_u32_less [of x] by (subst unat_word_ariths) (simp del: unat_u32_less)
qed

lemma unat_minus_u32: "unat x \<le> unat (a :: u64) \<Longrightarrow> unat (a - ucast (x :: u32)) = unat a - unat x"
  by (simp add: unat_sub word_le_nat_alt unat_ucast_up)

lemma pacer_step:
  fixes pa :: fp_pacer and now :: u64
  defines "e \<equiv> max (unat (pa_T pa) + unat (pa_cost pa)) (unat now + unat (pa_min_gap pa))"
  defines "pa' \<equiv> snd (pacer_trigger pa now)"
  assumes idle: "\<not> pacer_is_triggered pa" and now: "unat now < 2 ^ 62" and T: "unat (pa_T pa) < 2 ^ 62"
    and cr: "unat (pa_max_credit pa) \<le> unat now"
  shows "unat (pacer_next_event pa') = e"
    and "unat (pa_T (pacer_reset pa')) = max (unat (pa_T pa)) (e - unat (pa_max_credit pa)) + unat (pa_cost pa)"
    and "\<not> pacer_is_triggered (pacer_reset pa')" "pa_cost (pacer_reset pa') = pa_cost pa"
      "pa_max_credit (pacer_reset pa') = pa_max_credit pa" "pa_min_gap (pacer_reset pa') = pa_min_gap pa"
proof -
  have pa': "pa' = pa\<lparr>pa_next_event := max_t (pa_T pa + ucast (pa_cost pa)) (now + ucast (pa_min_gap pa))\<rparr>"
    using idle by (simp add: pa'_def pacer_trigger_def)
  show ev: "unat (pacer_next_event pa') = e"
    using now T by (simp add: pa' pacer_next_event_def unat_max_t unat_plus_u32 e_def)
  have "e < 2 ^ 63"
    using now T unat_u32_less [of "pa_cost pa"] unat_u32_less [of "pa_min_gap pa"] by (simp add: e_def del: unat_u32_less)
  moreover have "unat (pa_max_credit pa) \<le> e" using cr by (simp add: e_def)
  ultimately show "unat (pa_T (pacer_reset pa')) = max (unat (pa_T pa)) (e - unat (pa_max_credit pa)) + unat (pa_cost pa)"
    using ev T unfolding pa' pacer_reset_def pacer_next_event_def
    by (simp add: unat_plus_u32 unat_max_t unat_minus_u32)
  show "\<not> pacer_is_triggered (pacer_reset pa')" "pa_cost (pacer_reset pa') = pa_cost pa"
      "pa_max_credit (pacer_reset pa') = pa_max_credit pa" "pa_min_gap (pacer_reset pa') = pa_min_gap pa"
    by (simp_all add: pa' pacer_reset_def pacer_is_triggered_def)
qed


section \<open>Runs\<close>

lemma le_max_diff: "e \<le> max t (e - m) + (m :: nat)"
  by linarith

text \<open>The clock stays far from its end during the run.\<close>

definition pacer_room :: "fp_pacer \<Rightarrow> u64 list \<Rightarrow> bool" where
  "pacer_room pa nows \<longleftrightarrow> \<not> pacer_is_triggered pa
     \<and> (\<forall>x \<in> insert (pa_T pa) (set nows). unat x + (length nows + 1) * 2 ^ 32 \<le> 2 ^ 62)
     \<and> (\<forall>x \<in> set nows. unat (pa_max_credit pa) \<le> unat x)"

lemma pacer_room_step:
  assumes room: "pacer_room pa (now # nows)" and cm: "unat (pa_cost pa) \<le> unat (pa_max_credit pa)"
  shows "pacer_room (pacer_reset (snd (pacer_trigger pa now))) nows"
proof -
  let ?pa = "pacer_reset (snd (pacer_trigger pa now))"
  let ?e = "max (unat (pa_T pa) + unat (pa_cost pa)) (unat now + unat (pa_min_gap pa))"
  have idle: "\<not> pacer_is_triggered pa" and now: "unat now < 2 ^ 62" and T: "unat (pa_T pa) < 2 ^ 62"
    and cr: "unat (pa_max_credit pa) \<le> unat now"
    using room by (auto simp: pacer_room_def)
  note st = pacer_step [OF idle now T cr]
  have "unat (pa_T ?pa) \<le> ?e" using cm cr unfolding st(2) by auto
  also have "?e \<le> max (unat (pa_T pa)) (unat now) + 2 ^ 32"
  proof -
    have "unat (pa_cost pa) \<le> 2 ^ 32" "unat (pa_min_gap pa) \<le> 2 ^ 32" by (simp_all add: less_imp_le)
    then show ?thesis by linarith
  qed
  finally have "unat (pa_T ?pa) + (length nows + 1) * 2 ^ 32 \<le> 2 ^ 62"
    using room by (auto simp: pacer_room_def max_def split: if_splits)
  then show ?thesis using room st(3,5) by (auto simp: pacer_room_def)
qed

text \<open>The \<open>i\<close>-th event from now on costs \<open>i + 1\<close> tokens, and it waits for the minimal gap.\<close>

lemma pacer_run_events:
  assumes "pacer_room pa nows" and "unat (pa_cost pa) \<le> unat (pa_max_credit pa)"
  shows "length (fst (pacer_run pa nows)) = length nows
    \<and> (\<forall>i < length nows. unat (nows ! i) + unat (pa_min_gap pa) \<le> unat (fst (pacer_run pa nows) ! i)
         \<and> unat (pa_T pa) + (i + 1) * unat (pa_cost pa) \<le> unat (fst (pacer_run pa nows) ! i))"
  using assms
proof (induction nows arbitrary: pa)
  case (Cons now nows)
  let ?pa = "pacer_reset (snd (pacer_trigger pa now))"
  have idle: "\<not> pacer_is_triggered pa" and now: "unat now < 2 ^ 62" and T: "unat (pa_T pa) < 2 ^ 62"
    and cr: "unat (pa_max_credit pa) \<le> unat now"
    using Cons.prems(1) by (auto simp: pacer_room_def)
  note st = pacer_step [OF idle now T cr]
  have ih: "length (fst (pacer_run ?pa nows)) = length nows"
    "\<And>i. i < length nows \<Longrightarrow> unat (nows ! i) + unat (pa_min_gap pa) \<le> unat (fst (pacer_run ?pa nows) ! i)
         \<and> unat (pa_T ?pa) + (i + 1) * unat (pa_cost pa) \<le> unat (fst (pacer_run ?pa nows) ! i)"
    using Cons.IH [OF pacer_room_step [OF Cons.prems]] Cons.prems(2) unfolding st(4-6) by auto
  have run: "fst (pacer_run pa (now # nows)) = pacer_next_event (snd (pacer_trigger pa now)) # fst (pacer_run ?pa nows)"
    by (simp add: Let_def split: prod.split)
  have T': "unat (pa_T pa) + unat (pa_cost pa) \<le> unat (pa_T ?pa)" unfolding st(2) by simp
  show ?case
  proof (intro conjI allI impI)
    show "length (fst (pacer_run pa (now # nows))) = length (now # nows)" unfolding run using ih(1) by simp
  next
    fix i assume "i < length (now # nows)"
    then show "unat ((now # nows) ! i) + unat (pa_min_gap pa) \<le> unat (fst (pacer_run pa (now # nows)) ! i)"
      unfolding run using ih(2) st(1) by (cases i) auto
  next
    fix i assume "i < length (now # nows)"
    then show "unat (pa_T pa) + (i + 1) * unat (pa_cost pa) \<le> unat (fst (pacer_run pa (now # nows)) ! i)"
      unfolding run using ih(2) [of "i - 1"] st(1) T' by (cases i) (auto simp: algebra_simps)
  qed
qed simp

lemma pacer_run_burst:
  assumes "pacer_room pa nows" and "unat (pa_cost pa) \<le> unat (pa_max_credit pa)"
    and "i < j" "j < length nows"
  shows "unat (fst (pacer_run pa nows) ! i) + (j - i + 1) * unat (pa_cost pa)
    \<le> unat (fst (pacer_run pa nows) ! j) + unat (pa_max_credit pa)"
  using assms
proof (induction nows arbitrary: pa i j)
  case (Cons now nows)
  let ?pa = "pacer_reset (snd (pacer_trigger pa now))"
  have idle: "\<not> pacer_is_triggered pa" and now: "unat now < 2 ^ 62" and T: "unat (pa_T pa) < 2 ^ 62"
    and cr: "unat (pa_max_credit pa) \<le> unat now"
    using Cons.prems(1) by (auto simp: pacer_room_def)
  note st = pacer_step [OF idle now T cr]
  note room = pacer_room_step [OF Cons.prems(1,2)]
  have cm: "unat (pa_cost ?pa) \<le> unat (pa_max_credit ?pa)" using Cons.prems(2) st(4,5) by simp
  have run: "fst (pacer_run pa (now # nows)) = pacer_next_event (snd (pacer_trigger pa now)) # fst (pacer_run ?pa nows)"
    by (simp add: Let_def split: prod.split)
  obtain j' where j: "j = Suc j'" "j' < length nows" using Cons.prems(3,4) by (cases j) auto
  show ?case
  proof (cases i)
    case 0
    have "unat (pa_T ?pa) + (j' + 1) * unat (pa_cost pa) \<le> unat (fst (pacer_run ?pa nows) ! j')"
      using pacer_run_events [OF room cm] j(2) st(4) by auto
    moreover have "unat (pacer_next_event (snd (pacer_trigger pa now))) + unat (pa_cost pa)
        \<le> unat (pa_T ?pa) + unat (pa_max_credit pa)"
      using le_max_diff [of "unat (pacer_next_event (snd (pacer_trigger pa now)))" "unat (pa_T pa)"]
      unfolding st(1,2) by linarith
    ultimately show ?thesis unfolding run 0 j(1) by (simp add: algebra_simps)
  next
    case (Suc i')
    then show ?thesis
      using Cons.IH [OF room cm, of i' j'] j Cons.prems(3) st(4,5) unfolding run by simp
  qed
qed simp

text \<open>
  C25. The pacer is a token bucket: every event happens no earlier than the minimal gap after its
  trigger, and any \<open>j - i + 1\<close> consecutive events cost at most the time they span plus the credit that may
  accumulate, so bursts are bounded by the credit and the long-term rate by the cost. A full pacer
  starts without debt.
\<close>

theorem pacer_token_bucket:
  assumes full: "pa = pacer_init_full pa0 now0 cost credit gap" and cm: "unat cost \<le> unat credit"
    and c0: "unat credit \<le> unat now0"
    and room: "\<forall>x \<in> insert now0 (set nows). unat now0 \<le> unat x \<and> unat x + (length nows + 1) * 2 ^ 32 \<le> 2 ^ 62"
  shows "length (fst (pacer_run pa nows)) = length nows
    \<and> (\<forall>i < length nows. unat (nows ! i) + unat gap \<le> unat (fst (pacer_run pa nows) ! i))
    \<and> (\<forall>i j. i < j \<and> j < length nows \<longrightarrow>
         (j - i + 1) * unat cost \<le> unat (fst (pacer_run pa nows) ! j) - unat (fst (pacer_run pa nows) ! i) + unat credit)"
proof -
  have f: "pa_cost pa = cost" "pa_max_credit pa = credit" "pa_min_gap pa = gap"
    "unat (pa_T pa) = unat now0 - unat credit"
    using c0 by (simp_all add: full pacer_init_full_def unat_minus_u32)
  have "\<not> pacer_is_triggered pa" by (simp add: full pacer_init_full_def pacer_is_triggered_def)
  moreover have "unat x + (length nows + 1) * 2 ^ 32 \<le> 2 ^ 62" if "x \<in> insert (pa_T pa) (set nows)" for x
  proof (cases "x = pa_T pa")
    case True
    have "unat now0 + (length nows + 1) * 2 ^ 32 \<le> 2 ^ 62" using room by blast
    moreover have "unat x \<le> unat now0" using True f(4) by simp
    ultimately show ?thesis by linarith
  qed (use that room in blast)
  moreover have "unat (pa_max_credit pa) \<le> unat x" if "x \<in> set nows" for x
    using room c0 that order_trans unfolding f(2) by blast
  ultimately have "pacer_room pa nows" unfolding pacer_room_def by blast
  note ev = pacer_run_events [OF this] pacer_run_burst [OF this]
  have "(j - i + 1) * unat cost \<le> unat (fst (pacer_run pa nows) ! j) - unat (fst (pacer_run pa nows) ! i) + unat credit"
    if "i < j" "j < length nows" for i j
  proof -
    note b = ev(2) [unfolded f, OF cm that]
    then show ?thesis by linarith
  qed
  then show ?thesis using ev(1) cm f by auto
qed

theorem pacer_token_bucket_witness:
  "length (fst (pacer_run (pacer_init_full \<lparr>pa_T = 0, pa_next_event = 0, pa_cost = 0, pa_max_credit = 0, pa_min_gap = 0\<rparr>
      1000 10 50 3) [1000, 1000, 1001, 1200])) = 4"
  using pacer_token_bucket [OF refl, of 10 50 1000 "[1000, 1000, 1001, 1200]"
      "\<lparr>pa_T = 0, pa_next_event = 0, pa_cost = 0, pa_max_credit = 0, pa_min_gap = 0\<rparr>" 3]
  by simp

end
