(* ===== verification/Topology.thy ===== *)
theory Topology
  imports Platform
begin

text \<open>
  Node identifiers (\<^verbatim>\<open>src/src/protocol/topology.h\<close>, in the configuration with
  \<open>FB_DEPLOYMENT = 0\<close> and \<open>FLOW_SHIFT = 0\<close>) and the sizes of the per-packet data of the emulated
  schemes (\<^verbatim>\<open>src/src/protocol/flags.h\<close>).
\<close>

section \<open>Nodes and racks\<close>

definition NUM_NODES :: u32 where "NUM_NODES = 64"
definition MAX_NODES :: nat where "MAX_NODES = 256"
definition FP_NODES_SHIFT :: nat where "FP_NODES_SHIFT = 8"
definition MAX_RACKS :: nat where "MAX_RACKS = 16"
definition TOR_SHIFT :: nat where "TOR_SHIFT = 8"
definition OUT_OF_BOUNDARY_NODE_ID :: nat where "OUT_OF_BOUNDARY_NODE_ID = MAX_NODES - 1"
definition FLOW_SHIFT :: nat where "FLOW_SHIFT = 0"
definition FLOWS_PER_NODE :: nat where "FLOWS_PER_NODE = 2 ^ FLOW_SHIFT"
definition FLOW_MASK :: nat where "FLOW_MASK = 2 ^ FLOW_SHIFT - 1"
definition MAX_FLOWS :: nat where "MAX_FLOWS = MAX_NODES * FLOWS_PER_NODE"
definition FLAGS_MASK :: u8 where "FLAGS_MASK = 0xF"

definition fp_map_ip_to_id :: "u32 \<Rightarrow> u16" where
  "fp_map_ip_to_id ipaddr = ucast (ipaddr mod NUM_NODES)"

definition fp_map_mac_to_id :: "u64 \<Rightarrow> u16" where
  "fp_map_mac_to_id mac = ucast (mac mod ucast NUM_NODES)"

definition mac_is_out_of_rack :: "u64 \<Rightarrow> bool" where
  "mac_is_out_of_rack mac = False"

definition fp_alloc_node :: "u16 \<Rightarrow> u16" where
  "fp_alloc_node alloc = alloc AND 0x3FFF"

definition fp_alloc_path :: "u16 \<Rightarrow> u16" where
  "fp_alloc_path alloc = drop_bit 14 alloc"

definition fp_rack_from_node_id :: "u16 \<Rightarrow> u16" where
  "fp_rack_from_node_id i = drop_bit TOR_SHIFT i"

section \<open>Emulated schemes\<close>

text \<open>The scheme that the preprocessor selects in the arbiter.\<close>

datatype emu_algo = DROP_TAIL | RED | DCTCP | HULL | ROUND_ROBIN | PRIO_QUEUEING | PFABRIC | LSTF | OTHER_ALGO

definition MAX_REQ_DATA_BYTES :: u16 where "MAX_REQ_DATA_BYTES = 8"
definition MAX_ALLOC_DATA_BYTES :: u16 where "MAX_ALLOC_DATA_BYTES = 2"

definition AREQ_DATA_TYPE_NONE :: u8 where "AREQ_DATA_TYPE_NONE = 0"
definition AREQ_DATA_TYPE_UNSPEC :: u8 where "AREQ_DATA_TYPE_UNSPEC = 1"
definition AREQ_DATA_TYPE_PKTS_LEFT :: u8 where "AREQ_DATA_TYPE_PKTS_LEFT = 2"
definition AREQ_DATA_TYPE_TSO :: u8 where "AREQ_DATA_TYPE_TSO = 3"
definition AREQ_DATA_TYPE_LSTF :: u8 where "AREQ_DATA_TYPE_LSTF = 4"
definition ALLOC_DATA_TYPE_NONE :: u8 where "ALLOC_DATA_TYPE_NONE = 0"
definition ALLOC_DATA_TYPE_UNSPEC :: u8 where "ALLOC_DATA_TYPE_UNSPEC = 1"

definition emu_req_data_bytes :: "bool \<Rightarrow> emu_algo \<Rightarrow> u16" where
  "emu_req_data_bytes use_tso algo =
     (if use_tso then 2
      else if algo \<in> {DROP_TAIL, RED, DCTCP, HULL, ROUND_ROBIN, PRIO_QUEUEING} then 0
      else if algo = PFABRIC then 4
      else if algo = LSTF then 8
      else MAX_REQ_DATA_BYTES)"

definition emu_alloc_data_bytes :: "emu_algo \<Rightarrow> u16" where
  "emu_alloc_data_bytes algo =
     (if algo \<in> {DROP_TAIL, RED, DCTCP, HULL, ROUND_ROBIN, PRIO_QUEUEING} \<or> algo = PFABRIC then 0
      else MAX_ALLOC_DATA_BYTES)"

definition areq_data_type_from_scheme :: "string \<Rightarrow> u8" where
  "areq_data_type_from_scheme scheme =
     (if scheme = ''drop_tail'' \<or> scheme = ''red'' \<or> scheme = ''dctcp'' then AREQ_DATA_TYPE_NONE
      else if scheme = ''pfabric'' then AREQ_DATA_TYPE_PKTS_LEFT
      else if scheme = ''drop_tail_tso'' then AREQ_DATA_TYPE_TSO
      else if scheme = ''lstf'' then AREQ_DATA_TYPE_LSTF
      else AREQ_DATA_TYPE_UNSPEC)"

definition areq_data_bytes_from_scheme :: "string \<Rightarrow> u8" where
  "areq_data_bytes_from_scheme scheme =
     (if scheme = ''drop_tail'' \<or> scheme = ''red'' \<or> scheme = ''dctcp'' then 0
      else if scheme = ''pfabric'' then 4
      else if scheme = ''drop_tail_tso'' then 2
      else if scheme = ''lstf'' then 8
      else ucast MAX_REQ_DATA_BYTES)"

definition alloc_data_type_from_scheme :: "string \<Rightarrow> u8" where
  "alloc_data_type_from_scheme scheme =
     (if scheme = ''drop_tail'' \<or> scheme = ''red'' \<or> scheme = ''dctcp'' \<or> scheme = ''pfabric''
         \<or> scheme = ''drop_tail_tso'' \<or> scheme = ''lstf''
      then ALLOC_DATA_TYPE_NONE else ALLOC_DATA_TYPE_UNSPEC)"

definition alloc_data_bytes_from_scheme :: "string \<Rightarrow> u8" where
  "alloc_data_bytes_from_scheme scheme =
     (if scheme = ''drop_tail'' \<or> scheme = ''red'' \<or> scheme = ''dctcp'' \<or> scheme = ''pfabric''
         \<or> scheme = ''drop_tail_tso'' \<or> scheme = ''lstf''
      then 0 else ucast MAX_ALLOC_DATA_BYTES)"

section \<open>Agreement of the two ends\<close>

text \<open>The scheme name an end node is given for an arbiter that was compiled for \<open>algo\<close>.\<close>

definition scheme_of :: "bool \<Rightarrow> emu_algo \<Rightarrow> string option" where
  "scheme_of use_tso algo =
     (if use_tso then (if algo = DROP_TAIL then Some ''drop_tail_tso'' else None)
      else case algo of DROP_TAIL \<Rightarrow> Some ''drop_tail'' | RED \<Rightarrow> Some ''red'' | DCTCP \<Rightarrow> Some ''dctcp''
        | PFABRIC \<Rightarrow> Some ''pfabric'' | LSTF \<Rightarrow> Some ''lstf'' | _ \<Rightarrow> None)"

text \<open>
  For every scheme that has a name, the end node and the arbiter agree on the number of request data
  bytes, and the end node announces no request data exactly when there are none.
\<close>

theorem req_data_agrees:
  assumes "scheme_of use_tso algo = Some scheme"
  shows "ucast (areq_data_bytes_from_scheme scheme) = emu_req_data_bytes use_tso algo
    \<and> (areq_data_type_from_scheme scheme = AREQ_DATA_TYPE_NONE \<longleftrightarrow> emu_req_data_bytes use_tso algo = 0)"
  using assms
  by (auto simp: scheme_of_def areq_data_bytes_from_scheme_def areq_data_type_from_scheme_def emu_req_data_bytes_def
      AREQ_DATA_TYPE_NONE_def AREQ_DATA_TYPE_PKTS_LEFT_def AREQ_DATA_TYPE_TSO_def AREQ_DATA_TYPE_LSTF_def
      split: if_splits emu_algo.splits)

theorem req_data_agrees_witness: "ucast (areq_data_bytes_from_scheme ''pfabric'') = emu_req_data_bytes False PFABRIC"
  using req_data_agrees [of False PFABRIC "''pfabric''"] by (simp add: scheme_of_def)

text \<open>
  The arbiter compiled for LSTF sends two data bytes with every allocation, while an end node
  told to run \<open>lstf\<close> expects none: the two tables of the scheme sizes disagree for this scheme and
  for this scheme only.
\<close>

theorem alloc_data_disagrees_for_lstf:
  assumes "scheme_of use_tso algo = Some scheme"
  shows "ucast (alloc_data_bytes_from_scheme scheme) = emu_alloc_data_bytes algo \<longleftrightarrow> algo \<noteq> LSTF"
  using assms
  by (auto simp: scheme_of_def alloc_data_bytes_from_scheme_def emu_alloc_data_bytes_def MAX_ALLOC_DATA_BYTES_def
      split: if_splits emu_algo.splits)

theorem alloc_data_disagrees_for_lstf_witness:
  "ucast (alloc_data_bytes_from_scheme ''lstf'') \<noteq> emu_alloc_data_bytes LSTF"
  using alloc_data_disagrees_for_lstf [of False LSTF "''lstf''"] by (simp add: scheme_of_def)

text \<open>
  The identifier of a node is below \<open>NUM_NODES\<close>, so it is a valid index of every per-node table and
  never the reserved identifier for destinations outside of the boundary.
\<close>

lemma node_id_range:
  "unat (fp_map_ip_to_id ip) < unat NUM_NODES \<and> unat (fp_map_mac_to_id mac) < unat NUM_NODES
   \<and> unat (fp_map_ip_to_id ip) \<noteq> OUT_OF_BOUNDARY_NODE_ID \<and> unat (fp_map_mac_to_id mac) \<noteq> OUT_OF_BOUNDARY_NODE_ID"
proof -
  have 1: "unat (fp_map_ip_to_id ip) = unat ip mod 64"
    by (simp add: fp_map_ip_to_id_def NUM_NODES_def unsigned_ucast_eq unat_mod take_bit_eq_mod)
  have 2: "unat (fp_map_mac_to_id mac) = unat mac mod 64"
    by (simp add: fp_map_mac_to_id_def NUM_NODES_def unsigned_ucast_eq unat_mod take_bit_eq_mod)
  have lt: "unat ip mod 64 < 64" "unat mac mod 64 < 64" by simp_all
  show ?thesis
    using lt unfolding 1 2 OUT_OF_BOUNDARY_NODE_ID_def MAX_NODES_def NUM_NODES_def by auto
qed

end
