(* ===== verification/Ring.thy ===== *)
theory Ring
  imports FP_Prelude
begin

text \<open>
  The pointer ring \<^verbatim>\<open>fp_ring\<close> and the memory pool \<^verbatim>\<open>fp_mempool\<close> of the user-space build
  (\<^verbatim>\<open>src/src/graph-algo/fp_ring.h\<close>, \<^verbatim>\<open>src/src/graph-algo/platform.h\<close>), through which the
  allocation cores and the communication cores exchange bins. The head and the tail of a ring are
  free-running 32-bit counters. The locale \<open>bounded_queue\<close> states the contract of a bounded FIFO
  queue; its interpretation \<open>rq\<close> shows that the ring keeps it across the wrap of the counters.

  A result \<open>None\<close> is the error code of the source (\<open>-ENOBUFS\<close>, \<open>-ENOENT\<close>) or, for
  \<open>fp_mempool_put\<close> and \<open>fp_mempool_put_bulk\<close>, a write behind the end of the pointer table.
\<close>

section \<open>The ring\<close>

record 'a fp_ring =
  r_head :: u32
  r_tail :: u32
  r_mask :: u32
  r_elem :: "nat \<Rightarrow> 'a"

text \<open>The slots of a new ring are uninitialised memory, the argument \<open>junk\<close>.\<close>

definition fp_ring_create :: "(nat \<Rightarrow> 'a) \<Rightarrow> u32 \<Rightarrow> 'a fp_ring" where
  "fp_ring_create junk num_elems = \<lparr>r_head = 0, r_tail = 0, r_mask = num_elems - 1, r_elem = junk\<rparr>"

definition fp_ring_enqueue :: "'a fp_ring \<Rightarrow> 'a \<Rightarrow> 'a fp_ring option" where
  "fp_ring_enqueue ring elem =
     (if r_tail ring = r_head ring + r_mask ring then None
      else Some (ring\<lparr>r_elem := (r_elem ring)(unat (r_tail ring AND r_mask ring) := elem),
                      r_tail := r_tail ring + 1\<rparr>))"

text \<open>The result of the inner \<open>fp_ring_enqueue\<close> is ignored.\<close>

fun enqueue_each :: "'a fp_ring \<Rightarrow> 'a list \<Rightarrow> 'a fp_ring" where
  "enqueue_each ring [] = ring"
| "enqueue_each ring (e # es) =
     enqueue_each (case fp_ring_enqueue ring e of None \<Rightarrow> ring | Some ring' \<Rightarrow> ring') es"

definition fp_ring_enqueue_bulk :: "'a fp_ring \<Rightarrow> 'a list \<Rightarrow> 'a fp_ring option" where
  "fp_ring_enqueue_bulk ring elems =
     (let n = of_nat (length elems)
      in if r_tail ring + n > r_head ring + r_mask ring then None
         else Some (enqueue_each ring elems))"

definition fp_ring_dequeue :: "'a fp_ring \<Rightarrow> ('a \<times> 'a fp_ring) option" where
  "fp_ring_dequeue ring =
     (if r_head ring = r_tail ring then None
      else Some (r_elem ring (unat (r_head ring AND r_mask ring)), ring\<lparr>r_head := r_head ring + 1\<rparr>))"

fun fp_ring_dequeue_burst :: "'a fp_ring \<Rightarrow> nat \<Rightarrow> 'a list \<times> 'a fp_ring" where
  "fp_ring_dequeue_burst r 0 = ([], r)"
| "fp_ring_dequeue_burst r (Suc n) =
     (case fp_ring_dequeue r of
        None \<Rightarrow> ([], r)
      | Some (e, r') \<Rightarrow> (let (es, r'') = fp_ring_dequeue_burst r' n in (e # es, r'')))"

definition fp_ring_empty :: "'a fp_ring \<Rightarrow> bool" where
  "fp_ring_empty ring \<longleftrightarrow> r_head ring = r_tail ring"

section \<open>The memory pool\<close>

record 'a fp_mempool =
  mp_total :: u32
  mp_cur :: u32
  mp_elements :: "nat \<Rightarrow> 'a"

text \<open>\<open>objs i\<close> is the address that the \<open>i\<close>-th allocation returned; a failed allocation is not modelled.\<close>

definition fp_mempool_create :: "u32 \<Rightarrow> (nat \<Rightarrow> 'a) \<Rightarrow> 'a fp_mempool" where
  "fp_mempool_create n objs = \<lparr>mp_total = n, mp_cur = n, mp_elements = objs\<rparr>"

definition fp_mempool_get :: "'a fp_mempool \<Rightarrow> ('a \<times> 'a fp_mempool) option" where
  "fp_mempool_get mp =
     (if mp_cur mp = 0 then None
      else let mp' = mp\<lparr>mp_cur := mp_cur mp - 1\<rparr> in Some (mp_elements mp (unat (mp_cur mp')), mp'))"

definition fp_mempool_put :: "'a fp_mempool \<Rightarrow> 'a \<Rightarrow> 'a fp_mempool option" where
  "fp_mempool_put mp obj = do {
     bug_on (mp_total mp \<le> mp_cur mp);
     Some (mp\<lparr>mp_elements := (mp_elements mp)(unat (mp_cur mp) := obj), mp_cur := mp_cur mp + 1\<rparr>)
   }"

definition fp_mempool_get_bulk :: "'a fp_mempool \<Rightarrow> nat \<Rightarrow> ('a list \<times> 'a fp_mempool) option" where
  "fp_mempool_get_bulk mp n =
     (if unat (mp_cur mp) < n then None
      else let mp' = mp\<lparr>mp_cur := mp_cur mp - of_nat n\<rparr>
           in Some (map (mp_elements mp) [unat (mp_cur mp') ..< unat (mp_cur mp') + n], mp'))"

definition fp_mempool_put_bulk :: "'a fp_mempool \<Rightarrow> 'a list \<Rightarrow> 'a fp_mempool option" where
  "fp_mempool_put_bulk mp objs = do {
     bug_on (unat (mp_total mp) < unat (mp_cur mp) + length objs);
     let c = unat (mp_cur mp);
     Some (mp\<lparr>mp_elements := (\<lambda>i. if c \<le> i \<and> i < c + length objs then objs ! (i - c) else mp_elements mp i),
              mp_cur := mp_cur mp + of_nat (length objs)\<rparr>)
   }"

section \<open>The contract of a bounded queue\<close>

datatype 'a queue_op = Enq 'a | Deq

text \<open>A run of queue operations with what each of them returns: \<open>Inl\<close> whether an insertion was
  accepted, \<open>Inr\<close> what a removal returned.\<close>

fun queue_run :: "('q \<Rightarrow> 'a \<Rightarrow> 'q option) \<Rightarrow> ('q \<Rightarrow> ('a \<times> 'q) option) \<Rightarrow> 'a queue_op list \<Rightarrow> 'q
  \<Rightarrow> (bool + 'a option) list" where
  "queue_run enq deq [] q = []"
| "queue_run enq deq (Enq e # os) q =
     (case enq q e of None \<Rightarrow> Inl False # queue_run enq deq os q
      | Some q' \<Rightarrow> Inl True # queue_run enq deq os q')"
| "queue_run enq deq (Deq # os) q =
     (case deq q of None \<Rightarrow> Inr None # queue_run enq deq os q
      | Some (e, q') \<Rightarrow> Inr (Some e) # queue_run enq deq os q')"

text \<open>The same run on the specification: a list with at most \<open>cap\<close> elements.\<close>

fun queue_spec :: "nat \<Rightarrow> 'a queue_op list \<Rightarrow> 'a list \<Rightarrow> (bool + 'a option) list" where
  "queue_spec cap [] xs = []"
| "queue_spec cap (Enq e # os) xs =
     (if length xs = cap then Inl False # queue_spec cap os xs
      else Inl True # queue_spec cap os (xs @ [e]))"
| "queue_spec cap (Deq # os) [] = Inr None # queue_spec cap os []"
| "queue_spec cap (Deq # os) (x # xs) = Inr (Some x) # queue_spec cap os xs"

locale bounded_queue =
  fixes inv :: "'q \<Rightarrow> bool"
    and elems :: "'q \<Rightarrow> 'a list"
    and cap :: "'q \<Rightarrow> nat"
    and enq :: "'q \<Rightarrow> 'a \<Rightarrow> 'q option"
    and deq :: "'q \<Rightarrow> ('a \<times> 'q) option"
  assumes elems_cap: "inv q \<Longrightarrow> length (elems q) \<le> cap q"
    and enq_full: "inv q \<Longrightarrow> enq q e = None \<longleftrightarrow> length (elems q) = cap q"
    and enq_ok: "inv q \<Longrightarrow> enq q e = Some q' \<Longrightarrow> inv q' \<and> cap q' = cap q \<and> elems q' = elems q @ [e]"
    and deq_empty: "inv q \<Longrightarrow> deq q = None \<longleftrightarrow> elems q = []"
    and deq_ok: "inv q \<Longrightarrow> deq q = Some (e, q') \<Longrightarrow> inv q' \<and> cap q' = cap q \<and> elems q = e # elems q'"
begin

lemma run_refines: "inv q \<Longrightarrow> queue_run enq deq os q = queue_spec (cap q) os (elems q)"
proof (induction os arbitrary: q)
  case Nil
  then show ?case by simp
next
  case (Cons o1 os)
  show ?case
  proof (cases o1)
    case (Enq e)
    then show ?thesis
      using Cons enq_full [of q e] enq_ok [of q e] by (cases "enq q e") auto
  next
    case Deq
    show ?thesis
    proof (cases "deq q")
      case None
      then show ?thesis using Cons Deq deq_empty [of q] by simp
    next
      case (Some r)
      then obtain e q' where r: "r = (e, q')" by (cases r)
      then show ?thesis using Cons Deq Some deq_ok [of q e q'] by simp
    qed
  qed
qed

lemma enq_room:
  assumes "inv q" "length (elems q) < cap q"
  shows "\<exists>q'. enq q e = Some q' \<and> inv q' \<and> cap q' = cap q \<and> elems q' = elems q @ [e]"
  using assms enq_full [of q e] enq_ok [of q e] by (cases "enq q e") auto

lemma deq_Cons:
  assumes "inv q" "elems q = e # es"
  shows "\<exists>q'. deq q = Some (e, q') \<and> inv q' \<and> cap q' = cap q \<and> elems q' = es"
  using assms deq_empty [of q] deq_ok [of q] by (cases "deq q") auto

end

section \<open>The ring is a bounded queue\<close>

definition ring_log :: "'a fp_ring \<Rightarrow> nat \<Rightarrow> bool" where
  "ring_log r k \<longleftrightarrow> k < 32 \<and> r_mask r = mask k"

definition ring_inv :: "'a fp_ring \<Rightarrow> bool" where
  "ring_inv r \<longleftrightarrow> (\<exists>k. ring_log r k) \<and> r_tail r - r_head r \<le> r_mask r"

definition ring_slot :: "'a fp_ring \<Rightarrow> u32 \<Rightarrow> 'a" where
  "ring_slot r i = r_elem r (unat (i AND r_mask r))"

definition ring_list :: "'a fp_ring \<Rightarrow> 'a list" where
  "ring_list r = map (\<lambda>i. ring_slot r (r_head r + of_nat i)) [0 ..< unat (r_tail r - r_head r)]"

definition ring_cap :: "'a fp_ring \<Rightarrow> nat" where
  "ring_cap r = unat (r_mask r)"

lemma length_ring_list: "length (ring_list r) = unat (r_tail r - r_head r)"
  by (simp add: ring_list_def)

lemma unat_mask_u32: "k < 32 \<Longrightarrow> unat (mask k :: u32) = 2 ^ k - 1"
proof -
  assume k: "k < 32"
  have "(mask k :: u32) = of_nat (mask k)" by (simp add: of_nat_mask_eq)
  then have "unat (mask k :: u32) = take_bit 32 (mask k)" by (simp only: unsigned_of_nat) simp
  also have "\<dots> = mask k" using k by (simp add: take_bit_of_mask min.absorb2)
  also have "\<dots> = 2 ^ k - 1" by (rule mask_eq_exp_minus_1)
  finally show ?thesis .
qed

lemma and_mask_eqD:
  fixes a b :: u32
  assumes "a AND mask k = b AND mask k" and "k < 32" and "unat (a - b) < 2 ^ k"
  shows "a = b"
proof -
  have "take_bit k (uint a) = take_bit k (uint b)"
    using assms(1) by (simp add: flip: take_bit_eq_mask unsigned_take_bit_eq)
  then have "uint a mod 2 ^ k = uint b mod 2 ^ k" by (simp add: take_bit_eq_mod)
  then have "(2 :: int) ^ k dvd uint a - uint b" by (simp add: mod_eq_dvd_iff)
  moreover have "(2 :: int) ^ k dvd 2 ^ 32" using assms(2) by (intro le_imp_power_dvd) simp
  ultimately have "(2 :: int) ^ k dvd (uint a - uint b) mod 2 ^ 32" by (simp add: dvd_mod_iff)
  then have "(2 :: int) ^ k dvd uint (a - b)" by (simp add: uint_word_ariths)
  then have "(2 :: nat) ^ k dvd unat (a - b)"
    by (metis of_nat_dvd_iff of_nat_numeral of_nat_power uint_nat)
  then have "unat (a - b) = 0" using assms(3) by (meson dvd_imp_le gr0I not_le)
  then have "a - b = 0" by (simp only: unat_eq_zero)
  then show ?thesis by simp
qed

lemma ring_list_Cons:
  assumes "r_head r \<noteq> r_tail r"
  shows "ring_list r = ring_slot r (r_head r) # ring_list (r\<lparr>r_head := r_head r + 1\<rparr>)"
proof -
  have ne: "r_tail r - r_head r \<noteq> 0" using assms by auto
  have eq: "unat (r_tail r - r_head r) = Suc (unat (r_tail r - (r_head r + 1)))"
  proof -
    have "unat (r_tail r - r_head r - 1) = unat (r_tail r - r_head r) - 1" using unat_minus_one [OF ne] .
    moreover have "unat (r_tail r - r_head r) \<noteq> 0" using ne by (simp only: unat_eq_zero not_False_eq_True)
    ultimately show ?thesis unfolding diff_diff_eq by presburger
  qed
  show ?thesis
    unfolding ring_list_def eq by (simp add: upt_conv_Cons map_Suc_upt [symmetric] ring_slot_def algebra_simps del: upt_Suc)
qed

lemma ring_list_snoc:
  assumes k: "ring_log r k" and room: "unat (r_tail r - r_head r) < unat (r_mask r)"
  shows "ring_list (r\<lparr>r_elem := (r_elem r)(unat (r_tail r AND r_mask r) := e), r_tail := r_tail r + 1\<rparr>)
    = ring_list r @ [e]" (is "ring_list ?r' = _")
proof -
  let ?n = "unat (r_tail r - r_head r)"
  have km: "k < 32" "r_mask r = mask k" using k by (simp_all add: ring_log_def)
  have len: "unat (r_tail r + 1 - r_head r) = Suc ?n"
  proof -
    have "r_tail r + 1 - r_head r = of_nat (Suc ?n)" by simp
    moreover have "Suc ?n < 2 ^ LENGTH(32)"
      using room unat_u32_less [of "r_mask r"] by (simp del: unat_u32_less)
    ultimately show ?thesis by (simp only: unat_of_nat_word)
  qed
  have old: "ring_slot ?r' (r_head r + of_nat i) = ring_slot r (r_head r + of_nat i)" if i: "i < ?n" for i
  proof -
    have "(r_tail r AND mask k) \<noteq> (r_head r + of_nat i) AND mask k"
    proof
      assume eq: "r_tail r AND mask k = (r_head r + of_nat i) AND mask k"
      have d: "unat (r_tail r - (r_head r + of_nat i)) = ?n - i"
      proof -
        have "r_tail r - (r_head r + of_nat i) = of_nat (?n - i)"
          using i by (simp add: diff_diff_eq)
        moreover have "?n - i < 2 ^ LENGTH(32)"
          using room unat_u32_less [of "r_mask r"] by (simp del: unat_u32_less)
        ultimately show ?thesis by (simp only: unat_of_nat_word)
      qed
      have "unat (r_tail r - (r_head r + of_nat i)) < 2 ^ k"
        using room unfolding d km(2) unat_mask_u32 [OF km(1)] by arith
      then have "r_tail r = r_head r + of_nat i" by (rule and_mask_eqD [OF eq km(1)])
      then have "unat (r_tail r - (r_head r + of_nat i)) = 0" by simp
      with d i show False by simp
    qed
    then show ?thesis by (simp add: ring_slot_def km word_unat_eq_iff)
  qed
  have new: "ring_slot ?r' (r_head r + of_nat ?n) = e" by (simp add: ring_slot_def)
  have "ring_list ?r' = map (\<lambda>i. ring_slot ?r' (r_head r + of_nat i)) [0 ..< Suc ?n]"
    unfolding ring_list_def len [symmetric] by simp
  also have "\<dots> = map (\<lambda>i. ring_slot ?r' (r_head r + of_nat i)) [0 ..< ?n] @ [e]"
    using new by simp
  also have "map (\<lambda>i. ring_slot ?r' (r_head r + of_nat i)) [0 ..< ?n] = ring_list r"
    unfolding ring_list_def using old by (intro map_cong) simp_all
  finally show ?thesis .
qed

lemma r_tail_minus_head: "r_tail r = r_head r + m \<longleftrightarrow> unat (r_tail r - r_head r) = unat m"
  by (auto simp: unat_eq_iff [symmetric] algebra_simps)

lemma ring_inv_le: "ring_inv r \<Longrightarrow> unat (r_tail r - r_head r) \<le> unat (r_mask r)"
  by (simp add: ring_inv_def word_le_nat_alt)

lemma fp_ring_enqueue_None:
  assumes "ring_inv r"
  shows "fp_ring_enqueue r e = None \<longleftrightarrow> length (ring_list r) = ring_cap r"
  by (simp add: fp_ring_enqueue_def r_tail_minus_head length_ring_list ring_cap_def)

lemma fp_ring_enqueue_Some:
  assumes r: "ring_inv r" and enq: "fp_ring_enqueue r e = Some r'"
  shows "ring_inv r' \<and> ring_cap r' = ring_cap r \<and> ring_list r' = ring_list r @ [e]"
proof -
  obtain k where k: "ring_log r k" using r by (auto simp: ring_inv_def)
  have "unat (r_tail r - r_head r) \<noteq> unat (r_mask r)"
    using enq by (auto simp: fp_ring_enqueue_def r_tail_minus_head split: if_splits)
  then have room: "unat (r_tail r - r_head r) < unat (r_mask r)" using ring_inv_le [OF r] by simp
  have r': "r' = r\<lparr>r_elem := (r_elem r)(unat (r_tail r AND r_mask r) := e), r_tail := r_tail r + 1\<rparr>"
    using enq by (simp add: fp_ring_enqueue_def split: if_splits)
  have l: "ring_list r' = ring_list r @ [e]" unfolding r' by (rule ring_list_snoc [OF k room])
  then have "length (ring_list r') = Suc (length (ring_list r))" by simp
  then have "unat (r_tail r' - r_head r') \<le> unat (r_mask r')"
    using room unfolding length_ring_list by (simp add: r')
  moreover have "ring_log r' k" using k by (simp add: r' ring_log_def)
  ultimately have "ring_inv r'" unfolding ring_inv_def word_le_nat_alt by blast
  with l show ?thesis by (simp add: ring_cap_def r')
qed

lemma fp_ring_dequeue_None: "fp_ring_dequeue r = None \<longleftrightarrow> ring_list r = []"
  using ring_list_Cons [of r] by (cases "r_head r = r_tail r") (simp_all add: fp_ring_dequeue_def ring_list_def)

lemma fp_ring_dequeue_Some:
  assumes r: "ring_inv r" and deq: "fp_ring_dequeue r = Some (e, r')"
  shows "ring_inv r' \<and> ring_cap r' = ring_cap r \<and> ring_list r = e # ring_list r'"
proof -
  have ne: "r_head r \<noteq> r_tail r" and r': "r' = r\<lparr>r_head := r_head r + 1\<rparr>"
    and e: "e = ring_slot r (r_head r)"
    using deq by (auto simp: fp_ring_dequeue_def ring_slot_def split: if_splits)
  have l: "ring_list r = e # ring_list r'" using ring_list_Cons [OF ne] by (simp add: r' e)
  then have "length (ring_list r') \<le> length (ring_list r)" by simp
  then have "unat (r_tail r' - r_head r') \<le> unat (r_mask r')"
    using ring_inv_le [OF r] unfolding length_ring_list by (simp add: r')
  moreover have "\<exists>k. ring_log r' k" using r by (simp add: r' ring_log_def ring_inv_def)
  ultimately have "ring_inv r'" unfolding ring_inv_def word_le_nat_alt by blast
  with l show ?thesis by (simp add: r' ring_cap_def)
qed

lemma ring_list_le_cap: "ring_inv r \<Longrightarrow> length (ring_list r) \<le> ring_cap r"
  using ring_inv_le [of r] by (simp add: length_ring_list ring_cap_def)

interpretation rq: bounded_queue ring_inv ring_list ring_cap fp_ring_enqueue fp_ring_dequeue
  by unfold_locales (rule ring_list_le_cap fp_ring_enqueue_None fp_ring_enqueue_Some
      fp_ring_dequeue_None fp_ring_dequeue_Some; assumption)+

lemma ring_create_inv:
  assumes "k < 32"
  shows "ring_inv (fp_ring_create junk (2 ^ k)) \<and> ring_list (fp_ring_create junk (2 ^ k)) = []
    \<and> ring_cap (fp_ring_create junk (2 ^ k)) = 2 ^ k - 1"
proof -
  have m: "(2 ^ k - 1 :: u32) = mask k" by (simp add: mask_eq_exp_minus_1)
  show ?thesis
    using assms unat_mask_u32 [OF assms]
    by (auto simp: fp_ring_create_def ring_inv_def ring_log_def ring_list_def ring_cap_def m)
qed

lemma fp_ring_empty_iff: "fp_ring_empty r \<longleftrightarrow> ring_list r = []"
  using ring_list_Cons [of r] by (cases "r_head r = r_tail r") (simp_all add: fp_ring_empty_def ring_list_def)

lemma fp_ring_dequeue_burst_spec:
  assumes "ring_inv r"
  shows "\<exists>r'. fp_ring_dequeue_burst r n = (take n (ring_list r), r') \<and> ring_inv r'
    \<and> ring_cap r' = ring_cap r \<and> ring_list r' = drop n (ring_list r)"
  using assms
proof (induction n arbitrary: r)
  case 0
  then show ?case by simp
next
  case (Suc n)
  show ?case
  proof (cases "ring_list r")
    case Nil
    then show ?thesis using Suc.prems rq.deq_empty [OF Suc.prems] by simp
  next
    case (Cons e es)
    from rq.deq_Cons [OF Suc.prems Cons] obtain r1 where
      r1: "fp_ring_dequeue r = Some (e, r1)" "ring_inv r1" "ring_cap r1 = ring_cap r" "ring_list r1 = es"
      by blast
    from Suc.IH [OF r1(2)] r1 Cons show ?thesis by auto
  qed
qed

text \<open>The elements that do not fit are dropped without a notice.\<close>

lemma enqueue_each_spec:
  assumes "ring_inv r"
  shows "ring_inv (enqueue_each r es) \<and> ring_cap (enqueue_each r es) = ring_cap r
    \<and> ring_list (enqueue_each r es) = ring_list r @ take (ring_cap r - length (ring_list r)) es"
  using assms
proof (induction es arbitrary: r)
  case Nil
  then show ?case by simp
next
  case (Cons e es)
  show ?case
  proof (cases "length (ring_list r) = ring_cap r")
    case True
    then have "fp_ring_enqueue r e = None" using rq.enq_full [OF Cons.prems] by blast
    then show ?thesis using Cons.IH [OF Cons.prems] True by simp
  next
    case False
    then have lt: "length (ring_list r) < ring_cap r" using rq.elems_cap [OF Cons.prems] by simp
    then obtain r1 where r1: "fp_ring_enqueue r e = Some r1" "ring_inv r1" "ring_cap r1 = ring_cap r"
      "ring_list r1 = ring_list r @ [e]"
      using rq.enq_room [OF Cons.prems, of e] by blast
    have "ring_cap r - length (ring_list r) = Suc (ring_cap r - Suc (length (ring_list r)))" using lt by simp
    then show ?thesis using Cons.IH [OF r1(2)] r1 by simp
  qed
qed

text \<open>The test of \<open>fp_ring_enqueue_bulk\<close> compares counters that run freely; it is the room of the
  ring as long as neither side of the comparison wraps.\<close>

lemma fp_ring_enqueue_bulk_spec:
  assumes r: "ring_inv r"
    and nowrap: "unat (r_head r) + ring_cap r < 2 ^ 32" "unat (r_tail r) + length es < 2 ^ 32"
    and order: "r_head r \<le> r_tail r"
  shows "if length (ring_list r) + length es \<le> ring_cap r
    then \<exists>r'. fp_ring_enqueue_bulk r es = Some r' \<and> ring_inv r' \<and> ring_cap r' = ring_cap r
      \<and> ring_list r' = ring_list r @ es
    else fp_ring_enqueue_bulk r es = None"
proof -
  have n: "unat (of_nat (length es) :: u32) = length es"
    using nowrap(2) by (intro unat_of_nat_word) simp
  have t: "unat (r_tail r + of_nat (length es)) = unat (r_tail r) + length es"
    using nowrap(2) n by (simp add: unat_word_ariths)
  have h: "unat (r_head r + r_mask r) = unat (r_head r) + ring_cap r"
    using nowrap(1) by (simp add: unat_word_ariths ring_cap_def)
  have l: "length (ring_list r) = unat (r_tail r) - unat (r_head r)"
    using order unfolding length_ring_list by (simp add: unat_sub)
  have "unat (r_head r) \<le> unat (r_tail r)" using order by (simp add: word_le_nat_alt)
  then have "(r_tail r + of_nat (length es) > r_head r + r_mask r) \<longleftrightarrow>
      \<not> length (ring_list r) + length es \<le> ring_cap r"
    unfolding word_less_nat_alt t h l by arith
  then show ?thesis
    using enqueue_each_spec [OF r] by (simp add: fp_ring_enqueue_bulk_def Let_def)
qed

section \<open>The pool is a stack\<close>

definition mp_inv :: "'a fp_mempool \<Rightarrow> bool" where
  "mp_inv mp \<longleftrightarrow> mp_cur mp \<le> mp_total mp"

definition mp_list :: "'a fp_mempool \<Rightarrow> 'a list" where
  "mp_list mp = map (mp_elements mp) [0 ..< unat (mp_cur mp)]"

lemma length_mp_list [simp]: "length (mp_list mp) = unat (mp_cur mp)"
  by (simp add: mp_list_def)

lemma mempool_create_inv: "mp_inv (fp_mempool_create n objs) \<and> mp_list (fp_mempool_create n objs) = map objs [0 ..< unat n]"
  by (simp add: mp_inv_def mp_list_def fp_mempool_create_def)

lemma fp_mempool_get_None: "fp_mempool_get mp = None \<longleftrightarrow> mp_list mp = []"
  using unat_gt_0 [of "mp_cur mp"] by (auto simp: fp_mempool_get_def mp_list_def Let_def)

lemma fp_mempool_get_Some:
  assumes "mp_inv mp" "fp_mempool_get mp = Some (x, mp')"
  shows "mp_inv mp' \<and> mp_total mp' = mp_total mp \<and> mp_list mp = mp_list mp' @ [x]"
proof -
  have ne: "mp_cur mp \<noteq> 0" and mp': "mp' = mp\<lparr>mp_cur := mp_cur mp - 1\<rparr>"
    and x: "x = mp_elements mp (unat (mp_cur mp - 1))"
    using assms(2) by (auto simp: fp_mempool_get_def Let_def split: if_splits)
  have 1: "unat (mp_cur mp - 1) = unat (mp_cur mp) - 1" using unat_minus_one [OF ne] .
  have "unat (mp_cur mp) \<noteq> 0" using ne by (simp only: unat_eq_zero not_False_eq_True)
  then have "unat (mp_cur mp) = Suc (unat (mp_cur mp - 1))" unfolding 1 by simp
  then have "mp_list mp = mp_list mp' @ [x]" by (simp add: mp_list_def mp' x)
  moreover have "mp_inv mp'" using assms(1) 1 by (simp add: mp_inv_def mp' word_le_nat_alt)
  ultimately show ?thesis by (simp add: mp')
qed

lemma fp_mempool_put_spec:
  assumes "mp_cur mp < mp_total mp"
  shows "\<exists>mp'. fp_mempool_put mp x = Some mp' \<and> mp_inv mp' \<and> mp_total mp' = mp_total mp
    \<and> mp_list mp' = mp_list mp @ [x]"
proof -
  have lt: "unat (mp_cur mp) < unat (mp_total mp)" using assms by (simp add: word_less_nat_alt)
  then have "mp_cur mp \<noteq> - 1" using unat_u32_less [of "mp_total mp"]
    by (auto simp: unsigned_minus_1_eq_mask mask_eq_exp_minus_1 simp del: unat_u32_less)
  then have s: "unat (mp_cur mp + 1) = Suc (unat (mp_cur mp))"
    by (simp add: unatSuc add.commute eq_neg_iff_add_eq_0)
  show ?thesis
    using assms lt by (simp add: fp_mempool_put_def mp_inv_def mp_list_def word_le_nat_alt s leD)
qed

lemma fp_mempool_get_bulk_None: "fp_mempool_get_bulk mp n = None \<longleftrightarrow> length (mp_list mp) < n"
  by (simp add: fp_mempool_get_bulk_def Let_def)

lemma fp_mempool_get_bulk_Some:
  assumes "mp_inv mp" "fp_mempool_get_bulk mp n = Some (xs, mp')"
  shows "mp_inv mp' \<and> mp_total mp' = mp_total mp \<and> mp_list mp = mp_list mp' @ xs \<and> length xs = n"
proof -
  have n: "n \<le> unat (mp_cur mp)" and mp': "mp' = mp\<lparr>mp_cur := mp_cur mp - of_nat n\<rparr>"
    and xs: "xs = map (mp_elements mp) [unat (mp_cur mp - of_nat n) ..< unat (mp_cur mp - of_nat n) + n]"
    using assms(2) by (auto simp: fp_mempool_get_bulk_def Let_def split: if_splits)
  have "n < 2 ^ 32" using n unat_u32_less [of "mp_cur mp"] by (simp del: unat_u32_less)
  then have un: "unat (of_nat n :: u32) = n" by (intro unat_of_nat_word) simp
  have 1: "unat (mp_cur mp - of_nat n) = unat (mp_cur mp) - n"
    using n un by (simp add: unat_sub word_le_nat_alt)
  have "[0 ..< unat (mp_cur mp)] = [0 ..< unat (mp_cur mp) - n] @ [unat (mp_cur mp) - n ..< unat (mp_cur mp)]"
    using n by (metis le_add2 le_add_diff_inverse2 upt_add_eq_append zero_le add_0)
  then have "mp_list mp = mp_list mp' @ xs" using n by (simp add: mp_list_def mp' xs 1)
  moreover have "mp_inv mp'" using assms(1) by (simp add: mp_inv_def mp' word_le_nat_alt 1)
  ultimately show ?thesis by (simp add: mp' xs)
qed

lemma fp_mempool_put_bulk_spec:
  assumes "unat (mp_cur mp) + length xs \<le> unat (mp_total mp)"
  shows "\<exists>mp'. fp_mempool_put_bulk mp xs = Some mp' \<and> mp_inv mp' \<and> mp_total mp' = mp_total mp
    \<and> mp_list mp' = mp_list mp @ xs"
proof -
  have lt: "unat (mp_cur mp) + length xs < 2 ^ 32"
    using assms unat_u32_less [of "mp_total mp"] by (simp del: unat_u32_less)
  then have "unat (of_nat (length xs) :: u32) = length xs" by (intro unat_of_nat_word) simp
  then have s: "unat (mp_cur mp + of_nat (length xs)) = unat (mp_cur mp) + length xs"
    using lt by (simp add: unat_word_ariths)
  have "map (\<lambda>i. if unat (mp_cur mp) \<le> i \<and> i < unat (mp_cur mp) + length xs
         then xs ! (i - unat (mp_cur mp)) else mp_elements mp i) [0 ..< unat (mp_cur mp) + length xs]
      = map (mp_elements mp) [0 ..< unat (mp_cur mp)] @ xs"
    by (rule nth_equalityI) (auto simp: nth_append)
  then show ?thesis
    using assms by (simp add: fp_mempool_put_bulk_def mp_inv_def mp_list_def word_le_nat_alt s Let_def leD)
qed

declare length_mp_list [simp del]

section \<open>Properties\<close>

text \<open>
  C32. A ring is a first-in first-out queue that holds one element less than it has slots: every
  run of insertions and removals returns exactly what the specification returns, from any state of
  the ring, including across the wrap of the 32-bit counters, and a new ring is an empty queue.
\<close>

theorem ring_refines_queue:
  fixes ring :: "'a fp_ring" and junk :: "nat \<Rightarrow> 'a"
  shows "(ring_inv ring \<longrightarrow>
      queue_run fp_ring_enqueue fp_ring_dequeue os ring = queue_spec (ring_cap ring) os (ring_list ring))
    \<and> (k < 32 \<longrightarrow>
      queue_run fp_ring_enqueue fp_ring_dequeue os (fp_ring_create junk (2 ^ k)) = queue_spec (2 ^ k - 1) os [])"
  using rq.run_refines [of ring os] rq.run_refines [of "fp_ring_create junk (2 ^ k)" os] ring_create_inv [of k junk]
  by simp

text \<open>Rings of four slots, used at the wrap of the counters.\<close>

definition ex_ring :: "u32 \<Rightarrow> u32 \<Rightarrow> nat fp_ring" where
  "ex_ring h t = \<lparr>r_head = h, r_tail = t, r_mask = 3, r_elem = (\<lambda>i. i + 10)\<rparr>"

lemma ex_ring_inv: "t - h \<le> 3 \<Longrightarrow> ring_inv (ex_ring h t)"
  by (auto simp: ring_inv_def ring_log_def mask_eq_exp_minus_1 ex_ring_def intro: exI [of _ 2])

theorem ring_refines_queue_witness:
  "queue_run fp_ring_enqueue fp_ring_dequeue [Enq 7, Enq 8, Enq 9, Deq, Deq, Deq, Deq] (ex_ring 4294967294 4294967295)
   = [Inl True, Inl True, Inl False, Inr (Some 12), Inr (Some 7), Inr (Some 8), Inr None]"
proof -
  have "ring_inv (ex_ring 4294967294 4294967295)" by (rule ex_ring_inv) simp
  moreover have "ring_cap (ex_ring 4294967294 4294967295) = 3" "ring_list (ex_ring 4294967294 4294967295) = [12]" by (simp_all add: ex_ring_def ring_cap_def ring_list_def ring_slot_def upt_conv_Cons)
  ultimately show ?thesis
    using ring_refines_queue [of "ex_ring 4294967294 4294967295" "[Enq 7, Enq 8, Enq 9, Deq, Deq, Deq, Deq]"] by simp
qed

lemma mod_wrap: "m \<le> (n :: nat) \<Longrightarrow> n < 2 * m \<Longrightarrow> n mod m = n - m"
  by (simp add: mod_if)

text \<open>
  C33. The bulk insertion near the wrap of the counters. When the sum of the tail and the number of
  elements wraps and the limit does not, the call reports success although only the elements that fit
  are in the ring: the others are lost. When the limit wraps and the tail does not, the call reports a
  full ring whatever its room, so the loop that retries it never ends.
\<close>

theorem bulk_at_wrap:
  assumes "ring_inv r" and "length es \<le> ring_cap r"
  shows "(unat (r_head r) + ring_cap r < 2 ^ 32 \<and> 2 ^ 32 \<le> unat (r_tail r) + length es \<longrightarrow>
      (\<exists>r'. fp_ring_enqueue_bulk r es = Some r' \<and> ring_cap r - length (ring_list r) < length es
         \<and> ring_list r' = ring_list r @ take (ring_cap r - length (ring_list r)) es))
    \<and> (2 ^ 32 \<le> unat (r_head r) + ring_cap r \<and> r_head r \<le> r_tail r \<and> unat (r_tail r) + length es < 2 ^ 32 \<longrightarrow>
      fp_ring_enqueue_bulk r es = None)"
proof (intro conjI impI)
  have cap: "ring_cap r < 2 ^ 32" unfolding ring_cap_def by simp
  then have n: "unat (of_nat (length es) :: u32) = length es" using assms(2) by (intro unat_of_nat_word) simp
  have t: "unat (r_tail r + of_nat (length es)) = (unat (r_tail r) + length es) mod 2 ^ 32"
    using n by (simp add: unat_word_ariths)
  have h: "unat (r_head r + r_mask r) = (unat (r_head r) + ring_cap r) mod 2 ^ 32"
    by (simp add: unat_word_ariths ring_cap_def)
  {
    assume w: "unat (r_head r) + ring_cap r < 2 ^ 32 \<and> 2 ^ 32 \<le> unat (r_tail r) + length es"
    have "(unat (r_tail r) + length es) mod 2 ^ 32 = unat (r_tail r) + length es - 2 ^ 32"
      using w assms(2) cap unat_u32_less [of "r_tail r"] by (intro mod_wrap) (simp_all del: unat_u32_less)
    moreover have "unat (r_tail r) + length es - 2 ^ 32 \<le> unat (r_head r) + ring_cap r"
      using assms(2) unat_u32_less [of "r_tail r"] by (simp del: unat_u32_less)
    ultimately have "\<not> r_tail r + of_nat (length es) > r_head r + r_mask r"
      using w unfolding word_less_nat_alt t h by simp
    moreover have "ring_cap r - length (ring_list r) < length es"
    proof -
      have "unat (r_tail r) = unat (r_head r) + length (ring_list r)"
      proof -
        have "unat (r_tail r) = unat (r_head r + (r_tail r - r_head r))" by simp
        also have "\<dots> = (unat (r_head r) + length (ring_list r)) mod 2 ^ 32"
          unfolding length_ring_list by (subst unat_word_ariths) simp
        finally have "unat (r_tail r) = (unat (r_head r) + length (ring_list r)) mod 2 ^ 32" .
        then show ?thesis using w rq.elems_cap [OF assms(1)] by simp
      qed
      moreover have "unat (r_tail r) < 2 ^ 32" by simp
      moreover have "c - l < n" if "h + c < M" "M \<le> h + l + n" "h + l < M" for h c l n M :: nat
        using that by arith
      ultimately show ?thesis using w by metis
    qed
    ultimately show "\<exists>r'. fp_ring_enqueue_bulk r es = Some r' \<and> ring_cap r - length (ring_list r) < length es
         \<and> ring_list r' = ring_list r @ take (ring_cap r - length (ring_list r)) es"
      using enqueue_each_spec [OF assms(1), of es] by (simp add: fp_ring_enqueue_bulk_def Let_def)
  }
  {
    assume w: "2 ^ 32 \<le> unat (r_head r) + ring_cap r \<and> r_head r \<le> r_tail r \<and> unat (r_tail r) + length es < 2 ^ 32"
    have "(unat (r_head r) + ring_cap r) mod 2 ^ 32 = unat (r_head r) + ring_cap r - 2 ^ 32"
      using w cap unat_u32_less [of "r_head r"] by (intro mod_wrap) (simp_all del: unat_u32_less)
    moreover have "unat (r_head r) + ring_cap r - 2 ^ 32 < unat (r_tail r) + length es"
    proof -
      have "unat (r_head r) \<le> unat (r_tail r)" using w by (simp add: word_le_nat_alt)
      moreover have "h + c - M < t + n" if "M \<le> h + c" "c < M" "h \<le> t" for h c t n M :: nat
        using that by arith
      ultimately show ?thesis using w cap by blast
    qed
    ultimately have "r_tail r + of_nat (length es) > r_head r + r_mask r"
      using w unfolding word_less_nat_alt t h by simp
    then show "fp_ring_enqueue_bulk r es = None" by (simp add: fp_ring_enqueue_bulk_def Let_def)
  }
qed

theorem bulk_at_wrap_witness:
  "fp_ring_enqueue_bulk (ex_ring 4294967294 4294967294) [7] = None
   \<and> (\<exists>r'. fp_ring_enqueue_bulk (ex_ring 4294967292 4294967294) [7, 8, 9 :: nat] = Some r' \<and> ring_list r' = [10, 11, 7])"
proof
  let ?r = "ex_ring 4294967294 4294967294" and ?s = "ex_ring 4294967292 4294967294"
  have "ring_inv ?r" by (rule ex_ring_inv) simp
  moreover have "ring_cap ?r = 3" "unat (r_head ?r) = 4294967294" "unat (r_tail ?r) = 4294967294"
    "r_head ?r \<le> r_tail ?r" by (simp_all add: ex_ring_def ring_cap_def ring_list_def ring_slot_def upt_conv_Cons)
  ultimately show "fp_ring_enqueue_bulk ?r [7] = None" using bulk_at_wrap [of ?r "[7]"] by simp
  have "ring_inv ?s" by (rule ex_ring_inv) simp
  moreover have "ring_cap ?s = 3" "unat (r_head ?s) = 4294967292" "unat (r_tail ?s) = 4294967294"
    "ring_list ?s = [10, 11]" by (simp_all add: ex_ring_def ring_cap_def ring_list_def ring_slot_def upt_conv_Cons)
  ultimately show "\<exists>r'. fp_ring_enqueue_bulk ?s [7, 8, 9] = Some r' \<and> ring_list r' = [10, 11, 7]"
    using bulk_at_wrap [of ?s "[7, 8, 9]"] by auto
qed

end
