(* ===== verification/Bins.thy ===== *)
theory Bins
  imports FP_Prelude Topology
begin

text \<open>
  Bins of demands and the traffic admitted in a time slot, \<^verbatim>\<open>src/src/graph-algo/bin.h\<close> and
  \<^verbatim>\<open>src/src/graph-algo/admitted.h\<close>. A bin is a counted array that was allocated for \<open>b_cap\<close>
  entries; \<open>None\<close> is a failed assertion or a write behind the end of the array.
\<close>

section \<open>Bins\<close>

record backlog_edge =
  e_src :: u16
  e_dst :: u16
  e_backlog :: u16
  e_metric :: u32

record bin =
  b_size :: u32
  b_cap :: nat
  b_edges :: "nat \<Rightarrow> backlog_edge"

definition init_bin :: "bin \<Rightarrow> bin" where
  "init_bin b = b\<lparr>b_size := 0\<rparr>"

definition is_empty_bin :: "bin \<Rightarrow> bool" where
  "is_empty_bin b \<longleftrightarrow> b_size b = 0"

definition enqueue_bin_edge :: "bin \<Rightarrow> backlog_edge \<Rightarrow> bin option" where
  "enqueue_bin_edge b edge = do {
     let n = b_size b;
     bug_on (b_cap b \<le> unat n);
     Some (b\<lparr>b_size := n + 1, b_edges := (b_edges b)(unat n := edge)\<rparr>)
   }"

definition enqueue_bin :: "bin \<Rightarrow> u16 \<Rightarrow> u16 \<Rightarrow> u16 \<Rightarrow> u32 \<Rightarrow> bin option" where
  "enqueue_bin b src dst backlog metric = do {
     let n = b_size b;
     bug_on (b_cap b \<le> unat n);
     Some (b\<lparr>b_size := n + 1,
             b_edges := (b_edges b)(unat n := \<lparr>e_src = src, e_dst = dst, e_backlog = backlog, e_metric = metric\<rparr>)\<rparr>)
   }"

definition bin_size :: "bin \<Rightarrow> u32" where
  "bin_size b = b_size b"

definition bin_get :: "bin \<Rightarrow> nat \<Rightarrow> backlog_edge" where
  "bin_get b index = b_edges b index"

text \<open>The entries of a new bin are uninitialised memory, the argument \<open>junk\<close>.\<close>

definition create_bin :: "(nat \<Rightarrow> backlog_edge) \<Rightarrow> nat \<Rightarrow> bin" where
  "create_bin junk n_elem = init_bin \<lparr>b_size = 0, b_cap = n_elem, b_edges = junk\<rparr>"

text \<open>The entries of a bin, in their order.\<close>

definition bin_list :: "bin \<Rightarrow> backlog_edge list" where
  "bin_list b = map (bin_get b) [0 ..< unat (b_size b)]"

definition bin_ok :: "bin \<Rightarrow> bool" where
  "bin_ok b \<longleftrightarrow> unat (b_size b) \<le> b_cap b \<and> b_cap b < 2 ^ 32"

lemma length_bin_list [simp]: "length (bin_list b) = unat (b_size b)"
  by (simp add: bin_list_def)

lemma bin_list_init [simp]: "bin_list (init_bin b) = []" "b_cap (init_bin b) = b_cap b"
  by (simp_all add: bin_list_def init_bin_def)

lemma bin_ok_init [simp]: "bin_ok b \<Longrightarrow> bin_ok (init_bin b)"
  by (simp add: bin_ok_def init_bin_def)

lemma is_empty_bin_iff [simp]: "is_empty_bin b \<longleftrightarrow> bin_list b = []"
  using unat_gt_0 [of "b_size b"] by (auto simp: is_empty_bin_def bin_list_def)

lemma enqueue_bin_edge_spec:
  assumes "bin_ok b" "length (bin_list b) < b_cap b"
  shows "\<exists>b'. enqueue_bin_edge b e = Some b' \<and> bin_ok b' \<and> b_cap b' = b_cap b \<and> bin_list b' = bin_list b @ [e]"
proof -
  have lt: "Suc (unat (b_size b)) < 2 ^ LENGTH(32)" using assms by (simp add: bin_ok_def)
  have "b_size b + 1 = of_nat (Suc (unat (b_size b)))" by simp
  then have s: "unat (b_size b + 1) = Suc (unat (b_size b))" using lt by (simp only: unat_of_nat_word)
  show ?thesis
    using assms lt by (auto simp: enqueue_bin_edge_def bin_ok_def bin_list_def bin_get_def s Let_def)
qed

lemma enqueue_bin_eq:
  "enqueue_bin b src dst backlog metric =
   enqueue_bin_edge b \<lparr>e_src = src, e_dst = dst, e_backlog = backlog, e_metric = metric\<rparr>"
  by (simp add: enqueue_bin_def enqueue_bin_edge_def)

lemma map_bin_get: "map (bin_get b) [0 ..< unat (bin_size b)] = bin_list b"
  by (simp add: bin_list_def bin_size_def)

declare length_bin_list [simp del]

section \<open>Admitted traffic\<close>

record admitted_edge =
  a_src :: u16
  a_dst :: u16

record admitted_traffic =
  ad_size :: u16
  ad_partition :: u16
  ad_edges :: "nat \<Rightarrow> admitted_edge"

definition init_admitted_traffic :: "admitted_traffic \<Rightarrow> admitted_traffic" where
  "init_admitted_traffic admitted = admitted\<lparr>ad_size := 0, ad_partition := 0\<rparr>"

definition insert_admitted_edge :: "admitted_traffic \<Rightarrow> u16 \<Rightarrow> u16 \<Rightarrow> admitted_traffic option" where
  "insert_admitted_edge admitted src dst = do {
     bug_on (MAX_NODES \<le> unat (ad_size admitted));
     bug_on (MAX_NODES \<le> unat src);
     bug_on (MAX_NODES \<le> unat dst);
     Some (admitted\<lparr>ad_size := ad_size admitted + 1,
                    ad_edges := (ad_edges admitted)(unat (ad_size admitted) := \<lparr>a_src = src, a_dst = dst\<rparr>)\<rparr>)
   }"

definition get_admitted_edge :: "admitted_traffic \<Rightarrow> u16 \<Rightarrow> admitted_edge option" where
  "get_admitted_edge admitted index = do {
     bug_on (ad_size admitted < index);
     Some (ad_edges admitted (unat index))
   }"

definition set_admitted_partition :: "admitted_traffic \<Rightarrow> u16 \<Rightarrow> admitted_traffic" where
  "set_admitted_partition admitted partition_index = admitted\<lparr>ad_partition := partition_index\<rparr>"

definition get_admitted_partition :: "admitted_traffic \<Rightarrow> u16" where
  "get_admitted_partition admitted = ad_partition admitted"

definition create_admitted_traffic :: "(nat \<Rightarrow> admitted_edge) \<Rightarrow> admitted_traffic" where
  "create_admitted_traffic junk = init_admitted_traffic \<lparr>ad_size = 0, ad_partition = 0, ad_edges = junk\<rparr>"

definition get_num_admitted :: "admitted_traffic \<Rightarrow> u16" where
  "get_num_admitted admitted = ad_size admitted"

text \<open>The source and destination pairs of the admitted traffic, in their order.\<close>

definition adm_list :: "admitted_traffic \<Rightarrow> (u16 \<times> u16) list" where
  "adm_list ad = map (\<lambda>i. (a_src (ad_edges ad i), a_dst (ad_edges ad i))) [0 ..< unat (ad_size ad)]"

lemma length_adm_list [simp]: "length (adm_list ad) = unat (ad_size ad)"
  by (simp add: adm_list_def)

lemma adm_list_init [simp]: "adm_list (init_admitted_traffic ad) = []"
  by (simp add: adm_list_def init_admitted_traffic_def)

lemma insert_admitted_edge_spec:
  assumes "length (adm_list ad) < MAX_NODES" "unat src < MAX_NODES" "unat dst < MAX_NODES"
  shows "\<exists>ad'. insert_admitted_edge ad src dst = Some ad' \<and> adm_list ad' = adm_list ad @ [(src, dst)]"
proof -
  have "ad_size ad + 1 = of_nat (Suc (unat (ad_size ad)))" by simp
  moreover have "Suc (unat (ad_size ad)) < 2 ^ LENGTH(16)" using assms(1) by (simp add: MAX_NODES_def)
  ultimately have s: "unat (ad_size ad + 1) = Suc (unat (ad_size ad))" by (simp only: unat_of_nat_word)
  show ?thesis
    using assms by (auto simp: insert_admitted_edge_def adm_list_def s)
qed

declare length_adm_list [simp del]

text \<open>A matching uses every source and every destination at most once.\<close>

definition distinct_srcs :: "(u16 \<times> u16) list \<Rightarrow> bool" where
  "distinct_srcs es \<longleftrightarrow> distinct (map fst es)"

definition matching :: "(u16 \<times> u16) list \<Rightarrow> bool" where
  "matching es \<longleftrightarrow> distinct (map fst es) \<and> distinct (map snd es)"

end
