(* ===== verification/Batch.thy ===== *)
theory Batch
  imports FP_Prelude Topology Platform
begin

text \<open>
  The availability bitmaps of a batch of sixteen time slots, \<^verbatim>\<open>src/src/graph-algo/batch.h\<close>. Bit \<open>t\<close>
  of \<open>bs_src_endnodes s\<close> is set while source \<open>s\<close> has no packet in time slot \<open>t\<close>, and likewise for
  the destinations. An array is a function of its index.
\<close>

definition BATCH_SIZE :: nat where "BATCH_SIZE = 16"
definition BATCH_SHIFT :: nat where "BATCH_SHIFT = 4"
definition SUPPORTS_OVERSUBSCRIPTION :: bool where "SUPPORTS_OVERSUBSCRIPTION = False"

record batch_state =
  bs_oversubscribed :: bool
  bs_allowed_mask :: u64
  bs_src_endnodes :: "nat \<Rightarrow> u64"
  bs_dst_endnodes :: "nat \<Rightarrow> u64"
  bs_src_rack_bitmaps :: "nat \<Rightarrow> u64"
  bs_dst_rack_bitmaps :: "nat \<Rightarrow> u64"
  bs_src_rack_counts :: "nat \<Rightarrow> u16"
  bs_dst_rack_counts :: "nat \<Rightarrow> u16"
  bs_out_of_boundary_counts :: "nat \<Rightarrow> u16"

definition batch_state_init :: "batch_state \<Rightarrow> bool \<Rightarrow> u16 \<Rightarrow> u16 \<Rightarrow> u16 \<Rightarrow> batch_state option" where
  "batch_state_init state oversubscribed inter_rack_capacity out_of_boundary_capacity num_nodes = do {
     bug_on (MAX_NODES < unat num_nodes);
     let state = state\<lparr>
       bs_oversubscribed := oversubscribed,
       bs_allowed_mask := push_bit BATCH_SIZE 1 - 1,
       bs_src_endnodes := (\<lambda>i. if i < unat num_nodes then - 1 else bs_src_endnodes state i),
       bs_dst_endnodes := (\<lambda>i. if i < unat num_nodes then - 1 else bs_dst_endnodes state i)(OUT_OF_BOUNDARY_NODE_ID := - 1)\<rparr>;
     let state =
       (if oversubscribed then state\<lparr>
          bs_src_rack_bitmaps := (\<lambda>i. if i < unat (drop_bit TOR_SHIFT num_nodes) then - 1 else bs_src_rack_bitmaps state i),
          bs_dst_rack_bitmaps := (\<lambda>i. if i < unat (drop_bit TOR_SHIFT num_nodes) then - 1 else bs_dst_rack_bitmaps state i),
          bs_src_rack_counts := (\<lambda>i. if i < MAX_RACKS * BATCH_SIZE then inter_rack_capacity else bs_src_rack_counts state i),
          bs_dst_rack_counts := (\<lambda>i. if i < MAX_RACKS * BATCH_SIZE then inter_rack_capacity else bs_dst_rack_counts state i)\<rparr>
        else state);
     Some (state\<lparr>bs_out_of_boundary_counts :=
       (\<lambda>i. if i < BATCH_SIZE then out_of_boundary_capacity else bs_out_of_boundary_counts state i)\<rparr>)
   }"

definition batch_state_get_avail_bitmap :: "batch_state \<Rightarrow> u16 \<Rightarrow> u16 \<Rightarrow> u64 option" where
  "batch_state_get_avail_bitmap state src dst = do {
     bug_on (MAX_NODES \<le> unat src);
     bug_on (MAX_NODES \<le> unat dst);
     let endnode_bitmap = bs_allowed_mask state AND bs_src_endnodes state (unat src) AND bs_dst_endnodes state (unat dst);
     Some (if SUPPORTS_OVERSUBSCRIPTION \<and> bs_oversubscribed state then
             let src_rack = bs_src_rack_bitmaps state (unat (fp_rack_from_node_id src));
                 rack_bitmap = (if unat dst = OUT_OF_BOUNDARY_NODE_ID then src_rack
                   else src_rack AND bs_dst_rack_bitmaps state (unat (fp_rack_from_node_id dst)))
             in endnode_bitmap AND rack_bitmap
           else endnode_bitmap)
   }"

text \<open>Sets a time slot as occupied in the rack counters of the source or of the destination.\<close>

definition rack_set_occupied :: "(nat \<Rightarrow> u16) \<Rightarrow> (nat \<Rightarrow> u64) \<Rightarrow> u16 \<Rightarrow> nat \<Rightarrow> (nat \<Rightarrow> u16) \<times> (nat \<Rightarrow> u64)" where
  "rack_set_occupied counts bitmaps node timeslot =
     (let rack = unat (fp_rack_from_node_id node);
          i = BATCH_SIZE * rack + timeslot;
          counts = counts(i := counts i - 1)
      in (counts, if counts i = 0 then bitmaps(rack := bitmaps rack AND NOT (push_bit timeslot 1)) else bitmaps))"

definition batch_state_set_occupied_conditional :: "batch_state \<Rightarrow> u16 \<Rightarrow> u16 \<Rightarrow> nat \<Rightarrow> u64 \<Rightarrow> batch_state option" where
  "batch_state_set_occupied_conditional state src dst timeslot set_bitmask = do {
     bug_on (MAX_NODES \<le> unat src);
     bug_on (MAX_NODES \<le> unat dst);
     bug_on (BATCH_SIZE < timeslot);
     let is_out_of_boundary = (if unat dst = OUT_OF_BOUNDARY_NODE_ID then - 1 else 0 :: u64);
     let is_set = (if set_bitmask \<noteq> 0 then - 1 else 0 :: u64);
     let state = state\<lparr>bs_src_endnodes := (bs_src_endnodes state)(unat src := bs_src_endnodes state (unat src) XOR set_bitmask)\<rparr>;
     let state = state\<lparr>bs_out_of_boundary_counts := (bs_out_of_boundary_counts state)
                         (timeslot := bs_out_of_boundary_counts state timeslot + ucast (is_out_of_boundary AND is_set))\<rparr>;
     let flip_mask = is_out_of_boundary OR (if bs_out_of_boundary_counts state timeslot = 0 then - 1 else 0);
     let state = state\<lparr>bs_dst_endnodes := (bs_dst_endnodes state)
                         (unat dst := bs_dst_endnodes state (unat dst) XOR (set_bitmask AND flip_mask))\<rparr>;
     Some (if SUPPORTS_OVERSUBSCRIPTION \<and> bs_oversubscribed state \<and> is_set \<noteq> 0 then
             let (counts, bitmaps) = rack_set_occupied (bs_src_rack_counts state) (bs_src_rack_bitmaps state) src timeslot;
                 state = state\<lparr>bs_src_rack_counts := counts, bs_src_rack_bitmaps := bitmaps\<rparr>
             in if unat dst \<noteq> OUT_OF_BOUNDARY_NODE_ID then
                  let (counts, bitmaps) = rack_set_occupied (bs_dst_rack_counts state) (bs_dst_rack_bitmaps state) dst timeslot
                  in state\<lparr>bs_dst_rack_counts := counts, bs_dst_rack_bitmaps := bitmaps\<rparr>
                else state
           else state)
   }"

definition batch_state_disallow_lsb_timeslot :: "batch_state \<Rightarrow> batch_state" where
  "batch_state_disallow_lsb_timeslot state =
     state\<lparr>bs_allowed_mask := push_bit 1 (bs_allowed_mask state) AND (push_bit BATCH_SIZE 1 - 1)\<rparr>"

section \<open>What the bitmaps mean\<close>

text \<open>A time slot is free for a source, and for a destination.\<close>

definition src_free :: "batch_state \<Rightarrow> u16 \<Rightarrow> nat \<Rightarrow> bool" where
  "src_free bs s t \<longleftrightarrow> bit (bs_src_endnodes bs (unat s)) t"

definition dst_free :: "batch_state \<Rightarrow> u16 \<Rightarrow> nat \<Rightarrow> bool" where
  "dst_free bs d t \<longleftrightarrow> bit (bs_dst_endnodes bs (unat d)) t"

definition slot_allowed :: "batch_state \<Rightarrow> nat \<Rightarrow> bool" where
  "slot_allowed bs t \<longleftrightarrow> bit (bs_allowed_mask bs) t"

definition avail :: "batch_state \<Rightarrow> u16 \<Rightarrow> u16 \<Rightarrow> nat \<Rightarrow> bool" where
  "avail bs s d t \<longleftrightarrow> slot_allowed bs t \<and> src_free bs s t \<and> dst_free bs d t"

lemma get_avail_bitmap_spec:
  assumes "unat src < MAX_NODES" "unat dst < MAX_NODES"
  shows "\<exists>m. batch_state_get_avail_bitmap bs src dst = Some m \<and> (\<forall>t. bit m t \<longleftrightarrow> avail bs src dst t)"
  using assms
  by (auto simp: batch_state_get_avail_bitmap_def SUPPORTS_OVERSUBSCRIPTION_def avail_def src_free_def dst_free_def
      slot_allowed_def bit_and_iff)


text \<open>
  The destination leaves the time slot only when it is the boundary or when the boundary count of
  the slot is zero (after the update).
\<close>

definition dst_flips :: "batch_state \<Rightarrow> u16 \<Rightarrow> nat \<Rightarrow> bool" where
  "dst_flips bs d t \<longleftrightarrow> unat d = OUT_OF_BOUNDARY_NODE_ID \<or> bs_out_of_boundary_counts bs t = 0"

lemma unat_u16_eq: "unat (a :: u16) = unat b \<longleftrightarrow> a = b"
  by (simp add: unat_eq_iff)

lemma set_occupied_spec:
  assumes lt: "unat src < MAX_NODES" "unat dst < MAX_NODES" "t < BATCH_SIZE"
    and free: "src_free bs src t" "dst_free bs dst t"
    and m: "\<And>u. bit m u \<longleftrightarrow> u = t"
  shows "\<exists>bs'. batch_state_set_occupied_conditional bs src dst t m = Some bs'
    \<and> bs_allowed_mask bs' = bs_allowed_mask bs
    \<and> bs_out_of_boundary_counts bs' =
        (if unat dst = OUT_OF_BOUNDARY_NODE_ID
         then (bs_out_of_boundary_counts bs)(t := bs_out_of_boundary_counts bs t - 1) else bs_out_of_boundary_counts bs)
    \<and> (\<forall>s u. src_free bs' s u \<longleftrightarrow> src_free bs s u \<and> \<not> (s = src \<and> u = t))
    \<and> (\<forall>d u. dst_free bs' d u \<longleftrightarrow> dst_free bs d u \<and> \<not> (d = dst \<and> u = t \<and> dst_flips bs' dst t))"
proof -
  have m0: "m \<noteq> 0" using m [of t] by auto
  have oob: "unat d = OUT_OF_BOUNDARY_NODE_ID \<longleftrightarrow> d = 255" for d :: u16
    by (simp add: OUT_OF_BOUNDARY_NODE_ID_def MAX_NODES_def unat_eq_iff)
  define c where "c = (if dst = 255 then (bs_out_of_boundary_counts bs)(t := bs_out_of_boundary_counts bs t - 1)
    else bs_out_of_boundary_counts bs)"
  define f :: u64 where "f = (if dst = 255 \<or> c t = 0 then - 1 else 0)"
  define bs' where "bs' = bs\<lparr>bs_src_endnodes := (bs_src_endnodes bs)(unat src := bs_src_endnodes bs (unat src) XOR m),
    bs_out_of_boundary_counts := c,
    bs_dst_endnodes := (bs_dst_endnodes bs)(unat dst := bs_dst_endnodes bs (unat dst) XOR (m AND f))\<rparr>"
  have neg: "ucast (- 1 :: u64) = (- 1 :: u16)" by (simp add: bit_eq_iff bit_ucast_iff)
  have "batch_state_set_occupied_conditional bs src dst t m = Some bs'"
    using lt m0
    by (simp add: batch_state_set_occupied_conditional_def Let_def oob SUPPORTS_OVERSUBSCRIPTION_def bs'_def c_def f_def
        neg fun_upd_idem)
  moreover have "src_free bs' s u \<longleftrightarrow> src_free bs s u \<and> \<not> (s = src \<and> u = t)" for s u
    using free(1) by (auto simp: src_free_def bs'_def unat_u16_eq bit_xor_iff m)
  moreover have "dst_free bs' d u \<longleftrightarrow> dst_free bs d u \<and> \<not> (d = dst \<and> u = t \<and> dst_flips bs' dst t)" for d u
    using free(2) by (auto simp: dst_free_def bs'_def unat_u16_eq bit_xor_iff bit_and_iff m f_def dst_flips_def oob
        dest: bit_imp_le_length)
  ultimately show ?thesis by (auto simp: bs'_def c_def oob)
qed

lemma bit_batch_mask: "bit (push_bit BATCH_SIZE 1 - 1 :: u64) t \<longleftrightarrow> t < BATCH_SIZE"
proof -
  have "push_bit BATCH_SIZE 1 - 1 = (mask BATCH_SIZE :: u64)" by (simp add: mask_eq_exp_minus_1)
  then show ?thesis by (simp only: bit_mask_iff) (auto simp: BATCH_SIZE_def)
qed

lemma batch_state_init_spec:
  assumes "unat num_nodes \<le> MAX_NODES"
  shows "\<exists>bs'. batch_state_init bs ov irc oob num_nodes = Some bs'
    \<and> (\<forall>t. slot_allowed bs' t \<longleftrightarrow> t < BATCH_SIZE)
    \<and> (\<forall>s t. unat s < unat num_nodes \<and> t < 64 \<longrightarrow> src_free bs' s t)
    \<and> (\<forall>d t. (unat d < unat num_nodes \<or> unat d = OUT_OF_BOUNDARY_NODE_ID) \<and> t < 64 \<longrightarrow> dst_free bs' d t)
    \<and> (\<forall>t < BATCH_SIZE. bs_out_of_boundary_counts bs' t = oob)"
  using assms
  by (auto simp: batch_state_init_def Let_def slot_allowed_def src_free_def dst_free_def bit_batch_mask
      simp del: push_bit_of_1)

lemma disallow_lsb_allowed:
  assumes "\<And>t. slot_allowed bs t \<longleftrightarrow> k \<le> t \<and> t < BATCH_SIZE"
  shows "slot_allowed (batch_state_disallow_lsb_timeslot bs) t \<longleftrightarrow> Suc k \<le> t \<and> t < BATCH_SIZE"
proof -
  have "slot_allowed (batch_state_disallow_lsb_timeslot bs) t \<longleftrightarrow>
      1 \<le> t \<and> t < 64 \<and> slot_allowed bs (t - 1) \<and> t < BATCH_SIZE"
    by (auto simp: slot_allowed_def batch_state_disallow_lsb_timeslot_def bit_and_iff bit_batch_mask bit_push_bit_iff
        simp del: push_bit_of_1 push_bit_Suc)
  also have "\<dots> \<longleftrightarrow> Suc k \<le> t \<and> t < BATCH_SIZE"
    unfolding assms BATCH_SIZE_def by arith
  finally show ?thesis .
qed

lemma disallow_lsb_frame [simp]:
  "src_free (batch_state_disallow_lsb_timeslot bs) = src_free bs"
  "dst_free (batch_state_disallow_lsb_timeslot bs) = dst_free bs"
  "bs_out_of_boundary_counts (batch_state_disallow_lsb_timeslot bs) = bs_out_of_boundary_counts bs"
  by (simp_all add: fun_eq_iff src_free_def dst_free_def batch_state_disallow_lsb_timeslot_def)

end
