(* ===== verification/Algo_Log.thy ===== *)
theory Algo_Log
  imports FP_Prelude
begin

text \<open>
  The counters of the allocator, \<^verbatim>\<open>src/src/graph-algo/admissible_algo_log.h\<close>, with
  \<open>MAINTAIN_ADM_LOG_COUNTERS\<close> and \<open>MAINTAIN_CORE_BIN_HISTOGRAM\<close> on, as in the source. The prefix \<open>cs_\<close> marks the
  counters of a core and \<open>gs_\<close> the global ones. A histogram is a function of the bin number.
\<close>

section \<open>The counters\<close>

definition BACKLOG_HISTOGRAM_NUM_BINS :: u32 where "BACKLOG_HISTOGRAM_NUM_BINS = 16"
definition BACKLOG_HISTOGRAM_SHIFT :: nat where "BACKLOG_HISTOGRAM_SHIFT = 2"
definition BIN_SIZE_HISTOGRAM_NUM_BINS :: u32 where "BIN_SIZE_HISTOGRAM_NUM_BINS = 16"
definition BIN_SIZE_HISTOGRAM_SHIFT :: nat where "BIN_SIZE_HISTOGRAM_SHIFT = 4"
definition CORE_BIN_HISTOGRAM_NUM_BINS :: u32 where "CORE_BIN_HISTOGRAM_NUM_BINS = 16"
definition CORE_BIN_HISTOGRAM_SHIFT :: nat where "CORE_BIN_HISTOGRAM_SHIFT = 2"

record admission_core_statistics =
  cs_no_available_timeslots_for_bin_entry :: u64
  cs_bin_size_histogram :: "nat \<Rightarrow> u64"
  cs_core_bins_histogram :: "nat \<Rightarrow> u64"
  cs_wait_for_space_in_q_bin_out :: u64
  cs_wait_for_space_in_q_spent :: u64
  cs_out_bin_alloc_failed :: u64
  cs_q_out_flush_bin_full :: u64
  cs_q_out_flush_batch_finished :: u64
  cs_q_spent_flush_bin_full :: u64
  cs_q_spent_flush_batch_finished :: u64
  cs_waiting_to_pass_token :: u64
  cs_passed_bins_during_wrap_up :: u64
  cs_passed_bins_during_run :: u64
  cs_wrap_up_non_empty_bin :: u64
  cs_wrap_up_non_empty_bin_demands :: u64
  cs_allocated_backlog_remaining :: u64
  cs_backlog_sum :: u64
  cs_allocated_no_backlog :: u64
  cs_backlog_histogram :: "nat \<Rightarrow> u64"
  cs_admitted_traffic_alloc_failed :: u64
  cs_wait_for_space_in_q_admitted_out :: u64
  cs_new_request_bins :: u64
  cs_new_requests :: u64
  cs_phase_finished :: u64
  cs_phase_none_ready :: u64
  cs_phase_out_of_order :: u64

record admission_statistics =
  gs_added_backlog_atomically :: u64
  gs_backlog_sum_atomically :: u64
  gs_backlog_sum_inc_atomically :: u64
  gs_added_backlog_to_queue :: u64
  gs_backlog_sum_to_queue :: u64
  gs_backlog_sum_inc_to_queue :: u64
  gs_spent_bins :: u64
  gs_spent_demands :: u64
  gs_wait_for_space_in_q_head :: u64
  gs_new_demands_bin_alloc_failed :: u64
  gs_backlog_flush_forced :: u64
  gs_backlog_flush_bin_full :: u64

section \<open>Global counters\<close>

definition adm_log_wait_for_space_in_q_head :: "admission_statistics \<Rightarrow> admission_statistics" where
  "adm_log_wait_for_space_in_q_head st = st\<lparr>gs_wait_for_space_in_q_head := gs_wait_for_space_in_q_head st + 1\<rparr>"

definition adm_log_new_demands_bin_alloc_failed :: "admission_statistics \<Rightarrow> admission_statistics" where
  "adm_log_new_demands_bin_alloc_failed st = st\<lparr>gs_new_demands_bin_alloc_failed := gs_new_demands_bin_alloc_failed st + 1\<rparr>"

text \<open>\<open>new_backlog\<close> is a signed parameter: the sum grows by its sign extension.\<close>

definition adm_log_increased_backlog_to_queue :: "admission_statistics \<Rightarrow> u32 \<Rightarrow> u32 \<Rightarrow> admission_statistics" where
  "adm_log_increased_backlog_to_queue ast amt new_backlog =
     ast\<lparr>gs_added_backlog_to_queue := gs_added_backlog_to_queue ast + 1,
         gs_backlog_sum_inc_to_queue := gs_backlog_sum_inc_to_queue ast + ucast amt,
         gs_backlog_sum_to_queue := gs_backlog_sum_to_queue ast + scast new_backlog\<rparr>"

definition adm_log_increased_backlog_atomically :: "admission_statistics \<Rightarrow> u32 \<Rightarrow> u32 \<Rightarrow> admission_statistics" where
  "adm_log_increased_backlog_atomically ast amt new_backlog =
     ast\<lparr>gs_added_backlog_atomically := gs_added_backlog_atomically ast + 1,
         gs_backlog_sum_inc_atomically := gs_backlog_sum_inc_atomically ast + ucast amt,
         gs_backlog_sum_atomically := gs_backlog_sum_atomically ast + scast new_backlog\<rparr>"

definition adm_log_forced_backlog_flush :: "admission_statistics \<Rightarrow> admission_statistics" where
  "adm_log_forced_backlog_flush st = st\<lparr>gs_backlog_flush_forced := gs_backlog_flush_forced st + 1\<rparr>"

definition adm_log_backlog_flush_bin_full :: "admission_statistics \<Rightarrow> admission_statistics" where
  "adm_log_backlog_flush_bin_full st = st\<lparr>gs_backlog_flush_bin_full := gs_backlog_flush_bin_full st + 1\<rparr>"

definition adm_log_processed_spent_demands :: "admission_statistics \<Rightarrow> u32 \<Rightarrow> u32 \<Rightarrow> admission_statistics" where
  "adm_log_processed_spent_demands st num_bins num_demands =
     st\<lparr>gs_spent_bins := gs_spent_bins st + scast num_bins, gs_spent_demands := gs_spent_demands st + ucast num_demands\<rparr>"

section \<open>Counters of a core\<close>

text \<open>The histogram bin of a value: its high bits, the last bin for everything above.\<close>

definition hist_bin :: "nat \<Rightarrow> u32 \<Rightarrow> u32 \<Rightarrow> nat" where
  "hist_bin shift num_bins v = (let h = drop_bit shift v in unat (if num_bins \<le> h then num_bins - 1 else h))"

definition adm_algo_log_no_available_timeslots_for_bin_entry :: "admission_core_statistics \<Rightarrow> admission_core_statistics" where
  "adm_algo_log_no_available_timeslots_for_bin_entry st = st\<lparr>cs_no_available_timeslots_for_bin_entry := cs_no_available_timeslots_for_bin_entry st + 1\<rparr>"

text \<open>The backlog is a signed parameter, and so is its shift to the right.\<close>

definition adm_log_allocated_backlog_remaining :: "admission_core_statistics \<Rightarrow> u32 \<Rightarrow> admission_core_statistics" where
  "adm_log_allocated_backlog_remaining st backlog =
     (let h = hist_bin 0 BACKLOG_HISTOGRAM_NUM_BINS (signed_drop_bit BACKLOG_HISTOGRAM_SHIFT backlog)
      in st\<lparr>cs_allocated_backlog_remaining := cs_allocated_backlog_remaining st + 1,
            cs_backlog_sum := cs_backlog_sum st + scast backlog,
            cs_backlog_histogram := (cs_backlog_histogram st)(h := cs_backlog_histogram st h + 1)\<rparr>)"

definition adm_log_allocator_no_backlog :: "admission_core_statistics \<Rightarrow> admission_core_statistics" where
  "adm_log_allocator_no_backlog st = st\<lparr>cs_allocated_no_backlog := cs_allocated_no_backlog st + 1\<rparr>"

definition adm_log_dequeued_bin_in :: "admission_core_statistics \<Rightarrow> u16 \<Rightarrow> admission_core_statistics" where
  "adm_log_dequeued_bin_in st bin_size =
     (let h = hist_bin BIN_SIZE_HISTOGRAM_SHIFT BIN_SIZE_HISTOGRAM_NUM_BINS (ucast bin_size)
      in st\<lparr>cs_bin_size_histogram := (cs_bin_size_histogram st)(h := cs_bin_size_histogram st h + 1)\<rparr>)"

definition adm_log_processed_core_bin :: "admission_core_statistics \<Rightarrow> u16 \<Rightarrow> u16 \<Rightarrow> admission_core_statistics" where
  "adm_log_processed_core_bin st bin_index bin_size =
     (let h = hist_bin CORE_BIN_HISTOGRAM_SHIFT CORE_BIN_HISTOGRAM_NUM_BINS (ucast bin_index)
      in st\<lparr>cs_core_bins_histogram := (cs_core_bins_histogram st)(h := cs_core_bins_histogram st h + ucast bin_size)\<rparr>)"

definition adm_log_passed_bins_during_wrap_up :: "admission_core_statistics \<Rightarrow> u32 \<Rightarrow> admission_core_statistics" where
  "adm_log_passed_bins_during_wrap_up st n_bins =
     st\<lparr>cs_passed_bins_during_wrap_up := cs_passed_bins_during_wrap_up st + ucast n_bins\<rparr>"

definition adm_log_passed_bins_during_run :: "admission_core_statistics \<Rightarrow> u32 \<Rightarrow> admission_core_statistics" where
  "adm_log_passed_bins_during_run st n_bins =
     st\<lparr>cs_passed_bins_during_run := cs_passed_bins_during_run st + ucast n_bins\<rparr>"

definition adm_log_wrap_up_non_empty_bin :: "admission_core_statistics \<Rightarrow> u32 \<Rightarrow> admission_core_statistics" where
  "adm_log_wrap_up_non_empty_bin st bin_size =
     st\<lparr>cs_wrap_up_non_empty_bin := cs_wrap_up_non_empty_bin st + 1,
        cs_wrap_up_non_empty_bin_demands := cs_wrap_up_non_empty_bin_demands st + ucast bin_size\<rparr>"

definition adm_log_wait_for_space_in_q_bin_out :: "admission_core_statistics \<Rightarrow> admission_core_statistics" where
  "adm_log_wait_for_space_in_q_bin_out st = st\<lparr>cs_wait_for_space_in_q_bin_out := cs_wait_for_space_in_q_bin_out st + 1\<rparr>"

definition adm_log_wait_for_space_in_q_spent :: "admission_core_statistics \<Rightarrow> admission_core_statistics" where
  "adm_log_wait_for_space_in_q_spent st = st\<lparr>cs_wait_for_space_in_q_spent := cs_wait_for_space_in_q_spent st + 1\<rparr>"

definition adm_log_wait_for_space_in_q_admitted_traffic :: "admission_core_statistics \<Rightarrow> admission_core_statistics" where
  "adm_log_wait_for_space_in_q_admitted_traffic st = st\<lparr>cs_wait_for_space_in_q_admitted_out := cs_wait_for_space_in_q_admitted_out st + 1\<rparr>"

definition adm_log_admitted_traffic_alloc_failed :: "admission_core_statistics \<Rightarrow> admission_core_statistics" where
  "adm_log_admitted_traffic_alloc_failed st = st\<lparr>cs_admitted_traffic_alloc_failed := cs_admitted_traffic_alloc_failed st + 1\<rparr>"

definition adm_log_out_bin_alloc_failed :: "admission_core_statistics \<Rightarrow> admission_core_statistics" where
  "adm_log_out_bin_alloc_failed st = st\<lparr>cs_out_bin_alloc_failed := cs_out_bin_alloc_failed st + 1\<rparr>"

definition adm_log_q_out_flush_bin_full :: "admission_core_statistics \<Rightarrow> admission_core_statistics" where
  "adm_log_q_out_flush_bin_full st = st\<lparr>cs_q_out_flush_bin_full := cs_q_out_flush_bin_full st + 1\<rparr>"

definition adm_log_q_spent_flush_bin_full :: "admission_core_statistics \<Rightarrow> admission_core_statistics" where
  "adm_log_q_spent_flush_bin_full st = st\<lparr>cs_q_spent_flush_bin_full := cs_q_spent_flush_bin_full st + 1\<rparr>"

definition adm_log_q_out_flush_batch_finished :: "admission_core_statistics \<Rightarrow> admission_core_statistics" where
  "adm_log_q_out_flush_batch_finished st = st\<lparr>cs_q_out_flush_batch_finished := cs_q_out_flush_batch_finished st + 1\<rparr>"

definition adm_log_q_spent_flush_batch_finished :: "admission_core_statistics \<Rightarrow> admission_core_statistics" where
  "adm_log_q_spent_flush_batch_finished st = st\<lparr>cs_q_spent_flush_batch_finished := cs_q_spent_flush_batch_finished st + 1\<rparr>"

definition adm_log_processed_new_requests :: "admission_core_statistics \<Rightarrow> u32 \<Rightarrow> u32 \<Rightarrow> admission_core_statistics" where
  "adm_log_processed_new_requests st num_bins num_demands =
     st\<lparr>cs_new_request_bins := cs_new_request_bins st + scast num_bins,
        cs_new_requests := cs_new_requests st + ucast num_demands\<rparr>"

definition adm_log_wait_for_q_bin_out_enqueue_token :: "admission_core_statistics \<Rightarrow> admission_core_statistics" where
  "adm_log_wait_for_q_bin_out_enqueue_token st = st\<lparr>cs_waiting_to_pass_token := cs_waiting_to_pass_token st + 1\<rparr>"

definition adm_log_phase_finished :: "admission_core_statistics \<Rightarrow> admission_core_statistics" where
  "adm_log_phase_finished st = st\<lparr>cs_phase_finished := cs_phase_finished st + 1\<rparr>"

definition adm_log_phase_none_ready :: "admission_core_statistics \<Rightarrow> admission_core_statistics" where
  "adm_log_phase_none_ready st = st\<lparr>cs_phase_none_ready := cs_phase_none_ready st + 1\<rparr>"

definition adm_log_phase_out_of_order :: "admission_core_statistics \<Rightarrow> admission_core_statistics" where
  "adm_log_phase_out_of_order st = st\<lparr>cs_phase_out_of_order := cs_phase_out_of_order st + 1\<rparr>"

text \<open>Every update of a histogram stays inside of its sixteen bins.\<close>

lemma hist_bin_less:
  assumes "0 < num_bins"
  shows "hist_bin shift num_bins v < unat num_bins"
proof -
  have "num_bins \<noteq> 0" "0 < unat num_bins" using assms by (auto simp: word_less_nat_alt)
  then have "num_bins - 1 < num_bins" using unat_minus_one [of num_bins] by (simp add: word_less_nat_alt)
  then show ?thesis by (auto simp: hist_bin_def Let_def word_less_nat_alt [symmetric] not_le)
qed

end
