(* ===== verification/Backlog.thy ===== *)
theory Backlog
  imports Platform Topology Algo_Log
begin

text \<open>
  The demands between every source and destination, \<^verbatim>\<open>src/src/graph-algo/backlog.h\<close>, with the bit
  instructions of \<^verbatim>\<open>src/src/graph-algo/bitasm.h\<close>. A pair is active while one entry for it travels
  through the allocator; what is requested meanwhile gathers in \<open>bl_n\<close>. The arrays are functions of
  the index, and an index outside of them is \<open>None\<close>.
\<close>

record backlog =
  bl_n :: "nat \<Rightarrow> u32"
  bl_is_active :: "nat \<Rightarrow> u64"

definition NUM_SRC_DST_PAIRS :: nat where "NUM_SRC_DST_PAIRS = MAX_NODES * MAX_NODES"

text \<open>\<open>btr\<close>, \<open>bts\<close> and \<open>bt\<close> on a memory operand address the bit \<open>index\<close> of the array that starts there.\<close>

definition arr_unset_bit :: "(nat \<Rightarrow> u64) \<Rightarrow> nat \<Rightarrow> nat \<Rightarrow> u64" where
  "arr_unset_bit arr index = arr(index div 64 := arr (index div 64) AND NOT (push_bit (index mod 64) 1))"

definition arr_set_bit :: "(nat \<Rightarrow> u64) \<Rightarrow> nat \<Rightarrow> nat \<Rightarrow> u64" where
  "arr_set_bit arr index = arr(index div 64 := arr (index div 64) OR push_bit (index mod 64) 1)"

definition arr_test_bit :: "(nat \<Rightarrow> u64) \<Rightarrow> nat \<Rightarrow> bool" where
  "arr_test_bit arr index \<longleftrightarrow> bit (arr (index div 64)) (index mod 64)"

definition backlog_init :: "backlog \<Rightarrow> backlog" where
  "backlog_init backlog = backlog\<lparr>bl_n := (\<lambda>_. 0), bl_is_active := (\<lambda>_. 0)\<rparr>"

definition backlog_index :: "u16 \<Rightarrow> u16 \<Rightarrow> u32" where
  "backlog_index src dst = push_bit FP_NODES_SHIFT (ucast src) + ucast dst"

text \<open>The index as an array index: \<open>None\<close> behind the end of the array.\<close>

definition pair_index :: "u16 \<Rightarrow> u16 \<Rightarrow> nat option" where
  "pair_index src dst = do {
     let index = unat (backlog_index src dst);
     bug_on (NUM_SRC_DST_PAIRS \<le> index);
     Some index
   }"

definition backlog_get :: "backlog \<Rightarrow> u16 \<Rightarrow> u16 \<Rightarrow> u32 option" where
  "backlog_get backlog src dst = do { index \<leftarrow> pair_index src dst; Some (bl_n backlog index) }"

definition backlog_non_active :: "backlog \<Rightarrow> u16 \<Rightarrow> u16 \<Rightarrow> backlog option" where
  "backlog_non_active backlog src dst = do {
     index \<leftarrow> pair_index src dst;
     Some (backlog\<lparr>bl_is_active := arr_unset_bit (bl_is_active backlog) index\<rparr>)
   }"

definition backlog_reset_pair :: "backlog \<Rightarrow> u16 \<Rightarrow> u16 \<Rightarrow> backlog option" where
  "backlog_reset_pair backlog src dst = do {
     index \<leftarrow> pair_index src dst;
     Some (backlog\<lparr>bl_n := (bl_n backlog)(index := 0)\<rparr>)
   }"

definition backlog_increase ::
  "backlog \<Rightarrow> u16 \<Rightarrow> u16 \<Rightarrow> u32 \<Rightarrow> admission_statistics \<Rightarrow> (bool \<times> backlog \<times> admission_statistics) option" where
  "backlog_increase backlog src dst amount stat = do {
     bug_on (amount = 0);
     index \<leftarrow> pair_index src dst;
     let already_active = arr_test_bit (bl_is_active backlog) index;
     let backlog = backlog\<lparr>bl_is_active := arr_set_bit (bl_is_active backlog) index\<rparr>;
     if \<not> already_active then do {
       bug_on (bl_n backlog index \<noteq> 0);
       Some (True, backlog, adm_log_increased_backlog_to_queue stat amount amount)
     } else do {
       let backlog = backlog\<lparr>bl_n := (bl_n backlog)(index := bl_n backlog index + amount)\<rparr>;
       Some (False, backlog, adm_log_increased_backlog_atomically stat amount (bl_n backlog index))
     }
   }"

section \<open>The operations on pairs\<close>

lemma pair_index_eq:
  assumes "unat src < MAX_NODES" "unat dst < MAX_NODES"
  shows "pair_index src dst = Some (unat src * 256 + unat dst)"
proof -
  have lt: "unat src < 256" "unat dst < 256" using assms by (simp_all add: MAX_NODES_def)
  have u: "unat (ucast x :: u32) = unat x" for x :: u16 
  proof -
    have "unat x < 2 ^ 32" using unat_u16_less [of x] by (simp del: unat_u16_less)
    then show ?thesis by (simp add: unsigned_ucast_eq take_bit_nat_eq_self)
  qed
  have "unat (push_bit 8 (ucast src) :: u32) = unat src * 256"
    using lt(1) by (simp add: push_bit_eq_mult unat_word_ariths u)
  then have "unat (backlog_index src dst) = unat src * 256 + unat dst"
    using lt by (simp add: backlog_index_def FP_NODES_SHIFT_def unat_word_ariths u)
  moreover have "unat src * 256 + unat dst < 65536" using lt by simp
  ultimately show ?thesis by (simp add: pair_index_def NUM_SRC_DST_PAIRS_def MAX_NODES_def)
qed

lemma pair_index_inj:
  assumes "unat src < MAX_NODES" "unat dst < MAX_NODES" "unat src' < MAX_NODES" "unat dst' < MAX_NODES"
  shows "pair_index src dst = pair_index src' dst' \<longleftrightarrow> src = src' \<and> dst = dst'"
proof -
  have "unat src * 256 + unat dst = unat src' * 256 + unat dst' \<longleftrightarrow> unat src = unat src' \<and> unat dst = unat dst'"
  proof -
    have "a * 256 + b = c * 256 + d \<longleftrightarrow> a = c \<and> b = d" if "b < 256" "d < 256" for a b c d :: nat
    proof
      assume eq: "a * 256 + b = c * 256 + d"
      have "(a * 256 + b) div 256 = a" "(c * 256 + d) div 256 = c" using that by simp_all
      with eq show "a = c \<and> b = d" by simp
    qed simp
    then show ?thesis using assms(2,4) unfolding MAX_NODES_def by blast
  qed
  then show ?thesis by (simp add: pair_index_eq assms word_unat_eq_iff)
qed

lemma arr_test_set: "arr_test_bit (arr_set_bit arr i) j \<longleftrightarrow> i = j \<or> arr_test_bit arr j"
proof -
  have "i = j \<longleftrightarrow> i div 64 = j div 64 \<and> i mod 64 = j mod 64" by (metis div_mult_mod_eq)
  then show ?thesis
    by (auto simp: arr_test_bit_def arr_set_bit_def bit_or_iff bit_push_bit_iff bit_1_iff simp del: push_bit_of_1)
qed

lemma arr_test_unset: "arr_test_bit (arr_unset_bit arr i) j \<longleftrightarrow> i \<noteq> j \<and> arr_test_bit arr j"
proof -
  have "i = j \<longleftrightarrow> i div 64 = j div 64 \<and> i mod 64 = j mod 64" by (metis div_mult_mod_eq)
  then show ?thesis
    by (auto simp: arr_test_bit_def arr_unset_bit_def bit_and_iff bit_not_iff bit_push_bit_iff bit_1_iff
        dest: bit_imp_le_length simp del: push_bit_of_1)
qed

end
