(* ===== verification/Admissible.thy ===== *)
theory Admissible
  imports Ring Bins Batch Backlog
begin

text \<open>
  The pipelined time slot allocator, \<^verbatim>\<open>src/src/graph-algo/admissible_structures.h\<close> and
  \<^verbatim>\<open>src/src/graph-algo/admissible_traffic.[ch]\<close>, in the user-space build (\<open>NO_DPDK\<close>, where the
  clock of \<open>seq_get_admissible_traffic\<close> advances by one slot per round and the rings and pools are
  those of the theory \<open>Ring\<close>).

  Bins and lists of admitted traffic travel between the cores by pointer. They live in two stores of
  the status, \<open>ss_bins\<close> and \<open>ss_adms\<close>, and the rings, the pools and the cores hold their addresses.
  The bins of incoming requests are private to a core and are part of its record.

  The result \<open>None\<close> is a failed assertion, an access outside of an array, or a wait that no other
  core ends: the loops that spin on a full ring or on an empty pool.
\<close>

section \<open>Structures\<close>

definition SMALL_BIN_SIZE :: nat where "SMALL_BIN_SIZE = 32"
definition LARGE_BIN_SIZE :: nat where "LARGE_BIN_SIZE = MAX_NODES * MAX_NODES"
definition NUM_BINS :: nat where "NUM_BINS = 32"
definition BIN_MASK_SIZE :: nat where "BIN_MASK_SIZE = (NUM_BINS + BATCH_SIZE + 63) div 64"

type_synonym addr = nat

record seq_admission_core_state =
  co_new_request_bins :: "nat \<Rightarrow> bin"
  co_non_empty_bins :: "nat \<Rightarrow> u64"
  co_allowed_bins :: "nat \<Rightarrow> u64"
  co_batch_state :: batch_state
  co_admitted :: "nat \<Rightarrow> addr"
  co_out_bin :: addr
  co_spent_bin :: addr
  co_stat :: admission_core_statistics
  co_current_timeslot :: u64

record seq_admissible_status =
  ss_oversubscribed :: bool
  ss_out_of_boundary_capacity :: u16
  ss_inter_rack_capacity :: u16
  ss_num_nodes :: u16
  ss_last_alloc_tslot :: "nat \<Rightarrow> u64"
  ss_backlog :: backlog
  ss_new_demands :: addr
  ss_q_head :: "addr fp_ring"
  ss_q_admitted_out :: "addr fp_ring"
  ss_q_spent :: "addr fp_ring"
  ss_bin_mempool :: "addr fp_mempool"
  ss_admitted_traffic_mempool :: "addr fp_mempool"
  ss_cores :: "nat \<Rightarrow> seq_admission_core_state"
  ss_q_bin :: "nat \<Rightarrow> addr fp_ring"
  ss_stat :: admission_statistics
  ss_bins :: "addr \<Rightarrow> bin"
  ss_adms :: "addr \<Rightarrow> admitted_traffic"

type_synonym core = seq_admission_core_state
type_synonym status = seq_admissible_status

text \<open>Updates of one core, of one bin of the store, and of the two groups of counters.\<close>

definition upd_core :: "nat \<Rightarrow> (core \<Rightarrow> core) \<Rightarrow> status \<Rightarrow> status" where
  "upd_core ci f st = st\<lparr>ss_cores := (ss_cores st)(ci := f (ss_cores st ci))\<rparr>"

definition set_bin :: "addr \<Rightarrow> bin \<Rightarrow> status \<Rightarrow> status" where
  "set_bin a b st = st\<lparr>ss_bins := (ss_bins st)(a := b)\<rparr>"

definition core_log :: "nat \<Rightarrow> (admission_core_statistics \<Rightarrow> admission_core_statistics) \<Rightarrow> status \<Rightarrow> status" where
  "core_log ci f = upd_core ci (co_stat_update f)"

definition seq_reset_admissible_status :: "status \<Rightarrow> bool \<Rightarrow> u16 \<Rightarrow> u16 \<Rightarrow> u16 \<Rightarrow> status option" where
  "seq_reset_admissible_status status oversubscribed inter_rack_capacity out_of_boundary_capacity num_nodes = do {
     bug_on (oversubscribed \<and> \<not> SUPPORTS_OVERSUBSCRIPTION);
     Some (status\<lparr>ss_oversubscribed := oversubscribed,
                  ss_inter_rack_capacity := inter_rack_capacity,
                  ss_out_of_boundary_capacity := out_of_boundary_capacity,
                  ss_num_nodes := num_nodes,
                  ss_last_alloc_tslot := (\<lambda>i. if i < NUM_SRC_DST_PAIRS then 0 else ss_last_alloc_tslot status i),
                  ss_backlog := backlog_init (ss_backlog status)\<rparr>)
   }"

definition alloc_core_reset :: "nat \<Rightarrow> status \<Rightarrow> status option" where
  "alloc_core_reset ci status = do {
     let core = ss_cores status ci;
     let core = core\<lparr>co_new_request_bins :=
       (\<lambda>i. if i < NUM_BINS + BATCH_SIZE then init_bin (co_new_request_bins core i) else co_new_request_bins core i)\<rparr>;
     let core = core\<lparr>co_allowed_bins :=
       (\<lambda>i. if i = 0 then 1 else if i < BIN_MASK_SIZE then 0 else co_allowed_bins core i)\<rparr>;
     bs \<leftarrow> batch_state_init (co_batch_state core) (ss_oversubscribed status) (ss_inter_rack_capacity status)
             (ss_out_of_boundary_capacity status) (ss_num_nodes status);
     let core = core\<lparr>co_batch_state := bs,
       co_non_empty_bins := (\<lambda>i. if i < BIN_MASK_SIZE then 0 else co_non_empty_bins core i)\<rparr>;
     bug_on (\<not> is_empty_bin (ss_bins status (co_out_bin core)));
     bug_on (\<not> is_empty_bin (ss_bins status (co_spent_bin core)));
     Some (upd_core ci (\<lambda>_. core) status)
   }"

text \<open>The result \<open>None\<close> of the two initialisations is also the error code -1.\<close>

definition alloc_core_init :: "(nat \<Rightarrow> nat \<Rightarrow> backlog_edge) \<Rightarrow> status \<Rightarrow> nat \<Rightarrow> u64 \<Rightarrow> status option" where
  "alloc_core_init junk status ci timeslot = do {
     (out_bin, mp) \<leftarrow> fp_mempool_get (ss_bin_mempool status);
     (spent_bin, mp) \<leftarrow> fp_mempool_get mp;
     let status = status\<lparr>ss_bin_mempool := mp\<rparr>;
     let status = set_bin out_bin (init_bin (ss_bins status out_bin)) status;
     let status = set_bin spent_bin (init_bin (ss_bins status spent_bin)) status;
     Some (upd_core ci (\<lambda>core. core\<lparr>
       co_new_request_bins := (\<lambda>j. if j < NUM_BINS + BATCH_SIZE then create_bin (junk j) LARGE_BIN_SIZE
                                  else co_new_request_bins core j),
       co_out_bin := out_bin, co_spent_bin := spent_bin, co_current_timeslot := timeslot\<rparr>) status)
   }"

fun init_cores :: "(nat \<Rightarrow> nat \<Rightarrow> backlog_edge) \<Rightarrow> nat list \<Rightarrow> status \<Rightarrow> status option" where
  "init_cores junk [] status = Some status"
| "init_cores junk (i # is) status = do {
     status \<leftarrow> alloc_core_init junk status i (of_nat (NUM_BINS + i * BATCH_SIZE));
     init_cores junk is status
   }"

definition seq_init_admissible_status ::
  "(nat \<Rightarrow> nat \<Rightarrow> backlog_edge) \<Rightarrow> nat \<Rightarrow> status \<Rightarrow> bool \<Rightarrow> u16 \<Rightarrow> u16 \<Rightarrow> u16 \<Rightarrow> addr fp_ring \<Rightarrow> addr fp_ring \<Rightarrow> addr fp_ring
   \<Rightarrow> addr fp_mempool \<Rightarrow> addr fp_mempool \<Rightarrow> (nat \<Rightarrow> addr fp_ring) \<Rightarrow> status option" where
  "seq_init_admissible_status junk n_cores status oversubscribed inter_rack_capacity out_of_boundary_capacity num_nodes
     q_head q_admitted_out q_spent bin_mempool admitted_traffic_mempool q_bin = do {
     status \<leftarrow> seq_reset_admissible_status status oversubscribed inter_rack_capacity out_of_boundary_capacity num_nodes;
     let status = status\<lparr>ss_q_head := q_head, ss_q_admitted_out := q_admitted_out, ss_q_spent := q_spent,
                         ss_bin_mempool := bin_mempool, ss_admitted_traffic_mempool := admitted_traffic_mempool,
                         ss_q_bin := (\<lambda>i. if i < n_cores then q_bin i else ss_q_bin status i)\<rparr>;
     (new_demands, mp) \<leftarrow> fp_mempool_get (ss_bin_mempool status);
     let status = set_bin new_demands (init_bin (ss_bins status new_demands)) (status\<lparr>ss_bin_mempool := mp, ss_new_demands := new_demands\<rparr>);
     init_cores junk [0 ..< n_cores] status
   }"

section \<open>Which bin a flow belongs to\<close>

text \<open>
  A shift of a 64-bit value by a count of 64 or more is not defined in C; the processor takes the
  count modulo 64. The counts at hand exceed 63 only where the result is overwritten.
\<close>

definition shr64 :: "u64 \<Rightarrow> nat \<Rightarrow> u64" where
  "shr64 x n = drop_bit (n mod 64) x"

definition bin_index_from_timeslot :: "u32 \<Rightarrow> u64 \<Rightarrow> u16" where
  "bin_index_from_timeslot last_allocated current_timeslot =
     (let gap = ucast (current_timeslot + of_nat BATCH_SIZE) - last_allocated :: u32
      in if gap \<le> of_nat NUM_BINS then ucast (of_nat (NUM_BINS + BATCH_SIZE - 1) - gap)
         else
           let gap = gap - (of_nat NUM_BINS + 1);
               group_ind = ucast (drop_bit BATCH_SHIFT gap) :: u16;
               bin_gap = ucast (shr64 (push_bit (BATCH_SHIFT + 1) (- 1) OR ucast (gap AND of_nat (BATCH_SIZE - 1)))
                                 (1 + unat group_ind)) :: u16;
               is_large_gap = (if of_nat BATCH_SHIFT \<le> group_ind then 1 else 0) :: u16;
               bin_gap = bin_gap OR (push_bit 15 1 - is_large_gap)
           in of_nat (BATCH_SIZE - 1) - (bin_gap AND of_nat (BATCH_SIZE - 1)))"

definition new_metric_after_alloc :: "nat \<Rightarrow> core \<Rightarrow> u32" where
  "new_metric_after_alloc batch_timeslot core = ucast (co_current_timeslot core + of_nat batch_timeslot)"

definition bin_after_alloc :: "nat \<Rightarrow> nat" where
  "bin_after_alloc batch_timeslot = NUM_BINS + batch_timeslot"

section \<open>Handing bins over\<close>

definition core_flush_q_spent :: "nat \<Rightarrow> status \<Rightarrow> status option" where
  "core_flush_q_spent ci st = do {
     q \<leftarrow> fp_ring_enqueue (ss_q_spent st) (co_spent_bin (ss_cores st ci));
     (b, mp) \<leftarrow> fp_mempool_get (ss_bin_mempool st);
     let st = upd_core ci (co_spent_bin_update (\<lambda>_. b)) (st\<lparr>ss_q_spent := q, ss_bin_mempool := mp\<rparr>);
     Some (set_bin b (init_bin (ss_bins st b)) st)
   }"

definition core_enqueue_to_q_spent :: "nat \<Rightarrow> u16 \<Rightarrow> u16 \<Rightarrow> u32 \<Rightarrow> status \<Rightarrow> status option" where
  "core_enqueue_to_q_spent ci src dst metric st = do {
     let a = co_spent_bin (ss_cores st ci);
     b \<leftarrow> enqueue_bin (ss_bins st a) src dst 0 metric;
     let st = set_bin a b st;
     if bin_size b = of_nat SMALL_BIN_SIZE then core_flush_q_spent ci (core_log ci adm_log_q_spent_flush_bin_full st)
     else Some st
   }"

definition core_flush_q_out :: "nat \<Rightarrow> nat \<Rightarrow> status \<Rightarrow> status option" where
  "core_flush_q_out ci qo st = do {
     q \<leftarrow> fp_ring_enqueue (ss_q_bin st qo) (co_out_bin (ss_cores st ci));
     (b, mp) \<leftarrow> fp_mempool_get (ss_bin_mempool st);
     let st = upd_core ci (co_out_bin_update (\<lambda>_. b)) (st\<lparr>ss_q_bin := (ss_q_bin st)(qo := q), ss_bin_mempool := mp\<rparr>);
     Some (set_bin b (init_bin (ss_bins st b)) st)
   }"

definition core_enqueue_to_q_out_edge :: "nat \<Rightarrow> nat \<Rightarrow> backlog_edge \<Rightarrow> status \<Rightarrow> status option" where
  "core_enqueue_to_q_out_edge ci qo edge st = do {
     let a = co_out_bin (ss_cores st ci);
     b \<leftarrow> enqueue_bin_edge (ss_bins st a) edge;
     let st = set_bin a b st;
     if bin_size b = of_nat SMALL_BIN_SIZE then core_flush_q_out ci qo (core_log ci adm_log_q_out_flush_bin_full st)
     else Some st
   }"

definition core_enqueue_to_q_out :: "nat \<Rightarrow> nat \<Rightarrow> u16 \<Rightarrow> u16 \<Rightarrow> u16 \<Rightarrow> u32 \<Rightarrow> status \<Rightarrow> status option" where
  "core_enqueue_to_q_out ci qo src dst backlog metric st = do {
     let a = co_out_bin (ss_cores st ci);
     b \<leftarrow> enqueue_bin (ss_bins st a) src dst backlog metric;
     let st = set_bin a b st;
     if bin_size b = of_nat SMALL_BIN_SIZE then core_flush_q_out ci qo (core_log ci adm_log_q_out_flush_bin_full st)
     else Some st
   }"

section \<open>Requests\<close>

definition flush_backlog_now :: "status \<Rightarrow> status option" where
  "flush_backlog_now st = do {
     q \<leftarrow> fp_ring_enqueue (ss_q_head st) (ss_new_demands st);
     (b, mp) \<leftarrow> fp_mempool_get (ss_bin_mempool st);
     let st = st\<lparr>ss_q_head := q, ss_bin_mempool := mp, ss_new_demands := b\<rparr>;
     Some (set_bin b (init_bin (ss_bins st b)) st)
   }"

definition seq_flush_backlog :: "status \<Rightarrow> status option" where
  "seq_flush_backlog st =
     (if is_empty_bin (ss_bins st (ss_new_demands st)) then Some st
      else flush_backlog_now (st\<lparr>ss_stat := adm_log_forced_backlog_flush (ss_stat st)\<rparr>))"

text \<open>The 32-bit amount is passed to the 16-bit parameter of \<open>enqueue_bin\<close>.\<close>

definition enqueue_new_demand :: "u16 \<Rightarrow> u16 \<Rightarrow> u32 \<Rightarrow> status \<Rightarrow> status option" where
  "enqueue_new_demand src dst amount st = do {
     index \<leftarrow> pair_index src dst;
     let a = ss_new_demands st;
     b \<leftarrow> enqueue_bin (ss_bins st a) src dst (ucast amount) (ucast (ss_last_alloc_tslot st index));
     let st = set_bin a b st;
     if bin_size b = of_nat SMALL_BIN_SIZE
     then flush_backlog_now (st\<lparr>ss_stat := adm_log_backlog_flush_bin_full (ss_stat st)\<rparr>)
     else Some st
   }"

definition seq_add_backlog :: "u16 \<Rightarrow> u16 \<Rightarrow> u32 \<Rightarrow> status \<Rightarrow> status option" where
  "seq_add_backlog src dst amount st = do {
     (was_zero, backlog, stat) \<leftarrow> backlog_increase (ss_backlog st) src dst amount (ss_stat st);
     let st = st\<lparr>ss_backlog := backlog, ss_stat := stat\<rparr>;
     if \<not> was_zero then Some st else enqueue_new_demand src dst amount st
   }"

definition SPENT_RING_DEQUEUE_SIZE :: nat where "SPENT_RING_DEQUEUE_SIZE = 256"

text \<open>The body of the inner loop of \<open>seq_handle_spent\<close>, for one spent entry.\<close>

definition handle_spent_edge :: "backlog_edge \<Rightarrow> status \<Rightarrow> status option" where
  "handle_spent_edge edge st = do {
     let src = e_src edge;
     let dst = e_dst edge;
     backlog \<leftarrow> backlog_get (ss_backlog st) src dst;
     if backlog = 0 then do {
       index \<leftarrow> pair_index src dst;
       bl \<leftarrow> backlog_non_active (ss_backlog st) src dst;
       Some (st\<lparr>ss_last_alloc_tslot := (ss_last_alloc_tslot st)(index := ucast (e_metric edge)), ss_backlog := bl\<rparr>)
     } else do {
       bl \<leftarrow> backlog_reset_pair (ss_backlog st) src dst;
       enqueue_new_demand src dst backlog (st\<lparr>ss_backlog := bl\<rparr>)
     }
   }"

text \<open>
  The outer loop. The size of a spent bin is read in every round of the inner loop and does not
  change there: the loop writes only to \<open>new_demands\<close>.
\<close>

definition handle_spent_bin :: "addr \<Rightarrow> status \<Rightarrow> status option" where
  "handle_spent_bin a st = do {
     st \<leftarrow> for_each (\<lambda>i st. handle_spent_edge (bin_get (ss_bins st a) i) st) [0 ..< unat (bin_size (ss_bins st a))] st;
     mp \<leftarrow> fp_mempool_put (ss_bin_mempool st) a;
     Some (st\<lparr>ss_bin_mempool := mp\<rparr>)
   }"

definition seq_handle_spent :: "status \<Rightarrow> status option" where
  "seq_handle_spent st = do {
     let (as, q) = fp_ring_dequeue_burst (ss_q_spent st) SPENT_RING_DEQUEUE_SIZE;
     let num_entries = sum_list (map (\<lambda>a. bin_size (ss_bins st a)) as);
     st \<leftarrow> for_each handle_spent_bin as (st\<lparr>ss_q_spent := q\<rparr>);
     Some (st\<lparr>ss_stat := adm_log_processed_spent_demands (ss_stat st) (of_nat (length as)) num_entries\<rparr>)
   }"

definition seq_reset_sender :: "u16 \<Rightarrow> status \<Rightarrow> status option" where
  "seq_reset_sender src st =
     for_each (\<lambda>dst st. do { bl \<leftarrow> backlog_reset_pair (ss_backlog st) src (of_nat dst); Some (st\<lparr>ss_backlog := bl\<rparr>) })
       [0 ..< MAX_NODES] st"

end
