(* ===== verification/Allocator.thy ===== *)
theory Allocator
  imports Admissible
begin

text \<open>
  One batch of the pipelined allocator, \<open>seq_get_admissible_traffic\<close> of
  \<^verbatim>\<open>src/src/graph-algo/admissible_traffic.c\<close>. \<open>ci\<close> is the index of the core, \<open>qi\<close> and \<open>qo\<close> are the indices of
  the rings it takes bins from and hands bins to.
\<close>

section \<open>Sorting the requests into the bins of a core\<close>

definition set_bin_non_empty :: "nat \<Rightarrow> nat \<Rightarrow> status \<Rightarrow> status" where
  "set_bin_non_empty ci bin_index =
     upd_core ci (\<lambda>core. core\<lparr>co_non_empty_bins := arr_set_bit (co_non_empty_bins core) bin_index\<rparr>)"

text \<open>Puts an entry into a request bin and marks the bin as non-empty.\<close>

definition request_bin_add :: "nat \<Rightarrow> nat \<Rightarrow> backlog_edge \<Rightarrow> status \<Rightarrow> status option" where
  "request_bin_add ci bin_index edge st = do {
     b \<leftarrow> enqueue_bin_edge (co_new_request_bins (ss_cores st ci) bin_index) edge;
     let st = upd_core ci (\<lambda>core. core\<lparr>co_new_request_bins := (co_new_request_bins core)(bin_index := b)\<rparr>) st;
     Some (set_bin_non_empty ci bin_index st)
   }"

definition incoming_edge :: "nat \<Rightarrow> backlog_edge \<Rightarrow> status \<Rightarrow> status option" where
  "incoming_edge ci edge st =
     request_bin_add ci (unat (bin_index_from_timeslot (e_metric edge) (co_current_timeslot (ss_cores st ci)))) edge st"

definition incoming_bin_to_core :: "nat \<Rightarrow> addr \<Rightarrow> status \<Rightarrow> status option" where
  "incoming_bin_to_core ci a st =
     for_each (\<lambda>i st. incoming_edge ci (bin_get (ss_bins st a) i) st) [0 ..< unat (bin_size (ss_bins st a))] st"

text \<open>A bin that was read goes back to the pool.\<close>

definition take_in_bin :: "nat \<Rightarrow> addr \<Rightarrow> status \<Rightarrow> status option" where
  "take_in_bin ci a st = do {
     st \<leftarrow> incoming_bin_to_core ci a st;
     mp \<leftarrow> fp_mempool_put (ss_bin_mempool st) a;
     Some (st\<lparr>ss_bin_mempool := mp\<rparr>)
   }"

definition RING_DEQUEUE_BURST_SIZE :: nat where "RING_DEQUEUE_BURST_SIZE = 8"

definition process_new_requests :: "nat \<Rightarrow> status \<Rightarrow> (u32 \<times> status) option" where
  "process_new_requests ci st = do {
     let (as, q) = fp_ring_dequeue_burst (ss_q_head st) RING_DEQUEUE_BURST_SIZE;
     let num_entries = sum_list (map (\<lambda>a. bin_size (ss_bins st a)) as);
     st \<leftarrow> for_each (take_in_bin ci) as (st\<lparr>ss_q_head := q\<rparr>);
     Some (num_entries, core_log ci (\<lambda>s. adm_log_processed_new_requests s (of_nat (length as)) num_entries) st)
   }"

section \<open>Allocation\<close>

definition try_allocation :: "nat \<Rightarrow> u16 \<Rightarrow> u16 \<Rightarrow> u16 \<Rightarrow> u32 \<Rightarrow> status \<Rightarrow> (bool \<times> status) option" where
  "try_allocation ci src dst backlog metric st = do {
     let core = ss_cores st ci;
     timeslot_bitmap \<leftarrow> batch_state_get_avail_bitmap (co_batch_state core) src dst;
     if timeslot_bitmap = 0 then Some (True, core_log ci adm_algo_log_no_available_timeslots_for_bin_entry st)
     else do {
       let batch_timeslot = take_bit BATCH_SHIFT (ffs timeslot_bitmap);
       let set_bit = timeslot_bitmap AND - timeslot_bitmap;
       let backlog = backlog - 1;
       bs \<leftarrow> batch_state_set_occupied_conditional (co_batch_state core) src dst batch_timeslot set_bit;
       let st = upd_core ci (co_batch_state_update (\<lambda>_. bs)) st;
       let metric = new_metric_after_alloc batch_timeslot core;
       let a = co_admitted core batch_timeslot;
       ad \<leftarrow> insert_admitted_edge (ss_adms st a) src dst;
       let st = st\<lparr>ss_adms := (ss_adms st)(a := ad)\<rparr>;
       if backlog \<noteq> 0 then do {
         let st = core_log ci (\<lambda>s. adm_log_allocated_backlog_remaining s (ucast backlog)) st;
         st \<leftarrow> request_bin_add ci (bin_after_alloc batch_timeslot)
                 \<lparr>e_src = src, e_dst = dst, e_backlog = backlog, e_metric = metric\<rparr> st;
         Some (False, st)
       } else do {
         let st = core_log ci adm_log_allocator_no_backlog st;
         st \<leftarrow> core_enqueue_to_q_spent ci src dst metric st;
         Some (False, st)
       }
     }
   }"

definition try_allocation_entry :: "nat \<Rightarrow> nat \<Rightarrow> nat \<Rightarrow> nat \<Rightarrow> status \<Rightarrow> status option" where
  "try_allocation_entry ci qo bin_index i st = do {
     let e = bin_get (co_new_request_bins (ss_cores st ci) bin_index) i;
     (rc, st) \<leftarrow> try_allocation ci (e_src e) (e_dst e) (e_backlog e) (e_metric e) st;
     if rc then core_enqueue_to_q_out ci qo (e_src e) (e_dst e) (e_backlog e) (e_metric e) st else Some st
   }"

definition try_allocation_bin :: "nat \<Rightarrow> nat \<Rightarrow> nat \<Rightarrow> status \<Rightarrow> status option" where
  "try_allocation_bin ci qo bin_index st =
     for_each (try_allocation_entry ci qo bin_index)
       [0 ..< unat (bin_size (co_new_request_bins (ss_cores st ci) bin_index))] st"

text \<open>One round of the loop of \<open>try_allocation_core\<close>: the lowest allowed bin that is not empty.\<close>

definition try_allocation_round :: "nat \<Rightarrow> nat \<Rightarrow> nat \<Rightarrow> u64 \<Rightarrow> status \<Rightarrow> status option" where
  "try_allocation_round ci qo ind msk st = do {
     let bin_index = ffs msk + 64 * ind;
     let st = upd_core ci (\<lambda>core. core\<lparr>co_non_empty_bins :=
       (co_non_empty_bins core)(ind := co_non_empty_bins core ind XOR (msk AND - msk))\<rparr>) st;
     let st = core_log ci (\<lambda>s. adm_log_processed_core_bin s (of_nat bin_index)
                (ucast (bin_size (co_new_request_bins (ss_cores st ci) bin_index)))) st;
     st \<leftarrow> try_allocation_bin ci qo bin_index st;
     Some (upd_core ci (\<lambda>core. core\<lparr>co_new_request_bins :=
       (co_new_request_bins core)(bin_index := init_bin (co_new_request_bins core bin_index))\<rparr>) st)
   }"

partial_function (option) try_allocation_loop :: "nat \<Rightarrow> nat \<Rightarrow> nat \<Rightarrow> u64 \<Rightarrow> status \<Rightarrow> status option" where
  "try_allocation_loop ci qo ind allowed st = (
     let mask = co_non_empty_bins (ss_cores st ci) ind AND allowed
     in if mask = 0 then Some st
        else do {
          st \<leftarrow> try_allocation_round ci qo ind mask st;
          try_allocation_loop ci qo ind allowed st
        })"

declare try_allocation_loop.simps [code]

definition try_allocation_core :: "nat \<Rightarrow> nat \<Rightarrow> status \<Rightarrow> status option" where
  "try_allocation_core ci qo =
     for_each (\<lambda>ind st. try_allocation_loop ci qo ind (co_allowed_bins (ss_cores st ci) ind) st) [0 ..< BIN_MASK_SIZE]"

section \<open>What is left at the end of a batch\<close>

definition move_bin_to_q_out :: "nat \<Rightarrow> nat \<Rightarrow> nat \<Rightarrow> status \<Rightarrow> status option" where
  "move_bin_to_q_out ci qo bin_index st =
     for_each (\<lambda>i st. core_enqueue_to_q_out_edge ci qo (bin_get (co_new_request_bins (ss_cores st ci) bin_index) i) st)
       [0 ..< unat (bin_size (co_new_request_bins (ss_cores st ci) bin_index))] st"

lemma card_bits_clear_lowest:
  assumes "msk \<noteq> (0 :: u64)"
  shows "card {i. bit (msk AND (msk - 1)) i} < card {i. bit msk i}"
proof (rule psubset_card_mono)
  show "finite {i. bit msk i}"
    by (rule finite_subset [of _ "{..< 64}"]) (auto dest: bit_imp_le_length)
  show "{i. bit (msk AND (msk - 1)) i} \<subset> {i. bit msk i}"
    using bit_clear_lowest [OF assms] bit_ffs [OF assms] by auto
qed

function move_bins_to_q_out :: "nat \<Rightarrow> nat \<Rightarrow> nat \<Rightarrow> u64 \<Rightarrow> status \<Rightarrow> status option" where
  "move_bins_to_q_out ci qo ind msk st =
     (if msk = 0 then Some st
      else do {
        let bin_index = ffs msk + 64 * ind;
        let st = core_log ci (\<lambda>s. adm_log_wrap_up_non_empty_bin s
                   (bin_size (co_new_request_bins (ss_cores st ci) bin_index))) st;
        st \<leftarrow> move_bin_to_q_out ci qo bin_index st;
        move_bins_to_q_out ci qo ind (msk AND (msk - 1)) st
      })"
  by pat_completeness auto
termination
  by (relation "measure (\<lambda>(_, _, _, mask, _). card {i. bit mask i})") (simp_all add: card_bits_clear_lowest)

declare move_bins_to_q_out.simps [simp del]

definition move_core_to_q_out :: "nat \<Rightarrow> nat \<Rightarrow> status \<Rightarrow> status option" where
  "move_core_to_q_out ci qo =
     for_each (\<lambda>ind st. move_bins_to_q_out ci qo ind (co_non_empty_bins (ss_cores st ci) ind) st) [0 ..< BIN_MASK_SIZE]"

definition Q_IN_Q_OUT_BURST_SIZE :: nat where "Q_IN_Q_OUT_BURST_SIZE = 16"

definition burst_q_in_to_q_out :: "nat \<Rightarrow> nat \<Rightarrow> status \<Rightarrow> (nat \<times> status) option" where
  "burst_q_in_to_q_out qi qo st = do {
     let (as, q) = fp_ring_dequeue_burst (ss_q_bin st qi) Q_IN_Q_OUT_BURST_SIZE;
     let st = st\<lparr>ss_q_bin := (ss_q_bin st)(qi := q)\<rparr>;
     if 0 < length as then do {
       q \<leftarrow> fp_ring_enqueue_bulk (ss_q_bin st qo) as;
       Some (length as, st\<lparr>ss_q_bin := (ss_q_bin st)(qo := q)\<rparr>)
     } else Some (length as, st)
   }"

section \<open>A batch\<close>

definition URGENT_NUM_TIMESLOTS_START :: u64 where "URGENT_NUM_TIMESLOTS_START = of_nat BATCH_SIZE"
definition URGENT_NUM_TIMESLOTS_END :: u64 where "URGENT_NUM_TIMESLOTS_END = 1"
definition MAX_DEMANDS_PER_BATCH :: "nat \<Rightarrow> nat" where "MAX_DEMANDS_PER_BATCH n_cores = MAX_NODES * BATCH_SIZE * n_cores"
definition TIMESLOT_SHIFT_PER_PRIORITY :: nat where "TIMESLOT_SHIFT_PER_PRIORITY = 1"
definition TIMESLOTS_START_BEFORE :: nat where "TIMESLOTS_START_BEFORE = (BATCH_SIZE + NUM_BINS) * 2 ^ TIMESLOT_SHIFT_PER_PRIORITY"

text \<open>The local variables of \<open>seq_get_admissible_traffic\<close> that live across the rounds of its loop.\<close>

record batch_vars =
  bv_now :: u64
  bv_prev :: u64
  bv_should_process_new_req :: bool
  bv_admitted_bins :: nat
  bv_processed_bins :: nat
  bv_n_processed :: u64

text \<open>Sends the admitted traffic of a time slot out and closes the slot.\<close>

definition publish_slot :: "nat \<Rightarrow> nat \<Rightarrow> status \<Rightarrow> status option" where
  "publish_slot ci bin st = do {
     q \<leftarrow> fp_ring_enqueue (ss_q_admitted_out st) (co_admitted (ss_cores st ci) bin);
     Some (upd_core ci (co_batch_state_update batch_state_disallow_lsb_timeslot) (st\<lparr>ss_q_admitted_out := q\<rparr>))
   }"

text \<open>The part of a round up to \<open>update_allowed\<close>: whether the batch is over.\<close>

definition admit_step :: "nat \<Rightarrow> u64 \<Rightarrow> batch_vars \<Rightarrow> status \<Rightarrow> (bool \<times> batch_vars \<times> status) option" where
  "admit_step ci first_timeslot v st = (
     let admit_gap = sint (bv_now v - first_timeslot + 1)
     in if admit_gap \<le> 0 then Some (False, v, st)
        else do {
          let admit_gap = (if int BATCH_SIZE < admit_gap then BATCH_SIZE else nat admit_gap);
          st \<leftarrow> for_each (publish_slot ci) [bv_admitted_bins v ..< admit_gap] st;
          Some (admit_gap = BATCH_SIZE, v\<lparr>bv_admitted_bins := admit_gap\<rparr>, st)
        })"

text \<open>The block \<open>update_allowed\<close>.\<close>

definition update_allowed :: "nat \<Rightarrow> u64 \<Rightarrow> batch_vars \<Rightarrow> status \<Rightarrow> batch_vars \<times> status" where
  "update_allowed ci first_timeslot v st =
     (let slot_gap = sint (bv_now v - (first_timeslot + of_nat BATCH_SIZE - 1) + of_nat TIMESLOTS_START_BEFORE)
      in if slot_gap < 0 then (v, st)
         else
           let new_processed_bins =
                 (if int TIMESLOTS_START_BEFORE < slot_gap then BATCH_SIZE + NUM_BINS
                  else nat (drop_bit TIMESLOT_SHIFT_PER_PRIORITY slot_gap));
               st = upd_core ci (\<lambda>core. core\<lparr>co_allowed_bins :=
                      fold (\<lambda>bin arr. arr_set_bit arr bin) [bv_processed_bins v ..< new_processed_bins] (co_allowed_bins core)\<rparr>) st
           in (v\<lparr>bv_processed_bins := new_processed_bins\<rparr>, st))"

text \<open>The block \<open>handle_inputs\<close>, up to \<open>try_alloc\<close>.\<close>

definition handle_inputs :: "nat \<Rightarrow> nat \<Rightarrow> nat \<Rightarrow> nat \<Rightarrow> batch_vars \<Rightarrow> status \<Rightarrow> (batch_vars \<times> status) option" where
  "handle_inputs n_cores ci qi qo v st =
     (if of_nat (MAX_DEMANDS_PER_BATCH n_cores) \<le> bv_n_processed v then do {
        (n, st) \<leftarrow> burst_q_in_to_q_out qi qo st;
        Some (v, core_log ci (\<lambda>s. adm_log_passed_bins_during_run s (of_nat n)) st)
      } else do {
        (v, st) \<leftarrow>
          (if bv_should_process_new_req v then do {
             (n, st) \<leftarrow> process_new_requests ci st;
             Some (v\<lparr>bv_n_processed := bv_n_processed v + ucast n\<rparr>, st)
           } else Some (v, st));
        case fp_ring_dequeue (ss_q_bin st qi) of
          None \<Rightarrow> Some (v, st)
        | Some (a, q) \<Rightarrow> do {
            let st = st\<lparr>ss_q_bin := (ss_q_bin st)(qi := q)\<rparr>;
            let n = bin_size (ss_bins st a);
            let st = core_log ci (\<lambda>s. adm_log_dequeued_bin_in s (ucast n)) st;
            st \<leftarrow> take_in_bin ci a st;
            Some (v\<lparr>bv_n_processed := bv_n_processed v + ucast n\<rparr>, st)
          }
      })"

text \<open>A round of the loop; the first component is \<open>goto wrap_up\<close>.\<close>

definition batch_round ::
  "nat \<Rightarrow> nat \<Rightarrow> nat \<Rightarrow> nat \<Rightarrow> u64 \<Rightarrow> batch_vars \<Rightarrow> status \<Rightarrow> (bool \<times> batch_vars \<times> status) option" where
  "batch_round n_cores ci qi qo first_timeslot v st = do {
     let v = v\<lparr>bv_now := bv_now v + 1\<rparr>;
     st \<leftarrow> for_each (\<lambda>_ st. do { (_, st) \<leftarrow> process_new_requests ci st; Some st }) [0 ..< 10 :: nat] st;
     (wrap_up, v, st) \<leftarrow>
       (if bv_now v = bv_prev v then Some (False, v, st)
        else do {
          let v = v\<lparr>bv_prev := bv_now v,
                    bv_should_process_new_req :=
                      URGENT_NUM_TIMESLOTS_END < first_timeslot - bv_now v \<and>
                      first_timeslot - bv_now v \<le> URGENT_NUM_TIMESLOTS_START\<rparr>;
          (wrap_up, v, st) \<leftarrow> admit_step ci first_timeslot v st;
          if wrap_up then Some (True, v, st)
          else let (v, st) = update_allowed ci first_timeslot v st in Some (False, v, st)
        });
     if wrap_up then Some (True, v, st)
     else do {
       (v, st) \<leftarrow> handle_inputs n_cores ci qi qo v st;
       st \<leftarrow> try_allocation_core ci qo st;
       Some (False, v, st)
     }
   }"

partial_function (option) batch_loop ::
  "nat \<Rightarrow> nat \<Rightarrow> nat \<Rightarrow> nat \<Rightarrow> u64 \<Rightarrow> batch_vars \<Rightarrow> status \<Rightarrow> status option" where
  "batch_loop n_cores ci qi qo first_timeslot v st = do {
     (wrap_up, v, st) \<leftarrow> batch_round n_cores ci qi qo first_timeslot v st;
     if wrap_up then Some st else batch_loop n_cores ci qi qo first_timeslot v st
   }"

declare batch_loop.simps [code]

definition wrap_up_batch :: "nat \<Rightarrow> nat \<Rightarrow> nat \<Rightarrow> nat \<Rightarrow> status \<Rightarrow> status option" where
  "wrap_up_batch n_cores ci qi qo st = do {
     st \<leftarrow> move_core_to_q_out ci qo st;
     st \<leftarrow> (if \<not> is_empty_bin (ss_bins st (co_out_bin (ss_cores st ci)))
           then core_flush_q_out ci qo (core_log ci adm_log_q_out_flush_batch_finished st) else Some st);
     st \<leftarrow> (if \<not> is_empty_bin (ss_bins st (co_spent_bin (ss_cores st ci)))
           then core_flush_q_spent ci (core_log ci adm_log_q_spent_flush_batch_finished st) else Some st);
     (n, st) \<leftarrow> burst_q_in_to_q_out qi qo st;
     let st = core_log ci (\<lambda>s. adm_log_passed_bins_during_wrap_up s (of_nat n)) st;
     Some (upd_core ci (co_current_timeslot_update (\<lambda>t. t + of_nat (n_cores * BATCH_SIZE))) st)
   }"

text \<open>
  When the pool of admitted traffic has less than sixteen elements, the first loop reads new requests
  and tries again; only another core can end it.
\<close>

definition seq_get_admissible_traffic :: "nat \<Rightarrow> nat \<Rightarrow> u64 \<Rightarrow> status \<Rightarrow> status option" where
  "seq_get_admissible_traffic n_cores ci first_timeslot st = do {
     let qi = ci;
     let qo = (ci + 1) mod n_cores;
     st \<leftarrow> alloc_core_reset ci st;
     bug_on (\<not> is_empty_bin (ss_bins st (co_out_bin (ss_cores st ci))));
     bug_on (\<not> is_empty_bin (ss_bins st (co_spent_bin (ss_cores st ci))));
     (as, mp) \<leftarrow> fp_mempool_get_bulk (ss_admitted_traffic_mempool st) BATCH_SIZE;
     let st = upd_core ci (\<lambda>core. core\<lparr>co_admitted := (\<lambda>i. if i < BATCH_SIZE then as ! i else co_admitted core i)\<rparr>)
                (st\<lparr>ss_admitted_traffic_mempool := mp\<rparr>);
     let st = st\<lparr>ss_adms := fold (\<lambda>a adms. adms(a := init_admitted_traffic (adms a))) as (ss_adms st)\<rparr>;
     let v = \<lparr>bv_now = first_timeslot - of_nat NUM_BINS - 1, bv_prev = first_timeslot - of_nat NUM_BINS - 2,
              bv_should_process_new_req = False, bv_admitted_bins = 0, bv_processed_bins = 0, bv_n_processed = 0\<rparr>;
     st \<leftarrow> batch_loop n_cores ci qi qo first_timeslot v st;
     wrap_up_batch n_cores ci qi qo st
   }"

end
