(* ===== verification/Streams.thy ===== *)
theory Streams
  imports Allocator "HOL-Library.Multiset"
begin

text \<open>
  The three streams of demand bins: new demands to \<open>q_head\<close>, unallocated demands to the ring of the next
  core, and spent demands to \<open>q_spent\<close>. Each of them fills an open bin, enqueues the bin on a ring when it
  holds 32 entries, and takes a fresh bin from the pool. The locale \<open>bin_stream\<close> states what the code
  relies on; what pushing an entry does is proved once, and the three interpretations at the end of the
  theory transfer it to the code.
\<close>

section \<open>Entries held by a list of bins\<close>

definition waiting :: "status \<Rightarrow> addr list \<Rightarrow> backlog_edge list" where
  "waiting st as = concat (map (\<lambda>a. bin_list (ss_bins st a)) as)"

lemma waiting_simps [simp]:
  "waiting st [] = []"
  "waiting st (a # as) = bin_list (ss_bins st a) @ waiting st as"
  "waiting st (as @ bs) = waiting st as @ waiting st bs"
  by (simp_all add: waiting_def)

lemma waiting_cong: "(\<And>a. a \<in> set as \<Longrightarrow> ss_bins st a = ss_bins st' a) \<Longrightarrow> waiting st as = waiting st' as"
  unfolding waiting_def by (intro arg_cong [where f = concat] map_cong) simp_all

text \<open>Small bins: those of the pool.\<close>

definition small_bin :: "bin \<Rightarrow> bool" where
  "small_bin b \<longleftrightarrow> bin_ok b \<and> b_cap b = SMALL_BIN_SIZE"

lemma small_bin_init [simp]: "small_bin b \<Longrightarrow> small_bin (init_bin b)"
  by (simp add: small_bin_def)

lemma small_bin_length: "small_bin b \<Longrightarrow> length (bin_list b) \<le> SMALL_BIN_SIZE"
  by (simp add: small_bin_def bin_ok_def length_bin_list)

lemma enqueue_small_bin:
  assumes "small_bin b" "length (bin_list b) < SMALL_BIN_SIZE"
  shows "\<exists>b'. enqueue_bin_edge b e = Some b' \<and> small_bin b' \<and> bin_list b' = bin_list b @ [e]
    \<and> (bin_size b' = of_nat SMALL_BIN_SIZE \<longleftrightarrow> Suc (length (bin_list b)) = SMALL_BIN_SIZE)"
proof -
  obtain b' where b': "enqueue_bin_edge b e = Some b'" "bin_ok b'" "b_cap b' = b_cap b" "bin_list b' = bin_list b @ [e]"
    using enqueue_bin_edge_spec [of b e] assms by (auto simp: small_bin_def)
  have "unat (b_size b') = Suc (length (bin_list b))" using b'(4) by (metis length_append_singleton length_bin_list)
  then have "bin_size b' = of_nat SMALL_BIN_SIZE \<longleftrightarrow> Suc (length (bin_list b)) = SMALL_BIN_SIZE"
    by (simp add: bin_size_def SMALL_BIN_SIZE_def unat_eq_iff)
  with b' assms show ?thesis by (auto simp: small_bin_def)
qed

section \<open>A stream\<close>

definition stream_flush ::
  "(status \<Rightarrow> addr fp_ring) \<Rightarrow> (status \<Rightarrow> addr) \<Rightarrow> (addr fp_ring \<Rightarrow> addr \<Rightarrow> addr fp_mempool \<Rightarrow> status \<Rightarrow> status)
   \<Rightarrow> status \<Rightarrow> status option" where
  "stream_flush ring open_bin swap st = do {
     q \<leftarrow> fp_ring_enqueue (ring st) (open_bin st);
     (b, mp) \<leftarrow> fp_mempool_get (ss_bin_mempool st);
     let st = swap q b mp st;
     Some (set_bin b (init_bin (ss_bins st b)) st)
   }"

definition stream_push ::
  "(status \<Rightarrow> addr fp_ring) \<Rightarrow> (status \<Rightarrow> addr) \<Rightarrow> (addr fp_ring \<Rightarrow> addr \<Rightarrow> addr fp_mempool \<Rightarrow> status \<Rightarrow> status)
   \<Rightarrow> (status \<Rightarrow> status) \<Rightarrow> backlog_edge \<Rightarrow> status \<Rightarrow> status option" where
  "stream_push ring open_bin swap note_full edge st = do {
     let a = open_bin st;
     b \<leftarrow> enqueue_bin_edge (ss_bins st a) edge;
     let st = set_bin a b st;
     if bin_size b = of_nat SMALL_BIN_SIZE then stream_flush ring open_bin swap (note_full st) else Some st
   }"

text \<open>The entries of a stream, oldest first, and the addresses it holds together with the pool.\<close>

definition stream_list :: "(status \<Rightarrow> addr fp_ring) \<Rightarrow> (status \<Rightarrow> addr) \<Rightarrow> status \<Rightarrow> backlog_edge list" where
  "stream_list ring open_bin st = waiting st (ring_list (ring st) @ [open_bin st])"

definition stream_addrs :: "(status \<Rightarrow> addr fp_ring) \<Rightarrow> (status \<Rightarrow> addr) \<Rightarrow> status \<Rightarrow> addr list" where
  "stream_addrs ring open_bin st = mp_list (ss_bin_mempool st) @ ring_list (ring st) @ [open_bin st]"

definition stream_ok :: "(status \<Rightarrow> addr fp_ring) \<Rightarrow> (status \<Rightarrow> addr) \<Rightarrow> status \<Rightarrow> bool" where
  "stream_ok ring open_bin st \<longleftrightarrow> ring_inv (ring st) \<and> mp_inv (ss_bin_mempool st)
     \<and> distinct (stream_addrs ring open_bin st)
     \<and> (\<forall>a \<in> set (stream_addrs ring open_bin st). small_bin (ss_bins st a))
     \<and> length (bin_list (ss_bins st (open_bin st))) < SMALL_BIN_SIZE"

text \<open>How many entries the stream still takes, and how many the pool supplies bins for.\<close>

definition ring_free :: "'a fp_ring \<Rightarrow> nat" where
  "ring_free r = ring_cap r - length (ring_list r)"

definition open_size :: "(status \<Rightarrow> addr) \<Rightarrow> status \<Rightarrow> nat" where
  "open_size open_bin st = length (bin_list (ss_bins st (open_bin st)))"

definition pool_size :: "status \<Rightarrow> nat" where
  "pool_size st = length (mp_list (ss_bin_mempool st))"

locale bin_stream =
  fixes ring :: "status \<Rightarrow> addr fp_ring"
    and open_bin :: "status \<Rightarrow> addr"
    and swap :: "addr fp_ring \<Rightarrow> addr \<Rightarrow> addr fp_mempool \<Rightarrow> status \<Rightarrow> status"
    and note_full :: "status \<Rightarrow> status"
  assumes ring_swap: "ring (swap q b mp st) = q"
    and open_swap: "open_bin (swap q b mp st) = b"
    and pool_swap: "ss_bin_mempool (swap q b mp st) = mp"
    and bins_swap: "ss_bins (swap q b mp st) = ss_bins st"
    and ring_note: "ring (note_full st) = ring st"
    and open_note: "open_bin (note_full st) = open_bin st"
    and pool_note: "ss_bin_mempool (note_full st) = ss_bin_mempool st"
    and bins_note: "ss_bins (note_full st) = ss_bins st"
    and ring_set_bin: "ring (set_bin a v st) = ring st"
    and open_set_bin: "open_bin (set_bin a v st) = open_bin st"
begin

lemmas law_simps = ring_swap open_swap pool_swap bins_swap ring_note open_note pool_note bins_note
  ring_set_bin open_set_bin

text \<open>
  Flushing the open bin: the bin is at the end of the ring, the new open bin is empty, nothing else
  of the store is touched, and no address is lost or duplicated.
\<close>

lemma flush_ok:
  assumes q: "ring_inv (ring st)" and mp: "mp_inv (ss_bin_mempool st)"
    and dist: "distinct (stream_addrs ring open_bin st)"
    and small: "\<forall>a \<in> set (stream_addrs ring open_bin st). small_bin (ss_bins st a)"
    and room: "0 < ring_free (ring st)" "0 < pool_size st"
  shows "\<exists>st'. stream_flush ring open_bin swap st = Some st'
    \<and> stream_ok ring open_bin st' \<and> stream_list ring open_bin st' = stream_list ring open_bin st
    \<and> mset (stream_addrs ring open_bin st') = mset (stream_addrs ring open_bin st)
    \<and> (\<forall>a. a \<notin> set (stream_addrs ring open_bin st) \<longrightarrow> ss_bins st' a = ss_bins st a)
    \<and> mp_total (ss_bin_mempool st') = mp_total (ss_bin_mempool st)
    \<and> Suc (ring_free (ring st')) = ring_free (ring st) \<and> open_size open_bin st' = 0
    \<and> ring_cap (ring st') = ring_cap (ring st) \<and> r_head (ring st') = r_head (ring st)
    \<and> Suc (pool_size st') = pool_size st
    \<and> (\<exists>q b v mp. st' = set_bin b v (swap q b mp st))"
proof -
  obtain q' where q': "fp_ring_enqueue (ring st) (open_bin st) = Some q'" "ring_inv q'" "ring_cap q' = ring_cap (ring st)"
    "ring_list q' = ring_list (ring st) @ [open_bin st]"
    using rq.enq_room [OF q, of "open_bin st"] room(1) by (auto simp: ring_free_def)
  have hd: "r_head q' = r_head (ring st)" using q'(1) by (auto simp: fp_ring_enqueue_def split: if_splits)
  obtain b mp' where get: "fp_mempool_get (ss_bin_mempool st) = Some (b, mp')"
    using room(2) fp_mempool_get_None [of "ss_bin_mempool st"]
    by (cases "fp_mempool_get (ss_bin_mempool st)") (auto simp: pool_size_def)
  have mp': "mp_inv mp'" "mp_total mp' = mp_total (ss_bin_mempool st)" "mp_list (ss_bin_mempool st) = mp_list mp' @ [b]"
    using fp_mempool_get_Some [OF mp get] by simp_all
  define st' where "st' = set_bin b (init_bin (ss_bins st b)) (swap q' b mp' st)"
  have bins: "ss_bins st' = (ss_bins st)(b := init_bin (ss_bins st b))" by (simp add: st'_def set_bin_def law_simps)
  have ring': "ring st' = q'" and open': "open_bin st' = b" and pool': "ss_bin_mempool st' = mp'"
    by (simp_all add: st'_def law_simps) (simp add: set_bin_def law_simps)
  have addrs: "mset (stream_addrs ring open_bin st') = mset (stream_addrs ring open_bin st)"
    by (simp add: stream_addrs_def ring' open' pool' q'(4) mp'(3))
  have nb: "b \<notin> set (ring_list (ring st) @ [open_bin st])" using dist by (auto simp: stream_addrs_def mp'(3))
  have "distinct (stream_addrs ring open_bin st')" using mset_eq_imp_distinct_iff [OF addrs] dist by blast
  moreover have "small_bin (ss_bins st' a)" if "a \<in> set (stream_addrs ring open_bin st')" for a
    using that small mset_eq_setD [OF addrs] by (auto simp: bins)
  ultimately have ok: "stream_ok ring open_bin st'"
    using q'(2) mp'(1) by (simp add: stream_ok_def ring' open' pool' bins SMALL_BIN_SIZE_def)
  have "waiting st' (ring_list (ring st) @ [open_bin st]) = waiting st (ring_list (ring st) @ [open_bin st])"
    using nb by (intro waiting_cong) (auto simp: bins)
  then have list: "stream_list ring open_bin st' = stream_list ring open_bin st"
    by (simp add: stream_list_def ring' open' q'(4) bins)
  have run: "stream_flush ring open_bin swap st = Some st'"
    by (simp add: stream_flush_def q'(1) get st'_def law_simps Let_def)
  show ?thesis
  proof (rule exI [of _ st'], intro conjI)
    show "\<forall>a. a \<notin> set (stream_addrs ring open_bin st) \<longrightarrow> ss_bins st' a = ss_bins st a"
      by (auto simp: bins stream_addrs_def mp'(3))
    show "Suc (ring_free (ring st')) = ring_free (ring st)" using q'(3,4) room(1) by (simp add: ring_free_def ring')
    show "open_size open_bin st' = 0" by (simp add: open_size_def open' bins)
    show "Suc (pool_size st') = pool_size st"
      using arg_cong [OF mp'(3), of length] by (simp add: pool_size_def pool')
    show "\<exists>q b v mp. st' = set_bin b v (swap q b mp st)" unfolding st'_def by blast
  qed (use run ok list addrs mp'(2) q'(3) hd ring' pool' in simp_all)
qed

text \<open>
  Pushing an entry appends it to the stream. It uses up one unit of the room of the stream and one
  unit of what the pool supplies, whether or not the bin is flushed.
\<close>

lemma push_ok:
  assumes ok: "stream_ok ring open_bin st"
    and room: "open_size open_bin st < SMALL_BIN_SIZE * ring_free (ring st)"
    and pool: "open_size open_bin st < SMALL_BIN_SIZE * pool_size st"
  shows "\<exists>st'. stream_push ring open_bin swap note_full e st = Some st'
    \<and> stream_ok ring open_bin st' \<and> stream_list ring open_bin st' = stream_list ring open_bin st @ [e]
    \<and> mset (stream_addrs ring open_bin st') = mset (stream_addrs ring open_bin st)
    \<and> (\<forall>a. a \<notin> set (stream_addrs ring open_bin st) \<longrightarrow> ss_bins st' a = ss_bins st a)
    \<and> mp_total (ss_bin_mempool st') = mp_total (ss_bin_mempool st)
    \<and> SMALL_BIN_SIZE * ring_free (ring st') + Suc (open_size open_bin st)
        = SMALL_BIN_SIZE * ring_free (ring st) + open_size open_bin st'
    \<and> SMALL_BIN_SIZE * pool_size st' + Suc (open_size open_bin st)
        = SMALL_BIN_SIZE * pool_size st + open_size open_bin st'
    \<and> ring_cap (ring st') = ring_cap (ring st) \<and> r_head (ring st') = r_head (ring st)
    \<and> (\<exists>b1. st' = set_bin (open_bin st) b1 st
        \<or> (\<exists>b b2 q mp. st' = set_bin b b2 (swap q b mp (note_full (set_bin (open_bin st) b1 st)))))"
proof -
  let ?a = "open_bin st"
  have sb: "small_bin (ss_bins st ?a)" and lt: "length (bin_list (ss_bins st ?a)) < SMALL_BIN_SIZE"
    using ok by (simp_all add: stream_ok_def stream_addrs_def)
  obtain b where b: "enqueue_bin_edge (ss_bins st ?a) e = Some b" "small_bin b" "bin_list b = bin_list (ss_bins st ?a) @ [e]"
    and full: "bin_size b = of_nat SMALL_BIN_SIZE \<longleftrightarrow> Suc (length (bin_list (ss_bins st ?a))) = SMALL_BIN_SIZE"
    using enqueue_small_bin [OF sb lt] by blast
  define s1 where "s1 = set_bin ?a b st"
  have bins1: "ss_bins s1 = (ss_bins st)(?a := b)" and pool1: "ss_bin_mempool s1 = ss_bin_mempool st"
    by (simp_all add: s1_def set_bin_def)
  have v1: "ring s1 = ring st" "open_bin s1 = ?a" by (simp_all add: s1_def law_simps)
  have addrs1: "stream_addrs ring open_bin s1 = stream_addrs ring open_bin st"
    by (simp add: stream_addrs_def v1 pool1)
  have dist: "distinct (stream_addrs ring open_bin st)" using ok by (simp add: stream_ok_def)
  have "waiting s1 (ring_list (ring st)) = waiting st (ring_list (ring st))"
    using dist by (intro waiting_cong) (auto simp: bins1 stream_addrs_def)
  then have list1: "stream_list ring open_bin s1 = stream_list ring open_bin st @ [e]"
    by (simp add: stream_list_def v1 bins1 b(3))
  have small1: "\<forall>a \<in> set (stream_addrs ring open_bin s1). small_bin (ss_bins s1 a)"
    using ok b(2) by (auto simp: addrs1 bins1 stream_ok_def)
  have inv1: "ring_inv (ring s1)" "mp_inv (ss_bin_mempool s1)" using ok by (simp_all add: stream_ok_def v1 pool1)
  have frame1: "\<forall>a. a \<notin> set (stream_addrs ring open_bin st) \<longrightarrow> ss_bins s1 a = ss_bins st a"
    by (auto simp: bins1 stream_addrs_def)
  have free: "0 < ring_free (ring st)" "0 < pool_size st" using room pool by (auto intro: Nat.gr0I)
  show ?thesis
  proof (cases "Suc (length (bin_list (ss_bins st ?a))) = SMALL_BIN_SIZE")
    case False
    have run: "stream_push ring open_bin swap note_full e st = Some s1"
      using False full by (simp add: stream_push_def b(1) s1_def Let_def)
    have sz: "open_size open_bin s1 = Suc (open_size open_bin st)" by (simp add: open_size_def v1 bins1 b(3))
    have "stream_ok ring open_bin s1"
      using inv1 dist small1 lt False by (simp add: stream_ok_def addrs1 v1 bins1 b(3))
    then show ?thesis
      using run list1 frame1 sz
      by (intro exI [of _ s1]) (auto simp: addrs1 v1 pool1 pool_size_def s1_def [symmetric] intro: exI [of _ b])
  next
    case True
    define s2 where "s2 = note_full s1"
    have v2: "ring s2 = ring st" "open_bin s2 = ?a" "ss_bin_mempool s2 = ss_bin_mempool st" "ss_bins s2 = ss_bins s1"
      by (simp_all add: s2_def law_simps v1 pool1)
    have a2: "stream_addrs ring open_bin s2 = stream_addrs ring open_bin st" by (simp add: stream_addrs_def v2)
    have l2: "stream_list ring open_bin s2 = stream_list ring open_bin s1"
      by (simp add: stream_list_def v2 v1 waiting_def)
    obtain s3 where fl: "stream_flush ring open_bin swap s2 = Some s3"
      and ok3: "stream_ok ring open_bin s3" and l3: "stream_list ring open_bin s3 = stream_list ring open_bin s2"
      and m3: "mset (stream_addrs ring open_bin s3) = mset (stream_addrs ring open_bin s2)"
      and fr3: "\<forall>a. a \<notin> set (stream_addrs ring open_bin s2) \<longrightarrow> ss_bins s3 a = ss_bins s2 a"
      and t3: "mp_total (ss_bin_mempool s3) = mp_total (ss_bin_mempool s2)"
      and n3: "Suc (ring_free (ring s3)) = ring_free (ring s2)" "open_size open_bin s3 = 0"
        "ring_cap (ring s3) = ring_cap (ring s2)" "r_head (ring s3) = r_head (ring s2)" "Suc (pool_size s3) = pool_size s2"
      and s3: "\<exists>q b v mp. s3 = set_bin b v (swap q b mp s2)"
    proof -
      have "\<forall>a \<in> set (stream_addrs ring open_bin s2). small_bin (ss_bins s2 a)" using small1 by (simp add: a2 addrs1 v2)
      moreover have "distinct (stream_addrs ring open_bin s2)" using dist by (simp add: a2)
      moreover have "ring_inv (ring s2)" "mp_inv (ss_bin_mempool s2)" using inv1 by (simp_all add: v2 v1 pool1)
      moreover have "0 < ring_free (ring s2)" "0 < pool_size s2" using free by (simp_all add: v2 pool_size_def)
      ultimately show thesis using flush_ok [of s2] that by blast
    qed
    have run: "stream_push ring open_bin swap note_full e st = Some s3"
      using True full fl by (simp add: stream_push_def b(1) s2_def s1_def Let_def)
    have sz: "Suc (open_size open_bin st) = SMALL_BIN_SIZE" using True by (simp add: open_size_def)
    have ps: "pool_size s2 = pool_size st" by (simp add: pool_size_def v2)
    have shape: "\<exists>b1. s3 = set_bin (open_bin st) b1 st
        \<or> (\<exists>b b2 q mp. s3 = set_bin b b2 (swap q b mp (note_full (set_bin (open_bin st) b1 st))))"
      using s3 unfolding s2_def s1_def by blast
    have r: "SMALL_BIN_SIZE * ring_free (ring s3) + Suc (open_size open_bin st)
        = SMALL_BIN_SIZE * ring_free (ring st) + open_size open_bin s3"
      using n3(1,2) unfolding sz v2(1) by (metis add.right_neutral add.commute mult_Suc_right)
    have p: "SMALL_BIN_SIZE * pool_size s3 + Suc (open_size open_bin st)
        = SMALL_BIN_SIZE * pool_size st + open_size open_bin s3"
      using n3(2,5) unfolding sz ps by (metis add.right_neutral add.commute mult_Suc_right)
    have fr: "\<forall>a. a \<notin> set (stream_addrs ring open_bin st) \<longrightarrow> ss_bins s3 a = ss_bins st a"
      using fr3 frame1 by (simp add: a2 v2)
    show ?thesis
      by (intro exI [of _ s3] conjI run ok3 r p fr shape)
        (simp_all add: l3 l2 list1 m3 a2 t3 v2 n3(3,4))
  qed
qed

end

section \<open>The three streams of the allocator\<close>

text \<open>Updates of the status and the fields they leave alone.\<close>

lemma upd_core_frame [simp, frame_simps]:
  "ss_cores (upd_core ci f st) = (ss_cores st)(ci := f (ss_cores st ci))"
  "ss_q_head (upd_core ci f st) = ss_q_head st"
  "ss_q_spent (upd_core ci f st) = ss_q_spent st"
  "ss_q_bin (upd_core ci f st) = ss_q_bin st"
  "ss_q_admitted_out (upd_core ci f st) = ss_q_admitted_out st"
  "ss_bin_mempool (upd_core ci f st) = ss_bin_mempool st"
  "ss_admitted_traffic_mempool (upd_core ci f st) = ss_admitted_traffic_mempool st"
  "ss_new_demands (upd_core ci f st) = ss_new_demands st"
  "ss_bins (upd_core ci f st) = ss_bins st"
  "ss_adms (upd_core ci f st) = ss_adms st"
  "ss_backlog (upd_core ci f st) = ss_backlog st"
  "ss_last_alloc_tslot (upd_core ci f st) = ss_last_alloc_tslot st"
  by (simp_all add: upd_core_def)

lemma set_bin_frame [simp, frame_simps]:
  "ss_cores (set_bin a b st) = ss_cores st"
  "ss_q_head (set_bin a b st) = ss_q_head st"
  "ss_q_spent (set_bin a b st) = ss_q_spent st"
  "ss_q_bin (set_bin a b st) = ss_q_bin st"
  "ss_q_admitted_out (set_bin a b st) = ss_q_admitted_out st"
  "ss_bin_mempool (set_bin a b st) = ss_bin_mempool st"
  "ss_admitted_traffic_mempool (set_bin a b st) = ss_admitted_traffic_mempool st"
  "ss_new_demands (set_bin a b st) = ss_new_demands st"
  "ss_bins (set_bin a b st) = (ss_bins st)(a := b)"
  "ss_adms (set_bin a b st) = ss_adms st"
  "ss_backlog (set_bin a b st) = ss_backlog st"
  "ss_last_alloc_tslot (set_bin a b st) = ss_last_alloc_tslot st"
  by (simp_all add: set_bin_def)

definition out_ring :: "nat \<Rightarrow> status \<Rightarrow> addr fp_ring" where
  "out_ring qo st = ss_q_bin st qo"

definition out_open :: "nat \<Rightarrow> status \<Rightarrow> addr" where
  "out_open ci st = co_out_bin (ss_cores st ci)"

definition out_swap :: "nat \<Rightarrow> nat \<Rightarrow> addr fp_ring \<Rightarrow> addr \<Rightarrow> addr fp_mempool \<Rightarrow> status \<Rightarrow> status" where
  "out_swap ci qo q b mp st =
     upd_core ci (co_out_bin_update (\<lambda>_. b)) (st\<lparr>ss_q_bin := (ss_q_bin st)(qo := q), ss_bin_mempool := mp\<rparr>)"

definition spent_open :: "nat \<Rightarrow> status \<Rightarrow> addr" where
  "spent_open ci st = co_spent_bin (ss_cores st ci)"

definition spent_swap :: "nat \<Rightarrow> addr fp_ring \<Rightarrow> addr \<Rightarrow> addr fp_mempool \<Rightarrow> status \<Rightarrow> status" where
  "spent_swap ci q b mp st =
     upd_core ci (co_spent_bin_update (\<lambda>_. b)) (st\<lparr>ss_q_spent := q, ss_bin_mempool := mp\<rparr>)"

definition head_swap :: "addr fp_ring \<Rightarrow> addr \<Rightarrow> addr fp_mempool \<Rightarrow> status \<Rightarrow> status" where
  "head_swap q b mp st = st\<lparr>ss_q_head := q, ss_bin_mempool := mp, ss_new_demands := b\<rparr>"

interpretation outs: bin_stream "out_ring qo" "out_open ci" "out_swap ci qo" "core_log ci adm_log_q_out_flush_bin_full" for ci qo
  by unfold_locales (simp_all add: out_ring_def out_open_def out_swap_def core_log_def)

interpretation spents: bin_stream ss_q_spent "spent_open ci" "spent_swap ci" "core_log ci adm_log_q_spent_flush_bin_full" for ci
  by unfold_locales (simp_all add: spent_open_def spent_swap_def core_log_def)

definition head_note :: "status \<Rightarrow> status" where
  "head_note st = st\<lparr>ss_stat := adm_log_backlog_flush_bin_full (ss_stat st)\<rparr>"

interpretation heads: bin_stream ss_q_head ss_new_demands head_swap head_note
  by unfold_locales (simp_all add: head_swap_def head_note_def)

text \<open>The functions of the source are the operations of the streams.\<close>

lemma core_flush_q_out_eq: "core_flush_q_out ci qo = stream_flush (out_ring qo) (out_open ci) (out_swap ci qo)"
  by (simp add: fun_eq_iff core_flush_q_out_def stream_flush_def out_ring_def out_open_def out_swap_def)

lemma core_flush_q_spent_eq: "core_flush_q_spent ci = stream_flush ss_q_spent (spent_open ci) (spent_swap ci)"
  by (simp add: fun_eq_iff core_flush_q_spent_def stream_flush_def spent_open_def spent_swap_def)

lemma flush_backlog_now_eq: "flush_backlog_now = stream_flush ss_q_head ss_new_demands head_swap"
  by (simp add: fun_eq_iff flush_backlog_now_def stream_flush_def head_swap_def)

lemma core_enqueue_to_q_out_edge_eq:
  "core_enqueue_to_q_out_edge ci qo =
   stream_push (out_ring qo) (out_open ci) (out_swap ci qo) (core_log ci adm_log_q_out_flush_bin_full)"
  by (simp add: fun_eq_iff core_enqueue_to_q_out_edge_def stream_push_def core_flush_q_out_eq out_open_def Let_def cong: if_cong)

lemma core_enqueue_to_q_out_eq:
  "core_enqueue_to_q_out ci qo src dst backlog metric =
   core_enqueue_to_q_out_edge ci qo \<lparr>e_src = src, e_dst = dst, e_backlog = backlog, e_metric = metric\<rparr>"
  by (simp add: fun_eq_iff core_enqueue_to_q_out_def core_enqueue_to_q_out_edge_def enqueue_bin_eq)

lemma core_enqueue_to_q_spent_eq:
  "core_enqueue_to_q_spent ci src dst metric =
   stream_push ss_q_spent (spent_open ci) (spent_swap ci) (core_log ci adm_log_q_spent_flush_bin_full)
     \<lparr>e_src = src, e_dst = dst, e_backlog = 0, e_metric = metric\<rparr>"
  by (simp add: fun_eq_iff core_enqueue_to_q_spent_def stream_push_def core_flush_q_spent_eq enqueue_bin_eq spent_open_def Let_def cong: if_cong)

lemma enqueue_new_demand_eq:
  "enqueue_new_demand src dst amount st = do {
     index \<leftarrow> pair_index src dst;
     stream_push ss_q_head ss_new_demands head_swap head_note
       \<lparr>e_src = src, e_dst = dst, e_backlog = ucast amount, e_metric = ucast (ss_last_alloc_tslot st index)\<rparr> st
   }"
  by (simp add: enqueue_new_demand_def stream_push_def flush_backlog_now_eq enqueue_bin_eq head_note_def Let_def cong: if_cong)

end
