(* ===== verification/Alloc_Mem.thy ===== *)
theory Alloc_Mem
  imports Streams
begin

text \<open>
  The memory of the allocator during a batch of core \<open>ci\<close>, which takes bins from the ring \<open>qi\<close> and hands
  bins to the ring \<open>qo\<close> of the next core: which addresses the rings, the pool and the core own, and
  what pushing an entry on one of the streams does to all of them. \<open>xs\<close> are the addresses in flight,
  taken off a ring and not yet back in the pool.
\<close>

section \<open>Views\<close>

abbreviation v_head :: "status \<Rightarrow> backlog_edge list" where
  "v_head st \<equiv> waiting st (ring_list (ss_q_head st))"

abbreviation v_in :: "nat \<Rightarrow> status \<Rightarrow> backlog_edge list" where
  "v_in qi st \<equiv> waiting st (ring_list (ss_q_bin st qi))"

abbreviation v_out :: "nat \<Rightarrow> nat \<Rightarrow> status \<Rightarrow> backlog_edge list" where
  "v_out ci qo st \<equiv> stream_list (out_ring qo) (out_open ci) st"

abbreviation v_spent :: "nat \<Rightarrow> status \<Rightarrow> backlog_edge list" where
  "v_spent ci st \<equiv> stream_list ss_q_spent (spent_open ci) st"

definition own :: "nat \<Rightarrow> nat \<Rightarrow> nat \<Rightarrow> status \<Rightarrow> addr list" where
  "own ci qi qo st = mp_list (ss_bin_mempool st) @ ring_list (ss_q_head st) @ ring_list (ss_q_spent st)
     @ ring_list (ss_q_bin st qi) @ ring_list (ss_q_bin st qo) @ [ss_new_demands st, out_open ci st, spent_open ci st]"

text \<open>
  The memory invariant: every small bin has one owner, the pool has a place for each of them, and the
  open bins have room for an entry.
\<close>

definition mem_ok :: "nat \<Rightarrow> nat \<Rightarrow> nat \<Rightarrow> addr list \<Rightarrow> status \<Rightarrow> bool" where
  "mem_ok ci qi qo xs st \<longleftrightarrow>
     ring_inv (ss_q_head st) \<and> ring_inv (ss_q_spent st) \<and> ring_inv (ss_q_bin st qi) \<and> ring_inv (ss_q_bin st qo)
     \<and> mp_inv (ss_bin_mempool st)
     \<and> distinct (xs @ own ci qi qo st) \<and> length (xs @ own ci qi qo st) \<le> unat (mp_total (ss_bin_mempool st))
     \<and> (\<forall>a \<in> set (xs @ own ci qi qo st). small_bin (ss_bins st a))
     \<and> open_size (out_open ci) st < SMALL_BIN_SIZE \<and> open_size (spent_open ci) st < SMALL_BIN_SIZE"

text \<open>What the streams leave alone: the bins of requests, the bitmaps and the admitted traffic.\<close>

definition core_same :: "core \<Rightarrow> core \<Rightarrow> bool" where
  "core_same c c' \<longleftrightarrow> co_new_request_bins c' = co_new_request_bins c \<and> co_non_empty_bins c' = co_non_empty_bins c
     \<and> co_allowed_bins c' = co_allowed_bins c \<and> co_batch_state c' = co_batch_state c \<and> co_admitted c' = co_admitted c
     \<and> co_current_timeslot c' = co_current_timeslot c"

definition frame :: "nat \<Rightarrow> status \<Rightarrow> status \<Rightarrow> bool" where
  "frame ci st st' \<longleftrightarrow> core_same (ss_cores st ci) (ss_cores st' ci) \<and> ss_adms st' = ss_adms st
     \<and> ss_q_admitted_out st' = ss_q_admitted_out st
     \<and> ss_admitted_traffic_mempool st' = ss_admitted_traffic_mempool st \<and> ss_new_demands st' = ss_new_demands st
     \<and> ss_backlog st' = ss_backlog st \<and> ss_last_alloc_tslot st' = ss_last_alloc_tslot st"

lemma frame_refl [simp]: "frame ci st st"
  by (simp add: frame_def core_same_def)

lemma frame_trans: "frame ci st st1 \<Longrightarrow> frame ci st1 st2 \<Longrightarrow> frame ci st st2"
  by (simp add: frame_def core_same_def)

lemma frame_core_log [simp]: "frame ci st (core_log ci f st)"
  by (simp add: frame_def core_same_def core_log_def)

lemma core_log_views [simp]:
  "ss_q_head (core_log ci f st) = ss_q_head st" "ss_q_spent (core_log ci f st) = ss_q_spent st"
  "ss_q_bin (core_log ci f st) = ss_q_bin st" "ss_bin_mempool (core_log ci f st) = ss_bin_mempool st"
  "ss_bins (core_log ci f st) = ss_bins st" "waiting (core_log ci f st) as = waiting st as"
  "out_open ci (core_log ci f st) = out_open ci st" "spent_open ci (core_log ci f st) = spent_open ci st"
  "ss_new_demands (core_log ci f st) = ss_new_demands st" "ss_adms (core_log ci f st) = ss_adms st"
  "ss_q_admitted_out (core_log ci f st) = ss_q_admitted_out st"
  "v_out ci qo (core_log ci f st) = v_out ci qo st" "v_spent ci (core_log ci f st) = v_spent ci st"
  "pool_size (core_log ci f st) = pool_size st"
  "open_size (out_open ci) (core_log ci f st) = open_size (out_open ci) st"
  "open_size (spent_open ci) (core_log ci f st) = open_size (spent_open ci) st"
  "own ci qi qo (core_log ci f st) = own ci qi qo st"
  "mem_ok ci qi qo xs (core_log ci f st) \<longleftrightarrow> mem_ok ci qi qo xs st"
  by (simp_all add: core_log_def waiting_def stream_list_def out_ring_def out_open_def spent_open_def pool_size_def
      open_size_def own_def mem_ok_def)

section \<open>Pushing entries\<close>

text \<open>
  A step that rearranges the addresses of a part \<open>A\<close> of the memory and changes no bin outside of it
  keeps the invariant and the contents of the rest.
\<close>

lemma mem_ok_step:
  assumes m: "mem_ok ci qi qo xs st"
    and perm: "mset (xs @ own ci qi qo st) = mset A + mset rest"
    and perm': "mset (xs' @ own ci qi qo st') = mset A' + mset rest" "mset A' = mset A"
    and fr: "\<forall>a. a \<notin> set A \<longrightarrow> ss_bins st' a = ss_bins st a"
    and small: "\<forall>a \<in> set A'. small_bin (ss_bins st' a)"
    and invs: "ring_inv (ss_q_head st')" "ring_inv (ss_q_spent st')" "ring_inv (ss_q_bin st' qi)" "ring_inv (ss_q_bin st' qo)"
      "mp_inv (ss_bin_mempool st')" "mp_total (ss_bin_mempool st') = mp_total (ss_bin_mempool st)"
    and opens: "open_size (out_open ci) st' < SMALL_BIN_SIZE" "open_size (spent_open ci) st' < SMALL_BIN_SIZE"
  shows "mem_ok ci qi qo xs' st' \<and> (\<forall>a \<in> set rest. ss_bins st' a = ss_bins st a)"
proof -
  have eq: "mset (xs' @ own ci qi qo st') = mset (xs @ own ci qi qo st)" using perm perm' by simp
  have dist: "distinct (A @ rest)"
    using m perm mset_eq_imp_distinct_iff [of "xs @ own ci qi qo st" "A @ rest"] by (simp add: mem_ok_def)
  then have rest: "\<forall>a \<in> set rest. ss_bins st' a = ss_bins st a" using fr unfolding distinct_append by blast
  have "small_bin (ss_bins st' a)" if "a \<in> set (xs @ own ci qi qo st)" for a
  proof (cases "a \<in> set A")
    case True
    then show ?thesis using small mset_eq_setD [OF perm'(2)] by blast
  next
    case False
    then show ?thesis using that m fr by (simp add: mem_ok_def)
  qed
  then show ?thesis
    using m rest invs opens mset_eq_setD [OF eq] mset_eq_length [OF eq] mset_eq_imp_distinct_iff [OF eq]
    by (simp add: mem_ok_def)
qed

text \<open>What a step of the out stream leaves alone.\<close>

definition rest_out :: "nat \<Rightarrow> nat \<Rightarrow> addr list \<Rightarrow> status \<Rightarrow> addr list" where
  "rest_out ci qi xs st = xs @ ring_list (ss_q_head st) @ ring_list (ss_q_spent st) @ ring_list (ss_q_bin st qi)
     @ [ss_new_demands st, spent_open ci st]"

definition same_but_out :: "nat \<Rightarrow> nat \<Rightarrow> addr list \<Rightarrow> status \<Rightarrow> status \<Rightarrow> bool" where
  "same_but_out ci qi xs st st' \<longleftrightarrow> frame ci st st'
     \<and> ss_q_head st' = ss_q_head st \<and> ss_q_bin st' qi = ss_q_bin st qi \<and> ss_q_spent st' = ss_q_spent st
     \<and> waiting st' (ring_list (ss_q_head st)) = v_head st \<and> waiting st' (ring_list (ss_q_bin st qi)) = v_in qi st
     \<and> v_spent ci st' = v_spent ci st
     \<and> (\<forall>a \<in> set xs. ss_bins st' a = ss_bins st a)
     \<and> open_size (spent_open ci) st' = open_size (spent_open ci) st"

lemma out_step:
  assumes m: "mem_ok ci qi qo xs st"
    and ok: "stream_ok (out_ring qo) (out_open ci) st'"
    and ms: "mset (stream_addrs (out_ring qo) (out_open ci) st') = mset (stream_addrs (out_ring qo) (out_open ci) st)"
    and fr: "\<forall>a. a \<notin> set (stream_addrs (out_ring qo) (out_open ci) st) \<longrightarrow> ss_bins st' a = ss_bins st a"
    and tot: "mp_total (ss_bin_mempool st') = mp_total (ss_bin_mempool st)"
    and same: "frame ci st st'" "ss_q_head st' = ss_q_head st" "ss_q_bin st' qi = ss_q_bin st qi"
      "ss_q_spent st' = ss_q_spent st" "spent_open ci st' = spent_open ci st"
  shows "mem_ok ci qi qo xs st' \<and> same_but_out ci qi xs st st'"
proof -
  let ?rest = "rest_out ci qi xs st"
  let ?A = "stream_addrs (out_ring qo) (out_open ci)"
  have nd: "ss_new_demands st' = ss_new_demands st" using same(1) by (simp add: frame_def)
  have perm: "mset (xs @ own ci qi qo st) = mset (?A st) + mset ?rest"
    by (simp add: own_def stream_addrs_def out_ring_def rest_out_def)
  have perm': "mset (xs @ own ci qi qo st') = mset (?A st') + mset ?rest"
    by (simp add: own_def stream_addrs_def out_ring_def rest_out_def same nd)
  have "spent_open ci st \<in> set ?rest" by (simp add: rest_out_def)
  moreover have "distinct (?A st @ ?rest)"
    using m perm mset_eq_imp_distinct_iff [of "xs @ own ci qi qo st" "?A st @ ?rest"] by (simp add: mem_ok_def)
  ultimately have "ss_bins st' (spent_open ci st) = ss_bins st (spent_open ci st)"
    using fr unfolding distinct_append by blast
  then have os: "open_size (spent_open ci) st' = open_size (spent_open ci) st" by (simp add: open_size_def same)
  have step: "mem_ok ci qi qo xs st' \<and> (\<forall>a \<in> set ?rest. ss_bins st' a = ss_bins st a)"
    by (rule mem_ok_step [OF m perm perm' ms fr])
      (use m ok tot os in \<open>simp_all add: mem_ok_def stream_ok_def same out_ring_def open_size_def\<close>)
  then have w: "waiting st' as = waiting st as" if "set as \<subseteq> set ?rest" for as
    using that by (intro waiting_cong) blast
  have "v_spent ci st' = v_spent ci st" unfolding stream_list_def same by (intro w) (auto simp: rest_out_def)
  moreover have "waiting st' (ring_list (ss_q_head st)) = v_head st" "waiting st' (ring_list (ss_q_bin st qi)) = v_in qi st"
    by (auto intro!: w simp: rest_out_def)
  ultimately show ?thesis using step same os by (simp add: same_but_out_def rest_out_def)
qed

lemma out_stream_ok:
  assumes "mem_ok ci qi qo xs st"
  shows "stream_ok (out_ring qo) (out_open ci) st"
proof -
  let ?A = "stream_addrs (out_ring qo) (out_open ci) st"
  have perm: "mset (xs @ own ci qi qo st) = mset (?A @ rest_out ci qi xs st)"
    by (simp add: own_def stream_addrs_def out_ring_def rest_out_def)
  have "distinct (?A @ rest_out ci qi xs st)"
    using assms mset_eq_imp_distinct_iff [OF perm] by (simp add: mem_ok_def)
  moreover have "set ?A \<subseteq> set (xs @ own ci qi qo st)" using mset_eq_setD [OF perm] by simp
  ultimately show ?thesis using assms by (auto simp: stream_ok_def mem_ok_def out_ring_def open_size_def)
qed

lemma push_out:
  assumes m: "mem_ok ci qi qo xs st" and ne: "qi \<noteq> qo"
    and room: "open_size (out_open ci) st < SMALL_BIN_SIZE * ring_free (ss_q_bin st qo)"
    and pool: "open_size (out_open ci) st < SMALL_BIN_SIZE * pool_size st"
  shows "\<exists>st'. core_enqueue_to_q_out_edge ci qo e st = Some st' \<and> mem_ok ci qi qo xs st' \<and> same_but_out ci qi xs st st'
    \<and> v_out ci qo st' = v_out ci qo st @ [e]
    \<and> SMALL_BIN_SIZE * ring_free (ss_q_bin st' qo) + Suc (open_size (out_open ci) st)
        = SMALL_BIN_SIZE * ring_free (ss_q_bin st qo) + open_size (out_open ci) st'
    \<and> SMALL_BIN_SIZE * pool_size st' + Suc (open_size (out_open ci) st)
        = SMALL_BIN_SIZE * pool_size st + open_size (out_open ci) st'
    \<and> ring_cap (ss_q_bin st' qo) = ring_cap (ss_q_bin st qo) \<and> r_head (ss_q_bin st' qo) = r_head (ss_q_bin st qo)"
proof -
  have room': "open_size (out_open ci) st < SMALL_BIN_SIZE * ring_free (out_ring qo st)"
    using room by (simp add: out_ring_def)
  from outs.push_ok [OF out_stream_ok [OF m] room' pool, of e] show ?thesis
  proof (elim exE conjE, goal_cases)
    case (1 st' b1)
    have "frame ci st st'" "ss_q_head st' = ss_q_head st" "ss_q_bin st' qi = ss_q_bin st qi" "ss_q_spent st' = ss_q_spent st"
      "spent_open ci st' = spent_open ci st"
      using 1(11) ne by (auto simp: frame_def core_same_def out_swap_def core_log_def spent_open_def)
    with out_step [OF m 1(2,4-6)] 1 show ?thesis
      by (intro exI [of _ st']) (simp add: core_enqueue_to_q_out_edge_eq out_ring_def)
  qed
qed

lemma flush_out:
  assumes m: "mem_ok ci qi qo xs st" and ne: "qi \<noteq> qo"
    and room: "0 < ring_free (ss_q_bin st qo)" "0 < pool_size st"
  shows "\<exists>st'. core_flush_q_out ci qo st = Some st' \<and> mem_ok ci qi qo xs st' \<and> same_but_out ci qi xs st st'
    \<and> v_out ci qo st' = v_out ci qo st \<and> open_size (out_open ci) st' = 0
    \<and> Suc (ring_free (ss_q_bin st' qo)) = ring_free (ss_q_bin st qo) \<and> Suc (pool_size st') = pool_size st
    \<and> ring_cap (ss_q_bin st' qo) = ring_cap (ss_q_bin st qo) \<and> r_head (ss_q_bin st' qo) = r_head (ss_q_bin st qo)"
proof -
  have sok: "stream_ok (out_ring qo) (out_open ci) st" by (rule out_stream_ok [OF m])
  have pre: "ring_inv (out_ring qo st)" "mp_inv (ss_bin_mempool st)" "distinct (stream_addrs (out_ring qo) (out_open ci) st)"
    "\<forall>a \<in> set (stream_addrs (out_ring qo) (out_open ci) st). small_bin (ss_bins st a)" "0 < ring_free (out_ring qo st)"
    using sok room by (simp_all add: stream_ok_def out_ring_def)
  from outs.flush_ok [OF pre room(2)] show ?thesis
  proof (elim exE conjE, goal_cases)
    case (1 st' q b v mp)
    have "frame ci st st'" "ss_q_head st' = ss_q_head st" "ss_q_bin st' qi = ss_q_bin st qi" "ss_q_spent st' = ss_q_spent st"
      "spent_open ci st' = spent_open ci st"
      using 1(12) ne by (auto simp: frame_def core_same_def out_swap_def core_log_def spent_open_def)
    with out_step [OF m 1(2,4-6)] 1 show ?thesis
      by (intro exI [of _ st']) (simp add: core_flush_q_out_eq out_ring_def)
  qed
qed

text \<open>The same for the stream of spent demands.\<close>

definition rest_spent :: "nat \<Rightarrow> nat \<Rightarrow> nat \<Rightarrow> addr list \<Rightarrow> status \<Rightarrow> addr list" where
  "rest_spent ci qi qo xs st = xs @ ring_list (ss_q_head st) @ ring_list (ss_q_bin st qi) @ ring_list (ss_q_bin st qo)
     @ [ss_new_demands st, out_open ci st]"

definition same_but_spent :: "nat \<Rightarrow> nat \<Rightarrow> nat \<Rightarrow> addr list \<Rightarrow> status \<Rightarrow> status \<Rightarrow> bool" where
  "same_but_spent ci qi qo xs st st' \<longleftrightarrow> frame ci st st'
     \<and> ss_q_head st' = ss_q_head st \<and> ss_q_bin st' = ss_q_bin st
     \<and> waiting st' (ring_list (ss_q_head st)) = v_head st \<and> waiting st' (ring_list (ss_q_bin st qi)) = v_in qi st
     \<and> v_out ci qo st' = v_out ci qo st
     \<and> (\<forall>a \<in> set xs. ss_bins st' a = ss_bins st a)
     \<and> open_size (out_open ci) st' = open_size (out_open ci) st"

lemma spent_step:
  assumes m: "mem_ok ci qi qo xs st"
    and ok: "stream_ok ss_q_spent (spent_open ci) st'"
    and ms: "mset (stream_addrs ss_q_spent (spent_open ci) st') = mset (stream_addrs ss_q_spent (spent_open ci) st)"
    and fr: "\<forall>a. a \<notin> set (stream_addrs ss_q_spent (spent_open ci) st) \<longrightarrow> ss_bins st' a = ss_bins st a"
    and tot: "mp_total (ss_bin_mempool st') = mp_total (ss_bin_mempool st)"
    and same: "frame ci st st'" "ss_q_head st' = ss_q_head st" "ss_q_bin st' = ss_q_bin st"
      "out_open ci st' = out_open ci st"
  shows "mem_ok ci qi qo xs st' \<and> same_but_spent ci qi qo xs st st'"
proof -
  let ?rest = "rest_spent ci qi qo xs st"
  let ?A = "stream_addrs ss_q_spent (spent_open ci)"
  have nd: "ss_new_demands st' = ss_new_demands st" using same(1) by (simp add: frame_def)
  have perm: "mset (xs @ own ci qi qo st) = mset (?A st) + mset ?rest"
    by (simp add: own_def stream_addrs_def rest_spent_def)
  have perm': "mset (xs @ own ci qi qo st') = mset (?A st') + mset ?rest"
    by (simp add: own_def stream_addrs_def rest_spent_def same nd)
  have "out_open ci st \<in> set ?rest" by (simp add: rest_spent_def)
  moreover have "distinct (?A st @ ?rest)"
    using m perm mset_eq_imp_distinct_iff [of "xs @ own ci qi qo st" "?A st @ ?rest"] by (simp add: mem_ok_def)
  ultimately have "ss_bins st' (out_open ci st) = ss_bins st (out_open ci st)"
    using fr unfolding distinct_append by blast
  then have os: "open_size (out_open ci) st' = open_size (out_open ci) st" by (simp add: open_size_def same)
  have step: "mem_ok ci qi qo xs st' \<and> (\<forall>a \<in> set ?rest. ss_bins st' a = ss_bins st a)"
    by (rule mem_ok_step [OF m perm perm' ms fr])
      (use m ok tot os in \<open>simp_all add: mem_ok_def stream_ok_def same open_size_def\<close>)
  then have w: "waiting st' as = waiting st as" if "set as \<subseteq> set ?rest" for as
    using that by (intro waiting_cong) blast
  have "v_out ci qo st' = v_out ci qo st"
    unfolding stream_list_def out_ring_def same by (intro w) (auto simp: rest_spent_def)
  moreover have "waiting st' (ring_list (ss_q_head st)) = v_head st" "waiting st' (ring_list (ss_q_bin st qi)) = v_in qi st"
    by (auto intro!: w simp: rest_spent_def)
  ultimately show ?thesis using step same os by (simp add: same_but_spent_def rest_spent_def)
qed

lemma spent_stream_ok:
  assumes "mem_ok ci qi qo xs st"
  shows "stream_ok ss_q_spent (spent_open ci) st"
proof -
  let ?A = "stream_addrs ss_q_spent (spent_open ci) st"
  have perm: "mset (xs @ own ci qi qo st) = mset (?A @ rest_spent ci qi qo xs st)"
    by (simp add: own_def stream_addrs_def rest_spent_def)
  have "distinct (?A @ rest_spent ci qi qo xs st)"
    using assms mset_eq_imp_distinct_iff [OF perm] by (simp add: mem_ok_def)
  moreover have "set ?A \<subseteq> set (xs @ own ci qi qo st)" using mset_eq_setD [OF perm] by simp
  ultimately show ?thesis using assms by (auto simp: stream_ok_def mem_ok_def open_size_def)
qed

lemma push_spent:
  assumes m: "mem_ok ci qi qo xs st"
    and room: "open_size (spent_open ci) st < SMALL_BIN_SIZE * ring_free (ss_q_spent st)"
    and pool: "open_size (spent_open ci) st < SMALL_BIN_SIZE * pool_size st"
  shows "\<exists>st'. core_enqueue_to_q_spent ci src dst metric st = Some st' \<and> mem_ok ci qi qo xs st'
    \<and> same_but_spent ci qi qo xs st st'
    \<and> v_spent ci st' = v_spent ci st @ [\<lparr>e_src = src, e_dst = dst, e_backlog = 0, e_metric = metric\<rparr>]
    \<and> SMALL_BIN_SIZE * ring_free (ss_q_spent st') + Suc (open_size (spent_open ci) st)
        = SMALL_BIN_SIZE * ring_free (ss_q_spent st) + open_size (spent_open ci) st'
    \<and> SMALL_BIN_SIZE * pool_size st' + Suc (open_size (spent_open ci) st)
        = SMALL_BIN_SIZE * pool_size st + open_size (spent_open ci) st'"
proof -
  from spents.push_ok [OF spent_stream_ok [OF m] room pool,
      of "\<lparr>e_src = src, e_dst = dst, e_backlog = 0, e_metric = metric\<rparr>"] show ?thesis
  proof (elim exE conjE, goal_cases)
    case (1 st' b1)
    have "frame ci st st'" "ss_q_head st' = ss_q_head st" "ss_q_bin st' = ss_q_bin st" "out_open ci st' = out_open ci st"
      using 1(11) by (auto simp: frame_def core_same_def spent_swap_def core_log_def out_open_def)
    with spent_step [OF m 1(2,4-6)] 1 show ?thesis
      by (intro exI [of _ st']) (simp add: core_enqueue_to_q_spent_eq)
  qed
qed

lemma flush_spent:
  assumes m: "mem_ok ci qi qo xs st" and room: "0 < ring_free (ss_q_spent st)" "0 < pool_size st"
  shows "\<exists>st'. core_flush_q_spent ci st = Some st' \<and> mem_ok ci qi qo xs st' \<and> same_but_spent ci qi qo xs st st'
    \<and> v_spent ci st' = v_spent ci st \<and> open_size (spent_open ci) st' = 0
    \<and> Suc (ring_free (ss_q_spent st')) = ring_free (ss_q_spent st) \<and> Suc (pool_size st') = pool_size st"
proof -
  have sok: "stream_ok ss_q_spent (spent_open ci) st" by (rule spent_stream_ok [OF m])
  have pre: "ring_inv (ss_q_spent st)" "mp_inv (ss_bin_mempool st)" "distinct (stream_addrs ss_q_spent (spent_open ci) st)"
    "\<forall>a \<in> set (stream_addrs ss_q_spent (spent_open ci) st). small_bin (ss_bins st a)"
    using sok by (simp_all add: stream_ok_def)
  from spents.flush_ok [OF pre room] show ?thesis
  proof (elim exE conjE, goal_cases)
    case (1 st' q b v mp)
    have "frame ci st st'" "ss_q_head st' = ss_q_head st" "ss_q_bin st' = ss_q_bin st" "out_open ci st' = out_open ci st"
      using 1(12) by (auto simp: frame_def core_same_def spent_swap_def core_log_def out_open_def)
    with spent_step [OF m 1(2,4-6)] 1 show ?thesis
      by (intro exI [of _ st']) (simp add: core_flush_q_spent_eq)
  qed
qed

end
