(* ===== verification/Alloc_Inv.thy ===== *)
theory Alloc_Inv
  imports Alloc_Mem
begin

text \<open>
  The invariant of a batch of the allocator. The ghost argument \<open>f\<close> gives for each of the 48 bins of
  requests the entries that still have to be dealt with: the contents of the bin, or, for the bins \<open>cur\<close>
  that are being worked on, the entries not yet looked at. \<open>R\<close> are the entries of bins that were taken off a
  ring and are being sorted in.
\<close>

section \<open>Definitions\<close>

abbreviation N_REQ :: nat where "N_REQ \<equiv> NUM_BINS + BATCH_SIZE"

abbreviation cbs :: "nat \<Rightarrow> status \<Rightarrow> batch_state" where
  "cbs ci st \<equiv> co_batch_state (ss_cores st ci)"

definition adm :: "nat \<Rightarrow> status \<Rightarrow> nat \<Rightarrow> (u16 \<times> u16) list" where
  "adm ci st t = adm_list (ss_adms st (co_admitted (ss_cores st ci) t))"

definition e_pair :: "backlog_edge \<Rightarrow> u16 \<times> u16" where
  "e_pair e = (e_src e, e_dst e)"

text \<open>
  A demand of a known pair with something to send. In a \<open>strict\<close> batch there is no traffic to the
  boundary and the boundary capacity is zero.
\<close>

definition valid_edge :: "bool \<Rightarrow> backlog_edge \<Rightarrow> bool" where
  "valid_edge strict e \<longleftrightarrow> unat (e_src e) < MAX_NODES \<and> unat (e_dst e) < MAX_NODES \<and> e_backlog e \<noteq> 0
     \<and> (strict \<longrightarrow> unat (e_dst e) \<noteq> OUT_OF_BOUNDARY_NODE_ID)"

text \<open>A demand that was not last served in the time slots of this batch.\<close>

definition fresh_edge :: "u64 \<Rightarrow> backlog_edge \<Rightarrow> bool" where
  "fresh_edge current e \<longleftrightarrow>
     (let i = unat (bin_index_from_timeslot (e_metric e) current) in i < NUM_BINS \<or> i = N_REQ - 1)"

definition bag :: "(nat \<Rightarrow> backlog_edge list) \<Rightarrow> backlog_edge multiset" where
  "bag f = (\<Sum>i < N_REQ. mset (f i))"

definition units :: "u16 \<times> u16 \<Rightarrow> backlog_edge multiset \<Rightarrow> nat" where
  "units p M = (\<Sum>e \<in># M. if e_pair e = p then unat (e_backlog e) else 0)"

text \<open>The packets of a pair, requested or admitted, and the flows wherever they are.\<close>

definition total_units :: "nat \<Rightarrow> nat \<Rightarrow> nat \<Rightarrow> backlog_edge multiset \<Rightarrow> status \<Rightarrow> u16 \<times> u16 \<Rightarrow> nat" where
  "total_units ci qi qo M st p =
     units p (M + mset (v_head st) + mset (v_in qi st) + mset (v_out ci qo st))
     + (\<Sum>t < BATCH_SIZE. count (mset (adm ci st t)) p)"

definition flows :: "nat \<Rightarrow> nat \<Rightarrow> nat \<Rightarrow> backlog_edge multiset \<Rightarrow> status \<Rightarrow> (u16 \<times> u16) multiset" where
  "flows ci qi qo M st =
     image_mset e_pair (M + mset (v_head st) + mset (v_in qi st) + mset (v_out ci qo st) + mset (v_spent ci st))"

definition req_ok :: "nat set \<Rightarrow> (nat \<Rightarrow> backlog_edge list) \<Rightarrow> core \<Rightarrow> bool" where
  "req_ok cur f core \<longleftrightarrow>
     (\<forall>i < N_REQ. bin_ok (co_new_request_bins core i) \<and> b_cap (co_new_request_bins core i) = LARGE_BIN_SIZE
        \<and> (i \<notin> cur \<longrightarrow> f i = bin_list (co_new_request_bins core i)
             \<and> (f i \<noteq> [] \<longrightarrow> bit (co_non_empty_bins core 0) i)))
     \<and> (\<forall>i. bit (co_non_empty_bins core 0) i \<longrightarrow> i < N_REQ)"

text \<open>
  The room of the rings and of the pool. \<open>k\<close> is the number of entries in the core; a bin on an incoming
  ring counts as full. The last part keeps the counters of the ring away from their wrap, where the bulk
  insertion goes wrong.
\<close>

definition room_ok :: "nat \<Rightarrow> nat \<Rightarrow> nat \<Rightarrow> nat \<Rightarrow> status \<Rightarrow> bool" where
  "room_ok ci qi qo k st \<longleftrightarrow>
     (let load = k + 32 * (length (ring_list (ss_q_head st)) + length (ring_list (ss_q_bin st qi))) in
        load + 32 + open_size (out_open ci) st \<le> 32 * ring_free (ss_q_bin st qo)
      \<and> load + 32 + open_size (spent_open ci) st \<le> 32 * ring_free (ss_q_spent st)
      \<and> load + 64 + open_size (out_open ci) st + open_size (spent_open ci) st \<le> 32 * pool_size st
      \<and> load \<le> LARGE_BIN_SIZE
      \<and> unat (r_head (ss_q_bin st qo)) + ring_cap (ss_q_bin st qo) + 16 < 2 ^ 32)"

definition slots_ok :: "bool \<Rightarrow> nat \<Rightarrow> status \<Rightarrow> bool" where
  "slots_ok strict ci st \<longleftrightarrow>
     inj_on (co_admitted (ss_cores st ci)) {..< BATCH_SIZE}
     \<and> (\<forall>t. slot_allowed (cbs ci st) t \<longrightarrow> t < BATCH_SIZE)
     \<and> (\<forall>t < BATCH_SIZE. distinct (map fst (adm ci st t))
          \<and> (\<forall>(s, d) \<in> set (adm ci st t). unat s < MAX_NODES \<and> \<not> src_free (cbs ci st) s t))
     \<and> (strict \<longrightarrow> (\<forall>t < BATCH_SIZE. bs_out_of_boundary_counts (cbs ci st) t = 0 \<and> distinct (map snd (adm ci st t))
          \<and> (\<forall>(s, d) \<in> set (adm ci st t). \<not> dst_free (cbs ci st) d t)))"

text \<open>An entry in a bin of the time slots has no time slot left up to the one of the bin.\<close>

definition late_ok :: "(nat \<Rightarrow> backlog_edge list) \<Rightarrow> batch_state \<Rightarrow> bool" where
  "late_ok f bs \<longleftrightarrow> (\<forall>t < BATCH_SIZE - 1. \<forall>e \<in> set (f (NUM_BINS + t)). \<forall>u \<le> t. \<not> avail bs (e_src e) (e_dst e) u)"

definition edges_ok :: "bool \<Rightarrow> nat \<Rightarrow> nat \<Rightarrow> backlog_edge list \<Rightarrow> (nat \<Rightarrow> backlog_edge list) \<Rightarrow> status \<Rightarrow> bool" where
  "edges_ok strict ci qi R f st \<longleftrightarrow>
     (\<forall>e \<in> set (v_head st) \<union> set (v_in qi st) \<union> set R.
        valid_edge strict e \<and> fresh_edge (co_current_timeslot (ss_cores st ci)) e)
     \<and> (\<forall>i < N_REQ. \<forall>e \<in> set (f i). valid_edge strict e)"

definition binv :: "bool \<Rightarrow> nat \<Rightarrow> nat \<Rightarrow> nat \<Rightarrow> (u16 \<times> u16 \<Rightarrow> nat) \<Rightarrow> (u16 \<times> u16) multiset \<Rightarrow> addr list
  \<Rightarrow> backlog_edge list \<Rightarrow> nat set \<Rightarrow> (nat \<Rightarrow> backlog_edge list) \<Rightarrow> status \<Rightarrow> bool" where
  "binv strict ci qi qo Q K xs R cur f st \<longleftrightarrow>
     mem_ok ci qi qo xs st \<and> req_ok cur f (ss_cores st ci) \<and> room_ok ci qi qo (size (bag f) + length R) st
     \<and> slots_ok strict ci st \<and> late_ok f (cbs ci st) \<and> edges_ok strict ci qi R f st
     \<and> total_units ci qi qo (bag f + mset R) st = Q \<and> flows ci qi qo (bag f + mset R) st = K"

section \<open>Bags and units\<close>

lemma bag_upd:
  assumes "i < N_REQ"
  shows "bag (f(i := xs)) + mset (f i) = bag f + mset xs"
proof -
  have "bag (f(i := ys)) = mset ys + (\<Sum>j \<in> {..< N_REQ} - {i}. mset (f j))" for ys
  proof -
    have "bag (f(i := ys)) = mset ((f(i := ys)) i) + (\<Sum>j \<in> {..< N_REQ} - {i}. mset ((f(i := ys)) j))"
      unfolding bag_def using assms by (intro sum.remove) simp_all
    also have "(\<Sum>j \<in> {..< N_REQ} - {i}. mset ((f(i := ys)) j)) = (\<Sum>j \<in> {..< N_REQ} - {i}. mset (f j))"
      by (intro sum.cong) auto
    finally show ?thesis by (simp only: fun_upd_same)
  qed
  from this [of xs] this [of "f i"] show ?thesis by simp
qed

lemma bag_snoc: "i < N_REQ \<Longrightarrow> bag (f(i := f i @ [e])) = add_mset e (bag f)"
  using bag_upd [of i f "f i @ [e]"] by simp

lemma bag_tl: "i < N_REQ \<Longrightarrow> f i = e # es \<Longrightarrow> bag f = add_mset e (bag (f(i := es)))"
  using bag_upd [of i f es] by simp

lemma bag_cong: "(\<And>i. i < N_REQ \<Longrightarrow> f i = g i) \<Longrightarrow> bag f = bag g"
  unfolding bag_def by (intro sum.cong) simp_all

lemma mset_le_bag: "i < N_REQ \<Longrightarrow> mset (f i) \<subseteq># bag f"
  using bag_upd [of i f "[]"] mset_subset_eq_add_right [of "mset (f i)" "bag (f(i := []))"] by simp

lemma length_le_bag: "i < N_REQ \<Longrightarrow> length (f i) \<le> size (bag f)"
  using size_mset_mono [OF mset_le_bag, of i f] by simp

lemma units_simps [simp]:
  "units p {#} = 0"
  "units p (add_mset e M) = (if e_pair e = p then unat (e_backlog e) else 0) + units p M"
  "units p (M + N) = units p M + units p N"
  by (simp_all add: units_def)

lemma units_append: "units p (mset (xs @ ys)) = units p (mset xs) + units p (mset ys)"
  by simp

section \<open>Steps that leave the memory of the streams alone\<close>

definition same_mem :: "nat \<Rightarrow> status \<Rightarrow> status \<Rightarrow> bool" where
  "same_mem ci st st' \<longleftrightarrow> ss_q_head st' = ss_q_head st \<and> ss_q_spent st' = ss_q_spent st \<and> ss_q_bin st' = ss_q_bin st
     \<and> ss_bin_mempool st' = ss_bin_mempool st \<and> ss_bins st' = ss_bins st \<and> ss_new_demands st' = ss_new_demands st
     \<and> out_open ci st' = out_open ci st \<and> spent_open ci st' = spent_open ci st"

lemma same_mem_refl [simp]: "same_mem ci st st"
  by (simp add: same_mem_def)

lemma same_mem_trans: "same_mem ci st st1 \<Longrightarrow> same_mem ci st1 st2 \<Longrightarrow> same_mem ci st st2"
  by (simp add: same_mem_def)

lemma same_mem_core_log [simp]: "same_mem ci st (core_log ci g st)"
  by (simp add: same_mem_def)

lemma same_mem_upd_core:
  "co_out_bin (g (ss_cores st ci)) = co_out_bin (ss_cores st ci) \<Longrightarrow>
   co_spent_bin (g (ss_cores st ci)) = co_spent_bin (ss_cores st ci) \<Longrightarrow> same_mem ci st (upd_core ci g st)"
  by (simp add: same_mem_def out_open_def spent_open_def)

lemma same_memD:
  assumes "same_mem ci st st'"
  shows "mem_ok ci qi qo xs st' \<longleftrightarrow> mem_ok ci qi qo xs st" "room_ok ci qi qo k st' \<longleftrightarrow> room_ok ci qi qo k st"
    "waiting st' as = waiting st as" "v_out ci qo st' = v_out ci qo st" "v_spent ci st' = v_spent ci st"
    "ss_q_head st' = ss_q_head st" "ss_q_bin st' = ss_q_bin st" "ss_q_spent st' = ss_q_spent st"
    "ss_bins st' = ss_bins st" "ss_bin_mempool st' = ss_bin_mempool st"
  using assms
  by (simp_all add: same_mem_def mem_ok_def room_ok_def waiting_def stream_list_def out_ring_def open_size_def own_def
      pool_size_def)

section \<open>Adding to a bin of requests\<close>

lemma request_bin_add_spec:
  assumes "bin_ok (co_new_request_bins (ss_cores st ci) i)"
    and "length (bin_list (co_new_request_bins (ss_cores st ci) i)) < b_cap (co_new_request_bins (ss_cores st ci) i)"
  shows "\<exists>b st'. request_bin_add ci i e st = Some st' \<and> bin_ok b
    \<and> b_cap b = b_cap (co_new_request_bins (ss_cores st ci) i)
    \<and> bin_list b = bin_list (co_new_request_bins (ss_cores st ci) i) @ [e]
    \<and> same_mem ci st st' \<and> ss_adms st' = ss_adms st \<and> ss_q_admitted_out st' = ss_q_admitted_out st
    \<and> ss_admitted_traffic_mempool st' = ss_admitted_traffic_mempool st
    \<and> ss_cores st' ci = (ss_cores st ci)\<lparr>co_new_request_bins := (co_new_request_bins (ss_cores st ci))(i := b),
         co_non_empty_bins := arr_set_bit (co_non_empty_bins (ss_cores st ci)) i\<rparr>"
  using enqueue_bin_edge_spec [OF assms, of e]
  by (auto simp: request_bin_add_def set_bin_non_empty_def same_mem_def out_open_def spent_open_def)

lemma bit_arr_set_bit_0: "i < 64 \<Longrightarrow> bit (arr_set_bit arr i 0) j \<longleftrightarrow> j = i \<or> bit (arr 0) j"
  by (auto simp: arr_set_bit_def bit_or_iff bit_push_bit_iff bit_1_iff simp del: push_bit_of_1)

lemma N_REQ_64: "i < N_REQ \<Longrightarrow> i < 64"
  by (simp add: NUM_BINS_def BATCH_SIZE_def)

lemma req_ok_add:
  assumes r: "req_ok cur f core" and i: "i < N_REQ" "i \<notin> cur"
    and b: "bin_ok b" "b_cap b = LARGE_BIN_SIZE" "bin_list b = f i @ [e]"
  shows "req_ok cur (f(i := f i @ [e])) (core\<lparr>co_new_request_bins := (co_new_request_bins core)(i := b),
    co_non_empty_bins := arr_set_bit (co_non_empty_bins core) i\<rparr>)"
  using r i b N_REQ_64 [OF i(1)] by (auto simp: req_ok_def bit_arr_set_bit_0)

text \<open>An entry that waits in a bin taken off a ring is sorted in.\<close>

lemma incoming_edge_ok:
  assumes inv: "binv strict ci qi qo Q K xs (e # R) {} f st"
  shows "\<exists>st' f'. incoming_edge ci e st = Some st' \<and> binv strict ci qi qo Q K xs R {} f' st' \<and> same_mem ci st st'
    \<and> ss_q_admitted_out st' = ss_q_admitted_out st \<and> ss_adms st' = ss_adms st
    \<and> ss_admitted_traffic_mempool st' = ss_admitted_traffic_mempool st
    \<and> co_allowed_bins (ss_cores st' ci) = co_allowed_bins (ss_cores st ci)
    \<and> co_admitted (ss_cores st' ci) = co_admitted (ss_cores st ci)
    \<and> co_batch_state (ss_cores st' ci) = co_batch_state (ss_cores st ci)
    \<and> co_current_timeslot (ss_cores st' ci) = co_current_timeslot (ss_cores st ci)"
proof -
  let ?c = "ss_cores st ci"
  let ?i = "unat (bin_index_from_timeslot (e_metric e) (co_current_timeslot ?c))"
  have m: "mem_ok ci qi qo xs st" and r: "req_ok {} f ?c" and room: "room_ok ci qi qo (size (bag f) + Suc (length R)) st"
    and sl: "slots_ok strict ci st" and lt: "late_ok f (cbs ci st)" and ed: "edges_ok strict ci qi (e # R) f st"
    and tot: "total_units ci qi qo (bag f + mset (e # R)) st = Q" and fl: "flows ci qi qo (bag f + mset (e # R)) st = K"
    using inv by (simp_all add: binv_def)
  have i: "?i < NUM_BINS \<or> ?i = N_REQ - 1" and ve: "valid_edge strict e"
    using ed by (auto simp: edges_ok_def fresh_edge_def Let_def)
  then have iN: "?i < N_REQ" by (auto simp: NUM_BINS_def BATCH_SIZE_def)
  have b0: "bin_ok (co_new_request_bins ?c ?i)" "b_cap (co_new_request_bins ?c ?i) = LARGE_BIN_SIZE"
    "f ?i = bin_list (co_new_request_bins ?c ?i)"
    using r iN by (simp_all add: req_ok_def)
  have "length (f ?i) < LARGE_BIN_SIZE"
    using length_le_bag [OF iN, of f] room by (simp add: room_ok_def Let_def)
  then obtain b st' where st': "request_bin_add ci ?i e st = Some st'" "bin_ok b" "b_cap b = LARGE_BIN_SIZE"
    "bin_list b = f ?i @ [e]" "same_mem ci st st'" "ss_adms st' = ss_adms st" "ss_q_admitted_out st' = ss_q_admitted_out st"
    "ss_admitted_traffic_mempool st' = ss_admitted_traffic_mempool st"
    and c': "ss_cores st' ci = ?c\<lparr>co_new_request_bins := (co_new_request_bins ?c)(?i := b),
         co_non_empty_bins := arr_set_bit (co_non_empty_bins ?c) ?i\<rparr>"
    using request_bin_add_spec [of st ci ?i e] b0 by auto
  define f' where "f' = f(?i := f ?i @ [e])"
  have bag': "bag f' = add_mset e (bag f)" unfolding f'_def by (rule bag_snoc [OF iN])
  note sm = same_memD [OF st'(5)]
  have adm': "adm ci st' = adm ci st" by (simp add: adm_def fun_eq_iff st'(6) c')
  have "req_ok {} f' (ss_cores st' ci)"
    unfolding c' f'_def using r iN st'(2-4) by (intro req_ok_add) simp_all
  moreover have "room_ok ci qi qo (size (bag f') + length R) st'" using room by (simp add: sm bag')
  moreover have "slots_ok strict ci st'" using sl by (simp add: slots_ok_def c' adm')
  moreover have "late_ok f' (cbs ci st')"
    using lt i by (auto simp: late_ok_def c' f'_def NUM_BINS_def BATCH_SIZE_def)
  moreover have "edges_ok strict ci qi R f' st'"
    using ed ve by (auto simp: edges_ok_def sm c' f'_def)
  moreover have "total_units ci qi qo (bag f' + mset R) st' = Q"
    using tot by (simp add: total_units_def fun_eq_iff sm bag' adm')
  moreover have "flows ci qi qo (bag f' + mset R) st' = K" using fl by (simp add: flows_def sm bag')
  ultimately have "binv strict ci qi qo Q K xs R {} f' st'" using m by (simp add: binv_def sm)
  with st' c' show ?thesis by (auto simp: incoming_edge_def intro!: exI [of _ f'])
qed

end
