(* ===== verification/Alloc_Step.thy ===== *)
theory Alloc_Step
  imports Alloc_Inv
begin

text \<open>
  One allocation: the entry of a demand is served in the first time slot that is free for its source and its
  destination, and what is left of it is queued again, handed on, or reported as spent.
\<close>

section \<open>The time slots\<close>

lemma length_adm_less:
  fixes l :: "(u16 \<times> u16) list" and src :: u16
  assumes d: "distinct (map fst l)" and lt: "\<forall>(s, d) \<in> set l. unat s < MAX_NODES"
    and new: "src \<notin> fst ` set l" "unat src < MAX_NODES"
  shows "length l < MAX_NODES"
proof -
  have "length l = card (fst ` set l)" using distinct_card [OF d] by simp
  also have "\<dots> = card (unat ` fst ` set l)" by (intro card_image [symmetric] inj_onI) (simp add: unat_u16_eq)
  also have "\<dots> < card {..< MAX_NODES}"
  proof (rule psubset_card_mono)
    have "unat src \<notin> unat ` fst ` set l" using new(1) by (force simp: unat_u16_eq)
    moreover have "unat ` fst ` set l \<subseteq> {..< MAX_NODES}" using lt by auto
    ultimately show "unat ` fst ` set l \<subset> {..< MAX_NODES}" using new(2) by blast
  qed simp
  finally show ?thesis by simp
qed

lemma avail_mono:
  assumes "bs_allowed_mask bs' = bs_allowed_mask bs"
    and "\<forall>s u. src_free bs' s u \<longleftrightarrow> src_free bs s u \<and> \<not> (s = src \<and> u = t)"
    and "\<forall>d u. dst_free bs' d u \<longleftrightarrow> dst_free bs d u \<and> \<not> (d = dst \<and> u = t \<and> flips)"
  shows "avail bs' s d u \<Longrightarrow> avail bs s d u \<and> \<not> (s = src \<and> u = t)"
  using assms by (auto simp: avail_def slot_allowed_def)

text \<open>
  The part of \<open>try_allocation\<close> that takes the time slot: the state \<open>st'\<close> before what is left of the demand
  is queued.
\<close>

lemma take_slot:
  assumes sl: "slots_ok strict ci st" and v: "unat src < MAX_NODES" "unat dst < MAX_NODES"
    "strict \<longrightarrow> unat dst \<noteq> OUT_OF_BOUNDARY_NODE_ID"
    and m: "\<forall>t. bit m t \<longleftrightarrow> avail (cbs ci st) src dst t" "m \<noteq> 0"
  defines "t \<equiv> ffs m"
  shows "t < BATCH_SIZE \<and> take_bit BATCH_SHIFT (ffs m) = t \<and> avail (cbs ci st) src dst t
    \<and> (\<forall>u < t. \<not> avail (cbs ci st) src dst u)
    \<and> (\<exists>bs ad. batch_state_set_occupied_conditional (cbs ci st) src dst t (m AND - m) = Some bs
       \<and> insert_admitted_edge (ss_adms st (co_admitted (ss_cores st ci) t)) src dst = Some ad
       \<and> (\<forall>s d u. avail bs s d u \<longrightarrow> avail (cbs ci st) s d u \<and> \<not> (s = src \<and> u = t))
       \<and> (let st' = (upd_core ci (co_batch_state_update (\<lambda>_. bs)) st)
                       \<lparr>ss_adms := (ss_adms st)(co_admitted (ss_cores st ci) t := ad)\<rparr>
          in slots_ok strict ci st' \<and> (\<forall>u < BATCH_SIZE. adm ci st' u = adm ci st u @ (if u = t then [(src, dst)] else []))))"
proof -
  let ?bs = "cbs ci st" and ?a = "co_admitted (ss_cores st ci)"
  have av: "avail ?bs src dst t" using bit_ffs [OF m(2)] m(1) by (simp add: t_def)
  have first: "\<forall>u < t. \<not> avail ?bs src dst u" using ffs_le [OF m(2)] m(1) by (auto simp: t_def not_le [symmetric])
  have t: "t < BATCH_SIZE" using sl av by (simp add: slots_ok_def avail_def)
  then have tb: "take_bit BATCH_SHIFT (ffs m) = t" by (simp add: t_def take_bit_nat_eq_self BATCH_SIZE_def BATCH_SHIFT_def)
  have free: "src_free ?bs src t" "dst_free ?bs dst t" using av by (simp_all add: avail_def)
  have bits: "bit (m AND - m) u \<longleftrightarrow> u = t" for u using bit_lowest [OF m(2)] by (simp add: t_def)
  obtain bs where bs: "batch_state_set_occupied_conditional ?bs src dst t (m AND - m) = Some bs"
    "bs_allowed_mask bs = bs_allowed_mask ?bs"
    "bs_out_of_boundary_counts bs = (if unat dst = OUT_OF_BOUNDARY_NODE_ID
         then (bs_out_of_boundary_counts ?bs)(t := bs_out_of_boundary_counts ?bs t - 1) else bs_out_of_boundary_counts ?bs)"
    "\<forall>s u. src_free bs s u \<longleftrightarrow> src_free ?bs s u \<and> \<not> (s = src \<and> u = t)"
    "\<forall>d u. dst_free bs d u \<longleftrightarrow> dst_free ?bs d u \<and> \<not> (d = dst \<and> u = t \<and> dst_flips bs dst t)"
    using set_occupied_spec [OF v(1,2) t free bits] by blast
  have old: "distinct (map fst (adm ci st t))" "\<forall>(s, d) \<in> set (adm ci st t). unat s < MAX_NODES \<and> \<not> src_free ?bs s t"
    using sl t by (simp_all add: slots_ok_def)
  have new: "src \<notin> fst ` set (adm ci st t)" using old(2) free(1) by auto
  have "length (adm ci st t) < MAX_NODES" using old new v(1) by (intro length_adm_less) auto
  then obtain ad where ad: "insert_admitted_edge (ss_adms st (?a t)) src dst = Some ad" "adm_list ad = adm ci st t @ [(src, dst)]"
    using insert_admitted_edge_spec [of "ss_adms st (?a t)" src dst] v by (auto simp: adm_def)
  define st' where "st' = (upd_core ci (co_batch_state_update (\<lambda>_. bs)) st)\<lparr>ss_adms := (ss_adms st)(?a t := ad)\<rparr>"
  have inj: "inj_on ?a {..< BATCH_SIZE}" using sl by (simp add: slots_ok_def)
  have adm': "adm ci st' u = adm ci st u @ (if u = t then [(src, dst)] else [])" if "u < BATCH_SIZE" for u
    using inj_onD [OF inj, of u t] that t ad(2) by (auto simp: adm_def st'_def)
  have bs': "cbs ci st' = bs" and a': "co_admitted (ss_cores st' ci) = ?a" by (simp_all add: st'_def)
  have "slots_ok strict ci st'"
    unfolding slots_ok_def
  proof (intro conjI allI impI)
    fix u assume u: "u < BATCH_SIZE"
    have o: "distinct (map fst (adm ci st u))" "\<forall>(s, d) \<in> set (adm ci st u). unat s < MAX_NODES \<and> \<not> src_free ?bs s u"
      using sl u by (simp_all add: slots_ok_def)
    show "distinct (map fst (adm ci st' u))" using o(1) new u by (auto simp: adm')
    show "\<forall>(s, d) \<in> set (adm ci st' u). unat s < MAX_NODES \<and> \<not> src_free (cbs ci st') s u"
      using o(2) v(1) bs(4) u by (auto simp: adm' bs')
    assume s: "strict"
    have o2: "bs_out_of_boundary_counts ?bs u = 0" "distinct (map snd (adm ci st u))"
      "\<forall>(s, d) \<in> set (adm ci st u). \<not> dst_free ?bs d u"
      using sl u s by (simp_all add: slots_ok_def)
    show c0: "bs_out_of_boundary_counts (cbs ci st') u = 0" using o2(1) bs(3) v(3) s by (simp add: bs')
    show "distinct (map snd (adm ci st' u))" using o2(2,3) free(2) u by (auto simp: adm')
    show "\<forall>(s, d) \<in> set (adm ci st' u). \<not> dst_free (cbs ci st') d u"
      using o2(3) bs(5) c0 u by (auto simp: adm' bs' dst_flips_def)
  qed (use sl bs(2) inj in \<open>simp_all add: slots_ok_def slot_allowed_def bs' a'\<close>)
  moreover have "\<forall>s d u. avail bs s d u \<longrightarrow> avail ?bs s d u \<and> \<not> (s = src \<and> u = t)"
    using avail_mono [OF bs(2,4,5)] by blast
  ultimately show ?thesis
    using t tb av first bs(1) ad(1) adm' by (auto simp: st'_def Let_def intro!: exI [of _ bs] exI [of _ ad])
qed

section \<open>Framing\<close>

lemma frame_core:
  assumes "frame ci st st'"
  shows "slots_ok strict ci st' \<longleftrightarrow> slots_ok strict ci st" "req_ok cur f (ss_cores st' ci) \<longleftrightarrow> req_ok cur f (ss_cores st ci)"
    "adm ci st' = adm ci st" "cbs ci st' = cbs ci st"
    "co_current_timeslot (ss_cores st' ci) = co_current_timeslot (ss_cores st ci)"
    "co_new_request_bins (ss_cores st' ci) = co_new_request_bins (ss_cores st ci)"
    "co_non_empty_bins (ss_cores st' ci) = co_non_empty_bins (ss_cores st ci)"
    "co_allowed_bins (ss_cores st' ci) = co_allowed_bins (ss_cores st ci)"
    "co_admitted (ss_cores st' ci) = co_admitted (ss_cores st ci)"
    "ss_q_admitted_out st' = ss_q_admitted_out st" "ss_admitted_traffic_mempool st' = ss_admitted_traffic_mempool st"
  using assms by (simp_all add: frame_def core_same_def slots_ok_def req_ok_def adm_def [abs_def])

lemma late_ok_mono:
  assumes "late_ok f bs" "\<And>i. set (g i) \<subseteq> set (f i)" "\<And>s d u. avail bs' s d u \<Longrightarrow> avail bs s d u"
  shows "late_ok g bs'"
  using assms unfolding late_ok_def by blast

lemma req_ok_tl: "req_ok C f core \<Longrightarrow> b \<in> C \<Longrightarrow> req_ok C (f(b := es)) core"
  by (auto simp: req_ok_def)

text \<open>What happens to the rest of the state while bin \<open>b\<close> is worked on.\<close>

definition keeps_core :: "nat \<Rightarrow> nat \<Rightarrow> status \<Rightarrow> status \<Rightarrow> bool" where
  "keeps_core b ci st st' \<longleftrightarrow>
     co_new_request_bins (ss_cores st' ci) b = co_new_request_bins (ss_cores st ci) b
     \<and> co_allowed_bins (ss_cores st' ci) = co_allowed_bins (ss_cores st ci)
     \<and> co_admitted (ss_cores st' ci) = co_admitted (ss_cores st ci)
     \<and> co_current_timeslot (ss_cores st' ci) = co_current_timeslot (ss_cores st ci)
     \<and> bs_allowed_mask (cbs ci st') = bs_allowed_mask (cbs ci st)
     \<and> (\<forall>j. bit (co_non_empty_bins (ss_cores st' ci) 0) j \<longrightarrow> bit (co_non_empty_bins (ss_cores st ci) 0) j \<or> b < j)
     \<and> ss_q_admitted_out st' = ss_q_admitted_out st \<and> ss_admitted_traffic_mempool st' = ss_admitted_traffic_mempool st
     \<and> ss_q_head st' = ss_q_head st
     \<and> (\<forall>u < BATCH_SIZE. \<not> slot_allowed (cbs ci st) u \<longrightarrow> adm ci st' u = adm ci st u)"

lemma keeps_core_refl [simp]: "keeps_core b ci st st"
  by (simp add: keeps_core_def)

lemma keeps_core_trans:
  assumes "keeps_core b ci st st1" "keeps_core b ci st1 st2"
  shows "keeps_core b ci st st2"
  using assms unfolding keeps_core_def slot_allowed_def by (auto; metis)

lemma keeps_core_frame: "frame ci st st' \<Longrightarrow> ss_q_head st' = ss_q_head st \<Longrightarrow> keeps_core b ci st st'"
  by (simp add: keeps_core_def frame_core)

text \<open>
  No slot becomes free, and a demand that is handed on has no slot left in which its source and its
  destination are free.
\<close>

definition no_slot :: "batch_state \<Rightarrow> backlog_edge \<Rightarrow> bool" where
  "no_slot bs e \<longleftrightarrow> unat (e_src e) < MAX_NODES \<and> unat (e_dst e) < MAX_NODES \<and> (\<forall>t. \<not> avail bs (e_src e) (e_dst e) t)"

definition tried :: "nat \<Rightarrow> nat \<Rightarrow> status \<Rightarrow> status \<Rightarrow> bool" where
  "tried ci qo st st' \<longleftrightarrow>
     (\<forall>s d t. avail (cbs ci st') s d t \<longrightarrow> avail (cbs ci st) s d t)
     \<and> (\<exists>new. v_out ci qo st' = v_out ci qo st @ new \<and> (\<forall>e \<in> set new. no_slot (cbs ci st') e))"

lemma tried_trans:
  assumes "tried ci qo st st1" "tried ci qo st1 st2"
  shows "tried ci qo st st2"
proof -
  obtain n1 n2 where n: "v_out ci qo st1 = v_out ci qo st @ n1" "\<forall>e \<in> set n1. no_slot (cbs ci st1) e"
    "v_out ci qo st2 = v_out ci qo st1 @ n2" "\<forall>e \<in> set n2. no_slot (cbs ci st2) e"
    using assms unfolding tried_def by blast
  have mono: "avail (cbs ci st1) s d t \<and> avail (cbs ci st) s d t" if "avail (cbs ci st2) s d t" for s d t
    using assms that unfolding tried_def by blast
  then have "no_slot (cbs ci st2) e" if "no_slot (cbs ci st1) e" for e using that unfolding no_slot_def by blast
  then show ?thesis using n mono unfolding tried_def by (intro conjI exI [of _ "n1 @ n2"]) auto
qed

lemma tried_same: "v_out ci qo st' = v_out ci qo st \<Longrightarrow> (\<And>s d t. avail (cbs ci st') s d t \<Longrightarrow> avail (cbs ci st) s d t) \<Longrightarrow> tried ci qo st st'"
  by (simp add: tried_def)

lemma tried_refl [simp]: "tried ci qo st st"
  by (simp add: tried_same)

lemma tried_core_log [simp]: "tried ci qo st (core_log ci g st)"
  by (rule tried_same) (simp_all add: frame_core [OF frame_core_log])

lemma binv_core_log [simp]:
  "binv strict ci qi qo Q K xs R cur f (core_log ci g st) \<longleftrightarrow> binv strict ci qi qo Q K xs R cur f st"
  by (simp add: binv_def edges_ok_def total_units_def [abs_def] flows_def frame_core [OF frame_core_log]
      same_memD [OF same_mem_core_log])

section \<open>One entry\<close>

text \<open>No time slot is free: the entry goes to the next core.\<close>

lemma entry_out:
  assumes inv: "binv strict ci qi qo Q K xs [] C f st" and ne: "qi \<noteq> qo" and b: "b < N_REQ" "b \<in> C" and fb: "f b = e # es"
  shows "\<exists>st'. core_enqueue_to_q_out_edge ci qo e st = Some st' \<and> binv strict ci qi qo Q K xs [] C (f(b := es)) st'
    \<and> keeps_core b ci st st' \<and> v_out ci qo st' = v_out ci qo st @ [e] \<and> cbs ci st' = cbs ci st"
proof -
  have m: "mem_ok ci qi qo xs st" and r: "req_ok C f (ss_cores st ci)" and room: "room_ok ci qi qo (size (bag f)) st"
    and sl: "slots_ok strict ci st" and lt: "late_ok f (cbs ci st)" and ed: "edges_ok strict ci qi [] f st"
    and tot: "total_units ci qi qo (bag f) st = Q" and fl: "flows ci qi qo (bag f) st = K"
    using inv by (simp_all add: binv_def)
  have bag: "bag f = add_mset e (bag (f(b := es)))" using b(1) fb by (rule bag_tl)
  have "open_size (out_open ci) st < 32 * ring_free (ss_q_bin st qo)" "open_size (out_open ci) st < 32 * pool_size st"
    using room by (simp_all add: room_ok_def Let_def)
  from push_out [OF m ne, of e] this obtain st' where st': "core_enqueue_to_q_out_edge ci qo e st = Some st'"
    "mem_ok ci qi qo xs st'" and same: "same_but_out ci qi xs st st'" and vo: "v_out ci qo st' = v_out ci qo st @ [e]"
    and r1: "32 * ring_free (ss_q_bin st' qo) + Suc (open_size (out_open ci) st)
        = 32 * ring_free (ss_q_bin st qo) + open_size (out_open ci) st'"
    and r2: "32 * pool_size st' + Suc (open_size (out_open ci) st) = 32 * pool_size st + open_size (out_open ci) st'"
    and r3: "ring_cap (ss_q_bin st' qo) = ring_cap (ss_q_bin st qo)" "r_head (ss_q_bin st' qo) = r_head (ss_q_bin st qo)"
    unfolding SMALL_BIN_SIZE_def by blast
  have fr: "frame ci st st'" and v: "ss_q_head st' = ss_q_head st" "ss_q_bin st' qi = ss_q_bin st qi"
    "ss_q_spent st' = ss_q_spent st" "v_spent ci st' = v_spent ci st"
    "open_size (spent_open ci) st' = open_size (spent_open ci) st"
    and w: "waiting st' (ring_list (ss_q_head st)) = v_head st" "waiting st' (ring_list (ss_q_bin st qi)) = v_in qi st"
    using same by (simp_all add: same_but_out_def)
  note fc = frame_core [OF fr]
  have "room_ok ci qi qo (size (bag (f(b := es)))) st'"
    using room r1 r2 by (simp add: room_ok_def Let_def v bag r3)
  moreover have "late_ok (f(b := es)) (cbs ci st')"
    unfolding fc by (rule late_ok_mono [OF lt]) (auto simp: fb split: if_splits)
  moreover have "edges_ok strict ci qi [] (f(b := es)) st'" using ed b fb by (auto simp: edges_ok_def w v(1,2) fc)
  moreover have "total_units ci qi qo (bag (f(b := es))) st' = Q"
    using tot by (simp add: total_units_def fun_eq_iff w v(1,2) vo fc bag)
  moreover have "flows ci qi qo (bag (f(b := es))) st' = K" using fl by (simp add: flows_def w v vo bag)
  moreover have "req_ok C (f(b := es)) (ss_cores st' ci)" using req_ok_tl [OF r b(2)] by (simp add: fc)
  ultimately have "binv strict ci qi qo Q K xs [] C (f(b := es)) st'"
    using st'(2) sl by (simp add: binv_def fc)
  then show ?thesis using st'(1) keeps_core_frame [OF fr v(1)] vo fc(4) by blast
qed

text \<open>
  The state after a time slot \<open>t\<close> was taken for the entry \<open>e\<close> of bin \<open>b\<close>: everything of the invariant holds but for
  the entry itself, of which one packet was admitted.
\<close>

definition taken :: "bool \<Rightarrow> nat \<Rightarrow> nat \<Rightarrow> nat \<Rightarrow> (u16 \<times> u16 \<Rightarrow> nat) \<Rightarrow> (u16 \<times> u16) multiset \<Rightarrow> addr list
  \<Rightarrow> nat \<Rightarrow> (nat \<Rightarrow> backlog_edge list) \<Rightarrow> backlog_edge \<Rightarrow> nat \<Rightarrow> status \<Rightarrow> bool" where
  "taken strict ci qi qo Q K xs b f e t st \<longleftrightarrow>
     mem_ok ci qi qo xs st \<and> req_ok {b} f (ss_cores st ci) \<and> room_ok ci qi qo (Suc (size (bag f))) st
     \<and> slots_ok strict ci st \<and> late_ok f (cbs ci st) \<and> edges_ok strict ci qi [] f st \<and> valid_edge strict e
     \<and> (\<forall>p. total_units ci qi qo (bag f) st p + (if e_pair e = p then unat (e_backlog e) - 1 else 0) = Q p)
     \<and> add_mset (e_pair e) (flows ci qi qo (bag f) st) = K
     \<and> (\<forall>u \<le> t. \<not> avail (cbs ci st) (e_src e) (e_dst e) u)"

lemma requeue_ok:
  assumes tk: "taken strict ci qi qo Q K xs b f e t st" and t: "t < BATCH_SIZE" "b < NUM_BINS + t"
    and e': "e_pair e' = e_pair e" "e_backlog e' = e_backlog e - 1" "e_backlog e' \<noteq> 0"
  shows "\<exists>st' f'. request_bin_add ci (NUM_BINS + t) e' st = Some st' \<and> binv strict ci qi qo Q K xs [] {b} f' st'
    \<and> f' b = f b \<and> keeps_core b ci st st' \<and> tried ci qo st st'"
proof -
  let ?c = "ss_cores st ci" and ?i = "NUM_BINS + t"
  have m: "mem_ok ci qi qo xs st" and r: "req_ok {b} f ?c" and room: "room_ok ci qi qo (Suc (size (bag f))) st"
    and sl: "slots_ok strict ci st" and lt: "late_ok f (cbs ci st)" and ed: "edges_ok strict ci qi [] f st"
    and ve: "valid_edge strict e"
    and tot: "\<forall>p. total_units ci qi qo (bag f) st p + (if e_pair e = p then unat (e_backlog e) - 1 else 0) = Q p"
    and fl: "add_mset (e_pair e) (flows ci qi qo (bag f) st) = K"
    and na: "\<forall>u \<le> t. \<not> avail (cbs ci st) (e_src e) (e_dst e) u"
    using tk by (simp_all add: taken_def)
  have iN: "?i < N_REQ" using t by simp
  have b0: "bin_ok (co_new_request_bins ?c ?i)" "b_cap (co_new_request_bins ?c ?i) = LARGE_BIN_SIZE"
    "f ?i = bin_list (co_new_request_bins ?c ?i)"
    using r iN t(2) by (simp_all add: req_ok_def)
  have "length (f ?i) < LARGE_BIN_SIZE" using length_le_bag [OF iN, of f] room by (simp add: room_ok_def Let_def)
  then obtain bn st' where st': "request_bin_add ci ?i e' st = Some st'" "bin_ok bn" "b_cap bn = LARGE_BIN_SIZE"
    "bin_list bn = f ?i @ [e']" "same_mem ci st st'" "ss_adms st' = ss_adms st" "ss_q_admitted_out st' = ss_q_admitted_out st"
    "ss_admitted_traffic_mempool st' = ss_admitted_traffic_mempool st"
    and c': "ss_cores st' ci = ?c\<lparr>co_new_request_bins := (co_new_request_bins ?c)(?i := bn),
         co_non_empty_bins := arr_set_bit (co_non_empty_bins ?c) ?i\<rparr>"
    using request_bin_add_spec [of st ci ?i e'] b0 by auto
  define f' where "f' = f(?i := f ?i @ [e'])"
  have bag': "bag f' = add_mset e' (bag f)" unfolding f'_def by (rule bag_snoc [OF iN])
  note sm = same_memD [OF st'(5)]
  have adm': "adm ci st' = adm ci st" by (simp add: adm_def [abs_def] st'(6) c')
  have k: "unat (e_backlog e') = unat (e_backlog e) - 1"
    using ve unat_minus_one [of "e_backlog e"] by (simp add: e'(2) valid_edge_def)
  have srcs: "e_src e' = e_src e" "e_dst e' = e_dst e" using e'(1) by (simp_all add: e_pair_def)
  have "req_ok {b} f' (ss_cores st' ci)"
    unfolding c' f'_def using r iN t(2) st'(2-4) by (intro req_ok_add) simp_all
  moreover have "room_ok ci qi qo (size (bag f')) st'" using room by (simp add: sm bag')
  moreover have "slots_ok strict ci st'" using sl by (simp add: slots_ok_def c' adm')
  moreover have "late_ok f' (cbs ci st')" using lt na by (auto simp: late_ok_def c' f'_def srcs)
  moreover have "valid_edge strict e'" using ve e'(3) by (simp add: valid_edge_def srcs)
  then have "edges_ok strict ci qi [] f' st'"
    using ed iN by (simp add: edges_ok_def sm c' f'_def) (metis UnE add_less_cancel_left empty_iff insert_iff list.set set_append)
  moreover have "total_units ci qi qo (bag f') st' = Q"
  proof
    show "total_units ci qi qo (bag f') st' p = Q p" for p
      using tot [rule_format, of p] by (simp add: total_units_def sm bag' adm' k e'(1) split: if_splits)
  qed
  moreover have "flows ci qi qo (bag f') st' = K" using fl by (simp add: flows_def sm bag' e'(1))
  ultimately have "binv strict ci qi qo Q K xs [] {b} f' st'" using m by (simp add: binv_def sm)
  moreover have "keeps_core b ci st st'"
    using t(2) N_REQ_64 [OF iN] by (auto simp: keeps_core_def c' adm' sm st'(7,8) bit_arr_set_bit_0)
  moreover have "tried ci qo st st'" by (rule tried_same) (simp_all add: sm c')
  ultimately show ?thesis using st'(1) t(2) by (auto simp: f'_def)
qed

lemma spend_ok:
  assumes tk: "taken strict ci qi qo Q K xs b f e t st" and one: "e_backlog e = 1"
  shows "\<exists>st'. core_enqueue_to_q_spent ci (e_src e) (e_dst e) metric st = Some st'
    \<and> binv strict ci qi qo Q K xs [] {b} f st' \<and> keeps_core b ci st st' \<and> tried ci qo st st'"
proof -
  have m: "mem_ok ci qi qo xs st" and r: "req_ok {b} f (ss_cores st ci)" and room: "room_ok ci qi qo (Suc (size (bag f))) st"
    and sl: "slots_ok strict ci st" and lt: "late_ok f (cbs ci st)" and ed: "edges_ok strict ci qi [] f st"
    and tot: "\<forall>p. total_units ci qi qo (bag f) st p + (if e_pair e = p then unat (e_backlog e) - 1 else 0) = Q p"
    and fl: "add_mset (e_pair e) (flows ci qi qo (bag f) st) = K"
    using tk by (simp_all add: taken_def)
  have "open_size (spent_open ci) st < 32 * ring_free (ss_q_spent st)" "open_size (spent_open ci) st < 32 * pool_size st"
    using room by (simp_all add: room_ok_def Let_def)
  from push_spent [OF m, of "e_src e" "e_dst e" metric] this obtain st' where
    st': "core_enqueue_to_q_spent ci (e_src e) (e_dst e) metric st = Some st'" "mem_ok ci qi qo xs st'"
    and same: "same_but_spent ci qi qo xs st st'"
    and vs: "v_spent ci st' = v_spent ci st @ [\<lparr>e_src = e_src e, e_dst = e_dst e, e_backlog = 0, e_metric = metric\<rparr>]"
    and r1: "32 * ring_free (ss_q_spent st') + Suc (open_size (spent_open ci) st)
        = 32 * ring_free (ss_q_spent st) + open_size (spent_open ci) st'"
    and r2: "32 * pool_size st' + Suc (open_size (spent_open ci) st) = 32 * pool_size st + open_size (spent_open ci) st'"
    unfolding SMALL_BIN_SIZE_def by blast
  have fr: "frame ci st st'" and v: "ss_q_head st' = ss_q_head st" "ss_q_bin st' = ss_q_bin st" "v_out ci qo st' = v_out ci qo st"
    "open_size (out_open ci) st' = open_size (out_open ci) st"
    and w: "waiting st' (ring_list (ss_q_head st)) = v_head st" "waiting st' (ring_list (ss_q_bin st qi)) = v_in qi st"
    using same by (simp_all add: same_but_spent_def)
  note fc = frame_core [OF fr]
  have "room_ok ci qi qo (size (bag f)) st'" using room r1 r2 by (simp add: room_ok_def Let_def v)
  moreover have "edges_ok strict ci qi [] f st'" using ed by (simp add: edges_ok_def w v(1,2) fc)
  moreover have "total_units ci qi qo (bag f) st' = Q"
  proof
    show "total_units ci qi qo (bag f) st' p = Q p" for p
      using tot [rule_format, of p] one by (simp add: total_units_def w v fc split: if_splits)
  qed
  moreover have "flows ci qi qo (bag f) st' = K" using fl by (simp add: flows_def w v vs e_pair_def)
  ultimately have "binv strict ci qi qo Q K xs [] {b} f st'"
    using st'(2) sl r lt by (simp add: binv_def fc)
  moreover have "tried ci qo st st'" by (rule tried_same) (simp_all add: v fc)
  ultimately show ?thesis using st'(1) keeps_core_frame [OF fr v(1)] by blast
qed

text \<open>Taking the time slot leads to the state above.\<close>

lemma taken_ok:
  assumes inv: "binv strict ci qi qo Q K xs [] {b} f st" and b: "b < N_REQ - 1" and fb: "f b = e # es"
    and m: "\<forall>t. bit m t \<longleftrightarrow> avail (cbs ci st) (e_src e) (e_dst e) t" "m \<noteq> 0"
  shows "\<exists>t bs ad. t < BATCH_SIZE \<and> b < NUM_BINS + t \<and> take_bit BATCH_SHIFT (ffs m) = t \<and> e_pair e = (e_src e, e_dst e)
    \<and> batch_state_set_occupied_conditional (cbs ci st) (e_src e) (e_dst e) t (m AND - m) = Some bs
    \<and> insert_admitted_edge (ss_adms st (co_admitted (ss_cores st ci) t)) (e_src e) (e_dst e) = Some ad
    \<and> (\<forall>g. let st' = core_log ci g ((upd_core ci (co_batch_state_update (\<lambda>_. bs)) st)
                  \<lparr>ss_adms := (ss_adms st)(co_admitted (ss_cores st ci) t := ad)\<rparr>)
           in taken strict ci qi qo Q K xs b (f(b := es)) e t st' \<and> keeps_core b ci st st' \<and> tried ci qo st st')"
proof -
  let ?f = "f(b := es)"
  have bN: "b < N_REQ" using b by simp
  have mk: "mem_ok ci qi qo xs st" and r: "req_ok {b} f (ss_cores st ci)" and room: "room_ok ci qi qo (size (bag f)) st"
    and sl: "slots_ok strict ci st" and lt: "late_ok f (cbs ci st)" and ed: "edges_ok strict ci qi [] f st"
    and tot: "total_units ci qi qo (bag f) st = Q" and fl: "flows ci qi qo (bag f) st = K"
    using inv by (simp_all add: binv_def)
  have ve: "valid_edge strict e" using ed bN fb by (auto simp: edges_ok_def)
  have v: "unat (e_src e) < MAX_NODES" "unat (e_dst e) < MAX_NODES" "strict \<longrightarrow> unat (e_dst e) \<noteq> OUT_OF_BOUNDARY_NODE_ID"
    using ve by (simp_all add: valid_edge_def)
  have bag: "bag f = add_mset e (bag ?f)" using bN fb by (rule bag_tl)
  define t where "t = ffs m"
  from take_slot [OF sl v m, folded t_def, unfolded Let_def] obtain bs ad where
    t: "t < BATCH_SIZE" "take_bit BATCH_SHIFT t = t" "avail (cbs ci st) (e_src e) (e_dst e) t"
      "\<forall>u < t. \<not> avail (cbs ci st) (e_src e) (e_dst e) u"
    and run: "batch_state_set_occupied_conditional (cbs ci st) (e_src e) (e_dst e) t (m AND - m) = Some bs"
      "insert_admitted_edge (ss_adms st (co_admitted (ss_cores st ci) t)) (e_src e) (e_dst e) = Some ad"
    and mono: "\<forall>s d u. avail bs s d u \<longrightarrow> avail (cbs ci st) s d u \<and> \<not> (s = e_src e \<and> u = t)"
    and sl': "slots_ok strict ci ((upd_core ci (co_batch_state_update (\<lambda>_. bs)) st)
                  \<lparr>ss_adms := (ss_adms st)(co_admitted (ss_cores st ci) t := ad)\<rparr>)"
    and adm': "\<forall>u < BATCH_SIZE. adm ci ((upd_core ci (co_batch_state_update (\<lambda>_. bs)) st)
                  \<lparr>ss_adms := (ss_adms st)(co_admitted (ss_cores st ci) t := ad)\<rparr>) u = adm ci st u @ (if u = t then [(e_src e, e_dst e)] else [])"
    by blast
  let ?s1 = "(upd_core ci (co_batch_state_update (\<lambda>_. bs)) st)
                  \<lparr>ss_adms := (ss_adms st)(co_admitted (ss_cores st ci) t := ad)\<rparr>"
  have bt: "b < NUM_BINS + t"
  proof (rule ccontr)
    assume "\<not> b < NUM_BINS + t"
    then have "b = NUM_BINS + (b - NUM_BINS)" "b - NUM_BINS < BATCH_SIZE - 1" "t \<le> b - NUM_BINS" using b by simp_all
    then have "\<not> avail (cbs ci st) (e_src e) (e_dst e) t"
      using lt fb unfolding late_ok_def by (metis list.set_intros(1))
    with t(3) show False by simp
  qed
  have mask: "bs_allowed_mask bs = bs_allowed_mask (cbs ci st)"
    using run(1) by (auto simp: batch_state_set_occupied_conditional_def Let_def SUPPORTS_OVERSUBSCRIPTION_def
        split: if_splits bind_splits)
  have "taken strict ci qi qo Q K xs b ?f e t (core_log ci g ?s1) \<and> keeps_core b ci st (core_log ci g ?s1)
    \<and> tried ci qo st (core_log ci g ?s1)" for g
  proof -
    define st' where "st' = core_log ci g ?s1"
    have sm0: "same_mem ci st st'"
      by (simp add: st'_def same_mem_def core_log_def out_open_def spent_open_def)
    note sm = same_memD [OF sm0]
    have c': "cbs ci st' = bs" "co_new_request_bins (ss_cores st' ci) = co_new_request_bins (ss_cores st ci)"
      "co_non_empty_bins (ss_cores st' ci) = co_non_empty_bins (ss_cores st ci)"
      "co_allowed_bins (ss_cores st' ci) = co_allowed_bins (ss_cores st ci)"
      "co_admitted (ss_cores st' ci) = co_admitted (ss_cores st ci)"
      "co_current_timeslot (ss_cores st' ci) = co_current_timeslot (ss_cores st ci)"
      "ss_q_admitted_out st' = ss_q_admitted_out st" "ss_admitted_traffic_mempool st' = ss_admitted_traffic_mempool st"
      by (simp_all add: st'_def core_log_def)
    have fr: "frame ci ?s1 st'" by (simp add: st'_def)
    have adm1: "adm ci st' u = adm ci st u @ (if u = t then [(e_src e, e_dst e)] else [])" if "u < BATCH_SIZE" for u
      using adm' that by (simp add: frame_core [OF fr])
    have cnt: "(\<Sum>u < BATCH_SIZE. count (mset (adm ci st' u)) p)
        = (\<Sum>u < BATCH_SIZE. count (mset (adm ci st u)) p) + (if e_pair e = p then 1 else 0)" for p
    proof -
      have "(\<Sum>u < BATCH_SIZE. count (mset (adm ci st' u)) p)
          = (\<Sum>u < BATCH_SIZE. count (mset (adm ci st u)) p + (if u = t then (if e_pair e = p then 1 else 0) else 0))"
        by (intro sum.cong) (auto simp: adm1 e_pair_def)
      also have "\<dots> = (\<Sum>u < BATCH_SIZE. count (mset (adm ci st u)) p) + (if e_pair e = p then 1 else 0)"
        using t(1) by (simp add: sum.distrib sum.delta)
      finally show ?thesis .
    qed
    have pos: "0 < unat (e_backlog e)" using ve by (simp add: valid_edge_def unat_gt_0)
    have "req_ok {b} ?f (ss_cores st' ci)" using req_ok_tl [OF r, of b es] by (simp add: req_ok_def c')
    moreover have "room_ok ci qi qo (Suc (size (bag ?f))) st'" using room by (simp add: sm bag)
    moreover have "slots_ok strict ci st'" using sl' by (simp add: frame_core [OF fr])
    moreover have "late_ok ?f (cbs ci st')"
      using mono by (intro late_ok_mono [OF lt]) (auto simp: fb c' split: if_splits)
    moreover have "edges_ok strict ci qi [] ?f st'" using ed bN fb by (auto simp: edges_ok_def sm c')
    moreover have "total_units ci qi qo (bag ?f) st' p + (if e_pair e = p then unat (e_backlog e) - 1 else 0) = Q p" for p
      using fun_cong [OF tot, of p] pos by (simp add: total_units_def sm bag cnt split: if_splits)
    moreover have "add_mset (e_pair e) (flows ci qi qo (bag ?f) st') = K" using fl by (simp add: flows_def sm bag)
    moreover have "\<not> avail (cbs ci st') (e_src e) (e_dst e) u" if "u \<le> t" for u
      using mono t(4) that unfolding c' by (metis le_neq_implies_less)
    ultimately have "taken strict ci qi qo Q K xs b ?f e t st'" using mk ve by (simp add: taken_def sm)
    moreover have "keeps_core b ci st st'"
      using t(3) adm1 by (auto simp: keeps_core_def c' mask sm avail_def)
    moreover have "tried ci qo st st'" by (rule tried_same) (use mono in \<open>simp_all add: sm c'\<close>)
    ultimately show ?thesis by (simp add: st'_def)
  qed
  then show ?thesis using t bt run unfolding Let_def t_def e_pair_def by blast
qed

lemma entry_ok:
  assumes inv: "binv strict ci qi qo Q K xs [] {b} f st" and ne: "qi \<noteq> qo" and b: "b < N_REQ - 1"
    and fb: "f b = e # es" and get: "bin_get (co_new_request_bins (ss_cores st ci) b) i = e"
  shows "\<exists>st' f'. try_allocation_entry ci qo b i st = Some st' \<and> binv strict ci qi qo Q K xs [] {b} f' st'
    \<and> f' b = es \<and> keeps_core b ci st st' \<and> tried ci qo st st'"
proof -
  have bN: "b < N_REQ" using b by simp
  have ve: "valid_edge strict e" using inv bN fb by (auto simp: binv_def edges_ok_def)
  then obtain m where m: "batch_state_get_avail_bitmap (cbs ci st) (e_src e) (e_dst e) = Some m"
    "\<forall>t. bit m t \<longleftrightarrow> avail (cbs ci st) (e_src e) (e_dst e) t"
    using get_avail_bitmap_spec [of "e_src e" "e_dst e" "cbs ci st"] unfolding valid_edge_def by blast
  show ?thesis
  proof (cases "m = 0")
    case True
    let ?s = "core_log ci adm_algo_log_no_available_timeslots_for_bin_entry st"
    have "binv strict ci qi qo Q K xs [] {b} f ?s" using inv by simp
    from entry_out [OF this ne bN _ fb] obtain st' where st': "core_enqueue_to_q_out_edge ci qo e ?s = Some st'"
      "binv strict ci qi qo Q K xs [] {b} (f(b := es)) st'" "keeps_core b ci ?s st'"
      "v_out ci qo st' = v_out ci qo ?s @ [e]" "cbs ci st' = cbs ci ?s" by blast
    have eta: "\<lparr>e_src = e_src e, e_dst = e_dst e, e_backlog = e_backlog e, e_metric = e_metric e\<rparr> = e" by simp
    have "core_enqueue_to_q_out ci qo (e_src e) (e_dst e) (e_backlog e) (e_metric e) ?s = Some st'"
      using st'(1) unfolding core_enqueue_to_q_out_eq eta .
    then have "try_allocation_entry ci qo b i st = Some st'"
      using True by (simp add: try_allocation_entry_def get try_allocation_def m(1) Let_def)
    moreover have "keeps_core b ci st st'"
      using keeps_core_trans [OF keeps_core_frame st'(3)] by simp
    moreover have "tried ci qo st st'"
      using st'(4,5) m(2) True ve by (simp add: tried_def no_slot_def valid_edge_def frame_core [OF frame_core_log])
    ultimately show ?thesis using st'(2) by (metis fun_upd_same)
  next
    case False
    from taken_ok [OF inv b fb m(2) False] obtain t bs ad where t: "t < BATCH_SIZE" "b < NUM_BINS + t"
      "take_bit BATCH_SHIFT (ffs m) = t"
      and run: "batch_state_set_occupied_conditional (cbs ci st) (e_src e) (e_dst e) t (m AND - m) = Some bs"
        "insert_admitted_edge (ss_adms st (co_admitted (ss_cores st ci) t)) (e_src e) (e_dst e) = Some ad"
      and tk: "\<And>g. taken strict ci qi qo Q K xs b (f(b := es)) e t
           (core_log ci g ((upd_core ci (co_batch_state_update (\<lambda>_. bs)) st)
                  \<lparr>ss_adms := (ss_adms st)(co_admitted (ss_cores st ci) t := ad)\<rparr>))"
        "\<And>g. keeps_core b ci st (core_log ci g ((upd_core ci (co_batch_state_update (\<lambda>_. bs)) st)
                  \<lparr>ss_adms := (ss_adms st)(co_admitted (ss_cores st ci) t := ad)\<rparr>))"
        "\<And>g. tried ci qo st (core_log ci g ((upd_core ci (co_batch_state_update (\<lambda>_. bs)) st)
                  \<lparr>ss_adms := (ss_adms st)(co_admitted (ss_cores st ci) t := ad)\<rparr>))"
      unfolding Let_def by blast
    let ?T = "\<lambda>g. core_log ci g ((upd_core ci (co_batch_state_update (\<lambda>_. bs)) st)
                  \<lparr>ss_adms := (ss_adms st)(co_admitted (ss_cores st ci) t := ad)\<rparr>)"
    let ?metric = "new_metric_after_alloc t (ss_cores st ci)"
    show ?thesis
    proof (cases "e_backlog e - 1 = 0")
      case True
      then have one: "e_backlog e = 1" by simp
      obtain st' where st': "core_enqueue_to_q_spent ci (e_src e) (e_dst e) ?metric (?T adm_log_allocator_no_backlog) = Some st'"
        "binv strict ci qi qo Q K xs [] {b} (f(b := es)) st'" "keeps_core b ci (?T adm_log_allocator_no_backlog) st'"
        "tried ci qo (?T adm_log_allocator_no_backlog) st'"
        using spend_ok [OF tk(1) [of adm_log_allocator_no_backlog] one, of ?metric] by blast
      have "try_allocation_entry ci qo b i st = Some st'"
        using st'(1) False by (simp add: try_allocation_entry_def get try_allocation_def m(1) t(3) run one Let_def)
      then show ?thesis using st'(2) keeps_core_trans [OF tk(2) st'(3)] tried_trans [OF tk(3) st'(4)] by (metis fun_upd_same)
    next
      case more: False
      let ?e' = "\<lparr>e_src = e_src e, e_dst = e_dst e, e_backlog = e_backlog e - 1, e_metric = ?metric\<rparr>"
      let ?g = "\<lambda>s. adm_log_allocated_backlog_remaining s (ucast (e_backlog e - 1))"
      have e': "e_pair ?e' = e_pair e" "e_backlog ?e' = e_backlog e - 1" "e_backlog ?e' \<noteq> 0"
        using more by (simp_all add: e_pair_def)
      obtain st' f' where st': "request_bin_add ci (NUM_BINS + t) ?e' (?T ?g) = Some st'"
        "binv strict ci qi qo Q K xs [] {b} f' st'" "f' b = (f(b := es)) b" "keeps_core b ci (?T ?g) st'"
        "tried ci qo (?T ?g) st'"
        using requeue_ok [OF tk(1) [of ?g] t(1,2) e'] by blast
      have "try_allocation_entry ci qo b i st = Some st'"
        using st'(1) False more
        by (simp add: try_allocation_entry_def get try_allocation_def m(1) t(3) run bin_after_alloc_def Let_def)
      then show ?thesis using st'(2,3) keeps_core_trans [OF tk(2) st'(4)] tried_trans [OF tk(3) st'(5)] by (metis fun_upd_same)
    qed
  qed
qed

end
