(* ===== verification/Alloc_Loop.thy ===== *)
theory Alloc_Loop
  imports Alloc_Step
begin

text \<open>
  The loops of the allocator: a bin of requests, all the bins that are allowed, the bins taken in from the
  rings, and the bins handed on without a look at them.
\<close>

section \<open>What a batch does not touch\<close>

definition keeps_run :: "nat \<Rightarrow> status \<Rightarrow> status \<Rightarrow> bool" where
  "keeps_run ci st st' \<longleftrightarrow>
     co_allowed_bins (ss_cores st' ci) = co_allowed_bins (ss_cores st ci)
     \<and> co_admitted (ss_cores st' ci) = co_admitted (ss_cores st ci)
     \<and> co_current_timeslot (ss_cores st' ci) = co_current_timeslot (ss_cores st ci)
     \<and> bs_allowed_mask (cbs ci st') = bs_allowed_mask (cbs ci st)
     \<and> ss_q_admitted_out st' = ss_q_admitted_out st \<and> ss_admitted_traffic_mempool st' = ss_admitted_traffic_mempool st
     \<and> (\<forall>u < BATCH_SIZE. \<not> slot_allowed (cbs ci st) u \<longrightarrow> adm ci st' u = adm ci st u)"

lemma keeps_run_refl [simp]: "keeps_run ci st st"
  by (simp add: keeps_run_def)

lemma keeps_run_trans: "keeps_run ci st st1 \<Longrightarrow> keeps_run ci st1 st2 \<Longrightarrow> keeps_run ci st st2"
  unfolding keeps_run_def slot_allowed_def by auto

lemma keeps_core_run: "keeps_core b ci st st' \<Longrightarrow> keeps_run ci st st'"
  by (simp add: keeps_core_def keeps_run_def)

lemma keeps_run_frame: "frame ci st st' \<Longrightarrow> keeps_run ci st st'"
  by (simp add: keeps_run_def frame_core)

section \<open>A bin of requests\<close>

lemma try_allocation_bin_ok:
  assumes inv: "binv strict ci qi qo Q K xs [] {b} f st" and ne: "qi \<noteq> qo" and b: "b < N_REQ - 1"
    and fb: "f b = bin_list (co_new_request_bins (ss_cores st ci) b)"
  shows "returns (try_allocation_bin ci qo b st)
    (\<lambda>st'. \<exists>f'. binv strict ci qi qo Q K xs [] {b} f' st' \<and> f' b = [] \<and> keeps_core b ci st st' \<and> tried ci qo st st')"
proof -
  let ?bin = "co_new_request_bins (ss_cores st ci) b"
  let ?n = "unat (bin_size ?bin)"
  define L where "L = bin_list ?bin"
  have L: "L = map (bin_get ?bin) [0 ..< ?n]" by (simp add: L_def map_bin_get)
  define I where "I ys s \<longleftrightarrow> (\<exists>k f. k \<le> ?n \<and> ys = [k ..< ?n] \<and> binv strict ci qi qo Q K xs [] {b} f s \<and> f b = drop k L
    \<and> keeps_core b ci st s \<and> tried ci qo st s)" for ys s
  have "returns (for_each (try_allocation_entry ci qo b) [0 ..< ?n] st) (I [])"
  proof (rule returns_for_each)
    show "I [0 ..< ?n] st" using inv fb by (auto simp: I_def L_def intro!: exI [of _ 0] exI [of _ f])
    fix y ys s assume "I (y # ys) s"
    then obtain k g where k: "k \<le> ?n" "y # ys = [k ..< ?n]" and g: "binv strict ci qi qo Q K xs [] {b} g s" "g b = drop k L"
      and kp: "keeps_core b ci st s" "tried ci qo st s" by (auto simp: I_def)
    have kn: "k < ?n" "y = k" "ys = [Suc k ..< ?n]" using k(2) [symmetric] by (auto simp: upt_eq_Cons_conv)
    have "g b = bin_get ?bin k # drop (Suc k) L" using g(2) kn(1) by (simp add: L Cons_nth_drop_Suc [symmetric])
    moreover have "bin_get (co_new_request_bins (ss_cores s ci) b) k = bin_get ?bin k" using kp(1) by (simp add: keeps_core_def)
    ultimately obtain s' g' where s': "try_allocation_entry ci qo b k s = Some s'"
      "binv strict ci qi qo Q K xs [] {b} g' s'" "g' b = drop (Suc k) L" "keeps_core b ci s s'" "tried ci qo s s'"
      using entry_ok [OF g(1) ne b] by blast
    have "I ys s'" unfolding I_def using s' kn keeps_core_trans [OF kp(1) s'(4)] tried_trans [OF kp(2) s'(5)] by (intro exI [of _ "Suc k"] exI [of _ g']) simp
    then show "returns (try_allocation_entry ci qo b y s) (I ys)" using s'(1) kn(2) by (simp add: returns_def)
  qed
  then show ?thesis
    unfolding try_allocation_bin_def
  proof (rule returns_mono)
    fix s assume "I [] s"
    then obtain k g where "k \<le> ?n" "[] = [k ..< ?n]" "binv strict ci qi qo Q K xs [] {b} g s" "g b = drop k L" "keeps_core b ci st s" "tried ci qo st s"
      unfolding I_def by blast
    moreover from this have "drop k L = []" by (simp add: L drop_map drop_upt)
    ultimately show "\<exists>f'. binv strict ci qi qo Q K xs [] {b} f' s \<and> f' b = [] \<and> keeps_core b ci st s \<and> tried ci qo st s" by auto
  qed
qed

text \<open>One round of the loop over the bins: the lowest allowed bin is emptied, and only higher ones grow.\<close>

lemma try_allocation_round_ok:
  assumes inv: "binv strict ci qi qo Q K xs [] {} f st" and ne: "qi \<noteq> qo"
    and msk: "msk = co_non_empty_bins (ss_cores st ci) 0 AND allowed" "msk \<noteq> 0" "\<forall>i. bit allowed i \<longrightarrow> i < N_REQ - 1"
  shows "returns (try_allocation_round ci qo 0 msk st)
    (\<lambda>st'. (\<exists>f'. binv strict ci qi qo Q K xs [] {} f' st') \<and> keeps_run ci st st' \<and> tried ci qo st st'
       \<and> (\<forall>j. bit (co_non_empty_bins (ss_cores st' ci) 0 AND allowed) j \<longrightarrow> ffs msk < j))"
proof -
  let ?b = "ffs msk"
  have bm: "bit msk ?b" "\<And>j. bit msk j \<Longrightarrow> ?b \<le> j" using bit_ffs [OF msk(2)] ffs_le [OF msk(2)] by blast+
  have b: "?b < N_REQ - 1" using bm(1) msk(1,3) by (simp add: bit_and_iff)
  then have bN: "?b < N_REQ" by simp
  define s1 where "s1 = upd_core ci (\<lambda>core. core\<lparr>co_non_empty_bins :=
       (co_non_empty_bins core)(0 := co_non_empty_bins core 0 XOR (msk AND - msk))\<rparr>) st"
  have sm1: "same_mem ci st s1" by (simp add: s1_def same_mem_upd_core)
  have c1: "co_new_request_bins (ss_cores s1 ci) = co_new_request_bins (ss_cores st ci)" "cbs ci s1 = cbs ci st"
    "co_allowed_bins (ss_cores s1 ci) = co_allowed_bins (ss_cores st ci)" "adm ci s1 = adm ci st"
    "co_admitted (ss_cores s1 ci) = co_admitted (ss_cores st ci)"
    "co_current_timeslot (ss_cores s1 ci) = co_current_timeslot (ss_cores st ci)"
    "ss_q_admitted_out s1 = ss_q_admitted_out st" "ss_admitted_traffic_mempool s1 = ss_admitted_traffic_mempool st"
    by (simp_all add: s1_def adm_def [abs_def])
  have ne1: "bit (co_non_empty_bins (ss_cores s1 ci) 0) j \<longleftrightarrow> bit (co_non_empty_bins (ss_cores st ci) 0) j \<and> j \<noteq> ?b" for j
    using bit_lowest [OF msk(2), of j] bm(1) by (auto simp: s1_def bit_xor_iff bit_and_iff msk(1))
  have r: "req_ok {} f (ss_cores st ci)" using inv by (simp add: binv_def)
  have "req_ok {?b} f (ss_cores s1 ci)" using r by (auto simp: req_ok_def c1 ne1)
  moreover have "slots_ok strict ci s1" using inv by (simp add: binv_def slots_ok_def c1)
  ultimately have inv1: "binv strict ci qi qo Q K xs [] {?b} f s1"
    using inv by (simp add: binv_def edges_ok_def total_units_def [abs_def] flows_def same_memD [OF sm1] c1)
  have k1: "keeps_run ci st s1" by (simp add: keeps_run_def c1)
  define s2 where "s2 = core_log ci (\<lambda>s. adm_log_processed_core_bin s (of_nat ?b)
                (ucast (bin_size (co_new_request_bins (ss_cores s1 ci) ?b)))) s1"
  have inv2: "binv strict ci qi qo Q K xs [] {?b} f s2" using inv1 by (simp add: s2_def)
  have fr2: "frame ci s1 s2" by (simp add: s2_def)
  have fb: "f ?b = bin_list (co_new_request_bins (ss_cores s2 ci) ?b)"
    using r bN by (simp add: req_ok_def frame_core [OF fr2] c1)
  obtain s3 f' where s3: "try_allocation_bin ci qo ?b s2 = Some s3" "binv strict ci qi qo Q K xs [] {?b} f' s3" "f' ?b = []"
    "keeps_core ?b ci s2 s3" "tried ci qo s2 s3"
    using try_allocation_bin_ok [OF inv2 ne b fb] by (auto elim: returnsE)
  define s4 where "s4 = upd_core ci (\<lambda>core. core\<lparr>co_new_request_bins :=
       (co_new_request_bins core)(?b := init_bin (co_new_request_bins core ?b))\<rparr>) s3"
  have sm4: "same_mem ci s3 s4" by (simp add: s4_def same_mem_upd_core)
  have c4: "cbs ci s4 = cbs ci s3" "co_allowed_bins (ss_cores s4 ci) = co_allowed_bins (ss_cores s3 ci)" "adm ci s4 = adm ci s3"
    "co_admitted (ss_cores s4 ci) = co_admitted (ss_cores s3 ci)"
    "co_non_empty_bins (ss_cores s4 ci) = co_non_empty_bins (ss_cores s3 ci)"
    "co_current_timeslot (ss_cores s4 ci) = co_current_timeslot (ss_cores s3 ci)"
    "ss_q_admitted_out s4 = ss_q_admitted_out s3" "ss_admitted_traffic_mempool s4 = ss_admitted_traffic_mempool s3"
    by (simp_all add: s4_def adm_def [abs_def])
  have "req_ok {} f' (ss_cores s4 ci)" using s3(2,3) by (auto simp: binv_def req_ok_def s4_def)
  moreover have "slots_ok strict ci s4" using s3(2) by (simp add: binv_def slots_ok_def c4)
  ultimately have inv4: "binv strict ci qi qo Q K xs [] {} f' s4"
    using s3(2) by (simp add: binv_def edges_ok_def total_units_def [abs_def] flows_def same_memD [OF sm4] c4)
  have "keeps_run ci s3 s4" by (simp add: keeps_run_def c4)
  then have "keeps_run ci st s4"
    using k1 keeps_run_frame [OF fr2] keeps_core_run [OF s3(4)] keeps_run_trans by blast
  moreover have "tried ci qo st s4"
  proof -
    have "tried ci qo st s1" by (rule tried_same) (simp_all add: same_memD [OF sm1] c1)
    moreover have "tried ci qo s1 s2" by (simp add: s2_def)
    moreover have "tried ci qo s3 s4" by (rule tried_same) (simp_all add: same_memD [OF sm4] c4)
    ultimately show ?thesis using s3(5) tried_trans by blast
  qed
  moreover have "?b < j" if j: "bit (co_non_empty_bins (ss_cores s4 ci) 0 AND allowed) j" for j
  proof -
    have "bit (co_non_empty_bins (ss_cores s2 ci) 0) j \<or> ?b < j" using j s3(4) by (auto simp: keeps_core_def c4 bit_and_iff)
    then show ?thesis
    proof
      assume "bit (co_non_empty_bins (ss_cores s2 ci) 0) j"
      then have "bit msk j" "j \<noteq> ?b" using j by (simp_all add: frame_core [OF fr2] ne1 msk(1) bit_and_iff)
      then show ?thesis using bm(2) by (metis le_neq_implies_less)
    qed
  qed
  moreover have "try_allocation_round ci qo 0 msk st = Some s4"
    by (simp add: try_allocation_round_def Let_def s1_def [symmetric] s2_def [symmetric] s3(1) s4_def)
  ultimately show ?thesis using inv4 by auto
qed

text \<open>The loop ends: the lowest bin grows in every round.\<close>

lemma try_allocation_loop_ok:
  assumes "binv strict ci qi qo Q K xs [] {} f st" and ne: "qi \<noteq> qo" and al: "\<forall>i. bit allowed i \<longrightarrow> i < N_REQ - 1"
    and "\<forall>j. bit (co_non_empty_bins (ss_cores st ci) 0 AND allowed) j \<longrightarrow> 64 - n \<le> j" and "n \<le> 64"
  shows "returns (try_allocation_loop ci qo 0 allowed st)
    (\<lambda>st'. (\<exists>f'. binv strict ci qi qo Q K xs [] {} f' st') \<and> keeps_run ci st st' \<and> tried ci qo st st'
       \<and> co_non_empty_bins (ss_cores st' ci) 0 AND allowed = 0)"
  using assms(1,4,5)
proof (induction n arbitrary: f st)
  case 0
  then have "co_non_empty_bins (ss_cores st ci) 0 AND allowed = 0"
    by (intro bit_eqI) (use bit_imp_le_length in fastforce)
  then show ?case using 0 by (auto simp: try_allocation_loop.simps)
next
  case (Suc n)
  define msk where "msk = co_non_empty_bins (ss_cores st ci) 0 AND allowed"
  show ?case
  proof (cases "msk = 0")
    case True
    then show ?thesis using Suc.prems(1) by (auto simp: try_allocation_loop.simps msk_def)
  next
    case False
    obtain s1 f1 where s1: "try_allocation_round ci qo 0 msk st = Some s1" "binv strict ci qi qo Q K xs [] {} f1 s1"
      "keeps_run ci st s1" "tried ci qo st s1" "\<forall>j. bit (co_non_empty_bins (ss_cores s1 ci) 0 AND allowed) j \<longrightarrow> ffs msk < j"
      using try_allocation_round_ok [OF Suc.prems(1) ne msk_def False al] by (auto elim: returnsE)
    have "64 - Suc n \<le> ffs msk" using Suc.prems(2) bit_ffs [OF False] by (simp add: msk_def)
    then have "\<forall>j. bit (co_non_empty_bins (ss_cores s1 ci) 0 AND allowed) j \<longrightarrow> 64 - n \<le> j"
      using s1(5) Suc.prems(3) by fastforce
    then have "returns (try_allocation_loop ci qo 0 allowed s1)
      (\<lambda>st'. (\<exists>f'. binv strict ci qi qo Q K xs [] {} f' st') \<and> keeps_run ci s1 st' \<and> tried ci qo s1 st'
       \<and> co_non_empty_bins (ss_cores st' ci) 0 AND allowed = 0)"
      using Suc.IH [OF s1(2)] Suc.prems(3) by simp
    then have "returns (try_allocation_loop ci qo 0 allowed s1)
      (\<lambda>st'. (\<exists>f'. binv strict ci qi qo Q K xs [] {} f' st') \<and> keeps_run ci st st' \<and> tried ci qo st st'
       \<and> co_non_empty_bins (ss_cores st' ci) 0 AND allowed = 0)"
      by (rule returns_mono) (use keeps_run_trans [OF s1(3)] tried_trans [OF s1(4)] in blast)
    then show ?thesis
      using False s1(1) by (subst try_allocation_loop.simps) (simp add: msk_def [symmetric] Let_def)
  qed
qed

lemma try_allocation_core_ok:
  assumes inv: "binv strict ci qi qo Q K xs [] {} f st" and ne: "qi \<noteq> qo"
    and al: "\<forall>i. bit (co_allowed_bins (ss_cores st ci) 0) i \<longrightarrow> i < N_REQ - 1"
  shows "returns (try_allocation_core ci qo st)
    (\<lambda>st'. (\<exists>f'. binv strict ci qi qo Q K xs [] {} f' st') \<and> keeps_run ci st st' \<and> tried ci qo st st'
       \<and> co_non_empty_bins (ss_cores st' ci) 0 AND co_allowed_bins (ss_cores st ci) 0 = 0)"
proof -
  have "returns (try_allocation_loop ci qo 0 (co_allowed_bins (ss_cores st ci) 0) st)
    (\<lambda>st'. (\<exists>f'. binv strict ci qi qo Q K xs [] {} f' st') \<and> keeps_run ci st st' \<and> tried ci qo st st'
       \<and> co_non_empty_bins (ss_cores st' ci) 0 AND co_allowed_bins (ss_cores st ci) 0 = 0)"
    using try_allocation_loop_ok [OF inv ne al, of 64] by simp
  moreover have "[0 ..< BIN_MASK_SIZE] = [0]" by (simp add: BIN_MASK_SIZE_def NUM_BINS_def BATCH_SIZE_def)
  ultimately show ?thesis by (auto simp: try_allocation_core_def elim!: returnsE)
qed

end
