(* ===== verification/Alloc_Input.thy ===== *)
theory Alloc_Input
  imports Alloc_Loop
begin

text \<open>
  The bins that a core takes in during a batch, from \<open>q_head\<close> and from the ring of the core before it, and
  those it hands on without a look at them.
\<close>

section \<open>A bin goes back to the pool\<close>

lemma frame_pool [simp]:
  "waiting (st\<lparr>ss_bin_mempool := mp\<rparr>) as = waiting st as" "waiting (st\<lparr>ss_q_head := q\<rparr>) as = waiting st as"
  "waiting (st\<lparr>ss_q_bin := qs\<rparr>) as = waiting st as"
  "out_open ci (st\<lparr>ss_bin_mempool := mp\<rparr>) = out_open ci st" "spent_open ci (st\<lparr>ss_bin_mempool := mp\<rparr>) = spent_open ci st"
  "out_open ci (st\<lparr>ss_q_head := q\<rparr>) = out_open ci st" "spent_open ci (st\<lparr>ss_q_head := q\<rparr>) = spent_open ci st"
  "out_open ci (st\<lparr>ss_q_bin := qs\<rparr>) = out_open ci st" "spent_open ci (st\<lparr>ss_q_bin := qs\<rparr>) = spent_open ci st"
  "frame ci st (st\<lparr>ss_bin_mempool := mp\<rparr>)" "frame ci st (st\<lparr>ss_q_head := q\<rparr>)" "frame ci st (st\<lparr>ss_q_bin := qs\<rparr>)"
  by (simp_all add: waiting_def out_open_def spent_open_def frame_def core_same_def)

lemma put_back:
  assumes inv: "binv strict ci qi qo Q K (a # as) R {} f st"
  shows "\<exists>mp. fp_mempool_put (ss_bin_mempool st) a = Some mp \<and> binv strict ci qi qo Q K as R {} f (st\<lparr>ss_bin_mempool := mp\<rparr>)"
proof -
  have m: "mem_ok ci qi qo (a # as) st" using inv by (simp add: binv_def)
  have "length (mp_list (ss_bin_mempool st)) < unat (mp_total (ss_bin_mempool st))"
    using m by (simp add: mem_ok_def own_def)
  then have "mp_cur (ss_bin_mempool st) < mp_total (ss_bin_mempool st)" unfolding length_mp_list word_less_nat_alt .
  from fp_mempool_put_spec [OF this, of a] obtain mp where mp: "fp_mempool_put (ss_bin_mempool st) a = Some mp" "mp_inv mp"
    "mp_total mp = mp_total (ss_bin_mempool st)" "mp_list mp = mp_list (ss_bin_mempool st) @ [a]"
    by blast
  define s where "s = st\<lparr>ss_bin_mempool := mp\<rparr>"
  have fr: "frame ci st s" by (simp add: s_def)
  note fc = frame_core [OF fr]
  have v: "ss_q_head s = ss_q_head st" "ss_q_spent s = ss_q_spent st" "ss_q_bin s = ss_q_bin st" "ss_bins s = ss_bins st"
    "waiting s = waiting st" "v_out ci qo s = v_out ci qo st" "v_spent ci s = v_spent ci st"
    "open_size (out_open ci) s = open_size (out_open ci) st" "open_size (spent_open ci) s = open_size (spent_open ci) st"
    "pool_size s = Suc (pool_size st)" "out_open ci s = out_open ci st" "spent_open ci s = spent_open ci st"
    "ss_new_demands s = ss_new_demands st" "ss_bin_mempool s = mp"
    by (simp_all add: s_def stream_list_def out_ring_def open_size_def pool_size_def mp(4) fun_eq_iff)
  have perm: "mset (as @ own ci qi qo s) = mset (a # as @ own ci qi qo st)"
    by (simp add: own_def v mp(4))
  have "mem_ok ci qi qo as s"
    using m mp(2,3) mset_eq_setD [OF perm] mset_eq_length [OF perm] mset_eq_imp_distinct_iff [OF perm]
    by (simp add: mem_ok_def v)
  moreover have "room_ok ci qi qo (size (bag f) + length R) s" using inv by (simp add: binv_def room_ok_def Let_def v)
  moreover have "edges_ok strict ci qi R f s" using inv by (simp add: binv_def edges_ok_def v fc)
  ultimately have "binv strict ci qi qo Q K as R {} f s"
    using inv by (simp add: binv_def total_units_def [abs_def] flows_def v fc)
  then show ?thesis using mp(1) by (auto simp: s_def)
qed

section \<open>Sorting a bin in\<close>

lemma take_in_bin_ok:
  assumes inv: "binv strict ci qi qo Q K (a # as) (bin_list (ss_bins st a) @ R) {} f st"
  shows "returns (take_in_bin ci a st)
    (\<lambda>st'. (\<exists>f'. binv strict ci qi qo Q K as R {} f' st') \<and> keeps_run ci st st' \<and> ss_bins st' = ss_bins st)"
proof -
  let ?bin = "ss_bins st a"
  let ?n = "unat (bin_size ?bin)"
  define L where "L = bin_list ?bin"
  have L: "L = map (bin_get ?bin) [0 ..< ?n]" by (simp add: L_def map_bin_get)
  define I where "I ys s \<longleftrightarrow> (\<exists>k f. k \<le> ?n \<and> ys = [k ..< ?n] \<and> binv strict ci qi qo Q K (a # as) (drop k L @ R) {} f s
    \<and> keeps_run ci st s \<and> ss_bins s = ss_bins st)" for ys s
  have "returns (for_each (\<lambda>i s. incoming_edge ci (bin_get (ss_bins s a) i) s) [0 ..< ?n] st) (I [])"
  proof (rule returns_for_each)
    show "I [0 ..< ?n] st" using inv by (auto simp: I_def L_def intro!: exI [of _ 0] exI [of _ f])
    fix y ys s assume "I (y # ys) s"
    then obtain k g where k: "k \<le> ?n" "y # ys = [k ..< ?n]" and g: "binv strict ci qi qo Q K (a # as) (drop k L @ R) {} g s"
      and kp: "keeps_run ci st s" "ss_bins s = ss_bins st" unfolding I_def by blast
    have kn: "k < ?n" "y = k" "ys = [Suc k ..< ?n]" using k(2) [symmetric] by (auto simp: upt_eq_Cons_conv)
    have "drop k L = bin_get ?bin k # drop (Suc k) L" using kn(1) by (simp add: L Cons_nth_drop_Suc [symmetric])
    with g have "binv strict ci qi qo Q K (a # as) (bin_get ?bin k # (drop (Suc k) L @ R)) {} g s" by simp
    from incoming_edge_ok [OF this] obtain s' g' where s': "incoming_edge ci (bin_get ?bin k) s = Some s'"
      "binv strict ci qi qo Q K (a # as) (drop (Suc k) L @ R) {} g' s'" and sm: "same_mem ci s s'"
      and rest: "keeps_run ci s s'" by (auto simp: keeps_run_def adm_def)
    have "I ys s'" unfolding I_def using s' kn keeps_run_trans [OF kp(1) rest] sm kp(2)
      by (intro exI [of _ "Suc k"] exI [of _ g']) (simp add: same_mem_def)
    then show "returns (incoming_edge ci (bin_get (ss_bins s a) y) s) (I ys)" using s'(1) kn(2) kp(2) by (simp add: returns_def)
  qed
  then obtain s where s: "incoming_bin_to_core ci a st = Some s" "I [] s"
    unfolding incoming_bin_to_core_def by (auto elim: returnsE)
  then obtain k g where k: "k \<le> ?n" "[] = [k ..< ?n]" and g: "binv strict ci qi qo Q K (a # as) (drop k L @ R) {} g s"
      and kp: "keeps_run ci st s" "ss_bins s = ss_bins st" unfolding I_def by blast
  have "drop k L = []" using k by (simp add: L drop_map drop_upt)
  with g have "binv strict ci qi qo Q K (a # as) R {} g s" by simp
  from put_back [OF this] obtain mp where mp: "fp_mempool_put (ss_bin_mempool s) a = Some mp"
    "binv strict ci qi qo Q K as R {} g (s\<lparr>ss_bin_mempool := mp\<rparr>)" by blast
  have "keeps_run ci st (s\<lparr>ss_bin_mempool := mp\<rparr>)" using keeps_run_trans [OF kp(1) keeps_run_frame] by simp
  then show ?thesis using s(1) mp kp(2) by (auto simp: take_in_bin_def)
qed

lemma length_waiting: "\<forall>a \<in> set as. small_bin (ss_bins st a) \<Longrightarrow> length (waiting st as) \<le> 32 * length as"
  using small_bin_length by (induction as) (force simp: SMALL_BIN_SIZE_def)+

lemma mset_waiting: "mset (waiting st as) = (\<Sum>a \<in># mset as. mset (bin_list (ss_bins st a)))"
  by (induction as) simp_all

text \<open>Bins taken off the ring of new demands, or off the ring of the core, wait to be sorted in.\<close>

lemma off_rings:
  assumes inv: "binv strict ci qi qo Q K [] [] {} f st" and fr: "frame ci st s"
    and same: "ss_q_spent s = ss_q_spent st" "ss_q_bin s qo = ss_q_bin st qo" "ss_bins s = ss_bins st"
      "ss_bin_mempool s = ss_bin_mempool st" "out_open ci s = out_open ci st" "spent_open ci s = spent_open ci st"
    and rings: "ring_inv (ss_q_head s)" "ring_inv (ss_q_bin s qi)"
      "mset (ring_list (ss_q_head st) @ ring_list (ss_q_bin st qi)) = mset (as @ ring_list (ss_q_head s) @ ring_list (ss_q_bin s qi))"
  shows "binv strict ci qi qo Q K as (waiting st as) {} f s"
proof -
  have m: "mem_ok ci qi qo [] st" and room: "room_ok ci qi qo (size (bag f)) st" and ed: "edges_ok strict ci qi [] f st"
    and tot: "total_units ci qi qo (bag f) st = Q" and fl: "flows ci qi qo (bag f) st = K"
    using inv by (simp_all add: binv_def)
  note fc = frame_core [OF fr]
  have v: "waiting s = waiting st" "v_out ci qo s = v_out ci qo st" "v_spent ci s = v_spent ci st"
    "open_size (out_open ci) s = open_size (out_open ci) st" "open_size (spent_open ci) s = open_size (spent_open ci) st"
    "pool_size s = pool_size st" "ss_new_demands s = ss_new_demands st"
    using fr by (simp_all add: stream_list_def out_ring_def open_size_def pool_size_def fun_eq_iff waiting_def same frame_def)
  have perm: "mset (as @ own ci qi qo s) = mset ([] @ own ci qi qo st)"
    using rings(3) by (simp add: own_def v same)
  have "mset (waiting st (ring_list (ss_q_head st) @ ring_list (ss_q_bin st qi)))
      = mset (waiting st (as @ ring_list (ss_q_head s) @ ring_list (ss_q_bin s qi)))"
    unfolding mset_waiting rings(3) ..
  then have split: "mset (v_head st) + mset (v_in qi st) = mset (waiting st as) + (mset (v_head s) + mset (v_in qi s))"
    by (simp add: v ac_simps)
  have sets: "set (v_head st) \<union> set (v_in qi st) = set (waiting st as) \<union> (set (v_head s) \<union> set (v_in qi s))"
    using arg_cong [OF split, of set_mset] by simp
  have len: "length (ring_list (ss_q_head st)) + length (ring_list (ss_q_bin st qi))
      = length as + (length (ring_list (ss_q_head s)) + length (ring_list (ss_q_bin s qi)))"
    using mset_eq_length [OF rings(3)] by simp
  have "mem_ok ci qi qo as s"
    using m rings(1,2) mset_eq_setD [OF perm] mset_eq_length [OF perm] mset_eq_imp_distinct_iff [OF perm]
    by (simp add: mem_ok_def v same)
  moreover have "length (waiting st as) \<le> 32 * length as"
    using m mset_eq_setD [OF perm] by (intro length_waiting) (auto simp: mem_ok_def)
  then have "room_ok ci qi qo (size (bag f) + length (waiting st as)) s"
    using room len by (simp add: room_ok_def Let_def v same)
  moreover have "edges_ok strict ci qi (waiting st as) f s"
    using ed unfolding edges_ok_def fc sets by (simp add: Un_ac)
  moreover have "total_units ci qi qo (bag f + mset (waiting st as)) s p = Q p" for p
    using fun_cong [OF tot, of p] arg_cong [OF split, of "units p"] by (simp add: total_units_def v fc)
  moreover have "flows ci qi qo (bag f + mset (waiting st as)) s = K"
    using fl [symmetric] split by (simp add: flows_def v ac_simps)
  ultimately show ?thesis
    using inv by (simp add: binv_def fc fun_eq_iff)
qed

lemma process_new_requests_ok:
  assumes inv: "binv strict ci qi qo Q K [] [] {} f st"
  shows "returns (process_new_requests ci st)
    (\<lambda>(n, st'). (\<exists>f'. binv strict ci qi qo Q K [] [] {} f' st') \<and> keeps_run ci st st')"
proof -
  have "ring_inv (ss_q_head st)" using inv by (simp add: binv_def mem_ok_def)
  then obtain q where q: "fp_ring_dequeue_burst (ss_q_head st) RING_DEQUEUE_BURST_SIZE
      = (take RING_DEQUEUE_BURST_SIZE (ring_list (ss_q_head st)), q)" "ring_inv q" "ring_cap q = ring_cap (ss_q_head st)"
    "ring_list q = drop RING_DEQUEUE_BURST_SIZE (ring_list (ss_q_head st))"
    using fp_ring_dequeue_burst_spec by blast
  let ?as = "take RING_DEQUEUE_BURST_SIZE (ring_list (ss_q_head st))"
  define s0 where "s0 = st\<lparr>ss_q_head := q\<rparr>"
  have i0: "binv strict ci qi qo Q K ?as (waiting st ?as) {} f s0" 
    using inv by (intro off_rings [OF inv]) (simp_all add: s0_def binv_def mem_ok_def q(2), simp add: q(4) flip: mset_append)
  define I where "I as s \<longleftrightarrow> (\<exists>g. binv strict ci qi qo Q K as (waiting s as) {} g s) \<and> keeps_run ci st s" for as s
  have "returns (for_each (take_in_bin ci) ?as s0) (I [])"
  proof (rule returns_for_each)
    show "I ?as s0" using i0 by (auto simp: I_def s0_def keeps_run_frame)
    fix a as s assume "I (a # as) s"
    then obtain g where g: "binv strict ci qi qo Q K (a # as) (bin_list (ss_bins s a) @ waiting s as) {} g s" "keeps_run ci st s"
      by (auto simp: I_def)
    show "returns (take_in_bin ci a s) (I as)"
    proof (rule returns_mono [OF take_in_bin_ok [OF g(1)]])
      fix s' assume s': "(\<exists>f'. binv strict ci qi qo Q K as (waiting s as) {} f' s') \<and> keeps_run ci s s' \<and> ss_bins s' = ss_bins s"
      then have "waiting s' as = waiting s as" by (simp add: waiting_def)
      then show "I as s'" using s' keeps_run_trans [OF g(2)] by (auto simp: I_def)
    qed
  qed
  then obtain s where s: "for_each (take_in_bin ci) ?as s0 = Some s" "\<exists>g. binv strict ci qi qo Q K [] [] {} g s" "keeps_run ci st s"
    by (auto simp: I_def elim: returnsE)
  have "keeps_run ci st (core_log ci g s)" for g using keeps_run_trans [OF s(3) keeps_run_frame] by simp
  then show ?thesis
    using s(1,2) by (simp add: process_new_requests_def q(1) s0_def [symmetric] Let_def)
qed

section \<open>Bins handed on\<close>

lemma enqueue_each_head: "r_head (enqueue_each r es) = r_head r"
  by (induction es arbitrary: r) (auto simp: fp_ring_enqueue_def split: option.splits if_splits)

lemma bulk_room:
  assumes r: "ring_inv r" and h: "unat (r_head r) + ring_cap r + 16 < 2 ^ 32" and n: "length es \<le> 16"
    and room: "length es \<le> ring_free r"
  shows "\<exists>r'. fp_ring_enqueue_bulk r es = Some r' \<and> ring_inv r' \<and> ring_cap r' = ring_cap r
      \<and> ring_list r' = ring_list r @ es \<and> r_head r' = r_head r"
proof -
  have le: "unat (r_tail r - r_head r) \<le> ring_cap r" using ring_inv_le [OF r] by (simp add: ring_cap_def)
  have "unat (r_head r + (r_tail r - r_head r)) = unat (r_head r) + unat (r_tail r - r_head r)"
    using h le by (intro unat_add_lem [THEN iffD1]) simp
  then have t: "unat (r_tail r) = unat (r_head r) + unat (r_tail r - r_head r)" by simp
  have bulk: "length (ring_list r) + length es \<le> ring_cap r"
    using room ring_list_le_cap [OF r] by (simp add: ring_free_def)
  then have "fp_ring_enqueue_bulk r es = Some (enqueue_each r es)"
    using fp_ring_enqueue_bulk_spec [OF r, of es] h le n t
    by (auto simp: fp_ring_enqueue_bulk_def Let_def word_le_nat_alt split: if_splits)
  moreover have "take (ring_cap r - length (ring_list r)) es = es" using bulk by simp
  ultimately show ?thesis using enqueue_each_spec [OF r, of es] by (simp add: enqueue_each_head)
qed

text \<open>
  A burst moves bins from the ring of the core to the ring of the next one: what waits for the next core grows
  by what no longer waits for this one.
\<close>

definition handed_on :: "nat \<Rightarrow> nat \<Rightarrow> nat \<Rightarrow> nat \<Rightarrow> status \<Rightarrow> status \<Rightarrow> bool" where
  "handed_on ci qi qo n st s \<longleftrightarrow> frame ci st s \<and> mem_ok ci qi qo [] s
     \<and> ss_q_head s = ss_q_head st \<and> ss_q_spent s = ss_q_spent st \<and> ss_bins s = ss_bins st
     \<and> ss_bin_mempool s = ss_bin_mempool st \<and> out_open ci s = out_open ci st \<and> spent_open ci s = spent_open ci st
     \<and> mset (v_in qi st) + mset (v_out ci qo st) = mset (v_in qi s) + mset (v_out ci qo s)
     \<and> (\<exists>as. length as = n \<and> ring_list (ss_q_bin st qi) = as @ ring_list (ss_q_bin s qi))
     \<and> ring_free (ss_q_bin st qo) = n + ring_free (ss_q_bin s qo)
     \<and> ring_cap (ss_q_bin s qo) = ring_cap (ss_q_bin st qo) \<and> r_head (ss_q_bin s qo) = r_head (ss_q_bin st qo)"

lemma burst_mem:
  assumes m: "mem_ok ci qi qo [] st" and ne: "qi \<noteq> qo"
    and room: "length (ring_list (ss_q_bin st qi)) \<le> ring_free (ss_q_bin st qo)"
    and h: "unat (r_head (ss_q_bin st qo)) + ring_cap (ss_q_bin st qo) + 16 < 2 ^ 32"
  shows "returns (burst_q_in_to_q_out qi qo st) (\<lambda>(n, s). handed_on ci qi qo n st s)"
proof -
  have rings: "ring_inv (ss_q_bin st qi)" "ring_inv (ss_q_bin st qo)" using m by (simp_all add: mem_ok_def)
  let ?as = "take Q_IN_Q_OUT_BURST_SIZE (ring_list (ss_q_bin st qi))"
  obtain q where q: "fp_ring_dequeue_burst (ss_q_bin st qi) Q_IN_Q_OUT_BURST_SIZE = (?as, q)" "ring_inv q"
    "ring_list q = drop Q_IN_Q_OUT_BURST_SIZE (ring_list (ss_q_bin st qi))"
    using fp_ring_dequeue_burst_spec [OF rings(1)] by blast
  have split: "ring_list (ss_q_bin st qi) = ?as @ ring_list q" by (simp add: q(3))
  have "length ?as \<le> 16" "length ?as \<le> ring_free (ss_q_bin st qo)" using room by (simp_all add: Q_IN_Q_OUT_BURST_SIZE_def)
  from bulk_room [OF rings(2) h this] obtain r where r: "fp_ring_enqueue_bulk (ss_q_bin st qo) ?as = Some r" "ring_inv r"
    "ring_cap r = ring_cap (ss_q_bin st qo)" "ring_list r = ring_list (ss_q_bin st qo) @ ?as" "r_head r = r_head (ss_q_bin st qo)"
    by blast
  define as where "as = ?as"
  have key: "handed_on ci qi qo (length as) st s"
    if s: "s = st\<lparr>ss_q_bin := qs\<rparr>" and qs: "qs qi = q" "ring_inv (qs qo)" "ring_cap (qs qo) = ring_cap (ss_q_bin st qo)"
      "ring_list (qs qo) = ring_list (ss_q_bin st qo) @ as" "r_head (qs qo) = r_head (ss_q_bin st qo)" for s qs
  proof -
    have l: "ring_list (ss_q_bin st qi) = as @ ring_list q" unfolding as_def by (rule split)
    have perm: "mset (own ci qi qo s) = mset (own ci qi qo st)" using qs by (simp add: own_def s l)
    have "mem_ok ci qi qo [] s"
      using m q(2) qs mset_eq_setD [OF perm] mset_eq_length [OF perm] mset_eq_imp_distinct_iff [OF perm]
      by (simp add: mem_ok_def s open_size_def)
    moreover have "ring_list r = ring_list (ss_q_bin st qo) @ as" using r(4) by (simp add: as_def)
    then have "length (ring_list (ss_q_bin st qo)) + length as \<le> ring_cap (ss_q_bin st qo)"
      using ring_list_le_cap [OF r(2)] r(3) by simp
    ultimately show ?thesis
      using qs by (simp add: handed_on_def s l stream_list_def out_ring_def ring_free_def)
  qed
  show ?thesis
  proof (cases "as = []")
    case True
    have "handed_on ci qi qo (length as) st (st\<lparr>ss_q_bin := (ss_q_bin st)(qi := q)\<rparr>)"
      by (rule key [OF refl]) (use ne rings True in simp_all)
    then show ?thesis using True by (simp add: burst_q_in_to_q_out_def q(1) as_def [symmetric])
  next
    case False
    have "handed_on ci qi qo (length as) st (st\<lparr>ss_q_bin := (ss_q_bin st)(qi := q, qo := r)\<rparr>)"
      by (rule key [OF refl]) (use ne r in \<open>simp_all add: as_def\<close>)
    then show ?thesis using False ne by (simp add: burst_q_in_to_q_out_def q(1) r(1) [folded as_def] as_def [symmetric])
  qed
qed

lemma handed_on_binv:
  assumes inv: "binv strict ci qi qo Q K [] [] {} f st" and h: "handed_on ci qi qo n st s"
  shows "binv strict ci qi qo Q K [] [] {} f s"
proof -
  have fr: "frame ci st s" and same: "ss_q_head s = ss_q_head st" "ss_q_spent s = ss_q_spent st" "ss_bins s = ss_bins st"
     "ss_bin_mempool s = ss_bin_mempool st" "out_open ci s = out_open ci st" "spent_open ci s = spent_open ci st"
    and split: "mset (v_in qi st) + mset (v_out ci qo st) = mset (v_in qi s) + mset (v_out ci qo s)"
    and pre: "\<exists>as. length as = n \<and> ring_list (ss_q_bin st qi) = as @ ring_list (ss_q_bin s qi)"
    and len: "ring_free (ss_q_bin st qo) = n + ring_free (ss_q_bin s qo)"
      "ring_cap (ss_q_bin s qo) = ring_cap (ss_q_bin st qo)" "r_head (ss_q_bin s qo) = r_head (ss_q_bin st qo)"
    and m: "mem_ok ci qi qo [] s"
    using h unfolding handed_on_def by blast+
  note fc = frame_core [OF fr]
  have v: "waiting s = waiting st" "v_spent ci s = v_spent ci st" "pool_size s = pool_size st"
    "open_size (out_open ci) s = open_size (out_open ci) st" "open_size (spent_open ci) s = open_size (spent_open ci) st"
    by (simp_all add: stream_list_def open_size_def pool_size_def fun_eq_iff waiting_def same)
  obtain as where as: "length as = n" "ring_list (ss_q_bin st qi) = as @ ring_list (ss_q_bin s qi)" using pre by blast
  have "edges_ok strict ci qi [] f s" using inv by (simp add: binv_def edges_ok_def v fc same as(2) ball_Un)
  moreover have "room_ok ci qi qo (size (bag f)) s" using inv len as by (simp add: binv_def room_ok_def Let_def v same)
  moreover have "total_units ci qi qo (bag f) s p = Q p" for p
    using inv arg_cong [OF split, of "units p"] by (auto simp: binv_def total_units_def v(1) fc same)
  moreover have "flows ci qi qo (bag f) s = K"
    using inv arg_cong [OF split, of "image_mset e_pair"] by (simp add: binv_def flows_def v same ac_simps)
  ultimately show ?thesis
    using inv m by (simp add: binv_def fc fun_eq_iff)
qed

end
