(* ===== verification/Alloc_Batch.thy ===== *)
theory Alloc_Batch
  imports Alloc_Input
begin

text \<open>
  The main loop of a batch. The clock of the user-space build advances by one time slot in each round, so the
  loop ends in its 48th round: in round \<open>j\<close> the bins below \<open>(48 + j) div 2\<close> are allowed, and from round 33 on
  one time slot is sent out in each round.
\<close>

section \<open>Inputs\<close>

lemma handle_inputs_ok:
  assumes inv: "binv strict ci qi qo Q K [] [] {} f st" and ne: "qi \<noteq> qo"
  shows "returns (handle_inputs n_cores ci qi qo v st)
    (\<lambda>(v', st'). (\<exists>f'. binv strict ci qi qo Q K [] [] {} f' st') \<and> keeps_run ci st st'
       \<and> (\<exists>n. v' = v\<lparr>bv_n_processed := n\<rparr>))"
proof (cases "of_nat (MAX_DEMANDS_PER_BATCH n_cores) \<le> bv_n_processed v")
  case True
  have room: "room_ok ci qi qo (size (bag f)) st" and m: "mem_ok ci qi qo [] st" using inv by (simp_all add: binv_def)
  have "returns (burst_q_in_to_q_out qi qo st) (\<lambda>(n, s). handed_on ci qi qo n st s)"
    using room by (intro burst_mem [OF m ne]) (simp_all add: room_ok_def Let_def)
  then obtain n s where s: "burst_q_in_to_q_out qi qo st = Some (n, s)" "handed_on ci qi qo n st s"
    by (auto elim: returnsE)
  have "frame ci st (core_log ci g s)" for g using s(2) frame_trans by (simp add: handed_on_def frame_def core_same_def core_log_def)
  then have "keeps_run ci st (core_log ci g s)" for g by (rule keeps_run_frame)
  then show ?thesis
    using True s(1) handed_on_binv [OF inv s(2)] by (auto simp: handle_inputs_def intro: exI [of _ "bv_n_processed v"])
next
  case False
  have "returns (if bv_should_process_new_req v then do {
             (n, st) \<leftarrow> process_new_requests ci st;
             Some (v\<lparr>bv_n_processed := bv_n_processed v + ucast n\<rparr>, st)
           } else Some (v, st))
    (\<lambda>(v', st'). (\<exists>f'. binv strict ci qi qo Q K [] [] {} f' st') \<and> keeps_run ci st st'
       \<and> (\<exists>n. v' = v\<lparr>bv_n_processed := n\<rparr>))" (is "returns ?m ?P")
    using process_new_requests_ok [OF inv] inv by (auto elim!: returnsE intro: exI [of _ "bv_n_processed v"])
  then obtain v1 s1 f1 n1 where s1: "?m = Some (v1, s1)" "binv strict ci qi qo Q K [] [] {} f1 s1" "keeps_run ci st s1"
    "v1 = v\<lparr>bv_n_processed := n1\<rparr>"
    by (auto elim!: returnsE)
  show ?thesis
  proof (cases "fp_ring_dequeue (ss_q_bin s1 qi)")
    case None
    then show ?thesis using False s1 unfolding handle_inputs_def by (auto simp del: if_split)
  next
    case (Some p)
    obtain a q where p: "p = (a, q)" by (cases p)
    have ri: "ring_inv (ss_q_bin s1 qi)" using s1(2) by (simp add: binv_def mem_ok_def)
    have q: "ring_inv q" "ring_list (ss_q_bin s1 qi) = a # ring_list q"
      using fp_ring_dequeue_Some [OF ri] Some p by simp_all
    define s2 where "s2 = s1\<lparr>ss_q_bin := (ss_q_bin s1)(qi := q)\<rparr>"
    have "binv strict ci qi qo Q K [a] (waiting s1 [a]) {} f1 s2"
      using s1(2) q ne by (intro off_rings [OF s1(2)]) (simp_all add: s2_def binv_def mem_ok_def)
    then have i2: "binv strict ci qi qo Q K [a] (bin_list (ss_bins s2 a) @ []) {} f1 s2" by (simp add: s2_def)
    have k2: "keeps_run ci st s2" using keeps_run_trans [OF s1(3) keeps_run_frame] by (simp add: s2_def)
    define s3 where "s3 = core_log ci (\<lambda>s. adm_log_dequeued_bin_in s (ucast (bin_size (ss_bins s1 a)))) s2"
    have "binv strict ci qi qo Q K [a] (bin_list (ss_bins s3 a) @ []) {} f1 s3" using i2 by (simp add: s3_def)
    from take_in_bin_ok [OF this] obtain s4 f4 where s4: "take_in_bin ci a s3 = Some s4" "binv strict ci qi qo Q K [] [] {} f4 s4"
      "keeps_run ci s3 s4" by (auto elim: returnsE)
    have "keeps_run ci st s4"
      using keeps_run_trans [OF keeps_run_trans [OF k2 keeps_run_frame] s4(3)] by (simp add: s3_def)
    then show ?thesis
      using False s1(1,4) Some p s4 unfolding handle_inputs_def
      by (auto simp del: if_split simp: s2_def [symmetric] s3_def [symmetric] Let_def)
  qed
qed

section \<open>Sending out a time slot\<close>

text \<open>The first \<open>k\<close> time slots of the batch were sent out, after the traffic \<open>A\<close> that was on the ring before.\<close>

definition published :: "nat \<Rightarrow> addr list \<Rightarrow> nat \<Rightarrow> status \<Rightarrow> bool" where
  "published ci A k st \<longleftrightarrow> ring_inv (ss_q_admitted_out st)
     \<and> ring_list (ss_q_admitted_out st) = A @ map (co_admitted (ss_cores st ci)) [0 ..< k]
     \<and> length A + BATCH_SIZE \<le> ring_cap (ss_q_admitted_out st)
     \<and> (\<forall>t. slot_allowed (cbs ci st) t \<longleftrightarrow> k \<le> t \<and> t < BATCH_SIZE)"

lemma published_keeps: "keeps_run ci st st' \<Longrightarrow> published ci A k st' \<longleftrightarrow> published ci A k st"
  by (simp add: keeps_run_def published_def slot_allowed_def)

lemma publish_slot_ok:
  assumes inv: "binv strict ci qi qo Q K [] [] {} f st" and p: "published ci A k st" and k: "k < BATCH_SIZE"
  shows "returns (publish_slot ci k st)
    (\<lambda>st'. binv strict ci qi qo Q K [] [] {} f st' \<and> published ci A (Suc k) st' \<and> adm ci st' = adm ci st
       \<and> co_allowed_bins (ss_cores st' ci) = co_allowed_bins (ss_cores st ci)
       \<and> co_admitted (ss_cores st' ci) = co_admitted (ss_cores st ci)
       \<and> co_current_timeslot (ss_cores st' ci) = co_current_timeslot (ss_cores st ci)
       \<and> ss_admitted_traffic_mempool st' = ss_admitted_traffic_mempool st)"
proof -
  have ri: "ring_inv (ss_q_admitted_out st)" and len: "length (ring_list (ss_q_admitted_out st)) < ring_cap (ss_q_admitted_out st)"
    and al: "\<And>t. slot_allowed (cbs ci st) t \<longleftrightarrow> k \<le> t \<and> t < BATCH_SIZE"
    using p k by (simp_all add: published_def)
  obtain q where q: "fp_ring_enqueue (ss_q_admitted_out st) (co_admitted (ss_cores st ci) k) = Some q" "ring_inv q"
    "ring_cap q = ring_cap (ss_q_admitted_out st)"
    "ring_list q = ring_list (ss_q_admitted_out st) @ [co_admitted (ss_cores st ci) k]"
    using rq.enq_room [OF ri len, of "co_admitted (ss_cores st ci) k"] by blast
  define s where "s = upd_core ci (co_batch_state_update batch_state_disallow_lsb_timeslot) (st\<lparr>ss_q_admitted_out := q\<rparr>)"
  have sm0: "same_mem ci st s" by (simp add: s_def same_mem_def out_open_def spent_open_def)
  note sm = same_memD [OF sm0]
  have c: "cbs ci s = batch_state_disallow_lsb_timeslot (cbs ci st)"
    "co_new_request_bins (ss_cores s ci) = co_new_request_bins (ss_cores st ci)"
    "co_non_empty_bins (ss_cores s ci) = co_non_empty_bins (ss_cores st ci)"
    "co_allowed_bins (ss_cores s ci) = co_allowed_bins (ss_cores st ci)" "adm ci s = adm ci st"
    "co_admitted (ss_cores s ci) = co_admitted (ss_cores st ci)"
    "co_current_timeslot (ss_cores s ci) = co_current_timeslot (ss_cores st ci)"
    "ss_q_admitted_out s = q" "ss_admitted_traffic_mempool s = ss_admitted_traffic_mempool st"
    by (simp_all add: s_def adm_def [abs_def])
  have al': "slot_allowed (cbs ci s) t \<longleftrightarrow> Suc k \<le> t \<and> t < BATCH_SIZE" for t
    unfolding c by (rule disallow_lsb_allowed [OF al])
  have fr: "src_free (cbs ci s) = src_free (cbs ci st)" "dst_free (cbs ci s) = dst_free (cbs ci st)"
    "bs_out_of_boundary_counts (cbs ci s) = bs_out_of_boundary_counts (cbs ci st)"
    by (simp_all add: c(1))
  have "slots_ok strict ci s" using inv by (simp add: binv_def slots_ok_def c(5,6) fr al')
  moreover have "late_ok f (cbs ci s)"
    by (rule late_ok_mono [of f "cbs ci st"]) (use inv in \<open>auto simp: binv_def avail_def al' al fr\<close>)
  moreover have "req_ok {} f (ss_cores s ci)" using inv by (simp add: binv_def req_ok_def c)
  ultimately have "binv strict ci qi qo Q K [] [] {} f s"
    using inv by (simp add: binv_def edges_ok_def total_units_def [abs_def] flows_def sm c)
  moreover have "published ci A (Suc k) s"
    using p q al' by (simp add: published_def c)
  ultimately show ?thesis using q(1) c by (simp add: publish_slot_def s_def [symmetric])
qed

section \<open>The clock\<close>

lemma sint_of_int_small: "- (2 ^ 63) \<le> x \<Longrightarrow> x < 2 ^ 63 \<Longrightarrow> sint (of_int x :: u64) = x"
  by (simp add: signed_of_int signed_take_bit_int_eq_self)

text \<open>
  The local variables after \<open>j\<close> rounds, and the state of the batch. \<open>adms\<close> are the addresses that were taken
  for the sixteen time slots.
\<close>

definition clocked :: "u64 \<Rightarrow> nat \<Rightarrow> batch_vars \<Rightarrow> bool" where
  "clocked first j v \<longleftrightarrow> bv_now v = first - 33 + of_nat j \<and> (bv_prev v = bv_now v \<or> bv_prev v = bv_now v - 1)
     \<and> bv_admitted_bins v = j - 32"

definition batch_ready :: "bool \<Rightarrow> nat \<Rightarrow> nat \<Rightarrow> nat \<Rightarrow> (u16 \<times> u16 \<Rightarrow> nat) \<Rightarrow> (u16 \<times> u16) multiset \<Rightarrow> addr list \<Rightarrow> status
  \<Rightarrow> nat \<Rightarrow> status \<Rightarrow> bool" where
  "batch_ready strict ci qi qo Q K A st0 j st \<longleftrightarrow> (\<exists>f. binv strict ci qi qo Q K [] [] {} f st) \<and> published ci A (j - 32) st
     \<and> (\<forall>i. bit (co_allowed_bins (ss_cores st ci) 0) i \<longrightarrow> i < N_REQ - 1)
     \<and> co_admitted (ss_cores st ci) = co_admitted (ss_cores st0 ci)
     \<and> co_current_timeslot (ss_cores st ci) = co_current_timeslot (ss_cores st0 ci)
     \<and> ss_admitted_traffic_mempool st = ss_admitted_traffic_mempool st0"

lemma batch_ready_keeps:
  assumes "batch_ready strict ci qi qo Q K A st0 j st" "\<exists>f. binv strict ci qi qo Q K [] [] {} f st'" "keeps_run ci st st'"
  shows "batch_ready strict ci qi qo Q K A st0 j st'"
  using assms published_keeps [OF assms(3)] by (simp add: batch_ready_def keeps_run_def)

lemma admit_step_ok:
  assumes r: "batch_ready strict ci qi qo Q K A st0 j st" and j: "j < 48"
    and v: "bv_now v = first - 33 + of_nat (Suc j)" "bv_admitted_bins v = j - 32"
  shows "returns (admit_step ci first v st)
    (\<lambda>(w, v', st'). batch_ready strict ci qi qo Q K A st0 (Suc j) st' \<and> v' = v\<lparr>bv_admitted_bins := Suc j - 32\<rparr> \<and> (w \<longleftrightarrow> j = 47))"
proof -
  have "bv_now v - first + 1 = of_int (int (Suc j) - 32)" by (simp add: v(1))
  then have gap: "sint (bv_now v - first + 1) = int (Suc j) - 32"
    using j by (simp only: ) (rule sint_of_int_small, simp_all)
  show ?thesis
  proof (cases "Suc j \<le> 32")
    case True
    then have "batch_ready strict ci qi qo Q K A st0 (Suc j) st" using r by (simp add: batch_ready_def)
    moreover have "v = v\<lparr>bv_admitted_bins := Suc j - 32\<rparr>" using v(2) True by simp
    ultimately show ?thesis using True gap by (simp add: admit_step_def)
  next
    case False
    define k where "k = j - 32"
    have k: "Suc j - 32 = Suc k" "k < BATCH_SIZE" using False j by (simp_all add: k_def BATCH_SIZE_def)
    obtain f where f: "binv strict ci qi qo Q K [] [] {} f st" "published ci A k st"
      using r by (auto simp: batch_ready_def k_def)
    obtain s where s: "publish_slot ci k st = Some s" "binv strict ci qi qo Q K [] [] {} f s" "published ci A (Suc k) s"
      "co_allowed_bins (ss_cores s ci) = co_allowed_bins (ss_cores st ci)"
      "co_admitted (ss_cores s ci) = co_admitted (ss_cores st ci)"
      "co_current_timeslot (ss_cores s ci) = co_current_timeslot (ss_cores st ci)"
      "ss_admitted_traffic_mempool s = ss_admitted_traffic_mempool st"
      using publish_slot_ok [OF f k(2)] by (auto elim: returnsE)
    have "batch_ready strict ci qi qo Q K A st0 (Suc j) s" unfolding batch_ready_def k(1) using r s by (auto simp: batch_ready_def)
    moreover have "nat (int (Suc j) - 32) = Suc k" using k(1) by linarith
    moreover have "\<not> int BATCH_SIZE < int (Suc j) - 32" "Suc k = BATCH_SIZE \<longleftrightarrow> j = 47"
      using j k False by (auto simp: BATCH_SIZE_def k_def)
    moreover have "[bv_admitted_bins v ..< Suc k] = [k]" by (simp add: v(2) k_def [symmetric])
    ultimately show ?thesis using False gap k(1) s(1) by (simp add: admit_step_def)
  qed
qed

lemma bit_fold_arr_set_bit:
  "n \<le> 64 \<Longrightarrow> bit (fold (\<lambda>b arr. arr_set_bit arr b) [m ..< n] arr 0) i \<Longrightarrow> bit (arr 0) i \<or> i < n"
proof (induction n)
  case (Suc n)
  then show ?case by (cases "m \<le> n") (auto simp: bit_arr_set_bit_0 less_Suc_eq)
qed simp

lemma binv_allowed: "binv strict ci qi qo Q K xs R cur f (upd_core ci (co_allowed_bins_update g) st)
  \<longleftrightarrow> binv strict ci qi qo Q K xs R cur f st"
proof -
  let ?s = "upd_core ci (co_allowed_bins_update g) st"
  have sm0: "same_mem ci st ?s" by (simp add: same_mem_upd_core)
  have c: "adm ci ?s = adm ci st" by (simp add: adm_def [abs_def])
  show ?thesis
    by (simp add: binv_def req_ok_def slots_ok_def edges_ok_def total_units_def [abs_def] flows_def same_memD [OF sm0] c)
qed

lemma update_allowed_ok:
  assumes r: "batch_ready strict ci qi qo Q K A st0 j st" and j: "j \<le> 47" and v: "bv_now v = first - 33 + of_nat j"
  shows "\<exists>v' st'. update_allowed ci first v st = (v', st') \<and> batch_ready strict ci qi qo Q K A st0 j st'
    \<and> (\<exists>n. v' = v\<lparr>bv_processed_bins := n\<rparr>)"
proof -
  have "bv_now v - (first + of_nat BATCH_SIZE - 1) + of_nat TIMESLOTS_START_BEFORE = of_int (48 + int j)"
    by (simp add: v BATCH_SIZE_def TIMESLOTS_START_BEFORE_def NUM_BINS_def TIMESLOT_SHIFT_PER_PRIORITY_def)
  then have gap: "sint (bv_now v - (first + of_nat BATCH_SIZE - 1) + of_nat TIMESLOTS_START_BEFORE) = 48 + int j"
    using j by (simp only: ) (rule sint_of_int_small, simp_all)
  define n where "n = nat (drop_bit TIMESLOT_SHIFT_PER_PRIORITY (48 + int j))"
  have n: "n \<le> 47" using j by (simp add: n_def drop_bit_eq_div TIMESLOT_SHIFT_PER_PRIORITY_def)
  have nb: "\<not> int TIMESLOTS_START_BEFORE < 48 + int j"
    using j by (simp add: TIMESLOTS_START_BEFORE_def BATCH_SIZE_def NUM_BINS_def TIMESLOT_SHIFT_PER_PRIORITY_def)
  define s where "s = upd_core ci (co_allowed_bins_update (\<lambda>_.
      fold (\<lambda>bin arr. arr_set_bit arr bin) [bv_processed_bins v ..< n] (co_allowed_bins (ss_cores st ci)))) st"
  have "i < N_REQ - 1" if "bit (co_allowed_bins (ss_cores s ci) 0) i" for i
  proof -
    have "bit (fold (\<lambda>bin arr. arr_set_bit arr bin) [bv_processed_bins v ..< n] (co_allowed_bins (ss_cores st ci)) 0) i"
      using that by (simp add: s_def)
    then have "bit (co_allowed_bins (ss_cores st ci) 0) i \<or> i < n" using n by (intro bit_fold_arr_set_bit) simp_all
    then show ?thesis using r n by (auto simp: batch_ready_def NUM_BINS_def BATCH_SIZE_def)
  qed
  then have "batch_ready strict ci qi qo Q K A st0 j s"
    using r by (auto simp: batch_ready_def s_def binv_allowed published_def)
  moreover have "update_allowed ci first v st = (v\<lparr>bv_processed_bins := n\<rparr>, s)"
    unfolding update_allowed_def gap Let_def using nb
    by (simp add: n_def [symmetric] s_def upd_core_def)
  ultimately show ?thesis by blast
qed

section \<open>Rounds\<close>

lemma new_requests_ten:
  assumes r: "batch_ready strict ci qi qo Q K A st0 j st"
  shows "returns (for_each (\<lambda>_ st. do { (_, st) \<leftarrow> process_new_requests ci st; Some st }) (ks :: nat list) st)
    (\<lambda>st'. batch_ready strict ci qi qo Q K A st0 j st')"
proof -
  define I where "I (ys :: nat list) s \<longleftrightarrow> batch_ready strict ci qi qo Q K A st0 j s" for ys s
  have "returns (for_each (\<lambda>_ st. do { (_, st) \<leftarrow> process_new_requests ci st; Some st }) ks st) (I [])"
  proof (rule returns_for_each)
    show "I ks st" using r by (simp add: I_def)
    fix y ys s assume "I (y # ys) s"
    then have r: "batch_ready strict ci qi qo Q K A st0 j s" by (simp add: I_def)
    then obtain f where "binv strict ci qi qo Q K [] [] {} f s" by (auto simp: batch_ready_def)
    from process_new_requests_ok [OF this] obtain n s' where
      "process_new_requests ci s = Some (n, s')" "\<exists>f. binv strict ci qi qo Q K [] [] {} f s'" "keeps_run ci s s'"
      by (auto elim!: returnsE)
    then show "returns (do { (_, st) \<leftarrow> process_new_requests ci s; Some st }) (I ys)"
      using batch_ready_keeps [OF r] by (simp add: I_def)
  qed
  then show ?thesis by (rule returns_mono) (simp add: I_def)
qed

lemma batch_round_ok:
  assumes r: "batch_ready strict ci qi qo Q K A st0 j st" and j: "j < 48" and c: "clocked first j v" and ne: "qi \<noteq> qo"
  shows "returns (batch_round n_cores ci qi qo first v st)
    (\<lambda>(w, v', st'). batch_ready strict ci qi qo Q K A st0 (Suc j) st' \<and> clocked first (Suc j) v' \<and> (w \<longleftrightarrow> j = 47))"
proof -
  define v1 where "v1 = v\<lparr>bv_now := bv_now v + 1\<rparr>"
  obtain s1 where s1: "for_each (\<lambda>_ st. do { (_, st) \<leftarrow> process_new_requests ci st; Some st }) [0 ..< 10 :: nat] st = Some s1"
    "batch_ready strict ci qi qo Q K A st0 j s1"
    using new_requests_ten [OF r] by (auto elim: returnsE)
  have ne_prev: "bv_now v1 \<noteq> bv_prev v1"
  proof -
    have "bv_now v + 1 \<noteq> bv_now v" "bv_now v + 1 \<noteq> bv_now v - 1" by (simp_all add: eq_diff_eq)
    then show ?thesis using c by (auto simp: clocked_def v1_def)
  qed
  define v2 where "v2 = v1\<lparr>bv_prev := bv_now v1, bv_should_process_new_req :=
      URGENT_NUM_TIMESLOTS_END < first - bv_now v1 \<and> first - bv_now v1 \<le> URGENT_NUM_TIMESLOTS_START\<rparr>"
  have v2: "bv_now v2 = first - 33 + of_nat (Suc j)" "bv_prev v2 = bv_now v2" "bv_admitted_bins v2 = j - 32"
    using c by (simp_all add: v2_def v1_def clocked_def)
  define v3 where "v3 = v2\<lparr>bv_admitted_bins := Suc j - 32\<rparr>"
  have cl: "clocked first (Suc j) v3" using v2 by (simp add: clocked_def v3_def)
  obtain s2 where s2: "admit_step ci first v2 s1 = Some (j = 47, v3, s2)" "batch_ready strict ci qi qo Q K A st0 (Suc j) s2"
    using admit_step_ok [OF s1(2) j v2(1,3)] by (auto simp: v3_def elim: returnsE)
  show ?thesis
  proof (cases "j = 47")
    case True
    then show ?thesis
      using ne_prev s2 cl
      by (simp add: batch_round_def v1_def [symmetric] s1(1) v2_def [symmetric] Let_def)
  next
    case False
    then have j': "Suc j \<le> 47" using j by simp
    obtain n s3 where s3: "update_allowed ci first v3 s2 = (v3\<lparr>bv_processed_bins := n\<rparr>, s3)"
      "batch_ready strict ci qi qo Q K A st0 (Suc j) s3"
      using update_allowed_ok [OF s2(2) j', of v3 first] cl by (auto simp: clocked_def)
    define v4 where "v4 = v3\<lparr>bv_processed_bins := n\<rparr>"
    obtain f3 where f3: "binv strict ci qi qo Q K [] [] {} f3 s3" using s3(2) by (auto simp: batch_ready_def)
    obtain m s4 f4 where s4: "handle_inputs n_cores ci qi qo v4 s3 = Some (v4\<lparr>bv_n_processed := m\<rparr>, s4)"
      "binv strict ci qi qo Q K [] [] {} f4 s4" "keeps_run ci s3 s4"
      using handle_inputs_ok [OF f3 ne, of n_cores v4] by (auto elim!: returnsE)
    have r4: "batch_ready strict ci qi qo Q K A st0 (Suc j) s4" using batch_ready_keeps [OF s3(2) _ s4(3)] s4(2) by blast
    then have al: "\<forall>i. bit (co_allowed_bins (ss_cores s4 ci) 0) i \<longrightarrow> i < N_REQ - 1" by (simp add: batch_ready_def)
    obtain s5 f5 where s5: "try_allocation_core ci qo s4 = Some s5" "binv strict ci qi qo Q K [] [] {} f5 s5" "keeps_run ci s4 s5"
      using try_allocation_core_ok [OF s4(2) ne al] by (auto elim!: returnsE)
    have "batch_ready strict ci qi qo Q K A st0 (Suc j) s5" using batch_ready_keeps [OF r4 _ s5(3)] s5(2) by blast
    moreover have "clocked first (Suc j) (v4\<lparr>bv_n_processed := m\<rparr>)" using cl by (auto simp: clocked_def v4_def)
    ultimately show ?thesis
      using False ne_prev
      by (simp add: batch_round_def v1_def [symmetric] s1(1) v2_def [symmetric] Let_def s2(1) s3(1) v4_def [symmetric] s4(1) s5(1))
  qed
qed

text \<open>The loop is left after 48 rounds.\<close>

lemma batch_loop_ok:
  assumes "batch_ready strict ci qi qo Q K A st0 (47 - n) st" "clocked first (47 - n) v" "n \<le> 47" and ne: "qi \<noteq> qo"
  shows "returns (batch_loop n_cores ci qi qo first v st) (batch_ready strict ci qi qo Q K A st0 48)"
  using assms(1-3)
proof (induction n arbitrary: st v)
  case 0
  obtain v1 s1 where "batch_round n_cores ci qi qo first v st = Some (True, v1, s1)" "batch_ready strict ci qi qo Q K A st0 48 s1"
    using batch_round_ok [OF 0(1) _ 0(2) ne, of n_cores] by (auto elim!: returnsE)
  then show ?case by (subst batch_loop.simps) simp
next
  case (Suc n)
  have s: "Suc (47 - Suc n) = 47 - n" and lt: "47 - Suc n < 48" using Suc.prems(3) by linarith+
  obtain v1 s1 where "batch_round n_cores ci qi qo first v st = Some (False, v1, s1)"
    "batch_ready strict ci qi qo Q K A st0 (47 - n) s1" "clocked first (47 - n) v1"
    using batch_round_ok [OF Suc.prems(1) lt Suc.prems(2) ne, of n_cores, unfolded s] Suc.prems(3) by (auto elim!: returnsE)
  then show ?case using Suc.IH [of s1 v1] Suc.prems(3) by (subst batch_loop.simps) simp
qed

end
