(* ===== verification/Alloc_Wrap.thy ===== *)
theory Alloc_Wrap
  imports Alloc_Batch
begin

text \<open>
  The end of a batch: the requests that are left in the core go to the next one, the open bins are flushed,
  and a burst of bins is handed on.
\<close>

section \<open>The bins of the core\<close>

lemma binv_insert: "binv strict ci qi qo Q K xs R C f st \<Longrightarrow> binv strict ci qi qo Q K xs R (insert b C) f st"
  by (auto simp: binv_def req_ok_def)

lemma move_bin_ok:
  assumes inv: "binv strict ci qi qo Q K [] [] C f st" and ne: "qi \<noteq> qo" and b: "b < N_REQ" "b \<notin> C"
  shows "returns (move_bin_to_q_out ci qo b st)
    (\<lambda>st'. binv strict ci qi qo Q K [] [] (insert b C) (f(b := [])) st' \<and> keeps_run ci st st')"
proof -
  let ?bin = "co_new_request_bins (ss_cores st ci) b"
  let ?n = "unat (bin_size ?bin)"
  define L where "L = bin_list ?bin"
  have L: "L = map (bin_get ?bin) [0 ..< ?n]" by (simp add: L_def map_bin_get)
  have fL: "f b = L" using inv b by (simp add: binv_def req_ok_def L_def)
  define I where "I ys s \<longleftrightarrow> (\<exists>k. k \<le> ?n \<and> ys = [k ..< ?n] \<and> binv strict ci qi qo Q K [] [] (insert b C) (f(b := drop k L)) s
    \<and> keeps_core b ci st s)" for ys s
  have "returns (for_each (\<lambda>i st. core_enqueue_to_q_out_edge ci qo (bin_get (co_new_request_bins (ss_cores st ci) b) i) st)
      [0 ..< ?n] st) (I [])"
  proof (rule returns_for_each)
    have "f(b := L) = f" using fL by auto
    then show "I [0 ..< ?n] st" using binv_insert [OF inv, of b] by (auto simp: I_def intro!: exI [of _ 0])
    fix y ys s assume "I (y # ys) s"
    then obtain k where k: "k \<le> ?n" "y # ys = [k ..< ?n]"
      and g: "binv strict ci qi qo Q K [] [] (insert b C) (f(b := drop k L)) s" and kp: "keeps_core b ci st s"
      unfolding I_def by blast
    have kn: "k < ?n" "y = k" "ys = [Suc k ..< ?n]" using k(2) [symmetric] by (auto simp: upt_eq_Cons_conv)
    have e: "(f(b := drop k L)) b = bin_get ?bin k # drop (Suc k) L" using kn(1) by (simp add: L Cons_nth_drop_Suc [symmetric])
    have get: "bin_get (co_new_request_bins (ss_cores s ci) b) k = bin_get ?bin k" using kp by (simp add: keeps_core_def)
    from entry_out [OF g ne b(1) insertI1 e, unfolded fun_upd_upd] obtain s' where s': "core_enqueue_to_q_out_edge ci qo (bin_get ?bin k) s = Some s'"
      "binv strict ci qi qo Q K [] [] (insert b C) (f(b := drop (Suc k) L)) s'" "keeps_core b ci s s'" by blast
    have "I ys s'" unfolding I_def using s' kn keeps_core_trans [OF kp s'(3)] by (intro exI [of _ "Suc k"]) simp
    then show "returns (core_enqueue_to_q_out_edge ci qo (bin_get (co_new_request_bins (ss_cores s ci) b) y) s) (I ys)"
      using s'(1) kn(2) get by (simp add: returns_def)
  qed
  then show ?thesis
    unfolding move_bin_to_q_out_def
  proof (rule returns_mono)
    fix s assume "I [] s"
    then obtain k where k: "k \<le> ?n" "[] = [k ..< ?n]"
      and g: "binv strict ci qi qo Q K [] [] (insert b C) (f(b := drop k L)) s" and kp: "keeps_core b ci st s"
      unfolding I_def by blast
    then have "drop k L = []" by (simp add: L drop_map drop_upt)
    with g kp show "binv strict ci qi qo Q K [] [] (insert b C) (f(b := [])) s \<and> keeps_run ci st s"
      by (simp add: keeps_core_run)
  qed
qed

lemma move_bins_ok:
  assumes "binv strict ci qi qo Q K [] [] C f st" and ne: "qi \<noteq> qo" and "\<forall>i. bit msk i \<longrightarrow> i < N_REQ \<and> i \<notin> C"
    and "\<forall>i < N_REQ. f i \<noteq> [] \<longrightarrow> bit msk i"
  shows "returns (move_bins_to_q_out ci qo 0 msk st)
    (\<lambda>st'. (\<exists>C' f'. binv strict ci qi qo Q K [] [] C' f' st' \<and> bag f' = {#}) \<and> keeps_run ci st st')"
  using assms(1,3,4)
proof (induction "card {i. bit msk i}" arbitrary: msk C f st rule: less_induct)
  case less
  show ?case
  proof (cases "msk = 0")
    case True
    then have "bag f = bag (\<lambda>_. [])" using less.prems(3) by (intro bag_cong) auto
    then have "bag f = {#}" by (simp add: bag_def)
    then show ?thesis using True less.prems(1) by (subst move_bins_to_q_out.simps) auto
  next
    case False
    define b where "b = ffs msk"
    define s1 where "s1 = core_log ci (\<lambda>s. adm_log_wrap_up_non_empty_bin s (bin_size (co_new_request_bins (ss_cores st ci) b))) st"
    have b: "b < N_REQ" "b \<notin> C" using bit_ffs [OF False] less.prems(2) by (simp_all add: b_def)
    have i1: "binv strict ci qi qo Q K [] [] C f s1" and k1: "keeps_run ci st s1"
      using less.prems(1) by (simp_all add: s1_def keeps_run_frame)
    obtain s2 where s2: "move_bin_to_q_out ci qo b s1 = Some s2"
      "binv strict ci qi qo Q K [] [] (insert b C) (f(b := [])) s2" "keeps_run ci s1 s2"
      using move_bin_ok [OF i1 ne b] by (auto elim: returnsE)
    have bits: "bit (msk AND (msk - 1)) i \<longleftrightarrow> bit msk i \<and> i \<noteq> b" for i
      using bit_clear_lowest [OF False] by (auto simp: b_def)
    have "returns (move_bins_to_q_out ci qo 0 (msk AND (msk - 1)) s2)
      (\<lambda>st'. (\<exists>C' f'. binv strict ci qi qo Q K [] [] C' f' st' \<and> bag f' = {#}) \<and> keeps_run ci s2 st')"
      by (rule less.hyps [OF card_bits_clear_lowest [OF False] s2(2)]) (use less.prems(2,3) bits in auto)
    then have "returns (move_bins_to_q_out ci qo 0 (msk AND (msk - 1)) s2)
      (\<lambda>st'. (\<exists>C' f'. binv strict ci qi qo Q K [] [] C' f' st' \<and> bag f' = {#}) \<and> keeps_run ci st st')"
      by (rule returns_mono) (use keeps_run_trans [OF keeps_run_trans [OF k1 s2(3)]] in blast)
    then show ?thesis
      using False by (subst move_bins_to_q_out.simps) (simp add: b_def [symmetric] s1_def [symmetric] s2(1) Let_def)
  qed
qed

lemma move_core_ok:
  assumes inv: "binv strict ci qi qo Q K [] [] {} f st" and ne: "qi \<noteq> qo"
  shows "returns (move_core_to_q_out ci qo st)
    (\<lambda>st'. (\<exists>C' f'. binv strict ci qi qo Q K [] [] C' f' st' \<and> bag f' = {#}) \<and> keeps_run ci st st')"
proof -
  have "[0 ..< BIN_MASK_SIZE] = [0]" by (simp add: BIN_MASK_SIZE_def NUM_BINS_def BATCH_SIZE_def)
  moreover have "returns (move_bins_to_q_out ci qo 0 (co_non_empty_bins (ss_cores st ci) 0) st)
    (\<lambda>st'. (\<exists>C' f'. binv strict ci qi qo Q K [] [] C' f' st' \<and> bag f' = {#}) \<and> keeps_run ci st st')"
    by (rule move_bins_ok [OF inv ne]) (use inv in \<open>auto simp: binv_def req_ok_def\<close>)
  ultimately show ?thesis unfolding move_core_to_q_out_def by (auto elim!: returnsE; blast)
qed

section \<open>The last flushes\<close>

text \<open>What is left of the invariant when no request is left in the core.\<close>

definition wrapped :: "bool \<Rightarrow> nat \<Rightarrow> nat \<Rightarrow> nat \<Rightarrow> (u16 \<times> u16 \<Rightarrow> nat) \<Rightarrow> (u16 \<times> u16) multiset \<Rightarrow> status \<Rightarrow> bool" where
  "wrapped strict ci qi qo Q K st \<longleftrightarrow> mem_ok ci qi qo [] st \<and> slots_ok strict ci st
     \<and> total_units ci qi qo {#} st = Q \<and> flows ci qi qo {#} st = K
     \<and> length (ring_list (ss_q_bin st qi)) + (if open_size (out_open ci) st = 0 then 0 else 1) \<le> ring_free (ss_q_bin st qo)
     \<and> (if open_size (spent_open ci) st = 0 then 0 else 1) \<le> ring_free (ss_q_spent st)
     \<and> (if open_size (out_open ci) st = 0 then 0 else 1) + (if open_size (spent_open ci) st = 0 then 0 else 1) \<le> pool_size st
     \<and> unat (r_head (ss_q_bin st qo)) + ring_cap (ss_q_bin st qo) + 16 < 2 ^ 32"

lemma binv_wrapped: "binv strict ci qi qo Q K [] [] C f st \<Longrightarrow> bag f = {#} \<Longrightarrow> wrapped strict ci qi qo Q K st"
  by (auto simp: binv_def wrapped_def room_ok_def Let_def)

lemma wrapped_core_log [simp]: "wrapped strict ci qi qo Q K (core_log ci g st) \<longleftrightarrow> wrapped strict ci qi qo Q K st"
proof -
  have sm: "same_mem ci st (core_log ci g st)" by simp
  have fr: "frame ci st (core_log ci g st)" by simp
  show ?thesis by (simp add: wrapped_def same_memD [OF sm] frame_core [OF fr] total_units_def [abs_def] flows_def)
qed

lemma flush_out_wrapped:
  assumes w: "wrapped strict ci qi qo Q K st" and ne: "qi \<noteq> qo" and open_: "open_size (out_open ci) st \<noteq> 0"
  shows "\<exists>st'. core_flush_q_out ci qo st = Some st' \<and> wrapped strict ci qi qo Q K st' \<and> open_size (out_open ci) st' = 0
    \<and> keeps_run ci st st'"
proof -
  have m: "mem_ok ci qi qo [] st" and r: "0 < ring_free (ss_q_bin st qo)" "0 < pool_size st"
    using w open_ by (auto simp: wrapped_def)
  from flush_out [OF m ne r] obtain st' where st': "core_flush_q_out ci qo st = Some st'" "mem_ok ci qi qo [] st'"
    and same: "same_but_out ci qi [] st st'" and v: "v_out ci qo st' = v_out ci qo st" "open_size (out_open ci) st' = 0"
      "Suc (ring_free (ss_q_bin st' qo)) = ring_free (ss_q_bin st qo)" "Suc (pool_size st') = pool_size st"
      "ring_cap (ss_q_bin st' qo) = ring_cap (ss_q_bin st qo)" "r_head (ss_q_bin st' qo) = r_head (ss_q_bin st qo)"
    by blast
  have fr: "frame ci st st'" and u: "ss_q_head st' = ss_q_head st" "ss_q_bin st' qi = ss_q_bin st qi" "ss_q_spent st' = ss_q_spent st"
     "waiting st' (ring_list (ss_q_head st)) = v_head st" "waiting st' (ring_list (ss_q_bin st qi)) = v_in qi st"
     "v_spent ci st' = v_spent ci st" "open_size (spent_open ci) st' = open_size (spent_open ci) st"
    using same by (simp_all add: same_but_out_def)
  have "wrapped strict ci qi qo Q K st'"
    using w st'(2) v open_
    by (auto simp: wrapped_def frame_core [OF fr] u total_units_def [abs_def] flows_def split: if_splits)
  then show ?thesis using st'(1) v(2) keeps_run_frame [OF fr] by blast
qed

lemma flush_spent_wrapped:
  assumes w: "wrapped strict ci qi qo Q K st" and open_: "open_size (spent_open ci) st \<noteq> 0"
  shows "\<exists>st'. core_flush_q_spent ci st = Some st' \<and> wrapped strict ci qi qo Q K st' \<and> open_size (spent_open ci) st' = 0
    \<and> open_size (out_open ci) st' = open_size (out_open ci) st \<and> keeps_run ci st st'"
proof -
  have m: "mem_ok ci qi qo [] st" and r: "0 < ring_free (ss_q_spent st)" "0 < pool_size st"
    using w open_ by (auto simp: wrapped_def)
  from flush_spent [OF m r] obtain st' where st': "core_flush_q_spent ci st = Some st'" "mem_ok ci qi qo [] st'"
    and same: "same_but_spent ci qi qo [] st st'" and v: "v_spent ci st' = v_spent ci st" "open_size (spent_open ci) st' = 0"
      "Suc (ring_free (ss_q_spent st')) = ring_free (ss_q_spent st)" "Suc (pool_size st') = pool_size st"
    by blast
  have fr: "frame ci st st'" and u: "ss_q_head st' = ss_q_head st" "ss_q_bin st' = ss_q_bin st"
     "waiting st' (ring_list (ss_q_head st)) = v_head st" "waiting st' (ring_list (ss_q_bin st qi)) = v_in qi st"
     "v_out ci qo st' = v_out ci qo st" "open_size (out_open ci) st' = open_size (out_open ci) st"
    using same by (simp_all add: same_but_spent_def)
  have "wrapped strict ci qi qo Q K st'"
    using w st'(2) v open_
    by (auto simp: wrapped_def frame_core [OF fr] u total_units_def [abs_def] flows_def split: if_splits)
  then show ?thesis using st'(1) v(2) u(6) keeps_run_frame [OF fr] by blast
qed

lemma burst_wrapped:
  assumes w: "wrapped strict ci qi qo Q K st" and ne: "qi \<noteq> qo"
    and opens: "open_size (out_open ci) st = 0" "open_size (spent_open ci) st = 0"
  shows "\<exists>n st'. burst_q_in_to_q_out qi qo st = Some (n, st') \<and> wrapped strict ci qi qo Q K st'
    \<and> open_size (out_open ci) st' = 0 \<and> open_size (spent_open ci) st' = 0 \<and> keeps_run ci st st'"
proof -
  have "returns (burst_q_in_to_q_out qi qo st) (\<lambda>(n, s). handed_on ci qi qo n st s)"
    using w by (intro burst_mem [OF _ ne]) (auto simp: wrapped_def)
  then obtain n s where s: "burst_q_in_to_q_out qi qo st = Some (n, s)" and h: "handed_on ci qi qo n st s"
    by (auto elim: returnsE)
  have fr: "frame ci st s" and same: "ss_q_head s = ss_q_head st" "ss_q_spent s = ss_q_spent st" "ss_bins s = ss_bins st"
     "ss_bin_mempool s = ss_bin_mempool st" "out_open ci s = out_open ci st" "spent_open ci s = spent_open ci st"
    and split: "mset (v_in qi st) + mset (v_out ci qo st) = mset (v_in qi s) + mset (v_out ci qo s)"
    and len: "ring_free (ss_q_bin st qo) = n + ring_free (ss_q_bin s qo)"
      "ring_cap (ss_q_bin s qo) = ring_cap (ss_q_bin st qo)" "r_head (ss_q_bin s qo) = r_head (ss_q_bin st qo)"
    and pre: "\<exists>as. length as = n \<and> ring_list (ss_q_bin st qi) = as @ ring_list (ss_q_bin s qi)"
    and m: "mem_ok ci qi qo [] s"
    using h unfolding handed_on_def by blast+
  have l: "length (ring_list (ss_q_bin st qi)) = n + length (ring_list (ss_q_bin s qi))" using pre by auto
  have v: "waiting s = waiting st" "v_spent ci s = v_spent ci st" "pool_size s = pool_size st"
    "open_size (out_open ci) s = open_size (out_open ci) st" "open_size (spent_open ci) s = open_size (spent_open ci) st"
    by (simp_all add: stream_list_def open_size_def pool_size_def fun_eq_iff waiting_def same)
  have "total_units ci qi qo {#} s p = Q p" for p
    using w arg_cong [OF split, of "units p"] by (auto simp: wrapped_def total_units_def v(1) frame_core [OF fr] same)
  moreover have "flows ci qi qo {#} s = K"
    using w arg_cong [OF split, of "image_mset e_pair"] by (simp add: wrapped_def flows_def v same ac_simps)
  ultimately have "wrapped strict ci qi qo Q K s"
    using w m len l opens by (simp add: wrapped_def frame_core [OF fr] v same fun_eq_iff)
  then show ?thesis using s v(4,5) opens keeps_run_frame [OF fr] by auto
qed

text \<open>The whole of \<open>wrap_up\<close>.\<close>

lemma wrap_up_ok:
  assumes inv: "binv strict ci qi qo Q K [] [] {} f st" and ne: "qi \<noteq> qo"
  shows "returns (wrap_up_batch n_cores ci qi qo st)
    (\<lambda>st'. wrapped strict ci qi qo Q K st' \<and> open_size (out_open ci) st' = 0 \<and> open_size (spent_open ci) st' = 0
       \<and> co_current_timeslot (ss_cores st' ci) = co_current_timeslot (ss_cores st ci) + of_nat (n_cores * BATCH_SIZE)
       \<and> ss_q_admitted_out st' = ss_q_admitted_out st \<and> ss_admitted_traffic_mempool st' = ss_admitted_traffic_mempool st
       \<and> co_admitted (ss_cores st' ci) = co_admitted (ss_cores st ci)
       \<and> (\<forall>u < BATCH_SIZE. \<not> slot_allowed (cbs ci st) u \<longrightarrow> adm ci st' u = adm ci st u))"
proof -
  obtain s1 C f1 where s1: "move_core_to_q_out ci qo st = Some s1" "binv strict ci qi qo Q K [] [] C f1 s1" "bag f1 = {#}"
    and k1: "keeps_run ci st s1"
    using move_core_ok [OF inv ne] by (auto elim!: returnsE)
  have w1: "wrapped strict ci qi qo Q K s1" by (rule binv_wrapped [OF s1(2,3)])
  then have m1: "mem_ok ci qi qo [] s1" by (simp add: wrapped_def)
  obtain s2 where s2: "(if \<not> is_empty_bin (ss_bins s1 (co_out_bin (ss_cores s1 ci)))
           then core_flush_q_out ci qo (core_log ci adm_log_q_out_flush_batch_finished s1) else Some s1) = Some s2"
    "wrapped strict ci qi qo Q K s2" "open_size (out_open ci) s2 = 0" "keeps_run ci s1 s2"
  proof (cases "open_size (out_open ci) s1 = 0")
    case True
    then show ?thesis using that [of s1] w1 by (simp add: open_size_def out_open_def)
  next
    case False
    let ?s = "core_log ci adm_log_q_out_flush_batch_finished s1"
    have "wrapped strict ci qi qo Q K ?s" "open_size (out_open ci) ?s \<noteq> 0" using w1 False by simp_all
    from flush_out_wrapped [OF this(1) ne this(2)] show ?thesis
      using that False keeps_run_trans [OF keeps_run_frame [OF frame_core_log]] by (auto simp: open_size_def out_open_def)
  qed
  then have m2: "mem_ok ci qi qo [] s2" by (simp add: wrapped_def)
  obtain s3 where s3: "(if \<not> is_empty_bin (ss_bins s2 (co_spent_bin (ss_cores s2 ci)))
           then core_flush_q_spent ci (core_log ci adm_log_q_spent_flush_batch_finished s2) else Some s2) = Some s3"
    "wrapped strict ci qi qo Q K s3" "open_size (out_open ci) s3 = 0" "open_size (spent_open ci) s3 = 0" "keeps_run ci s2 s3"
  proof (cases "open_size (spent_open ci) s2 = 0")
    case True
    then show ?thesis using that [of s2] s2 by (simp add: open_size_def spent_open_def)
  next
    case False
    let ?s = "core_log ci adm_log_q_spent_flush_batch_finished s2"
    have "wrapped strict ci qi qo Q K ?s" "open_size (spent_open ci) ?s \<noteq> 0" using s2 False by simp_all
    from flush_spent_wrapped [OF this] show ?thesis
      using that s2(3) False keeps_run_trans [OF keeps_run_frame [OF frame_core_log]] by (auto simp: open_size_def spent_open_def)
  qed
  obtain n s4 where s4: "burst_q_in_to_q_out qi qo s3 = Some (n, s4)" "wrapped strict ci qi qo Q K s4"
    "open_size (out_open ci) s4 = 0" "open_size (spent_open ci) s4 = 0" "keeps_run ci s3 s4"
    using burst_wrapped [OF s3(2) ne s3(3,4)] by blast
  have k: "keeps_run ci st s4" using k1 s2(4) s3(5) s4(5) keeps_run_trans by blast
  define s5 where "s5 = upd_core ci (co_current_timeslot_update (\<lambda>t. t + of_nat (n_cores * BATCH_SIZE)))
      (core_log ci (\<lambda>s. adm_log_passed_bins_during_wrap_up s (of_nat n)) s4)"
  have sm0: "same_mem ci s4 s5" unfolding s5_def by (rule same_mem_trans [OF same_mem_core_log same_mem_upd_core]) simp_all
  note sm = same_memD [OF sm0]
  have c: "cbs ci s5 = cbs ci s4" "adm ci s5 = adm ci s4" "co_admitted (ss_cores s5 ci) = co_admitted (ss_cores s4 ci)"
    "co_current_timeslot (ss_cores s5 ci) = co_current_timeslot (ss_cores s4 ci) + of_nat (n_cores * BATCH_SIZE)"
    "ss_q_admitted_out s5 = ss_q_admitted_out s4" "ss_admitted_traffic_mempool s5 = ss_admitted_traffic_mempool s4"
    by (simp_all add: s5_def adm_def [abs_def] core_log_def)
  have o: "open_size (out_open ci) s5 = open_size (out_open ci) s4" "open_size (spent_open ci) s5 = open_size (spent_open ci) s4"
    "pool_size s5 = pool_size s4"
    using sm0 by (simp_all add: same_mem_def open_size_def pool_size_def)
  have "wrapped strict ci qi qo Q K s5"
    using s4(2) by (simp add: wrapped_def sm slots_ok_def c o total_units_def [abs_def] flows_def)
  moreover have "wrap_up_batch n_cores ci qi qo st = Some s5"
    unfolding wrap_up_batch_def s1(1) bind.bind_lunit s2(1) s3(1) s4(1) by (simp add: s5_def)
  ultimately show ?thesis using c o s4(3,4) k by (simp add: keeps_run_def)
qed

end
