(* ===== verification/Alloc_Start.thy ===== *)
theory Alloc_Start
  imports Alloc_Wrap
begin

text \<open>
  A batch from its start: what \<open>seq_get_admissible_traffic\<close> needs of the state, and what it leaves behind.
\<close>

section \<open>What a batch needs\<close>

text \<open>
  Every bin of the pool has one owner; the open bins of the core are empty; the rings and the pools have room
  for every demand that may reach the core; the demands on the rings are those of known nodes, and none of
  them was last served in the time slots of this batch. A \<open>strict\<close> batch has no boundary capacity and no
  traffic for the boundary.
\<close>

definition batch_pre :: "bool \<Rightarrow> nat \<Rightarrow> nat \<Rightarrow> nat \<Rightarrow> status \<Rightarrow> bool" where
  "batch_pre strict ci qi qo st \<longleftrightarrow> mem_ok ci qi qo [] st \<and> room_ok ci qi qo 0 st
     \<and> open_size (out_open ci) st = 0 \<and> open_size (spent_open ci) st = 0
     \<and> (\<forall>i < N_REQ. bin_ok (co_new_request_bins (ss_cores st ci) i) \<and> b_cap (co_new_request_bins (ss_cores st ci) i) = LARGE_BIN_SIZE)
     \<and> (\<forall>e \<in> set (v_head st) \<union> set (v_in qi st). valid_edge strict e \<and> fresh_edge (co_current_timeslot (ss_cores st ci)) e)
     \<and> unat (ss_num_nodes st) \<le> MAX_NODES \<and> (strict \<longrightarrow> ss_out_of_boundary_capacity st = 0)
     \<and> mp_inv (ss_admitted_traffic_mempool st) \<and> distinct (mp_list (ss_admitted_traffic_mempool st))
     \<and> BATCH_SIZE \<le> length (mp_list (ss_admitted_traffic_mempool st))
     \<and> ring_inv (ss_q_admitted_out st) \<and> BATCH_SIZE \<le> ring_free (ss_q_admitted_out st)"

text \<open>The packets that wait for a pair, and the flows that are known, before or after a batch.\<close>

definition waiting_units :: "nat \<Rightarrow> nat \<Rightarrow> nat \<Rightarrow> status \<Rightarrow> u16 \<times> u16 \<Rightarrow> nat" where
  "waiting_units ci qi qo st p = units p (mset (v_head st) + mset (v_in qi st) + mset (v_out ci qo st))"

definition admitted_units :: "nat \<Rightarrow> status \<Rightarrow> u16 \<times> u16 \<Rightarrow> nat" where
  "admitted_units ci st p = (\<Sum>t < BATCH_SIZE. count (mset (adm ci st t)) p)"

text \<open>The state in which the loop starts.\<close>

definition batch_start :: "nat \<Rightarrow> addr list \<Rightarrow> addr fp_mempool \<Rightarrow> status \<Rightarrow> status" where
  "batch_start ci as mp st =
     (let st = upd_core ci (\<lambda>core. core\<lparr>co_admitted := (\<lambda>i. if i < BATCH_SIZE then as ! i else co_admitted core i)\<rparr>)
                (st\<lparr>ss_admitted_traffic_mempool := mp\<rparr>)
      in st\<lparr>ss_adms := fold (\<lambda>a adms. adms(a := init_admitted_traffic (adms a))) as (ss_adms st)\<rparr>)"

lemma adm_list_fold_init:
  "a \<in> set as \<or> adm_list (adms a) = [] \<Longrightarrow> adm_list (fold (\<lambda>a adms. adms(a := init_admitted_traffic (adms a))) as adms a) = []"
  by (induction as arbitrary: adms) auto

lemma batch_start_ready:
  assumes pre: "batch_pre strict ci qi qo st"
  shows "\<exists>st1 as mp. alloc_core_reset ci st = Some st1
    \<and> is_empty_bin (ss_bins st1 (co_out_bin (ss_cores st1 ci))) \<and> is_empty_bin (ss_bins st1 (co_spent_bin (ss_cores st1 ci)))
    \<and> fp_mempool_get_bulk (ss_admitted_traffic_mempool st1) BATCH_SIZE = Some (as, mp)
    \<and> mp_list (ss_admitted_traffic_mempool st) = mp_list mp @ as
    \<and> map (co_admitted (ss_cores (batch_start ci as mp st1) ci)) [0 ..< BATCH_SIZE] = as
    \<and> ss_admitted_traffic_mempool (batch_start ci as mp st1) = mp
    \<and> co_current_timeslot (ss_cores (batch_start ci as mp st1) ci) = co_current_timeslot (ss_cores st ci)
    \<and> batch_ready strict ci qi qo (waiting_units ci qi qo st) (flows ci qi qo {#} st) (ring_list (ss_q_admitted_out st))
        (batch_start ci as mp st1) 0 (batch_start ci as mp st1)"
proof -
  let ?c = "ss_cores st ci"
  obtain bs where bs: "batch_state_init (co_batch_state ?c) (ss_oversubscribed st) (ss_inter_rack_capacity st)
      (ss_out_of_boundary_capacity st) (ss_num_nodes st) = Some bs"
    "\<forall>t. slot_allowed bs t \<longleftrightarrow> t < BATCH_SIZE" "\<forall>t < BATCH_SIZE. bs_out_of_boundary_counts bs t = ss_out_of_boundary_capacity st"
    using batch_state_init_spec [of "ss_num_nodes st" "co_batch_state ?c"] pre unfolding batch_pre_def by blast
  obtain as mp where get: "fp_mempool_get_bulk (ss_admitted_traffic_mempool st) BATCH_SIZE = Some (as, mp)"
    using pre fp_mempool_get_bulk_None [of "ss_admitted_traffic_mempool st" BATCH_SIZE]
    by (cases "fp_mempool_get_bulk (ss_admitted_traffic_mempool st) BATCH_SIZE") (auto simp: batch_pre_def)
  have mp: "mp_list (ss_admitted_traffic_mempool st) = mp_list mp @ as" "length as = BATCH_SIZE"
    using fp_mempool_get_bulk_Some [OF _ get] pre by (simp_all add: batch_pre_def)
  define c1 where "c1 = ?c\<lparr>co_new_request_bins :=
       (\<lambda>i. if i < NUM_BINS + BATCH_SIZE then init_bin (co_new_request_bins ?c i) else co_new_request_bins ?c i),
     co_allowed_bins := (\<lambda>i. if i = 0 then 1 else if i < BIN_MASK_SIZE then 0 else co_allowed_bins ?c i), co_batch_state := bs,
       co_non_empty_bins := (\<lambda>i. if i < BIN_MASK_SIZE then 0 else co_non_empty_bins ?c i)\<rparr>"
  define st1 where "st1 = upd_core ci (\<lambda>_. c1) st"
  have empty: "is_empty_bin (ss_bins st (co_out_bin ?c))" "is_empty_bin (ss_bins st (co_spent_bin ?c))"
    using pre by (simp_all add: batch_pre_def open_size_def out_open_def spent_open_def)
  have reset: "alloc_core_reset ci st = Some st1"
    using empty bs(1) by (simp add: alloc_core_reset_def st1_def c1_def Let_def cong: if_cong)
  define s where "s = batch_start ci as mp st1"
  have sm0: "same_mem ci st s"
    by (simp add: s_def batch_start_def st1_def same_mem_def out_open_def spent_open_def c1_def)
  note sm = same_memD [OF sm0]
  have mask: "0 < BIN_MASK_SIZE" by (simp add: BIN_MASK_SIZE_def NUM_BINS_def BATCH_SIZE_def)
  have c: "cbs ci s = bs" "co_non_empty_bins (ss_cores s ci) 0 = 0" "co_allowed_bins (ss_cores s ci) 0 = 1"
    "co_new_request_bins (ss_cores s ci) = co_new_request_bins c1"
    "co_current_timeslot (ss_cores s ci) = co_current_timeslot ?c" "ss_q_admitted_out s = ss_q_admitted_out st"
    "ss_admitted_traffic_mempool s = mp"
    using mask by (simp_all add: s_def batch_start_def st1_def c1_def)
  have as: "co_admitted (ss_cores s ci) t = as ! t" if "t < BATCH_SIZE" for t using that by (simp add: s_def batch_start_def)
  then have as': "map (co_admitted (ss_cores s ci)) [0 ..< BATCH_SIZE] = as"
    using mp(2) by (intro nth_equalityI) simp_all
  have inj: "inj_on (co_admitted (ss_cores s ci)) {..< BATCH_SIZE}"
  proof -
    have "distinct as" using pre by (simp add: batch_pre_def mp(1))
    then show ?thesis using as mp(2) by (auto simp: inj_on_def nth_eq_iff_index_eq)
  qed
  have adm0: "adm ci s t = []" if "t < BATCH_SIZE" for t
    using that as mp(2) by (simp add: adm_def) (auto simp: s_def batch_start_def intro!: adm_list_fold_init)
  let ?f = "\<lambda>_ :: nat. [] :: backlog_edge list"
  have bag0: "bag ?f = {#}" by (simp add: bag_def)
  have "req_ok {} ?f (ss_cores s ci)" using pre by (simp add: req_ok_def c batch_pre_def c1_def)
  moreover have "slots_ok strict ci s" using inj bs(2,3) pre by (simp add: slots_ok_def adm0 c batch_pre_def)
  moreover have "edges_ok strict ci qi [] ?f s" using pre by (simp add: edges_ok_def batch_pre_def sm c)
  moreover have "total_units ci qi qo {#} s = waiting_units ci qi qo st"
    by (simp add: total_units_def waiting_units_def fun_eq_iff sm adm0)
  moreover have "flows ci qi qo {#} s = flows ci qi qo {#} st" by (simp add: flows_def sm)
  ultimately have "binv strict ci qi qo (waiting_units ci qi qo st) (flows ci qi qo {#} st) [] [] {} ?f s"
    using pre by (simp add: binv_def sm bag0 batch_pre_def late_ok_def)
  moreover have "published ci (ring_list (ss_q_admitted_out st)) 0 s"
    using pre bs(2) ring_list_le_cap [of "ss_q_admitted_out st"] by (auto simp: published_def batch_pre_def c ring_free_def)
  ultimately have "batch_ready strict ci qi qo (waiting_units ci qi qo st) (flows ci qi qo {#} st) (ring_list (ss_q_admitted_out st)) s 0 s"
    by (auto simp: batch_ready_def c bit_1_iff NUM_BINS_def)
  moreover have "ss_admitted_traffic_mempool st1 = ss_admitted_traffic_mempool st" by (simp add: st1_def)
  moreover have "is_empty_bin (ss_bins st1 (co_out_bin (ss_cores st1 ci)))" "is_empty_bin (ss_bins st1 (co_spent_bin (ss_cores st1 ci)))"
    using empty by (simp_all add: st1_def c1_def)
  ultimately show ?thesis using reset get mp(1) as' c(5,7) unfolding s_def by metis
qed

section \<open>A whole batch\<close>

definition batch_post :: "bool \<Rightarrow> nat \<Rightarrow> nat \<Rightarrow> nat \<Rightarrow> nat \<Rightarrow> status \<Rightarrow> status \<Rightarrow> bool" where
  "batch_post strict n_cores ci qi qo st st' \<longleftrightarrow>
     (let slots = map (co_admitted (ss_cores st' ci)) [0 ..< BATCH_SIZE] in
        ring_list (ss_q_admitted_out st') = ring_list (ss_q_admitted_out st) @ slots
      \<and> mp_list (ss_admitted_traffic_mempool st) = mp_list (ss_admitted_traffic_mempool st') @ slots)
     \<and> slots_ok strict ci st'
     \<and> (\<forall>p. waiting_units ci qi qo st' p + admitted_units ci st' p = waiting_units ci qi qo st p)
     \<and> flows ci qi qo {#} st' = flows ci qi qo {#} st
     \<and> mem_ok ci qi qo [] st' \<and> open_size (out_open ci) st' = 0 \<and> open_size (spent_open ci) st' = 0
     \<and> co_current_timeslot (ss_cores st' ci) = co_current_timeslot (ss_cores st ci) + of_nat (n_cores * BATCH_SIZE)"

lemma seq_get_admissible_traffic_ok:
  assumes pre: "batch_pre strict ci qi qo st" and q: "qi = ci" "qo = (ci + 1) mod n_cores" and ne: "qi \<noteq> qo"
  shows "returns (seq_get_admissible_traffic n_cores ci first st) (batch_post strict n_cores ci qi qo st)"
proof -
  let ?Q = "waiting_units ci qi qo st" and ?K = "flows ci qi qo {#} st" and ?A = "ring_list (ss_q_admitted_out st)"
  obtain st1 as mp where s1: "alloc_core_reset ci st = Some st1" "is_empty_bin (ss_bins st1 (co_out_bin (ss_cores st1 ci)))"
    "is_empty_bin (ss_bins st1 (co_spent_bin (ss_cores st1 ci)))"
    "fp_mempool_get_bulk (ss_admitted_traffic_mempool st1) BATCH_SIZE = Some (as, mp)"
    and mp: "mp_list (ss_admitted_traffic_mempool st) = mp_list mp @ as"
    and s2: "map (co_admitted (ss_cores (batch_start ci as mp st1) ci)) [0 ..< BATCH_SIZE] = as"
      "ss_admitted_traffic_mempool (batch_start ci as mp st1) = mp"
      "co_current_timeslot (ss_cores (batch_start ci as mp st1) ci) = co_current_timeslot (ss_cores st ci)"
    and r: "batch_ready strict ci qi qo ?Q ?K ?A (batch_start ci as mp st1) 0 (batch_start ci as mp st1)"
    using batch_start_ready [OF pre] by blast
  define s where "s = batch_start ci as mp st1"
  define v where "v = \<lparr>bv_now = first - of_nat NUM_BINS - 1, bv_prev = first - of_nat NUM_BINS - 2,
              bv_should_process_new_req = False, bv_admitted_bins = 0, bv_processed_bins = 0, bv_n_processed = 0\<rparr>"
  have "clocked first 0 v" by (simp add: clocked_def v_def NUM_BINS_def)
  then obtain s3 where s3: "batch_loop n_cores ci qi qo first v s = Some s3" "batch_ready strict ci qi qo ?Q ?K ?A s 48 s3"
    using batch_loop_ok [of strict ci qi qo ?Q ?K ?A s 47 s first v n_cores] r ne by (auto simp: s_def elim: returnsE)
  then obtain f where f: "binv strict ci qi qo ?Q ?K [] [] {} f s3" and p: "published ci ?A BATCH_SIZE s3"
    by (auto simp: batch_ready_def BATCH_SIZE_def)
  obtain s4 where s4: "wrap_up_batch n_cores ci qi qo s3 = Some s4" "wrapped strict ci qi qo ?Q ?K s4"
    "open_size (out_open ci) s4 = 0" "open_size (spent_open ci) s4 = 0"
    "co_current_timeslot (ss_cores s4 ci) = co_current_timeslot (ss_cores s3 ci) + of_nat (n_cores * BATCH_SIZE)"
    "ss_q_admitted_out s4 = ss_q_admitted_out s3" "ss_admitted_traffic_mempool s4 = ss_admitted_traffic_mempool s3"
    "co_admitted (ss_cores s4 ci) = co_admitted (ss_cores s3 ci)"
    using wrap_up_ok [OF f ne, of n_cores] by (auto elim: returnsE)
  have c: "co_admitted (ss_cores s3 ci) = co_admitted (ss_cores s ci)"
    "co_current_timeslot (ss_cores s3 ci) = co_current_timeslot (ss_cores st ci)" "ss_admitted_traffic_mempool s3 = mp"
    using s3(2) s2 by (simp_all add: batch_ready_def s_def)
  have slots: "map (co_admitted (ss_cores s4 ci)) [0 ..< BATCH_SIZE] = as" unfolding s4(8) c(1) s_def by (rule s2(1))
  have tot: "total_units ci qi qo {#} s4 = ?Q" using s4(2) by (simp add: wrapped_def)
  have "waiting_units ci qi qo s4 p + admitted_units ci s4 p = ?Q p" for p
    using fun_cong [OF tot, of p] by (simp add: total_units_def waiting_units_def admitted_units_def)
  moreover have "ring_list (ss_q_admitted_out s4) = ?A @ as"
    using p slots by (simp add: published_def s4(6,8))
  ultimately have "batch_post strict n_cores ci qi qo st s4"
    using s4(2-5) mp slots by (simp add: batch_post_def wrapped_def s4(7) c(2,3))
  moreover have "seq_get_admissible_traffic n_cores ci first st = Some s4"
    using s1(2,3) s3(1) s4(1) unfolding seq_get_admissible_traffic_def q(2) [symmetric] q(1)
    by (simp add: s1(1,4) v_def [symmetric] s_def batch_start_def Let_def)
  ultimately show ?thesis by simp
qed

end
