(* ===== verification/Bin_Index.thy ===== *)
theory Bin_Index
  imports Admissible
begin

text \<open>
  Which bin a flow belongs to, \<open>bin_index_from_timeslot\<close>: the bit tricks of the source against a definition by
  ranges of the time since the flow was last served.
\<close>

definition slot_gap :: "u32 \<Rightarrow> u64 \<Rightarrow> nat" where
  "slot_gap last_allocated current_timeslot = unat (ucast (current_timeslot + 16) - last_allocated :: u32)"

text \<open>One bin per slot up to a gap of 32, then groups of sixteen slots that share 8, 4, 2 and 1 bins, then one bin.\<close>

definition gap_bin :: "nat \<Rightarrow> nat" where
  "gap_bin g =
     (if g \<le> 32 then 47 - g
      else if g < 49 then 15 - (g - 33) div 2
      else if g < 65 then 7 - (g - 49) div 4
      else if g < 81 then 3 - (g - 65) div 8
      else if g < 97 then 1
      else 0)"

text \<open>The 16-bit group number forgets all but the lowest 20 bits of the gap behind the first 33 slots.\<close>

definition fold_gap :: "nat \<Rightarrow> nat" where
  "fold_gap g = (if g \<le> 32 then g else 33 + (g - 33) mod 2 ^ 20)"

lemma group_bits_all:
  "\<forall>r \<in> set [0 ..< 16]. \<forall>k \<in> set [0 ..< 4].
     unat (15 - ((ucast (shr64 (push_bit 5 (- 1) OR of_nat r) (1 + k)) OR 32768 :: u16) AND 15))
     = (if k = 0 then 15 - r div 2 else if k = 1 then 7 - r div 4 else if k = 2 then 3 - r div 8 else 1)"
  by code_simp

lemma group_bits:
  assumes "r < 16" "k < 4"
  shows "unat (15 - ((ucast (shr64 (push_bit 5 (- 1) OR of_nat r) (1 + k)) OR 32768 :: u16) AND 15))
    = (if k = 0 then 15 - r div 2 else if k = 1 then 7 - r div 4 else if k = 2 then 3 - r div 8 else 1)"
  using group_bits_all assms by simp

lemma large_bits: "(x OR 32767 :: u16) AND 15 = 15"
proof -
  have "(x OR mask 15) AND mask 4 = (mask 4 :: u16)" by (rule bit_eqI) (auto simp: bit_simps)
  then show ?thesis by (simp add: mask_eq_exp_minus_1)
qed

lemma gap_bin_split:
  assumes "q = n div 16" "r = n mod 16"
  shows "gap_bin (33 + n) = (if q = 0 then 15 - r div 2 else if q = 1 then 7 - r div 4 else if q = 2 then 3 - r div 8
    else if q = 3 then 1 else 0)"
proof -
  have n: "n = 16 * q + r" "r < 16" using assms by simp_all
  consider "q = 0" | "q = 1" | "q = 2" | "q = 3" | "4 \<le> q" by linarith
  then show ?thesis by cases (use n in \<open>simp_all add: gap_bin_def\<close>)
qed

lemma bin_index_eq: "unat (bin_index_from_timeslot m t) = gap_bin (fold_gap (slot_gap m t))"
proof -
  define w where "w = (ucast (t + 16) - m :: u32)"
  define g where "g = unat w"
  have g: "slot_gap m t = g" by (simp add: slot_gap_def g_def w_def)
  have le: "w \<le> 32 \<longleftrightarrow> g \<le> 32" by (simp add: g_def word_le_nat_alt)
  have g32: "g < 2 ^ 32" by (simp add: g_def)
  show ?thesis
  proof (cases "g \<le> 32")
    case True
    have "unat (ucast (47 - w) :: u16) = 47 - g"
    proof -
      have "unat (47 - w) = 47 - g" using True le by (subst unat_sub) (simp_all add: word_le_nat_alt g_def)
      then show ?thesis using True by (simp add: unsigned_ucast_eq take_bit_eq_mod)
    qed
    then show ?thesis
      using True le by (simp add: bin_index_from_timeslot_def Let_def g fold_gap_def gap_bin_def NUM_BINS_def BATCH_SIZE_def w_def [symmetric])
  next
    case False
    define n where "n = g - 33"
    have un: "unat (w - 33) = n" using False by (subst unat_sub) (simp_all add: word_le_nat_alt g_def n_def)
    have n32: "n < 2 ^ 32" using g32 by (simp add: n_def)
    define q where "q = (n div 16) mod 2 ^ 16"
    define r where "r = n mod 16"
    have uq: "unat (ucast (drop_bit 4 (w - 33)) :: u16) = q"
    proof -
      have "unat (drop_bit 4 (w - 33)) = n div 16" 
        using n32 unfolding unsigned_drop_bit_eq un by (simp add: drop_bit_eq_div take_bit_nat_eq_self)
      then show ?thesis unfolding unsigned_ucast_eq q_def by (simp add: take_bit_eq_mod)
    qed
    have ur: "(ucast ((w - 33) AND 15) :: u64) = of_nat r"
    proof -
      have "unat ((w - 33) AND 15) = n AND 15" by (simp add: unsigned_and_eq un)
      also have "\<dots> = n AND mask 4" by (simp add: mask_eq_exp_minus_1)
      also have "\<dots> = r" by (simp add: r_def take_bit_eq_mod flip: take_bit_eq_mask)
      finally have "unat ((w - 33) AND 15) = r" .
      then have "(of_nat (unat ((w - 33) AND 15)) :: u64) = of_nat r" by (rule arg_cong)
      then show ?thesis unfolding of_nat_unat .
    qed
    have fg: "fold_gap g = 33 + n mod 2 ^ 20" using False by (simp add: fold_gap_def n_def)
    have "n mod (16 * 2 ^ 16) = 16 * q + r" unfolding q_def r_def by (rule mod_mult2_eq)
    then have q': "q = (n mod 2 ^ 20) div 16" "r = (n mod 2 ^ 20) mod 16" by (simp_all add: r_def)
    define gi where "gi = (ucast (drop_bit 4 (w - 33)) :: u16)"
    have nw: "\<not> w \<le> 32" using False le by simp
    have eq: "bin_index_from_timeslot m t = 15 - ((ucast (shr64 (push_bit 5 (- 1) OR of_nat r) (1 + q))
        OR (32768 - (if 4 \<le> gi then 1 else 0))) AND 15)"
      using nw
      by (simp add: bin_index_from_timeslot_def Let_def NUM_BINS_def BATCH_SIZE_def BATCH_SHIFT_def w_def [symmetric]
          gi_def [symmetric] ur uq [folded gi_def])
    have gi: "4 \<le> gi \<longleftrightarrow> 4 \<le> q" using uq by (simp add: word_le_nat_alt gi_def)
    show ?thesis
    proof (cases "4 \<le> q")
      case True
      then have "bin_index_from_timeslot m t = 0" unfolding eq using gi by (simp add: large_bits)
      then show ?thesis unfolding g fg gap_bin_split [OF q'] using True by simp
    next
      case False
      then have "\<not> 4 \<le> gi" using gi by simp
      then have "unat (bin_index_from_timeslot m t)
          = (if q = 0 then 15 - r div 2 else if q = 1 then 7 - r div 4 else if q = 2 then 3 - r div 8 else 1)"
        unfolding eq if_not_P [OF \<open>\<not> 4 \<le> gi\<close>] diff_zero using False by (intro group_bits) (simp_all add: r_def)
      then show ?thesis unfolding g fg gap_bin_split [OF q'] using False by simp
    qed
  qed
qed


lemma gap_bin_less: "gap_bin g < 48"
  unfolding gap_bin_def by (auto intro: le_less_trans [OF diff_le_self])

lemma gap_bin_antimono: "g \<le> h \<Longrightarrow> gap_bin h \<le> gap_bin g"
  unfolding gap_bin_def by (auto intro!: diff_le_mono2 div_le_mono)

lemma fold_gap_id: "g < 33 + 2 ^ 20 \<Longrightarrow> fold_gap g = g"
  by (simp add: fold_gap_def)

section \<open>Properties\<close>



text \<open>
  The group number is kept in sixteen bits, so the bin of all older flows is not the bin of all older
  flows: a flow that was last served 1048609 slots before the end of the batch is put into the bin of flows
  that were served 33 slots before it, behind a flow that waited one slot less.
\<close>

theorem bin_index_forgets:
  "unat (bin_index_from_timeslot (ucast (t + 16) - 1048608) t) = 0
   \<and> unat (bin_index_from_timeslot (ucast (t + 16) - 1048609) t) = 15
   \<and> unat (bin_index_from_timeslot (ucast (t + 16) - 33) t) = 15"
  by (simp add: bin_index_eq slot_gap_def fold_gap_def gap_bin_def)

end
