(* ===== verification/Alloc_Example.thy ===== *)
theory Alloc_Example
  imports Alloc_Inv
begin

text \<open>A small state of the allocator, on which the properties of the batch and of the requests are applied.\<close>

section \<open>A state to run a batch on\<close>

definition ex_edge :: "u16 \<Rightarrow> u16 \<Rightarrow> u16 \<Rightarrow> backlog_edge" where
  "ex_edge s d n = \<lparr>e_src = s, e_dst = d, e_backlog = n, e_metric = 0\<rparr>"

definition ex_core_stat :: admission_core_statistics where
  "ex_core_stat = \<lparr>cs_no_available_timeslots_for_bin_entry = 0, cs_bin_size_histogram = (\<lambda>_. 0), cs_core_bins_histogram = (\<lambda>_. 0),
     cs_wait_for_space_in_q_bin_out = 0, cs_wait_for_space_in_q_spent = 0, cs_out_bin_alloc_failed = 0,
     cs_q_out_flush_bin_full = 0, cs_q_out_flush_batch_finished = 0, cs_q_spent_flush_bin_full = 0,
     cs_q_spent_flush_batch_finished = 0, cs_waiting_to_pass_token = 0, cs_passed_bins_during_wrap_up = 0,
     cs_passed_bins_during_run = 0, cs_wrap_up_non_empty_bin = 0, cs_wrap_up_non_empty_bin_demands = 0,
     cs_allocated_backlog_remaining = 0, cs_backlog_sum = 0, cs_allocated_no_backlog = 0, cs_backlog_histogram = (\<lambda>_. 0),
     cs_admitted_traffic_alloc_failed = 0, cs_wait_for_space_in_q_admitted_out = 0, cs_new_request_bins = 0,
     cs_new_requests = 0, cs_phase_finished = 0, cs_phase_none_ready = 0, cs_phase_out_of_order = 0\<rparr>"

definition ex_stat :: admission_statistics where
  "ex_stat = \<lparr>gs_added_backlog_atomically = 0, gs_backlog_sum_atomically = 0, gs_backlog_sum_inc_atomically = 0,
     gs_added_backlog_to_queue = 0, gs_backlog_sum_to_queue = 0, gs_backlog_sum_inc_to_queue = 0, gs_spent_bins = 0,
     gs_spent_demands = 0, gs_wait_for_space_in_q_head = 0, gs_new_demands_bin_alloc_failed = 0,
     gs_backlog_flush_forced = 0, gs_backlog_flush_bin_full = 0\<rparr>"

definition ex_batch :: batch_state where
  "ex_batch = \<lparr>bs_oversubscribed = False, bs_allowed_mask = 0, bs_src_endnodes = (\<lambda>_. 0), bs_dst_endnodes = (\<lambda>_. 0),
     bs_src_rack_bitmaps = (\<lambda>_. 0), bs_dst_rack_bitmaps = (\<lambda>_. 0), bs_src_rack_counts = (\<lambda>_. 0),
     bs_dst_rack_counts = (\<lambda>_. 0), bs_out_of_boundary_counts = (\<lambda>_. 0)\<rparr>"

definition ex_core :: core where
  "ex_core = \<lparr>co_new_request_bins = (\<lambda>_. create_bin (\<lambda>_. ex_edge 0 0 0) LARGE_BIN_SIZE), co_non_empty_bins = (\<lambda>_. 0),
     co_allowed_bins = (\<lambda>_. 0), co_batch_state = ex_batch, co_admitted = (\<lambda>_. 0), co_out_bin = 9, co_spent_bin = 10,
     co_stat = ex_core_stat, co_current_timeslot = 100\<rparr>"

definition ex_small_bin :: "backlog_edge list \<Rightarrow> bin" where
  "ex_small_bin es = \<lparr>b_size = of_nat (length es), b_cap = SMALL_BIN_SIZE, b_edges = (\<lambda>i. if i < length es then es ! i else ex_edge 0 0 0)\<rparr>"

definition ex_queue :: "u32 \<Rightarrow> addr list \<Rightarrow> addr fp_ring" where
  "ex_queue m as = \<lparr>r_head = 0, r_tail = of_nat (length as), r_mask = m, r_elem = (\<lambda>i. if i < length as then as ! i else 0)\<rparr>"

text \<open>
  Two cores, a bin with three demands on \<open>q_head\<close>, two of them for the same destination and two of the same
  source. \<open>cap\<close> is the boundary capacity.
\<close>

definition ex_status :: "u16 \<Rightarrow> status" where
  "ex_status cap = \<lparr>ss_oversubscribed = False, ss_out_of_boundary_capacity = cap, ss_inter_rack_capacity = 0, ss_num_nodes = 64,
     ss_last_alloc_tslot = (\<lambda>_. 0), ss_backlog = \<lparr>bl_n = (\<lambda>_. 0), bl_is_active = (\<lambda>_. 0)\<rparr>, ss_new_demands = 8,
     ss_q_head = ex_queue 7 [7], ss_q_admitted_out = ex_queue 31 [], ss_q_spent = ex_queue 7 [],
     ss_bin_mempool = \<lparr>mp_total = 16, mp_cur = 6, mp_elements = id\<rparr>,
     ss_admitted_traffic_mempool = \<lparr>mp_total = 16, mp_cur = 16, mp_elements = id\<rparr>,
     ss_cores = (\<lambda>_. ex_core), ss_q_bin = (\<lambda>_. ex_queue 7 []), ss_stat = ex_stat,
     ss_bins = (\<lambda>a. ex_small_bin (if a = 7 then [ex_edge 1 2 2, ex_edge 3 2 1, ex_edge 1 4 1] else [])),
     ss_adms = (\<lambda>_. create_admitted_traffic (\<lambda>_. \<lparr>a_src = 0, a_dst = 0\<rparr>))\<rparr>"

lemma ex_small_bin_ok:
  assumes "length es \<le> SMALL_BIN_SIZE"
  shows "small_bin (ex_small_bin es) \<and> bin_list (ex_small_bin es) = es"
proof -
  have u: "unat (of_nat (length es) :: u32) = length es" using assms by (intro unat_of_nat_word) (simp add: SMALL_BIN_SIZE_def)
  have "bin_list (ex_small_bin es) = es"
    unfolding bin_list_def ex_small_bin_def bin_get_def bin.simps u by (intro nth_equalityI) simp_all
  then show ?thesis
    using assms unfolding small_bin_def bin_ok_def by (simp add: ex_small_bin_def u SMALL_BIN_SIZE_def)
qed

lemma ex_queue_ok:
  assumes "k < 32" "m = mask k" "length as \<le> unat m"
  shows "ring_inv (ex_queue m as) \<and> ring_list (ex_queue m as) = as \<and> ring_cap (ex_queue m as) = unat m"
proof -
  have l: "length as < 2 ^ k" using assms unat_mask_u32 [OF assms(1)] by (simp add: less_Suc_eq_le [symmetric])
  have k: "(2 :: nat) ^ k < 2 ^ 32" using assms(1) by (intro power_strict_increasing) simp_all
  have u: "unat (of_nat i :: u32) = i" if "i \<le> length as" for i using that l k by (intro unat_of_nat_word) simp
  have "unat (of_nat i AND mask k :: u32) = i" if "i < length as" for i
    using that l u [of i] by (simp add: unsigned_take_bit_eq take_bit_nat_eq_self flip: take_bit_eq_mask)
  then have "ring_slot (ex_queue m as) (of_nat i) = as ! i" if "i < length as" for i
    using that assms(2) by (simp add: ring_slot_def ex_queue_def)
  moreover have un: "unat (r_tail (ex_queue m as) - r_head (ex_queue m as)) = length as" by (simp add: ex_queue_def u)
  moreover have "r_head (ex_queue m as) = 0" by (simp add: ex_queue_def)
  ultimately have "ring_list (ex_queue m as) = as"
    by (intro nth_equalityI) (simp_all add: ring_list_def)
  moreover have "r_mask (ex_queue m as) = m" by (simp add: ex_queue_def)
  ultimately show ?thesis using assms un by (auto simp: ring_inv_def ring_log_def ring_cap_def word_le_nat_alt)
qed

lemma ex_status_queues:
  "ring_inv (ex_queue 7 [7]) \<and> ring_list (ex_queue 7 [7]) = [7] \<and> ring_cap (ex_queue 7 [7]) = 7"
  "ring_inv (ex_queue 7 []) \<and> ring_list (ex_queue 7 []) = [] \<and> ring_cap (ex_queue 7 []) = 7"
  "ring_inv (ex_queue 31 []) \<and> ring_list (ex_queue 31 []) = [] \<and> ring_cap (ex_queue 31 []) = 31"
  using ex_queue_ok [of 3 7 "[7]"] ex_queue_ok [of 3 7 "[]"] ex_queue_ok [of 5 31 "[]"] by (simp_all add: mask_eq_exp_minus_1)

lemma ex_status_bins:
  "small_bin (ss_bins (ex_status cap) a)"
  "bin_list (ss_bins (ex_status cap) a) = (if a = 7 then [ex_edge 1 2 2, ex_edge 3 2 1, ex_edge 1 4 1] else [])"
  using ex_small_bin_ok [of "[ex_edge 1 2 2, ex_edge 3 2 1, ex_edge 1 4 1]"] ex_small_bin_ok [of "[]"]
  by (simp_all add: ex_status_def SMALL_BIN_SIZE_def)

lemma ex_status_pools:
  "mp_inv (ss_bin_mempool (ex_status cap)) \<and> mp_list (ss_bin_mempool (ex_status cap)) = [0, 1, 2, 3, 4, 5]"
  "mp_inv (ss_admitted_traffic_mempool (ex_status cap)) \<and> mp_list (ss_admitted_traffic_mempool (ex_status cap)) = [0 ..< 16]"
  by (simp_all add: ex_status_def mp_inv_def mp_list_def) (simp add: upt_conv_Cons)

lemma ex_status_mem: "mem_ok 0 0 1 [] (ex_status cap)"
proof -
  have "own 0 0 1 (ex_status cap) = [0, 1, 2, 3, 4, 5, 7, 8, 9, 10]"
    using ex_status_queues ex_status_pools(1) [of cap]
    by (simp add: own_def out_open_def spent_open_def) (simp add: ex_status_def ex_core_def)
  moreover have "open_size (out_open 0) (ex_status cap) = 0" "open_size (spent_open 0) (ex_status cap) = 0"
    by (simp_all add: open_size_def out_open_def spent_open_def ex_status_bins) (simp_all add: ex_status_def ex_core_def)
  ultimately show ?thesis
    using ex_status_pools(1) [of cap] ex_status_queues ex_status_bins(1) [of cap]
    by (simp add: mem_ok_def) (simp add: ex_status_def SMALL_BIN_SIZE_def)
qed

lemma ex_status_opens: "open_size (out_open 0) (ex_status cap) = 0" "open_size (spent_open 0) (ex_status cap) = 0"
  by (simp_all add: open_size_def out_open_def spent_open_def ex_status_bins) (simp_all add: ex_status_def ex_core_def)

lemma ex_status_waiting: "v_head (ex_status cap) = [ex_edge 1 2 2, ex_edge 3 2 1, ex_edge 1 4 1]" "v_in 0 (ex_status cap) = []"
proof -
  have "ring_list (ss_q_head (ex_status cap)) = [7]" "ring_list (ss_q_bin (ex_status cap) 0) = []"
    using ex_status_queues by (simp_all add: ex_status_def)
  then show "v_head (ex_status cap) = [ex_edge 1 2 2, ex_edge 3 2 1, ex_edge 1 4 1]" "v_in 0 (ex_status cap) = []"
    by (simp_all add: ex_status_bins)
qed

lemma ex_status_room: "room_ok 0 0 1 0 (ex_status cap)"
proof -
  have "ring_list (ss_q_head (ex_status cap)) = [7]" "ring_list (ss_q_bin (ex_status cap) 0) = []"
    "ring_free (ss_q_bin (ex_status cap) 1) = 7" "ring_free (ss_q_spent (ex_status cap)) = 7"
    "r_head (ss_q_bin (ex_status cap) 1) = 0" "ring_cap (ss_q_bin (ex_status cap) 1) = 7"
    using ex_status_queues by (simp_all add: ex_status_def ring_free_def) (simp add: ex_queue_def)
  moreover have "pool_size (ex_status cap) = 6" using ex_status_pools(1) [of cap] by (simp add: pool_size_def)
  ultimately show ?thesis by (simp add: room_ok_def ex_status_opens LARGE_BIN_SIZE_def MAX_NODES_def)
qed

end
