(* ===== verification/Alloc_Props.thy ===== *)
theory Alloc_Props
  imports Alloc_Start Bin_Index Alloc_Example
begin

text \<open>The properties of a batch of the allocator.\<close>

section \<open>The example state\<close>

lemma ex_status_fresh: "fresh_edge 100 (ex_edge s d n)"
  by (simp add: fresh_edge_def ex_edge_def bin_index_eq slot_gap_def fold_gap_def gap_bin_def NUM_BINS_def)

lemma ex_status_pre: "(strict \<longrightarrow> cap = 0) \<Longrightarrow> batch_pre strict 0 0 1 (ex_status cap)"
  unfolding batch_pre_def
proof (intro conjI)
  show "mem_ok 0 0 1 [] (ex_status cap)" by (rule ex_status_mem)
  show "room_ok 0 0 1 0 (ex_status cap)" by (rule ex_status_room)
  have "co_current_timeslot (ss_cores (ex_status cap) 0) = 100" by (simp add: ex_status_def ex_core_def)
  then show "\<forall>e \<in> set (v_head (ex_status cap)) \<union> set (v_in 0 (ex_status cap)).
      valid_edge strict e \<and> fresh_edge (co_current_timeslot (ss_cores (ex_status cap) 0)) e"
    unfolding ex_status_waiting
    by (simp add: ex_status_fresh) (simp add: valid_edge_def ex_edge_def MAX_NODES_def OUT_OF_BOUNDARY_NODE_ID_def)
  show "\<forall>i < N_REQ. bin_ok (co_new_request_bins (ss_cores (ex_status cap) 0) i)
      \<and> b_cap (co_new_request_bins (ss_cores (ex_status cap) 0) i) = LARGE_BIN_SIZE"
    by (simp add: ex_status_def ex_core_def create_bin_def bin_ok_def init_bin_def LARGE_BIN_SIZE_def MAX_NODES_def)
  show "BATCH_SIZE \<le> ring_free (ss_q_admitted_out (ex_status cap))" "ring_inv (ss_q_admitted_out (ex_status cap))"
    using ex_status_queues(3) by (simp_all add: ex_status_def ring_free_def BATCH_SIZE_def)
qed (use ex_status_opens ex_status_pools(2) [of cap] in
    \<open>simp_all add: BATCH_SIZE_def\<close>, simp_all add: ex_status_def MAX_NODES_def)

section \<open>Properties of a batch\<close>

lemma next_core: "ci < n_cores \<Longrightarrow> 2 \<le> n_cores \<Longrightarrow> ci \<noteq> (ci + 1 :: nat) mod n_cores"
  by (simp add: mod_Suc)

lemma batch_run:
  assumes "batch_pre strict ci ci ((ci + 1) mod n_cores) st" "ci < n_cores" "2 \<le> n_cores"
    "seq_get_admissible_traffic n_cores ci first st = Some st'"
  shows "batch_post strict n_cores ci ci ((ci + 1) mod n_cores) st st'"
  using seq_get_admissible_traffic_ok [OF assms(1) refl refl next_core [OF assms(2,3)], of first] assms(4) by simp

text \<open>
  C3. A batch ends. From a state that has room for the demands at hand, no assertion of the allocator fails,
  no array is left, no wait for a ring or a pool blocks, and the loop over the clock comes to its end. The
  sixteen time slots have then been sent out in their order, each exactly once, in lists of admitted traffic
  that were taken from the pool, and the core is set to its next batch.
\<close>

theorem batch_terminates:
  assumes "batch_pre strict ci ci ((ci + 1) mod n_cores) st" and "ci < n_cores" and "2 \<le> n_cores"
  shows "\<exists>st'. seq_get_admissible_traffic n_cores ci first st = Some st'
    \<and> ring_list (ss_q_admitted_out st')
        = ring_list (ss_q_admitted_out st) @ map (co_admitted (ss_cores st' ci)) [0 ..< BATCH_SIZE]
    \<and> mp_list (ss_admitted_traffic_mempool st)
        = mp_list (ss_admitted_traffic_mempool st') @ map (co_admitted (ss_cores st' ci)) [0 ..< BATCH_SIZE]
    \<and> co_current_timeslot (ss_cores st' ci) = co_current_timeslot (ss_cores st ci) + of_nat (n_cores * BATCH_SIZE)"
  using seq_get_admissible_traffic_ok [OF assms(1) refl refl next_core [OF assms(2,3)], of first]
  by (auto simp: batch_post_def Let_def elim: returnsE)

theorem batch_terminates_witness:
  "\<exists>st'. seq_get_admissible_traffic 2 0 100 (ex_status 16) = Some st' \<and> co_current_timeslot (ss_cores st' 0) = 132"
  using batch_terminates [of False 0 2 "ex_status 16" 100] ex_status_pre [of False 16]
  by (auto simp: BATCH_SIZE_def ex_status_def ex_core_def)



text \<open>
  C1. No packet is lost and none is invented. For each pair of source and destination, the packets that were
  waiting before the batch are those that wait after it, for this core or for the next, and those admitted in
  its sixteen time slots; and each flow that was waiting is afterwards waiting or reported as spent, in
  exactly one place.
\<close>

theorem batch_conserves:
  assumes "batch_pre strict ci ci ((ci + 1) mod n_cores) st" and "ci < n_cores" and "2 \<le> n_cores"
    and "seq_get_admissible_traffic n_cores ci first st = Some st'"
  shows "(\<forall>p. waiting_units ci ci ((ci + 1) mod n_cores) st' p + admitted_units ci st' p
            = waiting_units ci ci ((ci + 1) mod n_cores) st p)
    \<and> flows ci ci ((ci + 1) mod n_cores) {#} st' = flows ci ci ((ci + 1) mod n_cores) {#} st"
  using batch_run [OF assms] by (simp add: batch_post_def)

lemma ex_status_out: "v_out 0 1 (ex_status cap) = []"
  using ex_status_queues(2) ex_status_opens [of cap]
  by (simp add: stream_list_def out_ring_def open_size_def) (simp add: ex_status_def)

theorem batch_conserves_witness:
  "\<exists>st'. seq_get_admissible_traffic 2 0 100 (ex_status 16) = Some st'
     \<and> waiting_units 0 0 1 st' (1, 2) + admitted_units 0 st' (1, 2) = 2"
proof -
  have pre: "batch_pre False 0 0 ((0 + 1) mod 2) (ex_status 16)" using ex_status_pre [of False 16] by simp
  obtain st' where st': "seq_get_admissible_traffic 2 0 100 (ex_status 16) = Some st'"
    using seq_get_admissible_traffic_ok [OF pre refl refl, of 100] by (auto elim: returnsE)
  have "waiting_units 0 0 1 (ex_status 16) (1, 2) = 2"
    unfolding waiting_units_def ex_status_waiting ex_status_out by (simp add: ex_edge_def e_pair_def)
  then show ?thesis using batch_conserves [OF pre _ _ st'] st' by simp
qed



text \<open>
  C27. The allocation is greedy. \<open>try_allocation_core\<close> comes to an end, no bin it is allowed to look at is left
  with a demand, and whatever it hands to the next core could not be served: there is no time slot left that
  is open and free for both the source and the destination of the demand. The state is any state of the
  loop of a batch.
\<close>

theorem allocation_greedy:
  assumes "binv strict ci qi qo Q K [] [] {} f st" and "qi \<noteq> qo"
    and "\<forall>i. bit (co_allowed_bins (ss_cores st ci) 0) i \<longrightarrow> i < N_REQ - 1"
  shows "\<exists>st' new. try_allocation_core ci qo st = Some st'
    \<and> (\<forall>i < N_REQ. bit (co_allowed_bins (ss_cores st ci) 0) i \<longrightarrow> bin_list (co_new_request_bins (ss_cores st' ci) i) = [])
    \<and> v_out ci qo st' = v_out ci qo st @ new
    \<and> (\<forall>e \<in> set new. batch_state_get_avail_bitmap (co_batch_state (ss_cores st' ci)) (e_src e) (e_dst e) = Some 0)"
proof -
  obtain st' f' where st': "try_allocation_core ci qo st = Some st'" "binv strict ci qi qo Q K [] [] {} f' st'"
    "tried ci qo st st'" "co_non_empty_bins (ss_cores st' ci) 0 AND co_allowed_bins (ss_cores st ci) 0 = 0"
    using try_allocation_core_ok [OF assms] by (auto elim!: returnsE)
  have "bin_list (co_new_request_bins (ss_cores st' ci) i) = []"
    if i: "i < N_REQ" "bit (co_allowed_bins (ss_cores st ci) 0) i" for i
  proof -
    have "\<not> bit (co_non_empty_bins (ss_cores st' ci) 0) i" using i(2) st'(4) by (metis bit_0_eq bit_and_iff bot_apply bot_bool_def)
    then show ?thesis using st'(2) i(1) by (auto simp: binv_def req_ok_def)
  qed
  moreover obtain new where new: "v_out ci qo st' = v_out ci qo st @ new"
    "\<forall>e \<in> set new. no_slot (cbs ci st') e"
    using st'(3) by (auto simp: tried_def)
  moreover have "batch_state_get_avail_bitmap (cbs ci st') (e_src e) (e_dst e) = Some 0" if "e \<in> set new" for e
  proof -
    have ns: "no_slot (cbs ci st') e" using new(2) that by blast
    then obtain m where m: "batch_state_get_avail_bitmap (cbs ci st') (e_src e) (e_dst e) = Some m"
      "\<forall>t. bit m t \<longleftrightarrow> avail (cbs ci st') (e_src e) (e_dst e) t"
      using get_avail_bitmap_spec [of "e_src e" "e_dst e" "cbs ci st'"] by (auto simp: no_slot_def)
    then have "m = 0" using ns by (intro bit_eqI) (simp add: no_slot_def)
    then show ?thesis using m(1) by simp
  qed
  ultimately show ?thesis using st'(1) by blast
qed

theorem allocation_greedy_witness:
  "\<exists>st n s st'. process_new_requests 0 st = Some (n, s) \<and> waiting_units 0 0 1 st (1, 2) = 2
     \<and> try_allocation_core 0 1 s = Some st' \<and> bin_list (co_new_request_bins (ss_cores st' 0) 0) = []"
proof -
  have q: "(0 :: nat) \<noteq> 1" by simp
  obtain st1 as mp where r: "batch_ready False 0 0 1 (waiting_units 0 0 1 (ex_status 16)) (flows 0 0 1 {#} (ex_status 16))
      (ring_list (ss_q_admitted_out (ex_status 16))) (batch_start 0 as mp st1) 0 (batch_start 0 as mp st1)"
      and reset: "alloc_core_reset 0 (ex_status 16) = Some st1"
    using batch_start_ready [OF ex_status_pre [of False 16]] by blast
  define st where "st = batch_start 0 as mp st1"
  obtain f where f: "binv False 0 0 1 (waiting_units 0 0 1 (ex_status 16)) (flows 0 0 1 {#} (ex_status 16)) [] [] {} f st"
    using r by (auto simp: batch_ready_def st_def)
  have al: "co_allowed_bins (ss_cores st1 0) 0 = 1"
    using reset unfolding alloc_core_reset_def Let_def by (auto split: bind_splits)
  have same: "same_mem 0 (ex_status 16) st1"
    using reset unfolding alloc_core_reset_def Let_def by (auto split: bind_splits simp: same_mem_def out_open_def spent_open_def)
  have same': "same_mem 0 st1 st" by (simp add: st_def batch_start_def same_mem_def out_open_def spent_open_def)
  have w: "waiting_units 0 0 1 st (1, 2) = 2"
  proof -
    have "waiting_units 0 0 1 st = waiting_units 0 0 1 (ex_status 16)"
      by (simp add: waiting_units_def fun_eq_iff same_memD [OF same_mem_trans [OF same same']])
    moreover have "waiting_units 0 0 1 (ex_status 16) (1, 2) = 2"
      unfolding waiting_units_def ex_status_waiting ex_status_out by (simp add: ex_edge_def e_pair_def)
    ultimately show ?thesis by simp
  qed
  obtain n s g where s: "process_new_requests 0 st = Some (n, s)" "keeps_run 0 st s"
    and g: "binv False 0 0 1 (waiting_units 0 0 1 (ex_status 16)) (flows 0 0 1 {#} (ex_status 16)) [] [] {} g s"
    using process_new_requests_ok [OF f] by (auto elim!: returnsE)
  have al': "co_allowed_bins (ss_cores s 0) 0 = 1"
    using s(2) al by (simp add: keeps_run_def st_def batch_start_def)
  then have "\<forall>i. bit (co_allowed_bins (ss_cores s 0) 0) i \<longrightarrow> i < N_REQ - 1" by (auto simp: bit_1_iff NUM_BINS_def)
  from allocation_greedy [OF g q this] show ?thesis using s(1) w by (auto simp: al' bit_1_iff NUM_BINS_def)
qed

section \<open>The boundary capacity\<close>

text \<open>
  C28. What the boundary capacity does to ordinary traffic. After a source was given a destination inside of
  the network in a time slot, the slot is still offered to every other source for the same destination
  exactly when the boundary capacity is not zero. With the capacity of 16 that the arbiter configures, a node
  is sent to by several sources in one slot.
\<close>

theorem boundary_double_booking:
  assumes "unat num_nodes \<le> MAX_NODES" and "unat s1 < unat num_nodes" and "unat s2 < unat num_nodes"
    and "unat d < unat num_nodes" and "s1 \<noteq> s2" and "unat d \<noteq> OUT_OF_BOUNDARY_NODE_ID" and "t < BATCH_SIZE"
  shows "\<exists>bs bs' m. batch_state_init state oversubscribed inter_rack cap num_nodes = Some bs
    \<and> batch_state_set_occupied_conditional bs s1 d t (push_bit t 1) = Some bs'
    \<and> batch_state_get_avail_bitmap bs' s2 d = Some m
    \<and> (bit m t \<longleftrightarrow> cap \<noteq> 0)"
proof -
  obtain bs where bs: "batch_state_init state oversubscribed inter_rack cap num_nodes = Some bs"
    "\<forall>t. slot_allowed bs t \<longleftrightarrow> t < BATCH_SIZE" "\<forall>s t. unat s < unat num_nodes \<and> t < 64 \<longrightarrow> src_free bs s t"
    "\<forall>d t. (unat d < unat num_nodes \<or> unat d = OUT_OF_BOUNDARY_NODE_ID) \<and> t < 64 \<longrightarrow> dst_free bs d t"
    "\<forall>t < BATCH_SIZE. bs_out_of_boundary_counts bs t = cap"
    using batch_state_init_spec [OF assms(1), of state oversubscribed inter_rack cap] by blast
  have lt: "unat s1 < MAX_NODES" "unat s2 < MAX_NODES" "unat d < MAX_NODES" "t < 64" using assms by (simp_all add: BATCH_SIZE_def)
  have free: "src_free bs s1 t" "src_free bs s2 t" "dst_free bs d t" using bs(3,4) assms lt by blast+
  have m: "bit (push_bit t 1 :: u64) u \<longleftrightarrow> u = t" for u
    using lt(4) by (auto simp: bit_push_bit_iff bit_1_iff simp del: push_bit_of_1)
  obtain bs' where bs': "batch_state_set_occupied_conditional bs s1 d t (push_bit t 1) = Some bs'"
    "bs_allowed_mask bs' = bs_allowed_mask bs" "bs_out_of_boundary_counts bs' = bs_out_of_boundary_counts bs"
    "\<forall>s u. src_free bs' s u \<longleftrightarrow> src_free bs s u \<and> \<not> (s = s1 \<and> u = t)"
    "\<forall>d' u. dst_free bs' d' u \<longleftrightarrow> dst_free bs d' u \<and> \<not> (d' = d \<and> u = t \<and> dst_flips bs' d t)"
    using set_occupied_spec [OF lt(1,3) assms(7) free(1,3) m] assms(6) by auto
  obtain m where m: "batch_state_get_avail_bitmap bs' s2 d = Some m" "\<forall>t. bit m t \<longleftrightarrow> avail bs' s2 d t"
    using get_avail_bitmap_spec [OF lt(2,3)] by blast
  have "bit m t \<longleftrightarrow> cap \<noteq> 0"
    using bs bs' free assms(5-7) by (simp add: m(2) avail_def slot_allowed_def dst_flips_def)
  then show ?thesis using bs(1) bs'(1) m(1) by blast
qed

theorem boundary_double_booking_witness:
  "\<exists>bs bs' m. batch_state_init ex_batch False 0 16 64 = Some bs
    \<and> batch_state_set_occupied_conditional bs 1 2 0 (push_bit 0 1) = Some bs'
    \<and> batch_state_get_avail_bitmap bs' 3 2 = Some m \<and> bit m 0"
  using boundary_double_booking [of 64 1 3 2 0 ex_batch False 0 16]
  by (simp add: MAX_NODES_def OUT_OF_BOUNDARY_NODE_ID_def BATCH_SIZE_def)

end
