(* ===== verification/Alloc_Init.thy ===== *)
theory Alloc_Init
  imports Alloc_Start Alloc_Example
begin

text \<open>
  The initialisation of the allocator, \<open>seq_init_admissible_status\<close>: every core it sets up can run a batch.
\<close>

section \<open>The cores\<close>

definition core_bins :: "nat \<Rightarrow> status \<Rightarrow> addr list" where
  "core_bins n st = concat (map (\<lambda>j. [out_open j st, spent_open j st]) [0 ..< n])"

lemma core_bins_Suc: "core_bins (Suc n) st = core_bins n st @ [out_open n st, spent_open n st]"
  by (simp add: core_bins_def)

lemma core_bins_mem: "j < n \<Longrightarrow> out_open j st \<in> set (core_bins n st) \<and> spent_open j st \<in> set (core_bins n st)"
  by (auto simp: core_bins_def)

lemma core_bins_cong: "(\<And>j. j < n \<Longrightarrow> ss_cores st' j = ss_cores st j) \<Longrightarrow> core_bins n st' = core_bins n st"
  unfolding core_bins_def out_open_def spent_open_def by (intro arg_cong [where f = concat] map_cong) simp_all

text \<open>What does not change while the cores are set up.\<close>

definition init_same :: "status \<Rightarrow> status \<Rightarrow> bool" where
  "init_same st st' \<longleftrightarrow> ss_q_head st' = ss_q_head st \<and> ss_q_admitted_out st' = ss_q_admitted_out st
     \<and> ss_q_spent st' = ss_q_spent st \<and> ss_q_bin st' = ss_q_bin st \<and> ss_new_demands st' = ss_new_demands st
     \<and> ss_admitted_traffic_mempool st' = ss_admitted_traffic_mempool st \<and> ss_num_nodes st' = ss_num_nodes st
     \<and> ss_out_of_boundary_capacity st' = ss_out_of_boundary_capacity st
     \<and> mp_total (ss_bin_mempool st') = mp_total (ss_bin_mempool st)
     \<and> ss_backlog st' = ss_backlog st \<and> ss_last_alloc_tslot st' = ss_last_alloc_tslot st"

lemma init_same_trans: "init_same st st1 \<Longrightarrow> init_same st1 st2 \<Longrightarrow> init_same st st2"
  by (simp add: init_same_def)

text \<open>The first \<open>n\<close> cores are set up; \<open>k\<close> bins are left in the pool.\<close>

definition cores_up :: "nat \<Rightarrow> nat \<Rightarrow> status \<Rightarrow> bool" where
  "cores_up n k st \<longleftrightarrow> mp_inv (ss_bin_mempool st) \<and> pool_size st = k
     \<and> (let as = mp_list (ss_bin_mempool st) @ [ss_new_demands st] @ core_bins n st in
          distinct as \<and> (\<forall>a \<in> set as. small_bin (ss_bins st a)))
     \<and> bin_list (ss_bins st (ss_new_demands st)) = []
     \<and> (\<forall>j < n. bin_list (ss_bins st (out_open j st)) = [] \<and> bin_list (ss_bins st (spent_open j st)) = []
          \<and> co_current_timeslot (ss_cores st j) = of_nat (NUM_BINS + j * BATCH_SIZE)
          \<and> (\<forall>i < N_REQ. bin_ok (co_new_request_bins (ss_cores st j) i) \<and> b_cap (co_new_request_bins (ss_cores st j) i) = LARGE_BIN_SIZE
               \<and> bin_list (co_new_request_bins (ss_cores st j) i) = []))"

lemma pool_get:
  assumes "mp_inv mp" "0 < length (mp_list mp)"
  shows "\<exists>a mp'. fp_mempool_get mp = Some (a, mp') \<and> mp_inv mp' \<and> mp_total mp' = mp_total mp \<and> mp_list mp = mp_list mp' @ [a]"
  using assms fp_mempool_get_None [of mp] fp_mempool_get_Some [OF assms(1)] by (cases "fp_mempool_get mp") auto

lemma alloc_core_init_ok:
  assumes up: "cores_up n (Suc (Suc k)) st"
  shows "\<exists>st'. alloc_core_init junk st n (of_nat (NUM_BINS + n * BATCH_SIZE)) = Some st' \<and> cores_up (Suc n) k st' \<and> init_same st st'"
proof -
  have inv: "mp_inv (ss_bin_mempool st)" and len: "length (mp_list (ss_bin_mempool st)) = Suc (Suc k)"
    using up by (simp_all add: cores_up_def pool_size_def)
  obtain a mp1 where a: "fp_mempool_get (ss_bin_mempool st) = Some (a, mp1)" "mp_inv mp1" "mp_total mp1 = mp_total (ss_bin_mempool st)"
    "mp_list (ss_bin_mempool st) = mp_list mp1 @ [a]"
    using pool_get [OF inv] len by auto
  then have l1: "length (mp_list mp1) = Suc k" using len by simp
  obtain b mp2 where b: "fp_mempool_get mp1 = Some (b, mp2)" "mp_inv mp2" "mp_total mp2 = mp_total mp1" "mp_list mp1 = mp_list mp2 @ [b]"
    using pool_get [OF a(2)] l1 by auto
  define st' where "st' = upd_core n (\<lambda>core. core\<lparr>
       co_new_request_bins := (\<lambda>j. if j < N_REQ then create_bin (junk j) LARGE_BIN_SIZE else co_new_request_bins core j),
       co_out_bin := a, co_spent_bin := b, co_current_timeslot := of_nat (NUM_BINS + n * BATCH_SIZE)\<rparr>)
     (set_bin b (init_bin (((ss_bins st)(a := init_bin (ss_bins st a))) b)) (set_bin a (init_bin (ss_bins st a)) (st\<lparr>ss_bin_mempool := mp2\<rparr>)))"
  have run: "alloc_core_init junk st n (of_nat (NUM_BINS + n * BATCH_SIZE)) = Some st'"
    by (simp add: alloc_core_init_def a(1) b(1) st'_def set_bin_def Let_def)
  have old: "distinct (mp_list (ss_bin_mempool st) @ [ss_new_demands st] @ core_bins n st)"
    "\<forall>a \<in> set (mp_list (ss_bin_mempool st) @ [ss_new_demands st] @ core_bins n st). small_bin (ss_bins st a)"
    using up by (simp_all add: cores_up_def Let_def)
  have ab: "a \<noteq> b" "a \<notin> set (core_bins n st)" "b \<notin> set (core_bins n st)" "ss_new_demands st \<notin> {a, b}"
    using old(1) by (auto simp: a(4) b(4))
  have bins: "ss_bins st' = (ss_bins st)(a := init_bin (ss_bins st a), b := init_bin (ss_bins st b))"
    using ab(1) by (simp add: st'_def set_bin_def)
  have v: "ss_bin_mempool st' = mp2" "ss_new_demands st' = ss_new_demands st" "out_open n st' = a" "spent_open n st' = b"
    "j \<noteq> n \<Longrightarrow> ss_cores st' j = ss_cores st j" for j
    by (simp_all add: st'_def set_bin_def out_open_def spent_open_def upd_core_def)
  have cb: "core_bins n st' = core_bins n st" by (rule core_bins_cong) (simp add: v)
  have perm: "mset (mp_list mp2 @ [ss_new_demands st'] @ core_bins (Suc n) st')
      = mset (mp_list (ss_bin_mempool st) @ [ss_new_demands st] @ core_bins n st)"
    by (simp add: core_bins_Suc cb v a(4) b(4))
  have "distinct (mp_list mp2 @ [ss_new_demands st'] @ core_bins (Suc n) st')"
    using old(1) mset_eq_imp_distinct_iff [OF perm] by blast
  moreover have "\<forall>x \<in> set (mp_list mp2 @ [ss_new_demands st'] @ core_bins (Suc n) st'). small_bin (ss_bins st' x)"
    using old(2) mset_eq_setD [OF perm] by (auto simp: bins)
  moreover have "bin_list (ss_bins st' (ss_new_demands st')) = []" using up ab by (auto simp: v bins cores_up_def)
  moreover have "bin_list (ss_bins st' (out_open j st')) = [] \<and> bin_list (ss_bins st' (spent_open j st')) = []" if "j < Suc n" for j
  proof (cases "j = n")
    case False
    then have j: "j < n" using that by simp
    have "out_open j st' = out_open j st" "spent_open j st' = spent_open j st" using False v(5) by (simp_all add: out_open_def spent_open_def)
    then show ?thesis using j up by (auto simp: bins cores_up_def)
  qed (simp add: v bins)
  moreover have "co_current_timeslot (ss_cores st' j) = of_nat (NUM_BINS + j * BATCH_SIZE)
      \<and> (\<forall>i < N_REQ. bin_ok (co_new_request_bins (ss_cores st' j) i) \<and> b_cap (co_new_request_bins (ss_cores st' j) i) = LARGE_BIN_SIZE
               \<and> bin_list (co_new_request_bins (ss_cores st' j) i) = [])" if "j < Suc n" for j
  proof (cases "j = n")
    case True
    then show ?thesis by (simp add: st'_def create_bin_def bin_ok_def LARGE_BIN_SIZE_def MAX_NODES_def) (simp add: init_bin_def)
  next
    case False
    then show ?thesis using that up v(5) by (simp add: cores_up_def)
  qed
  ultimately have "cores_up (Suc n) k st'" using b(2) l1 b(4) by (simp add: cores_up_def v pool_size_def Let_def)
  moreover have "init_same st st'" using a(3) b(3) by (simp add: init_same_def st'_def set_bin_def upd_core_def)
  ultimately show ?thesis using run by blast
qed

lemma init_cores_ok:
  "cores_up m (2 * (n - m) + k) st \<Longrightarrow> m \<le> n \<Longrightarrow>
   \<exists>st'. init_cores junk [m ..< n] st = Some st' \<and> cores_up n k st' \<and> init_same st st'"
proof (induction "n - m" arbitrary: m st)
  case 0
  then show ?case by (auto simp: init_same_def)
next
  case (Suc d)
  have m: "m < n" "2 * (n - m) + k = Suc (Suc (2 * (n - Suc m) + k))" using Suc.hyps(2) by simp_all
  obtain s where s: "alloc_core_init junk st m (of_nat (NUM_BINS + m * BATCH_SIZE)) = Some s"
    "cores_up (Suc m) (2 * (n - Suc m) + k) s" "init_same st s"
    using alloc_core_init_ok Suc.prems(1) unfolding m(2) by blast
  obtain st' where "init_cores junk [Suc m ..< n] s = Some st'" "cores_up n k st'" "init_same s st'"
    using Suc.hyps(1) [OF _ s(2)] Suc.hyps(2) m(1) by fastforce
  then show ?case using s m(1) init_same_trans by (auto simp: upt_conv_Cons simp del: of_nat_add of_nat_mult)
qed

section \<open>The whole initialisation\<close>

text \<open>
  What the caller hands over: empty rings, a pool of empty bins that has at least four bins more than the
  cores and the new demands take, and a pool of admitted traffic for at least one batch.
\<close>

definition init_pre :: "nat \<Rightarrow> status \<Rightarrow> addr fp_ring \<Rightarrow> addr fp_ring \<Rightarrow> addr fp_ring \<Rightarrow> addr fp_mempool
  \<Rightarrow> addr fp_mempool \<Rightarrow> (nat \<Rightarrow> addr fp_ring) \<Rightarrow> bool" where
  "init_pre n_cores st q_head q_admitted_out q_spent bin_mempool adm_mempool q_bin \<longleftrightarrow>
     ring_inv q_head \<and> ring_list q_head = [] \<and> ring_inv q_spent \<and> ring_list q_spent = [] \<and> 0 < ring_cap q_spent
     \<and> ring_inv q_admitted_out \<and> BATCH_SIZE \<le> ring_free q_admitted_out
     \<and> (\<forall>i < n_cores. ring_inv (q_bin i) \<and> ring_list (q_bin i) = [] \<and> 0 < ring_cap (q_bin i)
          \<and> unat (r_head (q_bin i)) + ring_cap (q_bin i) + 16 < 2 ^ 32)
     \<and> mp_inv bin_mempool \<and> distinct (mp_list bin_mempool) \<and> 2 * n_cores + 3 \<le> length (mp_list bin_mempool)
     \<and> (\<forall>a \<in> set (mp_list bin_mempool). small_bin (ss_bins st a))
     \<and> mp_inv adm_mempool \<and> distinct (mp_list adm_mempool) \<and> BATCH_SIZE \<le> length (mp_list adm_mempool)"

lemma init_ok:
  assumes pre: "init_pre n_cores st q_head q_admitted_out q_spent bin_mempool adm_mempool q_bin"
  shows "\<exists>st'. seq_init_admissible_status junk n_cores st False inter_rack cap num_nodes q_head q_admitted_out q_spent
      bin_mempool adm_mempool q_bin = Some st'
    \<and> cores_up n_cores (length (mp_list bin_mempool) - 1 - 2 * n_cores) st'
    \<and> ss_q_head st' = q_head \<and> ss_q_admitted_out st' = q_admitted_out \<and> ss_q_spent st' = q_spent
    \<and> (\<forall>i < n_cores. ss_q_bin st' i = q_bin i) \<and> ss_admitted_traffic_mempool st' = adm_mempool
    \<and> mp_total (ss_bin_mempool st') = mp_total bin_mempool \<and> ss_num_nodes st' = num_nodes
    \<and> ss_out_of_boundary_capacity st' = cap \<and> ss_backlog st' = backlog_init (ss_backlog st)"
proof -
  have mp: "mp_inv bin_mempool" "distinct (mp_list bin_mempool)" "2 * n_cores + 3 \<le> length (mp_list bin_mempool)"
    "\<forall>a \<in> set (mp_list bin_mempool). small_bin (ss_bins st a)"
    using pre by (simp_all add: init_pre_def)
  obtain a mp1 where a: "fp_mempool_get bin_mempool = Some (a, mp1)" "mp_inv mp1" "mp_total mp1 = mp_total bin_mempool"
    "mp_list bin_mempool = mp_list mp1 @ [a]"
    using pool_get [OF mp(1)] mp(3) by (metis add_gr_0 order_less_le_trans zero_less_numeral)
  obtain s1 where s1: "seq_reset_admissible_status st False inter_rack cap num_nodes = Some s1" "ss_bins s1 = ss_bins st"
    "ss_num_nodes s1 = num_nodes" "ss_out_of_boundary_capacity s1 = cap" "ss_backlog s1 = backlog_init (ss_backlog st)"
    by (simp add: seq_reset_admissible_status_def)
  define s2 where "s2 = s1\<lparr>ss_q_head := q_head, ss_q_admitted_out := q_admitted_out, ss_q_spent := q_spent,
      ss_admitted_traffic_mempool := adm_mempool, ss_q_bin := (\<lambda>i. if i < n_cores then q_bin i else ss_q_bin s1 i),
      ss_bin_mempool := mp1, ss_new_demands := a,
      ss_bins := (ss_bins st)(a := init_bin (ss_bins st a))\<rparr>"
  have k: "length (mp_list mp1) = 2 * (n_cores - 0) + (length (mp_list bin_mempool) - 1 - 2 * n_cores)"
    using mp(3) a(4) by simp
  have "cores_up 0 (2 * (n_cores - 0) + (length (mp_list bin_mempool) - 1 - 2 * n_cores)) s2"
    using a(2) mp(2,4) k unfolding cores_up_def by (auto simp: s2_def a(4) core_bins_def pool_size_def)
  from init_cores_ok [OF this, of junk] obtain st' where st': "init_cores junk [0 ..< n_cores] s2 = Some st'"
    "cores_up n_cores (length (mp_list bin_mempool) - 1 - 2 * n_cores) st'" "init_same s2 st'" by auto
  have "seq_init_admissible_status junk n_cores st False inter_rack cap num_nodes q_head q_admitted_out q_spent
      bin_mempool adm_mempool q_bin = Some st'"
    using st'(1) by (simp add: seq_init_admissible_status_def s1(1) a(1) set_bin_def s2_def s1(2) Let_def)
  moreover have "ss_q_head s2 = q_head" "ss_q_admitted_out s2 = q_admitted_out" "ss_q_spent s2 = q_spent"
    "\<forall>i < n_cores. ss_q_bin s2 i = q_bin i" "ss_admitted_traffic_mempool s2 = adm_mempool"
    "mp_total (ss_bin_mempool s2) = mp_total bin_mempool" "ss_num_nodes s2 = num_nodes" "ss_out_of_boundary_capacity s2 = cap"
    "ss_backlog s2 = backlog_init (ss_backlog st)"
    by (simp_all add: s2_def a(3) s1)
  ultimately show ?thesis using st'(2,3) by (simp add: init_same_def)
qed

lemma mp_list_le_total: "mp_inv mp \<Longrightarrow> length (mp_list mp) \<le> unat (mp_total mp)"
  unfolding mp_inv_def length_mp_list word_le_nat_alt .

text \<open>A core that was set up, with the rings that were handed over, can run a batch.\<close>

lemma core_ready:
  assumes pre: "init_pre n_cores st q_head q_admitted_out q_spent bin_mempool adm_mempool q_bin"
    and up: "cores_up n_cores (length (mp_list bin_mempool) - 1 - 2 * n_cores) st'" and ci: "ci < n_cores"
    and v: "ss_q_head st' = q_head" "ss_q_admitted_out st' = q_admitted_out" "ss_q_spent st' = q_spent"
      "\<forall>i < n_cores. ss_q_bin st' i = q_bin i" "ss_admitted_traffic_mempool st' = adm_mempool"
      "mp_total (ss_bin_mempool st') = mp_total bin_mempool"
    and nodes: "unat (ss_num_nodes st') \<le> MAX_NODES" and strict: "strict \<longrightarrow> ss_out_of_boundary_capacity st' = 0"
  shows "batch_pre strict ci ci ((ci + 1) mod n_cores) st'"
proof -
  let ?k = "length (mp_list bin_mempool) - 1 - 2 * n_cores"
  have k: "2 \<le> ?k" "?k + 1 + 2 * n_cores \<le> unat (mp_total bin_mempool)"
    using pre mp_list_le_total [of bin_mempool] by (auto simp: init_pre_def)
  define qo where "qo = (ci + 1) mod n_cores"
  have qo: "qo < n_cores" using ci by (simp add: qo_def)
  have rings: "ss_q_bin st' ci = q_bin ci" "ss_q_bin st' qo = q_bin qo" using v(4) ci qo by blast+
  have q: "ring_inv (q_bin ci)" "ring_list (q_bin ci) = []" "ring_inv (q_bin qo)" "ring_list (q_bin qo) = []"
    "0 < ring_cap (q_bin qo)" "unat (r_head (q_bin qo)) + ring_cap (q_bin qo) + 16 < 2 ^ 32"
    using pre ci qo unfolding init_pre_def by blast+
  have h: "ring_inv q_head" "ring_list q_head = []" "ring_inv q_spent" "ring_list q_spent = []" "0 < ring_cap q_spent"
    using pre by (simp_all add: init_pre_def)
  have empty: "bin_list (ss_bins st' (out_open ci st')) = []" "bin_list (ss_bins st' (spent_open ci st')) = []"
    and pool: "mp_inv (ss_bin_mempool st')" "pool_size st' = ?k"
    and al: "distinct (mp_list (ss_bin_mempool st') @ [ss_new_demands st'] @ core_bins n_cores st')"
      "\<forall>a \<in> set (mp_list (ss_bin_mempool st') @ [ss_new_demands st'] @ core_bins n_cores st'). small_bin (ss_bins st' a)"
    using up ci unfolding cores_up_def Let_def by blast+
  have own: "own ci ci qo st' = mp_list (ss_bin_mempool st') @ [ss_new_demands st', out_open ci st', spent_open ci st']"
    by (simp add: own_def v(1,3) rings q h)
  have ne: "out_open ci st' \<noteq> spent_open ci st'"
  proof -
    obtain ys zs where "[0 ..< n_cores] = ys @ ci # zs" using split_list [of ci "[0 ..< n_cores]"] ci by auto
    then show ?thesis using al(1) by (simp add: core_bins_def)
  qed
  have "distinct (own ci ci qo st')" using al(1) core_bins_mem [OF ci, of st'] ne by (auto simp: own)
  moreover have "\<forall>a \<in> set (own ci ci qo st'). small_bin (ss_bins st' a)"
    using al(2) core_bins_mem [OF ci, of st'] by (auto simp: own)
  moreover have "length (own ci ci qo st') \<le> unat (mp_total (ss_bin_mempool st'))"
    using pool(2) k ci by (simp add: own v(6) pool_size_def)
  ultimately have mem: "mem_ok ci ci qo [] st'"
    using q h pool(1) by (simp add: mem_ok_def v rings open_size_def empty SMALL_BIN_SIZE_def)
  have "room_ok ci ci qo 0 st'"
    using q(5,6) h(5) pool(2) k(1) by (simp add: room_ok_def v rings q h ring_free_def open_size_def empty Suc_le_eq)
  then show ?thesis
    using mem up ci pre nodes strict unfolding qo_def [symmetric]
    by (simp add: batch_pre_def open_size_def empty v rings q h) (simp add: init_pre_def cores_up_def)
qed

section \<open>Property\<close>

text \<open>
  C29. The initialisation succeeds, and afterwards every core can run its first batch: it satisfies all that
  the properties of a batch ask for, with its own time slots, empty rings and no demand. No pair is active.
\<close>

theorem init_ready:
  assumes pre: "init_pre n_cores st q_head q_admitted_out q_spent bin_mempool adm_mempool q_bin"
    and nodes: "unat num_nodes \<le> MAX_NODES" and strict: "strict \<longrightarrow> cap = 0"
  shows "\<exists>st'. seq_init_admissible_status junk n_cores st False inter_rack cap num_nodes q_head q_admitted_out q_spent
      bin_mempool adm_mempool q_bin = Some st'
    \<and> (\<forall>ci < n_cores. batch_pre strict ci ci ((ci + 1) mod n_cores) st'
         \<and> co_current_timeslot (ss_cores st' ci) = of_nat (NUM_BINS + ci * BATCH_SIZE))
    \<and> ss_backlog st' = backlog_init (ss_backlog st)"
proof -
  let ?k = "length (mp_list bin_mempool) - 1 - 2 * n_cores"
  from init_ok [OF pre, of junk inter_rack cap num_nodes] obtain st' where
    run: "seq_init_admissible_status junk n_cores st False inter_rack cap num_nodes q_head q_admitted_out q_spent
      bin_mempool adm_mempool q_bin = Some st'" and up: "cores_up n_cores ?k st'"
    and v: "ss_q_head st' = q_head" "ss_q_admitted_out st' = q_admitted_out" "ss_q_spent st' = q_spent"
      "\<forall>i < n_cores. ss_q_bin st' i = q_bin i" "ss_admitted_traffic_mempool st' = adm_mempool"
      "mp_total (ss_bin_mempool st') = mp_total bin_mempool" "ss_num_nodes st' = num_nodes"
      "ss_out_of_boundary_capacity st' = cap" "ss_backlog st' = backlog_init (ss_backlog st)"
    by blast
  have "batch_pre strict ci ci ((ci + 1) mod n_cores) st'" if "ci < n_cores" for ci
    by (rule core_ready [OF pre up that v(1-6)]) (use nodes strict v(7,8) in simp_all)
  moreover have "co_current_timeslot (ss_cores st' ci) = of_nat (NUM_BINS + ci * BATCH_SIZE)" if "ci < n_cores" for ci
    using up that by (simp add: cores_up_def)
  ultimately show ?thesis using run v(9) by blast
qed

theorem init_ready_witness:
  "\<exists>st'. seq_init_admissible_status (\<lambda>_ _. ex_edge 0 0 0) 2 (ex_status 16) False 0 16 64 (ex_queue 7 []) (ex_queue 31 [])
      (ex_queue 7 []) \<lparr>mp_total = 16, mp_cur = 8, mp_elements = id\<rparr> \<lparr>mp_total = 16, mp_cur = 16, mp_elements = id\<rparr>
      (\<lambda>_. ex_queue 7 []) = Some st' \<and> batch_pre False 1 1 0 st'"
proof -
  have "init_pre 2 (ex_status 16) (ex_queue 7 []) (ex_queue 31 []) (ex_queue 7 []) \<lparr>mp_total = 16, mp_cur = 8, mp_elements = id\<rparr>
      \<lparr>mp_total = 16, mp_cur = 16, mp_elements = id\<rparr> (\<lambda>_. ex_queue 7 [])"
    using ex_status_queues ex_status_bins(1) [of 16]
    by (simp add: init_pre_def mp_inv_def mp_list_def ring_free_def BATCH_SIZE_def) (simp add: ex_queue_def)
  from init_ready [OF this, of 64 False 16 "\<lambda>_ _. ex_edge 0 0 0" 0] show ?thesis
    by (force simp: MAX_NODES_def dest: spec [of _ 1])
qed

end
