(* ===== verification/Requests.thy ===== *)
theory Requests
  imports Alloc_Example
begin

text \<open>
  The side of the allocator that takes requests: \<open>seq_add_backlog\<close>, \<open>seq_flush_backlog\<close>, \<open>seq_handle_spent\<close> and
  \<open>seq_reset_sender\<close>. A pair is active while one entry of it is in the rings of the allocator; what is
  requested in the meantime is added up in the backlog table, and becomes the next entry when the first is
  reported as spent.
\<close>

section \<open>What is pending for a pair\<close>

abbreviation v_req :: "status \<Rightarrow> backlog_edge list" where
  "v_req st \<equiv> stream_list ss_q_head ss_new_demands st"

abbreviation req_addrs :: "status \<Rightarrow> addr list" where
  "req_addrs st \<equiv> stream_addrs ss_q_head ss_new_demands st"

definition p_index :: "u16 \<times> u16 \<Rightarrow> nat" where
  "p_index p = unat (fst p) * 256 + unat (snd p)"

definition node_pair :: "u16 \<times> u16 \<Rightarrow> bool" where
  "node_pair p \<longleftrightarrow> unat (fst p) < MAX_NODES \<and> unat (snd p) < MAX_NODES"

definition active :: "status \<Rightarrow> u16 \<times> u16 \<Rightarrow> bool" where
  "active st p \<longleftrightarrow> arr_test_bit (bl_is_active (ss_backlog st)) (p_index p)"

definition table :: "status \<Rightarrow> u16 \<times> u16 \<Rightarrow> nat" where
  "table st p = unat (bl_n (ss_backlog st) (p_index p))"

text \<open>Packets in the table and in the entries on their way to the cores.\<close>

definition pending :: "status \<Rightarrow> u16 \<times> u16 \<Rightarrow> nat" where
  "pending st p = table st p + units p (mset (v_req st))"

text \<open>An inactive pair has nothing in the table: the assertion of \<open>backlog_increase\<close>.\<close>

definition table_ok :: "status \<Rightarrow> bool" where
  "table_ok st \<longleftrightarrow> (\<forall>p. node_pair p \<and> \<not> active st p \<longrightarrow> table st p = 0)"

lemma p_index_inj: "node_pair p \<Longrightarrow> node_pair q \<Longrightarrow> p_index p = p_index q \<longleftrightarrow> p = q"
  using pair_index_inj [of "fst p" "snd p" "fst q" "snd q"] pair_index_eq
  by (auto simp: node_pair_def p_index_def prod_eq_iff)

lemma pair_index_p: "node_pair (s, d) \<Longrightarrow> pair_index s d = Some (p_index (s, d))"
  by (simp add: node_pair_def p_index_def pair_index_eq)

section \<open>A new entry\<close>

text \<open>The room for \<open>k\<close> more entries on the way to the cores.\<close>

definition req_room :: "nat \<Rightarrow> status \<Rightarrow> bool" where
  "req_room k st \<longleftrightarrow> k + open_size ss_new_demands st \<le> 32 * ring_free (ss_q_head st)
     \<and> k + open_size ss_new_demands st \<le> 32 * pool_size st"

definition same_table :: "status \<Rightarrow> status \<Rightarrow> bool" where
  "same_table st st' \<longleftrightarrow> ss_backlog st' = ss_backlog st \<and> ss_last_alloc_tslot st' = ss_last_alloc_tslot st
     \<and> ss_q_spent st' = ss_q_spent st"

lemma enqueue_new_demand_ok:
  assumes ok: "stream_ok ss_q_head ss_new_demands st" and room: "req_room (Suc k) st" and p: "node_pair (src, dst)"
  shows "\<exists>st' e. enqueue_new_demand src dst amount st = Some st' \<and> stream_ok ss_q_head ss_new_demands st' \<and> req_room k st'
    \<and> v_req st' = v_req st @ [e] \<and> e_pair e = (src, dst) \<and> unat (e_backlog e) = unat amount mod 2 ^ 16
    \<and> mset (req_addrs st') = mset (req_addrs st)
    \<and> (\<forall>a. a \<notin> set (req_addrs st) \<longrightarrow> ss_bins st' a = ss_bins st a)
    \<and> mp_total (ss_bin_mempool st') = mp_total (ss_bin_mempool st) \<and> same_table st st'"
proof -
  let ?e = "\<lparr>e_src = src, e_dst = dst, e_backlog = ucast amount, e_metric = ucast (ss_last_alloc_tslot st (p_index (src, dst)))\<rparr>"
  have r: "open_size ss_new_demands st < SMALL_BIN_SIZE * ring_free (ss_q_head st)"
    "open_size ss_new_demands st < SMALL_BIN_SIZE * pool_size st"
    using room by (simp_all add: req_room_def SMALL_BIN_SIZE_def)
  from heads.push_ok [OF ok r, of ?e] show ?thesis
  proof (elim exE conjE, goal_cases)
    case (1 st' b1)
    have "same_table st st'"
      using 1(11) by (auto simp: same_table_def head_swap_def head_note_def set_bin_def)
    moreover have "req_room k st'" using room 1(7,8) by (simp add: req_room_def SMALL_BIN_SIZE_def)
    moreover have "unat (e_backlog ?e) = unat amount mod 2 ^ 16" by (simp add: unsigned_ucast_eq take_bit_eq_mod)
    moreover have "enqueue_new_demand src dst amount st = Some st'"
      using 1(1) by (simp add: enqueue_new_demand_eq pair_index_p [OF p])
    moreover have "e_pair ?e = (src, dst)" by (simp add: e_pair_def)
    ultimately show ?thesis using 1(2-6) by blast
  qed
qed

section \<open>Requests\<close>

lemma add_backlog_ok:
  assumes ok: "stream_ok ss_q_head ss_new_demands st" and room: "req_room (Suc k) st" and p: "node_pair (src, dst)"
    and t: "table_ok st" and a: "amount \<noteq> 0"
  shows "\<exists>st'. seq_add_backlog src dst amount st = Some st' \<and> stream_ok ss_q_head ss_new_demands st' \<and> req_room k st'
    \<and> table_ok st' \<and> (\<forall>q. node_pair q \<longrightarrow> (active st' q \<longleftrightarrow> active st q \<or> q = (src, dst)))
    \<and> (\<forall>q. node_pair q \<and> q \<noteq> (src, dst) \<longrightarrow> pending st' q = pending st q)
    \<and> (if active st (src, dst)
       then v_req st' = v_req st \<and> table st' (src, dst) = (table st (src, dst) + unat amount) mod 2 ^ 32
       else table st' (src, dst) = 0
         \<and> units (src, dst) (mset (v_req st')) = units (src, dst) (mset (v_req st)) + unat amount mod 2 ^ 16)"
proof (cases "active st (src, dst)")
  case True
  define bl where "bl = (ss_backlog st)\<lparr>bl_is_active := arr_set_bit (bl_is_active (ss_backlog st)) (p_index (src, dst)),
      bl_n := (bl_n (ss_backlog st))(p_index (src, dst) := bl_n (ss_backlog st) (p_index (src, dst)) + amount)\<rparr>"
  define stat where "stat = adm_log_increased_backlog_atomically (ss_stat st) amount (bl_n bl (p_index (src, dst)))"
  define st' where "st' = st\<lparr>ss_backlog := bl, ss_stat := stat\<rparr>"
  have run: "seq_add_backlog src dst amount st = Some st'"
    using True a by (simp add: seq_add_backlog_def backlog_increase_def pair_index_p [OF p] active_def bl_def stat_def st'_def Let_def)
  have act: "active st' q \<longleftrightarrow> active st q \<or> q = (src, dst)" if "node_pair q" for q
    using that p_index_inj [OF p that] by (auto simp: active_def st'_def bl_def arr_test_set)
  have tab: "table st' q = (if q = (src, dst) then (table st q + unat amount) mod 2 ^ 32 else table st q)" if "node_pair q" for q
    using that p_index_inj [OF that p] by (auto simp: table_def st'_def bl_def unat_word_ariths)
  have v: "v_req st' = v_req st" "stream_ok ss_q_head ss_new_demands st' \<longleftrightarrow> stream_ok ss_q_head ss_new_demands st"
    "req_room k st' \<longleftrightarrow> req_room k st"
    by (simp_all add: stream_list_def waiting_def stream_ok_def stream_addrs_def st'_def req_room_def open_size_def pool_size_def)
  have "req_room k st" using room by (simp add: req_room_def)
  moreover have "table_ok st'" using t act tab by (auto simp: table_ok_def)
  ultimately show ?thesis
    using run ok act tab True p by (intro exI [of _ st']) (simp add: v pending_def)
next
  case False
  define bl where "bl = (ss_backlog st)\<lparr>bl_is_active := arr_set_bit (bl_is_active (ss_backlog st)) (p_index (src, dst))\<rparr>"
  define st1 where "st1 = st\<lparr>ss_backlog := bl, ss_stat := adm_log_increased_backlog_to_queue (ss_stat st) amount amount\<rparr>"
  have t0: "table st (src, dst) = 0" using False t p by (simp add: table_ok_def)
  have v: "v_req st1 = v_req st" "stream_ok ss_q_head ss_new_demands st1 \<longleftrightarrow> stream_ok ss_q_head ss_new_demands st"
    "req_room (Suc k) st1 \<longleftrightarrow> req_room (Suc k) st"
    by (simp_all add: stream_list_def waiting_def stream_ok_def stream_addrs_def st1_def req_room_def open_size_def pool_size_def)
  have "stream_ok ss_q_head ss_new_demands st1" "req_room (Suc k) st1" using ok room by (simp_all add: v)
  from enqueue_new_demand_ok [OF this p, of amount] obtain st' e where st': "enqueue_new_demand src dst amount st1 = Some st'"
    "stream_ok ss_q_head ss_new_demands st'" "req_room k st'" "v_req st' = v_req st @ [e]" "e_pair e = (src, dst)"
    "unat (e_backlog e) = unat amount mod 2 ^ 16" and same: "same_table st1 st'"
    unfolding v by blast
  have run: "seq_add_backlog src dst amount st = Some st'"
    using False a st'(1) t0
    by (simp add: seq_add_backlog_def backlog_increase_def pair_index_p [OF p] active_def bl_def st1_def table_def Let_def unat_eq_zero)
  have act: "active st' q \<longleftrightarrow> active st q \<or> q = (src, dst)" if "node_pair q" for q
    using that p_index_inj [OF p that] same by (auto simp: active_def st1_def bl_def arr_test_set same_table_def)
  have tab: "table st' = table st" using same by (simp add: fun_eq_iff table_def same_table_def st1_def bl_def)
  have "table_ok st'" using t act by (auto simp: table_ok_def tab)
  then show ?thesis
    using run st' act False t0 p by (intro exI [of _ st']) (auto simp: tab pending_def)
qed

section \<open>Spent entries\<close>

lemma handle_spent_edge_ok:
  assumes ok: "stream_ok ss_q_head ss_new_demands st" and room: "req_room (Suc k) st" and p: "node_pair (e_pair e)"
    and t: "table_ok st"
  shows "\<exists>st'. handle_spent_edge e st = Some st' \<and> stream_ok ss_q_head ss_new_demands st' \<and> req_room k st' \<and> table_ok st'
    \<and> (\<forall>q. node_pair q \<longrightarrow> table st' q = (if q = e_pair e then 0 else table st q)
         \<and> (active st' q \<longleftrightarrow> active st q \<and> (q = e_pair e \<longrightarrow> table st q \<noteq> 0))
         \<and> (table st q < 2 ^ 16 \<longrightarrow> pending st' q = pending st q))
    \<and> mset (req_addrs st') = mset (req_addrs st) \<and> (\<forall>a. a \<notin> set (req_addrs st) \<longrightarrow> ss_bins st' a = ss_bins st a)
    \<and> mp_total (ss_bin_mempool st') = mp_total (ss_bin_mempool st) \<and> ss_q_spent st' = ss_q_spent st"
proof (cases "table st (e_pair e) = 0")
  case True
  have ep: "e_pair e = (e_src e, e_dst e)" by (simp add: e_pair_def)
  define st' where "st' = st\<lparr>ss_last_alloc_tslot := (ss_last_alloc_tslot st)(p_index (e_pair e) := ucast (e_metric e)),
    ss_backlog := (ss_backlog st)\<lparr>bl_is_active := arr_unset_bit (bl_is_active (ss_backlog st)) (p_index (e_pair e))\<rparr>\<rparr>"
  have run: "handle_spent_edge e st = Some st'"
    using True p unfolding ep
    by (simp add: handle_spent_edge_def backlog_get_def backlog_non_active_def pair_index_p table_def st'_def ep unat_eq_zero Let_def)
  have v: "v_req st' = v_req st" "stream_ok ss_q_head ss_new_demands st' \<longleftrightarrow> stream_ok ss_q_head ss_new_demands st"
    "req_room k st' \<longleftrightarrow> req_room k st" "req_addrs st' = req_addrs st" "ss_bins st' = ss_bins st" "table st' = table st"
    "ss_q_spent st' = ss_q_spent st" "ss_bin_mempool st' = ss_bin_mempool st"
    by (simp_all add: stream_list_def waiting_def stream_ok_def stream_addrs_def st'_def req_room_def open_size_def
        pool_size_def table_def fun_eq_iff)
  have act: "active st' q \<longleftrightarrow> active st q \<and> q \<noteq> e_pair e" if "node_pair q" for q
    using that p_index_inj [OF p that] by (auto simp: active_def st'_def arr_test_unset)
  have "table_ok st'" using t act True by (auto simp: table_ok_def v)
  moreover have "req_room k st" using room by (simp add: req_room_def)
  ultimately show ?thesis using run ok act True by (intro exI [of _ st']) (auto simp: v pending_def)
next
  case False
  have ep: "e_pair e = (e_src e, e_dst e)" by (simp add: e_pair_def)
  define n where "n = bl_n (ss_backlog st) (p_index (e_pair e))"
  define st1 where "st1 = st\<lparr>ss_backlog := (ss_backlog st)\<lparr>bl_n := (bl_n (ss_backlog st))(p_index (e_pair e) := 0)\<rparr>\<rparr>"
  have v: "v_req st1 = v_req st" "stream_ok ss_q_head ss_new_demands st1 \<longleftrightarrow> stream_ok ss_q_head ss_new_demands st"
    "req_room (Suc k) st1 \<longleftrightarrow> req_room (Suc k) st" "req_addrs st1 = req_addrs st" "ss_bins st1 = ss_bins st"
    "ss_q_spent st1 = ss_q_spent st" "ss_bin_mempool st1 = ss_bin_mempool st"
    by (simp_all add: stream_list_def waiting_def stream_ok_def stream_addrs_def st1_def req_room_def open_size_def pool_size_def)
  have "stream_ok ss_q_head ss_new_demands st1" "req_room (Suc k) st1" using ok room by (simp_all add: v)
  from enqueue_new_demand_ok [OF this p [unfolded ep], of n] obtain st' e' where
    st': "enqueue_new_demand (e_src e) (e_dst e) n st1 = Some st'" "stream_ok ss_q_head ss_new_demands st'" "req_room k st'"
    "v_req st' = v_req st @ [e']" "e_pair e' = e_pair e" "unat (e_backlog e') = unat n mod 2 ^ 16"
    "mset (req_addrs st') = mset (req_addrs st)" "\<forall>a. a \<notin> set (req_addrs st) \<longrightarrow> ss_bins st' a = ss_bins st a"
    "mp_total (ss_bin_mempool st') = mp_total (ss_bin_mempool st)" and same: "same_table st1 st'"
    unfolding v ep by blast
  have n: "unat n = table st (e_pair e)" "n \<noteq> 0" using False by (auto simp: n_def table_def)
  have run: "handle_spent_edge e st = Some st'"
    using st'(1) p n(2) unfolding ep
    by (simp add: handle_spent_edge_def backlog_get_def backlog_reset_pair_def pair_index_p n_def ep st1_def Let_def)
  have act: "active st' = active st" using same by (simp add: fun_eq_iff active_def same_table_def st1_def)
  have tab: "table st' q = (if q = e_pair e then 0 else table st q)" if "node_pair q" for q
    using that p_index_inj [OF that p] same by (auto simp: table_def same_table_def st1_def)
  have "table_ok st'" using t tab by (simp add: table_ok_def act)
  moreover have "pending st' q = pending st q" if "node_pair q" "table st q < 2 ^ 16" for q
    using that st'(4-6) n(1) by (auto simp: pending_def tab)
  moreover have "ss_q_spent st' = ss_q_spent st" using same by (simp add: same_table_def v)
  ultimately show ?thesis
    using run st'(2,3,7-9) tab False by (intro exI [of _ st']) (auto simp: act)
qed

text \<open>
  The bins \<open>xs\<close> of spent entries are in the hands of \<open>seq_handle_spent\<close>, and there is room for \<open>n\<close> entries.
\<close>

definition spent_inv :: "addr list \<Rightarrow> nat \<Rightarrow> status \<Rightarrow> bool" where
  "spent_inv xs n st \<longleftrightarrow> stream_ok ss_q_head ss_new_demands st \<and> distinct (xs @ req_addrs st)
     \<and> length (xs @ req_addrs st) \<le> unat (mp_total (ss_bin_mempool st))
     \<and> (\<forall>a \<in> set xs. small_bin (ss_bins st a) \<and> (\<forall>e \<in> set (bin_list (ss_bins st a)). node_pair (e_pair e)))
     \<and> req_room n st \<and> table_ok st"

text \<open>What a run leaves alone, and how far it has brought the table down.\<close>

definition settled :: "(u16 \<times> u16) set \<Rightarrow> status \<Rightarrow> status \<Rightarrow> bool" where
  "settled P st st' \<longleftrightarrow> (\<forall>q. node_pair q \<longrightarrow> table st' q = (if q \<in> P then 0 else table st q)
     \<and> (q \<notin> P \<longrightarrow> active st' q = active st q) \<and> (table st q < 2 ^ 16 \<longrightarrow> pending st' q = pending st q))
     \<and> ss_q_spent st' = ss_q_spent st"

lemma settled_refl: "settled {} st st"
  by (simp add: settled_def)

lemma settled_trans: "settled P st st1 \<Longrightarrow> settled R st1 st2 \<Longrightarrow> settled (P \<union> R) st st2"
  unfolding settled_def by (auto split: if_splits)

lemma put_spent:
  assumes inv: "spent_inv (a # xs) n st"
  shows "\<exists>mp. fp_mempool_put (ss_bin_mempool st) a = Some mp \<and> spent_inv xs n (st\<lparr>ss_bin_mempool := mp\<rparr>)
    \<and> settled {} st (st\<lparr>ss_bin_mempool := mp\<rparr>)"
proof -
  have "length (mp_list (ss_bin_mempool st)) < unat (mp_total (ss_bin_mempool st))"
    using inv by (simp add: spent_inv_def stream_addrs_def)
  then have "mp_cur (ss_bin_mempool st) < mp_total (ss_bin_mempool st)" unfolding length_mp_list word_less_nat_alt .
  from fp_mempool_put_spec [OF this, of a] obtain mp where mp: "fp_mempool_put (ss_bin_mempool st) a = Some mp" "mp_inv mp"
    "mp_total mp = mp_total (ss_bin_mempool st)" "mp_list mp = mp_list (ss_bin_mempool st) @ [a]"
    by blast
  define s where "s = st\<lparr>ss_bin_mempool := mp\<rparr>"
  have v: "ss_q_head s = ss_q_head st" "ss_new_demands s = ss_new_demands st" "ss_bins s = ss_bins st" "ss_bin_mempool s = mp"
    "v_req s = v_req st" "table s = table st" "active s = active st" "open_size ss_new_demands s = open_size ss_new_demands st"
    "pool_size s = Suc (pool_size st)" "table_ok s = table_ok st" "ss_q_spent s = ss_q_spent st"
    by (simp_all add: s_def stream_list_def waiting_def table_def fun_eq_iff active_def open_size_def pool_size_def mp(4) table_ok_def)
  have perm: "mset (xs @ req_addrs s) = mset (a # xs @ req_addrs st)" by (simp add: stream_addrs_def v mp(4))
  have sets: "set (req_addrs s) = insert a (set (req_addrs st))" by (auto simp: stream_addrs_def v mp(4))
  have "distinct (xs @ req_addrs s)" using inv mset_eq_imp_distinct_iff [OF perm] by (simp add: spent_inv_def)
  moreover have "length (xs @ req_addrs s) \<le> unat (mp_total (ss_bin_mempool s))"
    using inv mset_eq_length [OF perm] by (simp add: spent_inv_def v mp(3))
  moreover have "stream_ok ss_q_head ss_new_demands s"
    using inv calculation(1) mp(2) by (auto simp: spent_inv_def stream_ok_def sets v)
  moreover have "req_room n s" using inv by (simp add: spent_inv_def req_room_def v)
  ultimately have "spent_inv xs n s" using inv by (auto simp: spent_inv_def v)
  moreover have "settled {} st s" by (simp add: settled_def pending_def v)
  ultimately show ?thesis using mp(1) by (auto simp: s_def)
qed

lemma handle_spent_bin_ok:
  assumes inv: "spent_inv (a # xs) (length (bin_list (ss_bins st a)) + n) st"
  shows "returns (handle_spent_bin a st) (\<lambda>st'. spent_inv xs n st' \<and> (\<forall>b \<in> set xs. ss_bins st' b = ss_bins st b)
    \<and> settled (e_pair ` set (bin_list (ss_bins st a))) st st')"
proof -
  let ?bin = "ss_bins st a"
  let ?n = "unat (bin_size ?bin)"
  define L where "L = bin_list ?bin"
  have L: "L = map (bin_get ?bin) [0 ..< ?n]" by (simp add: L_def map_bin_get)
  define I where "I ys s \<longleftrightarrow> (\<exists>k. k \<le> ?n \<and> ys = [k ..< ?n] \<and> spent_inv (a # xs) (length (drop k L) + n) s
    \<and> (\<forall>b \<in> set (a # xs). ss_bins s b = ss_bins st b) \<and> settled (e_pair ` set (take k L)) st s)" for ys s
  have "returns (for_each (\<lambda>i s. handle_spent_edge (bin_get (ss_bins s a) i) s) [0 ..< ?n] st) (I [])"
  proof (rule returns_for_each)
    show "I [0 ..< ?n] st" using inv by (auto simp: I_def L_def settled_refl intro!: exI [of _ 0])
    fix y ys s assume "I (y # ys) s"
    then obtain k where k: "k \<le> ?n" "y # ys = [k ..< ?n]" and i: "spent_inv (a # xs) (length (drop k L) + n) s"
      and same: "\<forall>b \<in> set (a # xs). ss_bins s b = ss_bins st b" and se: "settled (e_pair ` set (take k L)) st s"
      unfolding I_def by blast
    have kn: "k < ?n" "y = k" "ys = [Suc k ..< ?n]" using k(2) [symmetric] by (auto simp: upt_eq_Cons_conv)
    have lk: "length (drop k L) = Suc (length (drop (Suc k) L))" "take (Suc k) L = take k L @ [bin_get ?bin k]"
      "bin_get ?bin k \<in> set L"
      using kn(1) by (auto simp: L take_map take_Suc_conv_app_nth)
    have e: "node_pair (e_pair (bin_get ?bin k))" using i same lk(3) by (simp add: spent_inv_def L_def)
    have room: "req_room (Suc (length (drop (Suc k) L) + n)) s" and sok: "stream_ok ss_q_head ss_new_demands s" "table_ok s"
      using i unfolding spent_inv_def lk(1) by simp_all
    from handle_spent_edge_ok [OF sok(1) room e sok(2)] obtain s' where s': "handle_spent_edge (bin_get ?bin k) s = Some s'"
      "stream_ok ss_q_head ss_new_demands s'" "req_room (length (drop (Suc k) L) + n) s'" "table_ok s'"
      "\<forall>q. node_pair q \<longrightarrow> table s' q = (if q = e_pair (bin_get ?bin k) then 0 else table s q)
         \<and> (active s' q \<longleftrightarrow> active s q \<and> (q = e_pair (bin_get ?bin k) \<longrightarrow> table s q \<noteq> 0))
         \<and> (table s q < 2 ^ 16 \<longrightarrow> pending s' q = pending s q)"
      "mset (req_addrs s') = mset (req_addrs s)" "\<forall>b. b \<notin> set (req_addrs s) \<longrightarrow> ss_bins s' b = ss_bins s b"
      "mp_total (ss_bin_mempool s') = mp_total (ss_bin_mempool s)" "ss_q_spent s' = ss_q_spent s"
      by blast
    have disj: "\<forall>b \<in> set (a # xs). b \<notin> set (req_addrs s)" using i by (auto simp: spent_inv_def)
    then have bins: "\<forall>b \<in> set (a # xs). ss_bins s' b = ss_bins s b" using s'(7) by blast
    have "settled {e_pair (bin_get ?bin k)} s s'" using s'(5,9) by (simp add: settled_def)
    from settled_trans [OF se this] have se': "settled (e_pair ` set (take (Suc k) L)) st s'" by (simp add: lk(2))
    have "spent_inv (a # xs) (length (drop (Suc k) L) + n) s'"
      using i s' bins mset_eq_setD [OF s'(6)] mset_eq_length [OF s'(6)] mset_eq_imp_distinct_iff [OF s'(6)]
      by (simp add: spent_inv_def)
    then have "I ys s'" unfolding I_def using kn bins same se' by (intro exI [of _ "Suc k"]) auto
    then show "returns (handle_spent_edge (bin_get (ss_bins s a) y) s) (I ys)" using s'(1) kn(2) same by (simp add: returns_def)
  qed
  then obtain s where s: "for_each (\<lambda>i s. handle_spent_edge (bin_get (ss_bins s a) i) s) [0 ..< ?n] st = Some s" "I [] s"
    by (auto elim: returnsE)
  then obtain k where k: "k \<le> ?n" "[] = [k ..< ?n]" and i: "spent_inv (a # xs) (length (drop k L) + n) s"
      and same: "\<forall>b \<in> set (a # xs). ss_bins s b = ss_bins st b" and se: "settled (e_pair ` set (take k L)) st s"
      unfolding I_def by blast
  have kL: "drop k L = []" "take k L = L" using k(1) k(2) [symmetric] by (auto simp: L)
  obtain mp where mp: "fp_mempool_put (ss_bin_mempool s) a = Some mp" "spent_inv xs n (s\<lparr>ss_bin_mempool := mp\<rparr>)"
    "settled {} s (s\<lparr>ss_bin_mempool := mp\<rparr>)"
    using put_spent [of a xs n s] i by (auto simp: kL)
  have "settled (e_pair ` set L) st (s\<lparr>ss_bin_mempool := mp\<rparr>)" using settled_trans [OF se mp(3)] by (simp add: kL)
  then show ?thesis using s(1) mp same by (simp add: handle_spent_bin_def L_def)
qed

lemma handle_spent_bins_ok:
  "spent_inv (xs @ rest) (length (waiting st xs) + n) st \<Longrightarrow>
   returns (for_each handle_spent_bin xs st) (\<lambda>st'. spent_inv rest n st' \<and> (\<forall>b \<in> set rest. ss_bins st' b = ss_bins st b)
     \<and> settled (e_pair ` set (waiting st xs)) st st')"
proof (induction xs arbitrary: st)
  case Nil
  then show ?case by (simp add: settled_refl)
next
  case (Cons a xs)
  have "spent_inv (a # (xs @ rest)) (length (bin_list (ss_bins st a)) + (length (waiting st xs) + n)) st"
    using Cons.prems by (simp add: add.assoc)
  from handle_spent_bin_ok [OF this] obtain s where s: "handle_spent_bin a st = Some s"
    "spent_inv (xs @ rest) (length (waiting st xs) + n) s" "\<forall>b \<in> set (xs @ rest). ss_bins s b = ss_bins st b"
    "settled (e_pair ` set (bin_list (ss_bins st a))) st s" by (auto elim: returnsE)
  have w: "waiting s xs = waiting st xs" using s(3) by (intro waiting_cong) simp
  obtain s' where s': "for_each handle_spent_bin xs s = Some s'" "spent_inv rest n s'" "\<forall>b \<in> set rest. ss_bins s' b = ss_bins s b"
    "settled (e_pair ` set (waiting st xs)) s s'"
    using Cons.IH [of s] s(2) by (auto simp: w elim: returnsE)
  show ?case using s(1,3) s' settled_trans [OF s(4) s'(4)] by (simp add: image_Un)
qed

section \<open>Resetting a sender\<close>

lemma reset_sender_ok:
  assumes src: "unat src < MAX_NODES"
  shows "\<exists>st'. seq_reset_sender src st = Some st' \<and> v_req st' = v_req st \<and> active st' = active st
    \<and> (\<forall>q. node_pair q \<longrightarrow> table st' q = (if fst q = src then 0 else table st q))"
proof -
  let ?step = "\<lambda>dst st. do { bl \<leftarrow> backlog_reset_pair (ss_backlog st) src (of_nat dst); Some (st\<lparr>ss_backlog := bl\<rparr>) }"
  define I where "I ys s \<longleftrightarrow> (\<exists>k \<le> MAX_NODES. ys = [k ..< MAX_NODES] \<and> v_req s = v_req st \<and> active s = active st
    \<and> (\<forall>q. node_pair q \<longrightarrow> table s q = (if fst q = src \<and> unat (snd q) < k then 0 else table st q)))" for ys s
  have "returns (for_each ?step [0 ..< MAX_NODES] st) (I [])"
  proof (rule returns_for_each)
    show "I [0 ..< MAX_NODES] st" by (auto simp: I_def intro!: exI [of _ 0])
    fix y ys s assume "I (y # ys) s"
    then obtain k where k: "k \<le> MAX_NODES" "y # ys = [k ..< MAX_NODES]" "v_req s = v_req st" "active s = active st"
      and tab: "\<forall>q. node_pair q \<longrightarrow> table s q = (if fst q = src \<and> unat (snd q) < k then 0 else table st q)"
      unfolding I_def by blast
    have kn: "k < MAX_NODES" "y = k" "ys = [Suc k ..< MAX_NODES]" using k(2) [symmetric] by (auto simp: upt_eq_Cons_conv)
    have u: "unat (of_nat k :: u16) = k" using kn(1) by (intro unat_of_nat_word) (simp add: MAX_NODES_def)
    have p: "node_pair (src, of_nat k)" using src kn(1) u by (simp add: node_pair_def)
    define s' where "s' = s\<lparr>ss_backlog := (ss_backlog s)\<lparr>bl_n := (bl_n (ss_backlog s))(p_index (src, of_nat k) := 0)\<rparr>\<rparr>"
    have run: "?step k s = Some s'" by (simp add: backlog_reset_pair_def pair_index_p [OF p] s'_def)
    have v: "v_req s' = v_req s" "active s' = active s"
      by (simp_all add: s'_def stream_list_def waiting_def active_def fun_eq_iff)
    have "table s' q = (if fst q = src \<and> unat (snd q) < Suc k then 0 else table st q)" if q: "node_pair q" for q
    proof -
      have "q = (src, of_nat k) \<longleftrightarrow> fst q = src \<and> unat (snd q) = k" using u by (auto simp: prod_eq_iff)
      moreover have "table s' q = (if q = (src, of_nat k) then 0 else table s q)"
        using p_index_inj [OF q p] by (simp add: table_def s'_def)
      ultimately show ?thesis using tab [rule_format, OF q] by (auto simp: less_Suc_eq)
    qed
    then have "I ys s'" unfolding I_def using kn k(3,4) v by (intro exI [of _ "Suc k"]) auto
    then show "returns (?step y s) (I ys)" using run kn(2) by (simp add: returns_def)
  qed
  then obtain st' where st': "seq_reset_sender src st = Some st'" "I [] st'" unfolding seq_reset_sender_def by (auto elim: returnsE)
  then obtain k where k: "k \<le> MAX_NODES" "[] = [k ..< MAX_NODES]" "v_req st' = v_req st" "active st' = active st"
      "\<forall>q. node_pair q \<longrightarrow> table st' q = (if fst q = src \<and> unat (snd q) < k then 0 else table st q)"
      unfolding I_def by blast
  have "k = MAX_NODES" using k(1) k(2) [symmetric] by (simp add: MAX_NODES_def)
  then show ?thesis using st'(1) k(3-5) by (auto simp: node_pair_def)
qed

lemma add_backlog_pending:
  assumes "stream_ok ss_q_head ss_new_demands st" and "table_ok st" and "node_pair (src, dst)" and "req_room (Suc k) st"
    and "amount \<noteq> 0" and "unat amount < 2 ^ 16" and "table st (src, dst) + unat amount < 2 ^ 32"
  shows "\<exists>st'. seq_add_backlog src dst amount st = Some st'
    \<and> stream_ok ss_q_head ss_new_demands st' \<and> table_ok st' \<and> req_room k st' \<and> active st' (src, dst)
    \<and> (\<forall>q. node_pair q \<longrightarrow> pending st' q = pending st q + (if q = (src, dst) then unat amount else 0))"
proof -
  obtain st' where st': "seq_add_backlog src dst amount st = Some st'" "stream_ok ss_q_head ss_new_demands st'" "req_room k st'"
    "table_ok st'" "active st' (src, dst)" "\<forall>q. node_pair q \<and> q \<noteq> (src, dst) \<longrightarrow> pending st' q = pending st q"
    and eff: "if active st (src, dst)
       then v_req st' = v_req st \<and> table st' (src, dst) = (table st (src, dst) + unat amount) mod 2 ^ 32
       else table st' (src, dst) = 0
         \<and> units (src, dst) (mset (v_req st')) = units (src, dst) (mset (v_req st)) + unat amount mod 2 ^ 16"
    using add_backlog_ok [OF assms(1,4,3,2,5)] assms(3) by blast
  have "pending st' (src, dst) = pending st (src, dst) + unat amount"
    using eff assms(2,3,6,7) by (auto simp: pending_def table_ok_def split: if_splits)
  then show ?thesis using st' by auto
qed

section \<open>Properties\<close>

text \<open>
  A request is counted. For known nodes, a request of less than 65536 packets never fails; afterwards the
  pair is active and exactly the requested packets are pending in addition, as a new entry when the pair was
  not active, and in the table when it was (as long as the 32-bit counter of the pair does not overflow).
  Nothing changes for the other pairs.
\<close>

theorem add_backlog_counts:
  assumes "stream_ok ss_q_head ss_new_demands st" and "table_ok st" and "node_pair (src, dst)" and "req_room (Suc k) st"
    and "amount \<noteq> 0" and "unat amount < 2 ^ 16" and "table st (src, dst) + unat amount < 2 ^ 32"
  shows "\<exists>st'. seq_add_backlog src dst amount st = Some st'
    \<and> stream_ok ss_q_head ss_new_demands st' \<and> table_ok st' \<and> req_room k st' \<and> active st' (src, dst)
    \<and> (\<forall>q. node_pair q \<longrightarrow> pending st' q = pending st q + (if q = (src, dst) then unat amount else 0))"
  using add_backlog_pending [OF assms] .

lemma ex_status_req:
  "stream_ok ss_q_head ss_new_demands (ex_status cap)" "table_ok (ex_status cap)" "req_room 64 (ex_status cap)"
  "pending (ex_status cap) p = units p {#ex_edge 1 2 2, ex_edge 3 2 1, ex_edge 1 4 1#}"
  "active (ex_status cap) p \<longleftrightarrow> False"
proof -
  have q: "ring_list (ss_q_head (ex_status cap)) = [7]" "ss_new_demands (ex_status cap) = 8"
    "ring_inv (ss_q_head (ex_status cap))" "ring_free (ss_q_head (ex_status cap)) = 6"
    using ex_status_queues(1) by (simp_all add: ex_status_def ring_free_def)
  have l: "req_addrs (ex_status cap) = [0, 1, 2, 3, 4, 5, 7, 8]" using ex_status_pools(1) [of cap] by (simp add: stream_addrs_def q)
  show "stream_ok ss_q_head ss_new_demands (ex_status cap)"
    using q ex_status_pools(1) [of cap] by (simp add: stream_ok_def l ex_status_bins SMALL_BIN_SIZE_def)
  have t: "table (ex_status cap) p = 0" for p by (simp add: table_def ex_status_def)
  then show "table_ok (ex_status cap)" by (simp add: table_ok_def)
  show "req_room 64 (ex_status cap)"
    using ex_status_pools(1) [of cap] by (simp add: req_room_def q open_size_def pool_size_def ex_status_bins)
  show "pending (ex_status cap) p = units p {#ex_edge 1 2 2, ex_edge 3 2 1, ex_edge 1 4 1#}"
    by (simp add: pending_def t stream_list_def q ex_status_bins)
  show "active (ex_status cap) p \<longleftrightarrow> False" by (simp add: active_def ex_status_def arr_test_bit_def)
qed

theorem add_backlog_counts_witness:
  "\<exists>st'. seq_add_backlog 1 2 5 (ex_status 0) = Some st' \<and> pending st' (1, 2) = 7"
proof -
  have p: "node_pair (1, 2)" by (simp add: node_pair_def MAX_NODES_def)
  have "req_room (Suc 63) (ex_status 0)" using ex_status_req(3) [of 0] by simp
  from add_backlog_counts [OF ex_status_req(1,2) p this, of 5] p show ?thesis
    by (auto simp: ex_status_req ex_edge_def e_pair_def table_def) (auto simp: ex_status_def)
qed

text \<open>
  A request of 65536 packets or more for an inactive pair loses packets: the amount is cut to the sixteen
  bits of an entry, so of the requested packets only the remainder modulo 65536 is pending. For a multiple of
  65536 an entry with no packets at all goes to the allocator, which takes one off it and is left with 65535.
\<close>

theorem add_backlog_truncates:
  assumes "stream_ok ss_q_head ss_new_demands st" and "table_ok st" and "node_pair (src, dst)" and "req_room (Suc k) st"
    and "2 ^ 16 \<le> unat amount" and "\<not> active st (src, dst)"
  shows "\<exists>st'. seq_add_backlog src dst amount st = Some st'
    \<and> pending st' (src, dst) = pending st (src, dst) + unat amount mod 2 ^ 16
    \<and> pending st' (src, dst) + 2 ^ 16 \<le> pending st (src, dst) + unat amount"
proof -
  have a: "amount \<noteq> 0" using assms(5) by auto
  obtain st' where st': "seq_add_backlog src dst amount st = Some st'" "table st' (src, dst) = 0"
     "units (src, dst) (mset (v_req st')) = units (src, dst) (mset (v_req st)) + unat amount mod 2 ^ 16"
    using add_backlog_ok [OF assms(1,4,3,2) a] assms(6) by auto
  have "table st (src, dst) = 0" using assms(2,3,6) by (simp add: table_ok_def)
  moreover have "n mod m + m \<le> n" if "m \<le> n" for n m :: nat using that by (metis add.commute le_mod_geq mod_less_eq_dividend le_add_diff_inverse nat_add_left_cancel_le)
  ultimately show ?thesis using st' assms(5) by (simp add: pending_def)
qed

theorem add_backlog_truncates_witness:
  "\<exists>st'. seq_add_backlog 1 2 65536 (ex_status 0) = Some st' \<and> pending st' (1, 2) = pending (ex_status 0) (1, 2)"
proof -
  have p: "node_pair (1, 2)" by (simp add: node_pair_def MAX_NODES_def)
  have "req_room (Suc 63) (ex_status 0)" using ex_status_req(3) [of 0] by simp
  from add_backlog_truncates [OF ex_status_req(1,2) p this, of 65536] show ?thesis by (auto simp: ex_status_req(5))
qed


text \<open>The example state with a spent entry, and nine packets that were requested in the meantime.\<close>

definition ex_spent :: status where
  "ex_spent = (ex_status 0)\<lparr>ss_q_spent := ex_queue 7 [6],
     ss_bins := (ss_bins (ex_status 0))(6 := ex_small_bin [ex_edge 1 2 0]),
     ss_backlog := \<lparr>bl_n = (\<lambda>_. 0)(p_index (1, 2) := 9), bl_is_active = arr_set_bit (\<lambda>_. 0) (p_index (1, 2))\<rparr>\<rparr>"

lemma ex_spent_parts:
  "ring_inv (ss_q_spent ex_spent)" "ring_list (ss_q_spent ex_spent) = [6]" "waiting ex_spent [6] = [ex_edge 1 2 0]"
  "node_pair p \<Longrightarrow> table ex_spent p = (if p = (1, 2) then 9 else 0)" "node_pair p \<Longrightarrow> active ex_spent p \<longleftrightarrow> p = (1, 2)"
  "stream_ok ss_q_head ss_new_demands ex_spent" "req_room 64 ex_spent"
  "v_req ex_spent = [ex_edge 1 2 2, ex_edge 3 2 1, ex_edge 1 4 1]" "req_addrs ex_spent = [0, 1, 2, 3, 4, 5, 7, 8]"
proof -
  have b: "small_bin (ex_small_bin [ex_edge 1 2 0])" "bin_list (ex_small_bin [ex_edge 1 2 0]) = [ex_edge 1 2 0]"
    using ex_small_bin_ok [of "[ex_edge 1 2 0]"] by (simp_all add: SMALL_BIN_SIZE_def)
  have bins: "ss_bins ex_spent = (ss_bins (ex_status 0))(6 := ex_small_bin [ex_edge 1 2 0])" by (simp add: ex_spent_def)
  show "ring_inv (ss_q_spent ex_spent)" "ring_list (ss_q_spent ex_spent) = [6]"
    using ex_queue_ok [of 3 7 "[6]"] by (simp_all add: ex_spent_def mask_eq_exp_minus_1)
  show "waiting ex_spent [6] = [ex_edge 1 2 0]" by (simp add: waiting_def bins b)
  have p12: "node_pair (1, 2)" by (simp add: node_pair_def MAX_NODES_def)
  show "table ex_spent p = (if p = (1, 2) then 9 else 0)" if "node_pair p"
    using p_index_inj [OF that p12] by (simp add: table_def ex_spent_def)
  show "active ex_spent p \<longleftrightarrow> p = (1, 2)" if "node_pair p"
    using p_index_inj [OF p12 that] by (auto simp: active_def ex_spent_def arr_test_set) (simp_all add: arr_test_bit_def)
  have v: "ss_q_head ex_spent = ss_q_head (ex_status 0)" "ss_new_demands ex_spent = 8" "ss_new_demands (ex_status 0) = 8"
    "ss_bin_mempool ex_spent = ss_bin_mempool (ex_status 0)"
    by (simp_all add: ex_spent_def) (simp_all add: ex_status_def)
  have q: "ring_list (ss_q_head (ex_status 0)) = [7]" "ring_inv (ss_q_head (ex_status 0))" "ring_free (ss_q_head (ex_status 0)) = 6"
    using ex_status_queues(1) by (simp_all add: ex_status_def ring_free_def)
  show l: "req_addrs ex_spent = [0, 1, 2, 3, 4, 5, 7, 8]" using ex_status_pools(1) [of 0] by (simp add: stream_addrs_def v q)
  show "stream_ok ss_q_head ss_new_demands ex_spent"
    using q ex_status_pools(1) [of 0] unfolding stream_ok_def l by (simp add: v bins ex_status_bins SMALL_BIN_SIZE_def)
  show "req_room 64 ex_spent"
    using ex_status_pools(1) [of 0] by (simp add: req_room_def v q open_size_def pool_size_def bins ex_status_bins)
  show "v_req ex_spent = [ex_edge 1 2 2, ex_edge 3 2 1, ex_edge 1 4 1]" by (simp add: stream_list_def v q bins ex_status_bins)
qed

lemma ex_spent_inv: "spent_inv [6] 1 ex_spent" "table_ok ex_spent"
proof -
  show t: "table_ok ex_spent" by (auto simp: table_ok_def ex_spent_parts)
  have r: "req_room 1 ex_spent" using ex_spent_parts(7) by (simp add: req_room_def)
  have b: "small_bin (ss_bins ex_spent 6)" using ex_small_bin_ok [of "[ex_edge 1 2 0]"] by (simp add: ex_spent_def SMALL_BIN_SIZE_def)
  have l: "bin_list (ss_bins ex_spent 6) = [ex_edge 1 2 0]" using ex_spent_parts(3) by simp
  have tot: "mp_total (ss_bin_mempool ex_spent) = 16" by (simp add: ex_spent_def ex_status_def)
  have "node_pair (e_pair (ex_edge 1 2 0))" by (simp add: ex_edge_def e_pair_def node_pair_def MAX_NODES_def)
  then show "spent_inv [6] 1 ex_spent"
    unfolding spent_inv_def using ex_spent_parts(6) t r b by (simp add: ex_spent_parts(9) l tot)
qed


text \<open>
  The report on a single spent entry, which is where the two sides meet: the pair stays active exactly
  when requests were added up for it in the meantime, and those are then an entry of their own.
\<close>

theorem handle_spent_edge_effect:
  assumes "stream_ok ss_q_head ss_new_demands st" and "table_ok st" and "node_pair (e_pair e)" and "req_room (Suc k) st"
    and "active st (e_pair e)"
  shows "\<exists>st'. handle_spent_edge e st = Some st' \<and> table_ok st' \<and> table st' (e_pair e) = 0
    \<and> (active st' (e_pair e) \<longleftrightarrow> table st (e_pair e) \<noteq> 0)
    \<and> (table st (e_pair e) < 2 ^ 16 \<longrightarrow>
         units (e_pair e) (mset (v_req st')) = units (e_pair e) (mset (v_req st)) + table st (e_pair e))"
  using handle_spent_edge_ok [OF assms(1,4,3,2)] assms(3,5) by (fastforce simp: pending_def)

theorem handle_spent_edge_effect_witness:
  "\<exists>st'. handle_spent_edge (ex_edge 1 2 0) ex_spent = Some st' \<and> active st' (1, 2)
     \<and> units (1, 2) (mset (v_req st')) = 11"
proof -
  have e: "e_pair (ex_edge 1 2 0) = (1, 2)" by (simp add: e_pair_def ex_edge_def)
  have p: "node_pair (1, 2)" by (simp add: node_pair_def MAX_NODES_def)
  have "req_room (Suc 63) ex_spent" using ex_spent_parts(7) by simp
  moreover have "units (1, 2) (mset (v_req ex_spent)) = 2"
    by (simp add: ex_spent_parts(8)) (simp add: ex_edge_def e_pair_def)
  ultimately show ?thesis
    using handle_spent_edge_effect [OF ex_spent_parts(6) ex_spent_inv(2), of "ex_edge 1 2 0" 63] p
    by (auto simp: e ex_spent_parts(4,5))
qed

text \<open>
  Resetting a sender empties its row of the table and nothing else: entries that are already on their way
  stay, and so do the pairs of the other senders.
\<close>

theorem reset_sender_row:
  assumes "unat src < MAX_NODES"
  shows "\<exists>st'. seq_reset_sender src st = Some st' \<and> v_req st' = v_req st \<and> active st' = active st
    \<and> (\<forall>q. node_pair q \<longrightarrow> table st' q = (if fst q = src then 0 else table st q))"
  using reset_sender_ok [OF assms] .

theorem reset_sender_row_witness:
  "\<exists>st'. seq_reset_sender 1 ex_spent = Some st' \<and> table ex_spent (1, 2) = 9 \<and> table st' (1, 2) = 0"
proof -
  have p: "node_pair (1, 2)" by (simp add: node_pair_def MAX_NODES_def)
  then show ?thesis using reset_sender_row [of 1 ex_spent] by (auto simp: MAX_NODES_def ex_spent_parts(4))
qed

end
