(* ===== verification/Graph.thy ===== *)
theory Graph
  imports Platform
begin

text \<open>
  Bipartite multigraphs, \<^verbatim>\<open>src/src/graph-algo/graph.h\<close>. The possible edges are kept in the adjacency arrays
  of a \<open>graph_structure\<close>; which of them are present in a graph is told by one bitmap per vertex, the
  \<open>graph_edges\<close>, so that several graphs share a structure. An end of an edge is a vertex and an index in its
  array; the array names the vertex and the index of the other end. \<open>None\<close> is a failed assertion, an index
  behind the end of an array or a shift by more than the width of a word.
\<close>

definition MAX_DEGREE :: nat where "MAX_DEGREE = 64"
definition MAX_GRAPH_NODES :: nat where "MAX_GRAPH_NODES = 64"

record graph_edges =
  neighbor_bitmaps :: "nat \<Rightarrow> u64"

record neighbor =
  nb_id :: u8
  nb_index :: u8

record vertex_info =
  vi_neighbors :: "nat \<Rightarrow> neighbor"

record graph_structure =
  gs_n :: u8
  gs_vertices :: "nat \<Rightarrow> vertex_info"

definition graph_structure_init :: "graph_structure \<Rightarrow> u8 \<Rightarrow> graph_structure option" where
  "graph_structure_init structure n = do {
     bug_on (MAX_GRAPH_NODES < unat n);
     Some (structure\<lparr>gs_n := n\<rparr>)
   }"

definition graph_edges_init :: "graph_edges \<Rightarrow> u8 \<Rightarrow> graph_edges option" where
  "graph_edges_init edges n = do {
     bug_on (MAX_GRAPH_NODES < unat n);
     Some (edges\<lparr>neighbor_bitmaps := (\<lambda>i. if i < 2 * unat n then 0 else neighbor_bitmaps edges i)\<rparr>)
   }"

text \<open>Reading and writing an entry of the array of bitmaps.\<close>

definition get_bitmap :: "graph_edges \<Rightarrow> u8 \<Rightarrow> u64 option" where
  "get_bitmap edges vertex = do {
     bug_on (2 * MAX_GRAPH_NODES \<le> unat vertex);
     Some (neighbor_bitmaps edges (unat vertex))
   }"

definition set_bitmap :: "graph_edges \<Rightarrow> u8 \<Rightarrow> u64 \<Rightarrow> graph_edges option" where
  "set_bitmap edges vertex bitmap = do {
     bug_on (2 * MAX_GRAPH_NODES \<le> unat vertex);
     Some (edges\<lparr>neighbor_bitmaps := (neighbor_bitmaps edges)(unat vertex := bitmap)\<rparr>)
   }"

definition has_neighbor :: "graph_edges \<Rightarrow> u8 \<Rightarrow> bool option" where
  "has_neighbor edges vertex = do {
     bitmap \<leftarrow> get_bitmap edges vertex;
     Some (bitmap \<noteq> 0)
   }"

function degree_loop :: "u8 \<Rightarrow> u64 \<Rightarrow> u8" where
  "degree_loop degree bitmap =
     (if bitmap = 0 then degree else degree_loop (degree + ucast (bitmap AND 1)) (drop_bit 1 bitmap))"
  by pat_completeness auto

lemma unat_drop_1_less: "bitmap \<noteq> 0 \<Longrightarrow> unat (drop_bit (Suc 0) bitmap) < unat (bitmap :: u64)"
  using unat_gt_0 [of bitmap] by (simp add: drop_bit_eq_div unat_div)

termination degree_loop
  by (relation "measure (\<lambda>(_, bitmap). unat bitmap)") (simp_all add: unat_drop_1_less)

declare degree_loop.simps [simp del]

definition get_degree :: "graph_edges \<Rightarrow> u8 \<Rightarrow> u8 option" where
  "get_degree edges vertex = do {
     bitmap \<leftarrow> get_bitmap edges vertex;
     Some (degree_loop 0 bitmap)
   }"

definition get_max_degree :: "graph_edges \<Rightarrow> u8 \<Rightarrow> u8 option" where
  "get_max_degree edges n = do {
     bug_on (MAX_GRAPH_NODES < unat n);
     for_each (\<lambda>i max_degree. do { d \<leftarrow> get_degree edges (of_nat i); Some (max max_degree d) }) [0 ..< 2 * unat n] 0
   }"

text \<open>
  The lowest edge of \<open>u\<close> is taken out of a graph: the index of the edge at \<open>u\<close>, the other vertex and the index
  there. The graphs live in an array \<open>g\<close>; \<open>src\<close> and \<open>dst\<close> are indices of it and may be equal.
\<close>

definition find_edge :: "graph_structure \<Rightarrow> graph_edges \<Rightarrow> u8 \<Rightarrow> (nat \<times> u8 \<times> nat) option" where
  "find_edge structure edges u = do {
     bug_on (2 * unat (gs_n structure) \<le> unat u);
     u_bitmap \<leftarrow> get_bitmap edges u;
     bug_on (u_bitmap = 0);
     let edge_index_u = ffs u_bitmap;
     let nb = vi_neighbors (gs_vertices structure (unat u)) edge_index_u;
     bug_on (64 \<le> unat (nb_index nb));
     Some (edge_index_u, nb_id nb, unat (nb_index nb))
   }"

definition remove_edge_to_neighbor :: "graph_structure \<Rightarrow> graph_edges \<Rightarrow> u8 \<Rightarrow> (u8 \<times> graph_edges) option" where
  "remove_edge_to_neighbor structure src_edges u = do {
     (edge_index_u, v, edge_index_v) \<leftarrow> find_edge structure src_edges u;
     u_bitmap \<leftarrow> get_bitmap src_edges u;
     v_bitmap \<leftarrow> get_bitmap src_edges v;
     src_edges \<leftarrow> set_bitmap src_edges u (u_bitmap AND NOT (push_bit edge_index_u 1));
     src_edges \<leftarrow> set_bitmap src_edges v (v_bitmap AND NOT (push_bit edge_index_v 1));
     Some (v, src_edges)
   }"

definition split_edge ::
  "graph_structure \<Rightarrow> (nat \<Rightarrow> graph_edges) \<Rightarrow> nat \<Rightarrow> nat \<Rightarrow> u8 \<Rightarrow> (u8 \<times> (nat \<Rightarrow> graph_edges)) option" where
  "split_edge structure g src dst u = do {
     (edge_index_u, v, edge_index_v) \<leftarrow> find_edge structure (g src) u;
     u_bitmap \<leftarrow> get_bitmap (g src) u;
     v_bitmap \<leftarrow> get_bitmap (g src) v;
     src_edges \<leftarrow> set_bitmap (g src) u (u_bitmap AND NOT (push_bit edge_index_u 1));
     src_edges \<leftarrow> set_bitmap src_edges v (v_bitmap AND NOT (push_bit edge_index_v 1));
     let g = g(src := src_edges);
     u_bitmap \<leftarrow> get_bitmap (g dst) u;
     v_bitmap \<leftarrow> get_bitmap (g dst) v;
     dst_edges \<leftarrow> set_bitmap (g dst) u (u_bitmap OR push_bit edge_index_u 1);
     dst_edges \<leftarrow> set_bitmap dst_edges v (v_bitmap OR push_bit edge_index_v 1);
     Some (v, g(dst := dst_edges))
   }"

definition set_neighbor :: "graph_structure \<Rightarrow> u8 \<Rightarrow> nat \<Rightarrow> u8 \<Rightarrow> u8 \<Rightarrow> graph_structure" where
  "set_neighbor structure u i v j =
     structure\<lparr>gs_vertices := (gs_vertices structure)(unat u :=
       (gs_vertices structure (unat u))\<lparr>vi_neighbors :=
         (vi_neighbors (gs_vertices structure (unat u)))(i := \<lparr>nb_id = v, nb_index = j\<rparr>)\<rparr>)\<rparr>"

definition add_edge ::
  "graph_structure \<Rightarrow> graph_edges \<Rightarrow> u8 \<Rightarrow> u8 \<Rightarrow> (graph_structure \<times> graph_edges) option" where
  "add_edge structure edges u v = do {
     bug_on (2 * unat (gs_n structure) \<le> unat u);
     bug_on (2 * unat (gs_n structure) \<le> unat v);
     u_bitmap \<leftarrow> get_bitmap edges u;
     bug_on (NOT u_bitmap = 0);
     let edge_index_u = ffs (NOT u_bitmap);
     v_bitmap \<leftarrow> get_bitmap edges v;
     bug_on (NOT v_bitmap = 0);
     let edge_index_v = ffs (NOT v_bitmap);
     edges \<leftarrow> set_bitmap edges u (u_bitmap OR push_bit edge_index_u 1);
     edges \<leftarrow> set_bitmap edges v (v_bitmap OR push_bit edge_index_v 1);
     let structure = set_neighbor structure u edge_index_u v (of_nat edge_index_v);
     let structure = set_neighbor structure v edge_index_v u (of_nat edge_index_u);
     Some (structure, edges)
   }"

definition add_edges :: "graph_edges \<Rightarrow> graph_edges \<Rightarrow> u8 \<Rightarrow> graph_edges option" where
  "add_edges edges_1 edges_2 n =
     for_each (\<lambda>i edges_1. do {
       bitmap_1 \<leftarrow> get_bitmap edges_1 (of_nat i);
       bitmap_2 \<leftarrow> get_bitmap edges_2 (of_nat i);
       bug_on (bitmap_1 AND bitmap_2 \<noteq> 0);
       set_bitmap edges_1 (of_nat i) (bitmap_1 OR bitmap_2)
     }) [0 ..< 2 * unat n] edges_1"

definition copy_edges :: "graph_edges \<Rightarrow> graph_edges \<Rightarrow> u8 \<Rightarrow> graph_edges option" where
  "copy_edges src_edges dst_edges n =
     for_each (\<lambda>i dst_edges. do {
       bitmap \<leftarrow> get_bitmap src_edges (of_nat i);
       set_bitmap dst_edges (of_nat i) bitmap
     }) [0 ..< 2 * unat n] dst_edges"

definition set_edge :: "graph_structure \<Rightarrow> graph_edges \<Rightarrow> graph_edges \<Rightarrow> u8 \<Rightarrow> u8 \<Rightarrow> graph_edges option" where
  "set_edge structure existing_edges edges u v = do {
     u_bitmap_existing \<leftarrow> get_bitmap existing_edges u;
     u_bitmap \<leftarrow> get_bitmap edges u;
     v_bitmap \<leftarrow> get_bitmap edges v;
     let u_info = gs_vertices structure (unat u);
     case find (\<lambda>i. nb_id (vi_neighbors u_info i) = v \<and> \<not> bit u_bitmap i \<and> \<not> bit u_bitmap_existing i) [0 ..< MAX_DEGREE] of
       None \<Rightarrow> Some edges
     | Some i \<Rightarrow> do {
         let index = unat (nb_index (vi_neighbors u_info i));
         bug_on (64 \<le> index);
         edges \<leftarrow> set_bitmap edges u (u_bitmap OR push_bit i 1);
         set_bitmap edges v (v_bitmap OR push_bit index 1)
       }
   }"

text \<open>A loop that leaves the function with \<open>false\<close> at the first violation.\<close>

fun all_loop :: "('a \<Rightarrow> bool option) \<Rightarrow> 'a list \<Rightarrow> bool option" where
  "all_loop f [] = Some True"
| "all_loop f (x # xs) = do { b \<leftarrow> f x; if b then all_loop f xs else Some False }"

definition are_equal :: "graph_edges \<Rightarrow> graph_edges \<Rightarrow> u8 \<Rightarrow> bool option" where
  "are_equal edges_1 edges_2 n =
     all_loop (\<lambda>i. do {
       bitmap_1 \<leftarrow> get_bitmap edges_1 (of_nat i);
       bitmap_2 \<leftarrow> get_bitmap edges_2 (of_nat i);
       Some (bitmap_1 = bitmap_2)
     }) [0 ..< 2 * unat n]"

definition is_perfect_matching :: "graph_edges \<Rightarrow> u8 \<Rightarrow> bool option" where
  "is_perfect_matching edges n =
     all_loop (\<lambda>i. do { d \<leftarrow> get_degree edges (of_nat i); Some (d = 1) }) [0 ..< 2 * unat n]"

definition consistent_end :: "graph_structure \<Rightarrow> nat \<Rightarrow> nat \<Rightarrow> bool option" where
  "consistent_end structure i j = do {
     let nb = vi_neighbors (gs_vertices structure i) j;
     bug_on (2 * MAX_GRAPH_NODES \<le> unat (nb_id nb));
     bug_on (MAX_DEGREE \<le> unat (nb_index nb));
     let other = vi_neighbors (gs_vertices structure (unat (nb_id nb))) (unat (nb_index nb));
     Some (unat (nb_id other) = i \<and> unat (nb_index other) = j)
   }"

definition is_consistent :: "graph_structure \<Rightarrow> graph_edges \<Rightarrow> bool option" where
  "is_consistent structure edges =
     all_loop (\<lambda>i. do {
       bitmap \<leftarrow> get_bitmap edges (of_nat i);
       all_loop (\<lambda>j. if bit bitmap j then consistent_end structure i j else Some True) [0 ..< MAX_DEGREE]
     }) [0 ..< 2 * unat (gs_n structure)]"

definition create_graph_structure_test :: "graph_structure \<Rightarrow> u8 \<Rightarrow> graph_structure option" where
  "create_graph_structure_test junk n = graph_structure_init junk n"

definition create_graph_edges_test :: "graph_edges \<Rightarrow> u8 \<Rightarrow> graph_edges option" where
  "create_graph_edges_test junk n = graph_edges_init junk n"

end
