(* ===== verification/Graph_Inv.thy ===== *)
theory Graph_Inv
  imports Graph
begin

text \<open>
  What the bitmaps of \<open>Graph\<close> stand for: a graph is the set of the ends of its edges, an end being a vertex and an
  index. The operations of \<^verbatim>\<open>graph.h\<close> are described by what they do to this set.
\<close>

abbreviation gn :: "graph_structure \<Rightarrow> nat" where
  "gn str \<equiv> unat (gs_n str)"

definition other_end :: "graph_structure \<Rightarrow> nat \<times> nat \<Rightarrow> nat \<times> nat" where
  "other_end str p =
     (let nb = vi_neighbors (gs_vertices str (fst p)) (snd p) in (unat (nb_id nb), unat (nb_index nb)))"

definition ends :: "nat \<Rightarrow> graph_edges \<Rightarrow> (nat \<times> nat) set" where
  "ends n e = {p. fst p < 2 * n \<and> bit (neighbor_bitmaps e (fst p)) (snd p)}"

text \<open>
  A graph on a structure: the other end of an edge is an end of the graph, its other end is the first, and the
  two are on different sides.
\<close>

definition wfg :: "graph_structure \<Rightarrow> (nat \<times> nat) set \<Rightarrow> bool" where
  "wfg str E \<longleftrightarrow> (\<forall>p \<in> E. fst p < 2 * gn str \<and> snd p < 64 \<and> other_end str p \<in> E
     \<and> other_end str (other_end str p) = p \<and> (fst p < gn str \<longleftrightarrow> gn str \<le> fst (other_end str p)))"

text \<open>The degree of a vertex, and the number of edges between two vertices.\<close>

definition dg :: "(nat \<times> nat) set \<Rightarrow> nat \<Rightarrow> nat" where
  "dg E u = card {i. (u, i) \<in> E}"

definition mult :: "graph_structure \<Rightarrow> (nat \<times> nat) set \<Rightarrow> nat \<Rightarrow> nat \<Rightarrow> nat" where
  "mult str E u v = card {i. (u, i) \<in> E \<and> fst (other_end str (u, i)) = v}"

lemma ends_snd_less: "p \<in> ends n e \<Longrightarrow> snd p < 64"
  by (auto simp: ends_def dest: bit_imp_le_length)

lemma finite_ends_at [simp]: "wfg str E \<Longrightarrow> finite {i. (u, i) \<in> E}"
  by (rule finite_subset [of _ "{..<64}"]) (auto simp: wfg_def)

lemma finite_wfg: "wfg str E \<Longrightarrow> finite E"
  by (rule finite_subset [of _ "{..< 2 * gn str} \<times> {..<64}"]) (fastforce simp: wfg_def)+

lemma dg_0_iff: "wfg str E \<Longrightarrow> dg E u = 0 \<longleftrightarrow> (\<forall>i. (u, i) \<notin> E)"
  by (auto simp: dg_def)

lemma dg_le: "wfg str E \<Longrightarrow> dg E u \<le> 64"
proof -
  assume "wfg str E"
  then have "{i. (u, i) \<in> E} \<subseteq> {..<64}" by (auto simp: wfg_def)
  from card_mono [OF _ this] show ?thesis by (simp add: dg_def)
qed

lemma wfg_empty [simp]: "wfg str {}" by (simp add: wfg_def)
lemma dg_empty [simp]: "dg {} u = 0" by (simp add: dg_def)
lemma mult_empty [simp]: "mult str {} u v = 0" by (simp add: mult_def)

lemma wfg_Un: "wfg str A \<Longrightarrow> wfg str B \<Longrightarrow> wfg str (A \<union> B)"
  by (auto simp: wfg_def)

lemma dg_Un:
  assumes "wfg str A" "wfg str B" "A \<inter> B = {}"
  shows "dg (A \<union> B) u = dg A u + dg B u"
proof -
  have "{i. (u, i) \<in> A \<union> B} = {i. (u, i) \<in> A} \<union> {i. (u, i) \<in> B}" by auto
  moreover have "{i. (u, i) \<in> A} \<inter> {i. (u, i) \<in> B} = {}" using assms(3) by auto
  ultimately show ?thesis using assms by (simp add: dg_def card_Un_disjoint)
qed

lemma wfg_other:
  assumes "wfg str E" "p \<in> E"
  shows "other_end str p \<in> E" "other_end str (other_end str p) = p" "fst (other_end str p) \<noteq> fst p"
    "fst p < 2 * gn str" "snd p < 64" "fst (other_end str p) < 2 * gn str" "snd (other_end str p) < 64"
    "gn str \<le> fst (other_end str p) \<longleftrightarrow> fst p < gn str" "fst (other_end str p) < gn str \<longleftrightarrow> gn str \<le> fst p"
  using assms unfolding wfg_def by (blast, blast, (metis not_le), blast, blast, blast, blast, blast, (metis not_le))

text \<open>Taking an edge out of a graph and putting it into another.\<close>

abbreviation edge_ends :: "graph_structure \<Rightarrow> nat \<times> nat \<Rightarrow> (nat \<times> nat) set" where
  "edge_ends str p \<equiv> {p, other_end str p}"

lemma wfg_edge: "wfg str E \<Longrightarrow> p \<in> E \<Longrightarrow> wfg str (edge_ends str p)"
  using wfg_other [of str E p] unfolding wfg_def by auto

lemma wfg_remove:
  assumes "wfg str E" "p \<in> E"
  shows "wfg str (E - edge_ends str p)"
  unfolding wfg_def
proof (intro ballI)
  fix q assume q: "q \<in> E - edge_ends str p"
  then have "other_end str q \<notin> edge_ends str p"
    using wfg_other(2) [OF assms] wfg_other(2) [OF assms(1), of q] by auto
  with q show "fst q < 2 * gn str \<and> snd q < 64 \<and> other_end str q \<in> E - edge_ends str p
     \<and> other_end str (other_end str q) = q \<and> (fst q < gn str \<longleftrightarrow> gn str \<le> fst (other_end str q))"
    using wfg_other [OF assms(1), of q] by auto
qed

lemma dg_edge:
  assumes "wfg str E" "p \<in> E"
  shows "dg (edge_ends str p) u = of_bool (u = fst p) + of_bool (u = fst (other_end str p))"
proof -
  have "{i. (u, i) \<in> edge_ends str p} =
      (if u = fst p then {snd p} else {}) \<union> (if u = fst (other_end str p) then {snd (other_end str p)} else {})"
    by (auto simp: prod_eq_iff)
  then show ?thesis using wfg_other(3) [OF assms] by (auto simp: dg_def)
qed

lemma dg_remove:
  assumes "wfg str E" "p \<in> E"
  shows "dg E u = dg (E - edge_ends str p) u + of_bool (u = fst p) + of_bool (u = fst (other_end str p))"
proof -
  have "E = (E - edge_ends str p) \<union> edge_ends str p" using assms(2) wfg_other(1) [OF assms] by auto
  then have "dg E u = dg ((E - edge_ends str p) \<union> edge_ends str p) u" by simp
  also have "\<dots> = dg (E - edge_ends str p) u + dg (edge_ends str p) u"
    by (rule dg_Un [OF wfg_remove [OF assms] wfg_edge [OF assms]]) auto
  finally show ?thesis by (simp add: dg_edge [OF assms])
qed

text \<open>The two vertices of an edge, the one on the left first.\<close>

definition sides :: "graph_structure \<Rightarrow> nat \<times> nat \<Rightarrow> nat \<times> nat" where
  "sides str p = (if fst p < gn str then (fst p, fst (other_end str p)) else (fst (other_end str p), fst p))"

lemma mult_remove:
  assumes "wfg str E" "p \<in> E" "u < gn str"
  shows "mult str E u v = mult str (E - edge_ends str p) u v + of_bool (sides str p = (u, v))"
proof -
  define l where "l = (if fst p < gn str then p else other_end str p)"
  have l: "l \<in> E" "edge_ends str p = {l, other_end str l}" "fst l < gn str" "sides str p = (fst l, fst (other_end str l))"
    using wfg_other [OF assms(1,2)] assms(2) by (auto simp: l_def sides_def)
  have ne: "u \<noteq> fst (other_end str l)" using wfg_other(8) [OF assms(1) l(1)] l(3) assms(3) by auto
  let ?S = "\<lambda>E. {i. (u, i) \<in> E \<and> fst (other_end str (u, i)) = v}"
  have at: "(u, i) \<in> E - edge_ends str p \<longleftrightarrow> (u, i) \<in> E \<and> (u, i) \<noteq> l" for i
    using ne unfolding l(2) by (metis Diff_iff empty_iff fst_conv insert_iff)
  have "i \<in> ?S E \<longleftrightarrow> i \<in> ?S (E - edge_ends str p) \<or> sides str p = (u, v) \<and> i = snd l" for i
  proof (cases "(u, i) = l")
    case True
    then have "u = fst l" "i = snd l" by auto
    then show ?thesis using at [of i] l(1) unfolding l(4) mem_Collect_eq True by blast
  next
    case False
    then have "\<not> (u = fst l \<and> i = snd l)" by auto
    then show ?thesis using at [of i] False unfolding l(4) mem_Collect_eq by blast
  qed
  then have "?S E = ?S (E - edge_ends str p) \<union> (if sides str p = (u, v) then {snd l} else {})"
    unfolding set_eq_iff by (cases "sides str p = (u, v)") (simp_all add: disj_commute)
  moreover have "snd l \<notin> ?S (E - edge_ends str p)" if "sides str p = (u, v)"
  proof -
    have "(u, snd l) = l" using that unfolding l(4) by auto
    then show ?thesis using at [of "snd l"] by blast
  qed
  moreover have "finite (?S (E - edge_ends str p))"
    by (rule finite_subset [OF _ finite_ends_at [OF assms(1)]]) auto
  ultimately show ?thesis by (auto simp: mult_def)
qed

section \<open>The operations on the bitmaps\<close>

declare push_bit_of_1 [simp del]

lemma bit_clear: "bit (w AND NOT (push_bit k 1) :: u64) i \<longleftrightarrow> bit w i \<and> i \<noteq> k"
  by (auto simp: bit_and_iff bit_not_iff bit_push_bit_iff bit_1_iff dest: bit_imp_le_length)

lemma bit_set: "k < 64 \<Longrightarrow> bit (w OR push_bit k 1 :: u64) i \<longleftrightarrow> bit w i \<or> i = k"
  by (auto simp: bit_or_iff bit_push_bit_iff bit_1_iff)

lemma u64_nonzero_bit: "(w :: u64) \<noteq> 0 \<longleftrightarrow> (\<exists>i. bit w i)"
  by (metis bit_0_eq bit_ffs bot_apply bot_bool_def)

text \<open>One end of an edge is taken out of a graph or put into it.\<close>

definition clear_end :: "nat \<times> nat \<Rightarrow> graph_edges \<Rightarrow> graph_edges" where
  "clear_end p e = e\<lparr>neighbor_bitmaps := (neighbor_bitmaps e)
     (fst p := neighbor_bitmaps e (fst p) AND NOT (push_bit (snd p) 1))\<rparr>"

definition set_end :: "nat \<times> nat \<Rightarrow> graph_edges \<Rightarrow> graph_edges" where
  "set_end p e = e\<lparr>neighbor_bitmaps := (neighbor_bitmaps e)
     (fst p := neighbor_bitmaps e (fst p) OR push_bit (snd p) 1)\<rparr>"

lemma ends_clear_end [simp]: "ends n (clear_end p e) = ends n e - {p}"
  by (auto simp: ends_def clear_end_def bit_clear prod_eq_iff split: if_splits)

lemma ends_set_end [simp]: "fst p < 2 * n \<Longrightarrow> snd p < 64 \<Longrightarrow> ends n (set_end p e) = insert p (ends n e)"
  by (auto simp: ends_def set_end_def bit_set prod_eq_iff split: if_splits)

lemma get_bitmap_eq: "unat u < 128 \<Longrightarrow> get_bitmap e u = Some (neighbor_bitmaps e (unat u))"
  by (simp add: get_bitmap_def MAX_GRAPH_NODES_def)

lemma set_bitmap_eq:
  "unat u < 128 \<Longrightarrow> set_bitmap e u w = Some (e\<lparr>neighbor_bitmaps := (neighbor_bitmaps e)(unat u := w)\<rparr>)"
  by (simp add: set_bitmap_def MAX_GRAPH_NODES_def)

lemma has_neighbor_spec:
  assumes "wfg str (ends (gn str) e)" "gn str \<le> 64" "unat u < 2 * gn str"
  shows "has_neighbor e u = Some (dg (ends (gn str) e) (unat u) \<noteq> 0)"
  using assms by (simp add: has_neighbor_def get_bitmap_eq dg_0_iff u64_nonzero_bit) (simp add: ends_def)

lemma find_edge_spec:
  assumes wf: "wfg str (ends (gn str) e)" and n: "gn str \<le> 64" "unat u < 2 * gn str"
    and d: "dg (ends (gn str) e) (unat u) \<noteq> 0"
  shows "\<exists>p v. find_edge str e u = Some (snd p, v, snd (other_end str p)) \<and> p \<in> ends (gn str) e \<and> fst p = unat u
    \<and> unat v = fst (other_end str p) \<and> unat u < 128 \<and> unat v < 128 \<and> unat v \<noteq> unat u"
proof -
  define w where "w = neighbor_bitmaps e (unat u)"
  have "w \<noteq> 0" using d n unfolding dg_0_iff [OF wf] w_def u64_nonzero_bit by (auto simp: ends_def)
  define p where "p = (unat u, ffs w)"
  define v where "v = nb_id (vi_neighbors (gs_vertices str (unat u)) (ffs w))"
  have p: "p \<in> ends (gn str) e" using bit_ffs [OF \<open>w \<noteq> 0\<close>] n by (simp add: p_def ends_def w_def)
  have v: "unat v = fst (other_end str p)" by (simp add: v_def other_end_def p_def Let_def)
  have "snd (other_end str p) < 64" by (rule wfg_other(7) [OF wf p])
  then have "find_edge str e u = Some (snd p, v, snd (other_end str p))"
    using n \<open>w \<noteq> 0\<close>
    by (simp add: find_edge_def get_bitmap_eq w_def [symmetric] v_def Let_def p_def other_end_def)
  then show ?thesis using p v n wfg_other(3,6) [OF wf p] by (auto simp: p_def)
qed

lemma remove_edge_spec:
  assumes wf: "wfg str (ends (gn str) e)" and n: "gn str \<le> 64" "unat u < 2 * gn str"
    and d: "dg (ends (gn str) e) (unat u) \<noteq> 0"
  shows "\<exists>v e' p. remove_edge_to_neighbor str e u = Some (v, e') \<and> p \<in> ends (gn str) e \<and> fst p = unat u
    \<and> unat v = fst (other_end str p) \<and> ends (gn str) e' = ends (gn str) e - edge_ends str p"
proof -
  obtain p v where f: "find_edge str e u = Some (snd p, v, snd (other_end str p))" "p \<in> ends (gn str) e" "fst p = unat u"
    "unat v = fst (other_end str p)" "unat u < 128" "unat v < 128" "unat v \<noteq> unat u"
    using find_edge_spec [OF assms] by blast
  have "remove_edge_to_neighbor str e u = Some (v, clear_end (other_end str p) (clear_end p e))"
    using f(3-7) by (simp add: remove_edge_to_neighbor_def f(1) get_bitmap_eq set_bitmap_eq clear_end_def)
  then show ?thesis using f by (intro exI [of _ p] exI) auto
qed

lemma split_edge_spec:
  assumes wf: "wfg str (ends (gn str) (g src))" and n: "gn str \<le> 64" "unat u < 2 * gn str"
    and d: "dg (ends (gn str) (g src)) (unat u) \<noteq> 0" and sd: "src \<noteq> dst"
  shows "\<exists>v g' p. split_edge str g src dst u = Some (v, g') \<and> p \<in> ends (gn str) (g src) \<and> fst p = unat u
    \<and> unat v = fst (other_end str p) \<and> ends (gn str) (g' src) = ends (gn str) (g src) - edge_ends str p
    \<and> ends (gn str) (g' dst) = ends (gn str) (g dst) \<union> edge_ends str p
    \<and> (\<forall>k. k \<noteq> src \<longrightarrow> k \<noteq> dst \<longrightarrow> g' k = g k)"
proof -
  obtain p v where f: "find_edge str (g src) u = Some (snd p, v, snd (other_end str p))" "p \<in> ends (gn str) (g src)"
    "fst p = unat u" "unat v = fst (other_end str p)" "unat u < 128" "unat v < 128" "unat v \<noteq> unat u"
    using find_edge_spec [OF wf n d] by blast
  define g' where "g' = g(src := clear_end (other_end str p) (clear_end p (g src)),
    dst := set_end (other_end str p) (set_end p (g dst)))"
  have "split_edge str g src dst u = Some (v, g')"
    using f(3-7) sd
    by (simp add: split_edge_def f(1) get_bitmap_eq set_bitmap_eq clear_end_def set_end_def g'_def Let_def)
  then show ?thesis using f(2-4) sd wfg_other(4-7) [OF wf f(2)] by (intro exI [of _ p] exI) (auto simp: g'_def)
qed

section \<open>The consistency check\<close>

lemma all_loop_True: "all_loop f xs = Some True \<longleftrightarrow> (\<forall>x \<in> set xs. f x = Some True)"
proof (induction xs)
  case (Cons x xs)
  then show ?case by (cases "f x") auto
qed simp

lemma is_consistent_wfg:
  assumes wf: "wfg str (ends (gn str) e)" and n: "gn str \<le> 64"
  shows "is_consistent str e = Some True"
proof -
  have c: "consistent_end str i j = Some True" if "(i, j) \<in> ends (gn str) e" for i j
    using wfg_other [OF wf that] n
    by (simp add: consistent_end_def Let_def other_end_def MAX_GRAPH_NODES_def MAX_DEGREE_def)
  have b: "get_bitmap e (of_nat i) = Some (neighbor_bitmaps e i)" if "i < 2 * gn str" for i
  proof -
    have "unat (of_nat i :: u8) = i" using that n by (intro unat_of_nat_word) simp
    then show ?thesis using that n by (simp add: get_bitmap_eq)
  qed
  show ?thesis
    using c by (auto simp: is_consistent_def all_loop_True b ends_def)
qed

end
