(* ===== verification/Euler.thy ===== *)
theory Euler
  imports Graph_Inv
begin

text \<open>
  Euler splits, \<^verbatim>\<open>src/src/graph-algo/euler_split.c\<close>. The edges of a graph in which every degree is even are walked
  along closed trails, and dealt out to two graphs in turn; since the trails are closed and the graph is
  bipartite, each vertex gets half of its edges in each of the two.
\<close>

definition assert_consistent :: "graph_structure \<Rightarrow> graph_edges \<Rightarrow> unit option" where
  "assert_consistent structure edges = do { ok \<leftarrow> is_consistent structure edges; bug_on (\<not> ok) }"

text \<open>
  The graphs \<open>edges_in\<close>, \<open>edges_1\<close> and \<open>edges_2\<close> are entries of the array \<open>g\<close>. The inner loop has no bound of its own:
  on a graph that is not as it should be it may run on.
\<close>

partial_function (option) split_loop ::
  "graph_structure \<Rightarrow> nat \<Rightarrow> nat \<Rightarrow> nat \<Rightarrow> u8 \<Rightarrow> u8 \<Rightarrow> (nat \<Rightarrow> graph_edges) \<Rightarrow> (nat \<Rightarrow> graph_edges) option" where
  "split_loop structure edges_in edges_1 edges_2 node cur_node g = do {
     b \<leftarrow> has_neighbor (g edges_in) node;
     if b then do {
       (new_node, g) \<leftarrow> split_edge structure g edges_in edges_1 cur_node;
       assert_consistent structure (g edges_in);
       assert_consistent structure (g edges_1);
       (new_node, g) \<leftarrow> split_edge structure g edges_in edges_2 new_node;
       assert_consistent structure (g edges_in);
       assert_consistent structure (g edges_2);
       split_loop structure edges_in edges_1 edges_2 node new_node g
     }
     else Some g
   }"

definition split_graph ::
  "graph_structure \<Rightarrow> nat \<Rightarrow> nat \<Rightarrow> nat \<Rightarrow> (nat \<Rightarrow> graph_edges) \<Rightarrow> (nat \<Rightarrow> graph_edges) option" where
  "split_graph structure edges_in edges_1 edges_2 g =
     for_each (\<lambda>node g. split_loop structure edges_in edges_1 edges_2 (of_nat node) (of_nat node) g)
       [0 ..< unat (gs_n structure)] g"

section \<open>Walks that take a graph apart\<close>

text \<open>
  A walk removes an edge from the left, with colour \<open>False\<close>, then one from the right, with colour \<open>True\<close>, and so on. Its
  log has the colour and the two vertices of each edge.
\<close>

type_synonym walk_log = "(bool \<times> nat \<times> nat) list"

definition cnt :: "walk_log \<Rightarrow> bool \<Rightarrow> nat \<Rightarrow> nat" where
  "cnt L c u = length (filter (\<lambda>(c', a, b). c' = c \<and> (a = u \<or> b = u)) L)"

definition lmult :: "walk_log \<Rightarrow> nat \<Rightarrow> nat \<Rightarrow> nat" where
  "lmult L u v = length (filter (\<lambda>(c, a, b). a = u \<and> b = v) L)"

lemma cnt_Nil [simp]: "cnt [] c u = 0" by (simp add: cnt_def)
lemma lmult_Nil [simp]: "lmult [] u v = 0" by (simp add: lmult_def)

lemma lmult_snoc: "lmult (L @ [(c, s)]) u v = lmult L u v + of_bool (s = (u, v))"
  by (cases s) (simp add: lmult_def)

lemma cnt_snoc:
  assumes "wfg str E" "p \<in> E"
  shows "cnt (L @ [(c', sides str p)]) c u
    = cnt L c u + (if c' = c then of_bool (u = fst p) + of_bool (u = fst (other_end str p)) else 0)"
  using wfg_other(3) [OF assms] by (auto simp: cnt_def sides_def)

text \<open>
  The invariant of a walk from \<open>node\<close> that is at \<open>cur\<close>. The edges of the graph at the start, \<open>E0\<close>, are left or logged;
  colours are balanced and the degrees left are even, but for the two ends of the walk.
\<close>

definition walk_inv :: "graph_structure \<Rightarrow> (nat \<times> nat) set \<Rightarrow> nat \<Rightarrow> nat \<Rightarrow> walk_log \<Rightarrow> (nat \<times> nat) set \<Rightarrow> bool" where
  "walk_inv str E0 node cur L E \<longleftrightarrow> wfg str E
     \<and> (\<forall>u. dg E u + cnt L False u + cnt L True u = dg E0 u)
     \<and> (\<forall>u < gn str. \<forall>v. mult str E u v + lmult L u v = mult str E0 u v)
     \<and> (\<forall>u. cnt L False u + of_bool (u = cur) = cnt L True u + of_bool (u = node))
     \<and> (\<forall>u. even (dg E u + of_bool (u = cur) + of_bool (u = node)))"

text \<open>The graph after one edge was logged.\<close>

lemma log_edge:
  assumes "wfg str E" "p \<in> E"
    and "\<And>u. dg E u + cnt L False u + cnt L True u = dg E0 u"
    and "\<And>u v. u < gn str \<Longrightarrow> mult str E u v + lmult L u v = mult str E0 u v"
  shows "wfg str (E - edge_ends str p)"
    "dg (E - edge_ends str p) u + cnt (L @ [(c, sides str p)]) False u + cnt (L @ [(c, sides str p)]) True u = dg E0 u"
    "u < gn str \<Longrightarrow> mult str (E - edge_ends str p) u v + lmult (L @ [(c, sides str p)]) u v = mult str E0 u v"
  using wfg_remove [OF assms(1,2)] assms(3) [of u] dg_remove [OF assms(1,2), of u] assms(4) [of u v]
    mult_remove [OF assms(1,2), of u v]
  by (simp_all add: cnt_snoc [OF assms(1,2)] lmult_snoc)

lemma walk_step:
  assumes w: "walk_inv str E0 node cur L E"
    and p: "p \<in> E" "fst p = cur" and q: "q \<in> E - edge_ends str p" "fst q = fst (other_end str p)"
  shows "walk_inv str E0 node (fst (other_end str q)) ((L @ [(False, sides str p)]) @ [(True, sides str q)])
    (E - edge_ends str p - edge_ends str q)"
proof -
  let ?E1 = "E - edge_ends str p" and ?L1 = "L @ [(False, sides str p)]"
  let ?E2 = "?E1 - edge_ends str q" and ?L2 = "?L1 @ [(True, sides str q)]"
  have wf: "wfg str E" and w1: "\<And>u. dg E u + cnt L False u + cnt L True u = dg E0 u"
    and w2: "\<And>u v. u < gn str \<Longrightarrow> mult str E u v + lmult L u v = mult str E0 u v"
    and w3: "\<And>u. cnt L False u + of_bool (u = cur) = cnt L True u + of_bool (u = node)"
    and w4: "\<And>u. even (dg E u + of_bool (u = cur) + of_bool (u = node))"
    using w by (auto simp: walk_inv_def)
  have l1: "wfg str ?E1" "\<And>u. dg ?E1 u + cnt ?L1 False u + cnt ?L1 True u = dg E0 u"
    "\<And>u v. u < gn str \<Longrightarrow> mult str ?E1 u v + lmult ?L1 u v = mult str E0 u v"
    by - (rule log_edge [OF wf p(1) w1 w2]; assumption)+
  have l2: "wfg str ?E2" "\<And>u. dg ?E2 u + cnt ?L2 False u + cnt ?L2 True u = dg E0 u"
    "\<And>u v. u < gn str \<Longrightarrow> mult str ?E2 u v + lmult ?L2 u v = mult str E0 u v"
    by - (rule log_edge [OF l1(1) q(1) l1(2,3)]; assumption)+
  have "cnt ?L2 False u + of_bool (u = fst (other_end str q)) = cnt ?L2 True u + of_bool (u = node)" for u
    using w3 [of u] p(2) q(2) unfolding cnt_snoc [OF l1(1) q(1)] cnt_snoc [OF wf p(1)] by simp
  moreover have "dg E u + of_bool (u = cur) + of_bool (u = node)
      = (dg ?E2 u + of_bool (u = fst (other_end str q)) + of_bool (u = node))
        + 2 * (of_bool (u = cur) + of_bool (u = fst q))" for u
    using dg_remove [OF wf p(1), of u] dg_remove [OF l1(1) q(1), of u] p(2) q(2) by simp
  then have "even (dg ?E2 u + of_bool (u = fst (other_end str q)) + of_bool (u = node))" for u
    using w4 [of u] by (metis dvd_triv_left even_add)
  ultimately show ?thesis using l2 unfolding walk_inv_def by simp
qed

text \<open>
  The walker: \<open>step c u s\<close> removes an edge of \<open>u\<close> from the graph of the state \<open>s\<close> and does what it does with it;
  \<open>inv L s\<close> relates the state to the edges that were removed so far.
\<close>

locale euler_walk =
  fixes str :: graph_structure
    and graph :: "'s \<Rightarrow> graph_edges"
    and step :: "bool \<Rightarrow> u8 \<Rightarrow> 's \<Rightarrow> (u8 \<times> 's) option"
    and walk :: "u8 \<Rightarrow> u8 \<Rightarrow> 's \<Rightarrow> 's option"
    and inv :: "walk_log \<Rightarrow> 's \<Rightarrow> bool"
  assumes walk: "walk node cur s = do {
      b \<leftarrow> has_neighbor (graph s) node;
      if b then do { (v, s) \<leftarrow> step False cur s; (w, s) \<leftarrow> step True v s; walk node w s } else Some s }"
    and inv_n: "inv L s \<Longrightarrow> gn str \<le> 64"
    and step: "inv L s \<Longrightarrow> wfg str (ends (gn str) (graph s)) \<Longrightarrow> unat u < 2 * gn str
      \<Longrightarrow> dg (ends (gn str) (graph s)) (unat u) \<noteq> 0 \<Longrightarrow> c = (gn str \<le> unat u)
      \<Longrightarrow> returns (step c u s) (\<lambda>(v, s'). \<exists>p \<in> ends (gn str) (graph s). fst p = unat u \<and> unat v = fst (other_end str p)
            \<and> ends (gn str) (graph s') = ends (gn str) (graph s) - edge_ends str p \<and> inv (L @ [(c, sides str p)]) s')"
begin

abbreviation left :: "'s \<Rightarrow> (nat \<times> nat) set" where
  "left s \<equiv> ends (gn str) (graph s)"

lemma two_steps:
  assumes "inv L s" "walk_inv str E0 (unat node) (unat cur) L (left s)" "unat cur < gn str" "unat node < gn str"
    "dg (left s) (unat node) \<noteq> 0"
  shows "returns (do { (v, s) \<leftarrow> step False cur s; step True v s })
    (\<lambda>(w, s'). unat w < gn str \<and> left s' \<subset> left s
       \<and> (\<exists>L'. inv L' s' \<and> walk_inv str E0 (unat node) (unat w) L' (left s')))"
proof -
  have wf: "wfg str (left s)" and par: "\<And>u. even (dg (left s) u + of_bool (u = unat cur) + of_bool (u = unat node))"
    using assms(2) by (auto simp: walk_inv_def)
  have "dg (left s) (unat cur) \<noteq> 0" using par [of "unat cur"] assms(5) by (cases "unat cur = unat node") (auto dest: odd_pos)
  then obtain v s1 p where 1: "step False cur s = Some (v, s1)" "p \<in> left s" "fst p = unat cur" "unat v = fst (other_end str p)"
    "left s1 = left s - edge_ends str p" "inv (L @ [(False, sides str p)]) s1"
    using step [OF assms(1) wf, of cur False] assms(3) by (auto elim!: returnsE)
  have v: "gn str \<le> unat v" "unat v < 2 * gn str" using wfg_other(6,8) [OF wf 1(2)] 1(3,4) assms(3) by auto
  have wf1: "wfg str (left s1)" unfolding 1(5) by (rule wfg_remove [OF wf 1(2)])
  have "odd (dg (left s1) (unat v))"
    using par [of "unat v"] dg_remove [OF wf 1(2), of "unat v"] 1(3,4) v assms(3,4) by (simp add: 1(5))
  then have "dg (left s1) (unat v) \<noteq> 0" by (auto dest: odd_pos)
  then obtain w s2 q where 2: "step True v s1 = Some (w, s2)" "q \<in> left s1" "fst q = unat v" "unat w = fst (other_end str q)"
    "left s2 = left s1 - edge_ends str q" "inv ((L @ [(False, sides str p)]) @ [(True, sides str q)]) s2"
    using step [OF 1(6) wf1, of v True] v by (auto elim!: returnsE)
  have "unat w < gn str" using wfg_other(9) [OF wf1 2(2)] 2(3,4) v by simp
  moreover have "left s2 \<subset> left s" using 1(2,5) 2(5) by auto
  moreover have "walk_inv str E0 (unat node) (unat w) ((L @ [(False, sides str p)]) @ [(True, sides str q)]) (left s2)"
    unfolding 2(4,5) 1(5) using walk_step [OF assms(2) 1(2,3)] 2(2,3) 1(4,5) by simp
  ultimately show ?thesis using 2(6) by (simp add: 1(1) 2(1)) blast
qed

text \<open>A walk ends, where it began, when no edge is left there.\<close>

lemma walk_ends:
  assumes "inv L s" "walk_inv str E0 (unat node) (unat cur) L (left s)" "unat cur < gn str" "unat node < gn str"
  shows "returns (walk node cur s) (\<lambda>s'. left s' \<subseteq> left s \<and> dg (left s') (unat node) = 0
    \<and> (\<exists>L'. inv L' s' \<and> walk_inv str E0 (unat node) (unat node) L' (left s')))"
  using assms
proof (induction "card (left s)" arbitrary: L s cur rule: less_induct)
  case less
  have wf: "wfg str (left s)" and par: "even (dg (left s) (unat node) + of_bool (unat node = unat cur) + 1)"
    using less.prems(2) unfolding walk_inv_def by (auto dest: spec [of _ "unat node"])
  have b: "has_neighbor (graph s) node = Some (dg (left s) (unat node) \<noteq> 0)"
    using has_neighbor_spec [OF wf inv_n [OF less.prems(1)]] less.prems(4) by simp
  show ?case
  proof (cases "dg (left s) (unat node) = 0")
    case True
    then have "unat node = unat cur" using par by auto
    then show ?thesis using True less.prems(1,2) by (subst walk) (auto simp: b)
  next
    case False
    obtain w s' L' where s': "do { (v, s) \<leftarrow> step False cur s; step True v s } = Some (w, s')" "unat w < gn str"
      "left s' \<subset> left s" "inv L' s'" "walk_inv str E0 (unat node) (unat w) L' (left s')"
      using two_steps [OF less.prems False] by (auto elim!: returnsE)
    then have "walk node cur s = walk node w s'"
      using False by (subst walk) (auto simp: b split: bind_splits prod.splits)
    moreover have "card (left s') < card (left s)" by (rule psubset_card_mono [OF finite_wfg [OF wf] s'(3)])
    from less.hyps [OF this s'(4,5,2) less.prems(4)] have "returns (walk node w s') (\<lambda>t. left t \<subseteq> left s
        \<and> dg (left t) (unat node) = 0 \<and> (\<exists>L'. inv L' t \<and> walk_inv str E0 (unat node) (unat node) L' (left t)))"
      by (rule returns_mono) (use s'(3) in blast)
    ultimately show ?thesis by simp
  qed
qed

text \<open>
  The walks from all nodes on the left take the whole graph apart. The log has every edge once, and each vertex
  has as many edges of one colour as of the other.
\<close>

lemma walks_deal_out:
  assumes "inv [] s" "wfg str (left s)" "\<And>u. even (dg (left s) u)"
  shows "returns (for_each (\<lambda>node s. walk (of_nat node) (of_nat node) s) [0 ..< gn str] s)
    (\<lambda>s'. left s' = {} \<and> (\<exists>L. inv L s'
       \<and> (\<forall>u. 2 * cnt L False u = dg (left s) u \<and> 2 * cnt L True u = dg (left s) u)
       \<and> (\<forall>u < gn str. \<forall>v. lmult L u v = mult str (left s) u v)))"
proof -
  define I where "I k s' \<longleftrightarrow> (\<exists>L. inv L s' \<and> walk_inv str (left s) 0 0 L (left s') \<and> (\<forall>u < k. dg (left s') u = 0))"
    for k s'
  have n: "gn str \<le> 64" by (rule inv_n [OF assms(1)])
  have same: "walk_inv str E0 a a L E = walk_inv str E0 0 0 L E" for E0 a L E
  proof -
    have "even (d + of_bool b + of_bool b) \<longleftrightarrow> even d" for d :: nat and b by (cases b) simp_all
    then show ?thesis by (simp add: walk_inv_def)
  qed
  have "I 0 s" using assms unfolding I_def walk_inv_def by (intro exI [of _ "[]"]) auto
  then have "returns (for_each (\<lambda>node s. walk (of_nat node) (of_nat node) s) [0 ..< gn str] s) (I (gn str))"
  proof (rule for_each_loop)
    fix k t assume k: "k < gn str" and "I k t"
    then obtain L where t: "inv L t" "walk_inv str (left s) 0 0 L (left t)" "\<forall>u < k. dg (left t) u = 0"
      by (auto simp: I_def)
    have u: "unat (of_nat k :: u8) = k" using k n by (intro unat_of_nat_word) simp
    have wf: "wfg str (left t)" using t(2) by (simp add: walk_inv_def)
    have "I (Suc k) t'" if t': "left t' \<subseteq> left t" "dg (left t') k = 0" "inv L' t'" "walk_inv str (left s) k k L' (left t')"
      for L' t'
    proof -
      have "wfg str (left t')" using t'(4) by (simp add: walk_inv_def)
      then have "dg (left t') u = 0" if "u < Suc k" for u
        using t'(1,2) t(3) that unfolding less_Suc_eq by (auto simp: dg_0_iff [OF wf] dg_0_iff)
      then show ?thesis using t'(3,4) same [of "left s" k L' "left t'"] by (auto simp: I_def)
    qed
    moreover have "walk_inv str (left s) k k L (left t)" using t(2) same by blast
    ultimately show "returns (walk (of_nat k) (of_nat k) t) (I (Suc k))"
      using walk_ends [OF t(1), of "left s" "of_nat k" "of_nat k", unfolded u] k by (auto elim!: returns_mono)
  qed
  then show ?thesis
  proof (rule returns_mono)
    fix s' assume "I (gn str) s'"
    then obtain L where L: "inv L s'" "walk_inv str (left s) 0 0 L (left s')" "\<forall>u < gn str. dg (left s') u = 0"
      by (auto simp: I_def)
    have wf: "wfg str (left s')" using L(2) by (simp add: walk_inv_def)
    have "p \<notin> left s'" for p
    proof
      assume p: "p \<in> left s'"
      have "fst p < gn str \<or> fst (other_end str p) < gn str" using wfg_other(9) [OF wf p] by linarith
      then show False using L(3) p wfg_other(1) [OF wf p] unfolding dg_0_iff [OF wf] by (metis prod.collapse)
    qed
    then have "left s' = {}" by blast
    then show "left s' = {} \<and> (\<exists>L. inv L s' \<and> (\<forall>u. 2 * cnt L False u = dg (left s) u \<and> 2 * cnt L True u = dg (left s) u)
        \<and> (\<forall>u < gn str. \<forall>v. lmult L u v = mult str (left s) u v))"
      using L(1,2) by (auto simp: walk_inv_def mult_2 intro!: exI [of _ L])
  qed
qed

end

section \<open>The split\<close>

definition split_step ::
  "graph_structure \<Rightarrow> nat \<Rightarrow> nat \<Rightarrow> nat \<Rightarrow> bool \<Rightarrow> u8 \<Rightarrow> (nat \<Rightarrow> graph_edges) \<Rightarrow> (u8 \<times> (nat \<Rightarrow> graph_edges)) option" where
  "split_step str a b1 b2 c u g = do {
     (v, g) \<leftarrow> split_edge str g a (if c then b2 else b1) u;
     assert_consistent str (g a);
     assert_consistent str (g (if c then b2 else b1));
     Some (v, g)
   }"

text \<open>
  What a split that began with the graphs \<open>g0\<close> has reached after the edges of the log: each of the two results has the
  edges of its colour, no edge is in two graphs and none is lost.
\<close>

definition split_inv ::
  "graph_structure \<Rightarrow> nat \<Rightarrow> nat \<Rightarrow> nat \<Rightarrow> (nat \<Rightarrow> graph_edges) \<Rightarrow> walk_log \<Rightarrow> (nat \<Rightarrow> graph_edges) \<Rightarrow> bool" where
  "split_inv str a b1 b2 g0 L g \<longleftrightarrow> gn str \<le> 64 \<and> distinct [a, b1, b2]
     \<and> wfg str (ends (gn str) (g b1)) \<and> wfg str (ends (gn str) (g b2))
     \<and> ends (gn str) (g a) \<inter> ends (gn str) (g b1) = {} \<and> ends (gn str) (g a) \<inter> ends (gn str) (g b2) = {}
     \<and> ends (gn str) (g b1) \<inter> ends (gn str) (g b2) = {}
     \<and> ends (gn str) (g a) \<union> ends (gn str) (g b1) \<union> ends (gn str) (g b2)
         = ends (gn str) (g0 a) \<union> ends (gn str) (g0 b1) \<union> ends (gn str) (g0 b2)
     \<and> (\<forall>u. dg (ends (gn str) (g b1)) u = dg (ends (gn str) (g0 b1)) u + cnt L False u)
     \<and> (\<forall>u. dg (ends (gn str) (g b2)) u = dg (ends (gn str) (g0 b2)) u + cnt L True u)
     \<and> (\<forall>k. k \<notin> {a, b1, b2} \<longrightarrow> g k = g0 k)"

lemma assert_consistent_wfg:
  "wfg str (ends (gn str) e) \<Longrightarrow> gn str \<le> 64 \<Longrightarrow> assert_consistent str e = Some ()"
  by (simp add: assert_consistent_def is_consistent_wfg)

lemma add_edge_dg:
  assumes "wfg str E" "p \<in> E" "wfg str B" "E \<inter> B = {}"
  shows "wfg str (B \<union> edge_ends str p)"
    "dg (B \<union> edge_ends str p) u = dg B u + of_bool (u = fst p) + of_bool (u = fst (other_end str p))"
proof -
  have "B \<inter> edge_ends str p = {}" using assms(2,4) wfg_other(1) [OF assms(1,2)] by auto
  then show "dg (B \<union> edge_ends str p) u = dg B u + of_bool (u = fst p) + of_bool (u = fst (other_end str p))"
    using dg_Un [OF assms(3) wfg_edge [OF assms(1,2)], of u] by (simp add: dg_edge [OF assms(1,2)])
qed (rule wfg_Un [OF assms(3) wfg_edge [OF assms(1,2)]])

lemma split_step_ok:
  assumes inv: "split_inv str a b1 b2 g0 L g" and wf: "wfg str (ends (gn str) (g a))" and u: "unat u < 2 * gn str"
    "dg (ends (gn str) (g a)) (unat u) \<noteq> 0"
  shows "returns (split_step str a b1 b2 c u g) (\<lambda>(v, g'). \<exists>p \<in> ends (gn str) (g a). fst p = unat u
    \<and> unat v = fst (other_end str p) \<and> ends (gn str) (g' a) = ends (gn str) (g a) - edge_ends str p
    \<and> split_inv str a b1 b2 g0 (L @ [(c, sides str p)]) g')"
proof -
  define b where "b = (if c then b2 else b1)"
  have n: "gn str \<le> 64" and ab: "a \<noteq> b" "a \<noteq> b1" "a \<noteq> b2" "b1 \<noteq> b2"
    and wfb: "wfg str (ends (gn str) (g b))" and dis: "ends (gn str) (g a) \<inter> ends (gn str) (g b) = {}"
    using inv by (auto simp: split_inv_def b_def)
  obtain v g' p where e: "split_edge str g a b u = Some (v, g')" "p \<in> ends (gn str) (g a)" "fst p = unat u"
    "unat v = fst (other_end str p)" "ends (gn str) (g' a) = ends (gn str) (g a) - edge_ends str p"
    "ends (gn str) (g' b) = ends (gn str) (g b) \<union> edge_ends str p" "\<And>k. k \<noteq> a \<Longrightarrow> k \<noteq> b \<Longrightarrow> g' k = g k"
    using split_edge_spec [where g = g and src = a, OF wf n u ab(1)] by blast
  note add = add_edge_dg [OF wf e(2) wfb dis]
  have wf': "wfg str (ends (gn str) (g' a))" "wfg str (ends (gn str) (g' b))"
    unfolding e(5,6) using wfg_remove [OF wf e(2)] add(1) by simp_all
  have "split_step str a b1 b2 c u g = Some (v, g')"
    unfolding split_step_def b_def [symmetric] by (simp add: e(1) assert_consistent_wfg wf' n)
  moreover have "split_inv str a b1 b2 g0 (L @ [(c, sides str p)]) g'"
    using inv wf' e(2,5,6,7) ab wfg_other(1) [OF wf e(2)] add(2)
    unfolding split_inv_def b_def by (cases c) (simp_all add: cnt_snoc [OF wf e(2)], blast+)
  ultimately show ?thesis using e(2-5) by auto
qed

interpretation splits: euler_walk str "\<lambda>g. g a" "split_step str a b1 b2" "split_loop str a b1 b2" "split_inv str a b1 b2 g0"
  for str a b1 b2 g0
proof
  show "split_loop str a b1 b2 node cur s = do {
      b \<leftarrow> has_neighbor (s a) node;
      if b then do { (v, s) \<leftarrow> split_step str a b1 b2 False cur s; (w, s) \<leftarrow> split_step str a b1 b2 True v s;
        split_loop str a b1 b2 node w s } else Some s }" for node cur s
    by (subst split_loop.simps) (simp add: split_step_def split: bind_splits prod.splits)
qed (use split_step_ok in \<open>auto simp: split_inv_def\<close>)

text \<open>
  A graph with even degrees is dealt out to two graphs on the same structure. Nothing is lost, and each vertex
  has half of its degree in each of the two, on top of what the two had before.
\<close>

lemma split_graph_ok:
  assumes "gn str \<le> 64" "distinct [a, b1, b2]" "wfg str (ends (gn str) (g a))" "\<And>u. even (dg (ends (gn str) (g a)) u)"
    "wfg str (ends (gn str) (g b1))" "wfg str (ends (gn str) (g b2))"
    "ends (gn str) (g a) \<inter> ends (gn str) (g b1) = {}" "ends (gn str) (g a) \<inter> ends (gn str) (g b2) = {}"
    "ends (gn str) (g b1) \<inter> ends (gn str) (g b2) = {}"
  shows "returns (split_graph str a b1 b2 g) (\<lambda>g'. ends (gn str) (g' a) = {}
    \<and> wfg str (ends (gn str) (g' b1)) \<and> wfg str (ends (gn str) (g' b2))
    \<and> ends (gn str) (g' b1) \<inter> ends (gn str) (g' b2) = {}
    \<and> ends (gn str) (g' b1) \<union> ends (gn str) (g' b2) = ends (gn str) (g a) \<union> ends (gn str) (g b1) \<union> ends (gn str) (g b2)
    \<and> (\<forall>u. dg (ends (gn str) (g' b1)) u = dg (ends (gn str) (g b1)) u + dg (ends (gn str) (g a)) u div 2)
    \<and> (\<forall>u. dg (ends (gn str) (g' b2)) u = dg (ends (gn str) (g b2)) u + dg (ends (gn str) (g a)) u div 2)
    \<and> (\<forall>k. k \<notin> {a, b1, b2} \<longrightarrow> g' k = g k))"
proof -
  have "split_inv str a b1 b2 g [] g" using assms by (simp add: split_inv_def)
  from splits.walks_deal_out [OF this assms(3,4)] show ?thesis
    unfolding split_graph_def
  proof (rule returns_mono)
    fix g'
    assume "ends (gn str) (g' a) = {} \<and> (\<exists>L. split_inv str a b1 b2 g L g'
       \<and> (\<forall>u. 2 * cnt L False u = dg (ends (gn str) (g a)) u \<and> 2 * cnt L True u = dg (ends (gn str) (g a)) u)
       \<and> (\<forall>u < gn str. \<forall>v. lmult L u v = mult str (ends (gn str) (g a)) u v))"
    then obtain L where L: "ends (gn str) (g' a) = {}" "split_inv str a b1 b2 g L g'"
      "\<And>u. 2 * cnt L False u = dg (ends (gn str) (g a)) u" "\<And>u. 2 * cnt L True u = dg (ends (gn str) (g a)) u"
      by blast
    then have half: "cnt L c u = dg (ends (gn str) (g a)) u div 2" for c u
      by (metis (full_types) nonzero_mult_div_cancel_left zero_neq_numeral)
    show "ends (gn str) (g' a) = {}
      \<and> wfg str (ends (gn str) (g' b1)) \<and> wfg str (ends (gn str) (g' b2))
      \<and> ends (gn str) (g' b1) \<inter> ends (gn str) (g' b2) = {}
      \<and> ends (gn str) (g' b1) \<union> ends (gn str) (g' b2) = ends (gn str) (g a) \<union> ends (gn str) (g b1) \<union> ends (gn str) (g b2)
      \<and> (\<forall>u. dg (ends (gn str) (g' b1)) u = dg (ends (gn str) (g b1)) u + dg (ends (gn str) (g a)) u div 2)
      \<and> (\<forall>u. dg (ends (gn str) (g' b2)) u = dg (ends (gn str) (g b2)) u + dg (ends (gn str) (g a)) u div 2)
      \<and> (\<forall>k. k \<notin> {a, b1, b2} \<longrightarrow> g' k = g k)"
      using L(1,2) unfolding split_inv_def half by (simp add: Un_assoc)
  qed
qed

lemma init_graphs:
  assumes "unat n \<le> 64"
  shows "returns (for_each (\<lambda>i g. do { e \<leftarrow> graph_edges_init (g i) n; Some (g(i := e)) }) [0 ..< N] g)
    (\<lambda>g. \<forall>k < N. ends (unat n) (g k) = {})"
  by (rule for_each_loop)
    (use assms in \<open>auto simp: graph_edges_init_def MAX_GRAPH_NODES_def ends_def less_Suc_eq\<close>)

end
