(* ===== verification/Kapoor_Rizzi.thy ===== *)
theory Kapoor_Rizzi
  imports Euler
begin

text \<open>
  The edge colouring of Kapoor and Rizzi, \<^verbatim>\<open>src/src/graph-algo/kapoor_rizzi.c\<close>: a regular graph is split into
  matchings by a list of Euler splits that was computed beforehand.
\<close>

definition MAX_MATCHINGS :: nat where "MAX_MATCHINGS = 48"
definition MAX_STEPS :: nat where "MAX_STEPS = 128"

record kr_step =
  src_index :: u8
  dst1_index :: u8
  dst2_index :: u8

record kr =
  kr_degree :: u8
  kr_num_steps :: u8
  kr_steps :: "nat \<Rightarrow> kr_step"

record matching_set =
  ms_num_matchings :: u8
  ms_matchings :: "nat \<Rightarrow> graph_edges"

definition kr_init :: "kr \<Rightarrow> u8 \<Rightarrow> kr option" where
  "kr_init kr degree = do {
     bug_on (degree < 1);
     Some (kr\<lparr>kr_degree := degree, kr_num_steps := 0\<rparr>)
   }"

text \<open>One step of the list: the indices of the three graphs are indices of the array of matchings.\<close>

definition kr_apply :: "graph_structure \<Rightarrow> kr_step \<Rightarrow> (nat \<Rightarrow> graph_edges) \<Rightarrow> (nat \<Rightarrow> graph_edges) option" where
  "kr_apply structure step matchings = do {
     bug_on (MAX_MATCHINGS \<le> unat (src_index step));
     bug_on (MAX_MATCHINGS \<le> unat (dst1_index step));
     bug_on (MAX_MATCHINGS \<le> unat (dst2_index step));
     split_graph structure (unat (src_index step)) (unat (dst1_index step)) (unat (dst2_index step)) matchings
   }"

definition solve ::
  "kr \<Rightarrow> graph_structure \<Rightarrow> graph_edges \<Rightarrow> graph_edges \<Rightarrow> matching_set \<Rightarrow> matching_set option" where
  "solve kr structure edges_in edges_arbitrary solution = do {
     let num_matchings = kr_degree kr + 1;
     matchings \<leftarrow> for_each (\<lambda>i m. do { e \<leftarrow> graph_edges_init (m i) (gs_n structure); Some (m(i := e)) })
       [0 ..< MAX_MATCHINGS] (ms_matchings solution);
     bug_on (MAX_MATCHINGS \<le> unat num_matchings);
     e \<leftarrow> add_edges (matchings (unat num_matchings)) edges_in (gs_n structure);
     let matchings = matchings(unat num_matchings := e);
     e \<leftarrow> add_edges (matchings 0) edges_arbitrary (gs_n structure);
     let matchings = matchings(0 := e);
     bug_on (MAX_STEPS < unat (kr_num_steps kr));
     matchings \<leftarrow> for_each (kr_apply structure) (map (kr_steps kr) [0 ..< unat (kr_num_steps kr)]) matchings;
     Some (solution\<lparr>ms_matchings := matchings, ms_num_matchings := num_matchings\<rparr>)
   }"

definition create_kr :: "kr \<Rightarrow> u8 \<Rightarrow> kr option" where
  "create_kr junk degree = kr_init junk degree"

definition set_kr_step :: "kr \<Rightarrow> u8 \<Rightarrow> u8 \<Rightarrow> u8 \<Rightarrow> kr option" where
  "set_kr_step kr src dst1 dst2 = do {
     bug_on (MAX_STEPS \<le> unat (kr_num_steps kr));
     Some (kr\<lparr>kr_steps := (kr_steps kr)(unat (kr_num_steps kr) := \<lparr>src_index = src, dst1_index = dst1, dst2_index = dst2\<rparr>),
              kr_num_steps := kr_num_steps kr + 1\<rparr>)
   }"

definition matching_set_init :: "matching_set \<Rightarrow> matching_set" where
  "matching_set_init solution = solution\<lparr>ms_num_matchings := 0\<rparr>"

definition create_matching_set :: "matching_set \<Rightarrow> matching_set" where
  "create_matching_set junk = matching_set_init junk"

definition get_num_matchings :: "matching_set \<Rightarrow> u8" where
  "get_num_matchings solution = ms_num_matchings solution"

definition get_matching :: "matching_set \<Rightarrow> u8 \<Rightarrow> graph_edges option" where
  "get_matching solution index = do {
     bug_on (ms_num_matchings solution \<le> index);
     Some (ms_matchings solution (unat index))
   }"

section \<open>Degrees and sums of graphs\<close>

lemma finite_u64_bits [simp]: "finite {i. bit (w :: u64) i}"
  by (rule finite_subset [of _ "{..<64}"]) (auto dest: bit_imp_le_length)

lemma card_bits_rec: "card {i. bit (w :: u64) i} = of_bool (bit w 0) + card {i. bit (drop_bit 1 w) i}"
proof -
  have "i \<in> {i. bit w i} \<longleftrightarrow> i \<in> {i. i = 0 \<and> bit w 0} \<union> Suc ` {i. bit (drop_bit 1 w) i}" for i
    by (cases i) (auto simp: bit_drop_bit_eq)
  then have "{i. bit w i} = {i. i = 0 \<and> bit w 0} \<union> Suc ` {i. bit (drop_bit 1 w) i}" by blast
  moreover have "card ({i. i = 0 \<and> bit w 0} \<union> Suc ` {i. bit (drop_bit 1 w) i})
      = card {i. i = (0 :: nat) \<and> bit w 0} + card {i. bit (drop_bit 1 w) i}"
    by (subst card_Un_disjoint) (auto simp: card_image)
  ultimately show ?thesis by (cases "bit w 0") simp_all
qed

lemma low_bit_u8: "ucast (w AND 1 :: u64) = (of_bool (bit w 0) :: u8)"
  by (simp add: and_one_eq bit_0 mod_2_eq_odd)

lemma degree_loop_card: "degree_loop d w = d + of_nat (card {i. bit w i})"
proof (induction d w rule: degree_loop.induct)
  case (1 d w)
  show ?case
  proof (cases "w = 0")
    case True
    then show ?thesis by (simp add: degree_loop.simps)
  next
    case False
    then show ?thesis
      using 1 [OF False] unfolding degree_loop.simps [of d w] card_bits_rec [of w] low_bit_u8 by (simp add: add.assoc)
  qed
qed

lemma get_bitmap_of_nat: "i < 128 \<Longrightarrow> get_bitmap e (of_nat i) = Some (neighbor_bitmaps e i)"
  by (simp add: get_bitmap_eq unat_of_nat_word)

lemma set_bitmap_of_nat:
  "i < 128 \<Longrightarrow> set_bitmap e (of_nat i) w = Some (e\<lparr>neighbor_bitmaps := (neighbor_bitmaps e)(i := w)\<rparr>)"
  by (simp add: set_bitmap_eq unat_of_nat_word)

lemma get_degree_dg:
  assumes "i < 2 * n" "n \<le> 64"
  shows "get_degree e (of_nat i) = Some (of_nat (dg (ends n e) i))"
  using assms by (simp add: get_degree_def get_bitmap_of_nat degree_loop_card) (simp add: dg_def ends_def)

lemma add_edges_ok:
  assumes "unat n \<le> 64" "ends (unat n) e1 \<inter> ends (unat n) e2 = {}"
  shows "returns (add_edges e1 e2 n) (\<lambda>e. ends (unat n) e = ends (unat n) e1 \<union> ends (unat n) e2)"
proof -
  let ?m = "2 * unat n"
  have "returns (add_edges e1 e2 n) (\<lambda>e. \<forall>i. neighbor_bitmaps e i =
      (if i < ?m then neighbor_bitmaps e1 i OR neighbor_bitmaps e2 i else neighbor_bitmaps e1 i))"
    unfolding add_edges_def
  proof (rule for_each_loop)
    fix i and e :: graph_edges
    assume i: "i < ?m" and e: "\<forall>j. neighbor_bitmaps e j =
      (if j < i then neighbor_bitmaps e1 j OR neighbor_bitmaps e2 j else neighbor_bitmaps e1 j)"
    have "neighbor_bitmaps e1 i AND neighbor_bitmaps e2 i = 0"
    proof (rule bit_eqI)
      fix j
      have "(i, j) \<notin> ends (unat n) e1 \<inter> ends (unat n) e2" using assms(2) by blast
      then show "bit (neighbor_bitmaps e1 i AND neighbor_bitmaps e2 i) j = bit 0 j"
        using i by (simp add: ends_def bit_and_iff)
    qed
    then show "returns (do { bitmap_1 \<leftarrow> get_bitmap e (of_nat i); bitmap_2 \<leftarrow> get_bitmap e2 (of_nat i);
        bug_on (bitmap_1 AND bitmap_2 \<noteq> 0); set_bitmap e (of_nat i) (bitmap_1 OR bitmap_2) })
      (\<lambda>e. \<forall>j. neighbor_bitmaps e j =
        (if j < Suc i then neighbor_bitmaps e1 j OR neighbor_bitmaps e2 j else neighbor_bitmaps e1 j))"
      using i assms(1) e by (simp add: get_bitmap_of_nat set_bitmap_of_nat less_Suc_eq)
  qed simp
  then show ?thesis by (rule returns_mono) (auto simp: ends_def bit_or_iff)
qed

section \<open>The degrees of the graphs along the steps\<close>

text \<open>A graph in which every vertex has degree \<open>d\<close>.\<close>

definition regular :: "graph_structure \<Rightarrow> graph_edges \<Rightarrow> nat \<Rightarrow> bool" where
  "regular str e d \<longleftrightarrow> wfg str (ends (gn str) e) \<and> (\<forall>u < 2 * gn str. dg (ends (gn str) e) u = d)"

lemma regular_dg: "regular str e d \<Longrightarrow> dg (ends (gn str) e) u = (if u < 2 * gn str then d else 0)"
  by (auto simp: regular_def dg_def ends_def)

lemma regular_0: "regular str e 0 \<Longrightarrow> ends (gn str) e = {}"
proof -
  assume r: "regular str e 0"
  have wf: "wfg str (ends (gn str) e)" using r by (simp add: regular_def)
  have "dg (ends (gn str) e) u = 0" for u using regular_dg [OF r] by simp
  then have "(u, i) \<notin> ends (gn str) e" for u i using dg_0_iff [OF wf] by blast
  then show ?thesis by auto
qed

text \<open>
  What the steps do to the degrees. A step needs three different graphs of the array, and a source of even
  degree.
\<close>

fun kr_degrees :: "kr_step list \<Rightarrow> (nat \<Rightarrow> nat) \<Rightarrow> (nat \<Rightarrow> nat) option" where
  "kr_degrees [] d = Some d"
| "kr_degrees (step # steps) d =
     (let a = unat (src_index step); b1 = unat (dst1_index step); b2 = unat (dst2_index step) in
      if distinct [a, b1, b2] \<and> a < MAX_MATCHINGS \<and> b1 < MAX_MATCHINGS \<and> b2 < MAX_MATCHINGS \<and> even (d a)
      then kr_degrees steps (d(a := 0, b1 := d b1 + d a div 2, b2 := d b2 + d a div 2)) else None)"

definition graphs_inv :: "graph_structure \<Rightarrow> (nat \<times> nat) set \<Rightarrow> (nat \<Rightarrow> nat) \<Rightarrow> (nat \<Rightarrow> graph_edges) \<Rightarrow> bool" where
  "graphs_inv str E d g \<longleftrightarrow> gn str \<le> 64 \<and> (\<forall>k < MAX_MATCHINGS. regular str (g k) (d k))
     \<and> (\<forall>k < MAX_MATCHINGS. \<forall>l < MAX_MATCHINGS. k \<noteq> l \<longrightarrow> ends (gn str) (g k) \<inter> ends (gn str) (g l) = {})
     \<and> (\<Union>k < MAX_MATCHINGS. ends (gn str) (g k)) = E"

lemma UN_three:
  assumes "a < n" "b < n" "c < n" "\<And>k. k \<notin> {a, b, c} \<Longrightarrow> f k = g k" "f a \<union> f b \<union> f c = g a \<union> g b \<union> g c"
  shows "(\<Union>k < n. f k) = (\<Union>k < (n :: nat). g k)"
proof -
  have "(\<Union>k < n. h k) = (h a \<union> h b \<union> h c) \<union> (\<Union>k \<in> {..<n} - {a, b, c}. h k)" for h :: "nat \<Rightarrow> 'b set"
    using assms(1-3) by auto
  note this [of f] this [of g]
  moreover have "(\<Union>k \<in> {..<n} - {a, b, c}. f k) = (\<Union>k \<in> {..<n} - {a, b, c}. g k)" using assms(4) by simp
  ultimately show ?thesis using assms(5) by simp
qed

lemma UN_shrink: "m \<le> n \<Longrightarrow> (\<And>i. i < n \<Longrightarrow> \<not> i < m \<Longrightarrow> f i = {}) \<Longrightarrow> (\<Union>i < m. f i) = (\<Union>i < (n :: nat). f i)"
  by (rule set_eqI) (force intro: less_le_trans)

lemma kr_apply_ok:
  assumes inv: "graphs_inv str E d g"
    and i: "a = unat (src_index step)" "b1 = unat (dst1_index step)" "b2 = unat (dst2_index step)"
      "distinct [a, b1, b2]" "a < MAX_MATCHINGS" "b1 < MAX_MATCHINGS" "b2 < MAX_MATCHINGS" "even (d a)"
  shows "returns (kr_apply str step g) (graphs_inv str E (d(a := 0, b1 := d b1 + d a div 2, b2 := d b2 + d a div 2)))"
proof -
  let ?e = "\<lambda>g k. ends (gn str) (g k)"
  let ?d = "d(a := 0, b1 := d b1 + d a div 2, b2 := d b2 + d a div 2)"
  have n: "gn str \<le> 64" and reg: "\<And>k. k < MAX_MATCHINGS \<Longrightarrow> regular str (g k) (d k)"
    and dis: "\<And>k l. k < MAX_MATCHINGS \<Longrightarrow> l < MAX_MATCHINGS \<Longrightarrow> k \<noteq> l \<Longrightarrow> ?e g k \<inter> ?e g l = {}"
    and un: "(\<Union>k < MAX_MATCHINGS. ?e g k) = E"
    using inv by (auto simp: graphs_inv_def)
  have wf: "\<And>k. k < MAX_MATCHINGS \<Longrightarrow> wfg str (?e g k)" using reg by (simp add: regular_def)
  have ev: "even (dg (?e g a) u)" for u using regular_dg [OF reg [OF i(5)]] i(8) by simp
  have ok: "returns (split_graph str a b1 b2 g) (graphs_inv str E ?d)"
  proof (rule returns_mono [OF split_graph_ok [where g = g and a = a and ?b1.0 = b1 and ?b2.0 = b2, OF n i(4) wf [OF i(5)] ev
        wf [OF i(6)] wf [OF i(7)]]])
    fix g'
    assume "?e g' a = {} \<and> wfg str (?e g' b1) \<and> wfg str (?e g' b2) \<and> ?e g' b1 \<inter> ?e g' b2 = {}
      \<and> ?e g' b1 \<union> ?e g' b2 = ?e g a \<union> ?e g b1 \<union> ?e g b2
      \<and> (\<forall>u. dg (?e g' b1) u = dg (?e g b1) u + dg (?e g a) u div 2)
      \<and> (\<forall>u. dg (?e g' b2) u = dg (?e g b2) u + dg (?e g a) u div 2)
      \<and> (\<forall>k. k \<notin> {a, b1, b2} \<longrightarrow> g' k = g k)"
    then have g': "?e g' a = {}" "wfg str (?e g' b1)" "wfg str (?e g' b2)" "?e g' b1 \<inter> ?e g' b2 = {}"
      "?e g' b1 \<union> ?e g' b2 = ?e g a \<union> ?e g b1 \<union> ?e g b2"
      "\<And>u. dg (?e g' b1) u = dg (?e g b1) u + dg (?e g a) u div 2"
      "\<And>u. dg (?e g' b2) u = dg (?e g b2) u + dg (?e g a) u div 2" "\<And>k. k \<notin> {a, b1, b2} \<Longrightarrow> g' k = g k"
      by blast+
    have "regular str (g' k) (?d k)" if k: "k < MAX_MATCHINGS" for k
    proof (cases "k \<in> {a, b1, b2}")
      case True
      then show ?thesis
        using g'(1-3,6,7) i(4) regular_dg [OF reg] i(5-7) by (auto simp: regular_def)
    next
      case False
      then show ?thesis using reg [OF k] g'(8) [OF False] by simp
    qed
    moreover have "?e g' k \<inter> ?e g' l = {}" if kl: "k < MAX_MATCHINGS" "l < MAX_MATCHINGS" "k \<noteq> l" for k l
    proof -
      let ?S = "{a, b1, b2}"
      have inside: "?e g' k \<subseteq> ?e g a \<union> ?e g b1 \<union> ?e g b2" if "k \<in> ?S" for k using that g'(1,5) by blast
      have apart: "(?e g a \<union> ?e g b1 \<union> ?e g b2) \<inter> ?e g' k = {}" if "k \<notin> ?S" "k < MAX_MATCHINGS" for k
        using dis [OF i(5) that(2)] dis [OF i(6) that(2)] dis [OF i(7) that(2)] that(1) g'(8) [OF that(1)] by auto
      have same: "?e g' k \<inter> ?e g' l = {}" if "k \<in> ?S" "l \<in> ?S" using that kl(3) g'(1,4) by auto
      consider "k \<in> ?S" "l \<in> ?S" | "k \<in> ?S" "l \<notin> ?S" | "k \<notin> ?S" "l \<in> ?S" | "k \<notin> ?S" "l \<notin> ?S" by blast
      then show ?thesis
      proof cases
        case 1
        then show ?thesis by (rule same)
      next
        case 2
        show ?thesis using inside [OF 2(1)] apart [OF 2(2) kl(2)] by blast
      next
        case 3
        show ?thesis using inside [OF 3(2)] apart [OF 3(1) kl(1)] by blast
      next
        case 4
        show ?thesis using dis [OF kl] unfolding g'(8) [OF 4(1)] g'(8) [OF 4(2)] .
      qed
    qed
    moreover have "(\<Union>k < MAX_MATCHINGS. ?e g' k) = E"
      unfolding un [symmetric] by (rule UN_three [OF i(5-7)]) (use g'(1,5,8) in auto)
    ultimately show "graphs_inv str E ?d g'" using n by (simp add: graphs_inv_def)
  qed (use dis i in auto)
  show ?thesis using ok i by (simp add: kr_apply_def)
qed

lemma kr_steps_ok:
  assumes "graphs_inv str E d g" "kr_degrees steps d = Some d'"
  shows "returns (for_each (kr_apply str) steps g) (graphs_inv str E d')"
  using assms
proof (induction steps arbitrary: d g)
  case (Cons step steps)
  then show ?case
    using kr_apply_ok [OF Cons.prems(1) refl refl refl, of step]
    by (auto simp: Let_def split: if_splits intro!: returns_bind elim!: returns_mono)
qed simp

text \<open>
  The input graph starts at index \<open>degree + 1\<close> and the matching at index 0.
\<close>

definition kr_start :: "kr \<Rightarrow> nat \<Rightarrow> nat \<Rightarrow> nat \<Rightarrow> nat" where
  "kr_start kr d a = (\<lambda>_. 0)(unat (kr_degree kr + 1) := d, 0 := a)"

lemma solve_ok:
  assumes n: "gn str \<le> 64" and kr: "unat (kr_degree kr) + 1 < MAX_MATCHINGS" "unat (kr_num_steps kr) \<le> MAX_STEPS"
    and reg: "regular str e d" "regular str m a" "ends (gn str) e \<inter> ends (gn str) m = {}"
    and steps: "kr_degrees (map (kr_steps kr) [0 ..< unat (kr_num_steps kr)]) (kr_start kr d a) = Some d'"
  shows "returns (solve kr str e m solution) (\<lambda>sol. ms_num_matchings sol = kr_degree kr + 1
    \<and> graphs_inv str (ends (gn str) e \<union> ends (gn str) m) d' (ms_matchings sol))"
proof -
  define k where "k = unat (kr_degree kr + 1)"
  have "unat (kr_degree kr + 1) = unat (kr_degree kr) + 1"
    using kr(1) by (simp add: unat_word_ariths MAX_MATCHINGS_def)
  then have k: "k < MAX_MATCHINGS" "k \<noteq> 0" using kr(1) by (simp_all add: k_def)
  obtain g1 where g1: "for_each (\<lambda>i m. do { e \<leftarrow> graph_edges_init (m i) (gs_n str); Some (m(i := e)) })
      [0 ..< MAX_MATCHINGS] (ms_matchings solution) = Some g1" "\<forall>k < MAX_MATCHINGS. ends (gn str) (g1 k) = {}"
    using init_graphs [OF n, of MAX_MATCHINGS "ms_matchings solution"] by (auto elim: returnsE)
  obtain e1 where e1: "add_edges (g1 k) e (gs_n str) = Some e1" "ends (gn str) e1 = ends (gn str) e"
    using add_edges_ok [OF n, of "g1 k" e] g1(2) k by (auto elim: returnsE)
  obtain e2 where e2: "add_edges (g1 0) m (gs_n str) = Some e2" "ends (gn str) e2 = ends (gn str) m"
    using add_edges_ok [OF n, of "g1 0" m] g1(2) k by (auto elim: returnsE)
  define g2 where "g2 = g1(k := e1, 0 := e2)"
  have "regular str (g2 j) (kr_start kr d a j)" if "j < MAX_MATCHINGS" for j
    using that g1(2) e1(2) e2(2) reg k by (auto simp: g2_def kr_start_def k_def [symmetric] regular_def)
  moreover have "(\<Union>j < MAX_MATCHINGS. ends (gn str) (g2 j)) = ends (gn str) e \<union> ends (gn str) m" (is "?U = _")
  proof
    have "ends (gn str) (g2 k) \<subseteq> ?U" "ends (gn str) (g2 0) \<subseteq> ?U"
      using k by (auto intro!: UN_upper simp: MAX_MATCHINGS_def)
    then show "ends (gn str) e \<union> ends (gn str) m \<subseteq> ?U" using e1(2) e2(2) k by (simp add: g2_def)
  qed (use g1(2) e1(2) e2(2) in \<open>auto simp: g2_def split: if_splits\<close>)
  ultimately have "graphs_inv str (ends (gn str) e \<union> ends (gn str) m) (kr_start kr d a) g2"
    using n g1(2) e1(2) e2(2) reg(3) k by (auto simp: graphs_inv_def g2_def)
  from kr_steps_ok [OF this steps] show ?thesis
    using k kr(2) by (auto simp: solve_def Let_def g1(1) e1(1) e2(1) k_def [symmetric] g2_def
      intro!: returns_bind elim!: returns_mono)
qed

lemma perfect_matching_iff:
  assumes "regular str e d" "gn str \<le> 64" "d \<le> 64" "0 < gn str"
  shows "is_perfect_matching e (gs_n str) = Some (d = 1)"
proof -
  have d: "get_degree e (of_nat i) = Some (of_nat d)" if "i < 2 * gn str" for i
    using get_degree_dg [OF that assms(2), of e] that assms(1) by (simp add: regular_def)
  have "(of_nat d :: u8) = 1 \<longleftrightarrow> d = 1"
    using assms(3) by (simp add: unat_eq_iff unat_of_nat_word)
  moreover have "all_loop (\<lambda>i. do { d \<leftarrow> get_degree e (of_nat i); Some (d = 1) }) [0 ..< 2 * gn str]
      = (if (of_nat d :: u8) = 1 then Some True else Some False)"
  proof (cases "(of_nat d :: u8) = 1")
    case True
    then show ?thesis by (simp add: all_loop_True d)
  next
    case False
    have "[0 ..< 2 * gn str] = 0 # [Suc 0 ..< 2 * gn str]" using assms(4) by (simp add: upt_conv_Cons)
    then show ?thesis using False d [of 0] assms(4) by simp
  qed
  ultimately show ?thesis by (simp add: is_perfect_matching_def)
qed

section \<open>The colouring\<close>

text \<open>
  C34. The colouring of Kapoor and Rizzi. A regular graph and a perfect matching on the same structure are given,
  with a list of splits along which the degrees come out as one for the first \<open>degree + 1\<close> graphs and zero
  for the rest. Then \<open>solve\<close> ends, no assertion of the splits fails, it reports \<open>degree + 1\<close> matchings, each of which
  is a perfect matching, no edge is in two of them, and together they have exactly the edges that were given.
\<close>

theorem solve_colours:
  assumes "unat (gs_n str) \<le> MAX_GRAPH_NODES" and "0 < gs_n str"
    and "unat (kr_degree kr) + 1 < MAX_MATCHINGS" and "unat (kr_num_steps kr) \<le> MAX_STEPS"
    and "regular str edges_in (unat (kr_degree kr))" and "regular str arbitrary 1"
    and "ends (unat (gs_n str)) edges_in \<inter> ends (unat (gs_n str)) arbitrary = {}"
    and "kr_degrees (map (kr_steps kr) [0 ..< unat (kr_num_steps kr)]) (kr_start kr (unat (kr_degree kr)) 1) = Some d"
    and "\<forall>k < MAX_MATCHINGS. d k = of_bool (k < unat (kr_degree kr) + 1)"
  shows "\<exists>sol. solve kr str edges_in arbitrary solution = Some sol
    \<and> get_num_matchings sol = kr_degree kr + 1
    \<and> (\<forall>i < kr_degree kr + 1. \<exists>m. get_matching sol i = Some m \<and> is_perfect_matching m (gs_n str) = Some True)
    \<and> (\<forall>i j. i \<noteq> j \<and> i < kr_degree kr + 1 \<and> j < kr_degree kr + 1 \<longrightarrow>
         ends (unat (gs_n str)) (ms_matchings sol (unat i)) \<inter> ends (unat (gs_n str)) (ms_matchings sol (unat j)) = {})
    \<and> (\<Union>i < unat (kr_degree kr) + 1. ends (unat (gs_n str)) (ms_matchings sol i))
        = ends (unat (gs_n str)) edges_in \<union> ends (unat (gs_n str)) arbitrary"
proof -
  have n: "gn str \<le> 64" "0 < gn str" using assms(1,2) by (simp_all add: MAX_GRAPH_NODES_def word_greater_zero_iff unat_gt_0)
  have k: "unat (kr_degree kr + 1) = unat (kr_degree kr) + 1"
    using assms(3) by (simp add: unat_word_ariths MAX_MATCHINGS_def)
  obtain sol where sol: "solve kr str edges_in arbitrary solution = Some sol" "ms_num_matchings sol = kr_degree kr + 1"
    and inv: "graphs_inv str (ends (gn str) edges_in \<union> ends (gn str) arbitrary) d (ms_matchings sol)"
    using solve_ok [OF n(1) assms(3-8)] by (auto elim: returnsE)
  have lt: "unat i < MAX_MATCHINGS" "d (unat i) = 1" if "i < kr_degree kr + 1" for i
    using that assms(3,9) by (auto simp: word_less_nat_alt k)
  have "\<exists>m. get_matching sol i = Some m \<and> is_perfect_matching m (gs_n str) = Some True" if i: "i < kr_degree kr + 1" for i
  proof -
    have "regular str (ms_matchings sol (unat i)) 1" using inv lt [OF i] by (auto simp: graphs_inv_def)
    from perfect_matching_iff [OF this n(1) _ n(2)] show ?thesis
      using i by (simp add: get_matching_def sol(2) not_le)
  qed
  moreover have "ends (gn str) (ms_matchings sol (unat i)) \<inter> ends (gn str) (ms_matchings sol (unat j)) = {}"
    if "i \<noteq> j" "i < kr_degree kr + 1" "j < kr_degree kr + 1" for i j
    using inv lt(1) [OF that(2)] lt(1) [OF that(3)] that(1) by (simp add: graphs_inv_def unat_eq_iff)
  moreover have "(\<Union>i < unat (kr_degree kr) + 1. ends (gn str) (ms_matchings sol i))
      = ends (gn str) edges_in \<union> ends (gn str) arbitrary"
  proof -
    have "ends (gn str) (ms_matchings sol i) = {}" if "i < MAX_MATCHINGS" "\<not> i < unat (kr_degree kr) + 1" for i
      using inv that assms(9) by (intro regular_0) (auto simp: graphs_inv_def)
    then have "(\<Union>i < unat (kr_degree kr) + 1. ends (gn str) (ms_matchings sol i))
        = (\<Union>i < MAX_MATCHINGS. ends (gn str) (ms_matchings sol i))"
      using assms(3) by (intro UN_shrink) auto
    then show ?thesis using inv by (simp add: graphs_inv_def)
  qed
  ultimately show ?thesis using sol by (auto simp: get_num_matchings_def)
qed

text \<open>The steps for degree four, on four parallel edges between two vertices and a fifth one.\<close>

definition ex_structure :: graph_structure where
  "ex_structure = \<lparr>gs_n = 1, gs_vertices = \<lambda>u. \<lparr>vi_neighbors = \<lambda>i. \<lparr>nb_id = (if u = 0 then 1 else 0), nb_index = of_nat i\<rparr>\<rparr>\<rparr>"

definition ex_steps :: "kr_step list" where
  "ex_steps = [\<lparr>src_index = 5, dst1_index = 6, dst2_index = 7\<rparr>, \<lparr>src_index = 6, dst1_index = 1, dst2_index = 2\<rparr>,
     \<lparr>src_index = 7, dst1_index = 3, dst2_index = 4\<rparr>]"

definition ex_kr :: kr where
  "ex_kr = \<lparr>kr_degree = 4, kr_num_steps = 3, kr_steps = (\<lambda>i. ex_steps ! i)\<rparr>"

lemma ex_ends: "ends 1 \<lparr>neighbor_bitmaps = \<lambda>_. w\<rparr> = {0, 1} \<times> {i. bit w i}"
  by (auto simp: ends_def)

lemma ex_other: "i < 64 \<Longrightarrow> other_end ex_structure (u, i) = (if u = 0 then 1 else 0, i)"
  by (simp add: other_end_def ex_structure_def Let_def unat_of_nat_word)

lemma ex_regular: "card {i. bit w i} = d \<Longrightarrow> regular ex_structure \<lparr>neighbor_bitmaps = \<lambda>_. w\<rparr> d"
proof -
  assume d: "card {i. bit w i} = d"
  have i: "i < 64" if "bit w i" for i using bit_imp_le_length [OF that] by simp
  have n: "gn ex_structure = 1" by (simp add: ex_structure_def)
  show ?thesis
    using d i unfolding regular_def n ex_ends by (auto simp: wfg_def n ex_other dg_def less_Suc_eq numeral_2_eq_2)
qed

lemma bits_15: "{i. bit (15 :: u64) i} = {0, 1, 2, 3}"
proof -
  have e: "(15 :: u64) = mask 4" by (simp add: mask_eq_exp_minus_1)
  have "{i. bit (15 :: u64) i} = {i. i < 4}" unfolding e bit_mask_iff by auto
  also have "\<dots> = {0, 1, 2, 3}" by auto
  finally show ?thesis .
qed

lemma bits_16: "{i. bit (16 :: u64) i} = {4}"
proof -
  have e: "(16 :: u64) = push_bit 4 1" by (simp add: push_bit_of_1)
  show ?thesis unfolding e bit_push_bit_iff bit_1_iff by auto
qed

theorem solve_colours_witness:
  "\<exists>sol. solve ex_kr ex_structure \<lparr>neighbor_bitmaps = \<lambda>_. 15\<rparr> \<lparr>neighbor_bitmaps = \<lambda>_. 16\<rparr>
      \<lparr>ms_num_matchings = 0, ms_matchings = \<lambda>_. \<lparr>neighbor_bitmaps = \<lambda>_. 0\<rparr>\<rparr> = Some sol
    \<and> get_num_matchings sol = 5"
proof -
  have kr: "kr_degree ex_kr = 4" "kr_num_steps ex_kr = 3" "gs_n ex_structure = 1" by (simp_all add: ex_kr_def ex_structure_def)
  have "map (kr_steps ex_kr) [0 ..< 3] = ex_steps" by (simp add: ex_kr_def ex_steps_def upt_rec)
  then have "kr_degrees (map (kr_steps ex_kr) [0 ..< unat (kr_num_steps ex_kr)]) (kr_start ex_kr (unat (kr_degree ex_kr)) 1)
      = Some ((\<lambda>_. 0)(0 := 1, 1 := 1, 2 := 1, 3 := 1, 4 := 1))"
    by (simp add: kr ex_steps_def kr_start_def MAX_MATCHINGS_def fun_eq_iff)
  note steps = this
  have d: "\<forall>k < MAX_MATCHINGS. ((\<lambda>_. 0)(0 := 1, 1 := 1, 2 := 1, 3 := 1, 4 := 1)) k = (of_bool (k < unat (kr_degree ex_kr) + 1) :: nat)"
    by (auto simp: kr)
  have dis: "ends (unat (gs_n ex_structure)) \<lparr>neighbor_bitmaps = \<lambda>_. 15\<rparr> \<inter> ends (unat (gs_n ex_structure)) \<lparr>neighbor_bitmaps = \<lambda>_. 16\<rparr> = {}"
    by (simp add: kr) (simp only: ex_ends [unfolded One_nat_def] bits_15 bits_16, auto)
  have reg: "regular ex_structure \<lparr>neighbor_bitmaps = \<lambda>_. 15\<rparr> (unat (kr_degree ex_kr))"
    "regular ex_structure \<lparr>neighbor_bitmaps = \<lambda>_. 16\<rparr> 1"
    by (rule ex_regular; simp only: bits_15 bits_16; simp add: kr)+
  have b: "unat (gs_n ex_structure) \<le> MAX_GRAPH_NODES" "0 < gs_n ex_structure"
    "unat (kr_degree ex_kr) + 1 < MAX_MATCHINGS" "unat (kr_num_steps ex_kr) \<le> MAX_STEPS"
    by (simp_all add: kr MAX_GRAPH_NODES_def MAX_MATCHINGS_def MAX_STEPS_def)
  show ?thesis
    using solve_colours [OF b reg dis steps d,
        of "\<lparr>ms_num_matchings = 0, ms_matchings = \<lambda>_. \<lparr>neighbor_bitmaps = \<lambda>_. 0\<rparr>\<rparr>"]
    by (auto simp: kr)
qed

end
