(* ===== verification/Path_Selection.thy ===== *)
theory Path_Selection
  imports Euler Bins
begin

text \<open>
  Path selection, \<^verbatim>\<open>src/src/graph-algo/path_selection.c\<close>, in the build of the pipelined allocator, which has four
  paths between two racks. The traffic admitted in a time slot is a multigraph between source racks and
  destination racks; it is made regular by dummy edges, split in two, and the two halves are split again while
  the paths are written to the top bits of the destinations. Local variables that the code leaves uninitialised
  are arguments of the model.
\<close>

definition NUM_PATHS :: nat where "NUM_PATHS = 4"
definition DST_MASK :: u16 where "DST_MASK = 0x3FFF"
definition PATH_MASK :: u16 where "PATH_MASK = 0xC000"
definition PATH_SHIFT :: nat where "PATH_SHIFT = 14"
definition NUM_GRAPHS :: nat where "NUM_GRAPHS = 3"
definition MAX_NODES_PER_RACK :: nat where "MAX_NODES_PER_RACK = 256"

section \<open>From pairs of racks to the admitted traffic\<close>

record racks_to_nodes =
  rn_size :: u16
  rn_admitted_indices :: "nat \<Rightarrow> u16"

record racks_to_nodes_mapping =
  rm_mappings :: "nat \<Rightarrow> racks_to_nodes"

definition init_racks_to_nodes_mapping :: "racks_to_nodes_mapping \<Rightarrow> racks_to_nodes_mapping" where
  "init_racks_to_nodes_mapping m = m\<lparr>rm_mappings :=
     (\<lambda>i. if i < MAX_RACKS * MAX_RACKS then (rm_mappings m i)\<lparr>rn_size := 0\<rparr> else rm_mappings m i)\<rparr>"

definition get_rack_pair_index :: "u16 \<Rightarrow> u16 \<Rightarrow> nat option" where
  "get_rack_pair_index src_rack dst_rack = do {
     bug_on (MAX_RACKS \<le> unat src_rack);
     bug_on (MAX_RACKS \<le> unat dst_rack);
     Some (unat src_rack * MAX_RACKS + unat dst_rack)
   }"

definition map_racks_to_nodes ::
  "admitted_traffic \<Rightarrow> racks_to_nodes_mapping \<Rightarrow> racks_to_nodes_mapping option" where
  "map_racks_to_nodes admitted = for_each (\<lambda>i m. do {
       let edge = ad_edges admitted i;
       rack_pair_index \<leftarrow> get_rack_pair_index (fp_rack_from_node_id (a_src edge)) (fp_rack_from_node_id (a_dst edge));
       let rack_pair = rm_mappings m rack_pair_index;
       bug_on (MAX_NODES_PER_RACK \<le> unat (rn_size rack_pair));
       Some (m\<lparr>rm_mappings := (rm_mappings m)(rack_pair_index := rack_pair\<lparr>
         rn_admitted_indices := (rn_admitted_indices rack_pair)(unat (rn_size rack_pair) := of_nat i),
         rn_size := rn_size rack_pair + 1\<rparr>)\<rparr>)
     }) [0 ..< unat (ad_size admitted)]"

section \<open>The graph of the racks\<close>

text \<open>The variables of \<open>construct_graph\<close>. The two arrays of counts have \<open>num_racks\<close> entries.\<close>

record construct_state =
  cs_structure :: graph_structure
  cs_edges :: graph_edges
  cs_src_rack_counts :: "nat \<Rightarrow> u8"
  cs_dst_rack_counts :: "nat \<Rightarrow> u8"
  cs_num_edges :: u16

definition construct_add :: "u16 \<Rightarrow> u16 \<Rightarrow> construct_state \<Rightarrow> construct_state option" where
  "construct_add src_rack dst_rack st = do {
     let num_racks = gs_n (cs_structure st);
     (structure, edges) \<leftarrow> add_edge (cs_structure st) (cs_edges st) (ucast src_rack) (ucast (dst_rack + ucast num_racks));
     bug_on (unat num_racks \<le> unat src_rack);
     bug_on (unat num_racks \<le> unat dst_rack);
     Some (st\<lparr>cs_structure := structure, cs_edges := edges,
       cs_src_rack_counts := (cs_src_rack_counts st)(unat src_rack := cs_src_rack_counts st (unat src_rack) + 1),
       cs_dst_rack_counts := (cs_dst_rack_counts st)(unat dst_rack := cs_dst_rack_counts st (unat dst_rack) + 1),
       cs_num_edges := cs_num_edges st + 1\<rparr>)
   }"

definition max_rack_count :: "(nat \<Rightarrow> u8) \<Rightarrow> (nat \<Rightarrow> u8) \<Rightarrow> nat \<Rightarrow> u8" where
  "max_rack_count src_rack_counts dst_rack_counts num_racks =
     fold (\<lambda>i max_degree.
       let max_degree = (if max_degree < src_rack_counts i then src_rack_counts i else max_degree)
       in if max_degree < dst_rack_counts i then dst_rack_counts i else max_degree) [0 ..< num_racks] 0"

definition round_to_paths :: "u8 \<Rightarrow> u8" where
  "round_to_paths max_degree =
     (if max_degree mod of_nat NUM_PATHS \<noteq> 0 then (max_degree div of_nat NUM_PATHS + 1) * of_nat NUM_PATHS else max_degree)"

partial_function (option) skip_full :: "(nat \<Rightarrow> u8) \<Rightarrow> u8 \<Rightarrow> u8 \<Rightarrow> u8 \<Rightarrow> u8 option" where
  "skip_full counts num_racks max_degree i = do {
     bug_on (num_racks \<le> i);
     if counts (unat i) = max_degree then skip_full counts num_racks max_degree (i + 1) else Some i
   }"

partial_function (option) dummy_loop :: "u8 \<Rightarrow> u8 \<Rightarrow> u8 \<Rightarrow> construct_state \<Rightarrow> construct_state option" where
  "dummy_loop max_degree src dst st =
     (if unat (cs_num_edges st) < unat max_degree * unat (gs_n (cs_structure st)) then do {
        src \<leftarrow> skip_full (cs_src_rack_counts st) (gs_n (cs_structure st)) max_degree src;
        dst \<leftarrow> skip_full (cs_dst_rack_counts st) (gs_n (cs_structure st)) max_degree dst;
        st \<leftarrow> construct_add (ucast src) (ucast dst) st;
        dummy_loop max_degree src dst st
      }
      else Some st)"

definition construct_graph ::
  "admitted_traffic \<Rightarrow> graph_structure \<Rightarrow> graph_edges \<Rightarrow> (graph_structure \<times> graph_edges) option" where
  "construct_graph admitted structure edges = do {
     st \<leftarrow> for_each (\<lambda>i st. let edge = ad_edges admitted i in
         construct_add (fp_rack_from_node_id (a_src edge)) (fp_rack_from_node_id (a_dst edge)) st)
       [0 ..< unat (ad_size admitted)]
       \<lparr>cs_structure = structure, cs_edges = edges, cs_src_rack_counts = \<lambda>_. 0, cs_dst_rack_counts = \<lambda>_. 0, cs_num_edges = 0\<rparr>;
     let max_degree = round_to_paths (max_rack_count (cs_src_rack_counts st) (cs_dst_rack_counts st) (unat (gs_n structure)));
     st \<leftarrow> dummy_loop max_degree 0 0 st;
     assert_consistent (cs_structure st) (cs_edges st);
     Some (cs_structure st, cs_edges st)
   }"

section \<open>Paths\<close>

definition assign_to_path ::
  "racks_to_nodes_mapping \<Rightarrow> admitted_traffic \<Rightarrow> u8 \<Rightarrow> u8 \<Rightarrow> u8 \<Rightarrow> (racks_to_nodes_mapping \<times> admitted_traffic) option" where
  "assign_to_path m admitted src_rack dst_rack path = do {
     bug_on (NUM_PATHS \<le> unat path);
     rack_pair_index \<leftarrow> get_rack_pair_index (ucast src_rack) (ucast dst_rack);
     let rack_pair = rm_mappings m rack_pair_index;
     if 0 < rn_size rack_pair then do {
       bug_on (MAX_NODES_PER_RACK < unat (rn_size rack_pair));
       let admitted_index = rn_admitted_indices rack_pair (unat (rn_size rack_pair - 1));
       bug_on (ad_size admitted \<le> admitted_index);
       let edge = ad_edges admitted (unat admitted_index);
       let edge = edge\<lparr>a_dst := (a_dst edge AND DST_MASK) + push_bit PATH_SHIFT (ucast path)\<rparr>;
       Some (m\<lparr>rm_mappings := (rm_mappings m)(rack_pair_index := rack_pair\<lparr>rn_size := rn_size rack_pair - 1\<rparr>)\<rparr>,
             admitted\<lparr>ad_edges := (ad_edges admitted)(unat admitted_index := edge)\<rparr>)
     }
     else Some (m, admitted)
   }"

type_synonym populate_state = "graph_edges \<times> racks_to_nodes_mapping \<times> admitted_traffic"

partial_function (option) populate_loop ::
  "graph_structure \<Rightarrow> u8 \<Rightarrow> u8 \<Rightarrow> u8 \<Rightarrow> u8 \<Rightarrow> populate_state \<Rightarrow> populate_state option" where
  "populate_loop structure path_0 path_1 node cur_node s = (case s of (edges, m, admitted) \<Rightarrow> do {
     b \<leftarrow> has_neighbor edges node;
     if b then do {
       (new_node, edges) \<leftarrow> remove_edge_to_neighbor structure edges cur_node;
       (m, admitted) \<leftarrow> assign_to_path m admitted cur_node (new_node - gs_n structure) path_0;
       assert_consistent structure edges;
       let cur_node = new_node;
       (new_node, edges) \<leftarrow> remove_edge_to_neighbor structure edges cur_node;
       (m, admitted) \<leftarrow> assign_to_path m admitted new_node (cur_node - gs_n structure) path_1;
       assert_consistent structure edges;
       populate_loop structure path_0 path_1 node new_node (edges, m, admitted)
     }
     else Some (edges, m, admitted)
   })"

definition split_and_populate_paths ::
  "graph_structure \<Rightarrow> graph_edges \<Rightarrow> racks_to_nodes_mapping \<Rightarrow> admitted_traffic \<Rightarrow> u8 \<Rightarrow> u8 \<Rightarrow> populate_state option" where
  "split_and_populate_paths structure edges m admitted path_0 path_1 = do {
     bug_on (NUM_PATHS \<le> unat path_0);
     bug_on (NUM_PATHS \<le> unat path_1);
     for_each (\<lambda>node s. populate_loop structure path_0 path_1 (of_nat node) (of_nat node) s)
       [0 ..< unat (gs_n structure)] (edges, m, admitted)
   }"

definition select_paths ::
  "racks_to_nodes_mapping \<Rightarrow> graph_structure \<Rightarrow> (nat \<Rightarrow> graph_edges) \<Rightarrow> admitted_traffic \<Rightarrow> u8 \<Rightarrow> admitted_traffic option" where
  "select_paths m0 structure0 edges0 admitted num_racks = do {
     bug_on (MAX_RACKS < unat num_racks);
     m \<leftarrow> map_racks_to_nodes admitted (init_racks_to_nodes_mapping m0);
     structure \<leftarrow> graph_structure_init structure0 num_racks;
     edges \<leftarrow> for_each (\<lambda>i edges. do { e \<leftarrow> graph_edges_init (edges i) num_racks; Some (edges(i := e)) }) [0 ..< NUM_GRAPHS] edges0;
     (structure, e) \<leftarrow> construct_graph admitted structure (edges 0);
     let edges = edges(0 := e);
     edges \<leftarrow> split_graph structure 0 1 2 edges;
     (e, m, admitted) \<leftarrow> split_and_populate_paths structure (edges 1) m admitted 0 1;
     let edges = edges(1 := e);
     (e, m, admitted) \<leftarrow> split_and_populate_paths structure (edges 2) m admitted 2 3;
     Some admitted
   }"

section \<open>The check of the assignment\<close>

definition count_paths ::
  "admitted_traffic \<Rightarrow> (nat \<Rightarrow> u8) \<Rightarrow> (nat \<Rightarrow> u8) \<Rightarrow> ((nat \<Rightarrow> u8) \<times> (nat \<Rightarrow> u8)) option" where
  "count_paths admitted src_counts dst_counts =
     for_each (\<lambda>i (src_counts, dst_counts). do {
       let edge = ad_edges admitted i;
       let path = unat (drop_bit PATH_SHIFT (a_dst edge AND PATH_MASK));
       let s = unat (fp_rack_from_node_id (a_src edge)) * NUM_PATHS + path;
       let d = unat (fp_rack_from_node_id (a_dst edge AND DST_MASK)) * NUM_PATHS + path;
       bug_on (MAX_RACKS * NUM_PATHS \<le> s);
       bug_on (MAX_RACKS * NUM_PATHS \<le> d);
       Some (src_counts(s := src_counts s + 1), dst_counts(d := dst_counts d + 1))
     }) [0 ..< unat (ad_size admitted)] (src_counts, dst_counts)"

definition rack_path_sum :: "(nat \<Rightarrow> u8) \<Rightarrow> nat \<Rightarrow> u16" where
  "rack_path_sum counts i = fold (\<lambda>j c. c + ucast (counts (i * NUM_PATHS + j))) [0 ..< NUM_PATHS] 0"

definition max_rack_degree :: "(nat \<Rightarrow> u8) \<Rightarrow> (nat \<Rightarrow> u8) \<Rightarrow> nat \<Rightarrow> u16" where
  "max_rack_degree src_counts dst_counts num_racks =
     fold (\<lambda>i m.
       let m = (if m < rack_path_sum src_counts i then rack_path_sum src_counts i else m)
       in if m < rack_path_sum dst_counts i then rack_path_sum dst_counts i else m) [0 ..< num_racks] 0"

definition paths_are_valid ::
  "(nat \<Rightarrow> u8) \<Rightarrow> (nat \<Rightarrow> u8) \<Rightarrow> admitted_traffic \<Rightarrow> u8 \<Rightarrow> bool option" where
  "paths_are_valid src0 dst0 admitted num_racks = do {
     bug_on (MAX_RACKS * NUM_PATHS < unat num_racks * NUM_PATHS);
     (src_counts, dst_counts) \<leftarrow> count_paths admitted
       (\<lambda>i. if i < unat num_racks * NUM_PATHS then 0 else src0 i) (\<lambda>i. if i < unat num_racks * NUM_PATHS then 0 else dst0 i);
     let degree = max_rack_degree src_counts dst_counts (unat num_racks);
     let degree = (if degree mod of_nat NUM_PATHS \<noteq> 0 then (degree div of_nat NUM_PATHS + 1) * of_nat NUM_PATHS else degree);
     all_loop (\<lambda>i. all_loop (\<lambda>j. Some (
           \<not> degree div of_nat NUM_PATHS < ucast (src_counts (i * NUM_PATHS + j))
         \<and> \<not> degree div of_nat NUM_PATHS < ucast (dst_counts (i * NUM_PATHS + j)))) [0 ..< NUM_PATHS]) [0 ..< unat num_racks]
   }"

end
