(* ===== verification/Path_Graph.thy ===== *)
theory Path_Graph
  imports Path_Selection
begin

text \<open>
  The graph that \<open>construct_graph\<close> builds: it is regular, its degree is a multiple of the number of paths, and it has
  an edge for each admitted packet.
\<close>

section \<open>Adding an edge\<close>

lemma full_bitmap: "NOT w = 0 \<longleftrightarrow> card {i. bit (w :: u64) i} = 64"
proof
  assume "NOT w = 0"
  then have "w = - 1" by (metis bit.compl_zero bit.double_compl)
  then have "{i. bit w i} = {..<64}" by (auto simp: bit_minus_1_iff)
  then show "card {i. bit w i} = 64" by simp
next
  assume c: "card {i. bit w i} = 64"
  have "{i. bit w i} \<subseteq> {..<64}" by (auto dest: bit_imp_le_length)
  then have "{i. bit w i} = {..<64}" using c by (intro card_subset_eq) auto
  then show "NOT w = 0" by (intro bit_eqI) (auto simp: bit_not_iff)
qed

lemma dg_bitmap: "u < 2 * n \<Longrightarrow> dg (ends n e) u = card {i. bit (neighbor_bitmaps e u) i}"
  by (simp add: dg_def ends_def)

lemma other_end_set_neighbor:
  "other_end (set_neighbor str u i v j) p = (if p = (unat u, i) then (unat v, unat j) else other_end str p)"
  "gs_n (set_neighbor str u i v j) = gs_n str"
  by (cases p; auto simp: other_end_def set_neighbor_def Let_def)+

lemma add_edge_cases:
  fixes e :: graph_edges
  assumes "gn str \<le> 64" "unat u < 2 * gn str" "unat v < 2 * gn str" "unat u \<noteq> unat v"
  defines "E \<equiv> ends (gn str) e"
  shows "add_edge str e u v = None \<longleftrightarrow> dg E (unat u) = 64 \<or> dg E (unat v) = 64"
    and "add_edge str e u v = Some (str', e') \<Longrightarrow> \<exists>i j. i < 64 \<and> j < 64 \<and> (unat u, i) \<notin> E \<and> (unat v, j) \<notin> E
      \<and> gs_n str' = gs_n str \<and> ends (gn str) e' = E \<union> {(unat u, i), (unat v, j)}
      \<and> (\<forall>p. other_end str' p = (if p = (unat u, i) then (unat v, j) else if p = (unat v, j) then (unat u, i) else other_end str p))"
proof -
  define x y where "x = neighbor_bitmaps e (unat u)" and "y = neighbor_bitmaps e (unat v)"
  define i j where "i = ffs (NOT x)" and "j = ffs (NOT y)"
  define str2 where "str2 = set_neighbor (set_neighbor str u i v (of_nat j)) v j u (of_nat i)"
  have lt: "unat u < 128" "unat v < 128" using assms by simp_all
  have eq: "add_edge str e u v = (if NOT x = 0 \<or> NOT y = 0 then None
      else Some (str2, set_end (unat v, j) (set_end (unat u, i) e)))"
    using assms(2-4) lt
    by (simp add: add_edge_def get_bitmap_eq set_bitmap_eq x_def y_def i_def j_def str2_def set_end_def Let_def)
  show "add_edge str e u v = None \<longleftrightarrow> dg E (unat u) = 64 \<or> dg E (unat v) = 64"
    unfolding eq full_bitmap E_def dg_bitmap [OF assms(2)] dg_bitmap [OF assms(3)] x_def y_def by simp
  assume "add_edge str e u v = Some (str', e')"
  then have nz: "NOT x \<noteq> 0" "NOT y \<noteq> 0" and r: "str' = str2" "e' = set_end (unat v, j) (set_end (unat u, i) e)"
    by (auto simp: eq split: if_splits)
  have ij: "i < 64" "j < 64" using ffs_less [OF nz(1)] ffs_less [OF nz(2)] by (simp_all add: i_def j_def)
  have "\<not> bit x i" "\<not> bit y j"
    using bit_ffs [OF nz(1)] bit_ffs [OF nz(2)] unfolding i_def j_def by (simp_all add: bit_not_iff)
  then have "(unat u, i) \<notin> E" "(unat v, j) \<notin> E" by (simp_all add: E_def ends_def x_def y_def)
  moreover have "unat (of_nat j :: u8) = j" "unat (of_nat i :: u8) = i" using ij by (auto intro: unat_of_nat_word)
  then have "gs_n str' = gs_n str" "\<forall>p. other_end str' p =
      (if p = (unat u, i) then (unat v, j) else if p = (unat v, j) then (unat u, i) else other_end str p)"
    using assms(4) by (auto simp: r(1) str2_def other_end_set_neighbor)
  moreover have "ends (gn str) e' = E \<union> {(unat u, i), (unat v, j)}"
    using ij assms(2,3) by (auto simp: r(2) E_def)
  ultimately show "\<exists>i j. i < 64 \<and> j < 64 \<and> (unat u, i) \<notin> E \<and> (unat v, j) \<notin> E
      \<and> gs_n str' = gs_n str \<and> ends (gn str) e' = E \<union> {(unat u, i), (unat v, j)}
      \<and> (\<forall>p. other_end str' p = (if p = (unat u, i) then (unat v, j) else if p = (unat v, j) then (unat u, i) else other_end str p))"
    using ij by blast
qed

text \<open>The graph after the edge.\<close>

lemma add_edge_graph:
  assumes wf: "wfg str E" and n: "u < gn str" "gn str \<le> v" "v < 2 * gn str" "i < 64" "j < 64" "(u, i) \<notin> E" "(v, j) \<notin> E"
    and E': "E' = E \<union> {(u, i), (v, j)}" and s: "gs_n str' = gs_n str"
    and o: "\<And>p. other_end str' p = (if p = (u, i) then (v, j) else if p = (v, j) then (u, i) else other_end str p)"
  shows "wfg str' E'" "dg E' w = dg E w + of_bool (w = u) + of_bool (w = v)"
    "a < gn str \<Longrightarrow> mult str' E' a b = mult str E a b + of_bool (a = u \<and> b = v)"
proof -
  have uv: "u \<noteq> v" using n by auto
  have old: "other_end str' p = other_end str p" if "p \<in> E" for p using that n(6,7) o by auto
  have edge: "other_end str' (u, i) = (v, j)" "other_end str' (v, j) = (u, i)" using o uv by auto
  show "wfg str' E'"
    unfolding wfg_def
  proof
    fix p assume "p \<in> E'"
    then consider "p \<in> E" | "p = (u, i)" | "p = (v, j)" using E' by blast
    then show "fst p < 2 * gn str' \<and> snd p < 64 \<and> other_end str' p \<in> E' \<and> other_end str' (other_end str' p) = p
      \<and> (fst p < gn str' \<longleftrightarrow> gn str' \<le> fst (other_end str' p))"
    proof cases
      case 1
      then show ?thesis using wfg_other [OF wf 1] old [OF 1] old [OF wfg_other(1) [OF wf 1]] by (simp add: s E')
    qed (use n edge in \<open>simp_all add: s E'\<close>)
  qed
  have fin: "finite {i. (w, i) \<in> E}" for w by (rule finite_ends_at [OF wf])
  have "{k. (w, k) \<in> E'} = {k. (w, k) \<in> E} \<union> ((if w = u then {i} else {}) \<union> (if w = v then {j} else {}))"
    by (auto simp: E' split: if_splits)
  moreover have "card \<dots> = card {k. (w, k) \<in> E} + card ((if w = u then {i} else {}) \<union> (if w = v then {j} else {}))"
    using n(6,7) by (intro card_Un_disjoint fin) (auto split: if_splits)
  ultimately show "dg E' w = dg E w + of_bool (w = u) + of_bool (w = v)" using uv by (simp add: dg_def)
  assume a: "a < gn str"
  let ?S = "{k. (a, k) \<in> E \<and> fst (other_end str (a, k)) = b}"
  have "{k. (a, k) \<in> E' \<and> fst (other_end str' (a, k)) = b} = ?S \<union> {k. a = u \<and> b = v \<and> k = i}"
  proof -
    have "a \<noteq> v" using a n by simp
    then have "(a, k) \<in> E' \<longleftrightarrow> (a, k) \<in> E \<or> (a, k) = (u, i)" for k by (auto simp: E')
    then show ?thesis using old edge by (auto simp: n(6))
  qed
  moreover have "card (?S \<union> {k. a = u \<and> b = v \<and> k = i}) = card ?S + card {k. a = u \<and> b = v \<and> k = i}"
    using n(6) fin [of a] by (intro card_Un_disjoint) auto
  moreover have "card {k. a = u \<and> b = v \<and> k = i} = of_bool (a = u \<and> b = v)" by simp
  ultimately show "mult str' E' a b = mult str E a b + of_bool (a = u \<and> b = v)" by (simp add: mult_def)
qed

section \<open>The construction\<close>

text \<open>The state after edges between the pairs \<open>ps\<close> of racks were added.\<close>

definition constructed :: "u8 \<Rightarrow> (nat \<times> nat) list \<Rightarrow> construct_state \<Rightarrow> bool" where
  "constructed num_racks ps st \<longleftrightarrow>
     (let str = cs_structure st; n = unat num_racks; E = ends n (cs_edges st) in
      n \<le> 16 \<and> gs_n str = num_racks \<and> wfg str E \<and> set ps \<subseteq> {..<n} \<times> {..<n}
      \<and> (\<forall>u < n. dg E u = count_list (map fst ps) u \<and> dg E (n + u) = count_list (map snd ps) u)
      \<and> (\<forall>u < n. \<forall>v < n. mult str E u (n + v) = count_list ps (u, v))
      \<and> (\<forall>u < n. unat (cs_src_rack_counts st u) = count_list (map fst ps) u
               \<and> unat (cs_dst_rack_counts st u) = count_list (map snd ps) u)
      \<and> unat (cs_num_edges st) = length ps)"

lemma sum_counts:
  fixes ps :: "(nat \<times> nat) list"
  assumes "set ps \<subseteq> {..<n} \<times> {..<n}"
  shows "(\<Sum>u < n. count_list (map fst ps) u) = length ps" "(\<Sum>u < n. count_list (map snd ps) u) = length ps"
proof -
  have "set (map fst ps) \<subseteq> {..<n}" "set (map snd ps) \<subseteq> {..<n}" using assms by auto
  then show "(\<Sum>u < n. count_list (map fst ps) u) = length ps" "(\<Sum>u < n. count_list (map snd ps) u) = length ps"
    using sum_count_set [of "map fst ps" "{..<n}"] sum_count_set [of "map snd ps" "{..<n}"]
    by simp_all
qed

lemma constructed_bounds:
  assumes "constructed num_racks ps st"
  shows "u < unat num_racks \<Longrightarrow> count_list (map fst ps) u \<le> 64" "u < unat num_racks \<Longrightarrow> count_list (map snd ps) u \<le> 64"
    "length ps \<le> 1024"
proof -
  have c: "wfg (cs_structure st) (ends (unat num_racks) (cs_edges st))" "unat num_racks \<le> 16"
    "set ps \<subseteq> {..<unat num_racks} \<times> {..<unat num_racks}"
    "\<And>u. u < unat num_racks \<Longrightarrow> dg (ends (unat num_racks) (cs_edges st)) u = count_list (map fst ps) u"
    "\<And>u. u < unat num_racks \<Longrightarrow> dg (ends (unat num_racks) (cs_edges st)) (unat num_racks + u) = count_list (map snd ps) u"
    using assms by (auto simp: constructed_def Let_def)
  show f: "u < unat num_racks \<Longrightarrow> count_list (map fst ps) u \<le> 64" "u < unat num_racks \<Longrightarrow> count_list (map snd ps) u \<le> 64" for u
    using dg_le [OF c(1), of u] dg_le [OF c(1), of "unat num_racks + u"] c(4,5) by simp_all
  have "length ps \<le> (\<Sum>u < unat num_racks. 64)" unfolding sum_counts(1) [OF c(3), symmetric] by (intro sum_mono) (use f in auto)
  then show "length ps \<le> 1024" using c(2) by simp
qed

lemma unat_Suc: "unat x < 2 ^ LENGTH('a) - 1 \<Longrightarrow> unat (x + 1 :: 'a::len word) = Suc (unat x)"
proof -
  assume "unat x < 2 ^ LENGTH('a) - 1"
  moreover have "x + 1 = of_nat (Suc (unat x))" by simp
  ultimately show ?thesis by (simp only: unat_of_nat_word)
qed

text \<open>One more edge: it fails when a rack has 64 edges already.\<close>

lemma construct_add_ok:
  assumes c: "constructed num_racks ps st" and r: "unat s < unat num_racks" "unat d < unat num_racks"
  shows "construct_add s d st = None \<longleftrightarrow> count_list (map fst ps) (unat s) = 64 \<or> count_list (map snd ps) (unat d) = 64"
    and "construct_add s d st = Some st' \<Longrightarrow> constructed num_racks (ps @ [(unat s, unat d)]) st'"
proof -
  define n str E where "n = unat num_racks" and "str = cs_structure st" and "E = ends n (cs_edges st)"
  have cs: "n \<le> 16" "gs_n str = num_racks" "wfg str E" "set ps \<subseteq> {..<n} \<times> {..<n}"
    "\<And>u. u < n \<Longrightarrow> dg E u = count_list (map fst ps) u" "\<And>u. u < n \<Longrightarrow> dg E (n + u) = count_list (map snd ps) u"
    "\<And>u v. u < n \<Longrightarrow> v < n \<Longrightarrow> mult str E u (n + v) = count_list ps (u, v)"
    "\<And>u. u < n \<Longrightarrow> unat (cs_src_rack_counts st u) = count_list (map fst ps) u"
    "\<And>u. u < n \<Longrightarrow> unat (cs_dst_rack_counts st u) = count_list (map snd ps) u" "unat (cs_num_edges st) = length ps"
    using c by (auto simp: constructed_def Let_def n_def str_def E_def)
  define u v :: u8 where "u = ucast s" and "v = ucast (d + ucast num_racks)"
  have u: "unat u = unat s" using r(1) cs(1) by (simp add: u_def n_def unsigned_ucast_eq take_bit_nat_eq_self)
  have v: "unat v = n + unat d"
    using r(2) cs(1) by (simp add: v_def n_def unsigned_ucast_eq unat_word_ariths take_bit_eq_mod)
  have uv: "gn str = n" "gn str \<le> 64" "unat u < 2 * gn str" "unat v < 2 * gn str" "unat u \<noteq> unat v"
    using cs(1,2) u v r by (simp_all add: n_def)
  note add = add_edge_cases [OF uv(2-5), of "cs_edges st", unfolded uv(1), folded E_def]
  have cadd: "construct_add s d st = (case add_edge str (cs_edges st) u v of None \<Rightarrow> None
      | Some (str', e') \<Rightarrow> Some (st\<lparr>cs_structure := str', cs_edges := e',
          cs_src_rack_counts := (cs_src_rack_counts st)(unat s := cs_src_rack_counts st (unat s) + 1),
          cs_dst_rack_counts := (cs_dst_rack_counts st)(unat d := cs_dst_rack_counts st (unat d) + 1),
          cs_num_edges := cs_num_edges st + 1\<rparr>))"
    using r cs(2) by (simp add: construct_add_def Let_def str_def u_def v_def split: bind_splits option.splits)
  show "construct_add s d st = None \<longleftrightarrow> count_list (map fst ps) (unat s) = 64 \<or> count_list (map snd ps) (unat d) = 64"
    using add(1) cs(5,6) r by (auto simp: cadd u v n_def split: option.splits)
  assume "construct_add s d st = Some st'"
  then obtain str' e' where a: "add_edge str (cs_edges st) u v = Some (str', e')"
    and st': "st' = st\<lparr>cs_structure := str', cs_edges := e',
      cs_src_rack_counts := (cs_src_rack_counts st)(unat s := cs_src_rack_counts st (unat s) + 1),
      cs_dst_rack_counts := (cs_dst_rack_counts st)(unat d := cs_dst_rack_counts st (unat d) + 1),
      cs_num_edges := cs_num_edges st + 1\<rparr>"
    by (auto simp: cadd split: option.splits)
  obtain i j where ij: "i < 64" "j < 64" "(unat u, i) \<notin> E" "(unat v, j) \<notin> E" "gs_n str' = gs_n str"
    "ends n e' = E \<union> {(unat u, i), (unat v, j)}"
    "\<And>p. other_end str' p = (if p = (unat u, i) then (unat v, j) else if p = (unat v, j) then (unat u, i) else other_end str p)"
    using add(2) [OF a] by blast
  have "unat u < gn str" "gn str \<le> unat v" using u v r uv(1) by (simp_all add: n_def)
  note g = add_edge_graph [OF cs(3) this uv(4) ij(1-4,6,5,7)]
  have small: "unat (cs_src_rack_counts st (unat s)) \<le> 64" "unat (cs_dst_rack_counts st (unat d)) \<le> 64" "length ps \<le> 1024"
    using constructed_bounds [OF c] cs(8,9) r by (simp_all add: n_def)
  have "n \<le> 16 \<and> gs_n str' = num_racks \<and> wfg str' (ends n e') \<and> set (ps @ [(unat s, unat d)]) \<subseteq> {..<n} \<times> {..<n}"
    using cs(1,2,4) ij(5) g(1) r by (auto simp: n_def)
  moreover have "dg (ends n e') w = count_list (map fst (ps @ [(unat s, unat d)])) w
      \<and> dg (ends n e') (n + w) = count_list (map snd (ps @ [(unat s, unat d)])) w" if "w < n" for w
    using that cs(5,6) r by (simp add: g(2) u v) (simp add: n_def)
  moreover have "mult str' (ends n e') a (n + b) = count_list (ps @ [(unat s, unat d)]) (a, b)" if "a < n" "b < n" for a b
    using that cs(7) by (simp add: g(3) uv(1) u v) auto
  moreover have "unat (cs_src_rack_counts st' w) = count_list (map fst (ps @ [(unat s, unat d)])) w
      \<and> unat (cs_dst_rack_counts st' w) = count_list (map snd (ps @ [(unat s, unat d)])) w" if "w < n" for w
    using that cs(8,9) small by (auto simp: st' unat_Suc)
  moreover have "unat (cs_num_edges st') = length (ps @ [(unat s, unat d)])"
    using cs(10) small by (simp add: st' unat_Suc)
  ultimately show "constructed num_racks (ps @ [(unat s, unat d)]) st'"
    by (simp add: constructed_def Let_def st' n_def [symmetric])
qed

text \<open>The pairs of racks of the admitted traffic, and the number of packets that leave or enter a rack.\<close>

definition rack_pairs :: "admitted_traffic \<Rightarrow> (nat \<times> nat) list" where
  "rack_pairs ad = map (\<lambda>i. (unat (fp_rack_from_node_id (a_src (ad_edges ad i))), unat (fp_rack_from_node_id (a_dst (ad_edges ad i)))))
     [0 ..< unat (ad_size ad)]"

definition in_racks :: "u8 \<Rightarrow> admitted_traffic \<Rightarrow> bool" where
  "in_racks num_racks ad \<longleftrightarrow> set (rack_pairs ad) \<subseteq> {..<unat num_racks} \<times> {..<unat num_racks}"

definition rack_load :: "(nat \<times> nat) list \<Rightarrow> nat \<Rightarrow> nat" where
  "rack_load ps u = max (count_list (map fst ps) u) (count_list (map snd ps) u)"

lemma length_rack_pairs [simp]: "length (rack_pairs ad) = unat (ad_size ad)"
  by (simp add: rack_pairs_def)

lemma take_Suc_rack_pairs:
  "i < unat (ad_size ad) \<Longrightarrow> take (Suc i) (rack_pairs ad) = take i (rack_pairs ad)
     @ [(unat (fp_rack_from_node_id (a_src (ad_edges ad i))), unat (fp_rack_from_node_id (a_dst (ad_edges ad i))))]"
  by (simp add: take_Suc_conv_app_nth) (simp add: rack_pairs_def)

lemma in_racksD:
  assumes "in_racks num_racks ad" "i < unat (ad_size ad)"
  shows "unat (fp_rack_from_node_id (a_src (ad_edges ad i))) < unat num_racks"
    "unat (fp_rack_from_node_id (a_dst (ad_edges ad i))) < unat num_racks"
  using assms by (simp_all add: in_racks_def rack_pairs_def image_subset_iff)

lemma for_each_Suc: "for_each f [0 ..< Suc n] s = for_each f [0 ..< n] s \<bind> f n"
proof -
  have app: "for_each f (xs @ [x]) s = for_each f xs s \<bind> f x" for xs x s
    by (induction xs arbitrary: s) (simp_all split: bind_splits)
  show ?thesis by (simp add: app)
qed

lemma for_each_inv:
  assumes "for_each f [0 ..< n] s = Some s'" "P 0 s" "\<And>i s s'. i < n \<Longrightarrow> P i s \<Longrightarrow> f i s = Some s' \<Longrightarrow> P (Suc i) s'"
  shows "P n s'"
  using assms
proof (induction n arbitrary: s')
  case (Suc n)
  then show ?case
    unfolding for_each_Suc by (auto split: bind_splits)
qed simp

definition construct_start :: "graph_structure \<Rightarrow> graph_edges \<Rightarrow> construct_state" where
  "construct_start structure edges = \<lparr>cs_structure = structure, cs_edges = edges, cs_src_rack_counts = \<lambda>_. 0,
     cs_dst_rack_counts = \<lambda>_. 0, cs_num_edges = 0\<rparr>"

definition construct_admitted :: "admitted_traffic \<Rightarrow> construct_state \<Rightarrow> construct_state option" where
  "construct_admitted ad = for_each (\<lambda>i st. let edge = ad_edges ad i in
     construct_add (fp_rack_from_node_id (a_src edge)) (fp_rack_from_node_id (a_dst edge)) st) [0 ..< unat (ad_size ad)]"

lemma constructed_start:
  assumes "unat num_racks \<le> 16" "gs_n structure = num_racks" "ends (unat num_racks) edges = {}"
  shows "constructed num_racks [] (construct_start structure edges)"
  using assms by (simp add: constructed_def construct_start_def Let_def)

lemma construct_admitted_some:
  assumes "constructed num_racks [] st" "in_racks num_racks ad" "construct_admitted ad st = Some st'"
  shows "constructed num_racks (rack_pairs ad) st'"
proof -
  have "constructed num_racks (take (unat (ad_size ad)) (rack_pairs ad)) st'"
    using assms(3) unfolding construct_admitted_def Let_def
  proof (rule for_each_inv [where P = "\<lambda>i. constructed num_racks (take i (rack_pairs ad))"])
    fix i st st' assume "i < unat (ad_size ad)" "constructed num_racks (take i (rack_pairs ad)) st"
      "construct_add (fp_rack_from_node_id (a_src (ad_edges ad i))) (fp_rack_from_node_id (a_dst (ad_edges ad i))) st = Some st'"
    then show "constructed num_racks (take (Suc i) (rack_pairs ad)) st'"
      using construct_add_ok(2) in_racksD [OF assms(2)] by (simp add: take_Suc_rack_pairs)
  qed (use assms(1) in simp)
  then show ?thesis by simp
qed

lemma construct_admitted_returns:
  assumes "constructed num_racks [] st" "in_racks num_racks ad" "\<And>u. u < unat num_racks \<Longrightarrow> rack_load (rack_pairs ad) u \<le> 64"
  shows "returns (construct_admitted ad st) (constructed num_racks (rack_pairs ad))"
proof -
  have "returns (construct_admitted ad st) (constructed num_racks (take (unat (ad_size ad)) (rack_pairs ad)))"
    unfolding construct_admitted_def Let_def
  proof (rule for_each_loop [where P = "\<lambda>i. constructed num_racks (take i (rack_pairs ad))"])
    fix i st assume i: "i < unat (ad_size ad)" and st: "constructed num_racks (take i (rack_pairs ad)) st"
    let ?s = "fp_rack_from_node_id (a_src (ad_edges ad i))" and ?d = "fp_rack_from_node_id (a_dst (ad_edges ad i))"
    note r = in_racksD [OF assms(2) i]
    have pre: "count_list (map f (take (Suc i) (rack_pairs ad))) u \<le> count_list (map f (rack_pairs ad)) u"
      for f :: "nat \<times> nat \<Rightarrow> nat" and u
      using append_take_drop_id [of "Suc i" "rack_pairs ad"] by (metis count_list_append le_add1 map_append)
    have "count_list (map fst (take i (rack_pairs ad))) (unat ?s) < 64" "count_list (map snd (take i (rack_pairs ad))) (unat ?d) < 64"
      using pre [of fst "unat ?s"] pre [of snd "unat ?d"] assms(3) [OF r(1)] assms(3) [OF r(2)]
      by (simp_all add: take_Suc_rack_pairs [OF i] rack_load_def)
    then obtain st' where "construct_add ?s ?d st = Some st'" using construct_add_ok(1) [OF st r] by (cases "construct_add ?s ?d st") auto
    then show "returns (construct_add ?s ?d st) (constructed num_racks (take (Suc i) (rack_pairs ad)))"
      using construct_add_ok(2) [OF st r] by (simp add: take_Suc_rack_pairs [OF i])
  qed (use assms(1) in simp)
  then show ?thesis by simp
qed

section \<open>The degree\<close>

lemma max_rack_count_le:
  "unat (max_rack_count s d n) \<le> B \<longleftrightarrow> (\<forall>u < n. unat (s u) \<le> B \<and> unat (d u) \<le> B)"
proof (induction n)
  case (Suc n)
  have "unat (if m < x then x else m) \<le> B \<longleftrightarrow> unat m \<le> B \<and> unat x \<le> B" for m x :: u8
    by (auto simp: word_less_nat_alt)
  then show ?case using Suc by (auto simp: max_rack_count_def Let_def less_Suc_eq)
qed (simp add: max_rack_count_def)

definition up4 :: "nat \<Rightarrow> nat" where
  "up4 x = 4 * ((x + 3) div 4)"

lemma up4_bounds: "x \<le> up4 x" "4 dvd up4 x" "x \<le> 64 \<Longrightarrow> up4 x \<le> 64"
  by (simp_all add: up4_def)

lemma up4_alt: "up4 x = (if x mod 4 \<noteq> 0 then (x div 4 + 1) * 4 else x)"
  unfolding up4_def by presburger

lemma unat_round_to_paths: "unat m \<le> 64 \<Longrightarrow> unat (round_to_paths m) = up4 (unat m)"
  unfolding up4_alt round_to_paths_def NUM_PATHS_def
  by (simp add: unat_eq_iff unat_mod unat_div unat_word_ariths)

section \<open>Dummy edges\<close>

lemma skip_full_ok:
  assumes "unat i \<le> u" "u < unat num_racks" "counts u \<noteq> D"
  shows "returns (skip_full counts num_racks D i) (\<lambda>j. unat j < unat num_racks \<and> counts (unat j) \<noteq> D
    \<and> (\<forall>w. unat i \<le> w \<and> w < unat j \<longrightarrow> counts w = D))"
  using assms(1)
proof (induction "u - unat i" arbitrary: i)
  case 0
  then have "unat i = u" by simp
  then show ?case using assms(2,3) by (subst skip_full.simps) (auto simp: word_le_nat_alt)
next
  case (Suc k)
  have i: "unat i < unat num_racks" "unat i < u" using Suc.hyps(2) assms(2) by simp_all
  have "unat i < 255" using i(1) unat_u8_less [of num_racks] by linarith
  then have s: "unat (i + 1) = Suc (unat i)" by (intro unat_Suc) simp
  show ?case
  proof (cases "counts (unat i) = D")
    case True
    have "k = u - unat (i + 1)" "unat (i + 1) \<le> u" using Suc.hyps(2) s i by simp_all
    from Suc.hyps(1) [OF this] show ?thesis
      using i True unfolding skip_full.simps [of counts num_racks D i]
      by (auto simp: word_le_nat_alt s le_less_Suc_eq Suc_le_eq elim!: returns_mono) (metis Suc_leI le_neq_implies_less)
  next
    case False
    then show ?thesis using i by (subst skip_full.simps) (auto simp: word_le_nat_alt)
  qed
qed

lemma below_full:
  assumes "sum f {..<n} < D * n"
  shows "\<exists>u < n. f u < (D :: nat)"
proof (rule ccontr)
  assume "\<not> (\<exists>u < n. f u < D)"
  then have "(\<Sum>u < n. D) \<le> sum f {..<n}" by (intro sum_mono) (metis lessThan_iff not_less)
  with assms show False by (simp add: mult.commute)
qed

lemma unat_u8_u16: "unat (ucast (x :: u8) :: u16) = unat x"
  using less_trans [OF unat_u8_less [of x], of 65536] by (simp add: unsigned_ucast_eq take_bit_nat_eq_self)

text \<open>The racks below \<open>src\<close> and \<open>dst\<close> are full, and none has more than its share.\<close>

definition padded :: "u8 \<Rightarrow> nat \<Rightarrow> nat \<Rightarrow> nat \<Rightarrow> (nat \<times> nat) list \<Rightarrow> bool" where
  "padded num_racks D src dst ps \<longleftrightarrow> (\<forall>u < unat num_racks. count_list (map fst ps) u \<le> D \<and> count_list (map snd ps) u \<le> D)
     \<and> (\<forall>u < src. count_list (map fst ps) u = D) \<and> (\<forall>u < dst. count_list (map snd ps) u = D)"

lemma dummy_step:
  assumes c: "constructed num_racks ps st" and p: "padded num_racks (unat D) (unat src) (unat dst) ps"
    and D: "unat D \<le> 64" and lt: "length ps < unat D * unat num_racks"
  shows "\<exists>s d st'. skip_full (cs_src_rack_counts st) num_racks D src = Some s
    \<and> skip_full (cs_dst_rack_counts st) num_racks D dst = Some d
    \<and> construct_add (ucast s) (ucast d) st = Some st' \<and> constructed num_racks (ps @ [(unat s, unat d)]) st'
    \<and> padded num_racks (unat D) (unat s) (unat d) (ps @ [(unat s, unat d)])"
proof -
  have set: "set ps \<subseteq> {..<unat num_racks} \<times> {..<unat num_racks}" using c by (simp add: constructed_def Let_def)
  have cs: "unat (cs_src_rack_counts st u) = count_list (map fst ps) u" "unat (cs_dst_rack_counts st u) = count_list (map snd ps) u"
      if "u < unat num_racks" for u
    using c that by (auto simp: constructed_def Let_def)
  obtain u v where u: "u < unat num_racks" "count_list (map fst ps) u < unat D"
    and v: "v < unat num_racks" "count_list (map snd ps) v < unat D"
    using below_full [of "count_list (map fst ps)" "unat num_racks" "unat D"]
      below_full [of "count_list (map snd ps)" "unat num_racks" "unat D"] sum_counts [OF set] lt by auto
  have "unat src \<le> u" "unat dst \<le> v" using u v p by (auto simp: padded_def not_le [symmetric])
  moreover have "cs_src_rack_counts st u \<noteq> D" "cs_dst_rack_counts st v \<noteq> D" using u v cs by (auto simp: unat_eq_iff)
  ultimately obtain s d where s: "skip_full (cs_src_rack_counts st) num_racks D src = Some s" "unat s < unat num_racks"
      "cs_src_rack_counts st (unat s) \<noteq> D" "\<forall>w. unat src \<le> w \<and> w < unat s \<longrightarrow> cs_src_rack_counts st w = D"
    and d: "skip_full (cs_dst_rack_counts st) num_racks D dst = Some d" "unat d < unat num_racks"
      "cs_dst_rack_counts st (unat d) \<noteq> D" "\<forall>w. unat dst \<le> w \<and> w < unat d \<longrightarrow> cs_dst_rack_counts st w = D"
    using skip_full_ok [of src u num_racks "cs_src_rack_counts st" D] skip_full_ok [of dst v num_racks "cs_dst_rack_counts st" D]
      u(1) v(1) by (auto elim!: returnsE)
  have small: "count_list (map fst ps) (unat s) < unat D" "count_list (map snd ps) (unat d) < unat D"
    using s(2,3) d(2,3) cs p by (auto simp: unat_eq_iff padded_def le_neq_implies_less)
  have uc: "unat (ucast s :: u16) = unat s" "unat (ucast d :: u16) = unat d"
    by (simp_all add: unat_u8_u16)
  obtain st' where st': "construct_add (ucast s) (ucast d) st = Some st'"
    using construct_add_ok(1) [OF c, of "ucast s" "ucast d"] s(2) d(2) small D uc
    by (cases "construct_add (ucast s) (ucast d) st") auto
  moreover have "constructed num_racks (ps @ [(unat s, unat d)]) st'"
    using construct_add_ok(2) [OF c _ _ st'] s(2) d(2) uc by simp
  moreover have "count_list (map fst ps) w = unat D" if "w < unat s" for w
    using that s(2,4) p cs(1) [of w] by (cases "w < unat src") (auto simp: padded_def not_less)
  moreover have "count_list (map snd ps) w = unat D" if "w < unat d" for w
    using that d(2,4) p cs(2) [of w] by (cases "w < unat dst") (auto simp: padded_def not_less)
  ultimately show ?thesis using s(1) d(1) small p by (auto simp: padded_def)
qed

lemma dummy_loop_ok:
  assumes "constructed num_racks ps st" "padded num_racks (unat D) (unat src) (unat dst) ps" "unat D \<le> 64"
  shows "returns (dummy_loop D src dst st) (\<lambda>st'. \<exists>qs. constructed num_racks (ps @ qs) st'
    \<and> (\<forall>u < unat num_racks. count_list (map fst (ps @ qs)) u = unat D \<and> count_list (map snd (ps @ qs)) u = unat D))"
  using assms(1,2)
proof (induction "unat D * unat num_racks - length ps" arbitrary: ps st src dst rule: less_induct)
  case less
  have n: "gs_n (cs_structure st) = num_racks" "unat (cs_num_edges st) = length ps"
    and set: "set ps \<subseteq> {..<unat num_racks} \<times> {..<unat num_racks}"
    using less.prems(1) by (auto simp: constructed_def Let_def)
  show ?case
  proof (cases "length ps < unat D * unat num_racks")
    case True
    obtain s d st' where s: "skip_full (cs_src_rack_counts st) num_racks D src = Some s"
      "skip_full (cs_dst_rack_counts st) num_racks D dst = Some d" "construct_add (ucast s) (ucast d) st = Some st'"
      "constructed num_racks (ps @ [(unat s, unat d)]) st'"
      "padded num_racks (unat D) (unat s) (unat d) (ps @ [(unat s, unat d)])"
      using dummy_step [OF less.prems assms(3) True] by blast
    have "unat D * unat num_racks - length (ps @ [(unat s, unat d)]) < unat D * unat num_racks - length ps" using True by simp
    from less.hyps [OF this s(4,5)] have "returns (dummy_loop D s d st') (\<lambda>st'. \<exists>qs. constructed num_racks (ps @ qs) st'
        \<and> (\<forall>u < unat num_racks. count_list (map fst (ps @ qs)) u = unat D \<and> count_list (map snd (ps @ qs)) u = unat D))"
      by (rule returns_mono) (metis append.assoc)
    then show ?thesis using True s(1-3) n by (subst dummy_loop.simps) simp
  next
    case False
    have le: "\<And>u. u < unat num_racks \<Longrightarrow> count_list (map fst ps) u \<le> unat D"
      "\<And>u. u < unat num_racks \<Longrightarrow> count_list (map snd ps) u \<le> unat D"
      using less.prems(2) by (simp_all add: padded_def)
    have full: "f u = unat D" if "\<And>u. u < unat num_racks \<Longrightarrow> f u \<le> unat D" "(\<Sum>u < unat num_racks. f u) = length ps" "u < unat num_racks"
      for f and u :: nat
    proof (rule ccontr)
      assume "f u \<noteq> unat D"
      then have "(\<Sum>u < unat num_racks. f u) < (\<Sum>u < unat num_racks. unat D)"
        using that by (intro sum_strict_mono_ex1) (auto intro!: bexI [of _ u] simp: le_neq_implies_less)
      then show False using that(2) False by (simp add: mult.commute)
    qed
    have "count_list (map fst ps) u = unat D \<and> count_list (map snd ps) u = unat D" if "u < unat num_racks" for u
      using full [OF le(1) sum_counts(1) [OF set] that] full [OF le(2) sum_counts(2) [OF set] that] by simp
    then show ?thesis using False n less.prems(1) by (subst dummy_loop.simps) (auto intro!: exI [of _ "[]"])
  qed
qed

section \<open>The regular graph\<close>

text \<open>The degree of the graph: the largest load of a rack, rounded up to a multiple of the number of paths.\<close>

definition load_degree :: "nat \<Rightarrow> (nat \<times> nat) list \<Rightarrow> nat" where
  "load_degree n ps = up4 (Max (insert 0 (rack_load ps ` {..<n})))"

lemma load_degree_eqI:
  assumes "\<And>B. m \<le> B \<longleftrightarrow> (\<forall>u < n. rack_load ps u \<le> B)"
  shows "up4 m = load_degree n ps"
proof -
  have "Max (insert 0 (rack_load ps ` {..<n})) \<le> B \<longleftrightarrow> m \<le> B" for B by (auto simp: assms)
  then have "Max (insert 0 (rack_load ps ` {..<n})) = m" by (meson order_antisym order_refl)
  then show ?thesis by (simp add: load_degree_def)
qed

lemma construct_graph_eq:
  "construct_graph ad str e = do {
     st \<leftarrow> construct_admitted ad (construct_start str e);
     st \<leftarrow> dummy_loop (round_to_paths (max_rack_count (cs_src_rack_counts st) (cs_dst_rack_counts st) (gn str))) 0 0 st;
     assert_consistent (cs_structure st) (cs_edges st);
     Some (cs_structure st, cs_edges st) }"
  by (simp add: construct_graph_def construct_admitted_def construct_start_def Let_def)

lemma construct_graph_none:
  assumes "unat num_racks \<le> 16" "gs_n str = num_racks" "ends (unat num_racks) e = {}" "in_racks num_racks ad"
    "u < unat num_racks" "64 < rack_load (rack_pairs ad) u"
  shows "construct_graph ad str e = None"
proof -
  have "construct_admitted ad (construct_start str e) = None"
    using construct_admitted_some [OF constructed_start [OF assms(1-3)] assms(4)] constructed_bounds(1,2) assms(5,6)
    by (cases "construct_admitted ad (construct_start str e)") (fastforce simp: rack_load_def)+
  then show ?thesis by (simp add: construct_graph_eq)
qed

lemma construct_graph_ok:
  assumes "unat num_racks \<le> 16" "gs_n str = num_racks" "ends (unat num_racks) e = {}" "in_racks num_racks ad"
    and load: "\<And>u. u < unat num_racks \<Longrightarrow> rack_load (rack_pairs ad) u \<le> 64"
  defines "n \<equiv> unat num_racks"
  shows "returns (construct_graph ad str e) (\<lambda>(str', e'). gs_n str' = num_racks \<and> wfg str' (ends n e')
    \<and> (\<forall>u < 2 * n. dg (ends n e') u = load_degree n (rack_pairs ad))
    \<and> (\<forall>u < n. \<forall>v < n. count_list (rack_pairs ad) (u, v) \<le> mult str' (ends n e') u (n + v)))"
proof -
  obtain st where st: "construct_admitted ad (construct_start str e) = Some st" "constructed num_racks (rack_pairs ad) st"
    using construct_admitted_returns [OF constructed_start [OF assms(1-3)] assms(4) load] by (auto elim: returnsE)
  define m where "m = max_rack_count (cs_src_rack_counts st) (cs_dst_rack_counts st) (gn str)"
  define D where "D = round_to_paths m"
  have m: "unat m \<le> B \<longleftrightarrow> (\<forall>u < n. rack_load (rack_pairs ad) u \<le> B)" for B
    unfolding m_def max_rack_count_le using st(2) assms(2) by (auto simp: constructed_def Let_def rack_load_def n_def)
  have m64: "unat m \<le> 64" using m load by (simp add: n_def)
  have D: "unat D = load_degree n (rack_pairs ad)" "unat D \<le> 64" "unat m \<le> unat D"
    using unat_round_to_paths [OF m64] load_degree_eqI [OF m] up4_bounds(1) [of "unat m"] up4_bounds(3) [OF m64]
    by (simp_all add: D_def)
  have "padded num_racks (unat D) (unat (0 :: u8)) (unat (0 :: u8)) (rack_pairs ad)"
    using D(3) m by (auto simp: padded_def rack_load_def n_def)
  from dummy_loop_ok [OF st(2) this D(2)] obtain st' qs where st': "dummy_loop D 0 0 st = Some st'"
    "constructed num_racks (rack_pairs ad @ qs) st'"
    "\<forall>u < n. count_list (map fst (rack_pairs ad @ qs)) u = unat D \<and> count_list (map snd (rack_pairs ad @ qs)) u = unat D"
    by (auto elim!: returnsE simp: n_def)
  have c: "n \<le> 16" "gs_n (cs_structure st') = num_racks" "wfg (cs_structure st') (ends n (cs_edges st'))"
    "\<And>u. u < n \<Longrightarrow> dg (ends n (cs_edges st')) u = unat D \<and> dg (ends n (cs_edges st')) (n + u) = unat D"
    "\<And>u v. u < n \<Longrightarrow> v < n \<Longrightarrow> mult (cs_structure st') (ends n (cs_edges st')) u (n + v) = count_list (rack_pairs ad @ qs) (u, v)"
    using st'(2,3) by (auto simp: constructed_def Let_def n_def)
  have "dg (ends n (cs_edges st')) u = unat D" if "u < 2 * n" for u
    using c(4) [of u] c(4) [of "u - n"] that by (cases "u < n") auto
  moreover have "assert_consistent (cs_structure st') (cs_edges st') = Some ()"
    using c(1-3) by (intro assert_consistent_wfg) (simp_all add: n_def)
  ultimately show ?thesis
    using c(2,3,5) D(1) by (simp add: construct_graph_eq st(1) m_def [symmetric] D_def [symmetric] st'(1))
qed

end
