(* ===== verification/Path_Assign.thy ===== *)
theory Path_Assign
  imports Path_Graph
begin

text \<open>
  The assignment of paths to the admitted packets. The packets of a pair of racks wait in a list; each edge that
  is taken out of the graph takes a packet off the list of its pair, if there is one.
\<close>

text \<open>The packets of a pair of racks that have no path yet.\<close>

definition pending :: "racks_to_nodes_mapping \<Rightarrow> nat \<times> nat \<Rightarrow> nat list" where
  "pending m p = (let r = rm_mappings m (fst p * 16 + snd p) in
     map (\<lambda>i. unat (rn_admitted_indices r i)) [0 ..< unat (rn_size r)])"

lemma length_pending: "length (pending m p) = unat (rn_size (rm_mappings m (fst p * 16 + snd p)))"
  by (simp add: pending_def Let_def)

lemma rack_index_inj: "b < 16 \<Longrightarrow> d < 16 \<Longrightarrow> a * 16 + b = c * 16 + d \<longleftrightarrow> a = c \<and> b = (d :: nat)"
proof -
  assume "b < 16" "d < 16"
  then have "(a * 16 + b) div 16 = a" "(c * 16 + d) div 16 = c" by simp_all
  then show ?thesis by (metis add_left_cancel)
qed

lemma get_rack_pair_index_eq:
  "unat s < 16 \<Longrightarrow> unat d < 16 \<Longrightarrow> get_rack_pair_index s d = Some (unat s * 16 + unat d)"
  by (simp add: get_rack_pair_index_def MAX_RACKS_def)

section \<open>The lists of the pairs\<close>

lemma pending_push:
  assumes "snd p < 16" "snd q < 16" "unat (rn_size (rm_mappings m (fst q * 16 + snd q))) < 256"
  defines "r \<equiv> rm_mappings m (fst q * 16 + snd q)"
  shows "pending (m\<lparr>rm_mappings := (rm_mappings m)(fst q * 16 + snd q := r\<lparr>
      rn_admitted_indices := (rn_admitted_indices r)(unat (rn_size r) := x), rn_size := rn_size r + 1\<rparr>)\<rparr>) p
    = pending m p @ (if p = q then [unat x] else [])"
proof -
  have s: "unat (rn_size r + 1) = Suc (unat (rn_size r))" using assms(3) by (intro unat_Suc) (simp add: r_def)
  show ?thesis
    using rack_index_inj [OF assms(1,2), of "fst p" "fst q"]
    by (auto simp: pending_def Let_def s r_def [symmetric] prod_eq_iff)
qed

lemma filter_take_upt: "i < N \<Longrightarrow> filter P [0 ..< Suc i] = filter P [0 ..< i] @ (if P i then [i] else [])"
  by simp

lemma length_filter_pairs: "k \<le> length ps \<Longrightarrow> length (filter (\<lambda>i. ps ! i = p) [0 ..< k]) = count_list (take k ps) p"
  by (induction k) (simp_all add: take_Suc_conv_app_nth)

lemma count_list_take_le: "count_list (take k xs) x \<le> count_list xs x"
  by (metis append_take_drop_id count_list_append le_add1)

lemma count_pair_le: "count_list ps p \<le> count_list (map fst ps) (fst p)"
  by (induction ps) auto

lemma map_racks_to_nodes_ok:
  assumes "unat num_racks \<le> 16" "in_racks num_racks ad" "\<And>u. u < unat num_racks \<Longrightarrow> rack_load (rack_pairs ad) u \<le> 64"
  shows "returns (map_racks_to_nodes ad (init_racks_to_nodes_mapping m0))
    (\<lambda>m. \<forall>s < 16. \<forall>d < 16. pending m (s, d) = filter (\<lambda>i. rack_pairs ad ! i = (s, d)) [0 ..< unat (ad_size ad)])"
  unfolding map_racks_to_nodes_def
proof (rule for_each_loop [where P = "\<lambda>k m. \<forall>s < 16. \<forall>d < 16. pending m (s, d) = filter (\<lambda>i. rack_pairs ad ! i = (s, d)) [0 ..< k]"])
  show "\<forall>s < 16. \<forall>d < 16. pending (init_racks_to_nodes_mapping m0) (s, d) = filter (\<lambda>i. rack_pairs ad ! i = (s, d)) [0 ..< 0]"
    by (simp add: pending_def init_racks_to_nodes_mapping_def MAX_RACKS_def)
next
  fix k m assume k: "k < unat (ad_size ad)"
    and m: "\<forall>s < 16. \<forall>d < 16. pending m (s, d) = filter (\<lambda>i. rack_pairs ad ! i = (s, d)) [0 ..< k]"
  let ?s = "fp_rack_from_node_id (a_src (ad_edges ad k))" and ?d = "fp_rack_from_node_id (a_dst (ad_edges ad k))"
  define q where "q = (unat ?s, unat ?d)"
  have q: "rack_pairs ad ! k = q" "fst q < 16" "snd q < 16" "fst q < unat num_racks"
    using k in_racksD [OF assms(2) k] assms(1) by (simp_all add: q_def rack_pairs_def)
  have "length (pending m q) = count_list (take k (rack_pairs ad)) q"
    using m q(2,3) k length_filter_pairs [of k "rack_pairs ad" q] by (cases q) auto
  also have "\<dots> \<le> 64"
    using count_list_take_le [of k "rack_pairs ad" q] count_pair_le [of "rack_pairs ad" q] assms(3) [OF q(4)]
    by (simp add: rack_load_def)
  finally have len: "unat (rn_size (rm_mappings m (fst q * 16 + snd q))) < 256" by (simp add: length_pending)
  have "unat (of_nat k :: u16) = k" using k unat_u16_less [of "ad_size ad"] by (intro unat_of_nat_word) (simp del: unat_u16_less)
  then have push: "pending (m\<lparr>rm_mappings := (rm_mappings m)(fst q * 16 + snd q := (rm_mappings m (fst q * 16 + snd q))\<lparr>
      rn_admitted_indices := (rn_admitted_indices (rm_mappings m (fst q * 16 + snd q)))
        (unat (rn_size (rm_mappings m (fst q * 16 + snd q))) := of_nat k),
      rn_size := rn_size (rm_mappings m (fst q * 16 + snd q)) + 1\<rparr>)\<rparr>) p
    = pending m p @ (if p = q then [k] else [])" if "snd p < 16" for p
    using pending_push [OF that q(3) len, of "of_nat k"] by simp
  show "returns (do {
       let edge = ad_edges ad k;
       rack_pair_index \<leftarrow> get_rack_pair_index (fp_rack_from_node_id (a_src edge)) (fp_rack_from_node_id (a_dst edge));
       let rack_pair = rm_mappings m rack_pair_index;
       bug_on (MAX_NODES_PER_RACK \<le> unat (rn_size rack_pair));
       Some (m\<lparr>rm_mappings := (rm_mappings m)(rack_pair_index := rack_pair\<lparr>
         rn_admitted_indices := (rn_admitted_indices rack_pair)(unat (rn_size rack_pair) := of_nat k),
         rn_size := rn_size rack_pair + 1\<rparr>)\<rparr>) })
     (\<lambda>m. \<forall>s < 16. \<forall>d < 16. pending m (s, d) = filter (\<lambda>i. rack_pairs ad ! i = (s, d)) [0 ..< Suc k])"
    using q len push m
    by (simp add: Let_def get_rack_pair_index_eq q_def MAX_NODES_PER_RACK_def)
qed

section \<open>The assignment\<close>

definition path_of :: "admitted_traffic \<Rightarrow> nat \<Rightarrow> nat" where
  "path_of ad i = unat (drop_bit PATH_SHIFT (a_dst (ad_edges ad i)))"

text \<open>
  The state after the edges of the log \<open>L\<close>, with their paths and racks, have been taken out, when the traffic was \<open>ad0\<close>
  at the start. A packet is changed only in its path; no more packets of a rack have a path than edges of that
  rack and path are in the log; and the number of packets of a pair that wait falls with each edge.
\<close>

definition assigned :: "admitted_traffic \<Rightarrow> (nat \<times> nat \<times> nat) list \<Rightarrow> racks_to_nodes_mapping \<Rightarrow> admitted_traffic \<Rightarrow> bool" where
  "assigned ad0 L m ad \<longleftrightarrow> (let N = unat (ad_size ad0); P = rack_pairs ad0 in
     set P \<subseteq> {..<16} \<times> {..<16} \<and> (\<forall>p. count_list P p \<le> 64)
     \<and> ad_size ad = ad_size ad0
     \<and> (\<forall>i < N. a_src (ad_edges ad i) = a_src (ad_edges ad0 i) \<and> a_dst (ad_edges ad i) AND DST_MASK = a_dst (ad_edges ad0 i))
     \<and> (\<forall>s < 16. \<forall>d < 16. distinct (pending m (s, d)) \<and> set (pending m (s, d)) \<subseteq> {i. i < N \<and> P ! i = (s, d)}
          \<and> length (pending m (s, d)) = count_list P (s, d) - count_list (map snd L) (s, d))
     \<and> (\<forall>p s. card {i. i < N \<and> fst (P ! i) = s \<and> i \<notin> set (pending m (P ! i)) \<and> path_of ad i = p}
          \<le> length (filter (\<lambda>(p', a, b). p' = p \<and> a = s) L))
     \<and> (\<forall>p d. card {i. i < N \<and> snd (P ! i) = d \<and> i \<notin> set (pending m (P ! i)) \<and> path_of ad i = p}
          \<le> length (filter (\<lambda>(p', a, b). p' = p \<and> b = d) L)))"

lemma pending_pop:
  assumes "snd p < 16" "snd q < 16" "0 < rn_size (rm_mappings m (fst q * 16 + snd q))"
  defines "r \<equiv> rm_mappings m (fst q * 16 + snd q)"
  shows "pending (m\<lparr>rm_mappings := (rm_mappings m)(fst q * 16 + snd q := r\<lparr>rn_size := rn_size r - 1\<rparr>)\<rparr>) p
    = (if p = q then butlast (pending m p) else pending m p)"
    and "last (pending m q) = unat (rn_admitted_indices r (unat (rn_size r - 1)))"
proof -
  have pos: "0 < unat (rn_size r)" using assms(3) by (simp add: r_def word_less_nat_alt)
  then have s: "unat (rn_size r - 1) = unat (rn_size r) - 1"
    by (metis One_nat_def Suc_leI unat_1 unat_sub word_le_nat_alt)
  have up: "[0 ..< unat (rn_size r)] = [0 ..< unat (rn_size r) - 1] @ [unat (rn_size r) - 1]"
    using pos by (metis Suc_diff_1 upt_Suc_append le0)
  show "pending (m\<lparr>rm_mappings := (rm_mappings m)(fst q * 16 + snd q := r\<lparr>rn_size := rn_size r - 1\<rparr>)\<rparr>) p
    = (if p = q then butlast (pending m p) else pending m p)"
    using rack_index_inj [OF assms(1,2), of "fst p" "fst q"] up
    by (auto simp: pending_def Let_def s r_def [symmetric] prod_eq_iff)
  show "last (pending m q) = unat (rn_admitted_indices r (unat (rn_size r - 1)))"
    using up by (simp add: pending_def Let_def s r_def [symmetric])
qed

text \<open>A path in the top bits of a destination.\<close>

lemma path_bits:
  assumes "unat path < 4"
  shows "((x AND DST_MASK) + push_bit PATH_SHIFT (ucast path)) AND DST_MASK = (x :: u16) AND DST_MASK"
    "unat (drop_bit PATH_SHIFT ((x AND DST_MASK) + push_bit PATH_SHIFT (ucast (path :: u8)))) = unat path"
proof -
  have m: "DST_MASK = mask 14" by (simp add: DST_MASK_def mask_eq_exp_minus_1)
  have or: "(x AND mask 14) + push_bit 14 y = (x AND mask 14) OR push_bit 14 y" for y :: u16
    by (rule disjunctive_add) (auto simp: bit_and_iff bit_mask_iff bit_push_bit_iff)
  show "((x AND DST_MASK) + push_bit PATH_SHIFT (ucast path)) AND DST_MASK = x AND DST_MASK"
    unfolding m PATH_SHIFT_def or by (rule bit_eqI) (auto simp: bit_and_iff bit_or_iff bit_mask_iff bit_push_bit_iff)
  have "drop_bit 14 ((x AND mask 14) OR push_bit 14 (ucast path)) = (ucast path :: u16) AND mask 2"
    by (rule bit_eqI) (auto simp: bit_drop_bit_eq bit_or_iff bit_and_iff bit_mask_iff bit_push_bit_iff)
  moreover have "unat ((ucast path :: u16) AND mask 2) = unat path"
    using assms by (simp add: take_bit_eq_mask [symmetric] unsigned_take_bit_eq unat_u8_u16 take_bit_nat_eq_self)
  ultimately show "unat (drop_bit PATH_SHIFT ((x AND DST_MASK) + push_bit PATH_SHIFT (ucast path))) = unat path"
    unfolding m PATH_SHIFT_def or by simp
qed

lemma assign_to_path_ok:
  assumes as: "assigned ad0 L m ad" and r: "unat s < 16" "unat d < 16" "unat path < 4"
  shows "returns (assign_to_path m ad s d path) (\<lambda>(m', ad'). assigned ad0 (L @ [(unat path, unat s, unat d)]) m' ad')"
proof -
  define N P q where "N = unat (ad_size ad0)" and "P = rack_pairs ad0" and "q = (unat s, unat d)"
  define R where "R = rm_mappings m (fst q * 16 + snd q)"
  have A: "set P \<subseteq> {..<16} \<times> {..<16}" "\<And>p. count_list P p \<le> 64" "ad_size ad = ad_size ad0"
    "\<And>i. i < N \<Longrightarrow> a_src (ad_edges ad i) = a_src (ad_edges ad0 i)"
    "\<And>i. i < N \<Longrightarrow> a_dst (ad_edges ad i) AND DST_MASK = a_dst (ad_edges ad0 i)"
    "\<And>p. fst p < 16 \<Longrightarrow> snd p < 16 \<Longrightarrow> distinct (pending m p)"
    "\<And>p. fst p < 16 \<Longrightarrow> snd p < 16 \<Longrightarrow> set (pending m p) \<subseteq> {i. i < N \<and> P ! i = p}"
    "\<And>p. fst p < 16 \<Longrightarrow> snd p < 16 \<Longrightarrow> length (pending m p) = count_list P p - count_list (map snd L) p"
    "\<And>p s. card {i. i < N \<and> fst (P ! i) = s \<and> i \<notin> set (pending m (P ! i)) \<and> path_of ad i = p}
          \<le> length (filter (\<lambda>(p', a, b). p' = p \<and> a = s) L)"
    "\<And>p d. card {i. i < N \<and> snd (P ! i) = d \<and> i \<notin> set (pending m (P ! i)) \<and> path_of ad i = p}
          \<le> length (filter (\<lambda>(p', a, b). p' = p \<and> b = d) L)"
    using as by (auto simp: assigned_def Let_def N_def P_def split_paired_all)
  have q: "fst q < 16" "snd q < 16" using r by (simp_all add: q_def)
  have ix: "get_rack_pair_index (ucast s) (ucast d) = Some (fst q * 16 + snd q)"
    using r by (simp add: get_rack_pair_index_eq unat_u8_u16 q_def)
  show ?thesis
  proof (cases "0 < rn_size R")
    case False
    then have "pending m q = []" by (simp add: pending_def Let_def R_def word_less_nat_alt)
    then have z: "count_list P q - count_list (map snd L) q = 0" using A(8) [OF q] by simp
    have "assign_to_path m ad s d path = Some (m, ad)"
      using False r(3) by (simp add: assign_to_path_def ix R_def NUM_PATHS_def)
    moreover have "assigned ad0 (L @ [(unat path, q)]) m ad"
      unfolding assigned_def Let_def N_def [symmetric] P_def [symmetric]
      using A z by (auto simp: le_SucI split_paired_all)
    ultimately show ?thesis by (simp add: q_def)
  next
    case True
    define x where "x = last (pending m q)"
    have ne: "pending m q \<noteq> []" using True by (simp add: pending_def Let_def R_def word_less_nat_alt)
    then have split: "pending m q = butlast (pending m q) @ [x]" by (simp add: x_def)
    have x: "x < N" "P ! x = q" using A(7) [OF q] last_in_set [OF ne] by (auto simp: x_def)
    define m' where "m' = m\<lparr>rm_mappings := (rm_mappings m)(fst q * 16 + snd q := R\<lparr>rn_size := rn_size R - 1\<rparr>)\<rparr>"
    define ad' where "ad' = ad\<lparr>ad_edges := (ad_edges ad)(x := (ad_edges ad x)\<lparr>
      a_dst := (a_dst (ad_edges ad x) AND DST_MASK) + push_bit PATH_SHIFT (ucast path)\<rparr>)\<rparr>"
    have pop: "pending m' p = (if p = q then butlast (pending m p) else pending m p)" if "snd p < 16" for p
      using pending_pop(1) [OF that q(2)] True by (simp add: m'_def R_def)
    have last: "x = unat (rn_admitted_indices R (unat (rn_size R - 1)))"
      using pending_pop(2) [OF q(2) q(2)] True by (simp add: x_def R_def)
    have "unat (rn_size R) \<le> 64"
      using A(8) [OF q] A(2) [of q] by (simp add: length_pending R_def)
    then have run: "assign_to_path m ad s d path = Some (m', ad')"
      using True r(3) x(1) unfolding assign_to_path_def
      by (simp add: ix R_def [symmetric] NUM_PATHS_def MAX_NODES_PER_RACK_def word_le_nat_alt A(3) last [symmetric] N_def
          m'_def ad'_def Let_def)
    have sub: "{i. i < N \<and> f (P ! i) = v \<and> i \<notin> set (pending m' (P ! i)) \<and> path_of ad' i = p}
        \<subseteq> (if p = unat path \<and> v = f q then insert x {i. i < N \<and> f (P ! i) = v \<and> i \<notin> set (pending m (P ! i)) \<and> path_of ad i = p}
           else {i. i < N \<and> f (P ! i) = v \<and> i \<notin> set (pending m (P ! i)) \<and> path_of ad i = p})"
      for f :: "nat \<times> nat \<Rightarrow> nat" and v p
    proof
      fix i assume i: "i \<in> {i. i < N \<and> f (P ! i) = v \<and> i \<notin> set (pending m' (P ! i)) \<and> path_of ad' i = p}"
      then have "P ! i \<in> set P" by (auto simp: P_def N_def)
      then have "snd (P ! i) < 16" using A(1) by auto
      then show "i \<in> (if p = unat path \<and> v = f q then insert x {i. i < N \<and> f (P ! i) = v \<and> i \<notin> set (pending m (P ! i)) \<and> path_of ad i = p}
           else {i. i < N \<and> f (P ! i) = v \<and> i \<notin> set (pending m (P ! i)) \<and> path_of ad i = p})"
        using i x(2) arg_cong [OF split, of set] pop [of "P ! i"] path_bits(2) [OF r(3), of "a_dst (ad_edges ad x)"]
        by (cases "i = x") (auto simp: path_of_def ad'_def split: if_splits dest: in_set_butlastD)
    qed
    have count: "card {i. i < N \<and> f (P ! i) = v \<and> i \<notin> set (pending m' (P ! i)) \<and> path_of ad' i = p}
        \<le> card {i. i < N \<and> f (P ! i) = v \<and> i \<notin> set (pending m (P ! i)) \<and> path_of ad i = p} + of_bool (p = unat path \<and> v = f q)"
      (is "card ?new \<le> card ?old + _") for f :: "nat \<times> nat \<Rightarrow> nat" and v p
    proof -
      have "card ?new \<le> card (if p = unat path \<and> v = f q then insert x ?old else ?old)"
        by (rule card_mono [OF _ sub]) simp
      also have "\<dots> \<le> card ?old + of_bool (p = unat path \<and> v = f q)" by (simp add: card_insert_if)
      finally show ?thesis .
    qed
    have "card {i. i < N \<and> fst (P ! i) = v \<and> i \<notin> set (pending m' (P ! i)) \<and> path_of ad' i = p}
        \<le> length (filter (\<lambda>(p', a, b). p' = p \<and> a = v) (L @ [(unat path, q)]))" for v p
      using count [of fst v p] A(9) [of v p] by (auto simp: split_beta)
    moreover have "card {i. i < N \<and> snd (P ! i) = v \<and> i \<notin> set (pending m' (P ! i)) \<and> path_of ad' i = p}
        \<le> length (filter (\<lambda>(p', a, b). p' = p \<and> b = v) (L @ [(unat path, q)]))" for v p
      using count [of snd v p] A(10) [of v p] by (auto simp: split_beta)
    moreover have "distinct (pending m' p) \<and> set (pending m' p) \<subseteq> {i. i < N \<and> P ! i = p}
        \<and> length (pending m' p) = count_list P p - count_list (map snd (L @ [(unat path, q)])) p" if "fst p < 16" "snd p < 16" for p
      using pop [OF that(2)] A(6-8) [OF that] ne by (auto simp: distinct_butlast dest: in_set_butlastD)
    moreover have "a_src (ad_edges ad' i) = a_src (ad_edges ad0 i) \<and> a_dst (ad_edges ad' i) AND DST_MASK = a_dst (ad_edges ad0 i)"
      if "i < N" for i
      using A(4,5) [OF that] path_bits(1) [OF r(3)] by (auto simp: ad'_def)
    moreover have "ad_size ad' = ad_size ad0" by (simp add: ad'_def A(3))
    ultimately have "assigned ad0 (L @ [(unat path, q)]) m' ad'"
      unfolding assigned_def Let_def N_def [symmetric] P_def [symmetric] using A(1,2) by simp
    then show ?thesis by (simp add: run q_def)
  qed
qed

end
