(* ===== verification/Path_Props.thy ===== *)
theory Path_Props
  imports Path_Assign
begin

text \<open>
  What \<open>select_paths\<close> promises: every path has its share of the packets of each rack, as \<open>paths_are_valid\<close> checks.
\<close>

section \<open>The second split\<close>

definition populate_step ::
  "graph_structure \<Rightarrow> u8 \<Rightarrow> u8 \<Rightarrow> bool \<Rightarrow> u8 \<Rightarrow> populate_state \<Rightarrow> (u8 \<times> populate_state) option" where
  "populate_step str path_0 path_1 c u s = (case s of (e, m, ad) \<Rightarrow> do {
     (v, e) \<leftarrow> remove_edge_to_neighbor str e u;
     (m, ad) \<leftarrow> (if c then assign_to_path m ad v (u - gs_n str) path_1 else assign_to_path m ad u (v - gs_n str) path_0);
     assert_consistent str e;
     Some (v, e, m, ad)
   })"

text \<open>An edge of the walk as an edge of the assignment: its path and its racks.\<close>

definition with_path :: "u8 \<Rightarrow> u8 \<Rightarrow> nat \<Rightarrow> bool \<times> nat \<times> nat \<Rightarrow> nat \<times> nat \<times> nat" where
  "with_path path_0 path_1 n = (\<lambda>(c, a, b). (unat (if c then path_1 else path_0), a, b - n))"

definition populate_inv ::
  "graph_structure \<Rightarrow> u8 \<Rightarrow> u8 \<Rightarrow> admitted_traffic \<Rightarrow> (nat \<times> nat \<times> nat) list \<Rightarrow> walk_log \<Rightarrow> populate_state \<Rightarrow> bool" where
  "populate_inv str path_0 path_1 ad0 L0 L s \<longleftrightarrow> (case s of (e, m, ad) \<Rightarrow>
     gn str \<le> 16 \<and> unat path_0 < 4 \<and> unat path_1 < 4
     \<and> (\<forall>(c, a, b) \<in> set L. a < gn str \<and> gn str \<le> b)
     \<and> assigned ad0 (L0 @ map (with_path path_0 path_1 (gn str)) L) m ad)"

lemma populate_step_ok:
  assumes inv: "populate_inv str path_0 path_1 ad0 L0 L s" and wf: "wfg str (ends (gn str) (fst s))"
    and u: "unat u < 2 * gn str" "dg (ends (gn str) (fst s)) (unat u) \<noteq> 0" and c: "c = (gn str \<le> unat u)"
  shows "returns (populate_step str path_0 path_1 c u s) (\<lambda>(v, s'). \<exists>p \<in> ends (gn str) (fst s). fst p = unat u
    \<and> unat v = fst (other_end str p) \<and> ends (gn str) (fst s') = ends (gn str) (fst s) - edge_ends str p
    \<and> populate_inv str path_0 path_1 ad0 L0 (L @ [(c, sides str p)]) s')"
proof -
  obtain e m ad where s: "s = (e, m, ad)" by (cases s)
  have n: "gn str \<le> 16" "gn str \<le> 64" and path: "unat path_0 < 4" "unat path_1 < 4"
    and as: "assigned ad0 (L0 @ map (with_path path_0 path_1 (gn str)) L) m ad"
    using inv by (simp_all add: populate_inv_def s)
  obtain v e' p where r: "remove_edge_to_neighbor str e u = Some (v, e')" "p \<in> ends (gn str) e" "fst p = unat u"
    "unat v = fst (other_end str p)" "ends (gn str) e' = ends (gn str) e - edge_ends str p"
    using remove_edge_spec [OF _ n(2) u(1), of e] wf u(2) by (auto simp: s)
  have wf': "wfg str (ends (gn str) e')" unfolding r(5) using wfg_remove [OF _ r(2)] wf by (simp add: s)
  define a b where "a = (if c then v else u)" and "b = (if c then u else v)"
  have ab: "unat a < gn str" "gn str \<le> unat b" "unat b < 2 * gn str" "sides str p = (unat a, unat b)"
    using wfg_other [OF _ r(2)] wf r(3,4) u(1) c by (auto simp: a_def b_def sides_def s)
  have b: "unat (b - gs_n str) = unat b - gn str" using ab(2) by (simp add: unat_sub word_le_nat_alt)
  have "returns (assign_to_path m ad a (b - gs_n str) (if c then path_1 else path_0)) (\<lambda>(m', ad').
      assigned ad0 ((L0 @ map (with_path path_0 path_1 (gn str)) L) @ [(unat (if c then path_1 else path_0), unat a, unat (b - gs_n str))]) m' ad')"
    using as ab n path by (intro assign_to_path_ok) (auto simp: b)
  then obtain m' ad' where t: "assign_to_path m ad a (b - gs_n str) (if c then path_1 else path_0) = Some (m', ad')"
    "assigned ad0 (L0 @ map (with_path path_0 path_1 (gn str)) (L @ [(c, sides str p)])) m' ad'"
    by (auto elim!: returnsE simp: with_path_def ab(4) b)
  have "populate_step str path_0 path_1 c u s = Some (v, e', m', ad')"
    using t(1) by (cases c) (simp_all add: populate_step_def s r(1) a_def b_def assert_consistent_wfg wf' n(2))
  moreover have "populate_inv str path_0 path_1 ad0 L0 (L @ [(c, sides str p)]) (e', m', ad')"
    using inv t(2) ab by (simp add: populate_inv_def s)
  ultimately show ?thesis using r(2-5) by (auto simp: s)
qed

interpretation paths: euler_walk str fst "populate_step str path_0 path_1" "populate_loop str path_0 path_1"
  "populate_inv str path_0 path_1 ad0 L0"
  for str path_0 path_1 ad0 L0
proof
  show "populate_loop str path_0 path_1 node cur s = do {
      b \<leftarrow> has_neighbor (fst s) node;
      if b then do { (v, s) \<leftarrow> populate_step str path_0 path_1 False cur s; (w, s) \<leftarrow> populate_step str path_0 path_1 True v s;
        populate_loop str path_0 path_1 node w s } else Some s }" for node cur s
    by (subst populate_loop.simps) (cases s, simp add: populate_step_def Let_def split: bind_splits prod.splits)
qed (use populate_step_ok in \<open>auto simp: populate_inv_def\<close>)

text \<open>The edges of a path that touch a rack, in the log of the second split.\<close>

lemma with_path_simp: "with_path path_0 path_1 n (c, a, b) = (unat (if c then path_1 else path_0), a, b - n)"
  by (simp add: with_path_def)

lemma cnt_Cons: "cnt ((c, a, b) # L) c' u = of_bool (c = c' \<and> (a = u \<or> b = u)) + cnt L c' u"
  by (simp add: cnt_def)

lemma lmult_Cons: "lmult ((c, a, b) # L) u v = of_bool (a = u \<and> b = v) + lmult L u v"
  by (simp add: lmult_def)

lemma with_path_left:
  assumes "\<forall>(c, a, b) \<in> set L. a < n \<and> n \<le> b" "unat path_0 \<noteq> unat path_1" "s < n"
  shows "length (filter (\<lambda>(p', a, b). p' = p \<and> a = s) (map (with_path path_0 path_1 n) L))
    = (if p = unat path_0 then cnt L False s else if p = unat path_1 then cnt L True s else 0)"
  using assms(1)
proof (induction L)
  case (Cons x L)
  obtain c a b where x: "x = (c, a, b)" by (cases x)
  then have "a < n" "n \<le> b" "b \<noteq> s" using Cons.prems assms(3) by auto
  then show ?case using Cons assms(2) by (cases c) (auto simp: x with_path_simp cnt_Cons)
qed simp

lemma with_path_right:
  assumes "\<forall>(c, a, b) \<in> set L. a < n \<and> n \<le> b" "unat path_0 \<noteq> unat path_1"
  shows "length (filter (\<lambda>(p', a, b). p' = p \<and> b = d) (map (with_path path_0 path_1 n) L))
    = (if p = unat path_0 then cnt L False (n + d) else if p = unat path_1 then cnt L True (n + d) else 0)"
  using assms(1)
proof (induction L)
  case (Cons x L)
  obtain c a b where x: "x = (c, a, b)" by (cases x)
  then have "a \<noteq> n + d" "b - n = d \<longleftrightarrow> b = n + d" using Cons.prems by auto
  then show ?case using Cons assms(2) by (cases c) (auto simp: x with_path_simp cnt_Cons)
qed simp

lemma with_path_pair:
  assumes "\<forall>(c, a, b) \<in> set L. a < n \<and> n \<le> b"
  shows "count_list (map snd (map (with_path path_0 path_1 n) L)) (s, d) = lmult L s (n + d)"
  using assms
proof (induction L)
  case (Cons x L)
  obtain c a b where x: "x = (c, a, b)" by (cases x)
  then have "b - n = d \<longleftrightarrow> b = n + d" using Cons.prems by auto
  then show ?case using Cons by (simp add: x with_path_simp lmult_Cons)
qed simp

lemma populate_ok:
  assumes as: "assigned ad0 L0 m ad" and n: "gn str \<le> 16" and path: "unat path_0 < 4" "unat path_1 < 4" "unat path_0 \<noteq> unat path_1"
    and wf: "wfg str (ends (gn str) e)" and ev: "\<And>u. dg (ends (gn str) e) u = (if u < 2 * gn str then 2 * k else 0)"
  shows "returns (split_and_populate_paths str e m ad path_0 path_1) (\<lambda>(e', m', ad'). \<exists>L. assigned ad0 (L0 @ L) m' ad'
    \<and> (\<forall>s < gn str. \<forall>p. length (filter (\<lambda>(p', a, b). p' = p \<and> a = s) L) = (if p = unat path_0 \<or> p = unat path_1 then k else 0))
    \<and> (\<forall>d < gn str. \<forall>p. length (filter (\<lambda>(p', a, b). p' = p \<and> b = d) L) = (if p = unat path_0 \<or> p = unat path_1 then k else 0))
    \<and> (\<forall>s < gn str. \<forall>d < gn str. count_list (map snd L) (s, d) = mult str (ends (gn str) e) s (gn str + d)))"
proof -
  have "populate_inv str path_0 path_1 ad0 L0 [] (e, m, ad)" using as n path by (simp add: populate_inv_def)
  moreover have "wfg str (ends (gn str) (fst (e, m, ad)))" "even (dg (ends (gn str) (fst (e, m, ad))) u)" for u
    using wf ev by simp_all
  ultimately have "returns (for_each (\<lambda>node s. populate_loop str path_0 path_1 (of_nat node) (of_nat node) s) [0 ..< gn str] (e, m, ad))
    (\<lambda>s'. ends (gn str) (fst s') = {} \<and> (\<exists>L. populate_inv str path_0 path_1 ad0 L0 L s'
      \<and> (\<forall>u. 2 * cnt L False u = dg (ends (gn str) e) u \<and> 2 * cnt L True u = dg (ends (gn str) e) u)
      \<and> (\<forall>u < gn str. \<forall>v. lmult L u v = mult str (ends (gn str) e) u v)))"
    using paths.walks_deal_out [where s = "(e, m, ad)"] by simp
  then obtain s' L where L:
    "for_each (\<lambda>node s. populate_loop str path_0 path_1 (of_nat node) (of_nat node) s) [0 ..< gn str] (e, m, ad) = Some s'"
    "populate_inv str path_0 path_1 ad0 L0 L s'"
    "\<And>u. 2 * cnt L False u = dg (ends (gn str) e) u" "\<And>u. 2 * cnt L True u = dg (ends (gn str) e) u"
    "\<And>u v. u < gn str \<Longrightarrow> lmult L u v = mult str (ends (gn str) e) u v"
    by (elim returnsE conjE exE) blast
  have half: "cnt L c u = (if u < 2 * gn str then k else 0)" for c u using L(3,4) [of u] ev [of u] by (cases c) auto
  obtain e' m' ad' where s': "s' = (e', m', ad')" by (cases s')
  define LL where "LL = map (with_path path_0 path_1 (gn str)) L"
  have LL: "assigned ad0 (L0 @ LL) m' ad'" and wp: "\<forall>(c, a, b) \<in> set L. a < gn str \<and> gn str \<le> b"
    using L(2) by (simp_all add: populate_inv_def s' LL_def)
  have "length (filter (\<lambda>(p', a, b). p' = p \<and> a = s) LL) = (if p = unat path_0 \<or> p = unat path_1 then k else 0)"
    if "s < gn str" for s p
    unfolding LL_def with_path_left [OF wp path(3) that] half using that by simp
  moreover have "length (filter (\<lambda>(p', a, b). p' = p \<and> b = d) LL) = (if p = unat path_0 \<or> p = unat path_1 then k else 0)"
    if "d < gn str" for d p
    unfolding LL_def with_path_right [OF wp path(3)] half using that by simp
  moreover have "count_list (map snd LL) (s, d) = mult str (ends (gn str) e) s (gn str + d)" if "s < gn str" for s d
    unfolding LL_def with_path_pair [OF wp] using L(5) that by simp
  moreover have "split_and_populate_paths str e m ad path_0 path_1 = Some (e', m', ad')"
    using L(1) path by (simp add: split_and_populate_paths_def NUM_PATHS_def s')
  ultimately show ?thesis using LL unfolding returns_def prod.case by blast
qed

section \<open>The selection\<close>

lemma mult_Un:
  assumes "wfg str A" "wfg str B" "A \<inter> B = {}"
  shows "mult str (A \<union> B) u v = mult str A u v + mult str B u v"
proof -
  let ?S = "\<lambda>E. {i. (u, i) \<in> E \<and> fst (other_end str (u, i)) = v}"
  have "?S (A \<union> B) = ?S A \<union> ?S B" "?S A \<inter> ?S B = {}" using assms(3) by auto
  moreover have "finite (?S A)" "finite (?S B)"
    using finite_subset [OF _ finite_ends_at [OF assms(1)], of "?S A" u] finite_subset [OF _ finite_ends_at [OF assms(2)], of "?S B" u]
    by auto
  ultimately show ?thesis by (simp add: mult_def card_Un_disjoint)
qed

text \<open>
  The result of the selection: the packets are those that were admitted, and of the packets that leave or enter a
  rack at most a quarter of the degree use the same path.
\<close>

definition fair_paths :: "nat \<Rightarrow> admitted_traffic \<Rightarrow> admitted_traffic \<Rightarrow> bool" where
  "fair_paths n ad0 ad \<longleftrightarrow> (let N = unat (ad_size ad0); P = rack_pairs ad0 in
     ad_size ad = ad_size ad0
     \<and> (\<forall>i < N. a_src (ad_edges ad i) = a_src (ad_edges ad0 i) \<and> a_dst (ad_edges ad i) AND DST_MASK = a_dst (ad_edges ad0 i))
     \<and> (\<forall>u < n. \<forall>p. card {i. i < N \<and> fst (P ! i) = u \<and> path_of ad i = p} \<le> load_degree n P div 4
                  \<and> card {i. i < N \<and> snd (P ! i) = u \<and> path_of ad i = p} \<le> load_degree n P div 4))"

lemma rack_dst_small:
  assumes "unat (fp_rack_from_node_id x) < 16"
  shows "x AND DST_MASK = x"
proof -
  have "unat x < 2 ^ 14" using assms by (simp add: fp_rack_from_node_id_def TOR_SHIFT_def drop_bit_eq_div unat_div)
  then have "take_bit 14 x = x" by (simp add: unat_eq_iff unsigned_take_bit_eq take_bit_nat_eq_self)
  then show ?thesis by (simp add: take_bit_eq_mask DST_MASK_def mask_eq_exp_minus_1)
qed

lemma assigned_start:
  assumes n: "unat num_racks \<le> 16" "in_racks num_racks ad" "\<And>u. u < unat num_racks \<Longrightarrow> rack_load (rack_pairs ad) u \<le> 64"
    and m: "\<forall>s < 16. \<forall>d < 16. pending m (s, d) = filter (\<lambda>i. rack_pairs ad ! i = (s, d)) [0 ..< unat (ad_size ad)]"
  shows "assigned ad [] m ad"
proof -
  have P: "set (rack_pairs ad) \<subseteq> {..<16} \<times> {..<16}" using n(1,2) by (fastforce simp: in_racks_def)
  have "count_list (rack_pairs ad) p \<le> 64" for p
  proof (cases "fst p < unat num_racks")
    case True
    then show ?thesis using count_pair_le [of "rack_pairs ad" p] n(3) [of "fst p"] by (simp add: rack_load_def)
  next
    case False
    then have "p \<notin> set (rack_pairs ad)" using n(2) by (auto simp: in_racks_def)
    then show ?thesis by simp
  qed
  moreover have "a_dst (ad_edges ad i) AND DST_MASK = a_dst (ad_edges ad i)" if "i < unat (ad_size ad)" for i
    using in_racksD(2) [OF n(2) that] n(1) by (intro rack_dst_small) simp
  moreover have "i \<in> set (pending m (rack_pairs ad ! i))" if "i < unat (ad_size ad)" for i
  proof -
    have "rack_pairs ad ! i \<in> set (rack_pairs ad)" using that by simp
    then have "fst (rack_pairs ad ! i) < 16" "snd (rack_pairs ad ! i) < 16" using P by auto
    then show ?thesis using m that by (cases "rack_pairs ad ! i") auto
  qed
  then have "card {i. i < unat (ad_size ad) \<and> f (rack_pairs ad ! i) = v \<and> i \<notin> set (pending m (rack_pairs ad ! i))
      \<and> path_of ad i = p} = 0" for f :: "nat \<times> nat \<Rightarrow> nat" and v p by (auto intro!: card_eq_0_iff [THEN iffD2])
  ultimately show ?thesis
    using m P length_filter_pairs [of "unat (ad_size ad)" "rack_pairs ad"] unfolding assigned_def Let_def by auto
qed

lemma dg_outside: "\<not> u < 2 * n \<Longrightarrow> dg (ends n e) u = 0"
  by (simp add: dg_def ends_def)

lemma assigned_all:
  assumes as: "assigned ad L m ad'" and all: "\<And>p. p \<in> set (rack_pairs ad) \<Longrightarrow> count_list (rack_pairs ad) p \<le> count_list (map snd L) p"
    and share: "\<And>u p. u < n \<Longrightarrow> length (filter (\<lambda>(p', a, b). p' = p \<and> a = u) L) \<le> load_degree n (rack_pairs ad) div 4"
      "\<And>u p. u < n \<Longrightarrow> length (filter (\<lambda>(p', a, b). p' = p \<and> b = u) L) \<le> load_degree n (rack_pairs ad) div 4"
  shows "fair_paths n ad ad'"
proof -
  have none: "pending m (rack_pairs ad ! i) = []" if "i < unat (ad_size ad)" for i
  proof -
    let ?p = "rack_pairs ad ! i"
    have p: "?p \<in> set (rack_pairs ad)" using that by simp
    then have "fst ?p < 16" "snd ?p < 16" using as by (auto simp: assigned_def Let_def)
    then have "length (pending m ?p) = count_list (rack_pairs ad) ?p - count_list (map snd L) ?p"
      using as by (cases ?p) (simp add: assigned_def Let_def)
    then show ?thesis using all [OF p] by simp
  qed
  have eq: "{i. i < unat (ad_size ad) \<and> f (rack_pairs ad ! i) = u \<and> i \<notin> set (pending m (rack_pairs ad ! i)) \<and> path_of ad' i = p}
      = {i. i < unat (ad_size ad) \<and> f (rack_pairs ad ! i) = u \<and> path_of ad' i = p}" for f :: "nat \<times> nat \<Rightarrow> nat" and u p
    using none by auto
  show ?thesis
    using as share unfolding assigned_def fair_paths_def Let_def eq by (meson order_trans)
qed

lemma select_paths_ok:
  assumes nr: "unat num_racks \<le> 16" "in_racks num_racks ad" "\<And>u. u < unat num_racks \<Longrightarrow> rack_load (rack_pairs ad) u \<le> 64"
  shows "returns (select_paths m0 structure0 edges0 ad num_racks) (fair_paths (unat num_racks) ad)"
proof -
  define n D where "n = unat num_racks" and "D = load_degree n (rack_pairs ad)"
  obtain m where m: "map_racks_to_nodes ad (init_racks_to_nodes_mapping m0) = Some m" "assigned ad [] m ad"
    using map_racks_to_nodes_ok [OF nr, of m0] assigned_start [OF nr] by (auto elim!: returnsE)
  have st: "graph_structure_init structure0 num_racks = Some (structure0\<lparr>gs_n := num_racks\<rparr>)"
    using nr(1) by (simp add: graph_structure_init_def MAX_GRAPH_NODES_def)
  obtain g where g: "for_each (\<lambda>i edges. do { e \<leftarrow> graph_edges_init (edges i) num_racks; Some (edges(i := e)) }) [0 ..< NUM_GRAPHS] edges0
      = Some g" "\<forall>k < 3. ends n (g k) = {}"
    using init_graphs [of num_racks NUM_GRAPHS edges0] nr(1) by (auto elim!: returnsE simp: NUM_GRAPHS_def n_def)
  obtain str e where c: "construct_graph ad (structure0\<lparr>gs_n := num_racks\<rparr>) (g 0) = Some (str, e)" "gs_n str = num_racks"
    "wfg str (ends n e)" "\<And>u. u < 2 * n \<Longrightarrow> dg (ends n e) u = D"
    "\<And>u v. u < n \<Longrightarrow> v < n \<Longrightarrow> count_list (rack_pairs ad) (u, v) \<le> mult str (ends n e) u (n + v)"
    using construct_graph_ok [OF nr(1) _ _ nr(2,3), of "structure0\<lparr>gs_n := num_racks\<rparr>" "g 0"] g(2)
    by (auto elim!: returnsE simp: n_def D_def)
  have n: "gn str = n" "gn str \<le> 16" "gn str \<le> 64" using c(2) nr(1) by (simp_all add: n_def)
  obtain k where k: "D = 4 * k" using up4_bounds(2) by (auto simp: D_def load_degree_def elim: dvdE)
  have "returns (split_graph str 0 1 2 (g(0 := e))) (\<lambda>g'. wfg str (ends n (g' 1)) \<and> wfg str (ends n (g' 2))
      \<and> ends n (g' 1) \<inter> ends n (g' 2) = {} \<and> ends n (g' 1) \<union> ends n (g' 2) = ends n e
      \<and> (\<forall>u. dg (ends n (g' 1)) u = (if u < 2 * n then 2 * k else 0) \<and> dg (ends n (g' 2)) u = (if u < 2 * n then 2 * k else 0)))"
  proof (rule returns_mono [OF split_graph_ok [where str = str and a = 0 and ?b1.0 = 1 and ?b2.0 = 2 and g = "g(0 := e)"]])
    show "even (dg (ends (gn str) ((g(0 := e)) 0)) u)" for u
      using c(4) [of u] k dg_outside [of u n e] by (cases "u < 2 * n") (simp_all add: n(1))
  qed (use n c(3,4) g(2) k in \<open>auto simp: dg_outside\<close>)
  then obtain g' where g': "split_graph str 0 1 2 (g(0 := e)) = Some g'" "wfg str (ends n (g' 1))" "wfg str (ends n (g' 2))"
    "ends n (g' 1) \<inter> ends n (g' 2) = {}" "ends n (g' 1) \<union> ends n (g' 2) = ends n e"
    "\<And>u. dg (ends n (g' 1)) u = (if u < 2 * n then 2 * k else 0)" "\<And>u. dg (ends n (g' 2)) u = (if u < 2 * n then 2 * k else 0)"
    by (auto elim!: returnsE)
  obtain e1 m1 ad1 L1 where p1: "split_and_populate_paths str (g' 1) m ad 0 1 = Some (e1, m1, ad1)" "assigned ad ([] @ L1) m1 ad1"
    "\<And>s p. s < n \<Longrightarrow> length (filter (\<lambda>(p', a, b). p' = p \<and> a = s) L1) = (if p = 0 \<or> p = 1 then k else 0)"
    "\<And>d p. d < n \<Longrightarrow> length (filter (\<lambda>(p', a, b). p' = p \<and> b = d) L1) = (if p = 0 \<or> p = 1 then k else 0)"
    "\<And>s d. s < n \<Longrightarrow> d < n \<Longrightarrow> count_list (map snd L1) (s, d) = mult str (ends n (g' 1)) s (n + d)"
    using populate_ok [OF m(2) n(2), of 0 1 "g' 1" k] g'(2,6) by (fastforce elim!: returnsE simp: n(1))
  obtain e2 m2 ad2 L2 where p2: "split_and_populate_paths str (g' 2) m1 ad1 2 3 = Some (e2, m2, ad2)" "assigned ad (L1 @ L2) m2 ad2"
    "\<And>s p. s < n \<Longrightarrow> length (filter (\<lambda>(p', a, b). p' = p \<and> a = s) L2) = (if p = 2 \<or> p = 3 then k else 0)"
    "\<And>d p. d < n \<Longrightarrow> length (filter (\<lambda>(p', a, b). p' = p \<and> b = d) L2) = (if p = 2 \<or> p = 3 then k else 0)"
    "\<And>s d. s < n \<Longrightarrow> d < n \<Longrightarrow> count_list (map snd L2) (s, d) = mult str (ends n (g' 2)) s (n + d)"
    using populate_ok [OF p1(2) n(2), of 2 3 "g' 2" k] g'(3,7) by (fastforce elim!: returnsE simp: n(1))
  have run: "select_paths m0 structure0 edges0 ad num_racks = Some ad2"
    using nr(1) by (simp add: select_paths_def MAX_RACKS_def m(1) st g(1) c(1) g'(1) p1(1) p2(1) del: One_nat_def)
  have "fair_paths n ad ad2"
  proof (rule assigned_all [OF p2(2)])
    fix p assume "p \<in> set (rack_pairs ad)"
    then have p: "fst p < n" "snd p < n" using nr(2) by (auto simp: in_racks_def n_def)
    then show "count_list (rack_pairs ad) p \<le> count_list (map snd (L1 @ L2)) p"
      using p1(5) [OF p] p2(5) [OF p] c(5) [OF p] mult_Un [OF g'(2-4), of "fst p" "n + snd p"] g'(5) by simp
  qed (use p1(3,4) p2(3,4) k in \<open>auto simp: D_def [symmetric]\<close>)
  then show ?thesis by (simp add: run n_def)
qed

section \<open>The check\<close>

text \<open>Counting into an array of bytes, as long as no counter overflows.\<close>

definition hits :: "nat \<Rightarrow> (nat \<Rightarrow> nat) \<Rightarrow> nat \<Rightarrow> nat" where
  "hits k f x = card {i. i < k \<and> f i = x}"

lemma hits_Suc: "hits (Suc k) f x = hits k f x + of_bool (f k = x)"
proof -
  have "{i. i < Suc k \<and> f i = x} = {i. i < k \<and> f i = x} \<union> {i. i = k \<and> f k = x}" by (auto simp: less_Suc_eq)
  also have "card \<dots> = card {i. i < k \<and> f i = x} + card {i. i = k \<and> f k = x}" by (rule card_Un_disjoint) auto
  finally show ?thesis by (simp add: hits_def)
qed

lemma hits_mono: "k \<le> N \<Longrightarrow> hits k f x \<le> hits N f x"
  unfolding hits_def by (rule card_mono) auto

lemma count_step:
  assumes "\<And>x. x < M \<Longrightarrow> unat (c x :: u8) = hits k f x" "f k < M" "hits (Suc k) f (f k) < 256" "x < M"
  shows "unat ((c(f k := c (f k) + 1)) x) = hits (Suc k) f x"
proof -
  have "unat (c (f k)) < 255" using assms(1) [OF assms(2)] assms(3) by (simp add: hits_Suc)
  then have "unat (c (f k) + 1) = Suc (unat (c (f k)))" by (intro unat_Suc) simp
  then show ?thesis using assms by (auto simp: hits_Suc)
qed

lemma count_paths_ok:
  fixes num_racks :: u8 and ad :: admitted_traffic
  defines "N \<equiv> unat (ad_size ad)" and "M \<equiv> unat num_racks * 4"
    and "fs \<equiv> \<lambda>i. unat (fp_rack_from_node_id (a_src (ad_edges ad i))) * 4 + path_of ad i"
    and "fd \<equiv> \<lambda>i. unat (fp_rack_from_node_id (a_dst (ad_edges ad i) AND DST_MASK)) * 4 + path_of ad i"
  assumes n: "unat num_racks \<le> 16" and r: "\<And>i. i < N \<Longrightarrow> fs i < M \<and> fd i < M"
    and small: "\<And>x. x < M \<Longrightarrow> hits N fs x < 256 \<and> hits N fd x < 256" and z: "\<And>x. x < M \<Longrightarrow> src x = 0 \<and> dst x = 0"
  shows "returns (count_paths ad src dst) (\<lambda>(src, dst). \<forall>x < M. unat (src x) = hits N fs x \<and> unat (dst x) = hits N fd x)"
proof -
  have path: "unat (drop_bit PATH_SHIFT (a_dst (ad_edges ad i) AND PATH_MASK)) = path_of ad i" for i
  proof -
    have p: "PATH_MASK = push_bit 14 (mask 2)" by (simp add: PATH_MASK_def mask_eq_exp_minus_1)
    have "drop_bit 14 (a_dst (ad_edges ad i) AND PATH_MASK) = drop_bit 14 (a_dst (ad_edges ad i))"
      unfolding p by (rule bit_eqI) (auto simp: bit_drop_bit_eq bit_and_iff bit_push_bit_iff bit_mask_iff dest: bit_imp_le_length)
    then show ?thesis by (simp add: path_of_def PATH_SHIFT_def)
  qed
  show ?thesis
    unfolding count_paths_def N_def [symmetric]
  proof (rule for_each_loop [where P = "\<lambda>k (src, dst). \<forall>x < M. unat (src x) = hits k fs x \<and> unat (dst x) = hits k fd x"])
    show "case (src, dst) of (src, dst) \<Rightarrow> \<forall>x < M. unat (src x) = hits 0 fs x \<and> unat (dst x) = hits 0 fd x"
      using z by (simp add: hits_def)
  next
    fix k and c :: "(nat \<Rightarrow> u8) \<times> (nat \<Rightarrow> u8)"
    assume k: "k < N" and "case c of (src, dst) \<Rightarrow> \<forall>x < M. unat (src x) = hits k fs x \<and> unat (dst x) = hits k fd x"
    then obtain s d where c: "c = (s, d)" "\<And>x. x < M \<Longrightarrow> unat (s x) = hits k fs x" "\<And>x. x < M \<Longrightarrow> unat (d x) = hits k fd x"
      by (cases c) auto
    have f: "fs k < M" "fd k < M" "M \<le> 64" using r [OF k] n by (simp_all add: M_def)
    have idx: "unat (fp_rack_from_node_id (a_src (ad_edges ad k))) * 4 + path_of ad k = fs k"
      "unat (fp_rack_from_node_id (a_dst (ad_edges ad k) AND DST_MASK)) * 4 + path_of ad k = fd k"
      by (simp_all add: fs_def fd_def)
    have "hits (Suc k) fs (fs k) < 256" "hits (Suc k) fd (fd k) < 256"
      using small [OF f(1)] small [OF f(2)] hits_mono [of "Suc k" N] k by (meson Suc_leI le_less_trans)+
    then have "\<forall>x < M. unat ((s(fs k := s (fs k) + 1)) x) = hits (Suc k) fs x \<and> unat ((d(fd k := d (fd k) + 1)) x) = hits (Suc k) fd x"
      using count_step [OF c(2) f(1)] count_step [OF c(3) f(2)] by simp
    then show "returns (case c of (src_counts, dst_counts) \<Rightarrow> do {
         let edge = ad_edges ad k;
         let path = unat (drop_bit PATH_SHIFT (a_dst edge AND PATH_MASK));
         let s = unat (fp_rack_from_node_id (a_src edge)) * NUM_PATHS + path;
         let d = unat (fp_rack_from_node_id (a_dst edge AND DST_MASK)) * NUM_PATHS + path;
         bug_on (MAX_RACKS * NUM_PATHS \<le> s);
         bug_on (MAX_RACKS * NUM_PATHS \<le> d);
         Some (src_counts(s := src_counts s + 1), dst_counts(d := dst_counts d + 1)) })
       (\<lambda>(src, dst). \<forall>x < M. unat (src x) = hits (Suc k) fs x \<and> unat (dst x) = hits (Suc k) fd x)"
      using f unfolding c(1) prod.case Let_def path NUM_PATHS_def idx by (simp add: MAX_RACKS_def)
  qed
qed

lemma rack_path_sum_unat: "unat (rack_path_sum c u) = (\<Sum>p < 4. unat (c (u * 4 + p)))"
proof -
  have up: "[0 ..< NUM_PATHS] = [0, 1, 2, 3]" by (simp add: NUM_PATHS_def upt_rec)
  define S where "S = unat (c (u * 4)) + unat (c (u * 4 + 1)) + unat (c (u * 4 + 2)) + unat (c (u * 4 + 3))"
  have "rack_path_sum c u = of_nat S"
    unfolding rack_path_sum_def up S_def by (simp add: NUM_PATHS_def)
  moreover have "S < 2 ^ LENGTH(16)"
    using unat_u8_less [of "c (u * 4)"] unat_u8_less [of "c (u * 4 + 1)"] unat_u8_less [of "c (u * 4 + 2)"]
      unat_u8_less [of "c (u * 4 + 3)"] by (simp add: S_def del: unat_u8_less)
  ultimately have "unat (rack_path_sum c u) = S" by (simp only: unat_of_nat_word)
  also have "\<dots> = (\<Sum>p < 4. unat (c (u * 4 + p)))" by (simp add: S_def eval_nat_numeral)
  finally show ?thesis .
qed

lemma max_rack_degree_le:
  "unat (max_rack_degree s d n) \<le> B \<longleftrightarrow> (\<forall>u < n. unat (rack_path_sum s u) \<le> B \<and> unat (rack_path_sum d u) \<le> B)"
proof (induction n)
  case (Suc n)
  have "unat (if m < x then x else m) \<le> B \<longleftrightarrow> unat m \<le> B \<and> unat x \<le> B" for m x :: u16
    by (auto simp: word_less_nat_alt)
  then show ?case using Suc by (auto simp: max_rack_degree_def Let_def less_Suc_eq)
qed (simp add: max_rack_degree_def)

lemma hits_pairs:
  assumes "\<And>i. g i < 4" "p < 4"
  shows "hits N (\<lambda>i. f i * 4 + g i) (u * 4 + p) = card {i. i < N \<and> f i = u \<and> g i = p}"
proof -
  have "f i * 4 + g i = u * 4 + p \<longleftrightarrow> f i = u \<and> g i = p" for i
  proof -
    have "(f i * 4 + g i) div 4 = f i" "(u * 4 + p) div 4 = u" using assms by simp_all
    then show ?thesis by (metis add_left_cancel)
  qed
  then show ?thesis by (simp add: hits_def)
qed

lemma sum_hits:
  assumes "\<And>i. g i < (4 :: nat)"
  shows "(\<Sum>p < 4. card {i. i < N \<and> f i = u \<and> g i = p}) = card {i. i < (N :: nat) \<and> f i = u}"
proof -
  have "card (\<Union>p < 4. {i. i < N \<and> f i = u \<and> g i = p}) = (\<Sum>p < 4. card {i. i < N \<and> f i = u \<and> g i = p})"
    by (rule card_UN_disjoint) auto
  moreover have "(\<Union>p < 4. {i. i < N \<and> f i = u \<and> g i = p}) = {i. i < N \<and> f i = u}" using assms by auto
  ultimately show ?thesis by simp
qed

lemma count_list_card: "count_list (map f xs) u = card {i. i < length xs \<and> f (xs ! i) = u}"
proof -
  have "count_list (map f xs) u = length (filter (\<lambda>y. u = y) (map f xs))" by (simp add: count_list_eq_length_filter)
  also have "\<dots> = card {i. i < length xs \<and> f (xs ! i) = u}"
    by (subst length_filter_conv_card) (auto intro!: arg_cong [of _ _ card])
  finally show ?thesis .
qed

lemma path_of_less: "path_of ad i < 4"
proof -
  have "unat (a_dst (ad_edges ad i)) < 4 * 16384" using unat_u16_less [of "a_dst (ad_edges ad i)"] by (simp del: unat_u16_less)
  then have "unat (a_dst (ad_edges ad i)) div 16384 < 4" by (simp add: less_mult_imp_div_less)
  then show ?thesis by (simp add: path_of_def PATH_SHIFT_def drop_bit_eq_div unat_div)
qed

lemma unat_round_u16:
  "unat (m :: u16) \<le> 64 \<Longrightarrow>
   unat (if m mod of_nat NUM_PATHS \<noteq> 0 then (m div of_nat NUM_PATHS + 1) * of_nat NUM_PATHS else m) = up4 (unat m)"
  unfolding up4_alt NUM_PATHS_def
  by (simp add: unat_eq_iff unat_mod unat_div unat_word_ariths)

lemma hits_racks:
  assumes "\<And>i. i < N \<Longrightarrow> r i = f i" "p < 4"
  shows "hits N (\<lambda>i. r i * 4 + path_of ad i) (u * 4 + p) = card {i. i < N \<and> f i = u \<and> path_of ad i = p}"
proof -
  have "hits N (\<lambda>i. r i * 4 + path_of ad i) x = hits N (\<lambda>i. f i * 4 + path_of ad i) x" for x
    unfolding hits_def by (rule arg_cong [of _ _ card]) (auto simp: assms)
  then show ?thesis using hits_pairs [of "path_of ad" p N f u] path_of_less assms(2) by simp
qed

lemma load_degree_64: "(\<And>u. u < n \<Longrightarrow> rack_load P u \<le> 64) \<Longrightarrow> load_degree n P div 4 \<le> 16"
  using up4_bounds(3) [of "Max (insert 0 (rack_load P ` {..<n}))"] by (auto simp: load_degree_def)

lemma count_paths_fair:
  assumes f: "fair_paths (unat num_racks) ad0 ad" and nr: "unat num_racks \<le> 16" "in_racks num_racks ad0"
    "\<And>u. u < unat num_racks \<Longrightarrow> rack_load (rack_pairs ad0) u \<le> 64"
  defines "n \<equiv> unat num_racks" and "N \<equiv> unat (ad_size ad0)" and "P \<equiv> rack_pairs ad0"
  shows "\<exists>s d. count_paths ad (\<lambda>i. if i < n * 4 then 0 else src0 i) (\<lambda>i. if i < n * 4 then 0 else dst0 i) = Some (s, d)
    \<and> (\<forall>u < n. \<forall>p < 4. unat (s (u * 4 + p)) = card {i. i < N \<and> fst (P ! i) = u \<and> path_of ad i = p}
         \<and> unat (d (u * 4 + p)) = card {i. i < N \<and> snd (P ! i) = u \<and> path_of ad i = p})"
proof -
  have F: "ad_size ad = ad_size ad0" "\<And>i. i < N \<Longrightarrow> a_src (ad_edges ad i) = a_src (ad_edges ad0 i)"
    "\<And>i. i < N \<Longrightarrow> a_dst (ad_edges ad i) AND DST_MASK = a_dst (ad_edges ad0 i)"
    "\<And>u p. u < n \<Longrightarrow> card {i. i < N \<and> fst (P ! i) = u \<and> path_of ad i = p} \<le> load_degree n P div 4"
    "\<And>u p. u < n \<Longrightarrow> card {i. i < N \<and> snd (P ! i) = u \<and> path_of ad i = p} \<le> load_degree n P div 4"
    using f by (auto simp: fair_paths_def Let_def n_def N_def P_def)
  have D64: "load_degree n P div 4 \<le> 16" using nr(3) by (intro load_degree_64) (simp add: n_def P_def)
  have racks: "unat (fp_rack_from_node_id (a_src (ad_edges ad i))) = fst (P ! i)"
    "unat (fp_rack_from_node_id (a_dst (ad_edges ad i) AND DST_MASK)) = snd (P ! i)" "fst (P ! i) < n" "snd (P ! i) < n"
    if "i < N" for i
    using that F(2,3) [OF that] in_racksD [OF nr(2), of i] by (simp_all add: P_def rack_pairs_def N_def n_def)
  define fs fd where "fs i = unat (fp_rack_from_node_id (a_src (ad_edges ad i))) * 4 + path_of ad i"
    and "fd i = unat (fp_rack_from_node_id (a_dst (ad_edges ad i) AND DST_MASK)) * 4 + path_of ad i" for i
  have hs: "hits N fs (u * 4 + p) = card {i. i < N \<and> fst (P ! i) = u \<and> path_of ad i = p}"
    and hd: "hits N fd (u * 4 + p) = card {i. i < N \<and> snd (P ! i) = u \<and> path_of ad i = p}" if "p < 4" for u p
    using hits_racks [OF racks(1) that] hits_racks [OF racks(2) that] by (simp_all add: fs_def [abs_def] fd_def [abs_def])
  have small: "hits N fs x \<le> 16" "hits N fd x \<le> 16" if "x < n * 4" for x
  proof -
    have "x = x div 4 * 4 + x mod 4" "x mod 4 < 4" "x div 4 < n" using that by (simp_all add: less_mult_imp_div_less)
    then show "hits N fs x \<le> 16" "hits N fd x \<le> 16"
      using hs [of "x mod 4" "x div 4"] hd [of "x mod 4" "x div 4"] F(4,5) [of "x div 4" "x mod 4"] D64 by simp_all
  qed
  have lt: "fs i < n * 4 \<and> fd i < n * 4" if "i < N" for i
    using racks [OF that] path_of_less [of ad i] by (auto simp: fs_def fd_def)
  obtain s d where sd: "count_paths ad (\<lambda>i. if i < n * 4 then 0 else src0 i) (\<lambda>i. if i < n * 4 then 0 else dst0 i) = Some (s, d)"
    "\<And>x. x < n * 4 \<Longrightarrow> unat (s x) = hits N fs x" "\<And>x. x < n * 4 \<Longrightarrow> unat (d x) = hits N fd x"
    using count_paths_ok [of num_racks ad "\<lambda>i. if i < n * 4 then 0 else src0 i" "\<lambda>i. if i < n * 4 then 0 else dst0 i",
        folded fs_def fd_def] nr(1) lt small
    by (fastforce elim!: returnsE simp: n_def N_def F(1))
  have "u * 4 + p < n * 4" if "u < n" "p < 4" for u p using that by simp
  then show ?thesis using sd hs hd by auto
qed

lemma paths_are_valid_ok:
  assumes f: "fair_paths (unat num_racks) ad0 ad" and nr: "unat num_racks \<le> 16" "in_racks num_racks ad0"
    "\<And>u. u < unat num_racks \<Longrightarrow> rack_load (rack_pairs ad0) u \<le> 64"
  shows "paths_are_valid src0 dst0 ad num_racks = Some True"
proof -
  define n N P where "n = unat num_racks" and "N = unat (ad_size ad0)" and "P = rack_pairs ad0"
  have fair: "card {i. i < N \<and> fst (P ! i) = u \<and> path_of ad i = p} \<le> load_degree n P div 4"
    "card {i. i < N \<and> snd (P ! i) = u \<and> path_of ad i = p} \<le> load_degree n P div 4" if "u < n" for u p
    using f that by (simp_all add: fair_paths_def Let_def n_def N_def P_def)
  obtain s d where sd: "count_paths ad (\<lambda>i. if i < n * 4 then 0 else src0 i) (\<lambda>i. if i < n * 4 then 0 else dst0 i) = Some (s, d)"
    "\<And>u p. u < n \<Longrightarrow> p < 4 \<Longrightarrow> unat (s (u * 4 + p)) = card {i. i < N \<and> fst (P ! i) = u \<and> path_of ad i = p}"
    "\<And>u p. u < n \<Longrightarrow> p < 4 \<Longrightarrow> unat (d (u * 4 + p)) = card {i. i < N \<and> snd (P ! i) = u \<and> path_of ad i = p}"
    using count_paths_fair [OF assms, of src0 dst0] by (auto simp: n_def N_def P_def)
  define m where "m = max_rack_degree s d n"
  have sum: "unat (rack_path_sum s u) = count_list (map fst P) u" "unat (rack_path_sum d u) = count_list (map snd P) u" if "u < n" for u
  proof -
    have "unat (rack_path_sum s u) = (\<Sum>p < 4. card {i. i < N \<and> fst (P ! i) = u \<and> path_of ad i = p})"
      "unat (rack_path_sum d u) = (\<Sum>p < 4. card {i. i < N \<and> snd (P ! i) = u \<and> path_of ad i = p})"
      unfolding rack_path_sum_unat using sd(2,3) [OF that] by (auto intro: sum.cong)
    then show "unat (rack_path_sum s u) = count_list (map fst P) u" "unat (rack_path_sum d u) = count_list (map snd P) u"
      unfolding sum_hits [OF path_of_less] count_list_card by (simp_all add: P_def N_def)
  qed
  have m: "unat m \<le> B \<longleftrightarrow> (\<forall>u < n. rack_load P u \<le> B)" for B
    unfolding m_def max_rack_degree_le using sum by (simp add: rack_load_def)
  then have m64: "unat m \<le> 64" using nr(3) by (simp add: n_def P_def)
  define D where "D = (if m mod of_nat NUM_PATHS \<noteq> 0 then (m div of_nat NUM_PATHS + 1) * of_nat NUM_PATHS else m)"
  have D: "unat D = load_degree n P" unfolding D_def unat_round_u16 [OF m64] by (rule load_degree_eqI [OF m])
  have le: "\<not> D div of_nat NUM_PATHS < ucast (c :: u8)" if "unat c \<le> load_degree n P div 4" for c
    using that by (simp add: word_less_nat_alt unat_div D NUM_PATHS_def unat_u8_u16)
  have "all_loop (\<lambda>i. all_loop (\<lambda>j. Some (
           \<not> D div of_nat NUM_PATHS < ucast (s (i * NUM_PATHS + j))
         \<and> \<not> D div of_nat NUM_PATHS < ucast (d (i * NUM_PATHS + j)))) [0 ..< NUM_PATHS]) [0 ..< n] = Some True"
    unfolding all_loop_True using le sd(2,3) fair by (simp add: NUM_PATHS_def)
  moreover have "bug_on (MAX_RACKS * NUM_PATHS < n * NUM_PATHS) = Some ()"
    using nr(1) by (simp add: NUM_PATHS_def MAX_RACKS_def n_def)
  moreover have "count_paths ad (\<lambda>i. if i < n * NUM_PATHS then 0 else src0 i) (\<lambda>i. if i < n * NUM_PATHS then 0 else dst0 i) = Some (s, d)"
    using sd(1) by (simp add: NUM_PATHS_def)
  ultimately show ?thesis
    by (simp only: paths_are_valid_def n_def [symmetric] bind.bind_lunit prod.case Let_def m_def [symmetric] D_def [symmetric])
qed

section \<open>Properties\<close>

text \<open>
  C5. Path selection works. When the racks of the admitted packets are among the given ones and no rack sends or
  receives more than \<open>MAX_DEGREE\<close> packets in the time slot, \<open>select_paths\<close> ends without a failed assertion,
  whatever is in its uninitialised memory. The packets are the ones that were admitted: their sources are
  unchanged, and an end node that reads the destination from an allocation gets the destination that was
  admitted. The check of the code itself, \<open>paths_are_valid\<close>, accepts the result: no rack uses a path for more than its
  share.
\<close>

theorem select_paths_valid:
  assumes "unat num_racks \<le> MAX_RACKS" and "in_racks num_racks ad"
    and "\<forall>u < unat num_racks. rack_load (rack_pairs ad) u \<le> MAX_DEGREE"
  shows "\<exists>ad'. select_paths m0 structure0 edges0 ad num_racks = Some ad'
    \<and> ad_size ad' = ad_size ad
    \<and> (\<forall>i < unat (ad_size ad). a_src (ad_edges ad' i) = a_src (ad_edges ad i)
         \<and> fp_alloc_node (a_dst (ad_edges ad' i)) = a_dst (ad_edges ad i))
    \<and> paths_are_valid src0 dst0 ad' num_racks = Some True"
proof -
  have nr: "unat num_racks \<le> 16" "in_racks num_racks ad" "\<And>u. u < unat num_racks \<Longrightarrow> rack_load (rack_pairs ad) u \<le> 64"
    using assms by (simp_all add: MAX_RACKS_def MAX_DEGREE_def)
  obtain ad' where ad': "select_paths m0 structure0 edges0 ad num_racks = Some ad'" "fair_paths (unat num_racks) ad ad'"
    using select_paths_ok [OF nr, of m0 structure0 edges0] by (auto elim: returnsE)
  show ?thesis
    using ad' paths_are_valid_ok [OF ad'(2) nr] by (auto simp: fair_paths_def Let_def fp_alloc_node_def DST_MASK_def)
qed

text \<open>Packets from the first rack to the second.\<close>

definition ex_traffic :: "u16 \<Rightarrow> admitted_traffic" where
  "ex_traffic k = \<lparr>ad_size = k, ad_partition = 0, ad_edges = \<lambda>i. \<lparr>a_src = of_nat (i mod 256), a_dst = of_nat (256 + i mod 256)\<rparr>\<rparr>"

definition ex_graphs :: "nat \<Rightarrow> graph_edges" where
  "ex_graphs = (\<lambda>_. \<lparr>neighbor_bitmaps = \<lambda>_. 0\<rparr>)"

definition ex_racks :: graph_structure where
  "ex_racks = \<lparr>gs_n = 0, gs_vertices = \<lambda>_. \<lparr>vi_neighbors = \<lambda>_. \<lparr>nb_id = 0, nb_index = 0\<rparr>\<rparr>\<rparr>"

definition ex_mapping :: racks_to_nodes_mapping where
  "ex_mapping = \<lparr>rm_mappings = \<lambda>_. \<lparr>rn_size = 0, rn_admitted_indices = \<lambda>_. 0\<rparr>\<rparr>"

lemma ex_traffic_pairs: "rack_pairs (ex_traffic k) = replicate (unat k) (0, 1)"
proof -
  have s: "unat (fp_rack_from_node_id (of_nat (i mod 256))) = 0" for i
  proof -
    have "unat (of_nat (i mod 256) :: u16) = i mod 256" by (rule unat_of_nat_word) (simp add: less_trans [OF mod_less_divisor, of 256])
    then show ?thesis by (simp add: fp_rack_from_node_id_def TOR_SHIFT_def drop_bit_eq_div unat_div del: of_nat_mod)
  qed
  have d: "unat (fp_rack_from_node_id (of_nat (256 + i mod 256))) = 1" for i
  proof -
    have "256 + i mod 256 < 2 ^ LENGTH(16)" using mod_less_divisor [of 256 i] by simp
    then have "unat (of_nat (256 + i mod 256) :: u16) = 256 + i mod 256" by (rule unat_of_nat_word)
    then show ?thesis by (simp add: fp_rack_from_node_id_def TOR_SHIFT_def drop_bit_eq_div unat_div del: of_nat_mod of_nat_add)
  qed
  show ?thesis
    unfolding rack_pairs_def ex_traffic_def by (simp add: s d map_replicate_const del: of_nat_mod of_nat_add)
qed

lemma ex_traffic_in_racks: "in_racks 2 (ex_traffic k)"
  by (auto simp: in_racks_def ex_traffic_pairs)

lemma ex_traffic_load: "u < 2 \<Longrightarrow> rack_load (rack_pairs (ex_traffic k)) u = unat k"
  by (auto simp: rack_load_def ex_traffic_pairs less_2_cases_iff count_list_0_iff count_list_eq_length_filter)

theorem select_paths_valid_witness:
  "\<exists>ad'. select_paths ex_mapping ex_racks ex_graphs (ex_traffic 5) 2 = Some ad'
    \<and> paths_are_valid (\<lambda>_. 0) (\<lambda>_. 0) ad' 2 = Some True"
  using select_paths_valid [of 2 "ex_traffic 5" ex_mapping ex_racks ex_graphs "\<lambda>_. 0" "\<lambda>_. 0"]
    ex_traffic_in_racks [of 5] ex_traffic_load [of _ 5]
  by (auto simp: MAX_RACKS_def MAX_DEGREE_def)

text \<open>
  C35. The limit of path selection. It fails exactly when some rack sends or receives more than \<open>MAX_DEGREE\<close>, that is
  64, packets in the time slot, while the constants of the topology allow for \<open>MAX_NODES_PER_RACK\<close>, that is 256, nodes
  in a rack, each of which may send in every time slot.
\<close>

theorem select_paths_limit:
  assumes "unat num_racks \<le> MAX_RACKS" and "in_racks num_racks ad"
  shows "select_paths m0 structure0 edges0 ad num_racks = None
    \<longleftrightarrow> (\<exists>u < unat num_racks. MAX_DEGREE < rack_load (rack_pairs ad) u)"
proof -
  have nr: "unat num_racks \<le> 16" using assms(1) by (simp add: MAX_RACKS_def)
  show ?thesis
  proof (cases "\<exists>u < unat num_racks. 64 < rack_load (rack_pairs ad) u")
    case True
    then obtain u where u: "u < unat num_racks" "64 < rack_load (rack_pairs ad) u" by blast
    obtain g where g: "for_each (\<lambda>i edges. do { e \<leftarrow> graph_edges_init (edges i) num_racks; Some (edges(i := e)) }) [0 ..< NUM_GRAPHS] edges0
        = Some g" "ends (unat num_racks) (g 0) = {}"
      using init_graphs [of num_racks NUM_GRAPHS edges0] nr by (auto elim!: returnsE simp: NUM_GRAPHS_def)
    have "construct_graph ad (structure0\<lparr>gs_n := num_racks\<rparr>) (g 0) = None"
      by (rule construct_graph_none [OF nr _ g(2) assms(2) u]) simp
    then have "select_paths m0 structure0 edges0 ad num_racks = None"
      by (simp add: select_paths_def graph_structure_init_def g(1) split: bind_splits)
    then show ?thesis using True by (auto simp: MAX_DEGREE_def)
  next
    case False
    then have "\<And>u. u < unat num_racks \<Longrightarrow> rack_load (rack_pairs ad) u \<le> 64" by (metis not_le)
    from select_paths_ok [OF nr assms(2) this, of m0 structure0 edges0]
    show ?thesis using False by (auto simp: MAX_DEGREE_def elim: returnsE)
  qed
qed

theorem select_paths_limit_witness: "select_paths ex_mapping ex_racks ex_graphs (ex_traffic 65) 2 = None"
proof -
  have "\<exists>u < unat (2 :: u8). MAX_DEGREE < rack_load (rack_pairs (ex_traffic 65)) u"
    using ex_traffic_load [of 0 65] by (intro exI [of _ 0]) (simp add: MAX_DEGREE_def)
  then show ?thesis using select_paths_limit [of 2 "ex_traffic 65" ex_mapping ex_racks ex_graphs] ex_traffic_in_racks [of 65]
    by (simp add: MAX_RACKS_def)
qed

end
