(* ===== verification/Bigmap.thy ===== *)
theory Bigmap
  imports Topology
begin

text \<open>
  The two level bit map of \<^verbatim>\<open>src/src/arbiter/bigmap.h\<close>: one bit per node in words of 64 bits, and a summary
  word that tells which of them are not zero. It implements a set of nodes with its least element.
\<close>

section \<open>Operations\<close>

definition BIGMAP_MAX_LEN :: nat where "BIGMAP_MAX_LEN = MAX_NODES"

record bigmap =
  bm_mask :: "u64 list"
  bm_summary :: u64

definition bigmap_init :: "bigmap \<Rightarrow> bigmap" where
  "bigmap_init m = m\<lparr>bm_summary := 0, bm_mask := replicate ((BIGMAP_MAX_LEN + 63) div 64) 0\<rparr>"

definition bigmap_set :: "bigmap \<Rightarrow> u32 \<Rightarrow> bigmap" where
  "bigmap_set m index =
     (let word = unat (drop_bit 6 index)
      in m\<lparr>bm_mask := (bm_mask m)[word := bm_mask m ! word OR push_bit (unat (index AND 0x3F)) 1],
           bm_summary := bm_summary m OR push_bit word 1\<rparr>)"

definition bigmap_clear :: "bigmap \<Rightarrow> u32 \<Rightarrow> bigmap" where
  "bigmap_clear m index =
     (let word = unat (drop_bit 6 index);
          m = m\<lparr>bm_mask := (bm_mask m)[word := bm_mask m ! word AND NOT (push_bit (unat (index AND 0x3F)) 1)]\<rparr>
      in if bm_mask m ! word = 0 then m\<lparr>bm_summary := bm_summary m AND NOT (push_bit word 1)\<rparr> else m)"

definition bigmap_empty :: "bigmap \<Rightarrow> bool" where
  "bigmap_empty m \<longleftrightarrow> bm_summary m = 0"

definition bigmap_is_set :: "bigmap \<Rightarrow> u32 \<Rightarrow> bool" where
  "bigmap_is_set m index \<longleftrightarrow> bm_mask m ! unat (drop_bit 6 index) AND push_bit (unat (index AND 0x3F)) 1 \<noteq> 0"

definition bigmap_find :: "bigmap \<Rightarrow> u32" where
  "bigmap_find m =
     (let word = of_nat (ffs (bm_summary m)) :: u32;
          offset = of_nat (ffs (bm_mask m ! unat word))
      in push_bit 6 word + offset)"

section \<open>The set it stands for\<close>

definition bm_inv :: "bigmap \<Rightarrow> bool" where
  "bm_inv m \<longleftrightarrow> length (bm_mask m) = 4 \<and> (\<forall>w. bit (bm_summary m) w \<longleftrightarrow> w < 4 \<and> bm_mask m ! w \<noteq> 0)"

definition bm_nodes :: "bigmap \<Rightarrow> nat set" where
  "bm_nodes m = {i. i < 256 \<and> bit (bm_mask m ! (i div 64)) (i mod 64)}"

lemma bigmap_index:
  "unat (drop_bit 6 (i :: u32)) = unat i div 64" "unat (i AND 0x3F) = unat i mod 64"
proof -
  show "unat (drop_bit 6 i) = unat i div 64" by (simp add: drop_bit_eq_div unat_div)
  have "i AND 0x3F = take_bit 6 i" by (simp add: take_bit_eq_mask mask_eq_exp_minus_1)
  then have "unat (i AND 0x3F) = take_bit 6 (unat i)" by (simp only: unsigned_take_bit_eq)
  then show "unat (i AND 0x3F) = unat i mod 64" by (simp add: take_bit_eq_mod)
qed

lemma bit_one_at: "k < 64 \<Longrightarrow> bit (2 ^ k :: u64) n \<longleftrightarrow> n = k"
  by (auto simp: bit_exp_iff)

lemma div_mod_64: "(i :: nat) div 64 = j div 64 \<Longrightarrow> i mod 64 = j mod 64 \<Longrightarrow> i = j"
  by (metis div_mult_mod_eq)

lemma two_level_le: "(w :: nat) \<le> q \<Longrightarrow> (w = q \<Longrightarrow> k \<le> r) \<Longrightarrow> k < 64 \<Longrightarrow> w * 64 + k \<le> q * 64 + r"
  by (cases "w = q") auto

lemma bigmap_init_ok: "bm_inv (bigmap_init m)" "bm_nodes (bigmap_init m) = {}"
  by (auto simp: bm_inv_def bm_nodes_def bigmap_init_def BIGMAP_MAX_LEN_def MAX_NODES_def nth_append)

lemma bigmap_set_ok:
  assumes inv: "bm_inv m" and i: "unat i < 256"
  shows "bm_inv (bigmap_set m i)" "bm_nodes (bigmap_set m i) = insert (unat i) (bm_nodes m)"
proof -
  let ?w = "unat i div 64"
  let ?k = "unat i mod 64"
  have w: "?w < 4" "?k < 64" using i by (simp_all add: less_mult_imp_div_less)
  have m: "bm_mask (bigmap_set m i) = (bm_mask m)[?w := bm_mask m ! ?w OR 2 ^ ?k]"
    "bm_summary (bigmap_set m i) = bm_summary m OR 2 ^ ?w"
    by (simp_all add: bigmap_set_def bigmap_index Let_def)
  have "bm_mask m ! ?w OR 2 ^ ?k \<noteq> 0" using bit_one_at [OF w(2), of ?k] by (metis bit_or_iff bit_0_eq bot_apply bot_bool_def)
  then show "bm_inv (bigmap_set m i)"
    using inv w bit_one_at [of ?w] by (auto simp: bm_inv_def m bit_or_iff nth_list_update)
  have "bit (bm_mask (bigmap_set m i) ! (j div 64)) (j mod 64) \<longleftrightarrow> j = unat i \<or> bit (bm_mask m ! (j div 64)) (j mod 64)"
    if j: "j < 256" for j
  proof (cases "j div 64 = ?w")
    case True
    then have "j = unat i \<longleftrightarrow> j mod 64 = ?k" using div_mod_64 by blast
    with True inv w show ?thesis by (simp add: m bm_inv_def bit_or_iff disj_commute bit_one_at)
  next
    case False
    then have "j \<noteq> unat i" by blast
    with False show ?thesis by (simp add: m nth_list_update)
  qed
  then show "bm_nodes (bigmap_set m i) = insert (unat i) (bm_nodes m)" using i by (auto simp: bm_nodes_def)
qed

lemma bigmap_clear_ok:
  assumes inv: "bm_inv m" and i: "unat i < 256"
  shows "bm_inv (bigmap_clear m i)" "bm_nodes (bigmap_clear m i) = bm_nodes m - {unat i}"
proof -
  let ?w = "unat i div 64"
  let ?k = "unat i mod 64"
  let ?x = "bm_mask m ! ?w AND NOT (2 ^ ?k)"
  have w: "?w < 4" "?k < 64" using i by (simp_all add: less_mult_imp_div_less)
  have m: "bm_mask (bigmap_clear m i) = (bm_mask m)[?w := ?x]"
    "bm_summary (bigmap_clear m i) = (if ?x = 0 then bm_summary m AND NOT (2 ^ ?w) else bm_summary m)"
    using inv w by (simp_all add: bigmap_clear_def bigmap_index Let_def bm_inv_def)
  have nz: "?x \<noteq> 0 \<Longrightarrow> bm_mask m ! ?w \<noteq> 0" by auto
  show "bm_inv (bigmap_clear m i)"
    using inv w nz bit_one_at [of ?w] by (auto simp: bm_inv_def m bit_and_iff bit_not_iff nth_list_update)
  have "bit (bm_mask (bigmap_clear m i) ! (j div 64)) (j mod 64) \<longleftrightarrow> j \<noteq> unat i \<and> bit (bm_mask m ! (j div 64)) (j mod 64)"
    if j: "j < 256" for j
  proof (cases "j div 64 = ?w")
    case True
    then have "j = unat i \<longleftrightarrow> j mod 64 = ?k" using div_mod_64 by blast
    with True inv w show ?thesis by (simp add: m bm_inv_def bit_and_iff bit_not_iff conj_commute bit_one_at)
  next
    case False
    then have "j \<noteq> unat i" by blast
    with False show ?thesis by (simp add: m nth_list_update)
  qed
  then show "bm_nodes (bigmap_clear m i) = bm_nodes m - {unat i}" by (auto simp: bm_nodes_def)
qed

lemma bigmap_is_set_ok:
  assumes "unat i < 256"
  shows "bigmap_is_set m i \<longleftrightarrow> unat i \<in> bm_nodes m"
proof -
  have "bit (bm_mask m ! (unat i div 64) AND 2 ^ (unat i mod 64)) n
      \<longleftrightarrow> n = unat i mod 64 \<and> bit (bm_mask m ! (unat i div 64)) (unat i mod 64)" for n
    using bit_one_at [of "unat i mod 64" n] by (auto simp: bit_and_iff)
  then have "bm_mask m ! (unat i div 64) AND 2 ^ (unat i mod 64) \<noteq> 0
      \<longleftrightarrow> bit (bm_mask m ! (unat i div 64)) (unat i mod 64)"
    by (metis bit_0_eq bit_eqI bot_apply bot_bool_def)
  then show ?thesis using assms by (simp only: bigmap_is_set_def bigmap_index bm_nodes_def mem_Collect_eq simp_thms push_bit_of_1)
qed

lemma bigmap_find_ok:
  assumes inv: "bm_inv m" and ne: "\<not> bigmap_empty m"
  shows "unat (bigmap_find m) \<in> bm_nodes m" "\<forall>j \<in> bm_nodes m. unat (bigmap_find m) \<le> j"
proof -
  define w where "w = ffs (bm_summary m)"
  define k where "k = ffs (bm_mask m ! w)"
  have s: "bit (bm_summary m) w" using ne unfolding w_def bigmap_empty_def by (rule bit_ffs)
  then have w: "w < 4" "bm_mask m ! w \<noteq> 0" using inv by (auto simp: bm_inv_def)
  have k: "bit (bm_mask m ! w) k" "k < 64" unfolding k_def using bit_ffs [OF w(2)] ffs_less [OF w(2)] by auto
  have "unat (of_nat w :: u32) = w" using w(1) by (intro unat_of_nat_word) simp
  moreover have "push_bit 6 (of_nat w :: u32) + of_nat k = of_nat (w * 64 + k)" by (simp add: push_bit_eq_mult)
  ultimately have f: "bigmap_find m = of_nat (w * 64 + k)" by (simp add: bigmap_find_def w_def [symmetric] k_def [symmetric] Let_def)
  have wk: "unat (bigmap_find m) = w * 64 + k" unfolding f using w(1) k(2) by (intro unat_of_nat_word) simp
  show "unat (bigmap_find m) \<in> bm_nodes m" using w k by (simp add: wk bm_nodes_def)
  show "\<forall>j \<in> bm_nodes m. unat (bigmap_find m) \<le> j"
  proof
    fix j assume j: "j \<in> bm_nodes m"
    then have b: "bit (bm_mask m ! (j div 64)) (j mod 64)" "j div 64 < 4" by (auto simp: bm_nodes_def)
    then have "bm_mask m ! (j div 64) \<noteq> 0" by (metis bit_0_eq bot_apply bot_bool_def)
    with b(2) have "bit (bm_summary m) (j div 64)" using inv unfolding bm_inv_def by blast
    then have "w \<le> j div 64" unfolding w_def using ne by (intro ffs_le) (simp_all add: bigmap_empty_def)
    moreover have "k \<le> j mod 64" if "w = j div 64" unfolding k_def using b w(2) that by (intro ffs_le) simp_all
    ultimately have "w * 64 + k \<le> (j div 64) * 64 + j mod 64" using k(2) by (rule two_level_le)
    then show "unat (bigmap_find m) \<le> j" unfolding wk by (simp only: div_mult_mod_eq)
  qed
qed

end
