(* ===== verification/Timer_Wheel.thy ===== *)
theory Timer_Wheel
  imports Platform
begin

text \<open>
  The timer wheel of \<^verbatim>\<open>src/src/arbiter/fp_timer.h\<close>. Time is cut into granules of 16384 cycles; a
  timer waits in the list of slot \<open>granule mod 1024\<close>, and one that is already due in the slot of the
  current granule.

  A timer is known by its number; \<open>ft_time\<close> is the field \<open>time\<close> of each of them. A node of an
  intrusive list is in at most one list, so \<open>list_del\<close> takes it out of whichever slot holds it.
\<close>

section \<open>Operations\<close>

definition MAX_TIMER_SLOTS :: u64 where "MAX_TIMER_SLOTS = 1024"
definition TIMER_GRANULARITY :: u64 where "TIMER_GRANULARITY = 16 * 1024"
definition TIMER_NOT_SET_TIME :: u64 where "TIMER_NOT_SET_TIME = NOT 0"

type_synonym timer_id = nat

record fp_timers =
  ft_head :: u64
  ft_slots :: "nat \<Rightarrow> timer_id list"
  ft_time :: "timer_id \<Rightarrow> u64"

definition fp_init_timers :: "fp_timers \<Rightarrow> u64 \<Rightarrow> fp_timers" where
  "fp_init_timers tm now = tm\<lparr>ft_slots := (\<lambda>_. []), ft_head := now div TIMER_GRANULARITY\<rparr>"

definition fp_init_timer :: "timer_id \<Rightarrow> fp_timers \<Rightarrow> fp_timers" where
  "fp_init_timer i tm = tm\<lparr>ft_time := (ft_time tm)(i := TIMER_NOT_SET_TIME)\<rparr>"

definition list_del :: "timer_id \<Rightarrow> fp_timers \<Rightarrow> fp_timers" where
  "list_del i tm = tm\<lparr>ft_slots := (\<lambda>s. removeAll i (ft_slots tm s))\<rparr>"

definition list_add_tail :: "nat \<Rightarrow> timer_id \<Rightarrow> fp_timers \<Rightarrow> fp_timers" where
  "list_add_tail slot i tm = tm\<lparr>ft_slots := (ft_slots tm)(slot := ft_slots tm slot @ [i])\<rparr>"

definition fp_timer_reset :: "fp_timers \<Rightarrow> timer_id \<Rightarrow> u64 \<Rightarrow> fp_timers" where
  "fp_timer_reset tm i when =
     (let when = when div TIMER_GRANULARITY;
          slot = (if when \<le> ft_head tm then ft_head tm mod MAX_TIMER_SLOTS else when mod MAX_TIMER_SLOTS);
          tm = (if ft_time tm i \<noteq> TIMER_NOT_SET_TIME then list_del i tm else tm);
          tm = tm\<lparr>ft_time := (ft_time tm)(i := when)\<rparr>
      in list_add_tail (unat slot) i tm)"

definition fp_timer_stop :: "timer_id \<Rightarrow> fp_timers \<Rightarrow> fp_timers" where
  "fp_timer_stop i tm =
     (if ft_time tm i = TIMER_NOT_SET_TIME then tm
      else list_del i (tm\<lparr>ft_time := (ft_time tm)(i := TIMER_NOT_SET_TIME)\<rparr>))"

text \<open>The body of the loop over one slot, and one round of the outer loop.\<close>

definition expire_timer :: "u64 \<Rightarrow> nat \<Rightarrow> fp_timers \<times> timer_id list \<Rightarrow> timer_id \<Rightarrow> fp_timers \<times> timer_id list" where
  "expire_timer now slot = (\<lambda>(tm, l) i.
     if ft_time tm i \<le> now
     then (tm\<lparr>ft_slots := (ft_slots tm)(slot := removeAll i (ft_slots tm slot)),
              ft_time := (ft_time tm)(i := TIMER_NOT_SET_TIME)\<rparr>, l @ [i])
     else (tm, l))"

definition expire_slot :: "u64 \<Rightarrow> fp_timers \<times> timer_id list \<Rightarrow> fp_timers \<times> timer_id list" where
  "expire_slot now = (\<lambda>(tm, l).
     (let slot = unat (ft_head tm mod MAX_TIMER_SLOTS);
          (tm, l) = foldl (expire_timer now slot) (tm, l) (ft_slots tm slot)
      in (tm\<lparr>ft_head := ft_head tm + 1\<rparr>, l)))"

partial_function (option) expire_loop :: "u64 \<Rightarrow> fp_timers \<times> timer_id list \<Rightarrow> (fp_timers \<times> timer_id list) option" where
  "expire_loop now x =
     (if 0 \<le> sint now - sint (ft_head (fst x)) then expire_loop now (expire_slot now x) else Some x)"

definition fp_timer_get_expired :: "fp_timers \<Rightarrow> u64 \<Rightarrow> timer_id list \<Rightarrow> (fp_timers \<times> timer_id list) option" where
  "fp_timer_get_expired tm now l = do {
     let now = now div TIMER_GRANULARITY;
     bug_on (\<not> now - ft_head tm < 100 * MAX_TIMER_SLOTS);
     (tm, l) \<leftarrow> expire_loop now (tm, l);
     Some (tm\<lparr>ft_head := now\<rparr>, l)
   }"

section \<open>Invariant\<close>

text \<open>
  A granule is below \<open>2 ^ 50\<close>, so it is never the mark of an idle timer. \<open>armed tm\<close> maps the armed
  timers to their granule: the contents of the wheel without its slots.
\<close>

definition granule :: "u64 \<Rightarrow> nat" where
  "granule t = unat t div 16384"

definition armed :: "fp_timers \<Rightarrow> timer_id \<rightharpoonup> nat" where
  "armed tm i = (if ft_time tm i = TIMER_NOT_SET_TIME then None else Some (unat (ft_time tm i)))"

definition tw_inv :: "fp_timers \<Rightarrow> bool" where
  "tw_inv tm \<longleftrightarrow> unat (ft_head tm) \<le> 2 ^ 50 \<and> (\<forall>s. distinct (ft_slots tm s))
     \<and> (\<forall>i g. armed tm i = Some g \<longrightarrow> g < 2 ^ 50)
     \<and> (\<forall>s i. i \<in> set (ft_slots tm s) \<longleftrightarrow>
          (\<exists>g. armed tm i = Some g \<and> s = max (unat (ft_head tm)) g mod 1024))"

lemma unat_granule: "unat (t div TIMER_GRANULARITY) = granule t"
  by (simp add: granule_def TIMER_GRANULARITY_def unat_div)

lemma granule_less: "granule t < 2 ^ 50"
proof -
  have "unat t < 18446744073709551616" by (rule unat_u64_less)
  then show ?thesis by (simp add: granule_def div_less_iff_less_mult del: unat_u64_less)
qed

lemma granule_set: "t div TIMER_GRANULARITY \<noteq> TIMER_NOT_SET_TIME"
  using granule_less [of t] by (auto simp: TIMER_NOT_SET_TIME_def unat_granule [symmetric])

lemma unat_slot: "unat (x mod MAX_TIMER_SLOTS) = unat x mod 1024"
  by (simp add: MAX_TIMER_SLOTS_def unat_mod)

lemma armed_upd:
  "armed (tm\<lparr>ft_time := (ft_time tm)(i := t)\<rparr>) = (armed tm)(i := if t = TIMER_NOT_SET_TIME then None else Some (unat t))"
  by (auto simp: armed_def fun_eq_iff)

lemma armed_frame [frame_simps]:
  "armed (tm\<lparr>ft_slots := s\<rparr>) = armed tm" "armed (tm\<lparr>ft_head := h\<rparr>) = armed tm"
  "armed (list_del i tm) = armed tm" "armed (list_add_tail k i tm) = armed tm"
  by (auto simp: armed_def fun_eq_iff list_del_def list_add_tail_def)

lemma fp_init_timers_ok:
  assumes "\<And>i. armed tm i = None"
  shows "tw_inv (fp_init_timers tm now)" "armed (fp_init_timers tm now) = Map.empty"
    "unat (ft_head (fp_init_timers tm now)) = granule now"
  using assms granule_less [of now]
  by (auto simp: fp_init_timers_def tw_inv_def frame_simps unat_granule)

lemma fp_timer_reset_ok:
  assumes inv: "tw_inv tm"
  shows "tw_inv (fp_timer_reset tm i when)" "armed (fp_timer_reset tm i when) = (armed tm)(i \<mapsto> granule when)"
    "ft_head (fp_timer_reset tm i when) = ft_head tm"
proof -
  let ?tm = "fp_timer_reset tm i when"
  define tm1 where "tm1 = (if ft_time tm i \<noteq> TIMER_NOT_SET_TIME then list_del i tm else tm)"
  have mem: "i \<in> set (ft_slots tm s) \<Longrightarrow> ft_time tm i \<noteq> TIMER_NOT_SET_TIME" for s
    using inv by (auto simp: tw_inv_def armed_def)
  have s1: "set (ft_slots tm1 s) = set (ft_slots tm s) - {i}" "distinct (ft_slots tm1 s)" for s
    using mem [of s] inv by (auto simp: tm1_def list_del_def tw_inv_def distinct_removeAll)
  have f1: "ft_head tm1 = ft_head tm" "ft_time tm1 = ft_time tm" by (simp_all add: tm1_def list_del_def)
  have slot: "unat (if when div TIMER_GRANULARITY \<le> ft_head tm then ft_head tm mod MAX_TIMER_SLOTS
      else when div TIMER_GRANULARITY mod MAX_TIMER_SLOTS) = max (unat (ft_head tm)) (granule when) mod 1024"
    by (auto simp: unat_slot unat_granule word_le_nat_alt max_def)
  have eq: "?tm = list_add_tail (max (unat (ft_head tm)) (granule when) mod 1024) i
      (tm1\<lparr>ft_time := (ft_time tm)(i := when div TIMER_GRANULARITY)\<rparr>)"
    unfolding fp_timer_reset_def Let_def slot tm1_def [symmetric] f1 ..
  have a1: "armed tm1 = armed tm" by (simp add: armed_def fun_eq_iff f1)
  show ar: "armed ?tm = (armed tm)(i \<mapsto> granule when)"
    using armed_upd [of tm1 i "when div TIMER_GRANULARITY"] granule_set [of "when"]
    by (simp add: eq frame_simps a1 f1 unat_granule)
  show hd: "ft_head ?tm = ft_head tm" by (simp add: eq list_add_tail_def f1)
  have sl: "ft_slots ?tm = (ft_slots tm1)(max (unat (ft_head tm)) (granule when) mod 1024 :=
      ft_slots tm1 (max (unat (ft_head tm)) (granule when) mod 1024) @ [i])"
    by (simp add: eq list_add_tail_def)
  show "tw_inv ?tm"
    unfolding tw_inv_def ar hd sl
    using inv s1 granule_less [of "when"] by (auto simp: tw_inv_def split: if_splits)
qed

lemma fp_timer_stop_ok:
  assumes inv: "tw_inv tm"
  shows "tw_inv (fp_timer_stop i tm)" "armed (fp_timer_stop i tm) = (armed tm)(i := None)"
    "ft_head (fp_timer_stop i tm) = ft_head tm"
proof -
  show a: "armed (fp_timer_stop i tm) = (armed tm)(i := None)"
    by (auto simp: fp_timer_stop_def list_del_def armed_def fun_eq_iff)
  show h: "ft_head (fp_timer_stop i tm) = ft_head tm" by (simp add: fp_timer_stop_def list_del_def)
  have s: "set (ft_slots (fp_timer_stop i tm) s) = set (ft_slots tm s) - {i}" "distinct (ft_slots (fp_timer_stop i tm) s)" for s
    using inv by (auto simp: fp_timer_stop_def list_del_def tw_inv_def armed_def distinct_removeAll)
  show "tw_inv (fp_timer_stop i tm)"
    unfolding tw_inv_def a h using inv s by (auto simp: tw_inv_def)
qed

section \<open>Expiry\<close>

text \<open>A timer that is due at granule \<open>n\<close>.\<close>

definition due :: "fp_timers \<Rightarrow> u64 \<Rightarrow> timer_id \<Rightarrow> bool" where
  "due tm now i \<longleftrightarrow> ft_time tm i \<le> now"

lemma foldl_expire_timer:
  assumes "distinct is"
  shows "foldl (expire_timer now slot) (tm, l) is =
    (tm\<lparr>ft_slots := (ft_slots tm)(slot := filter (\<lambda>i. \<not> (i \<in> set is \<and> due tm now i)) (ft_slots tm slot)),
        ft_time := (\<lambda>i. if i \<in> set is \<and> due tm now i then TIMER_NOT_SET_TIME else ft_time tm i)\<rparr>,
     l @ filter (due tm now) is)"
  using assms
proof (induction "is" arbitrary: tm l)
  case Nil
  then show ?case by simp
next
  case (Cons i "is")
  show ?case
  proof (cases "due tm now i")
    case True
    let ?tm = "tm\<lparr>ft_slots := (ft_slots tm)(slot := removeAll i (ft_slots tm slot)),
              ft_time := (ft_time tm)(i := TIMER_NOT_SET_TIME)\<rparr>"
    have d: "due ?tm now j = due tm now j" if "j \<in> set is" for j
      using Cons.prems that by (auto simp: due_def)
    have l: "filter (due ?tm now) is = filter (due tm now) is" using d by (rule filter_cong [OF refl])
    have s: "filter (\<lambda>j. \<not> (j \<in> set is \<and> due ?tm now j)) (removeAll i (ft_slots tm slot)) =
        filter (\<lambda>j. \<not> (j \<in> set (i # is) \<and> due tm now j)) (ft_slots tm slot)"
      using d True by (auto simp: removeAll_filter_not_eq intro!: filter_cong)
    have r: "(ft_slots ?tm)(slot := xs) = (ft_slots tm)(slot := xs)" "ft_slots ?tm slot = removeAll i (ft_slots tm slot)" for xs
      by simp_all
    have t: "(\<lambda>j. if j \<in> set is \<and> due ?tm now j then TIMER_NOT_SET_TIME else ft_time ?tm j) =
        (\<lambda>j. if j \<in> set (i # is) \<and> due tm now j then TIMER_NOT_SET_TIME else ft_time tm j)"
      using d True by (auto simp: fun_eq_iff)
    have "foldl (expire_timer now slot) (tm, l) (i # is) = foldl (expire_timer now slot) (?tm, l @ [i]) is"
      using True by (simp add: expire_timer_def due_def)
    also have "\<dots> = (?tm\<lparr>ft_slots := (ft_slots ?tm)(slot := filter (\<lambda>j. \<not> (j \<in> set is \<and> due ?tm now j)) (ft_slots ?tm slot)),
        ft_time := (\<lambda>j. if j \<in> set is \<and> due ?tm now j then TIMER_NOT_SET_TIME else ft_time ?tm j)\<rparr>,
        (l @ [i]) @ filter (due ?tm now) is)"
      by (rule Cons.IH) (use Cons.prems in simp)
    finally show ?thesis unfolding l t r s using True by (simp del: fun_upd_apply)
  next
    case False
    then have "(\<lambda>j. j \<in> set (i # is) \<and> due tm now j) = (\<lambda>j. j \<in> set is \<and> due tm now j)" by auto
    then have "(j \<in> set (i # is) \<and> due tm now j) = (j \<in> set is \<and> due tm now j)" for j by (rule fun_cong)
    moreover have "foldl (expire_timer now slot) (tm, l) (i # is) = foldl (expire_timer now slot) (tm, l) is"
      using False by (simp add: expire_timer_def due_def)
    ultimately show ?thesis using False Cons.IH [of tm l] Cons.prems by simp
  qed
qed

text \<open>
  One round: the timers of the slot that are due leave it, and no timer is left whose granule is not
  after the slot that was served.
\<close>

lemma expire_slot_ok:
  assumes inv: "tw_inv tm" and h: "ft_head tm \<le> now" and now: "unat now < 2 ^ 50"
  defines "es \<equiv> filter (due tm now) (ft_slots tm (unat (ft_head tm) mod 1024))"
  shows "\<exists>tm'. expire_slot now (tm, l) = (tm', l @ es) \<and> tw_inv tm'
    \<and> unat (ft_head tm') = Suc (unat (ft_head tm)) \<and> armed tm' = armed tm |` (- set es)
    \<and> (\<forall>i g. armed tm' i = Some g \<longrightarrow> unat (ft_head tm) < g)"
proof -
  let ?h = "unat (ft_head tm)"
  let ?s = "?h mod 1024"
  let ?is = "ft_slots tm ?s"
  define tm' where "tm' = tm\<lparr>ft_slots := (ft_slots tm)(?s := filter (\<lambda>i. \<not> (i \<in> set ?is \<and> due tm now i)) ?is),
        ft_time := (\<lambda>i. if i \<in> set ?is \<and> due tm now i then TIMER_NOT_SET_TIME else ft_time tm i),
        ft_head := ft_head tm + 1\<rparr>"
  have run: "expire_slot now (tm, l) = (tm', l @ es)"
    using inv foldl_expire_timer [of ?is now ?s tm l]
    by (simp add: expire_slot_def unat_slot tw_inv_def es_def Let_def tm'_def)
  have hn: "?h \<le> unat now" using h by (simp add: word_le_nat_alt)
  then have h1: "unat (ft_head tm') = Suc ?h" using now by (simp add: tm'_def unat_word_ariths)
  have es: "set es = {i. i \<in> set ?is \<and> due tm now i}" by (auto simp: es_def)
  have ar: "armed tm' = armed tm |` (- set es)" by (auto simp: armed_def es restrict_map_def fun_eq_iff tm'_def)
  have mem: "i \<in> set (ft_slots tm s) \<longleftrightarrow> (\<exists>g. armed tm i = Some g \<and> s = max ?h g mod 1024)" for s i
    using inv by (auto simp: tw_inv_def)
  have due: "due tm now i \<longleftrightarrow> g \<le> unat now" if "armed tm i = Some g" for i g
    using that by (auto simp: armed_def due_def word_le_nat_alt split: if_splits)
  have late: "?h < g" if g: "armed tm' i = Some g" for i g
  proof (rule ccontr)
    assume n: "\<not> ?h < g"
    from g have a: "armed tm i = Some g" "i \<notin> set es" by (auto simp: ar restrict_map_def split: if_splits)
    then have "i \<in> set ?is" using n mem [of i ?s] by (auto simp: max_def intro!: exI [of _ g])
    with a n hn due [OF a(1)] show False by (simp add: es)
  qed
  have mem': "i \<in> set (ft_slots tm' s) \<longleftrightarrow> i \<in> set (ft_slots tm s) \<and> i \<notin> set es" for s i
  proof (cases "s = ?s")
    case True
    then show ?thesis by (auto simp: es tm'_def)
  next
    case False
    then have "i \<in> set (ft_slots tm s) \<Longrightarrow> i \<notin> set ?is" using mem [of i s] mem [of i ?s] by auto
    with False show ?thesis by (auto simp: es tm'_def)
  qed
  have "i \<in> set (ft_slots tm' s) \<longleftrightarrow> (\<exists>g. armed tm' i = Some g \<and> s = max (Suc ?h) g mod 1024)" for s i
  proof (cases "armed tm' i")
    case None
    then show ?thesis unfolding mem' mem by (auto simp: ar restrict_map_def split: if_splits)
  next
    case (Some g)
    then show ?thesis unfolding mem' mem using late [OF Some] by (auto simp: ar restrict_map_def max_def split: if_splits)
  qed
  moreover have "distinct (ft_slots tm' s)" for s using inv by (auto simp: tw_inv_def tm'_def)
  moreover have "g < 2 ^ 50" if "armed tm' i = Some g" for i g
    using that inv by (auto simp: tw_inv_def ar restrict_map_def split: if_splits)
  ultimately have "tw_inv tm'" using hn now h1 by (auto simp: tw_inv_def)
  then show ?thesis using run h1 ar late by auto
qed

lemma sint_small:
  assumes "unat (x :: u64) < 2 ^ 63"
  shows "sint x = int (unat x)"
proof -
  have "uint x < 2 ^ 63" using assms unfolding uint_nat by (metis of_nat_less_numeral_power_cancel_iff)
  moreover have "- (2 ^ 63) \<le> uint x" by (rule order_trans [OF _ uint_ge_0]) simp
  ultimately show ?thesis by (simp add: sint_uint signed_take_bit_int_eq_self)
qed

text \<open>
  The list of expired timers: exactly those that are due, each once; within one turn of the wheel they
  come in the order of their granules, where the overdue ones count as due now.
\<close>

definition expired_in :: "(timer_id \<rightharpoonup> nat) \<Rightarrow> nat \<Rightarrow> nat \<Rightarrow> timer_id list \<Rightarrow> bool" where
  "expired_in m h n es \<longleftrightarrow> distinct es \<and> set es = {i. \<exists>g. m i = Some g \<and> g \<le> n}
     \<and> (n < h + 1024 \<longrightarrow> sorted (map (\<lambda>i. max h (the (m i))) es))"

lemma expired_in_step:
  assumes inv: "tw_inv tm" and hn: "unat (ft_head tm) \<le> unat now"
    and m': "m' = armed tm |` (- set es)" and late: "\<forall>i g. m' i = Some g \<longrightarrow> unat (ft_head tm) < g"
    and rest: "expired_in m' (Suc (unat (ft_head tm))) (unat now) es'"
    and es: "es = filter (due tm now) (ft_slots tm (unat (ft_head tm) mod 1024))"
  shows "expired_in (armed tm) (unat (ft_head tm)) (unat now) (es @ es')"
proof -
  let ?h = "unat (ft_head tm)"
  let ?n = "unat now"
  have es_mem: "i \<in> set es \<longleftrightarrow> (\<exists>g. armed tm i = Some g \<and> ?h mod 1024 = max ?h g mod 1024 \<and> g \<le> ?n)" for i
    using inv by (auto simp: es tw_inv_def armed_def due_def word_le_nat_alt split: if_splits)
  have es': "i \<in> set es' \<longleftrightarrow> (\<exists>g. armed tm i = Some g \<and> i \<notin> set es \<and> g \<le> ?n)" for i
    using rest by (auto simp: expired_in_def m' restrict_map_def)
  have "distinct (es @ es')" using inv rest es' by (auto simp: es expired_in_def tw_inv_def)
  moreover have "set (es @ es') = {i. \<exists>g. armed tm i = Some g \<and> g \<le> ?n}" using es_mem es' by auto
  moreover have "sorted (map (\<lambda>i. max ?h (the (armed tm i))) (es @ es'))" if lap: "?n < ?h + 1024"
  proof -
    have k0: "max ?h (the (armed tm i)) = ?h" if i: "i \<in> set es" for i
    proof -
      from i obtain g where g: "armed tm i = Some g" "?h mod 1024 = max ?h g mod 1024" "g \<le> ?n" using es_mem by auto
      have "max ?h g < ?h + 1024" "?h \<le> max ?h g" using g(3) lap hn by auto
      with g(2) have "max ?h g = ?h" by (metis mod_eq_dvd_iff_nat dvd_imp_le le_add_diff_inverse less_diff_conv2 add.commute diff_is_0_eq not_less zero_less_diff)
      with g show ?thesis by simp
    qed
    have k1: "max ?h (the (armed tm i)) = max (Suc ?h) (the (m' i))" if i: "i \<in> set es'" for i
    proof -
      from i obtain g where g: "armed tm i = Some g" "i \<notin> set es" using es' by auto
      then have m: "m' i = Some g" by (simp add: m')
      then have "?h < g" using late by blast
      then show ?thesis by (simp add: g m)
    qed
    have "map (\<lambda>i. max ?h (the (armed tm i))) es' = map (\<lambda>i. max (Suc ?h) (the (m' i))) es'"
      using k1 by (rule map_cong [OF refl])
    moreover have "sorted (map (\<lambda>i. max (Suc ?h) (the (m' i))) es')" using rest lap by (simp add: expired_in_def)
    moreover have "map (\<lambda>i. max ?h (the (armed tm i))) es = map (\<lambda>_. ?h) es" using k0 by simp
    ultimately show ?thesis by (simp only: map_append sorted_append) (auto simp: map_replicate_const)
  qed
  ultimately show ?thesis by (simp add: expired_in_def)
qed

lemma expire_loop_ok:
  assumes "tw_inv tm" "unat (ft_head tm) \<le> unat now" "unat now < 2 ^ 50"
  shows "\<exists>tm' es. expire_loop now (tm, l) = Some (tm', l @ es) \<and> tw_inv tm' \<and> expired_in (armed tm) (unat (ft_head tm)) (unat now) es
    \<and> unat (ft_head tm') = Suc (unat now) \<and> armed tm' = armed tm |` (- set es)
    \<and> (\<forall>i g. armed tm' i = Some g \<longrightarrow> unat now < g)"
  using assms
proof (induction "unat now - unat (ft_head tm)" arbitrary: tm l)
  case (0 tm l)
  define es where "es = filter (due tm now) (ft_slots tm (unat (ft_head tm) mod 1024))"
  have h: "ft_head tm = now" using 0 by (simp add: unat_eq_iff)
  obtain tm1 where step: "expire_slot now (tm, l) = (tm1, l @ es)" and inv: "tw_inv tm1"
    and hd: "unat (ft_head tm1) = Suc (unat (ft_head tm))" and ar: "armed tm1 = armed tm |` (- set es)"
    and late: "\<forall>i g. armed tm1 i = Some g \<longrightarrow> unat (ft_head tm) < g"
    using expire_slot_ok [OF 0(2) _ 0(4), of l] eq_refl [OF h] unfolding es_def by blast
  have "{i. \<exists>g. armed tm1 i = Some g \<and> g \<le> unat now} = {}" using late leD unfolding h by blast
  then have "expired_in (armed tm1) (Suc (unat (ft_head tm))) (unat now) []"
    unfolding expired_in_def by simp
  from expired_in_step [OF 0(2,3) ar late this es_def]
  have ex: "expired_in (armed tm) (unat (ft_head tm)) (unat now) es" by simp
  have s0: "0 \<le> sint now - sint (ft_head (fst (tm, l)))" using h by simp
  have s1: "\<not> 0 \<le> sint now - sint (ft_head (fst (tm1, l @ es)))" using 0(4) hd h by (simp add: sint_small)
  have "expire_loop now (tm, l) = expire_loop now (tm1, l @ es)"
    using expire_loop.simps [of now "(tm, l)"] s0 step by simp
  also have "\<dots> = Some (tm1, l @ es)" using expire_loop.simps [of now "(tm1, l @ es)"] s1 by simp
  finally show ?case using inv ex hd h ar late by auto
next
  case (Suc k tm l)
  define es where "es = filter (due tm now) (ft_slots tm (unat (ft_head tm) mod 1024))"
  have h: "unat (ft_head tm) < unat now" using Suc by simp
  obtain tm1 where step: "expire_slot now (tm, l) = (tm1, l @ es)" and inv: "tw_inv tm1"
    and hd: "unat (ft_head tm1) = Suc (unat (ft_head tm))" and ar: "armed tm1 = armed tm |` (- set es)"
    and late: "\<forall>i g. armed tm1 i = Some g \<longrightarrow> unat (ft_head tm) < g"
    using expire_slot_ok [OF Suc(3) _ Suc(5), of l] Suc(4) unfolding es_def word_le_nat_alt by blast
  have "k = unat now - unat (ft_head tm1)" "unat (ft_head tm1) \<le> unat now" using Suc(2) hd h by simp_all
  from Suc(1) [OF this(1) inv this(2) Suc(5), of "l @ es"] obtain tm' es' where
    IH: "expire_loop now (tm1, l @ es) = Some (tm', (l @ es) @ es')" "tw_inv tm'"
      "expired_in (armed tm1) (Suc (unat (ft_head tm))) (unat now) es'" "unat (ft_head tm') = Suc (unat now)"
      "armed tm' = armed tm1 |` (- set es')" "\<forall>i g. armed tm' i = Some g \<longrightarrow> unat now < g"
    unfolding hd by blast
  have s0: "0 \<le> sint now - sint (ft_head (fst (tm, l)))" using h Suc(5) by (simp add: sint_small word_le_def [symmetric] word_le_nat_alt)
  have "expire_loop now (tm, l) = expire_loop now (tm1, l @ es)"
    using expire_loop.simps [of now "(tm, l)"] s0 step by simp
  moreover have "armed tm' = armed tm |` (- set (es @ es'))" by (auto simp: IH(5) ar restrict_map_def fun_eq_iff)
  ultimately show ?case using IH expired_in_step [OF Suc(3,4) ar late IH(3) es_def] by auto
qed

lemma fp_timer_get_expired_ok:
  assumes inv: "tw_inv tm" and h: "unat (ft_head tm) \<le> granule now" "granule now < unat (ft_head tm) + 102400"
  shows "\<exists>tm' es. fp_timer_get_expired tm now l = Some (tm', l @ es) \<and> tw_inv tm'
    \<and> expired_in (armed tm) (unat (ft_head tm)) (granule now) es
    \<and> unat (ft_head tm') = granule now \<and> armed tm' = armed tm |` (- set es)"
proof -
  let ?n = "now div TIMER_GRANULARITY"
  have n: "unat ?n = granule now" by (rule unat_granule)
  have nb: "unat ?n < 2 ^ 50" "unat (ft_head tm) \<le> unat ?n" using granule_less [of now] h by (simp_all add: n)
  have "unat (?n - ft_head tm) = granule now - unat (ft_head tm)" using h by (simp add: unat_sub word_le_nat_alt n)
  then have a: "?n - ft_head tm < 100 * MAX_TIMER_SLOTS" using h by (simp add: MAX_TIMER_SLOTS_def word_less_nat_alt)
  obtain tm1 es where l: "expire_loop ?n (tm, l) = Some (tm1, l @ es)" "tw_inv tm1"
    "expired_in (armed tm) (unat (ft_head tm)) (granule now) es" "unat (ft_head tm1) = Suc (granule now)"
    "armed tm1 = armed tm |` (- set es)" and late: "\<forall>i g. armed tm1 i = Some g \<longrightarrow> granule now < g"
    using expire_loop_ok [OF inv nb(2,1), of l] unfolding n by blast
  let ?tm = "tm1\<lparr>ft_head := ?n\<rparr>"
  have "max (granule now) g = max (Suc (granule now)) g" if "armed tm1 i = Some g" for i g
    using late that by (metis Suc_leI less_imp_le max.absorb2)
  then have "(\<exists>g. armed tm1 i = Some g \<and> s = max (granule now) g mod 1024) \<longleftrightarrow> i \<in> set (ft_slots tm1 s)" for i s
    using l(2) by (auto simp: tw_inv_def l(4))
  then have "tw_inv ?tm" using l(2) nb by (simp add: tw_inv_def frame_simps n)
  moreover have "fp_timer_get_expired tm now l = Some (?tm, l @ es)"
    using a by (simp add: fp_timer_get_expired_def l(1))
  ultimately show ?thesis using l by (auto simp: frame_simps n)
qed

section \<open>The contract\<close>

text \<open>
  What a client may rely on: a clock that counts granules, and a partial map from timers to the granule
  they are armed for. \<open>102400\<close> granules, a hundred turns of the wheel, are the longest pause the sanity
  check of \<open>fp_timer_get_expired\<close> allows.
\<close>

locale timer_service =
  fixes inv :: "'t \<Rightarrow> bool" and clock :: "'t \<Rightarrow> nat" and armed_at :: "'t \<Rightarrow> timer_id \<rightharpoonup> nat"
    and reset :: "'t \<Rightarrow> timer_id \<Rightarrow> u64 \<Rightarrow> 't" and stop :: "timer_id \<Rightarrow> 't \<Rightarrow> 't"
    and expire :: "'t \<Rightarrow> u64 \<Rightarrow> timer_id list \<Rightarrow> ('t \<times> timer_id list) option"
  assumes reset_ok: "inv t \<Longrightarrow> inv (reset t i w) \<and> clock (reset t i w) = clock t
      \<and> armed_at (reset t i w) = (armed_at t)(i \<mapsto> granule w)"
    and stop_ok: "inv t \<Longrightarrow> inv (stop i t) \<and> clock (stop i t) = clock t \<and> armed_at (stop i t) = (armed_at t)(i := None)"
    and expire_ok: "inv t \<Longrightarrow> clock t \<le> granule now \<Longrightarrow> granule now < clock t + 102400 \<Longrightarrow>
      \<exists>t' es. expire t now l = Some (t', l @ es) \<and> inv t' \<and> clock t' = granule now
        \<and> expired_in (armed_at t) (clock t) (granule now) es \<and> armed_at t' = armed_at t |` (- set es)"
begin

text \<open>A timer that was just set fires at the first look at the clock that is not before its granule, and stays set until then.\<close>

lemma reset_expire:
  assumes "inv t" "clock t \<le> granule now" "granule now < clock t + 102400"
  shows "\<exists>t' es. expire (reset t i w) now [] = Some (t', es) \<and> inv t'
    \<and> (if granule w \<le> granule now then i \<in> set es \<and> armed_at t' i = None else i \<notin> set es \<and> armed_at t' i = Some (granule w))"
proof -
  have r: "inv (reset t i w)" "clock (reset t i w) = clock t" "armed_at (reset t i w) = (armed_at t)(i \<mapsto> granule w)"
    using reset_ok [OF assms(1)] by auto
  then obtain t' es where "expire (reset t i w) now [] = Some (t', es)" "inv t'"
    "expired_in ((armed_at t)(i \<mapsto> granule w)) (clock t) (granule now) es" "armed_at t' = ((armed_at t)(i \<mapsto> granule w)) |` (- set es)"
    using expire_ok [OF r(1), of now "[]"] assms(2,3) by auto
  then show ?thesis by (auto simp: expired_in_def restrict_map_def)
qed

lemma stop_expire:
  assumes "inv t" "clock t \<le> granule now" "granule now < clock t + 102400"
  shows "\<exists>t' es. expire (stop i t) now [] = Some (t', es) \<and> inv t' \<and> i \<notin> set es"
proof -
  have r: "inv (stop i t)" "clock (stop i t) = clock t" "armed_at (stop i t) = (armed_at t)(i := None)"
    using stop_ok [OF assms(1)] by auto
  then show ?thesis using expire_ok [OF r(1), of now "[]"] assms(2,3) by (auto simp: expired_in_def)
qed

end

interpretation wheel: timer_service tw_inv "\<lambda>tm. unat (ft_head tm)" armed fp_timer_reset fp_timer_stop fp_timer_get_expired
proof unfold_locales
  fix t i w assume "tw_inv t"
  then show "tw_inv (fp_timer_reset t i w) \<and> unat (ft_head (fp_timer_reset t i w)) = unat (ft_head t)
      \<and> armed (fp_timer_reset t i w) = (armed t)(i \<mapsto> granule w)" by (simp add: fp_timer_reset_ok)
next
  fix t i assume "tw_inv t"
  then show "tw_inv (fp_timer_stop i t) \<and> unat (ft_head (fp_timer_stop i t)) = unat (ft_head t)
      \<and> armed (fp_timer_stop i t) = (armed t)(i := None)" by (simp add: fp_timer_stop_ok)
next
  fix t now l assume "tw_inv t" "unat (ft_head t) \<le> granule now" "granule now < unat (ft_head t) + 102400"
  then show "\<exists>t' es. fp_timer_get_expired t now l = Some (t', l @ es) \<and> tw_inv t' \<and> unat (ft_head t') = granule now
        \<and> expired_in (armed t) (unat (ft_head t)) (granule now) es \<and> armed t' = armed t |` (- set es)"
    using fp_timer_get_expired_ok [of t now l] by blast
qed

section \<open>Runs\<close>

datatype timer_op = T_reset timer_id u64 | T_stop timer_id | T_expire u64

fun timer_run :: "timer_op list \<Rightarrow> fp_timers \<Rightarrow> (fp_timers \<times> timer_id list list) option" where
  "timer_run [] tm = Some (tm, [])"
| "timer_run (T_reset i w # ops) tm = timer_run ops (fp_timer_reset tm i w)"
| "timer_run (T_stop i # ops) tm = timer_run ops (fp_timer_stop i tm)"
| "timer_run (T_expire now # ops) tm = do {
     (tm, es) \<leftarrow> fp_timer_get_expired tm now [];
     (tm, ess) \<leftarrow> timer_run ops tm;
     Some (tm, es # ess)
   }"

text \<open>
  The specification keeps the clock and the map, and lists for every look at the clock what the map, the
  old clock and the new clock were. It refuses a clock that goes back or that jumps too far.
\<close>

fun timer_spec :: "timer_op list \<Rightarrow> nat \<Rightarrow> (timer_id \<rightharpoonup> nat) \<Rightarrow> ((timer_id \<rightharpoonup> nat) \<times> ((timer_id \<rightharpoonup> nat) \<times> nat \<times> nat) list) option" where
  "timer_spec [] h m = Some (m, [])"
| "timer_spec (T_reset i w # ops) h m = timer_spec ops h (m(i \<mapsto> granule w))"
| "timer_spec (T_stop i # ops) h m = timer_spec ops h (m(i := None))"
| "timer_spec (T_expire now # ops) h m =
     (if h \<le> granule now \<and> granule now < h + 102400
      then map_option (\<lambda>(m', outs). (m', (m, h, granule now) # outs))
             (timer_spec ops (granule now) (\<lambda>i. case m i of None \<Rightarrow> None | Some g \<Rightarrow> if g \<le> granule now then None else Some g))
      else None)"

lemma timer_run_sim:
  assumes "timer_spec ops (unat (ft_head tm)) (armed tm) = Some (m', outs)" and "tw_inv tm"
  shows "\<exists>tm' ess. timer_run ops tm = Some (tm', ess) \<and> tw_inv tm' \<and> armed tm' = m'
    \<and> list_all2 (\<lambda>es (m, h, n). expired_in m h n es) ess outs"
  using assms
proof (induction ops arbitrary: tm outs)
  case (Cons x ops)
  show ?case
  proof (cases x)
    case (T_reset i w)
    then show ?thesis using Cons.IH [of "fp_timer_reset tm i w" outs] Cons.prems wheel.reset_ok [of tm i w] by (simp del: fun_upd_apply)
  next
    case (T_stop i)
    then show ?thesis using Cons.IH [of "fp_timer_stop i tm" outs] Cons.prems wheel.stop_ok [of tm i] by (simp del: fun_upd_apply)
  next
    case (T_expire now)
    with Cons.prems(1) obtain outs' where h: "unat (ft_head tm) \<le> granule now" "granule now < unat (ft_head tm) + 102400"
      and outs: "outs = (armed tm, unat (ft_head tm), granule now) # outs'"
      and sp: "timer_spec ops (granule now) (\<lambda>i. case armed tm i of None \<Rightarrow> None | Some g \<Rightarrow> if g \<le> granule now then None else Some g) = Some (m', outs')"
      by (auto split: if_splits)
    from wheel.expire_ok [OF Cons.prems(2) h, of "[]"] obtain tm1 es where
      e: "fp_timer_get_expired tm now [] = Some (tm1, es)" "tw_inv tm1" "unat (ft_head tm1) = granule now"
        "expired_in (armed tm) (unat (ft_head tm)) (granule now) es" "armed tm1 = armed tm |` (- set es)" by auto
    have "(\<lambda>i. case armed tm i of None \<Rightarrow> None | Some g \<Rightarrow> if g \<le> granule now then None else Some g) = armed tm1"
      using e(4) by (auto simp: e(5) fun_eq_iff restrict_map_def expired_in_def split: option.splits)
    with sp Cons.IH [of tm1 outs'] e show ?thesis by (auto simp: T_expire outs)
  qed
qed simp

text \<open>
  C14. The timer wheel refines a table of deadlines. From freshly initialised timers, a run of \<open>reset\<close>, \<open>stop\<close>
  and \<open>get_expired\<close> calls in which the clock does not go back and no pause exceeds a hundred turns never
  fails the sanity check and always ends; every \<open>get_expired\<close> returns exactly the timers whose granule has
  come, each once, and within a turn of the wheel in the order of their deadlines; the armed timers
  are afterwards those of the table.
\<close>

theorem timer_run_refines:
  assumes "timer_spec ops (granule t0) Map.empty = Some (m', outs)" and "\<And>i. armed tm i = None"
  shows "\<exists>tm' ess. timer_run ops (fp_init_timers tm t0) = Some (tm', ess) \<and> armed tm' = m'
    \<and> list_all2 (\<lambda>es (m, h, n). expired_in m h n es) ess outs"
proof -
  note init = fp_init_timers_ok [OF assms(2), of t0]
  from timer_run_sim [of ops "fp_init_timers tm t0" m' outs] show ?thesis using assms(1) init by auto
qed

theorem timer_run_refines_witness:
  "\<exists>tm' ess. timer_run [T_reset 7 49152, T_reset 8 81920, T_reset 9 98304, T_reset 7 163840, T_expire 98304, T_stop 7, T_expire 327680]
      (fp_init_timers \<lparr>ft_head = 0, ft_slots = \<lambda>_. [], ft_time = \<lambda>_. TIMER_NOT_SET_TIME\<rparr> 16384) = Some (tm', ess)
    \<and> ess = [[8, 9], []]"
proof -
  let ?ops = "[T_reset 7 49152, T_reset 8 81920, T_reset 9 98304, T_reset 7 163840, T_expire 98304, T_stop 7, T_expire 327680]"
  let ?tm = "\<lparr>ft_head = 0, ft_slots = \<lambda>_. [], ft_time = \<lambda>_. TIMER_NOT_SET_TIME\<rparr> :: fp_timers"
  let ?m = "[7 \<mapsto> 10, 8 \<mapsto> 5, 9 \<mapsto> 6] :: timer_id \<rightharpoonup> nat"
  have m: "(\<lambda>i. case ?m i of None \<Rightarrow> None | Some g \<Rightarrow> if g \<le> granule 98304 then None else Some g) = [7 \<mapsto> 10]"
    by (auto simp: fun_eq_iff granule_def)
  have gr: "granule 16384 = 1" "granule 49152 = 3" "granule 81920 = 5" "granule 98304 = 6" "granule 163840 = 10" "granule 327680 = 20"
    by (simp_all add: granule_def)
  have u: "(Map.empty(7 \<mapsto> 3, 8 \<mapsto> 5, 9 \<mapsto> 6, 7 \<mapsto> 10)) = ?m" by (auto simp: fun_eq_iff)
  have s: "timer_spec ?ops (granule 16384) Map.empty = Some (Map.empty, [(?m, 1, 6), (Map.empty, 6, 20)])"
    by (simp add: m u gr del: fun_upd_apply)
  have a: "armed ?tm i = None" for i by (simp add: armed_def)
  from timer_run_refines [OF s a] obtain tm' ess where
    r: "timer_run ?ops (fp_init_timers ?tm 16384) = Some (tm', ess)"
      "list_all2 (\<lambda>es (m, h, n). expired_in m h n es) ess [(?m, 1, 6), (Map.empty, 6, 20)]" by blast
  from r(2) obtain e1 e2 where e: "ess = [e1, e2]" "expired_in ?m 1 6 e1" "expired_in Map.empty 6 20 e2"
    by (auto simp: list_all2_Cons2)
  have "{i. \<exists>g. ?m i = Some g \<and> g \<le> 6} = {8, 9}" by auto
  then have "set e1 = {8, 9}" "distinct e1" "sorted (map (\<lambda>i. max 1 (the (?m i))) e1)"
    using e(2) unfolding expired_in_def by (simp_all del: fun_upd_apply)
  then have "length e1 = 2" using distinct_card [of e1] by simp
  then obtain a b where ab: "e1 = [a, b]" by (auto simp: length_Suc_conv numeral_2_eq_2)
  moreover have "e2 = []" using e(3) by (simp add: expired_in_def)
  moreover have "(a = 8 \<and> b = 9) \<or> (a = 9 \<and> b = 8)" using ab \<open>set e1 = {8, 9}\<close> by (simp add: doubleton_eq_iff)
  ultimately show ?thesis using r(1) e(1) \<open>sorted _\<close> by auto
qed

end
