(* ===== verification/Counter_Queue.thy ===== *)
theory Counter_Queue
  imports Platform
begin

text \<open>
  Queues in a circular buffer with two free running 32-bit counters: the contents are the entries from
  \<open>head\<close> to \<open>tail\<close>, and an index is a counter modulo the size of the buffer. The locale \<open>fifo_buffer\<close> is the
  contract of such a queue, and \<^verbatim>\<open>src/src/arbiter/circular_queue.h\<close> the first instance; the queues of
  \<^verbatim>\<open>src/src/arbiter/comm_core.c\<close> are others.
\<close>

section \<open>Entries between two counters\<close>

definition entries :: "nat \<Rightarrow> (nat \<Rightarrow> 'a) \<Rightarrow> u32 \<Rightarrow> u32 \<Rightarrow> 'a list" where
  "entries n a h t = map (\<lambda>j. a ((unat h + j) mod n)) [0 ..< unat (t - h)]"

lemma length_entries [simp]: "length (entries n a h t) = unat (t - h)"
  by (simp add: entries_def)

lemma entries_Nil_iff [simp]: "entries n a h t = [] \<longleftrightarrow> h = t"
  by (auto simp: entries_def unat_eq_zero)

lemma unat_add_mod:
  assumes "n dvd 2 ^ 32"
  shows "unat (a + b :: u32) mod n = (unat a + unat b) mod n"
  using assms by (simp add: unat_word_ariths mod_mod_cancel)

lemma tail_index:
  assumes "n dvd 2 ^ 32"
  shows "unat (t :: u32) mod n = (unat h + unat (t - h)) mod n"
  using unat_add_mod [OF assms, of h "t - h"] by simp

lemma unat_Suc_diff:
  assumes "unat (t - h :: u32) < 2 ^ 32 - 1"
  shows "unat (t + 1 - h) = Suc (unat (t - h))"
proof -
  have "unat ((t - h) + 1) = Suc (unat (t - h))" using assms by (simp add: unat_word_ariths)
  moreover have "t + 1 - h = (t - h) + 1" by simp
  ultimately show ?thesis by (simp only:)
qed

lemma unat_pred_diff:
  assumes "h \<noteq> (t :: u32)"
  shows "unat (t - (h + 1)) = unat (t - h) - 1"
  using assms unat_minus_one [of "t - h"] by (metis diff_diff_eq right_minus_eq)

lemma entries_snoc_any:
  assumes n: "n dvd 2 ^ 32" and room: "unat (t - h) < 2 ^ 32 - 1"
  shows "entries n a h (t + 1) = entries n a h t @ [a (unat t mod n)]"
  using unat_Suc_diff [OF room] tail_index [OF n, of t h] by (simp add: entries_def)

lemma entries_upd_outside:
  assumes "unat (t - h) < n" "n dvd 2 ^ 32"
  shows "entries n (a(unat t mod n := x)) h t = entries n a h t"
proof -
  have "(unat h + j) mod n \<noteq> unat t mod n" if j: "j < unat (t - h)" for j
  proof
    let ?k = "unat (t - h)"
    assume "(unat h + j) mod n = unat t mod n"
    then have "(unat h + ?k) mod n = (unat h + j) mod n" using tail_index [OF assms(2), of t h] by simp
    then have "n dvd (unat h + ?k) - (unat h + j)" using j by (subst (asm) mod_eq_dvd_iff_nat) simp_all
    then have "n dvd ?k - j" by simp
    then show False using j assms(1) by (auto dest: dvd_imp_le)
  qed
  then show ?thesis by (simp add: entries_def)
qed

lemma entries_enq:
  assumes "unat (t - h) < n" "n dvd 2 ^ 32" "n < 2 ^ 32"
  shows "entries n (a(unat t mod n := x)) h (t + 1) = entries n a h t @ [x]"
  using assms by (simp add: entries_snoc_any entries_upd_outside)

lemma entries_deq:
  assumes n: "n dvd 2 ^ 32" and ne: "h \<noteq> t"
  shows "entries n a h t = a (unat h mod n) # entries n a (h + 1) t"
proof -
  have pos: "0 < unat (t - h)" using ne by (simp add: unat_gt_0)
  note k = unat_pred_diff [OF ne]
  have "(unat (h + 1) + j) mod n = (unat h + Suc j) mod n" for j
    using unat_add_mod [OF n, of h 1] by (metis add.assoc mod_add_left_eq plus_1_eq_Suc unsigned_1)
  moreover obtain m where "unat (t - h) = Suc m" using pos by (cases "unat (t - h)") auto
  ultimately show ?thesis unfolding entries_def k by (simp add: map_upt_Suc del: upt_Suc)
qed

lemma entries_overwrite:
  assumes n: "n dvd 2 ^ 32" "n < 2 ^ 32" "0 < n" and full: "unat (t - h) = n"
  shows "entries n (a(unat t mod n := x)) h (t + 1) = x # tl (entries n a h t) @ [x]"
proof -
  let ?a = "a(unat t mod n := x)"
  have ne: "h \<noteq> t" using full n(3) by auto
  have th: "unat t mod n = unat h mod n" using tail_index [OF n(1), of t h] full by simp
  have l: "unat (t - (h + 1)) < n" using unat_pred_diff [OF ne] full n(3) by simp
  have "unat (t - h) < 2 ^ 32 - 1" using full n(1,2) by (cases "n = 2 ^ 32 - 1") auto
  from entries_snoc_any [OF n(1) this, of ?a] have "entries n ?a h (t + 1) = entries n ?a h t @ [x]" by simp
  also have "entries n ?a h t = x # entries n ?a (h + 1) t" using entries_deq [OF n(1) ne, of ?a] th by simp
  also have "entries n ?a (h + 1) t = entries n a (h + 1) t" by (rule entries_upd_outside [OF l n(1)])
  finally show ?thesis using entries_deq [OF n(1) ne, of a] by (simp del: fun_upd_apply)
qed

section \<open>The contract\<close>

locale fifo_buffer =
  fixes inv :: "'q \<Rightarrow> bool" and cap :: "'q \<Rightarrow> nat" and contents :: "'q \<Rightarrow> 'a list"
    and enq :: "'q \<Rightarrow> 'a \<Rightarrow> 'q" and deq :: "'q \<Rightarrow> 'a \<times> 'q"
  assumes contents_cap: "inv q \<Longrightarrow> length (contents q) \<le> cap q"
    and enq_ok: "inv q \<Longrightarrow> length (contents q) < cap q \<Longrightarrow>
      inv (enq q x) \<and> cap (enq q x) = cap q \<and> contents (enq q x) = contents q @ [x]"
    and deq_ok: "inv q \<Longrightarrow> contents q \<noteq> [] \<Longrightarrow>
      fst (deq q) = hd (contents q) \<and> inv (snd (deq q)) \<and> cap (snd (deq q)) = cap q \<and> contents (snd (deq q)) = tl (contents q)"
begin

text \<open>Several enqueues in a row, and several dequeues.\<close>

lemma foldl_enq_ok:
  "inv q \<Longrightarrow> length (contents q) + length xs \<le> cap q \<Longrightarrow>
    inv (foldl enq q xs) \<and> cap (foldl enq q xs) = cap q \<and> contents (foldl enq q xs) = contents q @ xs"
proof (induction xs arbitrary: q)
  case (Cons x xs)
  then have "inv (enq q x)" "cap (enq q x) = cap q" "contents (enq q x) = contents q @ [x]"
    using enq_ok [of q x] by auto
  then show ?case using Cons.IH [of "enq q x"] Cons.prems by simp
qed simp

lemma deq_run_ok:
  "inv q \<Longrightarrow> k \<le> length (contents q) \<Longrightarrow>
    inv (((\<lambda>q. snd (deq q)) ^^ k) q) \<and> cap (((\<lambda>q. snd (deq q)) ^^ k) q) = cap q \<and> contents (((\<lambda>q. snd (deq q)) ^^ k) q) = drop k (contents q)"
proof (induction k)
  case (Suc k)
  let ?q = "((\<lambda>q. snd (deq q)) ^^ k) q"
  have q: "inv ?q" "cap ?q = cap q" "contents ?q = drop k (contents q)" using Suc by auto
  then have "contents ?q \<noteq> []" using Suc.prems by simp
  from deq_ok [OF q(1) this] q show ?case by (simp add: tl_drop drop_Suc)
qed simp

end

section \<open>Circular queues\<close>

record 'a circular_queue =
  cq_head :: u32
  cq_tail :: u32
  cq_mask :: u32
  cq_elem :: "nat \<Rightarrow> 'a"

definition cq_init :: "'a circular_queue \<Rightarrow> u32 \<Rightarrow> 'a circular_queue option" where
  "cq_init q num_elems = do {
     bug_on (\<not> num_elems AND (num_elems - 1) = 0);
     Some (q\<lparr>cq_head := 0, cq_tail := 0, cq_mask := num_elems - 1\<rparr>)
   }"

definition cq_enqueue :: "'a circular_queue \<Rightarrow> 'a \<Rightarrow> 'a circular_queue" where
  "cq_enqueue q x = q\<lparr>cq_elem := (cq_elem q)(unat (cq_tail q AND cq_mask q) := x), cq_tail := cq_tail q + 1\<rparr>"

definition cq_dequeue :: "'a circular_queue \<Rightarrow> 'a \<times> 'a circular_queue" where
  "cq_dequeue q = (cq_elem q (unat (cq_head q AND cq_mask q)), q\<lparr>cq_head := cq_head q + 1\<rparr>)"

definition cq_empty :: "'a circular_queue \<Rightarrow> bool" where
  "cq_empty q \<longleftrightarrow> cq_tail q = cq_head q"

definition cq_occupancy :: "'a circular_queue \<Rightarrow> u32" where
  "cq_occupancy q = cq_tail q - cq_head q"

definition cq_full :: "'a circular_queue \<Rightarrow> bool" where
  "cq_full q \<longleftrightarrow> cq_mask q + 1 \<le> cq_occupancy q"

definition cq_cap :: "'a circular_queue \<Rightarrow> nat" where
  "cq_cap q = unat (cq_mask q) + 1"

definition cq_list :: "'a circular_queue \<Rightarrow> 'a list" where
  "cq_list q = entries (cq_cap q) (cq_elem q) (cq_head q) (cq_tail q)"

definition cq_inv :: "'a circular_queue \<Rightarrow> bool" where
  "cq_inv q \<longleftrightarrow> (\<exists>k < 32. cq_cap q = 2 ^ k) \<and> unat (cq_tail q - cq_head q) \<le> cq_cap q"

lemma unat_and_mask:
  assumes "unat (m :: u32) + 1 = 2 ^ k" "k < 32"
  shows "unat (x AND m) = unat x mod 2 ^ k"
proof -
  have "mask k = take_bit k (- 1 :: u32)" by simp
  then have "unat (mask k :: u32) = take_bit k (unat (- 1 :: u32))" by (simp only: unsigned_take_bit_eq)
  also have "\<dots> = mask k" using assms(2) by (simp add: unsigned_minus_1_eq_mask min_def)
  also have "\<dots> = 2 ^ k - 1" by (rule mask_eq_exp_minus_1)
  finally have "m = mask k" using assms by (simp add: unat_eq_iff)
  then have "x AND m = take_bit k x" by (simp add: take_bit_eq_mask)
  then have "unat (x AND m) = take_bit k (unat x)" by (simp only: unsigned_take_bit_eq)
  then show ?thesis by (simp add: take_bit_eq_mod)
qed

lemma cq_index:
  assumes "cq_inv q"
  shows "unat (c AND cq_mask q) = unat c mod cq_cap q" "cq_cap q dvd 2 ^ 32" "cq_cap q < 2 ^ 32"
proof -
  obtain k where k: "k < 32" "cq_cap q = 2 ^ k" using assms by (auto simp: cq_inv_def)
  show "unat (c AND cq_mask q) = unat c mod cq_cap q" using unat_and_mask [of "cq_mask q" k c] k by (simp add: cq_cap_def)
  show "cq_cap q dvd 2 ^ 32" unfolding k(2) by (rule le_imp_power_dvd) (use k(1) in simp)
  show "cq_cap q < 2 ^ 32" unfolding k(2) by (rule power_strict_increasing) (use k(1) in simp_all)
qed

interpretation cq: fifo_buffer cq_inv cq_cap cq_list cq_enqueue cq_dequeue
proof unfold_locales
  fix q :: "'a circular_queue"
  assume inv: "cq_inv q"
  note ix = cq_index [OF inv]
  show "length (cq_list q) \<le> cq_cap q" using inv by (simp add: cq_inv_def cq_list_def)
  show "fst (cq_dequeue q) = hd (cq_list q) \<and> cq_inv (snd (cq_dequeue q)) \<and> cq_cap (snd (cq_dequeue q)) = cq_cap q
      \<and> cq_list (snd (cq_dequeue q)) = tl (cq_list q)" if ne: "cq_list q \<noteq> []"
  proof -
    have ht: "cq_head q \<noteq> cq_tail q" using ne by (simp add: cq_list_def)
    have c: "cq_cap (snd (cq_dequeue q)) = cq_cap q" by (simp add: cq_dequeue_def cq_cap_def)
    have "cq_inv (snd (cq_dequeue q))"
      using inv unat_pred_diff [OF ht] unfolding cq_inv_def c by (auto simp: cq_dequeue_def)
    then show ?thesis using c entries_deq [OF ix(2) ht, of "cq_elem q"] ix(1)
      by (simp add: cq_list_def c) (simp add: cq_dequeue_def)
  qed
  show "cq_inv (cq_enqueue q x) \<and> cq_cap (cq_enqueue q x) = cq_cap q \<and> cq_list (cq_enqueue q x) = cq_list q @ [x]"
    if room: "length (cq_list q) < cq_cap q" for x
  proof -
    have r: "unat (cq_tail q - cq_head q) < cq_cap q" using room by (simp add: cq_list_def)
    have c: "cq_cap (cq_enqueue q x) = cq_cap q" by (simp add: cq_enqueue_def cq_cap_def)
    have "cq_inv (cq_enqueue q x)"
      using inv r unat_Suc_diff [of "cq_tail q" "cq_head q"] ix(3) unfolding cq_inv_def c by (auto simp: cq_enqueue_def)
    moreover have "cq_list (cq_enqueue q x) = cq_list q @ [x]"
      using entries_enq [OF r ix(2,3), of "cq_elem q" x] by (simp add: cq_list_def c) (simp add: cq_enqueue_def ix(1))
    ultimately show ?thesis using c by simp
  qed
qed

text \<open>The tests of emptiness and fullness, and initialisation with a power of two.\<close>

lemma cq_tests:
  assumes "cq_inv q"
  shows "cq_empty q \<longleftrightarrow> cq_list q = []" "unat (cq_occupancy q) = length (cq_list q)"
    "cq_full q \<longleftrightarrow> length (cq_list q) = cq_cap q"
proof -
  show "cq_empty q \<longleftrightarrow> cq_list q = []" by (auto simp: cq_empty_def cq_list_def)
  show occ: "unat (cq_occupancy q) = length (cq_list q)" by (simp add: cq_occupancy_def cq_list_def)
  have "unat (cq_mask q + 1) = cq_cap q"
    using cq_index(3) [OF assms] by (simp add: cq_cap_def unat_word_ariths)
  then show "cq_full q \<longleftrightarrow> length (cq_list q) = cq_cap q"
    using cq.contents_cap [OF assms] occ by (auto simp: cq_full_def word_le_nat_alt)
qed

lemma cq_init_ok:
  assumes "k < 32"
  shows "\<exists>q'. cq_init q (2 ^ k) = Some q' \<and> cq_inv q' \<and> cq_cap q' = 2 ^ k \<and> cq_list q' = []"
proof -
  have "(2 :: nat) ^ k < 2 ^ 32" using assms by (intro power_strict_increasing) simp_all
  then have u: "unat (2 ^ k :: u32) = 2 ^ k" using unat_of_nat_word [of "2 ^ k", where 'a = 32] by simp
  have m: "unat (2 ^ k - 1 :: u32) + 1 = 2 ^ k"
    using assms u unat_minus_one [of "2 ^ k :: u32"] by (auto simp: unat_eq_iff)
  have "unat ((2 ^ k) AND (2 ^ k - 1) :: u32) = 0" using unat_and_mask [OF m assms, of "2 ^ k"] u by simp
  then have "(2 ^ k) AND (2 ^ k - 1) = (0 :: u32)" by (simp add: unat_eq_zero)
  moreover from m have "cq_cap (q\<lparr>cq_head := 0, cq_tail := 0, cq_mask := 2 ^ k - 1\<rparr>) = 2 ^ k" by (simp add: cq_cap_def)
  ultimately show ?thesis using assms by (auto simp: cq_init_def cq_inv_def cq_list_def entries_def)
qed

end
