(* ===== verification/Comm_Core.thy ===== *)
theory Comm_Core
  imports Requests Proto_Codec Timer_Wheel Counter_Queue Pacer Path_Selection
begin

text \<open>
  The communication core of the arbiter, \<^verbatim>\<open>src/src/arbiter/comm_core.c\<close> and \<^verbatim>\<open>comm_core.h\<close>, in the build with the
  pipelined allocator: it turns the requests of the end nodes into backlog, queues the allocations
  that the allocator admits, and sends each end node its allocations and totals under the control of a
  pacer and of two timer wheels.

  One core is modelled. An array is a function of the index; the index of an array of flows is checked by
  \<open>flow_index\<close>, so that an access out of bounds is the result \<open>None\<close>, as is a failed assertion. The
  timers of an end node are known by the number of the node. The clock of a call is its argument
  \<open>now\<close>; the logging calls have no effect on the state and are left out.
\<close>

section \<open>State\<close>

definition ALLOC_REPORT_QUEUE_SIZE :: u64 where "ALLOC_REPORT_QUEUE_SIZE = push_bit (FP_NODES_SHIFT + 1) 1"
definition ALLOC_REPORT_QUEUE_MASK :: u64 where "ALLOC_REPORT_QUEUE_MASK = ALLOC_REPORT_QUEUE_SIZE - 1"

record pending_alloc =
  al_dst :: u16
  al_timeslot :: u16
  al_flags :: u8

record pending_alloc_queue =
  pq_allocs :: "nat \<Rightarrow> pending_alloc"
  pq_head :: u32
  pq_tail :: u32

record alloc_report_queue =
  rq_is_pending :: "nat \<Rightarrow> u8"
  rq_q_pending :: "nat \<Rightarrow> u16"
  rq_head :: u32
  rq_tail :: u32

record end_node_state =
  en_conn :: fpproto_conn
  en_dst_ether :: "u8 list"
  en_dst_ip :: u32
  en_controller_ip :: u32
  en_pending_allocs :: pending_alloc_queue
  en_demands :: "nat \<Rightarrow> u32"
  en_alloc_to_dst :: "nat \<Rightarrow> u32"
  en_acked_allocs :: "nat \<Rightarrow> u32"
  en_report_queue :: alloc_report_queue
  en_tx_pacer :: fp_pacer

text \<open>The per-core state; the timers of the end nodes are in the wheels of the core.\<close>

record comm_core_state =
  cc_alloc_enc_space :: "nat \<Rightarrow> u8"
  cc_latest_timeslot :: "nat \<Rightarrow> u64"
  cc_timeout_timers :: fp_timers
  cc_tx_timers :: fp_timers

record comm =
  cm_end_nodes :: "nat \<Rightarrow> end_node_state"
  cm_core :: comm_core_state
  cm_status :: status

definition flow_index :: "u16 \<Rightarrow> nat option" where
  "flow_index dst = (if unat dst < MAX_FLOWS then Some (unat dst) else None)"

definition node_index :: "u16 \<Rightarrow> nat option" where
  "node_index src = (if unat src < MAX_NODES then Some (unat src) else None)"

definition upd_en :: "nat \<Rightarrow> (end_node_state \<Rightarrow> end_node_state) \<Rightarrow> comm \<Rightarrow> comm" where
  "upd_en i f cm = cm\<lparr>cm_end_nodes := (cm_end_nodes cm)(i := f (cm_end_nodes cm i))\<rparr>"

definition upd_core :: "(comm_core_state \<Rightarrow> comm_core_state) \<Rightarrow> comm \<Rightarrow> comm" where
  "upd_core f cm = cm\<lparr>cm_core := f (cm_core cm)\<rparr>"

section \<open>Triggers and timers\<close>

definition trigger_request :: "u64 \<Rightarrow> nat \<Rightarrow> comm \<Rightarrow> comm" where
  "trigger_request now i cm =
     (let (fresh, pa) = pacer_trigger (en_tx_pacer (cm_end_nodes cm i)) now;
          cm = upd_en i (en_tx_pacer_update (\<lambda>_. pa)) cm
      in if fresh
         then upd_core (cc_tx_timers_update (\<lambda>tm. fp_timer_reset tm i (pacer_next_event pa))) cm
         else cm)"

definition trigger_report :: "u64 \<Rightarrow> nat \<Rightarrow> u16 \<Rightarrow> comm \<Rightarrow> comm option" where
  "trigger_report now i dst cm = do {
     d \<leftarrow> flow_index dst;
     let q = en_report_queue (cm_end_nodes cm i);
     if rq_is_pending q d \<noteq> 0 then Some cm
     else do {
       let q = q\<lparr>rq_is_pending := (rq_is_pending q)(d := 1),
                 rq_q_pending := (rq_q_pending q)(unat (ucast (rq_tail q) AND ALLOC_REPORT_QUEUE_MASK) := dst),
                 rq_tail := rq_tail q + 1\<rparr>;
       Some (trigger_request now i (upd_en i (en_report_queue_update (\<lambda>_. q)) cm))
     }
   }"

definition report_empty :: "alloc_report_queue \<Rightarrow> bool" where
  "report_empty q \<longleftrightarrow> rq_head q = rq_tail q"

definition report_pop :: "alloc_report_queue \<Rightarrow> (u16 \<times> alloc_report_queue) option" where
  "report_pop q = do {
     bug_on (report_empty q);
     let node = rq_q_pending q (unat (ucast (rq_head q) AND ALLOC_REPORT_QUEUE_MASK));
     d \<leftarrow> flow_index node;
     bug_on (rq_is_pending q d = 0);
     Some (node, q\<lparr>rq_is_pending := (rq_is_pending q)(d := 0), rq_head := rq_head q + 1\<rparr>)
   }"

definition cancel_retrans_timer :: "nat \<Rightarrow> comm \<Rightarrow> comm" where
  "cancel_retrans_timer i = upd_core (cc_timeout_timers_update (fp_timer_stop i))"

definition set_retrans_timer :: "nat \<Rightarrow> u64 \<Rightarrow> comm \<Rightarrow> comm" where
  "set_retrans_timer i when = upd_core (cc_timeout_timers_update (\<lambda>tm. fp_timer_reset tm i when))"

section \<open>Callbacks of the protocol\<close>

text \<open>
  The total demand of a flow, from the low 16 bits that the request carries: the number with these low bits
  that is nearest to the known demand, taken from 32768 below it to 32767 above.
\<close>

definition demand_from_count :: "u32 \<Rightarrow> u16 \<Rightarrow> u32" where
  "demand_from_count orig_demand cnt16 =
     (let demand = orig_demand - push_bit 15 1
      in demand + ((ucast cnt16 - demand) AND 0xFFFF))"

text \<open>The loop of \<open>handle_areq\<close>; \<open>False\<close> is the early return on an invalid node.\<close>

fun areq_loop :: "nat \<Rightarrow> (u16 \<times> u16) list \<Rightarrow> comm \<Rightarrow> (bool \<times> comm) option" where
  "areq_loop i [] cm = Some (True, cm)"
| "areq_loop i ((dst, cnt16) # rest) cm =
     (let dst_node = drop_bit FLOW_SHIFT dst
      in if \<not> i < unat NUM_NODES then Some (False, cm)
         else if \<not> unat dst_node < unat NUM_NODES then Some (False, cm)
         else do {
           d \<leftarrow> flow_index dst;
           let orig_demand = en_demands (cm_end_nodes cm i) d;
           let demand = demand_from_count orig_demand cnt16;
           let demand_diff = demand - orig_demand;
           cm \<leftarrow>
             (if 0 < sint demand_diff then do {
                st \<leftarrow> seq_add_backlog (of_nat i) dst demand_diff (cm_status cm);
                Some (upd_en i (\<lambda>en. en\<lparr>en_demands := (en_demands en)(d := demand)\<rparr>) (cm\<lparr>cm_status := st\<rparr>))
              } else Some cm);
           areq_loop i rest cm
         })"

definition areq_entries :: "u8 list \<Rightarrow> nat \<Rightarrow> (u16 \<times> u16) list" where
  "areq_entries dst_and_count n = map (\<lambda>k. (rd_be16 dst_and_count (4 * k), rd_be16 dst_and_count (4 * k + 2))) [0 ..< n]"

definition handle_areq :: "u64 \<Rightarrow> nat \<Rightarrow> u8 list \<Rightarrow> nat \<Rightarrow> comm \<Rightarrow> comm option" where
  "handle_areq now i dst_and_count n cm = do {
     (ok, cm) \<leftarrow> areq_loop i (areq_entries dst_and_count n) cm;
     Some (if ok then trigger_request now i cm else cm)
   }"

definition handle_reset :: "nat \<Rightarrow> comm \<Rightarrow> comm option" where
  "handle_reset i cm = do {
     st \<leftarrow> seq_reset_sender (of_nat i) (cm_status cm);
     Some (upd_en i (\<lambda>en. en\<lparr>en_demands := (\<lambda>_. 0), en_alloc_to_dst := (\<lambda>_. 0), en_acked_allocs := (\<lambda>_. 0),
         en_report_queue := (en_report_queue en)\<lparr>rq_head := 0, rq_tail := 0, rq_is_pending := (\<lambda>_. 0)\<rparr>\<rparr>)
       (cm\<lparr>cm_status := st\<rparr>))
   }"

text \<open>Without emulation the arbiter does not retransmit allocations, and the handler only logs.\<close>

definition handle_skipped_ack :: "nat \<Rightarrow> fpproto_pktdesc \<Rightarrow> comm \<Rightarrow> comm option" where
  "handle_skipped_ack i pd cm = Some cm"

definition neg_ack_entry :: "u64 \<Rightarrow> nat \<Rightarrow> fpproto_areq_desc \<Rightarrow> comm \<Rightarrow> comm option" where
  "neg_ack_entry now i a cm = do {
     let dst = (ucast (areq_src_dst_key a) :: u16);
     d \<leftarrow> flow_index dst;
     if 0 < sint (ucast (areq_tslots a) - en_acked_allocs (cm_end_nodes cm i) d)
     then trigger_report now i dst cm
     else Some cm
   }"

definition handle_neg_ack :: "u64 \<Rightarrow> nat \<Rightarrow> fpproto_pktdesc \<Rightarrow> comm \<Rightarrow> comm option" where
  "handle_neg_ack now i pd = for_each (neg_ack_entry now i) (take (unat (pd_n_areq pd)) (pd_areq pd))"

definition ack_entry :: "nat \<Rightarrow> fpproto_areq_desc \<Rightarrow> comm \<Rightarrow> comm option" where
  "ack_entry i a cm = do {
     let dst = (ucast (areq_src_dst_key a) :: u16);
     d \<leftarrow> flow_index dst;
     let new_acked = ucast (areq_tslots a) - en_acked_allocs (cm_end_nodes cm i) d;
     Some (if 0 < sint new_acked
           then upd_en i (\<lambda>en. en\<lparr>en_acked_allocs := (en_acked_allocs en)(d := en_acked_allocs en d + new_acked)\<rparr>) cm
           else cm)
   }"

definition handle_ack :: "nat \<Rightarrow> fpproto_pktdesc \<Rightarrow> comm \<Rightarrow> comm option" where
  "handle_ack i pd = for_each (ack_entry i) (take (unat (pd_n_areq pd)) (pd_areq pd))"

text \<open>
  The table \<open>proto_ops\<close>. The protocol model lists the callbacks a call makes; no callback of the arbiter
  reads or changes the connection, so they are run in their order after the call.
\<close>

fun proto_ops :: "u64 \<Rightarrow> nat \<Rightarrow> op_event \<Rightarrow> comm \<Rightarrow> comm option" where
  "proto_ops now i Handle_reset cm = handle_reset i cm"
| "proto_ops now i (Handle_areq data n) cm = handle_areq now i data n cm"
| "proto_ops now i (Handle_ack pd) cm = handle_ack i pd cm"
| "proto_ops now i (Handle_neg_ack pd) cm = handle_neg_ack now i pd cm"
| "proto_ops now i (Handle_skipped_ack pd) cm = handle_skipped_ack i pd cm"
| "proto_ops now i Trigger_request cm = Some (trigger_request now i cm)"
| "proto_ops now i (Set_timer when) cm = Some (set_retrans_timer i when cm)"
| "proto_ops now i Cancel_timer cm = Some (cancel_retrans_timer i cm)"
| "proto_ops now i (Handle_alloc b ds ts n) cm = Some cm"
| "proto_ops now i (Pktdesc_free pd) cm = Some cm"

definition comm_ops :: fpproto_ops where
  "comm_ops = \<lparr>has_handle_reset = True, has_handle_ack = True, has_handle_neg_ack = True, has_handle_skipped_ack = True,
     has_trigger_request = True, has_handle_alloc = False, has_handle_areq = True, alloc_bytes_per_tslot = 1\<rparr>"

definition with_conn :: "u64 \<Rightarrow> nat \<Rightarrow> (fpproto_conn \<Rightarrow> ('a \<times> fpproto_conn) option) \<Rightarrow> comm \<Rightarrow> ('a \<times> comm) option" where
  "with_conn now i f cm = do {
     let c = en_conn (cm_end_nodes cm i);
     (r, c') \<leftarrow> f c;
     cm \<leftarrow> for_each (proto_ops now i) (drop (length (c_log c)) (c_log c')) (upd_en i (en_conn_update (\<lambda>_. c')) cm);
     Some (r, cm)
   }"

section \<open>Admitted traffic\<close>

definition get_size :: "admitted_traffic \<Rightarrow> u16" where
  "get_size admitted = ad_size admitted"

definition get_admitted_fields :: "admitted_traffic \<Rightarrow> nat \<Rightarrow> u16 \<times> u16 \<times> u8" where
  "get_admitted_fields admitted index =
     (let src = a_src (ad_edges admitted index);
          dst_encoding = a_dst (ad_edges admitted index);
          dst = dst_encoding AND DST_MASK;
          flags = ucast (drop_bit PATH_SHIFT (dst_encoding AND PATH_MASK))
      in (src, dst, flags))"

definition pq_index :: "u32 \<Rightarrow> nat" where
  "pq_index c = unat (wnd_pos (ucast c))"

definition pq_push :: "pending_alloc \<Rightarrow> pending_alloc_queue \<Rightarrow> pending_alloc_queue" where
  "pq_push a q =
     (let q = (if pq_head q = pq_tail q + 1 then q\<lparr>pq_head := pq_head q + 1\<rparr> else q)
      in q\<lparr>pq_allocs := (pq_allocs q)(pq_index (pq_tail q) := a), pq_tail := pq_tail q + 1\<rparr>)"

text \<open>The body of the inner loop of \<open>process_allocated_traffic_one_q\<close>.\<close>

definition process_edge :: "u64 \<Rightarrow> u64 \<Rightarrow> admitted_traffic \<Rightarrow> nat \<Rightarrow> comm \<Rightarrow> comm option" where
  "process_edge now current_timeslot admitted j cm = do {
     let (src, dst, flags) = get_admitted_fields admitted j;
     i \<leftarrow> node_index src;
     d \<leftarrow> flow_index dst;
     let a = \<lparr>al_dst = dst, al_timeslot = ucast (drop_bit 4 current_timeslot AND 0xFFFF), al_flags = flags AND FLAGS_MASK\<rparr>;
     let cm = upd_en i (\<lambda>en. en\<lparr>en_pending_allocs := pq_push a (en_pending_allocs en),
                                en_alloc_to_dst := (en_alloc_to_dst en)(d := en_alloc_to_dst en d + 1)\<rparr>) cm;
     trigger_report now i dst cm
   }"

definition process_admitted :: "u64 \<Rightarrow> admitted_traffic \<Rightarrow> comm \<Rightarrow> comm option" where
  "process_admitted now admitted cm = do {
     let partition = unat (get_admitted_partition admitted);
     let current_timeslot = cc_latest_timeslot (cm_core cm) partition + 1;
     let cm = upd_core (\<lambda>core. core\<lparr>cc_latest_timeslot := (cc_latest_timeslot core)(partition := current_timeslot)\<rparr>) cm;
     for_each (process_edge now current_timeslot admitted) [0 ..< unat (get_size admitted)] cm
   }"

text \<open>\<open>admitted\<close> is the burst that was taken from the ring of admitted time slots.\<close>

definition process_allocated_traffic_one_q :: "u64 \<Rightarrow> admitted_traffic list \<Rightarrow> comm \<Rightarrow> comm option" where
  "process_allocated_traffic_one_q now = for_each (process_admitted now)"

section \<open>Sending to an end node\<close>

text \<open>
  The reports of the totals, as many as a packet takes. \<open>out\<close> is \<open>pd->areq\<close> up to \<open>pd->n_areq\<close>; a round lengthens it, so
  there are at most ten.
\<close>

function report_loop :: "end_node_state \<Rightarrow> fpproto_areq_desc list \<Rightarrow> (fpproto_areq_desc list \<times> end_node_state) option" where
  "report_loop en out =
     (if \<not> report_empty (en_report_queue en) \<and> length out < FASTPASS_PKT_MAX_AREQ then do {
        (node, q) \<leftarrow> report_pop (en_report_queue en);
        d \<leftarrow> flow_index node;
        let unsent_allocs = pq_tail (en_pending_allocs en) - pq_head (en_pending_allocs en);
        report_loop (en\<lparr>en_report_queue := q\<rparr>)
          (out @ [\<lparr>areq_src_dst_key = ucast node, areq_tslots = ucast (en_alloc_to_dst en d - unsent_allocs)\<rparr>])
      } else Some (out, en))"
  by pat_completeness auto
termination
  by (relation "measure (\<lambda>(en, out). FASTPASS_PKT_MAX_AREQ - length out)") auto

declare report_loop.simps [simp del]

definition fill_packet_report :: "u64 \<Rightarrow> nat \<Rightarrow> fpproto_pktdesc \<Rightarrow> comm \<Rightarrow> (fpproto_pktdesc \<times> comm) option" where
  "fill_packet_report now i pd cm = do {
     (out, en) \<leftarrow> report_loop (cm_end_nodes cm i) [];
     let cm = upd_en i (\<lambda>_. en) cm;
     let pd = pd\<lparr>pd_n_areq := of_nat (length out), pd_areq := out\<rparr>;
     Some (pd, if \<not> report_empty (en_report_queue en) then trigger_request now i cm else cm)
   }"

text \<open>
  The loop of \<open>fill_packet_alloc\<close> from the label \<open>next_alloc\<close>. \<open>dsts\<close> and \<open>desc\<close> are \<open>pd->dsts\<close> up to \<open>n_dsts\<close> and
  \<open>pd->tslot_desc\<close> up to \<open>n_tslot\<close>.
\<close>

type_synonym fill_state = "(nat \<Rightarrow> u8) \<times> u16 list \<times> u8 list \<times> pending_alloc_queue"

function fill_loop :: "(nat \<Rightarrow> u8) \<Rightarrow> u16 list \<Rightarrow> u8 list \<Rightarrow> pending_alloc_queue \<Rightarrow> fill_state option" where
  "fill_loop enc dsts desc q = do {
     let cur_alloc = pq_allocs q (pq_index (pq_head q));
     let dst = al_dst cur_alloc;
     d \<leftarrow> flow_index dst;
     if enc d = 0 \<and> length dsts = 15 then Some (enc, dsts, desc, q)
     else do {
       let (enc, dsts) =
         (if enc d = 0 then (enc(d := of_nat (length dsts) + 1), dsts @ [dst]) else (enc, dsts));
       let desc = desc @ [push_bit 4 (enc d) OR (al_flags cur_alloc AND FLAGS_MASK)];
       let q = q\<lparr>pq_head := pq_head q + 1\<rparr>;
       if pq_tail q \<noteq> pq_head q \<and> length desc \<le> FASTPASS_PKT_MAX_ALLOC_TSLOTS - 2
       then fill_loop enc dsts desc q
       else Some (enc, dsts, desc, q)
     }
   }"
  by pat_completeness auto
termination
  by (relation "measure (\<lambda>(enc, dsts, desc, q). FASTPASS_PKT_MAX_ALLOC_TSLOTS - length desc)")
    (auto simp: FASTPASS_PKT_MAX_ALLOC_TSLOTS_def)

declare fill_loop.simps [simp del]

definition clear_enc_space :: "u16 list \<Rightarrow> (nat \<Rightarrow> u8) \<Rightarrow> nat \<Rightarrow> u8" where
  "clear_enc_space dsts enc = foldl (\<lambda>enc dst. enc(unat dst := 0)) enc dsts"

definition fill_packet_alloc :: "nat \<Rightarrow> fpproto_pktdesc \<Rightarrow> comm \<Rightarrow> (fpproto_pktdesc \<times> comm) option" where
  "fill_packet_alloc i pd cm = do {
     let q = en_pending_allocs (cm_end_nodes cm i);
     (base, enc, dsts, desc, q) \<leftarrow>
       (if pq_head q = pq_tail q then Some (pd_base_tslot pd, cc_alloc_enc_space (cm_core cm), [], [], q)
        else do {
          (enc, dsts, desc, q') \<leftarrow> fill_loop (cc_alloc_enc_space (cm_core cm)) [] [] q;
          Some (al_timeslot (pq_allocs q (pq_index (pq_head q))), clear_enc_space dsts enc, dsts, desc, q')
        });
     let used = length desc;
     let desc = (if odd used then desc @ [0] else desc);
     let pd = pd\<lparr>pd_base_tslot := base, pd_used_alloc_tslot := of_nat used, pd_tslot_desc := desc,
                 pd_n_dsts := of_nat (length dsts), pd_dsts := dsts, pd_alloc_tslot := of_nat (length desc)\<rparr>;
     bug_on (pd_alloc_tslot pd AND 1 \<noteq> 0);
     Some (pd, upd_core (cc_alloc_enc_space_update (\<lambda>_. enc)) (upd_en i (en_pending_allocs_update (\<lambda>_. q)) cm))
   }"

text \<open>
  \<open>pd\<close> is the descriptor from the pool, if there is one. The result is the descriptor that was
  committed; \<open>make_packet\<close> encodes it, and a missing buffer there changes nothing in the state.
\<close>

definition tx_end_node :: "u64 \<Rightarrow> nat \<Rightarrow> fpproto_pktdesc option \<Rightarrow> comm \<Rightarrow> (fpproto_pktdesc option \<times> comm) option" where
  "tx_end_node now i pd cm = do {
     let cm = upd_en i (en_tx_pacer_update pacer_reset) cm;
     (_, cm) \<leftarrow> with_conn now i (\<lambda>c. map_option (Pair ()) (fpproto_prepare_to_send c)) cm;
     case pd of
       None \<Rightarrow> Some (None, trigger_request now i cm)
     | Some pd \<Rightarrow> do {
         (pd, cm) \<leftarrow> fill_packet_alloc i pd cm;
         (pd, cm) \<leftarrow> fill_packet_report now i pd cm;
         (pd, cm) \<leftarrow> with_conn now i (\<lambda>c. map_option (\<lambda>(c, pd). (pd, c)) (fpproto_commit_packet c pd now)) cm;
         Some (Some pd, cm)
       }
   }"

end
