(* ===== verification/Comm_Report.thy ===== *)
theory Comm_Report
  imports Comm_Core
begin

text \<open>
  The two queues of an end node at the arbiter: the flows whose total has to be reported, each at most once,
  and the allocations that wait for a packet.
\<close>

section \<open>Indices\<close>

lemma take_bit_u64_of_u32: "unat (take_bit k (ucast (c :: u32) :: u64)) = unat c mod 2 ^ k"
proof -
  have "unat (take_bit k (ucast c :: u64)) = take_bit k (unat (ucast c :: u64))" by (simp only: unsigned_take_bit_eq)
  then show ?thesis by (simp add: unat_ucast_up take_bit_eq_mod)
qed

lemma rq_index: "unat (ucast (c :: u32) AND ALLOC_REPORT_QUEUE_MASK) = unat c mod 512"
proof -
  have "ALLOC_REPORT_QUEUE_MASK = mask 9"
    by (simp add: ALLOC_REPORT_QUEUE_MASK_def ALLOC_REPORT_QUEUE_SIZE_def FP_NODES_SHIFT_def mask_eq_exp_minus_1)
  then show ?thesis using take_bit_u64_of_u32 [of 9 c] by (simp add: take_bit_eq_mask)
qed

lemma pq_index_mod: "pq_index c = unat c mod 256"
proof -
  have "(255 :: u64) = mask 8" by (simp add: mask_eq_exp_minus_1)
  then have "ucast c AND 255 = take_bit 8 (ucast c :: u64)" by (simp add: take_bit_eq_mask)
  then have t: "unat (ucast c AND 255 :: u64) = unat c mod 256" using take_bit_u64_of_u32 [of 8 c] by simp
  then have "unat (ucast (ucast c AND 255 :: u64) :: u32) = unat c mod 256"
    by (simp add: unsigned_ucast_eq take_bit_nat_eq_self)
  then show ?thesis by (simp add: pq_index_def wnd_pos_def)
qed

lemma flow_index_Some [simp]: "flow_index x = Some d \<longleftrightarrow> d = unat x \<and> unat x < 256"
  by (auto simp: flow_index_def MAX_FLOWS_def MAX_NODES_def FLOWS_PER_NODE_def FLOW_SHIFT_def)

lemma flow_index_less: "unat x < 256 \<Longrightarrow> flow_index x = Some (unat x)"
  by simp

section \<open>Flows to be reported\<close>

definition rq_list :: "alloc_report_queue \<Rightarrow> u16 list" where
  "rq_list q = entries 512 (rq_q_pending q) (rq_head q) (rq_tail q)"

definition rq_ok :: "alloc_report_queue \<Rightarrow> bool" where
  "rq_ok q \<longleftrightarrow> distinct (rq_list q) \<and> (\<forall>x \<in> set (rq_list q). unat x < 256)
     \<and> (\<forall>x. unat x < 256 \<longrightarrow> (rq_is_pending q (unat x) \<noteq> 0 \<longleftrightarrow> x \<in> set (rq_list q)))"

lemma report_empty_iff: "report_empty q \<longleftrightarrow> rq_list q = []"
  by (simp add: report_empty_def rq_list_def)

lemma rq_length:
  assumes "rq_ok q"
  shows "length (rq_list q) \<le> 256"
proof -
  have "unat ` set (rq_list q) \<subseteq> {..< 256}" using assms by (auto simp: rq_ok_def)
  then have "card (unat ` set (rq_list q)) \<le> card {..< 256 :: nat}" by (rule card_mono [OF finite_lessThan])
  moreover have "inj_on unat (set (rq_list q))" by (rule inj_onI) (simp add: unat_eq_iff)
  ultimately show ?thesis using assms by (simp add: card_image distinct_card rq_ok_def)
qed

text \<open>Queueing a flow that is not pending; popping the oldest one never fails an assertion.\<close>

definition rq_push :: "u16 \<Rightarrow> alloc_report_queue \<Rightarrow> alloc_report_queue" where
  "rq_push dst q = (if rq_is_pending q (unat dst) \<noteq> 0 then q else
     q\<lparr>rq_is_pending := (rq_is_pending q)(unat dst := 1),
       rq_q_pending := (rq_q_pending q)(unat (ucast (rq_tail q) AND ALLOC_REPORT_QUEUE_MASK) := dst),
       rq_tail := rq_tail q + 1\<rparr>)"

lemma rq_push_ok:
  assumes ok: "rq_ok q" and d: "unat dst < 256"
  shows "rq_ok (rq_push dst q)" "rq_list (rq_push dst q) = (if dst \<in> set (rq_list q) then rq_list q else rq_list q @ [dst])"
proof -
  have p: "rq_is_pending q (unat dst) \<noteq> 0 \<longleftrightarrow> dst \<in> set (rq_list q)" using ok d by (simp add: rq_ok_def)
  have "unat (rq_tail q - rq_head q) < 512" using rq_length [OF ok] by (simp add: rq_list_def)
  from entries_enq [OF this, of "rq_q_pending q" dst]
  have l: "rq_list (rq_push dst q) = rq_list q @ [dst]" if "dst \<notin> set (rq_list q)"
    using that p by (simp add: rq_list_def rq_push_def rq_index)
  have same: "rq_push dst q = q" if "dst \<in> set (rq_list q)" using that p by (simp add: rq_push_def)
  show "rq_list (rq_push dst q) = (if dst \<in> set (rq_list q) then rq_list q else rq_list q @ [dst])" using l same by auto
  show "rq_ok (rq_push dst q)"
  proof (cases "dst \<in> set (rq_list q)")
    case False
    then have "rq_is_pending (rq_push dst q) = (rq_is_pending q)(unat dst := 1)" using p by (simp add: rq_push_def)
    then show ?thesis using ok d False l by (auto simp: rq_ok_def unat_eq_iff [of _ dst])
  qed (simp add: same ok)
qed

lemma report_pop_ok:
  assumes ok: "rq_ok q" and ne: "\<not> report_empty q"
  shows "\<exists>q'. report_pop q = Some (hd (rq_list q), q') \<and> rq_ok q' \<and> rq_list q' = tl (rq_list q)"
proof -
  let ?x = "hd (rq_list q)"
  have ht: "rq_head q \<noteq> rq_tail q" using ne by (simp add: report_empty_def)
  define q' where "q' = q\<lparr>rq_is_pending := (rq_is_pending q)(unat ?x := 0), rq_head := rq_head q + 1\<rparr>"
  have l: "rq_list q = rq_q_pending q (unat (rq_head q) mod 512) # rq_list q'"
    using entries_deq [OF _ ht, of 512 "rq_q_pending q"] by (simp add: rq_list_def q'_def)
  then have hd: "rq_q_pending q (unat (rq_head q) mod 512) = ?x" and tl: "rq_list q' = tl (rq_list q)" by simp_all
  have x: "?x \<in> set (rq_list q)" using l by simp
  then have u: "unat ?x < 256" and p: "rq_is_pending q (unat ?x) \<noteq> 0" using ok by (auto simp: rq_ok_def)
  have "report_pop q = Some (?x, q')"
    using ne p u by (simp add: report_pop_def rq_index hd flow_index_less q'_def Let_def)
  moreover have "rq_ok q'"
  proof -
    have ip: "rq_is_pending q' = (rq_is_pending q)(unat ?x := 0)" by (simp add: q'_def)
    obtain x xs where xs: "rq_list q = x # xs" using l by simp
    then have "distinct (x # xs)" using ok by (simp add: rq_ok_def)
    with xs tl have s: "set (rq_list q) = insert ?x (set (rq_list q'))" "?x \<notin> set (rq_list q')" by simp_all
    show ?thesis using ok s tl by (auto simp: rq_ok_def ip distinct_tl unat_eq_iff [symmetric])
  qed
  ultimately show ?thesis using tl by blast
qed

section \<open>Allocations to be sent\<close>

definition pq_list :: "pending_alloc_queue \<Rightarrow> pending_alloc list" where
  "pq_list q = entries 256 (pq_allocs q) (pq_head q) (pq_tail q)"

definition pq_inv :: "pending_alloc_queue \<Rightarrow> bool" where
  "pq_inv q \<longleftrightarrow> unat (pq_tail q - pq_head q) \<le> 256"

definition pq_pop :: "pending_alloc_queue \<Rightarrow> pending_alloc \<times> pending_alloc_queue" where
  "pq_pop q = (pq_allocs q (pq_index (pq_head q)), q\<lparr>pq_head := pq_head q + 1\<rparr>)"

lemma pq_list_Nil: "pq_list q = [] \<longleftrightarrow> pq_head q = pq_tail q"
  by (simp add: pq_list_def)

lemma pq_list_Cons:
  assumes "pq_head q \<noteq> pq_tail q"
  shows "pq_list q = pq_allocs q (pq_index (pq_head q)) # pq_list (q\<lparr>pq_head := pq_head q + 1\<rparr>)"
  using entries_deq [OF _ assms, of 256 "pq_allocs q"] by (simp add: pq_list_def pq_index_mod)

text \<open>The test for a full queue holds only when the counters are \<open>2 ^ 32 - 1\<close> apart, never with 256 entries.\<close>

lemma pq_push_eq:
  assumes "unat (pq_tail q - pq_head q) \<le> 256"
  shows "pq_push a q = q\<lparr>pq_allocs := (pq_allocs q)(pq_index (pq_tail q) := a), pq_tail := pq_tail q + 1\<rparr>"
proof -
  have "pq_head q \<noteq> pq_tail q + 1"
  proof
    assume "pq_head q = pq_tail q + 1"
    then have "pq_tail q - pq_head q = - 1" by simp
    then show False using assms by (simp add: unsigned_minus_1_eq_mask mask_eq_exp_minus_1)
  qed
  then show ?thesis by (simp add: pq_push_def Let_def)
qed

interpretation pq: fifo_buffer pq_inv "\<lambda>_. 256" pq_list "\<lambda>q a. pq_push a q" pq_pop
proof unfold_locales
  fix q :: pending_alloc_queue
  assume inv: "pq_inv q"
  show "length (pq_list q) \<le> 256" using inv by (simp add: pq_inv_def pq_list_def)
  show "pq_inv (pq_push a q) \<and> (256 :: nat) = 256 \<and> pq_list (pq_push a q) = pq_list q @ [a]" if "length (pq_list q) < 256" for a
  proof -
    have r: "unat (pq_tail q - pq_head q) < 256" using that by (simp add: pq_list_def)
    then show ?thesis
      using entries_enq [OF r, of "pq_allocs q" a] unat_Suc_diff [of "pq_tail q" "pq_head q"]
      by (simp add: pq_push_eq pq_list_def pq_inv_def pq_index_mod)
  qed
  show "fst (pq_pop q) = hd (pq_list q) \<and> pq_inv (snd (pq_pop q)) \<and> (256 :: nat) = 256 \<and> pq_list (snd (pq_pop q)) = tl (pq_list q)"
    if ne: "pq_list q \<noteq> []"
  proof -
    have h: "pq_head q \<noteq> pq_tail q" using ne by (simp add: pq_list_Nil)
    show ?thesis using pq_list_Cons [OF h] unat_pred_diff [OF h] inv by (simp add: pq_pop_def pq_inv_def)
  qed
qed

text \<open>
  C38. The queue of allocations overflows unnoticed. With 256 allocations waiting, the test for a full queue does
  not hold, so nothing is dropped or logged: the new allocation overwrites the oldest one, and the
  counters then claim 257 entries, of which the first and the last are both the new allocation.
\<close>

theorem pending_queue_overflow:
  assumes "length (pq_list q) = 256"
  shows "pq_head (pq_push a q) = pq_head q \<and> pq_list (pq_push a q) = a # tl (pq_list q) @ [a]"
proof -
  have f: "unat (pq_tail q - pq_head q) = 256" using assms by (simp add: pq_list_def)
  then show ?thesis using entries_overwrite [OF _ _ _ f, of "pq_allocs q" a] by (simp add: pq_push_eq pq_list_def pq_index_mod)
qed

theorem pending_queue_overflow_witness:
  "let q = \<lparr>pq_allocs = \<lambda>k. \<lparr>al_dst = of_nat k, al_timeslot = 0, al_flags = 0\<rparr>, pq_head = 0, pq_tail = 256\<rparr>;
       a = \<lparr>al_dst = 7, al_timeslot = 1, al_flags = 0\<rparr>
   in length (pq_list q) = 256 \<and> al_dst (hd (pq_list q)) = 0 \<and> al_dst (hd (pq_list (pq_push a q))) = 7"
proof -
  let ?q = "\<lparr>pq_allocs = \<lambda>k. \<lparr>al_dst = of_nat k, al_timeslot = 0, al_flags = 0\<rparr>, pq_head = 0, pq_tail = 256\<rparr>"
  let ?a = "\<lparr>al_dst = 7, al_timeslot = 1, al_flags = 0\<rparr>"
  have l: "length (pq_list ?q) = 256" by (simp add: pq_list_def)
  have h: "al_dst (hd (pq_list ?q)) = 0" by (simp add: pq_list_Cons pq_index_mod)
  from pending_queue_overflow [OF l, of ?a] l h show ?thesis by (simp add: Let_def)
qed

end
