(* ===== verification/Comm_Alloc.thy ===== *)
theory Comm_Alloc
  imports Comm_Report
begin

text \<open>
  The packet that tells an end node its allocations: what \<open>fill_packet_alloc\<close> writes, read back by the
  rule of the protocol (four bits for the number of the destination, four bits of flags), is a prefix of
  the queue of waiting allocations.
\<close>

section \<open>Encoding of one allocation\<close>

definition alloc_key :: "pending_alloc \<Rightarrow> u16 \<times> u8" where
  "alloc_key a = (al_dst a, al_flags a AND FLAGS_MASK)"

definition decode_tslot :: "u16 list \<Rightarrow> u8 \<Rightarrow> u16 \<times> u8" where
  "decode_tslot dsts b = (dsts ! (unat (drop_bit 4 b) - 1), b AND FLAGS_MASK)"

text \<open>The scratch space of the core numbers the destinations of the packet from one.\<close>

definition enc_ok :: "(nat \<Rightarrow> u8) \<Rightarrow> u16 list \<Rightarrow> bool" where
  "enc_ok enc dsts \<longleftrightarrow> distinct dsts \<and> length dsts \<le> 15 \<and> (\<forall>k < length dsts. enc (unat (dsts ! k)) = of_nat (Suc k))
     \<and> (\<forall>d. d \<notin> unat ` set dsts \<longrightarrow> enc d = 0)"

lemma unat_small_u8: "k < 256 \<Longrightarrow> unat (of_nat k :: u8) = k"
  by (rule unat_of_nat_word) simp

lemma enc_ok_zero_iff:
  assumes "enc_ok enc dsts"
  shows "enc (unat x) = 0 \<longleftrightarrow> x \<notin> set dsts"
proof
  assume z: "enc (unat x) = 0"
  show "x \<notin> set dsts"
  proof
    assume "x \<in> set dsts"
    then obtain k where k: "k < length dsts" "dsts ! k = x" by (auto simp: in_set_conv_nth)
    then have "enc (unat x) = of_nat (Suc k)" "k < 15" using assms by (auto simp: enc_ok_def)
    then have "unat (enc (unat x)) = Suc k" by (simp only: unat_small_u8)
    then show False by (simp add: z)
  qed
next
  assume "x \<notin> set dsts"
  then have "unat x \<notin> unat ` set dsts" by (auto simp: unat_eq_iff [symmetric])
  then show "enc (unat x) = 0" using assms by (simp add: enc_ok_def)
qed

lemma enc_ok_snoc:
  assumes ok: "enc_ok enc dsts" and x: "x \<notin> set dsts" and l: "length dsts < 15"
  shows "enc_ok (enc(unat x := of_nat (length dsts) + 1)) (dsts @ [x])"
proof -
  have "(enc(unat x := of_nat (length dsts) + 1)) (unat ((dsts @ [x]) ! k)) = of_nat (Suc k)" if k: "k < length (dsts @ [x])" for k
  proof (cases "k < length dsts")
    case True
    then have "dsts ! k \<noteq> x" using x by (metis nth_mem)
    then have "unat (dsts ! k) \<noteq> unat x" by (simp add: unat_eq_iff)
    then show ?thesis using ok True by (simp add: nth_append enc_ok_def)
  next
    case False
    then have "k = length dsts" using k by simp
    then show ?thesis by simp
  qed
  moreover have "(enc(unat x := of_nat (length dsts) + 1)) d = 0" if "d \<notin> unat ` set (dsts @ [x])" for d
    using that ok by (auto simp: enc_ok_def)
  ultimately show ?thesis using ok x l by (simp add: enc_ok_def)
qed

lemma decode_tslot_mono:
  assumes "drop_bit 4 b \<noteq> 0" "unat (drop_bit 4 b) \<le> length dsts"
  shows "decode_tslot (dsts @ xs) b = decode_tslot dsts b"
proof -
  have "unat (drop_bit 4 b) \<noteq> 0" using assms(1) by (simp add: unat_eq_zero)
  then have "unat (drop_bit 4 b) - 1 < length dsts" using assms(2) by linarith
  then show ?thesis by (simp add: decode_tslot_def nth_append del: One_nat_def)
qed

lemma tslot_byte:
  fixes f :: u8
  assumes "k \<le> 15"
  shows "drop_bit 4 (push_bit 4 (of_nat k) OR (f AND FLAGS_MASK)) = of_nat k"
    "(push_bit 4 (of_nat k) OR (f AND FLAGS_MASK)) AND FLAGS_MASK = f AND FLAGS_MASK"
proof -
  have m: "FLAGS_MASK = mask 4" by (simp add: FLAGS_MASK_def mask_eq_exp_minus_1)
  have k: "bit (of_nat k :: u8) j \<Longrightarrow> j < 4" for j
  proof (rule ccontr)
    assume b: "bit (of_nat k :: u8) j" and j: "\<not> j < 4"
    have "take_bit 4 (of_nat k :: u8) = of_nat k" using assms by (simp add: take_bit_eq_mod unat_eq_iff unat_mod unat_small_u8)
    then have "bit (take_bit 4 (of_nat k :: u8)) j" using b by simp
    then show False using j by (simp add: bit_take_bit_iff)
  qed
  show "drop_bit 4 (push_bit 4 (of_nat k) OR (f AND FLAGS_MASK)) = of_nat k"
    by (rule bit_word_eqI) (auto simp: m bit_drop_bit_eq bit_or_iff bit_and_iff bit_mask_iff bit_push_bit_iff dest: k)
  show "(push_bit 4 (of_nat k) OR (f AND FLAGS_MASK)) AND FLAGS_MASK = f AND FLAGS_MASK"
    by (rule bit_word_eqI) (auto simp: m bit_or_iff bit_and_iff bit_mask_iff bit_push_bit_iff)
qed

section \<open>The loop\<close>

definition desc_ok :: "u16 list \<Rightarrow> u8 list \<Rightarrow> bool" where
  "desc_ok dsts desc \<longleftrightarrow> (\<forall>b \<in> set desc. drop_bit 4 b \<noteq> 0 \<and> unat (drop_bit 4 b) \<le> length dsts)"

lemma decode_append:
  assumes "desc_ok dsts desc"
  shows "map (decode_tslot (dsts @ ys)) desc = map (decode_tslot dsts) desc" "desc_ok (dsts @ ys) desc"
  using assms decode_tslot_mono [of _ dsts ys] by (auto simp: desc_ok_def)

text \<open>One allocation: its destination has a number now, and its byte reads back.\<close>

lemma fill_step:
  fixes a :: pending_alloc
  assumes ok: "enc_ok enc dsts" "desc_ok dsts desc" and room: "al_dst a \<in> set dsts \<or> length dsts < 15"
  defines "x \<equiv> al_dst a"
  defines "enc1 \<equiv> (if enc (unat x) = 0 then enc(unat x := of_nat (length dsts) + 1) else enc)"
    and "dsts1 \<equiv> (if enc (unat x) = 0 then dsts @ [x] else dsts)"
  defines "b \<equiv> push_bit 4 (enc1 (unat x)) OR (al_flags a AND FLAGS_MASK)"
  shows "enc_ok enc1 dsts1" "desc_ok dsts1 (desc @ [b])"
    "map (decode_tslot dsts1) (desc @ [b]) = map (decode_tslot dsts) desc @ [alloc_key a]"
    "set dsts1 = insert x (set dsts)" "\<exists>ys. dsts1 = dsts @ ys"
proof -
  note z = enc_ok_zero_iff [OF ok(1), of x]
  show e: "enc_ok enc1 dsts1"
    using ok(1) enc_ok_snoc [OF ok(1), of x] room z by (auto simp: enc1_def dsts1_def x_def)
  show s: "set dsts1 = insert x (set dsts)" using z by (auto simp: dsts1_def)
  show ys: "\<exists>ys. dsts1 = dsts @ ys" by (auto simp: dsts1_def)
  have "x \<in> set dsts1" using s by simp
  then obtain k where k: "k < length dsts1" "dsts1 ! k = x" by (auto simp: in_set_conv_nth)
  then have ek: "enc1 (unat x) = of_nat (Suc k)" "Suc k \<le> 15" using e by (auto simp: enc_ok_def)
  have db: "drop_bit 4 b = of_nat (Suc k)" "b AND FLAGS_MASK = al_flags a AND FLAGS_MASK"
    unfolding b_def ek(1) by (rule tslot_byte [OF ek(2)])+
  have ub: "unat (drop_bit 4 b) = Suc k" unfolding db(1) using ek(2) by (intro unat_small_u8) simp
  then have nz: "drop_bit 4 b \<noteq> 0" by auto
  obtain ys where y: "dsts1 = dsts @ ys" using ys by blast
  show "desc_ok dsts1 (desc @ [b])" using decode_append(2) [OF ok(2), of ys] nz ub k(1) by (auto simp: desc_ok_def y)
  show "map (decode_tslot dsts1) (desc @ [b]) = map (decode_tslot dsts) desc @ [alloc_key a]"
    using decode_append(1) [OF ok(2), of ys] ub k(2) db(2) by (simp add: y [symmetric] decode_tslot_def alloc_key_def x_def)
qed

definition fill_stop :: "u16 list \<Rightarrow> u8 list \<Rightarrow> pending_alloc list \<Rightarrow> bool" where
  "fill_stop dsts desc rest \<longleftrightarrow> rest = [] \<or> length desc = 63 \<or> (length dsts = 15 \<and> al_dst (hd rest) \<notin> set dsts)"

lemma fill_loop_ok:
  assumes "enc_ok enc dsts" "desc_ok dsts desc" "length desc \<le> 62" "pq_head q \<noteq> pq_tail q"
    and "\<forall>a \<in> set (pq_list q). unat (al_dst a) < 256"
  shows "\<exists>enc' dsts' desc' q' n. fill_loop enc dsts desc q = Some (enc', dsts', desc', q')
    \<and> enc_ok enc' dsts' \<and> desc_ok dsts' desc' \<and> length desc' = length desc + n \<and> length desc' \<le> 63 \<and> n \<le> length (pq_list q)
    \<and> map (decode_tslot dsts') desc' = map (decode_tslot dsts) desc @ map alloc_key (take n (pq_list q))
    \<and> pq_list q' = drop n (pq_list q) \<and> pq_allocs q' = pq_allocs q \<and> fill_stop dsts' desc' (pq_list q')
    \<and> set dsts' = set dsts \<union> al_dst ` set (take n (pq_list q))"
  using assms
proof (induction "pq_list q" arbitrary: enc dsts desc q)
  case Nil
  then show ?case by (simp add: pq_list_Nil [symmetric])
next
  case (Cons a L q enc dsts desc)
  define q1 where "q1 = q\<lparr>pq_head := pq_head q + 1\<rparr>"
  let ?x = "al_dst a"
  have a: "a = pq_allocs q (pq_index (pq_head q))" and L: "L = pq_list q1"
    using pq_list_Cons [OF Cons(6)] Cons(2) by (simp_all add: q1_def)
  have x: "unat ?x < 256" using Cons(7) Cons(2) [symmetric] by simp
  note z = enc_ok_zero_iff [OF Cons(3), of ?x]
  show ?case
  proof (cases "enc (unat ?x) = 0 \<and> length dsts = 15")
    case True
    then have "fill_loop enc dsts desc q = Some (enc, dsts, desc, q)"
      using x by (subst fill_loop.simps) (simp add: Let_def a [symmetric] flow_index_less)
    then show ?thesis using Cons(3-5) True z Cons(2) [symmetric]
      by (intro exI [of _ enc] exI [of _ dsts] exI [of _ desc] exI [of _ q] exI [of _ 0]) (simp add: fill_stop_def)
  next
    case False
    define enc1 where "enc1 = (if enc (unat ?x) = 0 then enc(unat ?x := of_nat (length dsts) + 1) else enc)"
    define dsts1 where "dsts1 = (if enc (unat ?x) = 0 then dsts @ [?x] else dsts)"
    define b where "b = push_bit 4 (enc1 (unat ?x)) OR (al_flags a AND FLAGS_MASK)"
    have room: "?x \<in> set dsts \<or> length dsts < 15" using False z Cons(3) by (auto simp: enc_ok_def)
    note step = fill_step [OF Cons(3,4) room, folded enc1_def, folded dsts1_def, folded b_def]
    have run: "fill_loop enc dsts desc q = (if pq_tail q1 \<noteq> pq_head q1 \<and> length (desc @ [b]) \<le> 62
        then fill_loop enc1 dsts1 (desc @ [b]) q1 else Some (enc1, dsts1, desc @ [b], q1))"
      using x False by (subst fill_loop.simps)
        (cases "enc (unat ?x) = 0"; simp add: Let_def a [symmetric] flow_index_less enc1_def dsts1_def b_def q1_def FASTPASS_PKT_MAX_ALLOC_TSLOTS_def)
    show ?thesis
    proof (cases "pq_tail q1 \<noteq> pq_head q1 \<and> length (desc @ [b]) \<le> 62")
      case True
      have "\<forall>a \<in> set (pq_list q1). unat (al_dst a) < 256" using Cons(7) Cons(2) [symmetric] L by simp
      with Cons(1) [OF L step(1,2)] True obtain enc' dsts' desc' q' n where
        IH: "fill_loop enc1 dsts1 (desc @ [b]) q1 = Some (enc', dsts', desc', q')" "enc_ok enc' dsts'" "desc_ok dsts' desc'"
          "length desc' = length (desc @ [b]) + n" "length desc' \<le> 63" "n \<le> length (pq_list q1)"
          "map (decode_tslot dsts') desc' = map (decode_tslot dsts1) (desc @ [b]) @ map alloc_key (take n (pq_list q1))"
          "pq_list q' = drop n (pq_list q1)" "pq_allocs q' = pq_allocs q1" "fill_stop dsts' desc' (pq_list q')"
          "set dsts' = set dsts1 \<union> al_dst ` set (take n (pq_list q1))" by metis
      show ?thesis
        using run True IH Cons(2) [symmetric] step(3,4) L
        by (intro exI [of _ enc'] exI [of _ dsts'] exI [of _ desc'] exI [of _ q'] exI [of _ "Suc n"]) (simp add: q1_def)
    next
      case stop: False
      have "fill_stop dsts1 (desc @ [b]) (pq_list q1)" using stop Cons(5) by (auto simp: fill_stop_def pq_list_Nil)
      moreover have "fill_loop enc dsts desc q = Some (enc1, dsts1, desc @ [b], q1)" using run stop by auto
      ultimately show ?thesis
        using Cons(2) [symmetric] Cons(5) step L
        by (intro exI [of _ enc1] exI [of _ dsts1] exI [of _ "desc @ [b]"] exI [of _ q1] exI [of _ 1]) (simp add: q1_def)
    qed
  qed
qed

section \<open>The packet\<close>

lemma clear_enc_space_ok:
  assumes "enc_ok enc dsts"
  shows "clear_enc_space dsts enc = (\<lambda>_. 0)"
proof -
  have "clear_enc_space dsts enc d = (if d \<in> unat ` set dsts then 0 else enc d)" for d
    unfolding clear_enc_space_def by (induction dsts arbitrary: enc) auto
  then show ?thesis using assms by (auto simp: enc_ok_def)
qed

lemma fill_packet_alloc_ok:
  assumes dst: "\<forall>a \<in> set (pq_list (en_pending_allocs (cm_end_nodes cm i))). unat (al_dst a) < 256"
    and enc: "cc_alloc_enc_space (cm_core cm) = (\<lambda>_. 0)"
  defines "L \<equiv> pq_list (en_pending_allocs (cm_end_nodes cm i))"
  shows "\<exists>pd' q' n. fill_packet_alloc i pd cm = Some (pd', upd_en i (en_pending_allocs_update (\<lambda>_. q')) cm)
    \<and> pq_list q' = drop n L \<and> pq_allocs q' = pq_allocs (en_pending_allocs (cm_end_nodes cm i)) \<and> n \<le> length L \<and> n \<le> 63
    \<and> unat (pd_used_alloc_tslot pd') = n \<and> map (decode_tslot (pd_dsts pd')) (take n (pd_tslot_desc pd')) = map alloc_key (take n L)
    \<and> length (pd_tslot_desc pd') = n + n mod 2 \<and> unat (pd_alloc_tslot pd') = n + n mod 2
    \<and> distinct (pd_dsts pd') \<and> length (pd_dsts pd') \<le> 15 \<and> unat (pd_n_dsts pd') = length (pd_dsts pd')
    \<and> set (pd_dsts pd') = al_dst ` set (take n L)
    \<and> desc_ok (pd_dsts pd') (take n (pd_tslot_desc pd')) \<and> drop n (pd_tslot_desc pd') = replicate (n mod 2) 0
    \<and> (L \<noteq> [] \<longrightarrow> 0 < n \<and> pd_base_tslot pd' = al_timeslot (hd L))
    \<and> (n = length L \<or> n = 63 \<or> (length (pd_dsts pd') = 15 \<and> al_dst (L ! n) \<notin> set (pd_dsts pd')))"
proof -
  let ?q = "en_pending_allocs (cm_end_nodes cm i)"
  have core: "upd_core (cc_alloc_enc_space_update (\<lambda>_ _. 0)) c = c" if "cc_alloc_enc_space (cm_core c) = (\<lambda>_. 0)" for c
    using that by (simp add: upd_core_def)
  show ?thesis
  proof (cases "pq_head ?q = pq_tail ?q")
    case True
    have same: "upd_en i (en_pending_allocs_update (\<lambda>_. ?q)) cm = cm" by (simp add: upd_en_def)
    have "L = []" using True by (simp add: L_def pq_list_Nil)
    then show ?thesis using True core [of cm] same enc
      by (intro exI exI [of _ ?q] exI [of _ 0] conjI) (auto simp: fill_packet_alloc_def L_def desc_ok_def)
  next
    case False
    have "enc_ok (\<lambda>_. 0) []" "desc_ok [] []" by (simp_all add: enc_ok_def desc_ok_def)
    from fill_loop_ok [OF this _ False dst] obtain enc' dsts' desc' q' n where
      f: "fill_loop (\<lambda>_. 0) [] [] ?q = Some (enc', dsts', desc', q')" "enc_ok enc' dsts'" "length desc' = n" "n \<le> 63" "n \<le> length L"
        "map (decode_tslot dsts') desc' = map alloc_key (take n L)" "pq_list q' = drop n L"
        "fill_stop dsts' desc' (pq_list q')" "set dsts' = al_dst ` set (take n L)" "pq_allocs q' = pq_allocs ?q" "desc_ok dsts' desc'"
      unfolding L_def by auto
    have h: "al_timeslot (pq_allocs ?q (pq_index (pq_head ?q))) = al_timeslot (hd L)"
      using pq_list_Cons [OF False] by (simp add: L_def)
    let ?desc = "if odd n then desc' @ [0] else desc'"
    define pd' where "pd' = pd\<lparr>pd_base_tslot := al_timeslot (hd L), pd_used_alloc_tslot := of_nat n, pd_tslot_desc := ?desc,
        pd_n_dsts := of_nat (length dsts'), pd_dsts := dsts', pd_alloc_tslot := of_nat (n + n mod 2)\<rparr>"
    have len: "length ?desc = n + n mod 2" using f(3) by (simp add: mod2_eq_if)
    have pad: "take n ?desc = desc'" "drop n ?desc = replicate (n mod 2) 0" using f(3) by (simp_all add: mod2_eq_if)
    have "even (n + n mod 2)" by simp
    then have ev: "(of_nat (n + n mod 2) :: u16) AND 1 = 0" by (metis and_one_eq even_iff_mod_2_eq_zero even_of_nat)
    have run: "fill_packet_alloc i pd cm = Some (pd', upd_en i (en_pending_allocs_update (\<lambda>_. q')) cm)"
      using False f(1,3) ev len core [of "upd_en i (en_pending_allocs_update (\<lambda>_. q')) cm"] enc
      by (simp add: fill_packet_alloc_def Let_def h clear_enc_space_ok [OF f(2)] pd'_def upd_en_def)
    have d: "distinct dsts'" "length dsts' \<le> 15" using f(2) by (simp_all add: enc_ok_def)
    have "n mod 2 < 2" by simp
    then have "n + n mod 2 < 2 ^ 16" using f(4) by simp
    then have "unat (of_nat (n + n mod 2) :: u16) = n + n mod 2" by (intro unat_of_nat_word) simp
    moreover have "unat (of_nat n :: u16) = n" "unat (of_nat (length dsts') :: u16) = length dsts'"
      using f(4) d(2) by (auto intro!: unat_of_nat_word)
    ultimately have u: "unat (pd_used_alloc_tslot pd') = n" "unat (pd_n_dsts pd') = length dsts'" "unat (pd_alloc_tslot pd') = n + n mod 2"
      by (simp_all add: pd'_def del: of_nat_add)
    have pos: "0 < n"
    proof (rule ccontr)
      assume "\<not> 0 < n"
      then have "n = 0" by simp
      then show False using f(3,7,8,9) False by (auto simp: fill_stop_def L_def pq_list_Nil)
    qed
    have stop: "n = length L \<or> n = 63 \<or> (length dsts' = 15 \<and> al_dst (L ! n) \<notin> set dsts')"
      using f(3,5,7,8) by (cases "n = length L") (auto simp: fill_stop_def hd_drop_conv_nth)
    have p: "pd_dsts pd' = dsts'" "pd_tslot_desc pd' = ?desc" "pd_base_tslot pd' = al_timeslot (hd L)" by (simp_all add: pd'_def)
    show ?thesis
      by (rule exI [of _ pd'], rule exI [of _ q'], rule exI [of _ n]) (use run f(3-7,9-11) pad len d u pos stop in \<open>simp add: p\<close>)
  qed
qed

end
