(* ===== verification/Comm_Inv.thy ===== *)
theory Comm_Inv
  imports Comm_Alloc
begin

text \<open>
  The invariant of the communication core. The pacer of a node is triggered only while its transmission
  timer is armed, and a node with flows to report has its timer armed: no report is forgotten. Between
  the moment a timer expires and the transmission to its node, the node is in the set \<open>E\<close> of nodes that are
  still to be served; \<open>F\<close> has in addition the node that is being served.
\<close>

section \<open>Invariant\<close>

definition alloc_dsts_ok :: "pending_alloc_queue \<Rightarrow> bool" where
  "alloc_dsts_ok q \<longleftrightarrow> (\<forall>k. unat (al_dst (pq_allocs q k)) < 256)"

definition node_ok :: "end_node_state \<Rightarrow> bool" where
  "node_ok en \<longleftrightarrow> rq_ok (en_report_queue en) \<and> alloc_dsts_ok (en_pending_allocs en)"

definition core_ok :: "comm_core_state \<Rightarrow> bool" where
  "core_ok core \<longleftrightarrow> tw_inv (cc_tx_timers core) \<and> tw_inv (cc_timeout_timers core) \<and> cc_alloc_enc_space core = (\<lambda>_. 0)"

abbreviation tx_set :: "comm \<Rightarrow> nat \<Rightarrow> bool" where
  "tx_set cm i \<equiv> armed (cc_tx_timers (cm_core cm)) i \<noteq> None"

definition comm_ok :: "nat set \<Rightarrow> nat set \<Rightarrow> comm \<Rightarrow> bool" where
  "comm_ok E F cm \<longleftrightarrow> E \<subseteq> F \<and> core_ok (cm_core cm) \<and> (\<forall>i. node_ok (cm_end_nodes cm i))
     \<and> (\<forall>i. i \<notin> E \<and> pacer_is_triggered (en_tx_pacer (cm_end_nodes cm i)) \<longrightarrow> tx_set cm i)
     \<and> (\<forall>i. i \<notin> F \<and> \<not> report_empty (en_report_queue (cm_end_nodes cm i)) \<longrightarrow> tx_set cm i)"

lemma comm_okD:
  assumes "comm_ok E F cm"
  shows "E \<subseteq> F" "core_ok (cm_core cm)" "node_ok (cm_end_nodes cm i)"
    "i \<notin> E \<Longrightarrow> pacer_is_triggered (en_tx_pacer (cm_end_nodes cm i)) \<Longrightarrow> tx_set cm i"
    "i \<notin> F \<Longrightarrow> \<not> report_empty (en_report_queue (cm_end_nodes cm i)) \<Longrightarrow> tx_set cm i"
  using assms by (auto simp: comm_ok_def)

lemma upd_en_simps [simp]:
  "cm_end_nodes (upd_en i f cm) = (cm_end_nodes cm)(i := f (cm_end_nodes cm i))"
  "cm_core (upd_en i f cm) = cm_core cm" "cm_status (upd_en i f cm) = cm_status cm"
  "cm_end_nodes (upd_core g cm) = cm_end_nodes cm" "cm_core (upd_core g cm) = g (cm_core cm)"
  "cm_status (upd_core g cm) = cm_status cm"
  by (simp_all add: upd_en_def upd_core_def)

lemma comm_ok_status [simp]: "comm_ok E F (cm\<lparr>cm_status := st\<rparr>) = comm_ok E F cm"
  by (simp add: comm_ok_def)

text \<open>A change of a node that leaves its queues and its pacer alone.\<close>

lemma comm_ok_upd_en:
  assumes "comm_ok E F cm" "en_report_queue (f (cm_end_nodes cm i)) = en_report_queue (cm_end_nodes cm i)"
    "en_tx_pacer (f (cm_end_nodes cm i)) = en_tx_pacer (cm_end_nodes cm i)"
    "alloc_dsts_ok (en_pending_allocs (cm_end_nodes cm i)) \<Longrightarrow> alloc_dsts_ok (en_pending_allocs (f (cm_end_nodes cm i)))"
  shows "comm_ok E F (upd_en i f cm)"
  using assms by (auto simp: comm_ok_def node_ok_def)

section \<open>Triggers\<close>

text \<open>
  \<open>trigger_request\<close> restores the invariant for a node that wants a transmission, as long as the pacer and
  the timer agree.
\<close>

lemma trigger_request_ok:
  assumes EF: "E \<subseteq> F" and core: "core_ok (cm_core cm)" and nodes: "\<And>j. node_ok (cm_end_nodes cm j)"
    and pacers: "\<And>j. j \<notin> E \<Longrightarrow> pacer_is_triggered (en_tx_pacer (cm_end_nodes cm j)) \<Longrightarrow> tx_set cm j"
    and others: "\<And>j. j \<notin> F \<Longrightarrow> j \<noteq> i \<Longrightarrow> \<not> report_empty (en_report_queue (cm_end_nodes cm j)) \<Longrightarrow> tx_set cm j"
  shows "comm_ok E F (trigger_request now i cm)" "i \<notin> E \<Longrightarrow> tx_set (trigger_request now i cm) i"
proof -
  let ?en = "cm_end_nodes cm i"
  have "comm_ok E F (trigger_request now i cm) \<and> (i \<notin> E \<longrightarrow> tx_set (trigger_request now i cm) i)"
  proof (cases "pacer_is_triggered (en_tx_pacer ?en)")
    case True
    then have "trigger_request now i cm = upd_en i (\<lambda>en. en) cm"
      by (simp add: trigger_request_def pacer_trigger_def upd_en_def)
    also have "\<dots> = cm" by (simp add: upd_en_def)
    finally have "trigger_request now i cm = cm" .
    moreover have "tx_set cm j" if "j \<notin> F" "\<not> report_empty (en_report_queue (cm_end_nodes cm j))" for j
      using that others [of j] pacers [of i] True EF by (cases "j = i") auto
    ultimately show ?thesis using True assms by (auto simp: comm_ok_def)
  next
    case False
    define pa where "pa = snd (pacer_trigger (en_tx_pacer ?en) now)"
    define cm' where "cm' = trigger_request now i cm"
    have "pacer_trigger (en_tx_pacer ?en) now = (True, pa)" using False by (simp add: pacer_trigger_def pa_def)
    then have cm': "cm_end_nodes cm' = (cm_end_nodes cm)(i := ?en\<lparr>en_tx_pacer := pa\<rparr>)"
      "cm_core cm' = (cm_core cm)\<lparr>cc_tx_timers := fp_timer_reset (cc_tx_timers (cm_core cm)) i (pacer_next_event pa)\<rparr>"
      by (simp_all add: cm'_def trigger_request_def)
    have w: "tw_inv (cc_tx_timers (cm_core cm'))"
        "armed (cc_tx_timers (cm_core cm')) = (armed (cc_tx_timers (cm_core cm)))(i \<mapsto> granule (pacer_next_event pa))"
      using core wheel.reset_ok by (auto simp: cm' core_ok_def)
    have c: "core_ok (cm_core cm')" using core w(1) by (simp add: core_ok_def cm')
    have n: "node_ok (cm_end_nodes cm' j)" for j using nodes [of j] nodes [of i] by (simp add: cm' node_ok_def)
    have t: "tx_set cm' j" if "j \<notin> E" "pacer_is_triggered (en_tx_pacer (cm_end_nodes cm' j))" for j
      using that pacers [of j] by (cases "j = i") (simp_all add: w(2), simp add: cm')
    have u: "tx_set cm' j" if "j \<notin> F" "\<not> report_empty (en_report_queue (cm_end_nodes cm' j))" for j
      using that others [of j] by (cases "j = i") (simp_all add: w(2), simp add: cm')
    show ?thesis unfolding cm'_def [symmetric] using EF c n t u w(2) by (simp add: comm_ok_def)
  qed
  then show "comm_ok E F (trigger_request now i cm)" "i \<notin> E \<Longrightarrow> tx_set (trigger_request now i cm) i" by auto
qed

lemma trigger_request_keeps: "comm_ok E F cm \<Longrightarrow> comm_ok E F (trigger_request now i cm)"
  by (rule trigger_request_ok(1)) (auto simp: comm_ok_def)

lemma trigger_request_frame:
  "cm_status (trigger_request now i cm) = cm_status cm"
  "cc_timeout_timers (cm_core (trigger_request now i cm)) = cc_timeout_timers (cm_core cm)"
  "cc_latest_timeslot (cm_core (trigger_request now i cm)) = cc_latest_timeslot (cm_core cm)"
  "\<exists>pa. cm_end_nodes (trigger_request now i cm) = (cm_end_nodes cm)(i := (cm_end_nodes cm i)\<lparr>en_tx_pacer := pa\<rparr>)"
  by (cases "pacer_trigger (en_tx_pacer (cm_end_nodes cm i)) now", auto simp: trigger_request_def Let_def)+

text \<open>A flow to report is queued once, and a transmission is on its way.\<close>

lemma trigger_report_eq:
  assumes "unat dst < 256"
  shows "trigger_report now i dst cm = Some (if rq_is_pending (en_report_queue (cm_end_nodes cm i)) (unat dst) \<noteq> 0 then cm
    else trigger_request now i (upd_en i (en_report_queue_update (rq_push dst)) cm))"
proof -
  have r: "en_report_queue_update (rq_push dst) en = en\<lparr>en_report_queue := rq_push dst (en_report_queue en)\<rparr>" for en
    by (cases en) simp
  show ?thesis using assms by (simp add: trigger_report_def flow_index_less rq_push_def Let_def upd_en_def r)
qed

lemma trigger_report_ok:
  assumes ok: "comm_ok E F cm" and d: "unat dst < 256"
  shows "\<exists>cm'. trigger_report now i dst cm = Some cm' \<and> comm_ok E F cm'
    \<and> dst \<in> set (rq_list (en_report_queue (cm_end_nodes cm' i)))"
proof -
  let ?q = "en_report_queue (cm_end_nodes cm i)"
  have q: "rq_ok ?q" using comm_okD(3) [OF ok, of i] by (simp add: node_ok_def)
  show ?thesis
  proof (cases "dst \<in> set (rq_list ?q)")
    case True
    then have "rq_is_pending ?q (unat dst) \<noteq> 0" using q d by (simp add: rq_ok_def)
    then show ?thesis using trigger_report_eq [OF d, of now i cm] ok True by simp
  next
    case False
    let ?cm = "upd_en i (en_report_queue_update (rq_push dst)) cm"
    have p: "rq_is_pending ?q (unat dst) = 0" using False q d by (auto simp: rq_ok_def)
    note push = rq_push_ok [OF q d]
    have "comm_ok E (F :: nat set) (trigger_request now i ?cm)"
    proof (rule trigger_request_ok(1))
      show "E \<subseteq> F" "core_ok (cm_core ?cm)" using comm_okD(1,2) [OF ok] by simp_all
      show "node_ok (cm_end_nodes ?cm j)" for j using comm_okD(3) [OF ok, of j] push(1) by (auto simp: node_ok_def)
      show "tx_set ?cm j" if "j \<notin> E" "pacer_is_triggered (en_tx_pacer (cm_end_nodes ?cm j))" for j
        using comm_okD(4) [OF ok that(1)] that by (auto split: if_splits)
      show "tx_set ?cm j" if "j \<notin> F" "j \<noteq> i" "\<not> report_empty (en_report_queue (cm_end_nodes ?cm j))" for j
        using comm_okD(5) [OF ok that(1)] that by simp
    qed
    moreover have "dst \<in> set (rq_list (en_report_queue (cm_end_nodes (trigger_request now i ?cm) i)))"
      using trigger_request_frame(4) [of now i ?cm] push(2) False by auto
    ultimately show ?thesis using trigger_report_eq [OF d, of now i cm] p by simp
  qed
qed

section \<open>Handlers\<close>

lemma areq_loop_keeps: "areq_loop i xs cm = Some (b, cm') \<Longrightarrow> comm_ok E F cm \<Longrightarrow> comm_ok E F cm'"
proof (induction xs arbitrary: cm)
  case (Cons x xs)
  have up: "comm_ok E F (upd_en i (\<lambda>en. en\<lparr>en_demands := (en_demands en)(d := v)\<rparr>) (cm\<lparr>cm_status := st\<rparr>))" for d v st
    by (rule comm_ok_upd_en) (use Cons.prems(2) in simp_all)
  from Cons.prems(1) show ?case
    by (cases x) (use Cons.prems(2) in \<open>auto simp: Let_def bind_eq_Some_conv split: if_splits intro: Cons.IH up\<close>)
qed simp

lemma handle_reset_keeps:
  assumes "handle_reset i cm = Some cm'" "comm_ok E F cm"
  shows "comm_ok E F cm'"
proof -
  obtain st where cm': "cm' = upd_en i (\<lambda>en. en\<lparr>en_demands := (\<lambda>_. 0), en_alloc_to_dst := (\<lambda>_. 0), en_acked_allocs := (\<lambda>_. 0),
         en_report_queue := (en_report_queue en)\<lparr>rq_head := 0, rq_tail := 0, rq_is_pending := (\<lambda>_. 0)\<rparr>\<rparr>)
       (cm\<lparr>cm_status := st\<rparr>)" using assms(1) by (auto simp: handle_reset_def bind_eq_Some_conv)
  have "rq_ok (q\<lparr>rq_head := 0, rq_tail := 0, rq_is_pending := (\<lambda>_. 0)\<rparr>)" "report_empty (q\<lparr>rq_head := 0, rq_tail := 0, rq_is_pending := (\<lambda>_. 0)\<rparr>)" for q
    by (simp_all add: rq_ok_def rq_list_def entries_def report_empty_def)
  then show ?thesis using assms(2) by (auto simp: cm' comm_ok_def node_ok_def)
qed

lemma neg_ack_entry_keeps: "neg_ack_entry now i a cm = Some cm' \<Longrightarrow> comm_ok E F cm \<Longrightarrow> comm_ok E F cm'"
  using trigger_report_ok [of E F cm "ucast (areq_src_dst_key a)" now i]
  by (auto simp: neg_ack_entry_def Let_def bind_eq_Some_conv split: if_splits)

lemma ack_entry_keeps: "ack_entry i a cm = Some cm' \<Longrightarrow> comm_ok E F cm \<Longrightarrow> comm_ok E F cm'"
  by (auto simp: ack_entry_def Let_def bind_eq_Some_conv intro!: comm_ok_upd_en)

lemma retrans_timer_keeps:
  assumes "comm_ok E F cm"
  shows "comm_ok E F (set_retrans_timer i when cm)" "comm_ok E F (cancel_retrans_timer i cm)"
  using assms wheel.reset_ok [of "cc_timeout_timers (cm_core cm)" i "when"] wheel.stop_ok [of "cc_timeout_timers (cm_core cm)" i]
  by (auto simp: comm_ok_def core_ok_def set_retrans_timer_def cancel_retrans_timer_def)

lemma proto_ops_keeps:
  assumes run: "proto_ops now i e cm = Some cm'" and ok: "comm_ok E F cm"
  shows "comm_ok E F cm'"
proof (cases e)
  case Handle_reset
  then show ?thesis using run ok handle_reset_keeps by simp
next
  case (Handle_ack pd)
  then show ?thesis
    using run ok for_each_invariant [where I = "comm_ok E F" and f = "ack_entry i"] ack_entry_keeps by (auto simp: handle_ack_def)
next
  case (Handle_neg_ack pd)
  then show ?thesis
    using run ok for_each_invariant [where I = "comm_ok E F" and f = "neg_ack_entry now i"] neg_ack_entry_keeps by (auto simp: handle_neg_ack_def)
next
  case (Handle_areq data n)
  then obtain b cm1 where l: "areq_loop i (areq_entries data n) cm = Some (b, cm1)"
    and cm': "cm' = (if b then trigger_request now i cm1 else cm1)"
    using run by (auto simp: handle_areq_def bind_eq_Some_conv)
  from areq_loop_keeps [OF l ok] show ?thesis by (simp add: cm' trigger_request_keeps)
qed (use run ok retrans_timer_keeps in \<open>auto simp: handle_skipped_ack_def trigger_request_keeps\<close>)

lemma with_conn_keeps:
  assumes "with_conn now i f cm = Some (r, cm')" "comm_ok E F cm"
  shows "comm_ok E F cm'"
proof -
  obtain c' es where es: "for_each (proto_ops now i) es (upd_en i (en_conn_update (\<lambda>_. c')) cm) = Some cm'"
    using assms(1) by (auto simp: with_conn_def Let_def bind_eq_Some_conv)
  have "comm_ok E F (upd_en i (en_conn_update (\<lambda>_. c')) cm)" by (rule comm_ok_upd_en [OF assms(2)]) simp_all
  with es show ?thesis by (rule for_each_invariant) (auto intro: proto_ops_keeps)
qed

section \<open>Admitted traffic\<close>

lemma pq_push_dsts: "alloc_dsts_ok q \<Longrightarrow> unat (al_dst a) < 256 \<Longrightarrow> alloc_dsts_ok (pq_push a q)"
  by (simp add: alloc_dsts_ok_def pq_push_def Let_def)

lemma process_edge_ok:
  assumes ok: "comm_ok E F cm" and f: "get_admitted_fields tr j = (src, dst, flags)" "unat src < 256" "unat dst < 256"
  shows "\<exists>cm'. process_edge now ts tr j cm = Some cm' \<and> comm_ok E F cm'
    \<and> dst \<in> set (rq_list (en_report_queue (cm_end_nodes cm' (unat src))))"
proof -
  let ?a = "\<lparr>al_dst = dst, al_timeslot = ucast (drop_bit 4 ts AND 0xFFFF), al_flags = flags AND FLAGS_MASK\<rparr>"
  let ?cm = "upd_en (unat src) (\<lambda>en. en\<lparr>en_pending_allocs := pq_push ?a (en_pending_allocs en),
        en_alloc_to_dst := (en_alloc_to_dst en)(unat dst := en_alloc_to_dst en (unat dst) + 1)\<rparr>) cm"
  have "comm_ok E F ?cm" by (rule comm_ok_upd_en [OF ok]) (use f(3) in \<open>simp_all add: pq_push_dsts\<close>)
  from trigger_report_ok [OF this f(3), of now "unat src"] show ?thesis
    using f by (simp add: process_edge_def Let_def node_index_def MAX_NODES_def flow_index_less)
qed

text \<open>A list of admitted traffic whose sources and destinations, without the path bits, are nodes.\<close>

definition admitted_ok :: "admitted_traffic \<Rightarrow> bool" where
  "admitted_ok tr \<longleftrightarrow> (\<forall>j < unat (ad_size tr). unat (a_src (ad_edges tr j)) < 256 \<and> unat (a_dst (ad_edges tr j) AND DST_MASK) < 256)"

lemma process_admitted_ok:
  assumes "comm_ok E F cm" "admitted_ok tr"
  shows "returns (process_admitted now tr cm) (comm_ok E F)"
proof -
  let ?ts = "cc_latest_timeslot (cm_core cm) (unat (get_admitted_partition tr)) + 1"
  let ?cm = "upd_core (\<lambda>core. core\<lparr>cc_latest_timeslot := (cc_latest_timeslot core)(unat (get_admitted_partition tr) := ?ts)\<rparr>) cm"
  have "comm_ok E F ?cm" using assms(1) by (simp add: comm_ok_def core_ok_def)
  then have "returns (for_each (process_edge now ?ts tr) [0 ..< unat (get_size tr)] ?cm) (comm_ok E F)"
  proof (rule for_each_loop [where P = "\<lambda>_. comm_ok E F"])
    fix j s assume j: "j < unat (get_size tr)" and s: "comm_ok E F s"
    obtain src dst flags where f: "get_admitted_fields tr j = (src, dst, flags)" by (cases "get_admitted_fields tr j")
    then have "unat src < 256" "unat dst < 256"
      using assms(2) j by (auto simp: get_admitted_fields_def Let_def admitted_ok_def get_size_def)
    from process_edge_ok [OF s f this, of now ?ts] show "returns (process_edge now ?ts tr j s) (comm_ok E F)"
      by (auto simp: returns_def)
  qed
  then show ?thesis by (simp add: process_admitted_def Let_def)
qed

lemma process_allocated_ok:
  assumes "comm_ok E F cm" "\<forall>tr \<in> set trs. admitted_ok tr"
  shows "returns (process_allocated_traffic_one_q now trs cm) (comm_ok E F)"
  unfolding process_allocated_traffic_one_q_def
  by (rule returns_mono [OF returns_for_each [where I = "\<lambda>xs s. comm_ok E F s \<and> set xs \<subseteq> set trs"]])
    (use assms process_admitted_ok in \<open>auto simp: returns_def\<close>)

section \<open>Transmission\<close>

text \<open>The totals that go into a packet: the oldest flows to report, at most ten.\<close>

definition report_entry :: "end_node_state \<Rightarrow> u16 \<Rightarrow> fpproto_areq_desc" where
  "report_entry en x = \<lparr>areq_src_dst_key = ucast x,
     areq_tslots = ucast (en_alloc_to_dst en (unat x) - (pq_tail (en_pending_allocs en) - pq_head (en_pending_allocs en)))\<rparr>"

lemma report_loop_ok:
  assumes "rq_ok (en_report_queue en)" "length out \<le> 10"
  shows "\<exists>q. report_loop en out = Some (out @ map (report_entry en) (take (10 - length out) (rq_list (en_report_queue en))),
        en\<lparr>en_report_queue := q\<rparr>)
    \<and> rq_ok q \<and> rq_list q = drop (10 - length out) (rq_list (en_report_queue en))"
  using assms
proof (induction "10 - length out" arbitrary: en out)
  case 0
  then have "report_loop en out = Some (out, en)" by (subst report_loop.simps) (simp add: FASTPASS_PKT_MAX_AREQ_def)
  then show ?case using 0 by (intro exI [of _ "en_report_queue en"]) simp
next
  case (Suc k out en)
  show ?case
  proof (cases "report_empty (en_report_queue en)")
    case True
    then have "report_loop en out = Some (out, en)" by (subst report_loop.simps) simp
    then show ?thesis using True Suc(3) by (intro exI [of _ "en_report_queue en"]) (simp add: report_empty_iff)
  next
    case False
    then obtain x xs where xs: "rq_list (en_report_queue en) = x # xs" by (cases "rq_list (en_report_queue en)") (simp_all add: report_empty_iff)
    from report_pop_ok [OF Suc(3) False] obtain q where
      q: "report_pop (en_report_queue en) = Some (x, q)" "rq_ok q" "rq_list q = xs" by (auto simp: xs)
    have x: "unat x < 256" using Suc(3) xs by (simp add: rq_ok_def)
    let ?en = "en\<lparr>en_report_queue := q\<rparr>"
    let ?out = "out @ [report_entry en x]"
    have "length out < 10" using Suc(2) by simp
    then have step: "report_loop en out = report_loop ?en ?out"
      using False q(1) x by (subst report_loop.simps)
        (simp add: FASTPASS_PKT_MAX_AREQ_def flow_index_less Let_def report_entry_def)
    have e: "report_entry ?en = report_entry en" by (simp add: report_entry_def fun_eq_iff)
    have k: "k = 10 - length ?out" "length ?out \<le> 10" "rq_ok (en_report_queue ?en)" using Suc(2) q(2) by simp_all
    from Suc(1) [OF k(1,3,2)] obtain q' where
      "report_loop ?en ?out = Some (?out @ map (report_entry en) (take k xs), ?en\<lparr>en_report_queue := q'\<rparr>)"
      "rq_ok q'" "rq_list q' = drop k xs" unfolding e k(1) [symmetric] by (auto simp: q(3))
    then show ?thesis using step xs Suc(2) by (intro exI [of _ q']) (simp add: Suc(2) [symmetric])
  qed
qed

end
