(* ===== verification/Comm_Loop.thy ===== *)
theory Comm_Loop
  imports Comm_Core
begin

text \<open>
  Reception, start-up and the main loop of a communication core, and the loop of a backup arbiter that waits for
  the watchdog of the master (\<^verbatim>\<open>src/src/arbiter/comm_core.c\<close>). What the network card, the clock and the
  pools deliver in a round is an argument.
\<close>

section \<open>Reception\<close>

text \<open>A buffer of the network card: its memory, the number of bytes received, and the address of the payload.\<close>

record rte_mbuf =
  mb_mem :: "nat \<Rightarrow> u8"
  mb_len :: nat
  mb_addr :: u64

definition ETHER_TYPE_ARP :: u16 where "ETHER_TYPE_ARP = 0x0806"
definition ETHER_TYPE_IPv4 :: u16 where "ETHER_TYPE_IPv4 = 0x0800"
definition IPPROTO_FASTPASS_WATCHDOG :: u8 where "IPPROTO_FASTPASS_WATCHDOG = 223"
definition IPPROTO_FASTPASS_KILL :: u8 where "IPPROTO_FASTPASS_KILL = 225"
definition PREFETCH_OFFSET :: nat where "PREFETCH_OFFSET = 3"

definition mb_bytes :: "rte_mbuf \<Rightarrow> nat \<Rightarrow> nat \<Rightarrow> u8 list" where
  "mb_bytes m off n = map (mb_mem m) [off ..< off + n]"

definition eth_type :: "rte_mbuf \<Rightarrow> u16" where "eth_type m = rd_be16 (mb_bytes m 12 2) 0"
definition eth_src :: "rte_mbuf \<Rightarrow> u8 list" where "eth_src m = mb_bytes m 6 6"
definition ip_version_ihl :: "rte_mbuf \<Rightarrow> u8" where "ip_version_ihl m = mb_mem m 14"
definition ip_total_length :: "rte_mbuf \<Rightarrow> u16" where "ip_total_length m = rd_be16 (mb_bytes m 16 2) 0"
definition ip_proto :: "rte_mbuf \<Rightarrow> u8" where "ip_proto m = mb_mem m 23"
definition ip_src :: "rte_mbuf \<Rightarrow> u32" where "ip_src m = rd_be32 (mb_bytes m 26 4) 0"
definition ip_dst :: "rte_mbuf \<Rightarrow> u32" where "ip_dst m = rd_be32 (mb_bytes m 30 4) 0"

text \<open>What became of a packet; a kill packet ends the process.\<close>

datatype rx_verdict = Rx_exit | Rx_done bool

text \<open>
  \<open>dst_ip\<close> and \<open>controller_ip\<close> keep the addresses in host order here. \<open>now\<close> and \<open>now'\<close> are the readings of the clock
  inside the protocol.
\<close>

definition comm_rx :: "proto_cfg \<Rightarrow> rte_mbuf \<Rightarrow> u64 \<Rightarrow> u64 \<Rightarrow> comm \<Rightarrow> (rx_verdict \<times> comm) option" where
  "comm_rx cfg m now now' cm =
     (let ip_total_len = unat (ip_total_length m);
          ip_hdr_len = unat (ip_version_ihl m AND 0xF)
      in if eth_type m = ETHER_TYPE_ARP then Some (Rx_done False, cm)
         else if eth_type m \<noteq> ETHER_TYPE_IPv4 then Some (Rx_done False, cm)
         else if ip_proto m = IPPROTO_FASTPASS_WATCHDOG then Some (Rx_done True, cm)
         else if ip_proto m = IPPROTO_FASTPASS_KILL then Some (Rx_exit, cm)
         else if ucast (ip_proto m) \<noteq> IPPROTO_FASTPASS then Some (Rx_done False, cm)
         else if mb_len m < 14 + ip_total_len then Some (Rx_done False, cm)
         else if ip_hdr_len < 5 \<or> ip_total_len < 4 * ip_hdr_len then Some (Rx_done False, cm)
         else do {
           let req_src = unat (fp_map_ip_to_id (ip_src m));
           bug_on (\<not> req_src < MAX_NODES);
           let cm = upd_en req_src (\<lambda>en. en\<lparr>en_dst_ether := eth_src m, en_dst_ip := ip_src m, en_controller_ip := ip_dst m\<rparr>) cm;
           let pkt = mb_bytes m 34 (ip_total_len - 4 * ip_hdr_len);
           (_, cm) \<leftarrow> with_conn now req_src
             (\<lambda>c. map_option (Pair ()) (fpproto_handle_rx_complete cfg (mb_addr m) c pkt now now')) cm;
           Some (Rx_done False, cm)
         })"

text \<open>
  A packet of a burst, with the readings of the clock and whether its turn comes before the deadline. The result
  of a burst is \<open>Some\<close> of whether a watchdog packet was seen, or \<open>None\<close> when the process ends, and how many buffers
  went back to the pool.
\<close>

record rx_item =
  rx_mbuf :: rte_mbuf
  rx_now :: u64
  rx_now' :: u64
  rx_in_time :: bool

fun rx_prefetched :: "proto_cfg \<Rightarrow> rx_item list \<Rightarrow> bool \<Rightarrow> nat \<Rightarrow> comm \<Rightarrow> (bool option \<times> nat \<times> comm) option" where
  "rx_prefetched cfg [] saw freed_bufs cm = Some (Some saw, freed_bufs, cm)"
| "rx_prefetched cfg (x # xs) saw freed_bufs cm =
     (if rx_in_time x then do {
        (v, cm) \<leftarrow> comm_rx cfg (rx_mbuf x) (rx_now x) (rx_now' x) cm;
        (case v of Rx_exit \<Rightarrow> Some (None, freed_bufs, cm)
         | Rx_done res \<Rightarrow> rx_prefetched cfg xs (saw \<or> res) (freed_bufs + 1) cm)
      } else rx_prefetched cfg xs saw (freed_bufs + 1) cm)"

fun rx_remaining :: "proto_cfg \<Rightarrow> rx_item list \<Rightarrow> bool \<Rightarrow> nat \<Rightarrow> comm \<Rightarrow> (bool option \<times> nat \<times> comm) option" where
  "rx_remaining cfg [] saw freed_bufs cm = Some (Some saw, freed_bufs, cm)"
| "rx_remaining cfg (x # xs) saw freed_bufs cm =
     (if saw then rx_remaining cfg xs True freed_bufs cm
      else do {
        (v, cm) \<leftarrow> comm_rx cfg (rx_mbuf x) (rx_now x) (rx_now' x) cm;
        (case v of Rx_exit \<Rightarrow> Some (None, freed_bufs, cm)
         | Rx_done res \<Rightarrow> rx_remaining cfg xs (saw \<or> res) (freed_bufs + 1) cm)
      })"

definition do_rx_burst :: "proto_cfg \<Rightarrow> rx_item list \<Rightarrow> comm \<Rightarrow> (bool option \<times> nat \<times> comm) option" where
  "do_rx_burst cfg pkts_burst cm = do {
     let n = length pkts_burst - PREFETCH_OFFSET;
     (v, fr, cm) \<leftarrow> rx_prefetched cfg (take n pkts_burst) False 0 cm;
     (case v of None \<Rightarrow> Some (None, fr, cm)
      | Some saw \<Rightarrow> rx_remaining cfg (drop n pkts_burst) saw fr cm)
   }"

section \<open>Start-up\<close>

text \<open>
  The nodes and the timers at start. The array \<open>end_nodes\<close> is static, so its memory is zero; \<open>send_cost\<close>,
  \<open>max_burst\<close> and \<open>min_trigger_gap\<close> come from the frequency of the clock.
\<close>

definition comm_init_node :: "proto_cfg \<Rightarrow> u64 \<Rightarrow> u64 \<Rightarrow> u64 \<Rightarrow> u32 \<Rightarrow> u32 \<Rightarrow> u32 \<Rightarrow> nat \<Rightarrow> comm \<Rightarrow> comm option" where
  "comm_init_node cfg now_ns now send_timeout send_cost max_burst min_trigger_gap i cm = do {
     let en = cm_end_nodes cm i;
     c \<leftarrow> fpproto_init_conn cfg (en_conn en) comm_ops FASTPASS_RESET_WINDOW_NS send_timeout now_ns;
     let en = en\<lparr>en_conn := c,
                 en_pending_allocs := (en_pending_allocs en)\<lparr>pq_tail := 0, pq_head := 0\<rparr>,
                 en_tx_pacer := pacer_init_full (en_tx_pacer en) now send_cost max_burst min_trigger_gap\<rparr>;
     let cm = upd_en i (\<lambda>_. en) cm;
     Some (upd_core (\<lambda>core. core\<lparr>cc_timeout_timers := fp_init_timer i (cc_timeout_timers core),
                                 cc_tx_timers := fp_init_timer i (cc_tx_timers core)\<rparr>) cm)
   }"

definition comm_init_global_structs :: "proto_cfg \<Rightarrow> (nat \<Rightarrow> u64) \<Rightarrow> u64 \<Rightarrow> u64 \<Rightarrow> u32 \<Rightarrow> u32 \<Rightarrow> u32 \<Rightarrow> comm \<Rightarrow> comm option" where
  "comm_init_global_structs cfg now_ns now send_timeout send_cost max_burst min_trigger_gap =
     for_each (\<lambda>i. comm_init_node cfg (now_ns i) now send_timeout send_cost max_burst min_trigger_gap i) [0 ..< MAX_NODES]"

definition comm_init_core :: "u64 \<Rightarrow> comm \<Rightarrow> comm" where
  "comm_init_core first_time_slot =
     upd_core (\<lambda>core. core\<lparr>cc_alloc_enc_space := (\<lambda>_. 0), cc_latest_timeslot := (\<lambda>_. first_time_slot - 1)\<rparr>)"

text \<open>The timer wheels are initialised when the core starts to run.\<close>

definition comm_start :: "u64 \<Rightarrow> u64 \<Rightarrow> comm \<Rightarrow> comm" where
  "comm_start now now' =
     upd_core (\<lambda>core. core\<lparr>cc_timeout_timers := fp_init_timers (cc_timeout_timers core) now,
                           cc_tx_timers := fp_init_timers (cc_tx_timers core) now'\<rparr>)"

section \<open>The main loop\<close>

text \<open>
  What a round receives: the burst of packets, the clock, the admitted time slots and, for each transmission, the
  descriptor from the pool. The master ignores the watchdog; the frames that announce the arbiter
  carry no state.
\<close>

record comm_input =
  ci_rx :: "rx_item list"
  ci_now :: u64
  ci_admitted :: "admitted_traffic list"
  ci_pd :: "nat \<Rightarrow> fpproto_pktdesc option"

definition timeout_node :: "u64 \<Rightarrow> nat \<Rightarrow> comm \<Rightarrow> comm option" where
  "timeout_node now i cm =
     map_option snd (with_conn now i (\<lambda>c. map_option (Pair ()) (fpproto_handle_timeout c now)) cm)"

definition tx_node :: "u64 \<Rightarrow> (nat \<Rightarrow> fpproto_pktdesc option) \<Rightarrow> nat \<Rightarrow> comm \<Rightarrow> comm option" where
  "tx_node now pds i cm = map_option snd (tx_end_node now i (pds i) cm)"

definition comm_timeouts :: "u64 \<Rightarrow> comm \<Rightarrow> comm option" where
  "comm_timeouts now cm = do {
     (tm, lst) \<leftarrow> fp_timer_get_expired (cc_timeout_timers (cm_core cm)) now [];
     for_each (timeout_node now) lst (upd_core (cc_timeout_timers_update (\<lambda>_. tm)) cm)
   }"

definition comm_transmit :: "u64 \<Rightarrow> (nat \<Rightarrow> fpproto_pktdesc option) \<Rightarrow> comm \<Rightarrow> comm option" where
  "comm_transmit now pds cm = do {
     (tm, lst) \<leftarrow> fp_timer_get_expired (cc_tx_timers (cm_core cm)) now [];
     for_each (tx_node now pds) lst (upd_core (cc_tx_timers_update (\<lambda>_. tm)) cm)
   }"

text \<open>One round of \<open>exec_comm_core\<close>; \<open>None\<close> in the first component is the end of the process.\<close>

definition comm_round :: "proto_cfg \<Rightarrow> comm_input \<Rightarrow> comm \<Rightarrow> (bool option \<times> comm) option" where
  "comm_round cfg inp cm = do {
     (v, _, cm) \<leftarrow> do_rx_burst cfg (ci_rx inp) cm;
     (case v of None \<Rightarrow> Some (None, cm)
      | Some saw \<Rightarrow> do {
          let now = ci_now inp;
          cm \<leftarrow> comm_timeouts now cm;
          cm \<leftarrow> process_allocated_traffic_one_q now (ci_admitted inp) cm;
          st \<leftarrow> seq_handle_spent (cm_status cm);
          st \<leftarrow> seq_flush_backlog st;
          cm \<leftarrow> comm_transmit now (ci_pd inp) (cm\<lparr>cm_status := st\<rparr>);
          Some (Some saw, cm)
        })
   }"

section \<open>The backup arbiter\<close>

text \<open>
  The condition of \<open>watchdog_loop\<close>, with \<open>hz\<close> cycles in a second: the threshold of 0.002 seconds is \<open>hz / 500\<close> cycles.
\<close>

definition watchdog_continues :: "nat \<Rightarrow> u64 \<Rightarrow> u64 \<Rightarrow> bool" where
  "watchdog_continues hz last_rx_watchdog now \<longleftrightarrow> 500 * unat (last_rx_watchdog - now) < hz"

text \<open>
  The loop, on the clock of each round and the readings of the clock at the watchdog packets that arrived in it. The
  result is the number of rounds, or \<open>None\<close> when the list of rounds ends first.
\<close>

fun watchdog_rounds :: "nat \<Rightarrow> u64 \<Rightarrow> u64 \<Rightarrow> (u64 \<times> u64 list) list \<Rightarrow> nat option" where
  "watchdog_rounds hz last_rx now rounds =
     (if \<not> watchdog_continues hz last_rx now then Some 0
      else case rounds of [] \<Rightarrow> None
      | (now', rx) # rest \<Rightarrow> map_option Suc (watchdog_rounds hz (last (last_rx # rx)) now' rest))"

declare watchdog_rounds.simps [simp del]

definition watchdog_loop :: "nat \<Rightarrow> u64 \<Rightarrow> (u64 \<times> u64 list) list \<Rightarrow> nat option" where
  "watchdog_loop hz start rounds = watchdog_rounds hz start start rounds"

end
