(* ===== verification/Comm_Tx.thy ===== *)
theory Comm_Tx
  imports Comm_Inv Comm_Loop Proto_Props
begin

text \<open>
  One transmission to an end node, and one round of the main loop of a communication core.
\<close>

section \<open>Filling in the packet\<close>

lemma pq_list_dsts: "alloc_dsts_ok q \<Longrightarrow> a \<in> set (pq_list q) \<Longrightarrow> unat (al_dst a) < 256"
  by (auto simp: alloc_dsts_ok_def pq_list_def entries_def)

lemma fill_packet_alloc_keeps:
  assumes ok: "comm_ok E F cm" and run: "fill_packet_alloc i pd cm = Some (pd', cm')"
  shows "comm_ok E F cm'"
proof -
  let ?q = "en_pending_allocs (cm_end_nodes cm i)"
  have n: "alloc_dsts_ok ?q" and e: "cc_alloc_enc_space (cm_core cm) = (\<lambda>_. 0)"
    using comm_okD(2) [OF ok] comm_okD(3) [OF ok, of i] by (simp_all add: core_ok_def node_ok_def)
  obtain q' where cm': "cm' = upd_en i (en_pending_allocs_update (\<lambda>_. q')) cm" and q': "pq_allocs q' = pq_allocs ?q"
    using fill_packet_alloc_ok [of cm i pd] pq_list_dsts [OF n] e run by auto
  from q' show ?thesis unfolding cm' by (intro comm_ok_upd_en [OF ok]) (simp_all add: alloc_dsts_ok_def)
qed

lemma fill_packet_report_ok:
  assumes core: "core_ok (cm_core cm)" and n: "rq_ok (en_report_queue (cm_end_nodes cm i))"
  defines "R \<equiv> rq_list (en_report_queue (cm_end_nodes cm i))"
  shows "\<exists>pd' cm' q. fill_packet_report now i pd cm = Some (pd', cm') \<and> pd_areq pd' = map (report_entry (cm_end_nodes cm i)) (take 10 R)
    \<and> unat (pd_n_areq pd') = length (pd_areq pd')
    \<and> pd' = pd\<lparr>pd_n_areq := pd_n_areq pd', pd_areq := pd_areq pd'\<rparr> \<and> rq_ok q \<and> rq_list q = drop 10 R
    \<and> cm' = (let cm1 = upd_en i (\<lambda>en. en\<lparr>en_report_queue := q\<rparr>) cm in if rq_list q = [] then cm1 else trigger_request now i cm1)"
proof -
  let ?en = "cm_end_nodes cm i"
  from report_loop_ok [OF n, of "[]"] obtain q where q: "report_loop ?en [] = Some (map (report_entry ?en) (take 10 R), ?en\<lparr>en_report_queue := q\<rparr>)"
    "rq_ok q" "rq_list q = drop 10 R" by (auto simp: R_def)
  let ?out = "map (report_entry ?en) (take 10 R)"
  have u: "unat (of_nat (length ?out) :: u16) = length ?out" by (rule unat_of_nat_word) simp
  have c: "upd_en i (\<lambda>_. ?en\<lparr>en_report_queue := q\<rparr>) cm = upd_en i (\<lambda>en. en\<lparr>en_report_queue := q\<rparr>) cm" by (simp add: upd_en_def)
  show ?thesis
    using q u
    by (intro exI [of _ "pd\<lparr>pd_n_areq := of_nat (length ?out), pd_areq := ?out\<rparr>"] exI conjI [of "fill_packet_report now i pd cm = _"])
      (auto simp: fill_packet_report_def Let_def report_empty_iff c)
qed

lemma fill_packet_report_serves:
  assumes ok: "comm_ok E F cm" and i: "i \<notin> E" and run: "fill_packet_report now i pd cm = Some (pd', cm')"
  shows "comm_ok E (F - {i}) cm'"
proof -
  note n = comm_okD(3) [OF ok, unfolded node_ok_def]
  from fill_packet_report_ok [OF comm_okD(2) [OF ok] n [THEN conjunct1], of now i pd] run obtain q where
    q: "rq_ok q" and cm': "cm' = (let cm1 = upd_en i (\<lambda>en. en\<lparr>en_report_queue := q\<rparr>) cm in if rq_list q = [] then cm1 else trigger_request now i cm1)"
    by auto
  let ?cm = "upd_en i (\<lambda>en. en\<lparr>en_report_queue := q\<rparr>) cm"
  have EF: "E \<subseteq> F - {i}" using comm_okD(1) [OF ok] i by auto
  have nn: "node_ok (cm_end_nodes ?cm j)" for j using n [of j] q n [of i] by (auto simp: node_ok_def)
  have t: "tx_set ?cm j" if "j \<notin> E" "pacer_is_triggered (en_tx_pacer (cm_end_nodes ?cm j))" for j
    using comm_okD(4) [OF ok that(1)] that by (auto split: if_splits)
  have u: "tx_set ?cm j" if "j \<notin> F - {i}" "j \<noteq> i" "\<not> report_empty (en_report_queue (cm_end_nodes ?cm j))" for j
    using comm_okD(5) [OF ok, of j] that by simp
  show ?thesis
  proof (cases "rq_list q = []")
    case True
    then have "report_empty (en_report_queue (cm_end_nodes ?cm i))" by (simp add: report_empty_iff)
    then have "tx_set ?cm j" if "j \<notin> F - {i}" "\<not> report_empty (en_report_queue (cm_end_nodes ?cm j))" for j
      using u [OF that(1) _ that(2)] that by blast
    moreover have "core_ok (cm_core ?cm)" using comm_okD(2) [OF ok] by simp
    ultimately have "comm_ok E (F - {i}) ?cm" using EF nn t unfolding comm_ok_def by blast
    then show ?thesis using True by (simp add: cm')
  next
    case False
    have "comm_ok E (F - {i}) (trigger_request now i ?cm)"
      by (rule trigger_request_ok(1) [OF EF _ nn t u]) (use comm_okD(2) [OF ok] in simp_all)
    then show ?thesis using False by (simp add: cm')
  qed
qed

section \<open>Transmission\<close>

lemma pacer_reset_idle: "\<not> pacer_is_triggered (pacer_reset pa)"
  by (simp add: pacer_reset_def pacer_is_triggered_def)

lemma tx_begin:
  assumes ok: "comm_ok E E cm"
  shows "comm_ok (E - {i}) (insert i E) (upd_en i (en_tx_pacer_update pacer_reset) cm)"
  using assms by (auto simp: comm_ok_def node_ok_def pacer_reset_idle)

lemma tx_end_node_keeps:
  assumes ok: "comm_ok E E cm" and run: "tx_end_node now i pd cm = Some (r, cm')"
  shows "comm_ok (E - {i}) (E - {i}) cm'"
proof -
  let ?cm = "upd_en i (en_tx_pacer_update pacer_reset) cm"
  from run obtain cm1 where cm1: "with_conn now i (\<lambda>c. map_option (Pair ()) (fpproto_prepare_to_send c)) ?cm = Some ((), cm1)"
    and rest: "(case pd of None \<Rightarrow> Some (None, trigger_request now i cm1)
     | Some pd \<Rightarrow> do {
         (pd, cm) \<leftarrow> fill_packet_alloc i pd cm1;
         (pd, cm) \<leftarrow> fill_packet_report now i pd cm;
         (pd, cm) \<leftarrow> with_conn now i (\<lambda>c. map_option (\<lambda>(c, pd). (pd, c)) (fpproto_commit_packet c pd now)) cm;
         Some (Some pd, cm) }) = Some (r, cm')"
    by (auto simp: tx_end_node_def Let_def bind_eq_Some_conv)
  have ok1: "comm_ok (E - {i}) (insert i E) cm1" by (rule with_conn_keeps [OF cm1 tx_begin [OF ok]])
  have F: "insert i E - {i} = E - {i}" by auto
  show ?thesis
  proof (cases pd)
    case None
    have t: "tx_set (trigger_request now i cm1) i" "comm_ok (E - {i}) (insert i E) (trigger_request now i cm1)"
      by (rule trigger_request_ok [OF comm_okD(1-4) [OF ok1]]; use comm_okD(5) [OF ok1] in simp)+
    then have "comm_ok (E - {i}) (E - {i}) (trigger_request now i cm1)" unfolding comm_ok_def by auto
    then show ?thesis using rest None by simp
  next
    case (Some pd0)
    with rest obtain pd1 cm2 pd2 cm3 pd3 where
      a: "fill_packet_alloc i pd0 cm1 = Some (pd1, cm2)" and b: "fill_packet_report now i pd1 cm2 = Some (pd2, cm3)"
      and c: "with_conn now i (\<lambda>c. map_option (\<lambda>(c, pd). (pd, c)) (fpproto_commit_packet c pd2 now)) cm3 = Some (pd3, cm')"
      by (auto simp: bind_eq_Some_conv)
    have "comm_ok (E - {i}) (insert i E - {i}) cm3"
      by (rule fill_packet_report_serves [OF fill_packet_alloc_keeps [OF ok1 a] _ b]) simp
    from with_conn_keeps [OF c this] show ?thesis by (simp add: F)
  qed
qed

section \<open>The main loop\<close>

lemma comm_ok_mono:
  assumes "comm_ok E E cm" "E \<subseteq> E'"
  shows "comm_ok E' E' cm"
  using assms by (auto simp: comm_ok_def)

lemma comm_rx_keeps:
  assumes "comm_rx cfg m now now' cm = Some (v, cm')" "comm_ok E F cm"
  shows "comm_ok E F cm'"
proof -
  have up: "comm_ok E F (upd_en i (\<lambda>en. en\<lparr>en_dst_ether := a, en_dst_ip := b, en_controller_ip := c\<rparr>) cm)" for i a b c
    by (rule comm_ok_upd_en [OF assms(2)]) simp_all
  show ?thesis
    using assms with_conn_keeps [OF _ up]
    by (auto simp: comm_rx_def Let_def bind_eq_Some_conv split: if_splits)
qed

lemma rx_prefetched_keeps: "rx_prefetched cfg xs saw fr cm = Some (v, fr', cm') \<Longrightarrow> comm_ok E F cm \<Longrightarrow> comm_ok E F cm'"
proof (induction xs arbitrary: saw fr cm)
  case (Cons x xs)
  show ?case
  proof (cases "rx_in_time x")
    case True
    show ?thesis
    proof (cases "comm_rx cfg (rx_mbuf x) (rx_now x) (rx_now' x) cm")
      case (Some r)
      obtain u cm1 where r: "r = (u, cm1)" by (cases r)
      then have "comm_ok E F cm1" using comm_rx_keeps [of cfg "rx_mbuf x"] Some Cons.prems(2) by blast
      then show ?thesis using Cons.prems(1) Cons.IH True Some r by (cases u) auto
    qed (use Cons.prems True in simp)
  qed (use Cons in simp)
qed simp

lemma rx_remaining_keeps: "rx_remaining cfg xs saw fr cm = Some (v, fr', cm') \<Longrightarrow> comm_ok E F cm \<Longrightarrow> comm_ok E F cm'"
proof (induction xs arbitrary: saw fr cm)
  case (Cons x xs)
  show ?case
  proof (cases "\<not> saw")
    case True
    show ?thesis
    proof (cases "comm_rx cfg (rx_mbuf x) (rx_now x) (rx_now' x) cm")
      case (Some r)
      obtain u cm1 where r: "r = (u, cm1)" by (cases r)
      then have "comm_ok E F cm1" using comm_rx_keeps [of cfg "rx_mbuf x"] Some Cons.prems(2) by blast
      then show ?thesis using Cons.prems(1) Cons.IH True Some r by (cases u) auto
    qed (use Cons.prems True in simp)
  qed (use Cons in simp)
qed simp

lemma do_rx_burst_keeps: "do_rx_burst cfg xs cm = Some (v, fr, cm') \<Longrightarrow> comm_ok E F cm \<Longrightarrow> comm_ok E F cm'"
  by (auto simp: do_rx_burst_def Let_def bind_eq_Some_conv split: option.splits
      dest: rx_prefetched_keeps rx_remaining_keeps)

text \<open>The clock does not go back and does not jump by more than a hundred turns of the wheels.\<close>

definition clock_ok :: "u64 \<Rightarrow> fp_timers \<Rightarrow> bool" where
  "clock_ok now tm \<longleftrightarrow> unat (ft_head tm) \<le> granule now \<and> granule now < unat (ft_head tm) + 102400"

text \<open>A failed sanity check ends the process; otherwise the clock was in order.\<close>

lemma get_expired_clock:
  assumes "fp_timer_get_expired tm now l = Some r" "tw_inv tm"
  shows "clock_ok now tm"
proof -
  have lt: "now div TIMER_GRANULARITY - ft_head tm < 100 * MAX_TIMER_SLOTS"
    using assms(1) by (auto simp: fp_timer_get_expired_def Let_def bind_eq_Some_conv)
  let ?n = "now div TIMER_GRANULARITY"
  have u: "unat ?n = granule now" by (rule unat_granule)
  have d: "unat (?n - ft_head tm) < 102400" using lt by (simp add: word_less_nat_alt MAX_TIMER_SLOTS_def)
  have h: "unat (ft_head tm) \<le> granule now"
  proof (rule ccontr)
    assume "\<not> unat (ft_head tm) \<le> granule now"
    then have less: "granule now < unat (ft_head tm)" by simp
    have "unat (?n - ft_head tm) = 2 ^ 64 + granule now - unat (ft_head tm)"
      using less u by (simp add: unat_sub_if' word_le_nat_alt)
    moreover have "unat (ft_head tm) \<le> 2 ^ 50" using assms(2) by (simp add: tw_inv_def)
    ultimately show False using d by simp
  qed
  then have "unat (?n - ft_head tm) = granule now - unat (ft_head tm)" by (simp add: unat_sub word_le_nat_alt u)
  then show ?thesis using h d by (simp add: clock_ok_def)
qed

lemma comm_timeouts_keeps:
  assumes run: "comm_timeouts now cm = Some cm'" and ok: "comm_ok E F cm"
  shows "comm_ok E F cm'"
proof -
  let ?tm = "cc_timeout_timers (cm_core cm)"
  from run obtain tm es where e: "fp_timer_get_expired ?tm now [] = Some (tm, es)"
    and l: "for_each (timeout_node now) es (upd_core (cc_timeout_timers_update (\<lambda>_. tm)) cm) = Some cm'"
    by (auto simp: comm_timeouts_def bind_eq_Some_conv)
  have inv: "tw_inv ?tm" using comm_okD(2) [OF ok] by (simp add: core_ok_def)
  have "tw_inv tm" using wheel.expire_ok [OF inv, of now "[]"] get_expired_clock [OF e inv] e by (auto simp: clock_ok_def)
  then have "comm_ok E F (upd_core (cc_timeout_timers_update (\<lambda>_. tm)) cm)"
    using ok by (auto simp: comm_ok_def core_ok_def)
  with l show ?thesis
    by (rule for_each_invariant) (auto simp: timeout_node_def dest: with_conn_keeps)
qed

lemma comm_transmit_keeps:
  assumes run: "comm_transmit now pds cm = Some cm'" and ok: "comm_ok E E cm"
  shows "comm_ok E E cm'"
proof -
  let ?tm = "cc_tx_timers (cm_core cm)"
  from run obtain tm es where e: "fp_timer_get_expired ?tm now [] = Some (tm, es)"
    and l: "for_each (tx_node now pds) es (upd_core (cc_tx_timers_update (\<lambda>_. tm)) cm) = Some cm'"
    by (auto simp: comm_transmit_def bind_eq_Some_conv)
  have inv: "tw_inv ?tm" using comm_okD(2) [OF ok] by (simp add: core_ok_def)
  have w: "tw_inv tm" "armed tm = armed ?tm |` (- set es)"
    using wheel.expire_ok [OF inv, of now "[]"] get_expired_clock [OF e inv] e by (auto simp: clock_ok_def)
  have "comm_ok (E \<union> set es) (E \<union> set es) (upd_core (cc_tx_timers_update (\<lambda>_. tm)) cm)"
    using ok w by (auto simp: comm_ok_def core_ok_def)
  moreover have "comm_ok E E cm'"
    if "for_each (tx_node now pds) xs s = Some cm'" "comm_ok (E \<union> set xs) (E \<union> set xs) s" for xs s
    using that
  proof (induction xs arbitrary: s)
    case (Cons x xs)
    from Cons.prems(1) obtain s' where n: "tx_node now pds x s = Some s'" "for_each (tx_node now pds) xs s' = Some cm'"
      by (auto simp: bind_eq_Some_conv)
    then obtain r where s': "tx_end_node now x (pds x) s = Some (r, s')" by (auto simp: tx_node_def)
    have "comm_ok (E \<union> set (x # xs) - {x}) (E \<union> set (x # xs) - {x}) s'"
      by (rule tx_end_node_keeps [OF Cons.prems(2) s'])
    then have "comm_ok (E \<union> set xs) (E \<union> set xs) s'" by (rule comm_ok_mono) auto
    then show ?case using Cons.IH n(2) by blast
  qed simp
  ultimately show ?thesis using l by blast
qed

lemma comm_round_keeps:
  assumes run: "comm_round cfg inp cm = Some (v, cm')" and ok: "comm_ok E E cm" and adm: "\<forall>tr \<in> set (ci_admitted inp). admitted_ok tr"
  shows "comm_ok E E cm'"
proof -
  from run obtain w fr cm1 where b: "do_rx_burst cfg (ci_rx inp) cm = Some (w, fr, cm1)"
    and rest: "(case w of None \<Rightarrow> Some (None, cm1)
      | Some saw \<Rightarrow> do {
          cm \<leftarrow> comm_timeouts (ci_now inp) cm1;
          cm \<leftarrow> process_allocated_traffic_one_q (ci_now inp) (ci_admitted inp) cm;
          st \<leftarrow> seq_handle_spent (cm_status cm);
          st \<leftarrow> seq_flush_backlog st;
          cm \<leftarrow> comm_transmit (ci_now inp) (ci_pd inp) (cm\<lparr>cm_status := st\<rparr>);
          Some (Some saw, cm) }) = Some (v, cm')"
    unfolding comm_round_def Let_def by (auto simp: bind_eq_Some_conv)
  note ok1 = do_rx_burst_keeps [OF b ok]
  show ?thesis
  proof (cases w)
    case None
    then show ?thesis using rest ok1 by simp
  next
    case (Some saw)
    with rest obtain cm2 cm3 st where s: "comm_timeouts (ci_now inp) cm1 = Some cm2"
      "process_allocated_traffic_one_q (ci_now inp) (ci_admitted inp) cm2 = Some cm3"
      "comm_transmit (ci_now inp) (ci_pd inp) (cm3\<lparr>cm_status := st\<rparr>) = Some cm'"
      by (auto simp: bind_eq_Some_conv)
    have "comm_ok E E cm2" by (rule comm_timeouts_keeps [OF s(1) ok1])
    then have "comm_ok E E cm3" using process_allocated_ok [OF _ adm, of E E cm2 "ci_now inp"] s(2) by (auto simp: returns_def)
    then show ?thesis using comm_transmit_keeps [OF s(3)] by simp
  qed
qed

section \<open>Start-up\<close>

text \<open>The zeroed memory of the communication core; the timers of nodes that do not exist count as idle.\<close>

definition zero_node :: end_node_state where
  "zero_node = \<lparr>en_conn = zero_conn, en_dst_ether = [], en_dst_ip = 0, en_controller_ip = 0,
     en_pending_allocs = \<lparr>pq_allocs = \<lambda>_. \<lparr>al_dst = 0, al_timeslot = 0, al_flags = 0\<rparr>, pq_head = 0, pq_tail = 0\<rparr>,
     en_demands = \<lambda>_. 0, en_alloc_to_dst = \<lambda>_. 0, en_acked_allocs = \<lambda>_. 0,
     en_report_queue = \<lparr>rq_is_pending = \<lambda>_. 0, rq_q_pending = \<lambda>_. 0, rq_head = 0, rq_tail = 0\<rparr>,
     en_tx_pacer = \<lparr>pa_T = 0, pa_next_event = 0, pa_cost = 0, pa_max_credit = 0, pa_min_gap = 0\<rparr>\<rparr>"

definition zero_timers :: fp_timers where
  "zero_timers = \<lparr>ft_head = 0, ft_slots = \<lambda>_. [], ft_time = \<lambda>i. if i < 256 then 0 else TIMER_NOT_SET_TIME\<rparr>"

definition zero_comm :: "status \<Rightarrow> comm" where
  "zero_comm st = \<lparr>cm_end_nodes = \<lambda>_. zero_node,
     cm_core = \<lparr>cc_alloc_enc_space = \<lambda>_. 0, cc_latest_timeslot = \<lambda>_. 0, cc_timeout_timers = zero_timers, cc_tx_timers = zero_timers\<rparr>,
     cm_status = st\<rparr>"

definition comm_boot :: "proto_cfg \<Rightarrow> (nat \<Rightarrow> u64) \<Rightarrow> u64 \<Rightarrow> u64 \<Rightarrow> u32 \<Rightarrow> u32 \<Rightarrow> u32 \<Rightarrow> u64 \<Rightarrow> u64 \<Rightarrow> u64 \<Rightarrow> comm \<Rightarrow> comm option" where
  "comm_boot cfg now_ns now send_timeout send_cost max_burst min_trigger_gap first_time_slot start start' cm =
     map_option (comm_start start start' \<circ> comm_init_core first_time_slot)
       (comm_init_global_structs cfg now_ns now send_timeout send_cost max_burst min_trigger_gap cm)"

text \<open>The nodes from \<open>n\<close> on are still as they were in the zeroed memory.\<close>

definition booted :: "nat \<Rightarrow> comm \<Rightarrow> bool" where
  "booted n cm \<longleftrightarrow> (\<forall>i < n. \<not> pacer_is_triggered (en_tx_pacer (cm_end_nodes cm i))
       \<and> armed (cc_tx_timers (cm_core cm)) i = None \<and> armed (cc_timeout_timers (cm_core cm)) i = None
       \<and> conn_inv (en_conn (cm_end_nodes cm i)) \<and> unacked (en_conn (cm_end_nodes cm i)) = Map.empty)
     \<and> (\<forall>i \<ge> n. cm_end_nodes cm i = zero_node)
     \<and> (\<forall>i \<ge> 256. armed (cc_tx_timers (cm_core cm)) i = None \<and> armed (cc_timeout_timers (cm_core cm)) i = None)
     \<and> (\<forall>i. node_ok (cm_end_nodes cm i) \<and> report_empty (en_report_queue (cm_end_nodes cm i)))"

lemma zero_node_ok: "node_ok zero_node" "report_empty (en_report_queue zero_node)"
  by (simp_all add: zero_node_def node_ok_def rq_ok_def rq_list_def entries_def alloc_dsts_ok_def report_empty_def)

lemma init_timer_armed: "armed (fp_init_timer i tm) = (armed tm)(i := None)"
  using armed_upd [of tm i TIMER_NOT_SET_TIME] by (simp add: fp_init_timer_def)

lemma comm_init_node_ok:
  assumes b: "booted i cm" and i: "i < 256"
  shows "returns (comm_init_node cfg now_ns now send_timeout send_cost max_burst min_trigger_gap i cm) (booted (Suc i))"
proof -
  have z: "cm_end_nodes cm i = zero_node" using b by (simp add: booted_def)
  obtain c where c: "fpproto_init_conn cfg zero_conn comm_ops FASTPASS_RESET_WINDOW_NS send_timeout now_ns = Some c"
    "fresh_after_reset cfg now_ns False c" using init_spec by blast
  let ?pa = "pacer_init_full (en_tx_pacer zero_node) now send_cost max_burst min_trigger_gap"
  let ?en = "zero_node\<lparr>en_conn := c,
       en_pending_allocs := (en_pending_allocs zero_node)\<lparr>pq_tail := 0, pq_head := 0\<rparr>, en_tx_pacer := ?pa\<rparr>"
  let ?cm = "upd_core (\<lambda>core. core\<lparr>cc_timeout_timers := fp_init_timer i (cc_timeout_timers core),
       cc_tx_timers := fp_init_timer i (cc_tx_timers core)\<rparr>) (upd_en i (\<lambda>_. ?en) cm)"
  have zc: "en_conn zero_node = zero_conn" by (simp add: zero_node_def)
  have run: "comm_init_node cfg now_ns now send_timeout send_cost max_burst min_trigger_gap i cm = Some ?cm"
    using c(1) by (simp add: comm_init_node_def Let_def z zc)
  have en: "node_ok ?en" "report_empty (en_report_queue ?en)" "\<not> pacer_is_triggered (en_tx_pacer ?en)"
      "conn_inv (en_conn ?en)" "unacked (en_conn ?en) = Map.empty"
    using zero_node_ok c(2)
    by (simp_all add: node_ok_def alloc_dsts_ok_def pacer_init_full_def pacer_is_triggered_def fresh_after_reset_def)
  have "booted (Suc i) ?cm"
    using b i en unfolding booted_def by (auto simp: init_timer_armed less_Suc_eq)
  then show ?thesis using run by simp
qed

lemma booted_zero: "booted 0 (zero_comm st)"
  by (auto simp: booted_def zero_comm_def zero_node_ok armed_def zero_timers_def)

lemma comm_boot_ok:
  "returns (comm_boot cfg now_ns now send_timeout send_cost max_burst min_trigger_gap first start start' (zero_comm st))
    (\<lambda>cm. comm_ok {256..} {256..} cm \<and> booted 256 cm)"
proof -
  have "returns (comm_init_global_structs cfg now_ns now send_timeout send_cost max_burst min_trigger_gap (zero_comm st)) (booted 256)"
    unfolding comm_init_global_structs_def MAX_NODES_def
    by (rule for_each_loop [where P = booted]) (auto intro: booted_zero comm_init_node_ok)
  then obtain cm where cm: "comm_init_global_structs cfg now_ns now send_timeout send_cost max_burst min_trigger_gap (zero_comm st) = Some cm"
    "booted 256 cm" by (auto simp: returns_def)
  have idle: "armed (cc_tx_timers (cm_core cm)) i = None" "armed (cc_timeout_timers (cm_core cm)) i = None" for i
    using cm(2) unfolding booted_def by (cases "i < 256"; simp)+
  let ?cm = "comm_start start start' (comm_init_core first cm)"
  have t: "tw_inv (cc_tx_timers (cm_core ?cm))" "tw_inv (cc_timeout_timers (cm_core ?cm))"
    "armed (cc_tx_timers (cm_core ?cm)) = Map.empty" "armed (cc_timeout_timers (cm_core ?cm)) = Map.empty"
    using fp_init_timers_ok [of "cc_tx_timers (cm_core cm)" start'] fp_init_timers_ok [of "cc_timeout_timers (cm_core cm)" start] idle
    by (simp_all add: comm_start_def comm_init_core_def)
  have n: "cm_end_nodes ?cm = cm_end_nodes cm" by (simp add: comm_start_def comm_init_core_def)
  have "core_ok (cm_core ?cm)" using t by (simp add: core_ok_def) (simp add: comm_start_def comm_init_core_def)
  then have "comm_ok {256..} {256..} ?cm" using cm(2) unfolding comm_ok_def booted_def n by (auto simp: not_le)
  moreover have "booted 256 ?cm" using cm(2) t unfolding booted_def n by auto
  ultimately show ?thesis using cm(1) by (simp add: comm_boot_def)
qed

section \<open>Runs\<close>

fun comm_run :: "proto_cfg \<Rightarrow> comm_input list \<Rightarrow> comm \<Rightarrow> comm option" where
  "comm_run cfg [] cm = Some cm"
| "comm_run cfg (inp # inps) cm = do {
     (v, cm) \<leftarrow> comm_round cfg inp cm;
     (case v of None \<Rightarrow> Some cm | Some _ \<Rightarrow> comm_run cfg inps cm)
   }"

lemma comm_run_keeps:
  assumes "comm_run cfg inps cm = Some cm'" "comm_ok E E cm" "\<forall>inp \<in> set inps. \<forall>tr \<in> set (ci_admitted inp). admitted_ok tr"
  shows "comm_ok E E cm'"
  using assms
proof (induction inps arbitrary: cm)
  case (Cons inp inps)
  from Cons.prems(1) obtain v cm1 where r: "comm_round cfg inp cm = Some (v, cm1)"
    and rest: "(case v of None \<Rightarrow> Some cm1 | Some _ \<Rightarrow> comm_run cfg inps cm1) = Some cm'"
    by (auto simp: bind_eq_Some_conv)
  have "comm_ok E E cm1" by (rule comm_round_keeps [OF r Cons.prems(2)]) (use Cons.prems(3) in simp)
  then show ?case using rest Cons.IH [of cm1] Cons.prems(3) by (cases v) auto
qed simp

end
