(* ===== verification/Comm_Demand.thy ===== *)
theory Comm_Demand
  imports Comm_Core
begin

text \<open>
  Requests at the arbiter: the 32-bit demand is recovered from the low 16 bits that a request carries,
  and the backlog handed to the allocator is exactly the growth of the demand.
\<close>

section \<open>Recovering a counter from its low bits\<close>

lemma sint_of_int_u32: "- 2147483648 \<le> k \<Longrightarrow> k < 2147483648 \<Longrightarrow> sint (word_of_int k :: u32) = k"
  by (simp add: signed_of_int signed_take_bit_int_eq_self)

lemma and_low16: "(x :: u32) AND 0xFFFF = take_bit 16 x"
  by (simp add: take_bit_eq_mask mask_eq_exp_minus_1)

lemma take_bit_16_diff:
  fixes a b x :: u32
  assumes "take_bit 16 a = take_bit 16 b"
  shows "take_bit 16 (a - x) = take_bit 16 (b - x)"
  using assms by transfer (simp, metis take_bit_diff)

lemma sint_minus_half:
  fixes y :: u32
  assumes "unat y < 65536"
  shows "sint (y - 32768) = int (unat y) - 32768"
proof -
  have "sint (word_of_int (int (unat y) - 32768) :: u32) = int (unat y) - 32768"
    by (rule sint_of_int_u32) (use assms in linarith)+
  then show ?thesis by simp
qed

lemma demand_from_count_exact:
  assumes low: "ucast D = (c :: u16)" and near: "- 32768 \<le> sint (D - o') " "sint (D - o') < 32768"
  shows "demand_from_count o' c = (D :: u32)"
proof -
  let ?x = "o' - 32768"
  define k where "k = sint (D - o')"
  have k: "D - o' = word_of_int k" "- 32768 \<le> k" "k < 32768" using near by (simp_all add: k_def)
  then have x: "D - ?x = word_of_int (k + 32768)" by (simp add: algebra_simps)
  have "uint (word_of_int (k + 32768) :: u32) = k + 32768"
    using k(2,3) by (simp add: uint_word_of_int_eq take_bit_int_eq_self del: of_int_add)
  then have "unat (D - ?x) < 65536" using k(2,3) unfolding x unat_eq_nat_uint by simp
  then have small: "take_bit 16 (D - ?x) = D - ?x"
    by (simp add: take_bit_eq_mod unat_eq_iff unat_mod)
  have "ucast c = take_bit 16 D"
    unfolding low [symmetric] by (rule bit_word_eqI) (auto simp: bit_ucast_iff bit_take_bit_iff)
  then have "take_bit 16 (ucast c :: u32) = take_bit 16 D" by simp
  then have "take_bit 16 (ucast c - ?x) = take_bit 16 (D - ?x)" by (rule take_bit_16_diff)
  then show ?thesis by (simp add: demand_from_count_def and_low16 small Let_def)
qed

text \<open>What \<open>handle_areq\<close> takes as the demand of a flow: it never goes down.\<close>

definition areq_demand :: "u32 \<Rightarrow> u16 \<Rightarrow> u32" where
  "areq_demand o' c = (let D = demand_from_count o' c in if 0 < sint (D - o') then D else o')"

lemma demand_growth_less: "unat (areq_demand o' c - o') < 32768"
proof -
  let ?y = "take_bit 16 (ucast c - (o' - 32768)) :: u32"
  have y: "unat ?y < 65536"
    using take_bit_nat_less_exp [of 16] by (simp add: unsigned_take_bit_eq)
  have d: "demand_from_count o' c - o' = ?y - 32768" by (simp add: demand_from_count_def and_low16 Let_def)
  note s = sint_minus_half [OF y]
  show ?thesis
  proof (cases "0 < sint (?y - 32768)")
    case True
    then have "32768 \<le> unat ?y" using s by linarith
    then have "unat (?y - 32768) = unat ?y - 32768" by (subst unat_sub) (simp_all add: word_le_nat_alt)
    with True y show ?thesis by (simp add: areq_demand_def d Let_def)
  qed (simp add: areq_demand_def d Let_def)
qed

lemma of_nat_near:
  assumes "m \<le> D + 32768" "D < m + 32768"
  shows "sint (of_nat D - of_nat m :: u32) = int D - int m"
proof -
  have "sint (word_of_int (int D - int m) :: u32) = int D - int m" by (rule sint_of_int_u32) (use assms in simp_all)
  then show ?thesis by simp
qed

text \<open>The total demands that arrive, each within 32768 of the largest one so far.\<close>

fun near :: "nat \<Rightarrow> nat list \<Rightarrow> bool" where
  "near m [] \<longleftrightarrow> True"
| "near m (D # Ds) \<longleftrightarrow> m \<le> D + 32768 \<and> D < m + 32768 \<and> near (max m D) Ds"

lemma areq_demand_step:
  assumes "m \<le> D + 32768" "D < m + 32768"
  shows "areq_demand (of_nat m) (of_nat D) = of_nat (max m D)"
proof -
  note s = of_nat_near [OF assms]
  have "demand_from_count (of_nat m) (of_nat D) = of_nat D"
  proof (rule demand_from_count_exact)
    show "ucast (of_nat D :: u32) = (of_nat D :: u16)"
      by (simp add: unsigned_of_nat word_of_nat_eq_iff)
  qed (use assms s in auto)
  then show ?thesis using s by (auto simp: areq_demand_def max_def)
qed

text \<open>
  C15. The demand follows the count of the end node. An end node counts the packets it wants to send to a
  destination and sends the low 16 bits of the total. Whatever requests are lost, repeated or
  overtaken, as long as each total is within 32768 of the largest one seen, the arbiter's 32-bit demand
  is the largest total that arrived, modulo \<open>2 ^ 32\<close>.
\<close>

theorem areq_demand_tracks:
  assumes "near m Ds"
  shows "foldl areq_demand (of_nat m) (map of_nat Ds) = of_nat (foldl max m Ds)"
  using assms by (induction Ds arbitrary: m) (simp_all add: areq_demand_step)

theorem areq_demand_tracks_witness:
  "near 65530 [65540, 65535, 65540, 98000]
   \<and> foldl areq_demand (of_nat 65530) (map of_nat [65540, 65535, 65540, 98000]) = 98000"
  using areq_demand_tracks [of 65530 "[65540, 65535, 65540, 98000]"] by simp

section \<open>Requests and backlog\<close>

definition alloc_ready :: "nat \<Rightarrow> status \<Rightarrow> bool" where
  "alloc_ready k st \<longleftrightarrow> stream_ok ss_q_head ss_new_demands st \<and> table_ok st \<and> req_room k st"

lemma alloc_ready_mono: "alloc_ready k st \<Longrightarrow> j \<le> k \<Longrightarrow> alloc_ready j st"
  by (auto simp: alloc_ready_def req_room_def)

definition areq_known :: "(u16 \<times> u16) list \<Rightarrow> (nat \<Rightarrow> u32) \<Rightarrow> nat \<Rightarrow> u32" where
  "areq_known xs f = foldl (\<lambda>f (dst, c). f(unat dst := areq_demand (f (unat dst)) c)) f xs"

text \<open>How the backlog of a sender has grown with its demands.\<close>

definition backlog_grown :: "nat \<Rightarrow> status \<Rightarrow> (nat \<Rightarrow> u32) \<Rightarrow> status \<Rightarrow> (nat \<Rightarrow> u32) \<Rightarrow> bool" where
  "backlog_grown i st f st' f' \<longleftrightarrow> (\<forall>q. node_pair q \<longrightarrow>
     Requests.pending st' q = Requests.pending st q + (if fst q = of_nat i then unat (f' (unat (snd q)) - f (unat (snd q))) else 0))"

lemma unat_diff_trans:
  fixes a b c :: u32
  assumes "unat (b - a) + unat (c - b) < 2 ^ 32"
  shows "unat (c - a) = unat (b - a) + unat (c - b)"
proof -
  have "c - a = (b - a) + (c - b)" by simp
  then show ?thesis using assms by (simp only: unat_word_ariths) simp
qed

lemma NUM_NODES_nat: "unat NUM_NODES = 64" by (simp add: NUM_NODES_def)

lemma areq_entry_ok:
  assumes i: "i < 64" and d: "unat dst < 64" and rdy: "alloc_ready (Suc k) (cm_status cm)"
    and room: "\<forall>x. unat x < 64 \<longrightarrow> Requests.pending (cm_status cm) (of_nat i, x) + 32768 < 2 ^ 32"
  shows "\<exists>st. areq_loop i ((dst, c) # xs) cm = areq_loop i xs
        (upd_en i (\<lambda>en. en\<lparr>en_demands := areq_known [(dst, c)] (en_demands en)\<rparr>) (cm\<lparr>cm_status := st\<rparr>))
    \<and> alloc_ready k st
    \<and> backlog_grown i (cm_status cm) (en_demands (cm_end_nodes cm i)) st (areq_known [(dst, c)] (en_demands (cm_end_nodes cm i)))"
proof -
  let ?f = "en_demands (cm_end_nodes cm i)"
  let ?o = "?f (unat dst)"
  let ?D = "demand_from_count ?o c"
  have ix: "flow_index dst = Some (unat dst)" using d by (simp add: flow_index_def MAX_FLOWS_def MAX_NODES_def FLOWS_PER_NODE_def FLOW_SHIFT_def)
  have ui: "unat (of_nat i :: u16) = i" using i by (intro unat_of_nat_word) simp
  have p: "node_pair (of_nat i, dst)" using i d ui by (simp add: node_pair_def MAX_NODES_def)
  note loop = areq_loop.simps(2) [of i dst c xs cm]
  show ?thesis
  proof (cases "0 < sint (?D - ?o)")
    case True
    then have k: "areq_demand ?o c = ?D" by (simp add: areq_demand_def)
    have a: "unat (?D - ?o) < 32768" using demand_growth_less [of ?o c] by (simp only: k)
    have nz: "?D - ?o \<noteq> 0" using True by auto
    have "Requests.table (cm_status cm) (of_nat i, dst) + unat (?D - ?o) < 2 ^ 32"
      using room [THEN spec, of dst] d a by (simp add: Requests.pending_def)
    then obtain st where st: "seq_add_backlog (of_nat i) dst (?D - ?o) (cm_status cm) = Some st" "alloc_ready k st"
      "\<forall>q. node_pair q \<longrightarrow> Requests.pending st q = Requests.pending (cm_status cm) q + (if q = (of_nat i, dst) then unat (?D - ?o) else 0)"
      using add_backlog_pending [of "cm_status cm" "of_nat i" dst k "?D - ?o"] rdy p nz a unfolding alloc_ready_def by fastforce
    have g: "backlog_grown i (cm_status cm) ?f st (areq_known [(dst, c)] ?f)"
      using st(3) k by (auto simp: backlog_grown_def areq_known_def prod_eq_iff unat_eq_iff [of _ dst])
    show ?thesis
      using loop True i d st(1,2) g
      by (intro exI [of _ st]) (simp add: ix NUM_NODES_nat FLOW_SHIFT_def Let_def areq_known_def k upd_en_def)
  next
    case False
    then have k: "areq_demand ?o c = ?o" by (simp add: areq_demand_def Let_def)
    have e: "areq_known [(dst, c)] ?f = ?f" by (simp add: areq_known_def k)
    have "upd_en i (\<lambda>en. en\<lparr>en_demands := areq_known [(dst, c)] (en_demands en)\<rparr>) cm = cm"
      by (simp add: upd_en_def e)
    moreover have "backlog_grown i (cm_status cm) ?f (cm_status cm) ?f" by (simp add: backlog_grown_def)
    ultimately show ?thesis
      using loop False i d alloc_ready_mono [OF rdy, of k]
      by (intro exI [of _ "cm_status cm"]) (simp add: ix NUM_NODES_nat FLOW_SHIFT_def Let_def e)
  qed
qed

lemma areq_known_Cons: "areq_known (x # xs) f = areq_known xs (areq_known [x] f)"
  by (simp add: areq_known_def)

lemma areq_known_growth: "unat (areq_known [x] f d - f d) < 32768"
  using demand_growth_less [of "f d"] by (auto simp: areq_known_def split: prod.splits)

lemma areq_loop_ok:
  assumes "i < 64" "\<forall>x \<in> set xs. unat (fst x) < 64" "alloc_ready (length xs + k) (cm_status cm)"
    and "\<forall>x. unat x < 64 \<longrightarrow> Requests.pending (cm_status cm) (of_nat i, x) + length xs * 32768 < 2 ^ 32"
  shows "\<exists>st. areq_loop i xs cm =
        Some (True, upd_en i (\<lambda>en. en\<lparr>en_demands := areq_known xs (en_demands en)\<rparr>) (cm\<lparr>cm_status := st\<rparr>))
    \<and> alloc_ready k st
    \<and> backlog_grown i (cm_status cm) (en_demands (cm_end_nodes cm i)) st (areq_known xs (en_demands (cm_end_nodes cm i)))
    \<and> (\<forall>d. unat (areq_known xs (en_demands (cm_end_nodes cm i)) d - en_demands (cm_end_nodes cm i) d) \<le> length xs * 32768)"
  using assms
proof (induction xs arbitrary: cm)
  case Nil
  show ?case using Nil.prems(3) by (intro exI [of _ "cm_status cm"]) (simp add: areq_known_def upd_en_def backlog_grown_def)
next
  case (Cons x xs)
  obtain dst c where x: "x = (dst, c)" by (cases x)
  let ?f = "en_demands (cm_end_nodes cm i)"
  let ?f1 = "areq_known [x] ?f"
  let ?f2 = "areq_known xs ?f1"
  have pr: "unat dst < 64" "alloc_ready (Suc (length xs + k)) (cm_status cm)" using Cons.prems(2,3) by (simp_all add: x)
  have rm: "\<forall>x. unat x < 64 \<longrightarrow> Requests.pending (cm_status cm) (of_nat i, x) + 32768 < 2 ^ 32" using Cons.prems(4) by auto
  obtain st1 where st1: "areq_loop i (x # xs) cm = areq_loop i xs
        (upd_en i (\<lambda>en. en\<lparr>en_demands := areq_known [x] (en_demands en)\<rparr>) (cm\<lparr>cm_status := st1\<rparr>))"
      "alloc_ready (length xs + k) st1" "backlog_grown i (cm_status cm) ?f st1 ?f1"
    using areq_entry_ok [OF Cons.prems(1) pr rm] unfolding x by blast
  let ?cm1 = "upd_en i (\<lambda>en. en\<lparr>en_demands := areq_known [x] (en_demands en)\<rparr>) (cm\<lparr>cm_status := st1\<rparr>)"
  have cm1: "cm_status ?cm1 = st1" "en_demands (cm_end_nodes ?cm1 i) = ?f1" by (simp_all add: upd_en_def)
  have ui: "unat (of_nat i :: u16) = i" using Cons.prems(1) by (intro unat_of_nat_word) simp
  have "Requests.pending st1 (of_nat i, y) + length xs * 32768 < 2 ^ 32" if y: "unat y < 64" for y
  proof -
    have "node_pair (of_nat i, y)" using y Cons.prems(1) ui by (simp add: node_pair_def MAX_NODES_def)
    then have "Requests.pending st1 (of_nat i, y) \<le> Requests.pending (cm_status cm) (of_nat i, y) + 32768"
      using st1(3) areq_known_growth [of x ?f "unat y"] by (simp add: backlog_grown_def)
    then show ?thesis using Cons.prems(4) y by force
  qed
  then obtain st where st: "areq_loop i xs ?cm1 =
        Some (True, upd_en i (\<lambda>en. en\<lparr>en_demands := areq_known xs (en_demands en)\<rparr>) (?cm1\<lparr>cm_status := st\<rparr>))"
      "alloc_ready k st" "backlog_grown i st1 ?f1 st ?f2" "\<forall>d. unat (?f2 d - ?f1 d) \<le> length xs * 32768"
    using Cons.IH [of ?cm1] Cons.prems(1,2) st1(2) unfolding cm1 by auto
  have len: "Suc (length xs) * 32768 < 2 ^ 32" using Cons.prems(4) [THEN spec, of 0] by simp
  have tr: "unat (?f2 d - ?f d) = unat (?f1 d - ?f d) + unat (?f2 d - ?f1 d)" "unat (?f2 d - ?f d) \<le> Suc (length xs) * 32768" for d
  proof -
    have b: "unat (?f1 d - ?f d) + unat (?f2 d - ?f1 d) \<le> Suc (length xs) * 32768"
      using areq_known_growth [of x ?f d] st(4) [THEN spec, of d] by simp
    then show "unat (?f2 d - ?f d) = unat (?f1 d - ?f d) + unat (?f2 d - ?f1 d)"
      by (intro unat_diff_trans) (use len in linarith)
    with b show "unat (?f2 d - ?f d) \<le> Suc (length xs) * 32768" by simp
  qed
  have "upd_en i (\<lambda>en. en\<lparr>en_demands := areq_known xs (en_demands en)\<rparr>) (?cm1\<lparr>cm_status := st\<rparr>) =
      upd_en i (\<lambda>en. en\<lparr>en_demands := areq_known (x # xs) (en_demands en)\<rparr>) (cm\<lparr>cm_status := st\<rparr>)"
    by (simp add: upd_en_def areq_known_Cons [of x xs])
  moreover have "backlog_grown i (cm_status cm) ?f st ?f2"
    using st1(3) st(3) by (auto simp: backlog_grown_def tr(1))
  ultimately show ?case using st1(1) st tr(2) by (intro exI [of _ st]) (simp add: areq_known_Cons [of x xs])
qed

end
