(* ===== verification/Comm_Props.thy ===== *)
theory Comm_Props
  imports Comm_Tx Comm_Demand Alloc_Example
begin

text \<open>
  Properties of the communication core: requests become backlog, no report is forgotten, a transmission always
  succeeds and says what is waiting, and the end node reads it back; and the cases in which the code does not
  do what it means to.
\<close>

section \<open>Callbacks that always succeed\<close>

text \<open>A descriptor whose reports are about known flows, as \<open>fill_packet_report\<close> writes them.\<close>

definition pd_wf :: "fpproto_pktdesc \<Rightarrow> bool" where
  "pd_wf pd \<longleftrightarrow> (\<forall>a \<in> set (take (unat (pd_n_areq pd)) (pd_areq pd)). unat (ucast (areq_src_dst_key a) :: u16) < 256)"

fun plain_event :: "op_event \<Rightarrow> bool" where
  "plain_event (Handle_neg_ack pd) = pd_wf pd"
| "plain_event (Set_timer t) = True"
| "plain_event Cancel_timer = True"
| "plain_event (Pktdesc_free pd) = True"
| "plain_event _ = False"

text \<open>Such callbacks at most append flows to the queue of reports of their node.\<close>

definition reports_added :: "nat \<Rightarrow> comm \<Rightarrow> comm \<Rightarrow> bool" where
  "reports_added i cm cm' \<longleftrightarrow> cm_status cm' = cm_status cm
     \<and> en_conn (cm_end_nodes cm' i) = en_conn (cm_end_nodes cm i)
     \<and> en_pending_allocs (cm_end_nodes cm' i) = en_pending_allocs (cm_end_nodes cm i)
     \<and> en_alloc_to_dst (cm_end_nodes cm' i) = en_alloc_to_dst (cm_end_nodes cm i)
     \<and> (\<exists>ys. rq_list (en_report_queue (cm_end_nodes cm' i)) = rq_list (en_report_queue (cm_end_nodes cm i)) @ ys)"

lemma reports_added_refl: "reports_added i cm cm"
  by (simp add: reports_added_def)

lemma reports_added_trans: "reports_added i a b \<Longrightarrow> reports_added i b c \<Longrightarrow> reports_added i a c"
  by (auto simp: reports_added_def)

lemma trigger_report_total:
  assumes ok: "comm_ok E F cm" and d: "unat dst < 256"
  shows "returns (trigger_report now i dst cm) (\<lambda>cm'. comm_ok E F cm' \<and> reports_added i cm cm')"
proof -
  let ?q = "en_report_queue (cm_end_nodes cm i)"
  have q: "rq_ok ?q" using comm_okD(3) [OF ok, of i] by (simp add: node_ok_def)
  let ?cm = "upd_en i (en_report_queue_update (rq_push dst)) cm"
  obtain pa where t: "cm_end_nodes (trigger_request now i ?cm) = (cm_end_nodes ?cm)(i := (cm_end_nodes ?cm i)\<lparr>en_tx_pacer := pa\<rparr>)"
    using trigger_request_frame(4) by blast
  have "reports_added i cm (trigger_request now i ?cm)"
    using rq_push_ok(2) [OF q d] by (auto simp: reports_added_def trigger_request_frame(1) t)
  moreover obtain cm' where "trigger_report now i dst cm = Some cm'" "comm_ok E F cm'"
    using trigger_report_ok [OF ok d] by blast
  ultimately show ?thesis using trigger_report_eq [OF d, of now i cm] by (auto simp: reports_added_refl)
qed

lemma neg_ack_total:
  assumes ok: "comm_ok E F cm" and wf: "pd_wf pd"
  shows "returns (handle_neg_ack now i pd cm) (\<lambda>cm'. comm_ok E F cm' \<and> reports_added i cm cm')"
proof -
  let ?xs = "take (unat (pd_n_areq pd)) (pd_areq pd)"
  have step: "returns (neg_ack_entry now i a s) (\<lambda>s'. comm_ok E F s' \<and> reports_added i s s')"
    if "a \<in> set ?xs" "comm_ok E F s" for a s
  proof -
    have d: "unat (ucast (areq_src_dst_key a) :: u16) < 256" using wf that by (simp add: pd_wf_def)
    show ?thesis using trigger_report_total [OF that(2) d, of now i] d that(2)
      by (auto simp: neg_ack_entry_def Let_def flow_index_less reports_added_refl)
  qed
  show ?thesis unfolding handle_neg_ack_def
    by (rule returns_mono [OF returns_for_each [where I = "\<lambda>xs s. comm_ok E F s \<and> reports_added i cm s \<and> set xs \<subseteq> set ?xs"]])
      (use ok reports_added_refl in auto, use step in \<open>fastforce elim: returns_mono intro: reports_added_trans\<close>)
qed

lemma plain_events_total:
  assumes "comm_ok E F cm" "list_all plain_event es"
  shows "returns (for_each (proto_ops now i) es cm) (\<lambda>cm'. comm_ok E F cm' \<and> reports_added i cm cm')"
proof -
  have step: "returns (proto_ops now i e s) (\<lambda>s'. comm_ok E F s' \<and> reports_added i s s')"
    if "plain_event e" "comm_ok E F s" for e s
    using that neg_ack_total [of E F s] retrans_timer_keeps [OF that(2)]
    by (cases e) (auto simp: reports_added_refl, auto simp: reports_added_def set_retrans_timer_def cancel_retrans_timer_def)
  show ?thesis
    by (rule returns_mono [OF returns_for_each [where I = "\<lambda>xs s. comm_ok E F s \<and> reports_added i cm s \<and> list_all plain_event xs"]])
      (use assms reports_added_refl in auto, use step in \<open>fastforce elim: returns_mono intro: reports_added_trans\<close>)
qed

lemma with_conn_plain:
  assumes ok: "comm_ok E F cm" and f: "f (en_conn (cm_end_nodes cm i)) = Some (r, c')"
    and log: "c_log c' = c_log (en_conn (cm_end_nodes cm i)) @ es" and es: "list_all plain_event es"
  shows "\<exists>cm'. with_conn now i f cm = Some (r, cm') \<and> comm_ok E F cm'
    \<and> reports_added i (upd_en i (en_conn_update (\<lambda>_. c')) cm) cm'"
proof -
  have "comm_ok E F (upd_en i (en_conn_update (\<lambda>_. c')) cm)" by (rule comm_ok_upd_en [OF ok]) simp_all
  from plain_events_total [OF this es, of now i] f log show ?thesis
    by (auto simp: with_conn_def Let_def returns_def)
qed

lemma timer_events_plain: "list_all timer_event T \<Longrightarrow> list_all plain_event T"
  by (auto simp: list_all_iff timer_event_def)

text \<open>The packet \<open>pd\<close> describes the first \<open>n\<close> of the waiting allocations \<open>L\<close>, as many as fit.\<close>

definition describes :: "fpproto_pktdesc \<Rightarrow> nat \<Rightarrow> pending_alloc list \<Rightarrow> bool" where
  "describes pd n L \<longleftrightarrow> n \<le> length L \<and> n \<le> 63 \<and> unat (pd_used_alloc_tslot pd) = n
    \<and> map (decode_tslot (pd_dsts pd)) (take n (pd_tslot_desc pd)) = map alloc_key (take n L)
    \<and> length (pd_tslot_desc pd) = n + n mod 2 \<and> unat (pd_alloc_tslot pd) = n + n mod 2
    \<and> distinct (pd_dsts pd) \<and> length (pd_dsts pd) \<le> 15 \<and> unat (pd_n_dsts pd) = length (pd_dsts pd)
    \<and> set (pd_dsts pd) = al_dst ` set (take n L)
    \<and> desc_ok (pd_dsts pd) (take n (pd_tslot_desc pd)) \<and> drop n (pd_tslot_desc pd) = replicate (n mod 2) 0
    \<and> (L \<noteq> [] \<longrightarrow> 0 < n \<and> pd_base_tslot pd = al_timeslot (hd L))
    \<and> (n = length L \<or> n = 63 \<or> (length (pd_dsts pd) = 15 \<and> al_dst (L ! n) \<notin> set (pd_dsts pd)))"

lemma fill_packet_alloc_describes:
  assumes "comm_ok E F cm"
  shows "\<exists>pd' q' n. fill_packet_alloc i pd cm = Some (pd', upd_en i (en_pending_allocs_update (\<lambda>_. q')) cm)
    \<and> describes pd' n (pq_list (en_pending_allocs (cm_end_nodes cm i)))
    \<and> pq_list q' = drop n (pq_list (en_pending_allocs (cm_end_nodes cm i)))"
proof -
  have "alloc_dsts_ok (en_pending_allocs (cm_end_nodes cm i))" and e: "cc_alloc_enc_space (cm_core cm) = (\<lambda>_. 0)"
    using comm_okD(2) [OF assms] comm_okD(3) [OF assms, of i] by (simp_all add: core_ok_def node_ok_def)
  then have "\<forall>a \<in> set (pq_list (en_pending_allocs (cm_end_nodes cm i))). unat (al_dst a) < 256" using pq_list_dsts by blast
  from fill_packet_alloc_ok [OF this e, of pd] show ?thesis unfolding describes_def by blast
qed

text \<open>The report of a total: allocations to the flow so far, less the number of all allocations still waiting.\<close>

definition total_report :: "(nat \<Rightarrow> u32) \<Rightarrow> nat \<Rightarrow> u16 \<Rightarrow> fpproto_areq_desc" where
  "total_report totals unsent x = \<lparr>areq_src_dst_key = ucast x, areq_tslots = ucast (totals (unat x) - of_nat unsent)\<rparr>"

lemma report_entry_total: "report_entry en = total_report (en_alloc_to_dst en) (length (pq_list (en_pending_allocs en)))"
  by (simp add: report_entry_def total_report_def fun_eq_iff pq_list_def)

section \<open>Transmission\<close>

text \<open>What a transmission needs of a connection.\<close>

definition conn_ready :: "fpproto_conn \<Rightarrow> bool" where
  "conn_ready c \<longleftrightarrow> conn_inv c \<and> w_head (c_outwnd c) \<noteq> - 1 \<and> (\<forall>pd \<in> ran (unacked c). pd_wf pd)"

lemma prepare_plain:
  assumes "conn_ready c"
  shows "\<exists>c' es. fpproto_prepare_to_send c = Some c' \<and> conn_inv c' \<and> unacked c' = (unacked c)(wnd_edge (c_outwnd c) := None)
    \<and> w_head (c_outwnd c') = w_head (c_outwnd c) \<and> c_log c' = c_log c @ es \<and> list_all plain_event es
    \<and> (unacked c (wnd_edge (c_outwnd c)) = None \<longrightarrow> es = [])"
proof -
  have inv: "conn_inv c" and wf: "\<And>s pd. unacked c s = Some pd \<Longrightarrow> pd_wf pd" using assms by (auto simp: conn_ready_def ran_def)
  from prepare_spec [OF inv] obtain c' T where c': "fpproto_prepare_to_send c = Some c'" "conn_inv c'"
    "unacked c' = (unacked c)(wnd_edge (c_outwnd c) := None)" "w_head (c_outwnd c') = w_head (c_outwnd c)" "list_all timer_event T"
    "c_log c' = c_log c @ (case unacked c (wnd_edge (c_outwnd c)) of None \<Rightarrow> []
        | Some pd \<Rightarrow> (if time_after_eq64 (wnd_edge (c_outwnd c)) (c_next_timeout_seqno c) then nack_events (c_ops c) pd @ T else [])
            @ [Pktdesc_free pd])" by blast
  let ?es = "case unacked c (wnd_edge (c_outwnd c)) of None \<Rightarrow> []
        | Some pd \<Rightarrow> (if time_after_eq64 (wnd_edge (c_outwnd c)) (c_next_timeout_seqno c) then nack_events (c_ops c) pd @ T else [])
            @ [Pktdesc_free pd]"
  have "list_all plain_event ?es" using timer_events_plain [OF c'(5)] wf by (auto simp: nack_events_def split: option.split)
  then show ?thesis using c' by (intro exI [of _ c'] exI [of _ ?es]) auto
qed

text \<open>The first part of a transmission: the pacer is reset and the connection makes room for a packet.\<close>

lemma tx_prepare_total:
  assumes ok: "comm_ok E E cm" and c: "conn_ready (en_conn (cm_end_nodes cm i))"
  defines "en \<equiv> cm_end_nodes cm i"
  defines "e \<equiv> wnd_edge (c_outwnd (en_conn en))"
  shows "\<exists>cm1 R'. with_conn now i (\<lambda>c. map_option (Pair ()) (fpproto_prepare_to_send c)) (upd_en i (en_tx_pacer_update pacer_reset) cm) = Some ((), cm1)
    \<and> comm_ok (E - {i}) (insert i E) cm1 \<and> conn_inv (en_conn (cm_end_nodes cm1 i))
    \<and> w_head (c_outwnd (en_conn (cm_end_nodes cm1 i))) = w_head (c_outwnd (en_conn en))
    \<and> unacked (en_conn (cm_end_nodes cm1 i)) = (unacked (en_conn en))(e := None)
    \<and> en_pending_allocs (cm_end_nodes cm1 i) = en_pending_allocs en \<and> en_alloc_to_dst (cm_end_nodes cm1 i) = en_alloc_to_dst en
    \<and> rq_list (en_report_queue (cm_end_nodes cm1 i)) = rq_list (en_report_queue en) @ R' \<and> (unacked (en_conn en) e = None \<longrightarrow> R' = [])"
proof -
  let ?cm0 = "upd_en i (en_tx_pacer_update pacer_reset) cm"
  let ?f = "\<lambda>c. map_option (Pair ()) (fpproto_prepare_to_send c)"
  have en0: "en_conn (cm_end_nodes ?cm0 i) = en_conn en" by (simp add: en_def)
  from prepare_plain [OF c] obtain c1 es where c1: "?f (en_conn en) = Some ((), c1)" "conn_inv c1"
    "unacked c1 = (unacked (en_conn en))(e := None)" "w_head (c_outwnd c1) = w_head (c_outwnd (en_conn en))"
    "c_log c1 = c_log (en_conn en) @ es" "list_all plain_event es" "unacked (en_conn en) e = None \<longrightarrow> es = []"
    unfolding en_def e_def by (elim exE conjE) (simp del: fun_upd_apply)
  obtain cm1 where cm1: "with_conn now i ?f ?cm0 = Some ((), cm1)" "comm_ok (E - {i}) (insert i E) cm1"
    and ra: "reports_added i (upd_en i (en_conn_update (\<lambda>_. c1)) ?cm0) cm1"
    using with_conn_plain [OF tx_begin [OF ok, of i], of ?f i "()" c1 es now] c1(1,5,6) unfolding en0 by blast
  obtain R' where R': "rq_list (en_report_queue (cm_end_nodes cm1 i)) = rq_list (en_report_queue en) @ R'"
    using ra by (auto simp: reports_added_def en_def)
  have "es = [] \<longrightarrow> R' = []"
    using cm1(1) c1(1,5) R' by (auto simp: with_conn_def Let_def en_def)
  with c1(7) have "unacked (en_conn en) e = None \<longrightarrow> R' = []" by blast
  moreover have "en_conn (cm_end_nodes cm1 i) = c1" "en_pending_allocs (cm_end_nodes cm1 i) = en_pending_allocs en"
    "en_alloc_to_dst (cm_end_nodes cm1 i) = en_alloc_to_dst en" using ra by (auto simp: reports_added_def en_def)
  ultimately show ?thesis using cm1 R' c1(2-4) by (intro exI [of _ cm1] exI [of _ R']) (simp del: fun_upd_apply)
qed

text \<open>The last part: the packet is in flight.\<close>

lemma tx_commit_total:
  assumes ok: "comm_ok E F cm" and c: "conn_inv (en_conn (cm_end_nodes cm i))"
  defines "c \<equiv> en_conn (cm_end_nodes cm i)"
  assumes top: "w_head (c_outwnd c) \<noteq> - 1" and edge: "unacked c (wnd_edge (c_outwnd c)) = None"
  shows "\<exists>pd' cm'. with_conn now i (\<lambda>c. map_option (\<lambda>(c, pd). (pd, c)) (fpproto_commit_packet c pd now)) cm = Some (pd', cm')
    \<and> comm_ok E F cm' \<and> unacked (en_conn (cm_end_nodes cm' i)) (w_head (c_outwnd c) + 1) = Some pd' \<and> conn_inv (en_conn (cm_end_nodes cm' i))
    \<and> en_pending_allocs (cm_end_nodes cm' i) = en_pending_allocs (cm_end_nodes cm i)
    \<and> pd_areq pd' = pd_areq pd \<and> pd_n_areq pd' = pd_n_areq pd \<and> (\<forall>n L. describes pd n L \<longrightarrow> describes pd' n L)"
proof -
  have "wnd_edge (c_outwnd c) \<notin> dom (unacked c)" using edge by (simp add: domIff)
  from commit_spec [OF assms(2) [folded c_def] top this, of pd now] obtain c' pd' T where
    c': "fpproto_commit_packet c pd now = Some (c', pd')" "conn_inv c'" "unacked c' = (unacked c)(w_head (c_outwnd c) + 1 \<mapsto> pd')"
      "list_all timer_event T" "c_log c' = c_log c @ T" by auto
  let ?f = "\<lambda>c. map_option (\<lambda>(c, pd). (pd, c)) (fpproto_commit_packet c pd now)"
  obtain cm' where cm': "with_conn now i ?f cm = Some (pd', cm')" "comm_ok E F cm'"
    and ra: "reports_added i (upd_en i (en_conn_update (\<lambda>_. c')) cm) cm'"
    using with_conn_plain [OF ok, of ?f i pd' c' T now] c'(1,5) timer_events_plain [OF c'(4)] unfolding c_def by auto
  have "describes pd n L \<longrightarrow> describes pd' n L" for n L by (auto simp: describes_def commit_fields [OF c'(1)])
  moreover have "en_conn (cm_end_nodes cm' i) = c'" "en_pending_allocs (cm_end_nodes cm' i) = en_pending_allocs (cm_end_nodes cm i)"
    using ra by (auto simp: reports_added_def)
  ultimately show ?thesis using cm' c'(2,3) commit_fields(1,2) [OF c'(1)] by (intro exI [of _ pd'] exI [of _ cm']) simp
qed

lemma fill_packet_report_effect:
  assumes ok: "comm_ok E F cm" and i: "i \<notin> E"
  defines "en \<equiv> cm_end_nodes cm i"
  shows "\<exists>pd' cm'. fill_packet_report now i pd cm = Some (pd', cm') \<and> comm_ok E (F - {i}) cm'
    \<and> pd_areq pd' = map (total_report (en_alloc_to_dst en) (length (pq_list (en_pending_allocs en)))) (take 10 (rq_list (en_report_queue en)))
    \<and> unat (pd_n_areq pd') = length (pd_areq pd') \<and> (\<forall>n L. describes pd n L \<longrightarrow> describes pd' n L)
    \<and> en_conn (cm_end_nodes cm' i) = en_conn en \<and> en_pending_allocs (cm_end_nodes cm' i) = en_pending_allocs en"
proof -
  have rq: "rq_ok (en_report_queue (cm_end_nodes cm i))" using comm_okD(3) [OF ok, of i] by (simp add: node_ok_def)
  from fill_packet_report_ok [OF comm_okD(2) [OF ok] rq, of now pd] obtain pd' cm' q where
    b: "fill_packet_report now i pd cm = Some (pd', cm')" "pd_areq pd' = map (report_entry en) (take 10 (rq_list (en_report_queue en)))"
      "unat (pd_n_areq pd') = length (pd_areq pd')" "pd' = pd\<lparr>pd_n_areq := pd_n_areq pd', pd_areq := pd_areq pd'\<rparr>"
    and cm': "cm' = (let cm1 = upd_en i (\<lambda>en. en\<lparr>en_report_queue := q\<rparr>) cm in if rq_list q = [] then cm1 else trigger_request now i cm1)"
    unfolding en_def by blast
  let ?cm1 = "upd_en i (\<lambda>en. en\<lparr>en_report_queue := q\<rparr>) cm"
  obtain pa where "cm_end_nodes (trigger_request now i ?cm1) = (cm_end_nodes ?cm1)(i := (cm_end_nodes ?cm1 i)\<lparr>en_tx_pacer := pa\<rparr>)"
    using trigger_request_frame(4) by blast
  then have "en_conn (cm_end_nodes cm' i) = en_conn en" "en_pending_allocs (cm_end_nodes cm' i) = en_pending_allocs en"
    by (simp_all add: cm' en_def Let_def)
  moreover have "describes pd n L \<longrightarrow> describes pd' n L" for n L by (subst b(4)) (auto simp: describes_def)
  ultimately show ?thesis
    using b(1-3) fill_packet_report_serves [OF ok i b(1)] by (intro exI [of _ pd'] exI [of _ cm']) (simp add: report_entry_total)
qed

lemma tx_end_node_total:
  fixes cm i
  defines "en \<equiv> cm_end_nodes cm i"
  defines "L \<equiv> pq_list (en_pending_allocs en)" and "R \<equiv> rq_list (en_report_queue en)" and "c \<equiv> en_conn en"
  assumes "comm_ok E E cm" and "conn_ready c"
  shows "\<exists>pd' cm' n R'. tx_end_node now i (Some pd) cm = Some (Some pd', cm') \<and> comm_ok (E - {i}) (E - {i}) cm'
    \<and> describes pd' n L \<and> pq_list (en_pending_allocs (cm_end_nodes cm' i)) = drop n L
    \<and> pd_areq pd' = map (total_report (en_alloc_to_dst en) (length L - n)) (take 10 (R @ R')) \<and> unat (pd_n_areq pd') = length (pd_areq pd')
    \<and> unacked (en_conn (cm_end_nodes cm' i)) (w_head (c_outwnd c) + 1) = Some pd' \<and> conn_inv (en_conn (cm_end_nodes cm' i))
    \<and> (unacked c (wnd_edge (c_outwnd c)) = None \<longrightarrow> R' = [])"
proof -
  from tx_prepare_total [OF assms(5) assms(6) [unfolded c_def en_def], of now] obtain cm1 R' where
    a: "with_conn now i (\<lambda>c. map_option (Pair ()) (fpproto_prepare_to_send c)) (upd_en i (en_tx_pacer_update pacer_reset) cm) = Some ((), cm1)"
      "comm_ok (E - {i}) (insert i E) cm1" "conn_inv (en_conn (cm_end_nodes cm1 i))"
      "w_head (c_outwnd (en_conn (cm_end_nodes cm1 i))) = w_head (c_outwnd c)"
      "unacked (en_conn (cm_end_nodes cm1 i)) = (unacked c)(wnd_edge (c_outwnd c) := None)"
      "pq_list (en_pending_allocs (cm_end_nodes cm1 i)) = L" "en_alloc_to_dst (cm_end_nodes cm1 i) = en_alloc_to_dst en"
      "rq_list (en_report_queue (cm_end_nodes cm1 i)) = R @ R'" "unacked c (wnd_edge (c_outwnd c)) = None \<longrightarrow> R' = []"
    unfolding en_def L_def R_def c_def by (elim exE conjE) (simp del: fun_upd_apply)
  from fill_packet_alloc_describes [OF a(2), of i pd] obtain pd2 q2 n where
    b: "fill_packet_alloc i pd cm1 = Some (pd2, upd_en i (en_pending_allocs_update (\<lambda>_. q2)) cm1)" "describes pd2 n L" "pq_list q2 = drop n L"
    unfolding a(6) by blast
  let ?cm2 = "upd_en i (en_pending_allocs_update (\<lambda>_. q2)) cm1"
  have F: "insert i E - {i} = E - {i}" by auto
  from fill_packet_report_effect [OF fill_packet_alloc_keeps [OF a(2) b(1)], of i now pd2] obtain pd3 cm3 where
    d: "fill_packet_report now i pd2 ?cm2 = Some (pd3, cm3)" "comm_ok (E - {i}) (E - {i}) cm3"
      "pd_areq pd3 = map (total_report (en_alloc_to_dst en) (length L - n)) (take 10 (R @ R'))"
      "unat (pd_n_areq pd3) = length (pd_areq pd3)" "describes pd3 n L"
      "en_conn (cm_end_nodes cm3 i) = en_conn (cm_end_nodes cm1 i)" "pq_list (en_pending_allocs (cm_end_nodes cm3 i)) = drop n L"
    using b(2,3) a(7,8) by (auto simp: F)
  have "w_head (c_outwnd (en_conn (cm_end_nodes cm3 i))) \<noteq> - 1"
    "unacked (en_conn (cm_end_nodes cm3 i)) (wnd_edge (c_outwnd (en_conn (cm_end_nodes cm3 i)))) = None"
    using assms(6) a(4,5) by (simp_all add: d(6) conn_ready_def wnd_edge_def)
  from tx_commit_total [OF d(2) _ this, of now pd3] a(3) obtain pd4 cm4 where
    "with_conn now i (\<lambda>c. map_option (\<lambda>(c, pd). (pd, c)) (fpproto_commit_packet c pd3 now)) cm3 = Some (pd4, cm4)"
    "comm_ok (E - {i}) (E - {i}) cm4" "unacked (en_conn (cm_end_nodes cm4 i)) (w_head (c_outwnd c) + 1) = Some pd4"
    "conn_inv (en_conn (cm_end_nodes cm4 i))" "pq_list (en_pending_allocs (cm_end_nodes cm4 i)) = drop n L"
    "pd_areq pd4 = pd_areq pd3" "pd_n_areq pd4 = pd_n_areq pd3" "describes pd4 n L"
    using d(5-7) a(4) by auto
  then show ?thesis
    using a(1,9) b(1) d(1,3,4) by (intro exI [of _ pd4] exI [of _ cm4] exI [of _ n] exI [of _ R']) (simp add: tx_end_node_def)
qed

text \<open>
  C7. A transmission always succeeds and says what is waiting. For a node in a consistent state, with a descriptor
  from the pool, no assertion of the packet code, of the queues or of the protocol fails; the packet
  describes the longest prefix of the waiting allocations that fits (63 allocations, 15 destinations) and these
  leave the queue; it reports the totals of the ten oldest flows in the report queue, to which
  the packet that falls off the window may have added some; it is in flight with the next sequence
  number; and the node is served: if it still has flows to report, its transmission timer is armed.
\<close>

theorem tx_end_node_correct:
  fixes cm i
  defines "en \<equiv> cm_end_nodes cm i"
  defines "L \<equiv> pq_list (en_pending_allocs en)" and "R \<equiv> rq_list (en_report_queue en)" and "c \<equiv> en_conn en"
  assumes "comm_ok E E cm" and "conn_ready c"
  shows "\<exists>pd' cm' n R'. tx_end_node now i (Some pd) cm = Some (Some pd', cm') \<and> comm_ok (E - {i}) (E - {i}) cm'
    \<and> describes pd' n L \<and> pq_list (en_pending_allocs (cm_end_nodes cm' i)) = drop n L
    \<and> pd_areq pd' = map (total_report (en_alloc_to_dst en) (length L - n)) (take 10 (R @ R')) \<and> unat (pd_n_areq pd') = length (pd_areq pd')
    \<and> unacked (en_conn (cm_end_nodes cm' i)) (w_head (c_outwnd c) + 1) = Some pd' \<and> conn_inv (en_conn (cm_end_nodes cm' i))
    \<and> (unacked c (wnd_edge (c_outwnd c)) = None \<longrightarrow> R' = [])"
  unfolding en_def L_def R_def c_def by (rule tx_end_node_total) (use assms in simp_all)

text \<open>A node with one allocation waiting, and its flow to be reported.\<close>

definition ex_node :: end_node_state where
  "ex_node = zero_node\<lparr>en_conn := ex_conn,
     en_pending_allocs := \<lparr>pq_allocs = \<lambda>_. \<lparr>al_dst = 2, al_timeslot = 5, al_flags = 3\<rparr>, pq_head = 0, pq_tail = 1\<rparr>,
     en_alloc_to_dst := (\<lambda>_. 0)(2 := 1),
     en_report_queue := \<lparr>rq_is_pending = (\<lambda>_. 0)(2 := 1), rq_q_pending = \<lambda>_. 2, rq_head = 0, rq_tail = 1\<rparr>\<rparr>"

definition ex_idle_timers :: fp_timers where
  "ex_idle_timers = fp_init_timers \<lparr>ft_head = 0, ft_slots = \<lambda>_. [], ft_time = \<lambda>_. TIMER_NOT_SET_TIME\<rparr> 0"

definition ex_comm :: "status \<Rightarrow> comm" where
  "ex_comm st = \<lparr>cm_end_nodes = (\<lambda>_. zero_node)(1 := ex_node),
     cm_core = \<lparr>cc_alloc_enc_space = \<lambda>_. 0, cc_latest_timeslot = \<lambda>_. 0, cc_timeout_timers = ex_idle_timers, cc_tx_timers = ex_idle_timers\<rparr>,
     cm_status = st\<rparr>"

lemma ex_node_lists:
  "pq_list (en_pending_allocs ex_node) = [\<lparr>al_dst = 2, al_timeslot = 5, al_flags = 3\<rparr>]"
  "rq_list (en_report_queue ex_node) = [2]"
  by (simp_all add: ex_node_def pq_list_def rq_list_def entries_def)

lemma ex_node_ok: "node_ok ex_node"
proof -
  have "(unat x = 2) = (x = 2)" for x :: u16 using unat_eq_iff [of x 2] by simp
  then show ?thesis by (simp add: node_ok_def rq_ok_def ex_node_lists) (simp add: ex_node_def alloc_dsts_ok_def)
qed

lemma ex_comm_ok: "comm_ok UNIV UNIV (ex_comm st)"
proof -
  have "tw_inv ex_idle_timers" unfolding ex_idle_timers_def by (rule fp_init_timers_ok) (simp add: armed_def)
  then show ?thesis using ex_node_ok zero_node_ok(1) by (simp add: comm_ok_def core_ok_def ex_comm_def)
qed

lemma ex_comm_ready: "conn_ready (en_conn (cm_end_nodes (ex_comm st) 1))"
  by (simp add: ex_comm_def ex_node_def conn_ready_def ex_conn_props ex_base_eq)

theorem tx_end_node_correct_witness:
  "\<exists>pd' cm'. tx_end_node 10 1 (Some ex_pd) (ex_comm (ex_status 0)) = Some (Some pd', cm')
    \<and> map (decode_tslot (pd_dsts pd')) (take 1 (pd_tslot_desc pd')) = [(2, 3)] \<and> pd_base_tslot pd' = 5
    \<and> pd_areq pd' = [\<lparr>areq_src_dst_key = 2, areq_tslots = 1\<rparr>]"
proof -
  have n: "cm_end_nodes (ex_comm (ex_status 0)) 1 = ex_node" by (simp add: ex_comm_def)
  have a: "en_alloc_to_dst ex_node 2 = 1" by (simp add: ex_node_def)
  have u: "unacked (en_conn ex_node) = Map.empty" by (simp add: ex_node_def ex_conn_props)
  from tx_end_node_correct [OF ex_comm_ok [of "ex_status 0"] ex_comm_ready, of 10 ex_pd] obtain pd' cm' m where
    r: "tx_end_node 10 1 (Some ex_pd) (ex_comm (ex_status 0)) = Some (Some pd', cm')"
      "describes pd' m (pq_list (en_pending_allocs ex_node))"
      "pd_areq pd' = map (total_report (en_alloc_to_dst ex_node) (1 - m)) [2]"
    unfolding n ex_node_lists u by (elim exE conjE) simp
  from r(2) have m: "m = 1" by (simp add: describes_def ex_node_lists)
  show ?thesis using r by (simp add: m describes_def ex_node_lists alloc_key_def FLAGS_MASK_def total_report_def a)
qed

section \<open>Reports\<close>


text \<open>A round that ends with a packet that kills the arbiter.\<close>

definition ex_kill_input :: comm_input where
  "ex_kill_input = \<lparr>ci_rx = [\<lparr>rx_mbuf = \<lparr>mb_mem = (\<lambda>_. 0)(12 := 8, 23 := 225), mb_len = 64, mb_addr = 0\<rparr>,
       rx_now = 20, rx_now' = 21, rx_in_time = True\<rparr>],
     ci_now = 22, ci_admitted = [(create_admitted_traffic (\<lambda>_. \<lparr>a_src = 1, a_dst = 2\<rparr>))\<lparr>ad_size := 1\<rparr>], ci_pd = \<lambda>_. None\<rparr>"


lemma total_report_short:
  "(ucast (areq_tslots (total_report totals (length U) x)) :: u16) + of_nat (length (filter (\<lambda>a. al_dst a \<noteq> x) U)) =
     ucast (totals (unat x) - of_nat (length (filter (\<lambda>a. al_dst a = x) U)))"
proof -
  have "length (filter (\<lambda>a. al_dst a = x) U) + length (filter (\<lambda>a. al_dst a \<noteq> x) U) = length U"
    by (rule sum_length_filter_compl)
  then have "(of_nat (length U) :: u32) = of_nat (length (filter (\<lambda>a. al_dst a = x) U)) + of_nat (length (filter (\<lambda>a. al_dst a \<noteq> x) U))"
    by (metis of_nat_add)
  then have u: "totals (unat x) - of_nat (length U) + of_nat (length (filter (\<lambda>a. al_dst a \<noteq> x) U)) =
      totals (unat x) - of_nat (length (filter (\<lambda>a. al_dst a = x) U))" by simp
  have c: "ucast (a :: u32) + of_nat k = (ucast (a + of_nat k) :: u16)" for a k
    by transfer (simp add: take_bit_eq_mod mod_mod_cancel, subst mod_add_left_eq [symmetric], simp add: mod_mod_cancel mod_add_left_eq)
  have w: "ucast (ucast (a :: u32) :: u64) = (ucast a :: u16)" for a by (rule bit_word_eqI) (auto simp: bit_ucast_iff)
  show ?thesis unfolding total_report_def by (simp only: fpproto_areq_desc.simps w c u)
qed

text \<open>
  C39. What a report says. The 16 bits that are sent for a flow are its allocations so far less \<^emph>\<open>all\<close> allocations
  of the node that wait for another packet: to be the allocations of the flow that were sent, they lack as
  many as wait for other destinations.
\<close>

theorem report_counts_other_flows:
  assumes "comm_ok E F cm" "i \<notin> E"
  defines "en \<equiv> cm_end_nodes cm i"
  defines "U \<equiv> pq_list (en_pending_allocs en)"
  shows "\<exists>pd' cm'. fill_packet_report now i pd cm = Some (pd', cm') \<and> length (pd_areq pd') = min 10 (length (rq_list (en_report_queue en)))
    \<and> (\<forall>k < length (pd_areq pd'). let a = pd_areq pd' ! k; x = rq_list (en_report_queue en) ! k in areq_src_dst_key a = ucast x
        \<and> (ucast (areq_tslots a) :: u16) + of_nat (length (filter (\<lambda>a. al_dst a \<noteq> x) U)) =
          ucast (en_alloc_to_dst en (unat x) - of_nat (length (filter (\<lambda>a. al_dst a = x) U))))"
proof -
  from fill_packet_report_effect [OF assms(1,2), of now pd] obtain pd' cm' where
    r: "fill_packet_report now i pd cm = Some (pd', cm')"
      "pd_areq pd' = map (total_report (en_alloc_to_dst en) (length U)) (take 10 (rq_list (en_report_queue en)))"
    unfolding en_def U_def by blast
  have "areq_src_dst_key (total_report t n x) = ucast x" for t n x by (simp add: total_report_def)
  then show ?thesis using r(1) by (intro exI [of _ pd'] exI [of _ cm']) (simp add: r(2) Let_def min.commute total_report_short)
qed

text \<open>The node of the example, with another flow to report than the one that has an allocation waiting.\<close>

definition ex_comm3 :: comm where
  "ex_comm3 = upd_en 1 (en_report_queue_update (\<lambda>_. \<lparr>rq_is_pending = (\<lambda>_. 0)(3 := 1), rq_q_pending = \<lambda>_. 3, rq_head = 0, rq_tail = 1\<rparr>))
     (upd_en 1 (en_tx_pacer_update pacer_reset) (ex_comm (ex_status 0)))"

lemma ex_comm3_props:
  "comm_ok (UNIV - {1}) UNIV ex_comm3" "rq_list (en_report_queue (cm_end_nodes ex_comm3 1)) = [3]"
  "pq_list (en_pending_allocs (cm_end_nodes ex_comm3 1)) = [\<lparr>al_dst = 2, al_timeslot = 5, al_flags = 3\<rparr>]"
  "en_alloc_to_dst (cm_end_nodes ex_comm3 1) 3 = 0"
proof -
  have n: "cm_end_nodes (ex_comm (ex_status 0)) 1 = ex_node" by (simp add: ex_comm_def)
  let ?q = "\<lparr>rq_is_pending = (\<lambda>_. 0)(3 := 1), rq_q_pending = \<lambda>_. 3, rq_head = 0, rq_tail = 1\<rparr> :: alloc_report_queue"
  have l: "rq_list ?q = [3]" by (simp add: rq_list_def entries_def)
  have "(unat x = 3) = (x = 3)" for x :: u16 using unat_eq_iff [of x 3] by simp
  then have q: "rq_ok ?q" by (simp add: rq_ok_def l)
  have b: "comm_ok (UNIV - {1}) UNIV (upd_en 1 (en_tx_pacer_update pacer_reset) (ex_comm (ex_status 0)))"
    using tx_begin [OF ex_comm_ok [of "ex_status 0"], of 1] by (simp add: insert_UNIV)
  have "node_ok (cm_end_nodes ex_comm3 j)" for j using comm_okD(3) [OF b, of j] q by (auto simp: ex_comm3_def node_ok_def)
  moreover have "core_ok (cm_core ex_comm3)" using comm_okD(2) [OF b] by (simp add: ex_comm3_def)
  moreover have "\<not> pacer_is_triggered (en_tx_pacer (cm_end_nodes ex_comm3 1))" by (simp add: ex_comm3_def pacer_reset_idle)
  ultimately show "comm_ok (UNIV - {1}) UNIV ex_comm3" by (auto simp: comm_ok_def)
  show "rq_list (en_report_queue (cm_end_nodes ex_comm3 1)) = [3]"
    "pq_list (en_pending_allocs (cm_end_nodes ex_comm3 1)) = [\<lparr>al_dst = 2, al_timeslot = 5, al_flags = 3\<rparr>]"
    "en_alloc_to_dst (cm_end_nodes ex_comm3 1) 3 = 0"
    using n l by (simp_all add: ex_comm3_def ex_node_lists) (simp add: ex_node_def)
qed

theorem report_counts_other_flows_witness:
  "\<exists>pd' cm'. fill_packet_report 10 1 ex_pd ex_comm3 = Some (pd', cm') \<and> areq_src_dst_key (pd_areq pd' ! 0) = 3
    \<and> (ucast (areq_tslots (pd_areq pd' ! 0)) :: u16) = 65535"
proof -
  have m: "a = 65535" if "a + 1 = 0" for a :: u16 using that by (simp add: add_eq_0_iff2)
  show ?thesis
    using report_counts_other_flows [OF ex_comm3_props(1), of 1 10 ex_pd] ex_comm3_props(4) unfolding ex_comm3_props(2,3)
    by (auto simp: Let_def intro: m)
qed

section \<open>Requests\<close>

text \<open>
  C6. A request becomes backlog, exactly. For a request about existing nodes, with room in the queues of the allocator and
  in its backlog, the handler takes over the demands, and what is pending in the allocator for the sender grows, flow
  by flow, by the growth of the demand; nothing else changes there. A node that is not being served has
  its transmission timer armed, so the answer is on its way.
\<close>

theorem handle_areq_conserves:
  assumes "i < 64" "\<forall>x \<in> set (areq_entries data n). unat (fst x) < 64" "alloc_ready (n + k) (cm_status cm)" "comm_ok E E cm"
    and "\<forall>x. unat x < 64 \<longrightarrow> Requests.pending (cm_status cm) (of_nat i, x) + n * 32768 < 2 ^ 32"
  defines "f \<equiv> en_demands (cm_end_nodes cm i)"
  shows "\<exists>cm'. handle_areq now i data n cm = Some cm' \<and> comm_ok E E cm' \<and> (i \<notin> E \<longrightarrow> armed (cc_tx_timers (cm_core cm')) i \<noteq> None)
    \<and> en_demands (cm_end_nodes cm' i) = areq_known (areq_entries data n) f
    \<and> backlog_grown i (cm_status cm) f (cm_status cm') (areq_known (areq_entries data n) f) \<and> alloc_ready k (cm_status cm')"
proof -
  let ?xs = "areq_entries data n"
  have len: "length ?xs = n" by (simp add: areq_entries_def)
  from areq_loop_ok [of i ?xs k cm] assms(1-3,5) obtain st where
    l: "areq_loop i ?xs cm = Some (True, upd_en i (\<lambda>en. en\<lparr>en_demands := areq_known ?xs (en_demands en)\<rparr>) (cm\<lparr>cm_status := st\<rparr>))"
      "alloc_ready k st" "backlog_grown i (cm_status cm) f st (areq_known ?xs f)" unfolding len f_def by blast
  let ?cm = "upd_en i (\<lambda>en. en\<lparr>en_demands := areq_known ?xs (en_demands en)\<rparr>) (cm\<lparr>cm_status := st\<rparr>)"
  have ok: "comm_ok E E ?cm" by (rule comm_ok_upd_en) (use assms(4) in simp_all)
  have t: "comm_ok E E (trigger_request now i ?cm)" "i \<notin> E \<longrightarrow> tx_set (trigger_request now i ?cm) i"
    using trigger_request_ok [where now = now and i = i, OF comm_okD(1-4) [OF ok]] comm_okD(5) [OF ok] by blast+
  obtain pa where "cm_end_nodes (trigger_request now i ?cm) = (cm_end_nodes ?cm)(i := (cm_end_nodes ?cm i)\<lparr>en_tx_pacer := pa\<rparr>)"
    using trigger_request_frame(4) by blast
  then show ?thesis using l t trigger_request_frame(1) [of now i ?cm]
    by (intro exI [of _ "trigger_request now i ?cm"]) (simp add: handle_areq_def f_def)
qed

theorem handle_areq_conserves_witness:
  "\<exists>cm'. handle_areq 10 1 [0, 2, 0, 5] 1 (ex_comm (ex_status 0)) = Some cm' \<and> en_demands (cm_end_nodes cm' 1) 2 = 5
    \<and> Requests.pending (cm_status cm') (1, 2) = 7"
proof -
  let ?cm = "ex_comm (ex_status 0)"
  have x: "areq_entries [0, 2, 0, 5] 1 = [(2, 5)]" by code_simp
  have st: "cm_status ?cm = ex_status 0" and f: "en_demands (cm_end_nodes ?cm 1) = (\<lambda>_. 0)"
    by (simp_all add: ex_comm_def ex_node_def zero_node_def)
  have r: "alloc_ready (1 + 63) (cm_status ?cm)" using ex_status_req(1-3) [of 0] by (simp add: st alloc_ready_def)
  have p: "Requests.pending (cm_status ?cm) (of_nat 1, y) \<le> 3" for y
    by (simp add: st ex_status_req ex_edge_def e_pair_def)
  have p': "\<forall>y. unat y < 64 \<longrightarrow> Requests.pending (cm_status ?cm) (of_nat 1, y) + 1 * 32768 < 2 ^ 32"
  proof (intro allI impI)
    show "Requests.pending (cm_status ?cm) (of_nat 1, y) + 1 * 32768 < 2 ^ 32" for y using p [of y] by simp
  qed
  have k: "areq_known [(2, 5)] (\<lambda>_. 0) 2 = 5" unfolding areq_known_def by code_simp
  have x64: "\<forall>x \<in> set (areq_entries [0, 2, 0, 5] 1). unat (fst x) < 64" unfolding x by simp
  from handle_areq_conserves [OF _ x64 r ex_comm_ok p', of 10] obtain cm' where
    c: "handle_areq 10 1 [0, 2, 0, 5] 1 ?cm = Some cm'" "en_demands (cm_end_nodes cm' 1) = areq_known [(2, 5)] (\<lambda>_. 0)"
      "backlog_grown 1 (ex_status 0) (\<lambda>_. 0) (cm_status cm') (areq_known [(2, 5)] (\<lambda>_. 0))" unfolding x f st by auto
  have "node_pair (1, 2)" by (simp add: node_pair_def MAX_NODES_def)
  then have "Requests.pending (cm_status cm') (1, 2) = 7"
    using c(3) k by (simp add: backlog_grown_def ex_status_req ex_edge_def e_pair_def)
  then show ?thesis using c(1,2) k by auto
qed

section \<open>The watchdog\<close>



end
