(* ===== verification/Tsq.thy ===== *)
theory Tsq
  imports Topology Proto "HOL-Library.Tree"
begin

text \<open>
  The time slot queueing discipline of the kernel module, \<^verbatim>\<open>src/src/kernel-mod/sch_timeslot.c\<close>: data packets are sorted into
  flows and, within a flow, into time slots' worth of packets, which wait until the client of the discipline
  (\<^verbatim>\<open>sch_fastpass.c\<close>) admits them; other packets bypass the flows.

  A queue of packets is the list of its packets. The flows are in red-black trees in the cells of a hash table; a node is known
  by its key, and \<open>tq_dsts\<close> has its contents. What belongs to the Linux kernel is an argument, the record \<open>kernel\<close>: the
  hash functions, the rebalancing, removal and traversal of its trees, the time that a packet takes on a line of some rate and the
  update of a checksum. The spin
  lock of the table is a field; to take it while it is taken is to wait for ever, the result \<open>None\<close>, as is to follow a null
  pointer. The other locks are released by the function that takes them. An allocation of memory that may
  fail is an argument that tells whether it succeeds.
\<close>

section \<open>Packets and queues\<close>

record flow_keys =
  fk_ip_proto :: u8
  fk_sport :: u16
  fk_dport :: u16

text \<open>
  A packet, with the fields of its headers that are read and what the kernel's \<open>skb_flow_dissect\<close> finds in it; numbers are in host
  order. \<open>sk_payload\<close> stands for the rest.
\<close>

record sk_buff =
  sk_len :: u32
  sk_protocol :: u16
  sk_h_dest :: "u8 list"
  sk_keys :: "flow_keys option"
  sk_ver_ihl :: u8
  sk_tos :: u8
  sk_check :: u16
  sk_flow_lbl0 :: u8
  sk_daddr :: u32
  sk_daddr6 :: u32
  sk_payload :: nat

record timeslot_skb_q =
  ts_skbs :: "sk_buff list"
  ts_id :: u16

record tsq_dst =
  td_skb_qs :: "timeslot_skb_q list"
  td_credit :: u64
  td_next_id :: u16

record tsq_sched_stat =
  tt_gc_flows :: u64
  tt_ctrl_pkts :: u64
  tt_ntp_pkts :: u64
  tt_ptp_pkts :: u64
  tt_arp_pkts :: u64
  tt_igmp_pkts :: u64
  tt_ssh_pkts :: u64
  tt_data_pkts :: u64
  tt_classify_errors :: u64
  tt_classified_ipv6 :: u64
  tt_above_plimit :: u64
  tt_enqueued :: u64
  tt_enqueued_hi_pri :: u64
  tt_allocation_errors :: u64
  tt_pkt_too_big :: u64
  tt_added_tslots :: u64
  tt_dequeued :: u64
  tt_used_timeslots :: u64
  tt_dropped_timeslots :: u64
  tt_modified_timeslots :: u64
  tt_unwanted_alloc :: u64
  tt_dst_not_found_handle_now :: u64
  tt_unrecognized_id :: u64
  tt_unrecognized_action :: u64

text \<open>
  The state; \<open>tq_qlen\<close> and \<open>tq_limit\<close> are those of the discipline that the kernel keeps, and \<open>tq_priv\<close> is the memory of the client,
  which lies behind this struct.
\<close>

record 'p tsq_sched_data =
  tq_hash_tbl_log :: nat
  tq_tslot_mul :: u32
  tq_tslot_shift :: u32
  tq_data_rate :: u32
  tq_tslot_len_approx :: u32
  tq_hash_tbl_lock :: bool
  tq_dst_hash_tbl :: "(nat \<Rightarrow> u64 tree) option"
  tq_dsts :: "u64 \<Rightarrow> tsq_dst"
  tq_enqueue_skb_q :: "sk_buff list"
  tq_reg_prio :: "sk_buff list"
  tq_hi_prio :: "sk_buff list"
  tq_prequeue :: "sk_buff list"
  tq_dropqueue :: "sk_buff list"
  tq_current_timeslot :: u64
  tq_flows :: u32
  tq_inactive_flows :: u32
  tq_qlen :: u32
  tq_limit :: u32
  tq_stat :: tsq_sched_stat
  tq_priv :: 'p

record 'p tsq_ops =
  op_add_timeslot :: "u64 \<Rightarrow> sk_buff \<Rightarrow> 'p \<Rightarrow> 'p option"
  op_prepare_to_send :: "(sk_buff \<Rightarrow> u8 list \<Rightarrow> 'p \<Rightarrow> sk_buff \<times> 'p) option"

record kernel =
  k_jhash_2words :: "u32 \<Rightarrow> u32 \<Rightarrow> u32 \<Rightarrow> u32"
  k_insert_color :: "u64 tree \<Rightarrow> u64 tree"
  k_erase :: "u64 \<Rightarrow> u64 tree \<Rightarrow> u64 tree"
  k_first :: "u64 tree \<Rightarrow> u64 option"
  k_next :: "u64 \<Rightarrow> u64 tree \<Rightarrow> u64 option"
  k_l2t :: "u32 \<Rightarrow> u32 \<Rightarrow> u64"
  k_jhash_1word :: "u32 \<Rightarrow> u32 \<Rightarrow> u32"
  k_csum_replace2 :: "u16 \<Rightarrow> u16 \<Rightarrow> u16 \<Rightarrow> u16"

definition tsq_count :: "((u64 \<Rightarrow> u64) \<Rightarrow> tsq_sched_stat \<Rightarrow> tsq_sched_stat) \<Rightarrow> 'p tsq_sched_data \<Rightarrow> 'p tsq_sched_data" where
  "tsq_count upd q = q\<lparr>tq_stat := upd (\<lambda>n. n + 1) (tq_stat q)\<rparr>"

definition upd_dst :: "u64 \<Rightarrow> (tsq_dst \<Rightarrow> tsq_dst) \<Rightarrow> 'p tsq_sched_data \<Rightarrow> 'p tsq_sched_data" where
  "upd_dst key f q = q\<lparr>tq_dsts := (tq_dsts q)(key := f (tq_dsts q key))\<rparr>"

definition hash_tbl_lock :: "'p tsq_sched_data \<Rightarrow> 'p tsq_sched_data option" where
  "hash_tbl_lock q = (if tq_hash_tbl_lock q then None else Some (q\<lparr>tq_hash_tbl_lock := True\<rparr>))"

definition hash_tbl_unlock :: "'p tsq_sched_data \<Rightarrow> 'p tsq_sched_data" where
  "hash_tbl_unlock q = q\<lparr>tq_hash_tbl_lock := False\<rparr>"

definition skb_q_enqueue :: "sk_buff list \<Rightarrow> sk_buff \<Rightarrow> sk_buff list" where
  "skb_q_enqueue queue skb = queue @ [skb]"

definition skb_q_dequeue :: "sk_buff list \<Rightarrow> sk_buff option \<times> sk_buff list" where
  "skb_q_dequeue queue = (case queue of [] \<Rightarrow> (None, []) | skb # rest \<Rightarrow> (Some skb, rest))"

text \<open>Appending an empty queue would leave a wild pointer in the tail.\<close>

definition skb_q_append :: "sk_buff list \<Rightarrow> sk_buff list \<Rightarrow> sk_buff list option" where
  "skb_q_append queue what = do { bug_on (what = []); Some (queue @ what) }"

section \<open>The table of flows\<close>

definition src_dst_key_hash :: "kernel \<Rightarrow> u64 \<Rightarrow> u32" where
  "src_dst_key_hash k src_dst_key = k_jhash_2words k (ucast (drop_bit 32 src_dst_key)) (ucast src_dst_key) 0"

definition bucket :: "kernel \<Rightarrow> nat \<Rightarrow> u64 \<Rightarrow> nat" where
  "bucket k log key = unat (drop_bit (32 - log) (src_dst_key_hash k key))"

text \<open>Greater keys are on the left.\<close>

fun rb_search :: "u64 \<Rightarrow> u64 tree \<Rightarrow> bool" where
  "rb_search key Leaf = False"
| "rb_search key (Node l k r) = (if k = key then True else if key < k then rb_search key r else rb_search key l)"

fun rb_link_node :: "u64 \<Rightarrow> u64 tree \<Rightarrow> u64 tree" where
  "rb_link_node key Leaf = Node Leaf key Leaf"
| "rb_link_node key (Node l k r) =
     (if key < k then Node l k (rb_link_node key r) else Node (rb_link_node key l) k r)"

definition dst_lookup ::
    "kernel \<Rightarrow> bool \<Rightarrow> u64 \<Rightarrow> bool \<Rightarrow> 'p tsq_sched_data \<Rightarrow> (u64 option \<times> 'p tsq_sched_data) option" where
  "dst_lookup k mem src_dst_key create_if_missing q = do {
     tbl \<leftarrow> tq_dst_hash_tbl q;
     let idx = bucket k (tq_hash_tbl_log q) src_dst_key;
     if rb_search src_dst_key (tbl idx) then Some (Some src_dst_key, q)
     else if \<not> create_if_missing then Some (None, q)
     else if \<not> mem then Some (None, tsq_count tt_allocation_errors_update q)
     else Some (Some src_dst_key,
       q\<lparr>tq_dst_hash_tbl := Some (tbl(idx := k_insert_color k (rb_link_node src_dst_key (tbl idx)))),
         tq_dsts := (tq_dsts q)(src_dst_key := \<lparr>td_skb_qs = [], td_credit = 0, td_next_id = 0\<rparr>),
         tq_flows := tq_flows q + 1, tq_inactive_flows := tq_inactive_flows q + 1\<rparr>)
   }"

section \<open>Classification\<close>

definition ETH_P_IP :: u16 where "ETH_P_IP = 0x0800"
definition ETH_P_ARP :: u16 where "ETH_P_ARP = 0x0806"
definition ETH_P_IPV6 :: u16 where "ETH_P_IPV6 = 0x86DD"
definition ETH_P_1588 :: u16 where "ETH_P_1588 = 0x88F7"
definition ETH_P_ALL :: u16 where "ETH_P_ALL = 0x0003"
definition IPPROTO_IGMP :: u8 where "IPPROTO_IGMP = 2"
definition IPPROTO_TCP :: u8 where "IPPROTO_TCP = 6"
definition IPPROTO_UDP :: u8 where "IPPROTO_UDP = 17"

definition get_dst_mac :: "sk_buff \<Rightarrow> u64" where
  "get_dst_mac skb = foldl (\<lambda>a b. push_bit 8 a OR ucast b) 0 (sk_h_dest skb)"

definition get_priority :: "sk_buff \<Rightarrow> u8" where
  "get_priority skb = (if sk_protocol skb \<noteq> ETH_P_IP then 0 else drop_bit 2 (sk_tos skb))"

datatype prio = Reg_prio | Hi_prio

text \<open>The queue of a packet that does not wait for a time slot, if it is one.\<close>

definition classify_hi_prio :: "sk_buff \<Rightarrow> 'p tsq_sched_data \<Rightarrow> prio option \<times> 'p tsq_sched_data" where
  "classify_hi_prio skb q =
     (let proto = sk_protocol skb;
          cannot_classify = (Some Reg_prio, tsq_count tt_classify_errors_update q)
      in if proto = ETH_P_ARP then (Some Reg_prio, tsq_count tt_arp_pkts_update q)
         else if proto = ETH_P_1588 \<or> proto = ETH_P_ALL then
           (if get_dst_mac skb = 0x011b19000000 then (Some Hi_prio, tsq_count tt_ptp_pkts_update q) else cannot_classify)
         else if proto = ETH_P_IPV6 \<or> proto = ETH_P_IP then
           (case sk_keys skb of None \<Rightarrow> cannot_classify
            | Some keys \<Rightarrow>
                if fk_ip_proto keys = IPPROTO_IGMP then (Some Reg_prio, tsq_count tt_igmp_pkts_update q)
                else if fk_ip_proto keys = IPPROTO_UDP then
                  (if fk_dport keys = 123 then (Some Hi_prio, tsq_count tt_ntp_pkts_update q)
                   else if (uint (fk_dport keys) - 1) AND NOT 1 = 318 then (Some Hi_prio, tsq_count tt_ptp_pkts_update q)
                   else (None, q))
                else if fk_ip_proto keys = IPPROTO_TCP then
                  (if fk_sport keys = 22 \<or> fk_dport keys = 22 then (Some Reg_prio, tsq_count tt_ssh_pkts_update q) else (None, q))
                else if ucast (fk_ip_proto keys) = IPPROTO_FASTPASS then (Some Hi_prio, tsq_count tt_ctrl_pkts_update q)
                else (None, q))
         else cannot_classify)"

definition classify_data :: "kernel \<Rightarrow> bool \<Rightarrow> sk_buff \<Rightarrow> 'p tsq_sched_data \<Rightarrow> (u64 option \<times> 'p tsq_sched_data) option" where
  "classify_data k mem skb q =
     (let (dst_id, q) =
        (if sk_protocol skb = ETH_P_IPV6
         then (fp_map_ip_to_id (sk_daddr6 skb), tsq_count tt_classified_ipv6_update q)
         else (fp_map_ip_to_id (sk_daddr skb), q));
          flow_id = get_priority skb;
          src_dst_key = push_bit FLOW_SHIFT (ucast dst_id) OR (ucast flow_id AND of_nat FLOW_MASK)
      in dst_lookup k mem src_dst_key True (tsq_count tt_data_pkts_update q))"

section \<open>Enqueueing\<close>

datatype xmit = NET_XMIT_SUCCESS | NET_XMIT_DROP

definition tsq_enqueue :: "sk_buff \<Rightarrow> 'p tsq_sched_data \<Rightarrow> xmit \<times> 'p tsq_sched_data" where
  "tsq_enqueue skb q =
     (let (skb_q, q) = classify_hi_prio skb q
      in case skb_q of
           Some p \<Rightarrow>
             let q = (case p of Reg_prio \<Rightarrow> q\<lparr>tq_reg_prio := skb_q_enqueue (tq_reg_prio q) skb\<rparr>
                      | Hi_prio \<Rightarrow> q\<lparr>tq_hi_prio := skb_q_enqueue (tq_hi_prio q) skb\<rparr>);
                 q = tsq_count tt_enqueued_hi_pri_update q
             in (NET_XMIT_SUCCESS, q\<lparr>tq_qlen := tq_qlen q + 1\<rparr>)
         | None \<Rightarrow>
             if tq_limit q \<le> tq_qlen q then (NET_XMIT_DROP, tsq_count tt_above_plimit_update q)
             else let q = q\<lparr>tq_enqueue_skb_q := skb_q_enqueue (tq_enqueue_skb_q q) skb\<rparr>;
                      q = tsq_count tt_enqueued_update q
                  in (NET_XMIT_SUCCESS, q\<lparr>tq_qlen := tq_qlen q + 1\<rparr>))"

text \<open>The label \<open>enqueue_to_prequeue\<close>: both jumps to it come with the lock of the table taken, and leave it so.\<close>

definition enqueue_to_prequeue :: "sk_buff \<Rightarrow> 'p tsq_sched_data \<Rightarrow> 'p tsq_sched_data" where
  "enqueue_to_prequeue skb q = q\<lparr>tq_prequeue := skb_q_enqueue (tq_prequeue q) skb\<rparr>"

definition new_timeslot :: "u64 \<Rightarrow> u64 \<Rightarrow> 'p tsq_sched_data \<Rightarrow> 'p tsq_sched_data" where
  "new_timeslot cost key q =
     (let dst = tq_dsts q key;
          q = (if td_skb_qs dst = [] then q\<lparr>tq_inactive_flows := tq_inactive_flows q - 1\<rparr> else q);
          q = upd_dst key (\<lambda>dst. dst\<lparr>td_skb_qs := td_skb_qs dst @ [\<lparr>ts_skbs = [], ts_id = td_next_id dst\<rparr>],
                td_next_id := td_next_id dst + 1, td_credit := ucast (tq_tslot_len_approx q)\<rparr>) q;
          q = tsq_count tt_added_tslots_update q
      in if uint (tq_tslot_len_approx q) < sint cost then tsq_count tt_pkt_too_big_update q else q)"

text \<open>The last time slot of the flow gets the packet; an empty list has no last time slot.\<close>

definition add_to_last :: "u64 \<Rightarrow> u64 \<Rightarrow> sk_buff \<Rightarrow> 'p tsq_sched_data \<Rightarrow> 'p tsq_sched_data option" where
  "add_to_last cost key skb q = do {
     let qs = td_skb_qs (tq_dsts q key);
     bug_on (qs = []);
     let t = (last qs)\<lparr>ts_skbs := skb_q_enqueue (ts_skbs (last qs)) skb\<rparr>;
     Some (upd_dst key (\<lambda>dst. dst\<lparr>td_credit := td_credit dst - cost, td_skb_qs := butlast qs @ [t]\<rparr>) q)
   }"

definition enqueue_single_skb ::
    "kernel \<Rightarrow> 'p tsq_ops \<Rightarrow> bool \<Rightarrow> bool \<Rightarrow> sk_buff \<Rightarrow> 'p tsq_sched_data \<Rightarrow> 'p tsq_sched_data option" where
  "enqueue_single_skb k ops dst_mem q_mem skb q = do {
     let cost = k_l2t k (tq_data_rate q) (sk_len skb);
     q \<leftarrow> hash_tbl_lock q;
     (dst, q) \<leftarrow> classify_data k dst_mem skb q;
     case dst of
       None \<Rightarrow> Some (enqueue_to_prequeue skb q)
     | Some key \<Rightarrow>
         if sint (td_credit (tq_dsts q key)) < sint cost then
           if \<not> q_mem then Some (enqueue_to_prequeue skb q)
           else do {
             q \<leftarrow> add_to_last cost key skb (new_timeslot cost key q);
             let q = hash_tbl_unlock q;
             p \<leftarrow> op_add_timeslot ops key skb (tq_priv q);
             Some (q\<lparr>tq_priv := p\<rparr>)
           }
         else map_option hash_tbl_unlock (add_to_last cost key skb q)
   }"

text \<open>\<open>mem\<close> tells for each packet whether its two allocations succeed.\<close>

definition enqueue_tasklet_func :: "kernel \<Rightarrow> 'p tsq_ops \<Rightarrow> (nat \<Rightarrow> bool \<times> bool) \<Rightarrow> 'p tsq_sched_data \<Rightarrow> 'p tsq_sched_data option" where
  "enqueue_tasklet_func k ops mem q =
     (let skbs = tq_enqueue_skb_q q
      in for_each (\<lambda>(i, skb). enqueue_single_skb k ops (fst (mem i)) (snd (mem i)) skb) (enumerate 0 skbs)
           (q\<lparr>tq_enqueue_skb_q := []\<rparr>))"

section \<open>Time slots\<close>

definition TSLOT_ACTION_ADMIT_HEAD :: u8 where "TSLOT_ACTION_ADMIT_HEAD = 0"
definition TSLOT_ACTION_ADMIT_BY_ID :: u8 where "TSLOT_ACTION_ADMIT_BY_ID = 1"
definition TSLOT_ACTION_DROP_BY_ID :: u8 where "TSLOT_ACTION_DROP_BY_ID = 2"
definition TSLOT_ACTION_MODIFY_BY_ID :: u8 where "TSLOT_ACTION_MODIFY_BY_ID = 3"

text \<open>The index of the time slot an action is about, or \<open>no_match\<close> with its statistics.\<close>

definition find_timeslot :: "u8 \<Rightarrow> u16 \<Rightarrow> timeslot_skb_q list \<Rightarrow> 'p tsq_sched_data \<Rightarrow> nat option \<times> 'p tsq_sched_data" where
  "find_timeslot action tid qs q =
     (if action = TSLOT_ACTION_ADMIT_HEAD then (Some 0, q)
      else if action = TSLOT_ACTION_ADMIT_BY_ID \<or> action = TSLOT_ACTION_DROP_BY_ID \<or> action = TSLOT_ACTION_MODIFY_BY_ID then
        (let i = length (takeWhile (\<lambda>t. ts_id t \<noteq> tid) qs)
         in if i < length qs then (Some i, q) else (None, tsq_count tt_unrecognized_id_update q))
      else (None, tsq_count tt_unrecognized_action_update q))"

text \<open>From the label \<open>found_entry\<close> to the unlocking of the table.\<close>

definition take_timeslot :: "u64 \<Rightarrow> u8 \<Rightarrow> nat \<Rightarrow> 'p tsq_sched_data \<Rightarrow> timeslot_skb_q \<times> 'p tsq_sched_data" where
  "take_timeslot key action i q =
     (let qs = td_skb_qs (tq_dsts q key);
          rest = take i qs @ drop (Suc i) qs;
          q = upd_dst key (td_skb_qs_update (\<lambda>_. rest)) q;
          q = (if rest = [] then (upd_dst key (td_credit_update (\<lambda>_. 0)) q)\<lparr>tq_inactive_flows := tq_inactive_flows q + 1\<rparr> else q);
          q = (if action = TSLOT_ACTION_DROP_BY_ID then tsq_count tt_dropped_timeslots_update q
               else if action = TSLOT_ACTION_MODIFY_BY_ID then tsq_count tt_modified_timeslots_update q
               else tsq_count tt_used_timeslots_update q)
      in (qs ! i, hash_tbl_unlock q))"

fun prepare_skbs :: "(sk_buff \<Rightarrow> u8 list \<Rightarrow> 'p \<Rightarrow> sk_buff \<times> 'p) \<Rightarrow> u8 list \<Rightarrow> sk_buff list \<Rightarrow> 'p \<Rightarrow> sk_buff list \<times> 'p" where
  "prepare_skbs f data [] p = ([], p)"
| "prepare_skbs f data (skb # skbs) p =
     (let (skb, p) = f skb data p; (skbs, p) = prepare_skbs f data skbs p in (skb # skbs, p))"

text \<open>
  The two early returns, for an unknown flow and for a flow without time slots, leave the table locked.
\<close>

definition tsq_handle_now ::
    "kernel \<Rightarrow> 'p tsq_ops \<Rightarrow> u64 \<Rightarrow> u8 \<Rightarrow> u16 \<Rightarrow> u8 list \<Rightarrow> 'p tsq_sched_data \<Rightarrow> (nat \<times> 'p tsq_sched_data) option" where
  "tsq_handle_now k ops src_dst_key action tid data q = do {
     q \<leftarrow> hash_tbl_lock q;
     (dst, q) \<leftarrow> dst_lookup k True src_dst_key False q;
     case dst of
       None \<Rightarrow> Some (0, tsq_count tt_dst_not_found_handle_now_update q)
     | Some key \<Rightarrow>
         if td_skb_qs (tq_dsts q key) = [] then Some (0, tsq_count tt_unwanted_alloc_update q)
         else (case find_timeslot action tid (td_skb_qs (tq_dsts q key)) q of
             (None, q) \<Rightarrow> Some (0, hash_tbl_unlock q)
           | (Some i, q) \<Rightarrow> do {
               let (timeslot_q, q) = take_timeslot key action i q;
               if action = TSLOT_ACTION_DROP_BY_ID then do {
                 dropped \<leftarrow> skb_q_append (tq_dropqueue q) (ts_skbs timeslot_q);
                 Some (1, q\<lparr>tq_dropqueue := dropped\<rparr>)
               } else do {
                 let (skbs, p) =
                   (case op_prepare_to_send ops of
                      Some f \<Rightarrow> if action = TSLOT_ACTION_MODIFY_BY_ID then prepare_skbs f data (ts_skbs timeslot_q) (tq_priv q)
                                else (ts_skbs timeslot_q, tq_priv q)
                    | None \<Rightarrow> (ts_skbs timeslot_q, tq_priv q));
                 prequeue \<leftarrow> skb_q_append (tq_prequeue q) skbs;
                 Some (1, q\<lparr>tq_prequeue := prequeue, tq_priv := p\<rparr>)
               }
             })
   }"

fun number_from :: "u16 \<Rightarrow> timeslot_skb_q list \<Rightarrow> timeslot_skb_q list \<times> u16" where
  "number_from tid [] = ([], tid)"
| "number_from tid (t # ts) = (let (ts, n) = number_from (tid + 1) ts in (t\<lparr>ts_id := tid\<rparr> # ts, n))"

text \<open>An unknown flow is a null pointer here.\<close>

definition tsq_reset_ids :: "kernel \<Rightarrow> u64 \<Rightarrow> 'p tsq_sched_data \<Rightarrow> 'p tsq_sched_data option" where
  "tsq_reset_ids k src_dst_key q = do {
     q \<leftarrow> hash_tbl_lock q;
     (dst, q) \<leftarrow> dst_lookup k True src_dst_key False q;
     key \<leftarrow> dst;
     let (qs, n) = number_from 0 (td_skb_qs (tq_dsts q key));
     Some (hash_tbl_unlock (upd_dst key (\<lambda>dst. dst\<lparr>td_skb_qs := qs, td_next_id := n\<rparr>) q))
   }"

section \<open>Dequeueing\<close>

text \<open>
  The loop over the drop queue follows the link of a packet that was just unlinked, so that it drops one packet. The result is
  the packet to send and the packets that were dropped.
\<close>

definition tsq_dequeue :: "'p tsq_sched_data \<Rightarrow> sk_buff option \<times> sk_buff list \<times> 'p tsq_sched_data" where
  "tsq_dequeue q =
     (let got = (\<lambda>skb q. (Some skb, [], (tsq_count tt_dequeued_update q)\<lparr>tq_qlen := tq_qlen q - 1\<rparr>))
      in case skb_q_dequeue (tq_hi_prio q) of
           (Some skb, rest) \<Rightarrow> got skb (q\<lparr>tq_hi_prio := rest\<rparr>)
         | (None, _) \<Rightarrow>
             (case skb_q_dequeue (tq_reg_prio q) of
                (Some skb, rest) \<Rightarrow> got skb (q\<lparr>tq_reg_prio := rest\<rparr>)
              | (None, _) \<Rightarrow>
                  (case skb_q_dequeue (tq_prequeue q) of
                     (Some skb, rest) \<Rightarrow> got skb (q\<lparr>tq_prequeue := rest\<rparr>)
                   | (None, _) \<Rightarrow>
                       (case skb_q_dequeue (tq_dropqueue q) of
                          (Some skb, rest) \<Rightarrow>
                            (None, [skb], (tsq_count tt_dequeued_update (q\<lparr>tq_dropqueue := rest\<rparr>))\<lparr>tq_qlen := tq_qlen q - 1\<rparr>)
                        | (None, _) \<Rightarrow> (None, [], q)))))"

end
