(* ===== verification/Sch_Fastpass.thy ===== *)
theory Sch_Fastpass
  imports Tsq Pacer Proto_Codec
begin

text \<open>
  The client of the time slot queues in the kernel module of the end node, \<^verbatim>\<open>src/src/kernel-mod/sch_fastpass.c\<close>, in the build with the
  pipelined allocator: it counts, for every flow, the time slots that are wanted, requested, acknowledged,
  allocated and used, requests time slots from the arbiter over the protocol, and admits a waiting time slot of a flow
  for every allocation.

  The callbacks of the protocol are run, in their order, after the call that makes them (\<open>fpq_conn\<close>); only
  \<open>fpq_handle_areq\<close> changes the connection, and the protocol reads nothing of what it changes before the call
  returns. The retransmission timer is the time for which it is set. The clocks of a call are its arguments. The names of the callbacks
  get the prefix \<open>fpq_\<close>, since the arbiter has callbacks of the same names.
\<close>

section \<open>State\<close>

definition FASTPASS_REQUEST_WINDOW_SIZE :: u64 where "FASTPASS_REQUEST_WINDOW_SIZE = push_bit 13 1"
definition ECN_CE :: u8 where "ECN_CE = 3"

datatype flow_state = FLOW_UNQUEUED | FLOW_REQUEST_QUEUE

record fp_dst =
  fd_demand_tslots :: u64
  fd_requested_tslots :: u64
  fd_acked_tslots :: u64
  fd_alloc_tslots :: u64
  fd_used_tslots :: u64
  fd_state :: flow_state

record fp_sched_stat =
  fc_admitted_timeslots :: u64
  fc_early_enqueue :: u64
  fc_late_enqueue1 :: u64
  fc_late_enqueue2 :: u64
  fc_late_enqueue3 :: u64
  fc_late_enqueue4 :: u64
  fc_marked_packets :: u64
  fc_unrecognized_proto_in_mark :: u64
  fc_req_alloc_errors :: u64
  fc_request_with_empty_flowqueue :: u64
  fc_queued_flow_already_acked :: u64
  fc_unwanted_alloc :: u64
  fc_alloc_report_larger_than_requested :: u64
  fc_timeslots_assumed_lost :: u64

record fp_sched_data =
  fs_tslot_mul :: u32
  fs_tslot_shift :: u32
  fs_unreq_flows :: "nat \<Rightarrow> u16"
  fs_unreq_dsts_head :: u32
  fs_unreq_dsts_tail :: u32
  fs_dsts :: "nat \<Rightarrow> fp_dst"
  fs_retrans_timer :: "u64 option"
  fs_request_pacer :: fp_pacer
  fs_is_destroyed :: bool
  fs_conn :: fpproto_conn
  fs_demand_tslots :: u32
  fs_requested_tslots :: u64
  fs_alloc_tslots :: u32
  fs_acked_tslots :: u64
  fs_used_tslots :: u64
  fs_stat :: fp_sched_stat

type_synonym end_node = "fp_sched_data tsq_sched_data"

text \<open>The parameters of the module.\<close>

record fp_params =
  mp_req_cost :: u32
  mp_req_bucketlen :: u32
  mp_req_min_gap :: u32
  mp_reset_window_us :: u32
  mp_retrans_timeout_ns :: u32
  mp_miss_threshold :: u32

definition fpq_count :: "((u64 \<Rightarrow> u64) \<Rightarrow> fp_sched_stat \<Rightarrow> fp_sched_stat) \<Rightarrow> fp_sched_data \<Rightarrow> fp_sched_data" where
  "fpq_count upd q = q\<lparr>fs_stat := upd (\<lambda>n. n + 1) (fs_stat q)\<rparr>"

definition upd_fd :: "nat \<Rightarrow> (fp_dst \<Rightarrow> fp_dst) \<Rightarrow> fp_sched_data \<Rightarrow> fp_sched_data" where
  "upd_fd d f q = q\<lparr>fs_dsts := (fs_dsts q)(d := f (fs_dsts q d))\<rparr>"

definition on_fp :: "(fp_sched_data \<Rightarrow> fp_sched_data) \<Rightarrow> end_node \<Rightarrow> end_node" where
  "on_fp f s = s\<lparr>tq_priv := f (tq_priv s)\<rparr>"

text \<open>The index of a flow in the array; an index out of bounds is the result \<open>None\<close>.\<close>

definition get_dst :: "u32 \<Rightarrow> nat option" where
  "get_dst index = (if unat index < MAX_FLOWS then Some (unat index) else None)"

section \<open>Requests that wait to be sent\<close>

definition trigger_tx :: "u64 \<Rightarrow> fp_sched_data \<Rightarrow> fp_sched_data" where
  "trigger_tx now q = q\<lparr>fs_request_pacer := snd (pacer_trigger (fs_request_pacer q) now)\<rparr>"

definition unreq_dsts_enqueue_if_not_queued :: "u64 \<Rightarrow> nat \<Rightarrow> fp_sched_data \<Rightarrow> fp_sched_data" where
  "unreq_dsts_enqueue_if_not_queued now d q =
     (if fd_state (fs_dsts q d) \<noteq> FLOW_UNQUEUED then q
      else trigger_tx now (upd_fd d (fd_state_update (\<lambda>_. FLOW_REQUEST_QUEUE))
        (q\<lparr>fs_unreq_flows := (fs_unreq_flows q)(unat (fs_unreq_dsts_tail q) mod MAX_FLOWS := of_nat d),
           fs_unreq_dsts_tail := fs_unreq_dsts_tail q + 1\<rparr>)))"

definition unreq_dsts_dequeue_and_get :: "fp_sched_data \<Rightarrow> (nat \<times> fp_sched_data) option" where
  "unreq_dsts_dequeue_and_get q =
     (if fs_unreq_dsts_head q = fs_unreq_dsts_tail q then None
      else let d = unat (fs_unreq_flows q (unat (fs_unreq_dsts_head q) mod MAX_FLOWS))
           in Some (d, upd_fd d (fd_state_update (\<lambda>_. FLOW_UNQUEUED)) (q\<lparr>fs_unreq_dsts_head := fs_unreq_dsts_head q + 1\<rparr>)))"

definition n_unreq_dsts :: "fp_sched_data \<Rightarrow> u32" where
  "n_unreq_dsts q = fs_unreq_dsts_tail q - fs_unreq_dsts_head q"

definition flow_inc_used :: "nat \<Rightarrow> u64 \<Rightarrow> fp_sched_data \<Rightarrow> fp_sched_data" where
  "flow_inc_used d amount q =
     (upd_fd d (\<lambda>dst. dst\<lparr>fd_used_tslots := fd_used_tslots dst + amount\<rparr>) q)\<lparr>fs_used_tslots := fs_used_tslots q + amount\<rparr>"

definition flow_inc_demand :: "u64 \<Rightarrow> nat \<Rightarrow> u64 \<Rightarrow> fp_sched_data \<Rightarrow> fp_sched_data" where
  "flow_inc_demand now d amount q =
     (let q = upd_fd d (\<lambda>dst. dst\<lparr>fd_demand_tslots := fd_demand_tslots dst + amount\<rparr>) q;
          q = unreq_dsts_enqueue_if_not_queued now d q
      in q\<lparr>fs_demand_tslots := fs_demand_tslots q + ucast amount\<rparr>)"

definition fpq_add_timeslot :: "u64 \<Rightarrow> u64 \<Rightarrow> sk_buff \<Rightarrow> fp_sched_data \<Rightarrow> fp_sched_data option" where
  "fpq_add_timeslot now dst_id skb q = do {
     d \<leftarrow> get_dst (ucast dst_id);
     Some (flow_inc_demand now d 1 q)
   }"

section \<open>Marking\<close>

definition mark_ecn :: "kernel \<Rightarrow> sk_buff \<Rightarrow> fp_sched_data \<Rightarrow> sk_buff \<times> fp_sched_data" where
  "mark_ecn k skb q =
     (if sk_protocol skb = ETH_P_IP then
        let old_word = push_bit 8 (ucast (sk_ver_ihl skb)) OR ucast (sk_tos skb);
            tos = sk_tos skb OR ECN_CE;
            new_word = push_bit 8 (ucast (sk_ver_ihl skb)) OR ucast tos
        in (skb\<lparr>sk_tos := tos, sk_check := k_csum_replace2 k (sk_check skb) old_word new_word\<rparr>, fpq_count fc_marked_packets_update q)
      else if sk_protocol skb = ETH_P_IPV6 then
        (skb\<lparr>sk_flow_lbl0 := sk_flow_lbl0 skb OR push_bit 4 ECN_CE\<rparr>, fpq_count fc_marked_packets_update q)
      else (skb, fpq_count fc_unrecognized_proto_in_mark_update q))"

text \<open>Without emulation there are no data with an allocation.\<close>

definition fpq_prepare_to_send :: "kernel \<Rightarrow> sk_buff \<Rightarrow> u8 list \<Rightarrow> fp_sched_data \<Rightarrow> sk_buff \<times> fp_sched_data" where
  "fpq_prepare_to_send k skb data q = mark_ecn k skb q"

definition fastpass_tsq_ops :: "kernel \<Rightarrow> u64 \<Rightarrow> fp_sched_data tsq_ops" where
  "fastpass_tsq_ops k now = \<lparr>op_add_timeslot = fpq_add_timeslot now, op_prepare_to_send = Some (fpq_prepare_to_send k)\<rparr>"

section \<open>Callbacks of the protocol\<close>

text \<open>A flow in the loop of \<open>handle_reset\<close>.\<close>

definition reset_flow :: "kernel \<Rightarrow> u64 \<Rightarrow> nat \<Rightarrow> end_node \<Rightarrow> end_node option" where
  "reset_flow k now d s =
     (let dst = fs_dsts (tq_priv s) d
      in if fd_demand_tslots dst = fd_used_tslots dst then Some s
         else do {
           let demand = fd_demand_tslots dst - fd_used_tslots dst;
           let s = on_fp (\<lambda>q. let q = upd_fd d (\<lambda>dst. dst\<lparr>fd_demand_tslots := demand, fd_alloc_tslots := 0, fd_acked_tslots := 0,
                                      fd_requested_tslots := 0, fd_used_tslots := 0\<rparr>) q;
                                  q = q\<lparr>fs_demand_tslots := fs_demand_tslots q + ucast demand\<rparr>
                              in unreq_dsts_enqueue_if_not_queued now d q) s;
           tsq_reset_ids k (of_nat d) s
         })"

definition fpq_handle_reset :: "kernel \<Rightarrow> u64 \<Rightarrow> end_node \<Rightarrow> end_node option" where
  "fpq_handle_reset k now s =
     (let mask = of_nat MAX_FLOWS - 1;
          base_idx = k_jhash_1word k (ucast now) 0 AND mask;
          s = on_fp (\<lambda>q. q\<lparr>fs_demand_tslots := 0, fs_requested_tslots := 0, fs_alloc_tslots := 0, fs_acked_tslots := 0, fs_used_tslots := 0\<rparr>) s
      in for_each (\<lambda>idx. reset_flow k now (unat ((of_nat idx + base_idx) AND mask :: u32))) [0 ..< MAX_FLOWS] s)"

definition handle_single_alloc :: "kernel \<Rightarrow> u64 \<Rightarrow> u16 \<Rightarrow> end_node \<Rightarrow> (nat \<times> end_node) option" where
  "handle_single_alloc k now dst_id s = do {
     (_, s) \<leftarrow> tsq_handle_now k (fastpass_tsq_ops k now) (ucast dst_id) TSLOT_ACTION_ADMIT_HEAD 0 [] s;
     Some (1, on_fp (fpq_count fc_admitted_timeslots_update) s)
   }"

text \<open>How early or late an allocation was used.\<close>

definition count_enqueue :: "fp_params \<Rightarrow> u64 \<Rightarrow> u64 \<Rightarrow> fp_sched_data \<Rightarrow> fp_sched_data" where
  "count_enqueue prm full_tslot tslot =
     (let thr = ucast (mp_miss_threshold prm) :: u64
      in if tslot < full_tslot then fpq_count fc_early_enqueue_update
         else if full_tslot < tslot - drop_bit 1 thr then
           (if full_tslot < tslot - 3 * drop_bit 2 thr then fpq_count fc_late_enqueue4_update else fpq_count fc_late_enqueue3_update)
         else if full_tslot < tslot - drop_bit 2 thr then fpq_count fc_late_enqueue2_update
         else fpq_count fc_late_enqueue1_update)"

text \<open>One allocation to a flow.\<close>

definition use_alloc :: "kernel \<Rightarrow> fp_params \<Rightarrow> u64 \<Rightarrow> u64 \<Rightarrow> u64 \<Rightarrow> u16 \<Rightarrow> end_node \<Rightarrow> end_node option" where
  "use_alloc k prm now full_tslot current_timeslot dst_id s = do {
     d \<leftarrow> get_dst (ucast dst_id);
     let dst = fs_dsts (tq_priv s) d;
     if fd_used_tslots dst \<noteq> fd_demand_tslots dst then do {
       let s = on_fp (\<lambda>q. upd_fd d (\<lambda>dst. dst\<lparr>fd_alloc_tslots := fd_alloc_tslots dst + 1\<rparr>) (flow_inc_used d 1 q)) s;
       (handled_tslots, s) \<leftarrow> handle_single_alloc k now dst_id s;
       let s = (if handled_tslots = 1 then on_fp (\<lambda>q. q\<lparr>fs_alloc_tslots := fs_alloc_tslots q + 1\<rparr>) s else s);
       Some (on_fp (count_enqueue prm full_tslot current_timeslot) s)
     } else Some (on_fp (fpq_count fc_unwanted_alloc_update) s)
   }"

text \<open>The loop of \<open>handle_alloc\<close>; an index of a destination that is too large ends it.\<close>

fun alloc_loop :: "kernel \<Rightarrow> fp_params \<Rightarrow> u64 \<Rightarrow> u64 \<Rightarrow> u64 \<Rightarrow> u16 list \<Rightarrow> u8 list \<Rightarrow> end_node \<Rightarrow> end_node option" where
  "alloc_loop k prm now full cur dst_ids [] s = Some s"
| "alloc_loop k prm now full cur dst_ids (spec # specs) s =
     (let dst_id_idx = unat (drop_bit 4 spec)
      in if dst_id_idx = 0 then alloc_loop k prm now full cur dst_ids specs s
         else if length dst_ids < dst_id_idx then Some s
         else do {
           s \<leftarrow> use_alloc k prm now full cur (dst_ids ! (dst_id_idx - 1)) s;
           alloc_loop k prm now full cur dst_ids specs s
         })"

text \<open>The full time slot from the low 20 bits of it, a quarter of their range back and three quarters ahead.\<close>

definition full_timeslot :: "u64 \<Rightarrow> u32 \<Rightarrow> u64" where
  "full_timeslot current_timeslot base_tslot =
     (let full_tslot = current_timeslot - push_bit 18 1
      in full_tslot + ucast ((base_tslot - ucast full_tslot) AND 0xFFFFF))"

definition fpq_handle_alloc :: "kernel \<Rightarrow> fp_params \<Rightarrow> u64 \<Rightarrow> u64 \<Rightarrow> u32 \<Rightarrow> u16 list \<Rightarrow> u8 list \<Rightarrow> nat \<Rightarrow> end_node \<Rightarrow> end_node option" where
  "fpq_handle_alloc k prm now now_real base_tslot dst_ids tslots n_tslots s = do {
     bug_on (length tslots < n_tslots);
     let s = on_fp (trigger_tx now) s;
     let current_timeslot = drop_bit (unat (fs_tslot_shift (tq_priv s))) (now_real * ucast (fs_tslot_mul (tq_priv s)));
     alloc_loop k prm now (full_timeslot current_timeslot base_tslot) current_timeslot dst_ids (take n_tslots tslots) s
   }"

text \<open>The full count of allocations from its low 16 bits.\<close>

definition full_alloc_count :: "u64 \<Rightarrow> u16 \<Rightarrow> u64" where
  "full_alloc_count alloc_tslots count_low =
     (let count = alloc_tslots - push_bit 15 1 in count + ucast (count_low - ucast count))"

fun fpq_areq_loop :: "proto_cfg \<Rightarrow> kernel \<Rightarrow> u64 \<Rightarrow> u64 \<Rightarrow> (u16 \<times> u16) list \<Rightarrow> end_node \<Rightarrow> end_node option" where
  "fpq_areq_loop cfg k now now_real [] s = Some s"
| "fpq_areq_loop cfg k now now_real ((dst_id, count_low) # rest) s = do {
     d \<leftarrow> get_dst (ucast dst_id);
     let dst = fs_dsts (tq_priv s) d;
     let count = full_alloc_count (fd_alloc_tslots dst) count_low;
     if 0 < sint (count - fd_alloc_tslots dst) then
       if 0 < sint (count - fd_requested_tslots dst) then do {
         let s = on_fp (fpq_count fc_alloc_report_larger_than_requested_update) s;
         conn \<leftarrow> fpproto_force_reset cfg (fs_conn (tq_priv s)) now_real;
         fpq_handle_reset k now (on_fp (fs_conn_update (\<lambda>_. conn)) s)
       } else do {
         let n_lost = count - fd_alloc_tslots dst;
         let s = on_fp (\<lambda>q. let q = upd_fd d (\<lambda>dst. dst\<lparr>fd_alloc_tslots := fd_alloc_tslots dst + n_lost\<rparr>) q;
                                q = flow_inc_demand now d n_lost (flow_inc_used d n_lost q)
                            in q\<lparr>fs_alloc_tslots := fs_alloc_tslots q + ucast n_lost,
                                 fs_stat := fc_timeslots_assumed_lost_update (\<lambda>n. n + n_lost) (fs_stat q)\<rparr>) s;
         fpq_areq_loop cfg k now now_real rest s
       }
     else fpq_areq_loop cfg k now now_real rest s
   }"

definition fpq_areq_entries :: "u8 list \<Rightarrow> nat \<Rightarrow> (u16 \<times> u16) list" where
  "fpq_areq_entries dst_and_count n = map (\<lambda>i. (rd_be16 dst_and_count (4 * i), rd_be16 dst_and_count (4 * i + 2))) [0 ..< n]"

definition fpq_handle_areq :: "proto_cfg \<Rightarrow> kernel \<Rightarrow> u64 \<Rightarrow> u64 \<Rightarrow> u8 list \<Rightarrow> nat \<Rightarrow> end_node \<Rightarrow> end_node option" where
  "fpq_handle_areq cfg k now now_real dst_and_count n s =
     fpq_areq_loop cfg k now now_real (fpq_areq_entries dst_and_count n) (on_fp (trigger_tx now) s)"

definition fpq_ack_entry :: "u64 \<Rightarrow> fpproto_areq_desc \<Rightarrow> fp_sched_data \<Rightarrow> fp_sched_data option" where
  "fpq_ack_entry now a q = do {
     d \<leftarrow> get_dst (ucast (areq_src_dst_key a));
     let new_acked = areq_tslots a;
     if fd_acked_tslots (fs_dsts q d) < new_acked then do {
       bug_on (fd_demand_tslots (fs_dsts q d) < new_acked);
       let delta = new_acked - fd_acked_tslots (fs_dsts q d);
       let q = upd_fd d (fd_acked_tslots_update (\<lambda>_. new_acked)) (q\<lparr>fs_acked_tslots := fs_acked_tslots q + delta\<rparr>);
       Some (if fd_requested_tslots (fs_dsts q d) \<noteq> fd_demand_tslots (fs_dsts q d)
             then unreq_dsts_enqueue_if_not_queued now d q else q)
     } else Some q
   }"

definition fpq_handle_ack :: "u64 \<Rightarrow> fpproto_pktdesc \<Rightarrow> fp_sched_data \<Rightarrow> fp_sched_data option" where
  "fpq_handle_ack now pd = for_each (fpq_ack_entry now) (take (unat (pd_n_areq pd)) (pd_areq pd))"

definition fpq_neg_ack_entry :: "u64 \<Rightarrow> fpproto_areq_desc \<Rightarrow> fp_sched_data \<Rightarrow> fp_sched_data option" where
  "fpq_neg_ack_entry now a q = do {
     d \<leftarrow> get_dst (ucast (areq_src_dst_key a));
     Some (if areq_tslots a \<le> fd_acked_tslots (fs_dsts q d) then q else unreq_dsts_enqueue_if_not_queued now d q)
   }"

definition fpq_handle_neg_ack :: "u64 \<Rightarrow> fpproto_pktdesc \<Rightarrow> fp_sched_data \<Rightarrow> fp_sched_data option" where
  "fpq_handle_neg_ack now pd = for_each (fpq_neg_ack_entry now) (take (unat (pd_n_areq pd)) (pd_areq pd))"

definition fpq_set_retrans_timer :: "u64 \<Rightarrow> fp_sched_data \<Rightarrow> fp_sched_data" where
  "fpq_set_retrans_timer when q = q\<lparr>fs_retrans_timer := Some when\<rparr>"

definition fpq_cancel_retrans_timer :: "fp_sched_data \<Rightarrow> fp_sched_data" where
  "fpq_cancel_retrans_timer q = q\<lparr>fs_retrans_timer := None\<rparr>"

text \<open>A call of the protocol comes with two clocks, the monotonic one and the real time, and with what does not change.\<close>

record fp_call =
  fq_cfg :: proto_cfg
  fq_kernel :: kernel
  fq_params :: fp_params
  fq_now :: u64
  fq_now_real :: u64

definition on_fp_opt :: "(fp_sched_data \<Rightarrow> fp_sched_data option) \<Rightarrow> end_node \<Rightarrow> end_node option" where
  "on_fp_opt f s = map_option (\<lambda>q. s\<lparr>tq_priv := q\<rparr>) (f (tq_priv s))"

fun fastpass_sch_proto_ops :: "fp_call \<Rightarrow> op_event \<Rightarrow> end_node \<Rightarrow> end_node option" where
  "fastpass_sch_proto_ops c Handle_reset s = fpq_handle_reset (fq_kernel c) (fq_now c) s"
| "fastpass_sch_proto_ops c (Handle_alloc b ds ts n) s = fpq_handle_alloc (fq_kernel c) (fq_params c) (fq_now c) (fq_now_real c) b ds ts n s"
| "fastpass_sch_proto_ops c (Handle_ack pd) s = on_fp_opt (fpq_handle_ack (fq_now c) pd) s"
| "fastpass_sch_proto_ops c (Handle_neg_ack pd) s = on_fp_opt (fpq_handle_neg_ack (fq_now c) pd) s"
| "fastpass_sch_proto_ops c (Handle_skipped_ack pd) s = Some s"
| "fastpass_sch_proto_ops c (Handle_areq data n) s = fpq_handle_areq (fq_cfg c) (fq_kernel c) (fq_now c) (fq_now_real c) data n s"
| "fastpass_sch_proto_ops c Trigger_request s = Some (on_fp (trigger_tx (fq_now c)) s)"
| "fastpass_sch_proto_ops c (Set_timer when) s = Some (on_fp (fpq_set_retrans_timer when) s)"
| "fastpass_sch_proto_ops c Cancel_timer s = Some (on_fp fpq_cancel_retrans_timer s)"
| "fastpass_sch_proto_ops c (Pktdesc_free pd) s = Some s"

definition fpq_ops :: fpproto_ops where
  "fpq_ops = \<lparr>has_handle_reset = True, has_handle_ack = True, has_handle_neg_ack = True, has_handle_skipped_ack = False,
     has_trigger_request = True, has_handle_alloc = True, has_handle_areq = True, alloc_bytes_per_tslot = 1\<rparr>"

definition fpq_conn :: "fp_call \<Rightarrow> (fpproto_conn \<Rightarrow> ('a \<times> fpproto_conn) option) \<Rightarrow> end_node \<Rightarrow> ('a \<times> end_node) option" where
  "fpq_conn c f s = do {
     let conn = fs_conn (tq_priv s);
     (r, conn') \<leftarrow> f conn;
     s \<leftarrow> for_each (fastpass_sch_proto_ops c) (drop (length (c_log conn)) (c_log conn')) (on_fp (fs_conn_update (\<lambda>_. conn')) s);
     Some (r, s)
   }"

section \<open>Sending requests\<close>

text \<open>
  The loop of \<open>send_request\<close>; \<open>out\<close> is \<open>pd->areq\<close> up to \<open>pd->n_areq\<close>. Every round takes a flow from the queue, and no round adds one.
\<close>

partial_function (option) request_loop :: "fp_sched_data \<Rightarrow> fpproto_areq_desc list \<Rightarrow> (fpproto_areq_desc list \<times> fp_sched_data) option" where
  "request_loop q out =
     (if \<not> length out < FASTPASS_PKT_MAX_AREQ then Some (out, q)
      else case unreq_dsts_dequeue_and_get q of
        None \<Rightarrow> Some (out, q)
      | Some (d, q) \<Rightarrow>
          let dst = fs_dsts q d;
              new_requested = min (fd_demand_tslots dst) (fd_acked_tslots dst + FASTPASS_REQUEST_WINDOW_SIZE - 1)
          in if new_requested \<le> fd_acked_tslots dst
             then request_loop (fpq_count fc_queued_flow_already_acked_update q) out
             else request_loop
               (upd_fd d (fd_requested_tslots_update (\<lambda>_. new_requested))
                 (q\<lparr>fs_requested_tslots := fs_requested_tslots q + (new_requested - fd_requested_tslots dst)\<rparr>))
               (out @ [\<lparr>areq_src_dst_key = of_nat d, areq_tslots = new_requested\<rparr>]))"

text \<open>
  \<open>pd\<close> is the descriptor from the allocator. The result is the descriptor that is handed to the socket.
\<close>

definition send_request :: "fp_call \<Rightarrow> fpproto_pktdesc option \<Rightarrow> end_node \<Rightarrow> (fpproto_pktdesc option \<times> end_node) option" where
  "send_request c pd s =
     (case pd of
        None \<Rightarrow> Some (None, on_fp (\<lambda>q. trigger_tx (fq_now c) (fpq_count fc_req_alloc_errors_update q)) s)
      | Some pd \<Rightarrow>
          if fs_is_destroyed (tq_priv s) then Some (None, s)
          else do {
            (_, s) \<leftarrow> fpq_conn c (\<lambda>conn. map_option (Pair ()) (fpproto_prepare_to_send conn)) s;
            (out, q) \<leftarrow> request_loop (tq_priv s) [];
            let q = (if out = [] then fpq_count fc_request_with_empty_flowqueue_update q else q);
            let pd = pd\<lparr>pd_n_areq := of_nat (length out), pd_areq := out\<rparr>;
            (pd, s) \<leftarrow> fpq_conn c (\<lambda>conn. map_option (\<lambda>(conn, pd). (pd, conn)) (fpproto_commit_packet conn pd (fq_now c)))
              (s\<lparr>tq_priv := q\<rparr>);
            let q = tq_priv s;
            Some (Some pd, if fs_requested_tslots q \<noteq> scast (fs_demand_tslots q) then on_fp (trigger_tx (fq_now c)) s else s)
          })"

definition maintenance_tasklet_func :: "fp_call \<Rightarrow> fpproto_pktdesc option \<Rightarrow> end_node \<Rightarrow> (fpproto_pktdesc option \<times> end_node) option" where
  "maintenance_tasklet_func c pd s =
     (let pa = fs_request_pacer (tq_priv s)
      in if pacer_is_triggered pa \<and> time_after_eq64 (fq_now c) (pacer_next_event pa)
         then send_request c pd (on_fp (fs_request_pacer_update pacer_reset) s)
         else Some (None, s))"

definition retrans_tasklet_func :: "fp_call \<Rightarrow> end_node \<Rightarrow> end_node option" where
  "retrans_tasklet_func c s =
     (if fs_is_destroyed (tq_priv s) then Some s
      else map_option snd (fpq_conn c (\<lambda>conn. map_option (Pair ()) (fpproto_handle_timeout conn (fq_now c))) s))"

text \<open>\<open>addr\<close> is the address of the packet, \<open>now'\<close> the second reading of the clock in the protocol.\<close>

definition ctrl_rcv_handler :: "fp_call \<Rightarrow> u64 \<Rightarrow> u8 list \<Rightarrow> u64 \<Rightarrow> end_node \<Rightarrow> end_node option" where
  "ctrl_rcv_handler c addr pkt now' s =
     (if fs_is_destroyed (tq_priv s) then Some s
      else do {
        (ret, s) \<leftarrow> fpq_conn c (\<lambda>conn. fpproto_handle_rx_packet (fq_cfg c) addr conn pkt (fq_now_real c) now') s;
        case ret of
          None \<Rightarrow> Some s
        | Some in_seq \<Rightarrow> do {
            (ok, s) \<leftarrow> fpq_conn c (\<lambda>conn. fpproto_perform_rx_callbacks (fq_cfg c) conn pkt) s;
            if \<not> ok \<or> fs_is_destroyed (tq_priv s) then Some s
            else Some (on_fp (\<lambda>q. q\<lparr>fs_conn := fpproto_successful_rx (fs_conn q) in_seq\<rparr>) s)
          }
      })"

section \<open>Start and stop\<close>

text \<open>The memory is zero before; \<open>proc_ok\<close> and \<open>sock_ok\<close> tell whether the kernel gives a file and a socket.\<close>

definition fpq_new_qdisc :: "fp_call \<Rightarrow> bool \<Rightarrow> bool \<Rightarrow> u32 \<Rightarrow> u32 \<Rightarrow> fp_sched_data \<Rightarrow> (bool \<times> fp_sched_data) option" where
  "fpq_new_qdisc c proc_ok sock_ok tslot_mul tslot_shift q = do {
     let prm = fq_params c;
     let q = q\<lparr>fs_unreq_dsts_head := 0, fs_unreq_dsts_tail := 0, fs_tslot_mul := tslot_mul, fs_tslot_shift := tslot_shift,
               fs_request_pacer := pacer_init_full (fs_request_pacer q) (fq_now c) (mp_req_cost prm) (mp_req_bucketlen prm) (mp_req_min_gap prm)\<rparr>;
     if \<not> proc_ok then Some (False, q)
     else do {
       conn \<leftarrow> fpproto_init_conn (fq_cfg c) (fs_conn q) fpq_ops (ucast (mp_reset_window_us prm) * 1000) (ucast (mp_retrans_timeout_ns prm)) (fq_now_real c);
       let q = q\<lparr>fs_is_destroyed := False, fs_conn := conn\<rparr>;
       if sock_ok then Some (True, q)
       else do { conn \<leftarrow> fpproto_destroy_conn (fs_conn q); Some (False, q\<lparr>fs_conn := conn\<rparr>) }
     }
   }"

definition fpq_stop_qdisc :: "fp_sched_data \<Rightarrow> fp_sched_data option" where
  "fpq_stop_qdisc q = do {
     conn \<leftarrow> fpproto_destroy_conn (fs_conn q);
     Some (q\<lparr>fs_is_destroyed := True, fs_conn := conn, fs_retrans_timer := None\<rparr>)
   }"

end
