(* ===== verification/Tsq_Inv.thy ===== *)
theory Tsq_Inv
  imports Tsq
begin

text \<open>
  What the operations of the time slot queues do to the time slots that wait in each flow. The contract that the client relies
  on is the locale \<open>timeslot_service\<close>.
\<close>

section \<open>The trees of a cell\<close>

text \<open>What the kernel promises: its trees keep their order and are traversed in it, and a packet takes some time on the line.\<close>

definition kernel_ok :: "kernel \<Rightarrow> bool" where
  "kernel_ok k \<longleftrightarrow> (\<forall>t. inorder (k_insert_color k t) = inorder t) \<and> (\<forall>x t. inorder (k_erase k x t) = remove1 x (inorder t))
     \<and> (\<forall>t. k_first k t = (case inorder t of [] \<Rightarrow> None | x # _ \<Rightarrow> Some x))
     \<and> (\<forall>xs x ys t. inorder t = xs @ x # ys \<longrightarrow> x \<notin> set xs \<longrightarrow> k_next k x t = (case ys of [] \<Rightarrow> None | y # _ \<Rightarrow> Some y))
     \<and> (\<forall>rate len. 0 < sint (k_l2t k rate len) \<and> sint (k_l2t k rate len) < 2 ^ 62)"

abbreviation descending :: "u64 list \<Rightarrow> bool" where
  "descending \<equiv> sorted_wrt (\<lambda>a b. b < a)"

lemma rb_search_iff: "descending (inorder t) \<Longrightarrow> rb_search key t \<longleftrightarrow> key \<in> set (inorder t)"
  by (induction t) (auto simp: sorted_wrt_append)

lemma set_rb_link_node: "set (inorder (rb_link_node key t)) = insert key (set (inorder t))"
  by (induction t) auto

lemma rb_link_node_descending:
  "descending (inorder t) \<Longrightarrow> key \<notin> set (inorder t) \<Longrightarrow> descending (inorder (rb_link_node key t))"
proof (induction t)
  case (Node l x r)
  have s: "descending (inorder l)" "descending (inorder r)" "\<forall>y \<in> set (inorder l). x < y" "\<forall>y \<in> set (inorder r). y < x" "x \<noteq> key"
    "\<forall>a \<in> set (inorder l). \<forall>b \<in> set (inorder r). b < a" "key \<notin> set (inorder l)" "key \<notin> set (inorder r)"
    using Node.prems by (auto simp: sorted_wrt_append)
  show ?case
  proof (cases "key < x")
    case True
    then have "\<forall>a \<in> set (inorder l). key < a" using s(3) by fastforce
    then show ?thesis using True s Node.IH(2) by (auto simp: sorted_wrt_append set_rb_link_node simp del: set_inorder)
  next
    case False
    then have k: "x < key" using s(5) by simp
    then have "\<forall>b \<in> set (inorder r). b < key" using s(4) by fastforce
    then show ?thesis using False k s Node.IH(1) by (auto simp: sorted_wrt_append set_rb_link_node simp del: set_inorder)
  qed
qed simp

section \<open>Flows\<close>

definition in_table :: "kernel \<Rightarrow> 'p tsq_sched_data \<Rightarrow> u64 \<Rightarrow> bool" where
  "in_table k q key \<longleftrightarrow> (case tq_dst_hash_tbl q of None \<Rightarrow> False
     | Some tbl \<Rightarrow> key \<in> set (inorder (tbl (bucket k (tq_hash_tbl_log q) key))))"

definition table_inv :: "kernel \<Rightarrow> 'p tsq_sched_data \<Rightarrow> bool" where
  "table_inv k q \<longleftrightarrow> (case tq_dst_hash_tbl q of None \<Rightarrow> False
     | Some tbl \<Rightarrow> \<forall>idx. descending (inorder (tbl idx)) \<and> (\<forall>x \<in> set (inorder (tbl idx)). bucket k (tq_hash_tbl_log q) x = idx))"

text \<open>The packets that wait in a flow, time slot by time slot.\<close>

definition slots :: "kernel \<Rightarrow> 'p tsq_sched_data \<Rightarrow> u64 \<Rightarrow> sk_buff list list" where
  "slots k q key = (if in_table k q key then map ts_skbs (td_skb_qs (tq_dsts q key)) else [])"

text \<open>
  No time slot is without packets, and a flow without time slots has no credit left, so that the next packet opens a time
  slot.
\<close>

definition dst_ok :: "tsq_dst \<Rightarrow> bool" where
  "dst_ok dst \<longleftrightarrow> (\<forall>t \<in> set (td_skb_qs dst). ts_skbs t \<noteq> []) \<and> (td_skb_qs dst = [] \<longrightarrow> sint (td_credit dst) \<le> 0)
     \<and> - (2 ^ 62) < sint (td_credit dst)"

definition tsq_inv :: "kernel \<Rightarrow> 'p tsq_sched_data \<Rightarrow> bool" where
  "tsq_inv k q \<longleftrightarrow> \<not> tq_hash_tbl_lock q \<and> table_inv k q \<and> (\<forall>key. in_table k q key \<longrightarrow> dst_ok (tq_dsts q key) \<and> unat key < 64)"

lemma slots_nonempty: "tsq_inv k q \<Longrightarrow> s \<in> set (slots k q key) \<Longrightarrow> s \<noteq> []"
  by (auto simp: tsq_inv_def slots_def dst_ok_def split: if_splits)

text \<open>Fields that do not matter for the flows.\<close>

definition same_flows :: "'p tsq_sched_data \<Rightarrow> 'p tsq_sched_data \<Rightarrow> bool" where
  "same_flows q q' \<longleftrightarrow> tq_dst_hash_tbl q' = tq_dst_hash_tbl q \<and> tq_hash_tbl_log q' = tq_hash_tbl_log q \<and> tq_dsts q' = tq_dsts q"

lemma same_flowsD:
  assumes "same_flows q q'"
  shows "in_table k q' = in_table k q" "slots k q' = slots k q" "table_inv k q' = table_inv k q"
  using assms by (auto simp: same_flows_def in_table_def slots_def table_inv_def fun_eq_iff split: option.splits)

lemma tsq_inv_same: "same_flows q q' \<Longrightarrow> tq_hash_tbl_lock q' = tq_hash_tbl_lock q \<Longrightarrow> tsq_inv k q' = tsq_inv k q"
  using same_flowsD [of q q'] by (simp add: tsq_inv_def same_flows_def)

lemma tsq_count_frame [simp]:
  "same_flows q (tsq_count u q)" "tq_priv (tsq_count u q) = tq_priv q" "tq_hash_tbl_lock (tsq_count u q) = tq_hash_tbl_lock q"
  "tq_dst_hash_tbl (tsq_count u q) = tq_dst_hash_tbl q" "tq_dsts (tsq_count u q) = tq_dsts q" "tq_hash_tbl_log (tsq_count u q) = tq_hash_tbl_log q"
  "tq_prequeue (tsq_count u q) = tq_prequeue q" "tq_dropqueue (tsq_count u q) = tq_dropqueue q" "tq_enqueue_skb_q (tsq_count u q) = tq_enqueue_skb_q q"
  "tq_hi_prio (tsq_count u q) = tq_hi_prio q" "tq_reg_prio (tsq_count u q) = tq_reg_prio q" "tq_qlen (tsq_count u q) = tq_qlen q"
  "tq_limit (tsq_count u q) = tq_limit q" "tq_tslot_len_approx (tsq_count u q) = tq_tslot_len_approx q"
  by (simp_all add: tsq_count_def same_flows_def)

lemma upd_dst_frame [simp]:
  "tq_priv (upd_dst key f q) = tq_priv q" "tq_hash_tbl_lock (upd_dst key f q) = tq_hash_tbl_lock q"
  "tq_dst_hash_tbl (upd_dst key f q) = tq_dst_hash_tbl q" "tq_dsts (upd_dst key f q) = (tq_dsts q)(key := f (tq_dsts q key))"
  "tq_hash_tbl_log (upd_dst key f q) = tq_hash_tbl_log q" "tq_prequeue (upd_dst key f q) = tq_prequeue q"
  "tq_dropqueue (upd_dst key f q) = tq_dropqueue q" "tq_enqueue_skb_q (upd_dst key f q) = tq_enqueue_skb_q q"
  "tq_hi_prio (upd_dst key f q) = tq_hi_prio q" "tq_reg_prio (upd_dst key f q) = tq_reg_prio q" "tq_qlen (upd_dst key f q) = tq_qlen q"
  "tq_limit (upd_dst key f q) = tq_limit q" "tq_tslot_len_approx (upd_dst key f q) = tq_tslot_len_approx q"
  by (simp_all add: upd_dst_def)

text \<open>The queues beside the flows.\<close>

definition side_queues :: "'p tsq_sched_data \<Rightarrow> sk_buff list \<times> sk_buff list \<times> sk_buff list \<times> sk_buff list \<times> sk_buff list" where
  "side_queues q = (tq_hi_prio q, tq_reg_prio q, tq_enqueue_skb_q q, tq_prequeue q, tq_dropqueue q)"

lemma dst_lookup_find:
  assumes "table_inv k q"
  shows "dst_lookup k mem key False q = Some (if in_table k q key then Some key else None, q)"
proof -
  from assms obtain tbl where tbl: "tq_dst_hash_tbl q = Some tbl" "\<And>idx. descending (inorder (tbl idx))"
    unfolding table_inv_def by (cases "tq_dst_hash_tbl q") auto
  then show ?thesis by (simp add: dst_lookup_def in_table_def rb_search_iff Let_def)
qed

lemma dst_lookup_create:
  assumes "kernel_ok k" "table_inv k q"
  shows "\<exists>q'. dst_lookup k True key True q = Some (Some key, q') \<and> table_inv k q' \<and> in_table k q' = (in_table k q)(key := True)
    \<and> tq_dsts q' = (if in_table k q key then tq_dsts q else (tq_dsts q)(key := \<lparr>td_skb_qs = [], td_credit = 0, td_next_id = 0\<rparr>))
    \<and> side_queues q' = side_queues q \<and> tq_priv q' = tq_priv q \<and> tq_hash_tbl_lock q' = tq_hash_tbl_lock q \<and> tq_qlen q' = tq_qlen q
    \<and> tq_limit q' = tq_limit q \<and> tq_tslot_len_approx q' = tq_tslot_len_approx q"
proof -
  obtain tbl where tbl: "tq_dst_hash_tbl q = Some tbl" "\<And>idx. descending (inorder (tbl idx))"
    "\<And>idx x. x \<in> set (inorder (tbl idx)) \<Longrightarrow> bucket k (tq_hash_tbl_log q) x = idx"
    using assms(2) by (auto simp: table_inv_def split: option.splits)
  let ?b = "\<lambda>x. bucket k (tq_hash_tbl_log q) x"
  have s: "rb_search key (tbl (?b key)) \<longleftrightarrow> in_table k q key" using tbl by (simp add: rb_search_iff in_table_def)
  show ?thesis
  proof (cases "in_table k q key")
    case True
    then show ?thesis using tbl(1) s assms(2) by (intro exI [of _ q]) (auto simp: dst_lookup_def fun_eq_iff)
  next
    case False
    let ?tbl = "tbl(?b key := k_insert_color k (rb_link_node key (tbl (?b key))))"
    let ?q = "q\<lparr>tq_dst_hash_tbl := Some ?tbl, tq_dsts := (tq_dsts q)(key := \<lparr>td_skb_qs = [], td_credit = 0, td_next_id = 0\<rparr>),
         tq_flows := tq_flows q + 1, tq_inactive_flows := tq_inactive_flows q + 1\<rparr>"
    have io: "inorder (k_insert_color k t) = inorder t" for t using assms(1) by (simp add: kernel_ok_def)
    have new: "key \<notin> set (inorder (tbl (?b key)))" using False tbl(1) by (simp add: in_table_def)
    have run: "dst_lookup k True key True q = Some (Some key, ?q)" using False tbl(1) s by (simp add: dst_lookup_def Let_def)
    have "table_inv k ?q" using tbl(2,3) rb_link_node_descending [OF tbl(2) new] set_rb_link_node [of key "tbl (?b key)"]
      by (auto simp: table_inv_def io simp del: set_inorder)
    moreover have "in_table k ?q x = ((in_table k q)(key := True)) x" for x
      using tbl(1) set_rb_link_node [of key "tbl (?b key)"] by (auto simp: in_table_def io simp del: set_inorder)
    then have "in_table k ?q = (in_table k q)(key := True)" by (rule ext)
    ultimately show ?thesis using run False by (intro exI [of _ ?q]) (simp add: side_queues_def)
  qed
qed

section \<open>Enqueueing\<close>

text \<open>The flow of a data packet.\<close>

definition flow_key :: "sk_buff \<Rightarrow> u64" where
  "flow_key skb = ucast (fp_map_ip_to_id (if sk_protocol skb = ETH_P_IPV6 then sk_daddr6 skb else sk_daddr skb))"

lemma flow_key_less: "unat (flow_key skb) < 64"
proof -
  have "unat (x mod NUM_NODES) < 64" for x :: u32 by (simp add: unat_mod NUM_NODES_def)
  moreover have "unat (ucast (ucast (y :: u32) :: u16) :: u64) \<le> unat y" for y
  proof -
    have "unat (ucast (ucast y :: u16) :: u64) = unat (ucast y :: u16)" by (rule unat_ucast_up) simp
    also have "\<dots> = take_bit 16 (unat y)" by (simp only: unsigned_ucast_eq unsigned_take_bit_eq) simp
    also have "\<dots> \<le> unat y" by (rule take_bit_nat_less_eq_self)
    finally show ?thesis .
  qed
  ultimately show ?thesis unfolding flow_key_def fp_map_ip_to_id_def by (meson le_less_trans)
qed

lemma classify_data_eq:
  "classify_data k mem skb q = dst_lookup k mem (flow_key skb) True
     (tsq_count tt_data_pkts_update (if sk_protocol skb = ETH_P_IPV6 then tsq_count tt_classified_ipv6_update q else q))"
  by (simp add: classify_data_def Let_def flow_key_def FLOW_SHIFT_def FLOW_MASK_def)

text \<open>
  Whether a packet joins the last time slot of its flow. A flow that is not in the table gets no credit.
\<close>

definition joins :: "kernel \<Rightarrow> 'p tsq_sched_data \<Rightarrow> sk_buff \<Rightarrow> bool" where
  "joins k q skb \<longleftrightarrow> in_table k q (flow_key skb) \<and> sint (k_l2t k (tq_data_rate q) (sk_len skb)) \<le> sint (td_credit (tq_dsts q (flow_key skb)))"

definition put_packet :: "bool \<Rightarrow> sk_buff \<Rightarrow> sk_buff list list \<Rightarrow> sk_buff list list" where
  "put_packet j skb ss = (if j then butlast ss @ [last ss @ [skb]] else ss @ [[skb]])"

lemma concat_put_packet: "(j \<Longrightarrow> ss \<noteq> []) \<Longrightarrow> concat (put_packet j skb ss) = concat ss @ [skb]"
  by (auto simp: put_packet_def) (metis append_butlast_last_id append.assoc concat.simps concat_append append_Nil2)

lemma length_put_packet: "(j \<Longrightarrow> ss \<noteq> []) \<Longrightarrow> length (put_packet j skb ss) = (if j then length ss else Suc (length ss))"
  by (auto simp: put_packet_def)

lemma table_inv_cong: "tq_dst_hash_tbl q' = tq_dst_hash_tbl q \<Longrightarrow> tq_hash_tbl_log q' = tq_hash_tbl_log q \<Longrightarrow> table_inv k q' = table_inv k q"
  by (simp add: table_inv_def split: option.split)

lemma in_table_cong: "tq_dst_hash_tbl q' = tq_dst_hash_tbl q \<Longrightarrow> tq_hash_tbl_log q' = tq_hash_tbl_log q \<Longrightarrow> in_table k q' = in_table k q"
  by (rule ext) (auto simp: in_table_def split: option.split)

lemma sint_of_int_u64: "- (2 ^ 63) \<le> i \<Longrightarrow> i < 2 ^ 63 \<Longrightarrow> sint (word_of_int i :: u64) = i"
  by (simp add: signed_of_int signed_take_bit_int_eq_self)

lemma sint_diff_small:
  fixes a b :: u64
  assumes "- (2 ^ 62) < sint a - sint b" "sint a - sint b < 2 ^ 63"
  shows "sint (a - b) = sint a - sint b"
proof -
  have "sint (word_of_int (sint a - sint b) :: u64) = sint a - sint b"
    by (rule sint_of_int_u64) (use assms in simp_all)
  then show ?thesis by simp
qed

lemma sint_uint_u32: "sint (ucast (x :: u32) :: u64) = uint x"
proof -
  have b: "0 \<le> uint x" "uint x < 2 ^ 32" using uint_lt2p [of x] by simp_all
  then have "uint (ucast x :: u64) = uint x" by (simp add: uint_up_ucast is_up)
  moreover have "sint (word_of_int (uint x) :: u64) = uint x"
  proof (rule sint_of_int_u64)
    show "- (2 ^ 63) \<le> uint x" by (rule order_trans [OF _ b(1)]) simp
    show "uint x < 2 ^ 63" by (rule less_trans [OF b(2)]) simp
  qed
  ultimately show ?thesis by simp
qed

lemma new_timeslot_frame:
  "tq_dst_hash_tbl (new_timeslot c key q) = tq_dst_hash_tbl q" "tq_hash_tbl_log (new_timeslot c key q) = tq_hash_tbl_log q"
  "side_queues (new_timeslot c key q) = side_queues q" "tq_priv (new_timeslot c key q) = tq_priv q"
  "tq_hash_tbl_lock (new_timeslot c key q) = tq_hash_tbl_lock q" "tq_qlen (new_timeslot c key q) = tq_qlen q" "tq_limit (new_timeslot c key q) = tq_limit q"
  "tq_dsts (new_timeslot c key q) = (tq_dsts q)(key := (tq_dsts q key)\<lparr>td_skb_qs := td_skb_qs (tq_dsts q key) @ [\<lparr>ts_skbs = [], ts_id = td_next_id (tq_dsts q key)\<rparr>],
                td_next_id := td_next_id (tq_dsts q key) + 1, td_credit := ucast (tq_tslot_len_approx q)\<rparr>)"
  by (simp_all add: new_timeslot_def Let_def side_queues_def)

text \<open>The queue of packets, the memory of the client and the counters that only some operations change.\<close>

definition frame :: "'p tsq_sched_data \<Rightarrow> 'p tsq_sched_data \<Rightarrow> bool" where
  "frame q q' \<longleftrightarrow> side_queues q' = side_queues q \<and> tq_qlen q' = tq_qlen q \<and> tq_limit q' = tq_limit q"

lemma add_to_last_ok:
  assumes qs: "td_skb_qs (tq_dsts q key) \<noteq> []" and c: "sint (td_credit (tq_dsts q key)) - sint cost < 2 ^ 63"
    "- (2 ^ 62) < sint (td_credit (tq_dsts q key)) - sint cost"
    and old: "\<forall>t \<in> set (butlast (td_skb_qs (tq_dsts q key))). ts_skbs t \<noteq> []"
  shows "\<exists>dst. add_to_last cost key skb q = Some (upd_dst key (\<lambda>_. dst) q) \<and> dst_ok dst
    \<and> map ts_skbs (td_skb_qs dst) = put_packet True skb (map ts_skbs (td_skb_qs (tq_dsts q key)))"
proof -
  let ?d = "tq_dsts q key"
  let ?t = "(last (td_skb_qs ?d))\<lparr>ts_skbs := ts_skbs (last (td_skb_qs ?d)) @ [skb]\<rparr>"
  let ?dst = "?d\<lparr>td_credit := td_credit ?d - cost, td_skb_qs := butlast (td_skb_qs ?d) @ [?t]\<rparr>"
  have "dst_ok ?dst" using old c by (auto simp: dst_ok_def sint_diff_small)
  moreover have "add_to_last cost key skb q = Some (upd_dst key (\<lambda>_. ?dst) q)"
    using qs by (simp add: add_to_last_def Let_def upd_dst_def skb_q_enqueue_def)
  moreover have "map ts_skbs (td_skb_qs ?dst) = put_packet True skb (map ts_skbs (td_skb_qs ?d))"
    using qs by (simp add: put_packet_def map_butlast last_map)
  ultimately show ?thesis by blast
qed

lemma tsq_inv_put:
  assumes "table_inv k q" "\<And>x. in_table k q x \<Longrightarrow> x \<noteq> key \<Longrightarrow> dst_ok (tq_dsts q x)" "\<And>x. in_table k q x \<Longrightarrow> unat x < 64" "dst_ok dst"
  shows "tsq_inv k (hash_tbl_unlock (upd_dst key (\<lambda>_. dst) q))"
    "slots k (hash_tbl_unlock (upd_dst key (\<lambda>_. dst) q)) =
       (slots k q)(key := if in_table k q key then map ts_skbs (td_skb_qs dst) else [])"
proof -
  let ?q = "hash_tbl_unlock (upd_dst key (\<lambda>_. dst) q)"
  have f: "tq_dst_hash_tbl ?q = tq_dst_hash_tbl q" "tq_hash_tbl_log ?q = tq_hash_tbl_log q" "tq_dsts ?q = (tq_dsts q)(key := dst)" "\<not> tq_hash_tbl_lock ?q"
    by (simp_all add: hash_tbl_unlock_def)
  note t = table_inv_cong [OF f(1,2), of k] in_table_cong [OF f(1,2), of k]
  show "tsq_inv k ?q" using assms f(4) by (auto simp: tsq_inv_def t f(3))
  show "slots k ?q = (slots k q)(key := if in_table k q key then map ts_skbs (td_skb_qs dst) else [])"
    by (auto simp: slots_def fun_eq_iff t f(3))
qed

lemma enqueue_single_skb_ok:
  assumes k: "kernel_ok k" and inv: "tsq_inv k q" and add: "op_add_timeslot ops (flow_key skb) skb (tq_priv q) = Some p'"
  defines "key \<equiv> flow_key skb"
  shows "\<exists>q'. enqueue_single_skb k ops True True skb q = Some q' \<and> tsq_inv k q'
    \<and> slots k q' = (slots k q)(key := put_packet (joins k q skb) skb (slots k q key)) \<and> frame q q'
    \<and> tq_priv q' = (if joins k q skb then tq_priv q else p') \<and> (joins k q skb \<longrightarrow> slots k q key \<noteq> [])"
proof -
  define cost where "cost = k_l2t k (tq_data_rate q) (sk_len skb)"
  have cost: "0 < sint cost" "sint cost < 2 ^ 62" using k by (simp_all add: kernel_ok_def cost_def)
  define q0 where "q0 = tsq_count tt_data_pkts_update
      (if sk_protocol skb = ETH_P_IPV6 then tsq_count tt_classified_ipv6_update (q\<lparr>tq_hash_tbl_lock := True\<rparr>) else q\<lparr>tq_hash_tbl_lock := True\<rparr>)"
  have q0: "tq_dst_hash_tbl q0 = tq_dst_hash_tbl q" "tq_hash_tbl_log q0 = tq_hash_tbl_log q" "tq_dsts q0 = tq_dsts q" "frame q q0"
    "tq_priv q0 = tq_priv q" by (simp_all add: q0_def frame_def side_queues_def)
  have t0: "table_inv k q0" using inv table_inv_cong [OF q0(1,2)] by (simp add: tsq_inv_def)
  note it0 = in_table_cong [OF q0(1,2), of k]
  from dst_lookup_create [OF k t0, of key] obtain q1 where
    l: "dst_lookup k True key True q0 = Some (Some key, q1)" and q1: "table_inv k q1" "in_table k q1 = (in_table k q)(key := True)"
      "tq_dsts q1 = (if in_table k q key then tq_dsts q else (tq_dsts q)(key := \<lparr>td_skb_qs = [], td_credit = 0, td_next_id = 0\<rparr>))"
      "frame q q1" "tq_priv q1 = tq_priv q"
    using q0(3-5) by (auto simp: it0 frame_def)
  let ?d = "tq_dsts q1 key"
  have others: "in_table k q1 x \<Longrightarrow> x \<noteq> key \<Longrightarrow> dst_ok (tq_dsts q1 x)" "in_table k q1 x \<Longrightarrow> unat x < 64" for x
    using inv flow_key_less [of skb] by (auto simp: q1(2,3) tsq_inv_def key_def split: if_splits)
  have sl: "map ts_skbs (td_skb_qs ?d) = slots k q key" "(slots k q1)(key := X) = (slots k q)(key := X)" for X
    by (auto simp: q1(2,3) slots_def fun_eq_iff)
  have d: "dst_ok ?d" using inv by (auto simp: q1(3) tsq_inv_def dst_ok_def)
  have j: "joins k q skb \<longleftrightarrow> \<not> sint (td_credit ?d) < sint cost"
    using cost(1) by (auto simp: joins_def q1(3) key_def [symmetric] cost_def [symmetric])
  have run: "enqueue_single_skb k ops True True skb q =
      (if sint (td_credit ?d) < sint cost then do {
         q \<leftarrow> add_to_last cost key skb (new_timeslot cost key q1);
         let q = hash_tbl_unlock q;
         p \<leftarrow> op_add_timeslot ops key skb (tq_priv q);
         Some (q\<lparr>tq_priv := p\<rparr>) }
       else map_option hash_tbl_unlock (add_to_last cost key skb q1))"
    using inv l by (simp add: enqueue_single_skb_def hash_tbl_lock_def tsq_inv_def classify_data_eq cost_def [symmetric] q0_def [symmetric] key_def [symmetric] Let_def)
  show ?thesis
  proof (cases "sint (td_credit ?d) < sint cost")
    case True
    let ?q2 = "new_timeslot cost key q1"
    note f = new_timeslot_frame [of cost key q1]
    have c2: "sint (td_credit (tq_dsts ?q2 key)) = uint (tq_tslot_len_approx q1)"
      by (simp add: f(8) sint_uint_u32)
    define u where "u = uint (tq_tslot_len_approx q1)"
    have "u < 2 ^ 32" "0 \<le> u" using uint_lt2p [of "tq_tslot_len_approx q1"] by (simp_all add: u_def)
    with c2 [folded u_def] cost have c: "sint (td_credit (tq_dsts ?q2 key)) - sint cost < 2 ^ 63" "- (2 ^ 62) < sint (td_credit (tq_dsts ?q2 key)) - sint cost"
      by simp_all
    have "\<forall>t \<in> set (butlast (td_skb_qs (tq_dsts ?q2 key))). ts_skbs t \<noteq> []" using d by (simp add: f(8) dst_ok_def)
    from add_to_last_ok [OF _ c this, of skb] obtain dst where
      a: "add_to_last cost key skb ?q2 = Some (upd_dst key (\<lambda>_. dst) ?q2)" "dst_ok dst"
        "map ts_skbs (td_skb_qs dst) = put_packet False skb (slots k q key)"
      using sl(1) by (auto simp: f(8) put_packet_def)
    have it: "in_table k ?q2 = in_table k q1" by (rule in_table_cong) (simp_all add: f)
    have o2: "in_table k ?q2 x \<Longrightarrow> x \<noteq> key \<Longrightarrow> dst_ok (tq_dsts ?q2 x)" "in_table k ?q2 x \<Longrightarrow> unat x < 64" for x
      using others [of x] by (simp_all add: it f(8))
    note p = tsq_inv_put [of k ?q2 key dst, OF table_inv_cong [THEN iffD2, OF f(1,2) q1(1)] o2 a(2)]
    have s2: "(slots k ?q2)(key := X) = (slots k q)(key := X)" for X
      by (auto simp: slots_def it f(8) q1(2,3) fun_eq_iff)
    let ?q3 = "hash_tbl_unlock (upd_dst key (\<lambda>_. dst) ?q2)"
    let ?q' = "?q3\<lparr>tq_priv := p'\<rparr>"
    have "tq_priv ?q3 = tq_priv q" by (simp add: hash_tbl_unlock_def f q1(5))
    then have "enqueue_single_skb k ops True True skb q = Some ?q'" using run True a(1) add by (simp add: key_def)
    moreover have same: "same_flows ?q3 ?q'" by (simp add: same_flows_def)
    then have "tsq_inv k ?q'" using p(1) tsq_inv_same [OF same] by simp
    moreover have "slots k ?q' = (slots k q)(key := put_packet False skb (slots k q key))"
      using same_flowsD(2) [OF same, of k] p(2) a(3) by (simp add: it q1(2) s2)
    moreover have "frame q ?q'" using q1(4) f(3) by (simp add: frame_def hash_tbl_unlock_def side_queues_def f)
    ultimately show ?thesis using True j by (intro exI [of _ ?q']) simp
  next
    case False
    have ne: "td_skb_qs ?d \<noteq> []" using d False cost(1) by (auto simp: dst_ok_def)
    have c: "sint (td_credit ?d) - sint cost < 2 ^ 63" "- (2 ^ 62) < sint (td_credit ?d) - sint cost"
      using False cost sint_lt [of "td_credit ?d"] by auto
    have "\<forall>t \<in> set (butlast (td_skb_qs ?d)). ts_skbs t \<noteq> []" using d by (auto simp: dst_ok_def dest: in_set_butlastD)
    from add_to_last_ok [OF ne c this, of skb] obtain dst where
      a: "add_to_last cost key skb q1 = Some (upd_dst key (\<lambda>_. dst) q1)" "dst_ok dst"
        "map ts_skbs (td_skb_qs dst) = put_packet True skb (slots k q key)" using sl(1) by auto
    note p = tsq_inv_put [of k q1 key dst, OF q1(1) others a(2)]
    let ?q' = "hash_tbl_unlock (upd_dst key (\<lambda>_. dst) q1)"
    have "enqueue_single_skb k ops True True skb q = Some ?q'" using run False a(1) by simp
    moreover have "frame q ?q'" "tq_priv ?q' = tq_priv q" using q1(4,5) by (simp_all add: frame_def hash_tbl_unlock_def side_queues_def)
    moreover have "slots k q key \<noteq> []" using ne sl(1) by auto
    ultimately show ?thesis using False j p a(3) by (intro exI [of _ ?q']) (simp add: q1(2) sl(2))
  qed
qed

section \<open>Admitting\<close>

text \<open>The contract of the time slot queues towards their client.\<close>

locale timeslot_service =
  fixes inv :: "'s \<Rightarrow> bool" and waiting :: "'s \<Rightarrow> u64 \<Rightarrow> 'a list list" and ready :: "'s \<Rightarrow> 'a list" and others :: "'s \<Rightarrow> 'o"
    and priv :: "'s \<Rightarrow> 'p" and set_priv :: "'p \<Rightarrow> 's \<Rightarrow> 's"
    and admit :: "u64 \<Rightarrow> 's \<Rightarrow> (nat \<times> 's) option" and renumber :: "u64 \<Rightarrow> 's \<Rightarrow> 's option"
  assumes admit_ok: "inv s \<Longrightarrow> waiting s key \<noteq> [] \<Longrightarrow>
      \<exists>s'. admit key s = Some (1, s') \<and> inv s' \<and> waiting s' = (waiting s)(key := tl (waiting s key))
        \<and> ready s' = ready s @ hd (waiting s key) \<and> others s' = others s \<and> priv s' = priv s"
    and renumber_ok: "inv s \<Longrightarrow> waiting s key \<noteq> [] \<Longrightarrow>
      \<exists>s'. renumber key s = Some s' \<and> inv s' \<and> waiting s' = waiting s \<and> ready s' = ready s \<and> others s' = others s \<and> priv s' = priv s"
    and set_priv_ok: "inv s \<Longrightarrow> inv (set_priv p s) \<and> waiting (set_priv p s) = waiting s \<and> ready (set_priv p s) = ready s
        \<and> others (set_priv p s) = others s \<and> priv (set_priv p s) = p"
begin

text \<open>The packets of a flow that are in the service, from the oldest on; \<open>f\<close> is the flow of a packet.\<close>

definition in_service :: "('a \<Rightarrow> u64) \<Rightarrow> 's \<Rightarrow> u64 \<Rightarrow> 'a list" where
  "in_service f s key = filter (\<lambda>p. f p = key) (ready s) @ concat (waiting s key)"

lemma admit_in_order:
  assumes "inv s" "waiting s key \<noteq> []" "admit key s = Some (n, s')" "\<And>x p. p \<in> set (concat (waiting s x)) \<Longrightarrow> f p = x"
  shows "in_service f s' x = in_service f s x"
proof -
  have s': "waiting s' = (waiting s)(key := tl (waiting s key))" "ready s' = ready s @ hd (waiting s key)"
    using admit_ok [OF assms(1,2)] assms(3) by auto
  obtain w ws where w: "waiting s key = w # ws" using assms(2) by (cases "waiting s key") simp_all
  have f: "\<forall>p \<in> set w. f p = key" using assms(4) [of _ key] by (simp add: w)
  then have "filter (\<lambda>p. f p = key) w = w" "x \<noteq> key \<Longrightarrow> filter (\<lambda>p. f p = x) w = []" by (auto simp: filter_empty_conv)
  then show ?thesis by (auto simp: in_service_def s' w)
qed

end

abbreviation tsq_admit :: "kernel \<Rightarrow> 'p tsq_ops \<Rightarrow> u64 \<Rightarrow> 'p tsq_sched_data \<Rightarrow> (nat \<times> 'p tsq_sched_data) option" where
  "tsq_admit k ops key \<equiv> tsq_handle_now k ops key TSLOT_ACTION_ADMIT_HEAD 0 []"

lemma dst_lookup_locked:
  assumes "tsq_inv k q"
  shows "hash_tbl_lock q = Some (q\<lparr>tq_hash_tbl_lock := True\<rparr>)"
    "dst_lookup k True key False (q\<lparr>tq_hash_tbl_lock := True\<rparr>) = Some (if in_table k q key then Some key else None, q\<lparr>tq_hash_tbl_lock := True\<rparr>)"
proof -
  let ?q = "q\<lparr>tq_hash_tbl_lock := True\<rparr>"
  show "hash_tbl_lock q = Some ?q" using assms by (simp add: hash_tbl_lock_def tsq_inv_def)
  have "in_table k ?q = in_table k q" by (rule in_table_cong) simp_all
  moreover have "table_inv k ?q" using assms table_inv_cong [of ?q q k] by (simp add: tsq_inv_def)
  ultimately show "dst_lookup k True key False ?q = Some (if in_table k q key then Some key else None, ?q)"
    by (simp add: dst_lookup_find)
qed

lemma tsq_admit_ok:
  assumes inv: "tsq_inv k q" and w: "slots k q key \<noteq> []"
  shows "\<exists>q'. tsq_admit k ops key q = Some (1, q') \<and> tsq_inv k q' \<and> slots k q' = (slots k q)(key := tl (slots k q key))
    \<and> tq_prequeue q' = tq_prequeue q @ hd (slots k q key) \<and> tq_priv q' = tq_priv q
    \<and> (tq_hi_prio q', tq_reg_prio q', tq_enqueue_skb_q q', tq_dropqueue q') = (tq_hi_prio q, tq_reg_prio q, tq_enqueue_skb_q q, tq_dropqueue q)
    \<and> tq_qlen q' = tq_qlen q \<and> tq_limit q' = tq_limit q"
proof -
  have it: "in_table k q key" using w by (auto simp: slots_def split: if_splits)
  define d where "d = tq_dsts q key"
  have qs: "td_skb_qs d \<noteq> []" "slots k q key = map ts_skbs (td_skb_qs d)" using w it by (auto simp: slots_def d_def)
  have d: "dst_ok d" using inv it by (simp add: tsq_inv_def d_def)
  define dst where "dst = (if tl (td_skb_qs d) = [] then d\<lparr>td_skb_qs := [], td_credit := 0\<rparr> else d\<lparr>td_skb_qs := tl (td_skb_qs d)\<rparr>)"
  have ok: "dst_ok dst" using d by (auto simp: dst_ok_def dst_def dest: list.set_sel(2) [OF qs(1)])
  let ?q = "q\<lparr>tq_hash_tbl_lock := True\<rparr>"
  define q1 where "q1 = snd (take_timeslot key TSLOT_ACTION_ADMIT_HEAD 0 ?q)"
  obtain t ts where tts: "td_skb_qs d = t # ts" using qs(1) by (cases "td_skb_qs d") simp_all
  have q1: "fst (take_timeslot key TSLOT_ACTION_ADMIT_HEAD 0 ?q) = hd (td_skb_qs d)" "same_flows (hash_tbl_unlock (upd_dst key (\<lambda>_. dst) q)) q1"
    "\<not> tq_hash_tbl_lock q1" "tq_priv q1 = tq_priv q" "side_queues q1 = side_queues q" "tq_qlen q1 = tq_qlen q" "tq_limit q1 = tq_limit q"
    by (auto simp: q1_def take_timeslot_def Let_def d_def [symmetric] tts TSLOT_ACTION_ADMIT_HEAD_def TSLOT_ACTION_DROP_BY_ID_def
        TSLOT_ACTION_MODIFY_BY_ID_def same_flows_def hash_tbl_unlock_def dst_def side_queues_def)
  have ne: "ts_skbs (hd (td_skb_qs d)) \<noteq> []" using d qs(1) by (simp add: dst_ok_def)
  let ?q' = "q1\<lparr>tq_prequeue := tq_prequeue q @ ts_skbs (hd (td_skb_qs d))\<rparr>"
  have tk: "take_timeslot key TSLOT_ACTION_ADMIT_HEAD 0 ?q = (hd (td_skb_qs d), q1)" using q1(1) by (simp add: q1_def prod_eq_iff)
  have run: "tsq_admit k ops key q = Some (1, ?q')"
    using dst_lookup_locked(1) [OF inv] dst_lookup_locked(2) [OF inv, of key] it qs(1) ne q1(5) tk
    by (cases "op_prepare_to_send ops") (auto simp: tsq_handle_now_def d_def [symmetric] find_timeslot_def skb_q_append_def side_queues_def Let_def
        TSLOT_ACTION_ADMIT_HEAD_def TSLOT_ACTION_DROP_BY_ID_def TSLOT_ACTION_MODIFY_BY_ID_def)
  have "table_inv k q" "\<And>x. in_table k q x \<Longrightarrow> x \<noteq> key \<Longrightarrow> dst_ok (tq_dsts q x)" "\<And>x. in_table k q x \<Longrightarrow> unat x < 64" using inv by (auto simp: tsq_inv_def)
  note p = tsq_inv_put [of k q key dst, OF this ok]
  have sf: "same_flows (hash_tbl_unlock (upd_dst key (\<lambda>_. dst) q)) ?q'" using q1(2) by (simp add: same_flows_def)
  have "map ts_skbs (td_skb_qs dst) = tl (slots k q key)" using qs(2) by (simp add: dst_def tts)
  then have "slots k ?q' = (slots k q)(key := tl (slots k q key))" using same_flowsD(2) [OF sf, of k] p(2) it by simp
  moreover have "tsq_inv k ?q'" using p(1) tsq_inv_same [OF sf] q1(3) by (simp add: hash_tbl_unlock_def)
  moreover have "hd (slots k q key) = ts_skbs (hd (td_skb_qs d))" using qs by (simp add: list.map_sel(1))
  ultimately show ?thesis using run q1(4-7) by (intro exI [of _ ?q']) (simp add: side_queues_def)
qed

lemma number_from_skbs: "map ts_skbs (fst (number_from n ts)) = map ts_skbs ts"
  by (induction ts arbitrary: n) (auto split: prod.splits, metis fst_conv)

lemma tsq_reset_ids_ok:
  assumes inv: "tsq_inv k q" and it: "in_table k q key"
  shows "\<exists>q'. tsq_reset_ids k key q = Some q' \<and> tsq_inv k q' \<and> slots k q' = slots k q \<and> frame q q' \<and> tq_priv q' = tq_priv q"
proof -
  define d where "d = tq_dsts q key"
  obtain qs n where n: "number_from 0 (td_skb_qs d) = (qs, n)" by (cases "number_from 0 (td_skb_qs d)")
  then have m: "map ts_skbs qs = map ts_skbs (td_skb_qs d)" using number_from_skbs [of 0 "td_skb_qs d"] by simp
  define dst where "dst = d\<lparr>td_skb_qs := qs, td_next_id := n\<rparr>"
  have "(\<forall>t \<in> set xs. ts_skbs t \<noteq> []) \<longleftrightarrow> [] \<notin> set (map ts_skbs xs)" for xs by (induction xs) auto
  then have "(\<forall>t \<in> set qs. ts_skbs t \<noteq> []) \<longleftrightarrow> (\<forall>t \<in> set (td_skb_qs d). ts_skbs t \<noteq> [])" using m by metis
  moreover have "qs = [] \<longleftrightarrow> td_skb_qs d = []" using m by (metis map_is_Nil_conv)
  moreover have "dst_ok d" using inv it by (simp add: tsq_inv_def d_def)
  ultimately have ok: "dst_ok dst" by (simp add: dst_ok_def dst_def)
  let ?q' = "hash_tbl_unlock (upd_dst key (\<lambda>_. dst) (q\<lparr>tq_hash_tbl_lock := True\<rparr>))"
  have e: "?q' = hash_tbl_unlock (upd_dst key (\<lambda>_. dst) q)" by (simp add: hash_tbl_unlock_def upd_dst_def)
  have run: "tsq_reset_ids k key q = Some ?q'"
    using dst_lookup_locked(1) [OF inv] dst_lookup_locked(2) [OF inv, of key] it n
    by (simp add: tsq_reset_ids_def d_def [symmetric] dst_def upd_dst_def)
  have "table_inv k q" "\<And>x. in_table k q x \<Longrightarrow> x \<noteq> key \<Longrightarrow> dst_ok (tq_dsts q x)" "\<And>x. in_table k q x \<Longrightarrow> unat x < 64" using inv by (auto simp: tsq_inv_def)
  note p = tsq_inv_put [of k q key dst, OF this ok]
  have "slots k ?q' = slots k q" unfolding e using p(2) it m by (auto simp: slots_def fun_eq_iff dst_def d_def)
  then show ?thesis using run p(1) unfolding e
    by (intro exI [of _ "hash_tbl_unlock (upd_dst key (\<lambda>_. dst) q)"]) (simp add: frame_def side_queues_def hash_tbl_unlock_def)
qed

abbreviation other_queues :: "'p tsq_sched_data \<Rightarrow> sk_buff list \<times> sk_buff list \<times> sk_buff list \<times> sk_buff list" where
  "other_queues q \<equiv> (tq_hi_prio q, tq_reg_prio q, tq_enqueue_skb_q q, tq_dropqueue q)"

interpretation tsq: timeslot_service "tsq_inv k" "slots k" tq_prequeue other_queues tq_priv "\<lambda>p. tq_priv_update (\<lambda>_. p)" "tsq_admit k ops" "tsq_reset_ids k"
  for k :: kernel and ops :: "'p tsq_ops"
proof unfold_locales
  fix s :: "'p tsq_sched_data" and key assume s: "tsq_inv k s" "slots k s key \<noteq> []"
  show "\<exists>s'. tsq_admit k ops key s = Some (1, s') \<and> tsq_inv k s' \<and> slots k s' = (slots k s)(key := tl (slots k s key))
      \<and> tq_prequeue s' = tq_prequeue s @ hd (slots k s key) \<and> other_queues s' = other_queues s \<and> tq_priv s' = tq_priv s"
    using tsq_admit_ok [OF s, of ops] by blast
  have "in_table k s key" using s(2) by (auto simp: slots_def split: if_splits)
  from tsq_reset_ids_ok [OF s(1) this] show "\<exists>s'. tsq_reset_ids k key s = Some s' \<and> tsq_inv k s' \<and> slots k s' = slots k s
      \<and> tq_prequeue s' = tq_prequeue s \<and> other_queues s' = other_queues s \<and> tq_priv s' = tq_priv s" by (auto simp: frame_def side_queues_def)
next
  fix s :: "'p tsq_sched_data" and p assume s: "tsq_inv k s"
  have "same_flows s (s\<lparr>tq_priv := p\<rparr>)" by (simp add: same_flows_def)
  then show "tsq_inv k (s\<lparr>tq_priv := p\<rparr>) \<and> slots k (s\<lparr>tq_priv := p\<rparr>) = slots k s \<and> tq_prequeue (s\<lparr>tq_priv := p\<rparr>) = tq_prequeue s
      \<and> other_queues (s\<lparr>tq_priv := p\<rparr>) = other_queues s \<and> tq_priv (s\<lparr>tq_priv := p\<rparr>) = p"
    using s same_flowsD(2) tsq_inv_same [of s "s\<lparr>tq_priv := p\<rparr>"] by simp
qed

section \<open>A lock that is not released\<close>

text \<open>With the table locked, nobody gets any further.\<close>

lemma locked_hangs:
  assumes "tq_hash_tbl_lock q"
  shows "enqueue_single_skb k ops dm qm skb q = None" "tsq_handle_now k ops key a i data q = None" "tsq_reset_ids k key q = None"
  using assms by (simp_all add: enqueue_single_skb_def tsq_handle_now_def tsq_reset_ids_def hash_tbl_lock_def)

lemma handle_now_idle:
  assumes "tsq_inv k q" "slots k q key = []"
  obtains u where "tsq_handle_now k ops key action i data q = Some (0, tsq_count u (q\<lparr>tq_hash_tbl_lock := True\<rparr>))"
  using dst_lookup_locked(1) [OF assms(1)] dst_lookup_locked(2) [OF assms(1), of key] assms(2)
  by (cases "in_table k q key") (auto simp: tsq_handle_now_def slots_def)

text \<open>
  C37. An allocation for a flow without a waiting time slot hangs the discipline. Both early returns of the function, for an
  unknown flow and for a flow with nothing waiting, leave the lock of the table taken: the call returns, and every later
  packet, allocation and reset waits for ever.
\<close>

theorem handle_now_keeps_lock:
  assumes "tsq_inv k q" "slots k q key = []"
  shows "\<exists>q'. tsq_handle_now k ops key action i data q = Some (0, q') \<and> tq_hash_tbl_lock q'
    \<and> enqueue_single_skb k ops dm qm skb q' = None \<and> tsq_handle_now k ops key' action' i' data' q' = None \<and> tsq_reset_ids k key' q' = None"
proof -
  obtain u where "tsq_handle_now k ops key action i data q = Some (0, tsq_count u (q\<lparr>tq_hash_tbl_lock := True\<rparr>))"
    by (rule handle_now_idle [OF assms])
  moreover have "tq_hash_tbl_lock (tsq_count u (q\<lparr>tq_hash_tbl_lock := True\<rparr>))" by simp
  ultimately show ?thesis using locked_hangs by blast
qed

end
