(* ===== verification/Sch_Inv.thy ===== *)
theory Sch_Inv
  imports Sch_Fastpass Tsq_Inv Counter_Queue
begin

text \<open>
  The counters of the client agree with the time slots that wait: whatever happens, a flow has as many waiting time slots
  as its demand exceeds what is used of it, so that no allocation is used for a flow without a waiting time slot. All that
  the callbacks do to the packets is to move them along, in their order.
\<close>

section \<open>Data packets\<close>

text \<open>A packet that waits for a time slot, as the exceptions are listed in the comments of the code.\<close>

definition is_data :: "sk_buff \<Rightarrow> bool" where
  "is_data skb \<longleftrightarrow> (sk_protocol skb = ETH_P_IP \<or> sk_protocol skb = ETH_P_IPV6)
     \<and> (case sk_keys skb of None \<Rightarrow> False
        | Some keys \<Rightarrow> fk_ip_proto keys \<noteq> IPPROTO_IGMP \<and> fk_ip_proto keys \<noteq> 222
            \<and> (fk_ip_proto keys = IPPROTO_UDP \<longrightarrow> fk_dport keys \<notin> {123, 319, 320})
            \<and> (fk_ip_proto keys = IPPROTO_TCP \<longrightarrow> fk_sport keys \<noteq> 22 \<and> fk_dport keys \<noteq> 22))"

lemma ptp_ports: "(uint (x :: u16) - 1) AND NOT 1 = 318 \<longleftrightarrow> x = 319 \<or> x = 320"
proof -
  have e: "n AND NOT 1 = 2 * (n div 2)" for n :: int
    using unset_bit_0 [of n] by (simp add: unset_bit_eq_and_not)
  have "(uint x - 1) AND NOT 1 = 318 \<longleftrightarrow> uint x = 319 \<or> uint x = 320" unfolding e by presburger
  then show ?thesis by (simp add: word_uint_eq_iff)
qed

lemma classify_hi_prio_None:
  "(if is_data skb then classify_hi_prio skb q = (None, q) else fst (classify_hi_prio skb q) \<noteq> None)"
proof (cases "sk_protocol skb = ETH_P_IP \<or> sk_protocol skb = ETH_P_IPV6")
  case True
  then have ne: "sk_protocol skb \<noteq> ETH_P_ARP" "\<not> (sk_protocol skb = ETH_P_1588 \<or> sk_protocol skb = ETH_P_ALL)"
    "sk_protocol skb = ETH_P_IPV6 \<or> sk_protocol skb = ETH_P_IP"
    by (auto simp: ETH_P_IP_def ETH_P_IPV6_def ETH_P_ARP_def ETH_P_1588_def ETH_P_ALL_def)
  have f: "ucast (x :: u8) = (222 :: u16) \<longleftrightarrow> x = 222" for x
    by (auto simp: word_uint_eq_iff uint_up_ucast is_up)
  show ?thesis
  proof (cases "sk_keys skb")
    case None
    then show ?thesis using ne by (simp add: classify_hi_prio_def is_data_def)
  next
    case (Some keys)
    consider "fk_ip_proto keys = 2" | "fk_ip_proto keys = 17" | "fk_ip_proto keys = 6" | "fk_ip_proto keys = 222" |
      "fk_ip_proto keys \<noteq> 2" "fk_ip_proto keys \<noteq> 17" "fk_ip_proto keys \<noteq> 6" "fk_ip_proto keys \<noteq> 222" by blast
    then show ?thesis using True
      by cases (simp_all add: classify_hi_prio_def is_data_def Let_def ne Some f ptp_ports [simplified] IPPROTO_IGMP_def IPPROTO_UDP_def IPPROTO_TCP_def IPPROTO_FASTPASS_def)
  qed
next
  case False
  then show ?thesis by (simp add: classify_hi_prio_def is_data_def Let_def)
qed

lemma classify_hi_prio_frame:
  "same_flows q (snd (classify_hi_prio skb q)) \<and> tq_hash_tbl_lock (snd (classify_hi_prio skb q)) = tq_hash_tbl_lock q
    \<and> tq_priv (snd (classify_hi_prio skb q)) = tq_priv q \<and> side_queues (snd (classify_hi_prio skb q)) = side_queues q"
proof -
  define R where "R r \<longleftrightarrow> same_flows q (snd r) \<and> tq_hash_tbl_lock (snd r) = tq_hash_tbl_lock q \<and> tq_priv (snd r) = tq_priv q
    \<and> side_queues (snd r) = side_queues q" for r :: "prio option \<times> 'a tsq_sched_data"
  have i: "R a \<Longrightarrow> R b \<Longrightarrow> R (if c then a else b)" for a b c by simp
  have o: "R a \<Longrightarrow> (\<And>x. R (f x)) \<Longrightarrow> R (case m of None \<Rightarrow> a | Some x \<Rightarrow> f x)" for a f and m :: "flow_keys option" by (cases m) simp_all
  have b: "R (p, q)" "R (p, tsq_count u q)" for p u by (simp_all add: R_def same_flows_def side_queues_def)
  have "R (classify_hi_prio skb q)" unfolding classify_hi_prio_def Let_def by (intro i o b)
  then show ?thesis by (simp add: R_def)
qed

section \<open>Counters\<close>

definition flow_balance :: "fp_sched_data \<Rightarrow> nat \<Rightarrow> u64 \<times> u64" where
  "flow_balance q d = (fd_alloc_tslots (fs_dsts q d) - fd_used_tslots (fs_dsts q d), fd_demand_tslots (fs_dsts q d) - fd_used_tslots (fs_dsts q d))"

definition counts_ok :: "(u64 \<Rightarrow> 'a list) \<Rightarrow> fp_sched_data \<Rightarrow> bool" where
  "counts_ok w q \<longleftrightarrow> (\<forall>d < MAX_FLOWS. length (w (of_nat d)) < 2 ^ 64 \<and> flow_balance q d = (0, of_nat (length (w (of_nat d)))))"

lemma MAX_FLOWS_256: "MAX_FLOWS = 256"
  by (simp add: MAX_FLOWS_def MAX_NODES_def FLOWS_PER_NODE_def FLOW_SHIFT_def)

lemma counts_ok_cong: "flow_balance q' = flow_balance q \<Longrightarrow> counts_ok w q' = counts_ok w q"
  by (simp add: counts_ok_def)

lemma counts_okD:
  assumes "counts_ok w q" "d < MAX_FLOWS"
  shows "fd_alloc_tslots (fs_dsts q d) = fd_used_tslots (fs_dsts q d)"
    "fd_used_tslots (fs_dsts q d) = fd_demand_tslots (fs_dsts q d) \<longleftrightarrow> w (of_nat d) = []"
    "unat (fd_demand_tslots (fs_dsts q d) - fd_used_tslots (fs_dsts q d)) = length (w (of_nat d))"
proof -
  have b: "fd_alloc_tslots (fs_dsts q d) - fd_used_tslots (fs_dsts q d) = 0"
    "fd_demand_tslots (fs_dsts q d) - fd_used_tslots (fs_dsts q d) = of_nat (length (w (of_nat d)))" "length (w (of_nat d)) < 2 ^ 64"
    using assms by (auto simp: counts_ok_def flow_balance_def)
  show "fd_alloc_tslots (fs_dsts q d) = fd_used_tslots (fs_dsts q d)" using b(1) by simp
  show u: "unat (fd_demand_tslots (fs_dsts q d) - fd_used_tslots (fs_dsts q d)) = length (w (of_nat d))"
    using b(3) unfolding b(2) by (intro unat_of_nat_word) simp
  then show "fd_used_tslots (fs_dsts q d) = fd_demand_tslots (fs_dsts q d) \<longleftrightarrow> w (of_nat d) = []"
    by (metis length_0_conv right_minus_eq unat_eq_zero)
qed

lemma of_nat_flow_eq: "x < MAX_FLOWS \<Longrightarrow> y < MAX_FLOWS \<Longrightarrow> (of_nat x :: u64) = of_nat y \<longleftrightarrow> x = y"
  by (simp add: MAX_FLOWS_256 word_of_nat_eq_iff take_bit_nat_eq_self)

lemma counts_ok_change:
  assumes "counts_ok w q" "d < MAX_FLOWS" "flow_balance q' = (flow_balance q)(d := (0, of_nat (length v)))" "length v < 2 ^ 64"
  shows "counts_ok (w(of_nat d := v)) q'"
  using assms by (auto simp: counts_ok_def of_nat_flow_eq)

text \<open>Most of what the client does keeps the flow_balance of every flow.\<close>

lemma flow_balance_upd_fd: "flow_balance (upd_fd d f q) x =
    (if x = d then (fd_alloc_tslots (f (fs_dsts q d)) - fd_used_tslots (f (fs_dsts q d)), fd_demand_tslots (f (fs_dsts q d)) - fd_used_tslots (f (fs_dsts q d)))
     else flow_balance q x)"
  by (simp add: flow_balance_def upd_fd_def)

lemma flow_balance_keeps [simp]:
  "flow_balance (fpq_count u q) = flow_balance q" "flow_balance (trigger_tx now q) = flow_balance q" "flow_balance (unreq_dsts_enqueue_if_not_queued now d q) = flow_balance q"
  "flow_balance (fpq_set_retrans_timer t q) = flow_balance q" "flow_balance (fpq_cancel_retrans_timer q) = flow_balance q" "flow_balance (fs_conn_update c q) = flow_balance q"
  "flow_balance (fs_request_pacer_update g q) = flow_balance q" "flow_balance (count_enqueue prm a b q) = flow_balance q"
  by (auto simp: flow_balance_def fun_eq_iff fpq_count_def trigger_tx_def unreq_dsts_enqueue_if_not_queued_def upd_fd_def fpq_set_retrans_timer_def
      fpq_cancel_retrans_timer_def count_enqueue_def Let_def)

lemma fpq_ack_entry_balance: "fpq_ack_entry now a q = Some q' \<Longrightarrow> flow_balance q' = flow_balance q"
  by (auto simp: fpq_ack_entry_def bind_eq_Some_conv Let_def split: if_splits) (auto simp: fun_eq_iff flow_balance_def upd_fd_def)

lemma fpq_neg_ack_entry_balance: "fpq_neg_ack_entry now a q = Some q' \<Longrightarrow> flow_balance q' = flow_balance q"
  by (auto simp: fpq_neg_ack_entry_def bind_eq_Some_conv)

lemma fpq_acks_balance:
  "fpq_handle_ack now pd q = Some q' \<Longrightarrow> flow_balance q' = flow_balance q" "fpq_handle_neg_ack now pd q = Some q' \<Longrightarrow> flow_balance q' = flow_balance q"
  unfolding fpq_handle_ack_def fpq_handle_neg_ack_def
  by (erule for_each_invariant [where I = "\<lambda>x. flow_balance x = flow_balance q"], simp_all add: fpq_ack_entry_balance fpq_neg_ack_entry_balance)+

section \<open>The end node\<close>

definition node_inv :: "kernel \<Rightarrow> end_node \<Rightarrow> bool" where
  "node_inv k s \<longleftrightarrow> tsq_inv k s \<and> counts_ok (slots k s) (tq_priv s)
     \<and> (\<forall>key. \<forall>p \<in> set (concat (slots k s key)). flow_key p = key \<and> is_data p)
     \<and> (\<forall>p \<in> set (tq_prequeue s) \<union> set (tq_enqueue_skb_q s). is_data p)
     \<and> (\<forall>p \<in> set (tq_hi_prio s) \<union> set (tq_reg_prio s). \<not> is_data p) \<and> tq_dropqueue s = []"

text \<open>The packets of a flow in the node, from the oldest on.\<close>

definition in_node :: "kernel \<Rightarrow> end_node \<Rightarrow> u64 \<Rightarrow> sk_buff list" where
  "in_node k s key = tsq.in_service k flow_key s key @ filter (\<lambda>p. flow_key p = key) (tq_enqueue_skb_q s)"

text \<open>A step that lets no packet in or out of the node.\<close>

definition quiet :: "kernel \<Rightarrow> end_node \<Rightarrow> end_node \<Rightarrow> bool" where
  "quiet k s s' \<longleftrightarrow> node_inv k s' \<and> in_node k s' = in_node k s"

lemma quiet_refl: "node_inv k s \<Longrightarrow> quiet k s s"
  by (simp add: quiet_def)

lemma quiet_trans: "quiet k s s' \<Longrightarrow> quiet k s' s'' \<Longrightarrow> quiet k s s''"
  by (simp add: quiet_def)

lemma quiet_inv: "quiet k s s' \<Longrightarrow> node_inv k s'"
  by (simp add: quiet_def)

lemma quiet_same:
  assumes "node_inv k s" "tsq_inv k s'" "slots k s' = slots k s" "tq_prequeue s' = tq_prequeue s" "other_queues s' = other_queues s"
    "flow_balance (tq_priv s') = flow_balance (tq_priv s)"
  shows "quiet k s s'"
proof -
  have "in_node k s' = in_node k s" using assms(3-5) by (auto simp: in_node_def tsq.in_service_def)
  moreover have "counts_ok (slots k s') (tq_priv s')" using assms(1,3) by (simp add: node_inv_def counts_ok_cong [OF assms(6)])
  ultimately show ?thesis using assms(1-5) by (auto simp: quiet_def node_inv_def)
qed

lemma quiet_priv:
  assumes inv: "node_inv k s" and b: "flow_balance q = flow_balance (tq_priv s)"
  shows "quiet k s (s\<lparr>tq_priv := q\<rparr>)"
proof (rule quiet_same [OF inv])
  have "tsq_inv k s" using inv by (simp add: node_inv_def)
  from tsq.set_priv_ok [OF this, of q] show "tsq_inv k (s\<lparr>tq_priv := q\<rparr>)" "slots k (s\<lparr>tq_priv := q\<rparr>) = slots k s" by simp_all
qed (use b in simp_all)

lemma quiet_on_fp: "node_inv k s \<Longrightarrow> flow_balance (f (tq_priv s)) = flow_balance (tq_priv s) \<Longrightarrow> quiet k s (on_fp f s)"
  unfolding on_fp_def by (rule quiet_priv)

subsection \<open>Resets\<close>

lemma reset_flow_quiet:
  assumes inv: "node_inv k s" and d: "d < MAX_FLOWS"
  shows "returns (reset_flow k now d s) (quiet k s)"
proof -
  let ?f = "fs_dsts (tq_priv s) d"
  have c: "counts_ok (slots k s) (tq_priv s)" using inv by (simp add: node_inv_def)
  show ?thesis
  proof (cases "fd_demand_tslots ?f = fd_used_tslots ?f")
    case True
    then show ?thesis using quiet_refl [OF inv] by (simp add: reset_flow_def Let_def)
  next
    case False
    define g where "g = (\<lambda>q. let q = upd_fd d (\<lambda>dst. dst\<lparr>fd_demand_tslots := fd_demand_tslots ?f - fd_used_tslots ?f, fd_alloc_tslots := 0, fd_acked_tslots := 0,
                                      fd_requested_tslots := 0, fd_used_tslots := 0\<rparr>) q;
                                  q = q\<lparr>fs_demand_tslots := fs_demand_tslots q + ucast (fd_demand_tslots ?f - fd_used_tslots ?f)\<rparr>
                              in unreq_dsts_enqueue_if_not_queued now d q)"
    have "flow_balance (g (tq_priv s)) = flow_balance (upd_fd d (\<lambda>dst. dst\<lparr>fd_demand_tslots := fd_demand_tslots ?f - fd_used_tslots ?f, fd_alloc_tslots := 0, fd_acked_tslots := 0,
                                      fd_requested_tslots := 0, fd_used_tslots := 0\<rparr>) (tq_priv s))"
      by (simp add: g_def Let_def) (simp add: flow_balance_def fun_eq_iff)
    also have "\<dots> = flow_balance (tq_priv s)"
      using counts_okD(1) [OF c d] by (auto simp: fun_eq_iff flow_balance_upd_fd) (simp add: flow_balance_def)
    finally have q: "quiet k s (on_fp g s)" by (rule quiet_on_fp [OF inv])
    have "slots k (on_fp g s) (of_nat d) \<noteq> []" "tsq_inv k (on_fp g s)"
      using counts_okD(2) [OF c d] False inv tsq.set_priv_ok [of k s "g (tq_priv s)"] by (auto simp: on_fp_def node_inv_def)
    then obtain s' where s': "tsq_reset_ids k (of_nat d) (on_fp g s) = Some s'" "tsq_inv k s'" "slots k s' = slots k (on_fp g s)"
      "tq_prequeue s' = tq_prequeue (on_fp g s)" "other_queues s' = other_queues (on_fp g s)" "tq_priv s' = tq_priv (on_fp g s)"
      using tsq.renumber_ok [of k "on_fp g s" "of_nat d"] by blast
    have "quiet k (on_fp g s) s'" by (rule quiet_same [OF quiet_inv [OF q] s'(2-5)]) (simp add: s'(6))
    then show ?thesis using quiet_trans [OF q] False s'(1) by (simp add: reset_flow_def Let_def g_def)
  qed
qed

lemma handle_reset_quiet:
  assumes inv: "node_inv k s"
  shows "returns (fpq_handle_reset k now s) (quiet k s)"
proof -
  let ?g = "\<lambda>q. q\<lparr>fs_demand_tslots := 0, fs_requested_tslots := 0, fs_alloc_tslots := 0, fs_acked_tslots := 0, fs_used_tslots := 0\<rparr>"
  have q: "quiet k s (on_fp ?g s)" by (rule quiet_on_fp [OF inv]) (simp add: flow_balance_def fun_eq_iff)
  have i: "unat (x AND (of_nat MAX_FLOWS - 1) :: u32) < MAX_FLOWS" for x
  proof -
    have "x AND (of_nat MAX_FLOWS - 1) \<le> (255 :: u32)" by (simp add: MAX_FLOWS_256 word_and_le1)
    then show ?thesis by (simp add: word_le_nat_alt MAX_FLOWS_256)
  qed
  show ?thesis unfolding fpq_handle_reset_def Let_def
    by (rule returns_mono [OF returns_for_each [where I = "\<lambda>_. quiet k s"]])
      (use q in simp_all, blast intro: returns_mono reset_flow_quiet quiet_inv quiet_trans i)
qed

subsection \<open>Allocations\<close>

text \<open>The flows that an ALLOC payload names, in its order, up to the first time slot whose index is out of range.\<close>

fun allocated :: "u16 list \<Rightarrow> u8 list \<Rightarrow> u16 list" where
  "allocated dst_ids [] = []"
| "allocated dst_ids (spec # specs) =
     (let i = unat (drop_bit 4 spec)
      in if i = 0 then allocated dst_ids specs else if length dst_ids < i then [] else dst_ids ! (i - 1) # allocated dst_ids specs)"

text \<open>The time slots that are sent when flows are served in an order: each time the oldest one of the flow, if it has one.\<close>

fun serve :: "u64 list \<Rightarrow> (u64 \<Rightarrow> 'a list) \<Rightarrow> 'a list" where
  "serve [] w = []"
| "serve (key # keys) w = (case w key of [] \<Rightarrow> serve keys w | x # xs \<Rightarrow> x # serve keys (w(key := xs)))"

lemma get_dst_u16: "get_dst (ucast (dst :: u16)) = (if unat dst < MAX_FLOWS then Some (unat dst) else None)"
proof -
  have "unat (ucast dst :: u32) = unat dst" unfolding unat_eq_nat_uint by (simp add: uint_up_ucast is_up)
  then show ?thesis by (simp add: get_dst_def)
qed

lemma use_alloc_ok:
  assumes inv: "node_inv k s" and d: "unat dst < MAX_FLOWS"
  defines "key \<equiv> ucast dst"
  shows "returns (use_alloc k prm now full cur dst s) (\<lambda>s'. quiet k s s' \<and> slots k s' = (slots k s)(key := tl (slots k s key))
    \<and> tq_prequeue s' = tq_prequeue s @ concat (take 1 (slots k s key)))"
proof -
  let ?d = "unat dst"
  have key: "of_nat ?d = key" by (simp add: key_def)
  have g: "get_dst (ucast dst) = Some ?d" using d by (simp add: get_dst_u16)
  have ts: "tsq_inv k s" and c: "counts_ok (slots k s) (tq_priv s)" using inv by (simp_all add: node_inv_def)
  note e = counts_okD(2) [OF c d, unfolded key]
  show ?thesis
  proof (cases "slots k s key = []")
    case True
    then have "(slots k s)(key := []) = slots k s" by (simp add: fun_eq_iff)
    moreover have "quiet k s (on_fp (fpq_count fc_unwanted_alloc_update) s)" by (rule quiet_on_fp [OF inv]) simp
    moreover have "slots k (on_fp (fpq_count fc_unwanted_alloc_update) s) = slots k s"
      using tsq.set_priv_ok [OF ts] by (simp add: on_fp_def)
    ultimately show ?thesis using True e by (simp add: use_alloc_def g) (simp add: on_fp_def)
  next
    case False
    define q1 where "q1 = upd_fd ?d (\<lambda>dst. dst\<lparr>fd_alloc_tslots := fd_alloc_tslots dst + 1\<rparr>) (flow_inc_used ?d 1 (tq_priv s))"
    let ?s1 = "s\<lparr>tq_priv := q1\<rparr>"
    have s1: "tsq_inv k ?s1" "slots k ?s1 = slots k s" using tsq.set_priv_ok [OF ts, of q1] by simp_all
    from tsq.admit_ok [OF s1(1), of key "fastpass_tsq_ops k now"] False obtain s2 where
      run: "tsq_admit k (fastpass_tsq_ops k now) key ?s1 = Some (1, s2)" and
      s2: "tsq_inv k s2" "slots k s2 = (slots k s)(key := tl (slots k s key))" "tq_prequeue s2 = tq_prequeue s @ hd (slots k s key)"
        "other_queues s2 = other_queues s" "tq_priv s2 = q1" unfolding s1(2) by auto
    let ?s3 = "on_fp (count_enqueue prm full cur) (on_fp (\<lambda>q. q\<lparr>fs_alloc_tslots := fs_alloc_tslots q + 1\<rparr>) (on_fp (fpq_count fc_admitted_timeslots_update) s2))"
    have b: "flow_balance (tq_priv ?s3) = flow_balance q1" by (simp add: on_fp_def s2(5)) (simp add: flow_balance_def fun_eq_iff fpq_count_def)
    have s3: "tsq_inv k ?s3" "slots k ?s3 = slots k s2" "tq_prequeue ?s3 = tq_prequeue s2" "other_queues ?s3 = other_queues s2"
      using tsq.set_priv_ok [OF s2(1)] by (simp_all add: on_fp_def)
    have run3: "use_alloc k prm now full cur dst s = Some ?s3"
      using e False run by (simp add: use_alloc_def g on_fp_def [of _ s] q1_def handle_single_alloc_def key_def)
    have bd: "flow_balance (tq_priv s) ?d = (0, of_nat (length (slots k s key)))" "length (slots k s key) < 2 ^ 64"
      using c d key by (auto simp: counts_ok_def)
    have "flow_balance q1 x = (if x = ?d then (0, snd (flow_balance (tq_priv s) ?d) - 1) else flow_balance (tq_priv s) x)" for x
      using bd(1) by (auto simp: q1_def flow_balance_upd_fd flow_inc_used_def) (auto simp: flow_balance_def upd_fd_def)
    then have "flow_balance q1 = (flow_balance (tq_priv s))(?d := (0, of_nat (length (tl (slots k s key)))))"
      using False bd(1) by (cases "slots k s key") (auto simp: fun_eq_iff)
    then have "counts_ok ((slots k s)(of_nat ?d := tl (slots k s key))) q1"
      by (rule counts_ok_change [OF c d]) (use bd(2) in simp)
    then have c3: "counts_ok (slots k ?s3) (tq_priv ?s3)" unfolding counts_ok_cong [OF b] s3(2) s2(2) key .
    have own: "flow_key p = x \<and> is_data p" if "p \<in> set (concat (slots k s x))" for x p using inv that unfolding node_inv_def by blast
    have "in_node k ?s3 x = in_node k s x" for x
    proof -
      have "tsq.in_service k flow_key s2 x = tsq.in_service k flow_key ?s1 x"
        by (rule tsq.admit_in_order [OF s1(1) _ run]) (use False own in \<open>simp_all add: s1(2)\<close>)
      then show ?thesis using s3(2-4) s2(4) by (simp add: in_node_def tsq.in_service_def s1(2))
    qed
    moreover have "node_inv k ?s3" unfolding node_inv_def s3(2,3) s2(2,3)
    proof (intro conjI)
      show "tsq_inv k ?s3" "counts_ok ((slots k s)(key := tl (slots k s key))) (tq_priv ?s3)" using s3(1) c3 by (simp_all add: s3(2) s2(2))
      show "\<forall>x. \<forall>p \<in> set (concat (((slots k s)(key := tl (slots k s key))) x)). flow_key p = x \<and> is_data p"
        using own False by (auto dest: list.set_sel(2))
    qed (use inv s3(4) s2(4) own [of _ key] hd_in_set [OF False] in \<open>auto simp: node_inv_def\<close>)
    ultimately show ?thesis using run3 s3(2,3) s2(2,3) False by (cases "slots k s key") (auto simp: quiet_def)
  qed
qed

lemma alloc_loop_ok:
  assumes "node_inv k s" "\<forall>d \<in> set dst_ids. unat d < MAX_FLOWS"
  shows "returns (alloc_loop k prm now full cur dst_ids specs s) (\<lambda>s'. quiet k s s'
    \<and> (\<forall>key. slots k s' key = drop (count_list (map ucast (allocated dst_ids specs)) key) (slots k s key))
    \<and> tq_prequeue s' = tq_prequeue s @ concat (serve (map ucast (allocated dst_ids specs)) (slots k s)))"
  using assms(1)
proof (induction specs arbitrary: s)
  case Nil
  then show ?case by (simp add: quiet_refl)
next
  case (Cons spec specs)
  let ?i = "unat (drop_bit 4 spec)"
  show ?case
  proof (cases "?i = 0 \<or> length dst_ids < ?i")
    case True
    then show ?thesis using Cons by (auto simp: Let_def quiet_refl)
  next
    case False
    let ?d = "dst_ids ! (?i - 1)"
    let ?key = "ucast ?d :: u64"
    have "?i - 1 < length dst_ids" using False by linarith
    then have d: "unat ?d < MAX_FLOWS" using assms(2) nth_mem by blast
    from use_alloc_ok [OF Cons.prems d, of prm now full cur] obtain s1 where s1: "use_alloc k prm now full cur ?d s = Some s1" "quiet k s s1"
      "slots k s1 = (slots k s)(?key := tl (slots k s ?key))" "tq_prequeue s1 = tq_prequeue s @ concat (take 1 (slots k s ?key))"
      by (auto elim: returnsE)
    from Cons.IH [OF quiet_inv [OF s1(2)]] obtain s2 where s2: "alloc_loop k prm now full cur dst_ids specs s1 = Some s2" "quiet k s1 s2"
      "\<And>key. slots k s2 key = drop (count_list (map ucast (allocated dst_ids specs)) key) (slots k s1 key)"
      "tq_prequeue s2 = tq_prequeue s1 @ concat (serve (map ucast (allocated dst_ids specs)) (slots k s1))" by (auto elim!: returnsE)
    have a: "allocated dst_ids (spec # specs) = ?d # allocated dst_ids specs" using False by (simp add: Let_def)
    have "concat (take 1 (slots k s ?key)) @ concat (serve (map ucast (allocated dst_ids specs)) (slots k s1))
        = concat (serve (map ucast (allocated dst_ids (spec # specs))) (slots k s))"
      unfolding a by (cases "slots k s ?key") (simp_all add: s1(3) fun_upd_idem)
    moreover have "slots k s2 key = drop (count_list (map ucast (allocated dst_ids (spec # specs))) key) (slots k s key)" for key
      unfolding a by (simp add: s2(3) s1(3) drop_Suc)
    ultimately show ?thesis using False s1(1,4) s2(1,4) quiet_trans [OF s1(2) s2(2)] by (simp add: Let_def)
  qed
qed

lemma alloc_loop_quiet: "alloc_loop k prm now full cur dst_ids specs s = Some s' \<Longrightarrow> node_inv k s \<Longrightarrow> quiet k s s'"
proof (induction specs arbitrary: s)
  case (Cons spec specs)
  show ?case
  proof (cases "unat (drop_bit 4 spec) = 0 \<or> length dst_ids < unat (drop_bit 4 spec)")
    case False
    let ?d = "dst_ids ! (unat (drop_bit 4 spec) - 1)"
    from Cons.prems(1) False obtain s1 where s1: "use_alloc k prm now full cur ?d s = Some s1" "alloc_loop k prm now full cur dst_ids specs s1 = Some s'"
      by (auto simp: Let_def bind_eq_Some_conv)
    then have "unat ?d < MAX_FLOWS" by (simp add: use_alloc_def get_dst_u16 split: if_splits)
    then have "quiet k s s1" using use_alloc_ok [OF Cons.prems(2), of ?d prm now full cur] s1(1) by (simp add: returns_def)
    then show ?thesis using Cons.IH [OF s1(2)] quiet_inv quiet_trans by blast
  qed (use Cons in \<open>auto simp: Let_def quiet_refl\<close>)
qed (simp add: quiet_refl)

lemma handle_alloc_ok:
  assumes inv: "node_inv k s" and d: "\<forall>d \<in> set dst_ids. unat d < MAX_FLOWS" and n: "n \<le> length tslots"
  shows "returns (fpq_handle_alloc k prm now now_real base dst_ids tslots n s) (\<lambda>s'. quiet k s s'
    \<and> (\<forall>key. slots k s' key = drop (count_list (map ucast (allocated dst_ids (take n tslots))) key) (slots k s key))
    \<and> tq_prequeue s' = tq_prequeue s @ concat (serve (map ucast (allocated dst_ids (take n tslots))) (slots k s)))"
proof -
  let ?s = "on_fp (trigger_tx now) s"
  have q: "quiet k s ?s" by (rule quiet_on_fp [OF inv]) simp
  have "slots k ?s = slots k s" "tq_prequeue ?s = tq_prequeue s"
    using tsq.set_priv_ok [of k s] inv by (simp_all add: on_fp_def node_inv_def)
  moreover have "\<exists>full cur. fpq_handle_alloc k prm now now_real base dst_ids tslots n s = alloc_loop k prm now full cur dst_ids (take n tslots) ?s"
    using n by (auto simp: fpq_handle_alloc_def Let_def)
  then obtain full cur where "fpq_handle_alloc k prm now now_real base dst_ids tslots n s = alloc_loop k prm now full cur dst_ids (take n tslots) ?s" by blast
  ultimately show ?thesis using alloc_loop_ok [OF quiet_inv [OF q] d, of prm now full cur "take n tslots"] quiet_trans [OF q]
    by (auto simp: returns_def)
qed

subsection \<open>Reports, acknowledgements and timers\<close>

lemma get_dst_less: "get_dst i = Some d \<Longrightarrow> d < MAX_FLOWS"
  by (simp add: get_dst_def split: if_splits)

lemma areq_loop_quiet: "fpq_areq_loop cfg k now now_real xs s = Some s' \<Longrightarrow> node_inv k s \<Longrightarrow> quiet k s s'"
proof (induction xs arbitrary: s)
  case Nil
  then show ?case by (simp add: quiet_refl)
next
  case (Cons x xs)
  obtain dst_id count_low where x: "x = (dst_id, count_low)" by (cases x)
  from Cons.prems(1) obtain d where d: "get_dst (ucast dst_id) = Some d" by (auto simp: x bind_eq_Some_conv)
  let ?f = "fs_dsts (tq_priv s) d"
  define cnt where "cnt = full_alloc_count (fd_alloc_tslots ?f) count_low"
  note run = Cons.prems(1) [unfolded x fpq_areq_loop.simps d Option.bind.bind_lunit Let_def, folded cnt_def]
  consider "\<not> 0 < sint (cnt - fd_alloc_tslots ?f)" | "0 < sint (cnt - fd_alloc_tslots ?f)" "0 < sint (cnt - fd_requested_tslots ?f)"
    | "0 < sint (cnt - fd_alloc_tslots ?f)" "\<not> 0 < sint (cnt - fd_requested_tslots ?f)" by blast
  then show ?case
  proof cases
    case 1
    then show ?thesis using run Cons.IH Cons.prems(2) by simp
  next
    case 2
    let ?s1 = "on_fp (fpq_count fc_alloc_report_larger_than_requested_update) s"
    from run 2 obtain conn where r: "fpq_handle_reset k now (on_fp (fs_conn_update (\<lambda>_. conn)) ?s1) = Some s'"
      by (auto simp: bind_eq_Some_conv)
    have q1: "quiet k s ?s1" by (rule quiet_on_fp [OF Cons.prems(2)]) simp
    have q2: "quiet k ?s1 (on_fp (fs_conn_update (\<lambda>_. conn)) ?s1)" by (rule quiet_on_fp [OF quiet_inv [OF q1]]) simp
    have "quiet k (on_fp (fs_conn_update (\<lambda>_. conn)) ?s1) s'" using handle_reset_quiet [OF quiet_inv [OF q2], of now] r by (simp add: returns_def)
    then show ?thesis using q1 q2 quiet_trans by blast
  next
    case 3
    define n where "n = cnt - fd_alloc_tslots ?f"
    define g where "g = (\<lambda>q. let q = upd_fd d (\<lambda>dst. dst\<lparr>fd_alloc_tslots := fd_alloc_tslots dst + n\<rparr>) q;
                                q = flow_inc_demand now d n (flow_inc_used d n q)
                            in q\<lparr>fs_alloc_tslots := fs_alloc_tslots q + ucast n,
                                 fs_stat := fc_timeslots_assumed_lost_update (\<lambda>m. m + n) (fs_stat q)\<rparr>)"
    have r: "fpq_areq_loop cfg k now now_real xs (on_fp g s) = Some s'" using run 3 by (simp add: g_def Let_def n_def)
    have "flow_balance (g q) x = flow_balance q x" for q x
      by (simp add: g_def Let_def flow_inc_demand_def flow_inc_used_def flow_balance_def upd_fd_def unreq_dsts_enqueue_if_not_queued_def trigger_tx_def)
    then have "flow_balance (g (tq_priv s)) = flow_balance (tq_priv s)" by (rule ext)
    then have q: "quiet k s (on_fp g s)" by (rule quiet_on_fp [OF Cons.prems(2)])
    show ?thesis using Cons.IH [OF r quiet_inv [OF q]] quiet_trans [OF q] by blast
  qed
qed

lemma proto_ops_quiet:
  assumes "fastpass_sch_proto_ops c ev s = Some s'" "node_inv (fq_kernel c) s"
  shows "quiet (fq_kernel c) s s'"
proof (cases ev)
  case Handle_reset
  then show ?thesis using assms handle_reset_quiet [OF assms(2), of "fq_now c"] by (auto simp: returns_def)
next
  case (Handle_alloc b ds ts n)
  have q: "quiet (fq_kernel c) s (on_fp (trigger_tx (fq_now c)) s)" by (rule quiet_on_fp [OF assms(2)]) simp
  then show ?thesis using assms(1) Handle_alloc alloc_loop_quiet [OF _ quiet_inv [OF q]] quiet_trans [OF q]
    by (auto simp: fpq_handle_alloc_def Let_def)
next
  case (Handle_areq data n)
  have q: "quiet (fq_kernel c) s (on_fp (trigger_tx (fq_now c)) s)" by (rule quiet_on_fp [OF assms(2)]) simp
  then show ?thesis using assms(1) Handle_areq areq_loop_quiet [OF _ quiet_inv [OF q]] quiet_trans [OF q] by (auto simp: fpq_handle_areq_def)
qed (use assms quiet_priv [OF assms(2)] quiet_on_fp [OF assms(2)] quiet_refl fpq_acks_balance in \<open>auto simp: on_fp_opt_def\<close>)

lemma fpq_conn_quiet:
  assumes "fpq_conn c f s = Some (r, s')" "node_inv (fq_kernel c) s"
  shows "quiet (fq_kernel c) s s'"
proof -
  from assms(1) obtain conn where
    r: "for_each (fastpass_sch_proto_ops c) (drop (length (c_log (fs_conn (tq_priv s)))) (c_log conn)) (on_fp (fs_conn_update (\<lambda>_. conn)) s) = Some s'"
    by (auto simp: fpq_conn_def Let_def bind_eq_Some_conv)
  have q: "quiet (fq_kernel c) s (on_fp (fs_conn_update (\<lambda>_. conn)) s)" by (rule quiet_on_fp [OF assms(2)]) simp
  show ?thesis by (rule for_each_invariant [OF r, where I = "quiet (fq_kernel c) s"]) (use q in \<open>auto intro: quiet_trans proto_ops_quiet quiet_inv\<close>)
qed

subsection \<open>Requests\<close>

lemma dequeue_fewer: "unreq_dsts_dequeue_and_get q = Some (d, q') \<Longrightarrow> unat (n_unreq_dsts q') < unat (n_unreq_dsts q)"
proof -
  assume "unreq_dsts_dequeue_and_get q = Some (d, q')"
  then have "fs_unreq_dsts_head q \<noteq> fs_unreq_dsts_tail q" "n_unreq_dsts q' = fs_unreq_dsts_tail q - (fs_unreq_dsts_head q + 1)"
    by (auto simp: unreq_dsts_dequeue_and_get_def Let_def n_unreq_dsts_def upd_fd_def split: if_splits)
  then show ?thesis using unat_pred_diff [of "fs_unreq_dsts_head q" "fs_unreq_dsts_tail q"]
    by (simp add: n_unreq_dsts_def unat_gt_0)
qed

text \<open>The loop ends in every state.\<close>

lemma request_loop_returns: "returns (request_loop q out) (\<lambda>(out', q'). flow_balance q' = flow_balance q \<and> length out' \<le> max (length out) FASTPASS_PKT_MAX_AREQ)"
proof (induction "unat (n_unreq_dsts q)" arbitrary: q out rule: less_induct)
  case less
  note unf = request_loop.simps [of q out]
  show ?case
  proof (cases "length out < FASTPASS_PKT_MAX_AREQ \<and> unreq_dsts_dequeue_and_get q \<noteq> None")
    case True
    then obtain d q1 where dq: "unreq_dsts_dequeue_and_get q = Some (d, q1)" by auto
    note f = dequeue_fewer [OF dq]
    have b: "flow_balance q1 = flow_balance q" using dq
      by (auto simp: unreq_dsts_dequeue_and_get_def Let_def flow_balance_def fun_eq_iff upd_fd_def split: if_splits)
    let ?r = "min (fd_demand_tslots (fs_dsts q1 d)) (fd_acked_tslots (fs_dsts q1 d) + FASTPASS_REQUEST_WINDOW_SIZE - 1)"
    let ?q2 = "fpq_count fc_queued_flow_already_acked_update q1"
    let ?q3 = "upd_fd d (fd_requested_tslots_update (\<lambda>_. ?r)) (q1\<lparr>fs_requested_tslots := fs_requested_tslots q1 + (?r - fd_requested_tslots (fs_dsts q1 d))\<rparr>)"
    have n: "n_unreq_dsts ?q2 = n_unreq_dsts q1" "n_unreq_dsts ?q3 = n_unreq_dsts q1" by (simp_all add: n_unreq_dsts_def fpq_count_def upd_fd_def)
    have b3: "flow_balance ?q3 = flow_balance q1" by (simp add: flow_balance_def fun_eq_iff upd_fd_def)
    show ?thesis
    proof (cases "?r \<le> fd_acked_tslots (fs_dsts q1 d)")
      case acked: True
      have "request_loop q out = request_loop ?q2 out" using unf True dq acked by (simp add: Let_def)
      then show ?thesis using less [of ?q2 out] f n(1) b by simp
    next
      case False
      let ?o = "out @ [\<lparr>areq_src_dst_key = of_nat d, areq_tslots = ?r\<rparr>]"
      have "request_loop q out = request_loop ?q3 ?o" using unf True dq False by (simp add: Let_def)
      then show ?thesis using less [of ?q3 ?o] f n(2) b b3 True by (auto elim!: returns_mono)
    qed
  next
    case False
    then have "request_loop q out = Some (out, q)" using unf by (cases "unreq_dsts_dequeue_and_get q") auto
    then show ?thesis by simp
  qed
qed

lemma send_request_quiet:
  assumes "send_request c pd s = Some (r, s')" "node_inv (fq_kernel c) s"
  shows "quiet (fq_kernel c) s s'"
proof (cases "pd = None \<or> fs_is_destroyed (tq_priv s)")
  case True
  then show ?thesis using assms quiet_refl quiet_on_fp [OF assms(2)] by (auto simp: send_request_def split: option.splits)
next
  case False
  then obtain pd0 s1 out q1 pd1 s2 where
    a: "fpq_conn c (\<lambda>conn. map_option (Pair ()) (fpproto_prepare_to_send conn)) s = Some ((), s1)" and
    b: "request_loop (tq_priv s1) [] = Some (out, q1)" and
    e: "fpq_conn c (\<lambda>conn. map_option (\<lambda>(conn, pd). (pd, conn)) (fpproto_commit_packet conn pd0 (fq_now c)))
              (s1\<lparr>tq_priv := if out = [] then fpq_count fc_request_with_empty_flowqueue_update q1 else q1\<rparr>) = Some (pd1, s2)" and
    r: "s' = s2 \<or> s' = on_fp (trigger_tx (fq_now c)) s2"
    using assms(1) by (auto simp: send_request_def Let_def bind_eq_Some_conv split: option.splits if_splits)
  let ?s = "s1\<lparr>tq_priv := if out = [] then fpq_count fc_request_with_empty_flowqueue_update q1 else q1\<rparr>"
  note q1 = fpq_conn_quiet [OF a assms(2)]
  have "flow_balance q1 = flow_balance (tq_priv s1)" using request_loop_returns [of "tq_priv s1" "[]"] b by (simp add: returns_def)
  then have q2: "quiet (fq_kernel c) s1 ?s" by (intro quiet_priv [OF quiet_inv [OF q1]]) simp
  note q3 = fpq_conn_quiet [OF e quiet_inv [OF q2]]
  have "quiet (fq_kernel c) s2 s'" using r quiet_refl [OF quiet_inv [OF q3]] quiet_on_fp [OF quiet_inv [OF q3]] by auto
  then show ?thesis using q1 q2 q3 quiet_trans by blast
qed

lemma tasklets_quiet:
  assumes "node_inv (fq_kernel c) s"
  shows "maintenance_tasklet_func c pd s = Some (r, s') \<Longrightarrow> quiet (fq_kernel c) s s'"
    "retrans_tasklet_func c s = Some s' \<Longrightarrow> quiet (fq_kernel c) s s'"
    "ctrl_rcv_handler c addr pkt now' s = Some s' \<Longrightarrow> quiet (fq_kernel c) s s'"
proof -
  have q: "quiet (fq_kernel c) s (on_fp (fs_request_pacer_update pacer_reset) s)" by (rule quiet_on_fp [OF assms]) simp
  show "maintenance_tasklet_func c pd s = Some (r, s') \<Longrightarrow> quiet (fq_kernel c) s s'"
    using send_request_quiet [OF _ quiet_inv [OF q]] quiet_trans [OF q] quiet_refl [OF assms]
    by (auto simp: maintenance_tasklet_func_def Let_def split: if_splits)
  show "retrans_tasklet_func c s = Some s' \<Longrightarrow> quiet (fq_kernel c) s s'"
    using fpq_conn_quiet [OF _ assms] quiet_refl [OF assms] by (auto simp: retrans_tasklet_func_def split: if_splits)
  assume "ctrl_rcv_handler c addr pkt now' s = Some s'"
  then consider "s' = s" | ret s1 where "fpq_conn c (\<lambda>conn. fpproto_handle_rx_packet (fq_cfg c) addr conn pkt (fq_now_real c) now') s = Some (ret, s1)"
      "s' = s1 \<or> (\<exists>ok s2. fpq_conn c (\<lambda>conn. fpproto_perform_rx_callbacks (fq_cfg c) conn pkt) s1 = Some (ok, s2)
         \<and> (s' = s2 \<or> (\<exists>in_seq. s' = on_fp (\<lambda>q. q\<lparr>fs_conn := fpproto_successful_rx (fs_conn q) in_seq\<rparr>) s2)))"
    by (auto simp: ctrl_rcv_handler_def bind_eq_Some_conv split: if_splits option.splits) (blast, metis)
  then show "quiet (fq_kernel c) s s'"
  proof cases
    case 2
    note q1 = fpq_conn_quiet [OF 2(1) assms]
    have set: "quiet (fq_kernel c) x (on_fp (\<lambda>q. q\<lparr>fs_conn := g q\<rparr>) x)" if "node_inv (fq_kernel c) x" for g x
      by (rule quiet_on_fp [OF that]) (simp add: flow_balance_def fun_eq_iff)
    from 2(2) show ?thesis
    proof (elim disjE exE conjE)
      fix ok s2 in_seq
      assume r: "fpq_conn c (\<lambda>conn. fpproto_perform_rx_callbacks (fq_cfg c) conn pkt) s1 = Some (ok, s2)"
        "s' = on_fp (\<lambda>q. q\<lparr>fs_conn := fpproto_successful_rx (fs_conn q) in_seq\<rparr>) s2"
      note q2 = fpq_conn_quiet [OF r(1) quiet_inv [OF q1]]
      show ?thesis unfolding r(2) by (rule quiet_trans [OF quiet_trans [OF q1 q2] set [OF quiet_inv [OF q2]]])
    next
      fix ok s2
      assume r: "fpq_conn c (\<lambda>conn. fpproto_perform_rx_callbacks (fq_cfg c) conn pkt) s1 = Some (ok, s2)" "s' = s2"
      show ?thesis unfolding r(2) by (rule quiet_trans [OF q1 fpq_conn_quiet [OF r(1) quiet_inv [OF q1]]])
    qed (simp add: q1)
  qed (simp add: quiet_refl [OF assms])
qed

subsection \<open>Packets\<close>

lemma fpq_add_timeslot_ok:
  assumes "unat key < 64"
  shows "\<exists>q'. fpq_add_timeslot now key skb q = Some q'
    \<and> flow_balance q' = (flow_balance q)(unat key := (fst (flow_balance q (unat key)), snd (flow_balance q (unat key)) + 1))"
proof -
  have "unat (ucast key :: u32) = unat key" using assms by (simp add: unsigned_ucast_eq unsigned_take_bit_eq take_bit_nat_eq_self)
  then have "get_dst (ucast key) = Some (unat key)" using assms by (simp add: get_dst_def MAX_FLOWS_256)
  then show ?thesis
    by (auto simp: fpq_add_timeslot_def flow_inc_demand_def Let_def fun_eq_iff flow_balance_def upd_fd_def unreq_dsts_enqueue_if_not_queued_def trigger_tx_def)
qed

text \<open>A data packet that leaves the enqueue queue goes to the end of its flow.\<close>

lemma enqueue_single_skb_node:
  assumes k: "kernel_ok k" and inv: "node_inv k s" and data: "is_data skb" and room: "length (slots k s (flow_key skb)) + 1 < 2 ^ 64"
  defines "key \<equiv> flow_key skb"
  shows "returns (enqueue_single_skb k (fastpass_tsq_ops k now) True True skb s) (\<lambda>s'. node_inv k s'
    \<and> other_queues s' = other_queues s \<and> tq_prequeue s' = tq_prequeue s
    \<and> (\<forall>x. concat (slots k s' x) = concat (slots k s x) @ (if x = key then [skb] else []))
    \<and> (\<forall>x. length (slots k s' x) \<le> length (slots k s x) + 1))"
proof -
  have ts: "tsq_inv k s" and c: "counts_ok (slots k s) (tq_priv s)" using inv by (simp_all add: node_inv_def)
  have kl: "unat key < 64" by (simp add: key_def flow_key_less)
  then have d: "unat key < MAX_FLOWS" by (simp add: MAX_FLOWS_256)
  from fpq_add_timeslot_ok [OF kl, of now skb "tq_priv s"] obtain q1 where
    add: "op_add_timeslot (fastpass_tsq_ops k now) key skb (tq_priv s) = Some q1" and
    b1: "flow_balance q1 = (flow_balance (tq_priv s))(unat key := (fst (flow_balance (tq_priv s) (unat key)), snd (flow_balance (tq_priv s) (unat key)) + 1))"
    by (auto simp: fastpass_tsq_ops_def)
  from enqueue_single_skb_ok [OF k ts add [unfolded key_def]] obtain s' where
    run: "enqueue_single_skb k (fastpass_tsq_ops k now) True True skb s = Some s'" and
    s': "tsq_inv k s'" "slots k s' = (slots k s)(key := put_packet (joins k s skb) skb (slots k s key))" "frame s s'"
      "tq_priv s' = (if joins k s skb then tq_priv s else q1)" "joins k s skb \<longrightarrow> slots k s key \<noteq> []"
    unfolding key_def by blast
  have ss: "concat (put_packet (joins k s skb) skb (slots k s key)) = concat (slots k s key) @ [skb]"
    "length (put_packet (joins k s skb) skb (slots k s key)) = (if joins k s skb then length (slots k s key) else Suc (length (slots k s key)))"
    using s'(5) by (simp_all add: concat_put_packet length_put_packet)
  have bd: "flow_balance (tq_priv s) (unat key) = (0, of_nat (length (slots k s key)))" using c d by (auto simp: counts_ok_def)
  have "counts_ok ((slots k s)(of_nat (unat key) := put_packet (joins k s skb) skb (slots k s key))) (tq_priv s')"
  proof (rule counts_ok_change [OF c d])
    show "flow_balance (tq_priv s') = (flow_balance (tq_priv s))(unat key := (0, of_nat (length (put_packet (joins k s skb) skb (slots k s key)))))"
      using bd unfolding ss(2) s'(4) by (auto simp: fun_eq_iff b1)
    show "length (put_packet (joins k s skb) skb (slots k s key)) < 2 ^ 64" using room [folded key_def] unfolding ss(2) by simp
  qed
  then have c': "counts_ok (slots k s') (tq_priv s')" by (simp add: s'(2))
  have cc: "concat (slots k s' x) = concat (slots k s x) @ (if x = key then [skb] else [])" for x by (simp add: s'(2) ss(1))
  have fr: "other_queues s' = other_queues s" "tq_prequeue s' = tq_prequeue s" using s'(3) by (simp_all add: frame_def side_queues_def)
  have "\<forall>x. \<forall>p \<in> set (concat (slots k s' x)). flow_key p = x \<and> is_data p"
    unfolding cc using inv data by (auto simp: node_inv_def key_def)
  then have "node_inv k s'" using inv s'(1) c' fr unfolding node_inv_def by simp
  then show ?thesis using run cc fr ss(2) by (auto simp: s'(2))
qed

text \<open>The tasklet sorts all waiting packets into their flows, and none overtakes another one of its flow.\<close>

lemma enqueue_all_quiet:
  assumes k: "kernel_ok k"
  shows "node_inv k s \<Longrightarrow> tq_enqueue_skb_q s = [] \<Longrightarrow> list_all is_data skbs \<Longrightarrow> \<forall>x. length (slots k s x) + length skbs < 2 ^ 64 \<Longrightarrow>
    returns (for_each (\<lambda>(i, skb). enqueue_single_skb k (fastpass_tsq_ops k now) True True skb) (enumerate n skbs) s)
      (\<lambda>s'. node_inv k s' \<and> other_queues s' = other_queues s \<and> tq_prequeue s' = tq_prequeue s
        \<and> (\<forall>x. concat (slots k s' x) = concat (slots k s x) @ filter (\<lambda>p. flow_key p = x) skbs))"
proof (induction skbs arbitrary: s n)
  case (Cons skb skbs)
  have "length (slots k s (flow_key skb)) + 1 < 2 ^ 64" using Cons.prems(4) [THEN spec, of "flow_key skb"] by simp
  from enqueue_single_skb_node [OF k Cons.prems(1) _ this, of now] Cons.prems(3) obtain s1 where
    s1: "enqueue_single_skb k (fastpass_tsq_ops k now) True True skb s = Some s1" "node_inv k s1" "other_queues s1 = other_queues s" "tq_prequeue s1 = tq_prequeue s"
      "\<And>x. concat (slots k s1 x) = concat (slots k s x) @ (if x = flow_key skb then [skb] else [])" "\<And>x. length (slots k s1 x) \<le> length (slots k s x) + 1"
    by (auto elim!: returnsE)
  have "length (slots k s1 x) + length skbs < 2 ^ 64" for x using Cons.prems(4) [THEN spec, of x] s1(6) [of x] by simp
  then have "returns (for_each (\<lambda>(i, skb). enqueue_single_skb k (fastpass_tsq_ops k now) True True skb) (enumerate (Suc n) skbs) s1)
      (\<lambda>s'. node_inv k s' \<and> other_queues s' = other_queues s1 \<and> tq_prequeue s' = tq_prequeue s1
        \<and> (\<forall>x. concat (slots k s' x) = concat (slots k s1 x) @ filter (\<lambda>p. flow_key p = x) skbs))"
    using Cons.prems(2,3) s1(3) by (intro Cons.IH [OF s1(2)]) auto
  then show ?case using s1(1,3,4,5) by (auto simp: returns_def)
qed simp

lemma enqueue_tasklet_quiet:
  assumes k: "kernel_ok k" and inv: "node_inv k s" and room: "\<forall>x. length (slots k s x) + length (tq_enqueue_skb_q s) < 2 ^ 64"
  shows "returns (enqueue_tasklet_func k (fastpass_tsq_ops k now) (\<lambda>_. (True, True)) s)
    (\<lambda>s'. quiet k s s' \<and> tq_prequeue s' = tq_prequeue s \<and> tq_enqueue_skb_q s' = [])"
proof -
  let ?s = "s\<lparr>tq_enqueue_skb_q := []\<rparr>"
  have f: "same_flows s ?s" by (simp add: same_flows_def)
  have sl: "slots k ?s = slots k s" "tsq_inv k ?s = tsq_inv k s" using same_flowsD(2) [OF f] tsq_inv_same [OF f] by simp_all
  then have "node_inv k ?s" using inv by (simp add: node_inv_def)
  then have "returns (for_each (\<lambda>(i, skb). enqueue_single_skb k (fastpass_tsq_ops k now) True True skb) (enumerate 0 (tq_enqueue_skb_q s)) ?s)
      (\<lambda>s'. node_inv k s' \<and> other_queues s' = other_queues ?s \<and> tq_prequeue s' = tq_prequeue ?s
        \<and> (\<forall>x. concat (slots k s' x) = concat (slots k ?s x) @ filter (\<lambda>p. flow_key p = x) (tq_enqueue_skb_q s)))"
    using inv room sl by (intro enqueue_all_quiet [OF k]) (auto simp: node_inv_def list_all_iff)
  then show ?thesis
    by (auto simp: enqueue_tasklet_func_def Let_def quiet_def in_node_def tsq.in_service_def sl fun_eq_iff elim!: returns_mono)
qed

text \<open>A packet enters the node behind the others of its flow, unless it is dropped or bypasses the flows.\<close>

lemma tsq_enqueue_ok:
  assumes inv: "node_inv k s" and run: "tsq_enqueue skb s = (r, s')"
  shows "node_inv k s' \<and> in_node k s' x = in_node k s x @ (if r = NET_XMIT_SUCCESS \<and> is_data skb \<and> flow_key skb = x then [skb] else [])"
proof -
  have same: "node_inv k q \<and> in_node k q x = in_node k s x" if "same_flows s q" "tq_hash_tbl_lock q = tq_hash_tbl_lock s" "tq_priv q = tq_priv s"
    "tq_prequeue q = tq_prequeue s" "tq_enqueue_skb_q q = tq_enqueue_skb_q s" "tq_dropqueue q = tq_dropqueue s"
    "\<forall>p \<in> set (tq_hi_prio q) \<union> set (tq_reg_prio q). \<not> is_data p" for q
    using that inv same_flowsD(2) [OF that(1), of k] tsq_inv_same [OF that(1,2)] by (simp add: node_inv_def in_node_def tsq.in_service_def)
  obtain p q where c: "classify_hi_prio skb s = (p, q)" by (cases "classify_hi_prio skb s")
  note cn = classify_hi_prio_None [of skb s, unfolded c]
  show ?thesis
  proof (cases p)
    case None
    then have d: "is_data skb" "q = s" using cn by (auto split: if_splits)
    show ?thesis
    proof (cases "tq_limit s \<le> tq_qlen s")
      case True
      then have "r = NET_XMIT_DROP" "s' = tsq_count tt_above_plimit_update s" using run c None d(2) by (auto simp: tsq_enqueue_def)
      moreover have "\<forall>p \<in> set (tq_hi_prio s) \<union> set (tq_reg_prio s). \<not> is_data p" using inv unfolding node_inv_def by blast
      then have "node_inv k (tsq_count tt_above_plimit_update s) \<and> in_node k (tsq_count tt_above_plimit_update s) x = in_node k s x"
        by (intro same) simp_all
      ultimately show ?thesis by simp
    next
      case False
      then have r: "r = NET_XMIT_SUCCESS" "s' = (tsq_count tt_enqueued_update (s\<lparr>tq_enqueue_skb_q := tq_enqueue_skb_q s @ [skb]\<rparr>))\<lparr>tq_qlen := tq_qlen s + 1\<rparr>"
        using run c None d(2) by (auto simp: tsq_enqueue_def Let_def skb_q_enqueue_def)
      have f: "same_flows s s'" "tq_hash_tbl_lock s' = tq_hash_tbl_lock s" by (simp_all add: r(2) same_flows_def)
      have e: "tq_priv s' = tq_priv s" "tq_prequeue s' = tq_prequeue s" "tq_enqueue_skb_q s' = tq_enqueue_skb_q s @ [skb]" "tq_dropqueue s' = tq_dropqueue s"
        "tq_hi_prio s' = tq_hi_prio s" "tq_reg_prio s' = tq_reg_prio s" by (simp_all add: r(2))
      show ?thesis using inv d(1) r(1) same_flowsD(2) [OF f(1), of k] tsq_inv_same [OF f]
        by (simp add: node_inv_def in_node_def tsq.in_service_def e ball_Un)
    qed
  next
    case (Some pr)
    then have nd: "\<not> is_data skb" using cn by (auto split: if_splits)
    have fr: "same_flows s q" "tq_hash_tbl_lock q = tq_hash_tbl_lock s" "tq_priv q = tq_priv s" "side_queues q = side_queues s"
      using classify_hi_prio_frame [of s skb] by (simp_all add: c)
    define q1 where "q1 = (case pr of Reg_prio \<Rightarrow> q\<lparr>tq_reg_prio := tq_reg_prio q @ [skb]\<rparr> | Hi_prio \<Rightarrow> q\<lparr>tq_hi_prio := tq_hi_prio q @ [skb]\<rparr>)"
    have s': "s' = (tsq_count tt_enqueued_hi_pri_update q1)\<lparr>tq_qlen := tq_qlen q1 + 1\<rparr>"
      using run by (cases pr) (auto simp: tsq_enqueue_def c Some Let_def skb_q_enqueue_def q1_def)
    have q: "tq_hi_prio q = tq_hi_prio s" "tq_reg_prio q = tq_reg_prio s" "tq_enqueue_skb_q q = tq_enqueue_skb_q s" "tq_prequeue q = tq_prequeue s" "tq_dropqueue q = tq_dropqueue s"
      using fr(4) by (simp_all add: side_queues_def)
    have "\<forall>p \<in> set (tq_hi_prio s') \<union> set (tq_reg_prio s'). \<not> is_data p" using inv nd by (cases pr) (simp_all add: s' q1_def q node_inv_def ball_Un)
    moreover have "same_flows s s'" using fr(1) by (cases pr) (simp_all add: s' q1_def same_flows_def)
    moreover have "tq_hash_tbl_lock s' = tq_hash_tbl_lock s" "tq_priv s' = tq_priv s" "tq_prequeue s' = tq_prequeue s" "tq_enqueue_skb_q s' = tq_enqueue_skb_q s"
      "tq_dropqueue s' = tq_dropqueue s" by (cases pr; simp add: s' q1_def q fr)+
    ultimately show ?thesis using same [of s'] nd by simp
  qed
qed

text \<open>What leaves the node is a packet that bypasses the flows or the oldest packet of its flow.\<close>

lemma tsq_dequeue_ok:
  assumes inv: "node_inv k s" and run: "tsq_dequeue s = (r, dropped, s')"
  shows "node_inv k s' \<and> dropped = []
    \<and> in_node k s x = (case r of Some skb \<Rightarrow> if is_data skb \<and> flow_key skb = x then [skb] else [] | None \<Rightarrow> []) @ in_node k s' x"
proof -
  have facts: "tq_dropqueue s = []" "\<forall>p \<in> set (tq_hi_prio s). \<not> is_data p" "\<forall>p \<in> set (tq_reg_prio s). \<not> is_data p" "\<forall>p \<in> set (tq_prequeue s). is_data p"
    using inv by (simp_all add: node_inv_def)
  have upd: "node_inv k q" "slots k q = slots k s" if "same_flows s q" "tq_hash_tbl_lock q = tq_hash_tbl_lock s" "tq_priv q = tq_priv s"
    "tq_enqueue_skb_q q = tq_enqueue_skb_q s" "tq_dropqueue q = tq_dropqueue s" "set (tq_prequeue q) \<subseteq> set (tq_prequeue s)"
    "set (tq_hi_prio q) \<subseteq> set (tq_hi_prio s)" "set (tq_reg_prio q) \<subseteq> set (tq_reg_prio s)" for q
  proof -
    show "slots k q = slots k s" by (rule same_flowsD(2) [OF that(1)])
    then show "node_inv k q" using that inv tsq_inv_same [OF that(1,2)] by (auto simp: node_inv_def)
  qed
  let ?got = "\<lambda>q. (tsq_count tt_dequeued_update q)\<lparr>tq_qlen := tq_qlen q - 1\<rparr>"
  consider skb rest where "tq_hi_prio s = skb # rest" "r = Some skb" "dropped = []" "s' = ?got (s\<lparr>tq_hi_prio := rest\<rparr>)"
    | skb rest where "tq_reg_prio s = skb # rest" "r = Some skb" "dropped = []" "s' = ?got (s\<lparr>tq_reg_prio := rest\<rparr>)"
    | skb rest where "tq_prequeue s = skb # rest" "r = Some skb" "dropped = []" "s' = ?got (s\<lparr>tq_prequeue := rest\<rparr>)"
    | "r = None" "dropped = []" "s' = s"
    using run facts(1) by (auto simp: tsq_dequeue_def skb_q_dequeue_def Let_def split: list.splits)
  then show ?thesis
  proof cases
    case (1 skb rest)
    note u = upd [of s', unfolded 1(4)]
    show ?thesis using u 1(1-3) facts(2) by (simp add: 1(4) in_node_def tsq.in_service_def same_flows_def subset_iff)
  next
    case (2 skb rest)
    note u = upd [of s', unfolded 2(4)]
    show ?thesis using u 2(1-3) facts(3) by (simp add: 2(4) in_node_def tsq.in_service_def same_flows_def subset_iff)
  next
    case (3 skb rest)
    note u = upd [of s', unfolded 3(4)]
    show ?thesis using u 3(1-3) facts(4) by (simp add: 3(4) in_node_def tsq.in_service_def same_flows_def subset_iff)
  qed (use inv in simp)
qed

end
