(* ===== verification/Tsq_Admin.thy ===== *)
theory Tsq_Admin
  imports Tsq_Inv
begin

text \<open>
  Configuration and clean-up of the time slot queueing discipline, the rest of \<^verbatim>\<open>src/src/kernel-mod/sch_timeslot.c\<close>: the reset, the
  hash table that grows and shrinks, garbage collection, the options of the discipline and its start. A netlink message is the list of the
  attributes that it has; a code of an error is a value of \<open>tc_err\<close>, and no error is \<open>None\<close>. A division by zero and a shift by the width of a word
  or more are the result \<open>None\<close>.
\<close>

section \<open>Reset\<close>

partial_function (option) clear_tree :: "kernel \<Rightarrow> u64 tree \<Rightarrow> u64 tree option" where
  "clear_tree k root = (case k_first k root of None \<Rightarrow> Some root | Some p \<Rightarrow> clear_tree k (k_erase k p root))"

definition clear_cell :: "kernel \<Rightarrow> nat \<Rightarrow> 'p tsq_sched_data \<Rightarrow> 'p tsq_sched_data option" where
  "clear_cell k idx q = do {
     tbl \<leftarrow> tq_dst_hash_tbl q;
     root \<leftarrow> clear_tree k (tbl idx);
     Some (q\<lparr>tq_dst_hash_tbl := Some (tbl(idx := root))\<rparr>)
   }"

text \<open>The length of the queue that the kernel keeps and the counters of the client stay as they are.\<close>

definition tsq_tc_reset :: "kernel \<Rightarrow> 'p tsq_sched_data \<Rightarrow> 'p tsq_sched_data option" where
  "tsq_tc_reset k q = do {
     let q = q\<lparr>tq_reg_prio := [], tq_hi_prio := [], tq_enqueue_skb_q := [], tq_prequeue := [], tq_dropqueue := []\<rparr>;
     q \<leftarrow> hash_tbl_lock q;
     q \<leftarrow> for_each (clear_cell k) [0 ..< 2 ^ tq_hash_tbl_log q] q;
     let q = hash_tbl_unlock q;
     Some (q\<lparr>tq_flows := 0, tq_inactive_flows := 0\<rparr>)
   }"

section \<open>Resizing\<close>

text \<open>The flows of one cell move to the new table; the assertion is about the nodes on the way down.\<close>

partial_function (option) rehash_cell ::
    "kernel \<Rightarrow> nat \<Rightarrow> u64 tree \<Rightarrow> (nat \<Rightarrow> u64 tree) \<Rightarrow> (nat \<Rightarrow> u64 tree) option" where
  "rehash_cell k new_log oroot new_array =
     (case k_first k oroot of
        None \<Rightarrow> Some new_array
      | Some key \<Rightarrow> do {
          let idx = bucket k new_log key;
          bug_on (rb_search key (new_array idx));
          rehash_cell k new_log (k_erase k key oroot)
            (new_array(idx := k_insert_color k (rb_link_node key (new_array idx))))
        })"

definition rehash_dst_table ::
    "kernel \<Rightarrow> (nat \<Rightarrow> u64 tree) \<Rightarrow> nat \<Rightarrow> (nat \<Rightarrow> u64 tree) \<Rightarrow> nat \<Rightarrow> 'p tsq_sched_data \<Rightarrow> ((nat \<Rightarrow> u64 tree) \<times> 'p tsq_sched_data) option" where
  "rehash_dst_table k old_array old_log new_array new_log q = do {
     q \<leftarrow> hash_tbl_lock q;
     new_array \<leftarrow> for_each (\<lambda>idx. rehash_cell k new_log (old_array idx)) [0 ..< 2 ^ old_log] new_array;
     Some (new_array, hash_tbl_unlock q)
   }"

datatype tc_err = EINVAL | ENOMEM | ENOSYS | EPARSE | ENEWQDISC

text \<open>\<open>mem\<close> tells whether the new table is allocated.\<close>

definition tsq_tc_resize :: "kernel \<Rightarrow> bool \<Rightarrow> nat \<Rightarrow> 'p tsq_sched_data \<Rightarrow> (tc_err option \<times> 'p tsq_sched_data) option" where
  "tsq_tc_resize k mem log q =
     (if tq_dst_hash_tbl q \<noteq> None \<and> log = tq_hash_tbl_log q then Some (None, q)
      else if \<not> mem then Some (Some ENOMEM, q)
      else do {
        (array, q) \<leftarrow> (case tq_dst_hash_tbl q of
            Some tbl \<Rightarrow> rehash_dst_table k tbl (tq_hash_tbl_log q) (\<lambda>_. Leaf) log q
          | None \<Rightarrow> Some (\<lambda>_. Leaf, q));
        Some (None, q\<lparr>tq_dst_hash_tbl := Some array, tq_hash_tbl_log := log\<rparr>)
      })"

section \<open>Garbage collection\<close>

partial_function (option) gc_loop :: "kernel \<Rightarrow> nat \<Rightarrow> u64 option \<Rightarrow> 'p tsq_sched_data \<Rightarrow> 'p tsq_sched_data option" where
  "gc_loop k idx nxt q =
     (case nxt of
        None \<Rightarrow> Some q
      | Some cur \<Rightarrow> do {
          tbl \<leftarrow> tq_dst_hash_tbl q;
          let nxt = k_next k cur (tbl idx);
          if td_skb_qs (tq_dsts q cur) = []
          then gc_loop k idx nxt (tsq_count tt_gc_flows_update (q\<lparr>tq_dst_hash_tbl := Some (tbl(idx := k_erase k cur (tbl idx)))\<rparr>))
          else gc_loop k idx nxt q
        })"

definition gc_cell :: "kernel \<Rightarrow> nat \<Rightarrow> 'p tsq_sched_data \<Rightarrow> 'p tsq_sched_data option" where
  "gc_cell k idx q = do { tbl \<leftarrow> tq_dst_hash_tbl q; gc_loop k idx (k_first k (tbl idx)) q }"

definition tsq_garbage_collect :: "kernel \<Rightarrow> u64 \<Rightarrow> 'p tsq_sched_data \<Rightarrow> 'p tsq_sched_data option" where
  "tsq_garbage_collect k now q = do {
     let base_idx = bucket k (tq_hash_tbl_log q) now;
     q \<leftarrow> hash_tbl_lock q;
     q \<leftarrow> for_each (\<lambda>idx. gc_cell k ((idx + base_idx) mod 2 ^ tq_hash_tbl_log q)) [0 ..< 2 ^ tq_hash_tbl_log q] q;
     Some (hash_tbl_unlock q)
   }"

text \<open>An unknown flow leaves the table locked here too; what is printed are the identifiers.\<close>

definition tsq_print_queued_packets :: "kernel \<Rightarrow> u64 \<Rightarrow> 'p tsq_sched_data \<Rightarrow> (u16 list \<times> 'p tsq_sched_data) option" where
  "tsq_print_queued_packets k src_dst_key q = do {
     q \<leftarrow> hash_tbl_lock q;
     (dst, q) \<leftarrow> dst_lookup k True src_dst_key False q;
     case dst of None \<Rightarrow> Some ([], q)
     | Some key \<Rightarrow> Some (map ts_id (td_skb_qs (tq_dsts q key)), hash_tbl_unlock q)
   }"

section \<open>Options\<close>

record tc_opts =
  tb_plimit :: "u32 option"
  tb_buckets_log :: "u32 option"
  tb_data_rate :: "u32 option"
  tb_timeslot_nsec :: "u32 option"
  tb_timeslot_mul :: "u32 option"
  tb_timeslot_shift :: "u32 option"
  tb_miss_threshold :: "u32 option"
  tb_dev_backlog_ns :: "u32 option"
  tb_max_preload :: "u32 option"
  tb_update_timeslot_timer_ns :: "u32 option"

datatype nlattr = No_opt | Bad_opt | Opts tc_opts

text \<open>The length of a time slot and the current time slot, from the multiplier and the shift.\<close>

definition set_tslot_len :: "u64 \<Rightarrow> u32 \<Rightarrow> u32 \<Rightarrow> 'p tsq_sched_data \<Rightarrow> 'p tsq_sched_data option" where
  "set_tslot_len now_real mul shift q = do {
     bug_on (32 \<le> shift);
     bug_on (mul = 0);
     Some (q\<lparr>tq_tslot_mul := mul, tq_tslot_shift := shift, tq_tslot_len_approx := push_bit (unat shift) 1 div mul,
             tq_current_timeslot := drop_bit (unat shift) (now_real * ucast mul)\<rparr>)
   }"

text \<open>The options that are meant to be refused.\<close>

definition tc_refused :: "tc_opts \<Rightarrow> bool" where
  "tc_refused tb \<longleftrightarrow> tb_plimit tb = Some 0 \<or> (case tb_buckets_log tb of Some n \<Rightarrow> \<not> (1 \<le> n \<and> n \<le> 18) | None \<Rightarrow> False) \<or> tb_data_rate tb = Some 0
     \<or> tb_timeslot_nsec tb \<noteq> None \<or> tb_timeslot_mul tb = Some 0 \<or> tb_miss_threshold tb \<noteq> None \<or> tb_dev_backlog_ns tb \<noteq> None
     \<or> tb_max_preload tb \<noteq> None \<or> tb_update_timeslot_timer_ns tb \<noteq> None"

text \<open>The error that \<open>tc_refused\<close> makes of \<open>err\<close> is overwritten by the result of \<open>tsq_tc_resize\<close>.\<close>

definition tsq_tc_change :: "kernel \<Rightarrow> bool \<Rightarrow> u64 \<Rightarrow> nlattr \<Rightarrow> 'p tsq_sched_data \<Rightarrow> (tc_err option \<times> 'p tsq_sched_data) option" where
  "tsq_tc_change k mem now_real opt q =
     (case opt of
        No_opt \<Rightarrow> Some (Some EINVAL, q)
      | Bad_opt \<Rightarrow> Some (Some EPARSE, q)
      | Opts tb \<Rightarrow> do {
          let q = (case tb_plimit tb of Some nval \<Rightarrow> if 0 < nval then q\<lparr>tq_limit := nval\<rparr> else q | None \<Rightarrow> q);
          let fp_log = (case tb_buckets_log tb of Some nval \<Rightarrow> if 1 \<le> nval \<and> nval \<le> 18 then unat nval else tq_hash_tbl_log q
                        | None \<Rightarrow> tq_hash_tbl_log q);
          let q = (case tb_data_rate tb of Some rate \<Rightarrow> if rate = 0 then q else q\<lparr>tq_data_rate := rate\<rparr> | None \<Rightarrow> q);
          let tslot_mul = (case tb_timeslot_mul tb of Some m \<Rightarrow> m | None \<Rightarrow> tq_tslot_mul q);
          let tslot_shift = (case tb_timeslot_shift tb of Some n \<Rightarrow> n | None \<Rightarrow> tq_tslot_shift q);
          let changed_tslot_len = (tb_timeslot_mul tb \<noteq> None \<or> tb_timeslot_shift tb \<noteq> None);
          let err = (if tc_refused tb then Some EINVAL else None);
          (err, q) \<leftarrow> tsq_tc_resize k mem fp_log q;
          if err = None \<and> changed_tslot_len
          then do { q \<leftarrow> set_tslot_len now_real tslot_mul tslot_shift q; Some (err, q) }
          else Some (err, q)
        })"

section \<open>Start and end\<close>

definition tsq_tc_init ::
    "kernel \<Rightarrow> bool \<Rightarrow> bool \<Rightarrow> bool \<Rightarrow> u64 \<Rightarrow> nlattr \<Rightarrow> (u32 \<Rightarrow> u32 \<Rightarrow> 'p \<Rightarrow> (bool \<times> 'p) option) \<Rightarrow> 'p tsq_sched_data
     \<Rightarrow> (tc_err option \<times> 'p tsq_sched_data) option" where
  "tsq_tc_init k proc_ok cleanup_mem mem now_real opt new_qdisc q = do {
     let q = q\<lparr>tq_limit := 10000, tq_hash_tbl_log := 10, tq_data_rate := 125000000, tq_dst_hash_tbl := None,
               tq_enqueue_skb_q := [], tq_reg_prio := [], tq_hi_prio := [], tq_prequeue := [], tq_dropqueue := []\<rparr>;
     q \<leftarrow> set_tslot_len now_real 1 20 q;
     let q = q\<lparr>tq_flows := 0, tq_inactive_flows := 0\<rparr>;
     if \<not> proc_ok then Some (Some ENOSYS, q)
     else if \<not> cleanup_mem then Some (Some ENOMEM, q)
     else do {
       (err, q) \<leftarrow> (if opt = No_opt then tsq_tc_resize k mem (tq_hash_tbl_log q) q else tsq_tc_change k mem now_real opt q);
       if err \<noteq> None then Some (err, q)
       else do {
         (ok, p) \<leftarrow> new_qdisc (tq_tslot_mul q) (tq_tslot_shift q) (tq_priv q);
         let q = q\<lparr>tq_priv := p\<rparr>;
         Some (if ok then (None, q) else (Some ENEWQDISC, q\<lparr>tq_dst_hash_tbl := None\<rparr>))
       }
     }
   }"

text \<open>The table is freed after a grace period.\<close>

definition tsq_tc_destroy :: "kernel \<Rightarrow> ('p \<Rightarrow> 'p option) \<Rightarrow> 'p tsq_sched_data \<Rightarrow> 'p tsq_sched_data option" where
  "tsq_tc_destroy k stop_qdisc q = do {
     p \<leftarrow> stop_qdisc (tq_priv q);
     q \<leftarrow> tsq_tc_reset k (q\<lparr>tq_priv := p\<rparr>);
     Some (q\<lparr>tq_dst_hash_tbl := None\<rparr>)
   }"

section \<open>Tables\<close>

lemma kernel_okD:
  assumes "kernel_ok k"
  shows "inorder (k_insert_color k t) = inorder t" "inorder (k_erase k x t) = remove1 x (inorder t)"
    "k_first k t = (case inorder t of [] \<Rightarrow> None | x # _ \<Rightarrow> Some x)"
    "inorder t = xs @ x # ys \<Longrightarrow> x \<notin> set xs \<Longrightarrow> k_next k x t = (case ys of [] \<Rightarrow> None | y # _ \<Rightarrow> Some y)"
  using assms by (auto simp: kernel_ok_def)

definition keys_of :: "(nat \<Rightarrow> u64 tree) \<Rightarrow> u64 set" where
  "keys_of arr = (\<Union>idx. set (inorder (arr idx)))"

definition arr_ok :: "kernel \<Rightarrow> nat \<Rightarrow> (nat \<Rightarrow> u64 tree) \<Rightarrow> bool" where
  "arr_ok k log arr \<longleftrightarrow> (\<forall>idx. descending (inorder (arr idx)) \<and> (\<forall>x \<in> set (inorder (arr idx)). bucket k log x = idx))"

lemma table_inv_arr: "table_inv k q \<longleftrightarrow> (\<exists>tbl. tq_dst_hash_tbl q = Some tbl \<and> arr_ok k (tq_hash_tbl_log q) tbl)"
  by (auto simp: table_inv_def arr_ok_def split: option.splits)

lemma in_table_arr:
  assumes "tq_dst_hash_tbl q = Some tbl" "arr_ok k (tq_hash_tbl_log q) tbl"
  shows "in_table k q x \<longleftrightarrow> x \<in> keys_of tbl"
proof -
  have "bucket k (tq_hash_tbl_log q) x = i" if "x \<in> set (inorder (tbl i))" for i using assms(2) that unfolding arr_ok_def by blast
  then have "x \<in> set (inorder (tbl (bucket k (tq_hash_tbl_log q) x)))" if "x \<in> keys_of tbl" using that by (auto simp: keys_of_def)
  moreover have "x \<in> keys_of tbl" if "x \<in> set (inorder (tbl i))" for i using that unfolding keys_of_def by blast
  ultimately show ?thesis by (auto simp: in_table_def assms(1) simp del: set_inorder)
qed

lemma bucket_less: "bucket k log key < 2 ^ log"
proof -
  have "unat (drop_bit n (x :: u32)) < 2 ^ (32 - n)" for n x
  proof -
    have "unat (drop_bit n x) = unat x div 2 ^ n" 
      using take_bit_nat_eq_self [OF unsigned_less, of x] by (simp only: unsigned_drop_bit_eq) (simp add: drop_bit_eq_div)
    also have "\<dots> < 2 ^ (32 - n)"
    proof (cases "n \<le> 32")
      case True
      then show ?thesis using unat_u32_less [of x] by (simp add: less_mult_imp_div_less flip: power_add)
    next
      case False
      then have "4294967296 \<le> (2 :: nat) ^ n" using power_increasing [of 32 n "2 :: nat"] by simp
      then have "unat x < 2 ^ n" by (rule less_le_trans [OF unat_u32_less])
      then show ?thesis by simp
    qed
    finally show ?thesis .
  qed
  from this [of "32 - log"] show ?thesis
    unfolding bucket_def by (rule less_le_trans) (rule power_increasing, simp_all)
qed

lemma inorder_Nil: "inorder t = [] \<longleftrightarrow> t = Leaf"
  by (cases t) simp_all

lemma clear_tree_ok: "kernel_ok k \<Longrightarrow> clear_tree k t = Some Leaf"
proof (induction "length (inorder t)" arbitrary: t)
  case 0
  then show ?case using kernel_okD(3) [of k t] by (simp add: clear_tree.simps inorder_Nil)
next
  case (Suc n)
  then obtain x xs where x: "inorder t = x # xs" by (cases "inorder t") simp_all
  then have "inorder (k_erase k x t) = xs" using kernel_okD(2) [OF Suc.prems] by simp
  then have "n = length (inorder (k_erase k x t))" using Suc.hyps(2) x by (simp del: length_inorder)
  then have "clear_tree k (k_erase k x t) = Some Leaf" using Suc.hyps(1) Suc.prems by blast
  then show ?case using kernel_okD(3) [OF Suc.prems, of t] x by (subst clear_tree.simps) simp
qed

text \<open>The reset leaves no packet and no flow.\<close>

lemma tsq_tc_reset_ok:
  assumes k: "kernel_ok k" and inv: "tsq_inv k q"
  shows "returns (tsq_tc_reset k q) (\<lambda>q'. tsq_inv k q' \<and> slots k q' = (\<lambda>_. []) \<and> side_queues q' = ([], [], [], [], []) \<and> tq_priv q' = tq_priv q)"
proof -
  define q1 where "q1 = q\<lparr>tq_reg_prio := [], tq_hi_prio := [], tq_enqueue_skb_q := [], tq_prequeue := [], tq_dropqueue := [], tq_hash_tbl_lock := True\<rparr>"
  obtain tbl where tbl: "tq_dst_hash_tbl q = Some tbl" "arr_ok k (tq_hash_tbl_log q) tbl" using inv by (auto simp: tsq_inv_def table_inv_arr)
  let ?P = "\<lambda>i s. \<exists>t. s = q1\<lparr>tq_dst_hash_tbl := Some t\<rparr> \<and> (\<forall>j < i. t j = Leaf) \<and> (\<forall>j \<ge> i. t j = tbl j)"
  have "returns (for_each (clear_cell k) [0 ..< 2 ^ tq_hash_tbl_log q] q1) (?P (2 ^ tq_hash_tbl_log q))"
  proof (rule for_each_loop)
    show "?P 0 q1" using tbl(1) by (intro exI [of _ tbl]) (simp add: q1_def)
    fix i s assume "?P i s"
    then obtain t where "s = q1\<lparr>tq_dst_hash_tbl := Some t\<rparr>" "\<forall>j < i. t j = Leaf" "\<forall>j \<ge> i. t j = tbl j" by blast
    then show "returns (clear_cell k i s) (?P (Suc i))"
      using clear_tree_ok [OF k] by (auto simp: clear_cell_def less_Suc_eq intro!: exI [of _ "t(i := Leaf)"])
  qed
  then obtain t where r: "for_each (clear_cell k) [0 ..< 2 ^ tq_hash_tbl_log q] q1 = Some (q1\<lparr>tq_dst_hash_tbl := Some t\<rparr>)"
    and t: "\<And>j. j < 2 ^ tq_hash_tbl_log q \<Longrightarrow> t j = Leaf" "\<And>j. j \<ge> 2 ^ tq_hash_tbl_log q \<Longrightarrow> t j = tbl j" by (auto simp: returns_def)
  have "t j = Leaf" for j
  proof (cases "j < 2 ^ tq_hash_tbl_log q")
    case False
    have "x \<notin> set (inorder (tbl j))" for x
      using tbl(2) bucket_less [of k "tq_hash_tbl_log q" x] False unfolding arr_ok_def by metis
    then have "inorder (tbl j) = []" by (cases "inorder (tbl j)") (auto simp del: set_inorder)
    then show ?thesis using t(2) [of j] False by (simp add: inorder_Nil)
  qed (simp add: t)
  then have e: "t = (\<lambda>_. Leaf)" by (rule ext)
  let ?q = "(hash_tbl_unlock (q1\<lparr>tq_dst_hash_tbl := Some t\<rparr>))\<lparr>tq_flows := 0, tq_inactive_flows := 0\<rparr>"
  have "tsq_tc_reset k q = Some ?q"
    using r inv by (simp add: tsq_tc_reset_def hash_tbl_lock_def tsq_inv_def q1_def)
  moreover have "in_table k ?q x = False" for x by (simp add: in_table_def hash_tbl_unlock_def e)
  ultimately show ?thesis
    by (auto simp: tsq_inv_def slots_def table_inv_arr arr_ok_def e side_queues_def hash_tbl_unlock_def q1_def)
qed

section \<open>Rehashing\<close>

lemma arr_ok_insert:
  assumes k: "kernel_ok k" and a: "arr_ok k log arr" and x: "x \<notin> keys_of arr"
  defines "arr' \<equiv> arr(bucket k log x := k_insert_color k (rb_link_node x (arr (bucket k log x))))"
  shows "arr_ok k log arr'" "keys_of arr' = insert x (keys_of arr)" "\<not> rb_search x (arr (bucket k log x))"
proof -
  let ?i = "bucket k log x"
  have d: "descending (inorder (arr i))" "\<And>y. y \<in> set (inorder (arr i)) \<Longrightarrow> bucket k log y = i" for i using a by (auto simp: arr_ok_def)
  have n: "x \<notin> set (inorder (arr ?i))" using x unfolding keys_of_def by blast
  show "\<not> rb_search x (arr ?i)" using n d(1) by (simp add: rb_search_iff)
  have e: "inorder (arr' i) = (if i = ?i then inorder (rb_link_node x (arr ?i)) else inorder (arr i))" for i
    by (simp add: arr'_def kernel_okD(1) [OF k])
  show "arr_ok k log arr'" unfolding arr_ok_def
  proof (intro allI conjI ballI)
    fix i y
    show "descending (inorder (arr' i))" using d(1) rb_link_node_descending [OF d(1) n] by (simp add: e)
    assume "y \<in> set (inorder (arr' i))"
    then show "bucket k log y = i" using d(2) by (auto simp: e set_rb_link_node simp del: set_inorder split: if_splits)
  qed
  show "keys_of arr' = insert x (keys_of arr)"
    by (auto simp: keys_of_def e set_rb_link_node simp del: set_inorder split: if_splits)
qed

lemma rehash_cell_ok:
  assumes k: "kernel_ok k"
  shows "arr_ok k log arr \<Longrightarrow> distinct (inorder t) \<Longrightarrow> set (inorder t) \<inter> keys_of arr = {} \<Longrightarrow>
    returns (rehash_cell k log t arr) (\<lambda>arr'. arr_ok k log arr' \<and> keys_of arr' = keys_of arr \<union> set (inorder t))"
proof (induction "length (inorder t)" arbitrary: t arr)
  case 0
  then have "inorder t = []" by simp
  then show ?case using kernel_okD(3) [OF k, of t] 0 by (subst rehash_cell.simps) (simp del: set_inorder)
next
  case (Suc n)
  then obtain x xs where x: "inorder t = x # xs" by (cases "inorder t") simp_all
  let ?arr = "arr(bucket k log x := k_insert_color k (rb_link_node x (arr (bucket k log x))))"
  have e: "inorder (k_erase k x t) = xs" using kernel_okD(2) [OF k] x by simp
  have "x \<notin> keys_of arr" using Suc.prems(3) x by (simp del: set_inorder)
  note i = arr_ok_insert [OF k Suc.prems(1) this]
  have "n = length (inorder (k_erase k x t))" using Suc.hyps(2) e x by (simp del: length_inorder)
  from Suc.hyps(1) [OF this i(1)] have
    "returns (rehash_cell k log (k_erase k x t) ?arr) (\<lambda>arr'. arr_ok k log arr' \<and> keys_of arr' = keys_of ?arr \<union> set xs)"
    using Suc.prems(2,3) x e i(2) by (simp del: set_inorder)
  then show ?case using kernel_okD(3) [OF k, of t] x i(2,3)
    by (subst rehash_cell.simps) (auto simp: Let_def simp del: set_inorder elim!: returns_mono)
qed

lemma descending_distinct: "descending xs \<Longrightarrow> distinct xs"
  by (induction xs) auto

lemma rehash_dst_table_ok:
  assumes k: "kernel_ok k" and a: "arr_ok k log tbl"
  shows "returns (for_each (\<lambda>idx. rehash_cell k log' (tbl idx)) [0 ..< 2 ^ log] (\<lambda>_. Leaf)) (\<lambda>arr. arr_ok k log' arr \<and> keys_of arr = keys_of tbl)"
proof -
  let ?P = "\<lambda>i arr. arr_ok k log' arr \<and> keys_of arr = {x \<in> keys_of tbl. bucket k log x < i}"
  have cell: "x \<in> set (inorder (tbl i)) \<longleftrightarrow> x \<in> keys_of tbl \<and> bucket k log x = i" for x i
  proof -
    have "y \<in> set (inorder (tbl j)) \<Longrightarrow> bucket k log y = j" for y j using a unfolding arr_ok_def by blast
    then show ?thesis unfolding keys_of_def by (auto simp del: set_inorder)
  qed
  have "returns (for_each (\<lambda>idx. rehash_cell k log' (tbl idx)) [0 ..< 2 ^ log] (\<lambda>_. Leaf)) (?P (2 ^ log))"
  proof (rule for_each_loop)
    show "?P 0 (\<lambda>_. Leaf)" by (simp add: arr_ok_def keys_of_def)
    fix i arr assume P: "?P i arr"
    have "distinct (inorder (tbl i))" using a descending_distinct by (simp add: arr_ok_def)
    moreover have "set (inorder (tbl i)) \<inter> keys_of arr = {}" using P cell by auto
    ultimately show "returns (rehash_cell k log' (tbl i) arr) (?P (Suc i))"
      using rehash_cell_ok [OF k, of log' arr "tbl i"] P cell by (auto simp: less_Suc_eq elim!: returns_mono simp del: set_inorder)
  qed
  then show ?thesis using bucket_less by (auto elim!: returns_mono)
qed

text \<open>No flow is lost or changed when the table is resized, and the assertion of the rehashing holds.\<close>

lemma tsq_tc_resize_ok:
  assumes k: "kernel_ok k" and inv: "tsq_inv k q"
  shows "returns (tsq_tc_resize k mem log q) (\<lambda>(err, q'). tsq_inv k q' \<and> slots k q' = slots k q \<and> in_table k q' = in_table k q
    \<and> side_queues q' = side_queues q \<and> tq_priv q' = tq_priv q \<and> tq_dsts q' = tq_dsts q
    \<and> (if err = None then tq_hash_tbl_log q' = log else \<not> mem \<and> err = Some ENOMEM \<and> q' = q))"
proof (cases "log = tq_hash_tbl_log q \<or> \<not> mem")
  case True
  moreover obtain tbl where "tq_dst_hash_tbl q = Some tbl" using inv by (auto simp: tsq_inv_def table_inv_arr)
  ultimately show ?thesis using inv by (auto simp: tsq_tc_resize_def)
next
  case False
  obtain tbl where tbl: "tq_dst_hash_tbl q = Some tbl" "arr_ok k (tq_hash_tbl_log q) tbl" using inv by (auto simp: tsq_inv_def table_inv_arr)
  from rehash_dst_table_ok [OF k tbl(2), of log] obtain arr where
    r: "for_each (\<lambda>idx. rehash_cell k log (tbl idx)) [0 ..< 2 ^ tq_hash_tbl_log q] (\<lambda>_. Leaf) = Some arr" and
    arr: "arr_ok k log arr" "keys_of arr = keys_of tbl" by (auto simp: returns_def)
  let ?q = "q\<lparr>tq_hash_tbl_lock := False, tq_dst_hash_tbl := Some arr, tq_hash_tbl_log := log\<rparr>"
  have run: "tsq_tc_resize k mem log q = Some (None, ?q)"
    using False inv tbl(1) r by (simp add: tsq_tc_resize_def rehash_dst_table_def hash_tbl_lock_def hash_tbl_unlock_def tsq_inv_def)
  have "in_table k ?q x = in_table k q x" for x using in_table_arr [of ?q arr k x] in_table_arr [OF tbl] arr by simp
  then have it: "in_table k ?q = in_table k q" by (rule ext)
  have "table_inv k ?q" using arr(1) by (simp add: table_inv_arr)
  then show ?thesis using run inv it by (simp add: tsq_inv_def slots_def side_queues_def fun_eq_iff)
qed

section \<open>Collecting\<close>

text \<open>A cell in the middle of its traversal: \<open>ys\<close> is still to be visited.\<close>

lemma gc_loop_ok:
  assumes k: "kernel_ok k"
  shows "tq_dst_hash_tbl q = Some tbl \<Longrightarrow> inorder (tbl idx) = xs @ ys \<Longrightarrow> distinct (xs @ ys) \<Longrightarrow>
    returns (gc_loop k idx (case ys of [] \<Rightarrow> None | y # _ \<Rightarrow> Some y) q) (\<lambda>q'. \<exists>root st. q' = q\<lparr>tq_dst_hash_tbl := Some (tbl(idx := root)), tq_stat := st\<rparr>
      \<and> inorder root = xs @ filter (\<lambda>x. td_skb_qs (tq_dsts q x) \<noteq> []) ys)"
proof (induction ys arbitrary: q tbl xs)
  case Nil
  then show ?case by (subst gc_loop.simps) (auto intro!: exI [of _ "tbl idx"] exI [of _ "tq_stat q"])
next
  case (Cons y ys)
  let ?nxt = "case ys of [] \<Rightarrow> None | y # _ \<Rightarrow> Some y"
  have n: "k_next k y (tbl idx) = ?nxt" using kernel_okD(4) [OF k Cons.prems(2)] Cons.prems(3) by simp
  show ?case
  proof (cases "td_skb_qs (tq_dsts q y) = []")
    case True
    let ?t = "tbl(idx := k_erase k y (tbl idx))"
    let ?q = "tsq_count tt_gc_flows_update (q\<lparr>tq_dst_hash_tbl := Some ?t\<rparr>)"
    have "inorder (?t idx) = xs @ ys" using kernel_okD(2) [OF k] Cons.prems(2,3) by (simp add: remove1_append)
    moreover have "tq_dst_hash_tbl ?q = Some ?t" "distinct (xs @ ys)" using Cons.prems(3) by simp_all
    ultimately have "returns (gc_loop k idx ?nxt ?q) (\<lambda>q'. \<exists>root st. q' = ?q\<lparr>tq_dst_hash_tbl := Some (?t(idx := root)), tq_stat := st\<rparr>
      \<and> inorder root = xs @ filter (\<lambda>x. td_skb_qs (tq_dsts ?q x) \<noteq> []) ys)" by (intro Cons.IH)
    then show ?thesis using True Cons.prems(1) n
      by (subst gc_loop.simps) (auto simp: Let_def tsq_count_def simp del: fun_upd_apply elim!: returns_mono)
  next
    case False
    have "returns (gc_loop k idx ?nxt q) (\<lambda>q'. \<exists>root st. q' = q\<lparr>tq_dst_hash_tbl := Some (tbl(idx := root)), tq_stat := st\<rparr>
      \<and> inorder root = (xs @ [y]) @ filter (\<lambda>x. td_skb_qs (tq_dsts q x) \<noteq> []) ys)"
      by (rule Cons.IH) (use Cons.prems in simp_all)
    then show ?thesis using False Cons.prems(1) n by (subst gc_loop.simps) (auto simp: Let_def elim!: returns_mono)
  qed
qed

text \<open>Every waiting time slot stays, and every flow without one goes; the two counters of flows stay as they were.\<close>

lemma tsq_garbage_collect_ok:
  assumes k: "kernel_ok k" and inv: "tsq_inv k q"
  shows "returns (tsq_garbage_collect k now q) (\<lambda>q'. tsq_inv k q' \<and> slots k q' = slots k q \<and> side_queues q' = side_queues q \<and> tq_priv q' = tq_priv q
    \<and> (\<forall>x. in_table k q' x \<longleftrightarrow> slots k q x \<noteq> []) \<and> tq_flows q' = tq_flows q \<and> tq_inactive_flows q' = tq_inactive_flows q)"
proof -
  let ?q = "q\<lparr>tq_hash_tbl_lock := True\<rparr>"
  let ?n = "2 ^ tq_hash_tbl_log q"
  let ?c = "\<lambda>j. (j + bucket k (tq_hash_tbl_log q) now) mod ?n"
  let ?used = "\<lambda>x. td_skb_qs (tq_dsts q x) \<noteq> []"
  obtain tbl where tbl: "tq_dst_hash_tbl q = Some tbl" "arr_ok k (tq_hash_tbl_log q) tbl" using inv by (auto simp: tsq_inv_def table_inv_arr)
  have dst: "distinct (inorder (tbl j))" for j using tbl(2) descending_distinct by (simp add: arr_ok_def)
  let ?P = "\<lambda>i s. \<exists>t st. s = ?q\<lparr>tq_dst_hash_tbl := Some t, tq_stat := st\<rparr>
    \<and> (\<forall>c. inorder (t c) = (if c \<in> ?c ` {..<i} then filter ?used (inorder (tbl c)) else inorder (tbl c)))"
  have loop: "returns (for_each (\<lambda>idx. gc_cell k (?c idx)) [0 ..< ?n] ?q) (?P ?n)"
  proof (rule for_each_loop [where P = ?P])
    show "?P 0 ?q" using tbl(1) by (intro exI [of _ tbl] exI [of _ "tq_stat q"]) simp
    fix i s assume "?P i s"
    then obtain t st where s: "s = ?q\<lparr>tq_dst_hash_tbl := Some t, tq_stat := st\<rparr>" and
      t: "\<And>c. inorder (t c) = (if c \<in> ?c ` {..<i} then filter ?used (inorder (tbl c)) else inorder (tbl c))" by blast
    have d: "distinct ([] @ inorder (t (?c i)))" using dst t by simp
    have "returns (gc_cell k (?c i) s) (\<lambda>q'. \<exists>root st. q' = s\<lparr>tq_dst_hash_tbl := Some (t(?c i := root)), tq_stat := st\<rparr>
      \<and> inorder root = filter ?used (inorder (t (?c i))))"
      using gc_loop_ok [OF k, of s t "?c i" "[]" "inorder (t (?c i))"] d kernel_okD(3) [OF k, of "t (?c i)"] by (simp add: gc_cell_def s)
    then obtain root st' where r: "gc_cell k (?c i) s = Some (s\<lparr>tq_dst_hash_tbl := Some (t(?c i := root)), tq_stat := st'\<rparr>)"
      "inorder root = filter ?used (inorder (t (?c i)))" unfolding returns_def by blast
    have "?P (Suc i) (s\<lparr>tq_dst_hash_tbl := Some (t(?c i := root)), tq_stat := st'\<rparr>)"
      unfolding s by (rule exI [of _ "t(?c i := root)"], rule exI [of _ st']) (simp add: r(2) t lessThan_Suc)
    then show "returns (gc_cell k (?c i) s) (?P (Suc i))" unfolding r(1) returns_Some .
  qed
  have all: "c \<in> ?c ` {..<?n}" if "c < ?n" for c
  proof -
    define b where "b = bucket k (tq_hash_tbl_log q) now"
    have b: "b < ?n" using bucket_less by (simp add: b_def)
    have "((c + ?n - b) mod ?n + b) mod ?n = c" using that b by (simp add: mod_add_left_eq)
    moreover have "(c + ?n - b) mod ?n < ?n" by simp
    ultimately show ?thesis unfolding b_def by (intro image_eqI [of _ _ "(c + ?n - bucket k (tq_hash_tbl_log q) now) mod ?n"]) simp_all
  qed
  have none: "inorder (tbl c) = []" if "\<not> c < ?n" for c
  proof -
    have "x \<notin> set (inorder (tbl c))" for x
      using tbl(2) bucket_less [of k "tq_hash_tbl_log q" x] that unfolding arr_ok_def by metis
    then show ?thesis by (cases "inorder (tbl c)") (auto simp del: set_inorder)
  qed
  from loop obtain t st where r: "for_each (\<lambda>idx. gc_cell k (?c idx)) [0 ..< ?n] ?q = Some (?q\<lparr>tq_dst_hash_tbl := Some t, tq_stat := st\<rparr>)"
    and t': "\<And>c. inorder (t c) = (if c \<in> ?c ` {..<?n} then filter ?used (inorder (tbl c)) else inorder (tbl c))" by (auto simp only: returns_def)
  have t: "inorder (t c) = filter ?used (inorder (tbl c))" for c using t' [of c] all [of c] none [of c] by (cases "c < ?n") simp_all
  let ?q' = "hash_tbl_unlock (?q\<lparr>tq_dst_hash_tbl := Some t, tq_stat := st\<rparr>)"
  have "\<not> tq_hash_tbl_lock q" using inv by (simp add: tsq_inv_def)
  then have run: "tsq_garbage_collect k now q = Some ?q'" using r by (simp add: tsq_garbage_collect_def hash_tbl_lock_def Let_def)
  have f: "tq_dst_hash_tbl ?q' = Some t" "tq_hash_tbl_log ?q' = tq_hash_tbl_log q" "tq_dsts ?q' = tq_dsts q" by (simp_all add: hash_tbl_unlock_def)
  have a: "arr_ok k (tq_hash_tbl_log q) t" using tbl(2) by (simp add: arr_ok_def t sorted_wrt_filter del: set_inorder)
  have "in_table k ?q' x \<longleftrightarrow> in_table k q x \<and> ?used x" for x
    unfolding in_table_arr [of ?q' t k x, OF f(1), unfolded f(2), OF a] in_table_arr [OF tbl] by (auto simp: keys_of_def t simp del: set_inorder)
  then have it: "in_table k ?q' = (\<lambda>x. in_table k q x \<and> ?used x)" by (rule ext)
  have "slots k ?q' x = slots k q x" for x by (simp add: slots_def it f(3))
  then have sl: "slots k ?q' = slots k q" by (rule ext)
  have "\<forall>x. in_table k ?q' x \<longleftrightarrow> slots k q x \<noteq> []" by (simp add: it slots_def)
  moreover have "tsq_inv k ?q'" using inv a by (simp add: tsq_inv_def it f table_inv_arr) (simp add: hash_tbl_unlock_def)
  ultimately show ?thesis using run sl by (simp add: hash_tbl_unlock_def side_queues_def)
qed

section \<open>Configuration\<close>

text \<open>The state right after the start, of memory that is zero.\<close>

lemma tsq_tc_init_ok:
  assumes "\<not> tq_hash_tbl_lock q" "new_qdisc 1 20 (tq_priv q) = Some (True, p)"
  shows "returns (tsq_tc_init k True True True now_real No_opt new_qdisc q) (\<lambda>(err, q'). err = None \<and> tsq_inv k q' \<and> slots k q' = (\<lambda>_. [])
    \<and> side_queues q' = ([], [], [], [], []) \<and> tq_priv q' = p \<and> tq_limit q' = 10000 \<and> tq_qlen q' = tq_qlen q \<and> tq_tslot_len_approx q' = 2 ^ 20)"
  using assms by (simp add: tsq_tc_init_def set_tslot_len_def tsq_tc_resize_def Let_def tsq_inv_def table_inv_def slots_def in_table_def side_queues_def fun_eq_iff)

lemma resize_other:
  assumes "tsq_tc_resize k mem log q = Some (err, q')"
  shows "tq_limit q' = tq_limit q \<and> tq_data_rate q' = tq_data_rate q \<and> tq_tslot_mul q' = tq_tslot_mul q \<and> tq_tslot_shift q' = tq_tslot_shift q
    \<and> tq_tslot_len_approx q' = tq_tslot_len_approx q"
  using assms by (auto simp: tsq_tc_resize_def rehash_dst_table_def hash_tbl_lock_def hash_tbl_unlock_def bind_eq_Some_conv split: if_splits option.splits)

text \<open>
  A bad option is accepted. The code that reads the options sets an error for a limit of zero, a rate of zero, a size of the table
  that is out of range and for every option it does not support any more, but the error is overwritten by the result of the
  resizing. So the caller is told that all is well and the old value stays; and a multiplier of zero, which is refused in the same way,
  gets to the division by it.
\<close>

theorem tc_change_loses_errors:
  assumes k: "kernel_ok k" and inv: "tsq_inv k q" and bad: "tc_refused tb"
  shows "(tb_timeslot_mul tb = Some 0 \<longrightarrow> tsq_tc_change k True now (Opts tb) q = None)
    \<and> (tb_timeslot_mul tb = None \<and> tb_timeslot_shift tb = None \<longrightarrow>
      (\<exists>q'. tsq_tc_change k True now (Opts tb) q = Some (None, q') \<and> tsq_inv k q' \<and> slots k q' = slots k q
        \<and> (tb_plimit tb = Some 0 \<longrightarrow> tq_limit q' = tq_limit q) \<and> (tb_data_rate tb = Some 0 \<longrightarrow> tq_data_rate q' = tq_data_rate q)))"
proof -
  define q1 where "q1 = (case tb_plimit tb of Some nval \<Rightarrow> if 0 < nval then q\<lparr>tq_limit := nval\<rparr> else q | None \<Rightarrow> q)"
  define fp_log where "fp_log = (case tb_buckets_log tb of Some nval \<Rightarrow> if 1 \<le> nval \<and> nval \<le> 18 then unat nval else tq_hash_tbl_log q1
                        | None \<Rightarrow> tq_hash_tbl_log q1)"
  define q2 where "q2 = (case tb_data_rate tb of Some rate \<Rightarrow> if rate = 0 then q1 else q1\<lparr>tq_data_rate := rate\<rparr> | None \<Rightarrow> q1)"
  have s2: "same_flows q q2" "tq_hash_tbl_lock q2 = tq_hash_tbl_lock q" by (auto simp: q2_def q1_def same_flows_def split: option.split)
  have inv2: "tsq_inv k q2" using inv tsq_inv_same [OF s2] by simp
  from tsq_tc_resize_ok [OF k inv2, of True fp_log] obtain q3 where
    r: "tsq_tc_resize k True fp_log q2 = Some (None, q3)" "tsq_inv k q3" "slots k q3 = slots k q2"
    by (auto simp: returns_def split: if_splits)
  have run: "tsq_tc_change k True now (Opts tb) q =
    (if tb_timeslot_mul tb \<noteq> None \<or> tb_timeslot_shift tb \<noteq> None
     then do { q \<leftarrow> set_tslot_len now (case tb_timeslot_mul tb of Some m \<Rightarrow> m | None \<Rightarrow> tq_tslot_mul q2)
                 (case tb_timeslot_shift tb of Some n \<Rightarrow> n | None \<Rightarrow> tq_tslot_shift q2) q3; Some (None, q) }
     else Some (None, q3))"
    unfolding tsq_tc_change_def nlattr.case Let_def q1_def [symmetric] fp_log_def [symmetric] q2_def [symmetric] r(1) by simp
  have "tb_plimit tb = Some 0 \<longrightarrow> tq_limit q3 = tq_limit q" "tb_data_rate tb = Some 0 \<longrightarrow> tq_data_rate q3 = tq_data_rate q"
    using resize_other [OF r(1)] by (auto simp: q2_def q1_def split: option.splits)
  then show ?thesis
    using run r(2,3) same_flowsD(2) [OF s2(1), of k] by (auto simp: set_tslot_len_def bug_on_def)
qed

end
