(* ===== verification/Sch_Props.thy ===== *)
theory Sch_Props
  imports Sch_Inv Tsq_Admin Proto_Run
begin

text \<open>
  Properties of the end node as a whole: over any run of the kernel module, the packets of a flow leave in the order in which they came,
  none is lost or sent twice, and an allocation is used for the flow it is for. Then the cases in which the module does not do what
  it means to.
\<close>

section \<open>Runs\<close>

text \<open>The memory of the discipline before it is started.\<close>

definition zero_fp :: fp_sched_data where
  "zero_fp = \<lparr>fs_tslot_mul = 0, fs_tslot_shift = 0, fs_unreq_flows = (\<lambda>_. 0), fs_unreq_dsts_head = 0, fs_unreq_dsts_tail = 0,
     fs_dsts = (\<lambda>_. \<lparr>fd_demand_tslots = 0, fd_requested_tslots = 0, fd_acked_tslots = 0, fd_alloc_tslots = 0, fd_used_tslots = 0, fd_state = FLOW_UNQUEUED\<rparr>),
     fs_retrans_timer = None, fs_request_pacer = \<lparr>pa_T = 0, pa_next_event = 0, pa_cost = 0, pa_max_credit = 0, pa_min_gap = 0\<rparr>,
     fs_is_destroyed = False, fs_conn = zero_conn, fs_demand_tslots = 0, fs_requested_tslots = 0,
     fs_alloc_tslots = 0, fs_acked_tslots = 0, fs_used_tslots = 0,
     fs_stat = \<lparr>fc_admitted_timeslots = 0, fc_early_enqueue = 0, fc_late_enqueue1 = 0, fc_late_enqueue2 = 0, fc_late_enqueue3 = 0, fc_late_enqueue4 = 0,
       fc_marked_packets = 0, fc_unrecognized_proto_in_mark = 0, fc_req_alloc_errors = 0, fc_request_with_empty_flowqueue = 0,
       fc_queued_flow_already_acked = 0, fc_unwanted_alloc = 0, fc_alloc_report_larger_than_requested = 0, fc_timeslots_assumed_lost = 0\<rparr>\<rparr>"

definition zero_tsq :: "'p \<Rightarrow> 'p tsq_sched_data" where
  "zero_tsq p = \<lparr>tq_hash_tbl_log = 0, tq_tslot_mul = 0, tq_tslot_shift = 0, tq_data_rate = 0, tq_tslot_len_approx = 0, tq_hash_tbl_lock = False,
     tq_dst_hash_tbl = None, tq_dsts = (\<lambda>_. \<lparr>td_skb_qs = [], td_credit = 0, td_next_id = 0\<rparr>), tq_enqueue_skb_q = [], tq_reg_prio = [], tq_hi_prio = [],
     tq_prequeue = [], tq_dropqueue = [], tq_current_timeslot = 0, tq_flows = 0, tq_inactive_flows = 0, tq_qlen = 0, tq_limit = 0,
     tq_stat = \<lparr>tt_gc_flows = 0, tt_ctrl_pkts = 0, tt_ntp_pkts = 0, tt_ptp_pkts = 0, tt_arp_pkts = 0, tt_igmp_pkts = 0, tt_ssh_pkts = 0, tt_data_pkts = 0,
       tt_classify_errors = 0, tt_classified_ipv6 = 0, tt_above_plimit = 0, tt_enqueued = 0, tt_enqueued_hi_pri = 0, tt_allocation_errors = 0,
       tt_pkt_too_big = 0, tt_added_tslots = 0, tt_dequeued = 0, tt_used_timeslots = 0, tt_dropped_timeslots = 0, tt_modified_timeslots = 0,
       tt_unwanted_alloc = 0, tt_dst_not_found_handle_now = 0, tt_unrecognized_id = 0, tt_unrecognized_action = 0\<rparr>, tq_priv = p\<rparr>"

text \<open>The start with the default options.\<close>

definition node_boot :: "fp_call \<Rightarrow> (tc_err option \<times> end_node) option" where
  "node_boot c = tsq_tc_init (fq_kernel c) True True True (fq_now_real c) No_opt (fpq_new_qdisc c True True) (zero_tsq zero_fp)"

text \<open>
  A step of the end node, with the data packets that it lets in and that it sends. Memory for flows and time slots is
  there, less than \<open>2 ^ 64\<close> time slots wait, and a call that ends with an error of the protocol is no step.
\<close>

inductive node_step :: "kernel \<Rightarrow> end_node \<Rightarrow> sk_buff list \<Rightarrow> sk_buff list \<Rightarrow> end_node \<Rightarrow> bool" for k where
  Enqueue: "tsq_enqueue skb s = (r, s') \<Longrightarrow> node_step k s (if r = NET_XMIT_SUCCESS \<and> is_data skb then [skb] else []) [] s'"
| Sort: "\<forall>x. length (slots k s x) + length (tq_enqueue_skb_q s) < 2 ^ 64 \<Longrightarrow>
    enqueue_tasklet_func k (fastpass_tsq_ops k now) (\<lambda>_. (True, True)) s = Some s' \<Longrightarrow> node_step k s [] [] s'"
| Dequeue: "tsq_dequeue s = (r, dropped, s') \<Longrightarrow> node_step k s [] (case r of Some skb \<Rightarrow> if is_data skb then [skb] else [] | None \<Rightarrow> []) s'"
| Send: "fq_kernel c = k \<Longrightarrow> maintenance_tasklet_func c pd s = Some (r, s') \<Longrightarrow> node_step k s [] [] s'"
| Timeout: "fq_kernel c = k \<Longrightarrow> retrans_tasklet_func c s = Some s' \<Longrightarrow> node_step k s [] [] s'"
| Receive: "fq_kernel c = k \<Longrightarrow> ctrl_rcv_handler c addr pkt now' s = Some s' \<Longrightarrow> node_step k s [] [] s'"
| Resize: "tsq_tc_resize k mem log s = Some (err, s') \<Longrightarrow> node_step k s [] [] s'"
| Collect: "tsq_garbage_collect k now s = Some s' \<Longrightarrow> node_step k s [] [] s'"

text \<open>A run from a state, with the data packets that were let in and those that were sent.\<close>

inductive node_run :: "kernel \<Rightarrow> end_node \<Rightarrow> sk_buff list \<Rightarrow> sk_buff list \<Rightarrow> end_node \<Rightarrow> bool" for k s0 where
  Start: "node_run k s0 [] [] s0"
| Step: "node_run k s0 acc out s \<Longrightarrow> node_step k s i out' s' \<Longrightarrow> node_run k s0 (acc @ i) (out @ out') s'"

lemma admin_quiet:
  assumes k: "kernel_ok k" and inv: "node_inv k s"
  shows "tsq_tc_resize k mem log s = Some (err, s') \<Longrightarrow> quiet k s s'" "tsq_garbage_collect k now s = Some s' \<Longrightarrow> quiet k s s'"
proof -
  have ts: "tsq_inv k s" using inv by (simp add: node_inv_def)
  show "tsq_tc_resize k mem log s = Some (err, s') \<Longrightarrow> quiet k s s'"
    using tsq_tc_resize_ok [OF k ts, of mem log] by (intro quiet_same [OF inv]) (auto simp: returns_def side_queues_def)
  show "tsq_garbage_collect k now s = Some s' \<Longrightarrow> quiet k s s'"
    using tsq_garbage_collect_ok [OF k ts, of now] by (intro quiet_same [OF inv]) (auto simp: returns_def side_queues_def)
qed

lemma node_step_keeps:
  assumes k: "kernel_ok k" and inv: "node_inv k s" and step: "node_step k s i out s'"
  shows "node_inv k s' \<and> (\<forall>x. in_node k s x @ filter (\<lambda>p. flow_key p = x) i = filter (\<lambda>p. flow_key p = x) out @ in_node k s' x)"
proof -
  have q: ?thesis if "quiet k s s'" "i = []" "out = []" using that by (simp add: quiet_def)
  show ?thesis using step
  proof cases
    case (Enqueue skb r)
    then show ?thesis using tsq_enqueue_ok [OF inv Enqueue(3)] by auto
  next
    case (Sort now)
    then show ?thesis using enqueue_tasklet_quiet [OF k inv, of now] q by (simp add: returns_def)
  next
    case (Dequeue r dropped)
    then show ?thesis using tsq_dequeue_ok [OF inv Dequeue(3)] by (cases r) auto
  next
    case (Send c pd r)
    then show ?thesis using tasklets_quiet(1) [of c s pd r s'] inv q by simp
  next
    case (Timeout c)
    then show ?thesis using tasklets_quiet(2) [of c s s'] inv q by simp
  next
    case (Receive c addr pkt now')
    then show ?thesis using tasklets_quiet(3) [of c s addr pkt now' s'] inv q by simp
  next
    case (Resize mem log err)
    then show ?thesis using admin_quiet(1) [OF k inv] q by blast
  next
    case (Collect now)
    then show ?thesis using admin_quiet(2) [OF k inv] q by blast
  qed
qed

lemma node_run_keeps:
  assumes k: "kernel_ok k" and inv: "node_inv k s0"
  shows "node_run k s0 acc out s \<Longrightarrow> node_inv k s \<and> (\<forall>x. in_node k s0 x @ filter (\<lambda>p. flow_key p = x) acc = filter (\<lambda>p. flow_key p = x) out @ in_node k s x)"
proof (induction rule: node_run.induct)
  case Start
  then show ?case using inv by simp
next
  case (Step acc out s i out' s')
  note st = node_step_keeps [OF k _ Step.hyps(2)]
  show ?case using Step.IH st by (metis append.assoc filter_append)
qed

lemma new_qdisc_dsts: "fpq_new_qdisc c a b mul shift q = Some (ok, p) \<Longrightarrow> fs_dsts p = fs_dsts q"
  by (auto simp: fpq_new_qdisc_def Let_def bind_eq_Some_conv split: if_splits)

lemma node_boot_ok:
  assumes "node_boot c = Some (None, s)"
  shows "node_inv (fq_kernel c) s" "in_node (fq_kernel c) s x = []" "fpq_new_qdisc c True True 1 20 zero_fp = Some (True, tq_priv s)"
proof -
  from assms obtain p where p: "fpq_new_qdisc c True True 1 20 zero_fp = Some (True, p)"
    by (auto simp: node_boot_def tsq_tc_init_def set_tslot_len_def tsq_tc_resize_def Let_def zero_tsq_def bind_eq_Some_conv split: if_splits)
  have "returns (node_boot c) (\<lambda>(err, q'). err = None \<and> tsq_inv (fq_kernel c) q' \<and> slots (fq_kernel c) q' = (\<lambda>_. [])
    \<and> side_queues q' = ([], [], [], [], []) \<and> tq_priv q' = p)"
    unfolding node_boot_def by (rule returns_mono [OF tsq_tc_init_ok]) (use p in \<open>auto simp: zero_tsq_def\<close>)
  then have s: "tsq_inv (fq_kernel c) s" "slots (fq_kernel c) s = (\<lambda>_. [])" "side_queues s = ([], [], [], [], [])" "tq_priv s = p"
    using assms by (auto simp: returns_def)
  have "counts_ok (slots (fq_kernel c) s) (tq_priv s)"
    using new_qdisc_dsts [OF p] by (simp add: counts_ok_def flow_balance_def s zero_fp_def)
  then show "node_inv (fq_kernel c) s" using s by (simp add: node_inv_def side_queues_def)
  show "in_node (fq_kernel c) s x = []" using s(2,3) by (simp add: in_node_def tsq.in_service_def side_queues_def)
  show "fpq_new_qdisc c True True 1 20 zero_fp = Some (True, tq_priv s)" using p s(4) by simp
qed


text \<open>
  C11. An allocation is used for its flow. In any state of a run, and for any ALLOC payload whose destinations are in range, the handler
  ends; each allocation to a flow with waiting time slots sends the oldest of them, in the order of the payload, an allocation
  to a flow without any changes nothing, and afterwards each flow has lost as many time slots as it was allocated, as far as
  it had them. The counters still say how many time slots wait.
\<close>

theorem handle_alloc_serves:
  assumes "kernel_ok (fq_kernel c)" "node_boot c = Some (None, s0)" "node_run (fq_kernel c) s0 acc out s"
    and "\<forall>d \<in> set dst_ids. unat d < MAX_FLOWS" "n \<le> length tslots"
  defines "keys \<equiv> map ucast (allocated dst_ids (take n tslots))"
  shows "\<exists>s'. fpq_handle_alloc (fq_kernel c) prm now now_real base dst_ids tslots n s = Some s'
    \<and> tq_prequeue s' = tq_prequeue s @ concat (serve keys (slots (fq_kernel c) s))
    \<and> (\<forall>x. slots (fq_kernel c) s' x = drop (count_list keys x) (slots (fq_kernel c) s x))
    \<and> (\<forall>d < MAX_FLOWS. unat (fd_demand_tslots (fs_dsts (tq_priv s') d) - fd_used_tslots (fs_dsts (tq_priv s') d)) = length (slots (fq_kernel c) s' (of_nat d)))"
proof -
  have inv: "node_inv (fq_kernel c) s" using node_run_keeps [OF assms(1) node_boot_ok(1) [OF assms(2)] assms(3)] by blast
  from handle_alloc_ok [OF inv assms(4,5), of prm now now_real base] obtain s' where
    s': "fpq_handle_alloc (fq_kernel c) prm now now_real base dst_ids tslots n s = Some s'" "quiet (fq_kernel c) s s'"
      "\<And>x. slots (fq_kernel c) s' x = drop (count_list keys x) (slots (fq_kernel c) s x)"
      "tq_prequeue s' = tq_prequeue s @ concat (serve keys (slots (fq_kernel c) s))" by (auto simp: returns_def keys_def)
  have "counts_ok (slots (fq_kernel c) s') (tq_priv s')" using quiet_inv [OF s'(2)] by (simp add: node_inv_def)
  from counts_okD(3) [OF this] s' show ?thesis by auto
qed

section \<open>An example\<close>

text \<open>A kernel whose trees are lists, and a packet to node 5.\<close>

definition ex_kernel :: kernel where
  "ex_kernel = \<lparr>k_jhash_2words = (\<lambda>a b c. b), k_insert_color = (\<lambda>t. t),
     k_erase = (\<lambda>x t. foldr (\<lambda>x t. Node Leaf x t) (remove1 x (inorder t)) Leaf),
     k_first = (\<lambda>t. case inorder t of [] \<Rightarrow> None | x # _ \<Rightarrow> Some x),
     k_next = (\<lambda>x t. case dropWhile (\<lambda>y. y \<noteq> x) (inorder t) of _ # y # _ \<Rightarrow> Some y | _ \<Rightarrow> None),
     k_l2t = (\<lambda>rate len. 12000), k_jhash_1word = (\<lambda>a b. a), k_csum_replace2 = (\<lambda>c x y. c)\<rparr>"

lemma inorder_comb: "inorder (foldr (\<lambda>x t. Node Leaf x t) xs Leaf) = xs"
  by (induction xs) simp_all

lemma dropWhile_first: "x \<notin> set xs \<Longrightarrow> dropWhile (\<lambda>y. y \<noteq> x) (xs @ x # ys) = x # ys"
  by (induction xs) auto

lemma ex_kernel_ok: "kernel_ok ex_kernel"
  by (simp add: kernel_ok_def ex_kernel_def inorder_comb dropWhile_first split: list.split)

definition ex_call :: fp_call where
  "ex_call = \<lparr>fq_cfg = \<lparr>is_endpoint = True, emulation = False, req_data_bytes = 0, alloc_data_bytes = 0\<rparr>, fq_kernel = ex_kernel,
     fq_params = \<lparr>mp_req_cost = 1, mp_req_bucketlen = 1, mp_req_min_gap = 1, mp_reset_window_us = 1, mp_retrans_timeout_ns = 1, mp_miss_threshold = 16\<rparr>,
     fq_now = 100, fq_now_real = 100\<rparr>"

definition ex_skb :: sk_buff where
  "ex_skb = \<lparr>sk_len = 1500, sk_protocol = ETH_P_IP, sk_h_dest = [], sk_keys = Some \<lparr>fk_ip_proto = IPPROTO_TCP, fk_sport = 1000, fk_dport = 80\<rparr>,
     sk_ver_ihl = 0x45, sk_tos = 0, sk_check = 0, sk_flow_lbl0 = 0, sk_daddr = 2, sk_daddr6 = 0, sk_payload = 0\<rparr>"

lemma ex_skb_data: "is_data ex_skb" "flow_key ex_skb = 2"
  by (simp_all add: is_data_def ex_skb_def IPPROTO_TCP_def IPPROTO_IGMP_def IPPROTO_UDP_def flow_key_def ETH_P_IP_def ETH_P_IPV6_def fp_map_ip_to_id_def NUM_NODES_def)

lemma single_slot:
  assumes "concat ws = [p]" "\<And>w. w \<in> set ws \<Longrightarrow> w \<noteq> []"
  shows "ws = [[p]]"
proof (cases ws)
  case (Cons w ws')
  then have "w \<noteq> []" "w @ concat ws' = [p]" using assms by simp_all
  then have "w = [p]" "concat ws' = []" by (cases w; simp)+
  moreover from this(2) have "ws' = []" using assms(2) Cons by (cases ws') auto
  ultimately show ?thesis using Cons by simp
qed (use assms(1) in simp)

text \<open>The packet is let in and sorted into its flow.\<close>

lemma ex_sorted:
  obtains s0 s1 s2 where "node_boot ex_call = Some (None, s0)" "tsq_enqueue ex_skb s0 = (NET_XMIT_SUCCESS, s1)" "node_inv ex_kernel s1"
    "slots ex_kernel s1 = (\<lambda>_. [])" "tq_enqueue_skb_q s0 = []" "tq_enqueue_skb_q s1 = [ex_skb]"
    "enqueue_tasklet_func ex_kernel (fastpass_tsq_ops ex_kernel 0) (\<lambda>_. (True, True)) s1 = Some s2" "tq_enqueue_skb_q s2 = []" "concat (slots ex_kernel s2 2) = [ex_skb]"
proof -
  have k: "fq_kernel ex_call = ex_kernel" by (simp add: ex_call_def)
  obtain conn where "fpproto_init_conn (fq_cfg ex_call) zero_conn fpq_ops (ucast (mp_reset_window_us (fq_params ex_call)) * 1000)
      (ucast (mp_retrans_timeout_ns (fq_params ex_call))) (fq_now_real ex_call) = Some conn" using init_spec by blast
  then have "\<exists>p. fpq_new_qdisc ex_call True True 1 20 zero_fp = Some (True, p)" by (simp add: fpq_new_qdisc_def Let_def zero_fp_def)
  then obtain p where p: "fpq_new_qdisc ex_call True True 1 20 zero_fp = Some (True, p)" ..
  have "returns (node_boot ex_call) (\<lambda>(err, q'). err = None \<and> tq_limit q' = 10000 \<and> tq_qlen q' = 0 \<and> slots ex_kernel q' = (\<lambda>_. []) \<and> side_queues q' = ([], [], [], [], []))"
    unfolding node_boot_def k by (rule returns_mono [OF tsq_tc_init_ok]) (use p in \<open>auto simp: zero_tsq_def\<close>)
  then obtain s0 where s0: "node_boot ex_call = Some (None, s0)" "tq_limit s0 = 10000" "tq_qlen s0 = 0" "slots ex_kernel s0 = (\<lambda>_. [])"
    "side_queues s0 = ([], [], [], [], [])" by (auto simp: returns_def)
  note inv0 = node_boot_ok(1) [OF s0(1), unfolded k]
  define s1 where "s1 = (tsq_count tt_enqueued_update (s0\<lparr>tq_enqueue_skb_q := [ex_skb]\<rparr>))\<lparr>tq_qlen := 1\<rparr>"
  have e1: "tsq_enqueue ex_skb s0 = (NET_XMIT_SUCCESS, s1)"
    using classify_hi_prio_None [of ex_skb s0] s0(2,3,5) by (simp add: ex_skb_data tsq_enqueue_def s1_def Let_def skb_q_enqueue_def side_queues_def)
  have inv1: "node_inv ex_kernel s1" using node_step_keeps [OF ex_kernel_ok inv0 node_step.Enqueue [OF e1]] by blast
  have "same_flows s0 s1" by (simp add: s1_def same_flows_def)
  from same_flowsD(2) [OF this, of ex_kernel] have sl: "slots ex_kernel s1 = (\<lambda>_. [])" "tq_enqueue_skb_q s1 = [ex_skb]" "tq_prequeue s1 = []"
    using s0(4,5) by (simp_all add: s1_def side_queues_def)
  have room: "\<forall>x. length (slots ex_kernel s1 x) + length (tq_enqueue_skb_q s1) < 2 ^ 64" by (simp add: sl)
  from enqueue_tasklet_quiet [OF ex_kernel_ok inv1 room, of 0] obtain s2 where
    s2: "enqueue_tasklet_func ex_kernel (fastpass_tsq_ops ex_kernel 0) (\<lambda>_. (True, True)) s1 = Some s2" "quiet ex_kernel s1 s2" "tq_prequeue s2 = []" "tq_enqueue_skb_q s2 = []"
    by (auto simp: returns_def sl)
  have "in_node ex_kernel s2 2 = in_node ex_kernel s1 2" using s2(2) by (simp add: quiet_def)
  then have "concat (slots ex_kernel s2 2) = [ex_skb]" by (simp add: in_node_def tsq.in_service_def s2(3,4) sl ex_skb_data)
  moreover have "tq_enqueue_skb_q s0 = []" using s0(5) by (simp add: side_queues_def)
  ultimately show thesis using that s0(1) e1 inv1 sl(1,2) s2(1,4) by blast
qed

lemma ex_node_run:
  obtains s0 s where "node_boot ex_call = Some (None, s0)" "node_run ex_kernel s0 [ex_skb] [] s" "concat (slots ex_kernel s 2) = [ex_skb]"
proof -
  obtain s0 s1 s2 where s: "node_boot ex_call = Some (None, s0)" "tsq_enqueue ex_skb s0 = (NET_XMIT_SUCCESS, s1)" "slots ex_kernel s1 = (\<lambda>_. [])"
      "tq_enqueue_skb_q s1 = [ex_skb]" "enqueue_tasklet_func ex_kernel (fastpass_tsq_ops ex_kernel 0) (\<lambda>_. (True, True)) s1 = Some s2"
      "concat (slots ex_kernel s2 2) = [ex_skb]" by (rule ex_sorted)
  have r1: "node_run ex_kernel s0 [ex_skb] [] s1"
    using node_run.Step [OF node_run.Start node_step.Enqueue [OF s(2)], of ex_kernel] by (simp add: ex_skb_data)
  have "node_run ex_kernel s0 [ex_skb] [] s2" using node_run.Step [OF r1 node_step.Sort [OF _ s(5)]] by (simp add: s(3,4))
  then show thesis using that s(1,6) by blast
qed


theorem handle_alloc_serves_witness:
  "\<exists>s0 s s'. node_boot ex_call = Some (None, s0) \<and> node_run ex_kernel s0 [ex_skb] [] s
    \<and> fpq_handle_alloc ex_kernel (fq_params ex_call) 0 0 0 [2] [16, 16, 0] 3 s = Some s'
    \<and> tq_prequeue s' = tq_prequeue s @ [ex_skb] \<and> slots ex_kernel s' 2 = []"
proof -
  have k: "fq_kernel ex_call = ex_kernel" by (simp add: ex_call_def)
  obtain s0 s where s: "node_boot ex_call = Some (None, s0)" "node_run ex_kernel s0 [ex_skb] [] s" "concat (slots ex_kernel s 2) = [ex_skb]"
    by (rule ex_node_run)
  have a: "allocated [2] (take 3 [16, 16, 0]) = [2, 2]" by (simp add: Let_def)
  have inv: "tsq_inv ex_kernel s" using node_run_keeps [OF ex_kernel_ok node_boot_ok(1) [OF s(1), unfolded k] s(2)] unfolding node_inv_def by blast
  from s(3) slots_nonempty [OF inv] have w: "slots ex_kernel s 2 = [[ex_skb]]"
    by (intro single_slot) simp_all
  have "2 < MAX_FLOWS" by (simp add: MAX_FLOWS_256)
  then have "\<forall>d \<in> set [2 :: u16]. unat d < MAX_FLOWS" by simp
  note h = handle_alloc_serves [of ex_call s0 "[ex_skb]" "[]" s "[2]" 3 "[16, 16, 0]" "fq_params ex_call" 0 0 0, unfolded k a, OF ex_kernel_ok s(1,2) this]
  obtain s' where s': "fpq_handle_alloc ex_kernel (fq_params ex_call) 0 0 0 [2] [16, 16, 0] 3 s = Some s'"
    "tq_prequeue s' = tq_prequeue s @ concat (serve [2, 2] (slots ex_kernel s))"
    "\<forall>x. slots ex_kernel s' x = drop (count_list [2, 2] x) (slots ex_kernel s x)"
    using h by (simp del: serve.simps) blast
  have "tq_prequeue s' = tq_prequeue s @ [ex_skb]" using s'(2) by (simp add: w)
  moreover have "slots ex_kernel s' 2 = []" using s'(3) [rule_format, of 2] by (simp add: w)
  ultimately show ?thesis using s(1,2) s'(1) by blast
qed

section \<open>Locks that are not released\<close>

lemma ex_idle: obtains s0 where "node_boot ex_call = Some (None, s0)" "tsq_inv ex_kernel s0" "slots ex_kernel s0 = (\<lambda>_. [])"
proof -
  obtain s0 where b: "node_boot ex_call = Some (None, s0)" by (rule ex_node_run)
  have k: "fq_kernel ex_call = ex_kernel" by (simp add: ex_call_def)
  have inv: "tsq_inv ex_kernel s0" using node_boot_ok(1) [OF b] by (simp add: k node_inv_def)
  have "slots ex_kernel s0 x = []" for x
    using node_boot_ok(2) [OF b, of x] slots_nonempty [OF inv, of _ x] unfolding k by (cases "slots ex_kernel s0 x") (auto simp: in_node_def tsq.in_service_def)
  then show thesis using that b inv by blast
qed

theorem handle_now_keeps_lock_witness:
  "\<exists>s0 q. node_boot ex_call = Some (None, s0) \<and> tsq_handle_now ex_kernel (fastpass_tsq_ops ex_kernel 0) 7 TSLOT_ACTION_ADMIT_HEAD 0 [] s0 = Some (0, q)
    \<and> enqueue_single_skb ex_kernel (fastpass_tsq_ops ex_kernel 0) True True ex_skb q = None"
proof -
  obtain s0 where s0: "node_boot ex_call = Some (None, s0)" "tsq_inv ex_kernel s0" "slots ex_kernel s0 = (\<lambda>_. [])" by (rule ex_idle)
  have "slots ex_kernel s0 7 = []" by (simp add: s0(3))
  from handle_now_keeps_lock [OF s0(2) this, of "fastpass_tsq_ops ex_kernel 0" TSLOT_ACTION_ADMIT_HEAD 0 "[]" True True ex_skb 7 TSLOT_ACTION_ADMIT_HEAD 0 "[]"] s0(1)
  show ?thesis by blast
qed

definition ex_opts :: tc_opts where
  "ex_opts = \<lparr>tb_plimit = Some 0, tb_buckets_log = Some 40, tb_data_rate = None, tb_timeslot_nsec = None, tb_timeslot_mul = None, tb_timeslot_shift = None,
     tb_miss_threshold = Some 8, tb_dev_backlog_ns = None, tb_max_preload = None, tb_update_timeslot_timer_ns = None\<rparr>"

theorem tc_change_loses_errors_witness:
  "\<exists>s0 q. node_boot ex_call = Some (None, s0) \<and> tsq_tc_change ex_kernel True 0 (Opts ex_opts) s0 = Some (None, q) \<and> tq_limit q = tq_limit s0
    \<and> tsq_tc_change ex_kernel True 0 (Opts (ex_opts\<lparr>tb_timeslot_mul := Some 0\<rparr>)) s0 = None"
proof -
  obtain s0 where s0: "node_boot ex_call = Some (None, s0)" "tsq_inv ex_kernel s0" by (rule ex_idle)
  have "tc_refused ex_opts" "tc_refused (ex_opts\<lparr>tb_timeslot_mul := Some 0\<rparr>)" by (simp_all add: tc_refused_def ex_opts_def)
  with tc_change_loses_errors [OF ex_kernel_ok s0(2), of ex_opts 0]
    tc_change_loses_errors [OF ex_kernel_ok s0(2), of "ex_opts\<lparr>tb_timeslot_mul := Some 0\<rparr>" 0] s0(1)
  show ?thesis by (auto simp: ex_opts_def)
qed

text \<open>
  C36. A reset of the discipline with packets in it leads to a hang. The kernel resets a discipline when its device goes down: the flows and their
  packets are freed, but the client is not told and goes on to count the time slots as wanted. The first allocation that the arbiter sends for one of them
  is then used for a flow that is not in the table, and the lock of the table is kept: no packet is sorted into its flow any more.
\<close>

theorem tc_reset_then_alloc_hangs:
  assumes k: "kernel_ok k" and inv: "node_inv k s" and d: "d < MAX_FLOWS" and w: "slots k s (of_nat d) \<noteq> []"
  shows "\<exists>s1 s2. tsq_tc_reset k s = Some s1 \<and> tq_prequeue s1 = [] \<and> (\<forall>x. slots k s1 x = [])
    \<and> fpq_handle_alloc k prm now now_real base [of_nat d] [0x10] 1 s1 = Some s2
    \<and> (\<forall>ops skb. enqueue_single_skb k ops True True skb s2 = None)"
proof -
  have ts: "tsq_inv k s" and c: "counts_ok (slots k s) (tq_priv s)" using inv by (simp_all add: node_inv_def)
  from tsq_tc_reset_ok [OF k ts] obtain s1 where s1: "tsq_tc_reset k s = Some s1" "tsq_inv k s1" "slots k s1 = (\<lambda>_. [])"
    "side_queues s1 = ([], [], [], [], [])" "tq_priv s1 = tq_priv s" by (auto simp: returns_def)
  have u: "unat (of_nat d :: u16) = d" using d by (intro unat_of_nat_word) (simp add: MAX_FLOWS_256)
  then have g: "get_dst (ucast (of_nat d :: u16)) = Some d" using d by (simp add: get_dst_u16)
  have ne: "fd_used_tslots (fs_dsts (tq_priv s) d) \<noteq> fd_demand_tslots (fs_dsts (tq_priv s) d)" using counts_okD(2) [OF c d] w by simp
  define q where "q = trigger_tx now (tq_priv s)"
  have qd: "fs_dsts q = fs_dsts (tq_priv s)" by (simp add: q_def trigger_tx_def)
  define q2 where "q2 = upd_fd d (\<lambda>dst. dst\<lparr>fd_alloc_tslots := fd_alloc_tslots dst + 1\<rparr>) (flow_inc_used d 1 q)"
  have i: "tsq_inv k (s1\<lparr>tq_priv := q2\<rparr>)" "slots k (s1\<lparr>tq_priv := q2\<rparr>) (ucast (of_nat d :: u16)) = []"
    using tsq.set_priv_ok [OF s1(2), of q2] by (simp_all add: s1(3))
  obtain f where h: "tsq_handle_now k (fastpass_tsq_ops k now) (ucast (of_nat d :: u16)) TSLOT_ACTION_ADMIT_HEAD 0 [] (s1\<lparr>tq_priv := q2\<rparr>)
      = Some (0, tsq_count f (s1\<lparr>tq_priv := q2, tq_hash_tbl_lock := True\<rparr>))"
    by (rule handle_now_idle [OF i])
  have u: "\<exists>s2. use_alloc k prm now full cur (of_nat d) (s1\<lparr>tq_priv := q\<rparr>) = Some s2 \<and> tq_hash_tbl_lock s2" for full cur
    using ne h by (simp add: use_alloc_def g qd Let_def on_fp_def q2_def handle_single_alloc_def)
  have "\<exists>s2. fpq_handle_alloc k prm now now_real base [of_nat d] [0x10] 1 s1 = Some s2 \<and> tq_hash_tbl_lock s2"
    using u [of "full_timeslot (drop_bit (unat (fs_tslot_shift q)) (now_real * ucast (fs_tslot_mul q))) base" "drop_bit (unat (fs_tslot_shift q)) (now_real * ucast (fs_tslot_mul q))"]
    by (elim exE conjE) (simp add: fpq_handle_alloc_def Let_def on_fp_def [of "trigger_tx now"] s1(5) q_def [symmetric])
  then obtain s2 where r: "fpq_handle_alloc k prm now now_real base [of_nat d] [0x10] 1 s1 = Some s2" "tq_hash_tbl_lock s2" by blast
  have "tq_prequeue s1 = []" "\<forall>x. slots k s1 x = []" using s1(3,4) by (simp_all add: side_queues_def)
  with locked_hangs(1) [OF r(2)] r(1) s1(1) show ?thesis by blast
qed

theorem tc_reset_then_alloc_hangs_witness:
  "\<exists>s s1 s2. slots ex_kernel s 2 \<noteq> [] \<and> tsq_tc_reset ex_kernel s = Some s1 \<and> fpq_handle_alloc ex_kernel (fq_params ex_call) 0 0 0 [2] [0x10] 1 s1 = Some s2
    \<and> enqueue_single_skb ex_kernel (fastpass_tsq_ops ex_kernel 0) True True ex_skb s2 = None"
proof -
  have k: "fq_kernel ex_call = ex_kernel" by (simp add: ex_call_def)
  obtain s0 s where s: "node_boot ex_call = Some (None, s0)" "node_run ex_kernel s0 [ex_skb] [] s" "concat (slots ex_kernel s 2) = [ex_skb]"
    by (rule ex_node_run)
  have inv: "node_inv ex_kernel s" using node_run_keeps [OF ex_kernel_ok node_boot_ok(1) [OF s(1), unfolded k] s(2)] by blast
  have ne: "slots ex_kernel s 2 \<noteq> []" using s(3) by auto
  from tc_reset_then_alloc_hangs [OF ex_kernel_ok inv, of 2 "fq_params ex_call" 0 0 0] ne show ?thesis by (auto simp: MAX_FLOWS_256)
qed

end
