(* ===== verification/End_To_End.thy ===== *)
theory End_To_End
  imports Comm_Props Sch_Props
begin

text \<open>
  The arbiter and the end node together: the allocations that wait for an end node in the arbiter are described by a packet, encoded,
  decoded by the protocol of the end node and used by its queueing discipline.
\<close>

section \<open>From the queue of the arbiter to the flows of the end node\<close>

lemma allocated_desc:
  assumes "desc_ok dsts desc"
  shows "allocated dsts (desc @ rest) = map (fst \<circ> decode_tslot dsts) desc @ allocated dsts rest"
  using assms
proof (induction desc)
  case (Cons b desc)
  then have "drop_bit 4 b \<noteq> 0" "unat (drop_bit 4 b) \<le> length dsts" "desc_ok dsts desc" by (simp_all add: desc_ok_def)
  then show ?case using Cons.IH by (simp add: Let_def decode_tslot_def unat_eq_zero)
qed simp

lemma allocated_pad: "allocated dsts (replicate n 0) = []"
  by (induction n) simp_all

text \<open>The flows that a packet of the arbiter serves are those of the allocations it describes, in their order.\<close>

lemma describes_allocated:
  assumes "describes pd n L"
  shows "allocated (pd_dsts pd) (pd_tslot_desc pd) = map al_dst (take n L)"
proof -
  have d: "desc_ok (pd_dsts pd) (take n (pd_tslot_desc pd))" "drop n (pd_tslot_desc pd) = replicate (n mod 2) 0"
    and m: "map (decode_tslot (pd_dsts pd)) (take n (pd_tslot_desc pd)) = map alloc_key (take n L)"
    using assms by (simp_all add: describes_def)
  have "map (fst \<circ> decode_tslot (pd_dsts pd)) (take n (pd_tslot_desc pd)) = map al_dst (take n L)"
    using arg_cong [OF m, of "map fst"] by (simp add: alloc_key_def comp_def)
  moreover have "pd_tslot_desc pd = take n (pd_tslot_desc pd) @ replicate (n mod 2) 0" by (simp flip: d(2))
  ultimately show ?thesis using allocated_desc [OF d(1)] allocated_pad by (metis append_Nil2)
qed

lemma describes_wf:
  assumes "describes pd n L" "\<not> emulation cfg"
  shows "alloc_wf cfg pd"
proof -
  have "even (n + n mod 2)" by simp
  moreover have "n + n mod 2 \<le> 64" using assms(1) by (cases "n = 63") (auto simp: describes_def)
  ultimately show ?thesis using assms by (simp add: describes_def alloc_wf_def)
qed

text \<open>
  C12. Allocations reach the flows they are for. The packet that the arbiter sends to a node carries the oldest \<open>n\<close> waiting allocations,
  which leave the queue; wherever its ALLOC payload stands in a packet, with two more bytes behind it, the end node decodes it into one callback, and
  in any state of a run the callback ends and sends, for each of the \<open>n\<close> allocations in turn, the oldest waiting time slot of its
  destination, if there is one; nothing else moves.
\<close>

theorem allocations_reach_flows:
  fixes cm i pd
  defines "L \<equiv> pq_list (en_pending_allocs (cm_end_nodes cm i))"
  assumes arbiter: "comm_ok E E cm" "conn_ready (en_conn (cm_end_nodes cm i))" "tx_end_node now i (Some pd) cm = Some (Some pd', cm')"
    and node: "kernel_ok (fq_kernel c)" "node_boot c = Some (None, s0)" "node_run (fq_kernel c) s0 acc out s"
    and build: "\<not> emulation cfg" "c_ops conn = fpq_ops" "2 \<le> length post"
  shows "\<exists>n conn' ev s'. n \<le> length L \<and> pq_list (en_pending_allocs (cm_end_nodes cm' i)) = drop n L
    \<and> process_alloc conn (pre @ encode_alloc cfg pd' @ post) (length pre) = (Some (length (encode_alloc cfg pd')), conn')
    \<and> c_log conn' = c_log conn @ [ev] \<and> fastpass_sch_proto_ops c ev s = Some s'
    \<and> tq_prequeue s' = tq_prequeue s @ concat (serve (map (ucast \<circ> al_dst) (take n L)) (slots (fq_kernel c) s))
    \<and> (\<forall>x. slots (fq_kernel c) s' x = drop (count_list (map (ucast \<circ> al_dst) (take n L)) x) (slots (fq_kernel c) s x))"
proof -
  from tx_end_node_total [OF arbiter(1,2), of now pd] arbiter(3) obtain n where
    n: "describes pd' n L" "pq_list (en_pending_allocs (cm_end_nodes cm' i)) = drop n L" by (auto simp: L_def)
  have len: "unat (pd_alloc_tslot pd') = length (pd_tslot_desc pd')" "unat (pd_n_dsts pd') = length (pd_dsts pd')"
    and dsts: "set (pd_dsts pd') = al_dst ` set (take n L)" "n \<le> length L" using n(1) by (simp_all add: describes_def)
  define ev where "ev = Handle_alloc (push_bit 4 (ucast (pd_base_tslot pd'))) (pd_dsts pd') (pd_tslot_desc pd' @ post) (length (pd_tslot_desc pd'))"
  have "alloc_bytes_per_tslot (c_ops conn) = bytes_per_tslot cfg" using build by (simp add: bytes_per_tslot_def fpq_ops_def)
  from process_alloc_encoded [OF describes_wf [OF n(1) build(1)] this, of pre post]
  have p: "process_alloc conn (pre @ encode_alloc cfg pd' @ post) (length pre) = (Some (length (encode_alloc cfg pd')), emit ev conn)"
    using build by (simp add: len alloc_tslot_bytes_def Let_def emit_if_def fpq_ops_def ev_def)
  have "alloc_dsts_ok (en_pending_allocs (cm_end_nodes cm i))" using comm_okD(3) [OF arbiter(1), of i] by (simp add: node_ok_def)
  then have "\<forall>a \<in> set L. unat (al_dst a) < 256" unfolding L_def using pq_list_dsts by blast
  then have d: "\<forall>d \<in> set (pd_dsts pd'). unat d < MAX_FLOWS" unfolding dsts MAX_FLOWS_256 by (auto dest: in_set_takeD)
  have inv: "node_inv (fq_kernel c) s" using node_run_keeps [OF node(1) node_boot_ok(1) [OF node(2)] node(3)] by blast
  have a: "allocated (pd_dsts pd') (take (length (pd_tslot_desc pd')) (pd_tslot_desc pd' @ post)) = map al_dst (take n L)"
    using describes_allocated [OF n(1)] by simp
  have le: "length (pd_tslot_desc pd') \<le> length (pd_tslot_desc pd' @ post)" by simp
  from handle_alloc_ok [OF inv d le, of "fq_params c" "fq_now c" "fq_now_real c" "push_bit 4 (ucast (pd_base_tslot pd'))"] obtain s' where
    "fastpass_sch_proto_ops c ev s = Some s'"
    "\<And>x. slots (fq_kernel c) s' x = drop (count_list (map (ucast \<circ> al_dst) (take n L)) x) (slots (fq_kernel c) s x)"
    "tq_prequeue s' = tq_prequeue s @ concat (serve (map (ucast \<circ> al_dst) (take n L)) (slots (fq_kernel c) s))"
    unfolding a by (auto simp: returns_def ev_def)
  then show ?thesis using n(2) dsts(2) p by (intro exI [of _ n] exI [of _ "emit ev conn"] exI [of _ ev] exI [of _ s']) (simp add: emit_def)
qed

text \<open>The arbiter of the example has an allocation to node 2, for which a packet waits in the end node.\<close>

theorem allocations_reach_flows_witness:
  "\<exists>pd' cm' conn' ev s0 s s'. tx_end_node 10 1 (Some ex_pd) (ex_comm (ex_status 0)) = Some (Some pd', cm')
    \<and> process_alloc (zero_conn\<lparr>c_ops := fpq_ops\<rparr>) (encode_alloc (fq_cfg ex_call) pd' @ [0, 0]) 0 = (Some (length (encode_alloc (fq_cfg ex_call) pd')), conn')
    \<and> c_log conn' = c_log zero_conn @ [ev] \<and> node_run ex_kernel s0 [ex_skb] [] s
    \<and> fastpass_sch_proto_ops ex_call ev s = Some s' \<and> tq_prequeue s' = tq_prequeue s @ [ex_skb]"
proof -
  have k: "fq_kernel ex_call = ex_kernel" by (simp add: ex_call_def)
  have n: "cm_end_nodes (ex_comm (ex_status 0)) 1 = ex_node" by (simp add: ex_comm_def)
  obtain s0 s where s: "node_boot ex_call = Some (None, s0)" "node_run ex_kernel s0 [ex_skb] [] s" "concat (slots ex_kernel s 2) = [ex_skb]"
    by (rule ex_node_run)
  have inv: "tsq_inv ex_kernel s" using node_run_keeps [OF ex_kernel_ok node_boot_ok(1) [OF s(1), unfolded k] s(2)] unfolding node_inv_def by blast
  from s(3) slots_nonempty [OF inv] have w: "slots ex_kernel s 2 = [[ex_skb]]" by (intro single_slot) simp_all
  from tx_end_node_total [OF ex_comm_ok [of "ex_status 0"] ex_comm_ready, of 10 ex_pd] obtain pd' cm' m where
    tx: "tx_end_node 10 1 (Some ex_pd) (ex_comm (ex_status 0)) = Some (Some pd', cm')" "describes pd' m (pq_list (en_pending_allocs ex_node))"
      "pq_list (en_pending_allocs (cm_end_nodes cm' 1)) = drop m (pq_list (en_pending_allocs ex_node))"
    unfolding n by blast
  have "pq_list (en_pending_allocs (cm_end_nodes cm' 1)) = []" using tx(2,3) by (auto simp: describes_def ex_node_lists)
  moreover have "\<not> emulation (fq_cfg ex_call)" by (simp add: ex_call_def)
  ultimately have "\<exists>conn' ev s'. process_alloc (zero_conn\<lparr>c_ops := fpq_ops\<rparr>) (encode_alloc (fq_cfg ex_call) pd' @ [0, 0]) 0
        = (Some (length (encode_alloc (fq_cfg ex_call) pd')), conn')
    \<and> c_log conn' = c_log zero_conn @ [ev] \<and> fastpass_sch_proto_ops ex_call ev s = Some s' \<and> tq_prequeue s' = tq_prequeue s @ [ex_skb]"
    using allocations_reach_flows [OF ex_comm_ok ex_comm_ready tx(1) _ s(1), unfolded k, OF ex_kernel_ok s(2),
        of "fq_cfg ex_call" "zero_conn\<lparr>c_ops := fpq_ops\<rparr>" "[0, 0]" "[]"]
    by (elim meta_impE) (auto simp: n [simplified] ex_node_lists w take_Suc_conv_app_nth le_Suc_eq)
  then show ?thesis using tx(1) s(2) by blast
qed

end
