(* ===== verification/Proto_Track.thy ===== *)
theory Proto_Track
  imports Proto_Run
begin

text \<open>
  What the client of a connection is told about its packets. A packet in flight awaits its acknowledgement until it is acknowledged, is
  reported as lost or the connection is reset; each of these comes with a callback. So a client that resends what is reported as lost
  has nothing to remember about packets in flight.
\<close>

section \<open>Packets that await an acknowledgement\<close>

lemma sorted_pending: "sorted_wrt (\<lambda>a b. wnd_back w b \<le> wnd_back w a) (pending w s)"
proof -
  let ?A = "wnd_back w ` {t \<in> wnd_set w. wnd_back w t \<le> wnd_back w s}"
  have fin: "finite ?A" using finite_wnd_set [of w] by simp
  have b: "wnd_back w (w_head w - of_nat d) = d" if "d \<in> ?A" for d using that by auto
  have "sorted_wrt (\<lambda>a b. wnd_back w (w_head w - of_nat a) \<le> wnd_back w (w_head w - of_nat b)) (sorted_list_of_set ?A)"
    by (rule sorted_wrt_mono_rel [of _ "(\<le>)"]) (use fin b in auto)
  then show ?thesis by (simp add: pending_def sorted_wrt_map sorted_wrt_rev)
qed

lemma pending_none: "pending w (w_head w + 1) = []"
  by (simp add: pending_def wnd_seq_after_iff wnd_back_def)

lemma pending_from:
  assumes "wnd_inv w" "t \<in> wnd_set w"
  shows "set (pending w t) = {u \<in> wnd_set w. wnd_back w u \<le> wnd_back w t}"
  using in_wnd_not_before_after(1) [OF wnd_set_in_wnd [OF assms(2)]] by (simp add: set_pending)

lemma set_next_timeout:
  assumes "wnd_inv w"
  shows "set (pending w (next_timeout w s)) = set (pending w s)"
proof (cases "pending w s")
  case Nil
  then show ?thesis by (simp add: next_timeout_def pending_none)
next
  case (Cons t L)
  have t: "t \<in> wnd_set w" "wnd_back w t \<le> wnd_back w s" "\<not> wnd_seq_after w s"
    using Cons set_pending [of w s] by (auto split: if_splits)
  have le: "\<forall>u \<in> set (pending w s). wnd_back w u \<le> wnd_back w t" using sorted_pending [of w s] unfolding Cons by simp
  have "set (pending w t) = set (pending w s)"
    unfolding pending_from [OF assms t(1)] using le t(2,3) by (auto simp: set_pending)
  then show ?thesis by (simp add: next_timeout_def Cons)
qed

definition timeout_in_reach :: "fpproto_conn \<Rightarrow> bool" where
  "timeout_in_reach c \<longleftrightarrow> in_wnd (c_outwnd c) (c_next_timeout_seqno c) \<or> c_next_timeout_seqno c = w_head (c_outwnd c) + 1"

lemma next_timeout_in_reach: "in_wnd w (next_timeout w s) \<or> next_timeout w s = w_head w + 1"
proof (cases "pending w s")
  case (Cons t L)
  then have "t \<in> wnd_set w" using set_pending [of w s] by (auto split: if_splits)
  then show ?thesis using Cons wnd_set_in_wnd by (simp add: next_timeout_def)
qed (simp add: next_timeout_def)

definition awaits :: "fpproto_conn \<Rightarrow> fpproto_pktdesc set" where
  "awaits c = {pd. \<exists>s \<in> set (pending (c_outwnd c) (c_next_timeout_seqno c)). unacked c s = Some pd}"

lemma awaits_unacked: "awaits c \<subseteq> ran (unacked c)"
  by (auto simp: awaits_def ran_def)

text \<open>Which packets await depends on the packets in flight and on two numbers.\<close>

lemma awaits_alt:
  assumes "conn_inv c" "timeout_in_reach c"
  shows "awaits c = {pd. \<exists>s. unacked c s = Some pd \<and> c_next_timeout_seqno c \<noteq> w_head (c_outwnd c) + 1
    \<and> wnd_back (c_outwnd c) s \<le> wnd_back (c_outwnd c) (c_next_timeout_seqno c)}"
proof (cases "c_next_timeout_seqno c = w_head (c_outwnd c) + 1")
  case True
  then show ?thesis by (simp add: awaits_def pending_none)
next
  case False
  then have "\<not> wnd_seq_after (c_outwnd c) (c_next_timeout_seqno c)" using assms(2) in_wnd_not_before_after(1) by (simp add: timeout_in_reach_def)
  then show ?thesis using False dom_unacked [OF assms(1)] by (auto simp: awaits_def set_pending dom_def)
qed

section \<open>Events about packets\<close>

text \<open>The events concern packets of \<open>P\<close>, and after a reset none; no payload is handed over among them.\<close>

fun about :: "fpproto_pktdesc set \<Rightarrow> op_event list \<Rightarrow> bool" where
  "about P [] = True"
| "about P (Handle_ack pd # es) = (pd \<in> P \<and> about P es)"
| "about P (Handle_neg_ack pd # es) = (pd \<in> P \<and> about P es)"
| "about P (Handle_reset # es) = about {} es"
| "about P (Handle_alloc b ds ts n # es) = False"
| "about P (Handle_areq x m # es) = False"
| "about P (_ # es) = about P es"

definition left_over :: "fpproto_pktdesc set \<Rightarrow> op_event list \<Rightarrow> fpproto_pktdesc set" where
  "left_over X es = (if Handle_reset \<in> set es then {} else X)"

definition reported :: "op_event list \<Rightarrow> fpproto_pktdesc set" where
  "reported es = {pd. Handle_ack pd \<in> set es \<or> Handle_neg_ack pd \<in> set es}"

lemma about_append: "about P (es @ fs) \<longleftrightarrow> about P es \<and> about (left_over P es) fs"
  by (induction P es rule: about.induct) (auto simp: left_over_def)

lemma about_mono: "about P es \<Longrightarrow> P \<subseteq> Q \<Longrightarrow> about Q es"
  by (induction P es arbitrary: Q rule: about.induct) auto

definition plain :: "op_event \<Rightarrow> bool" where
  "plain e \<longleftrightarrow> about {} [e] \<and> e \<noteq> Handle_reset"

lemma plain_events:
  assumes "list_all plain es"
  shows "about P es" "left_over X es = X" "reported es = {}"
proof -
  show "about P es" using assms by (induction P es rule: about.induct) (simp_all add: plain_def)
  show "left_over X es = X" "reported es = {}" using assms by (auto simp: left_over_def reported_def list_all_iff plain_def dest: bspec)
qed

lemma plain_simps [simp]:
  "plain Trigger_request" "plain (Pktdesc_free pd)" "plain (Handle_skipped_ack pd)"
  "plain (Set_timer t)" "plain Cancel_timer" "timer_event e \<Longrightarrow> plain e"
  by (auto simp: plain_def timer_event_def)

section \<open>What a call tells\<close>

definition tracked :: "fpproto_conn \<Rightarrow> bool" where
  "tracked c \<longleftrightarrow> conn_inv c \<and> timeout_in_reach c \<and> has_handle_reset (c_ops c) \<and> has_handle_ack (c_ops c) \<and> has_handle_neg_ack (c_ops c)"

definition tells :: "fpproto_conn \<Rightarrow> fpproto_conn \<Rightarrow> bool" where
  "tells c c' \<longleftrightarrow> tracked c' \<and> c_ops c' = c_ops c \<and> (\<exists>es. c_log c' = c_log c @ es \<and> about (ran (unacked c)) es
     \<and> ran (unacked c') \<subseteq> left_over (ran (unacked c)) es \<and> left_over (awaits c) es - reported es \<subseteq> awaits c')"

lemma tells_trans:
  assumes "tells a b" "tells b c"
  shows "tells a c"
proof -
  from assms obtain es fs where e: "c_log b = c_log a @ es" "about (ran (unacked a)) es" "ran (unacked b) \<subseteq> left_over (ran (unacked a)) es"
      "left_over (awaits a) es - reported es \<subseteq> awaits b"
    and f: "c_log c = c_log b @ fs" "about (ran (unacked b)) fs" "ran (unacked c) \<subseteq> left_over (ran (unacked b)) fs"
      "left_over (awaits b) fs - reported fs \<subseteq> awaits c" unfolding tells_def by blast
  have "about (ran (unacked a)) (es @ fs)" using e(2,3) f(2) about_mono by (auto simp: about_append)
  moreover have "ran (unacked c) \<subseteq> left_over (ran (unacked a)) (es @ fs)" using e(3) f(3) by (auto simp: left_over_def split: if_splits)
  moreover have "left_over (awaits a) (es @ fs) - reported (es @ fs) \<subseteq> awaits c"
    using e(4) f(4) by (auto simp: left_over_def reported_def split: if_splits)
  ultimately show ?thesis using assms e(1) f(1) unfolding tells_def by (metis append.assoc)
qed

lemma tells_plain:
  assumes "tracked c" "c_outwnd c' = c_outwnd c" "c_unacked_pkts c' = c_unacked_pkts c" "c_next_timeout_seqno c' = c_next_timeout_seqno c"
    "c_ops c' = c_ops c" "c_log c' = c_log c @ es" "list_all plain es"
  shows "tells c c'"
proof -
  note u = unacked_cong [OF assms(2,3)]
  have "tracked c'" using assms(1,2,4,5) u(2) by (simp add: tracked_def timeout_in_reach_def)
  moreover have "awaits c' = awaits c" by (simp add: awaits_def u(1) assms(2,4))
  ultimately show ?thesis using assms(5,6) plain_events [OF assms(7)] u(1) unfolding tells_def by (intro conjI exI [of _ es]) simp_all
qed

lemma tells_refl: "tracked c \<Longrightarrow> tells c c"
  by (rule tells_plain [of _ _ "[]"]) simp_all

lemma tells_frames:
  assumes "tells c c'"
  shows "tells c (upd_stat f c')" "tells c (c'\<lparr>c_in_sync := x\<rparr>)" "tells c (c'\<lparr>c_consecutive_bad_pkts := n\<rparr>)" "plain e \<Longrightarrow> tells c (emit_if b e c')"
proof -
  have t: "tracked c'" using assms by (simp add: tells_def)
  show "tells c (upd_stat f c')" by (rule tells_trans [OF assms tells_plain [OF t, of _ "[]"]]) (simp_all add: upd_stat_def)
  show "tells c (c'\<lparr>c_in_sync := x\<rparr>)" by (rule tells_trans [OF assms tells_plain [OF t, of _ "[]"]]) simp_all
  show "tells c (c'\<lparr>c_consecutive_bad_pkts := n\<rparr>)" by (rule tells_trans [OF assms tells_plain [OF t, of _ "[]"]]) simp_all
  show "tells c (emit_if b e c')" if "plain e"
    by (rule tells_trans [OF assms tells_plain [OF t, of _ "if b (c_ops c') then [e] else []"]]) (use that in \<open>simp_all add: emit_if_def emit_def\<close>)
qed

section \<open>Timeouts\<close>

lemma the_in_ran: "s \<in> dom m \<Longrightarrow> the (m s) \<in> ran m"
  by (auto simp: ran_def)

lemma pending_after_timeouts:
  assumes "wnd_inv w" "pending w s = xs @ t # ys" "u \<in> set (t # ys)"
  shows "u \<in> set (pending w t)"
proof -
  have "\<forall>x \<in> set (pending w s). x \<in> wnd_set w" using set_pending [of w s] by auto
  then have m: "t \<in> wnd_set w" "u \<in> wnd_set w" using assms(2,3) by auto
  have "wnd_back w u \<le> wnd_back w t" using sorted_pending [of w s] assms(2,3) by (auto simp: sorted_wrt_append)
  then show ?thesis using m by (simp add: pending_from [OF assms(1)])
qed

lemma tells_timeout:
  assumes "tracked c"
  shows "\<exists>c'. fpproto_handle_timeout c now = Some c' \<and> tells c c'"
proof -
  have inv: "conn_inv c" and ops: "has_handle_neg_ack (c_ops c)" using assms by (simp_all add: tracked_def)
  define w where "w = c_outwnd c"
  define L where "L = pending w (c_next_timeout_seqno c)"
  define late where "late = takeWhile (expired c now) L"
  define rest where "rest = dropWhile (expired c now) L"
  define es where "es = map (\<lambda>t. Handle_neg_ack (the (unacked c t))) late"
  define fs where "fs = (if rest = [] then [] else [Set_timer (pkt_timeout c (hd rest))])"
  have sp: "L = late @ rest" by (simp add: late_def rest_def)
  from handle_timeout_spec [OF inv, of now, unfolded Let_def, folded w_def, folded L_def, folded late_def rest_def] obtain c' where
    c': "fpproto_handle_timeout c now = Some c'" "conn_inv c'" "unacked c' = unacked c" "c_outwnd c' = w" "rx_part c' = rx_part c"
      "c_next_timeout_seqno c' = (if rest = [] then w_head w + 1 else hd rest)" "c_log c' = c_log c @ es @ fs"
    using ops by (auto simp: nack_events_def concat_map_singleton es_def fs_def)
  have ops': "c_ops c' = c_ops c" using c'(5) by (simp add: rx_part_def)
  have L: "set L \<subseteq> dom (unacked c)" using dom_unacked [OF inv] set_pending [of w] by (auto simp: L_def w_def)
  have pl: "list_all plain fs" by (simp add: fs_def)
  have ab: "about (ran (unacked c)) (es @ fs)"
  proof -
    have "\<forall>t \<in> set late. the (unacked c t) \<in> ran (unacked c)" using L by (auto simp: sp intro: the_in_ran)
    then have "about (ran (unacked c)) es" unfolding es_def by (induction late) auto
    then show ?thesis by (simp add: about_append plain_events(1) [OF pl])
  qed
  have nr: "Handle_reset \<notin> set (es @ fs)" by (auto simp: es_def fs_def)
  have aw: "awaits c - reported (es @ fs) \<subseteq> awaits c'"
  proof
    fix pd assume pd: "pd \<in> awaits c - reported (es @ fs)"
    then obtain s where s: "s \<in> set L" "unacked c s = Some pd" by (auto simp: awaits_def L_def w_def)
    have "s \<notin> set late" using pd s(2) by (force simp: reported_def es_def)
    then have r: "s \<in> set rest" using s(1) by (auto simp: sp)
    then obtain t ys where t: "rest = t # ys" by (cases rest) auto
    have "s \<in> set (pending w t)"
      by (rule pending_after_timeouts [of _ "c_next_timeout_seqno c" late _ ys]) (use r t sp conn_invD(1) [OF inv] in \<open>auto simp: w_def L_def\<close>)
    then show "pd \<in> awaits c'" using s(2) t by (auto simp: awaits_def c'(3,4,6))
  qed
  have "timeout_in_reach c'"
  proof (cases rest)
    case (Cons t ys)
    then have "t \<in> set L" by (simp add: sp)
    then have "t \<in> wnd_set w" using L dom_unacked [OF inv] by (auto simp: w_def)
    then show ?thesis using Cons wnd_set_in_wnd by (simp add: timeout_in_reach_def c'(4,6))
  qed (simp add: timeout_in_reach_def c'(4,6))
  then have "tells c c'" unfolding tells_def using assms c'(2,3,7) ops' ab nr aw
    by (intro conjI exI [of _ "es @ fs"]) (simp_all add: tracked_def left_over_def)
  then show ?thesis using c'(1) by blast
qed

section \<open>Acknowledgements\<close>

lemma about_acks: "\<forall>s \<in> set xs. f s \<in> P \<Longrightarrow> about P (concat (map (\<lambda>s. ack_events ops (f s)) xs))"
  by (cases "has_handle_ack ops"; induction xs) (simp_all add: ack_events_def)

lemma tells_ack:
  assumes "tracked c"
  shows "\<exists>c'. ack_payload_handler cfg c a v = Some c' \<and> tells c c'"
proof (cases "wnd_seq_before (c_outwnd c) a")
  case True
  then have "ack_payload_handler cfg c a v = Some (upd_stat (st_too_early_ack_update (\<lambda>n. n + 1)) (upd_stat (st_ack_payloads_update (\<lambda>n. n + 1)) c))"
    by (simp add: ack_payload_handler_def frame_simps)
  then show ?thesis using tells_refl [OF assms] by (simp add: tells_frames)
next
  case False
  have inv: "conn_inv c" and ops: "has_handle_ack (c_ops c)" and reach: "timeout_in_reach c" using assms by (simp_all add: tracked_def)
  define es where "es = concat (map (\<lambda>s. ack_events (c_ops c) (the (unacked c s))) (acked_list c a v))"
  from ack_payload_spec [OF inv False, of cfg v] obtain c' where
    c': "ack_payload_handler cfg c a v = Some c'" "conn_inv c'" "unacked c' = unacked c |` (- acked_by a v)" "rx_part c' = rx_part c"
      "w_head (c_outwnd c') = w_head (c_outwnd c)"
    and log: "c_log c' = c_log c @ es @ (if retransmit_unacked_allocs cfg \<and> c_next_skip_ack_seqno c \<le> a
        then concat (map (\<lambda>s. skip_events (c_ops c) (the (unacked c' s))) (takeWhile (\<lambda>t. t < a) (pending (c_outwnd c') (c_next_skip_ack_seqno c)))) else [])
      @ (if acked_list c a v = [] then [] else Cancel_timer # (case pending (c_outwnd c') (c_next_timeout_seqno c) of [] \<Rightarrow> [] | t # _ \<Rightarrow> [Set_timer (pkt_timeout c' t)]))"
      (is "_ = _ @ _ @ ?k @ ?t")
    and nx: "c_next_timeout_seqno c' = (if acked_list c a v = [] then c_next_timeout_seqno c else next_timeout (c_outwnd c') (c_next_timeout_seqno c))"
    unfolding es_def by blast
  define fs where "fs = ?k @ ?t"
  have fs: "c_log c' = c_log c @ es @ fs" "list_all plain fs" using log by (auto simp: fs_def skip_events_def list_all_iff split: list.split)
  have ops': "c_ops c' = c_ops c" using c'(4) by (simp add: rx_part_def)
  have acked: "set (acked_list c a v) = dom (unacked c) \<inter> acked_by a v" by (auto simp: acked_list_def acked_by_def bit_list_props(1))
  have b: "wnd_back (c_outwnd c') = wnd_back (c_outwnd c)" "wnd_seq_after (c_outwnd c') = wnd_seq_after (c_outwnd c)" "in_wnd (c_outwnd c') = in_wnd (c_outwnd c)"
    by (simp_all add: fun_eq_iff wnd_seq_after_iff wnd_back_def in_wnd_def c'(5))
  have next': "set (pending (c_outwnd c') (c_next_timeout_seqno c')) = set (pending (c_outwnd c') (c_next_timeout_seqno c))"
    using set_next_timeout [OF conn_invD(1) [OF c'(2)]] by (simp add: nx)
  have ab: "about (ran (unacked c)) (es @ fs)" and nr: "Handle_reset \<notin> set (es @ fs)"
  proof -
    have "\<forall>s \<in> set (acked_list c a v). the (unacked c s) \<in> ran (unacked c)" unfolding acked by (auto intro: the_in_ran)
    then have "about (ran (unacked c)) es" unfolding es_def by (rule about_acks)
    then show "about (ran (unacked c)) (es @ fs)" by (simp add: about_append plain_events(1) [OF fs(2)])
    show "Handle_reset \<notin> set (es @ fs)" using fs(2) by (auto simp: es_def ack_events_def list_all_iff plain_def split: if_splits)
  qed
  have aw: "awaits c - reported (es @ fs) \<subseteq> awaits c'"
  proof
    fix pd assume pd: "pd \<in> awaits c - reported (es @ fs)"
    then obtain s where s: "s \<in> set (pending (c_outwnd c) (c_next_timeout_seqno c))" "unacked c s = Some pd" by (auto simp: awaits_def)
    have "s \<notin> acked_by a v"
    proof
      assume "s \<in> acked_by a v"
      then have "s \<in> set (acked_list c a v)" using s(2) acked by auto
      then have "Handle_ack pd \<in> set es" using s(2) ops by (force simp: es_def ack_events_def)
      then show False using pd by (simp add: reported_def)
    qed
    then have u: "unacked c' s = Some pd" using s(2) by (simp add: c'(3))
    then have "s \<in> wnd_set (c_outwnd c')" using dom_unacked [OF c'(2)] by auto
    then have "s \<in> set (pending (c_outwnd c') (c_next_timeout_seqno c'))" unfolding next' using s(1) by (auto simp: set_pending b split: if_splits)
    then show "pd \<in> awaits c'" using u by (auto simp: awaits_def)
  qed
  have "timeout_in_reach c'" using reach next_timeout_in_reach [of "c_outwnd c'"] by (simp add: timeout_in_reach_def nx b(3)) (simp add: c'(5))
  moreover have "ran (unacked c') \<subseteq> ran (unacked c)" unfolding c'(3) by (auto simp: ran_def restrict_map_def split: if_splits)
  ultimately have "tells c c'" unfolding tells_def using assms c'(2) fs(1) ops' ab nr aw
    by (intro conjI exI [of _ "es @ fs"]) (simp_all add: tracked_def left_over_def)
  then show ?thesis using c'(1) by blast
qed

section \<open>Resets\<close>

lemma fresh_tracked:
  assumes "fresh_after_reset cfg t sy c" "has_handle_reset (c_ops c) \<and> has_handle_ack (c_ops c) \<and> has_handle_neg_ack (c_ops c)"
  shows "tracked c"
  using assms by (simp add: tracked_def fresh_after_reset_def timeout_in_reach_def)

lemma tells_reset:
  assumes "tracked c"
  shows "\<exists>c'. do_proto_reset cfg c t sy = Some c' \<and> tells c (emit_if has_handle_reset Handle_reset c')"
proof -
  have inv: "conn_inv c" and ops: "has_handle_reset (c_ops c) \<and> has_handle_ack (c_ops c) \<and> has_handle_neg_ack (c_ops c)"
    using assms by (simp_all add: tracked_def)
  from do_proto_reset_fresh [OF inv, of cfg t sy] obtain c' L where
    c': "do_proto_reset cfg c t sy = Some c'" "fresh_after_reset cfg t sy c'" "c_ops c' = c_ops c" "c_log c' = c_log c @ map Pktdesc_free L" by blast
  let ?c = "emit_if has_handle_reset Handle_reset c'"
  have "tracked ?c" by (rule fresh_tracked [of cfg t sy]) (use c'(2,3) ops in \<open>simp_all add: frame_simps\<close>)
  moreover have "c_log ?c = c_log c @ (map Pktdesc_free L @ [Handle_reset])" "unacked ?c = Map.empty"
    using c' ops by (simp_all add: frame_simps fresh_after_reset_def)
  moreover have "about P (map Pktdesc_free L @ [Handle_reset])" for P using plain_events(1) [of "map Pktdesc_free L"] by (simp add: about_append list_all_iff)
  ultimately have "tells c ?c" unfolding tells_def by (intro conjI exI [of _ "map Pktdesc_free L @ [Handle_reset]"]) (simp_all add: c'(3) frame_simps left_over_def)
  then show ?thesis using c'(1) by blast
qed

lemma tells_reset_payload:
  assumes "tracked c"
  shows "\<exists>go c'. reset_payload_handler cfg c t now = Some (go, c') \<and> tells c c'"
proof -
  define c0 where "c0 = upd_stat (st_reset_payloads_update (\<lambda>n. n + 1)) c"
  have t0: "tells c c0" unfolding c0_def using tells_refl [OF assms] by (rule tells_frames)
  have acc: "\<exists>c'. do { conn \<leftarrow> do_proto_reset cfg (upd_stat f c0) u (is_endpoint cfg); Some (r, emit_if has_handle_reset Handle_reset conn) } = Some (r, c') \<and> tells c c'"
    for f u and r :: bool
  proof -
    have t: "tells c (upd_stat f c0)" using t0 by (rule tells_frames)
    then have "tracked (upd_stat f c0)" by (simp add: tells_def)
    from tells_reset [OF this, of cfg u "is_endpoint cfg"] tells_trans [OF t] show ?thesis by auto
  qed
  have stay: "tells c (upd_stat f c0)" "tells c ((upd_stat f c0)\<lparr>c_in_sync := x\<rparr>)" "tells c (c0\<lparr>c_in_sync := x\<rparr>)" for f x using t0 tells_frames by blast+
  show ?thesis unfolding reset_payload_handler_def Let_def c0_def [symmetric]
    using acc stay t0 by (auto split: if_splits) metis+
qed

lemma tells_bad:
  assumes "tracked c"
  shows "\<exists>c'. got_bad_packet cfg c now = Some c' \<and> tells c c'"
proof -
  define c0 where "c0 = c\<lparr>c_in_sync := False, c_consecutive_bad_pkts := c_consecutive_bad_pkts c + 1\<rparr>"
  have t0: "tells c c0" unfolding c0_def using tells_refl [OF assms] tells_frames by blast
  then have t1: "tells c (c0\<lparr>c_consecutive_bad_pkts := 0\<rparr>)" by (rule tells_frames)
  then have t2: "tells c (upd_stat f (c0\<lparr>c_consecutive_bad_pkts := 0\<rparr>))" for f by (rule tells_frames)
  then have "tracked (upd_stat (st_reset_from_bad_pkts_update (\<lambda>n. n + 1)) (c0\<lparr>c_consecutive_bad_pkts := 0\<rparr>))" by (simp add: tells_def)
  from tells_reset [OF this, of cfg now False] tells_trans [OF t2] obtain c' where
    c': "do_proto_reset cfg (upd_stat (st_reset_from_bad_pkts_update (\<lambda>n. n + 1)) (c0\<lparr>c_consecutive_bad_pkts := 0\<rparr>)) now False = Some c'"
      "tells c (emit_if has_handle_reset Handle_reset c')" by blast
  have trig: "tells c (emit_if has_trigger_request Trigger_request x)" if "tells c x" for x using tells_frames(4) [OF that] by simp
  show ?thesis unfolding got_bad_packet_def Let_def c0_def [symmetric] using c' trig [OF t0] trig [OF t2] trig [OF c'(2)] by simp
qed

section \<open>Reception\<close>

lemma tells_inwnd: "tracked c \<Longrightarrow> tells c (snd (update_inwnd c s))"
  by (rule tells_plain [of _ _ "[]"]) (simp_all add: update_inwnd_def Let_def upd_stat_def)

lemma tells_rx_accept:
  assumes "tracked c"
  shows "\<exists>r c'. rx_accept cfg c pkt curp s a = Some (r, c') \<and> tells c c'"
proof (cases "at_most_once_may_accept c s")
  case False
  then show ?thesis using tells_refl [OF assms] by (simp add: rx_accept_def)
next
  case True
  obtain c1 where c1: "ack_payload_handler cfg c a (hdr_ack_vec (rd_be16 pkt 4)) = Some c1" "tells c c1" using tells_ack [OF assms] by blast
  then have t1: "tracked c1" by (simp add: tells_def)
  obtain c2 where c2: "ack_payload_handler cfg c1 a (ext_ack_vec pkt curp) = Some c2" "tells c1 c2" using tells_ack [OF t1] by blast
  have "tells c c2" "tells c (snd (update_inwnd c1 s))" using tells_trans [OF c1(2)] c2(2) tells_inwnd [OF t1] by blast+
  then show ?thesis using True c1 c2(1) by (simp add: rx_accept_def fpproto_successful_rx_def tells_frames)
qed

lemma tells_rx_packet:
  assumes "tracked c"
  shows "\<exists>r c'. fpproto_handle_rx_packet cfg addr c pkt now now' = Some (r, c') \<and> tells c c'"
proof -
  define c0 where "c0 = upd_stat (st_rx_pkts_update (\<lambda>n. n + 1)) c"
  have c0: "tells c c0" unfolding c0_def using tells_refl [OF assms] by (rule tells_frames)
  then have t0: "tracked c0" by (simp add: tells_def)
  obtain cb where cb: "got_bad_packet cfg c0 now' = Some cb" "tells c0 cb" using tells_bad [OF t0] by blast
  define c1 where "c1 = (got_good_packet c0)\<lparr>c_in_sync := False\<rparr>"
  define c2 where "c2 = (if is_endpoint cfg then c1 else emit_if has_trigger_request Trigger_request c1)"
  define c3 where "c3 = (got_good_packet c0)\<lparr>c_in_sync := True\<rparr>"
  have k1: "tells c c1" "tells c c3" using c0 by (simp_all add: c1_def c3_def got_good_packet_def tells_frames)
  then have k: "tells c c2" "tells c c3" by (simp_all add: c2_def tells_frames)
  then have tr: "tracked c2" "tracked c3" by (simp_all add: tells_def)
  have rst: "\<exists>r c'. do { (go, conn) \<leftarrow> reset_payload_handler cfg c2 t now';
      if \<not> go then Some (None, conn) else rx_accept cfg conn pkt (8 + 8) s a } = Some (r, c') \<and> tells c c'" for t s a
  proof -
    obtain go c4 where c4: "reset_payload_handler cfg c2 t now' = Some (go, c4)" "tells c2 c4" using tells_reset_payload [OF tr(1)] by blast
    then have k4: "tells c c4" "tracked c4" using tells_trans [OF k(1)] by (blast, simp add: tells_def)
    obtain r c5 where c5: "rx_accept cfg c4 pkt (8 + 8) s a = Some (r, c5)" "tells c4 c5" using tells_rx_accept [OF k4(2)] by blast
    have "tells c c5" by (rule tells_trans [OF k4(1) c5(2)])
    then show ?thesis using c4(1) k4(1) c5(1) by (cases go) simp_all
  qed
  have acc: "\<exists>r c'. rx_accept cfg c3 pkt 8 s a = Some (r, c') \<and> tells c c'" for s a using tells_rx_accept [OF tr(2)] tells_trans [OF k(2)] by blast
  define pt where "pt = (if length pkt = 8 then 0 else payload_type pkt 8)"
  note kb = tells_trans [OF c0 cb(2)]
  note code = fpproto_handle_rx_packet_def [unfolded Let_def, of cfg addr c pkt now now', folded c0_def c1_def c2_def c3_def pt_def]
  consider "length pkt < 8" | "\<not> length pkt < 8" "rx_seqnos cfg c0 pkt pt now = None"
    | s a t where "\<not> length pkt < 8" "rx_seqnos cfg c0 pkt pt now = Some (s, a, t)"
    by (cases "rx_seqnos cfg c0 pkt pt now") auto
  then show ?thesis
  proof cases
    case 3
    show ?thesis
      unfolding code using 3 rst [of t s a] acc [of s a] cb(1) kb
      by (cases "fastpass_checksum addr (set_checksum 0 pkt) s a = rd_checksum pkt"; cases "pt = FASTPASS_PTYPE_RESET"; cases "is_endpoint cfg")
        (simp_all add: c2_def tells_frames)
  qed (simp_all add: code c0 tells_frames)
qed

section \<open>Payloads\<close>

text \<open>The payloads of a packet become calls for allocations and requests; nothing else changes.\<close>

definition payload_calls :: "fpproto_conn \<Rightarrow> fpproto_conn \<Rightarrow> bool" where
  "payload_calls c c' \<longleftrightarrow> c_outwnd c' = c_outwnd c \<and> c_unacked_pkts c' = c_unacked_pkts c \<and> c_next_timeout_seqno c' = c_next_timeout_seqno c
     \<and> c_ops c' = c_ops c
     \<and> (\<exists>es. c_log c' = c_log c @ es \<and> (\<forall>e \<in> set es. (\<exists>b ds ts n. e = Handle_alloc b ds ts n) \<or> (\<exists>x m. e = Handle_areq x m)))"

lemma payload_calls_refl: "payload_calls c c"
  by (simp add: payload_calls_def)

lemma payload_calls_trans: "payload_calls a b \<Longrightarrow> payload_calls b c \<Longrightarrow> payload_calls a c"
  unfolding payload_calls_def by (elim conjE exE) (auto 0 3)

lemma payload_calls_frames:
  "payload_calls c (upd_stat f c)" "payload_calls c (emit_if b (Handle_alloc u ds ts n) c)" "payload_calls c (emit_if b (Handle_areq x m) c)"
  by (auto simp: payload_calls_def upd_stat_def emit_if_def emit_def)

lemma payload_calls_process:
  "payload_calls c (snd (process_alloc c pkt i))" "process_areq cfg c pkt i = Some (r, c') \<Longrightarrow> payload_calls c c'"
  using payload_calls_frames by (auto simp: process_alloc_def process_areq_def Let_def split: if_splits)

lemma handle_payload_calls: "handle_payload cfg c pkt curp = Some (r, c') \<Longrightarrow> payload_calls c c'"
proof (induction cfg c pkt curp arbitrary: r c' rule: handle_payload.induct)
  case (1 cfg c pkt curp)
  let ?pt = "payload_type pkt curp"
  note IH = 1(1-4) and run = 1(5)
  note run' = run [unfolded handle_payload.simps [of cfg c pkt curp]]
  consider (stop) "\<not> curp < length pkt" | (ack) "curp < length pkt" "?pt = FASTPASS_PTYPE_ACK"
    | (rst) "curp < length pkt" "?pt = FASTPASS_PTYPE_RESET"
    | (alloc) "curp < length pkt" "?pt = FASTPASS_PTYPE_ALLOC \<or> ?pt = FASTPASS_PTYPE_EMU_ALLOC"
    | (areq) "curp < length pkt" "?pt = FASTPASS_PTYPE_AREQ \<or> ?pt = FASTPASS_PTYPE_EMU_AREQ"
    | (other) "curp < length pkt" "?pt \<notin> {FASTPASS_PTYPE_ACK, FASTPASS_PTYPE_RESET, FASTPASS_PTYPE_ALLOC,
        FASTPASS_PTYPE_EMU_ALLOC, FASTPASS_PTYPE_AREQ, FASTPASS_PTYPE_EMU_AREQ}"
    by blast
  then show ?case
  proof cases
    case alloc
    obtain l c1 where p: "process_alloc c pkt curp = (l, c1)" by fastforce
    have k: "payload_calls c c1" using payload_calls_process(1) [of c pkt curp] p by simp
    show ?thesis using alloc p k IH(3) [of ?pt l c1] payload_calls_trans [OF k] run'
      by (cases l; auto simp: ptypes)
  next
    case areq
    show ?thesis
    proof (cases "process_areq cfg c pkt curp")
      case None
      then show ?thesis using areq run' by (auto simp: ptypes)
    next
      case (Some x)
      obtain l c1 where x: "x = (l, c1)" by fastforce
      have k: "payload_calls c c1" using payload_calls_process(2) Some x by blast
      show ?thesis using areq Some x k IH(4) [of ?pt x l c1] payload_calls_trans [OF k] run'
        by (cases l; auto simp: ptypes)
    qed
  next
    case stop
    then show ?thesis using run' payload_calls_refl by simp
  next
    case ack
    then have "handle_payload cfg c pkt curp = handle_payload cfg c pkt (curp + 6)" by (subst handle_payload.simps) simp
    then show ?thesis using IH(1) [OF _ refl] ack run by metis
  next
    case rst
    then have "handle_payload cfg c pkt curp = handle_payload cfg c pkt (curp + 8)" by (subst handle_payload.simps) (simp add: ptypes)
    moreover have "FASTPASS_PTYPE_RESET \<noteq> FASTPASS_PTYPE_ACK" by (simp add: ptypes)
    ultimately show ?thesis using IH(2) [OF _ refl] rst run by metis
  next
    case other
    then have "handle_payload cfg c pkt curp = (if ?pt = FASTPASS_PTYPE_PADDING then Some (True, c)
        else Some (False, upd_stat (st_rx_unknown_payload_update (\<lambda>n. n + 1)) c))"
      by (subst handle_payload.simps) simp
    then show ?thesis using run payload_calls_refl payload_calls_frames by (auto split: if_splits)
  qed
qed

section \<open>Sending\<close>

lemma edge_back: "wnd_back w (wnd_edge w) = 191"
proof -
  have "w_head w - wnd_edge w = 191" by (simp add: wnd_edge_def FASTPASS_WND_LEN_def)
  then show ?thesis by (simp add: wnd_back_def)
qed

lemma tells_prepare:
  assumes "tracked c"
  shows "\<exists>c'. fpproto_prepare_to_send c = Some c' \<and> tells c c' \<and> unacked c' (wnd_edge (c_outwnd c')) = None \<and> w_head (c_outwnd c') = w_head (c_outwnd c)"
proof -
  have inv: "conn_inv c" and ops: "has_handle_neg_ack (c_ops c)" and reach: "timeout_in_reach c" using assms by (simp_all add: tracked_def)
  define w where "w = c_outwnd c"
  define e where "e = wnd_edge w"
  define late where "late \<longleftrightarrow> time_after_eq64 e (c_next_timeout_seqno c)"
  from prepare_spec [OF inv, folded w_def, folded e_def, folded late_def] obtain c' T where
    c': "fpproto_prepare_to_send c = Some c'" "conn_inv c'" "unacked c' = (unacked c)(e := None)" "w_head (c_outwnd c') = w_head w" "rx_part c' = rx_part c"
      "list_all timer_event T" "c_next_timeout_seqno c' = (if unacked c e \<noteq> None \<and> late then next_timeout w (e + 1) else c_next_timeout_seqno c)"
    and log: "c_log c' = c_log c @ (case unacked c e of None \<Rightarrow> [] | Some pd \<Rightarrow> (if late then nack_events (c_ops c) pd @ T else []) @ [Pktdesc_free pd])"
    by blast
  define es where "es = (case unacked c e of None \<Rightarrow> [] | Some pd \<Rightarrow> (if late then nack_events (c_ops c) pd @ T else []) @ [Pktdesc_free pd])"
  have ops': "c_ops c' = c_ops c" using c'(5) by (simp add: rx_part_def)
  have b: "wnd_back (c_outwnd c') = wnd_back w" "wnd_seq_after (c_outwnd c') = wnd_seq_after w" "in_wnd (c_outwnd c') = in_wnd w" "wnd_edge (c_outwnd c') = e"
    by (simp_all add: fun_eq_iff wnd_seq_after_iff wnd_back_def in_wnd_def e_def wnd_edge_def c'(4))
  have pT: "list_all plain T" using c'(6) by (simp add: list_all_iff)
  have ab: "about (ran (unacked c)) es" and nr: "Handle_reset \<notin> set es"
    using plain_events(1) [OF pT] pT ops by (auto simp: es_def nack_events_def about_append ran_def list_all_iff plain_def split: option.split)
  have aw: "awaits c - reported es \<subseteq> awaits c'"
  proof
    fix pd assume pd: "pd \<in> awaits c - reported es"
    then obtain s where s: "s \<in> set (pending w (c_next_timeout_seqno c))" "unacked c s = Some pd" by (auto simp: awaits_def w_def)
    have w: "s \<in> wnd_set w" "\<not> wnd_seq_after w (c_next_timeout_seqno c)" "wnd_back w s \<le> wnd_back w (c_next_timeout_seqno c)"
      using s(1) by (auto simp: set_pending split: if_splits)
    have nx: "in_wnd w (c_next_timeout_seqno c)" using reach w(2) by (auto simp: timeout_in_reach_def w_def wnd_seq_after_iff wnd_back_def)
    have ne: "s \<noteq> e"
    proof
      assume "s = e"
      then have "wnd_back w (c_next_timeout_seqno c) = wnd_back w e" using w(3) nx edge_back [of w] by (simp add: e_def in_wnd_def)
      then have "late" by (simp add: late_def wnd_back_inj time_after_eq64_def)
      then have "Handle_neg_ack pd \<in> set es" using s(2) ops \<open>s = e\<close> by (simp add: es_def nack_events_def)
      then show False using pd by (simp add: reported_def)
    qed
    then have u: "unacked c' s = Some pd" using s(2) by (simp add: c'(3))
    then have m: "s \<in> wnd_set (c_outwnd c')" using dom_unacked [OF c'(2)] by auto
    have e1: "wnd_back w (e + 1) = 190" using wnd_back_succ [of w e] edge_back [of w] by (simp add: e_def)
    have "wnd_back w s \<noteq> 191" using ne edge_back [of w] by (metis e_def wnd_back_inj)
    then have "wnd_back w s \<le> 190" using wnd_set_in_wnd [OF w(1)] by (simp add: in_wnd_def)
    then have "s \<in> set (pending w (e + 1))" using w(1) by (simp add: set_pending e1 wnd_seq_after_iff)
    then have "s \<in> set (pending w (c_next_timeout_seqno c'))" using s(1) set_next_timeout [OF conn_invD(1) [OF inv], folded w_def, of "e + 1"] by (simp add: c'(7))
    then have "s \<in> set (pending (c_outwnd c') (c_next_timeout_seqno c'))" using m by (auto simp: set_pending b split: if_splits)
    then show "pd \<in> awaits c'" using u by (auto simp: awaits_def)
  qed
  have "timeout_in_reach c'" using reach next_timeout_in_reach [of w "e + 1"] by (simp add: timeout_in_reach_def c'(7) b(3) w_def) (simp add: c'(4) w_def)
  moreover have "ran (unacked c') \<subseteq> ran (unacked c)" unfolding c'(3) by (auto simp: ran_def split: if_splits)
  ultimately have "tells c c'" unfolding tells_def using assms c'(2) log [folded es_def] ops' ab nr aw
    by (intro conjI exI [of _ es]) (simp_all add: tracked_def left_over_def)
  then show ?thesis using c'(1,3,4) b(4) by (auto simp: w_def)
qed

lemma back_of_next:
  assumes "w_head w' = w_head w + 1" "wnd_back w s < 192"
  shows "wnd_back w' s = wnd_back w s + 1"
proof -
  have "w_head w' - s = (w_head w - s) + 1" using assms(1) by simp
  then have "wnd_back w' s = unat ((w_head w - s) + 1)" by (simp only: wnd_back_def)
  also have "\<dots> = unat (w_head w - s) + 1" using assms(2) unfolding unat_word_ariths by (simp add: wnd_back_def)
  finally show ?thesis by (simp add: wnd_back_def)
qed

text \<open>A committed packet awaits its acknowledgement.\<close>

lemma commit_tracked:
  assumes "tracked c" "w_head (c_outwnd c) \<noteq> - 1" "unacked c (wnd_edge (c_outwnd c)) = None"
  shows "\<exists>c' pd' es. fpproto_commit_packet c pd ts = Some (c', pd') \<and> tracked c' \<and> c_ops c' = c_ops c \<and> c_log c' = c_log c @ es \<and> list_all plain es
    \<and> ran (unacked c') \<subseteq> insert pd' (ran (unacked c)) \<and> insert pd' (awaits c) \<subseteq> awaits c'"
proof -
  have inv: "conn_inv c" and reach: "timeout_in_reach c" using assms(1) by (simp_all add: tracked_def)
  define w where "w = c_outwnd c"
  define n where "n = c_next_timeout_seqno c"
  define h where "h = w_head w + 1"
  have "wnd_edge (c_outwnd c) \<notin> dom (unacked c)" using assms(3) by (simp add: domIff)
  from commit_spec [OF inv assms(2) this, of pd ts, folded w_def n_def, folded h_def] obtain c' pd' T where
    c': "fpproto_commit_packet c pd ts = Some (c', pd')" "conn_inv c'" "w_head (c_outwnd c') = h" "unacked c' = (unacked c)(h \<mapsto> pd')" "rx_part c' = rx_part c"
      "list_all timer_event T" "c_log c' = c_log c @ T" "c_next_timeout_seqno c' = next_timeout (c_outwnd c') n" by blast
  have ops': "c_ops c' = c_ops c" using c'(5) by (simp add: rx_part_def)
  have nb: "wnd_back (c_outwnd c') n \<le> 192" "n \<noteq> h \<Longrightarrow> wnd_back (c_outwnd c') n = wnd_back w n + 1 \<and> wnd_back w n < 192"
  proof -
    show *: "wnd_back (c_outwnd c') n = wnd_back w n + 1 \<and> wnd_back w n < 192" if "n \<noteq> h"
      using that reach back_of_next [of "c_outwnd c'" w n] by (auto simp: timeout_in_reach_def in_wnd_def h_def w_def n_def c'(3))
    show "wnd_back (c_outwnd c') n \<le> 192"
      by (cases "n = h") (use * in \<open>auto simp: wnd_back_def c'(3)\<close>)
  qed
  have na: "\<not> wnd_seq_after (c_outwnd c') n" using nb(1) by (simp add: wnd_seq_after_iff)
  have mem: "s \<in> set (pending (c_outwnd c') (c_next_timeout_seqno c'))" if "s \<in> dom (unacked c')" "wnd_back (c_outwnd c') s \<le> wnd_back (c_outwnd c') n" for s
    using that na dom_unacked [OF c'(2)] set_next_timeout [OF conn_invD(1) [OF c'(2)], of n] by (simp add: c'(8) set_pending)
  have new: "pd' \<in> awaits c'" using mem [of h] by (auto simp: awaits_def c'(4) wnd_back_def c'(3) intro!: bexI [of _ h])
  have "awaits c \<subseteq> awaits c'"
  proof
    fix pd assume "pd \<in> awaits c"
    then obtain s where s: "s \<in> set (pending w n)" "unacked c s = Some pd" by (auto simp: awaits_def w_def n_def)
    then have b: "wnd_back w s \<le> wnd_back w n" "s \<in> wnd_set w" by (auto simp: set_pending split: if_splits)
    have b3: "n \<noteq> h" using s(1) pending_none [of w] by (auto simp: h_def)
    have "wnd_back w s < 192" using wnd_set_in_wnd [OF b(2)] by (simp add: in_wnd_def)
    then have sb: "wnd_back (c_outwnd c') s = wnd_back w s + 1" by (intro back_of_next) (simp_all add: c'(3) h_def)
    then have "s \<noteq> h" by (auto simp: wnd_back_def c'(3))
    then show "pd \<in> awaits c'" using mem [of s] sb s(2) b(1) nb(2) [OF b3] by (auto simp: awaits_def c'(4))
  qed
  moreover have "tracked c'" using assms(1) c'(2) ops' next_timeout_in_reach [of "c_outwnd c'" n] by (simp add: tracked_def timeout_in_reach_def c'(8))
  moreover have "ran (unacked c') \<subseteq> insert pd' (ran (unacked c))" unfolding c'(4) by (auto simp: ran_def split: if_splits)
  ultimately show ?thesis using c'(1,6,7) ops' new by (intro exI [of _ c'] exI [of _ pd'] exI [of _ T]) (auto simp: list_all_iff)
qed

text \<open>A forced reset is the client's own: it is not told.\<close>

lemma force_tracked:
  assumes "tracked c"
  shows "\<exists>c'. fpproto_force_reset cfg c now = Some c' \<and> tracked c' \<and> unacked c' = Map.empty \<and> c_ops c' = c_ops c"
proof -
  have "conn_inv (upd_stat (st_forced_reset_update (\<lambda>n. n + 1)) c)" using assms by (simp add: tracked_def frame_simps)
  from do_proto_reset_fresh [OF this, of cfg now False] obtain c' where
    "do_proto_reset cfg (upd_stat (st_forced_reset_update (\<lambda>n. n + 1)) c) now False = Some c'" "fresh_after_reset cfg now False c'" "c_ops c' = c_ops c"
    by (auto simp: frame_simps)
  then show ?thesis using fresh_tracked [of cfg now False c'] assms by (auto simp: fpproto_force_reset_def tracked_def fresh_after_reset_def)
qed

lemma init_tracked:
  assumes "has_handle_reset ops" "has_handle_ack ops" "has_handle_neg_ack ops"
  shows "\<exists>c. fpproto_init_conn cfg zero_conn ops rst_win timeout now = Some c \<and> tracked c \<and> unacked c = Map.empty"
proof -
  from init_spec [of cfg ops rst_win timeout now] obtain c where
    c: "fpproto_init_conn cfg zero_conn ops rst_win timeout now = Some c" "fresh_after_reset cfg now False c" by blast
  moreover have "c_ops c = ops" using c(1) by (auto simp: fpproto_init_conn_def bind_eq_Some_conv)
  ultimately show ?thesis using fresh_tracked [of cfg now False c] assms by (auto simp: fresh_after_reset_def)
qed

end
