(* ===== verification/Sch_Req.thy ===== *)
theory Sch_Req
  imports Sch_Inv Proto_Track Counter_Queue
begin

text \<open>
  The requests of the end node. A flow with packets that the arbiter may not know of is in the queue of requests, or its last request
  is in a packet that awaits its acknowledgement: no demand is forgotten, whatever packets are lost. And the assertions in the
  handlers of acknowledgements hold.
\<close>

section \<open>Flows and requests\<close>

text \<open>The requests that a packet carries: a flow and the total of time slots it wants.\<close>

definition entry_requests :: "fpproto_areq_desc \<Rightarrow> (nat \<times> u64) set" where
  "entry_requests a = {(d, t). get_dst (ucast (areq_src_dst_key a)) = Some d \<and> areq_tslots a = t}"

abbreviation areqs :: "fpproto_pktdesc \<Rightarrow> fpproto_areq_desc list" where
  "areqs pd \<equiv> take (unat (pd_n_areq pd)) (pd_areq pd)"

definition requests :: "fpproto_pktdesc \<Rightarrow> (nat \<times> u64) set" where
  "requests pd = (\<Union>a \<in> set (areqs pd). entry_requests a)"

text \<open>
  The counters of a flow. The last condition bounds what the demand may become without a further packet: lost allocations are added
  to the demand, as long as they were requested.
\<close>

definition load :: "fp_dst \<Rightarrow> nat" where
  "load f = unat (fd_demand_tslots f) - unat (fd_used_tslots f) + max (unat (fd_used_tslots f)) (unat (fd_requested_tslots f))"

definition flow_ok :: "nat \<Rightarrow> fp_dst \<Rightarrow> bool" where
  "flow_ok n f \<longleftrightarrow> fd_alloc_tslots f = fd_used_tslots f \<and> unat (fd_used_tslots f) \<le> unat (fd_demand_tslots f)
     \<and> unat (fd_acked_tslots f) \<le> unat (fd_requested_tslots f) \<and> unat (fd_requested_tslots f) \<le> unat (fd_demand_tslots f)
     \<and> unat (fd_requested_tslots f) \<le> unat (fd_acked_tslots f) + 8191 \<and> load f + n < 2 ^ 62"

text \<open>
  A flow that is not queued has requested all it wants, or as much as the window of 8192 lets it; and if it has packets and
  its last request is not acknowledged, that request is among those under way, \<open>W\<close>.
\<close>

definition settled :: "(nat \<times> u64) set \<Rightarrow> nat \<Rightarrow> fp_dst \<Rightarrow> bool" where
  "settled W d f \<longleftrightarrow> fd_state f = FLOW_REQUEST_QUEUE \<or>
     (fd_requested_tslots f = fd_demand_tslots f \<or> unat (fd_requested_tslots f) = unat (fd_acked_tslots f) + 8191)
     \<and> (fd_used_tslots f \<noteq> fd_demand_tslots f \<longrightarrow> fd_acked_tslots f \<noteq> fd_requested_tslots f \<longrightarrow> (d, fd_requested_tslots f) \<in> W)"

lemma flow_ok_state [simp]: "flow_ok n (f\<lparr>fd_state := x\<rparr>) = flow_ok n f" "settled W d (f\<lparr>fd_state := FLOW_REQUEST_QUEUE\<rparr>)"
    "load (f\<lparr>fd_acked_tslots := t\<rparr>) = load f"
  by (simp_all add: flow_ok_def load_def settled_def)

lemma flow_okD:
  assumes "flow_ok n f"
  shows "fd_alloc_tslots f = fd_used_tslots f" "unat (fd_used_tslots f) \<le> unat (fd_demand_tslots f)"
    "unat (fd_acked_tslots f) \<le> unat (fd_requested_tslots f)" "unat (fd_requested_tslots f) \<le> unat (fd_demand_tslots f)"
    "unat (fd_requested_tslots f) \<le> unat (fd_acked_tslots f) + 8191" "load f + n < 2 ^ 62" "unat (fd_demand_tslots f) \<le> load f"
  using assms by (auto simp: flow_ok_def load_def)

definition unreq_list :: "fp_sched_data \<Rightarrow> nat list" where
  "unreq_list q = map unat (entries MAX_FLOWS (fs_unreq_flows q) (fs_unreq_dsts_head q) (fs_unreq_dsts_tail q))"

definition queue_ok :: "fp_sched_data \<Rightarrow> bool" where
  "queue_ok q \<longleftrightarrow> distinct (unreq_list q) \<and> (\<forall>d. d \<in> set (unreq_list q) \<longleftrightarrow> d < MAX_FLOWS \<and> fd_state (fs_dsts q d) = FLOW_REQUEST_QUEUE)"

text \<open>The packets \<open>P\<close> carry requests that were made.\<close>

definition pds_ok :: "fpproto_pktdesc set \<Rightarrow> fp_sched_data \<Rightarrow> bool" where
  "pds_ok P q \<longleftrightarrow> (\<forall>pd \<in> P. \<forall>a \<in> set (areqs pd).
     \<exists>d < MAX_FLOWS. get_dst (ucast (areq_src_dst_key a)) = Some d \<and> unat (areq_tslots a) \<le> unat (fd_requested_tslots (fs_dsts q d)))"

text \<open>The invariant, with room for \<open>n\<close> more packets and with exceptions \<open>X\<close> while a function is at work.\<close>

definition req_inv :: "nat \<Rightarrow> nat set \<Rightarrow> fpproto_pktdesc set \<Rightarrow> (nat \<times> u64) set \<Rightarrow> fp_sched_data \<Rightarrow> bool" where
  "req_inv n X P W q \<longleftrightarrow> queue_ok q \<and> (\<forall>d < MAX_FLOWS. flow_ok n (fs_dsts q d) \<and> (d \<notin> X \<longrightarrow> settled W d (fs_dsts q d))) \<and> pds_ok P q"

lemma req_invD:
  assumes "req_inv n X P W q"
  shows "queue_ok q" "d < MAX_FLOWS \<Longrightarrow> flow_ok n (fs_dsts q d)" "d < MAX_FLOWS \<Longrightarrow> d \<notin> X \<Longrightarrow> settled W d (fs_dsts q d)" "pds_ok P q"
  using assms by (simp_all add: req_inv_def)

lemma req_inv_mono: "req_inv n X P W q \<Longrightarrow> X \<subseteq> X' \<Longrightarrow> P' \<subseteq> P \<Longrightarrow> W \<subseteq> W' \<Longrightarrow> req_inv n X' P' W' q"
  unfolding req_inv_def pds_ok_def settled_def by blast

text \<open>What matters of the state of the client.\<close>

definition req_part :: "fp_sched_data \<Rightarrow> _" where
  "req_part q = (fs_dsts q, fs_unreq_flows q, fs_unreq_dsts_head q, fs_unreq_dsts_tail q)"

lemma req_inv_cong: "req_part q' = req_part q \<Longrightarrow> req_inv n X P W q' = req_inv n X P W q"
  by (simp add: req_inv_def req_part_def queue_ok_def pds_ok_def unreq_list_def)

lemma req_part_frames [simp]:
  "req_part (fpq_count u q) = req_part q" "req_part (trigger_tx now q) = req_part q"
  "req_part (fpq_set_retrans_timer t q) = req_part q" "req_part (fpq_cancel_retrans_timer q) = req_part q" "req_part (fs_conn_update c q) = req_part q"
  "req_part (fs_request_pacer_update g q) = req_part q" "req_part (count_enqueue prm a b q) = req_part q"
  "req_part (q\<lparr>fs_demand_tslots := v\<rparr>) = req_part q" "req_part (q\<lparr>fs_requested_tslots := w\<rparr>) = req_part q" "req_part (q\<lparr>fs_alloc_tslots := v\<rparr>) = req_part q"
  "req_part (q\<lparr>fs_acked_tslots := w\<rparr>) = req_part q" "req_part (q\<lparr>fs_used_tslots := w\<rparr>) = req_part q" "req_part (q\<lparr>fs_stat := x\<rparr>) = req_part q"
  by (auto simp: req_part_def fpq_count_def trigger_tx_def fpq_set_retrans_timer_def fpq_cancel_retrans_timer_def count_enqueue_def Let_def)

section \<open>The queue\<close>

lemma queue_okD:
  assumes "queue_ok q"
  shows "distinct (unreq_list q)" "d \<in> set (unreq_list q) \<longleftrightarrow> d < MAX_FLOWS \<and> fd_state (fs_dsts q d) = FLOW_REQUEST_QUEUE"
  using assms unfolding queue_ok_def by blast+

lemma queue_room:
  assumes "queue_ok q" "d < MAX_FLOWS" "fd_state (fs_dsts q d) = FLOW_UNQUEUED"
  shows "unat (fs_unreq_dsts_tail q - fs_unreq_dsts_head q) < MAX_FLOWS"
proof -
  have "set (unreq_list q) \<subseteq> {..< MAX_FLOWS} - {d}"
  proof
    fix x assume "x \<in> set (unreq_list q)"
    then show "x \<in> {..< MAX_FLOWS} - {d}" using queue_okD(2) [OF assms(1), of x] assms(3) by auto
  qed
  then have "card (set (unreq_list q)) \<le> card ({..< MAX_FLOWS} - {d})" by (intro card_mono) simp_all
  also have "\<dots> < MAX_FLOWS" using assms(2) by (simp add: MAX_FLOWS_256)
  finally have "length (unreq_list q) < MAX_FLOWS" using assms(1) by (simp add: queue_ok_def distinct_card)
  then show ?thesis by (simp add: unreq_list_def)
qed

lemma dvd_flows: "MAX_FLOWS dvd 2 ^ 32" "MAX_FLOWS < 2 ^ 32"
  by (simp_all add: MAX_FLOWS_256)

text \<open>A queued flow is settled, whatever its counters.\<close>

lemma req_inv_enqueue:
  assumes inv: "req_inv n X P W q" and d: "d < MAX_FLOWS"
  shows "req_inv n (X - {d}) P W (unreq_dsts_enqueue_if_not_queued now d q)"
proof (cases "fd_state (fs_dsts q d) = FLOW_UNQUEUED")
  case False
  then have "fd_state (fs_dsts q d) = FLOW_REQUEST_QUEUE" by (cases "fd_state (fs_dsts q d)") auto
  then have "settled W d (fs_dsts q d)" by (simp add: settled_def)
  then show ?thesis using inv False by (auto simp: req_inv_def unreq_dsts_enqueue_if_not_queued_def)
next
  case True
  note qk = req_invD(1) [OF inv]
  define q1 where "q1 = q\<lparr>fs_unreq_flows := (fs_unreq_flows q)(unat (fs_unreq_dsts_tail q) mod MAX_FLOWS := of_nat d), fs_unreq_dsts_tail := fs_unreq_dsts_tail q + 1\<rparr>"
  define q2 where "q2 = upd_fd d (fd_state_update (\<lambda>_. FLOW_REQUEST_QUEUE)) q1"
  have u: "unat (of_nat d :: u16) = d" using d by (intro unat_of_nat_word) (simp add: MAX_FLOWS_256)
  have l: "unreq_list q2 = unreq_list q @ [d]"
    using entries_enq [OF queue_room [OF qk d True] dvd_flows, of "fs_unreq_flows q" "of_nat d"] by (simp add: unreq_list_def q2_def q1_def upd_fd_def u)
  have dst: "fs_dsts q2 = (fs_dsts q)(d := fs_dsts q d\<lparr>fd_state := FLOW_REQUEST_QUEUE\<rparr>)" by (simp add: q2_def q1_def upd_fd_def)
  have "d \<notin> set (unreq_list q)" using qk True by (simp add: queue_ok_def)
  then have "queue_ok q2" using qk d by (auto simp: queue_ok_def l dst)
  moreover have "pds_ok P q2" using req_invD(4) [OF inv] by (fastforce simp: pds_ok_def dst)
  ultimately have "req_inv n (X - {d}) P W q2" using inv by (auto simp: req_inv_def dst)
  moreover have "unreq_dsts_enqueue_if_not_queued now d q = trigger_tx now q2" using True by (simp add: unreq_dsts_enqueue_if_not_queued_def q2_def q1_def)
  ultimately show ?thesis using req_inv_cong [of "trigger_tx now q2" q2] by simp
qed

text \<open>A change of the counters of one flow.\<close>

lemma req_inv_upd:
  assumes inv: "req_inv n X P W q" and d: "d < MAX_FLOWS" and f: "flow_ok n (f (fs_dsts q d))" "fd_state (f (fs_dsts q d)) = fd_state (fs_dsts q d)"
    "P = {} \<or> unat (fd_requested_tslots (fs_dsts q d)) \<le> unat (fd_requested_tslots (f (fs_dsts q d)))"
  shows "req_inv n (insert d X) P W (upd_fd d f q)" "settled W d (f (fs_dsts q d)) \<Longrightarrow> req_inv n X P W (upd_fd d f q)"
proof -
  have dst: "fs_dsts (upd_fd d f q) = (fs_dsts q)(d := f (fs_dsts q d))" by (simp add: upd_fd_def)
  have "queue_ok (upd_fd d f q)" using req_invD(1) [OF inv] f(2) by (auto simp: queue_ok_def unreq_list_def upd_fd_def)
  moreover have "pds_ok P (upd_fd d f q)" using req_invD(4) [OF inv] f(3) unfolding pds_ok_def dst by (fastforce intro: le_trans)
  ultimately show "req_inv n (insert d X) P W (upd_fd d f q)" "settled W d (f (fs_dsts q d)) \<Longrightarrow> req_inv n X P W (upd_fd d f q)"
    using inv f(1) by (auto simp: req_inv_def dst)
qed

lemma req_inv_dequeue:
  assumes inv: "req_inv n X P W q" and run: "unreq_dsts_dequeue_and_get q = Some (d, q')"
  shows "d < MAX_FLOWS" "fd_state (fs_dsts q d) = FLOW_REQUEST_QUEUE" "fs_dsts q' = (fs_dsts q)(d := fs_dsts q d\<lparr>fd_state := FLOW_UNQUEUED\<rparr>)"
    "req_inv n (insert d X) P W q'"
proof -
  note qk = req_invD(1) [OF inv]
  have ne: "fs_unreq_dsts_head q \<noteq> fs_unreq_dsts_tail q" and dd: "d = unat (fs_unreq_flows q (unat (fs_unreq_dsts_head q) mod MAX_FLOWS))"
    and q': "q' = upd_fd d (fd_state_update (\<lambda>_. FLOW_UNQUEUED)) (q\<lparr>fs_unreq_dsts_head := fs_unreq_dsts_head q + 1\<rparr>)"
    using run by (auto simp: unreq_dsts_dequeue_and_get_def Let_def split: if_splits)
  have l: "unreq_list q = d # unreq_list q'"
    using entries_deq [OF dvd_flows(1) ne, of "fs_unreq_flows q"] by (simp add: unreq_list_def dd q' upd_fd_def)
  then have m: "d \<in> set (unreq_list q)" "d \<notin> set (unreq_list q')" "distinct (unreq_list q')" using qk by (auto simp: queue_ok_def)
  show st: "d < MAX_FLOWS" "fd_state (fs_dsts q d) = FLOW_REQUEST_QUEUE" using m(1) qk by (auto simp: queue_ok_def)
  show dst: "fs_dsts q' = (fs_dsts q)(d := fs_dsts q d\<lparr>fd_state := FLOW_UNQUEUED\<rparr>)" by (simp add: q' upd_fd_def)
  have "set (unreq_list q') = set (unreq_list q) - {d}" using l m(2) by auto
  then have "queue_ok q'" using qk m(3) by (auto simp: queue_ok_def dst)
  moreover have "pds_ok P q'" using req_invD(4) [OF inv] by (fastforce simp: pds_ok_def dst)
  ultimately show "req_inv n (insert d X) P W q'" using inv by (auto simp: req_inv_def dst)
qed

section \<open>Acknowledgements\<close>

lemma entry_requestsD: "get_dst (ucast (areq_src_dst_key a)) = Some d \<Longrightarrow> entry_requests a = {(d, areq_tslots a)}"
  by (auto simp: entry_requests_def)

lemma ack_entry_ok:
  assumes inv: "req_inv n X P (entry_requests a \<union> W) q"
    and a: "get_dst (ucast (areq_src_dst_key a)) = Some d" "d < MAX_FLOWS" "unat (areq_tslots a) \<le> unat (fd_requested_tslots (fs_dsts q d))"
  shows "returns (fpq_ack_entry now a q) (req_inv n X P W)"
proof -
  let ?f = "fs_dsts q d" and ?t = "areq_tslots a"
  note fo = req_invD(2) [OF inv a(2)] note F = flow_okD [OF fo] and e = entry_requestsD [OF a(1)]
  have keep: "req_inv n (insert d X) P W q"
  proof -
    have "settled W x (fs_dsts q x)" if "x < MAX_FLOWS" "x \<notin> insert d X" for x
      using req_invD(3) [OF inv that(1)] that(2) by (auto simp: settled_def e)
    then show ?thesis using inv by (auto simp: req_inv_def)
  qed
  show ?thesis
  proof (cases "fd_acked_tslots ?f < ?t")
    case False
    then have "settled W d ?f" if "d \<notin> X"
      using req_invD(3) [OF inv a(2) that] F(3) a(3) by (auto simp: settled_def e word_less_nat_alt unat_eq_iff)
    then have "req_inv n X P W q" using keep by (auto simp: req_inv_def)
    then show ?thesis using False a(1) by (simp add: fpq_ack_entry_def Let_def)
  next
    case True
    define q1 where "q1 = upd_fd d (fd_acked_tslots_update (\<lambda>_. ?t)) (q\<lparr>fs_acked_tslots := fs_acked_tslots q + (?t - fd_acked_tslots ?f)\<rparr>)"
    have t: "unat (fd_acked_tslots ?f) < unat ?t" using True by (simp add: word_less_nat_alt)
    have k: "req_inv n (insert d X) P W (q\<lparr>fs_acked_tslots := fs_acked_tslots q + (?t - fd_acked_tslots ?f)\<rparr>)"
      using keep req_inv_cong [of "q\<lparr>fs_acked_tslots := fs_acked_tslots q + (?t - fd_acked_tslots ?f)\<rparr>" q] by simp
    have f1: "flow_ok n (fd_acked_tslots_update (\<lambda>_. ?t) ?f)" using fo F(5) t a(3) by (simp add: flow_ok_def)
    have k1: "req_inv n (insert d X) P W q1" using req_inv_upd(1) [OF k a(2)] f1 by (simp add: q1_def)
    have dst1: "fs_dsts q1 d = fd_acked_tslots_update (\<lambda>_. ?t) ?f" by (simp add: q1_def upd_fd_def)
    have ok: "fpq_ack_entry now a q = Some (if fd_requested_tslots (fs_dsts q1 d) \<noteq> fd_demand_tslots (fs_dsts q1 d)
        then unreq_dsts_enqueue_if_not_queued now d q1 else q1)"
      using True a(1,3) F(4) by (simp add: fpq_ack_entry_def Let_def q1_def word_less_nat_alt not_less)
    show ?thesis
    proof (cases "fd_requested_tslots ?f = fd_demand_tslots ?f")
      case False
      have "req_inv n (insert d X - {d}) P W (unreq_dsts_enqueue_if_not_queued now d q1)" by (rule req_inv_enqueue [OF k1 a(2)])
      then have "req_inv n X P W (unreq_dsts_enqueue_if_not_queued now d q1)" by (rule req_inv_mono) auto
      then show ?thesis using ok False dst1 by simp
    next
      case eq: True
      have ne: "fd_acked_tslots ?f \<noteq> fd_requested_tslots ?f" using t a(3) by auto
      have "settled W d (fs_dsts q1 d)" if "d \<notin> X"
        using req_invD(3) [OF inv a(2) that] eq ne by (auto simp: settled_def e dst1)
      then have "req_inv n X P W q1" using k1 by (auto simp: req_inv_def)
      then show ?thesis using ok eq dst1 by simp
    qed
  qed
qed

lemma neg_ack_entry_ok:
  assumes inv: "req_inv n X P (entry_requests a \<union> W) q"
    and a: "get_dst (ucast (areq_src_dst_key a)) = Some d" "d < MAX_FLOWS" "unat (areq_tslots a) \<le> unat (fd_requested_tslots (fs_dsts q d))"
  shows "returns (fpq_neg_ack_entry now a q) (req_inv n X P W)"
proof -
  let ?f = "fs_dsts q d" and ?t = "areq_tslots a"
  note F = flow_okD [OF req_invD(2) [OF inv a(2)]] and e = entry_requestsD [OF a(1)]
  have "settled W x (fs_dsts q x)" if "x < MAX_FLOWS" "x \<notin> insert d X" for x
    using req_invD(3) [OF inv that(1)] that(2) by (auto simp: settled_def e)
  then have keep: "req_inv n (insert d X) P W q" using inv by (auto simp: req_inv_def)
  show ?thesis
  proof (cases "?t \<le> fd_acked_tslots ?f")
    case True
    then have "settled W d ?f" if "d \<notin> X"
      using req_invD(3) [OF inv a(2) that] F(3) a(3) by (auto simp: settled_def e word_le_nat_alt unat_eq_iff)
    then have "req_inv n X P W q" using keep by (auto simp: req_inv_def)
    then show ?thesis using True a(1) by (simp add: fpq_neg_ack_entry_def)
  next
    case False
    have "req_inv n (insert d X - {d}) P W (unreq_dsts_enqueue_if_not_queued now d q)" by (rule req_inv_enqueue [OF keep a(2)])
    then have "req_inv n X P W (unreq_dsts_enqueue_if_not_queued now d q)" by (rule req_inv_mono) auto
    then show ?thesis using False a(1) by (simp add: fpq_neg_ack_entry_def)
  qed
qed

lemma handle_acks_ok:
  assumes inv: "req_inv n X P (requests pd \<union> W) q" and pd: "pd \<in> P"
  shows "returns (fpq_handle_ack now pd q) (req_inv n X P W)" "returns (fpq_handle_neg_ack now pd q) (req_inv n X P W)"
proof -
  let ?I = "\<lambda>ys q. set ys \<subseteq> set (areqs pd) \<and> req_inv n X P ((\<Union>a \<in> set ys. entry_requests a) \<union> W) q"
  have step: "req_inv n X P (entry_requests y \<union> ((\<Union>a \<in> set ys. entry_requests a) \<union> W)) q \<and>
      (\<exists>d < MAX_FLOWS. get_dst (ucast (areq_src_dst_key y)) = Some d \<and> unat (areq_tslots y) \<le> unat (fd_requested_tslots (fs_dsts q d)))"
    if "?I (y # ys) q" for y ys q
  proof -
    have "y \<in> set (areqs pd)" "pds_ok P q" using that by (auto simp: req_inv_def)
    then show ?thesis using that pd by (auto simp: pds_ok_def Un_assoc)
  qed
  have start: "?I (areqs pd) q" using inv by (simp add: requests_def)
  have "returns (for_each (fpq_ack_entry now) (areqs pd) q) (?I [])"
  proof (rule returns_for_each [where I = ?I])
    show "returns (fpq_ack_entry now y q) (?I ys)" if "?I (y # ys) q" for y ys q
      using step [OF that] that by (auto intro!: returns_mono [OF ack_entry_ok])
  qed (rule start)
  then show "returns (fpq_handle_ack now pd q) (req_inv n X P W)" by (simp add: fpq_handle_ack_def)
  have "returns (for_each (fpq_neg_ack_entry now) (areqs pd) q) (?I [])"
  proof (rule returns_for_each [where I = ?I])
    show "returns (fpq_neg_ack_entry now y q) (?I ys)" if "?I (y # ys) q" for y ys q
      using step [OF that] that by (auto intro!: returns_mono [OF neg_ack_entry_ok])
  qed (rule start)
  then show "returns (fpq_handle_neg_ack now pd q) (req_inv n X P W)" by (simp add: fpq_handle_neg_ack_def)
qed

section \<open>Demand\<close>

text \<open>More demand, and lost allocations, which count as used and are asked for again.\<close>

lemma flow_inc_demand_ok:
  assumes inv: "req_inv n X P W q" and d: "d < MAX_FLOWS" and m: "flow_ok k (fs_dsts q d\<lparr>fd_demand_tslots := fd_demand_tslots (fs_dsts q d) + m\<rparr>)" and k: "k \<le> n"
  shows "req_inv k X P W (flow_inc_demand now d m q)"
proof -
  have "flow_ok k (fs_dsts q x)" if "x < MAX_FLOWS" for x using req_invD(2) [OF inv that] k by (simp add: flow_ok_def)
  then have inv: "req_inv k X P W q" using inv by (simp add: req_inv_def)
  let ?q1 = "upd_fd d (\<lambda>dst. dst\<lparr>fd_demand_tslots := fd_demand_tslots dst + m\<rparr>) q"
  have "req_inv k (insert d X) P W ?q1" using req_inv_upd(1) [OF inv d] m by simp
  from req_inv_enqueue [OF this d, of now] have "req_inv k X P W (unreq_dsts_enqueue_if_not_queued now d ?q1)" by (rule req_inv_mono) auto
  then show ?thesis by (simp add: flow_inc_demand_def Let_def req_inv_cong [of "q\<lparr>fs_demand_tslots := v\<rparr>" q for q v])
qed

lemma add_timeslot_ok:
  assumes inv: "req_inv (Suc n) X P W q" and d: "d < MAX_FLOWS"
  shows "req_inv n X P W (flow_inc_demand now d 1 q)"
proof (rule flow_inc_demand_ok [OF inv d])
  let ?f = "fs_dsts q d"
  note F = flow_okD [OF req_invD(2) [OF inv d]]
  have "unat (fd_demand_tslots ?f) < 2 ^ 62" using F(6,7) by linarith
  then have u: "unat (fd_demand_tslots ?f + 1) = unat (fd_demand_tslots ?f) + 1" by (simp add: unat_word_ariths)
  have "load (?f\<lparr>fd_demand_tslots := fd_demand_tslots ?f + 1\<rparr>) = load ?f + 1" using F(2) by (simp add: load_def u)
  then show "flow_ok n (?f\<lparr>fd_demand_tslots := fd_demand_tslots ?f + 1\<rparr>)" using F(1-6) by (simp add: flow_ok_def u)
qed simp

text \<open>How many allocations a report says were lost.\<close>

lemma sint_diff_u64:
  fixes x y :: u64
  assumes "unat x < unat y + 2 ^ 63" "unat y < unat x + 2 ^ 63"
  shows "sint (x - y) = int (unat x) - int (unat y)"
proof -
  have k: "sint (of_int k :: u64) = k" if "- (2 ^ 63) \<le> k" "k < 2 ^ 63" for k using that by (simp add: signed_of_int signed_take_bit_int_eq_self)
  have "x - y = of_int (int (unat x) - int (unat y))" by simp
  moreover have "- (2 ^ 63) \<le> int (unat x) - int (unat y)" "int (unat x) - int (unat y) < 2 ^ 63"
    using assms by (simp_all only: numeral_power_eq_of_nat_cancel_iff flip: of_nat_less_iff [where 'a = int] of_nat_le_iff [where 'a = int]) simp_all
  ultimately show ?thesis using k by metis
qed

lemma full_alloc_count_near:
  assumes "0 < sint (full_alloc_count a c - a)"
  shows "unat (full_alloc_count a c - a) < 2 ^ 15"
proof -
  define y :: u64 where "y = ucast (c - ucast (a - 32768))"
  have eq: "full_alloc_count a c - a = y - 32768" by (simp add: full_alloc_count_def Let_def y_def)
  have y: "unat y < 65536" unfolding y_def by (simp add: unat_ucast_up)
  have "sint (y - 32768) = int (unat y) - int (unat (32768 :: u64))" by (rule sint_diff_u64) (use y in simp_all)
  then have "32768 < int (unat y)" using assms eq by (simp del: int_nat_eq uint_nat)
  then have ge: "32768 \<le> unat y" by linarith
  then have "unat (y - 32768) = unat y - 32768" by (subst unat_sub) (simp_all add: word_le_nat_alt)
  then show ?thesis using y eq by simp
qed

text \<open>The flow after lost allocations were added.\<close>

definition lost :: "u64 \<Rightarrow> fp_dst \<Rightarrow> fp_dst" where
  "lost m f = f\<lparr>fd_alloc_tslots := fd_alloc_tslots f + m, fd_used_tslots := fd_used_tslots f + m, fd_demand_tslots := fd_demand_tslots f + m\<rparr>"

lemma lost_ok:
  assumes f: "flow_ok n f" and pos: "0 < sint (cnt - fd_alloc_tslots f)" and le: "\<not> 0 < sint (cnt - fd_requested_tslots f)"
    and cnt: "cnt = full_alloc_count (fd_alloc_tslots f) c"
  shows "flow_ok n (lost (cnt - fd_alloc_tslots f) f)"
proof -
  let ?u = "fd_used_tslots f" and ?d = "fd_demand_tslots f" and ?r = "fd_requested_tslots f"
  let ?m = "cnt - ?u"
  note F = flow_okD [OF f]
  have m: "unat ?m < 2 ^ 15" using full_alloc_count_near [of ?u c] pos by (simp add: cnt F(1))
  have b: "unat ?u < 2 ^ 62" "unat ?d < 2 ^ 62" "unat ?r < 2 ^ 62" using F(2,4,6,7) by linarith+
  have um: "unat (?u + ?m) = unat ?u + unat ?m" using b(1) m by (subst unat_add_lem [THEN iffD1]) simp_all
  have "cnt = ?u + ?m" by simp
  then have uc: "unat cnt = unat ?u + unat ?m" using um by simp
  have "sint (cnt - ?r) = int (unat cnt) - int (unat ?r)"
    by (rule sint_diff_u64) (use b m uc le in simp_all)
  then have le': "unat ?u + unat ?m \<le> unat ?r" using le uc by linarith
  have dm: "unat (?d + ?m) = unat ?d + unat ?m" using b(2) m by (subst unat_add_lem [THEN iffD1]) simp_all
  have "load (lost ?m f) \<le> load f" using le' F(2) uc by (simp add: load_def lost_def dm)
  then show ?thesis using F le' uc dm by (simp add: flow_ok_def lost_def)
qed

end
