(* ===== verification/Sch_Demand.thy ===== *)
theory Sch_Demand
  imports Sch_Req Sch_Props
begin

text \<open>
  No demand of the end node is forgotten: the invariant of the requests through resets, allocations, reports, transmissions and
  receptions, in any run of the end node.
\<close>

section \<open>What the time slot queues keep\<close>

lemma dst_lookup_priv: "dst_lookup k mem key False q = Some (r, q') \<Longrightarrow> tq_priv q' = tq_priv q"
  by (auto simp: dst_lookup_def Let_def bind_eq_Some_conv split: if_splits)

lemma tsq_reset_ids_priv: "tsq_reset_ids k key q = Some q' \<Longrightarrow> tq_priv q' = tq_priv q"
  by (auto simp: tsq_reset_ids_def Let_def hash_tbl_lock_def hash_tbl_unlock_def bind_eq_Some_conv case_prod_beta dest!: dst_lookup_priv split: if_split_asm)

lemma fs_conn_frames [simp]:
  "fs_conn (upd_fd d f q) = fs_conn q" "fs_conn (fpq_count u q) = fs_conn q" "fs_conn (trigger_tx now q) = fs_conn q"
  "fs_conn (unreq_dsts_enqueue_if_not_queued now d q) = fs_conn q" "fs_conn (fpq_set_retrans_timer t q) = fs_conn q"
  "fs_conn (fpq_cancel_retrans_timer q) = fs_conn q" "fs_conn (count_enqueue prm a b q) = fs_conn q" "fs_conn (flow_inc_used d m q) = fs_conn q"
  "fs_conn (flow_inc_demand now d m q) = fs_conn q"
  by (auto simp: upd_fd_def fpq_count_def trigger_tx_def unreq_dsts_enqueue_if_not_queued_def fpq_set_retrans_timer_def fpq_cancel_retrans_timer_def
      count_enqueue_def flow_inc_used_def flow_inc_demand_def Let_def)

lemma tq_priv_on_fp [simp]: "tq_priv (on_fp f s) = f (tq_priv s)"
  by (simp add: on_fp_def)

section \<open>Resets\<close>

lemma reset_counters_ok:
  assumes "flow_ok n f"
  shows "flow_ok n (f\<lparr>fd_demand_tslots := fd_demand_tslots f - fd_used_tslots f, fd_alloc_tslots := 0, fd_acked_tslots := 0,
    fd_requested_tslots := 0, fd_used_tslots := 0\<rparr>)"
proof -
  note F = flow_okD [OF assms]
  have "unat (fd_demand_tslots f - fd_used_tslots f) = unat (fd_demand_tslots f) - unat (fd_used_tslots f)"
    using F(2) by (simp add: unat_sub word_le_nat_alt)
  then show ?thesis using F(6) by (simp add: flow_ok_def load_def)
qed

lemma reset_flow_ok:
  assumes run: "reset_flow k now d s = Some s'" and d: "d < MAX_FLOWS"
    and inv: "req_inv n {} {} UNIV (tq_priv s)" "req_inv n X {} {} (tq_priv s)"
  shows "req_inv n {} {} UNIV (tq_priv s') \<and> req_inv n (X - {d}) {} {} (tq_priv s') \<and> fs_conn (tq_priv s') = fs_conn (tq_priv s)"
proof (cases "fd_demand_tslots (fs_dsts (tq_priv s) d) = fd_used_tslots (fs_dsts (tq_priv s) d)")
  case True
  then have s': "s' = s" using run by (simp add: reset_flow_def Let_def)
  have "settled {} d (fs_dsts (tq_priv s) d)" using req_invD(3) [OF inv(1) d] True by (auto simp: settled_def)
  then have "req_inv n (X - {d}) {} {} (tq_priv s)" using inv(2) by (auto simp: req_inv_def)
  then show ?thesis using inv(1) s' by simp
next
  case False
  let ?f = "fs_dsts (tq_priv s) d"
  let ?g = "\<lambda>dst. dst\<lparr>fd_demand_tslots := fd_demand_tslots ?f - fd_used_tslots ?f, fd_alloc_tslots := 0, fd_acked_tslots := 0, fd_requested_tslots := 0, fd_used_tslots := 0\<rparr>"
  define q1 where "q1 = (upd_fd d ?g (tq_priv s))\<lparr>fs_demand_tslots := fs_demand_tslots (upd_fd d ?g (tq_priv s)) + ucast (fd_demand_tslots ?f - fd_used_tslots ?f)\<rparr>"
  have s': "tq_priv s' = unreq_dsts_enqueue_if_not_queued now d q1"
    using run False by (auto simp: reset_flow_def Let_def q1_def dest: tsq_reset_ids_priv)
  have up: "req_inv n (Y - {d}) {} V (tq_priv s')" if "req_inv n Y {} V (tq_priv s)" for Y V
  proof -
    have "flow_ok n (?g ?f)" by (rule reset_counters_ok [OF req_invD(2) [OF that d]])
    then have "req_inv n (insert d Y) {} V (upd_fd d ?g (tq_priv s))" by (intro req_inv_upd(1) [OF that d]) simp_all
    then have "req_inv n (insert d Y) {} V q1" using req_inv_cong [of q1 "upd_fd d ?g (tq_priv s)"] by (simp add: q1_def)
    from req_inv_enqueue [OF this d, of now] show ?thesis by (simp add: s')
  qed
  show ?thesis using up [OF inv(1)] up [OF inv(2)] by (simp add: s') (simp add: q1_def)
qed

text \<open>The loop over the flows starts anywhere and gets to all of them.\<close>

lemma reset_covers:
  fixes b :: u32
  assumes "d < MAX_FLOWS"
  shows "\<exists>i < MAX_FLOWS. d = unat ((of_nat i + b) AND (of_nat MAX_FLOWS - 1) :: u32)"
proof -
  have m: "of_nat MAX_FLOWS - 1 = (mask 8 :: u32)" by (simp add: MAX_FLOWS_256 mask_eq_exp_minus_1)
  have u: "unat (x AND mask 8 :: u32) = unat x mod 256" for x :: u32
    by (simp add: unat_mod flip: take_bit_eq_mask) (simp add: take_bit_eq_mod unat_mod)
  let ?i = "(d + 256 - unat b mod 256) mod 256"
  have lt: "unat b mod 256 < 256" by simp
  have "(of_nat ?i + b :: u32) = of_nat (?i + unat b)" by simp
  then have "unat ((of_nat ?i + b :: u32) AND mask 8) = ((?i + unat b) mod 2 ^ 32) mod 256" unfolding u by (simp only: unat_of_nat) simp
  also have "\<dots> = (?i + unat b) mod 256" by (simp add: mod_mod_cancel)
  also have "\<dots> = (d + 256 - unat b mod 256 + unat b mod 256) mod 256" by (metis mod_add_eq mod_mod_trivial)
  also have "\<dots> = d" using assms lt by (simp add: MAX_FLOWS_256)
  finally show ?thesis unfolding m by (intro exI [of _ ?i]) (simp add: MAX_FLOWS_256)
qed

lemma reset_index: "unat (x AND (of_nat MAX_FLOWS - 1) :: u32) < MAX_FLOWS"
proof -
  have "x AND (of_nat MAX_FLOWS - 1) \<le> (255 :: u32)" by (simp add: MAX_FLOWS_256 word_and_le1)
  then show ?thesis by (simp add: word_le_nat_alt MAX_FLOWS_256)
qed

lemma reset_flows_ok:
  "for_each (\<lambda>i. reset_flow k now (g i)) xs s = Some s' \<Longrightarrow> \<forall>i. g i < MAX_FLOWS \<Longrightarrow> req_inv n {} {} UNIV (tq_priv s) \<Longrightarrow> req_inv n X {} {} (tq_priv s) \<Longrightarrow>
   req_inv n (X - g ` set xs) {} {} (tq_priv s') \<and> fs_conn (tq_priv s') = fs_conn (tq_priv s)"
proof (induction xs arbitrary: s X)
  case (Cons x xs)
  from Cons.prems(1) obtain s1 where s1: "reset_flow k now (g x) s = Some s1" "for_each (\<lambda>i. reset_flow k now (g i)) xs s1 = Some s'"
    by (auto simp: bind_eq_Some_conv)
  note r = reset_flow_ok [OF s1(1) Cons.prems(2) [THEN spec] Cons.prems(3,4)]
  have "X - {g x} - g ` set xs = X - g ` set (x # xs)" by auto
  then show ?case using Cons.IH [OF s1(2) Cons.prems(2), of "X - {g x}"] r by simp
qed simp

lemma handle_reset_ok:
  assumes run: "fpq_handle_reset k now s = Some s'" and inv: "req_inv n {} P W (tq_priv s)"
  shows "req_inv n {} {} {} (tq_priv s') \<and> fs_conn (tq_priv s') = fs_conn (tq_priv s)"
proof -
  define g where "g i = unat ((of_nat i + (k_jhash_1word k (ucast now) 0 AND (of_nat MAX_FLOWS - 1))) AND (of_nat MAX_FLOWS - 1) :: u32)" for i
  let ?z = "\<lambda>q. q\<lparr>fs_demand_tslots := 0, fs_requested_tslots := 0, fs_alloc_tslots := 0, fs_acked_tslots := 0, fs_used_tslots := 0\<rparr>"
  have run': "for_each (\<lambda>i. reset_flow k now (g i)) [0 ..< MAX_FLOWS] (on_fp ?z s) = Some s'"
    using run by (simp add: fpq_handle_reset_def Let_def g_def)
  have z: "req_inv n X Q V (?z (tq_priv s)) = req_inv n X Q V (tq_priv s)" for X Q V by (rule req_inv_cong) simp
  have cov: "{..< MAX_FLOWS} - g ` set [0 ..< MAX_FLOWS] = {}"
  proof -
    have "d \<in> g ` set [0 ..< MAX_FLOWS]" if "d < MAX_FLOWS" for d
      using reset_covers [OF that, of "k_jhash_1word k (ucast now) 0 AND (of_nat MAX_FLOWS - 1)"] by (auto simp: g_def)
    then show ?thesis by blast
  qed
  have idx: "\<forall>i. g i < MAX_FLOWS" using reset_index by (simp add: g_def)
  have "req_inv n {} {} UNIV (tq_priv s)" by (rule req_inv_mono [OF inv]) simp_all
  moreover have "req_inv n {..< MAX_FLOWS} {} {} (tq_priv s)" using inv by (auto simp: req_inv_def pds_ok_def)
  ultimately show ?thesis using reset_flows_ok [OF run' idx, of n "{..< MAX_FLOWS}", unfolded cov] by (simp add: z)
qed

section \<open>Allocations\<close>

lemma use_alloc_req:
  assumes run: "use_alloc k prm now full cur dst s = Some s'" and node: "node_inv k s" and inv: "req_inv n {} P W (tq_priv s)"
  shows "req_inv n {} P W (tq_priv s') \<and> fs_conn (tq_priv s') = fs_conn (tq_priv s)"
proof -
  define d where "d = unat dst"
  from run have d: "d < MAX_FLOWS" "get_dst (ucast dst) = Some d" by (simp_all add: use_alloc_def get_dst_u16 d_def split: if_splits)
  let ?f = "fs_dsts (tq_priv s) d" and ?g = "\<lambda>dst. dst\<lparr>fd_used_tslots := fd_used_tslots dst + 1, fd_alloc_tslots := fd_alloc_tslots dst + 1\<rparr>"
  show ?thesis
  proof (cases "fd_used_tslots ?f = fd_demand_tslots ?f")
    case True
    then have "s' = on_fp (fpq_count fc_unwanted_alloc_update) s" using run d(2) by (simp add: use_alloc_def)
    then show ?thesis using inv req_inv_cong [of "fpq_count fc_unwanted_alloc_update (tq_priv s)" "tq_priv s"] by simp
  next
    case False
    define q1 where "q1 = upd_fd d (\<lambda>dst. dst\<lparr>fd_alloc_tslots := fd_alloc_tslots dst + 1\<rparr>) (flow_inc_used d 1 (tq_priv s))"
    have ts: "tsq_inv k s" and c: "counts_ok (slots k s) (tq_priv s)" using node by (simp_all add: node_inv_def)
    let ?s1 = "s\<lparr>tq_priv := q1\<rparr>"
    have s1: "tsq_inv k ?s1" "slots k ?s1 (ucast dst) \<noteq> []"
      using tsq.set_priv_ok [OF ts, of q1] counts_okD(2) [OF c d(1)] False by (simp_all add: d_def)
    from tsq.admit_ok [OF s1, of "fastpass_tsq_ops k now"] obtain s2 where
      s2: "tsq_admit k (fastpass_tsq_ops k now) (ucast dst) ?s1 = Some (1, s2)" "tq_priv s2 = q1" by auto
    have e: "tq_priv s' = count_enqueue prm full cur ((fpq_count fc_admitted_timeslots_update q1)\<lparr>fs_alloc_tslots := fs_alloc_tslots (fpq_count fc_admitted_timeslots_update q1) + 1\<rparr>)"
      using run d(2) False s2 by (auto simp: use_alloc_def handle_single_alloc_def on_fp_def [of _ s] q1_def)
    note fo = req_invD(2) [OF inv d(1)] note F = flow_okD [OF fo]
    have lt: "unat (fd_used_tslots ?f) < unat (fd_demand_tslots ?f)" using F(2) False by (simp add: le_neq_trans unat_eq_iff)
    have "unat (fd_demand_tslots ?f) < 2 ^ 62" using F(6,7) by linarith
    then have u: "unat (fd_used_tslots ?f + 1) = unat (fd_used_tslots ?f) + 1" using lt by (simp add: unat_word_ariths)
    have "flow_ok n (?g ?f)" using F lt by (simp add: flow_ok_def load_def u)
    moreover have "settled W d (?g ?f)"
      using req_invD(3) [OF inv d(1)] False by (auto simp: settled_def)
    ultimately have "req_inv n {} P W (upd_fd d ?g (tq_priv s))" by (intro req_inv_upd(2) [OF inv d(1)]) simp_all
    moreover have "req_part q1 = req_part (upd_fd d ?g (tq_priv s))" by (simp add: req_part_def q1_def upd_fd_def flow_inc_used_def)
    then have "req_part (tq_priv s') = req_part (upd_fd d ?g (tq_priv s))" by (simp add: e)
    ultimately show ?thesis using req_inv_cong [of "tq_priv s'" "upd_fd d ?g (tq_priv s)"] by (simp add: e) (simp add: q1_def)
  qed
qed

lemma alloc_loop_req:
  "alloc_loop k prm now full cur dst_ids specs s = Some s' \<Longrightarrow> node_inv k s \<Longrightarrow> req_inv n {} P W (tq_priv s) \<Longrightarrow>
   req_inv n {} P W (tq_priv s') \<and> fs_conn (tq_priv s') = fs_conn (tq_priv s)"
proof (induction specs arbitrary: s)
  case (Cons spec specs)
  show ?case
  proof (cases "unat (drop_bit 4 spec) = 0 \<or> length dst_ids < unat (drop_bit 4 spec)")
    case False
    let ?d = "dst_ids ! (unat (drop_bit 4 spec) - 1)"
    from Cons.prems(1) False obtain s1 where s1: "use_alloc k prm now full cur ?d s = Some s1" "alloc_loop k prm now full cur dst_ids specs s1 = Some s'"
      by (auto simp: Let_def bind_eq_Some_conv)
    then have "unat ?d < MAX_FLOWS" by (simp add: use_alloc_def get_dst_u16 split: if_splits)
    then have "node_inv k s1" using use_alloc_ok [OF Cons.prems(2), of ?d prm now full cur] s1(1) quiet_inv by (auto simp: returns_def)
    then show ?thesis using Cons.IH [OF s1(2)] use_alloc_req [OF s1(1) Cons.prems(2,3)] by simp
  qed (use Cons in \<open>auto simp: Let_def\<close>)
qed simp

lemma handle_alloc_req:
  assumes "fpq_handle_alloc k prm now now_real base dst_ids tslots m s = Some s'" "node_inv k s" "req_inv n {} P W (tq_priv s)"
  shows "req_inv n {} P W (tq_priv s') \<and> fs_conn (tq_priv s') = fs_conn (tq_priv s)"
proof -
  let ?s = "on_fp (trigger_tx now) s"
  have "node_inv k ?s" using quiet_inv [OF quiet_on_fp [OF assms(2), of "trigger_tx now"]] by simp
  moreover have "req_inv n {} P W (tq_priv ?s)" using assms(3) req_inv_cong [of "trigger_tx now (tq_priv s)" "tq_priv s"] by simp
  ultimately show ?thesis using assms(1) alloc_loop_req by (fastforce simp: fpq_handle_alloc_def Let_def)
qed

section \<open>Demand and connection\<close>

text \<open>The packets are those of the connection, and the requests under way those of the packets that await their acknowledgement.\<close>

definition demand_ok :: "nat \<Rightarrow> end_node \<Rightarrow> bool" where
  "demand_ok n s \<longleftrightarrow> tracked (fs_conn (tq_priv s))
     \<and> req_inv n {} (ran (unacked (fs_conn (tq_priv s)))) (\<Union>(requests ` awaits (fs_conn (tq_priv s)))) (tq_priv s)"

lemma demand_ok_same:
  assumes "demand_ok n s" "req_part (tq_priv s') = req_part (tq_priv s)" "fs_conn (tq_priv s') = fs_conn (tq_priv s)"
  shows "demand_ok n s'"
  using assms(1) req_inv_cong [OF assms(2)] by (simp add: demand_ok_def assms(3))

lemma demand_ok_reset:
  assumes "req_inv n {} {} {} (tq_priv s)" "tracked (fs_conn (tq_priv s))" "unacked (fs_conn (tq_priv s)) = Map.empty"
  shows "demand_ok n s"
proof -
  have "awaits (fs_conn (tq_priv s)) = {}" using awaits_unacked [of "fs_conn (tq_priv s)"] assms(3) by simp
  then show ?thesis using assms by (simp add: demand_ok_def)
qed

lemma enqueue_req_part:
  assumes "req_part q' = req_part q"
  shows "req_part (unreq_dsts_enqueue_if_not_queued now d q') = req_part (unreq_dsts_enqueue_if_not_queued now d q)"
  using assms by (simp add: req_part_def unreq_dsts_enqueue_if_not_queued_def upd_fd_def trigger_tx_def)

text \<open>Lost allocations.\<close>

lemma lost_req_part:
  "req_part (flow_inc_demand now d m (flow_inc_used d m (upd_fd d (\<lambda>dst. dst\<lparr>fd_alloc_tslots := fd_alloc_tslots dst + m\<rparr>) q)))
   = req_part (unreq_dsts_enqueue_if_not_queued now d (upd_fd d (lost m) q))"
proof -
  have "req_part (upd_fd d (\<lambda>dst. dst\<lparr>fd_demand_tslots := fd_demand_tslots dst + m\<rparr>)
      (flow_inc_used d m (upd_fd d (\<lambda>dst. dst\<lparr>fd_alloc_tslots := fd_alloc_tslots dst + m\<rparr>) q))) = req_part (upd_fd d (lost m) q)"
    by (simp add: req_part_def upd_fd_def flow_inc_used_def lost_def)
  from enqueue_req_part [OF this, of now d] show ?thesis by (simp add: flow_inc_demand_def Let_def)
qed

lemma areq_loop_req: "fpq_areq_loop cfg k now now_real xs s = Some s' \<Longrightarrow> demand_ok n s \<Longrightarrow> demand_ok n s'"
proof (induction xs arbitrary: s)
  case (Cons x xs)
  obtain dst_id count_low where x: "x = (dst_id, count_low)" by (cases x)
  from Cons.prems(1) obtain d where dst: "get_dst (ucast dst_id) = Some d" by (auto simp: x bind_eq_Some_conv)
  note d = get_dst_less [OF dst]
  let ?f = "fs_dsts (tq_priv s) d"
  define cnt where "cnt = full_alloc_count (fd_alloc_tslots ?f) count_low"
  note run = Cons.prems(1) [unfolded x fpq_areq_loop.simps dst Option.bind.bind_lunit Let_def, folded cnt_def]
  have tr: "tracked (fs_conn (tq_priv s))"
    and inv: "req_inv n {} (ran (unacked (fs_conn (tq_priv s)))) (\<Union>(requests ` awaits (fs_conn (tq_priv s)))) (tq_priv s)"
    using Cons.prems(2) by (simp_all add: demand_ok_def)
  consider "\<not> 0 < sint (cnt - fd_alloc_tslots ?f)" | "0 < sint (cnt - fd_alloc_tslots ?f)" "0 < sint (cnt - fd_requested_tslots ?f)"
    | "0 < sint (cnt - fd_alloc_tslots ?f)" "\<not> 0 < sint (cnt - fd_requested_tslots ?f)" by blast
  then show ?case
  proof cases
    case 1
    then show ?thesis using run Cons.IH Cons.prems(2) by simp
  next
    case 2
    let ?s1 = "on_fp (fpq_count fc_alloc_report_larger_than_requested_update) s"
    from run 2 obtain conn where conn: "fpproto_force_reset cfg (fs_conn (tq_priv s)) now_real = Some conn"
      "fpq_handle_reset k now (on_fp (fs_conn_update (\<lambda>_. conn)) ?s1) = Some s'" by (auto simp: bind_eq_Some_conv)
    have c: "tracked conn" "unacked conn = Map.empty" using force_tracked [OF tr, of cfg now_real] conn(1) by auto
    have "req_inv n {} (ran (unacked (fs_conn (tq_priv s)))) (\<Union>(requests ` awaits (fs_conn (tq_priv s)))) (tq_priv (on_fp (fs_conn_update (\<lambda>_. conn)) ?s1))"
      using inv req_inv_cong [of "tq_priv (on_fp (fs_conn_update (\<lambda>_. conn)) ?s1)" "tq_priv s"] by simp
    from handle_reset_ok [OF conn(2) this] show ?thesis using c by (intro demand_ok_reset) simp_all
  next
    case 3
    define m where "m = cnt - fd_alloc_tslots ?f"
    define g where "g = (\<lambda>q. let q = upd_fd d (\<lambda>dst. dst\<lparr>fd_alloc_tslots := fd_alloc_tslots dst + m\<rparr>) q;
                                q = flow_inc_demand now d m (flow_inc_used d m q)
                            in q\<lparr>fs_alloc_tslots := fs_alloc_tslots q + ucast m,
                                 fs_stat := fc_timeslots_assumed_lost_update (\<lambda>k. k + m) (fs_stat q)\<rparr>)"
    have r: "fpq_areq_loop cfg k now now_real xs (on_fp g s) = Some s'" using run 3 by (simp add: g_def Let_def m_def)
    let ?q = "unreq_dsts_enqueue_if_not_queued now d (upd_fd d (lost m) (tq_priv s))"
    have p: "req_part (g (tq_priv s)) = req_part ?q" by (simp add: g_def Let_def lost_req_part)
    have fo: "flow_ok n (lost m ?f)" unfolding m_def by (rule lost_ok [OF req_invD(2) [OF inv d] 3 cnt_def])
    have "req_inv n {d} (ran (unacked (fs_conn (tq_priv s)))) (\<Union>(requests ` awaits (fs_conn (tq_priv s)))) (upd_fd d (lost m) (tq_priv s))"
      by (rule req_inv_upd(1) [OF inv d]) (use fo in \<open>simp_all add: lost_def\<close>)
    from req_inv_enqueue [OF this d, of now] have "demand_ok n (on_fp g s)"
      using tr req_inv_cong [OF p] by (simp add: demand_ok_def) (simp add: g_def Let_def)
    then show ?thesis by (rule Cons.IH [OF r])
  qed
qed simp

section \<open>Calls of the protocol\<close>

lemma acks_conn:
  "fpq_handle_ack now pd q = Some q' \<Longrightarrow> fs_conn q' = fs_conn q" "fpq_handle_neg_ack now pd q = Some q' \<Longrightarrow> fs_conn q' = fs_conn q"
proof -
  have a: "fs_conn y = fs_conn x" if "fpq_ack_entry now a x = Some y" for a x y
    using that by (auto simp: fpq_ack_entry_def bind_eq_Some_conv Let_def split: if_splits)
  show "fpq_handle_ack now pd q = Some q' \<Longrightarrow> fs_conn q' = fs_conn q" unfolding fpq_handle_ack_def
    by (erule for_each_invariant [where I = "\<lambda>x. fs_conn x = fs_conn q"]) (simp_all add: a)
  have n: "fs_conn y = fs_conn x" if "fpq_neg_ack_entry now a x = Some y" for a x y
    using that by (auto simp: fpq_neg_ack_entry_def bind_eq_Some_conv)
  show "fpq_handle_neg_ack now pd q = Some q' \<Longrightarrow> fs_conn q' = fs_conn q" unfolding fpq_handle_neg_ack_def
    by (erule for_each_invariant [where I = "\<lambda>x. fs_conn x = fs_conn q"]) (simp_all add: n)
qed

text \<open>One callback about packets \<open>P\<close>, of which \<open>A\<close> await their acknowledgement.\<close>

lemma event_req:
  assumes node: "node_inv (fq_kernel c) s" and inv: "req_inv n {} P (\<Union>(requests ` A)) (tq_priv s)" and about: "about P [e]"
  shows "returns (fastpass_sch_proto_ops c e s) (\<lambda>s'. req_inv n {} (left_over P [e]) (\<Union>(requests ` (left_over A [e] - reported [e]))) (tq_priv s')
    \<and> fs_conn (tq_priv s') = fs_conn (tq_priv s))"
proof -
  have same: ?thesis if "fastpass_sch_proto_ops c e s = Some s'" "req_part (tq_priv s') = req_part (tq_priv s)" "fs_conn (tq_priv s') = fs_conn (tq_priv s)"
    "e \<noteq> Handle_reset" "reported [e] = {}" for s'
    using that inv req_inv_cong [OF that(2)] by (simp add: left_over_def)
  have drop: "req_inv n {} P (requests pd \<union> \<Union>(requests ` (A - {pd}))) (tq_priv s)" for pd by (rule req_inv_mono [OF inv]) auto
  have rep: "left_over P [e] = P \<and> left_over A [e] - reported [e] = A - {pd}" if "e = Handle_ack pd \<or> e = Handle_neg_ack pd" for pd
    using that by (auto simp: left_over_def reported_def)
  show ?thesis
  proof (cases e)
    case Handle_reset
    from handle_reset_quiet [OF node, of "fq_now c"] obtain s' where "fpq_handle_reset (fq_kernel c) (fq_now c) s = Some s'" by (rule returnsE)
    then show ?thesis using handle_reset_ok [OF _ inv] Handle_reset by (auto simp: left_over_def)
  next
    case (Handle_ack pd)
    then have "pd \<in> P" using about by simp
    from handle_acks_ok(1) [OF drop this, of "fq_now c"] obtain q where
      q: "fpq_handle_ack (fq_now c) pd (tq_priv s) = Some q" "req_inv n {} P (\<Union>(requests ` (A - {pd}))) q" by (rule returnsE)
    then show ?thesis using rep [of pd] acks_conn(1) [OF q(1)] Handle_ack by (simp add: on_fp_opt_def)
  next
    case (Handle_neg_ack pd)
    then have "pd \<in> P" using about by simp
    from handle_acks_ok(2) [OF drop this, of "fq_now c"] obtain q where
      q: "fpq_handle_neg_ack (fq_now c) pd (tq_priv s) = Some q" "req_inv n {} P (\<Union>(requests ` (A - {pd}))) q" by (rule returnsE)
    then show ?thesis using rep [of pd] acks_conn(2) [OF q(1)] Handle_neg_ack by (simp add: on_fp_opt_def)
  next
    case (Handle_alloc b ds ts m)
    then show ?thesis using about by simp
  next
    case (Handle_areq x m)
    then show ?thesis using about by simp
  qed (use same in \<open>simp_all add: reported_def\<close>)
qed

lemma events_req:
  assumes "node_inv (fq_kernel c) s" "req_inv n {} P (\<Union>(requests ` A)) (tq_priv s)" "about P es"
  shows "returns (for_each (fastpass_sch_proto_ops c) es s) (\<lambda>s'. node_inv (fq_kernel c) s'
    \<and> req_inv n {} (left_over P es) (\<Union>(requests ` (left_over A es - reported es))) (tq_priv s') \<and> fs_conn (tq_priv s') = fs_conn (tq_priv s))"
  using assms
proof (induction es arbitrary: s P A)
  case Nil
  then show ?case by (simp add: left_over_def reported_def)
next
  case (Cons e es)
  have ab: "about P [e]" "about (left_over P [e]) es" using about_append [of P "[e]" es] Cons.prems(3) by simp_all
  from event_req [OF Cons.prems(1,2) ab(1)] obtain s1 where s1: "fastpass_sch_proto_ops c e s = Some s1"
      "req_inv n {} (left_over P [e]) (\<Union>(requests ` (left_over A [e] - reported [e]))) (tq_priv s1)" "fs_conn (tq_priv s1) = fs_conn (tq_priv s)"
    by (auto elim!: returnsE)
  note n1 = quiet_inv [OF proto_ops_quiet [OF s1(1) Cons.prems(1)]]
  have eq: "left_over (left_over P [e]) es = left_over P (e # es)"
    "left_over (left_over A [e] - reported [e]) es - reported es = left_over A (e # es) - reported (e # es)"
    by (auto simp: left_over_def reported_def)
  show ?case using Cons.IH [OF n1 s1(2) ab(2), unfolded eq s1(3)] s1(1) by simp
qed

text \<open>A call of the protocol and its callbacks.\<close>

lemma fpq_conn_req:
  assumes node: "node_inv (fq_kernel c) s" and inv: "req_inv n {} P (\<Union>(requests ` A)) (tq_priv s)"
    and run: "f (fs_conn (tq_priv s)) = Some (r, conn)" and es: "c_log conn = c_log (fs_conn (tq_priv s)) @ es" "about P es"
    and conn: "tracked conn" "ran (unacked conn) \<subseteq> left_over P es" "left_over A es - reported es \<subseteq> awaits conn"
  shows "returns (fpq_conn c f s) (\<lambda>(r', s'). r' = r \<and> node_inv (fq_kernel c) s' \<and> demand_ok n s' \<and> fs_conn (tq_priv s') = conn)"
proof -
  let ?s = "on_fp (fs_conn_update (\<lambda>_. conn)) s"
  have "node_inv (fq_kernel c) ?s" using quiet_inv [OF quiet_on_fp [OF node, of "fs_conn_update (\<lambda>_. conn)"]] by simp
  moreover have "req_inv n {} P (\<Union>(requests ` A)) (tq_priv ?s)" using inv req_inv_cong [of "tq_priv ?s" "tq_priv s"] by simp
  ultimately obtain s' where s': "for_each (fastpass_sch_proto_ops c) es ?s = Some s'" "node_inv (fq_kernel c) s'" "fs_conn (tq_priv s') = conn"
      "req_inv n {} (left_over P es) (\<Union>(requests ` (left_over A es - reported es))) (tq_priv s')"
    using events_req [of c ?s n P A es, OF _ _ es(2)] by (auto elim!: returnsE)
  have "req_inv n {} (ran (unacked conn)) (\<Union>(requests ` awaits conn)) (tq_priv s')"
    by (rule req_inv_mono [OF s'(4)]) (use conn(2,3) in auto)
  then show ?thesis using run s' es(1) conn(1) by (simp add: fpq_conn_def demand_ok_def)
qed

lemma fpq_conn_tells:
  assumes "node_inv (fq_kernel c) s" "demand_ok n s" "f (fs_conn (tq_priv s)) = Some (r, conn)" "tells (fs_conn (tq_priv s)) conn"
  shows "returns (fpq_conn c f s) (\<lambda>(r', s'). r' = r \<and> node_inv (fq_kernel c) s' \<and> demand_ok n s' \<and> fs_conn (tq_priv s') = conn)"
proof -
  let ?c = "fs_conn (tq_priv s)"
  from assms(4) obtain es where es: "tracked conn" "c_log conn = c_log ?c @ es" "about (ran (unacked ?c)) es"
      "ran (unacked conn) \<subseteq> left_over (ran (unacked ?c)) es" "left_over (awaits ?c) es - reported es \<subseteq> awaits conn"
    unfolding tells_def by blast
  show ?thesis by (rule fpq_conn_req [OF assms(1)]) (use assms(2,3) es in \<open>simp_all add: demand_ok_def\<close>)
qed

text \<open>The payloads of a packet.\<close>

lemma payload_event_req:
  assumes run: "fastpass_sch_proto_ops c e s = Some s'" and node: "node_inv (fq_kernel c) s" and inv: "demand_ok n s"
    and e: "(\<exists>b ds ts m. e = Handle_alloc b ds ts m) \<or> (\<exists>x m. e = Handle_areq x m)"
  shows "demand_ok n s'"
  using e
proof (elim disjE exE)
  fix b ds ts m assume "e = Handle_alloc b ds ts m"
  then show ?thesis using run inv handle_alloc_req [OF _ node] by (fastforce simp: demand_ok_def)
next
  fix x m assume "e = Handle_areq x m"
  then show ?thesis using run demand_ok_same [OF inv, of "on_fp (trigger_tx (fq_now c)) s"] areq_loop_req by (simp add: fpq_handle_areq_def)
qed

lemma demand_ok_conn:
  assumes inv: "demand_ok n s" and p: "req_part (tq_priv s') = req_part (tq_priv s)"
    and eq: "c_outwnd (fs_conn (tq_priv s')) = c_outwnd (fs_conn (tq_priv s))" "c_unacked_pkts (fs_conn (tq_priv s')) = c_unacked_pkts (fs_conn (tq_priv s))"
      "c_next_timeout_seqno (fs_conn (tq_priv s')) = c_next_timeout_seqno (fs_conn (tq_priv s))" "c_ops (fs_conn (tq_priv s')) = c_ops (fs_conn (tq_priv s))"
  shows "demand_ok n s'"
proof -
  note u = unacked_cong [OF eq(1,2)]
  have "tracked (fs_conn (tq_priv s')) = tracked (fs_conn (tq_priv s))" "awaits (fs_conn (tq_priv s')) = awaits (fs_conn (tq_priv s))"
    using u by (simp_all add: tracked_def timeout_in_reach_def awaits_def eq)
  then show ?thesis using inv u(1) req_inv_cong [OF p] by (simp add: demand_ok_def)
qed

lemma fpq_conn_payload:
  assumes run: "fpq_conn c f s = Some (r, s')" and node: "node_inv (fq_kernel c) s" and inv: "demand_ok n s"
    and f: "f (fs_conn (tq_priv s)) = Some (r0, conn)" "payload_calls (fs_conn (tq_priv s)) conn"
  shows "demand_ok n s'"
proof -
  let ?c = "fs_conn (tq_priv s)" and ?s = "on_fp (fs_conn_update (\<lambda>_. conn)) s"
  from f(2) obtain es where es: "c_log conn = c_log ?c @ es" "\<forall>e \<in> set es. (\<exists>b ds ts m. e = Handle_alloc b ds ts m) \<or> (\<exists>x m. e = Handle_areq x m)"
    and eq: "c_outwnd conn = c_outwnd ?c" "c_unacked_pkts conn = c_unacked_pkts ?c" "c_next_timeout_seqno conn = c_next_timeout_seqno ?c" "c_ops conn = c_ops ?c"
    unfolding payload_calls_def by blast
  have r: "for_each (fastpass_sch_proto_ops c) es ?s = Some s'" using run f(1) es(1) by (auto simp: fpq_conn_def bind_eq_Some_conv)
  have start: "demand_ok n ?s" by (rule demand_ok_conn [OF inv]) (simp_all add: eq)
  have n: "node_inv (fq_kernel c) ?s" using quiet_inv [OF quiet_on_fp [OF node, of "fs_conn_update (\<lambda>_. conn)"]] by simp
  have "node_inv (fq_kernel c) s' \<and> demand_ok n s'"
    by (rule for_each_invariant [OF r, where I = "\<lambda>s. node_inv (fq_kernel c) s \<and> demand_ok n s"])
      (use n start es(2) payload_event_req quiet_inv [OF proto_ops_quiet] in blast)+
  then show ?thesis by blast
qed

section \<open>Sending\<close>

definition packet :: "fpproto_pktdesc \<Rightarrow> fpproto_areq_desc list \<Rightarrow> fpproto_pktdesc" where
  "packet pd out = pd\<lparr>pd_n_areq := of_nat (length out), pd_areq := out\<rparr>"

definition modest :: "fp_sched_data \<Rightarrow> bool" where
  "modest q \<longleftrightarrow> (\<forall>d < MAX_FLOWS. unat (fd_demand_tslots (fs_dsts q d)) < 2 ^ 61)"

lemma areqs_packet: "length out \<le> FASTPASS_PKT_MAX_AREQ \<Longrightarrow> areqs (packet pd out) = out"
  by (simp add: packet_def FASTPASS_PKT_MAX_AREQ_def unat_of_nat)

lemma get_dst_of_nat: "d < MAX_FLOWS \<Longrightarrow> get_dst (ucast (of_nat d :: u64)) = Some d"
  by (simp add: get_dst_def MAX_FLOWS_256 unsigned_ucast_eq unsigned_of_nat take_bit_nat_eq_self)

text \<open>The new total of a flow that is taken from the queue.\<close>

abbreviation new_total :: "fp_dst \<Rightarrow> u64" where
  "new_total f \<equiv> min (fd_demand_tslots f) (fd_acked_tslots f + FASTPASS_REQUEST_WINDOW_SIZE - 1)"

lemma new_total_unat:
  assumes "flow_ok n f"
  shows "unat (new_total f) = min (unat (fd_demand_tslots f)) (unat (fd_acked_tslots f) + 8191)"
proof -
  note F = flow_okD [OF assms]
  have "unat (fd_acked_tslots f) < 2 ^ 62" using F(3,4,6,7) by linarith
  then have "unat (fd_acked_tslots f + 8191) = unat (fd_acked_tslots f) + 8191" by (simp add: unat_word_ariths)
  moreover have "fd_acked_tslots f + FASTPASS_REQUEST_WINDOW_SIZE - 1 = fd_acked_tslots f + 8191" by (simp add: FASTPASS_REQUEST_WINDOW_SIZE_def)
  ultimately show ?thesis by (simp only:) (simp add: min_def word_le_nat_alt)
qed

lemma new_total_ok:
  assumes f: "flow_ok 0 f" and m: "unat (fd_demand_tslots f) < 2 ^ 61" and new: "\<not> new_total f \<le> fd_acked_tslots f"
  shows "flow_ok 0 (f\<lparr>fd_requested_tslots := new_total f\<rparr>)" "unat (fd_requested_tslots f) \<le> unat (new_total f)"
    "(d, new_total f) \<in> W \<Longrightarrow> settled W d (f\<lparr>fd_requested_tslots := new_total f\<rparr>)"
proof -
  note F = flow_okD [OF f] and u = new_total_unat [OF f]
  have a: "unat (fd_acked_tslots f) < unat (new_total f)" using new by (simp add: word_le_nat_alt)
  have le: "unat (new_total f) \<le> unat (fd_demand_tslots f)" "unat (new_total f) \<le> unat (fd_acked_tslots f) + 8191" unfolding u by simp_all
  have "load (f\<lparr>fd_requested_tslots := new_total f\<rparr>) \<le> 2 * unat (fd_demand_tslots f)" using F(2) le(1) by (simp add: load_def)
  then have "load (f\<lparr>fd_requested_tslots := new_total f\<rparr>) < 2 ^ 62" using m by simp
  then show "flow_ok 0 (f\<lparr>fd_requested_tslots := new_total f\<rparr>)" using F(1-3) a le by (simp add: flow_ok_def)
  show "unat (fd_requested_tslots f) \<le> unat (new_total f)" unfolding u using F(4,5) by simp
  have "new_total f = fd_demand_tslots f \<or> unat (new_total f) = unat (fd_acked_tslots f) + 8191" using u by (auto simp: min_def unat_eq_iff)
  then show "(d, new_total f) \<in> W \<Longrightarrow> settled W d (f\<lparr>fd_requested_tslots := new_total f\<rparr>)" by (auto simp: settled_def)
qed

lemma already_acked:
  assumes "flow_ok n f" "new_total f \<le> fd_acked_tslots f"
  shows "settled W d f"
proof -
  note F = flow_okD [OF assms(1)]
  have "unat (fd_demand_tslots f) \<le> unat (fd_acked_tslots f)" using assms(2) unfolding word_le_nat_alt new_total_unat [OF assms(1)] by simp
  then have "fd_requested_tslots f = fd_demand_tslots f" "fd_acked_tslots f = fd_requested_tslots f" using F(3,4) by (simp_all add: unat_eq_iff)
  then show ?thesis by (simp add: settled_def)
qed

lemma requests_packet: "length out \<le> FASTPASS_PKT_MAX_AREQ \<Longrightarrow> requests (packet pd out) = (\<Union>a \<in> set out. entry_requests a)"
  by (simp add: requests_def areqs_packet)

lemma req_inv_extend:
  assumes inv: "req_inv n X (insert (packet pd out) P) (requests (packet pd out) \<union> W) q" and len: "length out < FASTPASS_PKT_MAX_AREQ"
    and a: "get_dst (ucast (areq_src_dst_key a)) = Some d" "d < MAX_FLOWS" "unat (areq_tslots a) \<le> unat (fd_requested_tslots (fs_dsts q d))"
  shows "req_inv n X (insert (packet pd (out @ [a])) P) (requests (packet pd (out @ [a])) \<union> W) q"
proof -
  have "pds_ok (insert (packet pd (out @ [a])) P) q"
    using req_invD(4) [OF inv] a len by (auto simp: pds_ok_def areqs_packet)
  moreover have "req_inv n X (insert (packet pd out) P) (requests (packet pd (out @ [a])) \<union> W) q"
    by (rule req_inv_mono [OF inv]) (use len in \<open>auto simp: requests_packet\<close>)
  ultimately show ?thesis by (simp add: req_inv_def)
qed

lemma request_loop_req:
  assumes "req_inv 0 {} (insert (packet pd out) P) (requests (packet pd out) \<union> W) q" "modest q" "length out \<le> FASTPASS_PKT_MAX_AREQ"
  shows "returns (request_loop q out) (\<lambda>(out', q'). req_inv 0 {} (insert (packet pd out') P) (requests (packet pd out') \<union> W) q'
    \<and> fs_conn q' = fs_conn q \<and> length out' \<le> FASTPASS_PKT_MAX_AREQ)"
  using assms
proof (induction "unat (n_unreq_dsts q)" arbitrary: q out rule: less_induct)
  case less
  note inv = less.prems(1) and unf = request_loop.simps [of q out]
  show ?case
  proof (cases "length out < FASTPASS_PKT_MAX_AREQ \<and> unreq_dsts_dequeue_and_get q \<noteq> None")
    case True
    then obtain d q1 where dq: "unreq_dsts_dequeue_and_get q = Some (d, q1)" by auto
    have len: "length out < FASTPASS_PKT_MAX_AREQ" using True by blast
    note D = req_inv_dequeue [OF inv dq] and fewer = dequeue_fewer [OF dq]
    have conn: "fs_conn q1 = fs_conn q" using dq by (auto simp: unreq_dsts_dequeue_and_get_def Let_def split: if_splits)
    have m1: "modest q1" using less.prems(2) by (simp add: modest_def D(3))
    let ?f = "fs_dsts q1 d"
    note fo = req_invD(2) [OF D(4,1)]
    have md: "unat (fd_demand_tslots ?f) < 2 ^ 61" using m1 D(1) by (simp add: modest_def)
    show ?thesis
    proof (cases "new_total ?f \<le> fd_acked_tslots ?f")
      case acked: True
      let ?q2 = "fpq_count fc_queued_flow_already_acked_update q1"
      have run: "request_loop q out = request_loop ?q2 out" using unf True dq acked by (simp add: Let_def)
      have "req_inv 0 {} (insert (packet pd out) P) (requests (packet pd out) \<union> W) q1" using D(4) already_acked [OF fo acked] by (auto simp: req_inv_def)
      then have "req_inv 0 {} (insert (packet pd out) P) (requests (packet pd out) \<union> W) ?q2" using req_inv_cong [of ?q2 q1] by simp
      moreover have "modest ?q2" "n_unreq_dsts ?q2 = n_unreq_dsts q1" using m1 by (simp_all add: modest_def fpq_count_def n_unreq_dsts_def)
      ultimately show ?thesis using less.hyps [of ?q2 out] fewer less.prems(3) conn by (simp add: run)
    next
      case False
      let ?a = "\<lparr>areq_src_dst_key = of_nat d, areq_tslots = new_total ?f\<rparr>"
      let ?q2 = "q1\<lparr>fs_requested_tslots := fs_requested_tslots q1 + (new_total ?f - fd_requested_tslots ?f)\<rparr>"
      let ?q3 = "upd_fd d (fd_requested_tslots_update (\<lambda>_. new_total ?f)) ?q2"
      have run: "request_loop q out = request_loop ?q3 (out @ [?a])" using unf True dq False by (simp add: Let_def)
      note N = new_total_ok [OF fo md False]
      have "req_inv 0 {d} (insert (packet pd out) P) (requests (packet pd out) \<union> W) ?q2" using D(4) req_inv_cong [of ?q2 q1] by simp
      from req_inv_upd(1) [OF this D(1), of "fd_requested_tslots_update (\<lambda>_. new_total ?f)"] N(1,2)
      have "req_inv 0 {d} (insert (packet pd out) P) (requests (packet pd out) \<union> W) ?q3" by simp
      moreover have g: "get_dst (ucast (areq_src_dst_key ?a)) = Some d" using get_dst_of_nat [OF D(1)] by simp
      moreover have f3: "fs_dsts ?q3 d = ?f\<lparr>fd_requested_tslots := new_total ?f\<rparr>" by (simp add: upd_fd_def)
      ultimately have "req_inv 0 {d} (insert (packet pd (out @ [?a])) P) (requests (packet pd (out @ [?a])) \<union> W) ?q3"
        by (intro req_inv_extend [OF _ len _ D(1)]) simp_all
      moreover have "(d, new_total ?f) \<in> requests (packet pd (out @ [?a]))" using len g by (simp add: requests_packet entry_requests_def)
      then have "settled (requests (packet pd (out @ [?a])) \<union> W) d (fs_dsts ?q3 d)" unfolding f3 by (intro N(3)) blast
      ultimately have "req_inv 0 {} (insert (packet pd (out @ [?a])) P) (requests (packet pd (out @ [?a])) \<union> W) ?q3" by (auto simp: req_inv_def)
      moreover have "modest ?q3" "n_unreq_dsts ?q3 = n_unreq_dsts q1" using m1 by (simp_all add: modest_def upd_fd_def n_unreq_dsts_def)
      ultimately show ?thesis using less.hyps [of ?q3 "out @ [?a]"] fewer len conn by (simp add: run)
    qed
  next
    case False
    then have "request_loop q out = Some (out, q)" using unf by (cases "unreq_dsts_dequeue_and_get q") auto
    then show ?thesis using less.prems by simp
  qed
qed

end
