(* ===== verification/Sch_Run.thy ===== *)
theory Sch_Run
  imports Sch_Demand
begin

text \<open>
  The requests of the end node over whole runs: transmissions, timeouts, receptions and new packets keep the invariant of
  \<open>Sch_Demand\<close>, and no transmission or timeout fails an assertion.
\<close>

section \<open>Room\<close>

text \<open>The invariant has room for \<open>n\<close> more packets; demands that are not huge give much of it.\<close>

definition room :: nat where "room = 2 ^ 61"

lemma req_inv_less: "req_inv n X P W q \<Longrightarrow> m \<le> n \<Longrightarrow> req_inv m X P W q"
  by (auto simp: req_inv_def flow_ok_def)

lemma demand_ok_less: "demand_ok n s \<Longrightarrow> m \<le> n \<Longrightarrow> demand_ok m s"
  unfolding demand_ok_def by (blast intro: req_inv_less)

lemma req_inv_modest:
  assumes "req_inv room X P W q"
  shows "modest q"
proof -
  have "unat (fd_demand_tslots (fs_dsts q d)) < 2 ^ 61" if "d < MAX_FLOWS" for d
    using flow_okD(6,7) [OF req_invD(2) [OF assms that]] by (simp add: room_def)
  then show ?thesis by (simp add: modest_def)
qed

definition low :: "end_node \<Rightarrow> bool" where
  "low s \<longleftrightarrow> (\<forall>d < MAX_FLOWS. unat (fd_demand_tslots (fs_dsts (tq_priv s) d)) < 2 ^ 60) \<and> w_head (c_outwnd (fs_conn (tq_priv s))) \<noteq> - 1
     \<and> length (tq_enqueue_skb_q s) < 2 ^ 60"

lemma demand_ok_low:
  assumes "demand_ok 0 s" "low s"
  shows "demand_ok room s"
proof -
  have "flow_ok room (fs_dsts (tq_priv s) d)" if d: "d < MAX_FLOWS" for d
  proof -
    let ?f = "fs_dsts (tq_priv s) d"
    have f: "flow_ok 0 ?f" using assms(1) d by (simp add: demand_ok_def req_inv_def)
    note F = flow_okD [OF f]
    have "load ?f \<le> 2 * unat (fd_demand_tslots ?f)" using F(2,4) by (simp add: load_def)
    moreover have "unat (fd_demand_tslots ?f) < 2 ^ 60" using assms(2) d by (simp add: low_def)
    ultimately have "load ?f + room < 2 ^ 62" by (simp add: room_def)
    then show ?thesis using f by (simp add: flow_ok_def)
  qed
  then show ?thesis using assms(1) by (simp add: demand_ok_def req_inv_def)
qed

section \<open>Transmission\<close>

lemma pds_ok_same: "areqs pd = areqs pd' \<Longrightarrow> pds_ok (insert pd P) q = pds_ok (insert pd' P) q"
  by (simp add: pds_ok_def)

lemma req_inv_same_areqs:
  assumes "areqs pd = areqs pd'" "req_inv n X (insert pd P) (requests pd \<union> W) q"
  shows "req_inv n X (insert pd' P) (requests pd' \<union> W) q"
  using assms(2) pds_ok_same [OF assms(1)] by (simp add: req_inv_def requests_def assms(1))

lemma request_packet:
  assumes "demand_ok room s"
  shows "returns (request_loop (tq_priv s) []) (\<lambda>(out, q). req_inv 0 {} (insert (packet pd out) (ran (unacked (fs_conn (tq_priv s)))))
      (requests (packet pd out) \<union> \<Union>(requests ` awaits (fs_conn (tq_priv s)))) q \<and> fs_conn q = fs_conn (tq_priv s) \<and> flow_balance q = flow_balance (tq_priv s))"
proof -
  let ?P = "ran (unacked (fs_conn (tq_priv s)))" and ?W = "\<Union>(requests ` awaits (fs_conn (tq_priv s)))"
  have inv: "req_inv room {} ?P ?W (tq_priv s)" using assms by (simp add: demand_ok_def)
  have "pds_ok (insert (packet pd []) ?P) (tq_priv s)" "requests (packet pd []) = {}"
    using req_invD(4) [OF inv] by (auto simp: pds_ok_def requests_def packet_def)
  then have "req_inv 0 {} (insert (packet pd []) ?P) (requests (packet pd []) \<union> ?W) (tq_priv s)"
    using req_inv_less [OF inv, of 0] by (simp add: req_inv_def)
  from request_loop_req [OF this req_inv_modest [OF inv]] request_loop_returns [of "tq_priv s" "[]"] show ?thesis
    by (auto simp: returns_def)
qed

lemma commit_req:
  assumes node: "node_inv (fq_kernel c) s" and conn: "tracked (fs_conn (tq_priv s))" "w_head (c_outwnd (fs_conn (tq_priv s))) \<noteq> - 1"
      "unacked (fs_conn (tq_priv s)) (wnd_edge (c_outwnd (fs_conn (tq_priv s)))) = None"
    and inv: "req_inv n {} (insert pd (ran (unacked (fs_conn (tq_priv s))))) (requests pd \<union> \<Union>(requests ` awaits (fs_conn (tq_priv s)))) (tq_priv s)"
  shows "returns (fpq_conn c (\<lambda>conn. map_option (\<lambda>(conn, pd). (pd, conn)) (fpproto_commit_packet conn pd now)) s) (\<lambda>(pd', s'). demand_ok n s')"
proof -
  let ?c = "fs_conn (tq_priv s)"
  from commit_tracked [OF conn, of pd now] obtain c' pd' es where
    c': "fpproto_commit_packet ?c pd now = Some (c', pd')" "tracked c'" "c_log c' = c_log ?c @ es" "list_all plain es"
      "ran (unacked c') \<subseteq> insert pd' (ran (unacked ?c))" "insert pd' (awaits ?c) \<subseteq> awaits c'" by blast
  have "areqs pd = areqs pd'" using commit_fields(1,2) [OF c'(1)] by simp
  from req_inv_same_areqs [OF this inv] have inv': "req_inv n {} (insert pd' (ran (unacked ?c))) (\<Union>(requests ` insert pd' (awaits ?c))) (tq_priv s)" by simp
  note pl = plain_events [OF c'(4)]
  have "returns (fpq_conn c (\<lambda>conn. map_option (\<lambda>(conn, pd). (pd, conn)) (fpproto_commit_packet conn pd now)) s)
      (\<lambda>(r', s'). r' = pd' \<and> node_inv (fq_kernel c) s' \<and> demand_ok n s' \<and> fs_conn (tq_priv s') = c')"
    by (rule fpq_conn_req [OF node inv' _ c'(3) pl(1) c'(2)]) (use c'(1,5,6) pl(2,3) in simp_all)
  then show ?thesis by (rule returns_mono) auto
qed

lemma send_request_req:
  assumes node: "node_inv (fq_kernel c) s" and inv: "demand_ok room s" and head: "w_head (c_outwnd (fs_conn (tq_priv s))) \<noteq> - 1"
  shows "returns (send_request c pd s) (\<lambda>(r, s'). demand_ok 0 s')"
proof (cases pd)
  case None
  then show ?thesis using demand_ok_same [OF demand_ok_less [OF inv, of 0]] by (simp add: send_request_def)
next
  case (Some pd0)
  show ?thesis
  proof (cases "fs_is_destroyed (tq_priv s)")
    case True
    then show ?thesis using Some demand_ok_less [OF inv, of 0] by (simp add: send_request_def)
  next
    case False
    let ?prep = "\<lambda>conn. map_option (Pair ()) (fpproto_prepare_to_send conn)"
    have "tracked (fs_conn (tq_priv s))" using inv by (simp add: demand_ok_def)
    from tells_prepare [OF this] obtain c1 where c1: "fpproto_prepare_to_send (fs_conn (tq_priv s)) = Some c1" "tells (fs_conn (tq_priv s)) c1"
      "unacked c1 (wnd_edge (c_outwnd c1)) = None" "w_head (c_outwnd c1) = w_head (c_outwnd (fs_conn (tq_priv s)))" by blast
    from fpq_conn_tells [OF node inv _ c1(2), of ?prep "()"] c1(1) obtain s1 where
      s1: "fpq_conn c ?prep s = Some ((), s1)" "node_inv (fq_kernel c) s1" "demand_ok room s1" "fs_conn (tq_priv s1) = c1" by (auto elim!: returnsE)
    from request_packet [OF s1(3), of pd0] obtain out q where q: "request_loop (tq_priv s1) [] = Some (out, q)"
        "req_inv 0 {} (insert (packet pd0 out) (ran (unacked c1))) (requests (packet pd0 out) \<union> \<Union>(requests ` awaits c1)) q"
        "fs_conn q = c1" "flow_balance q = flow_balance (tq_priv s1)" by (auto simp: s1(4) elim!: returnsE)
    define q2 where "q2 = (if out = [] then fpq_count fc_request_with_empty_flowqueue_update q else q)"
    let ?s2 = "s1\<lparr>tq_priv := q2\<rparr>"
    have n2: "node_inv (fq_kernel c) ?s2" using quiet_inv [OF quiet_priv [OF s1(2), of q2]] q(4) by (simp add: q2_def)
    have p2: "req_part q2 = req_part q" "fs_conn q2 = c1" using q(3) by (simp_all add: q2_def)
    have t1: "tracked c1" using c1(2) by (simp add: tells_def)
    have "returns (fpq_conn c (\<lambda>conn. map_option (\<lambda>(conn, pd). (pd, conn)) (fpproto_commit_packet conn (packet pd0 out) (fq_now c))) ?s2)
        (\<lambda>(pd', s'). demand_ok 0 s')"
      by (rule commit_req [OF n2]) (use t1 c1(3,4) head q(2) req_inv_cong [OF p2(1)] in \<open>simp_all add: p2(2)\<close>)
    then obtain pd' s' where s': "fpq_conn c (\<lambda>conn. map_option (\<lambda>(conn, pd). (pd, conn)) (fpproto_commit_packet conn (packet pd0 out) (fq_now c))) ?s2 = Some (pd', s')"
      "demand_ok 0 s'" by (auto elim!: returnsE)
    have "demand_ok 0 (on_fp (trigger_tx (fq_now c)) s')" by (rule demand_ok_same [OF s'(2)]) simp_all
    then show ?thesis using Some False s1(1) q(1) s' by (simp add: send_request_def q2_def packet_def Let_def)
  qed
qed

section \<open>The tasklets\<close>

lemma maintenance_req:
  assumes "node_inv (fq_kernel c) s" "demand_ok room s" "w_head (c_outwnd (fs_conn (tq_priv s))) \<noteq> - 1"
  shows "returns (maintenance_tasklet_func c pd s) (\<lambda>(r, s'). demand_ok 0 s')"
proof -
  let ?s = "on_fp (fs_request_pacer_update pacer_reset) s"
  have "node_inv (fq_kernel c) ?s" using quiet_inv [OF quiet_on_fp [OF assms(1), of "fs_request_pacer_update pacer_reset"]] by simp
  moreover have "demand_ok room ?s" by (rule demand_ok_same [OF assms(2)]) simp_all
  ultimately have "returns (send_request c pd ?s) (\<lambda>(r, s'). demand_ok 0 s')" using assms(3) by (intro send_request_req) simp_all
  then show ?thesis using demand_ok_less [OF assms(2), of 0] by (simp add: maintenance_tasklet_func_def Let_def)
qed

lemma retrans_req:
  assumes "node_inv (fq_kernel c) s" "demand_ok n s"
  shows "returns (retrans_tasklet_func c s) (demand_ok n)"
proof -
  let ?f = "\<lambda>conn. map_option (Pair ()) (fpproto_handle_timeout conn (fq_now c))"
  have "tracked (fs_conn (tq_priv s))" using assms(2) by (simp add: demand_ok_def)
  from tells_timeout [OF this, of "fq_now c"] obtain c1 where
    c1: "fpproto_handle_timeout (fs_conn (tq_priv s)) (fq_now c) = Some c1" "tells (fs_conn (tq_priv s)) c1" by blast
  from fpq_conn_tells [OF assms _ c1(2), of ?f "()"] c1(1) obtain s1 where "fpq_conn c ?f s = Some ((), s1)" "demand_ok n s1" by (auto elim!: returnsE)
  then show ?thesis using assms(2) by (simp add: retrans_tasklet_func_def)
qed

lemma receive_req:
  assumes run: "ctrl_rcv_handler c addr pkt now' s = Some s'" and node: "node_inv (fq_kernel c) s" and inv: "demand_ok n s"
  shows "demand_ok n s'"
proof (cases "fs_is_destroyed (tq_priv s)")
  case True
  then show ?thesis using run inv by (simp add: ctrl_rcv_handler_def)
next
  case False
  let ?f = "\<lambda>conn. fpproto_handle_rx_packet (fq_cfg c) addr conn pkt (fq_now_real c) now'" and ?g = "\<lambda>conn. fpproto_perform_rx_callbacks (fq_cfg c) conn pkt"
  have "tracked (fs_conn (tq_priv s))" using inv by (simp add: demand_ok_def)
  from tells_rx_packet [OF this, of "fq_cfg c" addr pkt "fq_now_real c" now'] obtain ret c1 where
    c1: "?f (fs_conn (tq_priv s)) = Some (ret, c1)" "tells (fs_conn (tq_priv s)) c1" by blast
  from fpq_conn_tells [OF node inv, of ?f, OF c1] obtain s1 where s1: "fpq_conn c ?f s = Some (ret, s1)" "node_inv (fq_kernel c) s1" "demand_ok n s1"
    by (auto elim!: returnsE)
  show ?thesis
  proof (cases ret)
    case None
    then show ?thesis using run False s1 by (simp add: ctrl_rcv_handler_def)
  next
    case (Some in_seq)
    from run False s1(1) Some obtain ok s2 where s2: "fpq_conn c ?g s1 = Some (ok, s2)"
      "s' = s2 \<or> s' = on_fp (\<lambda>q. q\<lparr>fs_conn := fpproto_successful_rx (fs_conn q) in_seq\<rparr>) s2"
      by (auto simp: ctrl_rcv_handler_def bind_eq_Some_conv split: if_splits)
    from s2(1) obtain r0 c2 where c2: "?g (fs_conn (tq_priv s1)) = Some (r0, c2)" by (auto simp: fpq_conn_def Let_def bind_eq_Some_conv)
    then have "payload_calls (fs_conn (tq_priv s1)) c2" using handle_payload_calls by (auto simp: fpproto_perform_rx_callbacks_def bind_eq_Some_conv)
    note d2 = fpq_conn_payload [of c ?g, OF s2(1) s1(2,3) c2 this]
    have "demand_ok n (on_fp (\<lambda>q. q\<lparr>fs_conn := fpproto_successful_rx (fs_conn q) in_seq\<rparr>) s2)"
      by (rule demand_ok_conn [OF d2]) (simp_all add: req_part_def fpproto_successful_rx_def update_inwnd_def Let_def upd_stat_def)
    then show ?thesis using s2(2) d2 by blast
  qed
qed

section \<open>New packets\<close>

lemma enqueue_single_priv:
  assumes k: "kernel_ok k" and node: "node_inv k s" and run: "enqueue_single_skb k (fastpass_tsq_ops k now) True True skb s = Some s'"
  shows "tq_priv s' = (if joins k s skb then tq_priv s else flow_inc_demand now (unat (flow_key skb)) 1 (tq_priv s))"
proof -
  have ts: "tsq_inv k s" using node by (simp add: node_inv_def)
  have d: "unat (flow_key skb) < 64" by (simp add: flow_key_less)
  then have "unat (ucast (flow_key skb) :: u32) = unat (flow_key skb)" by (simp add: unsigned_ucast_eq unsigned_take_bit_eq take_bit_nat_eq_self)
  then have add: "op_add_timeslot (fastpass_tsq_ops k now) (flow_key skb) skb (tq_priv s) = Some (flow_inc_demand now (unat (flow_key skb)) 1 (tq_priv s))"
    using d by (simp add: fastpass_tsq_ops_def fpq_add_timeslot_def get_dst_def MAX_FLOWS_256)
  from enqueue_single_skb_ok [OF k ts add] run show ?thesis by auto
qed

lemma enqueue_single_req:
  assumes k: "kernel_ok k" and node: "node_inv k s" and run: "enqueue_single_skb k (fastpass_tsq_ops k now) True True skb s = Some s'"
    and inv: "demand_ok (Suc n) s"
  shows "demand_ok n s'"
proof -
  let ?q = "flow_inc_demand now (unat (flow_key skb)) 1 (tq_priv s)"
  have d: "unat (flow_key skb) < 64" by (simp add: flow_key_less)
  have "demand_ok n s" by (rule demand_ok_less [OF inv]) simp
  moreover have "demand_ok n (s\<lparr>tq_priv := ?q\<rparr>)"
    using inv d add_timeslot_ok [of n "{}" _ _ "tq_priv s" "unat (flow_key skb)"] by (simp add: demand_ok_def MAX_FLOWS_256)
  ultimately show ?thesis using enqueue_single_priv [OF k node run] by (simp add: demand_ok_def split: if_splits)
qed

lemma unsorted_node:
  assumes "node_inv k s"
  shows "node_inv k (s\<lparr>tq_enqueue_skb_q := []\<rparr>)" "slots k (s\<lparr>tq_enqueue_skb_q := []\<rparr>) = slots k s"
proof -
  have f: "same_flows s (s\<lparr>tq_enqueue_skb_q := []\<rparr>)" by (simp add: same_flows_def)
  show sl: "slots k (s\<lparr>tq_enqueue_skb_q := []\<rparr>) = slots k s" using same_flowsD(2) [OF f] by simp
  show "node_inv k (s\<lparr>tq_enqueue_skb_q := []\<rparr>)" using assms sl tsq_inv_same [OF f] by (simp add: node_inv_def)
qed

lemma enqueue_all_req:
  assumes k: "kernel_ok k"
  shows "for_each (\<lambda>(i, skb). enqueue_single_skb k (fastpass_tsq_ops k now) True True skb) (enumerate m skbs) s = Some s' \<Longrightarrow> node_inv k s \<Longrightarrow>
    list_all is_data skbs \<Longrightarrow> \<forall>x. length (slots k s x) + length skbs < 2 ^ 64 \<Longrightarrow> demand_ok (length skbs + n) s \<Longrightarrow> demand_ok n s'"
proof (induction skbs arbitrary: s m)
  case (Cons skb skbs)
  have "length (slots k s (flow_key skb)) + 1 < 2 ^ 64" using Cons.prems(4) [THEN spec, of "flow_key skb"] by simp
  from enqueue_single_skb_node [OF k Cons.prems(2) _ this, of now] Cons.prems(3) obtain s1 where
    s1: "enqueue_single_skb k (fastpass_tsq_ops k now) True True skb s = Some s1" "node_inv k s1" "\<And>x. length (slots k s1 x) \<le> length (slots k s x) + 1"
    by (auto elim!: returnsE)
  have d1: "demand_ok (length skbs + n) s1" by (rule enqueue_single_req [OF k Cons.prems(2) s1(1)]) (use Cons.prems(5) in simp)
  have "length (slots k s1 x) + length skbs < 2 ^ 64" for x using Cons.prems(4) [THEN spec, of x] s1(3) [of x] by simp
  then show ?case using Cons.IH [OF _ s1(2) _ _ d1] Cons.prems(1,3) s1(1) by simp
qed simp

lemma sort_req:
  assumes k: "kernel_ok k" and run: "enqueue_tasklet_func k (fastpass_tsq_ops k now) (\<lambda>_. (True, True)) s = Some s'" and node: "node_inv k s"
    and inv: "demand_ok (length (tq_enqueue_skb_q s)) s" and room: "\<forall>x. length (slots k s x) + length (tq_enqueue_skb_q s) < 2 ^ 64"
  shows "demand_ok 0 s'"
proof -
  let ?s = "s\<lparr>tq_enqueue_skb_q := []\<rparr>"
  note u = unsorted_node [OF node]
  have data: "list_all is_data (tq_enqueue_skb_q s)" using node by (simp add: node_inv_def list_all_iff)
  have "demand_ok (length (tq_enqueue_skb_q s) + 0) ?s" using inv by (simp add: demand_ok_def)
  then show ?thesis using enqueue_all_req [OF k _ u(1) data, of now 0 s' 0] run room by (simp add: enqueue_tasklet_func_def Let_def u(2))
qed

section \<open>Runs\<close>

text \<open>A run in which the counters stay away from their wrap.\<close>

inductive calm_run :: "kernel \<Rightarrow> end_node \<Rightarrow> end_node \<Rightarrow> bool" for k s0 where
  Start: "calm_run k s0 s0"
| Step: "calm_run k s0 s \<Longrightarrow> low s \<Longrightarrow> node_step k s i out s' \<Longrightarrow> calm_run k s0 s'"

lemma traffic_priv:
  "tsq_enqueue skb s = (r, s') \<Longrightarrow> tq_priv s' = tq_priv s" "tsq_dequeue s = (p, dropped, s') \<Longrightarrow> tq_priv s' = tq_priv s"
proof -
  show "tsq_enqueue skb s = (r, s') \<Longrightarrow> tq_priv s' = tq_priv s"
    using classify_hi_prio_frame [of s skb] by (cases "classify_hi_prio skb s") (auto simp: tsq_enqueue_def Let_def split: option.splits if_splits prio.splits)
  show "tsq_dequeue s = (p, dropped, s') \<Longrightarrow> tq_priv s' = tq_priv s"
    by (auto simp: tsq_dequeue_def skb_q_dequeue_def Let_def split: list.splits if_splits)
qed

lemma node_step_demand:
  assumes k: "kernel_ok k" and node: "node_inv k s" and inv: "demand_ok 0 s" and low: "low s" and step: "node_step k s i out s'"
  shows "demand_ok 0 s'"
proof -
  have big: "demand_ok room s" and head: "w_head (c_outwnd (fs_conn (tq_priv s))) \<noteq> - 1" using demand_ok_low [OF inv low] low by (simp_all add: low_def)
  have same: "demand_ok 0 s'" if "tq_priv s' = tq_priv s" using inv that by (simp add: demand_ok_def)
  have ts: "tsq_inv k s" using node by (simp add: node_inv_def)
  show ?thesis using step
  proof cases
    case (Enqueue skb r)
    then show ?thesis using traffic_priv(1) same by blast
  next
    case (Sort now)
    have "demand_ok (length (tq_enqueue_skb_q s)) s" by (rule demand_ok_less [OF big]) (use low in \<open>simp add: low_def room_def\<close>)
    then show ?thesis using sort_req [OF k Sort(4) node] Sort(3) by simp
  next
    case (Dequeue r dropped)
    then show ?thesis using traffic_priv(2) same by blast
  next
    case (Send c pd r)
    then show ?thesis using maintenance_req [of c s pd] node big head by (auto simp: returns_def)
  next
    case (Timeout c)
    then show ?thesis using retrans_req [of c s 0] node inv by (auto simp: returns_def)
  next
    case (Receive c addr pkt now')
    then show ?thesis using receive_req [of c addr pkt now' s s' 0] node inv by simp
  next
    case (Resize mem log err)
    then show ?thesis using tsq_tc_resize_ok [OF k ts, of mem log] same by (simp add: returns_def)
  next
    case (Collect now)
    then show ?thesis using tsq_garbage_collect_ok [OF k ts, of now] same by (simp add: returns_def)
  qed
qed

lemma boot_conn:
  assumes "node_boot c = Some (None, s)"
  shows "fs_dsts (tq_priv s) = fs_dsts zero_fp" "fs_unreq_dsts_head (tq_priv s) = fs_unreq_dsts_tail (tq_priv s)"
    "fpproto_init_conn (fq_cfg c) zero_conn fpq_ops (ucast (mp_reset_window_us (fq_params c)) * 1000) (ucast (mp_retrans_timeout_ns (fq_params c))) (fq_now_real c)
      = Some (fs_conn (tq_priv s))"
proof -
  have new: "fs_dsts p = fs_dsts q \<and> fs_unreq_dsts_head p = fs_unreq_dsts_tail p
      \<and> fpproto_init_conn (fq_cfg c) (fs_conn q) fpq_ops (ucast (mp_reset_window_us (fq_params c)) * 1000) (ucast (mp_retrans_timeout_ns (fq_params c))) (fq_now_real c)
        = Some (fs_conn p)" if "fpq_new_qdisc c True True mul shift q = Some (ok, p)" for q mul shift ok p
    using that by (auto simp: fpq_new_qdisc_def Let_def bind_eq_Some_conv)
  have "fs_conn zero_fp = zero_conn" by (simp add: zero_fp_def)
  with new [OF node_boot_ok(3) [OF assms]] show "fs_dsts (tq_priv s) = fs_dsts zero_fp" "fs_unreq_dsts_head (tq_priv s) = fs_unreq_dsts_tail (tq_priv s)"
    "fpproto_init_conn (fq_cfg c) zero_conn fpq_ops (ucast (mp_reset_window_us (fq_params c)) * 1000) (ucast (mp_retrans_timeout_ns (fq_params c))) (fq_now_real c)
      = Some (fs_conn (tq_priv s))" by simp_all
qed

lemma boot_demand:
  assumes "node_boot c = Some (None, s)"
  shows "demand_ok 0 s"
proof (rule demand_ok_reset)
  note b = boot_conn [OF assms]
  have "unreq_list (tq_priv s) = []" using b(2) by (simp add: unreq_list_def entries_def)
  then show "req_inv 0 {} {} {} (tq_priv s)"
    by (simp add: req_inv_def queue_ok_def pds_ok_def b(1)) (simp add: zero_fp_def flow_ok_def settled_def load_def)
  show "tracked (fs_conn (tq_priv s))" "unacked (fs_conn (tq_priv s)) = Map.empty"
    using init_tracked [of fpq_ops "fq_cfg c" "ucast (mp_reset_window_us (fq_params c)) * 1000" "ucast (mp_retrans_timeout_ns (fq_params c))" "fq_now_real c"] b(3)
    by (auto simp: fpq_ops_def)
qed

lemma calm_run_keeps:
  assumes k: "kernel_ok k" and init: "node_inv k s0" "demand_ok 0 s0"
  shows "calm_run k s0 s \<Longrightarrow> node_inv k s \<and> demand_ok 0 s"
proof (induction rule: calm_run.induct)
  case (Step s i out s')
  then show ?case using node_step_keeps [OF k _ Step.hyps(3)] node_step_demand [OF k] by blast
qed (use init in simp)

lemma in_requests:
  "(d, t) \<in> \<Union>(requests ` A) \<longleftrightarrow> (\<exists>pd \<in> A. \<exists>a \<in> set (areqs pd). get_dst (ucast (areq_src_dst_key a)) = Some d \<and> areq_tslots a = t)"
  unfolding requests_def entry_requests_def by blast

lemma settled_request:
  assumes "settled W d f" "flow_ok n f" "fd_used_tslots f \<noteq> fd_demand_tslots f" "fd_acked_tslots f \<noteq> fd_demand_tslots f"
  shows "fd_state f = FLOW_REQUEST_QUEUE \<or> (d, fd_requested_tslots f) \<in> W
    \<and> unat (fd_requested_tslots f) = min (unat (fd_demand_tslots f)) (unat (fd_acked_tslots f) + 8191)"
proof (cases "fd_state f = FLOW_REQUEST_QUEUE")
  case False
  note F = flow_okD(3-5) [OF assms(2)]
  have r: "fd_requested_tslots f = fd_demand_tslots f \<or> unat (fd_requested_tslots f) = unat (fd_acked_tslots f) + 8191"
    "fd_acked_tslots f \<noteq> fd_requested_tslots f \<longrightarrow> (d, fd_requested_tslots f) \<in> W" using assms(1,3) False by (simp_all add: settled_def)
  then have "fd_acked_tslots f \<noteq> fd_requested_tslots f" using assms(4) by auto
  moreover have "unat (fd_requested_tslots f) = min (unat (fd_demand_tslots f)) (unat (fd_acked_tslots f) + 8191)" using r(1) F by auto
  ultimately show ?thesis using r(2) by blast
qed simp

text \<open>
  C9. No demand is forgotten. In any run of the end node in which the 64-bit counters of the flows and the sequence numbers stay away from their wrap, whatever
  packets the network loses, doubles or delays and whatever the arbiter sends: a flow with waiting time slots that the arbiter has not acknowledged in
  full is in the queue of requests, or the last total it asked for is in a packet that is in flight and whose loss will be reported; that total is
  all of the demand, or the 8191 time slots beyond the acknowledged ones that the window allows. The queue has no flow twice. Sending
  requests and handling timeouts never fails an assertion.
\<close>

theorem no_demand_forgotten:
  assumes "kernel_ok (fq_kernel c)" "node_boot c = Some (None, s0)" "calm_run (fq_kernel c) s0 s"
    and "d < MAX_FLOWS" "slots (fq_kernel c) s (of_nat d) \<noteq> []"
  defines "q \<equiv> tq_priv s"
  defines "f \<equiv> fs_dsts q d"
  assumes "fd_acked_tslots f \<noteq> fd_demand_tslots f"
  shows "distinct (unreq_list q) \<and>
    (d \<in> set (unreq_list q) \<or>
     (\<exists>pd \<in> awaits (fs_conn q). \<exists>a \<in> set (areqs pd). get_dst (ucast (areq_src_dst_key a)) = Some d \<and> areq_tslots a = fd_requested_tslots f)
       \<and> unat (fd_requested_tslots f) = min (unat (fd_demand_tslots f)) (unat (fd_acked_tslots f) + 8191))
    \<and> (low s \<and> fq_kernel c' = fq_kernel c \<longrightarrow> maintenance_tasklet_func c' pd' s \<noteq> None \<and> retrans_tasklet_func c' s \<noteq> None)"
proof -
  have n: "node_inv (fq_kernel c) s" and inv: "demand_ok 0 s"
    using calm_run_keeps [OF assms(1) node_boot_ok(1) [OF assms(2)] boot_demand [OF assms(2)] assms(3)] by blast+
  have r: "req_inv 0 {} (ran (unacked (fs_conn q))) (\<Union>(requests ` awaits (fs_conn q))) q" using inv by (simp add: demand_ok_def q_def)
  have c: "counts_ok (slots (fq_kernel c) s) q" using n by (simp add: node_inv_def q_def)
  have u: "fd_used_tslots f \<noteq> fd_demand_tslots f" using counts_okD(2) [OF c assms(4)] assms(5) by (simp add: f_def)
  have "settled (\<Union>(requests ` awaits (fs_conn q))) d f" using req_invD(3) [OF r assms(4)] by (simp add: f_def)
  from settled_request [OF this _ u assms(8)] req_invD(2) [OF r assms(4)]
  have "fd_state f = FLOW_REQUEST_QUEUE \<or> (d, fd_requested_tslots f) \<in> \<Union>(requests ` awaits (fs_conn q))
      \<and> unat (fd_requested_tslots f) = min (unat (fd_demand_tslots f)) (unat (fd_acked_tslots f) + 8191)" by (simp add: f_def)
  moreover have "d \<in> set (unreq_list q) \<longleftrightarrow> fd_state f = FLOW_REQUEST_QUEUE" using queue_okD(2) [OF req_invD(1) [OF r], of d] assms(4) by (simp add: f_def)
  ultimately have "d \<in> set (unreq_list q) \<or>
     (\<exists>pd \<in> awaits (fs_conn q). \<exists>a \<in> set (areqs pd). get_dst (ucast (areq_src_dst_key a)) = Some d \<and> areq_tslots a = fd_requested_tslots f)
       \<and> unat (fd_requested_tslots f) = min (unat (fd_demand_tslots f)) (unat (fd_acked_tslots f) + 8191)"
    unfolding in_requests by blast
  moreover have "maintenance_tasklet_func c' pd' s \<noteq> None \<and> retrans_tasklet_func c' s \<noteq> None" if "low s" "fq_kernel c' = fq_kernel c"
    using maintenance_req [of c' s pd'] retrans_req [of c' s 0] n inv demand_ok_low [OF inv that(1)] that by (auto simp: returns_def low_def)
  ultimately show ?thesis using queue_okD(1) [OF req_invD(1) [OF r]] by blast
qed

lemma ex_boot_head:
  assumes "node_boot ex_call = Some (None, s0)"
  shows "w_head (c_outwnd (fs_conn (tq_priv s0))) \<noteq> - 1"
proof -
  have "w_head (c_outwnd (fs_conn (tq_priv s0))) = base_seqno_from_timestamp 100 + FASTPASS_EGRESS_SEQNO_OFFSET (fq_cfg ex_call) - 1"
    using boot_conn(3) [OF assms] init_spec [of "fq_cfg ex_call" fpq_ops "ucast (mp_reset_window_us (fq_params ex_call)) * 1000"
        "ucast (mp_retrans_timeout_ns (fq_params ex_call))" "fq_now_real ex_call"] by (auto simp: fresh_after_reset_def ex_call_def)
  also have "\<dots> \<noteq> - 1" by code_simp
  finally show ?thesis .
qed

text \<open>A packet to node 2 was sorted into its flow.\<close>

theorem no_demand_forgotten_witness:
  "\<exists>s0 s. node_boot ex_call = Some (None, s0) \<and> calm_run ex_kernel s0 s \<and> slots ex_kernel s 2 \<noteq> []
    \<and> fd_acked_tslots (fs_dsts (tq_priv s) 2) = 0 \<and> fd_demand_tslots (fs_dsts (tq_priv s) 2) = 1
    \<and> (2 \<in> set (unreq_list (tq_priv s)) \<or> (\<exists>pd \<in> awaits (fs_conn (tq_priv s)). \<exists>a \<in> set (areqs pd). get_dst (ucast (areq_src_dst_key a)) = Some 2))
    \<and> maintenance_tasklet_func ex_call None s \<noteq> None \<and> retrans_tasklet_func ex_call s \<noteq> None"
proof -
  have k: "fq_kernel ex_call = ex_kernel" by (simp add: ex_call_def)
  obtain s0 s1 s2 where s: "node_boot ex_call = Some (None, s0)" "tsq_enqueue ex_skb s0 = (NET_XMIT_SUCCESS, s1)" "node_inv ex_kernel s1"
    "slots ex_kernel s1 = (\<lambda>_. [])" "tq_enqueue_skb_q s0 = []" "tq_enqueue_skb_q s1 = [ex_skb]"
    "enqueue_tasklet_func ex_kernel (fastpass_tsq_ops ex_kernel 0) (\<lambda>_. (True, True)) s1 = Some s2" "tq_enqueue_skb_q s2 = []" "concat (slots ex_kernel s2 2) = [ex_skb]"
    by (rule ex_sorted)
  have room: "\<forall>x. length (slots ex_kernel s1 x) + length (tq_enqueue_skb_q s1) < 2 ^ 64" by (simp add: s(4,6))
  note steps = node_step.Enqueue [OF s(2), of ex_kernel] node_step.Sort [OF room s(7)]
  have p1: "tq_priv s1 = tq_priv s0" using traffic_priv(1) [OF s(2)] .
  have z: "fs_dsts (tq_priv s0) d = fs_dsts zero_fp d" for d using boot_conn(1) [OF s(1)] by simp
  have low: "low s0" "low s1" using ex_boot_head [OF s(1)] by (simp_all add: low_def p1 z s(5,6)) (simp_all add: zero_fp_def)
  have run: "calm_run ex_kernel s0 s2" using calm_run.Step [OF calm_run.Step [OF calm_run.Start low(1) steps(1)] low(2) steps(2)] .
  have w: "slots ex_kernel s2 2 \<noteq> []" using s(9) by auto
  have n2: "node_inv ex_kernel s2" using calm_run_keeps [OF ex_kernel_ok node_boot_ok(1) [OF s(1), unfolded k] boot_demand [OF s(1)] run] by blast
  let ?s = "s1\<lparr>tq_enqueue_skb_q := []\<rparr>"
  have single: "enqueue_single_skb ex_kernel (fastpass_tsq_ops ex_kernel 0) True True ex_skb ?s = Some s2"
    using s(7) by (auto simp: enqueue_tasklet_func_def Let_def s(6) bind_eq_Some_conv)
  have "fd_used_tslots (fs_dsts (tq_priv s2) 2) \<noteq> fd_demand_tslots (fs_dsts (tq_priv s2) 2)"
    using counts_okD(2) [of "slots ex_kernel s2" "tq_priv s2" 2] n2 w by (simp add: node_inv_def MAX_FLOWS_256)
  then have p2: "tq_priv s2 = flow_inc_demand 0 2 1 (tq_priv s0)"
    using enqueue_single_priv [OF ex_kernel_ok unsorted_node(1) [OF s(3)] single] by (auto simp: ex_skb_data p1 z zero_fp_def split: if_splits)
  have f2: "fs_dsts (tq_priv s2) d = (if d = 2 then fs_dsts (tq_priv s2) 2 else fs_dsts zero_fp d)"
      "fd_acked_tslots (fs_dsts (tq_priv s2) 2) = 0" "fd_demand_tslots (fs_dsts (tq_priv s2) 2) = 1" for d
    by (simp_all add: p2 flow_inc_demand_def Let_def unreq_dsts_enqueue_if_not_queued_def upd_fd_def trigger_tx_def z) (simp_all add: zero_fp_def)
  have "unat (fd_demand_tslots (fs_dsts (tq_priv s2) d)) < 2 ^ 60" for d using f2(3) by (subst f2(1)) (simp add: zero_fp_def)
  moreover have "fs_conn (tq_priv s2) = fs_conn (tq_priv s0)" by (simp add: p2)
  ultimately have low2: "low s2" using ex_boot_head [OF s(1)] by (simp add: low_def s(8))
  have "(2 :: nat) < MAX_FLOWS" by (simp add: MAX_FLOWS_256)
  from no_demand_forgotten [of ex_call s0 s2 2 ex_call None, unfolded k, OF ex_kernel_ok s(1) run this] w f2(2,3) low2
  have "2 \<in> set (unreq_list (tq_priv s2)) \<or> (\<exists>pd \<in> awaits (fs_conn (tq_priv s2)). \<exists>a \<in> set (areqs pd). get_dst (ucast (areq_src_dst_key a)) = Some 2)"
    "maintenance_tasklet_func ex_call None s2 \<noteq> None \<and> retrans_tasklet_func ex_call s2 \<noteq> None" by auto
  then show ?thesis using s(1) run w f2(2,3) by blast
qed

end
