(* ===== verification/Pim.thy ===== *)
theory Pim
  imports Ring Bins Backlog
begin

text \<open>
  The grant-accept allocator, \<^verbatim>\<open>src/src/grant-accept\<close>: parallel iterative matching in three iterations, in the build of its
  directory (\<open>PIM_SINGLE_ADMISSION_CORE\<close>, \<open>NO_DPDK\<close>), in which one core runs every step for all partitions in turn. In each
  iteration every free source grants a random one of its requests, every destination accepts a random one of its
  grants, and the accepted pairs are admitted.

  Bins and lists of admitted traffic live in two stores of the state, as in \<open>Admissible\<close>. The argument \<open>dec\<close> stands for \<open>backlog_decrease\<close>, which
  no file of the repository defines. \<open>pim_add_backlog\<close> is left out: it calls \<open>enqueue_bin\<close> with an argument less than the function has.

  The result \<open>None\<close> is a failed assertion, an access outside of an array, or a wait that nothing ends.
\<close>

section \<open>Partitions\<close>

definition PARTITION_N_NODES :: nat where "PARTITION_N_NODES = 128"
definition N_PARTITIONS :: nat where "N_PARTITIONS = (MAX_NODES + PARTITION_N_NODES - 1) div PARTITION_N_NODES"

definition PARTITION_OF :: "u16 \<Rightarrow> nat" where
  "PARTITION_OF node = (if MAX_NODES \<le> PARTITION_N_NODES then 0 else unat node div PARTITION_N_NODES)"

definition PARTITION_IDX :: "u16 \<Rightarrow> nat" where
  "PARTITION_IDX node = (if MAX_NODES \<le> PARTITION_N_NODES then unat node else unat node mod PARTITION_N_NODES)"

definition first_in_partition :: "nat \<Rightarrow> u16" where
  "first_in_partition p = of_nat (p * PARTITION_N_NODES)"

definition last_in_partition :: "nat \<Rightarrow> u16" where
  "last_in_partition p =
     (if p = N_PARTITIONS - 1 then of_nat (MAX_NODES - 1) else first_in_partition (p + 1) - 1)"

text \<open>The nodes from the first to the last one of a partition.\<close>

definition partition_nodes :: "nat \<Rightarrow> u16 list" where
  "partition_nodes p = map of_nat [unat (first_in_partition p) ..< Suc (unat (last_in_partition p))]"

section \<open>Random numbers\<close>

definition seed_random :: "u32 \<Rightarrow> u32" where
  "seed_random v = v"

definition random_int :: "u32 \<Rightarrow> u16 \<Rightarrow> u32 \<times> u32" where
  "random_int state max_val = (drop_bit 16 (drop_bit 16 state * ucast max_val), state * 1664525 + 1013904223)"

section \<open>Adjacency structures and lists of edges\<close>

definition GA_MAX_DEGREE :: nat where "GA_MAX_DEGREE = 256"
definition EDGELIST_PARTITION_MAX_EDGES :: nat where "EDGELIST_PARTITION_MAX_EDGES = PARTITION_N_NODES"

record ga_edge =
  ge_src :: u16
  ge_dst :: u16

record ga_adj =
  adj_degree :: "nat \<Rightarrow> u16"
  adj_neigh :: "nat \<Rightarrow> nat \<Rightarrow> u16"

definition ga_reset_adj :: "ga_adj \<Rightarrow> ga_adj" where
  "ga_reset_adj adj = adj\<lparr>adj_degree := (\<lambda>_. 0)\<rparr>"

definition ga_adj_add_edge_by_src :: "ga_adj \<Rightarrow> nat \<Rightarrow> u16 \<Rightarrow> ga_adj option" where
  "ga_adj_add_edge_by_src adj src_index dst = do {
     bug_on (PARTITION_N_NODES \<le> src_index);
     let degree = adj_degree adj src_index;
     bug_on (GA_MAX_DEGREE \<le> unat degree);
     Some (adj\<lparr>adj_degree := (adj_degree adj)(src_index := degree + 1),
               adj_neigh := (adj_neigh adj)(src_index := (adj_neigh adj src_index)(unat degree := dst))\<rparr>)
   }"

definition ga_adj_add_edge_by_dst :: "ga_adj \<Rightarrow> u16 \<Rightarrow> nat \<Rightarrow> ga_adj option" where
  "ga_adj_add_edge_by_dst adj src dst_index = do {
     bug_on (PARTITION_N_NODES \<le> dst_index);
     let degree = adj_degree adj dst_index;
     bug_on (GA_MAX_DEGREE \<le> unat degree);
     Some (adj\<lparr>adj_degree := (adj_degree adj)(dst_index := degree + 1),
               adj_neigh := (adj_neigh adj)(dst_index := (adj_neigh adj dst_index)(unat degree := src))\<rparr>)
   }"

definition ga_adj_delete_neigh :: "ga_adj \<Rightarrow> nat \<Rightarrow> u16 \<Rightarrow> ga_adj option" where
  "ga_adj_delete_neigh adj node_index neigh_index = do {
     bug_on (PARTITION_N_NODES \<le> node_index);
     let last_ind = adj_degree adj node_index - 1;
     bug_on (GA_MAX_DEGREE \<le> unat last_ind \<or> GA_MAX_DEGREE \<le> unat neigh_index);
     Some (adj\<lparr>adj_degree := (adj_degree adj)(node_index := last_ind),
               adj_neigh := (adj_neigh adj)(node_index := (adj_neigh adj node_index)(unat neigh_index := adj_neigh adj node_index (unat last_ind)))\<rparr>)
   }"

record ga_edgelist =
  el_n :: u32
  el_edge :: "nat \<Rightarrow> ga_edge"

text \<open>The first index is the partition of the destination, the second one that of the source.\<close>

type_synonym ga_partd_edgelist = "nat \<Rightarrow> nat \<Rightarrow> ga_edgelist"

definition ga_edgelist_add :: "ga_edgelist \<Rightarrow> u16 \<Rightarrow> u16 \<Rightarrow> ga_edgelist option" where
  "ga_edgelist_add edgelist src dst = do {
     let n = el_n edgelist;
     bug_on (EDGELIST_PARTITION_MAX_EDGES \<le> unat n);
     Some (edgelist\<lparr>el_n := n + 1, el_edge := (el_edge edgelist)(unat n := \<lparr>ge_src = src, ge_dst = dst\<rparr>)\<rparr>)
   }"

definition ga_partd_edgelist_add :: "ga_partd_edgelist \<Rightarrow> u16 \<Rightarrow> u16 \<Rightarrow> ga_partd_edgelist option" where
  "ga_partd_edgelist_add pedgelist src dst = do {
     bug_on (N_PARTITIONS \<le> PARTITION_OF dst \<or> N_PARTITIONS \<le> PARTITION_OF src);
     edgelist \<leftarrow> ga_edgelist_add (pedgelist (PARTITION_OF dst) (PARTITION_OF src)) src dst;
     Some (pedgelist(PARTITION_OF dst := (pedgelist (PARTITION_OF dst))(PARTITION_OF src := edgelist)))
   }"

definition ga_partd_edgelist_src_reset :: "ga_partd_edgelist \<Rightarrow> nat \<Rightarrow> ga_partd_edgelist" where
  "ga_partd_edgelist_src_reset pedgelist src_partition =
     (\<lambda>dst_partition. if dst_partition < N_PARTITIONS
        then (pedgelist dst_partition)(src_partition := (pedgelist dst_partition src_partition)\<lparr>el_n := 0\<rparr>) else pedgelist dst_partition)"

definition ga_edges_to_adj_by_dst :: "(nat \<Rightarrow> ga_edge) \<Rightarrow> u32 \<Rightarrow> ga_adj \<Rightarrow> ga_adj option" where
  "ga_edges_to_adj_by_dst edges n_edges =
     for_each (\<lambda>i adj. ga_adj_add_edge_by_dst adj (ge_src (edges i)) (PARTITION_IDX (ge_dst (edges i)))) [0 ..< unat n_edges]"

definition ga_edgelist_to_adj_by_dst :: "ga_partd_edgelist \<Rightarrow> nat \<Rightarrow> ga_adj \<Rightarrow> ga_adj option" where
  "ga_edgelist_to_adj_by_dst pedgelist dst_partition =
     for_each (\<lambda>src_partition. let edgelist = pedgelist dst_partition src_partition in ga_edges_to_adj_by_dst (el_edge edgelist) (el_n edgelist))
       [0 ..< N_PARTITIONS]"

section \<open>State\<close>

definition NUM_ITERATIONS :: nat where "NUM_ITERATIONS = 3"
definition MAX_TRIES :: nat where "MAX_TRIES = 10"
definition RING_DEQUEUE_BURST_SIZE :: nat where "RING_DEQUEUE_BURST_SIZE = 8"

record pim_core_state =
  pc_rand_state :: u32
  pc_admitted :: nat
  pc_grant_adj_index :: "nat \<Rightarrow> u16"
  pc_src_endnodes :: "nat \<Rightarrow> u8"
  pc_dst_endnodes :: "nat \<Rightarrow> u8"
  pc_q_new_demands :: "nat fp_ring"
  pc_stat :: admission_core_statistics

record pim_state =
  ps_requests_by_src :: "nat \<Rightarrow> ga_adj"
  ps_grants :: ga_partd_edgelist
  ps_grants_by_dst :: "nat \<Rightarrow> ga_adj"
  ps_accepts :: ga_partd_edgelist
  ps_backlog :: backlog
  ps_new_demands :: "nat \<Rightarrow> nat"
  ps_q_admitted_out :: "nat fp_ring"
  ps_bin_mempool :: "nat fp_mempool"
  ps_admitted_traffic_mempool :: "nat fp_mempool"
  ps_cores :: "nat \<Rightarrow> pim_core_state"
  ps_stat :: admission_statistics
  ps_bins :: "nat \<Rightarrow> bin"
  ps_adms :: "nat \<Rightarrow> admitted_traffic"

definition upd_pc :: "nat \<Rightarrow> (pim_core_state \<Rightarrow> pim_core_state) \<Rightarrow> pim_state \<Rightarrow> pim_state" where
  "upd_pc p f st = st\<lparr>ps_cores := (ps_cores st)(p := f (ps_cores st p))\<rparr>"

text \<open>The bit of a node in a bitmask that is packed into bytes.\<close>

definition PIM_BITMASK_WORD :: "nat \<Rightarrow> nat" where "PIM_BITMASK_WORD node = drop_bit 3 node"
definition PIM_BITMASK_SHIFT :: "nat \<Rightarrow> nat" where "PIM_BITMASK_SHIFT node = node AND 7"

definition src_is_allocated :: "pim_core_state \<Rightarrow> u16 \<Rightarrow> bool" where
  "src_is_allocated core src =
     (let i = PARTITION_IDX src in drop_bit (PIM_BITMASK_SHIFT i) (pc_src_endnodes core (PIM_BITMASK_WORD i)) AND 1 \<noteq> 0)"

definition dst_is_allocated :: "pim_state \<Rightarrow> u16 \<Rightarrow> bool" where
  "dst_is_allocated st dst =
     (let i = PARTITION_IDX dst; core = ps_cores st (PARTITION_OF dst)
      in drop_bit (PIM_BITMASK_SHIFT i) (pc_dst_endnodes core (PIM_BITMASK_WORD i)) AND 1 \<noteq> 0)"

definition mark_src_allocated :: "u16 \<Rightarrow> pim_core_state \<Rightarrow> pim_core_state" where
  "mark_src_allocated src core =
     (let i = PARTITION_IDX src; w = PIM_BITMASK_WORD i
      in core\<lparr>pc_src_endnodes := (pc_src_endnodes core)(w := pc_src_endnodes core w OR push_bit (PIM_BITMASK_SHIFT i) 1)\<rparr>)"

definition mark_dst_allocated :: "u16 \<Rightarrow> pim_core_state \<Rightarrow> pim_core_state" where
  "mark_dst_allocated dst core =
     (let i = PARTITION_IDX dst; w = PIM_BITMASK_WORD i
      in core\<lparr>pc_dst_endnodes := (pc_dst_endnodes core)(w := pc_dst_endnodes core w OR push_bit (PIM_BITMASK_SHIFT i) 1)\<rparr>)"

section \<open>New requests\<close>

definition pim_flush_backlog_now :: "nat \<Rightarrow> pim_state \<Rightarrow> pim_state option" where
  "pim_flush_backlog_now p st = do {
     q \<leftarrow> fp_ring_enqueue (pc_q_new_demands (ps_cores st p)) (ps_new_demands st p);
     (b, mp) \<leftarrow> fp_mempool_get (ps_bin_mempool st);
     let st = upd_pc p (pc_q_new_demands_update (\<lambda>_. q)) st;
     Some (st\<lparr>ps_bin_mempool := mp, ps_new_demands := (ps_new_demands st)(p := b), ps_bins := (ps_bins st)(b := init_bin (ps_bins st b))\<rparr>)
   }"

definition pim_flush_backlog :: "pim_state \<Rightarrow> pim_state option" where
  "pim_flush_backlog st = do {
     st \<leftarrow> for_each (\<lambda>p st. if is_empty_bin (ps_bins st (ps_new_demands st p)) then Some st else pim_flush_backlog_now p st) [0 ..< N_PARTITIONS] st;
     Some (st\<lparr>ps_stat := adm_log_forced_backlog_flush (ps_stat st)\<rparr>)
   }"

definition pim_reset_sender :: "u16 \<Rightarrow> pim_state \<Rightarrow> pim_state" where
  "pim_reset_sender src st = st"

definition process_incoming_bin :: "nat \<Rightarrow> nat \<Rightarrow> pim_state \<Rightarrow> pim_state option" where
  "process_incoming_bin p a st =
     for_each (\<lambda>i st. do {
         let edge = bin_get (ps_bins st a) i;
         adj \<leftarrow> ga_adj_add_edge_by_src (ps_requests_by_src st p) (PARTITION_IDX (e_src edge)) (e_dst edge);
         Some (st\<lparr>ps_requests_by_src := (ps_requests_by_src st)(p := adj)\<rparr>)
       }) [0 ..< unat (bin_size (ps_bins st a))] st"

definition process_new_requests :: "nat \<Rightarrow> pim_state \<Rightarrow> pim_state option" where
  "process_new_requests p st = do {
     let (as, q) = fp_ring_dequeue_burst (pc_q_new_demands (ps_cores st p)) RING_DEQUEUE_BURST_SIZE;
     let num_entries = sum_list (map (\<lambda>a. bin_size (ps_bins st a)) as);
     st \<leftarrow> for_each (\<lambda>a st. do {
         st \<leftarrow> process_incoming_bin p a st;
         mp \<leftarrow> fp_mempool_put (ps_bin_mempool st) a;
         Some (st\<lparr>ps_bin_mempool := mp\<rparr>)
       }) as (upd_pc p (pc_q_new_demands_update (\<lambda>_. q)) st);
     Some (upd_pc p (\<lambda>core. core\<lparr>pc_stat := adm_log_processed_new_requests (pc_stat core) (of_nat (length as)) num_entries\<rparr>) st)
   }"

section \<open>A time slot\<close>

definition pim_prepare :: "nat \<Rightarrow> pim_state \<Rightarrow> pim_state option" where
  "pim_prepare p st = do {
     st \<leftarrow> process_new_requests p st;
     let st = upd_pc p (\<lambda>core. core\<lparr>pc_src_endnodes := (\<lambda>w. if w < PIM_BITMASK_WORD PARTITION_N_NODES then 0 else pc_src_endnodes core w),
       pc_dst_endnodes := (\<lambda>w. if w < PIM_BITMASK_WORD PARTITION_N_NODES then 0 else pc_dst_endnodes core w)\<rparr>) st;
     (a, mp) \<leftarrow> fp_mempool_get (ps_admitted_traffic_mempool st);
     let st = upd_pc p (pc_admitted_update (\<lambda>_. a)) (st\<lparr>ps_admitted_traffic_mempool := mp\<rparr>);
     Some (st\<lparr>ps_adms := (ps_adms st)(a := set_admitted_partition (init_admitted_traffic (ps_adms st a)) (of_nat p))\<rparr>)
   }"

text \<open>A grant is added to the list of grants, and the index of the destination is noted.\<close>

definition grant_edge :: "nat \<Rightarrow> u16 \<Rightarrow> u16 \<Rightarrow> u16 \<Rightarrow> pim_state \<Rightarrow> pim_state option" where
  "grant_edge p src dst dst_adj_index st = do {
     grants \<leftarrow> ga_partd_edgelist_add (ps_grants st) src dst;
     Some (upd_pc p (\<lambda>core. core\<lparr>pc_grant_adj_index := (pc_grant_adj_index core)(PARTITION_IDX src := dst_adj_index)\<rparr>) (st\<lparr>ps_grants := grants\<rparr>))
   }"

definition pim_do_grant_first_it :: "nat \<Rightarrow> pim_state \<Rightarrow> pim_state option" where
  "pim_do_grant_first_it p st =
     for_each (\<lambda>src st.
         let src_index = PARTITION_IDX src; degree = adj_degree (ps_requests_by_src st p) src_index
         in if degree = 0 then Some st
            else do {
              let (r, rs) = random_int (pc_rand_state (ps_cores st p)) degree;
              let dst_adj_index = (ucast r :: u16);
              let st = upd_pc p (pc_rand_state_update (\<lambda>_. rs)) st;
              bug_on (GA_MAX_DEGREE \<le> unat dst_adj_index);
              grant_edge p src (adj_neigh (ps_requests_by_src st p) src_index (unat dst_adj_index)) dst_adj_index st
            }) (partition_nodes p) (st\<lparr>ps_grants := ga_partd_edgelist_src_reset (ps_grants st) p\<rparr>)"

text \<open>
  The loop that looks for a free destination, with the tries that are left. The result is the index and the
  destination that were tried last, and whether the destination is allocated.
\<close>

fun find_free_dst :: "nat \<Rightarrow> nat \<Rightarrow> u16 \<Rightarrow> nat \<Rightarrow> pim_state \<Rightarrow> (u16 \<times> u16 \<times> bool \<times> pim_state) option" where
  "find_free_dst p src_index degree tries st = do {
     let (r, rs) = random_int (pc_rand_state (ps_cores st p)) degree;
     let dst_adj_index = (ucast r :: u16);
     let st = upd_pc p (pc_rand_state_update (\<lambda>_. rs)) st;
     bug_on (GA_MAX_DEGREE \<le> unat dst_adj_index);
     let dst = adj_neigh (ps_requests_by_src st p) src_index (unat dst_adj_index);
     bug_on (N_PARTITIONS \<le> PARTITION_OF dst);
     if dst_is_allocated st dst \<and> 0 < tries - 1 then find_free_dst p src_index degree (tries - 1) st
     else Some (dst_adj_index, dst, dst_is_allocated st dst, st)
   }"

declare find_free_dst.simps [simp del]

definition pim_do_grant :: "nat \<Rightarrow> pim_state \<Rightarrow> pim_state option" where
  "pim_do_grant p st =
     for_each (\<lambda>src st.
         let src_index = PARTITION_IDX src; degree = adj_degree (ps_requests_by_src st p) src_index
         in if src_is_allocated (ps_cores st p) src then Some st
            else if degree = 0 then Some st
            else do {
              (dst_adj_index, dst, dst_is_alloc, st) \<leftarrow> find_free_dst p src_index degree MAX_TRIES st;
              if dst_is_alloc then Some st else grant_edge p src dst dst_adj_index st
            }) (partition_nodes p) (st\<lparr>ps_grants := ga_partd_edgelist_src_reset (ps_grants st) p\<rparr>)"

definition pim_do_accept :: "nat \<Rightarrow> pim_state \<Rightarrow> pim_state option" where
  "pim_do_accept p st = do {
     dest_adj \<leftarrow> for_each (\<lambda>src_partition. ga_edges_to_adj_by_dst (el_edge (ps_grants st p src_partition)) (el_n (ps_grants st p src_partition)))
       [0 ..< N_PARTITIONS] (ga_reset_adj (ps_grants_by_dst st p));
     let st = st\<lparr>ps_grants_by_dst := (ps_grants_by_dst st)(p := dest_adj)\<rparr>;
     for_each (\<lambda>dst st.
         let dst_index = PARTITION_IDX dst; degree = adj_degree (ps_grants_by_dst st p) dst_index
         in if degree = 0 then Some st
            else do {
              let (r, rs) = random_int (pc_rand_state (ps_cores st p)) degree;
              let src_adj_index = (ucast r :: u16);
              bug_on (GA_MAX_DEGREE \<le> unat src_adj_index);
              let src = adj_neigh (ps_grants_by_dst st p) dst_index (unat src_adj_index);
              accepts \<leftarrow> ga_partd_edgelist_add (ps_accepts st) src dst;
              Some (upd_pc p (\<lambda>core. mark_dst_allocated dst (core\<lparr>pc_rand_state := rs\<rparr>)) (st\<lparr>ps_accepts := accepts\<rparr>))
            }) (partition_nodes p) st
   }"

text \<open>The body of the loop of \<open>process_accepts_from_partition\<close>.\<close>

type_synonym decrease = "backlog \<Rightarrow> u16 \<Rightarrow> u16 \<Rightarrow> (u32 \<times> backlog) option"

definition process_accept :: "decrease \<Rightarrow> nat \<Rightarrow> ga_edge \<Rightarrow> pim_state \<Rightarrow> pim_state option" where
  "process_accept dec src_partition edge st = do {
     let src = ge_src edge;
     let dst = ge_dst edge;
     let a = pc_admitted (ps_cores st src_partition);
     admitted \<leftarrow> insert_admitted_edge (ps_adms st a) src dst;
     let st = upd_pc src_partition (mark_src_allocated src) (st\<lparr>ps_adms := (ps_adms st)(a := admitted)\<rparr>);
     n \<leftarrow> backlog_get (ps_backlog st) src dst;
     bug_on (n = 0);
     (backlog, bl) \<leftarrow> dec (ps_backlog st) src dst;
     let st = st\<lparr>ps_backlog := bl\<rparr>;
     if backlog \<noteq> 0 then
       Some (upd_pc src_partition (\<lambda>core. core\<lparr>pc_stat := adm_log_allocated_backlog_remaining (pc_stat core) backlog\<rparr>) st)
     else do {
       let st = upd_pc src_partition (\<lambda>core. core\<lparr>pc_stat := adm_log_allocator_no_backlog (pc_stat core)\<rparr>) st;
       let grant_adj_index = pc_grant_adj_index (ps_cores st src_partition) (PARTITION_IDX src);
       bug_on (N_PARTITIONS \<le> PARTITION_OF src);
       adj \<leftarrow> ga_adj_delete_neigh (ps_requests_by_src st (PARTITION_OF src)) (PARTITION_IDX src) grant_adj_index;
       Some (st\<lparr>ps_requests_by_src := (ps_requests_by_src st)(PARTITION_OF src := adj)\<rparr>)
     }
   }"

definition process_accepts_from_partition :: "decrease \<Rightarrow> nat \<Rightarrow> nat \<Rightarrow> pim_state \<Rightarrow> pim_state option" where
  "process_accepts_from_partition dec src_partition dst_partition st =
     for_each (\<lambda>i st. process_accept dec src_partition (el_edge (ps_accepts st dst_partition src_partition) i) st)
       [0 ..< unat (el_n (ps_accepts st dst_partition src_partition))] st"

definition pim_process_accepts :: "decrease \<Rightarrow> nat \<Rightarrow> pim_state \<Rightarrow> pim_state option" where
  "pim_process_accepts dec p st = do {
     st \<leftarrow> for_each (process_accepts_from_partition dec p) [0 ..< N_PARTITIONS] st;
     Some (st\<lparr>ps_accepts := ga_partd_edgelist_src_reset (ps_accepts st) p\<rparr>)
   }"

definition pim_complete_timeslot :: "nat \<Rightarrow> pim_state \<Rightarrow> pim_state option" where
  "pim_complete_timeslot p st = do {
     q \<leftarrow> fp_ring_enqueue (ps_q_admitted_out st) (pc_admitted (ps_cores st p));
     Some (st\<lparr>ps_q_admitted_out := q\<rparr>)
   }"

section \<open>The allocation of a time slot\<close>

definition pim_iteration :: "decrease \<Rightarrow> (nat \<Rightarrow> pim_state \<Rightarrow> pim_state option) \<Rightarrow> pim_state \<Rightarrow> pim_state option" where
  "pim_iteration dec grant st = do {
     st \<leftarrow> for_each grant [0 ..< N_PARTITIONS] st;
     st \<leftarrow> for_each pim_do_accept [0 ..< N_PARTITIONS] st;
     for_each (pim_process_accepts dec) [0 ..< N_PARTITIONS] st
   }"

definition pim_get_admissible_traffic :: "decrease \<Rightarrow> pim_state \<Rightarrow> pim_state option" where
  "pim_get_admissible_traffic dec st = do {
     st \<leftarrow> for_each pim_prepare [0 ..< N_PARTITIONS] st;
     st \<leftarrow> pim_iteration dec pim_do_grant_first_it st;
     st \<leftarrow> for_each (\<lambda>i. pim_iteration dec pim_do_grant) [1 ..< NUM_ITERATIONS] st;
     for_each pim_complete_timeslot [0 ..< N_PARTITIONS] st
   }"

text \<open>The check of the code: the status of sources and of destinations as sets, \<open>False\<close> where it returns early.\<close>

fun check_edges :: "admitted_traffic \<Rightarrow> nat list \<Rightarrow> u16 set \<Rightarrow> u16 set \<Rightarrow> (bool \<times> u16 set \<times> u16 set) option" where
  "check_edges admitted [] srcs dsts = Some (True, srcs, dsts)"
| "check_edges admitted (j # js) srcs dsts = do {
     edge \<leftarrow> get_admitted_edge admitted (of_nat j);
     bug_on (MAX_NODES \<le> unat (a_src edge));
     if a_src edge \<in> srcs then Some (False, srcs, dsts)
     else do {
       bug_on (MAX_NODES \<le> unat (a_dst edge));
       if a_dst edge \<in> dsts then Some (False, srcs, dsts)
       else check_edges admitted js (insert (a_src edge) srcs) (insert (a_dst edge) dsts)
     }
   }"

fun check_lists :: "nat list \<Rightarrow> u16 set \<Rightarrow> u16 set \<Rightarrow> pim_state \<Rightarrow> (bool \<times> pim_state) option" where
  "check_lists [] srcs dsts st = Some (True, st)"
| "check_lists (p # ps) srcs dsts st = do {
     (a, q) \<leftarrow> fp_ring_dequeue (ps_q_admitted_out st);
     let st = st\<lparr>ps_q_admitted_out := q\<rparr>;
     (ok, srcs, dsts) \<leftarrow> check_edges (ps_adms st a) [0 ..< unat (ad_size (ps_adms st a))] srcs dsts;
     if \<not> ok then Some (False, st)
     else check_lists ps srcs dsts (case fp_ring_enqueue (ps_q_admitted_out st) a of None \<Rightarrow> st | Some q \<Rightarrow> st\<lparr>ps_q_admitted_out := q\<rparr>)
   }"

definition pim_is_valid_admitted_traffic :: "pim_state \<Rightarrow> (bool \<times> pim_state) option" where
  "pim_is_valid_admitted_traffic st = check_lists [0 ..< N_PARTITIONS] {} {} st"

section \<open>Initialisation\<close>

definition pim_reset_state :: "pim_state \<Rightarrow> pim_state" where
  "pim_reset_state st = st\<lparr>ps_requests_by_src := (\<lambda>p. if p < N_PARTITIONS then ga_reset_adj (ps_requests_by_src st p) else ps_requests_by_src st p),
     ps_accepts := foldl ga_partd_edgelist_src_reset (ps_accepts st) [0 ..< N_PARTITIONS], ps_backlog := backlog_init (ps_backlog st)\<rparr>"

text \<open>\<open>rnd p\<close> is the result of \<open>rand()\<close>. A pool that is empty leaves the pointer to the bin undefined.\<close>

definition pim_init_state :: "(nat \<Rightarrow> u32) \<Rightarrow> (nat \<Rightarrow> nat fp_ring) \<Rightarrow> nat fp_ring \<Rightarrow> nat fp_mempool \<Rightarrow> nat fp_mempool \<Rightarrow> pim_state \<Rightarrow> pim_state option" where
  "pim_init_state rnd q_new_demands q_admitted_out bin_mempool admitted_traffic_mempool st =
     for_each (\<lambda>p st. do {
         (b, mp) \<leftarrow> fp_mempool_get (ps_bin_mempool st);
         let st = st\<lparr>ps_bin_mempool := mp, ps_new_demands := (ps_new_demands st)(p := b), ps_bins := (ps_bins st)(b := init_bin (ps_bins st b))\<rparr>;
         Some (upd_pc p (\<lambda>core. core\<lparr>pc_q_new_demands := q_new_demands p, pc_rand_state := seed_random (rnd p)\<rparr>) st)
       }) [0 ..< N_PARTITIONS]
       ((pim_reset_state st)\<lparr>ps_q_admitted_out := q_admitted_out, ps_bin_mempool := bin_mempool, ps_admitted_traffic_mempool := admitted_traffic_mempool\<rparr>)"

end
