(* ===== verification/Pim_Basics.thy ===== *)
theory Pim_Basics
  imports Pim
begin

text \<open>
  The data structures of the grant-accept allocator as lists and sets: the neighbours of a node, the edges of a list, the allocated
  nodes of a partition, and what the operations do to them.
\<close>

section \<open>Partitions\<close>

lemma partition_consts: "N_PARTITIONS = 2" "PARTITION_N_NODES = 128" "PARTITION_OF x = unat x div 128" "PARTITION_IDX x = unat x mod 128"
  by (simp_all add: N_PARTITIONS_def PARTITION_N_NODES_def PARTITION_OF_def PARTITION_IDX_def MAX_NODES_def)

lemma partition_idx_less [simp]: "PARTITION_IDX x < 128"
  by (simp add: partition_consts)

lemma partition_eqI: "PARTITION_OF x = PARTITION_OF y \<Longrightarrow> PARTITION_IDX x = PARTITION_IDX y \<Longrightarrow> x = y"
  unfolding partition_consts by (metis div_mult_mod_eq word_unat_eq_iff)

lemma node_in_partition: "PARTITION_OF x < 2 \<longleftrightarrow> unat x < MAX_NODES"
  unfolding partition_consts MAX_NODES_def by linarith

lemma partition_nodes_eq:
  assumes "p < 2"
  shows "partition_nodes p = map of_nat [128 * p ..< 128 * p + 128]"
proof -
  have "p = 0 \<or> p = 1" using assms by auto
  then have "unat (first_in_partition p) = 128 * p" "unat (last_in_partition p) = 128 * p + 127"
    by (auto simp: first_in_partition_def last_in_partition_def partition_consts MAX_NODES_def)
  then show ?thesis by (simp add: partition_nodes_def add.commute del: upt_Suc)
qed

lemma nodes_of_partition:
  assumes "p < 2"
  shows "distinct (partition_nodes p)" "set (partition_nodes p) = {x. PARTITION_OF x = p}"
proof -
  have u: "unat (of_nat n :: u16) = n" if "n < 256" for n using that by (intro unat_of_nat_word) simp
  have "inj_on (of_nat :: nat \<Rightarrow> u16) {128 * p ..< 128 * p + 128}" using assms u by (intro inj_on_inverseI [of _ unat]) simp
  then show "distinct (partition_nodes p)" unfolding partition_nodes_eq [OF assms] by (simp add: distinct_map)
  have "x \<in> of_nat ` {128 * p ..< 128 * p + 128}" if "PARTITION_OF x = p" for x
    using that by (intro image_eqI [of _ _ "unat x"]) (auto simp: partition_consts)
  moreover have "PARTITION_OF (of_nat n) = p" if "n \<in> {128 * p ..< 128 * p + 128}" for n
    using that u [of n] assms by (auto simp: partition_consts)
  ultimately show "set (partition_nodes p) = {x. PARTITION_OF x = p}" unfolding partition_nodes_eq [OF assms] by auto
qed

lemma card_partition: "p < 2 \<Longrightarrow> card {x. PARTITION_OF x = p} = 128" "p < 2 \<Longrightarrow> finite {x. PARTITION_OF x = p}"
  using nodes_of_partition(2) [of p] distinct_card [OF nodes_of_partition(1) [of p]] by (simp_all add: partition_nodes_eq flip: nodes_of_partition(2))

text \<open>Lists without repetition of nodes are short.\<close>

lemma distinct_partition_length: "p < 2 \<Longrightarrow> distinct xs \<Longrightarrow> \<forall>x \<in> set xs. PARTITION_OF x = p \<Longrightarrow> length xs \<le> 128"
  using card_mono [OF card_partition(2), of p "set xs"] by (auto simp: distinct_card card_partition(1))

lemma distinct_nodes_length:
  assumes "distinct xs" "\<forall>x \<in> set xs. PARTITION_OF x < 2"
  shows "length xs \<le> 256"
proof -
  have "set xs \<subseteq> {x. PARTITION_OF x = 0} \<union> {x. PARTITION_OF x = 1}" using assms(2) by (auto simp: less_2_cases_iff)
  then have "card (set xs) \<le> card ({x. PARTITION_OF x = 0} \<union> {x. PARTITION_OF x = 1})" by (intro card_mono finite_UnI card_partition) simp_all
  also have "\<dots> \<le> card {x. PARTITION_OF x = 0} + card {x. PARTITION_OF x = 1}" by (rule card_Un_le)
  finally show ?thesis by (simp add: card_partition distinct_card assms(1))
qed

section \<open>Random numbers\<close>

lemma random_int_less:
  assumes "random_int s m = (r, s')" "m \<noteq> 0"
  shows "unat (ucast r :: u16) < unat m"
proof -
  let ?a = "unat (drop_bit 16 s)"
  have a: "?a < 2 ^ 16"
  proof -
    have "?a = unat s div 2 ^ 16" unfolding drop_bit_eq_div by (simp add: unat_div)
    also have "\<dots> < 2 ^ 16" using unat_u32_less [of s] by (simp add: less_mult_imp_div_less del: unat_u32_less)
    finally show ?thesis .
  qed
  have m: "0 < unat m" "unat m < 2 ^ 16" using assms(2) by (simp_all add: unat_gt_0)
  have "unat m < 2 ^ 32" using less_trans [OF m(2), of "2 ^ 32"] by simp
  then have um: "unat (ucast m :: u32) = unat m" by (simp add: unsigned_ucast_eq take_bit_nat_eq_self)
  have lt: "?a * unat m < 2 ^ 16 * unat m" using a m(1) by simp
  also have "\<dots> < 2 ^ 32" using m(2) by simp
  finally have "unat (drop_bit 16 s * ucast m) = ?a * unat m" by (simp add: unat_word_ariths um)
  then have "unat r = (?a * unat m) div 2 ^ 16" using assms(1) by (auto simp: random_int_def drop_bit_eq_div unat_div)
  also have "\<dots> < unat m" using lt by (simp add: less_mult_imp_div_less mult.commute)
  finally have r: "unat r < unat m" .
  then have "unat r < 2 ^ 16" using less_trans [OF r m(2)] by simp
  then have "unat (ucast r :: u16) = unat r" by (simp add: unsigned_ucast_eq take_bit_nat_eq_self)
  then show ?thesis using r by simp
qed

section \<open>Neighbours\<close>

definition adj_list :: "ga_adj \<Rightarrow> nat \<Rightarrow> u16 list" where
  "adj_list adj i = map (adj_neigh adj i) [0 ..< unat (adj_degree adj i)]"

lemma length_adj_list: "length (adj_list adj i) = unat (adj_degree adj i)"
  by (simp add: adj_list_def)

lemma nth_adj_list: "j < length (adj_list adj i) \<Longrightarrow> adj_neigh adj i j = adj_list adj i ! j"
  by (simp add: adj_list_def)

lemma adj_list_reset: "adj_list (ga_reset_adj adj) i = []"
  by (simp add: adj_list_def ga_reset_adj_def)

lemma degree_zero: "adj_degree adj i = 0 \<longleftrightarrow> adj_list adj i = []"
  using length_adj_list [of adj i] unat_eq_zero [of "adj_degree adj i"] by auto

lemma add_edge_by_src:
  assumes "i < 128" "length (adj_list adj i) < 256"
  shows "\<exists>adj'. ga_adj_add_edge_by_src adj i d = Some adj' \<and> adj_list adj' = (adj_list adj)(i := adj_list adj i @ [d])"
proof -
  have "adj_degree adj i + 1 = of_nat (Suc (unat (adj_degree adj i)))" by simp
  moreover have "Suc (unat (adj_degree adj i)) < 2 ^ LENGTH(16)" using assms(2) by (simp add: length_adj_list)
  ultimately have "unat (adj_degree adj i + 1) = Suc (unat (adj_degree adj i))" by (simp only: unat_of_nat_word)
  then show ?thesis using assms by (auto simp: ga_adj_add_edge_by_src_def partition_consts GA_MAX_DEGREE_def length_adj_list adj_list_def fun_eq_iff Let_def)
qed

lemma add_edge_by_dst_eq: "ga_adj_add_edge_by_dst adj s i = ga_adj_add_edge_by_src adj i s"
  by (simp add: ga_adj_add_edge_by_dst_def ga_adj_add_edge_by_src_def)

lemma delete_neigh:
  assumes "i < 128" "unat j < length (adj_list adj i)" "length (adj_list adj i) \<le> 256"
  shows "\<exists>adj'. ga_adj_delete_neigh adj i j = Some adj' \<and> adj_list adj' = (adj_list adj)(i := butlast ((adj_list adj i)[unat j := last (adj_list adj i)]))"
proof -
  let ?n = "unat (adj_degree adj i)"
  have n: "0 < ?n" "unat j < ?n" "?n \<le> 256" using assms(2,3) by (simp_all add: length_adj_list)
  have l: "unat (adj_degree adj i - 1) = ?n - 1" using n(1) by (intro unat_minus_one) auto
  define adj' where "adj' = adj\<lparr>adj_degree := (adj_degree adj)(i := adj_degree adj i - 1),
    adj_neigh := (adj_neigh adj)(i := (adj_neigh adj i)(unat j := adj_neigh adj i (?n - 1)))\<rparr>"
  have "ga_adj_delete_neigh adj i j = Some adj'" using assms(1) n l by (simp add: ga_adj_delete_neigh_def partition_consts GA_MAX_DEGREE_def adj'_def)
  moreover have "adj_list adj' i = butlast ((adj_list adj i)[unat j := last (adj_list adj i)])"
  proof (rule nth_equalityI)
    show "length (adj_list adj' i) = length (butlast ((adj_list adj i)[unat j := last (adj_list adj i)]))" by (simp add: length_adj_list adj'_def l)
    fix k assume "k < length (adj_list adj' i)"
    then have k: "k < ?n - 1" by (simp add: length_adj_list adj'_def l)
    have "last (adj_list adj i) = adj_neigh adj i (?n - 1)" using n(1) by (simp add: adj_list_def last_map)
    then show "adj_list adj' i ! k = butlast ((adj_list adj i)[unat j := last (adj_list adj i)]) ! k"
      using k n(1) by (simp add: nth_butlast nth_list_update length_adj_list) (simp add: adj'_def adj_list_def l)
  qed
  moreover have "adj_list adj' x = adj_list adj x" if "x \<noteq> i" for x using that by (simp add: adj'_def adj_list_def)
  ultimately show ?thesis by (intro exI [of _ adj']) (auto simp: fun_eq_iff)
qed

lemma delete_distinct:
  assumes "distinct xs" "j < length xs"
  shows "distinct (butlast (xs[j := last xs]))" "set (butlast (xs[j := last xs])) = set xs - {xs ! j}"
proof -
  obtain ys y where xs: "xs = ys @ [y]" using assms(2) by (cases xs rule: rev_cases) auto
  have d: "distinct ys" "y \<notin> set ys" using assms(1) by (simp_all add: xs)
  have "distinct (butlast (xs[j := last xs])) \<and> set (butlast (xs[j := last xs])) = set xs - {xs ! j}"
  proof (cases "j < length ys")
    case True
    then have e: "butlast (xs[j := last xs]) = ys[j := y]" "xs ! j = ys ! j" by (simp_all add: xs list_update_append nth_append)
    have "distinct (ys[j := y])" using d by (simp add: distinct_list_update)
    moreover have "ys ! j \<noteq> y" using d(2) True nth_mem by metis
    ultimately show ?thesis unfolding e using d True by (auto simp: xs set_update_distinct)
  next
    case False
    then have e: "butlast (xs[j := last xs]) = ys" "xs ! j = y" using assms(2) by (simp_all add: xs list_update_append nth_append)
    show ?thesis unfolding e using d by (simp add: xs)
  qed
  then show "distinct (butlast (xs[j := last xs]))" "set (butlast (xs[j := last xs])) = set xs - {xs ! j}" by blast+
qed

section \<open>Lists of edges\<close>

definition el_list :: "ga_edgelist \<Rightarrow> (u16 \<times> u16) list" where
  "el_list el = map (\<lambda>i. (ge_src (el_edge el i), ge_dst (el_edge el i))) [0 ..< unat (el_n el)]"

abbreviation edges_of :: "ga_partd_edgelist \<Rightarrow> nat \<Rightarrow> nat \<Rightarrow> (u16 \<times> u16) list" where
  "edges_of g dp sp \<equiv> el_list (g dp sp)"

lemma partd_add:
  assumes "PARTITION_OF s < 2" "PARTITION_OF d < 2" "length (edges_of g (PARTITION_OF d) (PARTITION_OF s)) < 128"
  shows "\<exists>g'. ga_partd_edgelist_add g s d = Some g'
    \<and> (\<forall>dp sp. edges_of g' dp sp = edges_of g dp sp @ (if dp = PARTITION_OF d \<and> sp = PARTITION_OF s then [(s, d)] else []))"
proof -
  let ?e = "g (PARTITION_OF d) (PARTITION_OF s)"
  have lt: "unat (el_n ?e) < 128" using assms(3) by (simp add: el_list_def)
  have "el_n ?e + 1 = of_nat (Suc (unat (el_n ?e)))" by simp
  moreover have "Suc (unat (el_n ?e)) < 2 ^ LENGTH(32)" using lt by simp
  ultimately have "unat (el_n ?e + 1) = Suc (unat (el_n ?e))" by (simp only: unat_of_nat_word)
  then show ?thesis using assms(1,2) lt
    by (auto simp: ga_partd_edgelist_add_def ga_edgelist_add_def EDGELIST_PARTITION_MAX_EDGES_def partition_consts(1,2) el_list_def Let_def)
qed

lemma partd_reset: "edges_of (ga_partd_edgelist_src_reset g p) dp sp = (if dp < 2 \<and> sp = p then [] else edges_of g dp sp)"
  by (simp add: ga_partd_edgelist_src_reset_def partition_consts el_list_def)

section \<open>Allocated nodes\<close>

lemma bit_test: "drop_bit n (w :: u8) AND 1 \<noteq> 0 \<longleftrightarrow> bit w n"
  by (simp add: and_one_eq mod_2_eq_odd bit_iff_odd_drop_bit)

lemma mask_split: "PIM_BITMASK_WORD i = i div 8" "PIM_BITMASK_SHIFT i = i mod 8"
proof -
  show "PIM_BITMASK_WORD i = i div 8" by (simp add: PIM_BITMASK_WORD_def drop_bit_eq_div)
  have "i AND mask 3 = i mod 8" unfolding take_bit_eq_mask [symmetric] by (simp add: take_bit_eq_mod)
  moreover have "mask 3 = (7 :: nat)" by (simp add: mask_eq_exp_minus_1)
  ultimately show "PIM_BITMASK_SHIFT i = i mod 8" by (simp add: PIM_BITMASK_SHIFT_def)
qed

lemma byte_bit_set: "bit ((arr(i div 8 := arr (i div 8) OR push_bit (i mod 8) 1)) (j div 8) :: u8) (j mod 8) \<longleftrightarrow> i = j \<or> bit (arr (j div 8)) (j mod 8)"
proof -
  have "i = j \<longleftrightarrow> i div 8 = j div 8 \<and> i mod 8 = j mod 8" by (metis div_mult_mod_eq)
  then show ?thesis by (auto simp: bit_or_iff bit_push_bit_iff bit_1_iff simp del: push_bit_of_1)
qed

lemma src_is_allocated_mark: "src_is_allocated (mark_src_allocated s core) t \<longleftrightarrow> PARTITION_IDX s = PARTITION_IDX t \<or> src_is_allocated core t"
  using byte_bit_set [of "pc_src_endnodes core" "PARTITION_IDX s" "PARTITION_IDX t"]
  by (simp add: src_is_allocated_def mark_src_allocated_def Let_def bit_test mask_split del: fun_upd_apply)

definition dst_alloc :: "pim_core_state \<Rightarrow> u16 \<Rightarrow> bool" where
  "dst_alloc core d \<longleftrightarrow> bit (pc_dst_endnodes core (PARTITION_IDX d div 8)) (PARTITION_IDX d mod 8)"

lemma dst_is_allocated_eq: "dst_is_allocated st d = dst_alloc (ps_cores st (PARTITION_OF d)) d"
  by (simp add: dst_is_allocated_def dst_alloc_def Let_def bit_test mask_split)

lemma dst_alloc_mark: "dst_alloc (mark_dst_allocated s core) t \<longleftrightarrow> PARTITION_IDX s = PARTITION_IDX t \<or> dst_alloc core t"
  using byte_bit_set [of "pc_dst_endnodes core" "PARTITION_IDX s" "PARTITION_IDX t"]
  by (simp add: dst_alloc_def mark_dst_allocated_def Let_def mask_split del: fun_upd_apply)

end
