(* ===== verification/Pim_Grant.thy ===== *)
theory Pim_Grant
  imports Pim_Basics
begin

text \<open>
  The grant step of the grant-accept allocator: every source that is free grants at most one of its requests, to a destination that
  is free. The state is read through a few functions, and the parts of it that a step leaves alone are grouped.
\<close>

section \<open>What the state says\<close>

abbreviation in_range :: "u16 \<Rightarrow> bool" where
  "in_range x \<equiv> PARTITION_OF x < 2"

definition req :: "pim_state \<Rightarrow> u16 \<Rightarrow> u16 list" where
  "req st s = adj_list (ps_requests_by_src st (PARTITION_OF s)) (PARTITION_IDX s)"

definition sal :: "pim_state \<Rightarrow> u16 \<Rightarrow> bool" where
  "sal st s = src_is_allocated (ps_cores st (PARTITION_OF s)) s"

definition dal :: "pim_state \<Rightarrow> u16 \<Rightarrow> bool" where
  "dal st d = dst_alloc (ps_cores st (PARTITION_OF d)) d"

definition gidx :: "pim_state \<Rightarrow> u16 \<Rightarrow> nat" where
  "gidx st s = unat (pc_grant_adj_index (ps_cores st (PARTITION_OF s)) (PARTITION_IDX s))"

definition demand :: "pim_state \<Rightarrow> u16 \<Rightarrow> u16 \<Rightarrow> u32" where
  "demand st s d = (case backlog_get (ps_backlog st) s d of None \<Rightarrow> 0 | Some n \<Rightarrow> n)"

definition admitted :: "pim_state \<Rightarrow> nat \<Rightarrow> (u16 \<times> u16) list" where
  "admitted st p = adm_list (ps_adms st (pc_admitted (ps_cores st p)))"

abbreviation granted :: "pim_state \<Rightarrow> nat \<Rightarrow> nat \<Rightarrow> (u16 \<times> u16) list" where
  "granted st \<equiv> edges_of (ps_grants st)"

abbreviation accepted :: "pim_state \<Rightarrow> nat \<Rightarrow> nat \<Rightarrow> (u16 \<times> u16) list" where
  "accepted st \<equiv> edges_of (ps_accepts st)"

text \<open>The parts of the state: what no step of an iteration changes, what only the processing of accepts changes, and what the grants and
  the accepts write.\<close>

definition outer where
  "outer st = (ps_new_demands st, ps_q_admitted_out st, ps_bin_mempool st, ps_admitted_traffic_mempool st, ps_bins st,
     (\<lambda>p. pc_admitted (ps_cores st p)), (\<lambda>p. pc_q_new_demands (ps_cores st p)))"

definition books where
  "books st = (ps_requests_by_src st, ps_backlog st, ps_adms st, (\<lambda>p. pc_src_endnodes (ps_cores st p)))"

definition grant_part where
  "grant_part st = (ps_grants st, (\<lambda>p. pc_grant_adj_index (ps_cores st p)))"

definition dst_bits where
  "dst_bits st = (\<lambda>p. pc_dst_endnodes (ps_cores st p))"

lemma books_eqD:
  assumes "books st' = books st"
  shows "req st' = req st" "sal st' = sal st" "demand st' = demand st"
proof -
  have "pc_src_endnodes (ps_cores st' p) = pc_src_endnodes (ps_cores st p)" for p using assms by (simp add: books_def fun_eq_iff)
  then show "sal st' = sal st" by (simp add: fun_eq_iff sal_def src_is_allocated_def)
  show "req st' = req st" "demand st' = demand st" using assms by (simp_all add: books_def fun_eq_iff req_def demand_def)
qed

lemma dst_bits_eqD: "dst_bits st' = dst_bits st \<Longrightarrow> dal st' = dal st"
  by (auto simp: dst_bits_def fun_eq_iff dal_def dst_alloc_def)

lemma grant_part_eqD: "grant_part st' = grant_part st \<Longrightarrow> ps_grants st' = ps_grants st" "grant_part st' = grant_part st \<Longrightarrow> gidx st' = gidx st"
  by (auto simp: grant_part_def fun_eq_iff gidx_def)

lemma admitted_eqD: "books st' = books st \<Longrightarrow> outer st' = outer st \<Longrightarrow> admitted st' = admitted st"
  by (auto simp: books_def outer_def fun_eq_iff admitted_def)

text \<open>A loop whose invariant tells what was done.\<close>

lemma for_each_done:
  assumes "Q [] s" "\<And>xs y ys s. zs = xs @ y # ys \<Longrightarrow> Q xs s \<Longrightarrow> returns (f y s) (Q (xs @ [y]))"
  shows "returns (for_each f zs s) (Q zs)"
proof -
  have "returns (for_each f zs s) (\<lambda>s. \<exists>xs. zs = xs @ [] \<and> Q xs s)"
  proof (rule returns_for_each [where I = "\<lambda>ys s. \<exists>xs. zs = xs @ ys \<and> Q xs s"])
    show "\<exists>xs. zs = xs @ zs \<and> Q xs s" using assms(1) by simp
    fix y ys s assume "\<exists>xs. zs = xs @ y # ys \<and> Q xs s"
    then obtain xs where xs: "zs = xs @ y # ys" "Q xs s" by blast
    show "returns (f y s) (\<lambda>s. \<exists>xs. zs = xs @ ys \<and> Q xs s)"
      by (rule returns_mono [OF assms(2) [OF xs]]) (use xs(1) in \<open>auto intro!: exI [of _ "xs @ [y]"]\<close>)
  qed
  then show ?thesis by simp
qed

lemma for_each_partitions:
  assumes "returns (f 0 s) P" "\<And>s. P s \<Longrightarrow> returns (f 1 s) Q"
  shows "returns (for_each f [0 ..< N_PARTITIONS] s) Q"
proof -
  obtain s1 s2 where "f 0 s = Some s1" "P s1" "f 1 s1 = Some s2" "Q s2" using assms unfolding returns_def by blast
  then show ?thesis by (simp add: partition_consts upt_rec)
qed

section \<open>Grants\<close>

text \<open>A grant of partition \<open>p\<close> is for a request, its source and its destination are free, and its index in the requests is noted.\<close>

definition grant_ok :: "pim_state \<Rightarrow> pim_state \<Rightarrow> nat \<Rightarrow> nat \<Rightarrow> u16 \<Rightarrow> u16 \<Rightarrow> bool" where
  "grant_ok st0 st p q s d \<longleftrightarrow> PARTITION_OF s = p \<and> PARTITION_OF d = q \<and> \<not> sal st0 s \<and> \<not> dal st0 d
     \<and> gidx st s < length (req st0 s) \<and> req st0 s ! gidx st s = d"

definition grants_ok :: "pim_state \<Rightarrow> pim_state \<Rightarrow> nat \<Rightarrow> bool" where
  "grants_ok st0 st p \<longleftrightarrow> (\<forall>q < 2. distinct (map fst (granted st q p)) \<and> (\<forall>(s, d) \<in> set (granted st q p). grant_ok st0 st p q s d))"

lemma grants_okD: "grants_ok st0 st p \<Longrightarrow> q < 2 \<Longrightarrow> distinct (map fst (granted st q p))"
  "grants_ok st0 st p \<Longrightarrow> q < 2 \<Longrightarrow> (s, d) \<in> set (granted st q p) \<Longrightarrow> grant_ok st0 st p q s d"
  by (auto simp: grants_ok_def)

definition grant_frame :: "pim_state \<Rightarrow> pim_state \<Rightarrow> nat \<Rightarrow> bool" where
  "grant_frame st0 st p \<longleftrightarrow> outer st = outer st0 \<and> books st = books st0 \<and> dst_bits st = dst_bits st0 \<and> ps_accepts st = ps_accepts st0
     \<and> (\<forall>q p'. p' \<noteq> p \<longrightarrow> granted st q p' = granted st0 q p') \<and> (\<forall>s. PARTITION_OF s \<noteq> p \<longrightarrow> gidx st s = gidx st0 s)"

text \<open>The state in the loop over the sources, of which the ones in \<open>xs\<close> were visited.\<close>

definition granting :: "pim_state \<Rightarrow> nat \<Rightarrow> u16 list \<Rightarrow> pim_state \<Rightarrow> bool" where
  "granting st0 p xs st \<longleftrightarrow> grant_frame st0 st p \<and> grants_ok st0 st p \<and> (\<forall>q < 2. fst ` set (granted st q p) \<subseteq> set xs)"

lemma granting_skip: "granting st0 p xs st \<Longrightarrow> granting st0 p (xs @ [y]) st"
  by (auto simp: granting_def)

lemma rand_parts [simp]:
  "outer (upd_pc p (pc_rand_state_update f) st) = outer st" "books (upd_pc p (pc_rand_state_update f) st) = books st"
  "dst_bits (upd_pc p (pc_rand_state_update f) st) = dst_bits st" "grant_part (upd_pc p (pc_rand_state_update f) st) = grant_part st"
  "ps_accepts (upd_pc p (pc_rand_state_update f) st) = ps_accepts st" "ps_grants (upd_pc p (pc_rand_state_update f) st) = ps_grants st"
  "ps_requests_by_src (upd_pc p (pc_rand_state_update f) st) = ps_requests_by_src st"
  "gidx (upd_pc p (pc_rand_state_update f) st) = gidx st"
  by (auto simp: outer_def books_def dst_bits_def grant_part_def upd_pc_def fun_eq_iff gidx_def)

lemma granting_rand: "granting st0 p xs (upd_pc p (pc_rand_state_update f) st) \<longleftrightarrow> granting st0 p xs st"
  by (simp add: granting_def grant_frame_def grants_ok_def grant_ok_def)

lemma granting_edge:
  assumes "granting st0 p xs st" "y \<notin> set xs" "p < 2" "PARTITION_OF y = p" "in_range d" "\<not> sal st0 y" "\<not> dal st0 d"
    "unat j < length (req st0 y)" "req st0 y ! unat j = d"
  shows "returns (grant_edge p y d j st) (\<lambda>st'. granting st0 p (xs @ [y]) st' \<and> (y, d) \<in> set (granted st' (PARTITION_OF d) p)
    \<and> (\<forall>q. set (granted st q p) \<subseteq> set (granted st' q p)))"
proof -
  have g: "grants_ok st0 st p" "grant_frame st0 st p" "\<And>q. q < 2 \<Longrightarrow> y \<notin> fst ` set (granted st q p)"
    using assms(1,2) by (auto simp: granting_def)
  let ?es = "granted st (PARTITION_OF d) p"
  have "length (y # map fst ?es) \<le> 128"
  proof (rule distinct_partition_length [OF assms(3)])
    show "distinct (y # map fst ?es)" using g(3) [OF assms(5)] grants_okD(1) [OF g(1) assms(5)] by simp
    have "PARTITION_OF s = p" if "(s, e) \<in> set ?es" for s e using grants_okD(2) [OF g(1) assms(5) that] by (simp add: grant_ok_def)
    then have "\<forall>x \<in> set (map fst ?es). PARTITION_OF x = p" by (metis (no_types, lifting) imageE list.set_map prod.collapse)
    then show "\<forall>x \<in> set (y # map fst ?es). PARTITION_OF x = p" using assms(4) unfolding list.set by blast
  qed
  then have "length ?es < 128" by simp
  from partd_add [of y d "ps_grants st", unfolded assms(4), OF assms(3,5) this] obtain g' where ga: "ga_partd_edgelist_add (ps_grants st) y d = Some g'"
    and ge: "\<forall>q p'. edges_of g' q p' = granted st q p' @ (if q = PARTITION_OF d \<and> p' = p then [(y, d)] else [])" by (elim exE conjE)
  note g' = ga ge [rule_format]
  define st' where "st' = upd_pc p (\<lambda>core. core\<lparr>pc_grant_adj_index := (pc_grant_adj_index core)(PARTITION_IDX y := j)\<rparr>) (st\<lparr>ps_grants := g'\<rparr>)"
  have st': "ps_grants st' = g'" "outer st' = outer st" "books st' = books st" "dst_bits st' = dst_bits st" "ps_accepts st' = ps_accepts st"
    by (simp_all add: st'_def upd_pc_def outer_def books_def dst_bits_def fun_eq_iff)
  have gi: "gidx st' s = (if s = y then unat j else gidx st s)" for s
    using assms(4) partition_eqI [of s y] by (auto simp: st'_def upd_pc_def gidx_def)
  have "grant_frame st0 st' p" using g(2) assms(4) by (auto simp: grant_frame_def st' g'(2) gi)
  moreover have "grants_ok st0 st' p"
    unfolding grants_ok_def
  proof (intro allI impI conjI)
    fix q :: nat assume q: "q < 2"
    show "distinct (map fst (granted st' q p))" using g(1,3) q by (auto simp: st' g'(2) grants_ok_def)
    have "grant_ok st0 st' p q s e" if "(s, e) \<in> set (granted st q p)" for s e
      using grants_okD(2) [OF g(1) q that] g(3) [OF q] that by (force simp: grant_ok_def gi)
    moreover have "grant_ok st0 st' p (PARTITION_OF d) y d" using assms by (simp add: grant_ok_def gi)
    ultimately show "\<forall>(s, d) \<in> set (granted st' q p). grant_ok st0 st' p q s d" by (auto simp: st' g'(2))
  qed
  moreover have "fst ` set (granted st' q p) \<subseteq> set (xs @ [y])" if "q < 2" for q using assms(1) that by (auto simp: granting_def st' g'(2))
  ultimately have "granting st0 p (xs @ [y]) st'" by (simp add: granting_def)
  moreover have "(y, d) \<in> set (granted st' (PARTITION_OF d) p)" "\<forall>q. set (granted st q p) \<subseteq> set (granted st' q p)" by (auto simp: st' g'(2))
  moreover have "grant_edge p y d j st = Some st'" by (simp add: grant_edge_def g'(1) st'_def)
  ultimately show ?thesis by simp
qed

text \<open>The requests of a source that is in range.\<close>

definition reqs_ok :: "pim_state \<Rightarrow> bool" where
  "reqs_ok st \<longleftrightarrow> (\<forall>s. in_range s \<longrightarrow> distinct (req st s) \<and> (\<forall>d \<in> set (req st s). in_range d \<and> demand st s d \<noteq> 0))"

lemma reqs_okD:
  assumes "reqs_ok st" "in_range s"
  shows "distinct (req st s)" "d \<in> set (req st s) \<Longrightarrow> in_range d" "d \<in> set (req st s) \<Longrightarrow> demand st s d \<noteq> 0" "length (req st s) \<le> 256"
proof -
  show d: "distinct (req st s)" "d \<in> set (req st s) \<Longrightarrow> in_range d" "d \<in> set (req st s) \<Longrightarrow> demand st s d \<noteq> 0"
    using assms by (auto simp: reqs_ok_def)
  show "length (req st s) \<le> 256" using assms by (intro distinct_nodes_length) (auto simp: reqs_ok_def)
qed

lemma granting_start:
  assumes "p < 2"
  shows "granting st0 p [] (st0\<lparr>ps_grants := ga_partd_edgelist_src_reset (ps_grants st0) p\<rparr>)"
proof -
  let ?st = "st0\<lparr>ps_grants := ga_partd_edgelist_src_reset (ps_grants st0) p\<rparr>"
  have "outer ?st = outer st0" "books ?st = books st0" "dst_bits ?st = dst_bits st0" "ps_accepts ?st = ps_accepts st0" "gidx ?st = gidx st0"
    by (simp_all add: outer_def books_def dst_bits_def gidx_def fun_eq_iff)
  then show ?thesis by (simp add: granting_def grant_frame_def grants_ok_def partd_reset)
qed

lemma granting_req: "granting st0 p xs st \<Longrightarrow> req st = req st0" "granting st0 p xs st \<Longrightarrow> dal st = dal st0" "granting st0 p xs st \<Longrightarrow> sal st = sal st0"
  using books_eqD [of st st0] dst_bits_eqD [of st st0] by (simp_all add: granting_def grant_frame_def)

lemma req_adj:
  assumes "PARTITION_OF y = p"
  shows "unat (adj_degree (ps_requests_by_src st p) (PARTITION_IDX y)) = length (req st y)"
    "j < length (req st y) \<Longrightarrow> adj_neigh (ps_requests_by_src st p) (PARTITION_IDX y) j = req st y ! j"
    "adj_degree (ps_requests_by_src st p) (PARTITION_IDX y) = 0 \<longleftrightarrow> req st y = []"
  using assms by (simp_all add: req_def length_adj_list nth_adj_list degree_zero)

theorem grant_first_it:
  assumes "p < 2" "reqs_ok st0" "\<And>s. in_range s \<Longrightarrow> \<not> sal st0 s" "\<And>d. in_range d \<Longrightarrow> \<not> dal st0 d"
  shows "returns (pim_do_grant_first_it p st0) (\<lambda>st. grant_frame st0 st p \<and> grants_ok st0 st p
    \<and> (\<forall>s. PARTITION_OF s = p \<longrightarrow> req st0 s \<noteq> [] \<longrightarrow> (\<exists>q < 2. \<exists>d. (s, d) \<in> set (granted st q p))))"
proof -
  let ?Q = "\<lambda>xs st. granting st0 p xs st \<and> (\<forall>s \<in> set xs. req st0 s \<noteq> [] \<longrightarrow> (\<exists>q < 2. \<exists>d. (s, d) \<in> set (granted st q p)))"
  have "returns (pim_do_grant_first_it p st0) (?Q (partition_nodes p))"
    unfolding pim_do_grant_first_it_def
  proof (rule for_each_done, goal_cases)
    case 1
    show ?case using granting_start [OF assms(1)] by simp
  next
    case (2 xs y ys st)
    then have y: "PARTITION_OF y = p" "y \<notin> set xs" using nodes_of_partition [OF assms(1)] by (auto simp: set_eq_iff)
    have gr: "granting st0 p xs st" and rq: "req st = req st0" using 2(2) granting_req by auto
    show ?case
    proof (cases "req st0 y = []")
      case True
      then show ?thesis using 2(2) granting_skip [OF gr] req_adj(3) [OF y(1), of st] rq by (auto simp: Let_def)
    next
      case False
      let ?deg = "adj_degree (ps_requests_by_src st p) (PARTITION_IDX y)"
      obtain r rs where r: "random_int (pc_rand_state (ps_cores st p)) ?deg = (r, rs)" by fastforce
      let ?j = "ucast r :: u16" and ?st = "upd_pc p (pc_rand_state_update (\<lambda>_. rs)) st"
      have deg: "?deg \<noteq> 0" using False req_adj(3) [OF y(1), of st] rq by simp
      have j: "unat ?j < length (req st0 y)" using random_int_less [OF r deg] req_adj(1) [OF y(1), of st] rq by simp
      have ri: "in_range y" using y(1) assms(1) by simp
      have d: "in_range (req st0 y ! unat ?j)" using reqs_okD(2) [OF assms(2) ri nth_mem [OF j]] .
      have lt: "unat ?j < 256" using j reqs_okD(4) [OF assms(2) ri] by simp
      have n: "adj_neigh (ps_requests_by_src st p) (PARTITION_IDX y) (unat ?j) = req st0 y ! unat ?j" using req_adj(2) [OF y(1), of _ st] j rq by simp
      have "returns (grant_edge p y (req st0 y ! unat ?j) ?j ?st) (?Q (xs @ [y]))"
        by (rule returns_mono, rule granting_edge [of st0 p xs])
          (use gr y assms(1,3,4) ri d j 2(2) in \<open>auto simp: granting_rand subset_iff Ball_def, blast\<close>)
      then show ?thesis using deg lt by (simp add: Let_def r n GA_MAX_DEGREE_def)
    qed
  qed
  then show ?thesis by (rule returns_mono) (use nodes_of_partition(2) [OF assms(1)] in \<open>auto simp: granting_def\<close>)
qed

text \<open>The search for a free destination ends with a request of the source, and says whether its destination is free.\<close>

lemma find_free_dst_spec:
  assumes "PARTITION_OF y = p" "p < 2" "reqs_ok st" "req st y \<noteq> []"
  shows "returns (find_free_dst p (PARTITION_IDX y) (adj_degree (ps_requests_by_src st p) (PARTITION_IDX y)) tries st)
    (\<lambda>(j, d, al, st'). (\<exists>rs. st' = upd_pc p (pc_rand_state_update (\<lambda>_. rs)) st) \<and> unat j < length (req st y) \<and> d = req st y ! unat j \<and> al = dal st d)"
  using assms
proof (induction tries arbitrary: st rule: less_induct)
  case (less tries)
  let ?deg = "adj_degree (ps_requests_by_src st p) (PARTITION_IDX y)"
  obtain r rs where r: "random_int (pc_rand_state (ps_cores st p)) ?deg = (r, rs)" by fastforce
  define st' where "st' = upd_pc p (pc_rand_state_update (\<lambda>_. rs)) st"
  let ?j = "ucast r :: u16"
  let ?d = "req st y ! unat ?j"
  have deg: "?deg \<noteq> 0" using less.prems(4) req_adj(3) [OF less.prems(1), of st] by simp
  have j: "unat ?j < length (req st y)" using random_int_less [OF r deg] req_adj(1) [OF less.prems(1), of st] by simp
  have ri: "in_range y" using less.prems(1,2) by simp
  have d: "in_range ?d" using reqs_okD(2) [OF less.prems(3) ri nth_mem [OF j]] .
  have lt: "unat ?j < 256" using j reqs_okD(4) [OF less.prems(3) ri] by simp
  have same: "books st' = books st" "dst_bits st' = dst_bits st" "ps_requests_by_src st' = ps_requests_by_src st" by (simp_all add: st'_def)
  note eqs = books_eqD [OF same(1)] dst_bits_eqD [OF same(2)]
  have n: "adj_neigh (ps_requests_by_src st p) (PARTITION_IDX y) (unat ?j) = ?d" using req_adj(2) [OF less.prems(1) j] .
  have al: "dst_is_allocated st' ?d = dal st ?d" by (simp add: dst_is_allocated_eq dal_def flip: eqs(4))
  have step: "find_free_dst p (PARTITION_IDX y) ?deg tries st = (if dal st ?d \<and> 0 < tries - 1
      then find_free_dst p (PARTITION_IDX y) ?deg (tries - 1) st' else Some (?j, ?d, dal st ?d, st'))"
    unfolding find_free_dst.simps [of p "PARTITION_IDX y" ?deg tries]
    using lt d by (simp add: Let_def r n al GA_MAX_DEGREE_def partition_consts(1) same(3) flip: st'_def)
  show ?case
  proof (cases "dal st ?d \<and> 0 < tries - 1")
    case True
    have rq: "reqs_ok st'" using less.prems(3) by (simp add: reqs_ok_def eqs)
    have rand: "upd_pc p (pc_rand_state_update (\<lambda>_. x)) st' = upd_pc p (pc_rand_state_update (\<lambda>_. x)) st" for x
      by (simp add: st'_def upd_pc_def)
    have "tries - 1 < tries" "req st' y \<noteq> []" using True less.prems(4) by (simp_all add: eqs)
    from less.IH [OF this(1) less.prems(1,2) rq this(2)] show ?thesis unfolding step using True by (simp add: same(3) eqs rand)
  next
    case False
    then show ?thesis unfolding step using j by (auto simp: st'_def)
  qed
qed

theorem grant_later_it:
  assumes "p < 2" "reqs_ok st0"
  shows "returns (pim_do_grant p st0) (\<lambda>st. grant_frame st0 st p \<and> grants_ok st0 st p)"
proof -
  have "returns (pim_do_grant p st0) (granting st0 p (partition_nodes p))"
    unfolding pim_do_grant_def
  proof (rule for_each_done, goal_cases)
    case 1
    show ?case by (rule granting_start [OF assms(1)])
  next
    case (2 xs y ys st)
    then have y: "PARTITION_OF y = p" "y \<notin> set xs" using nodes_of_partition [OF assms(1)] by (auto simp: set_eq_iff)
    note gr = granting_req [OF 2(2)]
    let ?deg = "adj_degree (ps_requests_by_src st p) (PARTITION_IDX y)"
    have ri: "in_range y" using y(1) assms(1) by simp
    have sa: "src_is_allocated (ps_cores st p) y = sal st0 y" using y(1) by (simp add: sal_def flip: gr(3))
    show ?case
    proof (cases "sal st0 y \<or> req st0 y = []")
      case True
      then show ?thesis using granting_skip [OF 2(2)] req_adj(3) [OF y(1), of st] by (auto simp: Let_def sa gr(1))
    next
      case False
      have rq: "reqs_ok st" using assms(2) 2(2) books_eqD [of st st0] by (simp add: reqs_ok_def granting_def grant_frame_def)
      have ne: "req st y \<noteq> []" "?deg \<noteq> 0" using False req_adj(3) [OF y(1), of st] by (simp_all add: gr(1))
      obtain j d al st' rs where f: "find_free_dst p (PARTITION_IDX y) ?deg MAX_TRIES st = Some (j, d, al, st')"
        "st' = upd_pc p (pc_rand_state_update (\<lambda>_. rs)) st" "unat j < length (req st0 y)" "d = req st0 y ! unat j" "al = dal st0 d"
        using find_free_dst_spec [OF y(1) assms(1) rq ne(1), of MAX_TRIES] by (auto simp: returns_def gr)
      have g': "granting st0 p xs st'" using 2(2) by (simp add: f(2) granting_rand)
      show ?thesis
      proof (cases al)
        case True
        then show ?thesis using False ne granting_skip [OF g'] by (simp add: Let_def sa f(1))
      next
        case na: False
        have "in_range d" using reqs_okD(2) [OF assms(2) ri nth_mem [OF f(3)]] by (simp add: f(4))
        then have "returns (grant_edge p y d j st') (granting st0 p (xs @ [y]))"
          using granting_edge [OF g' y(2) assms(1) y(1) _ _ _ f(3) f(4) [symmetric]] na f(5) False by (auto elim: returns_mono)
        then show ?thesis using False ne na by (simp add: Let_def sa f(1))
      qed
    qed
  qed
  then show ?thesis by (rule returns_mono) (simp add: granting_def)
qed

end
