(* ===== verification/Pim_Accept.thy ===== *)
theory Pim_Accept
  imports Pim_Grant
begin

text \<open>
  The accept step of the grant-accept allocator: every destination that has a grant accepts exactly one of its grants.
\<close>

section \<open>Grants by destination\<close>

lemma edges_to_adj:
  assumes "\<And>i. length (adj_list adj i) + length (el_list el) \<le> 256"
  shows "returns (ga_edges_to_adj_by_dst (el_edge el) (el_n el) adj)
    (\<lambda>adj'. \<forall>i. adj_list adj' i = adj_list adj i @ map fst (filter (\<lambda>e. PARTITION_IDX (snd e) = i) (el_list el)))"
proof -
  let ?P = "\<lambda>k adj'. \<forall>i. adj_list adj' i = adj_list adj i @ map fst (filter (\<lambda>e. PARTITION_IDX (snd e) = i) (take k (el_list el)))"
  have len: "length (el_list el) = unat (el_n el)" by (simp add: el_list_def)
  have "returns (ga_edges_to_adj_by_dst (el_edge el) (el_n el) adj) (?P (unat (el_n el)))"
    unfolding ga_edges_to_adj_by_dst_def
  proof (rule for_each_loop)
    show "?P 0 adj" by simp
    fix k adj' assume k: "k < unat (el_n el)" and P: "?P k adj'"
    let ?e = "el_edge el k" and ?i = "PARTITION_IDX (ge_dst (el_edge el k))"
    have "length (adj_list adj' ?i) \<le> length (adj_list adj ?i) + k"
      using P length_filter_le [of "\<lambda>e. PARTITION_IDX (snd e) = ?i" "take k (el_list el)"] by (auto simp: len)
    then have "length (adj_list adj' ?i) < 256" using assms [of ?i] k by (simp add: len)
    from add_edge_by_src [OF partition_idx_less this, of "ge_src ?e"] obtain adj'' where
      adj'': "ga_adj_add_edge_by_src adj' ?i (ge_src ?e) = Some adj''" "adj_list adj'' = (adj_list adj')(?i := adj_list adj' ?i @ [ge_src ?e])"
      by (elim exE conjE)
    have "el_list el ! k = (ge_src ?e, ge_dst ?e)" using k by (simp add: el_list_def)
    then have "take (Suc k) (el_list el) = take k (el_list el) @ [(ge_src ?e, ge_dst ?e)]" using k by (simp add: take_Suc_conv_app_nth len)
    then have "?P (Suc k) adj''" using P by (simp add: adj''(2))
    then show "returns (ga_adj_add_edge_by_dst adj' (ge_src ?e) ?i) (?P (Suc k))" by (simp add: add_edge_by_dst_eq adj''(1))
  qed
  then show ?thesis by (simp add: len [symmetric])
qed

lemma grants_by_dst:
  assumes "length (edges_of g q 0) + length (edges_of g q 1) \<le> 256"
  shows "returns (for_each (\<lambda>src_partition. ga_edges_to_adj_by_dst (el_edge (g q src_partition)) (el_n (g q src_partition))) [0 ..< N_PARTITIONS] (ga_reset_adj adj))
    (\<lambda>adj'. \<forall>i. adj_list adj' i = map fst (filter (\<lambda>e. PARTITION_IDX (snd e) = i) (edges_of g q 0 @ edges_of g q 1)))"
proof -
  let ?f = "\<lambda>i p. map fst (filter (\<lambda>e. PARTITION_IDX (snd e) = i) (edges_of g q p))"
  have 0: "returns (ga_edges_to_adj_by_dst (el_edge (g q 0)) (el_n (g q 0)) (ga_reset_adj adj)) (\<lambda>adj'. \<forall>i. adj_list adj' i = ?f i 0)"
    by (rule returns_mono [OF edges_to_adj]) (use assms in \<open>simp_all add: adj_list_reset\<close>)
  have 1: "returns (ga_edges_to_adj_by_dst (el_edge (g q 1)) (el_n (g q 1)) adj1) (\<lambda>adj'. \<forall>i. adj_list adj' i = ?f i 0 @ ?f i 1)"
    if a: "\<forall>i. adj_list adj1 i = ?f i 0" for adj1
  proof (rule returns_mono [OF edges_to_adj])
    show "length (adj_list adj1 i) + length (edges_of g q 1) \<le> 256" for i
      using assms a length_filter_le [of "\<lambda>e. PARTITION_IDX (snd e) = i" "edges_of g q 0"] by (simp only: length_map)
  qed (simp add: a)
  have "returns (for_each (\<lambda>src_partition. ga_edges_to_adj_by_dst (el_edge (g q src_partition)) (el_n (g q src_partition))) [0 ..< N_PARTITIONS] (ga_reset_adj adj))
    (\<lambda>adj'. \<forall>i. adj_list adj' i = ?f i 0 @ ?f i 1)"
    by (rule for_each_partitions [where P = "\<lambda>adj'. \<forall>i. adj_list adj' i = ?f i 0"]) (use 0 1 in blast)+
  then show ?thesis by simp
qed

lemma mem_fst_filter: "s \<in> set (map fst (filter (\<lambda>e. P (snd e)) es)) \<longleftrightarrow> (\<exists>d. (s, d) \<in> set es \<and> P d)"
  by (induction es) auto

section \<open>Accepts\<close>

abbreviation accepted_of :: "pim_state \<Rightarrow> nat \<Rightarrow> (u16 \<times> u16) list" where
  "accepted_of st q \<equiv> accepted st q 0 @ accepted st q 1"

definition accept_frame :: "pim_state \<Rightarrow> pim_state \<Rightarrow> nat \<Rightarrow> bool" where
  "accept_frame st1 st q \<longleftrightarrow> outer st = outer st1 \<and> books st = books st1 \<and> grant_part st = grant_part st1
     \<and> (\<forall>q' p. q' \<noteq> q \<longrightarrow> accepted st q' p = accepted st1 q' p)"

definition accepts_ok :: "pim_state \<Rightarrow> pim_state \<Rightarrow> nat \<Rightarrow> bool" where
  "accepts_ok st1 st q \<longleftrightarrow> (\<forall>p < 2. set (accepted st q p) \<subseteq> set (granted st1 q p)) \<and> distinct (map snd (accepted_of st q))
     \<and> (\<forall>d. dal st d \<longleftrightarrow> dal st1 d \<or> d \<in> snd ` set (accepted_of st q))"

text \<open>The state in the loop over the destinations.\<close>

definition accepting :: "pim_state \<Rightarrow> nat \<Rightarrow> ga_adj \<Rightarrow> u16 list \<Rightarrow> pim_state \<Rightarrow> bool" where
  "accepting st1 q adj xs st \<longleftrightarrow> accept_frame st1 st q \<and> accepts_ok st1 st q \<and> ps_grants_by_dst st q = adj
     \<and> snd ` set (accepted_of st q) \<subseteq> set xs
     \<and> (\<forall>d \<in> set xs. d \<in> snd ` set (granted st1 q 0 @ granted st1 q 1) \<longrightarrow> d \<in> snd ` set (accepted_of st q))"

definition granted_in :: "pim_state \<Rightarrow> nat \<Rightarrow> bool" where
  "granted_in st q \<longleftrightarrow> (\<forall>p < 2. distinct (map fst (granted st q p)) \<and> (\<forall>(s, d) \<in> set (granted st q p). PARTITION_OF s = p \<and> PARTITION_OF d = q))"

lemma granted_inD:
  assumes "granted_in st q" "p < 2"
  shows "distinct (map fst (granted st q p))" "(s, d) \<in> set (granted st q p) \<Longrightarrow> PARTITION_OF s = p"
    "(s, d) \<in> set (granted st q p) \<Longrightarrow> PARTITION_OF d = q" "length (granted st q p) \<le> 128"
proof -
  show d: "distinct (map fst (granted st q p))" "(s, d) \<in> set (granted st q p) \<Longrightarrow> PARTITION_OF s = p"
    "(s, d) \<in> set (granted st q p) \<Longrightarrow> PARTITION_OF d = q" using assms by (auto simp: granted_in_def)
  have "\<forall>x \<in> set (map fst (granted st q p)). PARTITION_OF x = p" using assms unfolding granted_in_def by fastforce
  from distinct_partition_length [OF assms(2) d(1) this] show "length (granted st q p) \<le> 128" by simp
qed

lemma accepting_edge:
  assumes "accepting st1 q adj xs st" "granted_in st1 q" "q < 2" "y \<notin> set xs" "p < 2" "(s, y) \<in> set (granted st1 q p)"
  shows "returns (ga_partd_edgelist_add (ps_accepts st) s y)
    (\<lambda>a. accepting st1 q adj (xs @ [y]) (upd_pc q (\<lambda>core. mark_dst_allocated y (core\<lparr>pc_rand_state := rs\<rparr>)) (st\<lparr>ps_accepts := a\<rparr>)))"
proof -
  have P: "PARTITION_OF s = p" "PARTITION_OF y = q" using granted_inD(2,3) [OF assms(2,5,6)] .
  have ok: "accepts_ok st1 st q" "accept_frame st1 st q" and new: "y \<notin> snd ` set (accepted_of st q)" using assms(1,4) by (auto simp: accepting_def)
  have sub: "set (accepted st q p') \<subseteq> set (granted st1 q p')" if "p' < 2" for p' using ok(1) that by (simp add: accepts_ok_def)
  have "length (accepted st q p) < 128"
  proof -
    have "distinct (y # map snd (accepted st q p))" using ok(1) new assms(5) by (auto simp: accepts_ok_def less_2_cases_iff)
    moreover have "PARTITION_OF d = q" if "(s', d) \<in> set (accepted st q p)" for s' d using granted_inD(3) [OF assms(2,5), of s' d] sub [OF assms(5)] that by blast
    then have "\<forall>x \<in> set (y # map snd (accepted st q p)). PARTITION_OF x = q" using P(2) by (metis (no_types, lifting) imageE list.set_map prod.collapse set_ConsD)
    ultimately have "length (y # map snd (accepted st q p)) \<le> 128" by (rule distinct_partition_length [OF assms(3)])
    then show ?thesis by simp
  qed
  from partd_add [of s y "ps_accepts st", unfolded P, OF assms(5,3) this] obtain a where a: "ga_partd_edgelist_add (ps_accepts st) s y = Some a"
    and ae: "\<forall>q' p'. edges_of a q' p' = accepted st q' p' @ (if q' = q \<and> p' = p then [(s, y)] else [])" by (elim exE conjE)
  define st' where "st' = upd_pc q (\<lambda>core. mark_dst_allocated y (core\<lparr>pc_rand_state := rs\<rparr>)) (st\<lparr>ps_accepts := a\<rparr>)"
  have st': "ps_accepts st' = a" "outer st' = outer st" "books st' = books st" "grant_part st' = grant_part st" "ps_grants_by_dst st' = ps_grants_by_dst st"
    by (simp_all add: st'_def upd_pc_def outer_def books_def grant_part_def mark_dst_allocated_def Let_def fun_eq_iff)
  have d: "dal st' d \<longleftrightarrow> y = d \<or> dal st d" for d
  proof (cases "PARTITION_OF d = q")
    case True
    have "dst_alloc (core\<lparr>pc_rand_state := rs\<rparr>) d = dst_alloc core d" for core by (simp add: dst_alloc_def)
    then show ?thesis using True P(2) partition_eqI [of y d] by (auto simp: dal_def st'_def upd_pc_def dst_alloc_mark)
  next
    case False
    then show ?thesis using P(2) by (auto simp: dal_def st'_def upd_pc_def)
  qed
  have set': "set (accepted_of st' q) = insert (s, y) (set (accepted_of st q))" using assms(5) by (auto simp: st' ae less_2_cases_iff)
  have "accepts_ok st1 st' q"
    unfolding accepts_ok_def set'
  proof (intro conjI allI impI)
    show "distinct (map snd (accepted_of st' q))" using ok(1) new assms(5) by (auto simp: accepts_ok_def st' ae less_2_cases_iff)
    show "set (accepted st' q p') \<subseteq> set (granted st1 q p')" if "p' < 2" for p' using sub [OF that] assms(6) by (auto simp: st' ae)
    show "dal st' x \<longleftrightarrow> dal st1 x \<or> x \<in> snd ` insert (s, y) (set (accepted_of st q))" for x using ok(1) d [of x] by (auto simp: accepts_ok_def)
  qed
  moreover have "accept_frame st1 st' q" using ok(2) by (simp add: accept_frame_def st' ae)
  ultimately have "accepting st1 q adj (xs @ [y]) st'" using assms(1) unfolding accepting_def set' by (auto simp: st'(5))
  then show ?thesis by (simp add: a flip: st'_def)
qed

theorem accept_step:
  assumes "q < 2" "granted_in st1 q" "accepted st1 q 0 = []" "accepted st1 q 1 = []"
  shows "returns (pim_do_accept q st1) (\<lambda>st. accept_frame st1 st q \<and> accepts_ok st1 st q
    \<and> snd ` set (granted st1 q 0 @ granted st1 q 1) \<subseteq> snd ` set (accepted_of st q))"
proof -
  let ?g = "granted st1 q 0 @ granted st1 q 1"
  have "length (granted st1 q 0) + length (granted st1 q 1) \<le> 256" using granted_inD(4) [OF assms(2), of 0] granted_inD(4) [OF assms(2), of 1] by simp
  from grants_by_dst [of "ps_grants st1" q, OF this, of "ps_grants_by_dst st1 q"] obtain adj where
    adj: "for_each (\<lambda>src_partition. ga_edges_to_adj_by_dst (el_edge (ps_grants st1 q src_partition)) (el_n (ps_grants st1 q src_partition)))
       [0 ..< N_PARTITIONS] (ga_reset_adj (ps_grants_by_dst st1 q)) = Some adj"
      "\<And>i. adj_list adj i = map fst (filter (\<lambda>e. PARTITION_IDX (snd e) = i) ?g)" by (auto simp: returns_def)
  have in_q: "PARTITION_OF d = q" if "(s, d) \<in> set (granted st1 q 0) \<or> (s, d) \<in> set (granted st1 q 1)" for s d
    using granted_inD(3) [OF assms(2), of 0 s d] granted_inD(3) [OF assms(2), of 1 s d] that by (elim disjE) simp_all
  have mem: "s \<in> set (adj_list adj (PARTITION_IDX y)) \<longleftrightarrow> (\<exists>p < 2. (s, y) \<in> set (granted st1 q p))" if y: "PARTITION_OF y = q" for s y
  proof -
    have "d = y" if "(s', d) \<in> set ?g" "PARTITION_IDX d = PARTITION_IDX y" for s' d
    proof -
      have "PARTITION_OF d = q" using that(1) in_q unfolding set_append by blast
      then show ?thesis using that(2) y by (intro partition_eqI) simp_all
    qed
    moreover have "s \<in> set (adj_list adj (PARTITION_IDX y)) \<longleftrightarrow> (\<exists>d. (s, d) \<in> set ?g \<and> PARTITION_IDX d = PARTITION_IDX y)"
      unfolding adj(2) by (rule mem_fst_filter)
    ultimately have "s \<in> set (adj_list adj (PARTITION_IDX y)) \<longleftrightarrow> (s, y) \<in> set ?g" by blast
    also have "\<dots> \<longleftrightarrow> (\<exists>p < 2. (s, y) \<in> set (granted st1 q p))" unfolding less_2_cases_iff by auto
    finally show ?thesis .
  qed
  have short: "length (adj_list adj i) \<le> 256" for i
    using length_filter_le [of "\<lambda>e. PARTITION_IDX (snd e) = i" ?g] \<open>length (granted st1 q 0) + length (granted st1 q 1) \<le> 256\<close>
    by (simp only: adj(2) length_map length_append)
  have start: "accepting st1 q adj [] (st1\<lparr>ps_grants_by_dst := (ps_grants_by_dst st1)(q := adj)\<rparr>)"
  proof -
    let ?st = "st1\<lparr>ps_grants_by_dst := (ps_grants_by_dst st1)(q := adj)\<rparr>"
    have "outer ?st = outer st1" "books ?st = books st1" "grant_part ?st = grant_part st1" "dal ?st = dal st1"
      by (simp_all add: outer_def books_def grant_part_def dal_def fun_eq_iff)
    then show ?thesis using assms(3,4) by (simp add: accepting_def accept_frame_def accepts_ok_def less_2_cases_iff)
  qed
  have "returns (pim_do_accept q st1) (accepting st1 q adj (partition_nodes q))"
    unfolding pim_do_accept_def adj(1) Option.bind_lunit Let_def [where s = "st1\<lparr>ps_grants_by_dst := X\<rparr>" for X]
  proof (rule for_each_done, goal_cases)
    case 1
    show ?case by (rule start)
  next
    case (2 xs y ys st)
    then have y: "PARTITION_OF y = q" "y \<notin> set xs" using nodes_of_partition [OF assms(1)] by (auto simp: set_eq_iff)
    have a: "ps_grants_by_dst st q = adj" using 2(2) by (simp add: accepting_def)
    let ?deg = "adj_degree adj (PARTITION_IDX y)"
    show ?case
    proof (cases "?deg = 0")
      case True
      then have "y \<notin> snd ` set ?g" using mem [OF y(1)] by (force simp: degree_zero less_2_cases_iff)
      then have "accepting st1 q adj (xs @ [y]) st" using 2(2) by (auto simp: accepting_def)
      then show ?thesis using True by (simp add: Let_def a)
    next
      case False
      obtain r rs where r: "random_int (pc_rand_state (ps_cores st q)) ?deg = (r, rs)" by fastforce
      let ?j = "ucast r :: u16"
      have j: "unat ?j < length (adj_list adj (PARTITION_IDX y))" using random_int_less [OF r False] by (simp add: length_adj_list)
      let ?s = "adj_list adj (PARTITION_IDX y) ! unat ?j"
      obtain p where p: "p < 2" "(?s, y) \<in> set (granted st1 q p)" using mem [OF y(1)] nth_mem [OF j] by blast
      have "unat ?j < 256" using j short [of "PARTITION_IDX y"] by simp
      then show ?thesis using accepting_edge [OF 2(2) assms(2,1) y(2) p, of rs] False
        by (auto simp: Let_def a r nth_adj_list [OF j] GA_MAX_DEGREE_def returns_def)
    qed
  qed
  then show ?thesis
  proof (rule returns_mono)
    fix st assume acc: "accepting st1 q adj (partition_nodes q) st"
    have "snd ` set ?g \<subseteq> set (partition_nodes q)"
      using in_q unfolding nodes_of_partition(2) [OF assms(1)] set_append by (auto simp only: image_Un Un_iff snd_conv) blast+
    then show "accept_frame st1 st q \<and> accepts_ok st1 st q \<and> snd ` set ?g \<subseteq> snd ` set (accepted_of st q)"
      using acc unfolding accepting_def by blast
  qed
qed

end
