(* ===== verification/Pim_Process.thy ===== *)
theory Pim_Process
  imports Pim_Accept
begin

text \<open>
  The processing of the accepts: an accepted pair is admitted, its source is taken, its demand falls by one, and a request without
  demand is deleted.
\<close>

section \<open>Demands\<close>

text \<open>What the allocator relies on of \<open>backlog_decrease\<close>: it takes one from the backlog of a pair that has some, returns what is left, and
  leaves all other pairs alone.\<close>

definition dec_ok :: "decrease \<Rightarrow> bool" where
  "dec_ok dec \<longleftrightarrow> (\<forall>b s d n. in_range s \<longrightarrow> in_range d \<longrightarrow> backlog_get b s d = Some n \<longrightarrow> n \<noteq> 0 \<longrightarrow>
     (\<exists>b'. dec b s d = Some (n - 1, b') \<and> (\<forall>s' d'. in_range s' \<longrightarrow> in_range d' \<longrightarrow>
        backlog_get b' s' d' = (if s' = s \<and> d' = d then Some (n - 1) else backlog_get b s' d'))))"

lemma backlog_get_demand: "in_range s \<Longrightarrow> in_range d \<Longrightarrow> backlog_get (ps_backlog st) s d = Some (demand st s d)"
  by (simp add: demand_def backlog_get_def pair_index_eq node_in_partition)

section \<open>Accepted pairs\<close>

definition process_frame :: "pim_state \<Rightarrow> pim_state \<Rightarrow> bool" where
  "process_frame st st' \<longleftrightarrow> outer st' = outer st \<and> grant_part st' = grant_part st \<and> dst_bits st' = dst_bits st \<and> ps_accepts st' = ps_accepts st"

text \<open>The pairs \<open>xs\<close> were admitted between two states.\<close>

definition took :: "pim_state \<Rightarrow> pim_state \<Rightarrow> (u16 \<times> u16) list \<Rightarrow> bool" where
  "took st st' xs \<longleftrightarrow>
     (\<forall>p < 2. admitted st' p = admitted st p @ filter (\<lambda>e. PARTITION_OF (fst e) = p) xs)
     \<and> (\<forall>t. sal st' t \<longleftrightarrow> t \<in> fst ` set xs \<or> sal st t)
     \<and> (\<forall>t u. in_range t \<longrightarrow> in_range u \<longrightarrow> unat (demand st' t u) + of_bool ((t, u) \<in> set xs) = unat (demand st t u))
     \<and> (\<forall>t. t \<notin> fst ` set xs \<longrightarrow> req st' t = req st t)
     \<and> (\<forall>t. in_range t \<longrightarrow> distinct (req st' t) \<and> set (req st' t) = {u \<in> set (req st t). demand st' t u \<noteq> 0})"

lemma tookD:
  assumes "took st st' xs"
  shows "p < 2 \<Longrightarrow> admitted st' p = admitted st p @ filter (\<lambda>e. PARTITION_OF (fst e) = p) xs"
    "sal st' t \<longleftrightarrow> t \<in> fst ` set xs \<or> sal st t"
    "in_range t \<Longrightarrow> in_range u \<Longrightarrow> unat (demand st' t u) + of_bool ((t, u) \<in> set xs) = unat (demand st t u)"
    "t \<notin> fst ` set xs \<Longrightarrow> req st' t = req st t"
    "in_range t \<Longrightarrow> distinct (req st' t)" "in_range t \<Longrightarrow> set (req st' t) = {u \<in> set (req st t). demand st' t u \<noteq> 0}"
  using assms unfolding took_def by blast+

lemma took_Nil: "reqs_ok st \<Longrightarrow> took st st []"
  by (auto simp: took_def reqs_ok_def)

lemma took_append:
  assumes "took st st' xs" "took st' st'' ys" "distinct (map fst (xs @ ys))" "reqs_ok st"
  shows "took st st'' (xs @ ys)"
  unfolding took_def
proof (intro conjI allI impI)
  show "admitted st'' p = admitted st p @ filter (\<lambda>e. PARTITION_OF (fst e) = p) (xs @ ys)" if "p < 2" for p
    using assms(1,2) that by (simp add: took_def)
  show "sal st'' t \<longleftrightarrow> t \<in> fst ` set (xs @ ys) \<or> sal st t" for t using assms(1,2) by (auto simp: took_def)
  show "unat (demand st'' t u) + of_bool ((t, u) \<in> set (xs @ ys)) = unat (demand st t u)" if "in_range t" "in_range u" for t u
  proof -
    have 1: "unat (demand st' t u) + of_bool ((t, u) \<in> set xs) = unat (demand st t u)" using assms(1) that by (simp add: took_def)
    have 2: "unat (demand st'' t u) + of_bool ((t, u) \<in> set ys) = unat (demand st' t u)" using assms(2) that by (simp add: took_def)
    have "(t, u) \<notin> set xs \<or> (t, u) \<notin> set ys" using assms(3) by force
    then show ?thesis using 1 2 by auto
  qed
  show "req st'' t = req st t" if "t \<notin> fst ` set (xs @ ys)" for t using tookD(4) [OF assms(1)] tookD(4) [OF assms(2)] that by (simp add: image_Un)
  fix t assume t: "in_range t"
  show "distinct (req st'' t)" using assms(2) t by (simp add: took_def)
  have 1: "set (req st' t) = {u \<in> set (req st t). demand st' t u \<noteq> 0}" using assms(1) t by (simp add: took_def)
  have 2: "set (req st'' t) = {u \<in> set (req st' t). demand st'' t u \<noteq> 0}" using assms(2) t by (simp add: took_def)
  have "demand st' t u \<noteq> 0" if "u \<in> set (req st t)" "demand st'' t u \<noteq> 0" for u
  proof -
    have "unat (demand st'' t u) + of_bool ((t, u) \<in> set ys) = unat (demand st' t u)"
      using assms(2) t reqs_okD(2) [OF assms(4) t that(1)] by (simp add: took_def)
    moreover have "unat (demand st'' t u) \<noteq> 0" using that(2) by (simp only: unat_eq_zero not_False_eq_True)
    ultimately have "unat (demand st' t u) \<noteq> 0" by linarith
    then show ?thesis by auto
  qed
  then show "set (req st'' t) = {u \<in> set (req st t). demand st'' t u \<noteq> 0}" unfolding 2 1 by blast
qed

lemma took_reqs_ok:
  assumes "took st st' xs" "reqs_ok st"
  shows "reqs_ok st'"
  unfolding reqs_ok_def
proof (intro allI impI)
  fix t assume t: "in_range t"
  have "distinct (req st' t)" "set (req st' t) = {u \<in> set (req st t). demand st' t u \<noteq> 0}" using assms(1) t by (simp_all add: took_def)
  then show "distinct (req st' t) \<and> (\<forall>d \<in> set (req st' t). in_range d \<and> demand st' t d \<noteq> 0)" using reqs_okD(2) [OF assms(2) t] by simp
qed

lemma stat_parts [simp]:
  "outer (upd_pc p (\<lambda>core. core\<lparr>pc_stat := f core\<rparr>) st) = outer st" "books (upd_pc p (\<lambda>core. core\<lparr>pc_stat := f core\<rparr>) st) = books st"
  "dst_bits (upd_pc p (\<lambda>core. core\<lparr>pc_stat := f core\<rparr>) st) = dst_bits st" "grant_part (upd_pc p (\<lambda>core. core\<lparr>pc_stat := f core\<rparr>) st) = grant_part st"
  "ps_accepts (upd_pc p (\<lambda>core. core\<lparr>pc_stat := f core\<rparr>) st) = ps_accepts st"
  by (auto simp: outer_def books_def dst_bits_def grant_part_def upd_pc_def fun_eq_iff)

text \<open>A pair is entered into the admitted traffic and its source is marked; \<open>b\<close> is the new backlog.\<close>

definition admit_pair :: "nat \<Rightarrow> u16 \<Rightarrow> admitted_traffic \<Rightarrow> backlog \<Rightarrow> pim_state \<Rightarrow> pim_state" where
  "admit_pair p s ad b st = (upd_pc p (mark_src_allocated s) (st\<lparr>ps_adms := (ps_adms st)(pc_admitted (ps_cores st p) := ad)\<rparr>))\<lparr>ps_backlog := b\<rparr>"

lemma idx_eq_iff: "PARTITION_OF t = PARTITION_OF s \<Longrightarrow> PARTITION_IDX t = PARTITION_IDX s \<longleftrightarrow> t = s"
  using partition_eqI [of t s] by blast

lemma admit_pair_effect:
  assumes "PARTITION_OF s = p" "p < 2" "adm_list ad = admitted st p @ [(s, d)]" "pc_admitted (ps_cores st 0) \<noteq> pc_admitted (ps_cores st 1)"
  shows "process_frame st (admit_pair p s ad b st)" "req (admit_pair p s ad b st) = req st" "ps_backlog (admit_pair p s ad b st) = b"
    "sal (admit_pair p s ad b st) t \<longleftrightarrow> t \<in> fst ` set [(s, d)] \<or> sal st t"
    "p' < 2 \<Longrightarrow> admitted (admit_pair p s ad b st) p' = admitted st p' @ filter (\<lambda>e. PARTITION_OF (fst e) = p') [(s, d)]"
proof -
  let ?st = "admit_pair p s ad b st"
  show "process_frame st ?st"
    by (simp add: process_frame_def admit_pair_def outer_def grant_part_def dst_bits_def upd_pc_def mark_src_allocated_def Let_def fun_eq_iff)
  show "req ?st = req st" "ps_backlog ?st = b" by (simp_all add: req_def admit_pair_def upd_pc_def fun_eq_iff)
  show "sal ?st t \<longleftrightarrow> t \<in> fst ` set [(s, d)] \<or> sal st t"
  proof (cases "PARTITION_OF t = p")
    case True
    then show ?thesis using idx_eq_iff [of s t] assms(1) by (auto simp: sal_def admit_pair_def upd_pc_def src_is_allocated_mark)
  next
    case False
    then show ?thesis using assms(1) by (auto simp: sal_def admit_pair_def upd_pc_def)
  qed
  assume p': "p' < 2"
  have "pc_admitted (ps_cores st p') = pc_admitted (ps_cores st p) \<longleftrightarrow> p' = p" using p' assms(2,4) by (auto simp: less_2_cases_iff)
  moreover have "pc_admitted (ps_cores ?st p') = pc_admitted (ps_cores st p')" by (simp add: admit_pair_def upd_pc_def mark_src_allocated_def Let_def)
  ultimately show "admitted ?st p' = admitted st p' @ filter (\<lambda>e. PARTITION_OF (fst e) = p') [(s, d)]"
    using assms(1,3) by (auto simp: admitted_def admit_pair_def upd_pc_def)
qed

lemma took_one:
  assumes "reqs_ok st" "demand st s d \<noteq> 0"
    "\<And>p. p < 2 \<Longrightarrow> admitted st' p = admitted st p @ filter (\<lambda>e. PARTITION_OF (fst e) = p) [(s, d)]" "\<And>t. sal st' t \<longleftrightarrow> t \<in> fst ` set [(s, d)] \<or> sal st t"
    "\<And>t u. in_range t \<Longrightarrow> in_range u \<Longrightarrow> demand st' t u = (if t = s \<and> u = d then demand st s d - 1 else demand st t u)"
    "\<And>t. t \<noteq> s \<Longrightarrow> req st' t = req st t" "distinct (req st' s)"
    "set (req st' s) = (if demand st s d - 1 = 0 then set (req st s) - {d} else set (req st s))"
  shows "took st st' [(s, d)]"
  unfolding took_def
proof (intro conjI allI impI)
  have n: "unat (demand st s d - 1) + 1 = unat (demand st s d)" using assms(2) unat_minus_one [OF assms(2)] unat_gt_0 [of "demand st s d"] by simp
  show "unat (demand st' t u) + of_bool ((t, u) \<in> set [(s, d)]) = unat (demand st t u)" if "in_range t" "in_range u" for t u
    using assms(5) [OF that] n by auto
  fix t assume t: "in_range t"
  have dem: "demand st' t u = (if t = s \<and> u = d then demand st s d - 1 else demand st t u)" if "u \<in> set (req st t)" for u
    using assms(5) [OF t reqs_okD(2) [OF assms(1) t that]] .
  show "distinct (req st' t)" using assms(6) [of t] assms(7) reqs_okD(1) [OF assms(1) t] by (cases "t = s") simp_all
  have "demand st t u \<noteq> 0" if "u \<in> set (req st t)" for u using reqs_okD(3) [OF assms(1) t that] .
  then show "set (req st' t) = {u \<in> set (req st t). demand st' t u \<noteq> 0}" using assms(6) [of t] assms(2,8) dem by (cases "t = s") (auto split: if_splits)
qed (rule assms(3), assumption, rule assms(4), simp add: assms(6))

lemma delete_req:
  assumes "PARTITION_OF s = p" "gidx st s < length (req st s)" "distinct (req st s)" "length (req st s) \<le> 256"
  shows "\<exists>adj. ga_adj_delete_neigh (ps_requests_by_src st p) (PARTITION_IDX s) (pc_grant_adj_index (ps_cores st p) (PARTITION_IDX s)) = Some adj
    \<and> (let st' = st\<lparr>ps_requests_by_src := (ps_requests_by_src st)(p := adj)\<rparr> in
        (\<forall>t. t \<noteq> s \<longrightarrow> req st' t = req st t) \<and> distinct (req st' s) \<and> set (req st' s) = set (req st s) - {req st s ! gidx st s})"
proof -
  have al: "adj_list (ps_requests_by_src st p) (PARTITION_IDX s) = req st s" "unat (pc_grant_adj_index (ps_cores st p) (PARTITION_IDX s)) = gidx st s"
    using assms(1) by (simp_all add: req_def gidx_def)
  obtain adj where adj: "ga_adj_delete_neigh (ps_requests_by_src st p) (PARTITION_IDX s) (pc_grant_adj_index (ps_cores st p) (PARTITION_IDX s)) = Some adj"
    "adj_list adj = (adj_list (ps_requests_by_src st p))(PARTITION_IDX s := butlast ((req st s)[gidx st s := last (req st s)]))"
    using delete_neigh [OF partition_idx_less, of "pc_grant_adj_index (ps_cores st p) (PARTITION_IDX s)" "ps_requests_by_src st p" s] assms(2,4)
    unfolding al by blast
  have r: "req (st\<lparr>ps_requests_by_src := (ps_requests_by_src st)(p := adj)\<rparr>) t = (if t = s then butlast ((req st s)[gidx st s := last (req st s)]) else req st t)" for t
    using idx_eq_iff [of t s] assms(1) adj(2) by (cases "PARTITION_OF t = p") (auto simp: req_def)
  show ?thesis using adj(1) delete_distinct [OF assms(3,2)] by (intro exI [of _ adj]) (simp add: Let_def r)
qed

lemma process_accept_spec:
  assumes "dec_ok dec" "reqs_ok st" "PARTITION_OF s = p" "p < 2" "gidx st s < length (req st s)" "req st s ! gidx st s = d"
    "length (admitted st p) < 256" "pc_admitted (ps_cores st 0) \<noteq> pc_admitted (ps_cores st 1)" "ge_src e = s" "ge_dst e = d"
  shows "returns (process_accept dec p e st) (\<lambda>st'. process_frame st st' \<and> took st st' [(s, d)])"
proof -
  have ri: "in_range s" "in_range d" "demand st s d \<noteq> 0" and rq: "distinct (req st s)" "length (req st s) \<le> 256"
  proof -
    show ri: "in_range s" using assms(3,4) by simp
    have "d \<in> set (req st s)" using nth_mem [OF assms(5)] assms(6) by simp
    then show "in_range d" "demand st s d \<noteq> 0" "distinct (req st s)" "length (req st s) \<le> 256" using reqs_okD [OF assms(2) ri] by blast+
  qed
  have nodes: "unat s < MAX_NODES" "unat d < MAX_NODES" using ri by (simp_all add: node_in_partition)
  let ?n = "demand st s d - 1"
  have "length (adm_list (ps_adms st (pc_admitted (ps_cores st p)))) < MAX_NODES" using assms(7) by (simp add: admitted_def MAX_NODES_def)
  from insert_admitted_edge_spec [OF this nodes] obtain ad where
    ad: "insert_admitted_edge (ps_adms st (pc_admitted (ps_cores st p))) s d = Some ad" "adm_list ad = admitted st p @ [(s, d)]"
    unfolding admitted_def by (elim exE conjE)
  obtain b where b: "dec (ps_backlog st) s d = Some (?n, b)"
    "\<And>t u. in_range t \<Longrightarrow> in_range u \<Longrightarrow> backlog_get b t u = (if t = s \<and> u = d then Some ?n else backlog_get (ps_backlog st) t u)"
    using assms(1) ri backlog_get_demand [OF ri(1,2), of st] unfolding dec_ok_def by blast
  define st1 where "st1 = admit_pair p s ad b st"
  note E = admit_pair_effect [OF assms(3,4) ad(2) assms(8), where b = b, folded st1_def]
  have dem: "demand st1 t u = (if t = s \<and> u = d then ?n else demand st t u)" if "in_range t" "in_range u" for t u
    unfolding demand_def [of st1] E(3) by (simp add: b(2) [OF that] backlog_get_demand [OF that])
  show ?thesis
  proof (cases "?n = 0")
    case False
    let ?st = "upd_pc p (\<lambda>core. core\<lparr>pc_stat := adm_log_allocated_backlog_remaining (pc_stat core) ?n\<rparr>) st1"
    note S = books_eqD [OF stat_parts(2)] admitted_eqD [OF stat_parts(2,1)]
    have "process_accept dec p e st = Some ?st"
      using ri(3) False by (simp add: process_accept_def assms(9,10) Let_def ad(1) b(1) backlog_get_demand [OF ri(1,2)] st1_def admit_pair_def upd_pc_def)
    moreover have "took st ?st [(s, d)]" using False rq(1) E(4,5) dem by (intro took_one assms(2) ri(3)) (simp_all only: S E(2) if_False)
    moreover have "process_frame st ?st" using E(1) by (simp add: process_frame_def)
    ultimately show ?thesis by simp
  next
    case True
    define st2 where "st2 = upd_pc p (\<lambda>core. core\<lparr>pc_stat := adm_log_allocator_no_backlog (pc_stat core)\<rparr>) st1"
    have st2: "req st2 = req st" "sal st2 = sal st1" "demand st2 = demand st1" "admitted st2 = admitted st1" "process_frame st st2"
      using E(1) books_eqD [OF stat_parts(2), of p _ st1] admitted_eqD [OF stat_parts(2,1), of p _ st1] by (simp_all add: E(2) st2_def process_frame_def)
    have gi: "gidx st2 = gidx st" using st2(5) by (intro grant_part_eqD(2)) (simp add: process_frame_def)
    obtain adj where adj: "ga_adj_delete_neigh (ps_requests_by_src st2 p) (PARTITION_IDX s) (pc_grant_adj_index (ps_cores st2 p) (PARTITION_IDX s)) = Some adj"
      and r: "\<And>t. t \<noteq> s \<Longrightarrow> req (st2\<lparr>ps_requests_by_src := (ps_requests_by_src st2)(p := adj)\<rparr>) t = req st t"
        "distinct (req (st2\<lparr>ps_requests_by_src := (ps_requests_by_src st2)(p := adj)\<rparr>) s)"
        "set (req (st2\<lparr>ps_requests_by_src := (ps_requests_by_src st2)(p := adj)\<rparr>) s) = set (req st s) - {d}"
      using delete_req [of s p st2] assms(3,5,6) rq by (auto simp: st2(1) gi Let_def)
    define st3 where "st3 = st2\<lparr>ps_requests_by_src := (ps_requests_by_src st2)(p := adj)\<rparr>"
    have "sal st3 = sal st1" "demand st3 = demand st1" "admitted st3 = admitted st1"
      using st2(2-4) by (simp_all add: st3_def sal_def demand_def admitted_def fun_eq_iff)
    then have "took st st3 [(s, d)]" using r True E(4,5) dem unfolding st3_def [symmetric] by (intro took_one assms(2) ri(3)) simp_all
    moreover have "process_frame st st3" using st2(5) by (simp add: process_frame_def st3_def outer_def grant_part_def dst_bits_def)
    moreover have "process_accept dec p e st = do {
        adj \<leftarrow> ga_adj_delete_neigh (ps_requests_by_src st2 p) (PARTITION_IDX s) (pc_grant_adj_index (ps_cores st2 p) (PARTITION_IDX s));
        Some (st2\<lparr>ps_requests_by_src := (ps_requests_by_src st2)(p := adj)\<rparr>) }"
      using ri(3) True assms(4) unfolding process_accept_def assms(9,10) Let_def ad(1) Option.bind_lunit
      by (simp add: b(1) backlog_get_demand [OF ri(1,2)] assms(3) partition_consts(1) upd_pc_def st1_def st2_def admit_pair_def)
    ultimately show ?thesis by (simp add: adj st3_def)
  qed
qed

section \<open>The accepted pairs of a partition\<close>

abbreviation accepted_by :: "pim_state \<Rightarrow> nat \<Rightarrow> (u16 \<times> u16) list" where
  "accepted_by st p \<equiv> accepted st 0 p @ accepted st 1 p"

definition to_process :: "pim_state \<Rightarrow> nat \<Rightarrow> bool" where
  "to_process st p \<longleftrightarrow> distinct (map fst (accepted_by st p))
     \<and> (\<forall>(s, d) \<in> set (accepted_by st p). PARTITION_OF s = p \<and> \<not> sal st s \<and> gidx st s < length (req st s) \<and> req st s ! gidx st s = d)
     \<and> distinct (map fst (admitted st p)) \<and> (\<forall>(s, d) \<in> set (admitted st p). PARTITION_OF s = p \<and> sal st s)"

lemma to_processD:
  assumes "to_process st p"
  shows "distinct (map fst (accepted_by st p))" "distinct (map fst (admitted st p))"
    "e \<in> set (accepted_by st p) \<Longrightarrow> PARTITION_OF (fst e) = p" "e \<in> set (accepted_by st p) \<Longrightarrow> \<not> sal st (fst e)"
    "e \<in> set (accepted_by st p) \<Longrightarrow> gidx st (fst e) < length (req st (fst e))"
    "e \<in> set (accepted_by st p) \<Longrightarrow> req st (fst e) ! gidx st (fst e) = snd e"
    "e \<in> set (admitted st p) \<Longrightarrow> PARTITION_OF (fst e) = p" "e \<in> set (admitted st p) \<Longrightarrow> sal st (fst e)"
  using assms unfolding to_process_def case_prod_beta by blast+

lemma process_next:
  assumes "dec_ok dec" "reqs_ok st" "p < 2" "to_process st p" "pc_admitted (ps_cores st 0) \<noteq> pc_admitted (ps_cores st 1)"
    "process_frame st st'" "took st st' xs" "accepted_by st p = xs @ (s, d) # ys" "ge_src e = s" "ge_dst e = d"
  shows "returns (process_accept dec p e st') (\<lambda>st''. process_frame st st'' \<and> took st st'' (xs @ [(s, d)]))"
proof -
  have m: "(s, d) \<in> set (accepted_by st p)" unfolding assms(8) by simp
  have s: "PARTITION_OF s = p" "\<not> sal st s" "gidx st s < length (req st s)" "req st s ! gidx st s = d"
    using to_processD(3-6) [OF assms(4) m] unfolding fst_conv snd_conv by blast+
  have di: "distinct (map fst (xs @ [(s, d)]))" and new: "s \<notin> fst ` set xs"
    using to_processD(1) [OF assms(4), unfolded assms(8)] by simp_all
  have inx: "e \<in> set (accepted_by st p)" if "e \<in> set xs" for e using that unfolding assms(8) by simp
  have xs: "filter (\<lambda>e. PARTITION_OF (fst e) = p) xs = xs" using to_processD(3) [OF assms(4) inx] by (simp only: filter_id_conv) blast
  have gi: "gidx st' = gidx st" using assms(6) by (intro grant_part_eqD(2)) (simp add: process_frame_def)
  have pc: "pc_admitted (ps_cores st' p') = pc_admitted (ps_cores st p')" for p' using assms(6) by (simp add: process_frame_def outer_def fun_eq_iff)
  have rq: "req st' s = req st s" using tookD(4) [OF assms(7) new] .
  have "length (map fst (admitted st p @ xs)) \<le> 128"
  proof (rule distinct_partition_length [OF assms(3)])
    have "fst ` set (admitted st p) \<inter> fst ` set xs = {}"
    proof (rule equals0I, elim IntE imageE)
      fix x e e' assume "e \<in> set (admitted st p)" "e' \<in> set xs" "x = fst e" "x = fst e'"
      then show False using to_processD(4) [OF assms(4) inx, of e'] to_processD(8) [OF assms(4), of e] by simp
    qed
    then show "distinct (map fst (admitted st p @ xs))" using to_processD(2) [OF assms(4)] di by simp
    show "\<forall>x \<in> set (map fst (admitted st p @ xs)). PARTITION_OF x = p"
      using to_processD(3) [OF assms(4) inx] to_processD(7) [OF assms(4)] unfolding set_map set_append by (intro ballI, elim imageE UnE) simp_all
  qed
  then have "length (admitted st' p) < 256" using tookD(1) [OF assms(7,3)] xs by simp
  then have "returns (process_accept dec p e st') (\<lambda>st''. process_frame st' st'' \<and> took st' st'' [(s, d)])"
    using s assms(5) by (intro process_accept_spec assms(1,3,9,10) took_reqs_ok [OF assms(7,2)]) (simp_all add: gi rq pc)
  then show ?thesis
  proof (rule returns_mono)
    fix st'' assume "process_frame st' st'' \<and> took st' st'' [(s, d)]"
    then show "process_frame st st'' \<and> took st st'' (xs @ [(s, d)])"
      using took_append [OF assms(7) _ di assms(2)] assms(6) by (simp add: process_frame_def)
  qed
qed

lemma process_partition:
  assumes "dec_ok dec" "reqs_ok st" "p < 2" "to_process st p" "pc_admitted (ps_cores st 0) \<noteq> pc_admitted (ps_cores st 1)"
    "process_frame st st'" "took st st' xs" "accepted_by st p = xs @ accepted st q p @ ys"
  shows "returns (process_accepts_from_partition dec p q st') (\<lambda>st''. process_frame st st'' \<and> took st st'' (xs @ accepted st q p))"
proof -
  let ?es = "accepted st q p"
  have acc: "ps_accepts st'' = ps_accepts st" if "process_frame st st''" for st'' using that by (simp add: process_frame_def)
  have len: "length ?es = unat (el_n (ps_accepts st q p))" by (simp add: el_list_def)
  have "returns (process_accepts_from_partition dec p q st') (\<lambda>st''. process_frame st st'' \<and> took st st'' (xs @ take (unat (el_n (ps_accepts st q p))) ?es))"
    unfolding process_accepts_from_partition_def acc [OF assms(6)]
  proof (rule for_each_loop)
    show "process_frame st st' \<and> took st st' (xs @ take 0 ?es)" using assms(6,7) by simp
    fix i st'' assume i: "i < unat (el_n (ps_accepts st q p))" and I: "process_frame st st'' \<and> took st st'' (xs @ take i ?es)"
    let ?e = "el_edge (ps_accepts st q p) i"
    have "?es ! i = (ge_src ?e, ge_dst ?e)" using i by (simp add: el_list_def)
    then have t: "take (Suc i) ?es = take i ?es @ [(ge_src ?e, ge_dst ?e)]" and "?es = take i ?es @ (ge_src ?e, ge_dst ?e) # drop (Suc i) ?es"
      using i len id_take_nth_drop [of i ?es] by (simp_all add: take_Suc_conv_app_nth)
    then have "accepted_by st p = (xs @ take i ?es) @ (ge_src ?e, ge_dst ?e) # (drop (Suc i) ?es @ ys)" using assms(8) by (metis append.assoc append_Cons)
    from process_next [OF assms(1-5) conjunct1 [OF I] conjunct2 [OF I] this refl refl]
    show "returns (process_accept dec p (el_edge (ps_accepts st'' q p) i) st'') (\<lambda>st''. process_frame st st'' \<and> took st st'' (xs @ take (Suc i) ?es))"
      by (simp add: t acc [OF conjunct1 [OF I]])
  qed
  then show ?thesis by (simp flip: len)
qed

theorem process_step:
  assumes "dec_ok dec" "reqs_ok st" "p < 2" "to_process st p" "pc_admitted (ps_cores st 0) \<noteq> pc_admitted (ps_cores st 1)"
  shows "returns (pim_process_accepts dec p st) (\<lambda>st'. outer st' = outer st \<and> grant_part st' = grant_part st \<and> dst_bits st' = dst_bits st
    \<and> took st st' (accepted_by st p) \<and> (\<forall>q p'. accepted st' q p' = (if q < 2 \<and> p' = p then [] else accepted st q p')))"
proof -
  have "returns (for_each (process_accepts_from_partition dec p) [0 ..< N_PARTITIONS] st) (\<lambda>st'. process_frame st st' \<and> took st st' (accepted_by st p))"
  proof (rule for_each_partitions [where P = "\<lambda>st'. process_frame st st' \<and> took st st' (accepted st 0 p)"])
    show "returns (process_accepts_from_partition dec p 0 st) (\<lambda>st'. process_frame st st' \<and> took st st' (accepted st 0 p))"
      using process_partition [OF assms _ took_Nil [OF assms(2)], of 0 "accepted st 1 p"] by (simp add: process_frame_def)
    fix st' assume I: "process_frame st st' \<and> took st st' (accepted st 0 p)"
    show "returns (process_accepts_from_partition dec p 1 st') (\<lambda>st'. process_frame st st' \<and> took st st' (accepted_by st p))"
      using process_partition [OF assms conjunct1 [OF I] conjunct2 [OF I], of 1 "[]"] by simp
  qed
  then obtain st1 where st1: "for_each (process_accepts_from_partition dec p) [0 ..< N_PARTITIONS] st = Some st1" "process_frame st st1"
    "took st st1 (accepted_by st p)" by (auto simp: returns_def)
  let ?st = "st1\<lparr>ps_accepts := ga_partd_edgelist_src_reset (ps_accepts st1) p\<rparr>"
  have "outer ?st = outer st1" "grant_part ?st = grant_part st1" "dst_bits ?st = dst_bits st1" "books ?st = books st1"
    by (simp_all add: outer_def grant_part_def dst_bits_def books_def)
  moreover from this have "took st ?st (accepted_by st p)" using st1(3) books_eqD [of ?st st1] admitted_eqD [of ?st st1] by (simp add: took_def)
  ultimately show ?thesis using st1(2) unfolding pim_process_accepts_def st1(1) by (simp add: process_frame_def partd_reset)
qed

end
