(* ===== verification/Pim_Iteration.thy ===== *)
theory Pim_Iteration
  imports Pim_Process "HOL-Library.Multiset"
begin

text \<open>
  An iteration of the grant-accept allocator, over all partitions: the pairs that it admits extend the matching of the time slot.
\<close>

lemma ex_less_2: "(\<exists>q < 2. P q) \<longleftrightarrow> P 0 \<or> P (1 :: nat)"
  by (auto simp: less_2_cases_iff)

section \<open>The grants of all partitions\<close>

text \<open>What the two ways to grant have in common; \<open>full\<close> is the first iteration, in which every source with a request grants.\<close>

definition nothing_allocated :: "pim_state \<Rightarrow> bool" where
  "nothing_allocated st \<longleftrightarrow> (\<forall>x. in_range x \<longrightarrow> \<not> sal st x \<and> \<not> dal st x)"

definition all_grant :: "pim_state \<Rightarrow> pim_state \<Rightarrow> nat \<Rightarrow> bool" where
  "all_grant st0 st p \<longleftrightarrow> (\<forall>s. PARTITION_OF s = p \<longrightarrow> req st0 s \<noteq> [] \<longrightarrow> (\<exists>q < 2. \<exists>d. (s, d) \<in> set (granted st q p)))"

definition grants :: "(nat \<Rightarrow> pim_state \<Rightarrow> pim_state option) \<Rightarrow> bool \<Rightarrow> bool" where
  "grants grant full \<longleftrightarrow> (\<forall>p st. p < 2 \<longrightarrow> reqs_ok st \<longrightarrow> (full \<longrightarrow> nothing_allocated st) \<longrightarrow>
     returns (grant p st) (\<lambda>st'. grant_frame st st' p \<and> grants_ok st st' p \<and> (full \<longrightarrow> all_grant st st' p)))"

lemma grants_first: "grants pim_do_grant_first_it True"
  using grant_first_it by (simp add: grants_def nothing_allocated_def all_grant_def)

lemma grants_later: "grants pim_do_grant False"
  using grant_later_it by (simp add: grants_def)

definition granted_all :: "pim_state \<Rightarrow> pim_state \<Rightarrow> bool \<Rightarrow> bool" where
  "granted_all st0 st full \<longleftrightarrow> outer st = outer st0 \<and> books st = books st0 \<and> dst_bits st = dst_bits st0 \<and> ps_accepts st = ps_accepts st0
     \<and> (\<forall>p < 2. grants_ok st0 st p \<and> (full \<longrightarrow> all_grant st0 st p))"

lemma grants_ok_frame:
  assumes "grants_ok st0 st 0" "grant_frame st st' 1"
  shows "grants_ok st0 st' 0"
proof -
  have "granted st' q 0 = granted st q 0" for q using assms(2) by (simp add: grant_frame_def)
  moreover have "gidx st' s = gidx st s" if "PARTITION_OF s = 0" for s using assms(2) that by (simp add: grant_frame_def)
  ultimately show ?thesis using assms(1) by (simp add: grants_ok_def grant_ok_def case_prod_beta cong: conj_cong)
qed

lemma grants_both:
  assumes "grants grant full" "reqs_ok st0" "full \<Longrightarrow> nothing_allocated st0"
  shows "returns (for_each grant [0 ..< N_PARTITIONS] st0) (\<lambda>st. granted_all st0 st full)"
proof (rule for_each_partitions)
  show "returns (grant 0 st0) (\<lambda>st. grant_frame st0 st 0 \<and> grants_ok st0 st 0 \<and> (full \<longrightarrow> all_grant st0 st 0))"
    using assms by (simp add: grants_def)
  fix st assume st: "grant_frame st0 st 0 \<and> grants_ok st0 st 0 \<and> (full \<longrightarrow> all_grant st0 st 0)"
  have "books st = books st0" "dst_bits st = dst_bits st0" using st by (simp_all add: grant_frame_def)
  note eqs = books_eqD [OF this(1)] dst_bits_eqD [OF this(2)]
  have "reqs_ok st" "full \<Longrightarrow> nothing_allocated st" using assms(2,3) by (simp_all add: reqs_ok_def nothing_allocated_def eqs)
  then have "returns (grant 1 st) (\<lambda>st'. grant_frame st st' 1 \<and> grants_ok st st' 1 \<and> (full \<longrightarrow> all_grant st st' 1))"
    using assms(1) unfolding grants_def by (meson one_less_numeral_iff semiring_norm(76))
  then show "returns (grant 1 st) (\<lambda>st'. granted_all st0 st' full)"
  proof (rule returns_mono)
    fix st' assume st': "grant_frame st st' 1 \<and> grants_ok st st' 1 \<and> (full \<longrightarrow> all_grant st st' 1)"
    have g0: "grants_ok st0 st' 0" using grants_ok_frame st st' by blast
    have g1: "grants_ok st0 st' 1" using st' by (simp add: grants_ok_def grant_ok_def eqs)
    have f0: "granted st' q 0 = granted st q 0" for q using st' by (simp add: grant_frame_def)
    have "full \<longrightarrow> all_grant st0 st' 0" "full \<longrightarrow> all_grant st0 st' 1" using st st' by (simp_all add: all_grant_def f0 eqs)
    then show "granted_all st0 st' full" using g0 g1 st st' by (simp add: granted_all_def grant_frame_def less_2_cases_iff)
  qed
qed

section \<open>The accepts of all partitions\<close>

definition accepted_all :: "pim_state \<Rightarrow> pim_state \<Rightarrow> bool" where
  "accepted_all st1 st \<longleftrightarrow> outer st = outer st1 \<and> books st = books st1 \<and> grant_part st = grant_part st1
     \<and> (\<forall>q < 2. (\<forall>p < 2. set (accepted st q p) \<subseteq> set (granted st1 q p)) \<and> distinct (map snd (accepted_of st q))
          \<and> snd ` set (granted st1 q 0 @ granted st1 q 1) \<subseteq> snd ` set (accepted_of st q))
     \<and> (\<forall>d. dal st d \<longleftrightarrow> dal st1 d \<or> (\<exists>q < 2. d \<in> snd ` set (accepted_of st q)))"

lemma accepts_both:
  assumes "\<And>q. q < 2 \<Longrightarrow> granted_in st1 q" "\<And>q p. q < 2 \<Longrightarrow> p < 2 \<Longrightarrow> accepted st1 q p = []"
  shows "returns (for_each pim_do_accept [0 ..< N_PARTITIONS] st1) (accepted_all st1)"
proof (rule for_each_partitions)
  let ?Q = "\<lambda>st q st'. accept_frame st st' q \<and> accepts_ok st st' q \<and> snd ` set (granted st q 0 @ granted st q 1) \<subseteq> snd ` set (accepted_of st' q)"
  show "returns (pim_do_accept 0 st1) (?Q st1 0)" using accept_step [of 0 st1] assms by simp
  fix st assume st: "?Q st1 0 st"
  have gr: "ps_grants st = ps_grants st1" using st by (intro grant_part_eqD(1)) (simp add: accept_frame_def)
  have ac: "accepted st 1 p = accepted st1 1 p" for p using st by (simp add: accept_frame_def)
  have "granted_in st 1" using assms(1) [of 1] by (simp add: granted_in_def gr)
  then have "returns (pim_do_accept 1 st) (?Q st 1)" using accept_step [of 1 st] ac assms(2) by simp
  then show "returns (pim_do_accept 1 st) (accepted_all st1)"
  proof (rule returns_mono)
    fix st' assume st': "?Q st 1 st'"
    have a0: "accepted st' 0 p = accepted st 0 p" for p using st' by (simp add: accept_frame_def)
    show "accepted_all st1 st'"
      unfolding accepted_all_def
    proof (intro conjI)
      show "outer st' = outer st1" "books st' = books st1" "grant_part st' = grant_part st1" using st st' by (simp_all add: accept_frame_def)
      show "\<forall>d. dal st' d \<longleftrightarrow> dal st1 d \<or> (\<exists>q < 2. d \<in> snd ` set (accepted_of st' q))"
      proof
        fix d
        have 1: "dal st d \<longleftrightarrow> dal st1 d \<or> d \<in> snd ` set (accepted_of st 0)" using st by (simp only: accepts_ok_def)
        have 2: "dal st' d \<longleftrightarrow> dal st d \<or> d \<in> snd ` set (accepted_of st' 1)" using st' by (simp only: accepts_ok_def)
        show "dal st' d \<longleftrightarrow> dal st1 d \<or> (\<exists>q < 2. d \<in> snd ` set (accepted_of st' q))" unfolding 2 1 ex_less_2 a0 by (simp only: disj_assoc)
      qed
      show "\<forall>q < 2. (\<forall>p < 2. set (accepted st' q p) \<subseteq> set (granted st1 q p)) \<and> distinct (map snd (accepted_of st' q))
          \<and> snd ` set (granted st1 q 0 @ granted st1 q 1) \<subseteq> snd ` set (accepted_of st' q)"
        using st st' by (simp add: accepts_ok_def less_2_cases_iff a0 gr)
    qed
  qed
qed

section \<open>The accepted pairs\<close>

abbreviation accepted_pairs :: "pim_state \<Rightarrow> (u16 \<times> u16) list" where
  "accepted_pairs st \<equiv> accepted_by st 0 @ accepted_by st 1"

lemma granted_all_in:
  assumes "granted_all st0 st1 full" "q < 2"
  shows "granted_in st1 q"
  unfolding granted_in_def
proof (intro allI impI conjI)
  fix p :: nat assume p: "p < 2"
  then have ok: "grants_ok st0 st1 p" using assms(1) by (simp add: granted_all_def)
  show "distinct (map fst (granted st1 q p))" by (rule grants_okD(1) [OF ok assms(2)])
  show "\<forall>(s, d) \<in> set (granted st1 q p). PARTITION_OF s = p \<and> PARTITION_OF d = q"
    using grants_okD(2) [OF ok assms(2)] by (auto simp only: grant_ok_def)
qed

lemma accepted_grant_ok:
  assumes "granted_all st0 st1 full" "accepted_all st1 st" "q < 2" "p < 2" "(s, d) \<in> set (accepted st q p)"
  shows "grant_ok st0 st p q s d"
proof -
  have "(s, d) \<in> set (granted st1 q p)" using assms(2-5) unfolding accepted_all_def by blast
  moreover have "grants_ok st0 st1 p" using assms(1,4) by (simp add: granted_all_def)
  ultimately have "grant_ok st0 st1 p q s d" using assms(3) by (intro grants_okD(2))
  moreover have "gidx st = gidx st1" using assms(2) by (intro grant_part_eqD(2)) (simp add: accepted_all_def)
  ultimately show ?thesis by (simp add: grant_ok_def)
qed

lemma accepted_by_cases:
  assumes "e \<in> set (accepted_by st p)"
  obtains q where "q < 2" "(fst e, snd e) \<in> set (accepted st q p)"
  using assms that [of 0] that [of 1] by auto

lemma accepted_by_ok:
  assumes "granted_all st0 st1 full" "accepted_all st1 st" "p < 2" "e \<in> set (accepted_by st p)"
  shows "PARTITION_OF (fst e) = p" "in_range (snd e)" "\<not> sal st0 (fst e)" "\<not> dal st0 (snd e)"
    "gidx st (fst e) < length (req st0 (fst e))" "req st0 (fst e) ! gidx st (fst e) = snd e"
proof -
  obtain q where q: "q < 2" "(fst e, snd e) \<in> set (accepted st q p)" using assms(4) by (rule accepted_by_cases)
  from accepted_grant_ok [OF assms(1,2) q(1) assms(3) q(2)] q(1)
  show "PARTITION_OF (fst e) = p" "in_range (snd e)" "\<not> sal st0 (fst e)" "\<not> dal st0 (snd e)"
    "gidx st (fst e) < length (req st0 (fst e))" "req st0 (fst e) ! gidx st (fst e) = snd e" by (simp_all add: grant_ok_def)
qed

lemma accepted_pairs_cases:
  assumes "e \<in> set (accepted_pairs st)"
  obtains p where "p < 2" "e \<in> set (accepted_by st p)"
  using assms that [of 0] that [of 1] by auto

lemma accepted_matching:
  assumes "granted_all st0 st1 full" "accepted_all st1 st"
  shows "matching (accepted_pairs st)"
proof -
  have acc: "distinct (map snd (accepted_of st q))" if "q < 2" for q using assms(2) that by (simp add: accepted_all_def)
  have P: "PARTITION_OF (snd e) = q" if "q < 2" "e \<in> set (accepted_of st q)" for q e
    using that accepted_grant_ok [OF assms that(1), of 0 "fst e" "snd e"] accepted_grant_ok [OF assms that(1), of 1 "fst e" "snd e"]
    by (auto simp: grant_ok_def)
  have "distinct (map snd (accepted_of st 0 @ accepted_of st 1))"
  proof -
    have "snd ` set (accepted_of st 0) \<inter> snd ` set (accepted_of st 1) = {}"
    proof (rule equals0I, elim IntE imageE)
      fix x e e' assume "e \<in> set (accepted_of st 0)" "e' \<in> set (accepted_of st 1)" "x = snd e" "x = snd e'"
      then show False using P [of 0 e] P [of 1 e'] by simp
    qed
    then show ?thesis unfolding map_append distinct_append using acc [of 0] acc [of 1] by (simp add: image_Un)
  qed
  moreover have "mset (map snd (accepted_of st 0 @ accepted_of st 1)) = mset (map snd (accepted_pairs st))" by simp
  ultimately have snd: "distinct (map snd (accepted_pairs st))" by (metis mset_eq_imp_distinct_iff)
  have "snd e = req st0 (fst e) ! gidx st (fst e)" if e: "e \<in> set (accepted_pairs st)" for e
  proof -
    from e obtain p where "p < 2" "e \<in> set (accepted_by st p)" by (rule accepted_pairs_cases)
    then show ?thesis using accepted_by_ok(6) [OF assms] by metis
  qed
  then have "map snd (accepted_pairs st) = map (\<lambda>s. req st0 s ! gidx st s) (map fst (accepted_pairs st))" unfolding map_map by (intro map_cong) (simp_all only: o_apply)
  with snd have "distinct (map (\<lambda>s. req st0 s ! gidx st s) (map fst (accepted_pairs st)))" by (simp only:)
  then have "distinct (map fst (accepted_pairs st))" unfolding distinct_map by (rule conjunct1)
  with snd show ?thesis by (simp add: matching_def)
qed

section \<open>An iteration\<close>

text \<open>The state between the iterations of a time slot.\<close>

abbreviation admitted_pairs :: "pim_state \<Rightarrow> (u16 \<times> u16) list" where
  "admitted_pairs st \<equiv> admitted st 0 @ admitted st 1"

definition adm_ok :: "pim_state \<Rightarrow> bool" where
  "adm_ok st \<longleftrightarrow> matching (admitted_pairs st) \<and> (\<forall>p < 2. \<forall>e \<in> set (admitted st p). PARTITION_OF (fst e) = p \<and> in_range (snd e) \<and> sal st (fst e) \<and> dal st (snd e))"

definition slot_ok :: "pim_state \<Rightarrow> bool" where
  "slot_ok st \<longleftrightarrow> reqs_ok st \<and> (\<forall>q < 2. \<forall>p < 2. accepted st q p = []) \<and> pc_admitted (ps_cores st 0) \<noteq> pc_admitted (ps_cores st 1) \<and> adm_ok st"

lemma adm_okD:
  assumes "adm_ok st" "p < 2" "e \<in> set (admitted st p)"
  shows "PARTITION_OF (fst e) = p" "in_range (snd e)" "sal st (fst e)" "dal st (snd e)"
  using assms by (auto simp: adm_ok_def)

lemma processes_both:
  assumes "dec_ok dec" "reqs_ok st" "\<And>p. p < 2 \<Longrightarrow> to_process st p" "pc_admitted (ps_cores st 0) \<noteq> pc_admitted (ps_cores st 1)"
    "distinct (map fst (accepted_pairs st))"
  shows "returns (for_each (pim_process_accepts dec) [0 ..< N_PARTITIONS] st) (\<lambda>st'. outer st' = outer st \<and> grant_part st' = grant_part st
    \<and> dst_bits st' = dst_bits st \<and> took st st' (accepted_pairs st) \<and> (\<forall>q < 2. \<forall>p < 2. accepted st' q p = []))"
proof (rule for_each_partitions)
  show "returns (pim_process_accepts dec 0 st) (\<lambda>st'. outer st' = outer st \<and> grant_part st' = grant_part st \<and> dst_bits st' = dst_bits st
    \<and> took st st' (accepted_by st 0) \<and> (\<forall>q p'. accepted st' q p' = (if q < 2 \<and> p' = 0 then [] else accepted st q p')))"
    using assms by (intro process_step) simp_all
  fix st1 assume st1: "outer st1 = outer st \<and> grant_part st1 = grant_part st \<and> dst_bits st1 = dst_bits st
    \<and> took st st1 (accepted_by st 0) \<and> (\<forall>q p'. accepted st1 q p' = (if q < 2 \<and> p' = 0 then [] else accepted st q p'))"
  then have t: "took st st1 (accepted_by st 0)" and a1: "accepted st1 q 1 = accepted st q 1" for q by simp_all
  have gi: "gidx st1 = gidx st" using st1 by (intro grant_part_eqD(2)) simp
  have other: "s \<notin> fst ` set (accepted_by st 0)" if "PARTITION_OF s = 1" for s
  proof
    assume "s \<in> fst ` set (accepted_by st 0)"
    then obtain e where e: "e \<in> set (accepted_by st 0)" "s = fst e" by (elim imageE)
    then show False using to_processD(3) [OF assms(3) e(1)] that by simp
  qed
  have "filter (\<lambda>e. PARTITION_OF (fst e) = 1) (accepted_by st 0) = []"
    using to_processD(3) [OF assms(3), of 0] by (auto simp: filter_empty_conv)
  then have adm: "admitted st1 1 = admitted st 1" using tookD(1) [OF t, of 1] by simp
  have "to_process st1 1"
    unfolding to_process_def a1 adm gi case_prod_beta
  proof (intro conjI ballI)
    note D = to_processD [OF assms(3), of 1]
    show "distinct (map fst (accepted_by st 1))" "distinct (map fst (admitted st 1))" using D(1,2) by simp_all
    show "PARTITION_OF (fst e) = 1" "sal st1 (fst e)" if e: "e \<in> set (admitted st 1)" for e using D(7) [OF _ e] D(8) [OF _ e] tookD(2) [OF t] by simp_all
    fix e assume e: "e \<in> set (accepted_by st 1)"
    show P: "PARTITION_OF (fst e) = 1" using D(3) [OF _ e] by simp
    note o = other [OF P]
    have r: "req st1 (fst e) = req st (fst e)" by (rule tookD(4) [OF t o])
    show "\<not> sal st1 (fst e)" using D(4) [OF _ e] o tookD(2) [OF t, of "fst e"] by simp
    show "gidx st (fst e) < length (req st1 (fst e))" "req st1 (fst e) ! gidx st (fst e) = snd e" using D(5) [OF _ e] D(6) [OF _ e] by (simp_all add: r)
  qed
  then have "returns (pim_process_accepts dec 1 st1) (\<lambda>st'. outer st' = outer st1 \<and> grant_part st' = grant_part st1 \<and> dst_bits st' = dst_bits st1
    \<and> took st1 st' (accepted_by st1 1) \<and> (\<forall>q p'. accepted st' q p' = (if q < 2 \<and> p' = 1 then [] else accepted st1 q p')))"
    using assms(1,4) st1 took_reqs_ok [OF t assms(2)] by (intro process_step) (simp_all add: outer_def fun_eq_iff)
  then show "returns (pim_process_accepts dec 1 st1) (\<lambda>st'. outer st' = outer st \<and> grant_part st' = grant_part st
    \<and> dst_bits st' = dst_bits st \<and> took st st' (accepted_pairs st) \<and> (\<forall>q < 2. \<forall>p < 2. accepted st' q p = []))"
  proof (rule returns_mono)
    fix st' assume st': "outer st' = outer st1 \<and> grant_part st' = grant_part st1 \<and> dst_bits st' = dst_bits st1
      \<and> took st1 st' (accepted_by st1 1) \<and> (\<forall>q p'. accepted st' q p' = (if q < 2 \<and> p' = 1 then [] else accepted st1 q p'))"
    have "took st1 st' (accepted_by st 1)" using st' unfolding a1 by blast
    then have "took st st' (accepted_pairs st)" by (rule took_append [OF t _ assms(5,2)])
    then show "outer st' = outer st \<and> grant_part st' = grant_part st
      \<and> dst_bits st' = dst_bits st \<and> took st st' (accepted_pairs st) \<and> (\<forall>q < 2. \<forall>p < 2. accepted st' q p = [])"
      using st1 st' by (simp add: less_2_cases_iff)
  qed
qed

lemma took_cong: "books st' = books st \<Longrightarrow> outer st' = outer st \<Longrightarrow> took st' = took st"
  using books_eqD [of st' st] admitted_eqD [of st' st] by (auto simp: took_def fun_eq_iff)

lemma filter_partitions:
  assumes "\<forall>e \<in> set es. in_range (fst e)"
  shows "mset (filter (\<lambda>e. PARTITION_OF (fst e) = 0) es) + mset (filter (\<lambda>e. PARTITION_OF (fst e) = 1) es) = mset es"
  using assms by (induction es) (auto simp: less_2_cases_iff)

text \<open>New pairs of free sources and destinations extend the matching.\<close>

lemma matching_extend:
  assumes "adm_ok st0" "matching es" "\<forall>e \<in> set es. in_range (fst e) \<and> \<not> sal st0 (fst e) \<and> \<not> dal st0 (snd e)"
    "\<And>p. p < 2 \<Longrightarrow> admitted st p = admitted st0 p @ filter (\<lambda>e. PARTITION_OF (fst e) = p) es"
  shows "matching (admitted_pairs st)"
proof -
  have "mset (admitted_pairs st) = mset (admitted_pairs st0 @ es)"
    using assms(4) [of 0] assms(4) [of 1] filter_partitions [of es] assms(3) by (simp add: ac_simps)
  then have m: "mset (map f (admitted_pairs st)) = mset (map f (admitted_pairs st0 @ es))" for f :: "u16 \<times> u16 \<Rightarrow> u16" by (simp only: mset_map)
  have old: "sal st0 (fst e)" "dal st0 (snd e)" if "e \<in> set (admitted_pairs st0)" for e
    using that adm_okD(3,4) [OF assms(1), of 0 e] adm_okD(3,4) [OF assms(1), of 1 e] by auto
  have "fst ` set (admitted_pairs st0) \<inter> fst ` set es = {}" "snd ` set (admitted_pairs st0) \<inter> snd ` set es = {}"
    using old assms(3) by (auto simp only: disjoint_iff) metis+
  then have "distinct (map fst (admitted_pairs st0 @ es))" "distinct (map snd (admitted_pairs st0 @ es))"
    using assms(1,2) unfolding adm_ok_def matching_def map_append [of _ "admitted_pairs st0"] distinct_append [of "map _ (admitted_pairs st0)"] set_map by blast+
  then show ?thesis using mset_eq_imp_distinct_iff [OF m] unfolding matching_def by blast
qed

lemma accepted_to_process:
  assumes "granted_all st0 st1 full" "accepted_all st1 st2" "adm_ok st0" "outer st2 = outer st0" "books st2 = books st0" "p < 2"
  shows "to_process st2 p"
  unfolding to_process_def case_prod_beta books_eqD [OF assms(5)] admitted_eqD [OF assms(5,4)]
proof (intro conjI ballI)
  have "matching (accepted_pairs st2)" "matching (admitted_pairs st0)" using accepted_matching [OF assms(1,2)] assms(3) by (simp_all add: adm_ok_def)
  then show "distinct (map fst (accepted_by st2 p))" "distinct (map fst (admitted st0 p))" using assms(6) by (auto simp: matching_def less_2_cases_iff)
  show "PARTITION_OF (fst e) = p" "sal st0 (fst e)" if "e \<in> set (admitted st0 p)" for e using adm_okD(1,3) [OF assms(3,6) that] .
  show "PARTITION_OF (fst e) = p" "\<not> sal st0 (fst e)" "gidx st2 (fst e) < length (req st0 (fst e))" "req st0 (fst e) ! gidx st2 (fst e) = snd e"
    if "e \<in> set (accepted_by st2 p)" for e using accepted_by_ok(1,3,5,6) [OF assms(1,2,6) that] .
qed

lemma adm_ok_extend:
  assumes "adm_ok st0" "took st0 st es" "matching es" "\<forall>e \<in> set es. in_range (fst e) \<and> in_range (snd e) \<and> \<not> sal st0 (fst e) \<and> \<not> dal st0 (snd e)"
    "\<And>d. dal st d \<longleftrightarrow> dal st0 d \<or> d \<in> snd ` set es"
  shows "adm_ok st"
  unfolding adm_ok_def
proof (intro conjI allI impI ballI)
  show "matching (admitted_pairs st)" using assms(4) by (intro matching_extend [OF assms(1,3) _ tookD(1) [OF assms(2)]]) auto
  fix p :: nat and e assume p: "p < 2" and "e \<in> set (admitted st p)"
  then consider "e \<in> set (admitted st0 p)" | "e \<in> set es" "PARTITION_OF (fst e) = p" using tookD(1) [OF assms(2) p] by auto
  then have "PARTITION_OF (fst e) = p \<and> in_range (snd e) \<and> sal st (fst e) \<and> dal st (snd e)"
  proof cases
    case 1
    then show ?thesis using adm_okD [OF assms(1) p 1] tookD(2) [OF assms(2)] assms(5) by simp
  next
    case 2
    then show ?thesis using assms(4) tookD(2) [OF assms(2), of "fst e"] assms(5) [of "snd e"] by auto
  qed
  then show "PARTITION_OF (fst e) = p" "in_range (snd e)" "sal st (fst e)" "dal st (snd e)" by blast+
qed

lemma first_it_admits:
  assumes "granted_all st0 st1 True" "accepted_all st1 st2" "in_range s" "req st0 s \<noteq> []"
  shows "accepted_pairs st2 \<noteq> []"
proof -
  have "all_grant st0 st1 (PARTITION_OF s)" using assms(1,3) by (simp add: granted_all_def)
  then obtain q d where q: "q < 2" "(s, d) \<in> set (granted st1 q (PARTITION_OF s))" using assms(4) unfolding all_grant_def by blast
  then have "d \<in> snd ` set (granted st1 q 0 @ granted st1 q 1)" using assms(3) by (force simp: less_2_cases_iff)
  then have "accepted_of st2 q \<noteq> []" using assms(2) q(1) unfolding accepted_all_def by fastforce
  then show ?thesis using q(1) by (auto simp: less_2_cases_iff)
qed

theorem iteration_step:
  assumes "dec_ok dec" "grants grant full" "slot_ok st0" "full \<Longrightarrow> nothing_allocated st0"
  shows "returns (pim_iteration dec grant st0) (\<lambda>st. slot_ok st \<and> outer st = outer st0
    \<and> (\<exists>es. took st0 st es \<and> distinct (map fst es) \<and> (\<forall>e \<in> set es. in_range (fst e) \<and> \<not> sal st0 (fst e) \<and> snd e \<in> set (req st0 (fst e)))
         \<and> (full \<longrightarrow> (\<exists>s. in_range s \<and> req st0 s \<noteq> []) \<longrightarrow> es \<noteq> [])))"
proof -
  have ok: "reqs_ok st0" "adm_ok st0" "pc_admitted (ps_cores st0 0) \<noteq> pc_admitted (ps_cores st0 1)" using assms(3) by (simp_all add: slot_ok_def)
  obtain st1 where st1: "for_each grant [0 ..< N_PARTITIONS] st0 = Some st1" "granted_all st0 st1 full"
    using grants_both [OF assms(2) ok(1) assms(4)] by (auto simp: returns_def)
  have "accepted st1 q p = []" if "q < 2" "p < 2" for q p using st1(2) assms(3) that by (simp add: granted_all_def slot_ok_def)
  then obtain st2 where st2: "for_each pim_do_accept [0 ..< N_PARTITIONS] st1 = Some st2" "accepted_all st1 st2"
    using accepts_both [OF granted_all_in [OF st1(2)]] unfolding returns_def by blast
  have fr: "outer st2 = outer st0" "books st2 = books st0" "dst_bits st1 = dst_bits st0" using st1(2) st2(2) by (simp_all add: granted_all_def accepted_all_def)
  note eqs = books_eqD [OF fr(2)] admitted_eqD [OF fr(2,1)]
  have pc: "pc_admitted (ps_cores st2 p) = pc_admitted (ps_cores st0 p)" for p using fr(1) by (simp add: outer_def fun_eq_iff)
  define es where "es = accepted_pairs st2"
  have mat: "matching es" unfolding es_def by (rule accepted_matching [OF st1(2) st2(2)])
  have es: "in_range (fst e) \<and> in_range (snd e) \<and> \<not> sal st0 (fst e) \<and> \<not> dal st0 (snd e) \<and> snd e \<in> set (req st0 (fst e))" if "e \<in> set es" for e
  proof -
    from that obtain p where p: "p < 2" "e \<in> set (accepted_by st2 p)" unfolding es_def by (rule accepted_pairs_cases)
    then show ?thesis using accepted_by_ok [OF st1(2) st2(2) p] nth_mem [of "gidx st2 (fst e)" "req st0 (fst e)"] by simp
  qed
  note proc = accepted_to_process [OF st1(2) st2(2) ok(2) fr(1,2)]
  obtain st3 where st3: "for_each (pim_process_accepts dec) [0 ..< N_PARTITIONS] st2 = Some st3" "outer st3 = outer st2" "dst_bits st3 = dst_bits st2"
    "took st2 st3 es" "\<forall>q < 2. \<forall>p < 2. accepted st3 q p = []"
    using processes_both [OF assms(1) _ proc] ok mat by (auto simp: returns_def reqs_ok_def eqs pc matching_def es_def)
  have t: "took st0 st3 es" using st3(4) took_cong [OF fr(2,1)] by simp
  have dal: "dal st3 d \<longleftrightarrow> dal st0 d \<or> d \<in> snd ` set es" for d
  proof -
    have "dal st3 d \<longleftrightarrow> dal st2 d" "dal st1 d \<longleftrightarrow> dal st0 d" using dst_bits_eqD [OF st3(3)] dst_bits_eqD [OF fr(3)] by simp_all
    moreover have "dal st2 d \<longleftrightarrow> dal st1 d \<or> (\<exists>q < 2. d \<in> snd ` set (accepted_of st2 q))" using st2(2) unfolding accepted_all_def by blast
    ultimately show ?thesis unfolding es_def ex_less_2 set_append image_Un by blast
  qed
  have "adm_ok st3" using es dal by (intro adm_ok_extend [OF ok(2) t mat]) auto
  then have "slot_ok st3" using took_reqs_ok [OF t ok(1)] st3(2,5) fr(1) ok(3) by (simp add: slot_ok_def outer_def fun_eq_iff)
  moreover have "es \<noteq> []" if "full" "in_range s" "req st0 s \<noteq> []" for s using first_it_admits [of st0 st1 st2] st1(2) st2(2) that by (simp add: es_def)
  moreover have "pim_iteration dec grant st0 = Some st3" by (simp add: pim_iteration_def st1(1) st2(1) st3(1))
  ultimately show ?thesis using t mat es st3(2) fr(1) unfolding matching_def by (auto intro!: exI [of _ es])
qed

end
