(* ===== verification/Pim_Slot.thy ===== *)
theory Pim_Slot
  imports Pim_Iteration
begin

text \<open>
  A time slot of the grant-accept allocator: the demands that were queued become requests, three iterations admit a matching, and the
  admitted traffic is queued.
\<close>

section \<open>The iterations of a slot\<close>

definition slot_from :: "pim_state \<Rightarrow> pim_state \<Rightarrow> (u16 \<times> u16) list \<Rightarrow> bool" where
  "slot_from st0 st es \<longleftrightarrow> slot_ok st \<and> outer st = outer st0 \<and> took st0 st es \<and> distinct (map fst es)
     \<and> (\<forall>e \<in> set es. in_range (fst e) \<and> snd e \<in> set (req st0 (fst e)))"

lemma slot_next:
  assumes "dec_ok dec" "reqs_ok st0" "slot_from st0 st xs"
  shows "returns (pim_iteration dec pim_do_grant st) (\<lambda>st'. \<exists>ys. slot_from st0 st' (xs @ ys))"
proof (rule returns_mono)
  show "returns (pim_iteration dec pim_do_grant st) (\<lambda>st'. slot_ok st' \<and> outer st' = outer st
    \<and> (\<exists>es. took st st' es \<and> distinct (map fst es) \<and> (\<forall>e \<in> set es. in_range (fst e) \<and> \<not> sal st (fst e) \<and> snd e \<in> set (req st (fst e)))
         \<and> (False \<longrightarrow> (\<exists>s. in_range s \<and> req st s \<noteq> []) \<longrightarrow> es \<noteq> [])))"
    using assms(3) by (intro iteration_step [OF assms(1) grants_later]) (simp_all add: slot_from_def)
  fix st' assume "slot_ok st' \<and> outer st' = outer st
    \<and> (\<exists>es. took st st' es \<and> distinct (map fst es) \<and> (\<forall>e \<in> set es. in_range (fst e) \<and> \<not> sal st (fst e) \<and> snd e \<in> set (req st (fst e)))
         \<and> (False \<longrightarrow> (\<exists>s. in_range s \<and> req st s \<noteq> []) \<longrightarrow> es \<noteq> []))"
  then obtain ys where ys: "slot_ok st'" "outer st' = outer st" "took st st' ys" "distinct (map fst ys)"
    "\<And>e. e \<in> set ys \<Longrightarrow> in_range (fst e)" "\<And>e. e \<in> set ys \<Longrightarrow> \<not> sal st (fst e)" "\<And>e. e \<in> set ys \<Longrightarrow> snd e \<in> set (req st (fst e))" by blast
  have t: "took st0 st xs" using assms(3) by (simp add: slot_from_def)
  have "fst ` set xs \<inter> fst ` set ys = {}"
  proof (rule equals0I, elim IntE imageE)
    fix x e e' assume "e \<in> set xs" "e' \<in> set ys" "x = fst e" "x = fst e'"
    then show False using tookD(2) [OF t, of x] ys(6) [of e'] by auto
  qed
  then have d: "distinct (map fst (xs @ ys))" using assms(3) ys(4) by (simp add: slot_from_def)
  have "snd e \<in> set (req st0 (fst e))" if "e \<in> set ys" for e using ys(7) [OF that] tookD(6) [OF t ys(5) [OF that]] by simp
  then have "slot_from st0 st' (xs @ ys)"
    using ys(1,2,5) took_append [OF t ys(3) d assms(2)] d assms(3) unfolding slot_from_def by (auto simp del: map_append)
  then show "\<exists>ys. slot_from st0 st' (xs @ ys)" ..
qed

theorem slot_iterations:
  assumes "dec_ok dec" "slot_ok st0" "nothing_allocated st0"
  shows "returns (do { st \<leftarrow> pim_iteration dec pim_do_grant_first_it st0; for_each (\<lambda>i. pim_iteration dec pim_do_grant) [1 ..< NUM_ITERATIONS] st })
    (\<lambda>st. \<exists>es. slot_from st0 st es \<and> ((\<exists>s. in_range s \<and> req st0 s \<noteq> []) \<longrightarrow> es \<noteq> []))"
proof -
  have rq: "reqs_ok st0" using assms(2) by (simp add: slot_ok_def)
  obtain st1 xs where st1: "pim_iteration dec pim_do_grant_first_it st0 = Some st1" "slot_from st0 st1 xs" "(\<exists>s. in_range s \<and> req st0 s \<noteq> []) \<longrightarrow> xs \<noteq> []"
    using iteration_step [OF assms(1) grants_first assms(2,3)] unfolding returns_def slot_from_def by blast
  obtain st2 ys where st2: "pim_iteration dec pim_do_grant st1 = Some st2" "slot_from st0 st2 (xs @ ys)"
    using slot_next [OF assms(1) rq st1(2)] unfolding returns_def by blast
  obtain st3 zs where st3: "pim_iteration dec pim_do_grant st2 = Some st3" "slot_from st0 st3 ((xs @ ys) @ zs)"
    using slot_next [OF assms(1) rq st2(2)] unfolding returns_def by blast
  have "[1 ..< NUM_ITERATIONS] = [1, 2]" by (simp add: NUM_ITERATIONS_def upt_rec)
  then show ?thesis using st1(3) st3(2) by (simp add: st1(1) st2(1) st3(1)) (intro exI [of _ "(xs @ ys) @ zs"], simp)
qed

section \<open>New requests\<close>

text \<open>The demands of the bins that are queued, and the destinations to which a source is known to have demand.\<close>

abbreviation queue_of :: "pim_state \<Rightarrow> nat \<Rightarrow> nat list" where
  "queue_of st p \<equiv> ring_list (pc_q_new_demands (ps_cores st p))"

definition bin_edges :: "pim_state \<Rightarrow> nat list \<Rightarrow> backlog_edge list" where
  "bin_edges st as = concat (map (\<lambda>a. bin_list (ps_bins st a)) as)"

definition pending_dsts :: "pim_state \<Rightarrow> u16 \<Rightarrow> u16 list" where
  "pending_dsts st s = map e_dst (filter (\<lambda>e. e_src e = s) (bin_edges st (queue_of st (PARTITION_OF s))))"

definition known :: "pim_state \<Rightarrow> u16 \<Rightarrow> u16 list" where
  "known st s = req st s @ pending_dsts st s"

definition pim_inv :: "pim_state \<Rightarrow> bool" where
  "pim_inv st \<longleftrightarrow>
     (\<forall>p < 2. ring_inv (pc_q_new_demands (ps_cores st p)) \<and> (\<forall>a \<in> set (queue_of st p). bin_list (ps_bins st a) \<noteq> [])
        \<and> (\<forall>e \<in> set (bin_edges st (queue_of st p)). PARTITION_OF (e_src e) = p))
     \<and> (\<forall>s. in_range s \<longrightarrow> distinct (known st s) \<and> (\<forall>d \<in> set (known st s). in_range d \<and> demand st s d \<noteq> 0))
     \<and> (\<forall>q < 2. \<forall>p < 2. accepted st q p = [])
     \<and> mp_inv (ps_bin_mempool st)
     \<and> length (mp_list (ps_bin_mempool st)) + length (queue_of st 0) + length (queue_of st 1) \<le> unat (mp_total (ps_bin_mempool st))"

lemma pim_inv_known:
  assumes "pim_inv st" "in_range s"
  shows "distinct (known st s)" "d \<in> set (known st s) \<Longrightarrow> in_range d" "d \<in> set (known st s) \<Longrightarrow> demand st s d \<noteq> 0" "length (known st s) \<le> 256"
proof -
  show d: "distinct (known st s)" "d \<in> set (known st s) \<Longrightarrow> in_range d" "d \<in> set (known st s) \<Longrightarrow> demand st s d \<noteq> 0"
    using assms unfolding pim_inv_def by blast+
  have "\<forall>x \<in> set (known st s). in_range x" using assms unfolding pim_inv_def by blast
  with d(1) show "length (known st s) \<le> 256" by (rule distinct_nodes_length)
qed

lemma process_incoming_bin_spec:
  assumes "\<And>i. i < 128 \<Longrightarrow> length (adj_list (ps_requests_by_src st p) i) + length (filter (\<lambda>e. PARTITION_IDX (e_src e) = i) (bin_list (ps_bins st a))) \<le> 256"
  shows "returns (process_incoming_bin p a st) (\<lambda>st'. \<exists>adj. st' = st\<lparr>ps_requests_by_src := (ps_requests_by_src st)(p := adj)\<rparr>
    \<and> (\<forall>i. adj_list adj i = adj_list (ps_requests_by_src st p) i @ map e_dst (filter (\<lambda>e. PARTITION_IDX (e_src e) = i) (bin_list (ps_bins st a)))))"
proof -
  let ?es = "bin_list (ps_bins st a)" and ?n = "unat (bin_size (ps_bins st a))"
  let ?P = "\<lambda>k st'. \<exists>adj. st' = st\<lparr>ps_requests_by_src := (ps_requests_by_src st)(p := adj)\<rparr>
    \<and> (\<forall>i. adj_list adj i = adj_list (ps_requests_by_src st p) i @ map e_dst (filter (\<lambda>e. PARTITION_IDX (e_src e) = i) (take k ?es)))"
  have es: "?es = map (bin_get (ps_bins st a)) [0 ..< ?n]" by (rule map_bin_get [symmetric])
  have "returns (process_incoming_bin p a st) (?P ?n)"
    unfolding process_incoming_bin_def
  proof (rule for_each_loop)
    show "?P 0 st" by (intro exI [of _ "ps_requests_by_src st p"]) simp
    fix k st' assume k: "k < ?n" and "?P k st'"
    then obtain adj where st': "st' = st\<lparr>ps_requests_by_src := (ps_requests_by_src st)(p := adj)\<rparr>"
      and adj: "\<And>i. adj_list adj i = adj_list (ps_requests_by_src st p) i @ map e_dst (filter (\<lambda>e. PARTITION_IDX (e_src e) = i) (take k ?es))" by blast
    let ?e = "bin_get (ps_bins st a) k" and ?i = "PARTITION_IDX (e_src (bin_get (ps_bins st a) k))"
    have split: "?es = take k ?es @ ?e # drop (Suc k) ?es" "take (Suc k) ?es = take k ?es @ [?e]"
      using k id_take_nth_drop [of k ?es] by (simp_all add: es take_Suc_conv_app_nth)
    have "length (filter (\<lambda>e. PARTITION_IDX (e_src e) = ?i) (take k ?es)) < length (filter (\<lambda>e. PARTITION_IDX (e_src e) = ?i) ?es)"
      by (subst (2) split(1)) simp
    then have "length (adj_list adj ?i) < 256" using assms [of ?i] by (simp add: adj)
    from add_edge_by_src [OF partition_idx_less this, of "e_dst ?e"] obtain adj' where
      adj': "ga_adj_add_edge_by_src adj ?i (e_dst ?e) = Some adj'" "adj_list adj' = (adj_list adj)(?i := adj_list adj ?i @ [e_dst ?e])" by (elim exE conjE)
    have "?P (Suc k) (st'\<lparr>ps_requests_by_src := (ps_requests_by_src st')(p := adj')\<rparr>)"
      by (intro exI [of _ adj']) (simp add: st' adj' adj split(2))
    then show "returns (do { let edge = bin_get (ps_bins st' a) k;
         adj \<leftarrow> ga_adj_add_edge_by_src (ps_requests_by_src st' p) (PARTITION_IDX (e_src edge)) (e_dst edge);
         Some (st'\<lparr>ps_requests_by_src := (ps_requests_by_src st')(p := adj)\<rparr>) }) (?P (Suc k))"
      by (simp add: Let_def st' adj'(1))
  qed
  then show ?thesis by (simp add: es)
qed

text \<open>The bins \<open>as\<close> were moved to the requests of a partition, and then to the pool.\<close>

definition bins_moved :: "pim_state \<Rightarrow> nat \<Rightarrow> nat list \<Rightarrow> pim_state \<Rightarrow> bool" where
  "bins_moved st p as st' \<longleftrightarrow> (\<exists>adj mp. st' = st\<lparr>ps_requests_by_src := (ps_requests_by_src st)(p := adj), ps_bin_mempool := mp\<rparr>
     \<and> (\<forall>i. adj_list adj i = adj_list (ps_requests_by_src st p) i @ map e_dst (filter (\<lambda>e. PARTITION_IDX (e_src e) = i) (bin_edges st as)))
     \<and> mp_inv mp \<and> mp_total mp = mp_total (ps_bin_mempool st) \<and> mp_list mp = mp_list (ps_bin_mempool st) @ as)"

lemma bins_moved_next:
  assumes "bins_moved st p as st'" "unat (mp_cur (ps_bin_mempool st)) + length as < unat (mp_total (ps_bin_mempool st))"
    "\<And>i. i < 128 \<Longrightarrow> length (adj_list (ps_requests_by_src st p) i) + length (filter (\<lambda>e. PARTITION_IDX (e_src e) = i) (bin_edges st (as @ [a]))) \<le> 256"
  shows "returns (do { st \<leftarrow> process_incoming_bin p a st'; mp \<leftarrow> fp_mempool_put (ps_bin_mempool st) a; Some (st\<lparr>ps_bin_mempool := mp\<rparr>) }) (bins_moved st p (as @ [a]))"
proof -
  obtain adj mp where st': "st' = st\<lparr>ps_requests_by_src := (ps_requests_by_src st)(p := adj), ps_bin_mempool := mp\<rparr>"
    and adj: "\<And>i. adj_list adj i = adj_list (ps_requests_by_src st p) i @ map e_dst (filter (\<lambda>e. PARTITION_IDX (e_src e) = i) (bin_edges st as))"
    and mp: "mp_inv mp" "mp_total mp = mp_total (ps_bin_mempool st)" "mp_list mp = mp_list (ps_bin_mempool st) @ as"
    using assms(1) unfolding bins_moved_def by blast
  have be: "bin_edges st (as @ [a]) = bin_edges st as @ bin_list (ps_bins st a)" by (simp add: bin_edges_def)
  have "length (adj_list (ps_requests_by_src st' p) i) + length (filter (\<lambda>e. PARTITION_IDX (e_src e) = i) (bin_list (ps_bins st' a))) \<le> 256" if "i < 128" for i
    using assms(3) [OF that] by (simp add: st' adj be)
  from process_incoming_bin_spec [OF this] obtain adj' where
    b: "process_incoming_bin p a st' = Some (st'\<lparr>ps_requests_by_src := (ps_requests_by_src st')(p := adj')\<rparr>)"
      "\<And>i. adj_list adj' i = adj_list (ps_requests_by_src st' p) i @ map e_dst (filter (\<lambda>e. PARTITION_IDX (e_src e) = i) (bin_list (ps_bins st' a)))"
    unfolding returns_def by blast
  have "unat (mp_cur mp) = unat (mp_cur (ps_bin_mempool st)) + length as" using arg_cong [OF mp(3), of length] by (simp add: length_mp_list)
  then have "mp_cur mp < mp_total mp" using assms(2) mp(2) by (simp add: word_less_nat_alt)
  from fp_mempool_put_spec [OF this, of a] obtain mp' where
    mp': "fp_mempool_put mp a = Some mp'" "mp_inv mp'" "mp_total mp' = mp_total mp" "mp_list mp' = mp_list mp @ [a]" by blast
  have "bins_moved st p (as @ [a]) (st\<lparr>ps_requests_by_src := (ps_requests_by_src st)(p := adj'), ps_bin_mempool := mp'\<rparr>)"
    unfolding bins_moved_def by (intro exI [of _ adj'] exI [of _ mp']) (use b(2) mp'(2-4) mp(2,3) in \<open>simp add: st' adj be\<close>)
  then show ?thesis by (simp add: b(1)) (simp add: st' mp'(1))
qed

lemma node_of: "p < 2 \<Longrightarrow> i < 128 \<Longrightarrow> \<exists>s. PARTITION_OF s = p \<and> PARTITION_IDX s = i"
proof (intro exI conjI)
  assume "p < 2" "i < 128"
  then have "unat (of_nat (128 * p + i) :: u16) = 128 * p + i" by (intro unat_of_nat_word) simp
  then show "PARTITION_OF (of_nat (128 * p + i)) = p" "PARTITION_IDX (of_nat (128 * p + i)) = i" using \<open>i < 128\<close> by (simp_all add: partition_consts)
qed

text \<open>The demands of a source in the bins of its partition.\<close>

lemma same_idx:
  assumes "\<forall>e \<in> set es. PARTITION_OF (e_src e) = p" "PARTITION_OF s = p"
  shows "filter (\<lambda>e. PARTITION_IDX (e_src e) = PARTITION_IDX s) es = filter (\<lambda>e. e_src e = s) es"
proof (rule filter_cong [OF refl])
  fix e assume "e \<in> set es"
  then have "PARTITION_OF (e_src e) = PARTITION_OF s" using assms by blast
  then show "PARTITION_IDX (e_src e) = PARTITION_IDX s \<longleftrightarrow> e_src e = s" using partition_eqI by blast
qed

definition requests_taken :: "pim_state \<Rightarrow> nat \<Rightarrow> pim_state \<Rightarrow> bool" where
  "requests_taken st p st' \<longleftrightarrow> (\<exists>q stat st1. ring_inv q \<and> ring_list q = drop RING_DEQUEUE_BURST_SIZE (queue_of st p)
     \<and> bins_moved (upd_pc p (pc_q_new_demands_update (\<lambda>_. q)) st) p (take RING_DEQUEUE_BURST_SIZE (queue_of st p)) st1
     \<and> st' = upd_pc p (\<lambda>core. core\<lparr>pc_stat := stat\<rparr>) st1)"

lemma bin_edges_split: "bin_edges st (as @ bs) = bin_edges st as @ bin_edges st bs"
  by (simp add: bin_edges_def)

lemma pim_inv_room:
  assumes "pim_inv st" "p < 2" "i < 128"
  shows "length (adj_list (ps_requests_by_src st p) i) + length (filter (\<lambda>e. PARTITION_IDX (e_src e) = i) (bin_edges st (queue_of st p))) \<le> 256"
proof -
  obtain s where s: "PARTITION_OF s = p" "PARTITION_IDX s = i" using node_of [OF assms(2,3)] by blast
  have "\<forall>e \<in> set (bin_edges st (queue_of st p)). PARTITION_OF (e_src e) = p" using assms(1,2) by (simp add: pim_inv_def)
  note f = same_idx [OF this s(1), unfolded s(2)]
  have "length (known st s) \<le> 256" using assms(2) s(1) by (intro pim_inv_known(4) [OF assms(1)]) simp
  then show ?thesis by (simp add: known_def req_def pending_dsts_def s f)
qed

lemma process_new_requests_spec:
  assumes "pim_inv st" "p < 2"
  shows "returns (process_new_requests p st) (requests_taken st p)"
proof -
  let ?as = "take RING_DEQUEUE_BURST_SIZE (queue_of st p)"
  have "ring_inv (pc_q_new_demands (ps_cores st p))" using assms by (simp add: pim_inv_def)
  from fp_ring_dequeue_burst_spec [OF this, of RING_DEQUEUE_BURST_SIZE] obtain q where
    q: "fp_ring_dequeue_burst (pc_q_new_demands (ps_cores st p)) RING_DEQUEUE_BURST_SIZE = (?as, q)" "ring_inv q"
      "ring_list q = drop RING_DEQUEUE_BURST_SIZE (queue_of st p)" by blast
  let ?st = "upd_pc p (pc_q_new_demands_update (\<lambda>_. q)) st"
  have "returns (for_each (\<lambda>a st. do { st \<leftarrow> process_incoming_bin p a st; mp \<leftarrow> fp_mempool_put (ps_bin_mempool st) a; Some (st\<lparr>ps_bin_mempool := mp\<rparr>) }) ?as ?st)
      (bins_moved ?st p ?as)"
  proof (rule for_each_done)
    show "bins_moved ?st p [] ?st" unfolding bins_moved_def using assms(1)
      by (intro exI [of _ "ps_requests_by_src ?st p"] exI [of _ "ps_bin_mempool ?st"]) (simp add: bin_edges_def pim_inv_def upd_pc_def)
    fix xs y ys st' assume as: "?as = xs @ y # ys" and moved: "bins_moved ?st p xs st'"
    then have qs: "queue_of st p = (xs @ [y]) @ (ys @ drop RING_DEQUEUE_BURST_SIZE (queue_of st p))" using append_take_drop_id [of RING_DEQUEUE_BURST_SIZE "queue_of st p"] by simp
    have "length xs < length (queue_of st p)" by (subst qs) simp
    then have "unat (mp_cur (ps_bin_mempool ?st)) + length xs < unat (mp_total (ps_bin_mempool ?st))"
      using assms by (auto simp: pim_inv_def upd_pc_def length_mp_list less_2_cases_iff)
    moreover have "length (adj_list (ps_requests_by_src ?st p) i) + length (filter (\<lambda>e. PARTITION_IDX (e_src e) = i) (bin_edges ?st (xs @ [y]))) \<le> 256"
      if "i < 128" for i
    proof -
      have "bin_edges ?st = bin_edges st" "ps_requests_by_src ?st = ps_requests_by_src st" by (simp_all add: bin_edges_def fun_eq_iff upd_pc_def)
      moreover have "bin_edges st (queue_of st p) = bin_edges st (xs @ [y]) @ bin_edges st (ys @ drop RING_DEQUEUE_BURST_SIZE (queue_of st p))"
        by (subst qs) (rule bin_edges_split)
      ultimately show ?thesis using pim_inv_room [OF assms that] by simp
    qed
    ultimately show "returns (do { st \<leftarrow> process_incoming_bin p y st'; mp \<leftarrow> fp_mempool_put (ps_bin_mempool st) y; Some (st\<lparr>ps_bin_mempool := mp\<rparr>) })
      (bins_moved ?st p (xs @ [y]))" using moved by (intro bins_moved_next)
  qed
  then obtain st1 where st1: "for_each (\<lambda>a st. do { st \<leftarrow> process_incoming_bin p a st; mp \<leftarrow> fp_mempool_put (ps_bin_mempool st) a; Some (st\<lparr>ps_bin_mempool := mp\<rparr>) }) ?as ?st = Some st1"
    "bins_moved ?st p ?as st1" unfolding returns_def by blast
  have "requests_taken st p (upd_pc p (\<lambda>core. core\<lparr>pc_stat := stat core\<rparr>) st1)" for stat
    unfolding requests_taken_def using q(2,3) st1(2) by (intro exI [of _ q] exI [of _ "stat (ps_cores st1 p)"] exI [of _ st1]) (simp add: upd_pc_def)
  then show ?thesis by (simp add: process_new_requests_def q(1) Let_def st1(1))
qed

text \<open>What is left alone while the new requests of a partition are processed.\<close>

definition alloc_part where
  "alloc_part st = (ps_backlog st, ps_accepts st, ps_adms st, ps_admitted_traffic_mempool st, ps_q_admitted_out st, ps_bins st,
     (\<lambda>p. pc_admitted (ps_cores st p)), (\<lambda>p. pc_src_endnodes (ps_cores st p)), (\<lambda>p. pc_dst_endnodes (ps_cores st p)))"

lemma requests_taken_parts:
  assumes "requests_taken st p st'"
  shows "alloc_part st' = alloc_part st"
    "queue_of st' p' = (if p' = p then drop RING_DEQUEUE_BURST_SIZE (queue_of st p) else queue_of st p')"
    "ring_inv (pc_q_new_demands (ps_cores st p')) \<Longrightarrow> ring_inv (pc_q_new_demands (ps_cores st' p'))"
    "mp_inv (ps_bin_mempool st')" "mp_total (ps_bin_mempool st') = mp_total (ps_bin_mempool st)"
    "mp_list (ps_bin_mempool st') = mp_list (ps_bin_mempool st) @ take RING_DEQUEUE_BURST_SIZE (queue_of st p)"
    "adj_list (ps_requests_by_src st' p') i = adj_list (ps_requests_by_src st p') i @ (if p' = p then
       map e_dst (filter (\<lambda>e. PARTITION_IDX (e_src e) = i) (bin_edges st (take RING_DEQUEUE_BURST_SIZE (queue_of st p)))) else [])"
proof -
  obtain q stat adj mp where q: "ring_inv q" "ring_list q = drop RING_DEQUEUE_BURST_SIZE (queue_of st p)"
    and st': "st' = upd_pc p (\<lambda>core. core\<lparr>pc_stat := stat\<rparr>) ((upd_pc p (pc_q_new_demands_update (\<lambda>_. q)) st)
      \<lparr>ps_requests_by_src := (ps_requests_by_src st)(p := adj), ps_bin_mempool := mp\<rparr>)"
    and adj: "\<And>i. adj_list adj i = adj_list (ps_requests_by_src st p) i
      @ map e_dst (filter (\<lambda>e. PARTITION_IDX (e_src e) = i) (bin_edges st (take RING_DEQUEUE_BURST_SIZE (queue_of st p))))"
    and mp: "mp_inv mp" "mp_total mp = mp_total (ps_bin_mempool st)" "mp_list mp = mp_list (ps_bin_mempool st) @ take RING_DEQUEUE_BURST_SIZE (queue_of st p)"
    using assms unfolding requests_taken_def bins_moved_def by (auto simp: upd_pc_def bin_edges_def)
  show "alloc_part st' = alloc_part st" by (simp add: alloc_part_def st' upd_pc_def fun_eq_iff)
  show "queue_of st' p' = (if p' = p then drop RING_DEQUEUE_BURST_SIZE (queue_of st p) else queue_of st p')"
    "ring_inv (pc_q_new_demands (ps_cores st p')) \<Longrightarrow> ring_inv (pc_q_new_demands (ps_cores st' p'))"
    using q by (simp_all add: st' upd_pc_def)
  show "mp_inv (ps_bin_mempool st')" "mp_total (ps_bin_mempool st') = mp_total (ps_bin_mempool st)"
    "mp_list (ps_bin_mempool st') = mp_list (ps_bin_mempool st) @ take RING_DEQUEUE_BURST_SIZE (queue_of st p)"
    using mp by (simp_all add: st' upd_pc_def)
  show "adj_list (ps_requests_by_src st' p') i = adj_list (ps_requests_by_src st p') i @ (if p' = p then
       map e_dst (filter (\<lambda>e. PARTITION_IDX (e_src e) = i) (bin_edges st (take RING_DEQUEUE_BURST_SIZE (queue_of st p)))) else [])"
    using adj by (simp add: st' upd_pc_def)
qed

lemma alloc_part_eqD:
  assumes "alloc_part st' = alloc_part st"
  shows "demand st' = demand st" "sal st' = sal st" "dal st' = dal st" "admitted st' = admitted st" "ps_accepts st' = ps_accepts st"
    "bin_edges st' = bin_edges st" "ps_bins st' = ps_bins st"
proof -
  have "ps_backlog st' = ps_backlog st" "ps_bins st' = ps_bins st" "ps_accepts st' = ps_accepts st" "ps_adms st' = ps_adms st" using assms by (simp_all add: alloc_part_def)
  moreover have "pc_admitted (ps_cores st' p) = pc_admitted (ps_cores st p)" "pc_src_endnodes (ps_cores st' p) = pc_src_endnodes (ps_cores st p)"
    "pc_dst_endnodes (ps_cores st' p) = pc_dst_endnodes (ps_cores st p)" for p using assms by (simp_all add: alloc_part_def fun_eq_iff)
  ultimately show "demand st' = demand st" "sal st' = sal st" "dal st' = dal st" "admitted st' = admitted st" "ps_accepts st' = ps_accepts st"
    "bin_edges st' = bin_edges st" "ps_bins st' = ps_bins st"
    by (simp_all add: demand_def sal_def dal_def src_is_allocated_def dst_alloc_def admitted_def bin_edges_def fun_eq_iff)
qed

lemma requests_taken_req:
  assumes "pim_inv st" "p < 2" "requests_taken st p st'"
  shows "req st' s = req st s @ (if PARTITION_OF s = p then map e_dst (filter (\<lambda>e. e_src e = s) (bin_edges st (take RING_DEQUEUE_BURST_SIZE (queue_of st p)))) else [])"
proof -
  have "\<forall>e \<in> set (bin_edges st (queue_of st p)). PARTITION_OF (e_src e) = p" using assms(1,2) by (simp add: pim_inv_def)
  moreover have "set (bin_edges st (take RING_DEQUEUE_BURST_SIZE (queue_of st p))) \<subseteq> set (bin_edges st (queue_of st p))"
    unfolding bin_edges_def by (auto dest: in_set_takeD)
  ultimately have "\<forall>e \<in> set (bin_edges st (take RING_DEQUEUE_BURST_SIZE (queue_of st p))). PARTITION_OF (e_src e) = p" by blast
  from same_idx [OF this, of s] show ?thesis by (simp add: req_def requests_taken_parts(7) [OF assms(3)])
qed

lemma requests_taken_known:
  assumes "pim_inv st" "p < 2" "requests_taken st p st'"
  shows "known st' s = known st s"
proof -
  have "bin_edges st (queue_of st p) = bin_edges st (take RING_DEQUEUE_BURST_SIZE (queue_of st p)) @ bin_edges st (drop RING_DEQUEUE_BURST_SIZE (queue_of st p))"
    by (simp flip: bin_edges_split)
  then show ?thesis
    unfolding known_def pending_dsts_def requests_taken_req [OF assms] requests_taken_parts(2) [OF assms(3)] alloc_part_eqD(6) [OF requests_taken_parts(1) [OF assms(3)]] by simp
qed

lemma requests_taken_inv:
  assumes "pim_inv st" "p < 2" "requests_taken st p st'"
  shows "pim_inv st'"
proof -
  note D = requests_taken_parts [OF assms(3)]
  note E = alloc_part_eqD [OF D(1)]
  have "set (queue_of st' p') \<subseteq> set (queue_of st p')" for p' by (simp add: D(2) set_drop_subset)
  moreover from this have "set (bin_edges st' (queue_of st' p')) \<subseteq> set (bin_edges st (queue_of st p'))" for p' unfolding E(6) bin_edges_def by auto
  moreover have "length (mp_list (ps_bin_mempool st')) + length (queue_of st' 0) + length (queue_of st' 1) \<le> unat (mp_total (ps_bin_mempool st'))"
    using assms(1,2) by (auto simp: pim_inv_def D(2,5,6) less_2_cases_iff)
  ultimately show ?thesis
    using assms(1) D(3,4) unfolding pim_inv_def requests_taken_known [OF assms] E(1,5,7) by blast
qed

lemma requests_taken_some:
  assumes "pim_inv st" "p < 2" "requests_taken st p st'" "PARTITION_OF s = p" "known st s \<noteq> []"
  shows "\<exists>t. PARTITION_OF t = p \<and> req st' t \<noteq> []"
proof (cases "req st s = []")
  case False
  then show ?thesis using assms(4) requests_taken_req [OF assms(1-3), of s] by auto
next
  case True
  then have "bin_edges st (queue_of st p) \<noteq> []" using assms(4,5) by (auto simp: known_def pending_dsts_def)
  then obtain a as where q: "queue_of st p = a # as" by (cases "queue_of st p") (simp_all add: bin_edges_def)
  have inv: "\<forall>a \<in> set (queue_of st p). bin_list (ps_bins st a) \<noteq> []" "\<forall>e \<in> set (bin_edges st (queue_of st p)). PARTITION_OF (e_src e) = p"
    using assms(1,2) unfolding pim_inv_def by blast+
  then obtain e where e: "e \<in> set (bin_list (ps_bins st a))" using q by (metis list.set_intros(1) list.set_sel(1))
  then have "e \<in> set (bin_edges st (take RING_DEQUEUE_BURST_SIZE (queue_of st p)))" "PARTITION_OF (e_src e) = p"
    using inv(2) unfolding q by (simp_all add: bin_edges_def RING_DEQUEUE_BURST_SIZE_def)
  then have "e_dst e \<in> set (req st' (e_src e))" unfolding requests_taken_req [OF assms(1-3)] by simp
  then show ?thesis using \<open>PARTITION_OF (e_src e) = p\<close> by auto
qed

end
