(* ===== verification/Pim_Props.thy ===== *)
theory Pim_Props
  imports Pim_Slot Alloc_Example
begin

text \<open>
  The allocation of a time slot by the grant-accept allocator, from the queued demands to the check of the admitted traffic.
\<close>

section \<open>Preparation\<close>

text \<open>The parts of the state that the invariant reads.\<close>

definition inv_part where
  "inv_part st = (ps_requests_by_src st, ps_backlog st, ps_accepts st, ps_bins st, ps_bin_mempool st, (\<lambda>p. pc_q_new_demands (ps_cores st p)))"

lemma inv_part_eqD:
  assumes "inv_part st' = inv_part st"
  shows "req st' = req st" "demand st' = demand st" "known st' = known st" "pim_inv st' = pim_inv st" "queue_of st' = queue_of st" "bin_edges st' = bin_edges st"
proof -
  have f: "ps_requests_by_src st' = ps_requests_by_src st" "ps_backlog st' = ps_backlog st" "ps_accepts st' = ps_accepts st" "ps_bins st' = ps_bins st"
    "ps_bin_mempool st' = ps_bin_mempool st" using assms by (simp_all add: inv_part_def)
  have q: "pc_q_new_demands (ps_cores st' p) = pc_q_new_demands (ps_cores st p)" for p using assms by (simp add: inv_part_def fun_eq_iff)
  show r: "req st' = req st" "demand st' = demand st" "bin_edges st' = bin_edges st" by (simp_all add: req_def demand_def bin_edges_def f fun_eq_iff)
  show k: "known st' = known st" by (simp add: known_def pending_dsts_def r q fun_eq_iff)
  show "queue_of st' = queue_of st" by (simp add: q)
  show "pim_inv st' = pim_inv st" by (simp add: pim_inv_def f q r k)
qed

definition prepared :: "pim_state \<Rightarrow> nat \<Rightarrow> nat \<Rightarrow> pim_state \<Rightarrow> bool" where
  "prepared st p a st' \<longleftrightarrow> pim_inv st' \<and> known st' = known st \<and> demand st' = demand st \<and> ps_q_admitted_out st' = ps_q_admitted_out st
     \<and> mp_inv (ps_admitted_traffic_mempool st') \<and> mp_list (ps_admitted_traffic_mempool st) = mp_list (ps_admitted_traffic_mempool st') @ [a]
     \<and> (\<forall>p'. pc_admitted (ps_cores st' p') = (if p' = p then a else pc_admitted (ps_cores st p')))
     \<and> adm_list (ps_adms st' a) = [] \<and> (\<forall>b. b \<noteq> a \<longrightarrow> ps_adms st' b = ps_adms st b)
     \<and> (\<forall>x. sal st' x \<longleftrightarrow> PARTITION_OF x \<noteq> p \<and> sal st x) \<and> (\<forall>x. dal st' x \<longleftrightarrow> PARTITION_OF x \<noteq> p \<and> dal st x)
     \<and> (\<forall>s. PARTITION_OF s \<noteq> p \<longrightarrow> req st' s = req st s)
     \<and> ((\<exists>s. PARTITION_OF s = p \<and> known st s \<noteq> []) \<longrightarrow> (\<exists>s. PARTITION_OF s = p \<and> req st' s \<noteq> []))"

lemma preparedD:
  assumes "prepared st p a st'"
  shows "pim_inv st'" "known st' = known st" "demand st' = demand st" "ps_q_admitted_out st' = ps_q_admitted_out st" "mp_inv (ps_admitted_traffic_mempool st')"
    "pc_admitted (ps_cores st' p') = (if p' = p then a else pc_admitted (ps_cores st p'))" "adm_list (ps_adms st' a) = []"
    "b \<noteq> a \<Longrightarrow> ps_adms st' b = ps_adms st b" "sal st' x \<longleftrightarrow> PARTITION_OF x \<noteq> p \<and> sal st x" "dal st' x \<longleftrightarrow> PARTITION_OF x \<noteq> p \<and> dal st x"
    "PARTITION_OF s \<noteq> p \<Longrightarrow> req st' s = req st s"
    "PARTITION_OF s = p \<Longrightarrow> known st s \<noteq> [] \<Longrightarrow> \<exists>s. PARTITION_OF s = p \<and> req st' s \<noteq> []"
proof -
  note P = assms [unfolded prepared_def]
  show "pim_inv st'" "known st' = known st" "demand st' = demand st" "ps_q_admitted_out st' = ps_q_admitted_out st" "mp_inv (ps_admitted_traffic_mempool st')"
    "adm_list (ps_adms st' a) = []" using P by simp_all
  show "pc_admitted (ps_cores st' p') = (if p' = p then a else pc_admitted (ps_cores st p'))" using P by simp
  show "sal st' x \<longleftrightarrow> PARTITION_OF x \<noteq> p \<and> sal st x" "dal st' x \<longleftrightarrow> PARTITION_OF x \<noteq> p \<and> dal st x" using P by simp_all
  show "b \<noteq> a \<Longrightarrow> ps_adms st' b = ps_adms st b" "PARTITION_OF s \<noteq> p \<Longrightarrow> req st' s = req st s" using P by simp_all
  assume "PARTITION_OF s = p" "known st s \<noteq> []"
  then have "\<exists>s. PARTITION_OF s = p \<and> known st s \<noteq> []" by (intro exI conjI)
  then show "\<exists>s. PARTITION_OF s = p \<and> req st' s \<noteq> []" using P by (elim conjE) (erule mp)
qed

lemma prepare_step:
  assumes "pim_inv st" "p < 2" "mp_inv (ps_admitted_traffic_mempool st)" "mp_list (ps_admitted_traffic_mempool st) = as @ [a]"
  shows "returns (pim_prepare p st) (\<lambda>st'. prepared st p a st' \<and> mp_list (ps_admitted_traffic_mempool st') = as)"
proof -
  obtain st1 where st1: "Pim.process_new_requests p st = Some st1" "requests_taken st p st1"
    using process_new_requests_spec [OF assms(1,2)] by (auto simp: returns_def)
  note A = requests_taken_parts(1) [OF st1(2)]
  have pool: "ps_admitted_traffic_mempool st1 = ps_admitted_traffic_mempool st" "ps_q_admitted_out st1 = ps_q_admitted_out st" "ps_adms st1 = ps_adms st"
    and pc: "pc_admitted (ps_cores st1 p') = pc_admitted (ps_cores st p')" for p' using A by (simp_all add: alloc_part_def fun_eq_iff)
  obtain mp where mp: "fp_mempool_get (ps_admitted_traffic_mempool st) = Some (a, mp)" "mp_inv mp" "mp_list mp = as"
  proof -
    have "fp_mempool_get (ps_admitted_traffic_mempool st) \<noteq> None" using assms(4) by (simp add: fp_mempool_get_None)
    then obtain x mp where g: "fp_mempool_get (ps_admitted_traffic_mempool st) = Some (x, mp)" by auto
    then show thesis using fp_mempool_get_Some [OF assms(3) g] assms(4) that by simp
  qed
  define st2 where "st2 = upd_pc p (\<lambda>core. core\<lparr>pc_src_endnodes := (\<lambda>w. if w < PIM_BITMASK_WORD PARTITION_N_NODES then 0 else pc_src_endnodes core w),
       pc_dst_endnodes := (\<lambda>w. if w < PIM_BITMASK_WORD PARTITION_N_NODES then 0 else pc_dst_endnodes core w)\<rparr>) st1"
  define st3 where "st3 = upd_pc p (pc_admitted_update (\<lambda>_. a)) (st2\<lparr>ps_admitted_traffic_mempool := mp\<rparr>)"
  define st4 where "st4 = st3\<lparr>ps_adms := (ps_adms st3)(a := set_admitted_partition (init_admitted_traffic (ps_adms st3 a)) (of_nat p))\<rparr>"
  have run: "pim_prepare p st = Some st4"
    using mp(1) pool(1) by (simp add: pim_prepare_def st1(1) Let_def st4_def st3_def st2_def) (simp add: upd_pc_def)
  have "inv_part st4 = inv_part st1" by (simp add: inv_part_def st4_def st3_def st2_def upd_pc_def fun_eq_iff)
  note I = inv_part_eqD [OF this]
  have bits: "sal st4 x \<longleftrightarrow> PARTITION_OF x \<noteq> p \<and> sal st1 x" "dal st4 x \<longleftrightarrow> PARTITION_OF x \<noteq> p \<and> dal st1 x" for x
  proof -
    have "PARTITION_IDX x div 8 < 16" using partition_idx_less [of x] by (simp add: less_mult_imp_div_less del: partition_idx_less)
    then show "sal st4 x \<longleftrightarrow> PARTITION_OF x \<noteq> p \<and> sal st1 x" "dal st4 x \<longleftrightarrow> PARTITION_OF x \<noteq> p \<and> dal st1 x"
      by (auto simp: sal_def dal_def src_is_allocated_def dst_alloc_def mask_split(1) partition_consts(2) st4_def st3_def st2_def upd_pc_def Let_def)
  qed
  have adm: "adm_list (ps_adms st4 a) = []" "b \<noteq> a \<Longrightarrow> ps_adms st4 b = ps_adms st b" for b
    using pool(3) adm_list_init by (simp_all add: st4_def st3_def st2_def upd_pc_def adm_list_def set_admitted_partition_def init_admitted_traffic_def)
  have "prepared st p a st4 \<and> mp_list (ps_admitted_traffic_mempool st4) = as"
    unfolding prepared_def
  proof (intro conjI allI impI)
    show "pim_inv st4" using requests_taken_inv [OF assms(1,2) st1(2)] I(4) by simp
    show "known st4 = known st" using requests_taken_known [OF assms(1,2) st1(2)] I(3) by (simp add: fun_eq_iff)
    show "demand st4 = demand st" using alloc_part_eqD(1) [OF A] I(2) by simp
    show "sal st4 x \<longleftrightarrow> PARTITION_OF x \<noteq> p \<and> sal st x" "dal st4 x \<longleftrightarrow> PARTITION_OF x \<noteq> p \<and> dal st x" for x
      using bits alloc_part_eqD(2,3) [OF A] by simp_all
    show "req st4 s = req st s" if "PARTITION_OF s \<noteq> p" for s using requests_taken_req [OF assms(1,2) st1(2), of s] that I(1) by simp
    show "\<exists>s. PARTITION_OF s = p \<and> req st4 s \<noteq> []" if "\<exists>s. PARTITION_OF s = p \<and> known st s \<noteq> []"
      using requests_taken_some [OF assms(1,2) st1(2)] that unfolding I(1) by blast
    show "ps_adms st4 b = ps_adms st b" if "b \<noteq> a" for b using adm(2) [OF that] .
  qed (use mp assms(4) pool pc adm(1) in \<open>simp_all add: st4_def st3_def st2_def upd_pc_def\<close>)
  then show ?thesis by (simp add: run)
qed

text \<open>The state in which the first iteration starts.\<close>

definition slot_start :: "pim_state \<Rightarrow> nat \<Rightarrow> nat \<Rightarrow> pim_state \<Rightarrow> bool" where
  "slot_start st a b st0 \<longleftrightarrow> pim_inv st0 \<and> slot_ok st0 \<and> nothing_allocated st0 \<and> known st0 = known st \<and> demand st0 = demand st
     \<and> ps_q_admitted_out st0 = ps_q_admitted_out st \<and> pc_admitted (ps_cores st0 0) = a \<and> pc_admitted (ps_cores st0 1) = b
     \<and> admitted st0 0 = [] \<and> admitted st0 1 = []
     \<and> ((\<exists>s. in_range s \<and> known st s \<noteq> []) \<longrightarrow> (\<exists>s. in_range s \<and> req st0 s \<noteq> []))"

lemma pim_inv_reqs_ok:
  assumes "pim_inv st"
  shows "reqs_ok st"
  unfolding reqs_ok_def
proof (intro allI impI)
  fix s assume s: "in_range s"
  show "distinct (req st s) \<and> (\<forall>d \<in> set (req st s). in_range d \<and> demand st s d \<noteq> 0)"
    using pim_inv_known(1-3) [OF assms s] by (auto simp: known_def)
qed

lemma prepare_both:
  assumes "pim_inv st" "mp_inv (ps_admitted_traffic_mempool st)" "mp_list (ps_admitted_traffic_mempool st) = as @ [b, a]" "a \<noteq> b"
  shows "returns (for_each pim_prepare [0 ..< N_PARTITIONS] st) (slot_start st a b)"
proof (rule for_each_partitions)
  show "returns (pim_prepare 0 st) (\<lambda>st1. prepared st 0 a st1 \<and> mp_list (ps_admitted_traffic_mempool st1) = as @ [b])"
    using assms(3) by (intro prepare_step assms(1,2)) simp_all
  fix st1 assume st1: "prepared st 0 a st1 \<and> mp_list (ps_admitted_traffic_mempool st1) = as @ [b]"
  note D1 = preparedD [OF conjunct1 [OF st1]]
  have "returns (pim_prepare 1 st1) (\<lambda>st0. prepared st1 1 b st0 \<and> mp_list (ps_admitted_traffic_mempool st0) = as)"
    using st1 by (intro prepare_step D1(1,5)) simp_all
  then show "returns (pim_prepare 1 st1) (slot_start st a b)"
  proof (rule returns_mono)
    fix st0 assume "prepared st1 1 b st0 \<and> mp_list (ps_admitted_traffic_mempool st0) = as"
    note D0 = preparedD [OF conjunct1 [OF this]]
    have bits: "nothing_allocated st0" unfolding nothing_allocated_def D0(9,10) D1(9,10) by (simp add: less_2_cases_iff)
    have adm: "pc_admitted (ps_cores st0 0) = a" "pc_admitted (ps_cores st0 1) = b" "admitted st0 0 = []" "admitted st0 1 = []"
      using D0(6-8) D1(6-7) assms(4) by (simp_all add: admitted_def)
    have "\<forall>q < 2. \<forall>p < 2. accepted st0 q p = []" using D0(1) unfolding pim_inv_def by blast
    then have slot: "slot_ok st0" using assms(4) pim_inv_reqs_ok [OF D0(1)] adm
      unfolding slot_ok_def adm_ok_def less_2_cases_iff by (auto simp: matching_def)
    have "\<exists>s. in_range s \<and> req st0 s \<noteq> []" if s: "in_range s" "known st s \<noteq> []" for s
    proof (cases "PARTITION_OF s = 0")
      case True
      then obtain t where t: "PARTITION_OF t = 0" "req st1 t \<noteq> []" using D1(12) [OF True s(2)] by blast
      then have "req st0 t \<noteq> []" using D0(11) [of t] by simp
      then show ?thesis using t(1) by (intro exI [of _ t]) simp
    next
      case False
      then have "PARTITION_OF s = 1" "known st1 s \<noteq> []" using s D1(2) by simp_all
      then obtain t where "PARTITION_OF t = 1" "req st0 t \<noteq> []" using D0(12) by blast
      then show ?thesis by (intro exI [of _ t]) simp
    qed
    then show "slot_start st a b st0" using bits adm slot D0(1-4) D1(2-4) unfolding slot_start_def by auto
  qed
qed

section \<open>The end of a slot\<close>

lemma slot_known:
  assumes "pim_inv st0" "slot_from st0 st es" "in_range s"
  shows "distinct (known st s)" "set (known st s) = {d \<in> set (known st0 s). demand st s d \<noteq> 0}"
proof -
  have t: "took st0 st es" using assms(2) by (simp add: slot_from_def)
  have k: "known st s = req st s @ pending_dsts st0 s"
    using assms(2) by (auto simp: slot_from_def outer_def known_def pending_dsts_def bin_edges_def fun_eq_iff)
  have d: "set (req st0 s) \<inter> set (pending_dsts st0 s) = {}" "distinct (pending_dsts st0 s)" using pim_inv_known(1) [OF assms(1,3)] by (simp_all add: known_def)
  have r: "set (req st s) = {d \<in> set (req st0 s). demand st s d \<noteq> 0}" by (rule tookD(6) [OF t assms(3)])
  then show "distinct (known st s)" unfolding k using tookD(5) [OF t assms(3)] d by auto
  have "demand st s u \<noteq> 0" if u: "u \<in> set (pending_dsts st0 s)" for u
  proof -
    have ku: "u \<in> set (known st0 s)" using u by (simp add: known_def)
    have "(s, u) \<notin> set es" using assms(2) d(1) u unfolding slot_from_def by fastforce
    then have "unat (demand st s u) = unat (demand st0 s u)" using tookD(3) [OF t assms(3) pim_inv_known(2) [OF assms(1,3) ku]] by simp
    then show ?thesis using pim_inv_known(3) [OF assms(1,3) ku] by (simp add: word_unat_eq_iff)
  qed
  then show "set (known st s) = {d \<in> set (known st0 s). demand st s d \<noteq> 0}" unfolding k known_def [of st0] set_append r by blast
qed

lemma slot_inv:
  assumes "pim_inv st0" "slot_from st0 st es"
  shows "pim_inv st"
proof -
  have o: "ps_bins st = ps_bins st0" "ps_bin_mempool st = ps_bin_mempool st0" "pc_q_new_demands (ps_cores st p) = pc_q_new_demands (ps_cores st0 p)" for p
    using assms(2) by (simp_all add: slot_from_def outer_def fun_eq_iff)
  have "\<forall>q < 2. \<forall>p < 2. accepted st q p = []" using assms(2) unfolding slot_from_def slot_ok_def by blast
  moreover have "distinct (known st s) \<and> (\<forall>d \<in> set (known st s). in_range d \<and> demand st s d \<noteq> 0)" if s: "in_range s" for s
    using slot_known [OF assms s] pim_inv_known(2) [OF assms(1) s] by simp
  ultimately show ?thesis using assms(1) unfolding pim_inv_def o bin_edges_def by blast
qed

lemma complete_both:
  assumes "ring_inv (ps_q_admitted_out st)" "ring_list (ps_q_admitted_out st) = []" "2 \<le> ring_cap (ps_q_admitted_out st)"
  shows "\<exists>q. for_each pim_complete_timeslot [0 ..< N_PARTITIONS] st = Some (st\<lparr>ps_q_admitted_out := q\<rparr>) \<and> ring_inv q
    \<and> ring_cap q = ring_cap (ps_q_admitted_out st) \<and> ring_list q = [pc_admitted (ps_cores st 0), pc_admitted (ps_cores st 1)]"
proof -
  obtain q1 where q1: "fp_ring_enqueue (ps_q_admitted_out st) (pc_admitted (ps_cores st 0)) = Some q1" "ring_inv q1"
    "ring_cap q1 = ring_cap (ps_q_admitted_out st)" "ring_list q1 = [pc_admitted (ps_cores st 0)]"
    using rq.enq_room [OF assms(1), of "pc_admitted (ps_cores st 0)"] assms(2,3) by auto
  obtain q2 where q2: "fp_ring_enqueue q1 (pc_admitted (ps_cores st 1)) = Some q2" "ring_inv q2" "ring_cap q2 = ring_cap q1"
    "ring_list q2 = [pc_admitted (ps_cores st 0), pc_admitted (ps_cores st 1)]"
    using rq.enq_room [OF q1(2), of "pc_admitted (ps_cores st 1)"] q1(3,4) assms(3) by auto
  have "[0 ..< N_PARTITIONS] = [0, 1]" by (simp add: partition_consts upt_rec)
  then show ?thesis using q1 q2 by (intro exI [of _ q2]) (simp add: pim_complete_timeslot_def)
qed

section \<open>The check of the admitted traffic\<close>

abbreviation edge_at :: "admitted_traffic \<Rightarrow> nat \<Rightarrow> u16 \<times> u16" where
  "edge_at ad j \<equiv> (a_src (ad_edges ad j), a_dst (ad_edges ad j))"

lemma check_edges_ok:
  assumes "\<forall>j \<in> set js. j < unat (ad_size ad)"
    "matching (map (edge_at ad) js)" "fst ` set (map (edge_at ad) js) \<inter> srcs = {}" "snd ` set (map (edge_at ad) js) \<inter> dsts = {}"
    "\<forall>(s, d) \<in> set (map (edge_at ad) js). in_range s \<and> in_range d"
  shows "check_edges ad js srcs dsts = Some (True, srcs \<union> fst ` set (map (edge_at ad) js), dsts \<union> snd ` set (map (edge_at ad) js))"
  using assms
proof (induction js arbitrary: srcs dsts)
  case (Cons j js)
  have u: "unat (of_nat j :: u16) = j" using Cons.prems(1) less_trans [OF _ unat_u16_less] by (intro unat_of_nat_word) auto
  then have "\<not> ad_size ad < of_nat j" using Cons.prems(1) by (simp add: word_less_nat_alt)
  then have g: "get_admitted_edge ad (of_nat j) = Some (ad_edges ad j)" by (simp add: get_admitted_edge_def u)
  have n: "unat (a_src (ad_edges ad j)) < MAX_NODES" "unat (a_dst (ad_edges ad j)) < MAX_NODES" using Cons.prems(5) by (simp_all add: node_in_partition)
  have "check_edges ad js (insert (a_src (ad_edges ad j)) srcs) (insert (a_dst (ad_edges ad j)) dsts)
    = Some (True, insert (a_src (ad_edges ad j)) srcs \<union> fst ` set (map (edge_at ad) js),
        insert (a_dst (ad_edges ad j)) dsts \<union> snd ` set (map (edge_at ad) js))"
    using Cons.prems by (intro Cons.IH) (auto simp: matching_def)
  then show ?case using Cons.prems(3,4) n by (simp add: g)
qed simp

lemma check_adm_list:
  assumes "matching (adm_list ad)" "fst ` set (adm_list ad) \<inter> srcs = {}" "snd ` set (adm_list ad) \<inter> dsts = {}"
    "\<forall>(s, d) \<in> set (adm_list ad). in_range s \<and> in_range d"
  shows "check_edges ad [0 ..< unat (ad_size ad)] srcs dsts = Some (True, srcs \<union> fst ` set (adm_list ad), dsts \<union> snd ` set (adm_list ad))"
  using assms unfolding adm_list_def by (intro check_edges_ok) simp_all

lemma check_both:
  assumes "ring_inv (ps_q_admitted_out st)" "ring_list (ps_q_admitted_out st) = [a, b]" "2 \<le> ring_cap (ps_q_admitted_out st)"
    "matching (adm_list (ps_adms st a) @ adm_list (ps_adms st b))"
    "\<forall>(s, d) \<in> set (adm_list (ps_adms st a) @ adm_list (ps_adms st b)). in_range s \<and> in_range d"
  shows "\<exists>st'. pim_is_valid_admitted_traffic st = Some (True, st')"
proof -
  let ?A = "adm_list (ps_adms st a)" and ?B = "adm_list (ps_adms st b)"
  obtain q1 where q1: "fp_ring_dequeue (ps_q_admitted_out st) = Some (a, q1)" "ring_inv q1" "ring_cap q1 = ring_cap (ps_q_admitted_out st)" "ring_list q1 = [b]"
    using rq.deq_Cons [OF assms(1,2)] by blast
  obtain q2 where q2: "fp_ring_enqueue q1 a = Some q2" "ring_inv q2" "ring_list q2 = [b, a]"
    using rq.enq_room [OF q1(2), of a] q1(3,4) assms(3) by auto
  obtain q3 where q3: "fp_ring_dequeue q2 = Some (b, q3)" using rq.deq_Cons [OF q2(2,3)] by blast
  have a: "check_edges (ps_adms st a) [0 ..< unat (ad_size (ps_adms st a))] {} {} = Some (True, fst ` set ?A, snd ` set ?A)"
    using check_adm_list [of "ps_adms st a" "{}" "{}"] assms(4,5) by (auto simp: matching_def)
  have b: "check_edges (ps_adms st b) [0 ..< unat (ad_size (ps_adms st b))] (fst ` set ?A) (snd ` set ?A) = Some (True, fst ` set ?A \<union> fst ` set ?B, snd ` set ?A \<union> snd ` set ?B)"
    using assms(4,5) by (intro check_adm_list) (auto simp: matching_def)
  have "[0 ..< N_PARTITIONS] = [0, 1]" by (simp add: partition_consts upt_rec)
  then show ?thesis unfolding pim_is_valid_admitted_traffic_def by (simp add: Let_def q1(1) q2(1) q3 a b)
qed

section \<open>A time slot\<close>

text \<open>Two lists for the admitted traffic are free, and the queue of admitted traffic is empty and has room for them.\<close>

definition slot_room :: "pim_state \<Rightarrow> bool" where
  "slot_room st \<longleftrightarrow> mp_inv (ps_admitted_traffic_mempool st) \<and> 2 \<le> length (mp_list (ps_admitted_traffic_mempool st))
     \<and> distinct (mp_list (ps_admitted_traffic_mempool st))
     \<and> ring_inv (ps_q_admitted_out st) \<and> ring_list (ps_q_admitted_out st) = [] \<and> 2 \<le> ring_cap (ps_q_admitted_out st)"

lemma slot_room_pool:
  assumes "slot_room st"
  obtains as a b where "mp_list (ps_admitted_traffic_mempool st) = as @ [b, a]" "a \<noteq> b"
proof -
  let ?xs = "mp_list (ps_admitted_traffic_mempool st)"
  obtain ys a where ys: "?xs = ys @ [a]" using assms by (cases ?xs rule: rev_cases) (auto simp: slot_room_def)
  then obtain as b where "ys = as @ [b]" using assms by (cases ys rule: rev_cases) (auto simp: slot_room_def)
  then show thesis using that [of as b a] ys assms by (auto simp: slot_room_def)
qed

lemma slot_result:
  assumes "slot_start st a b st0" "slot_from st0 st1 es"
  shows "adm_list (ps_adms st1 a) @ adm_list (ps_adms st1 b) = admitted_pairs st1" "matching (admitted_pairs st1)"
    "set (admitted_pairs st1) = set es" "e \<in> set es \<Longrightarrow> in_range (fst e)" "e \<in> set es \<Longrightarrow> snd e \<in> set (known st (fst e))"
    "pc_admitted (ps_cores st1 0) = a" "pc_admitted (ps_cores st1 1) = b" "ps_q_admitted_out st1 = ps_q_admitted_out st"
proof -
  have t: "took st0 st1 es" "outer st1 = outer st0" "slot_ok st1" and start: "admitted st0 0 = []" "admitted st0 1 = []" "known st0 = known st"
    using assms by (simp_all add: slot_from_def slot_start_def)
  show pc: "pc_admitted (ps_cores st1 0) = a" "pc_admitted (ps_cores st1 1) = b" "ps_q_admitted_out st1 = ps_q_admitted_out st"
    using t(2) assms(1) by (simp_all add: outer_def slot_start_def fun_eq_iff)
  show "adm_list (ps_adms st1 a) @ adm_list (ps_adms st1 b) = admitted_pairs st1" unfolding admitted_def pc ..
  show "matching (admitted_pairs st1)" using t(3) by (simp add: slot_ok_def adm_ok_def)
  show r: "in_range (fst e)" if "e \<in> set es" for e using assms(2) that by (simp add: slot_from_def)
  show "set (admitted_pairs st1) = set es" using tookD(1) [OF t(1), of 0] tookD(1) [OF t(1), of 1] start(1,2) r by (auto simp: less_2_cases_iff)
  show "snd e \<in> set (known st (fst e))" if "e \<in> set es" for e using assms(2) that by (simp add: slot_from_def known_def flip: start(3))
qed


section \<open>An example\<close>

text \<open>A decrease as the allocator expects it, and a state in which source 0 has demand to destination 200, in a bin that is queued.\<close>

definition ex_dec :: decrease where
  "ex_dec b s d = do {
     i \<leftarrow> pair_index s d;
     let n = bl_n b i - 1;
     Some (n, b\<lparr>bl_n := (bl_n b)(i := n)\<rparr>)
   }"

lemma ex_dec_ok: "dec_ok ex_dec"
  unfolding dec_ok_def
proof (intro allI impI)
  fix b s d n assume r: "in_range s" "in_range d" and n: "backlog_get b s d = Some n"
  note P = node_in_partition [THEN iffD1]
  have i: "pair_index s d = Some (unat s * 256 + unat d)" using pair_index_eq [OF P [OF r(1)] P [OF r(2)]] .
  show "\<exists>b'. ex_dec b s d = Some (n - 1, b') \<and> (\<forall>s' d'. in_range s' \<longrightarrow> in_range d' \<longrightarrow>
      backlog_get b' s' d' = (if s' = s \<and> d' = d then Some (n - 1) else backlog_get b s' d'))"
  proof (intro exI conjI allI impI)
    show "ex_dec b s d = Some (n - 1, b\<lparr>bl_n := (bl_n b)(unat s * 256 + unat d := n - 1)\<rparr>)" using n by (simp add: ex_dec_def i backlog_get_def Let_def)
    fix s' d' assume r': "in_range s'" "in_range d'"
    show "backlog_get (b\<lparr>bl_n := (bl_n b)(unat s * 256 + unat d := n - 1)\<rparr>) s' d' = (if s' = s \<and> d' = d then Some (n - 1) else backlog_get b s' d')"
      using pair_index_inj [OF P [OF r(1)] P [OF r(2)] P [OF r'(1)] P [OF r'(2)]] pair_index_eq [OF P [OF r'(1)] P [OF r'(2)]]
      by (auto simp: backlog_get_def i)
  qed
qed

definition ex_pim_core :: "nat \<Rightarrow> pim_core_state" where
  "ex_pim_core p = \<lparr>pc_rand_state = 1, pc_admitted = 0, pc_grant_adj_index = (\<lambda>_. 0), pc_src_endnodes = (\<lambda>_. 255), pc_dst_endnodes = (\<lambda>_. 255),
     pc_q_new_demands = ex_queue 7 (if p = 0 then [7] else []), pc_stat = ex_core_stat\<rparr>"

definition ex_pim :: pim_state where
  "ex_pim = (let adj = \<lparr>adj_degree = (\<lambda>_. 0), adj_neigh = (\<lambda>_ _. 0)\<rparr>; el = \<lparr>el_n = 0, el_edge = (\<lambda>_. \<lparr>ge_src = 0, ge_dst = 0\<rparr>)\<rparr>
     in \<lparr>ps_requests_by_src = (\<lambda>_. adj), ps_grants = (\<lambda>_ _. el), ps_grants_by_dst = (\<lambda>_. adj), ps_accepts = (\<lambda>_ _. el),
       ps_backlog = \<lparr>bl_n = (\<lambda>i. if i = 200 then 3 else 0), bl_is_active = (\<lambda>_. 0)\<rparr>, ps_new_demands = (\<lambda>p. 8 + p), ps_q_admitted_out = ex_queue 7 [],
       ps_bin_mempool = \<lparr>mp_total = 16, mp_cur = 6, mp_elements = id\<rparr>, ps_admitted_traffic_mempool = \<lparr>mp_total = 16, mp_cur = 16, mp_elements = id\<rparr>,
       ps_cores = ex_pim_core, ps_stat = ex_stat, ps_bins = (\<lambda>a. ex_small_bin (if a = 7 then [ex_edge 0 200 0] else [])),
       ps_adms = (\<lambda>_. create_admitted_traffic (\<lambda>_. \<lparr>a_src = 0, a_dst = 0\<rparr>))\<rparr>)"

lemma ex_pim_queue:
  "ring_inv (pc_q_new_demands (ps_cores ex_pim p))" "queue_of ex_pim p = (if p = 0 then [7] else [])"
  "ring_inv (ps_q_admitted_out ex_pim)" "ring_list (ps_q_admitted_out ex_pim) = []" "ring_cap (ps_q_admitted_out ex_pim) = 7"
proof -
  have m: "(7 :: u32) = mask 3" by (simp add: mask_eq_exp_minus_1)
  show "ring_inv (pc_q_new_demands (ps_cores ex_pim p))" "queue_of ex_pim p = (if p = 0 then [7] else [])"
    "ring_inv (ps_q_admitted_out ex_pim)" "ring_list (ps_q_admitted_out ex_pim) = []" "ring_cap (ps_q_admitted_out ex_pim) = 7"
    using ex_queue_ok [OF _ m, of "if p = 0 then [7] else []"] ex_queue_ok [OF _ m, of "[]"] by (simp_all add: ex_pim_def ex_pim_core_def Let_def)
qed

lemma ex_pim_edges: "bin_edges ex_pim (queue_of ex_pim p) = (if p = 0 then [ex_edge 0 200 0] else [])"
proof -
  have "bin_list (ex_small_bin [ex_edge 0 200 0]) = [ex_edge 0 200 0]" using ex_small_bin_ok [of "[ex_edge 0 200 0]"] by (simp add: SMALL_BIN_SIZE_def)
  moreover have "ps_bins ex_pim 7 = ex_small_bin [ex_edge 0 200 0]" by (simp add: ex_pim_def Let_def)
  ultimately show ?thesis by (simp add: ex_pim_queue(2) bin_edges_def)
qed

lemma ex_pim_known: "known ex_pim s = (if s = 0 then [200] else [])"
proof -
  have "req ex_pim s = []" by (simp add: req_def adj_list_def ex_pim_def Let_def)
  then show ?thesis by (auto simp: known_def pending_dsts_def ex_pim_edges ex_edge_def partition_consts)
qed

lemma ex_pim_demand: "demand ex_pim 0 200 = 3"
  using pair_index_eq [of 0 200] by (simp add: demand_def backlog_get_def MAX_NODES_def ex_pim_def Let_def)

lemma ex_pim_inv: "pim_inv ex_pim"
  unfolding pim_inv_def
proof (intro conjI allI impI)
  show "distinct (known ex_pim s)" "\<forall>d \<in> set (known ex_pim s). in_range d \<and> demand ex_pim s d \<noteq> 0" for s
    by (simp_all add: ex_pim_known ex_pim_demand partition_consts)
  show "\<forall>a \<in> set (queue_of ex_pim p). bin_list (ps_bins ex_pim a) \<noteq> []" for p using ex_pim_edges [of p] by (auto simp: ex_pim_queue(2) bin_edges_def)
  show "\<forall>e \<in> set (bin_edges ex_pim (queue_of ex_pim p)). PARTITION_OF (e_src e) = p" for p by (simp add: ex_pim_edges ex_edge_def partition_consts)
  show "accepted ex_pim q p = []" for q p by (simp add: ex_pim_def Let_def el_list_def)
  show "mp_inv (ps_bin_mempool ex_pim)" by (simp add: ex_pim_def Let_def mp_inv_def)
  show "length (mp_list (ps_bin_mempool ex_pim)) + length (queue_of ex_pim 0) + length (queue_of ex_pim 1) \<le> unat (mp_total (ps_bin_mempool ex_pim))"
    by (simp add: ex_pim_queue(2)) (simp add: ex_pim_def Let_def mp_list_def)
qed (rule ex_pim_queue(1))

lemma ex_pim_room: "slot_room ex_pim"
  using ex_pim_queue(3-5) by (simp add: slot_room_def) (simp add: ex_pim_def Let_def mp_inv_def mp_list_def)


end
