(* ===== verification/Spec2Isabelle.thy ===== *)
theory Spec2Isabelle
  imports Window_Spec Proto_Props Pacer Topology Alloc_Props Alloc_Init Requests Bin_Index
    Kapoor_Rizzi Path_Props Bigmap End_To_End Sch_Run Pim_Props
begin

text \<open>
  Verification of the Fastpass/Flexplane sources.

  Fastpass is a data center network in which a central arbiter decides when each packet is sent. End nodes
  report their demands to the arbiter over a reliable datagram protocol; the arbiter allocates time slots, such
  that in a slot no node sends or receives twice, and reports the allocations back over the same protocol.
  The development covers the parts that carry the logic: the protocol, which runs in the kernel module of
  the end node and in the arbiter, the pipelined time slot allocator of the arbiter with its selection of paths,
  the communication core, which connects the allocator with the end nodes, and the queueing discipline of the
  end node, which holds the packets back until their time slots are allocated.

  \<^bold>\<open>Conventions.\<close> Every function of the source is a function of the model with the same name. Machine
  integers are words of their width, so that wrap-around is the one of C. A struct is a record, whose fields
  carry a short prefix. A result \<open>None\<close> is a failed assertion (\<open>BUG_ON\<close>, \<open>assert\<close>), an access outside of an array
  or a wait that nothing in the model ends; a property that concludes \<open>= Some _\<close> shows that none of these
  happens. Loops are recursions over a list or a measure, or \<open>partial_function (option)\<close> where the source has an
  unbounded loop; that those end is proved. The predicate \<open>returns\<close> of \<open>FP_Prelude\<close> is total correctness: the
  computation ends without a failure in a state that satisfies the postcondition.

  \<^bold>\<open>The protocol\<close>, \<^verbatim>\<open>src/src/protocol\<close>.

    \<^item> \<open>Platform\<close>: \<^verbatim>\<open>platform/generic.h\<close>, the bit arrays, serial-number comparisons, the Jenkins hash and the
      checksum.
    \<^item> \<open>Window\<close>, \<open>Window_Query\<close>, \<open>Window_Update\<close>, \<open>Window_Spec\<close>: \<^verbatim>\<open>window.h\<close>, the sliding window of marked
      sequence numbers with its two-level bitmap. \<open>Window_Spec\<close> states a window as a set and shows that every
      run of operations refines it.
    \<^item> \<open>Outwnd\<close>: \<^verbatim>\<open>outwnd.h\<close>, the descriptors of the packets in flight.
    \<^item> \<open>Conn\<close>, \<open>Proto\<close>: \<^verbatim>\<open>fpproto.h\<close> and \<^verbatim>\<open>fpproto.c\<close>, the state of a connection and every function on it.
      Callbacks of the client are events in a list. \<open>Proto_Codec\<close> has the encoding of packets.
    \<^item> \<open>Proto_Inwnd\<close>, \<open>Proto_Ack\<close>, \<open>Proto_Reset\<close>, \<open>Proto_Run\<close>, \<open>Proto_Wire\<close>, \<open>Proto_Props\<close>: what the functions
      do. A packet is accepted at most once; acknowledgements and timeouts report exactly the packets they
      concern; resets synchronise the two ends; descriptors are neither leaked nor freed twice in any run of a
      connection, and no run fails; encoding and decoding agree, with the exceptions the properties name.
    \<^item> \<open>Proto_Track\<close>: which packets await an acknowledgement, and that each of them is acknowledged, reported as lost or
      swept away by a reset, with a callback for it. It is what the end node relies on for its requests.
    \<^item> \<open>Pacer\<close>: \<^verbatim>\<open>pacer.h\<close>, a token bucket. \<open>Topology\<close>: \<^verbatim>\<open>topology.h\<close> and \<^verbatim>\<open>flags.h\<close>, node identifiers and the tables of
      the emulation schemes.

  \<^bold>\<open>The allocator\<close>, \<^verbatim>\<open>src/src/graph-algo\<close>, in the build without DPDK, whose clock advances by one time slot in
  each round of the main loop.

    \<^item> \<open>Ring\<close>: \<^verbatim>\<open>fp_ring.h\<close> and the memory pool of \<^verbatim>\<open>platform.h\<close>. The locale \<open>bounded_queue\<close> is the contract the
      allocator relies on; the ring is an interpretation of it. \<open>Bins\<close>: \<^verbatim>\<open>bin.h\<close> and \<^verbatim>\<open>admitted.h\<close>. \<open>Batch\<close>:
      \<^verbatim>\<open>batch.h\<close>, the bitmaps of free time slots. \<open>Algo_Log\<close>, \<open>Backlog\<close>: \<^verbatim>\<open>admissible_algo_log.h\<close>, \<^verbatim>\<open>backlog.h\<close>,
      \<^verbatim>\<open>bitasm.h\<close>.
    \<^item> \<open>Admissible\<close>: \<^verbatim>\<open>admissible_structures.h\<close>, \<^verbatim>\<open>admissible_traffic.h\<close> and the request side of
      \<^verbatim>\<open>admissible_traffic.c\<close>. \<open>Allocator\<close>: one batch of a core, \<open>seq_get_admissible_traffic\<close>, with the jumps of the
      source as the order of its blocks.
    \<^item> \<open>Streams\<close>: bins of demands travel by pointer between the request side, the cores and the spent reports.
      The locale \<open>bin_stream\<close> states what filling and flushing an open bin does, once, and is interpreted for
      the three streams. \<open>Alloc_Mem\<close>: the ownership of the bins.
    \<^item> \<open>Alloc_Inv\<close> has the invariant \<open>binv\<close> of a batch: memory, room of the rings and the pool (each entry and each
      waiting bin reserves its room in advance), matching of the time slots, conservation of packets and of
      flows. \<open>Alloc_Step\<close>, \<open>Alloc_Loop\<close>, \<open>Alloc_Input\<close>, \<open>Alloc_Batch\<close>, \<open>Alloc_Wrap\<close>, \<open>Alloc_Start\<close> carry it through one
      entry, the loops over bins, the incoming bins, the rounds of the clock, the end and the start of a batch.
      \<open>Alloc_Props\<close> has the properties. \<open>Alloc_Init\<close> shows that the initialisation establishes what a batch needs.
    \<^item> \<open>Requests\<close>: the packets pending for a pair through requests, spent reports and resets. \<open>Bin_Index\<close>: the
      priority of a flow. \<open>Alloc_Example\<close>: a state on which the properties are applied.

    \<^item> \<open>Pim\<close>: \<^verbatim>\<open>src/src/grant-accept\<close>, the other allocator of the repository, parallel iterative matching, in the build of
      its directory with one core. \<open>Pim_Basics\<close> reads its adjacency structures, lists of edges, bitmasks and random numbers as lists and
      sets; \<open>Pim_Grant\<close>, \<open>Pim_Accept\<close> and \<open>Pim_Process\<close> have the three steps, \<open>Pim_Iteration\<close> an iteration over both
      partitions, \<open>Pim_Slot\<close> the iterations of a slot and the new requests, \<open>Pim_Props\<close> the property of a slot.

  \<^bold>\<open>Paths.\<close> The packets that were admitted in a time slot are spread over the paths between the racks.

    \<^item> \<open>Graph\<close>, \<open>Graph_Inv\<close>: \<^verbatim>\<open>graph.h\<close>, bipartite multigraphs as bitmaps over shared adjacency arrays, and what they
      stand for. \<open>Euler\<close>: \<^verbatim>\<open>euler_split.c\<close>. The locale \<open>euler_walk\<close> is the argument of Euler splits, for any walker that
      takes the edges of a graph along closed trails; it is interpreted for \<open>split\<close> and for the loop of
      \<open>split_and_populate_paths\<close>.
    \<^item> \<open>Kapoor_Rizzi\<close>: \<^verbatim>\<open>kapoor_rizzi.c\<close>, edge colouring. \<open>Path_Selection\<close>: \<^verbatim>\<open>path_selection.c\<close>. \<open>Path_Graph\<close> shows that the graph
      of the racks is regular, \<open>Path_Assign\<close> follows the packets of a pair of racks, and \<open>Path_Props\<close> shows that the
      check of the code accepts every selection.

  \<^bold>\<open>The communication core\<close>, \<^verbatim>\<open>src/src/arbiter\<close>, in the build with the pipelined allocator.

    \<^item> \<open>Timer_Wheel\<close>: \<^verbatim>\<open>fp_timer.h\<close>. The locale \<open>timer_service\<close> is what the core relies on; the wheel is an interpretation, and
      a run of it refines a table of deadlines. \<open>Counter_Queue\<close>: queues with free running counters, as the
      locale \<open>fifo_buffer\<close>, and \<^verbatim>\<open>circular_queue.h\<close>. \<open>Bigmap\<close>: \<^verbatim>\<open>bigmap.h\<close>, sets of nodes.
    \<^item> \<open>Comm_Core\<close>: the state of \<^verbatim>\<open>comm_core.c\<close>, the callbacks of the protocol, admitted traffic and transmission. The protocol
      model lists its callbacks as events; \<open>with_conn\<close> runs a call of the protocol and then its events.
      \<open>Comm_Loop\<close>: reception, start-up, the rounds of the main loop and the loop of the backup arbiter.
    \<^item> \<open>Comm_Demand\<close>: demands from 16-bit counts, and requests as backlog of the allocator. \<open>Comm_Report\<close>: the queue of
      reports and the queue of waiting allocations. \<open>Comm_Alloc\<close>: the bytes of the allocations in a packet.
      \<open>Comm_Inv\<close>: the invariant that ties report queues, pacers and transmission timers; \<open>Comm_Tx\<close> carries it through
      transmissions, rounds and start-up. \<open>Comm_Props\<close>: the properties.

  \<^bold>\<open>The end node\<close>, \<^verbatim>\<open>src/src/kernel-mod\<close>, in the build without emulation.

    \<^item> \<open>Tsq\<close>: the data path of \<^verbatim>\<open>sch_timeslot.c\<close>: classification, the table of flows with its red-black trees and its
      lock, the sorting of packets into flows and time slots, and their admission. \<open>Tsq_Admin\<close>: reset, resizing, garbage
      collection, options, start and end of the discipline. The trees, hashes and checksums of the Linux kernel are the
      argument \<open>kernel\<close>, and \<open>kernel_ok\<close> says what is relied on: the trees keep their keys in order.
    \<^item> \<open>Tsq_Inv\<close>: the invariant of the discipline and the contents of its flows. The locale \<open>timeslot_service\<close> is what the client
      sees of it: queues of time slots per flow, of which the oldest is admitted.
    \<^item> \<open>Sch_Fastpass\<close>: \<^verbatim>\<open>sch_fastpass.c\<close>, the client that asks the arbiter for time slots and admits packets as they are
      allocated, with the callbacks of its protocol. \<open>Sch_Inv\<close>: its counters tell how many time slots of a flow wait, through
      every callback. \<open>Sch_Props\<close>: runs of the end node as a step relation, that they keep the packets of a flow in order,
      and the ways in which the lock of the table is lost.
    \<^item> \<open>Sch_Req\<close>: the invariant of the requests, which says where the demand of each flow is known: in the queue of
      requests, in a packet under way, or at the arbiter. \<open>Sch_Demand\<close> carries it through every callback and \<open>Sch_Run\<close> through
      runs: no demand is forgotten. The runs are those in which the 64-bit counters stay below \<open>2 ^ 60\<close> and the sequence
      numbers do not wrap.
    \<^item> \<open>End_To_End\<close>: the arbiter and the end node together, from the
      queue of allocations of the arbiter through the encoding of the protocol to the flows of the end node.

  \<^bold>\<open>Bounds.\<close> The main loop of a batch ends after 48 rounds whatever the state, since the clock starts 33 slots
  before the batch and moves with the rounds; the loop over the allowed bins ends because the lowest non-empty
  bin rises in every round. The properties of a batch ask for room in the rings and the pool for the demands at
  hand (\<open>batch_pre\<close>), for counters of the outgoing ring that are away from their 32-bit wrap, where the bulk
  insertion fails (\<open>Ring\<close>), and for demands that were not last served in the time slots of the same batch.

  Properties of the timers ask for a clock that does not go back and does not pause for more than a hundred turns
  of the wheel, which is the sanity check of the code.

  \<^bold>\<open>Not modelled.\<close> The two cores of a pipeline run at the same time in the arbiter; here a batch of a core runs
  alone, and the other cores are seen through the rings and pools only. One communication core is modelled. What
  the network card, the clock and the pools of DPDK deliver is an argument; the frames that announce the arbiter,
  logging, start-up of the process and threads are left out. In the end node the tasklets and the network stack
  interleave at the calls of the model; the socket, the tables of \<^verbatim>\<open>/proc\<close> and the registration with the kernel are
  left out, as is the request data of the emulation. The grant-accept allocator is modelled in its build with
  one core only, so that the phases of several cores are left out. The emulation of
  networks (C++), printing, benchmarks and vendored code are not modelled.
\<close>

end
